(* ===== verification/Ink_Prelude.thy ===== *)
theory Ink_Prelude
  imports Main "HOL-Library.Word" "HOL-Library.Multiset"
begin

text \<open>
  What the component theories share: the names of the machine types, the outcome of code that
  may throw or loop forever, memory as a flat list of bytes with reads and writes at an offset,
  and the unbounded \<open>for (;;)\<close> loop that the linear-probing tables use.
\<close>

unbundle bit_operations_syntax

named_theorems mem_simps \<open>reads and writes of flat memory\<close>
named_theorems outcome_simps \<open>sequencing of outcomes\<close>

section \<open>Machine types\<close>

type_synonym u8 = "8 word"
type_synonym u16 = "16 word"
type_synonym u32 = "32 word"
type_synonym u64 = "64 word"
type_synonym bytes = "8 word list"

lemma unat_u8: "unat (b::u8) < 256"
  using unsigned_less [of b, where 'a = nat] by simp

text \<open>A pointer into a heap block: the identity of the block and a byte offset into it.\<close>

type_synonym ptr = "nat \<times> nat"

section \<open>Outcomes\<close>

text \<open>
  Code returns, throws (\<open>std::runtime_error\<close> with its message), or never comes back. Loops
  are \<open>option\<close>-valued, \<open>None\<close> meaning that the loop does not end.
\<close>

datatype 'a outcome = Returns 'a | Throws string | Diverges

fun obind :: "'a outcome \<Rightarrow> ('a \<Rightarrow> 'b outcome) \<Rightarrow> 'b outcome" where
  "obind (Returns x) f = f x"
| "obind (Throws e) f = Throws e"
| "obind Diverges f = Diverges"

definition from_loop :: "'a option \<Rightarrow> 'a outcome" where
  "from_loop r = (case r of None \<Rightarrow> Diverges | Some x \<Rightarrow> Returns x)"

lemma from_loop_simps [simp, outcome_simps]:
  "from_loop None = Diverges" "from_loop (Some x) = Returns x"
  by (simp_all add: from_loop_def)

lemma from_loop_Returns [simp]: "from_loop r = Returns x \<longleftrightarrow> r = Some x"
  by (cases r) simp_all

lemma obind_Returns_iff: "obind m f = Returns y \<longleftrightarrow> (\<exists>x. m = Returns x \<and> f x = Returns y)"
  by (cases m) simp_all

lemma obind_Returns_id [simp]: "obind m Returns = m"
  by (cases m) simp_all

lemma obind_assoc: "obind (obind m f) g = obind m (\<lambda>x. obind (f x) g)"
  by (cases m) simp_all

text \<open>\<open>pot n\<close>: \<open>n\<close> is a power of two.\<close>

definition pot :: "nat \<Rightarrow> bool" where
  "pot n \<longleftrightarrow> (\<exists>k. n = 2 ^ k)"

lemma pot_pos: "pot n \<Longrightarrow> 0 < n"
  by (auto simp: pot_def)

text \<open>The bit trick \<open>n & (n - 1)\<close> of the constructors recognises exactly the powers of two.\<close>

lemma and_odd: "Suc (2 * m) AND (2 * m) = 2 * (m::nat)"
  by (subst and_rec) simp
lemma and_pred_even: "0 < m \<Longrightarrow> (2 * m) AND (2 * m - Suc 0) = 2 * (m AND (m - Suc 0))" for m :: nat
proof -
  assume "0 < m"
  then have "2 * m - Suc 0 = 2 * (m - 1) + 1" by simp
  then show ?thesis by (simp add: and_rec [of "2*m"])
qed
lemma pot_even: "pot (2 * m) \<longleftrightarrow> pot m"
proof
  assume "pot (2 * m)"
  then obtain k where k: "2 * m = 2 ^ k" by (auto simp: pot_def)
  show "pot m"
  proof (cases k)
    case 0
    with k have "2 * m = 1" by simp
    then have False by presburger
    then show ?thesis ..
  next
    case (Suc j) with k show ?thesis by (auto simp: pot_def)
  qed
qed (auto simp: pot_def intro: power_Suc [symmetric])
lemma pot_odd: "pot (Suc (2 * m)) \<longleftrightarrow> m = 0"
proof
  assume "pot (Suc (2 * m))"
  then obtain k where k: "Suc (2 * m) = 2 ^ k" by (auto simp: pot_def)
  then show "m = 0" by (cases k) (simp, metis even_Suc even_mult_iff even_numeral power_Suc)
qed (auto simp: pot_def intro: exI [of _ 0])

lemma and_pred_zero_iff_pot: "0 < n \<Longrightarrow> n AND (n - 1) = 0 \<longleftrightarrow> pot n"
proof (induction n rule: less_induct)
  case (less n)
  show ?case
  proof (cases "even n")
    case True
    then obtain m where "n = 2 * m" by blast
    with less show ?thesis by (simp add: and_pred_even pot_even)
  next
    case False
    then obtain m where "n = Suc (2 * m)" using oddE by fastforce
    then show ?thesis by (simp add: and_odd pot_odd)
  qed
qed

section \<open>Flat memory\<close>

text \<open>
  A heap block is a list of bytes; \<open>mem_read off n m\<close> is the \<open>n\<close> bytes at offset \<open>off\<close> and
  \<open>mem_write off bs m\<close> the block after a \<open>memcpy\<close> of \<open>bs\<close> to \<open>off\<close>. Both are only used inside
  the block, which is what the range premises of the lemmas say.
\<close>

definition mem_read :: "nat \<Rightarrow> nat \<Rightarrow> 'a list \<Rightarrow> 'a list" where
  "mem_read off n m = take n (drop off m)"

definition mem_write :: "nat \<Rightarrow> 'a list \<Rightarrow> 'a list \<Rightarrow> 'a list" where
  "mem_write off bs m = take off m @ bs @ drop (off + length bs) m"

lemma length_mem_read [mem_simps]: "off + n \<le> length m \<Longrightarrow> length (mem_read off n m) = n"
  by (simp add: mem_read_def)

lemma length_mem_write [mem_simps]: "off + length bs \<le> length m \<Longrightarrow> length (mem_write off bs m) = length m"
  by (simp add: mem_write_def)

lemma mem_read_all [mem_simps]: "mem_read 0 (length m) m = m"
  by (simp add: mem_read_def)

lemma nth_mem_read [mem_simps]: "i < n \<Longrightarrow> off + n \<le> length m \<Longrightarrow> mem_read off n m ! i = m ! (off + i)"
  by (simp add: mem_read_def)

lemma nth_mem_write [mem_simps]:
  "off + length bs \<le> length m \<Longrightarrow> i < length m \<Longrightarrow>
   mem_write off bs m ! i = (if off \<le> i \<and> i < off + length bs then bs ! (i - off) else m ! i)"
  by (auto simp: mem_write_def nth_append)

lemma mem_read_write_disjoint [mem_simps]:
  assumes "off + length bs \<le> length m" "a + n \<le> length m" "a + n \<le> off \<or> off + length bs \<le> a"
  shows "mem_read a n (mem_write off bs m) = mem_read a n m"
  using assms by (intro nth_equalityI) (auto simp: length_mem_read length_mem_write nth_mem_read nth_mem_write)

lemma mem_read_write_inside [mem_simps]:
  assumes "off + length bs \<le> length m" "a + n \<le> length m" "a \<le> off" "off + length bs \<le> a + n"
  shows "mem_read a n (mem_write off bs m) = mem_write (off - a) bs (mem_read a n m)"
  using assms by (intro nth_equalityI) (auto simp: length_mem_read length_mem_write nth_mem_read nth_mem_write add.commute)

lemma mem_read_write_same [mem_simps]:
  assumes "off + length bs \<le> length m"
  shows "mem_read off (length bs) (mem_write off bs m) = bs"
  using assms by (intro nth_equalityI) (auto simp: length_mem_read length_mem_write nth_mem_read nth_mem_write)

lemma mem_read_read [mem_simps]: "b + k \<le> n \<Longrightarrow> mem_read b k (mem_read a n m) = mem_read (a + b) k m"
  by (simp add: mem_read_def take_drop add.commute)

lemma slots_disjoint: "i \<noteq> j \<Longrightarrow> i * sz + sz \<le> j * sz \<or> j * sz + sz \<le> i * (sz::nat)"
  by (metis add.commute linorder_neqE_nat mult_Suc mult_le_mono1 Suc_leI)

lemma slot_in_range: "i < n \<Longrightarrow> i * sz + sz \<le> n * (sz::nat)"
  by (metis add.commute mult_Suc mult_le_mono1 Suc_leI)


section \<open>The loop \<open>for (;;)\<close>\<close>

text \<open>
  \<open>probe_loop adv stop c\<close> is \<open>for (;;) { if (stop(c)) return c; c = adv(c); }\<close>; it is \<open>None\<close>
  exactly when no state of the orbit of \<open>c\<close> stops it.
\<close>

partial_function (option) probe_loop :: "('c \<Rightarrow> 'c) \<Rightarrow> ('c \<Rightarrow> bool) \<Rightarrow> 'c \<Rightarrow> 'c option" where
  "probe_loop adv stop c = (if stop c then Some c else probe_loop adv stop (adv c))"

declare probe_loop.simps [code]

lemma probe_loop_least:
  "stop ((adv ^^ k) c) \<Longrightarrow> (\<And>m. m < k \<Longrightarrow> \<not> stop ((adv ^^ m) c)) \<Longrightarrow>
   probe_loop adv stop c = Some ((adv ^^ k) c)"
proof (induction k arbitrary: c)
  case 0
  then show ?case by (simp add: probe_loop.simps)
next
  case (Suc k)
  from Suc.prems(2)[of 0] have "\<not> stop c" by simp
  moreover have "probe_loop adv stop (adv c) = Some ((adv ^^ k) (adv c))"
  proof (rule Suc.IH)
    show "stop ((adv ^^ k) (adv c))" using Suc.prems(1) by (simp add: funpow_swap1)
    show "\<And>m. m < k \<Longrightarrow> \<not> stop ((adv ^^ m) (adv c))"
      using Suc.prems(2) by (metis Suc_less_eq funpow_simps_right(2) o_apply)
  qed
  ultimately show ?case by (simp add: probe_loop.simps funpow_swap1)
qed

lemma probe_loop_SomeD:
  assumes "probe_loop adv stop c = Some d"
  shows "\<exists>k. d = (adv ^^ k) c \<and> stop d \<and> (\<forall>m<k. \<not> stop ((adv ^^ m) c))"
proof (rule probe_loop.raw_induct [where P = "\<lambda>adv stop c d. \<exists>k. d = (adv ^^ k) c \<and> stop d \<and> (\<forall>m<k. \<not> stop ((adv ^^ m) c))", OF _ assms])
  fix f :: "('c \<Rightarrow> 'c) \<Rightarrow> ('c \<Rightarrow> bool) \<Rightarrow> 'c \<Rightarrow> 'c option" and adv :: "'c \<Rightarrow> 'c" and stop c d
  assume IH: "\<And>adv stop c d. f adv stop c = Some d \<Longrightarrow> \<exists>k. d = (adv ^^ k) c \<and> stop d \<and> (\<forall>m<k. \<not> stop ((adv ^^ m) c))"
    and eq: "(if stop c then Some c else f adv stop (adv c)) = Some d"
  show "\<exists>k. d = (adv ^^ k) c \<and> stop d \<and> (\<forall>m<k. \<not> stop ((adv ^^ m) c))"
  proof (cases "stop c")
    case True with eq show ?thesis by (intro exI [of _ 0]) simp
  next
    case False
    with eq IH obtain k where "d = (adv ^^ k) (adv c)" "stop d" "\<forall>m<k. \<not> stop ((adv ^^ m) (adv c))" by fastforce
    then show ?thesis using False
      by (intro exI [of _ "Suc k"]) (auto simp: funpow_swap1 less_Suc_eq_0_disj simp del: funpow.simps simp: funpow_simps_right(2))
  qed
qed

lemma probe_loop_None_iff: "probe_loop adv stop c = None \<longleftrightarrow> (\<forall>k. \<not> stop ((adv ^^ k) c))"
proof
  assume N: "probe_loop adv stop c = None"
  show "\<forall>k. \<not> stop ((adv ^^ k) c)"
  proof (rule ccontr)
    assume "\<not> ?thesis"
    then obtain k where "stop ((adv ^^ k) c)" "\<And>m. m < k \<Longrightarrow> \<not> stop ((adv ^^ m) c)"
      using exists_least_iff [of "\<lambda>k. stop ((adv ^^ k) c)"] by blast
    then have "probe_loop adv stop c = Some ((adv ^^ k) c)" by (rule probe_loop_least)
    with N show False by simp
  qed
next
  assume "\<forall>k. \<not> stop ((adv ^^ k) c)"
  then show "probe_loop adv stop c = None"
    using probe_loop_SomeD [of adv stop c] by (cases "probe_loop adv stop c") auto
qed

text \<open>
  Any loop with the same shape, whatever it returns where it stops: \<open>g\<close> unfolds to \<open>r c\<close> at a
  stopping state and to itself one step on otherwise.
\<close>

lemma loop_least:
  assumes "\<And>c. g c = (if stop c then r c else g (adv c))"
    and "stop ((adv ^^ k) c)" "\<And>m. m < k \<Longrightarrow> \<not> stop ((adv ^^ m) c)"
  shows "g c = r ((adv ^^ k) c)"
  using assms(2,3)
proof (induction k arbitrary: c)
  case 0
  then show ?case by (subst assms(1)) simp
next
  case (Suc k)
  from Suc.prems(2)[of 0] have "\<not> stop c" by simp
  moreover have "g (adv c) = r ((adv ^^ k) (adv c))"
  proof (rule Suc.IH)
    show "stop ((adv ^^ k) (adv c))" using Suc.prems(1) by (simp add: funpow_swap1)
    show "\<And>m. m < k \<Longrightarrow> \<not> stop ((adv ^^ m) (adv c))"
      using Suc.prems(2) by (metis Suc_less_eq funpow_simps_right(2) o_apply)
  qed
  ultimately show ?case by (subst assms(1)) (simp add: funpow_swap1)
qed

text \<open>The first slot of a cyclic scan that passes a test.\<close>

lemma wrap_covers: "i \<le> m \<Longrightarrow> \<exists>d\<le>m. i = (h + d) mod (m + 1)" if "h \<le> m" for i h m :: nat
proof (cases "h \<le> i")
  case True assume "i \<le> m" with True show ?thesis by (intro exI [of _ "i - h"]) simp
next
  case False assume "i \<le> m"
  have "(h + (m + 1 + i - h)) mod (m + 1) = (i + (m + 1)) mod (m + 1)"
    by (rule arg_cong [of _ _ "\<lambda>k. k mod (m + 1)"]) (use that in simp)
  also have "\<dots> = i" using \<open>i \<le> m\<close> by (subst mod_add_self2) simp
  finally show ?thesis using False that by (intro exI [of _ "m + 1 + i - h"]) auto
qed

lemma first_slot:
  fixes m :: nat
  assumes "h \<le> m" "i \<le> m" "P i"
  obtains d where "d \<le> m" "P ((h + d) mod (m + 1))" "\<And>e. e < d \<Longrightarrow> \<not> P ((h + e) mod (m + 1))"
proof -
  from wrap_covers [OF assms(1,2)] assms(3)
  obtain d0 where d0: "d0 \<le> m" "P ((h + d0) mod (m + 1))" by metis
  define d where "d = (LEAST d. P ((h + d) mod (m + 1)))"
  have "P ((h + d) mod (m + 1))" unfolding d_def by (rule LeastI [where P = "\<lambda>d. P ((h + d) mod (m + 1))", OF d0(2)])
  moreover have "d \<le> m" using Least_le [of "\<lambda>d. P ((h + d) mod (m + 1))", OF d0(2)] d0(1) by (simp add: d_def)
  moreover have "\<not> P ((h + e) mod (m + 1))" if "e < d" for e using not_less_Least [OF that [unfolded d_def]] .
  ultimately show thesis using that by blast
qed

section \<open>Decimal strings\<close>

text \<open>\<open>std::to_string\<close> on an unsigned number.\<close>

definition digit :: "nat \<Rightarrow> char" where
  "digit d = char_of (48 + d)"

fun to_string :: "nat \<Rightarrow> string" where
  "to_string n = (if n < 10 then [digit n] else to_string (n div 10) @ [digit (n mod 10)])"

declare to_string.simps [simp del]

definition decimal :: "string \<Rightarrow> nat" where
  "decimal s = foldl (\<lambda>n c. 10 * n + (of_char c - 48)) 0 s"

lemma decimal_to_string: "decimal (to_string n) = n"
proof (induction n rule: to_string.induct)
  case (1 n)
  have d: "of_char (digit k) = (48 + k :: nat)" if "k < 10" for k
    using that by (simp add: digit_def of_char_of)
  show ?case
  proof (cases "n < 10")
    case True then show ?thesis by (subst to_string.simps) (simp add: decimal_def d)
  next
    case False
    with 1 have "decimal (to_string (n div 10)) = n div 10" by simp
    with False show ?thesis by (subst to_string.simps) (simp add: decimal_def d)
  qed
qed

lemma to_string_inj [simp]: "to_string m = to_string n \<longleftrightarrow> m = n"
  by (metis decimal_to_string)

end
