(* ===== verification/IR_Types.thy ===== *)
theory IR_Types
  imports Ink_Prelude
begin

text \<open>
  The types of the InkFuse IR (\<open>codegen/Type.h\<close>) with their widths and identifiers, and the information
  units that carry them through a query (\<open>algebra/IU.h\<close>). Type equality in the code is equality of
  identifiers; fragments of the interpreter are found by strings built from them.
\<close>

section \<open>Types\<close>

datatype irtype =
    SignedInt nat | UnsignedInt nat | Float nat | Bool | CharT | StringT | Date | Void
  | ByteArray nat | Struct string "(irtype \<times> string) list" | Pointer irtype

fun numBytes :: "irtype \<Rightarrow> nat outcome" where
  "numBytes (SignedInt sz) = Returns sz"
| "numBytes (UnsignedInt sz) = Returns sz"
| "numBytes (Float sz) = Returns sz"
| "numBytes Bool = Returns 1"
| "numBytes CharT = Returns 1"
| "numBytes StringT = Returns 8"
| "numBytes Date = Returns 4"
| "numBytes Void = Returns 0"
| "numBytes (ByteArray sz) = Returns sz"
| "numBytes (Struct name fields) = Throws ''not implemented''"
| "numBytes (Pointer t) = Returns 8"

text \<open>
  Struct types only describe the state of operators and never type a value that flows through a query.
  \<open>width\<close> is the width of every other type.
\<close>

definition width :: "irtype \<Rightarrow> nat" where
  "width t = (case numBytes t of Returns n \<Rightarrow> n | _ \<Rightarrow> 0)"

lemma width_simps [simp]:
  "width (SignedInt n) = n" "width (UnsignedInt n) = n" "width (Float n) = n" "width Bool = 1" "width CharT = 1"
  "width StringT = 8" "width Date = 4" "width Void = 0" "width (ByteArray n) = n" "width (Pointer t) = 8"
  by (simp_all add: width_def)

fun type_id :: "irtype \<Rightarrow> string" where
  "type_id (SignedInt sz) = ''I'' @ to_string sz"
| "type_id (UnsignedInt sz) = ''UI'' @ to_string sz"
| "type_id (Float sz) = ''F'' @ to_string sz"
| "type_id Bool = ''Bool''"
| "type_id CharT = ''Char''"
| "type_id StringT = ''String''"
| "type_id Date = ''Date''"
| "type_id Void = ''Void''"
| "type_id (ByteArray sz) = ''ByteArray''"
| "type_id (Struct name fields) = ''Struct_'' @ name"
| "type_id (Pointer t) = ''Ptr_'' @ type_id t"

definition type_eq :: "irtype \<Rightarrow> irtype \<Rightarrow> bool" where
  "type_eq t u \<longleftrightarrow> type_id t = type_id u"

text \<open>What an identifier forgets: the width of a byte array and the fields of a struct.\<close>

fun forget :: "irtype \<Rightarrow> irtype" where
  "forget (ByteArray sz) = ByteArray 0"
| "forget (Struct name fields) = Struct name []"
| "forget (Pointer t) = Pointer (forget t)"
| "forget t = t"

lemma type_id_forget: "type_id (forget t) = type_id t"
  by (induction t rule: forget.induct) simp_all

lemma type_id_inj: "type_id t = type_id u \<Longrightarrow> forget t = forget u"
proof (induction t arbitrary: u)
  case (SignedInt x) then show ?case by (cases u) auto
next
  case (UnsignedInt x) then show ?case by (cases u) auto
next
  case (Float x) then show ?case by (cases u) auto
next
  case Bool then show ?case by (cases u) auto
next
  case CharT then show ?case by (cases u) auto
next
  case StringT then show ?case by (cases u) auto
next
  case Date then show ?case by (cases u) auto
next
  case Void then show ?case by (cases u) auto
next
  case (ByteArray x) then show ?case by (cases u) auto
next
  case (Struct x fs) then show ?case by (cases u) auto
next
  case (Pointer t)
  from Pointer.prems obtain v where u: "u = Pointer v" "type_id t = type_id v" by (cases u) auto
  from Pointer.IH [OF u(2)] u(1) show ?case by simp
qed

text \<open>
  C22. Two types are equal for the engine exactly when they agree up to the width of byte arrays and the fields of
  structs, also under pointers: different SQL types never share an identifier.
\<close>
theorem type_ids_identify: "type_eq t u \<longleftrightarrow> forget t = forget u"
  unfolding type_eq_def by (metis type_id_forget type_id_inj)

section \<open>Values\<close>

text \<open>
  Constants of the queries (\<open>codegen/Value.h\<close>). Integers carry the width of their type; a double is given in millionths,
  the precision with which \<open>str\<close> prints it, and is only used for constants with at most six decimals.
\<close>

datatype ir_value = UI nat nat | SI nat int | F8 int | DateVal int | StringVal string | StringList "string list"

fun getType :: "ir_value \<Rightarrow> irtype" where
  "getType (UI sz v) = UnsignedInt sz"
| "getType (SI sz v) = SignedInt sz"
| "getType (F8 v) = Float 8"
| "getType (DateVal v) = Date"
| "getType (StringVal v) = StringT"
| "getType (StringList vs) = Pointer CharT"

definition int_string :: "int \<Rightarrow> string" where
  "int_string v = (if v < 0 then ''-'' @ to_string (nat (- v)) else to_string (nat v))"

definition f8_string :: "int \<Rightarrow> string" where
  "f8_string v = (let n = nat \<bar>v\<bar>; frac = to_string (n mod 1000000)
     in (if v < 0 then ''-'' else []) @ to_string (n div 1000000) @ ''.'' @ replicate (6 - length frac) (CHR ''0'') @ frac)"

fun str :: "ir_value \<Rightarrow> string outcome" where
  "str (UI sz v) = Returns (to_string v)"
| "str (SI sz v) = Returns (int_string v)"
| "str (F8 v) = Returns (f8_string v)"
| "str (DateVal v) = Returns (int_string v)"
| "str (StringVal v) = Returns (CHR 0x22 # v @ [CHR 0x22])"
| "str (StringList vs) = Throws ''str() on StringList not implemented''"

fun supportsInlining :: "ir_value \<Rightarrow> bool" where
  "supportsInlining (StringList vs) = False"
| "supportsInlining v = True"

section \<open>Information units\<close>

text \<open>An IU is identified by its address; the code compares pointers to it.\<close>

record iu =
  iu_addr :: nat
  iu_type :: irtype
  iu_name :: string

definition is_void :: "iu \<Rightarrow> bool" where
  "is_void i \<longleftrightarrow> iu_type i = Void"

definition buildIUIdentifier :: "(nat \<Rightarrow> string) \<Rightarrow> iu \<Rightarrow> string" where
  "buildIUIdentifier addr_str i = (if iu_name i \<noteq> [] then ''iu_'' @ iu_name i else ''iu_'' @ addr_str (iu_addr i))"

definition iu_widths :: "iu list \<Rightarrow> nat" where
  "iu_widths is = sum_list (map (width \<circ> iu_type) is)"

lemma iu_widths_simps [simp]:
  "iu_widths [] = 0" "iu_widths (i # is) = width (iu_type i) + iu_widths is" "iu_widths (is @ js) = iu_widths is + iu_widths js"
  by (simp_all add: iu_widths_def)

end
