(* ===== verification/Pipelines.thy ===== *)
theory Pipelines
  imports IR_Types
begin

text \<open>
  Suboperators and the pipelines they form (\<open>algebra/suboperators/Suboperator.h\<close>, \<open>algebra/Pipeline.{h,cpp}\<close>):
  the dependency graph, the cutting of a pipeline into pieces that exchange columns through fuse chunks
  (\<open>repipe\<close>), the marks of relaxed operator fusion, and the pipeline DAG of a query with its
  continuations and runtime tasks. Objects are records; the address of an object is a number, and what the code
  compares by pointer is compared by that number.
\<close>

section \<open>Suboperators\<close>

datatype rof_strategy = Default | BeginVectorized | EndVectorized

datatype expr_type =
    Add | Cast | Subtract | Multiply | Divide | Eq | Neq | Less | And | Or | LessEqual | Greater | GreaterEqual
  | Constant | StrEquals | InList | NotLikeTokens

datatype agg_state = AggStateCount | AggStateSum irtype
datatype agg_compute = AggComputeUnpack irtype | AggComputeAvg irtype

text \<open>
  The classes derived from \<open>Suboperator\<close> with what their constructors and \<open>attachRuntimeParams\<close> store. Runtime
  state is named by the number of its initialiser in the DAG.
\<close>

datatype subop_kind =
    TScanDriver nat
  | TScanIUProvider nat
  | FuseChunkSourceDriver
  | FuseChunkSourceIUProvider
  | FuseChunkSink
  | CountingSink
  | Copy
  | ColumnFilterScope "(nat \<times> iu) list"
  | ColumnFilterLogic irtype bool
  | ExpressionSubop expr_type
  | RuntimeExpressionSubop expr_type irtype "ir_value option"
  | RuntimeKeyExpressionSubop nat
  | KeyPackerSubop nat
  | KeyUnpackerSubop nat
  | AggregatorSubop agg_state nat
  | AggReaderSubop agg_compute nat "nat option"
  | RuntimeFunctionSubop string "iu list" "bool list" "iu option" nat
  | HashTableSource string nat
  | ScratchPadIUProvider

record subop =
  subop_addr :: nat
  kind :: subop_kind
  provided_ius :: "iu list"
  source_ius :: "iu list"
  rof :: rof_strategy

definition isSink :: "subop \<Rightarrow> bool" where "isSink s \<longleftrightarrow> provided_ius s = []"
definition isSource :: "subop \<Rightarrow> bool" where "isSource s \<longleftrightarrow> source_ius s = []"

definition incomingStrongLinks :: "subop \<Rightarrow> bool" where
  "incomingStrongLinks s = (case kind s of
     TScanIUProvider d \<Rightarrow> True | FuseChunkSourceIUProvider \<Rightarrow> True | ColumnFilterLogic t b \<Rightarrow> True | _ \<Rightarrow> False)"

definition outgoingStrongLinks :: "subop \<Rightarrow> bool" where
  "outgoingStrongLinks s = (case kind s of
     TScanDriver n \<Rightarrow> True | FuseChunkSourceDriver \<Rightarrow> True | ColumnFilterScope ds \<Rightarrow> True | ScratchPadIUProvider \<Rightarrow> True
   | _ \<Rightarrow> False)"

definition is_materialize_tuple :: "subop \<Rightarrow> bool" where
  "is_materialize_tuple s = (case kind s of RuntimeFunctionSubop f args ref out st \<Rightarrow> f = ''materialize_tuple'' | _ \<Rightarrow> False)"

section \<open>Pipelines\<close>

record pipeline =
  suboperators :: "subop list"
  incoming_edges :: "nat \<Rightarrow> nat list option"
  outgoing_edges :: "nat \<Rightarrow> nat list option"
  iu_providers :: "iu \<Rightarrow> nat option"
  parallel_codegen :: bool
  pretty_printer :: "iu list option"

definition Pipeline :: pipeline where
  "Pipeline = \<lparr> suboperators = [], incoming_edges = Map.empty, outgoing_edges = Map.empty, iu_providers = Map.empty,
     parallel_codegen = True, pretty_printer = None \<rparr>"

definition tryGetProvider :: "pipeline \<Rightarrow> iu \<Rightarrow> nat option" where
  "tryGetProvider p i = iu_providers p i"

definition at_map :: "('a \<Rightarrow> 'b option) \<Rightarrow> 'a \<Rightarrow> 'b outcome" where
  "at_map m k = (case m k of None \<Rightarrow> Throws ''std::out_of_range'' | Some v \<Rightarrow> Returns v)"

definition getProvider :: "pipeline \<Rightarrow> iu \<Rightarrow> nat outcome" where
  "getProvider p i = at_map (iu_providers p) i"
definition getConsumers :: "pipeline \<Rightarrow> subop \<Rightarrow> nat list outcome" where
  "getConsumers p s = at_map (outgoing_edges p) (subop_addr s)"
definition getProducers :: "pipeline \<Rightarrow> subop \<Rightarrow> nat list outcome" where
  "getProducers p s = at_map (incoming_edges p) (subop_addr s)"

text \<open>\<open>m[k].push_back(v)\<close>\<close>

definition push_edge :: "nat \<Rightarrow> nat \<Rightarrow> (nat \<Rightarrow> nat list option) \<Rightarrow> (nat \<Rightarrow> nat list option)" where
  "push_edge k v m = m(k \<mapsto> (case m k of None \<Rightarrow> [v] | Some vs \<Rightarrow> vs @ [v]))"

definition add_edge :: "subop \<Rightarrow> pipeline \<Rightarrow> iu \<Rightarrow> pipeline" where
  "add_edge s p depends = (case tryGetProvider p depends of
     None \<Rightarrow> p
   | Some provider \<Rightarrow> p\<lparr> outgoing_edges := push_edge provider (subop_addr s) (outgoing_edges p),
                          incoming_edges := push_edge (subop_addr s) provider (incoming_edges p) \<rparr>)"

definition attachSuboperator :: "pipeline \<Rightarrow> subop \<Rightarrow> pipeline" where
  "attachSuboperator p s =
     (let p1 = foldl (add_edge s) p (source_ius s);
          p2 = foldl (\<lambda>q i. q\<lparr> iu_providers := (iu_providers q)(i \<mapsto> subop_addr s) \<rparr>) p1 (provided_ius s)
      in p2\<lparr> suboperators := suboperators p2 @ [s] \<rparr>)"

definition disallowParallelCodegen :: "pipeline \<Rightarrow> pipeline" where
  "disallowParallelCodegen p = p\<lparr> parallel_codegen := False \<rparr>"

text \<open>The printer is known by the IUs that it prints.\<close>

definition setPrettyPrinter :: "pipeline \<Rightarrow> iu list \<Rightarrow> pipeline outcome" where
  "setPrettyPrinter p ius =
     (if pretty_printer p \<noteq> None then Throws ''assertion'' else Returns (p\<lparr> pretty_printer := Some ius \<rparr>))"

definition pipe_of :: "subop list \<Rightarrow> pipeline" where
  "pipe_of ops = foldl attachSuboperator Pipeline ops"

section \<open>The scope guard of relaxed operator fusion\<close>

definition setROFStrategy :: "rof_strategy \<Rightarrow> subop \<Rightarrow> subop" where
  "setROFStrategy r s = s\<lparr> rof := r \<rparr>"

text \<open>The destructor of the guard; \<open>size_at_start\<close> is what its constructor stored.\<close>

definition ROFScopeGuard_end :: "nat \<Rightarrow> pipeline \<Rightarrow> pipeline" where
  "ROFScopeGuard_end size_at_start p =
     (let ops = suboperators p in
      if length ops > size_at_start then
        let ops1 = ops[size_at_start := setROFStrategy BeginVectorized (ops ! size_at_start)];
            ops2 = ops1[length ops - 1 := setROFStrategy EndVectorized (ops1 ! (length ops - 1))]
        in p\<lparr> suboperators := ops2 \<rparr>
      else p)"

section \<open>Cutting a pipeline\<close>

text \<open>
  \<open>fresh\<close> is the first unused address: \<open>repipe\<close> creates suboperators, and a driver owns the IU it provides. The
  set \<open>materialize\<close> is the list of its elements in the order the hash set iterates over them.
\<close>

definition build_driver :: "nat \<Rightarrow> subop" where
  "build_driver fresh = \<lparr> subop_addr = fresh, kind = FuseChunkSourceDriver,
     provided_ius = [\<lparr> iu_addr = fresh, iu_type = UnsignedInt 8, iu_name = ''driver_idx'' \<rparr>], source_ius = [], rof = Default \<rparr>"

definition build_provider :: "nat \<Rightarrow> iu \<Rightarrow> iu \<Rightarrow> subop" where
  "build_provider fresh driver_iu i = \<lparr> subop_addr = fresh, kind = FuseChunkSourceIUProvider,
     provided_ius = [i], source_ius = [driver_iu], rof = Default \<rparr>"

definition build_sink :: "nat \<Rightarrow> iu \<Rightarrow> subop" where
  "build_sink fresh i = \<lparr> subop_addr = fresh, kind = FuseChunkSink, provided_ius = [], source_ius = [i], rof = Default \<rparr>"

fun number :: "(nat \<Rightarrow> 'a \<Rightarrow> subop) \<Rightarrow> nat \<Rightarrow> 'a list \<Rightarrow> subop list" where
  "number f k [] = []"
| "number f k (x # xs) = f k x # number f (Suc k) xs"

definition find_subop :: "pipeline \<Rightarrow> nat list \<Rightarrow> subop outcome" where
  "find_subop p edges = (case edges of [] \<Rightarrow> Throws ''assertion'' | a # _ \<Rightarrow>
     (case find (\<lambda>e. subop_addr e = a) (suboperators p) of None \<Rightarrow> Throws ''assertion'' | Some s \<Rightarrow> Returns s))"

definition strong_in :: "pipeline \<Rightarrow> subop \<Rightarrow> subop option outcome" where
  "strong_in p first =
     (if incomingStrongLinks first then obind (getProducers p first) (\<lambda>input. obind (find_subop p input) (\<lambda>s. Returns (Some s)))
      else Returns None)"

definition strong_out :: "pipeline \<Rightarrow> subop \<Rightarrow> subop option outcome" where
  "strong_out p last_op =
     (if outgoingStrongLinks last_op then obind (getConsumers p last_op) (\<lambda>output. obind (find_subop p output) (\<lambda>s. Returns (Some s)))
      else Returns None)"

text \<open>\<open>in_provided\<close> and \<open>in_required_ordered\<close>; \<open>in_required\<close> is the set of the latter's elements.\<close>

definition scan_subop :: "iu list \<times> iu list \<Rightarrow> subop \<Rightarrow> iu list \<times> iu list" where
  "scan_subop st s = (case st of (in_provided, in_required) \<Rightarrow>
     let in_provided' = in_provided @ provided_ius s
     in (in_provided', foldl (\<lambda>req i. if i \<notin> set in_provided' \<and> i \<notin> set req then req @ [i] else req) in_required (source_ius s)))"

definition required_ius :: "subop option \<Rightarrow> subop list \<Rightarrow> iu list" where
  "required_ius incoming_strong ops =
     (let start = (case incoming_strong of None \<Rightarrow> ([], []) | Some s \<Rightarrow> (take 1 (provided_ius s), source_ius s));
          req = snd (foldl scan_subop start ops)
      in if is_materialize_tuple (hd ops) then take 1 (source_ius (hd ops)) else req)"

definition fuse_chunk_sources :: "nat \<Rightarrow> iu list \<Rightarrow> subop list" where
  "fuse_chunk_sources fresh req =
     (if req = [] then []
      else build_driver fresh #
        number (\<lambda>a i. build_provider a (hd (provided_ius (build_driver fresh))) i) (Suc fresh) (filter (\<lambda>i. \<not> is_void i) req))"

definition repiped_ops :: "nat \<Rightarrow> subop option \<Rightarrow> subop list \<Rightarrow> subop option \<Rightarrow> iu list \<Rightarrow> subop list" where
  "repiped_ops fresh incoming_strong ops outgoing_strong materialize =
     (let sources = fuse_chunk_sources fresh (required_ius incoming_strong ops)
      in sources @ (case incoming_strong of None \<Rightarrow> [] | Some s \<Rightarrow> [s]) @ ops @
         (case outgoing_strong of None \<Rightarrow> [] | Some s \<Rightarrow> [s]) @ number build_sink (fresh + length sources) materialize)"

definition slice :: "nat \<Rightarrow> nat \<Rightarrow> 'a list \<Rightarrow> 'a list" where
  "slice start stop xs = drop start (take stop xs)"

definition repipe :: "nat \<Rightarrow> pipeline \<Rightarrow> nat \<Rightarrow> nat \<Rightarrow> iu list \<Rightarrow> pipeline outcome" where
  "repipe fresh p start stop materialize =
     (let new_pipe = (if parallel_codegen p then Pipeline else disallowParallelCodegen Pipeline) in
      if start = stop then Returns new_pipe
      else obind (strong_in p (suboperators p ! start)) (\<lambda>incoming_strong.
           obind (strong_out p (suboperators p ! (stop - 1))) (\<lambda>outgoing_strong.
           Returns (foldl attachSuboperator new_pipe
             (repiped_ops fresh incoming_strong (slice start stop (suboperators p)) outgoing_strong materialize)))))"

definition insert_new :: "'a list \<Rightarrow> 'a \<Rightarrow> 'a list" where
  "insert_new xs x = (if x \<in> set xs then xs else xs @ [x])"

definition repipeAll :: "(iu list \<Rightarrow> iu list) \<Rightarrow> nat \<Rightarrow> pipeline \<Rightarrow> nat \<Rightarrow> nat \<Rightarrow> pipeline outcome" where
  "repipeAll set_order fresh p start stop =
     (let out_provided = foldl insert_new []
            (concat (map (\<lambda>s. if outgoingStrongLinks s then [] else filter (\<lambda>i. \<not> is_void i) (provided_ius s))
              (slice start stop (suboperators p))))
      in repipe fresh p start stop (set_order out_provided))"

definition repipeRequired :: "(iu list \<Rightarrow> iu list) \<Rightarrow> nat \<Rightarrow> pipeline \<Rightarrow> nat \<Rightarrow> nat \<Rightarrow> pipeline outcome" where
  "repipeRequired set_order fresh p start stop =
     (let out_provided = concat (map (\<lambda>s. filter (\<lambda>i. \<not> is_void i) (provided_ius s)) (slice start stop (suboperators p)));
          out_required = foldl insert_new []
            (filter (\<lambda>i. i \<in> set out_provided) (concat (map source_ius (drop stop (suboperators p)))))
      in repipe fresh p start stop (set_order out_required))"

end
