(* ===== verification/IR_Code.thy ===== *)
theory IR_Code
  imports Pipelines
begin

text \<open>
  The imperative intermediate representation (\<open>codegen/Expression.{h,cpp}\<close>, \<open>codegen/Statement.h\<close>, \<open>codegen/IR.{h,cpp}\<close>) and the
  function builder (\<open>codegen/IRBuilder.{h,cpp}\<close>). A declaration statement is known by its variable: expressions point to the statement,
  and the variable stands for that pointer. Blocks are in a store, so that a control flow statement refers to its blocks as the code does.
\<close>

section \<open>Variables and expressions\<close>

text \<open>The argument of the function, the variable of an IU, and the local variables that a suboperator names after its address.\<close>

datatype var = GlobalState | IUVar iu | OpVar nat string

datatype ir_opcode =
    AddOp | SubtractOp | MultiplyOp | DivideOp | EqOp | NeqOp | LessOp | AndOp | OrOp | LessEqualOp | GreaterOp | GreaterEqualOp
  | HashCombineOp | StrEqualsOp | StrInListOp | NotLikeTokensOp

datatype ir_expr =
    VarRef var irtype
  | ConstExpr ir_value
  | InvokeFct string irtype "ir_expr list"
  | Arithmetic ir_opcode ir_expr ir_expr
  | Deref ir_expr
  | Ref ir_expr
  | StructAccess ir_expr string
  | CastTo irtype ir_expr
  | Memcopy ir_expr ir_expr ir_expr

definition isComparison :: "ir_opcode \<Rightarrow> bool" where
  "isComparison c \<longleftrightarrow> c \<in> {EqOp, NeqOp, LessOp, LessEqualOp, GreaterOp, GreaterEqualOp}"

text \<open>The type that the constructors of expressions derive.\<close>

definition deriveType :: "irtype \<Rightarrow> ir_opcode \<Rightarrow> irtype" where
  "deriveType child_l c = (if isComparison c then Bool else if c = HashCombineOp then UnsignedInt 8 else child_l)"

definition deref_type :: "irtype \<Rightarrow> irtype outcome" where
  "deref_type t = (case t of Pointer pointed_to \<Rightarrow> Returns pointed_to | _ \<Rightarrow> Throws ''Can only dereference a pointer type.'')"

definition field_type :: "irtype \<Rightarrow> string \<Rightarrow> irtype outcome" where
  "field_type t field_name = (case t of
     Struct name members \<Rightarrow> (case find (\<lambda>(ty, f). f = field_name) members of
         Some (ty, f) \<Rightarrow> Returns ty | None \<Rightarrow> Throws ''Requested field does not exist.'')
   | _ \<Rightarrow> Throws ''Can only access members of a struct.'')"

fun ir_type_of :: "ir_expr \<Rightarrow> irtype outcome" where
  "ir_type_of (VarRef v t) = Returns t"
| "ir_type_of (ConstExpr v) = Returns (getType v)"
| "ir_type_of (InvokeFct f return_type args) = Returns return_type"
| "ir_type_of (Arithmetic c l r) = obind (ir_type_of l) (\<lambda>t. Returns (deriveType t c))"
| "ir_type_of (Deref e) = obind (ir_type_of e) deref_type"
| "ir_type_of (Ref e) = obind (ir_type_of e) (\<lambda>t. Returns (Pointer t))"
| "ir_type_of (StructAccess e field) = obind (ir_type_of e) (\<lambda>t. field_type t field)"
| "ir_type_of (CastTo t e) = Returns t"
| "ir_type_of (Memcopy dest src sz) = Returns Void"

text \<open>\<open>StructAccessExpr::build\<close> dereferences first: its test whether the child is a pointer is always true.\<close>

definition struct_access :: "ir_expr \<Rightarrow> string \<Rightarrow> ir_expr outcome" where
  "struct_access e field = (let child = Deref e in obind (ir_type_of child) (\<lambda>t. obind (field_type t field) (\<lambda>_. Returns (StructAccess child field))))"

text \<open>The variables that an expression reads.\<close>

fun reads :: "ir_expr \<Rightarrow> var list" where
  "reads (VarRef v t) = [v]"
| "reads (ConstExpr c) = []"
| "reads (InvokeFct f t args) = concat (map reads args)"
| "reads (Arithmetic c l r) = reads l @ reads r"
| "reads (Deref e) = reads e"
| "reads (Ref e) = reads e"
| "reads (StructAccess e f) = reads e"
| "reads (CastTo t e) = reads e"
| "reads (Memcopy d s n) = reads d @ reads s @ reads n"

section \<open>Statements and the function builder\<close>

text \<open>
  A block is named by its number in the store. An \<open>If\<close> makes its \<open>else\<close> block together with its own; no suboperator calls \<open>If::Else\<close>, so
  nothing is ever appended to it.
\<close>

datatype ir_stmt =
    InvokeFctStmt ir_expr
  | ExprStmt ir_expr
  | DeclareStmt var irtype
  | AssignmentStmt ir_expr ir_expr
  | ReturnStmt ir_expr
  | IfStmt ir_expr nat nat
  | WhileStmt ir_expr nat

record builder =
  blocks :: "ir_stmt list list"
  curr_block :: nat

definition FunctionBuilder :: builder where
  "FunctionBuilder = \<lparr> blocks = [[]], curr_block = 0 \<rparr>"

definition append_to :: "nat \<Rightarrow> ir_stmt \<Rightarrow> builder \<Rightarrow> builder" where
  "append_to k s b = b\<lparr> blocks := (blocks b)[k := blocks b ! k @ [s]] \<rparr>"

text \<open>\<open>FunctionBuilder::appendStmt\<close>, and \<open>getRootBlock().appendStmt\<close>; the root block is number 0.\<close>

definition appendStmt :: "ir_stmt \<Rightarrow> builder \<Rightarrow> builder" where
  "appendStmt s b = append_to (curr_block b) s b"

definition append_root :: "ir_stmt \<Rightarrow> builder \<Rightarrow> builder" where
  "append_root s b = append_to 0 s b"

text \<open>The objects \<open>If\<close> and \<open>While\<close> between their construction and \<open>End\<close>.\<close>

record control =
  is_loop :: bool
  original_block :: nat
  condition :: ir_expr
  own_block :: nat

text \<open>\<open>If\<close> makes two blocks, \<open>While\<close> one.\<close>

definition buildIf :: "ir_expr \<Rightarrow> builder \<Rightarrow> control \<times> builder" where
  "buildIf e b = (\<lparr> is_loop = False, original_block = curr_block b, condition = e, own_block = length (blocks b) \<rparr>,
     b\<lparr> blocks := blocks b @ [[], []], curr_block := length (blocks b) \<rparr>)"

definition buildWhile :: "ir_expr \<Rightarrow> builder \<Rightarrow> control \<times> builder" where
  "buildWhile e b = (\<lparr> is_loop = True, original_block = curr_block b, condition = e, own_block = length (blocks b) \<rparr>,
     b\<lparr> blocks := blocks b @ [[]], curr_block := length (blocks b) \<rparr>)"

definition End :: "control \<Rightarrow> builder \<Rightarrow> builder" where
  "End c b = appendStmt (if is_loop c then WhileStmt (condition c) (own_block c) else IfStmt (condition c) (own_block c) (own_block c + 1))
     (b\<lparr> curr_block := original_block c \<rparr>)"

section \<open>The runtime\<close>

text \<open>The structs that the suboperators register (\<open>registerRuntime\<close>) and the functions of \<open>runtime/HashTableRuntime.cpp\<close>.\<close>

definition runtime_structs :: "(string \<times> (irtype \<times> string) list) list" where
  "runtime_structs =
     [(''LoopDriverState'', [(UnsignedInt 8, ''start''), (UnsignedInt 8, ''end'')]),
      (''IndexedIUProviderState'', [(Pointer (Pointer CharT), ''start''), (UnsignedInt 8, ''type_param'')]),
      (''KeyPackingRuntimeState'', [(UnsignedInt 2, ''offset'')]),
      (''KeyPackingRuntimeStateTwo'', [(UnsignedInt 2, ''offset_1''), (UnsignedInt 2, ''offset_2'')]),
      (''FuseChunkSinkState'', [(Pointer Void, ''start''), (Pointer (UnsignedInt 8), ''size'')]),
      (''CountingState'', [(UnsignedInt 8, ''count'')]),
      (''RuntimeExpressionState'', [(Pointer Void, ''data_erased'')]),
      (''RuntimeFunctionSubopState'', [(Pointer Void, ''this_object'')]),
      (''HashTableSourceState'', [(Pointer Void, ''hash_table''), (Pointer CharT, ''it_ptr_start''), (UnsignedInt 8, ''it_idx_start''),
         (Pointer CharT, ''it_ptr_end''), (UnsignedInt 8, ''it_idx_end'')])]"

definition runtime_functions :: "(string \<times> irtype) list" where
  "runtime_functions =
     map (\<lambda>f. (f, Pointer CharT))
       [''ht_sk_insert'', ''ht_sk_lookup'', ''ht_sk_lookup_disable'', ''ht_sk_lookup_or_insert''] @
     [(''ht_sk_lookup_or_insert_with_init'', Void)] @
     map (\<lambda>f. (f, Pointer CharT))
       [''ht_sk_it_advance'', ''ht_nk_lookup'', ''ht_ck_lookup'', ''ht_ck_lookup_or_insert'', ''ht_ck_it_advance'', ''ht_dl_lookup'',
        ''ht_dl_lookup_or_insert'', ''ht_dl_it_advance'', ''ht_at_sk_lookup'', ''ht_at_sk_lookup_disable'', ''ht_at_ck_lookup''] @
     map (\<lambda>f. (f, UnsignedInt 8))
       [''ht_at_sk_compute_hash_and_prefetch'', ''ht_at_sk_compute_hash_and_prefetch_fixed_4'', ''ht_at_sk_compute_hash_and_prefetch_fixed_8''] @
     [(''ht_at_sk_slot_prefetch'', Void)] @
     map (\<lambda>f. (f, Pointer CharT)) [''ht_at_sk_lookup_with_hash'', ''ht_at_sk_lookup_with_hash_disable'', ''ht_at_sk_it_advance''] @
     [(''ht_at_ck_compute_hash_and_prefetch'', UnsignedInt 8), (''ht_at_ck_slot_prefetch'', Void)] @
     map (\<lambda>f. (f, Pointer CharT)) [''ht_at_ck_lookup_with_hash'', ''ht_at_ck_lookup_with_hash_disable''] @
     [(''inkfuse_malloc'', Pointer Void), (''materialize_tuple'', Pointer CharT)]"

definition getStruct :: "string \<Rightarrow> irtype outcome" where
  "getStruct name = (case map_of runtime_structs name of Some members \<Rightarrow> Returns (Struct name members) | None \<Rightarrow> Throws ''struct does not exist'')"

definition getFunction :: "string \<Rightarrow> irtype outcome" where
  "getFunction name = (case map_of runtime_functions name of Some t \<Rightarrow> Returns t | None \<Rightarrow> Throws ''function does not exist'')"

definition invoke :: "string \<Rightarrow> ir_expr list \<Rightarrow> ir_expr outcome" where
  "invoke f args = obind (getFunction f) (\<lambda>t. Returns (InvokeFct f t args))"

end
