(* ===== verification/Pipeline_Props.thy ===== *)
theory Pipeline_Props
  imports Pipelines
begin

text \<open>
  What holds of pipelines: the graph that \<open>attachSuboperator\<close> maintains is the data flow, and cutting a
  pipeline with \<open>repipe\<close> yields pipelines that are closed again and communicate completely through fuse chunks.
\<close>

named_theorems pipe_simps \<open>projections of pipelines under construction\<close>

section \<open>The dependency graph\<close>

lemma attach_edges_subops [pipe_simps]:
  "suboperators (foldl (add_edge s) p is) = suboperators p"
  "iu_providers (foldl (add_edge s) p is) = iu_providers p"
  "parallel_codegen (foldl (add_edge s) p is) = parallel_codegen p"
  by (induction "is" arbitrary: p) (auto simp: add_edge_def split: option.splits)

lemma register_ius [pipe_simps]:
  "suboperators (foldl (\<lambda>q i. q\<lparr> iu_providers := (iu_providers q)(i \<mapsto> a) \<rparr>) p is) = suboperators p"
  "incoming_edges (foldl (\<lambda>q i. q\<lparr> iu_providers := (iu_providers q)(i \<mapsto> a) \<rparr>) p is) = incoming_edges p"
  "outgoing_edges (foldl (\<lambda>q i. q\<lparr> iu_providers := (iu_providers q)(i \<mapsto> a) \<rparr>) p is) = outgoing_edges p"
  "parallel_codegen (foldl (\<lambda>q i. q\<lparr> iu_providers := (iu_providers q)(i \<mapsto> a) \<rparr>) p is) = parallel_codegen p"
  "iu_providers (foldl (\<lambda>q i. q\<lparr> iu_providers := (iu_providers q)(i \<mapsto> a) \<rparr>) p is) =
     (\<lambda>i. if i \<in> set is then Some a else iu_providers p i)"
  by (induction "is" arbitrary: p) auto

lemma attach_suboperators [simp]: "suboperators (attachSuboperator p s) = suboperators p @ [s]"
  by (simp add: attachSuboperator_def Let_def pipe_simps)

lemma attach_parallel [simp]: "parallel_codegen (attachSuboperator p s) = parallel_codegen p"
  by (simp add: attachSuboperator_def Let_def pipe_simps)

lemma attach_all_suboperators [simp]: "suboperators (foldl attachSuboperator p ops) = suboperators p @ ops"
  by (induction ops arbitrary: p) auto

lemma attach_all_parallel [simp]: "parallel_codegen (foldl attachSuboperator p ops) = parallel_codegen p"
  by (induction ops arbitrary: p) auto

lemma pipe_of_suboperators [simp]: "suboperators (pipe_of ops) = ops"
  by (simp add: pipe_of_def Pipeline_def)

lemma attach_providers:
  "iu_providers (attachSuboperator p s) i = (if i \<in> set (provided_ius s) then Some (subop_addr s) else iu_providers p i)"
  by (simp add: attachSuboperator_def Let_def pipe_simps)

text \<open>Edges as lists and as sets, an absent entry being no edge.\<close>

definition edge_list :: "(nat \<Rightarrow> nat list option) \<Rightarrow> nat \<Rightarrow> nat list" where
  "edge_list m a = (case m a of None \<Rightarrow> [] | Some xs \<Rightarrow> xs)"

lemma edge_list_push: "edge_list (push_edge k v m) a = (if a = k then edge_list m a @ [v] else edge_list m a)"
  by (auto simp: edge_list_def push_edge_def split: option.splits)

definition never_empty :: "(nat \<Rightarrow> nat list option) \<Rightarrow> bool" where
  "never_empty m \<longleftrightarrow> (\<forall>a. m a \<noteq> Some [])"

lemma never_empty_push: "never_empty m \<Longrightarrow> never_empty (push_edge k v m)"
  by (auto simp: never_empty_def push_edge_def split: option.splits)

lemma at_map_edges: "never_empty m \<Longrightarrow> at_map m a = (if edge_list m a = [] then Throws ''std::out_of_range'' else Returns (edge_list m a))"
  by (auto simp: at_map_def edge_list_def never_empty_def split: option.splits)

lemma add_edges_incoming:
  "edge_list (incoming_edges (foldl (add_edge s) p is)) a =
     edge_list (incoming_edges p) a @ (if a = subop_addr s then List.map_filter (iu_providers p) is else [])"
proof (induction "is" arbitrary: p)
  case (Cons i "is")
  then show ?case by (auto simp: add_edge_def tryGetProvider_def edge_list_push List.map_filter_simps split: option.splits)
qed (simp add: List.map_filter_simps)

lemma add_edges_outgoing:
  "set (edge_list (outgoing_edges (foldl (add_edge s) p is)) a) =
     set (edge_list (outgoing_edges p) a) \<union> (if a \<in> set (List.map_filter (iu_providers p) is) then {subop_addr s} else {})"
proof (induction "is" arbitrary: p)
  case (Cons i "is")
  then show ?case by (auto simp: add_edge_def tryGetProvider_def edge_list_push List.map_filter_simps split: option.splits)
qed (simp add: List.map_filter_simps)

lemma add_edges_never_empty:
  "never_empty (incoming_edges p) \<and> never_empty (outgoing_edges p) \<Longrightarrow>
   never_empty (incoming_edges (foldl (add_edge s) p is)) \<and> never_empty (outgoing_edges (foldl (add_edge s) p is))"
proof (induction "is" arbitrary: p)
  case (Cons i "is") then show ?case by (auto simp: add_edge_def never_empty_push split: option.splits)
qed simp

text \<open>The state of a pipeline after attaching \<open>ops\<close>, described without the maps.\<close>

definition provs :: "subop list \<Rightarrow> iu set" where
  "provs ops = (\<Union>s\<in>set ops. set (provided_ius s))"

lemma provs_simps [simp]: "provs [] = {}" "provs (s # ops) = set (provided_ius s) \<union> provs ops" "provs (xs @ ys) = provs xs \<union> provs ys"
  by (auto simp: provs_def)

fun last_provider :: "subop list \<Rightarrow> iu \<Rightarrow> nat option" where
  "last_provider [] i = None"
| "last_provider (s # ops) i =
     (case last_provider ops i of Some a \<Rightarrow> Some a | None \<Rightarrow> if i \<in> set (provided_ius s) then Some (subop_addr s) else None)"

lemma last_provider_append: "last_provider (xs @ ys) i = (case last_provider ys i of Some a \<Rightarrow> Some a | None \<Rightarrow> last_provider xs i)"
  by (induction xs) (auto split: option.splits)

lemma last_provider_None: "last_provider ops i = None \<longleftrightarrow> i \<notin> provs ops"
  by (induction ops) (auto split: option.splits)

lemma pipe_of_snoc: "pipe_of (ops @ [s]) = attachSuboperator (pipe_of ops) s"
  by (simp add: pipe_of_def)

lemma pipe_of_providers: "iu_providers (pipe_of ops) i = last_provider ops i"
proof (induction ops rule: rev_induct)
  case Nil then show ?case by (simp add: pipe_of_def Pipeline_def)
next
  case (snoc s ops) then show ?case by (simp add: pipe_of_snoc attach_providers last_provider_append)
qed

lemma pipe_of_never_empty: "never_empty (incoming_edges (pipe_of ops)) \<and> never_empty (outgoing_edges (pipe_of ops))"
proof (induction ops rule: rev_induct)
  case Nil then show ?case by (simp add: pipe_of_def Pipeline_def never_empty_def)
next
  case (snoc s ops)
  then show ?case using add_edges_never_empty [of "pipe_of ops" s "source_ius s"]
    by (simp add: pipe_of_snoc attachSuboperator_def Let_def pipe_simps)
qed

lemma pipe_of_incoming_snoc:
  "edge_list (incoming_edges (pipe_of (ops @ [s]))) a =
     edge_list (incoming_edges (pipe_of ops)) a @ (if a = subop_addr s then List.map_filter (last_provider ops) (source_ius s) else [])"
  by (simp add: pipe_of_snoc attachSuboperator_def Let_def pipe_simps add_edges_incoming)
    (simp add: pipe_of_providers [abs_def])

lemma pipe_of_outgoing_snoc:
  "set (edge_list (outgoing_edges (pipe_of (ops @ [s]))) a) =
     set (edge_list (outgoing_edges (pipe_of ops)) a) \<union> (if a \<in> set (List.map_filter (last_provider ops) (source_ius s)) then {subop_addr s} else {})"
  by (simp add: pipe_of_snoc attachSuboperator_def Let_def pipe_simps add_edges_outgoing)
    (simp add: pipe_of_providers [abs_def])

lemma pipe_of_empty_edges: "edge_list (incoming_edges (pipe_of [])) a = []" "edge_list (outgoing_edges (pipe_of [])) a = []"
  by (simp_all add: pipe_of_def Pipeline_def edge_list_def)

lemma pipe_of_incoming:
  "distinct (map subop_addr (pre @ s # post)) \<Longrightarrow>
   edge_list (incoming_edges (pipe_of (pre @ s # post))) (subop_addr s) = List.map_filter (last_provider pre) (source_ius s)"
proof (induction post rule: rev_induct)
  case Nil
  have "subop_addr s \<notin> subop_addr ` set ops \<Longrightarrow> edge_list (incoming_edges (pipe_of ops)) (subop_addr s) = []" for ops
    by (induction ops rule: rev_induct) (auto simp: pipe_of_empty_edges pipe_of_incoming_snoc)
  with Nil show ?case by (simp add: pipe_of_incoming_snoc)
next
  case (snoc t post)
  then show ?case using pipe_of_incoming_snoc [of "pre @ s # post" t "subop_addr s"] by (auto)
qed

lemma consumers_converse:
  "distinct (map subop_addr ops) \<Longrightarrow>
   b \<in> set (edge_list (outgoing_edges (pipe_of ops)) a) \<longleftrightarrow> a \<in> set (edge_list (incoming_edges (pipe_of ops)) b)"
  by (induction ops rule: rev_induct) (auto simp: pipe_of_empty_edges pipe_of_incoming_snoc pipe_of_outgoing_snoc)

text \<open>
  A pipeline as the relational operators build it: objects are attached once, every IU has one provider,
  and what an operator reads has been provided before it.
\<close>

fun deps_met :: "(iu \<Rightarrow> bool) \<Rightarrow> iu set \<Rightarrow> subop list \<Rightarrow> bool" where
  "deps_met ignored avail [] = True"
| "deps_met ignored avail (s # ops) =
     ((\<forall>i\<in>set (source_ius s). ignored i \<or> i \<in> avail) \<and> deps_met ignored (avail \<union> set (provided_ius s)) ops)"

definition ssa :: "subop list \<Rightarrow> bool" where
  "ssa ops \<longleftrightarrow> distinct (concat (map provided_ius ops))"

definition built :: "subop list \<Rightarrow> bool" where
  "built ops \<longleftrightarrow> distinct (map subop_addr ops) \<and> ssa ops \<and> deps_met (\<lambda>i. False) {} ops"

lemma deps_met_append: "deps_met g A (xs @ ys) \<longleftrightarrow> deps_met g A xs \<and> deps_met g (A \<union> provs xs) ys"
  by (induction xs arbitrary: A) (auto simp: Un_assoc)

lemma provs_set: "provs ops = set (concat (map provided_ius ops))"
  by (auto simp: provs_def)

lemma ssa_append: "ssa (xs @ ys) \<longleftrightarrow> ssa xs \<and> ssa ys \<and> provs xs \<inter> provs ys = {}"
  by (auto simp: ssa_def provs_set)

lemma provider_position:
  assumes "i \<in> provs pre"
  obtains xs t ys where "pre = xs @ t # ys" "i \<in> set (provided_ius t)" "last_provider pre i = Some (subop_addr t)"
proof -
  have "\<exists>xs t ys. pre = xs @ t # ys \<and> i \<in> set (provided_ius t) \<and> last_provider pre i = Some (subop_addr t)"
    using assms
  proof (induction pre rule: rev_induct)
    case (snoc s pre)
    show ?case
    proof (cases "i \<in> set (provided_ius s)")
      case True then show ?thesis by (intro exI [of _ pre] exI [of _ s] exI [of _ "[]"]) (simp add: last_provider_append)
    next
      case False
      with snoc obtain xs t ys where t: "pre = xs @ t # ys" "i \<in> set (provided_ius t)" "last_provider pre i = Some (subop_addr t)" by auto
      show ?thesis by (intro exI [of _ xs] exI [of _ t] exI [of _ "ys @ [s]"]) (use False t in \<open>simp add: last_provider_append\<close>)
    qed
  qed simp
  then show thesis using that by blast
qed

lemma map_filter_all: "(\<And>i. i \<in> set is \<Longrightarrow> f i \<noteq> None) \<Longrightarrow> List.map_filter f is = map (\<lambda>i. the (f i)) is"
  by (induction "is") (auto simp: List.map_filter_simps split: option.splits)

lemma built_incoming:
  assumes "built (pre @ s # post)"
  shows "edge_list (incoming_edges (pipe_of (pre @ s # post))) (subop_addr s) = map (\<lambda>i. the (last_provider pre i)) (source_ius s)"
proof -
  have "set (source_ius s) \<subseteq> provs pre" using assms by (auto simp: built_def deps_met_append)
  then have n: "\<And>i. i \<in> set (source_ius s) \<Longrightarrow> last_provider pre i \<noteq> None" by (auto simp: last_provider_None)
  have "distinct (map subop_addr (pre @ s # post))" using assms by (simp add: built_def)
  from pipe_of_incoming [OF this] map_filter_all [OF n] show ?thesis by simp
qed

text \<open>
  C23. The graph is the data flow. In a pipeline as the operators build it, the producers of a suboperator are, input
  by input, the suboperators that provide these inputs, all attached before it; a source has no entry; and one
  suboperator is a consumer of another exactly when the other is its producer.
\<close>
theorem graph_is_dataflow:
  assumes "built (pre @ s # post)"
  shows "getProducers (pipe_of (pre @ s # post)) s =
      (if source_ius s = [] then Throws ''std::out_of_range'' else Returns (map (\<lambda>i. the (last_provider pre i)) (source_ius s))) \<and>
    (\<forall>i\<in>set (source_ius s). \<exists>t\<in>set pre. i \<in> set (provided_ius t) \<and> last_provider pre i = Some (subop_addr t)) \<and>
    (\<forall>t. (\<exists>cs. getConsumers (pipe_of (pre @ s # post)) t = Returns cs \<and> subop_addr s \<in> set cs) \<longleftrightarrow>
      (\<exists>ps. getProducers (pipe_of (pre @ s # post)) s = Returns ps \<and> subop_addr t \<in> set ps))"
proof (intro conjI ballI allI)
  let ?p = "pipe_of (pre @ s # post)"
  have ne: "never_empty (incoming_edges ?p)" "never_empty (outgoing_edges ?p)" using pipe_of_never_empty by blast+
  show "getProducers ?p s = (if source_ius s = [] then Throws ''std::out_of_range'' else Returns (map (\<lambda>i. the (last_provider pre i)) (source_ius s)))"
    unfolding getProducers_def at_map_edges [OF ne(1)] built_incoming [OF assms] by simp
  show "\<exists>t\<in>set pre. i \<in> set (provided_ius t) \<and> last_provider pre i = Some (subop_addr t)" if "i \<in> set (source_ius s)" for i
  proof -
    have "i \<in> provs pre" using assms that by (auto simp: built_def deps_met_append)
    then obtain xs t ys where "pre = xs @ t # ys" "i \<in> set (provided_ius t)" "last_provider pre i = Some (subop_addr t)"
      by (rule provider_position) blast
    then show ?thesis by auto
  qed
  show "(\<exists>cs. getConsumers ?p t = Returns cs \<and> subop_addr s \<in> set cs) \<longleftrightarrow> (\<exists>ps. getProducers ?p s = Returns ps \<and> subop_addr t \<in> set ps)" for t
    using consumers_converse [of "pre @ s # post" "subop_addr s" "subop_addr t"] assms
    unfolding getConsumers_def getProducers_def at_map_edges [OF ne(1)] at_map_edges [OF ne(2)]
    by (auto simp: built_def)
qed

section \<open>Cutting a pipeline\<close>

text \<open>Strong links go to the operator that opens a loop or a scope: it provides one IU.\<close>

definition strong_ok :: "subop list \<Rightarrow> bool" where
  "strong_ok ops \<longleftrightarrow> (\<forall>s\<in>set ops. incomingStrongLinks s \<longrightarrow>
     (\<exists>i is t. source_ius s = i # is \<and> t \<in> set ops \<and> provided_ius t = [i] \<and> distinct (source_ius t)))"

lemma number_simps [simp]: "length (number f k xs) = length xs" "number f k (xs @ ys) = number f k xs @ number f (k + length xs) ys"
  by (induction xs arbitrary: k) auto

lemma number_provided:
  "(\<And>a x. provided_ius (f a x) = g x) \<Longrightarrow> map provided_ius (number f k xs) = map g xs"
  by (induction xs arbitrary: k) auto

lemma number_sources:
  "(\<And>a x. set (source_ius (f a x)) \<subseteq> A) \<Longrightarrow> deps_met g A (number f k xs)"
proof -
  assume f: "\<And>a x. set (source_ius (f a x)) \<subseteq> A"
  have "A \<subseteq> B \<Longrightarrow> deps_met g B (number f k xs)" for B
  proof (induction xs arbitrary: k B)
    case (Cons x xs)
    have "A \<subseteq> B \<union> set (provided_ius (f k x))" using Cons.prems by blast
    with Cons f [of k x] show ?case by auto
  qed simp
  then show ?thesis by blast
qed

text \<open>The two loops over the suboperators of the range.\<close>

lemma scan_sources:
  "set (foldl (\<lambda>req i. if i \<notin> P \<and> i \<notin> set req then req @ [i] else req) R is) = set R \<union> {i \<in> set is. i \<notin> P} \<and>
   (distinct R \<longrightarrow> distinct (foldl (\<lambda>req i. if i \<notin> P \<and> i \<notin> set req then req @ [i] else req) R is))"
  by (induction "is" arbitrary: R) auto

lemma scan_subops:
  assumes "deps_met (\<lambda>i. False) (A \<union> set X) ops" "A \<inter> (set X \<union> provs ops) = {}" "set P \<subseteq> A"
  shows "set (snd (foldl scan_subop (P @ X, R) ops)) = set R \<union> {i \<in> A. i \<notin> set P \<and> (\<exists>s\<in>set ops. i \<in> set (source_ius s))} \<and>
    (distinct R \<longrightarrow> distinct (snd (foldl scan_subop (P @ X, R) ops)))"
  using assms
proof (induction ops arbitrary: X R)
  case Nil then show ?case by auto
next
  case (Cons s ops)
  let ?X = "X @ provided_ius s"
  let ?R = "foldl (\<lambda>req i. if i \<notin> set (P @ ?X) \<and> i \<notin> set req then req @ [i] else req) R (source_ius s)"
  have step: "scan_subop (P @ X, R) s = (P @ ?X, ?R)" by (simp add: scan_subop_def Let_def)
  have R: "set ?R = set R \<union> {i \<in> set (source_ius s). i \<notin> set (P @ ?X)}" "distinct R \<longrightarrow> distinct ?R"
    using scan_sources [of "set (P @ ?X)" R "source_ius s"] by blast+
  have src: "set (source_ius s) \<subseteq> A \<union> set X" using Cons.prems by auto
  have new: "{i \<in> set (source_ius s). i \<notin> set (P @ ?X)} = {i \<in> A. i \<notin> set P \<and> i \<in> set (source_ius s)}"
    using src Cons.prems(2) by auto
  have "deps_met (\<lambda>i. False) (A \<union> set ?X) ops" using Cons.prems(1) by (simp add: Un_assoc)
  moreover have "A \<inter> (set ?X \<union> provs ops) = {}" using Cons.prems(2) by auto
  ultimately have IH: "set (snd (foldl scan_subop (P @ ?X, ?R) ops)) = set ?R \<union> {i \<in> A. i \<notin> set P \<and> (\<exists>s\<in>set ops. i \<in> set (source_ius s))}"
    "distinct ?R \<longrightarrow> distinct (snd (foldl scan_subop (P @ ?X, ?R) ops))"
    using Cons.IH [of ?X ?R] Cons.prems(3) by blast+
  have e: "foldl scan_subop (P @ X, R) (s # ops) = foldl scan_subop (P @ ?X, ?R) ops" by (simp only: foldl_Cons step)
  show ?case unfolding e IH(1) R(1) new using IH(2) R(2) by auto
qed

lemma deps_met_swap:
  "deps_met (\<lambda>i. False) (A \<union> X) ops \<Longrightarrow> (\<And>s i. s \<in> set ops \<Longrightarrow> i \<in> set (source_ius s) \<Longrightarrow> i \<in> A \<Longrightarrow> g i \<or> i \<in> B) \<Longrightarrow>
   deps_met g (B \<union> X) ops"
proof (induction ops arbitrary: X)
  case (Cons s ops)
  have "deps_met (\<lambda>i. False) (A \<union> (X \<union> set (provided_ius s))) ops" using Cons.prems(1) by (simp add: Un_assoc)
  then have "deps_met g (B \<union> (X \<union> set (provided_ius s))) ops" using Cons.IH Cons.prems(2) by (metis list.set_intros(2))
  moreover have "g i \<or> i \<in> B \<union> X" if "i \<in> set (source_ius s)" for i using Cons.prems that by auto
  ultimately show ?case by (simp add: Un_assoc)
qed simp

text \<open>Resolving the operator that a strong link leads to.\<close>

lemma find_by_addr:
  assumes "distinct (map subop_addr ops)" "t \<in> set ops"
  shows "find (\<lambda>e. subop_addr e = subop_addr t) ops = Some t"
  using assms by (induction ops) (auto simp: image_iff)

lemma ssa_provider_unique: "ssa ops \<Longrightarrow> t \<in> set ops \<Longrightarrow> u \<in> set ops \<Longrightarrow> i \<in> set (provided_ius t) \<Longrightarrow> i \<in> set (provided_ius u) \<Longrightarrow> t = u"
proof (induction ops)
  case (Cons s ops)
  then have "ssa ops" "provs ops \<inter> set (provided_ius s) = {}" using ssa_append [of "[s]" ops] by auto
  with Cons show ?case by (auto simp: provs_def)
qed simp

lemma strong_in_built:
  assumes b: "built (pre @ s # post)" and ok: "strong_ok (pre @ s # post)" and st: "incomingStrongLinks s"
  obtains i "is" t where "source_ius s = i # is" "t \<in> set pre" "provided_ius t = [i]" "distinct (source_ius t)"
    "strong_in (pipe_of (pre @ s # post)) s = Returns (Some t)"
proof -
  from ok st obtain i "is" t where t: "source_ius s = i # is" "t \<in> set (pre @ s # post)" "provided_ius t = [i]" "distinct (source_ius t)"
    unfolding strong_ok_def by fastforce
  have "i \<in> provs pre" using b t(1) by (auto simp: built_def deps_met_append)
  then obtain xs u ys where u: "pre = xs @ u # ys" "i \<in> set (provided_ius u)" "last_provider pre i = Some (subop_addr u)"
    by (rule provider_position) blast
  have tu: "t = u" using b t u ssa_provider_unique [of "pre @ s # post" t u i] by (simp add: built_def)
  have e: "edge_list (incoming_edges (pipe_of (pre @ s # post))) (subop_addr s) = subop_addr t # map (\<lambda>i. the (last_provider pre i)) is"
    using built_incoming [OF b] t(1) u(3) tu by simp
  have gp: "getProducers (pipe_of (pre @ s # post)) s = Returns (subop_addr t # map (\<lambda>i. the (last_provider pre i)) is)"
    unfolding getProducers_def using at_map_edges [of "incoming_edges (pipe_of (pre @ s # post))" "subop_addr s"] pipe_of_never_empty e by simp
  have "distinct (map subop_addr (pre @ s # post))" using b by (simp add: built_def)
  then have "find (\<lambda>e. subop_addr e = subop_addr t) (pre @ s # post) = Some t" using t(2) by (rule find_by_addr)
  then have "strong_in (pipe_of (pre @ s # post)) s = Returns (Some t)"
    by (simp add: strong_in_def st gp find_subop_def)
  with that t tu u(1) show thesis by auto
qed

text \<open>The operator, if any, that \<open>repipe\<close> pulls in front of the range for its strong link.\<close>

definition helper :: "pipeline \<Rightarrow> subop \<Rightarrow> subop list" where
  "helper p s = (case strong_in p s of Returns (Some t) \<Rightarrow> [t] | _ \<Rightarrow> [])"

text \<open>What the new pipeline reads from and writes to fuse chunks.\<close>

definition chunk_reads :: "nat \<Rightarrow> pipeline \<Rightarrow> iu set" where
  "chunk_reads fresh q = (\<Union>s\<in>{s \<in> set (suboperators q). fresh \<le> subop_addr s \<and> kind s = FuseChunkSourceIUProvider}. set (provided_ius s))"

definition chunk_writes :: "nat \<Rightarrow> pipeline \<Rightarrow> iu set" where
  "chunk_writes fresh q = (\<Union>s\<in>{s \<in> set (suboperators q). fresh \<le> subop_addr s \<and> kind s = FuseChunkSink}. set (source_ius s))"

definition free_ius :: "iu set \<Rightarrow> subop list \<Rightarrow> iu set" where
  "free_ius before ops = {i \<in> before. i \<notin> provs ops \<and> (\<exists>s\<in>set ops. i \<in> set (source_ius s))}"

text \<open>The situation of a cut: the pipeline is \<open>pre @ mid @ post\<close> and \<open>mid\<close> is cut out.\<close>

definition cut_ok :: "nat \<Rightarrow> subop list \<Rightarrow> subop list \<Rightarrow> subop list \<Rightarrow> bool" where
  "cut_ok fresh pre mid post \<longleftrightarrow> built (pre @ mid @ post) \<and> strong_ok (pre @ mid @ post) \<and> mid \<noteq> [] \<and>
     \<not> outgoingStrongLinks (last mid) \<and> \<not> is_materialize_tuple (hd mid) \<and>
     (\<forall>s\<in>set (pre @ mid @ post). subop_addr s < fresh \<and> (\<forall>i\<in>set (provided_ius s). iu_addr i < fresh))"

lemma helper_cases:
  assumes "cut_ok fresh pre (m # ms) post"
  obtains (none) "strong_in (pipe_of (pre @ (m # ms) @ post)) m = Returns None" "helper (pipe_of (pre @ (m # ms) @ post)) m = []"
  | (one) i t where "strong_in (pipe_of (pre @ (m # ms) @ post)) m = Returns (Some t)" "helper (pipe_of (pre @ (m # ms) @ post)) m = [t]"
      "t \<in> set pre" "provided_ius t = [i]" "distinct (source_ius t)"
proof (cases "incomingStrongLinks m")
  case True
  have "built (pre @ m # (ms @ post))" "strong_ok (pre @ m # (ms @ post))" using assms by (auto simp: cut_ok_def)
  from strong_in_built [OF this True] show thesis using one by (simp add: helper_def) metis
next
  case False
  then show thesis using none by (simp add: helper_def strong_in_def)
qed

lemma helper_required:
  assumes c: "cut_ok fresh pre mid post" and h: "hs = helper (pipe_of (pre @ mid @ post)) (hd mid)"
  shows "\<exists>strong. strong_in (pipe_of (pre @ mid @ post)) (hd mid) = Returns strong \<and>
      hs = (case strong of None \<Rightarrow> [] | Some t \<Rightarrow> [t]) \<and> provs hs \<subseteq> provs pre \<and> set hs \<subseteq> set pre \<and>
      set (required_ius strong mid) = free_ius (provs pre) (hs @ mid) \<and> distinct (required_ius strong mid)"
proof -
  from c obtain m ms where mid: "mid = m # ms" by (cases mid) (auto simp: cut_ok_def)
  have b: "built (pre @ mid @ post)" and nm: "\<not> is_materialize_tuple m" using c mid by (auto simp: cut_ok_def)
  have d: "deps_met (\<lambda>i. False) (provs pre) mid" "provs pre \<inter> provs mid = {}"
    using b by (auto simp: built_def deps_met_append ssa_append)
  from c [unfolded mid] show ?thesis
  proof (cases rule: helper_cases)
    case none
    have "set (required_ius None mid) = {i \<in> provs pre. \<exists>s\<in>set mid. i \<in> set (source_ius s)} \<and> distinct (required_ius None mid)"
      using scan_subops [of "provs pre" "[]" mid "[]" "[]"] d nm mid by (simp add: required_ius_def Let_def)
    with none d h mid show ?thesis by (auto simp: free_ius_def)
  next
    case (one i t)
    have src: "set (source_ius t) \<subseteq> provs pre - {i}"
    proof -
      from one(3) obtain xs ys where p: "pre = xs @ t # ys" by (auto simp: in_set_conv_decomp)
      have "set (source_ius t) \<subseteq> provs xs" "provs xs \<inter> {i} = {}"
        using b one(4) p by (auto simp: built_def deps_met_append ssa_append)
      then show ?thesis using p by auto
    qed
    have pi: "{i} \<subseteq> provs pre" using one(3,4) by (force simp: provs_def)
    have "set (required_ius (Some t) mid) = set (source_ius t) \<union> {j \<in> provs pre. j \<notin> {i} \<and> (\<exists>s\<in>set mid. j \<in> set (source_ius s))} \<and>
        distinct (required_ius (Some t) mid)"
      using scan_subops [of "provs pre" "[]" mid "[i]" "source_ius t"] d nm mid pi one(4,5) by (simp add: required_ius_def Let_def)
    with one d h mid src pi show ?thesis by (auto simp: free_ius_def)
  qed
qed

lemma fuse_chunk_sources_facts:
  assumes "distinct req" "\<forall>i\<in>set req. iu_addr i < fresh"
  shows "deps_met is_void {} (fuse_chunk_sources fresh req)" "ssa (fuse_chunk_sources fresh req)"
    "provs (fuse_chunk_sources fresh req) \<subseteq> {i. iu_addr i = fresh} \<union> {i \<in> set req. \<not> is_void i}"
    "{i \<in> set req. \<not> is_void i} \<subseteq> provs (fuse_chunk_sources fresh req)"
proof -
  obtain d where dr: "provided_ius (build_driver fresh) = [d]" "source_ius (build_driver fresh) = []" "iu_addr d = fresh"
    by (simp add: build_driver_def)
  let ?n = "number (\<lambda>a i. build_provider a d i) (Suc fresh) (filter (\<lambda>i. \<not> is_void i) req)"
  have mp: "map provided_ius ?n = map (\<lambda>i. [i]) (filter (\<lambda>i. \<not> is_void i) req)"
    by (rule number_provided) (simp add: build_provider_def)
  have cc: "concat (map provided_ius ?n) = filter (\<lambda>i. \<not> is_void i) req" unfolding mp by simp
  have dm: "deps_met is_void {d} ?n" by (rule number_sources) (simp add: build_provider_def)
  have pn: "provs ?n = {i \<in> set req. \<not> is_void i}" unfolding provs_set cc by auto
  have fs: "fuse_chunk_sources fresh req = (if req = [] then [] else build_driver fresh # ?n)"
    by (simp add: fuse_chunk_sources_def dr(1))
  show "deps_met is_void {} (fuse_chunk_sources fresh req)" using dm by (simp add: fs dr)
  have nd: "d \<notin> set (filter (\<lambda>i. \<not> is_void i) req)"
  proof
    assume "d \<in> set (filter (\<lambda>i. \<not> is_void i) req)"
    then have "iu_addr d < fresh" using assms(2) by simp
    with dr(3) show False by simp
  qed
  have "concat (map provided_ius (build_driver fresh # ?n)) = d # filter (\<lambda>i. \<not> is_void i) req" by (simp add: dr(1) cc)
  then have "ssa (build_driver fresh # ?n)" using assms(1) nd by (metis distinct.simps(2) distinct_filter ssa_def)
  moreover have "ssa []" by (simp add: ssa_def)
  ultimately show "ssa (fuse_chunk_sources fresh req)" unfolding fs by (rule if_split [THEN iffD2, OF conjI, OF impI impI, rotated])
  show "provs (fuse_chunk_sources fresh req) \<subseteq> {i. iu_addr i = fresh} \<union> {i \<in> set req. \<not> is_void i}"
    "{i \<in> set req. \<not> is_void i} \<subseteq> provs (fuse_chunk_sources fresh req)"
    using dr(3) by (auto simp: fs dr(1) pn)
qed

lemma number_all: "(\<And>a x. k \<le> a \<Longrightarrow> P (f a x)) \<Longrightarrow> \<forall>s\<in>set (number f k xs). P s"
  by (induction xs arbitrary: k) (auto, meson Suc_leD)

lemma sources_reads:
  "(\<Union>s\<in>{s \<in> set (fuse_chunk_sources fresh req). fresh \<le> subop_addr s \<and> kind s = FuseChunkSourceIUProvider}. set (provided_ius s)) =
     {i \<in> set req. \<not> is_void i}"
  "\<forall>s\<in>set (fuse_chunk_sources fresh req). fresh \<le> subop_addr s \<and> kind s \<noteq> FuseChunkSink"
proof -
  let ?f = "\<lambda>a i. build_provider a (hd (provided_ius (build_driver fresh))) i"
  let ?n = "number ?f (Suc fresh) (filter (\<lambda>i. \<not> is_void i) req)"
  have mp: "map provided_ius ?n = map (\<lambda>i. [i]) (filter (\<lambda>i. \<not> is_void i) req)"
    by (rule number_provided) (simp add: build_provider_def)
  have all: "\<forall>s\<in>set ?n. fresh \<le> subop_addr s \<and> kind s = FuseChunkSourceIUProvider"
    by (rule number_all) (simp add: build_provider_def)
  have pn: "provs ?n = {i \<in> set req. \<not> is_void i}" unfolding provs_set mp by auto
  have n: "(\<Union>s\<in>{s \<in> set ?n. fresh \<le> subop_addr s \<and> kind s = FuseChunkSourceIUProvider}. set (provided_ius s)) = {i \<in> set req. \<not> is_void i}"
  proof -
    have "{s \<in> set ?n. fresh \<le> subop_addr s \<and> kind s = FuseChunkSourceIUProvider} = set ?n" using all by blast
    then show ?thesis using pn by (simp add: provs_def)
  qed
  have d: "{s \<in> set (build_driver fresh # ?n). fresh \<le> subop_addr s \<and> kind s = FuseChunkSourceIUProvider} =
      {s \<in> set ?n. fresh \<le> subop_addr s \<and> kind s = FuseChunkSourceIUProvider}" by (auto simp: build_driver_def)
  show "(\<Union>s\<in>{s \<in> set (fuse_chunk_sources fresh req). fresh \<le> subop_addr s \<and> kind s = FuseChunkSourceIUProvider}. set (provided_ius s)) =
     {i \<in> set req. \<not> is_void i}" using n d by (cases "req = []") (simp_all add: fuse_chunk_sources_def)
  show "\<forall>s\<in>set (fuse_chunk_sources fresh req). fresh \<le> subop_addr s \<and> kind s \<noteq> FuseChunkSink"
    using all by (auto simp: fuse_chunk_sources_def) (auto simp: build_driver_def)
qed

lemma sinks_facts:
  "\<forall>s\<in>set (number build_sink k ms). k \<le> subop_addr s \<and> kind s = FuseChunkSink \<and> provided_ius s = []"
  "(\<Union>s\<in>set (number build_sink k ms). set (source_ius s)) = set ms"
  "set ms \<subseteq> A \<Longrightarrow> deps_met g A (number build_sink k ms)"
  "concat (map provided_ius (number build_sink k ms)) = []"
proof -
  show "\<forall>s\<in>set (number build_sink k ms). k \<le> subop_addr s \<and> kind s = FuseChunkSink \<and> provided_ius s = []"
    by (rule number_all) (simp add: build_sink_def)
  show "(\<Union>s\<in>set (number build_sink k ms). set (source_ius s)) = set ms"
    by (induction ms arbitrary: k) (auto simp: build_sink_def)
  show "set ms \<subseteq> A \<Longrightarrow> deps_met g A (number build_sink k ms)"
    by (induction ms arbitrary: k) (auto simp: build_sink_def)
  show "concat (map provided_ius (number build_sink k ms)) = []"
    by (induction ms arbitrary: k) (auto simp: build_sink_def)
qed

lemma repipe_built:
  assumes c: "cut_ok fresh pre mid post" and req: "set (required_ius strong mid) = free_ius (provs pre) (hs @ mid)" "distinct (required_ius strong mid)"
    and hs: "hs = (case strong of None \<Rightarrow> [] | Some t \<Rightarrow> [t])" "provs hs \<subseteq> provs pre" "set hs \<subseteq> set pre"
    and mat: "set materialize \<subseteq> provs mid"
  shows "deps_met is_void {} (repiped_ops fresh strong mid None materialize)" "ssa (repiped_ops fresh strong mid None materialize)"
proof -
  let ?src = "fuse_chunk_sources fresh (required_ius strong mid)"
  let ?snk = "number build_sink (fresh + length ?src) materialize"
  have R: "repiped_ops fresh strong mid None materialize = ?src @ hs @ mid @ ?snk"
    by (simp add: repiped_ops_def Let_def hs(1) split: option.splits)
  have b: "built (pre @ mid @ post)" using c by (simp add: cut_ok_def)
  have low: "\<forall>i\<in>provs pre \<union> provs mid. iu_addr i < fresh" using c by (auto simp: cut_ok_def provs_def)
  have addr: "\<forall>i\<in>set (required_ius strong mid). iu_addr i < fresh" using req(1) low by (auto simp: free_ius_def)
  note F = fuse_chunk_sources_facts [OF req(2) addr]
  have dm: "deps_met (\<lambda>i. False) (provs pre) mid" "provs pre \<inter> provs mid = {}" "ssa mid"
    using b by (auto simp: built_def deps_met_append ssa_append)
  have hsrc: "\<forall>t\<in>set hs. set (source_ius t) \<subseteq> provs pre - provs hs"
  proof
    fix t assume t: "t \<in> set hs"
    then obtain xs ys where p: "pre = xs @ t # ys" "hs = [t]" using hs(1,3) by (fastforce simp: in_set_conv_decomp split: option.splits)
    have "set (source_ius t) \<subseteq> provs xs" "provs xs \<inter> set (provided_ius t) = {}"
      using b p by (auto simp: built_def deps_met_append ssa_append)
    then show "set (source_ius t) \<subseteq> provs pre - provs hs" using p by auto
  qed
  have avail: "is_void i \<or> i \<in> provs ?src" if "i \<in> free_ius (provs pre) (hs @ mid)" for i
    using F(4) req(1) that by auto
  have h: "deps_met is_void (provs ?src) hs"
  proof -
    have "is_void i \<or> i \<in> provs ?src" if "t \<in> set hs" "i \<in> set (source_ius t)" for t i
      using hsrc that dm(2) avail [of i] by (fastforce simp: free_ius_def)
    then show ?thesis using hs(1) by (auto split: option.splits)
  qed
  have m: "deps_met is_void (provs ?src \<union> provs hs) mid"
  proof -
    have "is_void i \<or> i \<in> provs ?src \<union> provs hs" if "s \<in> set mid" "i \<in> set (source_ius s)" "i \<in> provs pre" for s i
      using avail [of i] that dm(2) by (auto simp: free_ius_def)
    from deps_met_swap [of "provs pre" "{}" mid is_void "provs ?src \<union> provs hs"] this dm(1) show ?thesis by auto
  qed
  show "deps_met is_void {} (repiped_ops fresh strong mid None materialize)"
    unfolding R using F(1) h m sinks_facts(3) [of materialize "provs ?src \<union> provs hs \<union> provs mid" is_void] mat
    by (simp add: deps_met_append le_supI2)
  have "ssa hs"
  proof -
    have "ssa pre" using b by (auto simp: built_def ssa_append)
    then have "\<forall>t\<in>set pre. distinct (provided_ius t)" by (induction pre) (auto simp: ssa_def)
    then have "\<forall>t\<in>set hs. distinct (provided_ius t)" using hs(3) by blast
    then show ?thesis by (simp add: hs(1) ssa_def split: option.splits)
  qed
  moreover have "provs ?src \<inter> (provs hs \<union> provs mid) = {}"
  proof -
    have "i \<notin> provs hs \<union> provs mid" if "i \<in> provs ?src" for i
      using F(3) that low hs(2) req(1) by (auto simp: free_ius_def)
    then show ?thesis by auto
  qed
  moreover have "provs ?snk = {}" "ssa ?snk" unfolding provs_set ssa_def sinks_facts(4) by simp_all
  ultimately show "ssa (repiped_ops fresh strong mid None materialize)"
    unfolding R ssa_append using F(2) dm hs(2) by auto
qed

text \<open>
  C24. Cutting out of a pipeline a range that neither starts at a tuple materialisation (whose fragment has no sources for the inputs of
  the range) nor ends in an operator with an outgoing strong link (an open scope)
  gives a pipeline that is complete on its own: it contains the range in order, every input of every operator
  has a provider attached before it (void pseudo-IUs, which only order code generation, apart), no IU has two
  providers, the fuse chunks read are exactly the values the range needs from outside, and those written are the
  requested ones.
\<close>
theorem repipe_closed:
  assumes c: "cut_ok fresh pre mid post" and mat: "set materialize \<subseteq> provs mid"
  shows "\<exists>q xs ys. repipe fresh (pipe_of (pre @ mid @ post)) (length pre) (length pre + length mid) materialize = Returns q \<and>
    suboperators q = xs @ mid @ ys \<and> set xs \<inter> set (pre @ mid @ post) = set (helper (pipe_of (pre @ mid @ post)) (hd mid)) \<and>
    deps_met is_void {} (suboperators q) \<and> ssa (suboperators q) \<and>
    chunk_reads fresh q = {i \<in> free_ius (provs pre) (helper (pipe_of (pre @ mid @ post)) (hd mid) @ mid). \<not> is_void i} \<and>
    chunk_writes fresh q = set materialize"
proof -
  let ?p = "pipe_of (pre @ mid @ post)"
  define hs where "hs = helper ?p (hd mid)"
  obtain strong where s: "strong_in ?p (hd mid) = Returns strong" "hs = (case strong of None \<Rightarrow> [] | Some t \<Rightarrow> [t])"
    "provs hs \<subseteq> provs pre" "set hs \<subseteq> set pre"
    and req: "set (required_ius strong mid) = free_ius (provs pre) (hs @ mid)" "distinct (required_ius strong mid)"
    using helper_required [OF c hs_def] by blast
  note B = repipe_built [OF c req s(2,3,4) mat]
  let ?src = "fuse_chunk_sources fresh (required_ius strong mid)"
  let ?snk = "number build_sink (fresh + length ?src) materialize"
  have R: "repiped_ops fresh strong mid None materialize = (?src @ hs) @ mid @ ?snk"
    by (simp add: repiped_ops_def Let_def s(2) split: option.splits)
  have ne: "mid \<noteq> []" and nl: "\<not> outgoingStrongLinks (last mid)"
    and low: "\<forall>s\<in>set (pre @ mid @ post). subop_addr s < fresh" using c by (auto simp: cut_ok_def)
  have ix: "(pre @ mid @ post) ! length pre = hd mid" "(pre @ mid @ post) ! (length pre + length mid - 1) = last mid"
    "slice (length pre) (length pre + length mid) (pre @ mid @ post) = mid"
    using ne by (simp_all add: nth_append hd_conv_nth last_conv_nth slice_def not_less_eq) (cases mid; simp)
  let ?q = "foldl attachSuboperator (if parallel_codegen ?p then Pipeline else disallowParallelCodegen Pipeline) ((?src @ hs) @ mid @ ?snk)"
  have rp: "repipe fresh ?p (length pre) (length pre + length mid) materialize = Returns ?q"
    using ne ix s(1) nl R by (simp add: repipe_def strong_out_def)
  have sub: "suboperators ?q = (?src @ hs) @ mid @ ?snk"
    unfolding attach_all_suboperators by (simp add: disallowParallelCodegen_def Pipeline_def)
  have hm: "\<forall>s\<in>set hs \<union> set mid. subop_addr s < fresh" using s(4) low by auto
  have snk: "\<forall>t\<in>set ?snk. fresh \<le> subop_addr t \<and> kind t = FuseChunkSink \<and> provided_ius t = []"
    using sinks_facts(1) [of "fresh + length ?src" materialize] by (meson le_add1 le_trans)
  note src = sources_reads [of fresh "required_ius strong mid"]
  have nhm: "\<forall>s\<in>set hs \<union> set mid. \<not> fresh \<le> subop_addr s" using hm by (simp add: not_le)
  have nsnk: "\<forall>t\<in>set ?snk. kind t \<noteq> FuseChunkSourceIUProvider" using snk by simp
  have reads: "{s \<in> set (suboperators ?q). fresh \<le> subop_addr s \<and> kind s = FuseChunkSourceIUProvider} =
      {s \<in> set ?src. fresh \<le> subop_addr s \<and> kind s = FuseChunkSourceIUProvider}"
    unfolding sub set_append using nhm nsnk by blast
  have writes: "{s \<in> set (suboperators ?q). fresh \<le> subop_addr s \<and> kind s = FuseChunkSink} = set ?snk"
    unfolding sub set_append using nhm snk src(2) by blast
  have "chunk_reads fresh ?q = {i \<in> free_ius (provs pre) (hs @ mid). \<not> is_void i}"
    unfolding chunk_reads_def reads src(1) req(1) ..
  moreover have "chunk_writes fresh ?q = set materialize" unfolding chunk_writes_def writes by (rule sinks_facts(2))
  moreover have "set (?src @ hs) \<inter> set (pre @ mid @ post) = set hs" using src(2) low s(4) by fastforce
  moreover have "deps_met is_void {} (suboperators ?q)" "ssa (suboperators ?q)" using B unfolding sub R by blast+
  ultimately show ?thesis unfolding hs_def [symmetric]
    by (intro exI [of _ ?q] exI [of _ "?src @ hs"] exI [of _ ?snk] conjI rp sub)
qed

section \<open>Fragments exchange all they need\<close>

lemma set_insert_new: "set (foldl insert_new xs ys) = set xs \<union> set ys"
  by (induction ys arbitrary: xs) (auto simp: insert_new_def)

text \<open>The order in which a hash set iterates is any order of its elements.\<close>

definition set_order_ok :: "(iu list \<Rightarrow> iu list) \<Rightarrow> bool" where
  "set_order_ok f \<longleftrightarrow> (\<forall>xs. set (f xs) = set xs)"

lemma slice_mid: "slice (length pre) (length pre + length mid) (pre @ mid @ post) = mid"
  by (simp add: slice_def)

lemma repipeRequired_cut:
  assumes c: "cut_ok fresh pre mid post" and so: "set_order_ok so"
  shows "\<exists>q. repipeRequired so fresh (pipe_of (pre @ mid @ post)) (length pre) (length pre + length mid) = Returns q \<and>
    chunk_reads fresh q = {i \<in> free_ius (provs pre) (helper (pipe_of (pre @ mid @ post)) (hd mid) @ mid). \<not> is_void i} \<and>
    chunk_writes fresh q = {i \<in> provs mid. \<not> is_void i \<and> (\<exists>s\<in>set post. i \<in> set (source_ius s))}"
proof -
  define m where "m = so (foldl insert_new [] (filter (\<lambda>i. i \<in> set (concat (map (\<lambda>s. filter (\<lambda>i. \<not> is_void i) (provided_ius s)) mid))) (concat (map source_ius post))))"
  have ms: "set m = {i \<in> provs mid. \<not> is_void i \<and> (\<exists>s\<in>set post. i \<in> set (source_ius s))}"
    using so by (auto simp: m_def set_order_ok_def set_insert_new provs_def)
  then have "set m \<subseteq> provs mid" by blast
  from repipe_closed [OF c this] ms show ?thesis
    by (simp add: repipeRequired_def Let_def slice_mid m_def) blast
qed

lemma repipeAll_cut:
  assumes c: "cut_ok fresh pre mid post" and so: "set_order_ok so"
  shows "\<exists>q. repipeAll so fresh (pipe_of (pre @ mid @ post)) (length pre) (length pre + length mid) = Returns q \<and>
    chunk_reads fresh q = {i \<in> free_ius (provs pre) (helper (pipe_of (pre @ mid @ post)) (hd mid) @ mid). \<not> is_void i} \<and>
    chunk_writes fresh q = {i \<in> provs (filter (\<lambda>s. \<not> outgoingStrongLinks s) mid). \<not> is_void i}"
proof -
  define m where "m = so (foldl insert_new [] (concat (map (\<lambda>s. if outgoingStrongLinks s then [] else filter (\<lambda>i. \<not> is_void i) (provided_ius s)) mid)))"
  have ms: "set m = {i \<in> provs (filter (\<lambda>s. \<not> outgoingStrongLinks s) mid). \<not> is_void i}"
    using so by (auto simp: m_def set_order_ok_def set_insert_new provs_def split: if_splits)
  then have "set m \<subseteq> provs mid" by (auto simp: provs_def)
  from repipe_closed [OF c this] ms show ?thesis
    by (simp add: repipeAll_def Let_def slice_mid m_def) blast
qed

text \<open>
  C25. Whichever backend runs the pieces of a pipeline, a piece finds its inputs: let two ranges of a pipeline be cut
  out, the first before the second, neither of them starting at a tuple materialisation nor ending in an open scope. A column that the
  second reads from the fuse chunk and that an operator of the first provides is written by the first: by the compiled fragment
  (\<open>repipeRequired\<close>) if an operator behind the first range reads it, and by the interpreted primitive
  (\<open>repipeAll\<close>) if its provider has no outgoing strong link. The exceptions are a filter column that only a scope inside the first
  range reads, which that scope's copy in the second range reads again, and the outputs of operators that are never interpreted.
\<close>
theorem fragments_exchange:
  assumes "cut_ok fresh pre mid1 (between @ mid2 @ post)" "cut_ok fresh (pre @ mid1 @ between) mid2 post" "set_order_ok so"
  shows "\<exists>q1 q1' q2 q2'.
    repipeRequired so fresh (pipe_of (pre @ mid1 @ between @ mid2 @ post)) (length pre) (length pre + length mid1) = Returns q1 \<and>
    repipeAll so fresh (pipe_of (pre @ mid1 @ between @ mid2 @ post)) (length pre) (length pre + length mid1) = Returns q1' \<and>
    repipeRequired so fresh (pipe_of (pre @ mid1 @ between @ mid2 @ post))
      (length (pre @ mid1 @ between)) (length (pre @ mid1 @ between) + length mid2) = Returns q2 \<and>
    repipeAll so fresh (pipe_of (pre @ mid1 @ between @ mid2 @ post))
      (length (pre @ mid1 @ between)) (length (pre @ mid1 @ between) + length mid2) = Returns q2' \<and>
    chunk_reads fresh q2' = chunk_reads fresh q2 \<and>
    {i \<in> chunk_reads fresh q2 \<inter> provs mid1. \<exists>s\<in>set (between @ mid2 @ post). i \<in> set (source_ius s)} \<subseteq> chunk_writes fresh q1 \<and>
    chunk_reads fresh q2 \<inter> provs (filter (\<lambda>s. \<not> outgoingStrongLinks s) mid1) \<subseteq> chunk_writes fresh q1'"
proof -
  let ?p = "pipe_of (pre @ mid1 @ between @ mid2 @ post)"
  obtain q1 where 1: "repipeRequired so fresh ?p (length pre) (length pre + length mid1) = Returns q1"
    "chunk_writes fresh q1 = {i \<in> provs mid1. \<not> is_void i \<and> (\<exists>s\<in>set (between @ mid2 @ post). i \<in> set (source_ius s))}"
    using repipeRequired_cut [OF assms(1,3)] by blast
  obtain q1' where 2: "repipeAll so fresh ?p (length pre) (length pre + length mid1) = Returns q1'"
    "chunk_writes fresh q1' = {i \<in> provs (filter (\<lambda>s. \<not> outgoingStrongLinks s) mid1). \<not> is_void i}"
    using repipeAll_cut [OF assms(1,3)] by blast
  have e: "(pre @ mid1 @ between) @ mid2 @ post = pre @ mid1 @ between @ mid2 @ post" by simp
  obtain q2 where 3: "repipeRequired so fresh ?p (length (pre @ mid1 @ between)) (length (pre @ mid1 @ between) + length mid2) = Returns q2"
    "chunk_reads fresh q2 = {i \<in> free_ius (provs (pre @ mid1 @ between)) (helper ?p (hd mid2) @ mid2). \<not> is_void i}"
    using repipeRequired_cut [OF assms(2,3)] unfolding e by blast
  obtain q2' where 4: "repipeAll so fresh ?p (length (pre @ mid1 @ between)) (length (pre @ mid1 @ between) + length mid2) = Returns q2'"
    "chunk_reads fresh q2' = {i \<in> free_ius (provs (pre @ mid1 @ between)) (helper ?p (hd mid2) @ mid2). \<not> is_void i}"
    using repipeAll_cut [OF assms(2,3)] unfolding e by blast
  show ?thesis
    by (intro exI [of _ q1] exI [of _ q1'] exI [of _ q2] exI [of _ q2'] conjI 1(1) 2(1) 3(1) 4(1))
      (auto simp: 1(2) 2(2) 3(2) 4(2))
qed

section \<open>A concrete pipeline\<close>

text \<open>A scan of a column, an expression on it and a sink.\<close>

definition ex_iu :: "nat \<Rightarrow> iu" where
  "ex_iu a = \<lparr> iu_addr = a, iu_type = UnsignedInt 8, iu_name = [] \<rparr>"
definition ex_driver :: subop where
  "ex_driver = \<lparr> subop_addr = 1, kind = TScanDriver 1000, provided_ius = [ex_iu 1], source_ius = [], rof = Default \<rparr>"
definition ex_scan :: subop where
  "ex_scan = \<lparr> subop_addr = 2, kind = TScanIUProvider 0, provided_ius = [ex_iu 2], source_ius = [ex_iu 1], rof = Default \<rparr>"
definition ex_expr :: subop where
  "ex_expr = \<lparr> subop_addr = 3, kind = ExpressionSubop Add, provided_ius = [ex_iu 3], source_ius = [ex_iu 2, ex_iu 2], rof = Default \<rparr>"
definition ex_sink :: subop where
  "ex_sink = \<lparr> subop_addr = 4, kind = FuseChunkSink, provided_ius = [], source_ius = [ex_iu 3], rof = Default \<rparr>"

lemmas ex_defs = ex_iu_def ex_driver_def ex_scan_def ex_expr_def ex_sink_def

lemma ex_built: "built [ex_driver, ex_scan, ex_expr, ex_sink]"
  by (simp add: built_def ssa_def ex_defs)

lemma ex_strong: "strong_ok [ex_driver, ex_scan, ex_expr, ex_sink]"
proof -
  have "\<exists>i is t. source_ius ex_scan = i # is \<and> t \<in> set [ex_driver, ex_scan, ex_expr, ex_sink] \<and> provided_ius t = [i] \<and> distinct (source_ius t)"
    by (intro exI [of _ "ex_iu 1"] exI [of _ "[]"] exI [of _ ex_driver]) (simp add: ex_scan_def ex_driver_def)
  moreover have "\<not> incomingStrongLinks ex_driver" "\<not> incomingStrongLinks ex_expr" "\<not> incomingStrongLinks ex_sink"
    by (simp_all add: incomingStrongLinks_def ex_defs)
  ultimately show ?thesis by (simp add: strong_ok_def)
qed

lemma ex_cuts:
  "cut_ok 100 [ex_driver, ex_scan] [ex_expr] [ex_sink]"
  "cut_ok 100 [] [ex_driver, ex_scan] ([] @ [ex_expr] @ [ex_sink])"
  "cut_ok 100 ([] @ [ex_driver, ex_scan] @ []) [ex_expr] [ex_sink]"
  using ex_built ex_strong by (auto simp: cut_ok_def outgoingStrongLinks_def is_materialize_tuple_def) (simp_all add: ex_defs)

theorem graph_is_dataflow_witness:
  "getProducers (pipe_of [ex_driver, ex_scan, ex_expr, ex_sink]) ex_expr = Returns [2, 2]"
proof -
  have "built ([ex_driver, ex_scan] @ ex_expr # [ex_sink])" using ex_built by simp
  from graph_is_dataflow [OF this] show ?thesis by (simp add: ex_defs)
qed

theorem repipe_closed_witness:
  "\<exists>q. repipe 100 (pipe_of [ex_driver, ex_scan, ex_expr, ex_sink]) 2 3 [ex_iu 3] = Returns q \<and>
     deps_met is_void {} (suboperators q) \<and> ssa (suboperators q) \<and> chunk_writes 100 q = {ex_iu 3}"
proof -
  have "set [ex_iu 3] \<subseteq> provs [ex_expr]" by (simp add: ex_expr_def)
  from repipe_closed [OF ex_cuts(1) this] show ?thesis by (simp add: eval_nat_numeral) blast
qed

theorem fragments_exchange_witness:
  "\<exists>q1 q2. repipeRequired (\<lambda>x. x) 100 (pipe_of [ex_driver, ex_scan, ex_expr, ex_sink]) 0 2 = Returns q1 \<and>
     repipeRequired (\<lambda>x. x) 100 (pipe_of [ex_driver, ex_scan, ex_expr, ex_sink]) 2 3 = Returns q2 \<and>
     {i \<in> chunk_reads 100 q2 \<inter> provs [ex_driver, ex_scan]. \<exists>s\<in>set [ex_expr, ex_sink]. i \<in> set (source_ius s)} \<subseteq> chunk_writes 100 q1"
proof -
  have "set_order_ok (\<lambda>x. x)" by (simp add: set_order_ok_def)
  from fragments_exchange [OF ex_cuts(2,3) this] show ?thesis by (simp add: eval_nat_numeral) blast
qed

end
