(* ===== verification/Pipeline_DAG.thy ===== *)
theory Pipeline_DAG
  imports Pipeline_Props
begin

text \<open>
  The pipeline DAG of a query (\<open>PipelineDAG\<close> in \<open>algebra/Pipeline.{h,cpp}\<close>): its pipelines in execution order, the
  continuations of outer joins that are waiting to be turned into pipelines, the runtime tasks between pipelines and
  the deferred runtime state; and how a query is run over it (\<open>exec/QueryExecutor.cpp\<close>).
\<close>

section \<open>Deferred state and runtime tasks\<close>

text \<open>The state initialisers of \<open>exec/DeferredState.h\<close>, with the arguments of their constructors. A join table refers to its materialiser.\<close>

datatype deferred =
    TupleMaterializerState nat
  | AtomicHashTableState nat
  | HashTableSimpleKeyState nat nat
  | HashTableComplexKeyState nat nat
  | HashTableDirectLookupState nat

text \<open>The two closures of a runtime task by the operator that creates them.\<close>

datatype rt_function =
    BuildJoinTable nat nat nat nat
  | MergeAggregation nat

record runtime_task =
  after_pipe :: nat
  task_function :: rt_function

section \<open>The DAG\<close>

text \<open>\<open>next_addr\<close> is the next address for a suboperator; in the code every \<open>build\<close> allocates.\<close>

record dag =
  pipelines :: "pipeline list"
  continuations :: "(nat \<times> pipeline) list"
  runtime_tasks :: "runtime_task list"
  runtime_state :: "(nat \<times> deferred) list"
  next_addr :: nat

definition PipelineDAG :: "nat \<Rightarrow> dag" where
  "PipelineDAG a = \<lparr> pipelines = [], continuations = [], runtime_tasks = [], runtime_state = [], next_addr = a \<rparr>"

definition getCurrentPipeline :: "dag \<Rightarrow> pipeline" where
  "getCurrentPipeline d = last (pipelines d)"

text \<open>A change of the pipeline that \<open>getCurrentPipeline\<close> returns by reference.\<close>

definition on_current :: "(pipeline \<Rightarrow> pipeline) \<Rightarrow> dag \<Rightarrow> dag" where
  "on_current f d = d\<lparr> pipelines := butlast (pipelines d) @ [f (last (pipelines d))] \<rparr>"

text \<open>
  The loop over the continuations takes \<open>pipelines.back()\<close> anew in every round, so from the second
  continuation on it copies from the pipeline of the previous continuation.
\<close>

definition attach_continuation_pipe :: "pipeline list \<Rightarrow> nat \<times> pipeline \<Rightarrow> pipeline list" where
  "attach_continuation_pipe pipes c = (case c of (subop_idx, pipe) \<Rightarrow>
     pipes @ [foldl attachSuboperator pipe (drop subop_idx (suboperators (last pipes)))])"

definition buildNewPipeline :: "dag \<Rightarrow> dag" where
  "buildNewPipeline d =
     d\<lparr> pipelines := foldl attach_continuation_pipe (pipelines d) (continuations d) @ [Pipeline], continuations := [] \<rparr>"

definition attachContinuation :: "dag \<Rightarrow> dag" where
  "attachContinuation d =
     (let curr_idx = length (suboperators (last (pipelines d)));
          d1 = on_current disallowParallelCodegen d
      in d1\<lparr> continuations := continuations d1 @ [(curr_idx, disallowParallelCodegen Pipeline)] \<rparr>)"

definition on_continuation :: "(pipeline \<Rightarrow> pipeline) \<Rightarrow> dag \<Rightarrow> dag" where
  "on_continuation f d = d\<lparr> continuations := butlast (continuations d) @ [map_prod id f (last (continuations d))] \<rparr>"

definition addRuntimeTask :: "runtime_task \<Rightarrow> dag \<Rightarrow> dag" where
  "addRuntimeTask t d = d\<lparr> runtime_tasks := runtime_tasks d @ [t] \<rparr>"

text \<open>The five \<open>attach...\<close> functions for runtime state; the result is the number of the new state.\<close>

definition attach_state :: "nat \<Rightarrow> deferred \<Rightarrow> dag \<Rightarrow> nat \<times> dag" where
  "attach_state discard_after st d =
     (length (runtime_state d), d\<lparr> runtime_state := runtime_state d @ [(discard_after, st)] \<rparr>)"

definition attachTupleMaterializers :: "nat \<Rightarrow> nat \<Rightarrow> dag \<Rightarrow> nat \<times> dag" where
  "attachTupleMaterializers discard_after tuple_size = attach_state discard_after (TupleMaterializerState tuple_size)"
definition attachAtomicHashTable :: "nat \<Rightarrow> nat \<Rightarrow> dag \<Rightarrow> nat \<times> dag" where
  "attachAtomicHashTable discard_after mat = attach_state discard_after (AtomicHashTableState mat)"
definition attachHashTableSimpleKey :: "nat \<Rightarrow> nat \<Rightarrow> nat \<Rightarrow> dag \<Rightarrow> nat \<times> dag" where
  "attachHashTableSimpleKey discard_after key_size payload_size = attach_state discard_after (HashTableSimpleKeyState key_size payload_size)"
definition attachHashTableComplexKey :: "nat \<Rightarrow> nat \<Rightarrow> nat \<Rightarrow> dag \<Rightarrow> nat \<times> dag" where
  "attachHashTableComplexKey discard_after slots payload_size = attach_state discard_after (HashTableComplexKeyState slots payload_size)"
definition attachHashTableDirectLookup :: "nat \<Rightarrow> nat \<Rightarrow> dag \<Rightarrow> nat \<times> dag" where
  "attachHashTableDirectLookup discard_after payload_size = attach_state discard_after (HashTableDirectLookupState payload_size)"

text \<open>A suboperator built and attached to the current pipeline.\<close>

type_synonym subop_spec = "subop_kind \<times> iu list \<times> iu list"

definition make_subop :: "nat \<Rightarrow> subop_spec \<Rightarrow> subop" where
  "make_subop a spec = (case spec of (k, out, src) \<Rightarrow>
     \<lparr> subop_addr = a, kind = k, provided_ius = out, source_ius = src, rof = Default \<rparr>)"

definition attach_new :: "subop_spec \<Rightarrow> dag \<Rightarrow> dag" where
  "attach_new spec d =
     (on_current (\<lambda>p. attachSuboperator p (make_subop (next_addr d) spec)) d)\<lparr> next_addr := Suc (next_addr d) \<rparr>"

text \<open>A loop that attaches one suboperator per round.\<close>

definition attach_all :: "subop_spec list \<Rightarrow> dag \<Rightarrow> dag" where
  "attach_all specs d = foldl (\<lambda>d spec. attach_new spec d) d specs"

section \<open>Running a query\<close>

text \<open>What \<open>StepwiseExecutor::runQuery\<close> does, as the sequence of its calls; \<open>worker_function\<close> runs on every thread.\<close>

datatype query_event = RunPipeline nat | PrepareTask runtime_task | WorkerTask runtime_task nat

definition runRuntimeTask :: "nat \<Rightarrow> runtime_task \<Rightarrow> query_event list" where
  "runRuntimeTask num_threads t = PrepareTask t # map (WorkerTask t) [0..<num_threads]"

fun runTasks :: "nat \<Rightarrow> nat \<Rightarrow> runtime_task list \<Rightarrow> (query_event list \<times> runtime_task list) outcome" where
  "runTasks num_threads pipeline_idx [] = Returns ([], [])"
| "runTasks num_threads pipeline_idx (t # ts) =
     (if after_pipe t \<le> pipeline_idx then
        (if after_pipe t \<noteq> pipeline_idx then Throws ''assertion''
         else obind (runTasks num_threads pipeline_idx ts) (\<lambda>(evs, rest). Returns (runRuntimeTask num_threads t @ evs, rest)))
      else Returns ([], t # ts))"

fun runPipes :: "nat \<Rightarrow> nat list \<Rightarrow> runtime_task list \<Rightarrow> query_event list outcome" where
  "runPipes num_threads [] ts = Returns []"
| "runPipes num_threads (pipeline_idx # idxs) ts =
     obind (runTasks num_threads pipeline_idx ts) (\<lambda>(evs, rest).
       obind (runPipes num_threads idxs rest) (\<lambda>evs'. Returns (RunPipeline pipeline_idx # evs @ evs')))"

definition runQuery :: "nat \<Rightarrow> dag \<Rightarrow> query_event list outcome" where
  "runQuery num_threads d = runPipes num_threads [0..<length (pipelines d)] (runtime_tasks d)"

section \<open>The order of execution\<close>

definition tasks_ok :: "dag \<Rightarrow> bool" where
  "tasks_ok d \<longleftrightarrow> sorted (map after_pipe (runtime_tasks d)) \<and> (\<forall>t\<in>set (runtime_tasks d). after_pipe t < length (pipelines d))"

lemma runTasks_split:
  "\<forall>t\<in>set ts. i \<le> after_pipe t \<Longrightarrow>
   runTasks n i ts = Returns (concat (map (runRuntimeTask n) (takeWhile (\<lambda>t. after_pipe t \<le> i) ts)), dropWhile (\<lambda>t. after_pipe t \<le> i) ts)"
  by (induction ts) auto

lemma takeWhile_sorted: "sorted (map f ts) \<Longrightarrow> takeWhile (\<lambda>t. f t \<le> i) ts = filter (\<lambda>t. f t \<le> i) ts" for f :: "'a \<Rightarrow> nat"
  by (induction ts) (auto simp: not_le intro!: filter_False [symmetric] dest: less_le_trans)

lemma dropWhile_sorted: "sorted (map f ts) \<Longrightarrow> dropWhile (\<lambda>t. f t \<le> i) ts = filter (\<lambda>t. i < f t) ts" for f :: "'a \<Rightarrow> nat"
  by (induction ts) (auto intro!: filter_True [symmetric])

lemma sorted_map_filter: "sorted (map f ts) \<Longrightarrow> sorted (map f (filter P ts))" for f :: "'a \<Rightarrow> nat"
  by (induction ts) auto

lemma runPipes_spec:
  "sorted (map after_pipe ts) \<Longrightarrow> \<forall>t\<in>set ts. i \<le> after_pipe t \<Longrightarrow>
   runPipes n [i..<m] ts = Returns (concat (map (\<lambda>j. RunPipeline j # concat (map (runRuntimeTask n) (filter (\<lambda>t. after_pipe t = j) ts))) [i..<m]))"
proof (induction "m - i" arbitrary: i ts)
  case 0 then show ?case by simp
next
  case (Suc k)
  then have up: "[i..<m] = i # [Suc i..<m]" by (simp add: upt_conv_Cons)
  have here: "filter (\<lambda>t. after_pipe t \<le> i) ts = filter (\<lambda>t. after_pipe t = i) ts"
    using Suc.prems(2) by (intro filter_cong) auto
  have later: "filter (\<lambda>t. after_pipe t = j) (filter (\<lambda>t. i < after_pipe t) ts) = filter (\<lambda>t. after_pipe t = j) ts" if "j \<in> set [Suc i..<m]" for j
    using that by (simp only: filter_filter) (rule filter_cong, auto)
  have "runPipes n [Suc i..<m] (filter (\<lambda>t. i < after_pipe t) ts) =
      Returns (concat (map (\<lambda>j. RunPipeline j # concat (map (runRuntimeTask n) (filter (\<lambda>t. after_pipe t = j) (filter (\<lambda>t. i < after_pipe t) ts)))) [Suc i..<m]))"
    using Suc by (intro Suc.hyps(1) sorted_map_filter) auto
  also have "\<dots> = Returns (concat (map (\<lambda>j. RunPipeline j # concat (map (runRuntimeTask n) (filter (\<lambda>t. after_pipe t = j) ts))) [Suc i..<m]))"
    by (intro arg_cong [where f = Returns] arg_cong [where f = concat] map_cong refl) (simp only: later)
  finally show ?case
    using Suc.prems by (simp add: up runTasks_split takeWhile_sorted dropWhile_sorted here del: upt_Suc)
qed

lemma tasks_of_pipes:
  "sorted (map after_pipe ts) \<Longrightarrow> \<forall>t\<in>set ts. i \<le> after_pipe t \<and> after_pipe t < m \<Longrightarrow>
   concat (map (\<lambda>j. filter (\<lambda>t. after_pipe t = j) ts) [i..<m]) = ts"
proof (induction "m - i" arbitrary: i ts)
  case 0 then show ?case by (cases ts) auto
next
  case (Suc k)
  then have up: "[i..<m] = i # [Suc i..<m]" by (simp add: upt_conv_Cons)
  have here: "filter (\<lambda>t. after_pipe t \<le> i) ts = filter (\<lambda>t. after_pipe t = i) ts"
    using Suc.prems(2) by (intro filter_cong) auto
  have later: "filter (\<lambda>t. after_pipe t = j) (filter (\<lambda>t. i < after_pipe t) ts) = filter (\<lambda>t. after_pipe t = j) ts" if "j \<in> set [Suc i..<m]" for j
    using that by (simp only: filter_filter) (rule filter_cong, auto)
  have "concat (map (\<lambda>j. filter (\<lambda>t. after_pipe t = j) (filter (\<lambda>t. i < after_pipe t) ts)) [Suc i..<m]) = filter (\<lambda>t. i < after_pipe t) ts"
    using Suc by (intro Suc.hyps(1) sorted_map_filter) auto
  moreover have "map (\<lambda>j. filter (\<lambda>t. after_pipe t = j) (filter (\<lambda>t. i < after_pipe t) ts)) [Suc i..<m] =
      map (\<lambda>j. filter (\<lambda>t. after_pipe t = j) ts) [Suc i..<m]"
    by (rule map_cong [OF refl later])
  ultimately have "concat (map (\<lambda>j. filter (\<lambda>t. after_pipe t = j) ts) [Suc i..<m]) = filter (\<lambda>t. i < after_pipe t) ts"
    by (simp only:)
  then show ?case
    using takeWhile_dropWhile_id [of "\<lambda>t. after_pipe t \<le> i" ts] Suc.prems(1)
    by (simp add: up takeWhile_sorted dropWhile_sorted here del: takeWhile_dropWhile_id upt_Suc)
qed

lemma prepared_events:
  "filter (\<lambda>e. \<exists>t. e = PrepareTask t) (concat (map (\<lambda>j. RunPipeline j # concat (map (runRuntimeTask n) (fs j))) js)) =
   map PrepareTask (concat (map fs js))"
proof -
  have "filter (\<lambda>e. \<exists>t. e = PrepareTask t) (concat (map (runRuntimeTask n) us)) = map PrepareTask us" for us
    by (induction us) (auto simp: runRuntimeTask_def intro: filter_False)
  then show ?thesis by (induction js) simp_all
qed

text \<open>
  C26. The pipelines of a query run in the order of the DAG, and each runtime task runs exactly once: its
  preparation and then its workers, on every thread, directly after the pipeline it was registered for and before the next one; the
  assertion on the index of that pipeline holds.
\<close>
theorem runQuery_order:
  assumes "tasks_ok d"
  shows "\<exists>evs. runQuery n d = Returns evs \<and> evs = concat (map (\<lambda>j. RunPipeline j #
      concat (map (runRuntimeTask n) (filter (\<lambda>t. after_pipe t = j) (runtime_tasks d)))) [0..<length (pipelines d)]) \<and>
    filter (\<lambda>e. \<exists>t. e = PrepareTask t) evs = map PrepareTask (runtime_tasks d)"
  using assms runPipes_spec [of "runtime_tasks d" 0 n "length (pipelines d)"] tasks_of_pipes [of "runtime_tasks d" 0 "length (pipelines d)"]
  by (simp add: runQuery_def tasks_ok_def prepared_events)

theorem runQuery_order_witness:
  "\<exists>d. length (pipelines d) = 2 \<and> runQuery 2 d = Returns [RunPipeline 0,
     PrepareTask \<lparr> after_pipe = 0, task_function = MergeAggregation 5 \<rparr>,
     WorkerTask \<lparr> after_pipe = 0, task_function = MergeAggregation 5 \<rparr> 0,
     WorkerTask \<lparr> after_pipe = 0, task_function = MergeAggregation 5 \<rparr> 1, RunPipeline 1]"
proof -
  let ?d = "(PipelineDAG 0)\<lparr> pipelines := [Pipeline, Pipeline], runtime_tasks := [\<lparr> after_pipe = 0, task_function = MergeAggregation 5 \<rparr>] \<rparr>"
  have "tasks_ok ?d" by (simp add: tasks_ok_def PipelineDAG_def)
  from runQuery_order [OF this, of 2] have "runQuery 2 ?d = Returns [RunPipeline 0,
     PrepareTask \<lparr> after_pipe = 0, task_function = MergeAggregation 5 \<rparr>,
     WorkerTask \<lparr> after_pipe = 0, task_function = MergeAggregation 5 \<rparr> 0,
     WorkerTask \<lparr> after_pipe = 0, task_function = MergeAggregation 5 \<rparr> 1, RunPipeline 1]"
    by (simp add: PipelineDAG_def runRuntimeTask_def upt_rec)
  then show ?thesis by (intro exI [of _ ?d]) (simp add: PipelineDAG_def)
qed

section \<open>Building the DAG\<close>

lemma on_current_simps [simp]:
  "pipelines (on_current f d) = butlast (pipelines d) @ [f (last (pipelines d))]"
  "runtime_tasks (on_current f d) = runtime_tasks d" "continuations (on_current f d) = continuations d"
  "runtime_state (on_current f d) = runtime_state d" "next_addr (on_current f d) = next_addr d"
  by (simp_all add: on_current_def)

lemma current_on_current [simp]: "getCurrentPipeline (on_current f d) = f (getCurrentPipeline d)"
  by (simp add: getCurrentPipeline_def)

lemma attach_new_simps [simp]:
  "pipelines d \<noteq> [] \<Longrightarrow> length (pipelines (attach_new spec d)) = length (pipelines d)" "pipelines (attach_new spec d) \<noteq> []"
  "runtime_tasks (attach_new spec d) = runtime_tasks d" "continuations (attach_new spec d) = continuations d"
  "runtime_state (attach_new spec d) = runtime_state d" "next_addr (attach_new spec d) = Suc (next_addr d)"
  "butlast (pipelines (attach_new spec d)) = butlast (pipelines d)"
  "suboperators (getCurrentPipeline (attach_new spec d)) = suboperators (getCurrentPipeline d) @ [make_subop (next_addr d) spec]"
  by (simp_all add: attach_new_def getCurrentPipeline_def on_current_def)

lemma attach_all_simps [simp]:
  "pipelines d \<noteq> [] \<Longrightarrow> length (pipelines (attach_all specs d)) = length (pipelines d)"
  "pipelines d \<noteq> [] \<Longrightarrow> pipelines (attach_all specs d) \<noteq> []"
  "runtime_tasks (attach_all specs d) = runtime_tasks d" "continuations (attach_all specs d) = continuations d"
  "runtime_state (attach_all specs d) = runtime_state d" "next_addr (attach_all specs d) = next_addr d + length specs"
  "butlast (pipelines (attach_all specs d)) = butlast (pipelines d)"
  "suboperators (getCurrentPipeline (attach_all specs d)) = suboperators (getCurrentPipeline d) @ number make_subop (next_addr d) specs"
  by (induction specs rule: rev_induct) (simp_all add: attach_all_def)

lemma make_subop_simps [simp]:
  "subop_addr (make_subop a (k, out, src)) = a" "kind (make_subop a (k, out, src)) = k"
  "provided_ius (make_subop a (k, out, src)) = out" "source_ius (make_subop a (k, out, src)) = src"
  by (simp_all add: make_subop_def)

end
