(* ===== verification/Aggregations.thy ===== *)
theory Aggregations
  imports Pipeline_DAG "HOL-Library.List_Lexorder" "HOL-Library.Char_ord"
begin

text \<open>
  Planning an aggregation (\<open>algebra/Aggregation.cpp\<close>, \<open>algebra/AggFunctionRegistry.cpp\<close>): aggregate functions are
  split into granules of state, functions over the same column share granules, and the granules are laid out
  behind the key in the rows of the hash table. \<open>decay\<close> then updates the granules through
  \<open>AggregatorSubop\<close>s and reads them back through \<open>AggReaderSubop\<close>s, each with its own computation of the offsets.
\<close>

section \<open>The function registry\<close>

datatype agg_opcode = AggMin | AggMax | AggSum | AggCount | AggAvg | AggMedian

record agg_description =
  agg_iu :: iu
  code :: agg_opcode
  is_distinct :: bool

record registry_entry =
  result_type :: irtype
  entry_granules :: "agg_state list"
  agg_reader :: agg_compute

fun getStateSize :: "agg_state \<Rightarrow> nat" where
  "getStateSize AggStateCount = 8"
| "getStateSize (AggStateSum t) = width t"

fun agg_state_id :: "agg_state \<Rightarrow> string" where
  "agg_state_id AggStateCount = ''agg_state_count''"
| "agg_state_id (AggStateSum t) = ''agg_state_sum_'' @ type_id t"

fun agg_compute_id :: "agg_compute \<Rightarrow> string" where
  "agg_compute_id (AggComputeUnpack t) = ''agg_compute_unpack_'' @ type_id t"
| "agg_compute_id (AggComputeAvg t) = ''agg_compute_avg_'' @ type_id t"

fun requiredGranules :: "agg_compute \<Rightarrow> nat" where
  "requiredGranules (AggComputeUnpack t) = 1"
| "requiredGranules (AggComputeAvg t) = 2"

definition computeAsUnpack :: "irtype \<Rightarrow> registry_entry" where
  "computeAsUnpack t = \<lparr> result_type = t, entry_granules = [], agg_reader = AggComputeUnpack t \<rparr>"

definition resolveCount :: "iu \<Rightarrow> registry_entry" where
  "resolveCount i = (computeAsUnpack (SignedInt 8))\<lparr> entry_granules := [AggStateCount] \<rparr>"
definition resolveSum :: "iu \<Rightarrow> registry_entry" where
  "resolveSum i = (computeAsUnpack (iu_type i))\<lparr> entry_granules := [AggStateSum (iu_type i)] \<rparr>"
definition resolveAvg :: "iu \<Rightarrow> registry_entry" where
  "resolveAvg i = \<lparr> result_type = Float 8, entry_granules = [AggStateSum (iu_type i), AggStateCount], agg_reader = AggComputeAvg (iu_type i) \<rparr>"

definition lookupSubops :: "agg_description \<Rightarrow> registry_entry outcome" where
  "lookupSubops f =
     (if is_distinct f then Throws ''Distinct aggregate functions not implemented.''
      else (case code f of
          AggCount \<Rightarrow> Returns (resolveCount (agg_iu f))
        | AggSum \<Rightarrow> Returns (resolveSum (agg_iu f))
        | AggAvg \<Rightarrow> Returns (resolveAvg (agg_iu f))
        | _ \<Rightarrow> Throws ''Aggregate function not implemented.''))"

section \<open>Planning\<close>

text \<open>
  A granule is described by its size, its IU and the identifier of its state; the ordered set of the
  descriptions, largest first, is the layout.
\<close>

type_synonym granule_description = "nat \<times> nat \<times> string"

definition describe :: "iu \<Rightarrow> agg_state \<Rightarrow> granule_description" where
  "describe i g = (getStateSize g, iu_addr i, agg_state_id g)"

definition granule_less :: "granule_description \<Rightarrow> granule_description \<Rightarrow> bool" where
  "granule_less a b \<longleftrightarrow> fst a < fst b \<or> fst a = fst b \<and> (fst (snd a) < fst (snd b) \<or> fst (snd a) = fst (snd b) \<and> snd (snd a) < snd (snd b))"

text \<open>\<open>insert\<close> into \<open>std::set<GranuleDescription, std::greater<>>\<close>.\<close>

fun set_insert :: "granule_description \<Rightarrow> granule_description list \<Rightarrow> granule_description list" where
  "set_insert d [] = [d]"
| "set_insert d (e # es) = (if granule_less e d then d # e # es else if granule_less d e then e # set_insert d es else e # es)"

record agg_plan =
  group_by :: "iu list"
  granules :: "(iu \<times> agg_state) list"
  compute :: "(agg_compute \<times> nat list) list"
  out_key_ius :: "iu list"
  out_aggregate_ius :: "iu list"
  pseudo_ius :: "iu list"
  packed_ht_key :: iu
  agg_pointer_result :: iu
  ht_scan_result :: iu
  key_size :: nat
  payload_offset :: nat
  payload_size :: nat
  requires_complex_ht :: bool

definition new_ius :: "nat \<Rightarrow> irtype list \<Rightarrow> iu list" where
  "new_ius a ts = map (\<lambda>(k, t). \<lparr> iu_addr = a + k, iu_type = t, iu_name = [] \<rparr>) (enumerate 0 ts)"

definition char_ptr :: irtype where "char_ptr = Pointer CharT"

fun map_outcome :: "('a \<Rightarrow> 'b outcome) \<Rightarrow> 'a list \<Rightarrow> 'b list outcome" where
  "map_outcome f [] = Returns []"
| "map_outcome f (x # xs) = obind (f x) (\<lambda>y. obind (map_outcome f xs) (\<lambda>ys. Returns (y # ys)))"

lemma map_outcome_all: "(\<And>x. x \<in> set xs \<Longrightarrow> f x = Returns (g x)) \<Longrightarrow> map_outcome f xs = Returns (map g xs)"
  by (induction xs) auto

definition needed_granules :: "(iu \<times> registry_entry) list \<Rightarrow> granule_description list" where
  "needed_granules functions = concat (map (\<lambda>(i, e). map (describe i) (entry_granules e)) functions)"

definition to_compute_of :: "(iu \<times> registry_entry) list \<Rightarrow> granule_description list" where
  "to_compute_of functions = foldl (\<lambda>s d. set_insert d s) [] (needed_granules functions)"

text \<open>\<open>std::distance(begin, find(d))\<close>\<close>

definition index_of :: "'a \<Rightarrow> 'a list \<Rightarrow> nat" where
  "index_of d ds = length (takeWhile (\<lambda>e. e \<noteq> d) ds)"

definition granule_offset :: "nat \<Rightarrow> granule_description list \<Rightarrow> granule_description \<Rightarrow> nat" where
  "granule_offset start ds d = start + sum_list (map fst (take (index_of d ds) ds))"

text \<open>The loop that assigns offsets and, the last writer winning, the granules.\<close>

definition assign_granules :: "granule_description list \<Rightarrow> (iu \<times> registry_entry) list \<Rightarrow> (iu \<times> agg_state) option list" where
  "assign_granules ds functions =
     foldl (\<lambda>gs (i, g). gs[index_of (describe i g) ds := Some (i, g)]) (replicate (length ds) None)
       (concat (map (\<lambda>(i, e). map (Pair i) (entry_granules e)) functions))"

definition Aggregation_plan :: "nat \<Rightarrow> iu list \<Rightarrow> agg_description list \<Rightarrow> agg_plan outcome" where
  "Aggregation_plan a groups description =
     obind (map_outcome lookupSubops description) (\<lambda>entries.
       let functions = zip (map agg_iu description) entries;
           ksize = iu_widths groups;
           ds = to_compute_of functions;
           largest_state = fst (last ds)
       in if ds = [] then Throws ''assertion''
          else obind (from_loop (probe_loop (\<lambda>off. off + largest_state) (\<lambda>off. \<not> off < ksize) 0)) (\<lambda>aligned.
            let poff = aligned - ksize;
                nkeys = length groups
            in Returns \<lparr>
              group_by = groups,
              granules = map the (assign_granules ds functions),
              compute = map (\<lambda>(i, e). (agg_reader e, map (\<lambda>g. granule_offset poff ds (describe i g)) (entry_granules e))) functions,
              out_key_ius = new_ius (a + 3) (map iu_type groups),
              out_aggregate_ius = new_ius (a + 3 + 2 * nkeys) (map result_type entries),
              pseudo_ius = (if nkeys \<noteq> 1 then new_ius (a + 3 + nkeys) (replicate nkeys Void) else []),
              packed_ht_key = \<lparr> iu_addr = a, iu_type = ByteArray ksize, iu_name = [] \<rparr>,
              agg_pointer_result = \<lparr> iu_addr = a + 1, iu_type = char_ptr, iu_name = [] \<rparr>,
              ht_scan_result = \<lparr> iu_addr = a + 2, iu_type = char_ptr, iu_name = [] \<rparr>,
              key_size = ksize,
              payload_offset = poff,
              payload_size = foldl (\<lambda>sum d. sum + fst d) poff ds,
              requires_complex_ht = (nkeys = 1 \<and> iu_type (hd groups) = StringT) \<rparr>))"

definition agg_output :: "agg_plan \<Rightarrow> iu list" where
  "agg_output p = out_key_ius p @ out_aggregate_ius p"

section \<open>Decaying into suboperators\<close>

definition is_byte_ptr :: "irtype \<Rightarrow> bool" where
  "is_byte_ptr t \<longleftrightarrow> type_id t = ''ByteArray'' \<or> type_id t = ''Ptr_Char''"

text \<open>The factories of \<open>RuntimeFunctionSubop\<close>: name, inputs (the key and the pseudo IUs), outputs, arguments.\<close>

definition htLookupOrInsert :: "string \<Rightarrow> iu option \<Rightarrow> iu \<Rightarrow> iu list \<Rightarrow> nat \<Rightarrow> subop_spec" where
  "htLookupOrInsert ID pointers key pseudo st =
     (RuntimeFunctionSubop (''ht_'' @ ID @ ''_lookup_or_insert'') [key] [\<not> is_byte_ptr (iu_type key)] pointers st,
      (case pointers of None \<Rightarrow> [] | Some p \<Rightarrow> [p]), key # pseudo)"

definition htNoKeyLookup :: "iu \<Rightarrow> iu \<Rightarrow> nat \<Rightarrow> subop_spec" where
  "htNoKeyLookup pointers input_dependency st =
     (RuntimeFunctionSubop ''ht_nk_lookup'' [] [] (Some pointers) st, [pointers], [input_dependency])"

text \<open>The loops over IUs and granules: each suboperator gets the offset where the previous one ends.\<close>

fun pack_ops :: "iu \<Rightarrow> nat \<Rightarrow> (iu \<times> iu list) list \<Rightarrow> subop_spec list" where
  "pack_ops target off [] = []"
| "pack_ops target off ((key, pseudo) # ks) =
     (KeyPackerSubop off, pseudo, [key, target]) # pack_ops target (off + width (iu_type key)) ks"

fun unpack_ops :: "iu \<Rightarrow> nat \<Rightarrow> iu list \<Rightarrow> subop_spec list" where
  "unpack_ops src off [] = []"
| "unpack_ops src off (out # outs) = (KeyUnpackerSubop off, [out], [src]) # unpack_ops src (off + width (iu_type out)) outs"

fun aggregate_ops :: "iu \<Rightarrow> nat \<Rightarrow> (iu \<times> agg_state) list \<Rightarrow> subop_spec list" where
  "aggregate_ops ptr off [] = []"
| "aggregate_ops ptr off ((i, g) # gs) = (AggregatorSubop g off, [], [ptr, i]) # aggregate_ops ptr (off + getStateSize g) gs"

definition reader_op :: "iu \<Rightarrow> nat \<Rightarrow> (agg_compute \<times> nat list) \<times> iu \<Rightarrow> subop_spec" where
  "reader_op ptr ksize r = (case r of ((c, offs), out) \<Rightarrow>
     (AggReaderSubop c (ksize + offs ! 0) (if requiredGranules c = 2 then Some (ksize + offs ! 1) else None), [out], [ptr]))"

definition agg_hash_table :: "agg_plan \<Rightarrow> dag \<Rightarrow> nat \<times> dag" where
  "agg_hash_table p d =
     (if requires_complex_ht p then attachHashTableComplexKey (length (pipelines d)) 1 (payload_size p) d
      else attachHashTableSimpleKey (length (pipelines d)) (key_size p) (payload_size p) d)"

text \<open>Step 1: the IU of the packed key and the suboperators that pack it.\<close>

definition agg_pack_key :: "agg_plan \<Rightarrow> iu \<times> subop_spec list" where
  "agg_pack_key p =
     (if length (group_by p) = 1 then (hd (group_by p), [])
      else (packed_ht_key p, (ScratchPadIUProvider, [packed_ht_key p], []) #
        pack_ops (packed_ht_key p) 0 (zip (group_by p) (map (\<lambda>i. [i]) (pseudo_ius p)))))"

text \<open>Step 2: the lookup.\<close>

definition agg_lookup :: "agg_plan \<Rightarrow> nat \<Rightarrow> iu \<Rightarrow> subop_spec" where
  "agg_lookup p st packed_key =
     (if key_size p \<noteq> 0 \<and> requires_complex_ht p then htLookupOrInsert ''ck'' (Some (agg_pointer_result p)) packed_key (pseudo_ius p) st
      else if key_size p \<noteq> 0 then htLookupOrInsert ''sk'' (Some (agg_pointer_result p)) packed_key (pseudo_ius p) st
      else htNoKeyLookup (agg_pointer_result p) (fst (granules p ! 0)) st)"

text \<open>What is attached to the current pipeline and to the new pipeline that reads the groups.\<close>

definition agg_build_ops :: "agg_plan \<Rightarrow> nat \<Rightarrow> subop_spec list" where
  "agg_build_ops p st = (case agg_pack_key p of (packed_key, packers) \<Rightarrow>
     packers @ [agg_lookup p st packed_key] @ aggregate_ops (agg_pointer_result p) (key_size p + payload_offset p) (granules p))"

definition agg_read_ops :: "agg_plan \<Rightarrow> nat \<Rightarrow> subop_spec list" where
  "agg_read_ops p st =
     [(HashTableSource (if requires_complex_ht p then ''ck'' else ''sk'') st, [ht_scan_result p], [])] @
     unpack_ops (ht_scan_result p) 0 (out_key_ius p) @
     map (reader_op (ht_scan_result p) (key_size p)) (zip (compute p) (out_aggregate_ius p))"

text \<open>\<open>Aggregation::decay\<close> after its children have decayed.\<close>

definition Aggregation_decay :: "agg_plan \<Rightarrow> dag \<Rightarrow> dag" where
  "Aggregation_decay p d0 =
     (let (st, d1) = agg_hash_table p d0;
          d2 = attach_all (agg_build_ops p st) d1;
          d3 = addRuntimeTask \<lparr> after_pipe = length (pipelines d2) - 1, task_function = MergeAggregation st \<rparr> d2;
          d4 = buildNewPipeline d3
      in attach_all (agg_read_ops p st) d4)"

end
