(* ===== verification/Subop_Code.thy ===== *)
theory Subop_Code
  imports IR_Code Aggregations
begin

text \<open>
  The code that each suboperator generates (\<open>open\<close>, \<open>consume\<close> and \<open>consumeAllChildren\<close> of \<open>algebra/suboperators\<close>), up to the point where it
  tells the context that its IUs are ready. The code of a suboperator is the list of the statements it appends, in order, each either to
  the root block or to the current one, the IUs it declares, and the control flow that it opens behind them.
\<close>

section \<open>What a suboperator appends\<close>

datatype place = InRoot ir_stmt | InCurrent ir_stmt

record subop_code =
  declared_ius :: "(iu \<times> irtype) list"
  statements :: "place list"
  opens :: "(bool \<times> ir_expr) option"

abbreviation plain :: "(iu \<times> irtype) list \<Rightarrow> place list \<Rightarrow> subop_code" where
  "plain ds ss \<equiv> \<lparr> declared_ius = ds, statements = ss, opens = None \<rparr>"

text \<open>The declarations of IUs that the context knows (\<open>iu_declarations\<close>): the type of the variable.\<close>

type_synonym iu_decls = "iu \<Rightarrow> irtype option"

definition getIUDeclaration :: "iu_decls \<Rightarrow> iu \<Rightarrow> ir_expr outcome" where
  "getIUDeclaration ds i = obind (at_map ds i) (\<lambda>t. Returns (VarRef (IUVar i) t))"

definition position_of :: "pipeline \<Rightarrow> subop \<Rightarrow> nat" where
  "position_of p s = length (takeWhile (\<lambda>t. subop_addr t \<noteq> subop_addr s) (suboperators p))"

definition accessGlobalState :: "pipeline \<Rightarrow> subop \<Rightarrow> ir_expr" where
  "accessGlobalState p s =
     Deref (Arithmetic AddOp (VarRef GlobalState (Pointer (Pointer Void))) (ConstExpr (UI 4 (position_of p s))))"

text \<open>A member of the state of a suboperator, cast to its struct; the state is read at run time.\<close>

definition state_member :: "pipeline \<Rightarrow> subop \<Rightarrow> string \<Rightarrow> string \<Rightarrow> ir_expr outcome" where
  "state_member p s state member =
     obind (getStruct state) (\<lambda>t. struct_access (CastTo (Pointer t) (accessGlobalState p s)) member)"

text \<open>\<open>RUNTIME_PARAM\<close>: a parameter that is set is a constant in the code; otherwise it is read from the state.\<close>

definition param_Resolve :: "pipeline \<Rightarrow> subop \<Rightarrow> string \<Rightarrow> string \<Rightarrow> ir_value option \<Rightarrow> ir_expr outcome" where
  "param_Resolve p s state pname v = (case v of None \<Rightarrow> state_member p s state pname | Some c \<Rightarrow> Returns (ConstExpr c))"

definition param_ResolveErased :: "pipeline \<Rightarrow> subop \<Rightarrow> string \<Rightarrow> string \<Rightarrow> irtype \<Rightarrow> ir_value option \<Rightarrow> ir_expr outcome" where
  "param_ResolveErased p s state pname t v =
     (case v of Some c \<Rightarrow> if supportsInlining c then Returns (ConstExpr c)
                          else obind (state_member p s state (pname @ ''_erased'')) (\<lambda>m. Returns (Deref (CastTo (Pointer t) m)))
      | None \<Rightarrow> obind (state_member p s state (pname @ ''_erased'')) (\<lambda>m. Returns (Deref (CastTo (Pointer t) m))))"

text \<open>
  The offsets of packers, unpackers and aggregates are attached to the suboperators of a query and not to those of a fragment;
  \<open>inline\<close> tells which.
\<close>

definition offset_param :: "bool \<Rightarrow> nat \<Rightarrow> ir_value option" where
  "offset_param inline off = (if inline then Some (UI 2 (off mod 65536)) else None)"

definition decl_stmt :: "var \<Rightarrow> irtype \<Rightarrow> ir_stmt" where "decl_stmt v t = DeclareStmt v t"
definition assign_stmt :: "var \<Rightarrow> irtype \<Rightarrow> ir_expr \<Rightarrow> ir_stmt" where "assign_stmt v t e = AssignmentStmt (VarRef v t) e"

section \<open>Sources\<close>

text \<open>\<open>LoopDriver::open\<close>\<close>

definition LoopDriver_code :: "pipeline \<Rightarrow> subop \<Rightarrow> subop_code outcome" where
  "LoopDriver_code p s =
     (let loop_driver_iu = hd (provided_ius s); start_v = IUVar loop_driver_iu; end_v = OpVar (subop_addr s) ''_end''; u8 = UnsignedInt 8 in
      obind (state_member p s ''LoopDriverState'' ''start'') (\<lambda>start_e.
      obind (state_member p s ''LoopDriverState'' ''end'') (\<lambda>end_e.
        Returns \<lparr> declared_ius = [(loop_driver_iu, u8)],
          statements = map InRoot [decl_stmt start_v u8, decl_stmt end_v u8, assign_stmt start_v u8 start_e, assign_stmt end_v u8 end_e],
          opens = Some (True, Arithmetic LessOp (VarRef start_v u8) (VarRef end_v u8)) \<rparr>)))"

text \<open>\<open>ScratchPadIUProvider::open\<close>\<close>

definition ScratchPad_code :: "subop \<Rightarrow> subop_code outcome" where
  "ScratchPad_code s =
     (let out_iu = hd (provided_ius s) in
      obind (numBytes (iu_type out_iu)) (\<lambda>n.
      obind (invoke ''inkfuse_malloc'' [ConstExpr (UI 8 n)]) (\<lambda>alloc_call.
        Returns (plain [(out_iu, iu_type out_iu)]
          (map InRoot [decl_stmt (IUVar out_iu) (iu_type out_iu), assign_stmt (IUVar out_iu) (iu_type out_iu) alloc_call])))))"

text \<open>\<open>HashTableSource::open\<close>; a second IU is the marker of an outer join.\<close>

definition HashTableSource_code :: "pipeline \<Rightarrow> subop \<Rightarrow> subop_code outcome" where
  "HashTableSource_code p s =
     (let out_iu = hd (provided_ius s); ptr = Pointer CharT; v = OpVar (subop_addr s); member = state_member p s ''HashTableSourceState'' in
      obind (if length (provided_ius s) = 2
             then let marked_iu = provided_ius s ! 1 in
                  obind (invoke ''inkfuse_malloc'' [ConstExpr (UI 8 5)]) (\<lambda>alloc_call.
                    Returns ([(marked_iu, iu_type marked_iu)],
                      [decl_stmt (IUVar marked_iu) (iu_type marked_iu), assign_stmt (IUVar marked_iu) (iu_type marked_iu) alloc_call]))
             else Returns ([], [])) (\<lambda>(marker_decl, marker_stmts).
      obind (member ''it_ptr_start'') (\<lambda>ptr_start. obind (member ''it_ptr_end'') (\<lambda>ptr_end.
      obind (member ''it_idx_start'') (\<lambda>idx_start. obind (member ''hash_table'') (\<lambda>ht.
        Returns \<lparr> declared_ius = (out_iu, ptr) # marker_decl,
          statements = map InRoot ([decl_stmt (IUVar out_iu) ptr, decl_stmt (v ''_it_ptr_end'') ptr, decl_stmt (v ''_it_idx'') (UnsignedInt 8),
            decl_stmt (v ''_ht'') (Pointer Void)] @ marker_stmts @
            [assign_stmt (IUVar out_iu) ptr ptr_start, assign_stmt (v ''_it_ptr_end'') ptr ptr_end, assign_stmt (v ''_it_idx'') (UnsignedInt 8) idx_start,
             assign_stmt (v ''_ht'') (Pointer Void) ht]),
          opens = Some (True, Arithmetic NeqOp (VarRef (IUVar out_iu) ptr) (VarRef (v ''_it_ptr_end'') ptr)) \<rparr>))))))"

text \<open>\<open>IndexedIUProvider::consume\<close>; \<open>type_param\<close> is the parameter that holds the width of a byte array.\<close>

definition IndexedIUProvider_code :: "pipeline \<Rightarrow> ir_value option \<Rightarrow> iu_decls \<Rightarrow> subop \<Rightarrow> subop_code outcome" where
  "IndexedIUProvider_code p type_param ds s =
     (let source_iu = hd (source_ius s); out_iu = hd (provided_ius s); out_t = iu_type out_iu;
          is_variable_size_type = (case out_t of ByteArray n \<Rightarrow> True | _ \<Rightarrow> False);
          ptr_t = (if is_variable_size_type then Pointer CharT else Pointer out_t);
          start_v = OpVar (subop_addr s) ''_start''; it_v = OpVar (subop_addr s) ''_iterator''; u8 = UnsignedInt 8 in
      obind (getIUDeclaration ds source_iu) (\<lambda>loop_idx.
      obind (state_member p s ''IndexedIUProviderState'' ''start'') (\<lambda>start_e.
      obind (param_Resolve p s ''IndexedIUProviderState'' ''type_param'' type_param) (\<lambda>type_width.
        Returns (plain [(out_iu, out_t)]
          (map InRoot ([decl_stmt start_v ptr_t, assign_stmt start_v ptr_t (CastTo ptr_t (Deref start_e))] @
             (if is_variable_size_type then [decl_stmt it_v u8, assign_stmt it_v u8 (ConstExpr (UI 8 0))] else [])) @
           map InCurrent (decl_stmt (IUVar out_iu) out_t #
             (if is_variable_size_type
              then [assign_stmt (IUVar out_iu) out_t (Arithmetic AddOp (VarRef start_v ptr_t) (VarRef it_v u8)),
                    assign_stmt it_v u8 (Arithmetic AddOp (VarRef it_v u8) type_width)]
              else [assign_stmt (IUVar out_iu) out_t (Deref (Arithmetic AddOp (VarRef start_v ptr_t) loop_idx))]))))))))"

section \<open>Filters\<close>

text \<open>\<open>ColumnFilterScope::consumeAllChildren\<close> opens the \<open>if\<close>; its pseudo IU has no variable.\<close>

definition ColumnFilterScope_code :: "iu_decls \<Rightarrow> subop \<Rightarrow> subop_code outcome" where
  "ColumnFilterScope_code ds s =
     obind (getIUDeclaration ds (hd (source_ius s))) (\<lambda>e. Returns \<lparr> declared_ius = [], statements = [], opens = Some (False, e) \<rparr>)"

definition copy_code :: "iu_decls \<Rightarrow> iu \<Rightarrow> iu \<Rightarrow> irtype \<Rightarrow> subop_code outcome" where
  "copy_code ds in_iu out_iu t =
     obind (getIUDeclaration ds in_iu) (\<lambda>e.
       Returns (plain [(out_iu, t)] (map InCurrent [decl_stmt (IUVar out_iu) t, assign_stmt (IUVar out_iu) t e])))"

text \<open>\<open>ColumnFilterLogic::consumeAllChildren\<close> and \<open>Copy::consume\<close>\<close>

definition ColumnFilterLogic_code :: "iu_decls \<Rightarrow> subop \<Rightarrow> subop_code outcome" where
  "ColumnFilterLogic_code ds s = copy_code ds (source_ius s ! 1) (hd (provided_ius s)) (iu_type (hd (provided_ius s)))"

definition Copy_code :: "iu_decls \<Rightarrow> subop \<Rightarrow> subop_code outcome" where
  "Copy_code ds s = copy_code ds (hd (source_ius s)) (hd (provided_ius s)) (iu_type (hd (source_ius s)))"

section \<open>Expressions\<close>

text \<open>\<open>ExpressionHelpers::code_map\<close>; a cast and a constant are not in it.\<close>

definition code_map :: "expr_type \<Rightarrow> ir_opcode outcome" where
  "code_map ty = (case ty of
     Add \<Rightarrow> Returns AddOp | Subtract \<Rightarrow> Returns SubtractOp | Multiply \<Rightarrow> Returns MultiplyOp | Divide \<Rightarrow> Returns DivideOp
   | Greater \<Rightarrow> Returns GreaterOp | GreaterEqual \<Rightarrow> Returns GreaterEqualOp | Less \<Rightarrow> Returns LessOp | LessEqual \<Rightarrow> Returns LessEqualOp
   | Eq \<Rightarrow> Returns EqOp | And \<Rightarrow> Returns AndOp | Or \<Rightarrow> Returns OrOp | Neq \<Rightarrow> Returns NeqOp | StrEquals \<Rightarrow> Returns StrEqualsOp
   | InList \<Rightarrow> Returns StrInListOp | NotLikeTokens \<Rightarrow> Returns NotLikeTokensOp
   | Cast \<Rightarrow> Throws ''std::out_of_range'' | Constant \<Rightarrow> Throws ''std::out_of_range'')"

text \<open>\<open>ExpressionSubop::consumeAllChildren\<close>\<close>

definition ExpressionSubop_code :: "iu_decls \<Rightarrow> subop \<Rightarrow> expr_type \<Rightarrow> subop_code outcome" where
  "ExpressionSubop_code ds s ty =
     (let out = hd (provided_ius s); t = iu_type out in
      obind (map_outcome (getIUDeclaration ds) (source_ius s)) (\<lambda>children.
      obind (if ty = Cast then (if length children = 1 then Returns (CastTo t (children ! 0)) else Throws ''assertion'')
             else if length children \<noteq> 2 then Throws ''assertion''
             else obind (code_map ty) (\<lambda>c. Returns (Arithmetic c (children ! 0) (children ! 1)))) (\<lambda>e.
        Returns (plain [(out, t)] (map InCurrent [decl_stmt (IUVar out) t, assign_stmt (IUVar out) t e])))))"

text \<open>\<open>RuntimeExpressionSubop::consumeAllChildren\<close>: the constant is loaded in the root block.\<close>

definition RuntimeExpressionSubop_code :: "pipeline \<Rightarrow> iu_decls \<Rightarrow> subop \<Rightarrow> expr_type \<Rightarrow> irtype \<Rightarrow> ir_value option \<Rightarrow> subop_code outcome" where
  "RuntimeExpressionSubop_code p ds s ty runtime_param_type data =
     (let out = hd (provided_ius s); t = iu_type out; c_v = OpVar (subop_addr s) ''_rt_constant'' in
      obind (param_ResolveErased p s ''RuntimeExpressionState'' ''data'' runtime_param_type data) (\<lambda>rt_constant.
      obind (if ty = Constant then Returns (VarRef c_v runtime_param_type)
             else obind (getIUDeclaration ds (hd (source_ius s))) (\<lambda>child. obind (code_map ty) (\<lambda>c.
                    Returns (Arithmetic c (VarRef c_v runtime_param_type) child)))) (\<lambda>e.
        Returns (plain [(out, t)]
          [InCurrent (decl_stmt (IUVar out) t), InRoot (decl_stmt c_v runtime_param_type), InRoot (assign_stmt c_v runtime_param_type rt_constant),
           InCurrent (assign_stmt (IUVar out) t e)]))))"

text \<open>\<open>RuntimeKeyExpressionSubop::consumeAllChildren\<close>: a column is compared with what is at an offset behind a pointer.\<close>

definition RuntimeKeyExpressionSubop_code :: "pipeline \<Rightarrow> bool \<Rightarrow> iu_decls \<Rightarrow> subop \<Rightarrow> nat \<Rightarrow> subop_code outcome" where
  "RuntimeKeyExpressionSubop_code p inline ds s off =
     (let out = hd (provided_ius s); t = iu_type out in
      obind (getIUDeclaration ds (source_ius s ! 1)) (\<lambda>ptr.
      obind (getIUDeclaration ds (source_ius s ! 0)) (\<lambda>source.
      obind (param_Resolve p s ''KeyPackingRuntimeState'' ''offset'' (offset_param inline off)) (\<lambda>offset_e.
        Returns (plain [(out, t)] (map InCurrent [decl_stmt (IUVar out) t,
          assign_stmt (IUVar out) t (Arithmetic EqOp
            (Deref (CastTo (Pointer (iu_type (source_ius s ! 0))) (Arithmetic AddOp ptr offset_e))) source)]))))))"

section \<open>Rows\<close>

text \<open>\<open>KeyPacking::packInto\<close> and \<open>unpackFrom\<close>\<close>

definition packInto :: "ir_expr \<Rightarrow> ir_expr \<Rightarrow> ir_expr \<Rightarrow> ir_stmt outcome" where
  "packInto ptr to_pack off = obind (ir_type_of to_pack) (\<lambda>t.
     Returns (AssignmentStmt (Deref (CastTo (Pointer t) (Arithmetic AddOp ptr off))) to_pack))"

definition unpackFrom :: "ir_expr \<Rightarrow> ir_expr \<Rightarrow> ir_expr \<Rightarrow> ir_stmt outcome" where
  "unpackFrom ptr unpack_into off = obind (ir_type_of unpack_into) (\<lambda>t.
     Returns (AssignmentStmt unpack_into (Deref (CastTo (Pointer t) (Arithmetic AddOp ptr off)))))"

text \<open>An offset is resolved once, in the root block.\<close>

definition load_offset :: "pipeline \<Rightarrow> subop \<Rightarrow> string \<Rightarrow> string \<Rightarrow> ir_value option \<Rightarrow> (ir_expr \<times> place list) outcome" where
  "load_offset p s state member v =
     (let o_v = OpVar (subop_addr s) (''_rt_'' @ member) in
      obind (param_Resolve p s state member v) (\<lambda>e.
        Returns (VarRef o_v (UnsignedInt 2), map InRoot [decl_stmt o_v (UnsignedInt 2), assign_stmt o_v (UnsignedInt 2) e])))"

text \<open>\<open>consumeAllChildren\<close> of \<open>KeyPackerSubop\<close> and \<open>KeyUnpackerSubop\<close>\<close>

definition KeyPackerSubop_code :: "pipeline \<Rightarrow> bool \<Rightarrow> iu_decls \<Rightarrow> subop \<Rightarrow> nat \<Rightarrow> subop_code outcome" where
  "KeyPackerSubop_code p inline ds s off =
     obind (getIUDeclaration ds (source_ius s ! 1)) (\<lambda>ptr.
     obind (getIUDeclaration ds (source_ius s ! 0)) (\<lambda>pack.
     obind (load_offset p s ''KeyPackingRuntimeState'' ''offset'' (offset_param inline off)) (\<lambda>(rt_offset, loads).
     obind (packInto ptr pack rt_offset) (\<lambda>pack_stmt.
       Returns (plain [] (loads @ [InCurrent pack_stmt]))))))"

definition KeyUnpackerSubop_code :: "pipeline \<Rightarrow> bool \<Rightarrow> iu_decls \<Rightarrow> subop \<Rightarrow> nat \<Rightarrow> subop_code outcome" where
  "KeyUnpackerSubop_code p inline ds s off =
     (let out = hd (provided_ius s); t = iu_type out in
      obind (getIUDeclaration ds (hd (source_ius s))) (\<lambda>ptr.
      obind (load_offset p s ''KeyPackingRuntimeState'' ''offset'' (offset_param inline off)) (\<lambda>(rt_offset, loads).
      obind (unpackFrom ptr (VarRef (IUVar out) t) rt_offset) (\<lambda>unpack_stmt.
        Returns (plain [(out, t)] (InCurrent (decl_stmt (IUVar out) t) # loads @ [InCurrent unpack_stmt]))))))"

section \<open>Aggregates\<close>

text \<open>\<open>updateState\<close> of \<open>AggStateCount\<close> and \<open>AggStateSum\<close>: what is added to the state, of which type.\<close>

definition updateState :: "agg_state \<Rightarrow> ir_expr \<Rightarrow> ir_expr \<Rightarrow> ir_stmt" where
  "updateState st ptr val =
     (case st of
        AggStateCount \<Rightarrow> let state = Deref (CastTo (Pointer (SignedInt 8)) ptr) in AssignmentStmt state (Arithmetic AddOp (ConstExpr (SI 8 1)) state)
      | AggStateSum t \<Rightarrow> let state = Deref (CastTo (Pointer t) ptr) in AssignmentStmt state (Arithmetic AddOp val state))"

text \<open>A pointer to a granule: the row and its offset.\<close>

definition granule_pointer :: "var \<Rightarrow> ir_expr \<Rightarrow> ir_expr \<Rightarrow> (ir_expr \<times> place list) outcome" where
  "granule_pointer v packed_ptr off =
     (let ptr_loc = Arithmetic AddOp packed_ptr off in
      obind (ir_type_of ptr_loc) (\<lambda>t. Returns (VarRef v t, map InCurrent [decl_stmt v t, assign_stmt v t ptr_loc])))"

text \<open>\<open>AggregatorSubop::consumeAllChildren\<close>\<close>

definition AggregatorSubop_code :: "pipeline \<Rightarrow> bool \<Rightarrow> iu_decls \<Rightarrow> subop \<Rightarrow> agg_state \<Rightarrow> nat \<Rightarrow> subop_code outcome" where
  "AggregatorSubop_code p inline ds s st off =
     obind (getIUDeclaration ds (source_ius s ! 0)) (\<lambda>packed_ptr.
     obind (getIUDeclaration ds (source_ius s ! 1)) (\<lambda>agg_e.
     obind (load_offset p s ''KeyPackingRuntimeState'' ''offset'' (offset_param inline off)) (\<lambda>(rt_offset, loads).
     obind (granule_pointer (OpVar (subop_addr s) ''_packed_state'') packed_ptr rt_offset) (\<lambda>(ptr, ptr_stmts).
       Returns (plain [] (loads @ ptr_stmts @ [InCurrent (updateState st ptr agg_e)]))))))"

text \<open>\<open>compute\<close> of \<open>AggComputeUnpack\<close> and \<open>AggComputeAvg\<close>\<close>

definition agg_compute_stmt :: "agg_compute \<Rightarrow> ir_expr list \<Rightarrow> ir_expr \<Rightarrow> ir_stmt outcome" where
  "agg_compute_stmt c granule_ptrs out_val =
     (case c of
        AggComputeUnpack t \<Rightarrow> if length granule_ptrs \<noteq> 1 then Throws ''assertion'' else unpackFrom (granule_ptrs ! 0) out_val (ConstExpr (UI 2 0))
      | AggComputeAvg t \<Rightarrow> if length granule_ptrs \<noteq> 2 then Throws ''assertion''
          else Returns (AssignmentStmt out_val (Arithmetic DivideOp
                 (CastTo (Float 8) (Deref (CastTo (Pointer t) (granule_ptrs ! 0))))
                 (Deref (CastTo (Pointer (UnsignedInt 8)) (granule_ptrs ! 1))))))"

text \<open>\<open>AggReaderSubop::consumeAllChildren\<close>; the second offset is always loaded.\<close>

definition AggReaderSubop_code :: "pipeline \<Rightarrow> bool \<Rightarrow> iu_decls \<Rightarrow> subop \<Rightarrow> agg_compute \<Rightarrow> nat \<Rightarrow> nat option \<Rightarrow> subop_code outcome" where
  "AggReaderSubop_code p inline ds s c off1 off2 =
     (let out_iu = hd (provided_ius s); t = iu_type out_iu; v = OpVar (subop_addr s); state = ''KeyPackingRuntimeStateTwo'' in
      obind (getIUDeclaration ds (hd (source_ius s))) (\<lambda>packed_ptr.
      obind (load_offset p s state ''offset_1'' (offset_param inline off1)) (\<lambda>(rt_o1, loads1).
      obind (load_offset p s state ''offset_2'' (case off2 of None \<Rightarrow> None | Some o2 \<Rightarrow> offset_param inline o2)) (\<lambda>(rt_o2, loads2).
      obind (granule_pointer (v ''_packed_state_1'') packed_ptr rt_o1) (\<lambda>(ptr1, stmts1).
      obind (if requiredGranules c > 1 then obind (granule_pointer (v ''_packed_state_2'') packed_ptr rt_o2) (\<lambda>(ptr2, stmts2). Returns ([ptr1, ptr2], stmts2))
             else Returns ([ptr1], [])) (\<lambda>(ptrs, stmts2).
      obind (agg_compute_stmt c ptrs (VarRef (IUVar out_iu) t)) (\<lambda>unpack.
        Returns (plain [(out_iu, t)]
          (InCurrent (decl_stmt (IUVar out_iu) t) # loads1 @ loads2 @ stmts1 @ stmts2 @ [InCurrent unpack])))))))))"

section \<open>Runtime functions\<close>

text \<open>
  \<open>RuntimeFunctionSubop::consumeAllChildren\<close>. An argument that is one of the outputs is passed by reference, so that the function can
  assign to it.
\<close>

definition function_arg :: "iu_decls \<Rightarrow> iu list \<Rightarrow> iu \<times> bool \<Rightarrow> ir_expr outcome" where
  "function_arg ds provided arg = (case arg of (i, by_ref) \<Rightarrow>
     obind (getIUDeclaration ds i) (\<lambda>e.
       let arg_expr = (if by_ref then CastTo (Pointer CharT) (Ref e) else e) in
       Returns (if i \<in> set provided then Ref arg_expr else arg_expr)))"

definition add_decls :: "(iu \<times> irtype) list \<Rightarrow> iu_decls \<Rightarrow> iu_decls" where
  "add_decls new ds = foldl (\<lambda>ds (i, t). ds(i \<mapsto> t)) ds new"

definition RuntimeFunctionSubop_code ::
  "pipeline \<Rightarrow> iu_decls \<Rightarrow> subop \<Rightarrow> string \<Rightarrow> iu list \<Rightarrow> bool list \<Rightarrow> iu option \<Rightarrow> subop_code outcome" where
  "RuntimeFunctionSubop_code p ds s fct_name args ref out =
     (let outs = map (\<lambda>i. (i, iu_type i)) (provided_ius s) in
      obind (state_member p s ''RuntimeFunctionSubopState'' ''this_object'') (\<lambda>this_object.
      obind (map_outcome (function_arg (add_decls outs ds) (provided_ius s)) (zip args ref)) (\<lambda>args_exprs.
      obind (invoke fct_name (this_object # args_exprs)) (\<lambda>invoke_expr.
      obind (case out of None \<Rightarrow> Returns (InvokeFctStmt invoke_expr)
             | Some i \<Rightarrow> if i \<in> set (provided_ius s) then Returns (assign_stmt (IUVar i) (iu_type i) invoke_expr) else Throws ''assertion'') (\<lambda>call_stmt.
        Returns (plain outs (map InCurrent (map (\<lambda>(i, t). decl_stmt (IUVar i) t) outs @ [call_stmt]))))))))"

section \<open>Sinks\<close>

text \<open>\<open>CountingSink::consume\<close>\<close>

definition CountingSink_code :: "pipeline \<Rightarrow> subop \<Rightarrow> subop_code outcome" where
  "CountingSink_code p s =
     obind (state_member p s ''CountingState'' ''count'') (\<lambda>count.
       Returns (plain [] [InCurrent (AssignmentStmt count (Arithmetic AddOp count (ConstExpr (UI 8 1))))]))"

text \<open>\<open>FuseChunkSink::consume\<close>\<close>

definition FuseChunkSink_code :: "pipeline \<Rightarrow> iu_decls \<Rightarrow> subop \<Rightarrow> subop_code outcome" where
  "FuseChunkSink_code p ds s =
     (let iu = hd (source_ius s); u8 = UnsignedInt 8;
          is_variable_size_type = (case iu_type iu of ByteArray n \<Rightarrow> True | _ \<Rightarrow> False);
          ptr_t = Pointer (iu_type iu); size_t = Pointer u8;
          data_v = OpVar (subop_addr s) ''_raw_data''; size_v = OpVar (subop_addr s) ''_size''; it_v = OpVar (subop_addr s) ''_iterator'';
          size_e = Deref (VarRef size_v size_t) in
      obind (getIUDeclaration ds iu) (\<lambda>input.
      obind (numBytes (iu_type iu)) (\<lambda>type_width. if is_variable_size_type \<and> type_width = 0 then Throws ''assertion'' else
      obind (state_member p s ''FuseChunkSinkState'' ''start'') (\<lambda>start_e.
      obind (state_member p s ''FuseChunkSinkState'' ''size'') (\<lambda>size_m.
        Returns (plain []
          (map InRoot ([decl_stmt data_v ptr_t, assign_stmt data_v ptr_t (CastTo ptr_t start_e), decl_stmt size_v size_t, assign_stmt size_v size_t size_m] @
             (if is_variable_size_type then [decl_stmt it_v u8, assign_stmt it_v u8 (ConstExpr (UI 8 0))] else [])) @
           map InCurrent ((if is_variable_size_type
             then [ExprStmt (Memcopy (Arithmetic AddOp (CastTo (Pointer CharT) (VarRef data_v ptr_t)) (VarRef it_v u8)) input (ConstExpr (UI 8 type_width))),
                   assign_stmt it_v u8 (Arithmetic AddOp (VarRef it_v u8) (ConstExpr (UI 8 type_width)))]
             else [AssignmentStmt (Deref (Arithmetic AddOp (VarRef data_v ptr_t) size_e)) input]) @
             [AssignmentStmt size_e (Arithmetic AddOp size_e (ConstExpr (UI 8 1)))]))))))))"

section \<open>All suboperators\<close>

definition op_code :: "pipeline \<Rightarrow> bool \<Rightarrow> (subop \<Rightarrow> ir_value option) \<Rightarrow> iu_decls \<Rightarrow> subop \<Rightarrow> subop_code outcome" where
  "op_code p inline type_param ds s = (case kind s of
     TScanDriver n \<Rightarrow> LoopDriver_code p s
   | FuseChunkSourceDriver \<Rightarrow> LoopDriver_code p s
   | ScratchPadIUProvider \<Rightarrow> ScratchPad_code s
   | HashTableSource ID st \<Rightarrow> HashTableSource_code p s
   | TScanIUProvider d \<Rightarrow> IndexedIUProvider_code p (type_param s) ds s
   | FuseChunkSourceIUProvider \<Rightarrow> IndexedIUProvider_code p (type_param s) ds s
   | ColumnFilterScope deps \<Rightarrow> ColumnFilterScope_code ds s
   | ColumnFilterLogic t self \<Rightarrow> ColumnFilterLogic_code ds s
   | Copy \<Rightarrow> Copy_code ds s
   | ExpressionSubop ty \<Rightarrow> ExpressionSubop_code ds s ty
   | RuntimeExpressionSubop ty t data \<Rightarrow> RuntimeExpressionSubop_code p ds s ty t (if inline then data else None)
   | RuntimeKeyExpressionSubop off \<Rightarrow> RuntimeKeyExpressionSubop_code p inline ds s off
   | KeyPackerSubop off \<Rightarrow> KeyPackerSubop_code p inline ds s off
   | KeyUnpackerSubop off \<Rightarrow> KeyUnpackerSubop_code p inline ds s off
   | AggregatorSubop st off \<Rightarrow> AggregatorSubop_code p inline ds s st off
   | AggReaderSubop c off1 off2 \<Rightarrow> AggReaderSubop_code p inline ds s c off1 off2
   | RuntimeFunctionSubop f args ref out st \<Rightarrow> RuntimeFunctionSubop_code p ds s f args ref out
   | CountingSink \<Rightarrow> CountingSink_code p s
   | FuseChunkSink \<Rightarrow> FuseChunkSink_code p ds s)"

text \<open>The statement in front of the end of a loop: \<open>LoopDriver::close\<close> and \<open>HashTableSource::close\<close>.\<close>

definition loop_step :: "iu_decls \<Rightarrow> subop \<Rightarrow> ir_stmt outcome" where
  "loop_step ds s =
     (let out_iu = hd (provided_ius s) in
      obind (getIUDeclaration ds out_iu) (\<lambda>e. case kind s of
        HashTableSource ID st \<Rightarrow> obind (invoke (''ht_'' @ ID @ ''_it_advance'')
          [VarRef (OpVar (subop_addr s) ''_ht'') (Pointer Void), Ref e, Ref (VarRef (OpVar (subop_addr s) ''_it_idx'') (UnsignedInt 8))]) (\<lambda>call. Returns (InvokeFctStmt call))
      | _ \<Rightarrow> Returns (AssignmentStmt e (Arithmetic AddOp e (ConstExpr (UI 8 1))))))"

end
