(* ===== verification/Compilation.thy ===== *)
theory Compilation
  imports Subop_Code
begin

text \<open>
  The code generation of a pipeline (\<open>algebra/CompilationContext.{h,cpp}\<close>): sinks are opened, requests for IUs travel to their producers,
  and a producer that has generated its code notifies the suboperator that asked, which generates its own code once all its inputs are
  there. The calls are mutually recursive and may go round in circles on a graph that is not a data flow, so they have fuel.
\<close>

section \<open>The state of a compilation\<close>

text \<open>What the generated program consists of so far, with the control flow objects that suboperators keep (\<open>opt_while\<close>, \<open>opt_if\<close>).\<close>

record generated =
  fct_builder :: builder
  iu_declarations :: iu_decls
  opt_control :: "nat \<Rightarrow> control option"

text \<open>Suboperators are named by their address. The counters of \<open>NodeProperties\<close> are two functions.\<close>

record compilation =
  program :: generated
  computed :: "nat list"
  serviced_requests :: "nat \<Rightarrow> nat"
  upstream_requests :: "nat \<Rightarrow> nat"
  requests :: "nat \<Rightarrow> (nat \<times> iu) option"
  producing_no_request :: "nat list"

definition subop_at :: "pipeline \<Rightarrow> nat \<Rightarrow> subop outcome" where
  "subop_at p a = (case find (\<lambda>s. subop_addr s = a) (suboperators p) of Some s \<Rightarrow> Returns s | None \<Rightarrow> Throws ''dangling pointer'')"

section \<open>Generating the code of one suboperator\<close>

definition place_stmt :: "place \<Rightarrow> builder \<Rightarrow> builder" where
  "place_stmt pl b = (case pl of InRoot st \<Rightarrow> append_root st b | InCurrent st \<Rightarrow> appendStmt st b)"

definition declareIU :: "iu \<times> irtype \<Rightarrow> iu_decls \<Rightarrow> iu_decls outcome" where
  "declareIU d ds = (case d of (i, t) \<Rightarrow> if ds i \<noteq> None then Throws ''assertion'' else Returns (ds(i \<mapsto> t)))"

fun declareIUs :: "(iu \<times> irtype) list \<Rightarrow> iu_decls \<Rightarrow> iu_decls outcome" where
  "declareIUs [] ds = Returns ds"
| "declareIUs (d # new) ds = obind (declareIU d ds) (declareIUs new)"

definition open_control :: "bool \<times> ir_expr \<Rightarrow> builder \<Rightarrow> control \<times> builder" where
  "open_control ctl b = (case ctl of (is_while, e) \<Rightarrow> if is_while then buildWhile e b else buildIf e b)"

definition generate :: "pipeline \<Rightarrow> bool \<Rightarrow> (subop \<Rightarrow> ir_value option) \<Rightarrow> subop \<Rightarrow> generated \<Rightarrow> generated outcome" where
  "generate p inline type_param s g =
     obind (op_code p inline type_param (iu_declarations g) s) (\<lambda>code.
     obind (declareIUs (declared_ius code) (iu_declarations g)) (\<lambda>ds.
       let b = fold place_stmt (statements code) (fct_builder g) in
       Returns (case opens code of
         None \<Rightarrow> g\<lparr> fct_builder := b, iu_declarations := ds \<rparr>
       | Some ctl \<Rightarrow> (let (c, b') = open_control ctl b in
           g\<lparr> fct_builder := b', iu_declarations := ds, opt_control := (opt_control g)(subop_addr s \<mapsto> c) \<rparr>))))"

definition generate_in :: "pipeline \<Rightarrow> bool \<Rightarrow> (subop \<Rightarrow> ir_value option) \<Rightarrow> subop \<Rightarrow> compilation \<Rightarrow> compilation outcome" where
  "generate_in p inline type_param s c =
     obind (generate p inline type_param s (program c)) (\<lambda>g. Returns (c\<lparr> program := g \<rparr>))"

text \<open>Which of the three virtual functions generates the code: \<open>open\<close>, \<open>consume\<close> or \<open>consumeAllChildren\<close>.\<close>

definition generates_in_open :: "subop \<Rightarrow> bool" where
  "generates_in_open s = (case kind s of
     TScanDriver n \<Rightarrow> True | FuseChunkSourceDriver \<Rightarrow> True | HashTableSource ID st \<Rightarrow> True | ScratchPadIUProvider \<Rightarrow> True | _ \<Rightarrow> False)"

definition generates_in_consume :: "subop \<Rightarrow> bool" where
  "generates_in_consume s = (case kind s of
     TScanIUProvider d \<Rightarrow> True | FuseChunkSourceIUProvider \<Rightarrow> True | Copy \<Rightarrow> True | CountingSink \<Rightarrow> True | FuseChunkSink \<Rightarrow> True | _ \<Rightarrow> False)"

text \<open>The requests that \<open>open\<close> makes, each with the suboperator on whose behalf it is made.\<close>

definition open_requests :: "subop \<Rightarrow> (nat \<times> iu) list" where
  "open_requests s = (case kind s of
     ColumnFilterScope deps \<Rightarrow> deps @ map (Pair (subop_addr s)) (source_ius s)
   | ColumnFilterLogic t self \<Rightarrow> [(subop_addr s, source_ius s ! 0)]
   | _ \<Rightarrow> map (Pair (subop_addr s)) (source_ius s))"

definition lacks_dependencies :: "subop \<Rightarrow> bool" where
  "lacks_dependencies s = (case kind s of ColumnFilterScope deps \<Rightarrow> deps = [] | _ \<Rightarrow> False)"

section \<open>Opening\<close>

definition request_made :: "nat \<Rightarrow> nat \<Rightarrow> iu \<Rightarrow> compilation \<Rightarrow> compilation" where
  "request_made a r i c = c\<lparr> upstream_requests := (upstream_requests c)(a := upstream_requests c a + 1), requests := (requests c)(a \<mapsto> (r, i)) \<rparr>"

definition mark_computed :: "nat \<Rightarrow> compilation \<Rightarrow> compilation" where
  "mark_computed a c = c\<lparr> computed := List.insert a (computed c) \<rparr>"

definition erase_request :: "nat \<Rightarrow> compilation \<Rightarrow> compilation" where
  "erase_request a c = c\<lparr> requests := (requests c)(a := None) \<rparr>"

definition count_serviced :: "nat \<Rightarrow> compilation \<Rightarrow> compilation" where
  "count_serviced r c = c\<lparr> serviced_requests := (serviced_requests c)(r := serviced_requests c r + 1) \<rparr>"

text \<open>The producer of an IU among the suboperators that feed another.\<close>

definition producer_of :: "pipeline \<Rightarrow> subop \<Rightarrow> iu \<Rightarrow> subop outcome" where
  "producer_of p s i =
     obind (getProducers p s) (\<lambda>as. obind (map_outcome (subop_at p) as) (\<lambda>ts.
       case find (\<lambda>t. i \<in> set (provided_ius t)) ts of None \<Rightarrow> Throws ''No child produces the IU.'' | Some t \<Rightarrow> Returns t))"

text \<open>
  The calls that a compilation consists of. The functions below are written over the calls that they make themselves; \<open>run_call\<close> ties
  them together, one unit of fuel per level.
\<close>

datatype call = Open subop | RequestIU subop iu | NotifyIUsReady subop | Consume subop iu | ConsumeAllChildren subop | Produce subop

type_synonym calls = "call \<Rightarrow> compilation \<Rightarrow> compilation outcome"

fun each_outcome :: "('a \<Rightarrow> 'b \<Rightarrow> 'b outcome) \<Rightarrow> 'a list \<Rightarrow> 'b \<Rightarrow> 'b outcome" where
  "each_outcome f [] c = Returns c"
| "each_outcome f (x # xs) c = obind (f x c) (each_outcome f xs)"

definition request_for :: "pipeline \<Rightarrow> calls \<Rightarrow> nat \<times> iu \<Rightarrow> compilation \<Rightarrow> compilation outcome" where
  "request_for p call r c = (case r of (a, i) \<Rightarrow> obind (subop_at p a) (\<lambda>s. call (RequestIU s i) c))"

definition open_op :: "pipeline \<Rightarrow> calls \<Rightarrow> subop \<Rightarrow> compilation \<Rightarrow> compilation outcome" where
  "open_op p call s c =
     (if generates_in_open s then call (Produce s) c
      else if lacks_dependencies s then Throws ''ColumnFilterScope must be provided with all filter dependencies.''
      else each_outcome (request_for p call) (open_requests s) c)"

definition requestIU :: "pipeline \<Rightarrow> calls \<Rightarrow> subop \<Rightarrow> iu \<Rightarrow> compilation \<Rightarrow> compilation outcome" where
  "requestIU p call s i c =
     obind (producer_of p s i) (\<lambda>provider.
       let c1 = request_made (subop_addr provider) (subop_addr s) i c in
       call (if subop_addr provider \<notin> set (computed c1) then Open provider else NotifyIUsReady provider) c1)"

text \<open>
  The mode of the code generation has no influence: only a suboperator with \<open>ct_only_vectorized\<close> would be left out of fused code, and no
  suboperator sets that property.
\<close>

definition notifyIUsReady :: "pipeline \<Rightarrow> calls \<Rightarrow> subop \<Rightarrow> compilation \<Rightarrow> compilation outcome" where
  "notifyIUsReady p call s c =
     (let c1 = mark_computed (subop_addr s) c in
      if subop_addr s \<in> set (producing_no_request c1) then Returns c1
      else case requests c1 (subop_addr s) of None \<Rightarrow> Throws ''assertion'' | Some (r, i) \<Rightarrow>
        obind (subop_at p r) (\<lambda>requestor.
        obind (call (Consume requestor i) (erase_request (subop_addr s) c1)) (\<lambda>c2.
          let c3 = count_serviced r c2 in
          if serviced_requests c3 r = length (source_ius requestor) then call (ConsumeAllChildren requestor) c3 else Returns c3)))"

definition consume :: "calls \<Rightarrow> subop \<Rightarrow> iu \<Rightarrow> compilation \<Rightarrow> compilation outcome" where
  "consume call s i c =
     (if generates_in_consume s then if i \<noteq> hd (source_ius s) then Throws ''assertion'' else call (Produce s) c else Returns c)"

definition consumeAllChildren :: "calls \<Rightarrow> subop \<Rightarrow> compilation \<Rightarrow> compilation outcome" where
  "consumeAllChildren call s c = (if generates_in_open s \<or> generates_in_consume s then Returns c else call (Produce s) c)"

text \<open>The code of a suboperator, and behind it the notification that its IUs are ready, which a sink does not send.\<close>

definition produce :: "pipeline \<Rightarrow> bool \<Rightarrow> (subop \<Rightarrow> ir_value option) \<Rightarrow> calls \<Rightarrow> subop \<Rightarrow> compilation \<Rightarrow> compilation outcome" where
  "produce p inline tp call s c =
     obind (generate_in p inline tp s c) (\<lambda>c1. if isSink s then Returns c1 else call (NotifyIUsReady s) c1)"

primrec run_call :: "nat \<Rightarrow> pipeline \<Rightarrow> bool \<Rightarrow> (subop \<Rightarrow> ir_value option) \<Rightarrow> calls" where
  "run_call 0 p inline tp x c = Diverges"
| "run_call (Suc n) p inline tp x c = (let call = run_call n p inline tp in
     case x of
       Open s \<Rightarrow> open_op p call s c
     | RequestIU s i \<Rightarrow> requestIU p call s i c
     | NotifyIUsReady s \<Rightarrow> notifyIUsReady p call s c
     | Consume s i \<Rightarrow> consume call s i c
     | ConsumeAllChildren s \<Rightarrow> consumeAllChildren call s c
     | Produce s \<Rightarrow> produce p inline tp call s c)"

section \<open>Closing\<close>

text \<open>The counter is a \<open>size_t\<close>.\<close>

definition dec_requests :: "nat \<Rightarrow> compilation \<Rightarrow> compilation" where
  "dec_requests a c = c\<lparr> upstream_requests := (upstream_requests c)(a := (if upstream_requests c a = 0 then 2 ^ 64 - 1 else upstream_requests c a - 1)) \<rparr>"

text \<open>What \<open>close\<close> appends: the step of a loop, then the statement of the control flow that the suboperator opened.\<close>

definition end_control :: "subop \<Rightarrow> generated \<Rightarrow> generated outcome" where
  "end_control s g = (case opt_control g (subop_addr s) of None \<Rightarrow> Throws ''empty optional''
     | Some ctl \<Rightarrow> Returns (g\<lparr> fct_builder := End ctl (fct_builder g), opt_control := (opt_control g)(subop_addr s := None) \<rparr>))"

definition generate_close :: "subop \<Rightarrow> generated \<Rightarrow> generated outcome" where
  "generate_close s g = (case kind s of
     ColumnFilterScope deps \<Rightarrow> end_control s g
   | ScratchPadIUProvider \<Rightarrow> Returns g
   | _ \<Rightarrow> if generates_in_open s
          then obind (loop_step (iu_declarations g) s) (\<lambda>st. end_control s (g\<lparr> fct_builder := appendStmt st (fct_builder g) \<rparr>))
          else Returns g)"

definition close_producer :: "pipeline \<Rightarrow> (subop \<Rightarrow> compilation \<Rightarrow> compilation outcome) \<Rightarrow> nat \<Rightarrow> compilation \<Rightarrow> compilation outcome" where
  "close_producer p close a c = (let c1 = dec_requests a c in
     if upstream_requests c1 a = 0 then obind (subop_at p a) (\<lambda>producer. close producer c1) else Returns c1)"

definition notifyOpClosed :: "pipeline \<Rightarrow> (subop \<Rightarrow> compilation \<Rightarrow> compilation outcome) \<Rightarrow> subop \<Rightarrow> compilation \<Rightarrow> compilation outcome" where
  "notifyOpClosed p close s c = obind (getProducers p s) (\<lambda>as. each_outcome (close_producer p close) as c)"

primrec close_op :: "nat \<Rightarrow> pipeline \<Rightarrow> subop \<Rightarrow> compilation \<Rightarrow> compilation outcome" where
  "close_op 0 p s c = Diverges"
| "close_op (Suc n) p s c =
     obind (generate_close s (program c)) (\<lambda>g. let c1 = c\<lparr> program := g \<rparr> in
       if generates_in_open s then Returns c1 else notifyOpClosed p (close_op n p) s c1)"

section \<open>Compiling a pipeline\<close>

definition without_consumer :: "pipeline \<Rightarrow> subop list" where
  "without_consumer p = filter (\<lambda>s. \<not> isSink s \<and> outgoing_edges p (subop_addr s) = None) (suboperators p)"

definition compilation_sinks :: "pipeline \<Rightarrow> subop list" where
  "compilation_sinks p = without_consumer p @ filter isSink (suboperators p)"

definition CompilationContext :: "pipeline \<Rightarrow> compilation" where
  "CompilationContext p = \<lparr> program = \<lparr> fct_builder = FunctionBuilder, iu_declarations = Map.empty, opt_control = Map.empty \<rparr>,
     computed = [], serviced_requests = (\<lambda>_. 0), upstream_requests = (\<lambda>_. 0), requests = Map.empty,
     producing_no_request = map subop_addr (without_consumer p) \<rparr>"

definition compile :: "nat \<Rightarrow> pipeline \<Rightarrow> bool \<Rightarrow> (subop \<Rightarrow> ir_value option) \<Rightarrow> builder outcome" where
  "compile fuel p inline tp =
     obind (each_outcome (\<lambda>s. run_call fuel p inline tp (Open s)) (compilation_sinks p) (CompilationContext p)) (\<lambda>c1.
     obind (each_outcome (close_op fuel p) (compilation_sinks p) c1) (\<lambda>c2.
       Returns (appendStmt (ReturnStmt (ConstExpr (UI 1 0))) (fct_builder (program c2)))))"

end
