(* ===== verification/Interruptible_Jobs.thy ===== *)
theory Interruptible_Jobs
  imports Ink_Prelude
begin

text \<open>
  Background processes that can be interrupted (\<open>exec/InterruptableJob.{h,cpp}\<close>): the wait for either an interrupt or the end of the process,
  and the running of a shell command under it. What the operating system answers is a parameter.
\<close>

datatype job_change = Interrupted | JobDone

text \<open>The counter behind the event descriptor, the descriptor of the process, \<open>-1\<close> without one, and the result.\<close>

record interruptable_job =
  fd_event :: nat
  fd_process :: int
  job_result :: "job_change option"

definition InterruptableJob :: interruptable_job where
  "InterruptableJob = \<lparr> fd_event = 0, fd_process = -1, job_result = None \<rparr>"

text \<open>
  The operating system: whether it can start the command, the descriptor that \<open>pidfd_open\<close> gives or \<open>-1\<close>, whether \<open>poll\<close> works and whether the
  process has ended when it is asked, whether the process can be terminated, and the exit code if joining works.
\<close>

record shell_system =
  starts_command :: "string \<Rightarrow> bool"
  pidfd_open :: "string \<Rightarrow> int"
  poll_works :: bool
  process_ends :: "string \<Rightarrow> bool"
  terminates :: "string \<Rightarrow> bool"
  exit_code :: "string \<Rightarrow> int option"

definition registerJobFD :: "int \<Rightarrow> interruptable_job \<Rightarrow> interruptable_job outcome" where
  "registerJobFD fd job =
     (if fd_process job \<noteq> -1 then Throws ''Process FD can only be registered once.'' else Returns (job\<lparr> fd_process := fd \<rparr>))"

definition registerJobPID :: "shell_system \<Rightarrow> string \<Rightarrow> interruptable_job \<Rightarrow> interruptable_job outcome" where
  "registerJobPID os command job = (let pid_fd = pidfd_open os command in
     if pid_fd = -1 then Throws ''Was not able to call pidfd_open'' else registerJobFD pid_fd job)"

definition interrupt :: "interruptable_job \<Rightarrow> interruptable_job" where
  "interrupt job = job\<lparr> fd_event := fd_event job + 1 \<rparr>"

text \<open>
  \<open>poll\<close> blocks until one of the descriptors is ready; when both are, the interrupt wins. The counter is the one at that moment, so an
  interrupt that arrives during the wait counts. With neither an interrupt nor an end of the process the wait lasts forever.
\<close>

definition awaitChange :: "shell_system \<Rightarrow> string \<Rightarrow> interruptable_job \<Rightarrow> (job_change \<times> interruptable_job) outcome" where
  "awaitChange os command job =
     (if fd_process job = -1 then Throws ''Cannot await InterruptableJob without processfd set.''
      else if \<not> poll_works os then Throws ''Polling InterruptableJob descriptors failed.''
      else if fd_event job \<noteq> 0 then Returns (Interrupted, job\<lparr> job_result := Some Interrupted \<rparr>)
      else if process_ends os command then Returns (JobDone, job\<lparr> job_result := Some JobDone \<rparr>)
      else Diverges)"

definition getResult :: "interruptable_job \<Rightarrow> job_change outcome" where
  "getResult job = (case job_result job of None \<Rightarrow> Throws ''Cannot query InterruptableJob result before being done.'' | Some c \<Rightarrow> Returns c)"

definition runShell :: "shell_system \<Rightarrow> string \<Rightarrow> interruptable_job \<Rightarrow> (int \<times> interruptable_job) outcome" where
  "runShell os command job =
     (if \<not> starts_command os command then Throws (''Unable to start shell command '' @ command)
      else obind (registerJobPID os command job) (\<lambda>job1.
           obind (awaitChange os command job1) (\<lambda>(change, job2).
             if change = Interrupted \<and> \<not> terminates os command then Throws (''Unable to terminate bash command '' @ command)
             else case exit_code os command of None \<Rightarrow> Throws ''Waiting for InterruptableJob failed.'' | Some e \<Rightarrow> Returns (e, job2))))"

text \<open>An operating system on which commands run, as the documentation of the calls has it.\<close>

definition healthy :: "shell_system \<Rightarrow> string \<Rightarrow> bool" where
  "healthy os command \<longleftrightarrow> starts_command os command \<and> pidfd_open os command \<noteq> -1 \<and> poll_works os \<and> terminates os command \<and> exit_code os command \<noteq> None"

lemma runShell_fresh:
  assumes "healthy os command" "fd_process job = -1"
  shows "runShell os command job = (if fd_event job = 0 \<and> \<not> process_ends os command then Diverges
    else Returns (the (exit_code os command), job\<lparr> fd_process := pidfd_open os command,
           job_result := Some (if fd_event job \<noteq> 0 then Interrupted else JobDone) \<rparr>))"
  using assms by (auto simp: healthy_def runShell_def registerJobPID_def registerJobFD_def awaitChange_def Let_def)

text \<open>A job is good for one process.\<close>

lemma runShell_again: "healthy os command \<Longrightarrow> fd_process job \<noteq> -1 \<Longrightarrow> runShell os command job = Throws ''Process FD can only be registered once.''"
  by (simp add: healthy_def runShell_def registerJobPID_def registerJobFD_def Let_def)

end
