(* ===== verification/C_Backend.thy ===== *)
theory C_Backend
  imports Compilation Interruptible_Jobs
begin

text \<open>
  The C backend (\<open>codegen/backend_c\<close>): it writes the imperative representation as C text through a \<open>ScopedWriter\<close>, dumps it to a file and
  has it compiled to a shared object. How pointers are written as text, and what the shell answers, are parameters.
\<close>

section \<open>The scoped writer\<close>

record writer =
  stream :: string
  indent_level :: nat

definition ScopedWriter :: writer where
  "ScopedWriter = \<lparr> stream = [], indent_level = 0 \<rparr>"

definition newline :: string where "newline = [CHR 0x0A]"

definition put :: "string \<Rightarrow> writer \<Rightarrow> writer" where
  "put t w = w\<lparr> stream := stream w @ t \<rparr>"

definition indent_string :: "writer \<Rightarrow> string" where
  "indent_string w = replicate (indent_level w) (CHR '' '')"

text \<open>A \<open>Statement\<close> from its construction to its destruction, with what is written through it in between.\<close>

definition stmt :: "bool \<Rightarrow> string \<Rightarrow> writer \<Rightarrow> writer" where
  "stmt semicolon t w = put (indent_string w @ t @ (if semicolon then '';'' @ newline else newline)) w"

text \<open>A \<open>ScopedBlock\<close>: the constructor opens the brace and indents, the destructor takes both back.\<close>

definition block :: "(writer \<Rightarrow> writer outcome) \<Rightarrow> writer \<Rightarrow> writer outcome" where
  "block body w =
     obind (body ((put (indent_string w @ ''{'' @ newline) w)\<lparr> indent_level := indent_level w + 4 \<rparr>)) (\<lambda>w1.
       let w2 = w1\<lparr> indent_level := indent_level w1 - 4 \<rparr> in Returns (put (indent_string w2 @ ''}'' @ newline) w2))"

section \<open>Types, names and values\<close>

fun typeDescription :: "irtype \<Rightarrow> string" where
  "typeDescription (SignedInt sz) = ''int'' @ to_string (8 * sz) @ ''_t''"
| "typeDescription (UnsignedInt sz) = ''uint'' @ to_string (8 * sz) @ ''_t''"
| "typeDescription (Float sz) = (if sz = 4 then ''float'' else ''double'')"
| "typeDescription CharT = ''char''"
| "typeDescription StringT = ''char*''"
| "typeDescription Date = ''int32_t''"
| "typeDescription Bool = ''bool''"
| "typeDescription (ByteArray sz) = ''char*''"
| "typeDescription Void = ''void''"
| "typeDescription (Struct name members) = ''struct '' @ name"
| "typeDescription (Pointer t) = typeDescription t @ ''*''"

text \<open>
  How the addresses of IUs and suboperators are written, and the name of the operator that a suboperator belongs to. A fragment's
  suboperators have no operator.
\<close>

record c_names =
  iu_addr_str :: "nat \<Rightarrow> string"
  op_addr_str :: "nat \<Rightarrow> string"
  op_source :: "nat \<Rightarrow> string option"

definition getVarIdentifier :: "c_names \<Rightarrow> nat \<Rightarrow> string" where
  "getVarIdentifier N a = (case op_source N a of Some name \<Rightarrow> ''iu_'' @ name @ ''_'' @ op_addr_str N a | None \<Rightarrow> ''iu'' @ op_addr_str N a)"

fun var_name :: "c_names \<Rightarrow> var \<Rightarrow> string" where
  "var_name N GlobalState = ''global_state''"
| "var_name N (IUVar i) = buildIUIdentifier (iu_addr_str N) i"
| "var_name N (OpVar a suffix) = getVarIdentifier N a @ suffix"

definition opcode_map :: "(ir_opcode \<times> string) list" where
  "opcode_map =
     [(AddOp, ''+''), (SubtractOp, ''-''), (MultiplyOp, ''*''), (DivideOp, ''/''), (LessOp, ''<''), (LessEqualOp, ''<=''), (GreaterOp, ''>''),
      (GreaterEqualOp, ''>=''), (AndOp, ''&&''), (OrOp, ''||''), (EqOp, ''==''), (NeqOp, ''!='')]"

definition function_call_map :: "(ir_opcode \<times> string) list" where
  "function_call_map = [(StrInListOp, ''in_strlist''), (NotLikeTokensOp, ''not_like_tokens'')]"

section \<open>Expressions\<close>

definition arithmetic_text :: "ir_opcode \<Rightarrow> string \<Rightarrow> string \<Rightarrow> string outcome" where
  "arithmetic_text c l r =
     (if c = StrEqualsOp then Returns (''(strcmp('' @ l @ '', '' @ r @ '') == 0)'')
      else case map_of function_call_map c of Some f \<Rightarrow> Returns (f @ ''('' @ l @ '', '' @ r @ '')'')
      | None \<Rightarrow> (case map_of opcode_map c of Some s \<Rightarrow> Returns (l @ '' '' @ s @ '' '' @ r) | None \<Rightarrow> Throws ''assertion''))"

fun compileExpression :: "c_names \<Rightarrow> ir_expr \<Rightarrow> string outcome"
  and compileArguments :: "c_names \<Rightarrow> ir_expr list \<Rightarrow> string outcome" where
  "compileExpression N (InvokeFct f t args) = obind (compileArguments N args) (\<lambda>a. Returns (f @ ''('' @ a @ '')''))"
| "compileExpression N (VarRef v t) = Returns (var_name N v)"
| "compileExpression N (ConstExpr c) = str c"
| "compileExpression N (Arithmetic c l r) =
     obind (compileExpression N l) (\<lambda>lt. obind (compileExpression N r) (\<lambda>rt. arithmetic_text c lt rt))"
| "compileExpression N (Deref e) = obind (compileExpression N e) (\<lambda>t. Returns (''(*('' @ t @ ''))''))"
| "compileExpression N (Ref e) = obind (compileExpression N e) (\<lambda>t. Returns (''(&('' @ t @ ''))''))"
| "compileExpression N (StructAccess e field) = obind (compileExpression N e) (\<lambda>t. Returns (t @ ''.'' @ field))"
| "compileExpression N (CastTo ty e) = obind (compileExpression N e) (\<lambda>t. Returns (''(('' @ typeDescription ty @ '') ('' @ t @ ''))''))"
| "compileExpression N (Memcopy dest src sz) =
     obind (compileExpression N dest) (\<lambda>d. obind (compileExpression N src) (\<lambda>s. obind (compileExpression N sz) (\<lambda>n.
       Returns (''(memcpy('' @ d @ '', '' @ s @ '', '' @ n @ ''))''))))"
| "compileArguments N [] = Returns []"
| "compileArguments N (e # es) = obind (compileExpression N e) (\<lambda>t.
     if es = [] then Returns t else obind (compileArguments N es) (\<lambda>ts. Returns (t @ '', '' @ ts)))"

section \<open>Statements\<close>

text \<open>The blocks of the function are in a store, so the recursion into them has fuel.\<close>

definition compileStatement :: "(ir_stmt list \<Rightarrow> writer \<Rightarrow> writer outcome) \<Rightarrow> c_names \<Rightarrow> ir_stmt list list \<Rightarrow> ir_stmt \<Rightarrow> writer \<Rightarrow> writer outcome" where
  "compileStatement compileBlock N bs st w = (case st of
     IfStmt e if_block else_block \<Rightarrow>
       obind (compileExpression N e) (\<lambda>t.
       obind (block (compileBlock (bs ! if_block)) (stmt False (''if ('' @ t @ '')'') w)) (\<lambda>w1.
         if bs ! else_block \<noteq> [] then block (compileBlock (bs ! else_block)) (stmt False ''else'' w1) else Returns w1))
   | WhileStmt e while_block \<Rightarrow>
       obind (compileExpression N e) (\<lambda>t. block (compileBlock (bs ! while_block)) (stmt False (''while ('' @ t @ '')'') w))
   | DeclareStmt v t \<Rightarrow> Returns (stmt True (typeDescription t @ '' '' @ var_name N v) w)
   | InvokeFctStmt e \<Rightarrow> obind (compileExpression N e) (\<lambda>t. Returns (stmt True t w))
   | ExprStmt e \<Rightarrow> obind (compileExpression N e) (\<lambda>t. Returns (stmt True t w))
   | AssignmentStmt l e \<Rightarrow> obind (compileExpression N l) (\<lambda>lt. obind (compileExpression N e) (\<lambda>t. Returns (stmt True (lt @ '' = '' @ t) w)))
   | ReturnStmt e \<Rightarrow> obind (compileExpression N e) (\<lambda>t. Returns (stmt True (''return '' @ t) w)))"

primrec compileBlock :: "nat \<Rightarrow> c_names \<Rightarrow> ir_stmt list list \<Rightarrow> ir_stmt list \<Rightarrow> writer \<Rightarrow> writer outcome" where
  "compileBlock 0 N bs ss w = Diverges"
| "compileBlock (Suc n) N bs ss w = each_outcome (compileStatement (compileBlock n N bs) N bs) ss w"

section \<open>Functions, structs and programs\<close>

text \<open>\<open>IR::Function\<close> and \<open>IR::Program\<close>; a function without a body is external.\<close>

record ir_function =
  fct_name :: string
  arguments :: "(string \<times> irtype) list"
  const_args :: "bool list"
  return_type :: irtype
  fct_body :: "builder option"

datatype ir_program = Program (program_name: string) (get_includes: "ir_program list")
  (get_structs: "(string \<times> (irtype \<times> string) list) list") (get_functions: "ir_function list")

definition argument_text :: "(string \<times> irtype) \<times> bool \<Rightarrow> string" where
  "argument_text arg = (case arg of ((name, t), const) \<Rightarrow> (if const then ''const '' else []) @ typeDescription t @ '' '' @ name)"

fun comma_separated :: "string list \<Rightarrow> string" where
  "comma_separated [] = []"
| "comma_separated [t] = t"
| "comma_separated (t # ts) = t @ '', '' @ comma_separated ts"

definition compileFunction :: "nat \<Rightarrow> c_names \<Rightarrow> ir_function \<Rightarrow> writer \<Rightarrow> writer outcome" where
  "compileFunction fuel N f w =
     (let declaration = (if fct_body f = None then ''extern '' else []) @ typeDescription (return_type f) @ '' '' @ fct_name f @ ''('' @
            comma_separated (map argument_text (zip (arguments f) (const_args f))) @ '')'';
          w1 = stmt (fct_body f = None) declaration w in
      obind (case fct_body f of None \<Rightarrow> Returns w1
             | Some b \<Rightarrow> block (compileBlock fuel N (blocks b) (blocks b ! 0)) w1) (\<lambda>w2.
        Returns (stmt False [] w2)))"

definition compileStruct :: "string \<times> (irtype \<times> string) list \<Rightarrow> writer \<Rightarrow> writer outcome" where
  "compileStruct structure w = (case structure of (name, members) \<Rightarrow>
     obind (block (\<lambda>w1. Returns (fold (\<lambda>(t, f). stmt True (typeDescription t @ '' '' @ f)) members w1)) (stmt False (''struct '' @ name) w)) (\<lambda>w2.
       Returns (stmt True [] w2)))"

text \<open>
  \<open>program_path\<close> is \<open>path\<close> of the code. The backend remembers which programs have been written to a file and which have been compiled; the
  files are part of its state here. \<open>prelude\<close> is the C source of the functions in \<open>FunctionsC.cpp\<close>.
\<close>

definition program_path :: "string \<Rightarrow> string" where "program_path name = ''/tmp/'' @ name @ ''.c''"
definition object_path :: "string \<Rightarrow> string" where "object_path name = ''/tmp/'' @ name @ ''.o''"
definition so_path :: "string \<Rightarrow> string" where "so_path name = ''/tmp/'' @ name @ ''.so''"

record backend_c =
  dumped :: "string list"
  compiled_programs :: "string list"
  files :: "string \<Rightarrow> string option"

definition createPreamble :: "string \<Rightarrow> bool \<Rightarrow> writer \<Rightarrow> writer" where
  "createPreamble prelude is_runtime w =
     (let w1 = stmt False (''#include <stdbool.h>'' @ newline) (stmt False ''#include <string.h>'' (stmt False ''#include <stdint.h>'' w)) in
      if is_runtime then stmt False prelude w1 else w1)"

definition dump :: "string \<Rightarrow> string \<Rightarrow> backend_c \<Rightarrow> backend_c" where
  "dump name text bk = bk\<lparr> files := (files bk)(program_path name \<mapsto> text), dumped := List.insert name (dumped bk) \<rparr>"

fun generate_c :: "nat \<Rightarrow> string \<Rightarrow> c_names \<Rightarrow> ir_program \<Rightarrow> backend_c \<Rightarrow> (string \<times> backend_c) outcome"
  and compileIncludes :: "nat \<Rightarrow> string \<Rightarrow> c_names \<Rightarrow> ir_program list \<Rightarrow> writer \<times> backend_c \<Rightarrow> (writer \<times> backend_c) outcome" where
  "generate_c fuel prelude N (Program name includes structs functions) bk =
     obind (compileIncludes fuel prelude N includes (createPreamble prelude (name = ''global_runtime'') ScopedWriter, bk)) (\<lambda>(w1, bk1).
     obind (each_outcome compileStruct structs w1) (\<lambda>w2.
     obind (each_outcome (compileFunction fuel N) functions w2) (\<lambda>w3. Returns (stream w3, bk1))))"
| "compileIncludes fuel prelude N [] s = Returns s"
| "compileIncludes fuel prelude N (include # includes) (w, bk) =
     obind (if program_name include \<in> set (dumped bk) then Returns bk
            else obind (generate_c fuel prelude N include bk) (\<lambda>(text, bk1). Returns (dump (program_name include) text bk1))) (\<lambda>bk1.
       compileIncludes fuel prelude N includes
         (stmt False (''#include '' @ [CHR 0x22] @ program_path (program_name include) @ [CHR 0x22] @ newline) w, bk1))"

section \<open>The generated program and the runtime\<close>

text \<open>The arguments that \<open>runtime/HashTableRuntime.cpp\<close> registers, with the flag of constant ones.\<close>

definition runtime_arguments :: "string \<Rightarrow> ((string \<times> irtype) \<times> bool) list" where
  "runtime_arguments f =
     (let table = (''table'', Pointer Void); key = (''key'', Pointer CharT); hash = (''hash'', UnsignedInt 8) in
      if f \<in> {''ht_sk_lookup'', ''ht_ck_lookup'', ''ht_dl_lookup''} then [(table, True), (key, True)]
      else if f = ''ht_sk_lookup_or_insert_with_init''
      then [(table, False), ((''result'', Pointer (Pointer CharT)), False), ((''is_new_key'', Pointer Bool), False), (key, True)]
      else if f \<in> {''ht_sk_it_advance'', ''ht_ck_it_advance'', ''ht_dl_it_advance'', ''ht_at_sk_it_advance''}
      then [(table, True), ((''it_data'', Pointer (Pointer CharT)), False), ((''it_idx'', Pointer (UnsignedInt 8)), False)]
      else if f = ''ht_nk_lookup'' then [(table, True)]
      else if f \<in> {''ht_at_sk_slot_prefetch'', ''ht_at_ck_slot_prefetch''} then [(table, False), (hash, True)]
      else if f \<in> {''ht_at_sk_lookup_with_hash'', ''ht_at_sk_lookup_with_hash_disable'', ''ht_at_ck_lookup_with_hash'', ''ht_at_ck_lookup_with_hash_disable''}
      then [(table, False), (key, False), (hash, True)]
      else if f = ''inkfuse_malloc'' then [((''size'', UnsignedInt 8), False)]
      else if f = ''materialize_tuple'' then [(table, False)]
      else [(table, False), (key, True)])"

definition global_runtime :: ir_program where
  "global_runtime = Program ''global_runtime'' [] runtime_structs
     (map (\<lambda>(f, t). \<lparr> fct_name = f, arguments = map fst (runtime_arguments f), const_args = map snd (runtime_arguments f), return_type = t, fct_body = None \<rparr>)
        runtime_functions)"

text \<open>\<open>createFctBuilder\<close>, and the program that holds the function.\<close>

definition createFctBuilder :: "string \<Rightarrow> builder \<Rightarrow> ir_function" where
  "createFctBuilder name b = \<lparr> fct_name = name, arguments = [(''global_state'', Pointer (Pointer Void))], const_args = [False],
     return_type = UnsignedInt 1, fct_body = Some b \<rparr>"

definition pipeline_program :: "string \<Rightarrow> builder \<Rightarrow> ir_program" where
  "pipeline_program name b = Program name [global_runtime] [] [createFctBuilder ''execute'' b]"

section \<open>Compiling and linking\<close>

text \<open>
  \<open>BackendProgramC\<close>. The compiler is the one that the build or the environment names; the shell and the dynamic linker with its handles are
  those of the operating system.
\<close>

record toolchain =
  jit_compiler :: "string option"
  object_dependencies :: string
  dlopen :: "string \<Rightarrow> nat option"
  dlsym :: "nat \<Rightarrow> string \<Rightarrow> nat option"
  shell :: shell_system

record backend_program =
  was_compiled :: bool
  program_text :: string
  prog_name :: string
  so_handle :: "nat option"

definition BackendProgramC :: "string \<Rightarrow> string \<Rightarrow> backend_program" where
  "BackendProgramC text name = \<lparr> was_compiled = False, program_text = text, prog_name = name, so_handle = None \<rparr>"

definition jit_command :: "string \<Rightarrow> string \<Rightarrow> string" where
  "jit_command cc name = cc @ '' '' @ program_path name @ '' -march=native -O3 '' @ '' -fPIC -shared -o '' @ so_path name"

definition interpreter_command :: "string \<Rightarrow> string \<Rightarrow> string \<Rightarrow> string" where
  "interpreter_command cc deps name =
     cc @ '' '' @ '' -flto -fPIC '' @ '' -march=native -O3 '' @ '' -c '' @ program_path name @ '' -o '' @ object_path name @ '' && '' @
     cc @ '' '' @ '' -march=native -O3 '' @ '' -flto '' @ object_path name @ '' '' @ deps @ '' '' @ '' -fPIC -shared -o '' @ so_path name"

definition run_compiler :: "toolchain \<Rightarrow> string \<Rightarrow> string \<Rightarrow> backend_c \<Rightarrow> interruptable_job \<Rightarrow> (backend_c \<times> interruptable_job) outcome" where
  "run_compiler tools command name bk job =
     obind (runShell (shell tools) command job) (\<lambda>(e, job1).
     obind (getResult job1) (\<lambda>change.
       if change = Interrupted then Returns (bk, job1)
       else if e \<noteq> 0 then Throws (''Compilation failed. Command: '' @ command)
       else Returns (bk\<lparr> compiled_programs := List.insert name (compiled_programs bk) \<rparr>, job1)))"

text \<open>An interrupted compilation marks the program as compiled all the same.\<close>

definition compileToMachinecode ::
  "toolchain \<Rightarrow> bool \<Rightarrow> backend_program \<Rightarrow> backend_c \<Rightarrow> interruptable_job \<Rightarrow> (backend_program \<times> backend_c \<times> interruptable_job) outcome" where
  "compileToMachinecode tools compile_for_interpreter bp bk job =
     (if was_compiled bp then Returns (bp, bk, job)
      else case jit_compiler tools of
        None \<Rightarrow> Throws ''Custom compiler has to be set through CUSTOM_JIT env variable.''
      | Some cc \<Rightarrow>
          (let command = (if compile_for_interpreter then interpreter_command cc (object_dependencies tools) (prog_name bp) else jit_command cc (prog_name bp)) in
           obind (run_compiler tools command (prog_name bp) (dump (prog_name bp) (program_text bp) bk) job) (\<lambda>(bk1, job1).
             Returns (bp\<lparr> was_compiled := True \<rparr>, bk1, job1))))"

definition link :: "toolchain \<Rightarrow> backend_program \<Rightarrow> backend_program outcome" where
  "link tools bp = (case so_handle bp of Some h \<Rightarrow> Returns bp
     | None \<Rightarrow> (case dlopen tools (so_path (prog_name bp)) of None \<Rightarrow> Throws ''Could not link BackendProgramC.'' | Some h \<Rightarrow> Returns (bp\<lparr> so_handle := Some h \<rparr>)))"

definition get_function_handle :: "toolchain \<Rightarrow> string \<Rightarrow> backend_program \<Rightarrow> (nat option \<times> backend_program) outcome" where
  "get_function_handle tools name bp =
     (if \<not> was_compiled bp then Throws ''Function has to be compiled before a handle can be returned''
      else obind (link tools bp) (\<lambda>bp1. Returns (dlsym tools (the (so_handle bp1)) name, bp1)))"

section \<open>The functions in the prelude\<close>

text \<open>\<open>FunctionsC.cpp\<close>: strings end at their first zero byte, which is not part of them here; \<open>strstr\<close> finds the first occurrence.\<close>

definition in_strlist :: "string list \<Rightarrow> string \<Rightarrow> bool" where
  "in_strlist start arg = fold (\<lambda>s res. res \<or> s = arg) start False"

fun strstr :: "string \<Rightarrow> string \<Rightarrow> string option" where
  "strstr [] token = (if token = [] then Some [] else None)"
| "strstr (c # arg) token = (if take (length token) (c # arg) = token then Some (c # arg) else strstr arg token)"

fun not_like_tokens :: "string list \<Rightarrow> string \<Rightarrow> bool" where
  "not_like_tokens [] arg = False"
| "not_like_tokens (token # start) arg =
     (case strstr arg token of None \<Rightarrow> True | Some token_in_arg \<Rightarrow> not_like_tokens start (drop (length token) token_in_arg))"

end
