(* ===== verification/C_Reading.thy ===== *)
theory C_Reading
  imports C_Backend "HOL-Library.Monad_Syntax"
begin

text \<open>
  How C reads the text of the backend: tokens, and a recursive descent parser with the precedences of the C grammar for the part of the
  language that the backend uses. It is the reference that the printing of expressions and statements is checked against.
\<close>

section \<open>Tokens\<close>

datatype token = Word string | Num string | Lit string | Sym string

definition letter :: "char \<Rightarrow> bool" where
  "letter c \<longleftrightarrow> (let n = of_char c :: nat in 65 \<le> n \<and> n \<le> 90 \<or> 97 \<le> n \<and> n \<le> 122 \<or> n = 95)"

definition digit_char :: "char \<Rightarrow> bool" where
  "digit_char c \<longleftrightarrow> (let n = of_char c :: nat in 48 \<le> n \<and> n \<le> 57)"

definition word_char :: "char \<Rightarrow> bool" where "word_char c \<longleftrightarrow> letter c \<or> digit_char c"
definition number_char :: "char \<Rightarrow> bool" where "number_char c \<longleftrightarrow> word_char c \<or> c = CHR ''.''"

definition blank :: "char \<Rightarrow> bool" where "blank c \<longleftrightarrow> c = CHR '' '' \<or> c = CHR 0x0A"
definition quote :: char where "quote = CHR 0x22"

definition two_char_symbols :: "string list" where
  "two_char_symbols = [''<='', ''>='', ''=='', ''!='', ''&&'', ''||'']"

function lex :: "string \<Rightarrow> token list" where
  "lex [] = []"
| "lex (c # cs) =
     (if blank c then lex cs
      else if letter c then Word (c # takeWhile word_char cs) # lex (dropWhile word_char cs)
      else if digit_char c then Num (c # takeWhile number_char cs) # lex (dropWhile number_char cs)
      else if c = quote then Lit (takeWhile (\<lambda>d. d \<noteq> quote) cs) # lex (drop 1 (dropWhile (\<lambda>d. d \<noteq> quote) cs))
      else if c # take 1 cs \<in> set two_char_symbols then Sym (c # take 1 cs) # lex (drop 1 cs)
      else Sym [c] # lex cs)"
  by pat_completeness auto
termination
  by (relation "measure length") (auto simp: less_Suc_eq_le length_dropWhile_le intro: le_trans [OF diff_le_self])

declare lex.simps(2) [simp del]

section \<open>Syntax trees\<close>

datatype c_type = CBase string | CStructType string | CPtr c_type

datatype c_expr =
    CVar string | CNum string | CString string | CCall string "c_expr list" | CBin string c_expr c_expr
  | CNeg c_expr | CDeref c_expr | CAddr c_expr | CMember c_expr string | CCast c_type c_expr

datatype c_stmt =
    CDecl c_type string | CExpr c_expr | CAssign c_expr c_expr | CReturn c_expr
  | CIf c_expr "c_stmt list" "c_stmt list" | CWhile c_expr "c_stmt list"

record c_function =
  c_return :: c_type
  c_name :: string
  c_parameter :: "c_type \<times> string"
  c_body :: "c_stmt list"

section \<open>The parser\<close>

definition expect :: "string \<Rightarrow> token list \<Rightarrow> token list option" where
  "expect s ts = (case ts of [] \<Rightarrow> None | t # rest \<Rightarrow> if t = Sym s then Some rest else None)"

definition starts :: "token \<Rightarrow> token list \<Rightarrow> bool" where
  "starts t ts \<longleftrightarrow> (case ts of [] \<Rightarrow> False | t' # rest \<Rightarrow> t' = t)"

definition type_words :: "string list" where
  "type_words = [''int8_t'', ''int16_t'', ''int32_t'', ''int64_t'', ''uint8_t'', ''uint16_t'', ''uint32_t'', ''uint64_t'',
     ''float'', ''double'', ''char'', ''bool'', ''void'']"

definition reserved_words :: "string list" where
  "reserved_words = type_words @ [''struct'', ''while'', ''if'', ''else'', ''return'', ''const'', ''extern'']"

fun parse_stars :: "c_type \<Rightarrow> token list \<Rightarrow> c_type \<times> token list" where
  "parse_stars t [] = (t, [])"
| "parse_stars t (s # ts) = (if s = Sym ''*'' then parse_stars (CPtr t) ts else (t, s # ts))"

definition word :: "token list \<Rightarrow> (string \<times> token list) option" where
  "word ts = (case ts of Word w # rest \<Rightarrow> Some (w, rest) | _ \<Rightarrow> None)"

definition parse_type :: "token list \<Rightarrow> (c_type \<times> token list) option" where
  "parse_type ts = do {
     (w, rest) \<leftarrow> word ts;
     if w = ''struct'' then do { (name, rest) \<leftarrow> word rest; Some (parse_stars (CStructType name) rest) }
     else if w \<in> set type_words then Some (parse_stars (CBase w) rest) else None }"

definition starts_type :: "token list \<Rightarrow> bool" where
  "starts_type ts \<longleftrightarrow> (case word ts of Some (w, rest) \<Rightarrow> w \<in> set (''struct'' # type_words) | None \<Rightarrow> False)"

text \<open>The binary operators, from the loosest to the tightest.\<close>

definition levels :: "string list list" where
  "levels = [[''||''], [''&&''], [''=='', ''!=''], [''<'', ''<='', ''>'', ''>=''], [''+'', ''-''], [''*'', ''/'']]"

text \<open>
  A level is a chain of operands of the next level that associates to the left; \<open>More\<close> is the rest of the chain, \<open>Suffix\<close> the selections behind
  a primary expression, \<open>Arguments\<close> the arguments of a call that are still to come.
\<close>

datatype syntactic = Level nat | More nat c_expr | Unary | Suffix c_expr | Arguments string "c_expr list"

type_synonym parser = "syntactic \<Rightarrow> token list \<Rightarrow> (c_expr \<times> token list) option"

definition parse_level :: "parser \<Rightarrow> nat \<Rightarrow> token list \<Rightarrow> (c_expr \<times> token list) option" where
  "parse_level p k ts = (if k = length levels then p Unary ts else do { (e, rest) \<leftarrow> p (Level (k + 1)) ts; p (More k e) rest })"

definition parse_more :: "parser \<Rightarrow> nat \<Rightarrow> c_expr \<Rightarrow> token list \<Rightarrow> (c_expr \<times> token list) option" where
  "parse_more p k e ts = (case ts of
     Sym s # rest \<Rightarrow> if s \<in> set (levels ! k) then do { (r, rest) \<leftarrow> p (Level (k + 1)) rest; p (More k (CBin s e r)) rest } else Some (e, ts)
   | _ \<Rightarrow> Some (e, ts))"

definition parse_unary :: "parser \<Rightarrow> token list \<Rightarrow> (c_expr \<times> token list) option" where
  "parse_unary p ts = (case ts of
     [] \<Rightarrow> None
   | Num v # rest \<Rightarrow> p (Suffix (CNum v)) rest
   | Lit v # rest \<Rightarrow> p (Suffix (CString v)) rest
   | Word w # rest \<Rightarrow> (case expect ''('' rest of Some rest \<Rightarrow> p (Arguments w []) rest | None \<Rightarrow> p (Suffix (CVar w)) rest)
   | Sym s # rest \<Rightarrow>
       if s = ''*'' then do { (e, rest) \<leftarrow> p Unary rest; Some (CDeref e, rest) }
       else if s = ''&'' then do { (e, rest) \<leftarrow> p Unary rest; Some (CAddr e, rest) }
       else if s = ''-'' then do { (e, rest) \<leftarrow> p Unary rest; Some (CNeg e, rest) }
       else if s \<noteq> ''('' then None
       else if starts_type rest
       then do { (t, rest) \<leftarrow> parse_type rest; rest \<leftarrow> expect '')'' rest; (e, rest) \<leftarrow> p Unary rest; Some (CCast t e, rest) }
       else do { (e, rest) \<leftarrow> p (Level 0) rest; rest \<leftarrow> expect '')'' rest; p (Suffix e) rest })"

definition parse_suffix :: "parser \<Rightarrow> c_expr \<Rightarrow> token list \<Rightarrow> (c_expr \<times> token list) option" where
  "parse_suffix p e ts = (case expect ''.'' ts of Some rest \<Rightarrow> do { (f, rest) \<leftarrow> word rest; p (Suffix (CMember e f)) rest } | None \<Rightarrow> Some (e, ts))"

definition parse_arguments :: "parser \<Rightarrow> string \<Rightarrow> c_expr list \<Rightarrow> token list \<Rightarrow> (c_expr \<times> token list) option" where
  "parse_arguments p f args ts =
     (if args = [] \<and> starts (Sym '')'') ts then p (Suffix (CCall f [])) (tl ts)
      else do { (e, rest) \<leftarrow> p (Level 0) ts;
        if starts (Sym '','') rest then p (Arguments f (args @ [e])) (tl rest)
        else do { rest \<leftarrow> expect '')'' rest; p (Suffix (CCall f (args @ [e]))) rest } })"

primrec parse :: "nat \<Rightarrow> parser" where
  "parse 0 x ts = None"
| "parse (Suc n) x ts = (case x of
     Level k \<Rightarrow> parse_level (parse n) k ts
   | More k e \<Rightarrow> parse_more (parse n) k e ts
   | Unary \<Rightarrow> parse_unary (parse n) ts
   | Suffix e \<Rightarrow> parse_suffix (parse n) e ts
   | Arguments f args \<Rightarrow> parse_arguments (parse n) f args ts)"

section \<open>Statements and functions\<close>

type_synonym stmts_parser = "token list \<Rightarrow> (c_stmt list \<times> token list) option"

definition parse_braces :: "stmts_parser \<Rightarrow> stmts_parser" where
  "parse_braces stmts ts = do { rest \<leftarrow> expect ''{'' ts; (ss, rest) \<leftarrow> stmts rest; rest \<leftarrow> expect ''}'' rest; Some (ss, rest) }"

definition parse_condition :: "nat \<Rightarrow> token list \<Rightarrow> (c_expr \<times> token list) option" where
  "parse_condition n ts = do { rest \<leftarrow> expect ''('' ts; (e, rest) \<leftarrow> parse n (Level 0) rest; rest \<leftarrow> expect '')'' rest; Some (e, rest) }"

definition parse_stmt :: "nat \<Rightarrow> stmts_parser \<Rightarrow> token list \<Rightarrow> (c_stmt \<times> token list) option" where
  "parse_stmt n stmts ts =
     (if starts (Word ''while'') ts
      then do { (e, rest) \<leftarrow> parse_condition n (tl ts); (ss, rest) \<leftarrow> parse_braces stmts rest; Some (CWhile e ss, rest) }
      else if starts (Word ''if'') ts
      then do { (e, rest) \<leftarrow> parse_condition n (tl ts); (ss, rest) \<leftarrow> parse_braces stmts rest;
        if starts (Word ''else'') rest then do { (ss', rest) \<leftarrow> parse_braces stmts (tl rest); Some (CIf e ss ss', rest) }
        else Some (CIf e ss [], rest) }
      else if starts (Word ''return'') ts
      then do { (e, rest) \<leftarrow> parse n (Level 0) (tl ts); rest \<leftarrow> expect '';'' rest; Some (CReturn e, rest) }
      else if starts_type ts
      then do { (t, rest) \<leftarrow> parse_type ts; (w, rest) \<leftarrow> word rest; rest \<leftarrow> expect '';'' rest; Some (CDecl t w, rest) }
      else do { (l, rest) \<leftarrow> parse n (Level 0) ts;
        if starts (Sym ''='') rest then do { (r, rest) \<leftarrow> parse n (Level 0) (tl rest); rest \<leftarrow> expect '';'' rest; Some (CAssign l r, rest) }
        else do { rest \<leftarrow> expect '';'' rest; Some (CExpr l, rest) } })"

primrec parse_stmts :: "nat \<Rightarrow> stmts_parser" where
  "parse_stmts 0 ts = None"
| "parse_stmts (Suc n) ts =
     (if starts (Sym ''}'') ts then Some ([], ts)
      else do { (s, rest) \<leftarrow> parse_stmt n (parse_stmts n) ts; (ss, rest) \<leftarrow> parse_stmts n rest; Some (s # ss, rest) })"

definition parse_function :: "nat \<Rightarrow> token list \<Rightarrow> (c_function \<times> token list) option" where
  "parse_function n ts = do {
     (t, rest) \<leftarrow> parse_type ts; (f, rest) \<leftarrow> word rest; rest \<leftarrow> expect ''('' rest;
     (pt, rest) \<leftarrow> parse_type rest; (pn, rest) \<leftarrow> word rest; rest \<leftarrow> expect '')'' rest;
     (ss, rest) \<leftarrow> parse_braces (parse_stmts n) rest;
     Some (\<lparr> c_return = t, c_name = f, c_parameter = (pt, pn), c_body = ss \<rparr>, rest) }"

end
