(* ===== verification/C_Printing.thy ===== *)
theory C_Printing
  imports C_Reading
begin

text \<open>
  The C tree that an expression of the representation stands for, which expressions print unambiguously, and that lexing and parsing the
  printed text of such an expression gives back its tree.
\<close>

section \<open>Meaning of types, values and expressions\<close>

fun c_type_of :: "irtype \<Rightarrow> c_type" where
  "c_type_of StringT = CPtr (CBase ''char'')"
| "c_type_of (ByteArray n) = CPtr (CBase ''char'')"
| "c_type_of (Struct name members) = CStructType name"
| "c_type_of (Pointer t) = CPtr (c_type_of t)"
| "c_type_of t = CBase (typeDescription t)"

definition signed_tree :: "bool \<Rightarrow> string \<Rightarrow> c_expr" where
  "signed_tree negative digits = (if negative then CNeg (CNum digits) else CNum digits)"

fun value_tree :: "ir_value \<Rightarrow> c_expr" where
  "value_tree (UI sz v) = CNum (to_string v)"
| "value_tree (SI sz v) = signed_tree (v < 0) (to_string (nat \<bar>v\<bar>))"
| "value_tree (F8 v) = signed_tree (v < 0) (f8_string \<bar>v\<bar>)"
| "value_tree (DateVal v) = signed_tree (v < 0) (to_string (nat \<bar>v\<bar>))"
| "value_tree (StringVal s) = CString s"
| "value_tree (StringList ss) = CString []"

fun opcode_tree :: "ir_opcode \<Rightarrow> c_expr \<Rightarrow> c_expr \<Rightarrow> c_expr" where
  "opcode_tree StrEqualsOp l r = CBin ''=='' (CCall ''strcmp'' [l, r]) (CNum ''0'')"
| "opcode_tree StrInListOp l r = CCall ''in_strlist'' [l, r]"
| "opcode_tree NotLikeTokensOp l r = CCall ''not_like_tokens'' [l, r]"
| "opcode_tree c l r = CBin (the (map_of opcode_map c)) l r"

fun expr_tree :: "c_names \<Rightarrow> ir_expr \<Rightarrow> c_expr" where
  "expr_tree N (VarRef v t) = CVar (var_name N v)"
| "expr_tree N (ConstExpr c) = value_tree c"
| "expr_tree N (InvokeFct f t args) = CCall f (map (expr_tree N) args)"
| "expr_tree N (Arithmetic c l r) = opcode_tree c (expr_tree N l) (expr_tree N r)"
| "expr_tree N (Deref e) = CDeref (expr_tree N e)"
| "expr_tree N (Ref e) = CAddr (expr_tree N e)"
| "expr_tree N (StructAccess e field) = CMember (expr_tree N e) field"
| "expr_tree N (CastTo t e) = CCast (c_type_of t) (expr_tree N e)"
| "expr_tree N (Memcopy dest src sz) = CCall ''memcpy'' [expr_tree N dest, expr_tree N src, expr_tree N sz]"

section \<open>What prints unambiguously\<close>

definition is_word :: "string \<Rightarrow> bool" where
  "is_word w \<longleftrightarrow> w \<noteq> [] \<and> letter (hd w) \<and> list_all word_char w \<and> w \<notin> set reserved_words"

fun type_ok :: "irtype \<Rightarrow> bool" where
  "type_ok (SignedInt sz) = (sz \<in> {1, 2, 4, 8})"
| "type_ok (UnsignedInt sz) = (sz \<in> {1, 2, 4, 8})"
| "type_ok (Struct name members) = is_word name"
| "type_ok (Pointer t) = type_ok t"
| "type_ok t = True"

text \<open>A string is written between quotes without escaping anything.\<close>

fun value_ok :: "ir_value \<Rightarrow> bool" where
  "value_ok (StringVal s) = list_all (\<lambda>c. c \<noteq> quote \<and> c \<noteq> CHR 0x5C \<and> c \<noteq> CHR 0x0A) s"
| "value_ok (StringList ss) = False"
| "value_ok v = True"

definition operand :: "ir_expr \<Rightarrow> bool" where
  "operand e = (case e of Arithmetic c l r \<Rightarrow> c \<in> {StrEqualsOp, StrInListOp, NotLikeTokensOp} | _ \<Rightarrow> True)"

text \<open>The backend writes no parentheses around operands, so an operand must not be arithmetic itself; only a dereferenced value is selected from.\<close>

fun printable :: "c_names \<Rightarrow> ir_expr \<Rightarrow> bool" where
  "printable N (VarRef v t) = is_word (var_name N v)"
| "printable N (ConstExpr c) = value_ok c"
| "printable N (InvokeFct f t args) = (is_word f \<and> list_all (printable N) args)"
| "printable N (Arithmetic c l r) = (c \<noteq> HashCombineOp \<and> printable N l \<and> printable N r \<and>
     (c \<in> {StrEqualsOp, StrInListOp, NotLikeTokensOp} \<or> operand l \<and> operand r))"
| "printable N (Deref e) = printable N e"
| "printable N (Ref e) = printable N e"
| "printable N (StructAccess e field) = (is_word field \<and> printable N e \<and> (case e of Deref d \<Rightarrow> True | _ \<Rightarrow> False))"
| "printable N (CastTo t e) = (type_ok t \<and> printable N e)"
| "printable N (Memcopy dest src sz) = (printable N dest \<and> printable N src \<and> printable N sz)"

section \<open>Tokens\<close>

fun type_tokens :: "irtype \<Rightarrow> token list" where
  "type_tokens StringT = [Word ''char'', Sym ''*'']"
| "type_tokens (ByteArray n) = [Word ''char'', Sym ''*'']"
| "type_tokens (Struct name members) = [Word ''struct'', Word name]"
| "type_tokens (Pointer t) = type_tokens t @ [Sym ''*'']"
| "type_tokens t = [Word (typeDescription t)]"

definition signed_tokens :: "bool \<Rightarrow> string \<Rightarrow> token list" where
  "signed_tokens negative digits = (if negative then [Sym ''-''] else []) @ [Num digits]"

fun value_tokens :: "ir_value \<Rightarrow> token list" where
  "value_tokens (UI sz v) = [Num (to_string v)]"
| "value_tokens (SI sz v) = signed_tokens (v < 0) (to_string (nat \<bar>v\<bar>))"
| "value_tokens (F8 v) = signed_tokens (v < 0) (f8_string \<bar>v\<bar>)"
| "value_tokens (DateVal v) = signed_tokens (v < 0) (to_string (nat \<bar>v\<bar>))"
| "value_tokens (StringVal s) = [Lit s]"
| "value_tokens (StringList ss) = []"

definition call_tokens :: "string \<Rightarrow> token list \<Rightarrow> token list" where
  "call_tokens f args = Word f # Sym ''('' # args @ [Sym '')'']"

fun opcode_tokens :: "ir_opcode \<Rightarrow> token list \<Rightarrow> token list \<Rightarrow> token list" where
  "opcode_tokens StrEqualsOp l r = Sym ''('' # call_tokens ''strcmp'' (l @ Sym '','' # r) @ [Sym ''=='', Num ''0'', Sym '')'']"
| "opcode_tokens StrInListOp l r = call_tokens ''in_strlist'' (l @ Sym '','' # r)"
| "opcode_tokens NotLikeTokensOp l r = call_tokens ''not_like_tokens'' (l @ Sym '','' # r)"
| "opcode_tokens c l r = l @ Sym (the (map_of opcode_map c)) # r"

fun expr_tokens :: "c_names \<Rightarrow> ir_expr \<Rightarrow> token list"
  and args_tokens :: "c_names \<Rightarrow> ir_expr list \<Rightarrow> token list" where
  "expr_tokens N (VarRef v t) = [Word (var_name N v)]"
| "expr_tokens N (ConstExpr c) = value_tokens c"
| "expr_tokens N (InvokeFct f t args) = call_tokens f (args_tokens N args)"
| "expr_tokens N (Arithmetic c l r) = opcode_tokens c (expr_tokens N l) (expr_tokens N r)"
| "expr_tokens N (Deref e) = [Sym ''('', Sym ''*'', Sym ''(''] @ expr_tokens N e @ [Sym '')'', Sym '')'']"
| "expr_tokens N (Ref e) = [Sym ''('', Sym ''&'', Sym ''(''] @ expr_tokens N e @ [Sym '')'', Sym '')'']"
| "expr_tokens N (StructAccess e field) = expr_tokens N e @ [Sym ''.'', Word field]"
| "expr_tokens N (CastTo t e) = [Sym ''('', Sym ''(''] @ type_tokens t @ [Sym '')'', Sym ''(''] @ expr_tokens N e @ [Sym '')'', Sym '')'']"
| "expr_tokens N (Memcopy dest src sz) =
     Sym ''('' # call_tokens ''memcpy'' (expr_tokens N dest @ Sym '','' # expr_tokens N src @ Sym '','' # expr_tokens N sz) @ [Sym '')'']"
| "args_tokens N [] = []"
| "args_tokens N (e # es) = expr_tokens N e @ (if es = [] then [] else Sym '','' # args_tokens N es)"

section \<open>Lexing\<close>

text \<open>A text lexes to some tokens in front of anything that does not continue a word or a number.\<close>

definition ends_word :: "string \<Rightarrow> bool" where
  "ends_word rest \<longleftrightarrow> (case rest of [] \<Rightarrow> True | c # cs \<Rightarrow> \<not> number_char c)"

definition lexes :: "string \<Rightarrow> token list \<Rightarrow> bool" where
  "lexes t ts \<longleftrightarrow> (\<forall>rest. ends_word rest \<longrightarrow> lex (t @ rest) = ts @ lex rest)"

lemma lexesD: "lexes t ts \<Longrightarrow> ends_word rest \<Longrightarrow> lex (t @ rest) = ts @ lex rest"
  by (simp add: lexes_def)

lemmas char_class_defs = letter_def digit_char_def word_char_def number_char_def blank_def quote_def

lemma ends_word_symbols [simp]:
  "ends_word []" "ends_word (CHR '' '' # cs)" "ends_word (CHR 0x0A # cs)" "ends_word (CHR ''('' # cs)" "ends_word (CHR '')'' # cs)"
  "ends_word (CHR '','' # cs)" "ends_word (CHR '';'' # cs)" "ends_word (CHR ''*'' # cs)"
  by (simp_all add: ends_word_def char_class_defs of_char_def)

lemma lex_blank [simp]: "lex (CHR '' '' # cs) = lex cs" "lex (CHR 0x0A # cs) = lex cs"
  by (simp_all add: lex.simps blank_def)

lemma lex_symbol:
  assumes "\<not> blank c" "\<not> letter c" "\<not> digit_char c" "c \<noteq> quote" "c # take 1 cs \<notin> set two_char_symbols"
  shows "lex (c # cs) = Sym [c] # lex cs"
  using assms by (simp add: lex.simps)

lemma lex_single [simp]:
  "lex (CHR ''('' # cs) = Sym ''('' # lex cs" "lex (CHR '')'' # cs) = Sym '')'' # lex cs" "lex (CHR '','' # cs) = Sym '','' # lex cs"
  "lex (CHR '';'' # cs) = Sym '';'' # lex cs" "lex (CHR ''*'' # cs) = Sym ''*'' # lex cs" "lex (CHR ''-'' # cs) = Sym ''-'' # lex cs"
  "lex (CHR ''.'' # cs) = Sym ''.'' # lex cs" "lex (CHR ''{'' # cs) = Sym ''{'' # lex cs" "lex (CHR ''}'' # cs) = Sym ''}'' # lex cs"
  "lex (CHR ''+'' # cs) = Sym ''+'' # lex cs" "lex (CHR ''/'' # cs) = Sym ''/'' # lex cs"
  by (rule lex_symbol; simp add: char_class_defs of_char_def two_char_symbols_def)+

lemma lex_spaced [simp]:
  "lex (CHR ''&'' # CHR ''('' # cs) = Sym ''&'' # lex (CHR ''('' # cs)" "lex (CHR ''='' # CHR '' '' # cs) = Sym ''='' # lex cs"
  "lex (CHR ''<'' # CHR '' '' # cs) = Sym ''<'' # lex cs" "lex (CHR ''>'' # CHR '' '' # cs) = Sym ''>'' # lex cs"
  by (subst lex_symbol; simp add: char_class_defs of_char_def two_char_symbols_def)+

lemma lex_double [simp]:
  "lex (CHR ''<'' # CHR ''='' # cs) = Sym ''<='' # lex cs" "lex (CHR ''>'' # CHR ''='' # cs) = Sym ''>='' # lex cs"
  "lex (CHR ''='' # CHR ''='' # cs) = Sym ''=='' # lex cs" "lex (CHR ''!'' # CHR ''='' # cs) = Sym ''!='' # lex cs"
  "lex (CHR ''&'' # CHR ''&'' # cs) = Sym ''&&'' # lex cs" "lex (CHR ''|'' # CHR ''|'' # cs) = Sym ''||'' # lex cs"
  by (simp_all add: lex.simps char_class_defs of_char_def two_char_symbols_def)

lemma takeWhile_all: "list_all P w \<Longrightarrow> (case rest of [] \<Rightarrow> True | c # cs \<Rightarrow> \<not> P c) \<Longrightarrow> takeWhile P (w @ rest) = w \<and> dropWhile P (w @ rest) = rest"
  by (induction w) (auto split: list.splits)

lemma lexes_word: "w \<noteq> [] \<Longrightarrow> letter (hd w) \<Longrightarrow> list_all word_char w \<Longrightarrow> lexes w [Word w]"
proof -
  assume w: "w \<noteq> []" "letter (hd w)" "list_all word_char w"
  then obtain c cs where c: "w = c # cs" "letter c" "list_all word_char cs" by (cases w) auto
  have "\<not> blank c" using c(2) by (auto simp: char_class_defs of_char_def)
  moreover have "takeWhile word_char (cs @ rest) = cs \<and> dropWhile word_char (cs @ rest) = rest" if "ends_word rest" for rest
    using that c(3) by (intro takeWhile_all) (auto simp: ends_word_def number_char_def split: list.splits)
  ultimately show ?thesis using c(2) by (auto simp: lexes_def c(1) lex.simps(2))
qed

lemma lexes_is_word: "is_word w \<Longrightarrow> lexes w [Word w]"
  by (simp add: is_word_def lexes_word)

lemma lexes_number: "n \<noteq> [] \<Longrightarrow> digit_char (hd n) \<Longrightarrow> list_all number_char n \<Longrightarrow> lexes n [Num n]"
proof -
  assume n: "n \<noteq> []" "digit_char (hd n)" "list_all number_char n"
  then obtain c cs where c: "n = c # cs" "digit_char c" "list_all number_char cs" by (cases n) auto
  have "\<not> blank c" "\<not> letter c" using c(2) by (auto simp: char_class_defs of_char_def)
  moreover have "takeWhile number_char (cs @ rest) = cs \<and> dropWhile number_char (cs @ rest) = rest" if "ends_word rest" for rest
    using that c(3) by (intro takeWhile_all) (auto simp: ends_word_def split: list.splits)
  ultimately show ?thesis using c(2) by (auto simp: lexes_def c(1) lex.simps(2))
qed

lemma lexes_string: "list_all (\<lambda>c. c \<noteq> quote) s \<Longrightarrow> lexes (CHR 0x22 # s @ [CHR 0x22]) [Lit s]"
proof -
  assume s: "list_all (\<lambda>c. c \<noteq> quote) s"
  have "takeWhile (\<lambda>d. d \<noteq> quote) (s @ quote # rest) = s \<and> dropWhile (\<lambda>d. d \<noteq> quote) (s @ quote # rest) = quote # rest" for rest
    using s by (intro takeWhile_all) auto
  moreover have "\<not> blank quote" "\<not> letter quote" "\<not> digit_char quote" by (auto simp: char_class_defs of_char_def)
  ultimately show ?thesis by (simp add: lexes_def lex.simps(2) flip: quote_def)
qed

lemma digit_chars: "d < 10 \<Longrightarrow> digit_char (digit d)"
  by (simp add: digit_char_def digit_def)

lemma to_string_digit_chars: "to_string n \<noteq> [] \<and> list_all digit_char (to_string n)"
proof (induction n rule: to_string.induct)
  case (1 n)
  then show ?case by (cases "n < 10") (subst (1 2) to_string.simps; simp add: digit_chars)+
qed

lemma digit_number [intro]: "digit_char c \<Longrightarrow> number_char c"
  by (simp add: number_char_def word_char_def)

lemma to_string_simps [simp]: "to_string n \<noteq> []" "digit_char (hd (to_string n))" "c \<in> set (to_string n) \<Longrightarrow> digit_char c"
  using to_string_digit_chars [of n] by (auto simp: list_all_iff intro: hd_in_set)

lemma lexes_to_string: "lexes (to_string n) [Num (to_string n)]"
  by (intro lexes_number) (auto simp: list_all_iff)

lemma lexes_f8: "0 \<le> v \<Longrightarrow> lexes (f8_string v) [Num (f8_string v)]"
proof -
  assume v: "0 \<le> v"
  have "number_char (CHR ''0'')" "number_char (CHR ''.'')" by (simp_all add: char_class_defs of_char_def)
  moreover have "f8_string v = to_string (nat v div 1000000) @ ''.'' @ replicate (6 - length (to_string (nat v mod 1000000))) (CHR ''0'') @ to_string (nat v mod 1000000)"
    using v by (simp add: f8_string_def Let_def)
  ultimately show ?thesis by (intro lexes_number) (auto simp: list_all_iff hd_append)
qed

lemma lexes_signed: "lexes s [Num s] \<Longrightarrow> lexes ((if negative then ''-'' else []) @ s) (signed_tokens negative s)"
  by (simp add: lexes_def signed_tokens_def)

lemma lexes_int_string: "lexes (int_string v) (signed_tokens (v < 0) (to_string (nat \<bar>v\<bar>)))"
proof -
  have "int_string v = (if v < 0 then ''-'' else []) @ to_string (nat \<bar>v\<bar>)" by (simp add: int_string_def)
  then show ?thesis using lexes_signed [OF lexes_to_string] by simp
qed

lemma lexes_f8_string: "lexes (f8_string v) (signed_tokens (v < 0) (f8_string \<bar>v\<bar>))"
proof -
  have "f8_string v = (if v < 0 then ''-'' else []) @ f8_string \<bar>v\<bar>" by (simp add: f8_string_def Let_def)
  then show ?thesis using lexes_signed [OF lexes_f8 [of "\<bar>v\<bar>"]] by simp
qed

lemma value_lexes: "value_ok c \<Longrightarrow> \<exists>t. str c = Returns t \<and> lexes t (value_tokens c)"
proof (cases c)
  case (StringVal s)
  assume "value_ok c"
  then have "list_all (\<lambda>c. c \<noteq> quote) s" using StringVal by (simp add: list_all_iff)
  then show ?thesis using StringVal lexes_string by simp
qed (simp_all add: lexes_to_string lexes_int_string lexes_f8_string)

lemma type_words_are_words: "list_all (\<lambda>w. w \<noteq> [] \<and> letter (hd w) \<and> list_all word_char w) (''struct'' # type_words)"
  by code_simp

lemma type_word_lexes: "w \<in> set (''struct'' # type_words) \<Longrightarrow> lexes w [Word w]"
  using type_words_are_words by (intro lexes_word) (auto simp: list_all_iff)

lemma to_string_sizes: "to_string 8 = ''8''" "to_string 16 = ''16''" "to_string 32 = ''32''" "to_string 64 = ''64''"
  by code_simp+

lemma sized_type_word: "sz \<in> {1, 2, 4, 8} \<Longrightarrow> ''int'' @ to_string (8 * sz) @ ''_t'' \<in> set type_words \<and> ''uint'' @ to_string (8 * sz) @ ''_t'' \<in> set type_words"
  by (auto simp: type_words_def to_string_sizes)

lemma lexes_star: "lexes t ts \<Longrightarrow> lexes (t @ ''*'') (ts @ [Sym ''*''])"
  by (simp add: lexes_def)

lemma type_lexes: "type_ok t \<Longrightarrow> lexes (typeDescription t) (type_tokens t)"
proof (induction t)
  case (Pointer t) then show ?case by (simp add: lexes_star)
next
  case (Struct name members)
  have "lex (''struct'' @ CHR '' '' # name @ rest) = [Word ''struct''] @ lex (CHR '' '' # name @ rest)" for rest
    by (rule lexesD [OF type_word_lexes]) simp_all
  then show ?case using lexes_is_word [of name] Struct by (simp add: lexes_def)
next
  case StringT show ?case using lexes_star [OF type_word_lexes [of "''char''"]] by (simp add: type_words_def)
next
  case (ByteArray n) show ?case using lexes_star [OF type_word_lexes [of "''char''"]] by (simp add: type_words_def)
next
  case (SignedInt n) then show ?case using sized_type_word [of n] type_word_lexes by simp
next
  case (UnsignedInt n) then show ?case using sized_type_word [of n] type_word_lexes by simp
qed (simp_all add: type_word_lexes type_words_def)

section \<open>Expressions lex to their tokens\<close>

lemma lex_call:
  assumes "w \<noteq> []" "letter (hd w)" "list_all word_char w"
  shows "lex (w @ CHR ''('' # cs) = Word w # Sym ''('' # lex cs"
  using lexesD [OF lexes_word [OF assms], of "CHR ''('' # cs"] by simp

lemma lex_calls:
  "lex (''strcmp('' @ cs) = Word ''strcmp'' # Sym ''('' # lex cs" "lex (''in_strlist('' @ cs) = Word ''in_strlist'' # Sym ''('' # lex cs"
  "lex (''not_like_tokens('' @ cs) = Word ''not_like_tokens'' # Sym ''('' # lex cs" "lex (''memcpy('' @ cs) = Word ''memcpy'' # Sym ''('' # lex cs"
  using lex_call [of "''strcmp''" cs] lex_call [of "''in_strlist''" cs] lex_call [of "''not_like_tokens''" cs] lex_call [of "''memcpy''" cs]
  by (simp_all add: char_class_defs of_char_def)

lemma lex_zero: "lex (''0)'' @ cs) = Num ''0'' # Sym '')'' # lex cs"
  using lexesD [OF lexes_number [of "''0''"], of "CHR '')'' # cs"] by (simp add: char_class_defs of_char_def)

lemmas lex_literals [simp] = lex_calls [unfolded append_Cons append_Nil] lex_zero [unfolded append_Cons append_Nil]

lemma arithmetic_lexes:
  assumes "c \<noteq> HashCombineOp" "lexes l ls" "lexes r rs"
  shows "\<exists>t. arithmetic_text c l r = Returns t \<and> lexes t (opcode_tokens c ls rs)"
  using assms by (cases c) (simp_all add: arithmetic_text_def function_call_map_def opcode_map_def call_tokens_def lexes_def)

text \<open>The text of a dereferenced value ends in a parenthesis, so anything may follow it.\<close>

definition lexes_as :: "ir_expr \<Rightarrow> string \<Rightarrow> token list \<Rightarrow> bool" where
  "lexes_as e t ts \<longleftrightarrow> lexes t ts \<and> ((\<exists>d. e = Deref d) \<longrightarrow> (\<forall>rest. lex (t @ rest) = ts @ lex rest))"

lemma expression_lexes_as:
  "printable N e \<Longrightarrow> \<exists>t. compileExpression N e = Returns t \<and> lexes_as e t (expr_tokens N e)"
  "list_all (printable N) es \<Longrightarrow> \<exists>t. compileArguments N es = Returns t \<and> lexes t (args_tokens N es)"
proof (induction N e and N es rule: expr_tokens_args_tokens.induct)
  case (1 N v t) then show ?case by (simp add: lexes_is_word lexes_as_def)
next
  case (2 N c) then show ?case by (simp add: value_lexes lexes_as_def)
next
  case (3 N f t args)
  then obtain a where "compileArguments N args = Returns a" "lexes a (args_tokens N args)" by auto
  then show ?case using 3 lexes_is_word [of f] by (simp add: lexes_def call_tokens_def lexes_as_def)
next
  case (4 N c l r)
  then obtain lt rt where t: "compileExpression N l = Returns lt" "lexes lt (expr_tokens N l)" "compileExpression N r = Returns rt" "lexes rt (expr_tokens N r)"
    by (auto simp: lexes_as_def)
  moreover have "c \<noteq> HashCombineOp" using 4 by simp
  ultimately show ?case using arithmetic_lexes [of c lt _ rt] by (simp add: lexes_as_def)
next
  case (5 N e) then show ?case by (auto simp: lexes_def lexes_as_def)
next
  case (6 N e) then show ?case by (auto simp: lexes_def lexes_as_def)
next
  case (7 N e field)
  then obtain d t where "e = Deref d" "compileExpression N e = Returns t" "\<forall>rest. lex (t @ rest) = expr_tokens N e @ lex rest" "lexes field [Word field]"
    by (auto simp: lexes_as_def lexes_is_word split: ir_expr.splits)
  then show ?case by (simp add: lexes_def lexes_as_def)
next
  case (8 N t e) then show ?case using type_lexes [of t] by (auto simp: lexes_def lexes_as_def)
next
  case (9 N dest src sz)
  then obtain dt st nt where "compileExpression N dest = Returns dt" "lexes dt (expr_tokens N dest)" "compileExpression N src = Returns st" "lexes st (expr_tokens N src)"
      "compileExpression N sz = Returns nt" "lexes nt (expr_tokens N sz)"
    by (auto simp: lexes_as_def)
  then show ?case by (simp add: lexes_def call_tokens_def lexes_as_def)
next
  case (10 N) then show ?case by (simp add: lexes_def)
next
  case (11 N e es)
  then obtain t where t: "compileExpression N e = Returns t" "lexes t (expr_tokens N e)" by (auto simp: lexes_as_def)
  show ?case
  proof (cases "es = []")
    case True then show ?thesis using t by simp
  next
    case False
    then obtain a where "compileArguments N es = Returns a" "lexes a (args_tokens N es)" using 11 by auto
    then show ?thesis using t False by (simp add: lexes_def)
  qed
qed

lemma expression_lexes: "printable N e \<Longrightarrow> \<exists>t. compileExpression N e = Returns t \<and> lexes t (expr_tokens N e)"
  using expression_lexes_as(1) [of N e] unfolding lexes_as_def by blast

end
