(* ===== verification/C_Parsing.thy ===== *)
theory C_Parsing
  imports C_Printing
begin

text \<open>Parsing the tokens of a printed expression gives back its tree: the printed text means what the representation means.\<close>

section \<open>Parsing with enough fuel\<close>

definition parses :: "syntactic \<Rightarrow> token list \<Rightarrow> c_expr \<Rightarrow> token list \<Rightarrow> bool" where
  "parses x ts e rest \<longleftrightarrow> (\<exists>n. \<forall>m\<ge>n. parse m x ts = Some (e, rest))"

lemma parses0: "(\<And>k. parse (Suc k) x ts = Some (e, r)) \<Longrightarrow> parses x ts e r"
  unfolding parses_def by (metis Suc_le_D)

lemma parses1:
  assumes "parses y us f q" "\<And>k. parse k y us = Some (f, q) \<Longrightarrow> parse (Suc k) x ts = Some (e, r)"
  shows "parses x ts e r"
  using assms unfolding parses_def by (metis Suc_le_D Suc_le_mono)

lemma parses2:
  assumes "parses y us f q" "parses z vs g s"
    and "\<And>k. parse k y us = Some (f, q) \<Longrightarrow> parse k z vs = Some (g, s) \<Longrightarrow> parse (Suc k) x ts = Some (e, r)"
  shows "parses x ts e r"
proof -
  obtain m n where "\<forall>k\<ge>m. parse k y us = Some (f, q)" "\<forall>k\<ge>n. parse k z vs = Some (g, s)" using assms(1,2) unfolding parses_def by blast
  then have "\<forall>k\<ge>max m n. parse (Suc k) x ts = Some (e, r)" using assms(3) by simp
  then show ?thesis unfolding parses_def by (metis Suc_le_D Suc_le_mono)
qed

lemma starts_simps [simp]: "starts t [] = False" "starts t (u # us) = (u = t)"
  by (auto simp: starts_def)

lemma expect_simps [simp]: "expect s [] = None" "expect s (Sym s # ts) = Some ts" "\<not> starts (Sym s) ts \<Longrightarrow> expect s ts = None"
  by (auto simp: expect_def starts_def split: list.splits)

lemma word_simps [simp]: "word (Word w # ts) = Some (w, ts)" "word (Sym s # ts) = None" "word (Num v # ts) = None" "word (Lit v # ts) = None" "word [] = None"
  by (simp_all add: word_def)

named_theorems parse_rules

lemma suffix_end [parse_rules]: "\<not> starts (Sym ''.'') ts \<Longrightarrow> parses (Suffix e) ts e ts"
  by (rule parses0) (simp add: parse_suffix_def)

lemma suffix_member: "parses (Suffix (CMember e f)) ts e' r \<Longrightarrow> parses (Suffix e) (Sym ''.'' # Word f # ts) e' r"
  by (erule parses1) (simp add: parse_suffix_def)

lemma unary_word: "\<not> starts (Sym ''('') ts \<Longrightarrow> parses (Suffix (CVar w)) ts e r \<Longrightarrow> parses Unary (Word w # ts) e r"
  by (erule parses1) (simp add: parse_unary_def)

lemma unary_call: "parses (Arguments w []) ts e r \<Longrightarrow> parses Unary (Word w # Sym ''('' # ts) e r"
  by (erule parses1) (simp add: parse_unary_def)

lemma unary_number: "parses (Suffix (CNum v)) ts e r \<Longrightarrow> parses Unary (Num v # ts) e r"
  by (erule parses1) (simp add: parse_unary_def)

lemma unary_string: "parses (Suffix (CString v)) ts e r \<Longrightarrow> parses Unary (Lit v # ts) e r"
  by (erule parses1) (simp add: parse_unary_def)

lemma unary_prefix:
  "parses Unary ts e r \<Longrightarrow> parses Unary (Sym ''*'' # ts) (CDeref e) r"
  "parses Unary ts e r \<Longrightarrow> parses Unary (Sym ''&'' # ts) (CAddr e) r"
  "parses Unary ts e r \<Longrightarrow> parses Unary (Sym ''-'' # ts) (CNeg e) r"
  by (erule parses1, simp add: parse_unary_def)+

lemma unary_cast:
  assumes "parse_type ts = Some (t, Sym '')'' # ts')" "starts_type ts" "parses Unary ts' e r"
  shows "parses Unary (Sym ''('' # ts) (CCast t e) r"
  using assms(1,2) by (intro parses1 [OF assms(3)]) (simp add: parse_unary_def)

lemma unary_group:
  assumes "\<not> starts_type ts" "parses (Level 0) ts e (Sym '')'' # ts')" "parses (Suffix e) ts' e' r"
  shows "parses Unary (Sym ''('' # ts) e' r"
  using assms(1) by (intro parses2 [OF assms(2,3)]) (simp add: parse_unary_def)

lemma arguments_none: "parses (Suffix (CCall f [])) ts e r \<Longrightarrow> parses (Arguments f []) (Sym '')'' # ts) e r"
  by (erule parses1) (simp add: parse_arguments_def)

lemma arguments_last:
  assumes "\<not> starts (Sym '')'') ts" "parses (Level 0) ts e (Sym '')'' # ts')" "parses (Suffix (CCall f (acc @ [e]))) ts' e' r"
  shows "parses (Arguments f acc) ts e' r"
  using assms(1) by (intro parses2 [OF assms(2,3)]) (simp add: parse_arguments_def)

lemma arguments_more:
  assumes "\<not> starts (Sym '')'') ts" "parses (Level 0) ts e (Sym '','' # ts')" "parses (Arguments f (acc @ [e])) ts' e' r"
  shows "parses (Arguments f acc) ts e' r"
  using assms(1) by (intro parses2 [OF assms(2,3)]) (simp add: parse_arguments_def)

section \<open>Precedence levels\<close>

definition no_op :: "nat \<Rightarrow> token list \<Rightarrow> bool" where
  "no_op k ts \<longleftrightarrow> (case ts of Sym s # rest \<Rightarrow> s \<notin> set (levels ! k) | _ \<Rightarrow> True)"

lemma length_levels [simp]: "length levels = 6"
  by (simp add: levels_def)

lemma more_end: "no_op k ts \<Longrightarrow> parses (More k e) ts e ts"
  by (rule parses0) (auto simp: parse_more_def no_op_def split: list.splits token.splits)

lemma level_last: "parses Unary ts e r \<Longrightarrow> parses (Level 6) ts e r"
  by (erule parses1) (simp add: parse_level_def)

lemma level_step:
  assumes "parses (Level (Suc k)) ts e r" "k < 6" "no_op k r"
  shows "parses (Level k) ts e r"
  using assms(2) by (intro parses2 [OF assms(1) more_end [OF assms(3)]]) (simp add: parse_level_def)

lemma level_operator:
  assumes "parses (Level (Suc k)) ts x (Sym s # ts')" "k < 6" "s \<in> set (levels ! k)" "parses (Level (Suc k)) ts' y r" "no_op k r"
  shows "parses (Level k) ts (CBin s x y) r"
proof -
  have more: "parses (More k x) (Sym s # ts') (CBin s x y) r"
    using assms(3) by (intro parses2 [OF assms(4) more_end [OF assms(5)]]) (simp add: parse_more_def)
  show ?thesis using assms(2) by (intro parses2 [OF assms(1) more]) (simp add: parse_level_def)
qed

lemma level_down:
  assumes "k \<le> j" "j \<le> 6" "parses (Level j) ts e r" "\<forall>i. k \<le> i \<and> i < j \<longrightarrow> no_op i r"
  shows "parses (Level k) ts e r"
  using assms by (induction rule: inc_induct) (auto intro: level_step)

definition ender :: "token list \<Rightarrow> bool" where
  "ender ts \<longleftrightarrow> (\<exists>s rest. ts = Sym s # rest \<and> s \<in> {'')'', '','', '';'', ''=''})"

lemma ender_simps [simp]: "ender (Sym '')'' # ts)" "ender (Sym '','' # ts)" "ender (Sym '';'' # ts)" "ender (Sym ''='' # ts)"
  by (auto simp: ender_def)

lemma less_six: "i < 6 \<Longrightarrow> i \<in> {0, 1, 2, 3, 4, 5 :: nat}"
  by auto

lemma no_op_ender: "ender r \<Longrightarrow> i < 6 \<Longrightarrow> no_op i r"
  by (drule less_six) (auto simp: ender_def no_op_def levels_def)

lemma level_unary:
  assumes "parses Unary ts e r" "k \<le> 6" "\<forall>i. k \<le> i \<and> i < 6 \<longrightarrow> no_op i r"
  shows "parses (Level k) ts e r"
  using level_down [OF assms(2) order_refl level_last [OF assms(1)]] assms(3) by simp

lemma level_ender: "parses Unary ts e r \<Longrightarrow> ender r \<Longrightarrow> k \<le> 6 \<Longrightarrow> parses (Level k) ts e r"
  by (rule level_unary) (auto simp: no_op_ender)

text \<open>Two operands with an operator between them, whatever its level.\<close>

lemma binary_reads:
  assumes "parses Unary ts x (Sym s # ts')" "parses Unary ts' y r" "ender r" "j < 6" "s \<in> set (levels ! j)"
    and "\<forall>i. j < i \<and> i < 6 \<longrightarrow> s \<notin> set (levels ! i)"
  shows "parses (Level 0) ts (CBin s x y) r"
proof -
  have "parses (Level (Suc j)) ts x (Sym s # ts')"
    using assms(4,6) by (intro level_unary [OF assms(1)]) (auto simp: no_op_def Suc_le_eq)
  moreover have "parses (Level (Suc j)) ts' y r" using assms(4) by (intro level_ender [OF assms(2,3)]) simp
  ultimately have "parses (Level j) ts (CBin s x y) r" using assms(4,5) by (intro level_operator) (simp_all add: no_op_ender [OF assms(3)])
  then show ?thesis using assms(4) by (intro level_down [of 0 j]) (auto simp: no_op_ender [OF assms(3)])
qed

section \<open>Types\<close>

lemma parse_stars_append: "fst (parse_stars t ts) = t \<Longrightarrow> snd (parse_stars t ts) = ts \<Longrightarrow> parse_stars t ts = (t, ts)"
  by (metis prod.collapse)

lemma parse_stars_end [simp]: "\<not> starts (Sym ''*'') ts \<Longrightarrow> parse_stars t ts = (t, ts)"
  by (cases ts) auto

lemma struct_not_type: "''struct'' \<notin> set type_words"
  by (simp add: type_words_def)

lemma base_type:
  "w \<in> set type_words \<Longrightarrow> parse_type (Word w # ts) = Some (parse_stars (CBase w) ts)"
  using struct_not_type by (auto simp: parse_type_def)

lemma type_parses_stars: "type_ok t \<Longrightarrow> parse_type (type_tokens t @ rest) = Some (parse_stars (c_type_of t) rest)"
proof (induction t arbitrary: rest)
  case (Struct name members) then show ?case by (simp add: parse_type_def)
next
  case (SignedInt n) then show ?case using sized_type_word [of n] base_type by simp
next
  case (UnsignedInt n) then show ?case using sized_type_word [of n] base_type by simp
qed (auto simp: base_type type_words_def)

lemma type_parses [simp]: "type_ok t \<Longrightarrow> \<not> starts (Sym ''*'') rest \<Longrightarrow> parse_type (type_tokens t @ rest) = Some (c_type_of t, rest)"
  by (simp add: type_parses_stars)

lemma starts_type_append: "xs \<noteq> [] \<Longrightarrow> starts_type (xs @ ys) = starts_type xs"
  by (cases xs) (auto simp: starts_type_def word_def split: token.splits)

lemma type_tokens_start: "type_ok t \<Longrightarrow> starts_type (type_tokens t) \<and> type_tokens t \<noteq> []"
proof (induction t)
  case (SignedInt n) then show ?case using sized_type_word [of n] by (simp add: starts_type_def)
next
  case (UnsignedInt n) then show ?case using sized_type_word [of n] by (simp add: starts_type_def)
next
  case (Pointer t) then show ?case by (simp add: starts_type_append)
qed (auto simp: starts_type_def type_words_def)

lemma word_no_type: "is_word w \<Longrightarrow> \<not> starts_type (Word w # ts)"
  by (auto simp: is_word_def starts_type_def reserved_words_def)

lemma other_no_type [simp]: "\<not> starts_type (Sym s # ts)" "\<not> starts_type (Num v # ts)" "\<not> starts_type (Lit v # ts)" "\<not> starts_type []"
  by (simp_all add: starts_type_def)

lemma function_words [simp]: "is_word ''strcmp''" "is_word ''in_strlist''" "is_word ''not_like_tokens''" "is_word ''memcpy''"
  by code_simp+

text \<open>The first token of an expression: not a type, not a closing parenthesis, not a word that starts a statement.\<close>

definition expr_start :: "token list \<Rightarrow> bool" where
  "expr_start ts \<longleftrightarrow> (case ts of [] \<Rightarrow> False | t # rest \<Rightarrow> (case t of Word w \<Rightarrow> is_word w | Sym s \<Rightarrow> s \<in> {''('', ''-''} | _ \<Rightarrow> True))"

lemma expr_start_append: "expr_start xs \<Longrightarrow> expr_start (xs @ ys)"
  by (cases xs) (auto simp: expr_start_def)

lemma opcode_start: "expr_start ls \<Longrightarrow> expr_start (opcode_tokens c ls rs)"
  by (cases c) (auto simp: expr_start_append call_tokens_def expr_start_def split: list.splits)

lemma value_start: "value_ok c \<Longrightarrow> expr_start (value_tokens c)"
  by (cases c) (auto simp: expr_start_def signed_tokens_def)

lemma expression_start: "printable N e \<Longrightarrow> expr_start (expr_tokens N e)"
proof (induction e)
  case (Arithmetic c l r) then show ?case by (simp add: opcode_start)
next
  case (ConstExpr c) then show ?case by (simp add: value_start)
qed (auto simp: expr_start_append call_tokens_def, auto simp: expr_start_def)

lemma expr_start_facts: "expr_start ts \<Longrightarrow> \<not> starts_type ts \<and> \<not> starts (Sym '')'') ts \<and> ts \<noteq> []"
  by (cases ts) (auto simp: expr_start_def word_no_type split: token.splits)

section \<open>Expressions\<close>

definition follow :: "token list \<Rightarrow> bool" where
  "follow ts \<longleftrightarrow> \<not> starts (Sym ''.'') ts \<and> \<not> starts (Sym ''('') ts"

lemma follow_simps [simp]: "follow (Sym s # ts) \<longleftrightarrow> s \<notin> {''.'', ''(''}"
  by (auto simp: follow_def)

lemma follow_suffix [simp]: "follow ts \<Longrightarrow> parses (Suffix e) ts e ts"
  by (simp add: suffix_end follow_def)

lemma ender_follow: "ender ts \<Longrightarrow> follow ts"
  by (auto simp: ender_def)

text \<open>An operand is read by \<open>Unary\<close>; a dereferenced one hands over to the selections behind it; any expression is read up to an ender.\<close>

definition reads_operand :: "c_names \<Rightarrow> ir_expr \<Rightarrow> bool" where
  "reads_operand N e \<longleftrightarrow> (operand e \<longrightarrow> (\<forall>rest. follow rest \<longrightarrow> parses Unary (expr_tokens N e @ rest) (expr_tree N e) rest))"

definition reads_whole :: "c_names \<Rightarrow> ir_expr \<Rightarrow> bool" where
  "reads_whole N e \<longleftrightarrow> (\<forall>rest. ender rest \<longrightarrow> parses (Level 0) (expr_tokens N e @ rest) (expr_tree N e) rest)"

definition hands_over :: "c_names \<Rightarrow> ir_expr \<Rightarrow> bool" where
  "hands_over N e \<longleftrightarrow> (\<forall>d. e = Deref d \<longrightarrow> (\<forall>rest e' r. parses (Suffix (expr_tree N e)) rest e' r \<longrightarrow> parses Unary (expr_tokens N e @ rest) e' r))"

definition reads_well :: "c_names \<Rightarrow> ir_expr \<Rightarrow> bool" where
  "reads_well N e \<longleftrightarrow> reads_operand N e \<and> reads_whole N e \<and> hands_over N e"

definition reads_args :: "c_names \<Rightarrow> ir_expr list \<Rightarrow> bool" where
  "reads_args N es \<longleftrightarrow> (\<forall>f acc rest e' r. (es = [] \<longrightarrow> acc = []) \<longrightarrow> parses (Suffix (CCall f (acc @ map (expr_tree N) es))) rest e' r \<longrightarrow>
     parses (Arguments f acc) (args_tokens N es @ Sym '')'' # rest) e' r)"

lemma whole_of_operand: "operand e \<Longrightarrow> reads_operand N e \<Longrightarrow> reads_whole N e"
  by (simp add: reads_operand_def reads_whole_def level_ender ender_follow)

lemma group_reads:
  assumes "printable N e" "reads_whole N e" "parses (Suffix (expr_tree N e)) rest e' r"
  shows "parses Unary (Sym ''('' # expr_tokens N e @ Sym '')'' # rest) e' r"
  using assms expr_start_facts [OF expr_start_append [OF expression_start [OF assms(1)]]]
  by (intro unary_group [of _ "expr_tree N e" rest]) (simp_all add: reads_whole_def)

text \<open>A parenthesised prefix operator.\<close>

lemma prefix_reads:
  assumes "printable N e" "reads_whole N e" "parses (Suffix (P (expr_tree N e))) rest e' r" "s \<in> {''*'', ''&''}"
    and "P = (if s = ''*'' then CDeref else CAddr)"
  shows "parses Unary (Sym ''('' # Sym s # Sym ''('' # expr_tokens N e @ Sym '')'' # Sym '')'' # rest) e' r"
proof (rule unary_group)
  have "parses Unary (Sym ''('' # expr_tokens N e @ Sym '')'' # Sym '')'' # rest) (expr_tree N e) (Sym '')'' # rest)"
    by (rule group_reads [OF assms(1,2)]) simp
  then have "parses Unary (Sym s # Sym ''('' # expr_tokens N e @ Sym '')'' # Sym '')'' # rest) (P (expr_tree N e)) (Sym '')'' # rest)"
    using assms(4,5) unary_prefix by auto
  then show "parses (Level 0) (Sym s # Sym ''('' # expr_tokens N e @ Sym '')'' # Sym '')'' # rest) (P (expr_tree N e)) (Sym '')'' # rest)"
    by (rule level_ender) simp_all
qed (use assms(3) in simp_all)

lemma call_reads:
  assumes "reads_args N es" "parses (Suffix (CCall f (map (expr_tree N) es))) rest e' r"
  shows "parses Unary (call_tokens f (args_tokens N es) @ rest) e' r"
  using assms by (simp add: call_tokens_def reads_args_def unary_call)

lemma args_nil: "reads_args N []"
  by (auto simp: reads_args_def arguments_none)

lemma args_cons:
  assumes "printable N e" "reads_whole N e" "reads_args N es"
  shows "reads_args N (e # es)"
  unfolding reads_args_def
proof (intro allI impI)
  fix f acc rest e' r
  assume suffix: "parses (Suffix (CCall f (acc @ map (expr_tree N) (e # es)))) rest e' r"
  have no_paren: "\<not> starts (Sym '')'') (expr_tokens N e @ ts)" for ts
    using expr_start_facts [OF expr_start_append [OF expression_start [OF assms(1)]]] by simp
  show "parses (Arguments f acc) (args_tokens N (e # es) @ Sym '')'' # rest) e' r"
  proof (cases "es = []")
    case True
    then show ?thesis using suffix assms(2) no_paren by (simp add: arguments_last [of _ "expr_tree N e" rest] reads_whole_def)
  next
    case False
    then have "parses (Arguments f (acc @ [expr_tree N e])) (args_tokens N es @ Sym '')'' # rest) e' r" using assms(3) suffix by (simp add: reads_args_def)
    moreover have "parses (Level 0) (expr_tokens N e @ Sym '','' # args_tokens N es @ Sym '')'' # rest) (expr_tree N e) (Sym '','' # args_tokens N es @ Sym '')'' # rest)"
      using assms(2) by (simp add: reads_whole_def)
    ultimately show ?thesis using False arguments_more [OF no_paren] by simp
  qed
qed

lemma function_reads:
  assumes "printable N l" "reads_whole N l" "printable N r" "reads_whole N r" "follow rest"
  shows "parses Unary (call_tokens f (expr_tokens N l @ Sym '','' # expr_tokens N r) @ rest) (CCall f [expr_tree N l, expr_tree N r]) rest"
  using call_reads [of N "[l, r]" f rest] args_cons [OF assms(1,2) args_cons [OF assms(3,4) args_nil]] assms(5) by simp

lemma whole_in_parens:
  assumes "reads_operand N e \<Longrightarrow> reads_whole N e" "\<And>ts. \<not> starts_type (ts_e @ ts)"
    and "\<And>rest. follow rest \<Longrightarrow> parses Unary (ts_e @ rest) tree rest" "follow rest"
  shows "parses Unary (Sym ''('' # ts_e @ Sym '')'' # rest) tree rest"
  by (rule unary_group [of _ tree rest]) (use assms in \<open>simp_all add: level_ender\<close>)

text \<open>Every operator is on one level.\<close>

lemma operator_levels:
  "list_all (\<lambda>(c, s). list_ex (\<lambda>j. s \<in> set (levels ! j) \<and> list_all (\<lambda>i. s \<notin> set (levels ! i)) (filter (\<lambda>i. j < i) [0..<6])) [0..<6] \<and>
     s \<noteq> ''.'' \<and> s \<noteq> ''('') opcode_map"
  by code_simp

lemma opcode_levels:
  assumes "c \<noteq> HashCombineOp" "c \<notin> {StrEqualsOp, StrInListOp, NotLikeTokensOp}"
  shows "\<exists>s j. map_of opcode_map c = Some s \<and> j < 6 \<and> s \<in> set (levels ! j) \<and> (\<forall>i. j < i \<and> i < 6 \<longrightarrow> s \<notin> set (levels ! i)) \<and> s \<notin> {''.'', ''(''} \<and>
    opcode_tokens c ls rs = ls @ Sym s # rs \<and> opcode_tree c l r = CBin s l r"
proof -
  obtain s where s: "map_of opcode_map c = Some s" using assms by (cases c) (auto simp: opcode_map_def)
  then have "(c, s) \<in> set opcode_map" by (rule map_of_SomeD)
  with operator_levels obtain j where "j < 6" "s \<in> set (levels ! j)" "\<forall>i. j < i \<and> i < 6 \<longrightarrow> s \<notin> set (levels ! i)" "s \<notin> {''.'', ''(''}"
    by (fastforce simp: list_all_iff list_ex_iff)
  moreover have "opcode_tokens c ls rs = ls @ Sym s # rs \<and> opcode_tree c l r = CBin s l r" using assms s by (cases c) auto
  ultimately show ?thesis using s by blast
qed

lemma expression_reads:
  "printable N e \<Longrightarrow> reads_well N e"
  "list_all (printable N) es \<Longrightarrow> reads_args N es"
proof (induction N e and N es rule: expr_tokens_args_tokens.induct)
  case (1 N v t)
  have "reads_operand N (VarRef v t)" by (auto simp: reads_operand_def follow_def intro!: unary_word suffix_end)
  then show ?case using whole_of_operand by (simp add: reads_well_def hands_over_def operand_def)
next
  case (2 N c)
  have "parses Unary (Num v # rest) (CNum v) rest" "parses Unary (Lit v # rest) (CString v) rest" if "follow rest" for v rest
    using that by (simp_all add: unary_number unary_string)
  then have "reads_operand N (ConstExpr c)" using 2
    by (cases c) (simp_all add: reads_operand_def signed_tokens_def signed_tree_def unary_prefix)
  then show ?case using whole_of_operand by (simp add: reads_well_def hands_over_def operand_def)
next
  case (3 N f t args)
  then have "reads_operand N (InvokeFct f t args)" by (auto simp: reads_operand_def intro!: call_reads)
  then show ?case using whole_of_operand by (simp add: reads_well_def hands_over_def operand_def)
next
  case (4 N c l r)
  then have lr: "printable N l" "reads_well N l" "printable N r" "reads_well N r" "c \<noteq> HashCombineOp" by simp_all
  show ?case
  proof (cases "c \<in> {StrEqualsOp, StrInListOp, NotLikeTokensOp}")
    case True
    have call: "parses Unary (call_tokens f (expr_tokens N l @ Sym '','' # expr_tokens N r) @ rest) (CCall f [expr_tree N l, expr_tree N r]) rest"
      if "follow rest" for f rest using function_reads lr that by (simp add: reads_well_def)
    have eq: "parses (Level 0) (call_tokens ''strcmp'' (expr_tokens N l @ Sym '','' # expr_tokens N r) @ [Sym ''=='', Num ''0'', Sym '')''] @ rest)
        (CBin ''=='' (CCall ''strcmp'' [expr_tree N l, expr_tree N r]) (CNum ''0'')) (Sym '')'' # rest)" for rest
    proof (rule binary_reads [where j = 2])
      show "parses Unary (call_tokens ''strcmp'' (expr_tokens N l @ Sym '','' # expr_tokens N r) @ [Sym ''=='', Num ''0'', Sym '')''] @ rest)
        (CCall ''strcmp'' [expr_tree N l, expr_tree N r]) (Sym ''=='' # Num ''0'' # Sym '')'' # rest)"
        using call [of "Sym ''=='' # Num ''0'' # Sym '')'' # rest"] by simp
      show "parses Unary (Num ''0'' # Sym '')'' # rest) (CNum ''0'') (Sym '')'' # rest)" by (simp add: unary_number)
      show "\<forall>i. 2 < i \<and> i < 6 \<longrightarrow> ''=='' \<notin> set (levels ! i)"
      proof (intro allI impI)
        fix i :: nat assume "2 < i \<and> i < 6"
        then have "i = 3 \<or> i = 4 \<or> i = 5" by auto
        then show "''=='' \<notin> set (levels ! i)" by (auto simp: levels_def)
      qed
    qed (simp_all add: levels_def)
    have "reads_operand N (Arithmetic c l r)"
      unfolding reads_operand_def
    proof (intro impI allI)
      fix rest assume rest: "follow rest"
      consider "c = StrEqualsOp" | "c = StrInListOp" | "c = NotLikeTokensOp" using True by auto
      then show "parses Unary (expr_tokens N (Arithmetic c l r) @ rest) (expr_tree N (Arithmetic c l r)) rest"
      proof cases
        case 1
        have "\<not> starts_type (call_tokens ''strcmp'' ts @ us)" for ts us by (simp add: call_tokens_def word_no_type)
        then show ?thesis using unary_group [OF _ eq] rest 1 by simp
      qed (use call rest in simp_all)
    qed
    then show ?thesis using whole_of_operand [of "Arithmetic c l r" N] True by (simp add: reads_well_def hands_over_def operand_def)
  next
    case False
    then have op: "operand l" "operand r" using 4 by auto
    obtain s j where s: "map_of opcode_map c = Some s" "j < 6" "s \<in> set (levels ! j)" "\<forall>i. j < i \<and> i < 6 \<longrightarrow> s \<notin> set (levels ! i)" "s \<notin> {''.'', ''(''}"
        "opcode_tokens c (expr_tokens N l) (expr_tokens N r) = expr_tokens N l @ Sym s # expr_tokens N r"
        "opcode_tree c (expr_tree N l) (expr_tree N r) = CBin s (expr_tree N l) (expr_tree N r)"
      using opcode_levels [OF lr(5) False] by metis
    have "reads_whole N (Arithmetic c l r)"
      unfolding reads_whole_def
    proof (intro impI allI)
      fix rest assume rest: "ender rest"
      have "parses Unary (expr_tokens N l @ Sym s # expr_tokens N r @ rest) (expr_tree N l) (Sym s # expr_tokens N r @ rest)"
        using lr(2) op(1) s(5) by (simp add: reads_well_def reads_operand_def)
      moreover have "parses Unary (expr_tokens N r @ rest) (expr_tree N r) rest" using lr(4) op(2) ender_follow [OF rest] by (simp add: reads_well_def reads_operand_def)
      ultimately show "parses (Level 0) (expr_tokens N (Arithmetic c l r) @ rest) (expr_tree N (Arithmetic c l r)) rest"
        using binary_reads [OF _ _ rest s(2,3,4)] s(6,7) by simp
    qed
    then show ?thesis using False by (simp add: reads_well_def hands_over_def reads_operand_def operand_def)
  qed
next
  case (5 N e)
  then have "hands_over N (Deref e)" by (auto simp: hands_over_def reads_well_def intro!: prefix_reads [where P = CDeref])
  moreover from this have "reads_operand N (Deref e)" by (simp add: reads_operand_def hands_over_def)
  ultimately show ?case using whole_of_operand by (simp add: reads_well_def operand_def)
next
  case (6 N e)
  then have "reads_operand N (Ref e)" by (auto simp: reads_operand_def reads_well_def intro!: prefix_reads [where P = CAddr])
  then show ?case using whole_of_operand by (simp add: reads_well_def hands_over_def operand_def)
next
  case (7 N e field)
  then obtain d where "e = Deref d" "hands_over N e" by (auto simp: reads_well_def split: ir_expr.splits)
  then have "reads_operand N (StructAccess e field)" using suffix_member by (simp add: reads_operand_def hands_over_def)
  then show ?case using whole_of_operand by (simp add: reads_well_def hands_over_def operand_def)
next
  case (8 N t e)
  have "reads_operand N (CastTo t e)"
    unfolding reads_operand_def
  proof (intro impI allI)
    fix rest assume rest: "follow rest"
    have "parses Unary (Sym ''('' # expr_tokens N e @ Sym '')'' # Sym '')'' # rest) (expr_tree N e) (Sym '')'' # rest)"
      using 8 by (intro group_reads) (simp_all add: reads_well_def)
    then have "parses Unary (Sym ''('' # type_tokens t @ Sym '')'' # Sym ''('' # expr_tokens N e @ Sym '')'' # Sym '')'' # rest)
        (CCast (c_type_of t) (expr_tree N e)) (Sym '')'' # rest)"
      using 8 type_tokens_start [of t] by (intro unary_cast) (simp_all add: starts_type_append)
    then show "parses Unary (expr_tokens N (CastTo t e) @ rest) (expr_tree N (CastTo t e)) rest"
      using rest by (simp add: unary_group [OF _ level_ender])
  qed
  then show ?case using whole_of_operand by (simp add: reads_well_def hands_over_def operand_def)
next
  case (9 N dest src sz)
  then have "reads_args N [dest, src, sz]" by (intro args_cons args_nil) (simp_all add: reads_well_def)
  then have call: "parses Unary (call_tokens ''memcpy'' (args_tokens N [dest, src, sz]) @ Sym '')'' # rest) (expr_tree N (Memcopy dest src sz)) (Sym '')'' # rest)" for rest
    by (rule call_reads) simp
  have "reads_operand N (Memcopy dest src sz)"
    unfolding reads_operand_def
  proof (intro impI allI)
    fix rest assume rest: "follow rest"
    have "\<not> starts_type (call_tokens ''memcpy'' ts @ us)" for ts us by (simp add: call_tokens_def word_no_type)
    then show "parses Unary (expr_tokens N (Memcopy dest src sz) @ rest) (expr_tree N (Memcopy dest src sz)) rest"
      using unary_group [OF _ level_ender [OF call]] rest by simp
  qed
  then show ?case using whole_of_operand by (simp add: reads_well_def hands_over_def operand_def)
next
  case (10 N) show ?case by (rule args_nil)
next
  case (11 N e es) then show ?case by (cases "es = []") (auto simp: reads_well_def intro!: args_cons args_nil)
qed

end
