(* ===== verification/Subop_Code_Props.thy ===== *)
theory Subop_Code_Props
  imports Subop_Code
begin

text \<open>
  When a suboperator can generate its code (\<open>code_ok\<close>), which IUs it reads and declares, and that what it appends only uses variables
  that are in scope where it is placed.
\<close>

section \<open>What a suboperator needs\<close>

definition reads_ius :: "subop \<Rightarrow> iu list" where
  "reads_ius s = (case kind s of
     TScanIUProvider d \<Rightarrow> [hd (source_ius s)]
   | FuseChunkSourceIUProvider \<Rightarrow> [hd (source_ius s)]
   | ColumnFilterScope deps \<Rightarrow> [hd (source_ius s)]
   | ColumnFilterLogic t self \<Rightarrow> [source_ius s ! 1]
   | Copy \<Rightarrow> [hd (source_ius s)]
   | ExpressionSubop ty \<Rightarrow> source_ius s
   | RuntimeExpressionSubop ty t data \<Rightarrow> if ty = Constant then [] else [hd (source_ius s)]
   | RuntimeKeyExpressionSubop off \<Rightarrow> [source_ius s ! 0, source_ius s ! 1]
   | KeyPackerSubop off \<Rightarrow> [source_ius s ! 0, source_ius s ! 1]
   | KeyUnpackerSubop off \<Rightarrow> [hd (source_ius s)]
   | AggregatorSubop st off \<Rightarrow> [source_ius s ! 0, source_ius s ! 1]
   | AggReaderSubop c off1 off2 \<Rightarrow> [hd (source_ius s)]
   | RuntimeFunctionSubop f args ref out st \<Rightarrow> filter (\<lambda>i. i \<notin> set (provided_ius s)) args
   | FuseChunkSink \<Rightarrow> [hd (source_ius s)]
   | _ \<Rightarrow> [])"

definition declares :: "subop \<Rightarrow> iu list" where
  "declares s = (case kind s of
     ColumnFilterScope deps \<Rightarrow> [] | KeyPackerSubop off \<Rightarrow> [] | AggregatorSubop st off \<Rightarrow> [] | CountingSink \<Rightarrow> [] | FuseChunkSink \<Rightarrow> []
   | HashTableSource ID st \<Rightarrow> hd (provided_ius s) # (if length (provided_ius s) = 2 then [provided_ius s ! 1] else [])
   | RuntimeFunctionSubop f args ref out st \<Rightarrow> provided_ius s
   | _ \<Rightarrow> [hd (provided_ius s)])"

definition opens_control :: "subop \<Rightarrow> bool" where
  "opens_control s = (case kind s of
     TScanDriver n \<Rightarrow> True | FuseChunkSourceDriver \<Rightarrow> True | HashTableSource ID st \<Rightarrow> True | ColumnFilterScope deps \<Rightarrow> True | _ \<Rightarrow> False)"

definition sized :: "irtype \<Rightarrow> bool" where
  "sized t = (case numBytes t of Returns n \<Rightarrow> True | _ \<Rightarrow> False)"

definition known_function :: "string \<Rightarrow> bool" where
  "known_function f \<longleftrightarrow> f \<in> fst ` set runtime_functions"

definition code_ok :: "subop \<Rightarrow> bool" where
  "code_ok s = (case kind s of
     TScanDriver n \<Rightarrow> source_ius s = [] \<and> provided_ius s \<noteq> []
   | FuseChunkSourceDriver \<Rightarrow> source_ius s = [] \<and> provided_ius s \<noteq> []
   | ScratchPadIUProvider \<Rightarrow> source_ius s = [] \<and> provided_ius s \<noteq> [] \<and> sized (iu_type (hd (provided_ius s)))
   | HashTableSource ID st \<Rightarrow> source_ius s = [] \<and> provided_ius s \<noteq> [] \<and> known_function (''ht_'' @ ID @ ''_it_advance'')
   | TScanIUProvider d \<Rightarrow> length (source_ius s) = 1 \<and> provided_ius s \<noteq> []
   | FuseChunkSourceIUProvider \<Rightarrow> length (source_ius s) = 1 \<and> provided_ius s \<noteq> []
   | ColumnFilterScope deps \<Rightarrow> length (source_ius s) = 1 \<and> provided_ius s \<noteq> []
   | ColumnFilterLogic t self \<Rightarrow> length (source_ius s) = 2 \<and> provided_ius s \<noteq> []
   | Copy \<Rightarrow> length (source_ius s) = 1 \<and> provided_ius s \<noteq> []
   | ExpressionSubop ty \<Rightarrow> provided_ius s \<noteq> [] \<and> ty \<noteq> Constant \<and> length (source_ius s) = (if ty = Cast then 1 else 2)
   | RuntimeExpressionSubop ty t data \<Rightarrow> provided_ius s \<noteq> [] \<and> source_ius s \<noteq> [] \<and> ty \<noteq> Cast
   | RuntimeKeyExpressionSubop off \<Rightarrow> provided_ius s \<noteq> [] \<and> 2 \<le> length (source_ius s)
   | KeyPackerSubop off \<Rightarrow> 2 \<le> length (source_ius s)
   | KeyUnpackerSubop off \<Rightarrow> provided_ius s \<noteq> [] \<and> source_ius s \<noteq> []
   | AggregatorSubop st off \<Rightarrow> 2 \<le> length (source_ius s)
   | AggReaderSubop c off1 off2 \<Rightarrow> provided_ius s \<noteq> [] \<and> source_ius s \<noteq> []
   | RuntimeFunctionSubop f args ref out st \<Rightarrow> source_ius s \<noteq> [] \<and> known_function f \<and> set args \<subseteq> set (source_ius s) \<union> set (provided_ius s) \<and>
       list_all (\<lambda>i. i \<in> set (provided_ius s)) (case out of None \<Rightarrow> [] | Some i \<Rightarrow> [i])
   | CountingSink \<Rightarrow> length (source_ius s) = 1 \<and> provided_ius s = []
   | FuseChunkSink \<Rightarrow> length (source_ius s) = 1 \<and> provided_ius s = [] \<and> sized (iu_type (hd (source_ius s))) \<and> iu_type (hd (source_ius s)) \<noteq> ByteArray 0)"

lemma reads_sources: "code_ok s \<Longrightarrow> set (reads_ius s) \<subseteq> set (source_ius s)"
  by (cases "kind s") (auto simp: code_ok_def reads_ius_def Suc_le_eq numeral_2_eq_2 length_Suc_conv intro!: nth_mem)

lemma declares_provided: "code_ok s \<Longrightarrow> set (declares s) \<subseteq> set (provided_ius s)"
  by (cases "kind s") (auto simp: code_ok_def declares_def split: if_splits)

lemma declares_distinct: "distinct (provided_ius s) \<Longrightarrow> distinct (declares s)"
  by (cases "kind s") (auto simp: declares_def nth_eq_iff_index_eq hd_conv_nth numeral_2_eq_2 length_Suc_conv)

section \<open>The runtime state and functions resolve\<close>

definition has_member :: "string \<Rightarrow> string \<Rightarrow> bool" where
  "has_member st f \<longleftrightarrow> (\<exists>ms t. map_of runtime_structs st = Some ms \<and> find (\<lambda>(ty, g). g = f) ms = Some (t, f))"

definition member_of :: "pipeline \<Rightarrow> subop \<Rightarrow> string \<Rightarrow> string \<Rightarrow> ir_expr" where
  "member_of p s st f = StructAccess (Deref (CastTo (Pointer (Struct st (the (map_of runtime_structs st)))) (accessGlobalState p s))) f"

lemma state_member_returns: "has_member st f \<Longrightarrow> state_member p s st f = Returns (member_of p s st f)"
  by (auto simp: has_member_def state_member_def getStruct_def struct_access_def Let_def deref_type_def field_type_def member_of_def)

lemma reads_member: "reads (member_of p s st f) = [GlobalState]"
  by (simp add: member_of_def accessGlobalState_def)

lemma has_members [simp]:
  "has_member ''LoopDriverState'' ''start''" "has_member ''LoopDriverState'' ''end''"
  "has_member ''IndexedIUProviderState'' ''start''" "has_member ''IndexedIUProviderState'' ''type_param''"
  "has_member ''HashTableSourceState'' ''hash_table''" "has_member ''HashTableSourceState'' ''it_ptr_start''"
  "has_member ''HashTableSourceState'' ''it_idx_start''" "has_member ''HashTableSourceState'' ''it_ptr_end''"
  "has_member ''RuntimeFunctionSubopState'' ''this_object''" "has_member ''CountingState'' ''count''"
  "has_member ''FuseChunkSinkState'' ''start''" "has_member ''FuseChunkSinkState'' ''size''"
  "has_member ''RuntimeExpressionState'' ''data_erased''" "has_member ''KeyPackingRuntimeState'' ''offset''"
  "has_member ''KeyPackingRuntimeStateTwo'' ''offset_1''" "has_member ''KeyPackingRuntimeStateTwo'' ''offset_2''"
  by (simp_all add: has_member_def runtime_structs_def)

lemma invoke_returns: "known_function f \<Longrightarrow> invoke f args = Returns (InvokeFct f (the (map_of runtime_functions f)) args)"
  by (auto simp: known_function_def invoke_def getFunction_def dest: weak_map_of_SomeI split: option.splits)

lemma inkfuse_malloc_known [simp]: "known_function ''inkfuse_malloc''"
  by (simp add: known_function_def runtime_functions_def)

section \<open>Every suboperator generates code\<close>

lemma getIUDeclaration_returns: "ds i \<noteq> None \<Longrightarrow> getIUDeclaration ds i = Returns (VarRef (IUVar i) (the (ds i)))"
  by (auto simp: getIUDeclaration_def at_map_def)

lemma param_Resolve_returns: "has_member st f \<Longrightarrow> \<exists>e. param_Resolve p s st f v = Returns e \<and> set (reads e) \<subseteq> {GlobalState}"
  by (cases v) (simp_all add: param_Resolve_def state_member_returns reads_member)

lemma load_offset_returns: "has_member st f \<Longrightarrow> \<exists>e. load_offset p s st f v =
    Returns (VarRef (OpVar (subop_addr s) (''_rt_'' @ f)) (UnsignedInt 2),
      [InRoot (decl_stmt (OpVar (subop_addr s) (''_rt_'' @ f)) (UnsignedInt 2)), InRoot (assign_stmt (OpVar (subop_addr s) (''_rt_'' @ f)) (UnsignedInt 2) e)]) \<and>
    set (reads e) \<subseteq> {GlobalState}"
  using param_Resolve_returns [of st f p s v] by (auto simp: load_offset_def Let_def)

lemma param_ResolveErased_returns:
  "has_member st (f @ ''_erased'') \<Longrightarrow> \<exists>e. param_ResolveErased p s st f t v = Returns e \<and> set (reads e) \<subseteq> {GlobalState}"
  by (cases v) (simp_all add: param_ResolveErased_def state_member_returns reads_member)

lemma map_outcome_decls: "\<forall>i\<in>set is. ds i \<noteq> None \<Longrightarrow> map_outcome (getIUDeclaration ds) is = Returns (map (\<lambda>i. VarRef (IUVar i) (the (ds i))) is)"
  by (rule map_outcome_all) (simp add: getIUDeclaration_returns)

section \<open>Scoping\<close>

fun stmt_reads :: "ir_stmt \<Rightarrow> var list" where
  "stmt_reads (InvokeFctStmt e) = reads e"
| "stmt_reads (ExprStmt e) = reads e"
| "stmt_reads (DeclareStmt v t) = []"
| "stmt_reads (AssignmentStmt l r) = reads l @ reads r"
| "stmt_reads (ReturnStmt e) = reads e"
| "stmt_reads (IfStmt e k else_k) = reads e"
| "stmt_reads (WhileStmt e k) = reads e"

fun stmt_declares :: "ir_stmt \<Rightarrow> var set" where
  "stmt_declares (DeclareStmt v t) = {v}"
| "stmt_declares _ = {}"

fun stmt_block :: "ir_stmt \<Rightarrow> nat option" where
  "stmt_block (IfStmt e k else_k) = Some k"
| "stmt_block (WhileStmt e k) = Some k"
| "stmt_block _ = None"

fun place_vars :: "place \<Rightarrow> var set" where
  "place_vars (InRoot st) = stmt_declares st"
| "place_vars (InCurrent st) = stmt_declares st"

fun root_vars :: "place \<Rightarrow> var set" where
  "root_vars (InRoot st) = stmt_declares st"
| "root_vars (InCurrent st) = {}"

text \<open>\<open>R\<close> are the variables of the root block, \<open>V\<close> all that are visible in the current block; no statement enters a block.\<close>

fun in_scope :: "var set \<Rightarrow> var set \<Rightarrow> place list \<Rightarrow> bool" where
  "in_scope R V [] \<longleftrightarrow> True"
| "in_scope R V (InRoot st # ps) \<longleftrightarrow> stmt_block st = None \<and> set (stmt_reads st) \<subseteq> R \<and> in_scope (R \<union> stmt_declares st) (V \<union> stmt_declares st) ps"
| "in_scope R V (InCurrent st # ps) \<longleftrightarrow> stmt_block st = None \<and> set (stmt_reads st) \<subseteq> V \<and> in_scope R (V \<union> stmt_declares st) ps"

lemma in_scope_append: "in_scope R V (xs @ ys) \<longleftrightarrow> in_scope R V xs \<and> in_scope (R \<union> \<Union>(root_vars ` set xs)) (V \<union> \<Union>(place_vars ` set xs)) ys"
  by (induction R V xs rule: in_scope.induct) (simp_all add: Un_assoc)

text \<open>
  What a suboperator generates, when it is placed where \<open>R\<close> and \<open>V\<close> are visible: it declares its IUs, uses what is in scope, and the loop
  that it opens can be advanced from the root variables.
\<close>

definition step_vars :: "subop \<Rightarrow> var set" where
  "step_vars s = (case kind s of
     TScanDriver n \<Rightarrow> {IUVar (hd (provided_ius s))}
   | FuseChunkSourceDriver \<Rightarrow> {IUVar (hd (provided_ius s))}
   | HashTableSource ID st \<Rightarrow> {IUVar (hd (provided_ius s)), OpVar (subop_addr s) ''_ht'', OpVar (subop_addr s) ''_it_idx''}
   | _ \<Rightarrow> {})"

definition control_ok :: "subop \<Rightarrow> var set \<Rightarrow> (bool \<times> ir_expr) option \<Rightarrow> bool" where
  "control_ok s V ctl = (case ctl of None \<Rightarrow> \<not> opens_control s | Some (is_while, e) \<Rightarrow> opens_control s \<and> set (reads e) \<subseteq> V)"

definition code_fits :: "var set \<Rightarrow> var set \<Rightarrow> subop \<Rightarrow> subop_code \<Rightarrow> bool" where
  "code_fits R V s c \<longleftrightarrow> map fst (declared_ius c) = declares s \<and> in_scope R V (statements c) \<and>
     IUVar ` set (declares s) \<subseteq> \<Union>(place_vars ` set (statements c)) \<and> control_ok s (V \<union> \<Union>(place_vars ` set (statements c))) (opens c) \<and>
     step_vars s \<subseteq> \<Union>(root_vars ` set (statements c))"

definition generates :: "subop_code outcome \<Rightarrow> var set \<Rightarrow> var set \<Rightarrow> subop \<Rightarrow> bool" where
  "generates m R V s \<longleftrightarrow> (\<exists>c. m = Returns c \<and> code_fits R V s c)"

lemma generatesI: "m = Returns c \<Longrightarrow> code_fits R V s c \<Longrightarrow> generates m R V s"
  by (auto simp: generates_def)

lemmas fits_simps = code_fits_def control_ok_def step_vars_def opens_control_def declares_def decl_stmt_def assign_stmt_def

lemma fits_source:
  assumes "GlobalState \<in> R" "R \<subseteq> V"
  shows "kind s = TScanDriver n \<or> kind s = FuseChunkSourceDriver \<Longrightarrow> generates (LoopDriver_code p s) R V s"
    and "kind s = ScratchPadIUProvider \<Longrightarrow> code_ok s \<Longrightarrow> generates (ScratchPad_code s) R V s"
    and "kind s = HashTableSource ID st \<Longrightarrow> generates (HashTableSource_code p s) R V s"
  using assms
  by (auto simp: generates_def LoopDriver_code_def ScratchPad_code_def HashTableSource_code_def Let_def state_member_returns invoke_returns
      fits_simps reads_member code_ok_def sized_def split: outcome.splits)

lemma fits_provider:
  assumes "GlobalState \<in> R" "R \<subseteq> V" "ds (hd (source_ius s)) \<noteq> None" "IUVar (hd (source_ius s)) \<in> V"
    and "kind s = TScanIUProvider d \<or> kind s = FuseChunkSourceIUProvider"
  shows "generates (IndexedIUProvider_code p tp ds s) R V s"
proof -
  obtain e where "param_Resolve p s ''IndexedIUProviderState'' ''type_param'' tp = Returns e" "set (reads e) \<subseteq> {GlobalState}"
    using param_Resolve_returns [of "''IndexedIUProviderState''" "''type_param''" p s tp] by auto
  then show ?thesis using assms
    by (auto simp: generates_def IndexedIUProvider_code_def Let_def state_member_returns getIUDeclaration_returns fits_simps reads_member split: irtype.splits)
qed

lemma fits_column:
  assumes "code_ok s" "\<forall>i\<in>set (reads_ius s). ds i \<noteq> None \<and> IUVar i \<in> V"
  shows "kind s = ColumnFilterScope deps \<Longrightarrow> generates (ColumnFilterScope_code ds s) R V s"
    and "kind s = ColumnFilterLogic t self \<Longrightarrow> generates (ColumnFilterLogic_code ds s) R V s"
    and "kind s = Copy \<Longrightarrow> generates (Copy_code ds s) R V s"
  using assms
  by (auto simp: generates_def ColumnFilterScope_code_def ColumnFilterLogic_code_def Copy_code_def copy_code_def reads_ius_def
      getIUDeclaration_returns fits_simps)

lemma code_map_returns: "ty \<noteq> Cast \<Longrightarrow> ty \<noteq> Constant \<Longrightarrow> \<exists>c. code_map ty = Returns c"
  by (cases ty) (simp_all add: code_map_def)

lemma fits_expression:
  assumes "code_ok s" "\<forall>i\<in>set (reads_ius s). ds i \<noteq> None \<and> IUVar i \<in> V" "kind s = ExpressionSubop ty"
  shows "generates (ExpressionSubop_code ds s ty) R V s"
proof -
  have ch: "map_outcome (getIUDeclaration ds) (source_ius s) = Returns (map (\<lambda>i. VarRef (IUVar i) (the (ds i))) (source_ius s))"
    using assms by (intro map_outcome_decls) (simp add: reads_ius_def)
  show ?thesis
  proof (cases "ty = Cast")
    case True
    then show ?thesis using assms
      by (intro generatesI) (auto simp: ExpressionSubop_code_def Let_def ch code_ok_def reads_ius_def fits_simps length_Suc_conv)
  next
    case False
    then obtain c where c: "code_map ty = Returns c" using code_map_returns assms(1,3) by (auto simp: code_ok_def)
    obtain x y where "source_ius s = [x, y]" using assms(1,3) False by (auto simp: code_ok_def numeral_2_eq_2 length_Suc_conv)
    then show ?thesis using assms False ch
      by (intro generatesI) (auto simp: ExpressionSubop_code_def Let_def c reads_ius_def fits_simps)
  qed
qed

lemma fits_runtime_expression:
  assumes "code_ok s" "GlobalState \<in> R" "R \<subseteq> V" "\<forall>i\<in>set (reads_ius s). ds i \<noteq> None \<and> IUVar i \<in> V"
  shows "kind s = RuntimeExpressionSubop ty t data \<Longrightarrow> generates (RuntimeExpressionSubop_code p ds s ty u v) R V s"
    and "kind s = RuntimeKeyExpressionSubop off \<Longrightarrow> generates (RuntimeKeyExpressionSubop_code p inline ds s off') R V s"
proof -
  assume k: "kind s = RuntimeExpressionSubop ty t data"
  obtain e where e: "param_ResolveErased p s ''RuntimeExpressionState'' ''data'' u v = Returns e" "set (reads e) \<subseteq> {GlobalState}"
    using param_ResolveErased_returns [of "''RuntimeExpressionState''" "''data''" p s u v] by auto
  show "generates (RuntimeExpressionSubop_code p ds s ty u v) R V s"
  proof (cases "ty = Constant")
    case True
    then show ?thesis using assms e k by (intro generatesI) (auto simp: RuntimeExpressionSubop_code_def Let_def fits_simps)
  next
    case False
    then obtain c where c: "code_map ty = Returns c" using code_map_returns assms(1) k by (auto simp: code_ok_def)
    show ?thesis using assms e k False
      by (intro generatesI) (auto simp: RuntimeExpressionSubop_code_def Let_def c reads_ius_def fits_simps getIUDeclaration_returns)
  qed
next
  assume k: "kind s = RuntimeKeyExpressionSubop off"
  obtain e where "param_Resolve p s ''KeyPackingRuntimeState'' ''offset'' (offset_param inline off') = Returns e" "set (reads e) \<subseteq> {GlobalState}"
    using param_Resolve_returns [of "''KeyPackingRuntimeState''" "''offset''"] by fastforce
  moreover from this(2) have "set (reads e) \<subseteq> V" using assms(2,3) by blast
  ultimately show "generates (RuntimeKeyExpressionSubop_code p inline ds s off') R V s" using assms k
    by (intro generatesI) (auto simp: RuntimeKeyExpressionSubop_code_def Let_def reads_ius_def fits_simps getIUDeclaration_returns)
qed

lemma fits_row:
  assumes "code_ok s" "GlobalState \<in> R" "R \<subseteq> V" "\<forall>i\<in>set (reads_ius s). ds i \<noteq> None \<and> IUVar i \<in> V"
  shows "kind s = KeyPackerSubop off \<Longrightarrow> generates (KeyPackerSubop_code p inline ds s off') R V s"
    and "kind s = KeyUnpackerSubop off \<Longrightarrow> generates (KeyUnpackerSubop_code p inline ds s off') R V s"
    and "kind s = AggregatorSubop st off \<Longrightarrow> generates (AggregatorSubop_code p inline ds s st off') R V s"
proof -
  obtain e where e: "load_offset p s ''KeyPackingRuntimeState'' ''offset'' (offset_param inline off') =
      Returns (VarRef (OpVar (subop_addr s) (''_rt_'' @ ''offset'')) (UnsignedInt 2),
        [InRoot (decl_stmt (OpVar (subop_addr s) (''_rt_'' @ ''offset'')) (UnsignedInt 2)),
         InRoot (assign_stmt (OpVar (subop_addr s) (''_rt_'' @ ''offset'')) (UnsignedInt 2) e)])" "set (reads e) \<subseteq> {GlobalState}"
    using load_offset_returns [of "''KeyPackingRuntimeState''" "''offset''"] by fastforce
  show "kind s = KeyPackerSubop off \<Longrightarrow> generates (KeyPackerSubop_code p inline ds s off') R V s"
    using assms e by (auto simp: generates_def KeyPackerSubop_code_def packInto_def reads_ius_def fits_simps getIUDeclaration_returns)
  show "kind s = KeyUnpackerSubop off \<Longrightarrow> generates (KeyUnpackerSubop_code p inline ds s off') R V s"
    using assms e by (auto simp: generates_def KeyUnpackerSubop_code_def Let_def unpackFrom_def reads_ius_def fits_simps getIUDeclaration_returns)
  show "kind s = AggregatorSubop st off \<Longrightarrow> generates (AggregatorSubop_code p inline ds s st off') R V s"
    using assms e by (auto simp: generates_def AggregatorSubop_code_def Let_def granule_pointer_def updateState_def reads_ius_def fits_simps
        getIUDeclaration_returns split: agg_state.splits)
qed

lemma granule_pointer_returns:
  "granule_pointer v (VarRef i t) (VarRef o_v u) =
     Returns (VarRef v t, [InCurrent (decl_stmt v t), InCurrent (assign_stmt v t (Arithmetic AddOp (VarRef i t) (VarRef o_v u)))])"
  if "\<not> isComparison AddOp" for v i t o_v u
  using that by (simp add: granule_pointer_def Let_def deriveType_def)

lemma fits_reader:
  assumes "code_ok s" "GlobalState \<in> R" "R \<subseteq> V" "\<forall>i\<in>set (reads_ius s). ds i \<noteq> None \<and> IUVar i \<in> V" "kind s = AggReaderSubop c off1 off2"
  shows "generates (AggReaderSubop_code p inline ds s c o1 o2) R V s"
proof -
  let ?st = "''KeyPackingRuntimeStateTwo''"
  let ?v1 = "OpVar (subop_addr s) (''_rt_'' @ ''offset_1'')" and ?v2 = "OpVar (subop_addr s) (''_rt_'' @ ''offset_2'')"
  obtain e1 where e1: "load_offset p s ?st ''offset_1'' (offset_param inline o1) = Returns (VarRef ?v1 (UnsignedInt 2),
      [InRoot (decl_stmt ?v1 (UnsignedInt 2)), InRoot (assign_stmt ?v1 (UnsignedInt 2) e1)])" "set (reads e1) \<subseteq> {GlobalState}"
    using load_offset_returns [of ?st "''offset_1''"] by fastforce
  obtain e2 where e2: "load_offset p s ?st ''offset_2'' (case o2 of None \<Rightarrow> None | Some k \<Rightarrow> offset_param inline k) = Returns (VarRef ?v2 (UnsignedInt 2),
      [InRoot (decl_stmt ?v2 (UnsignedInt 2)), InRoot (assign_stmt ?v2 (UnsignedInt 2) e2)])" "set (reads e2) \<subseteq> {GlobalState}"
    using load_offset_returns [of ?st "''offset_2''"] by fastforce
  have r: "ds (hd (source_ius s)) \<noteq> None" "IUVar (hd (source_ius s)) \<in> V" "\<not> isComparison AddOp"
    using assms(4,5) by (simp_all add: reads_ius_def isComparison_def)
  have g: "set (reads e1) \<subseteq> R" "set (reads e2) \<subseteq> R" using e1(2) e2(2) assms(2) by auto
  then have h: "set (reads e1) \<subseteq> V" "set (reads e2) \<subseteq> V" using assms(3) by auto
  show ?thesis
  proof (cases c)
    case (AggComputeUnpack t)
    then show ?thesis using assms(3,5) r g h
      by (intro generatesI) (auto simp: AggReaderSubop_code_def Let_def e1(1) e2(1) granule_pointer_returns getIUDeclaration_returns
          agg_compute_stmt_def unpackFrom_def fits_simps)
  next
    case (AggComputeAvg t)
    then show ?thesis using assms(3,5) r g h
      by (intro generatesI) (auto simp: AggReaderSubop_code_def Let_def e1(1) e2(1) granule_pointer_returns getIUDeclaration_returns
          agg_compute_stmt_def fits_simps)
  qed
qed

lemma add_decls_lookup: "add_decls new ds i = None \<longleftrightarrow> i \<notin> fst ` set new \<and> ds i = None"
  by (induction new arbitrary: ds rule: rev_induct) (force simp: add_decls_def split: if_splits)+

lemma fits_function:
  assumes "code_ok s" "GlobalState \<in> R" "R \<subseteq> V" "\<forall>i\<in>set (reads_ius s). ds i \<noteq> None \<and> IUVar i \<in> V" "kind s = RuntimeFunctionSubop f args ref out st"
  shows "generates (RuntimeFunctionSubop_code p ds s f args ref out) R V s"
proof -
  let ?outs = "map (\<lambda>i. (i, iu_type i)) (provided_ius s)" and ?P = "set (provided_ius s)"
  let ?ds = "add_decls ?outs ds"
  let ?e = "\<lambda>(i, by_ref). let e = VarRef (IUVar i) (the (?ds i)); a = (if by_ref then CastTo (Pointer CharT) (Ref e) else e) in if i \<in> ?P then Ref a else a"
  have d: "?ds i \<noteq> None" "i \<in> ?P \<or> IUVar i \<in> V" if "i \<in> set args" for i
    using add_decls_lookup [of ?outs ds i] assms(4,5) that by (auto simp: reads_ius_def image_iff)
  have "function_arg ?ds (provided_ius s) x = Returns (?e x)" if "x \<in> set (zip args ref)" for x
    using d(1) that by (cases x) (auto simp: function_arg_def getIUDeclaration_returns Let_def dest: set_zip_leftD)
  then have m: "map_outcome (function_arg ?ds (provided_ius s)) (zip args ref) = Returns (map ?e (zip args ref))"
    by (rule map_outcome_all)
  have rd: "set (reads (?e x)) \<subseteq> V \<union> IUVar ` ?P" if "x \<in> set (zip args ref)" for x
    using d(2) that by (cases x) (auto simp: Let_def dest: set_zip_leftD)
  define call where "call = InvokeFct f (the (map_of runtime_functions f)) (member_of p s ''RuntimeFunctionSubopState'' ''this_object'' # map ?e (zip args ref))"
  have cr: "set (reads call) \<subseteq> V \<union> IUVar ` ?P" using rd assms(2,3) by (auto simp: call_def reads_member)
  define st where "st = (case out of None \<Rightarrow> InvokeFctStmt call | Some i \<Rightarrow> assign_stmt (IUVar i) (iu_type i) call)"
  have sr: "set (stmt_reads st) \<subseteq> V \<union> IUVar ` ?P" using cr assms(1,5) by (cases out) (auto simp: st_def assign_stmt_def code_ok_def)
  have sb: "stmt_block st = None" by (cases out) (simp_all add: st_def assign_stmt_def)
  have "known_function f" using assms(1,5) by (simp add: code_ok_def)
  then have c: "RuntimeFunctionSubop_code p ds s f args ref out =
      Returns (plain ?outs (map InCurrent (map (\<lambda>(i, t). decl_stmt (IUVar i) t) ?outs @ [st])))"
    using assms(1,5) by (cases out)
      (simp_all add: RuntimeFunctionSubop_code_def Let_def state_member_returns m invoke_returns st_def call_def code_ok_def)
  have v: "\<Union>(place_vars ` set (map InCurrent (map (\<lambda>(i, t). decl_stmt (IUVar i) t) ?outs))) = IUVar ` ?P"
    by (auto simp: decl_stmt_def)
  have ds: "in_scope R W (map InCurrent (map (\<lambda>(i, t). decl_stmt (IUVar i) t) xs))" for W and xs :: "(iu \<times> irtype) list"
    by (induction xs arbitrary: W) (auto simp: decl_stmt_def)
  have "in_scope R V (map InCurrent (map (\<lambda>(i, t). decl_stmt (IUVar i) t) ?outs @ [st]))"
    unfolding map_append in_scope_append v by (rule conjI [OF ds]) (use sr sb in simp)
  then show ?thesis using v assms(5)
    by (intro generatesI [OF c]) (auto simp: fits_simps comp_def image_iff)
qed

lemma fits_sink:
  assumes "code_ok s" "GlobalState \<in> R" "R \<subseteq> V" "\<forall>i\<in>set (reads_ius s). ds i \<noteq> None \<and> IUVar i \<in> V"
  shows "kind s = CountingSink \<Longrightarrow> generates (CountingSink_code p s) R V s"
    and "kind s = FuseChunkSink \<Longrightarrow> generates (FuseChunkSink_code p ds s) R V s"
  using assms
  by (auto simp: generates_def CountingSink_code_def FuseChunkSink_code_def Let_def state_member_returns getIUDeclaration_returns reads_ius_def
      fits_simps reads_member code_ok_def sized_def split: outcome.splits irtype.splits)

theorem op_code_generates:
  assumes "code_ok s" "GlobalState \<in> R" "R \<subseteq> V" "\<forall>i\<in>set (reads_ius s). ds i \<noteq> None \<and> IUVar i \<in> V"
  shows "generates (op_code p inline tp ds s) R V s"
proof (cases "kind s")
  case (TScanDriver n) then show ?thesis using fits_source(1) [OF assms(2,3)] by (simp add: op_code_def)
next
  case FuseChunkSourceDriver then show ?thesis using fits_source(1) [OF assms(2,3)] by (simp add: op_code_def)
next
  case ScratchPadIUProvider then show ?thesis using fits_source(2) [OF assms(2,3)] assms(1) by (simp add: op_code_def)
next
  case (HashTableSource ID st) then show ?thesis using fits_source(3) [OF assms(2,3)] by (simp add: op_code_def)
next
  case (TScanIUProvider d) then show ?thesis using fits_provider [OF assms(2,3)] assms(4) by (simp add: op_code_def reads_ius_def)
next
  case FuseChunkSourceIUProvider then show ?thesis using fits_provider [OF assms(2,3)] assms(4) by (simp add: op_code_def reads_ius_def)
next
  case (ColumnFilterScope deps) then show ?thesis using fits_column(1) [OF assms(1,4)] by (simp add: op_code_def)
next
  case (ColumnFilterLogic t self) then show ?thesis using fits_column(2) [OF assms(1,4)] by (simp add: op_code_def)
next
  case Copy then show ?thesis using fits_column(3) [OF assms(1,4)] by (simp add: op_code_def)
next
  case (ExpressionSubop ty) then show ?thesis using fits_expression [OF assms(1,4)] by (simp add: op_code_def)
next
  case (RuntimeExpressionSubop ty t data) then show ?thesis using fits_runtime_expression(1) [OF assms] by (simp add: op_code_def)
next
  case (RuntimeKeyExpressionSubop off) then show ?thesis using fits_runtime_expression(2) [OF assms] by (simp add: op_code_def)
next
  case (KeyPackerSubop off) then show ?thesis using fits_row(1) [OF assms] by (simp add: op_code_def)
next
  case (KeyUnpackerSubop off) then show ?thesis using fits_row(2) [OF assms] by (simp add: op_code_def)
next
  case (AggregatorSubop st off) then show ?thesis using fits_row(3) [OF assms] by (simp add: op_code_def)
next
  case (AggReaderSubop c off1 off2) then show ?thesis using fits_reader [OF assms] by (simp add: op_code_def)
next
  case (RuntimeFunctionSubop f args ref out st) then show ?thesis using fits_function [OF assms] by (simp add: op_code_def)
next
  case CountingSink then show ?thesis using fits_sink(1) [OF assms] by (simp add: op_code_def)
next
  case FuseChunkSink then show ?thesis using fits_sink(2) [OF assms] by (simp add: op_code_def)
qed

end
