(* ===== verification/C_Statements.thy ===== *)
theory C_Statements
  imports C_Parsing Subop_Code_Props
begin

text \<open>Printing and parsing statements, blocks and functions: the structure of the text is that of the blocks of the representation.\<close>

section \<open>Meaning of statements\<close>

fun plain_tree :: "c_names \<Rightarrow> ir_stmt \<Rightarrow> c_stmt" where
  "plain_tree N (DeclareStmt v t) = CDecl (c_type_of t) (var_name N v)"
| "plain_tree N (AssignmentStmt l e) = CAssign (expr_tree N l) (expr_tree N e)"
| "plain_tree N (ReturnStmt e) = CReturn (expr_tree N e)"
| "plain_tree N (InvokeFctStmt e) = CExpr (expr_tree N e)"
| "plain_tree N (ExprStmt e) = CExpr (expr_tree N e)"
| "plain_tree N (IfStmt e k else_k) = CIf (expr_tree N e) [] []"
| "plain_tree N (WhileStmt e k) = CWhile (expr_tree N e) []"

inductive block_tree :: "c_names \<Rightarrow> ir_stmt list list \<Rightarrow> ir_stmt list \<Rightarrow> c_stmt list \<Rightarrow> bool" for N bs where
  no_statement: "block_tree N bs [] []"
| plain_statement: "stmt_block st = None \<Longrightarrow> block_tree N bs ss ts \<Longrightarrow> block_tree N bs (st # ss) (plain_tree N st # ts)"
| while_statement: "block_tree N bs (bs ! k) us \<Longrightarrow> block_tree N bs ss ts \<Longrightarrow> block_tree N bs (WhileStmt e k # ss) (CWhile (expr_tree N e) us # ts)"
| if_statement: "block_tree N bs (bs ! k) us \<Longrightarrow> block_tree N bs (bs ! else_k) vs \<Longrightarrow> block_tree N bs ss ts \<Longrightarrow>
    block_tree N bs (IfStmt e k else_k # ss) (CIf (expr_tree N e) us vs # ts)"

fun printable_stmt :: "c_names \<Rightarrow> ir_stmt \<Rightarrow> bool" where
  "printable_stmt N (DeclareStmt v t) = (type_ok t \<and> is_word (var_name N v))"
| "printable_stmt N (AssignmentStmt l e) = (printable N l \<and> printable N e)"
| "printable_stmt N (ReturnStmt e) = printable N e"
| "printable_stmt N (InvokeFctStmt e) = printable N e"
| "printable_stmt N (ExprStmt e) = printable N e"
| "printable_stmt N (IfStmt e k else_k) = printable N e"
| "printable_stmt N (WhileStmt e k) = printable N e"

section \<open>What is written\<close>

definition lexes_line :: "string \<Rightarrow> token list \<Rightarrow> bool" where
  "lexes_line t ts \<longleftrightarrow> (\<forall>rest. lex (t @ rest) = ts @ lex rest)"

definition writes :: "(writer \<Rightarrow> writer outcome) \<Rightarrow> token list \<Rightarrow> bool" where
  "writes f ts \<longleftrightarrow> (\<forall>w. \<exists>t. f w = Returns (w\<lparr> stream := stream w @ t \<rparr>) \<and> lexes_line t ts)"

lemma lex_indent [simp]: "lex (replicate n (CHR '' '') @ cs) = lex cs"
  by (induction n) auto

lemma stmt_writes:
  assumes "lexes t ts"
  shows "writes (\<lambda>w. Returns (stmt semicolon t w)) (ts @ (if semicolon then [Sym '';''] else []))"
  unfolding writes_def
proof
  fix w
  let ?t = "indent_string w @ t @ (if semicolon then '';'' @ newline else newline)"
  have "lexes_line ?t (ts @ (if semicolon then [Sym '';''] else []))"
    using assms by (simp add: lexes_line_def indent_string_def newline_def lexes_def)
  then show "\<exists>u. Returns (stmt semicolon t w) = Returns (w\<lparr> stream := stream w @ u \<rparr>) \<and> lexes_line u (ts @ (if semicolon then [Sym '';''] else []))"
    by (intro exI [of _ ?t]) (simp add: stmt_def put_def)
qed

lemma block_writes:
  assumes "writes body ts"
  shows "writes (block body) (Sym ''{'' # ts @ [Sym ''}''])"
  unfolding writes_def
proof
  fix w
  let ?w = "(put (indent_string w @ ''{'' @ newline) w)\<lparr> indent_level := indent_level w + 4 \<rparr>"
  obtain t where t: "body ?w = Returns (?w\<lparr> stream := stream ?w @ t \<rparr>)" "lexes_line t ts" using assms unfolding writes_def by blast
  let ?t = "indent_string w @ ''{'' @ newline @ t @ indent_string w @ ''}'' @ newline"
  have "block body w = Returns (w\<lparr> stream := stream w @ ?t \<rparr>)"
    using t(1) by (simp add: block_def put_def Let_def indent_string_def)
  moreover have "lexes_line ?t (Sym ''{'' # ts @ [Sym ''}''])"
    using t(2) by (simp add: lexes_line_def indent_string_def newline_def)
  ultimately show "\<exists>t. block body w = Returns (w\<lparr> stream := stream w @ t \<rparr>) \<and> lexes_line t (Sym ''{'' # ts @ [Sym ''}''])" by blast
qed

lemma seq_writes: "writes f ts \<Longrightarrow> writes g us \<Longrightarrow> writes (\<lambda>w. obind (f w) g) (ts @ us)"
  unfolding writes_def
proof
  fix w assume f: "\<forall>w. \<exists>t. f w = Returns (w\<lparr> stream := stream w @ t \<rparr>) \<and> lexes_line t ts"
    and g: "\<forall>w. \<exists>t. g w = Returns (w\<lparr> stream := stream w @ t \<rparr>) \<and> lexes_line t us"
  obtain t where t: "f w = Returns (w\<lparr> stream := stream w @ t \<rparr>)" "lexes_line t ts" using f by blast
  obtain u where u: "g (w\<lparr> stream := stream w @ t \<rparr>) = Returns (w\<lparr> stream := (stream w @ t) @ u \<rparr>)" "lexes_line u us"
    using g [rule_format, of "w\<lparr> stream := stream w @ t \<rparr>"] by auto
  have "obind (f w) g = Returns (w\<lparr> stream := stream w @ t @ u \<rparr>)" using t(1) u(1) by simp
  moreover have "lexes_line (t @ u) (ts @ us)" using t(2) u(2) by (simp add: lexes_line_def)
  ultimately show "\<exists>t. obind (f w) g = Returns (w\<lparr> stream := stream w @ t \<rparr>) \<and> lexes_line t (ts @ us)" by blast
qed

lemma nothing_written: "writes Returns []"
  unfolding writes_def lexes_line_def by (intro allI exI [of _ "[]"]) simp

lemma writes_eq: "writes g ts \<Longrightarrow> (\<And>w. f w = g w) \<Longrightarrow> writes f ts"
  by (simp add: writes_def)

lemma keyword_lexes:
  assumes "w \<in> {''while'', ''if''}" "lexes t ts"
  shows "lexes (w @ '' ('' @ t @ '')'') (Word w # Sym ''('' # ts @ [Sym '')''])"
proof -
  have w: "lexes w [Word w]" using assms(1) by (auto intro!: lexes_word simp: char_class_defs of_char_def)
  have "lex (w @ CHR '' '' # cs) = Word w # lex cs" for cs using lexesD [OF w, of "CHR '' '' # cs"] by simp
  then show ?thesis using assms(2) by (simp add: lexes_def)
qed

lemma else_lexes: "lexes ''else'' [Word ''else'']"
  by (rule lexes_word) (simp_all add: char_class_defs of_char_def)

lemma return_lexes: "lexes t ts \<Longrightarrow> lexes (''return '' @ t) (Word ''return'' # ts)"
proof -
  assume t: "lexes t ts"
  have r: "lexes ''return'' [Word ''return'']" by (rule lexes_word) (simp_all add: char_class_defs of_char_def)
  have "lex (''return '' @ cs) = Word ''return'' # lex cs" for cs using lexesD [OF r, of "CHR '' '' # cs"] by simp
  then show ?thesis using t by (simp add: lexes_def)
qed

lemma assign_lexes: "lexes l ls \<Longrightarrow> lexes e es \<Longrightarrow> lexes (l @ '' = '' @ e) (ls @ Sym ''='' # es)"
  by (simp add: lexes_def)

lemma declare_lexes: "lexes d ds \<Longrightarrow> lexes v vs \<Longrightarrow> lexes (d @ '' '' @ v) (ds @ vs)"
  by (simp add: lexes_def)

section \<open>Statements are read back\<close>

text \<open>The tokens of a statement, with those of its blocks.\<close>

definition reads_stmt :: "token list \<Rightarrow> c_stmt \<Rightarrow> bool" where
  "reads_stmt ts s \<longleftrightarrow> (\<forall>rest. \<not> starts (Word ''else'') rest \<longrightarrow> (\<exists>n. \<forall>m\<ge>n. parse_stmt m (parse_stmts m) (ts @ rest) = Some (s, rest)))"

definition reads_stmts :: "token list \<Rightarrow> c_stmt list \<Rightarrow> bool" where
  "reads_stmts ts ss \<longleftrightarrow> (\<forall>rest. \<exists>n. \<forall>m\<ge>n. parse_stmts m (ts @ Sym ''}'' # rest) = Some (ss, Sym ''}'' # rest))"

definition stmt_start :: "token list \<Rightarrow> bool" where
  "stmt_start ts \<longleftrightarrow> (case ts of [] \<Rightarrow> False | t # rest \<Rightarrow> t \<noteq> Word ''else'' \<and> t \<noteq> Sym ''}'')"

lemma stmt_start_append: "stmt_start xs \<Longrightarrow> stmt_start (xs @ ys) \<and> \<not> starts (Word ''else'') (xs @ ys) \<and> \<not> starts (Sym ''}'') (xs @ ys)"
  by (cases xs) (auto simp: stmt_start_def)

lemma reads_nothing: "reads_stmts [] []"
proof -
  have "\<forall>m\<ge>1. parse_stmts m (Sym ''}'' # rest) = Some ([], Sym ''}'' # rest)" for rest
    by (metis Suc_le_D One_nat_def append_Nil starts_simps(2) parse_stmts.simps(2))
  then show ?thesis unfolding reads_stmts_def append_Nil by blast
qed

lemma reads_cons:
  assumes "reads_stmt ts s" "reads_stmts us ss" "stmt_start ts" "us = [] \<or> stmt_start us"
  shows "reads_stmts (ts @ us) (s # ss)"
  unfolding reads_stmts_def
proof
  fix rest
  let ?r = "us @ Sym ''}'' # rest"
  have "\<not> starts (Word ''else'') ?r" using assms(4) stmt_start_append by auto
  then obtain n where n: "\<forall>m\<ge>n. parse_stmt m (parse_stmts m) (ts @ ?r) = Some (s, ?r)" using assms(1) unfolding reads_stmt_def by blast
  obtain n' where n': "\<forall>m\<ge>n'. parse_stmts m ?r = Some (ss, Sym ''}'' # rest)" using assms(2) unfolding reads_stmts_def by blast
  have "\<not> starts (Sym ''}'') (ts @ ?r)" using stmt_start_append [OF assms(3)] by blast
  then have "parse_stmts (Suc m) (ts @ ?r) = Some (s # ss, Sym ''}'' # rest)" if "m \<ge> max n n'" for m using n n' that by simp
  then have "\<forall>m\<ge>Suc (max n n'). parse_stmts m (ts @ ?r) = Some (s # ss, Sym ''}'' # rest)" by (metis Suc_le_D Suc_le_mono)
  then show "\<exists>n. \<forall>m\<ge>n. parse_stmts m ((ts @ us) @ Sym ''}'' # rest) = Some (s # ss, Sym ''}'' # rest)" by auto
qed

lemma starts_append: "xs \<noteq> [] \<Longrightarrow> starts t (xs @ ys) = starts t xs"
  by (cases xs) simp_all

lemma type_start_stmt: "starts_type ts \<Longrightarrow> stmt_start ts \<and> (\<forall>w\<in>{''while'', ''if'', ''return''}. \<not> starts (Word w) ts)"
  by (cases ts) (auto simp: starts_type_def stmt_start_def type_words_def word_def split: token.splits)

lemma expr_start_stmt: "expr_start ts \<Longrightarrow> stmt_start ts \<and> (\<forall>w\<in>{''while'', ''if'', ''return''}. \<not> starts (Word w) ts) \<and> \<not> starts_type ts"
  using expr_start_facts [of ts]
  by (cases ts) (auto simp: expr_start_def stmt_start_def is_word_def reserved_words_def split: token.splits)

lemma whole_at: "printable N e \<Longrightarrow> ender rest \<Longrightarrow> \<exists>n. \<forall>m\<ge>n. parse m (Level 0) (expr_tokens N e @ rest) = Some (expr_tree N e, rest)"
  using expression_reads(1) unfolding reads_well_def reads_whole_def parses_def by blast

lemma declare_reads:
  assumes "type_ok t" "is_word v"
  shows "reads_stmt (type_tokens t @ [Word v, Sym '';'']) (CDecl (c_type_of t) v)" "stmt_start (type_tokens t @ ts)"
proof -
  have st: "starts_type (type_tokens t @ ts)" for ts using type_tokens_start [OF assms(1)] by (simp add: starts_type_append)
  show "stmt_start (type_tokens t @ ts)" using type_start_stmt [OF st] by simp
  have "parse_stmt m stmts (type_tokens t @ Word v # Sym '';'' # rest) = Some (CDecl (c_type_of t) v, rest)" for m stmts rest
    using type_start_stmt [OF st] st assms(1) by (simp add: parse_stmt_def)
  then show "reads_stmt (type_tokens t @ [Word v, Sym '';'']) (CDecl (c_type_of t) v)" by (simp add: reads_stmt_def)
qed

lemma expr_stmt_reads: "printable N e \<Longrightarrow> reads_stmt (expr_tokens N e @ [Sym '';'']) (CExpr (expr_tree N e))"
  unfolding reads_stmt_def
proof (intro allI impI)
  fix rest assume e: "printable N e"
  obtain n where n: "\<forall>m\<ge>n. parse m (Level 0) (expr_tokens N e @ Sym '';'' # rest) = Some (expr_tree N e, Sym '';'' # rest)"
    using whole_at [OF e] by fastforce
  have "expr_start (expr_tokens N e @ Sym '';'' # rest)" using expression_start [OF e] by (rule expr_start_append)
  from expr_start_stmt [OF this] have "parse_stmt m stmts (expr_tokens N e @ Sym '';'' # rest) = Some (CExpr (expr_tree N e), rest)" if "m \<ge> n" for m stmts
    using n that by (simp add: parse_stmt_def)
  then show "\<exists>n. \<forall>m\<ge>n. parse_stmt m (parse_stmts m) ((expr_tokens N e @ [Sym '';'']) @ rest) = Some (CExpr (expr_tree N e), rest)" by auto
qed

lemma assign_reads:
  assumes "printable N l" "printable N e"
  shows "reads_stmt (expr_tokens N l @ Sym ''='' # expr_tokens N e @ [Sym '';'']) (CAssign (expr_tree N l) (expr_tree N e))"
  unfolding reads_stmt_def
proof (intro allI impI)
  fix rest
  let ?r = "Sym ''='' # expr_tokens N e @ Sym '';'' # rest"
  obtain n where n: "\<forall>m\<ge>n. parse m (Level 0) (expr_tokens N l @ ?r) = Some (expr_tree N l, ?r)" using whole_at [OF assms(1)] by fastforce
  obtain n' where n': "\<forall>m\<ge>n'. parse m (Level 0) (expr_tokens N e @ Sym '';'' # rest) = Some (expr_tree N e, Sym '';'' # rest)"
    using whole_at [OF assms(2)] by fastforce
  have "expr_start (expr_tokens N l @ ?r)" using expression_start [OF assms(1)] by (rule expr_start_append)
  from expr_start_stmt [OF this] have "parse_stmt m stmts (expr_tokens N l @ ?r) = Some (CAssign (expr_tree N l) (expr_tree N e), rest)" if "m \<ge> max n n'" for m stmts
    using n n' that by (simp add: parse_stmt_def)
  then show "\<exists>n. \<forall>m\<ge>n. parse_stmt m (parse_stmts m) ((expr_tokens N l @ Sym ''='' # expr_tokens N e @ [Sym '';'']) @ rest) =
      Some (CAssign (expr_tree N l) (expr_tree N e), rest)" by (auto intro!: exI [of _ "max n n'"])
qed

lemma return_reads:
  assumes "printable N e"
  shows "reads_stmt (Word ''return'' # expr_tokens N e @ [Sym '';'']) (CReturn (expr_tree N e))"
  unfolding reads_stmt_def
proof (intro allI impI)
  fix rest
  obtain n where n: "\<forall>m\<ge>n. parse m (Level 0) (expr_tokens N e @ Sym '';'' # rest) = Some (expr_tree N e, Sym '';'' # rest)"
    using whole_at [OF assms] by fastforce
  then have "parse_stmt m stmts (Word ''return'' # expr_tokens N e @ Sym '';'' # rest) = Some (CReturn (expr_tree N e), rest)" if "m \<ge> n" for m stmts
    using that by (simp add: parse_stmt_def)
  then show "\<exists>n. \<forall>m\<ge>n. parse_stmt m (parse_stmts m) ((Word ''return'' # expr_tokens N e @ [Sym '';'']) @ rest) = Some (CReturn (expr_tree N e), rest)" by auto
qed

definition braces :: "token list \<Rightarrow> token list" where
  "braces ts = Sym ''{'' # ts @ [Sym ''}'']"

definition condition_tokens :: "string \<Rightarrow> token list \<Rightarrow> token list" where
  "condition_tokens w ts = Word w # Sym ''('' # ts @ [Sym '')'']"

lemma braces_read: "reads_stmts ts ss \<Longrightarrow> \<exists>n. \<forall>m\<ge>n. parse_braces (parse_stmts m) (braces ts @ rest) = Some (ss, rest)"
proof -
  assume "reads_stmts ts ss"
  then obtain n where n: "\<forall>m\<ge>n. parse_stmts m (ts @ Sym ''}'' # rest) = Some (ss, Sym ''}'' # rest)" unfolding reads_stmts_def by blast
  then have "\<forall>m\<ge>n. parse_braces (parse_stmts m) (braces ts @ rest) = Some (ss, rest)" by (simp add: parse_braces_def braces_def)
  then show ?thesis by blast
qed

lemma condition_reads: "printable N e \<Longrightarrow> \<exists>n. \<forall>m\<ge>n. parse_condition m (tl (condition_tokens w (expr_tokens N e) @ rest)) = Some (expr_tree N e, rest)"
proof -
  assume "printable N e"
  then obtain n where "\<forall>m\<ge>n. parse m (Level 0) (expr_tokens N e @ Sym '')'' # rest) = Some (expr_tree N e, Sym '')'' # rest)"
    using whole_at by fastforce
  then have "\<forall>m\<ge>n. parse_condition m (tl (condition_tokens w (expr_tokens N e) @ rest)) = Some (expr_tree N e, rest)"
    by (simp add: parse_condition_def condition_tokens_def)
  then show ?thesis by blast
qed

lemma while_reads:
  assumes "printable N e" "reads_stmts us ss"
  shows "reads_stmt (condition_tokens ''while'' (expr_tokens N e) @ braces us) (CWhile (expr_tree N e) ss)"
  unfolding reads_stmt_def
proof (intro allI impI)
  fix rest
  obtain n where n: "\<forall>m\<ge>n. parse_condition m (tl (condition_tokens ''while'' (expr_tokens N e) @ braces us @ rest)) = Some (expr_tree N e, braces us @ rest)"
    using condition_reads [OF assms(1)] by blast
  obtain n' where n': "\<forall>m\<ge>n'. parse_braces (parse_stmts m) (braces us @ rest) = Some (ss, rest)" using braces_read [OF assms(2)] by blast
  have "starts (Word ''while'') (condition_tokens ''while'' ts @ us)" for ts us by (simp add: condition_tokens_def)
  then have "parse_stmt m (parse_stmts m) (condition_tokens ''while'' (expr_tokens N e) @ braces us @ rest) = Some (CWhile (expr_tree N e) ss, rest)"
    if "m \<ge> max n n'" for m using n n' that by (simp add: parse_stmt_def)
  then show "\<exists>n. \<forall>m\<ge>n. parse_stmt m (parse_stmts m) ((condition_tokens ''while'' (expr_tokens N e) @ braces us) @ rest) = Some (CWhile (expr_tree N e) ss, rest)"
    by (auto intro!: exI [of _ "max n n'"])
qed

lemma if_reads:
  assumes "printable N e" "reads_stmts us ss" "reads_stmts vs ss'" "ts = (if ss' = [] then [] else Word ''else'' # braces vs)"
  shows "reads_stmt (condition_tokens ''if'' (expr_tokens N e) @ braces us @ ts) (CIf (expr_tree N e) ss ss')"
  unfolding reads_stmt_def
proof (intro allI impI)
  fix rest assume no_else: "\<not> starts (Word ''else'') rest"
  let ?r = "ts @ rest"
  obtain n where n: "\<forall>m\<ge>n. parse_condition m (tl (condition_tokens ''if'' (expr_tokens N e) @ braces us @ ?r)) = Some (expr_tree N e, braces us @ ?r)"
    using condition_reads [OF assms(1)] by blast
  obtain n' where n': "\<forall>m\<ge>n'. parse_braces (parse_stmts m) (braces us @ ?r) = Some (ss, ?r)" using braces_read [OF assms(2)] by blast
  obtain n'' where n'': "\<forall>m\<ge>n''. parse_braces (parse_stmts m) (braces vs @ rest) = Some (ss', rest)" using braces_read [OF assms(3)] by blast
  have s: "starts (Word ''if'') (condition_tokens ''if'' ts @ us)" "\<not> starts (Word ''while'') (condition_tokens ''if'' ts @ us)" for ts us
    by (simp_all add: condition_tokens_def)
  have "parse_stmt m (parse_stmts m) (condition_tokens ''if'' (expr_tokens N e) @ braces us @ ?r) = Some (CIf (expr_tree N e) ss ss', rest)"
    if "m \<ge> max n (max n' n'')" for m
    using n n' n'' that s no_else assms(4) by (cases "ss' = []") (simp_all add: parse_stmt_def)
  then show "\<exists>n. \<forall>m\<ge>n. parse_stmt m (parse_stmts m) ((condition_tokens ''if'' (expr_tokens N e) @ braces us @ ts) @ rest) = Some (CIf (expr_tree N e) ss ss', rest)"
    by (auto intro!: exI [of _ "max n (max n' n'')"])
qed

section \<open>Blocks\<close>

definition stmt_ok :: "c_names \<Rightarrow> ir_stmt list list \<Rightarrow> ir_stmt \<Rightarrow> bool" where
  "stmt_ok N bs st \<longleftrightarrow> printable_stmt N st \<and> (case st of
     IfStmt e k else_k \<Rightarrow> k < length bs \<and> else_k < length bs | WhileStmt e k \<Rightarrow> k < length bs | _ \<Rightarrow> True)"

definition blocks_ok :: "c_names \<Rightarrow> ir_stmt list list \<Rightarrow> bool" where
  "blocks_ok N bs \<longleftrightarrow> list_all (list_all (stmt_ok N bs)) bs"

lemma blocks_ok_at: "blocks_ok N bs \<Longrightarrow> k < length bs \<Longrightarrow> list_all (stmt_ok N bs) (bs ! k)"
  by (simp add: blocks_ok_def list_all_length)

definition renders :: "c_names \<Rightarrow> ir_stmt list list \<Rightarrow> ir_stmt list \<Rightarrow> c_stmt list \<Rightarrow> token list \<Rightarrow> bool" where
  "renders N bs ss ts toks \<longleftrightarrow> (\<exists>n. \<forall>m\<ge>n. writes (compileBlock m N bs ss) toks) \<and> reads_stmts toks ts \<and> (toks = [] \<or> stmt_start toks)"

lemma plain_renders:
  assumes "stmt_block st = None" "printable_stmt N st"
  shows "\<exists>toks. (\<forall>inner. writes (compileStatement inner N bs st) toks) \<and> reads_stmt toks (plain_tree N st) \<and> stmt_start toks"
proof -
  have line: "writes (\<lambda>w. Returns (stmt True t w)) (ts @ [Sym '';''])" if "lexes t ts" for t ts using stmt_writes [OF that, of True] by simp
  have start: "stmt_start (expr_tokens N e @ ts)" if "printable N e" for e ts
    using expr_start_stmt [OF expr_start_append [OF expression_start [OF that]]] by blast
  show ?thesis
  proof (cases st)
    case (InvokeFctStmt e)
    then obtain t where "compileExpression N e = Returns t" "lexes t (expr_tokens N e)" using assms(2) expression_lexes by auto
    then show ?thesis using InvokeFctStmt assms(2) writes_eq [OF line] start expr_stmt_reads
      by (intro exI [of _ "expr_tokens N e @ [Sym '';'']"]) (simp add: compileStatement_def)
  next
    case (ExprStmt e)
    then obtain t where "compileExpression N e = Returns t" "lexes t (expr_tokens N e)" using assms(2) expression_lexes by auto
    then show ?thesis using ExprStmt assms(2) writes_eq [OF line] start expr_stmt_reads
      by (intro exI [of _ "expr_tokens N e @ [Sym '';'']"]) (simp add: compileStatement_def)
  next
    case (DeclareStmt v t)
    then have ok: "type_ok t" "is_word (var_name N v)" using assms(2) by simp_all
    have line: "writes (\<lambda>w. Returns (stmt True (typeDescription t @ '' '' @ var_name N v) w)) ((type_tokens t @ [Word (var_name N v)]) @ [Sym '';''])"
      by (rule line [OF declare_lexes [OF type_lexes [OF ok(1)] lexes_is_word [OF ok(2)]]])
    then show ?thesis using DeclareStmt declare_reads [OF ok] writes_eq [OF line]
      by (intro exI [of _ "type_tokens t @ [Word (var_name N v), Sym '';'']"]) (simp add: compileStatement_def)
  next
    case (AssignmentStmt l e)
    then obtain lt t where t: "compileExpression N l = Returns lt" "lexes lt (expr_tokens N l)" "compileExpression N e = Returns t" "lexes t (expr_tokens N e)"
      using assms(2) expression_lexes by (metis printable_stmt.simps(2))
    have line: "writes (\<lambda>w. Returns (stmt True (lt @ '' = '' @ t) w)) ((expr_tokens N l @ Sym ''='' # expr_tokens N e) @ [Sym '';''])"
      by (rule line [OF assign_lexes [OF t(2,4)]])
    then show ?thesis using AssignmentStmt assms(2) t start assign_reads writes_eq [OF line]
      by (intro exI [of _ "expr_tokens N l @ Sym ''='' # expr_tokens N e @ [Sym '';'']"]) (simp add: compileStatement_def)
  next
    case (ReturnStmt e)
    then obtain t where t: "compileExpression N e = Returns t" "lexes t (expr_tokens N e)" using assms(2) expression_lexes by auto
    have line: "writes (\<lambda>w. Returns (stmt True (''return '' @ t) w)) ((Word ''return'' # expr_tokens N e) @ [Sym '';''])"
      by (rule line [OF return_lexes [OF t(2)]])
    then show ?thesis using ReturnStmt assms(2) t return_reads writes_eq [OF line]
      by (intro exI [of _ "Word ''return'' # expr_tokens N e @ [Sym '';'']"]) (simp add: compileStatement_def stmt_start_def)
  qed (use assms(1) in simp_all)
qed

lemma renders_nothing: "renders N bs [] [] []"
proof -
  have "writes (compileBlock m N bs []) []" if "m \<ge> 1" for m
    using that by (intro writes_eq [OF nothing_written]) (cases m; simp)
  then show ?thesis unfolding renders_def using reads_nothing by blast
qed

text \<open>A statement, given from which fuel on it is written, in front of a rendered block.\<close>

lemma renders_cons:
  assumes "\<forall>m\<ge>n. writes (compileStatement (compileBlock m N bs) N bs st) us" "reads_stmt us t" "stmt_start us" "renders N bs ss ts vs"
  shows "renders N bs (st # ss) (t # ts) (us @ vs)"
proof -
  obtain n' where n': "\<forall>m\<ge>n'. writes (compileBlock m N bs ss) vs" using assms(4) unfolding renders_def by blast
  have "writes (compileBlock (Suc m) N bs (st # ss)) (us @ vs)" if "m \<ge> max n n'" for m
  proof -
    have "writes (compileBlock (Suc m) N bs ss) vs" using n' that by simp
    then have "writes (each_outcome (compileStatement (compileBlock m N bs) N bs) ss) vs" by (rule writes_eq) simp
    then have "writes (\<lambda>w. obind (compileStatement (compileBlock m N bs) N bs st w) (each_outcome (compileStatement (compileBlock m N bs) N bs) ss)) (us @ vs)"
      using seq_writes assms(1) that by simp
    then show ?thesis by (rule writes_eq) simp
  qed
  then have "\<forall>m\<ge>Suc (max n n'). writes (compileBlock m N bs (st # ss)) (us @ vs)" by (metis Suc_le_D Suc_le_mono)
  moreover have "reads_stmts (us @ vs) (t # ts)" using assms(2-4) reads_cons unfolding renders_def by blast
  moreover have "stmt_start (us @ vs)" using stmt_start_append [OF assms(3)] by blast
  ultimately show ?thesis unfolding renders_def by blast
qed

lemma block_tree_length: "block_tree N bs ss ts \<Longrightarrow> length ts = length ss"
  by (induction rule: block_tree.induct) simp_all

text \<open>A head with a condition, followed by a block.\<close>

lemma head_writes:
  assumes "w0 \<in> {''while'', ''if''}" "printable N e" "writes body us" "compileExpression N e = Returns t" "lexes t (expr_tokens N e)"
  shows "writes (\<lambda>w. block body (stmt False (w0 @ '' ('' @ t @ '')'') w)) (condition_tokens w0 (expr_tokens N e) @ braces us)"
  using seq_writes [OF stmt_writes [OF keyword_lexes [OF assms(1,5)], of False] block_writes [OF assms(3)]]
  by (simp add: condition_tokens_def braces_def)

lemma block_renders:
  assumes "block_tree N bs ss ts" "blocks_ok N bs" "list_all (stmt_ok N bs) ss"
  shows "\<exists>toks. renders N bs ss ts toks"
  using assms(1,3)
proof (induction rule: block_tree.induct)
  case no_statement show ?case using renders_nothing by blast
next
  case (plain_statement st ss ts)
  then obtain vs where vs: "renders N bs ss ts vs" by auto
  obtain us where "\<forall>inner. writes (compileStatement inner N bs st) us" "reads_stmt us (plain_tree N st)" "stmt_start us"
    using plain_renders [OF plain_statement.hyps(1), of N bs] plain_statement.prems by (auto simp: stmt_ok_def)
  then show ?case using renders_cons [OF _ _ _ vs] by blast
next
  case (while_statement k us ss ts e)
  then obtain vs where vs: "renders N bs ss ts vs" by auto
  have e: "printable N e" "k < length bs" using while_statement.prems by (simp_all add: stmt_ok_def)
  then obtain xs where xs: "renders N bs (bs ! k) us xs" using while_statement.IH(1) blocks_ok_at [OF assms(2)] by blast
  then obtain n where n: "\<forall>m\<ge>n. writes (compileBlock m N bs (bs ! k)) xs" "reads_stmts xs us" unfolding renders_def by blast
  obtain t where t: "compileExpression N e = Returns t" "lexes t (expr_tokens N e)" using expression_lexes [OF e(1)] by blast
  let ?ts = "condition_tokens ''while'' (expr_tokens N e) @ braces xs"
  have "writes (compileStatement (compileBlock m N bs) N bs (WhileStmt e k)) ?ts" if "m \<ge> n" for m
    using n(1) that e(1) t by (intro writes_eq [OF head_writes [of "''while''" N e "compileBlock m N bs (bs ! k)" xs t]]) (simp_all add: compileStatement_def)
  moreover have "stmt_start ?ts" by (simp add: stmt_start_def condition_tokens_def)
  ultimately have "renders N bs (WhileStmt e k # ss) (CWhile (expr_tree N e) us # ts) (?ts @ vs)"
    using while_reads [OF e(1) n(2)] vs by (intro renders_cons [where n = n]) simp_all
  then show ?case by blast
next
  case (if_statement k us else_k vs ss ts e)
  then obtain ws where ws: "renders N bs ss ts ws" by auto
  have e: "printable N e" "k < length bs" "else_k < length bs" using if_statement.prems by (simp_all add: stmt_ok_def)
  obtain xs where xs: "renders N bs (bs ! k) us xs" using if_statement.IH(1) blocks_ok_at [OF assms(2) e(2)] by blast
  obtain ys where ys: "renders N bs (bs ! else_k) vs ys" using if_statement.IH(2) blocks_ok_at [OF assms(2) e(3)] by blast
  obtain n where n: "\<forall>m\<ge>n. writes (compileBlock m N bs (bs ! k)) xs" "reads_stmts xs us" using xs unfolding renders_def by blast
  obtain n' where n': "\<forall>m\<ge>n'. writes (compileBlock m N bs (bs ! else_k)) ys" "reads_stmts ys vs" using ys unfolding renders_def by blast
  obtain t where t: "compileExpression N e = Returns t" "lexes t (expr_tokens N e)" using expression_lexes [OF e(1)] by blast
  have empty: "bs ! else_k = [] \<longleftrightarrow> vs = []" using block_tree_length [OF if_statement.hyps(2)] by (metis length_0_conv)
  let ?es = "if vs = [] then [] else Word ''else'' # braces ys"
  let ?ts = "condition_tokens ''if'' (expr_tokens N e) @ braces xs @ ?es"
  have "writes (compileStatement (compileBlock m N bs) N bs (IfStmt e k else_k)) ?ts" if "m \<ge> max n n'" for m
  proof -
    have body: "writes (\<lambda>w. block (compileBlock m N bs (bs ! k)) (stmt False (''if'' @ '' ('' @ t @ '')'') w)) (condition_tokens ''if'' (expr_tokens N e) @ braces xs)"
      using n(1) that e(1) t by (intro head_writes) simp_all
    have "writes (\<lambda>w. if bs ! else_k \<noteq> [] then block (compileBlock m N bs (bs ! else_k)) (stmt False ''else'' w) else Returns w) ?es"
      using seq_writes [OF stmt_writes [OF else_lexes, of False] block_writes [of "compileBlock m N bs (bs ! else_k)" ys]] n'(1) that nothing_written
      by (simp add: empty braces_def)
    from seq_writes [OF body this] have "writes (compileStatement (compileBlock m N bs) N bs (IfStmt e k else_k)) ((condition_tokens ''if'' (expr_tokens N e) @ braces xs) @ ?es)"
      by (rule writes_eq) (simp add: compileStatement_def t(1))
    then show ?thesis by simp
  qed
  moreover have "stmt_start ?ts" by (simp add: stmt_start_def condition_tokens_def)
  ultimately have "renders N bs (IfStmt e k else_k # ss) (CIf (expr_tree N e) us vs # ts) (?ts @ ws)"
    using if_reads [OF e(1) n(2) n'(2)] ws by (intro renders_cons [where n = "max n n'"]) simp_all
  then show ?case by blast
qed

end
