(* ===== verification/C_Code.thy ===== *)
theory C_Code
  imports C_Statements
begin

text \<open>
  What the suboperators generate can be printed: names are words, types have C names, constants can be written down, and arithmetic is never
  an operand of arithmetic.
\<close>

section \<open>Names\<close>

text \<open>IUs without a name and suboperators are called after their address, suboperators also after their operator.\<close>

definition iu_named :: "c_names \<Rightarrow> iu \<Rightarrow> bool" where
  "iu_named N i \<longleftrightarrow> list_all word_char (iu_name i) \<and> list_all word_char (iu_addr_str N (iu_addr i))"

definition op_named :: "c_names \<Rightarrow> nat \<Rightarrow> bool" where
  "op_named N a \<longleftrightarrow> list_all word_char (op_addr_str N a) \<and> (case op_source N a of None \<Rightarrow> True | Some n \<Rightarrow> list_all word_char n)"

lemma reserved_no_iu: "list_all (\<lambda>w. take 2 w \<noteq> ''iu'') reserved_words"
  by code_simp

lemma iu_word: "take 2 w = ''iu'' \<Longrightarrow> list_all word_char w \<Longrightarrow> is_word w"
proof -
  assume w: "take 2 w = ''iu''" "list_all word_char w"
  then obtain cs where "w = ''iu'' @ cs" by (metis append_take_drop_id)
  then show ?thesis using w reserved_no_iu by (auto simp: is_word_def list_all_iff letter_def of_char_def)
qed

lemma underscore_word [simp]: "word_char (CHR ''_'')" "word_char (CHR ''i'')" "word_char (CHR ''u'')"
  by (simp_all add: char_class_defs of_char_def)

lemma iu_var_word: "iu_named N i \<Longrightarrow> is_word (var_name N (IUVar i))"
  by (rule iu_word) (simp_all add: iu_named_def buildIUIdentifier_def)

lemma op_var_word: "op_named N a \<Longrightarrow> list_all word_char suffix \<Longrightarrow> is_word (var_name N (OpVar a suffix))"
  by (rule iu_word) (auto simp: op_named_def getVarIdentifier_def split: option.splits)

lemma global_state_word [simp]: "is_word ''global_state''"
  by code_simp

text \<open>The suffixes that suboperators use.\<close>

lemma suffix_words:
  "list_all word_char ''_end''" "list_all word_char ''_it_ptr_end''" "list_all word_char ''_it_idx''" "list_all word_char ''_ht''"
  "list_all word_char ''_start''" "list_all word_char ''_iterator''" "list_all word_char ''_rt_constant''" "list_all word_char ''_packed_state''"
  "list_all word_char ''_packed_state_1''" "list_all word_char ''_packed_state_2''" "list_all word_char ''_raw_data''" "list_all word_char ''_size''"
  "list_all word_char ''_rt_offset''" "list_all word_char ''_rt_offset_1''" "list_all word_char ''_rt_offset_2''"
  by code_simp+

section \<open>The runtime\<close>

lemma runtime_words: "list_all is_word (map fst runtime_functions)" "list_all (\<lambda>(st, ms). is_word st \<and> list_all (\<lambda>(t, f). is_word f) ms) runtime_structs"
  by code_simp+

lemma operand_simps [simp]:
  "operand (VarRef v t)" "operand (ConstExpr c)" "operand (InvokeFct f t args)" "operand (Deref e)" "operand (Ref e)" "operand (StructAccess e f)"
  "operand (CastTo t e)" "operand (Memcopy d s n)"
  by (simp_all add: operand_def)

lemma invoke_printable: "invoke f args = Returns e \<Longrightarrow> list_all (printable N) args \<Longrightarrow> printable N e \<and> operand e"
  using runtime_words(1) by (auto simp: invoke_def getFunction_def list_all_iff dest!: map_of_SomeD split: option.splits)

lemma state_member_printable: "state_member p s st f = Returns e \<Longrightarrow> printable N e \<and> operand e"
proof -
  assume "state_member p s st f = Returns e"
  then obtain ms where ms: "map_of runtime_structs st = Some ms" "struct_access (CastTo (Pointer (Struct st ms)) (accessGlobalState p s)) f = Returns e"
    by (auto simp: state_member_def getStruct_def split: option.splits)
  then obtain t where f: "(t, f) \<in> set ms" "e = StructAccess (Deref (CastTo (Pointer (Struct st ms)) (accessGlobalState p s))) f"
    by (auto simp: struct_access_def Let_def deref_type_def field_type_def find_Some_iff split: option.splits) (metis nth_mem)
  have "is_word st \<and> is_word f" using runtime_words(2) map_of_SomeD [OF ms(1)] f(1) by (auto simp: list_all_iff)
  then show ?thesis by (simp add: f(2) accessGlobalState_def operand_def)
qed

lemma param_printable: "param_Resolve p s st f v = Returns e \<Longrightarrow> (\<forall>c. v = Some c \<longrightarrow> value_ok c) \<Longrightarrow> printable N e \<and> operand e"
  by (cases v) (auto simp: param_Resolve_def dest: state_member_printable)

lemma erased_printable:
  assumes "param_ResolveErased p s st f t v = Returns e" "type_ok t" "\<forall>c. v = Some c \<longrightarrow> supportsInlining c \<longrightarrow> value_ok c"
  shows "printable N e \<and> operand e"
  using assms state_member_printable [of p s st "f @ ''_erased''"]
  by (cases v) (auto simp: param_ResolveErased_def obind_Returns_iff split: if_splits)

section \<open>Suboperators\<close>

text \<open>The declarations that the context knows have C types and names.\<close>

definition decls_ok :: "c_names \<Rightarrow> iu_decls \<Rightarrow> bool" where
  "decls_ok N ds \<longleftrightarrow> (\<forall>i t. ds i = Some t \<longrightarrow> type_ok t \<and> iu_named N i)"

lemma getIUDeclaration_printable: "getIUDeclaration ds i = Returns e \<Longrightarrow> decls_ok N ds \<Longrightarrow> \<exists>t. e = VarRef (IUVar i) t \<and> type_ok t \<and> printable N e \<and> operand e"
  by (auto simp: getIUDeclaration_def at_map_def decls_ok_def iu_var_word [unfolded var_name.simps] split: option.splits)

text \<open>What a suboperator must be like to have printable code: the types of its columns and of what is attached to it, and its constants.\<close>

definition op_printable :: "c_names \<Rightarrow> bool \<Rightarrow> (subop \<Rightarrow> ir_value option) \<Rightarrow> subop \<Rightarrow> bool" where
  "op_printable N il tp s \<longleftrightarrow>
     op_named N (subop_addr s) \<and> list_all (\<lambda>i. iu_named N i \<and> type_ok (iu_type i)) (provided_ius s @ source_ius s) \<and>
     list_all value_ok (case tp s of None \<Rightarrow> [] | Some c \<Rightarrow> [c]) \<and>
     (case kind s of
        RuntimeExpressionSubop ty t data \<Rightarrow> type_ok t \<and>
          list_all value_ok (if il then case data of None \<Rightarrow> [] | Some c \<Rightarrow> if supportsInlining c then [c] else [] else [])
      | AggregatorSubop st off \<Rightarrow> (case st of AggStateCount \<Rightarrow> True | AggStateSum t \<Rightarrow> type_ok t)
      | AggReaderSubop c off1 off2 \<Rightarrow> (case c of AggComputeUnpack t \<Rightarrow> True | AggComputeAvg t \<Rightarrow> type_ok t)
      | _ \<Rightarrow> True)"

fun placed_stmt :: "place \<Rightarrow> ir_stmt" where
  "placed_stmt (InRoot st) = st"
| "placed_stmt (InCurrent st) = st"

definition plain_printable :: "c_names \<Rightarrow> ir_stmt \<Rightarrow> bool" where
  "plain_printable N st \<longleftrightarrow> stmt_block st = None \<and> printable_stmt N st"

definition code_printable :: "c_names \<Rightarrow> subop_code \<Rightarrow> bool" where
  "code_printable N c \<longleftrightarrow> list_all (plain_printable N) (map placed_stmt (statements c)) \<and>
     list_all (\<lambda>(w, e). printable N e) (case opens c of None \<Rightarrow> [] | Some ctl \<Rightarrow> [ctl]) \<and> list_all (\<lambda>(i, t). type_ok t \<and> iu_named N i) (declared_ius c)"

lemma plain_printable_simps [simp]:
  "plain_printable N (decl_stmt v t) \<longleftrightarrow> type_ok t \<and> is_word (var_name N v)"
  "plain_printable N (assign_stmt v t e) \<longleftrightarrow> is_word (var_name N v) \<and> printable N e"
  "plain_printable N (AssignmentStmt l e) \<longleftrightarrow> printable N l \<and> printable N e"
  "plain_printable N (InvokeFctStmt e) \<longleftrightarrow> printable N e" "plain_printable N (ExprStmt e) \<longleftrightarrow> printable N e"
  by (simp_all add: plain_printable_def decl_stmt_def assign_stmt_def)

lemma printable_facts:
  assumes "op_printable N il tp s" "decls_ok N ds"
  shows "op_named N (subop_addr s)" "i \<in> set (provided_ius s) \<union> set (source_ius s) \<Longrightarrow> iu_named N i \<and> type_ok (iu_type i)"
    "tp s = Some c \<Longrightarrow> value_ok c"
  using assms by (auto simp: op_printable_def list_all_iff)

lemma plain_code_printable:
  "code_printable N (plain ds ss) \<longleftrightarrow> list_all (plain_printable N) (map placed_stmt ss) \<and> list_all (\<lambda>(i, t). type_ok t \<and> iu_named N i) ds"
  by (simp add: code_printable_def)

lemmas names_words = iu_var_word [unfolded var_name.simps] suffix_words [THEN op_var_word [rotated], unfolded var_name.simps]

lemma source_printable:
  assumes "op_printable N il tp s" "decls_ok N ds" "provided_ius s \<noteq> []"
  shows "LoopDriver_code p s = Returns c \<Longrightarrow> code_printable N c" "ScratchPad_code s = Returns c \<Longrightarrow> code_printable N c"
    "IndexedIUProvider_code p (tp s) ds s = Returns c \<Longrightarrow> code_printable N c"
proof -
  have hd: "iu_named N (hd (provided_ius s))" "type_ok (iu_type (hd (provided_ius s)))" and op: "op_named N (subop_addr s)"
    using printable_facts(1,2) [OF assms(1,2)] assms(3) by simp_all
  show "LoopDriver_code p s = Returns c \<Longrightarrow> code_printable N c"
    using hd(1) op by (auto simp: LoopDriver_code_def Let_def obind_Returns_iff code_printable_def names_words dest!: state_member_printable [where N = N])
  show "ScratchPad_code s = Returns c \<Longrightarrow> code_printable N c"
    using hd op by (auto simp: ScratchPad_code_def Let_def obind_Returns_iff plain_code_printable names_words dest!: invoke_printable [where N = N])
  assume "IndexedIUProvider_code p (tp s) ds s = Returns c"
  then obtain loop_idx start_e type_width where g: "getIUDeclaration ds (hd (source_ius s)) = Returns loop_idx"
      "state_member p s ''IndexedIUProviderState'' ''start'' = Returns start_e"
      "param_Resolve p s ''IndexedIUProviderState'' ''type_param'' (tp s) = Returns type_width"
    by (auto simp: IndexedIUProvider_code_def Let_def obind_Returns_iff)
  have "printable N type_width \<and> operand type_width" using printable_facts(3) [OF assms(1,2)] by (intro param_printable [OF g(3)]) auto
  then show "code_printable N c"
    using \<open>IndexedIUProvider_code p (tp s) ds s = Returns c\<close> g hd op getIUDeclaration_printable [OF g(1) assms(2)] state_member_printable [OF g(2), of N]
    by (auto simp: IndexedIUProvider_code_def Let_def plain_code_printable names_words split: irtype.splits)
qed

lemma table_source_printable:
  assumes "op_printable N il tp s" "provided_ius s \<noteq> []" "HashTableSource_code p s = Returns c"
  shows "code_printable N c"
proof -
  have i: "iu_named N (hd (provided_ius s))" and op: "op_named N (subop_addr s)" using assms(1,2) by (auto simp: op_printable_def list_all_iff)
  have m: "iu_named N (provided_ius s ! 1) \<and> type_ok (iu_type (provided_ius s ! 1))" if "length (provided_ius s) = 2"
  proof -
    have "provided_ius s ! 1 \<in> set (provided_ius s)" using that by simp
    then show ?thesis using assms(1) by (simp add: op_printable_def list_all_iff)
  qed
  show ?thesis
    using assms(3) i op m
    by (auto simp: HashTableSource_code_def Let_def obind_Returns_iff code_printable_def names_words
        dest!: state_member_printable [where N = N] invoke_printable [where N = N] split: if_splits)
qed

lemma copy_printable: "copy_code ds i j t = Returns c \<Longrightarrow> decls_ok N ds \<Longrightarrow> iu_named N j \<Longrightarrow> type_ok t \<Longrightarrow> code_printable N c"
  by (auto simp: copy_code_def obind_Returns_iff plain_code_printable names_words dest!: getIUDeclaration_printable [where N = N])

lemma provided_printable:
  assumes "op_printable N il tp s" "decls_ok N ds" "provided_ius s \<noteq> []"
  shows "iu_named N (hd (provided_ius s))" "type_ok (iu_type (hd (provided_ius s)))" "op_named N (subop_addr s)"
  using printable_facts(1,2) [OF assms(1,2)] assms(3) by simp_all

lemma filter_printable:
  assumes "op_printable N il tp s" "decls_ok N ds" "provided_ius s \<noteq> []"
  shows "ColumnFilterScope_code ds s = Returns c \<Longrightarrow> code_printable N c" "ColumnFilterLogic_code ds s = Returns c \<Longrightarrow> code_printable N c"
    "source_ius s \<noteq> [] \<Longrightarrow> Copy_code ds s = Returns c \<Longrightarrow> code_printable N c"
proof -
  show "ColumnFilterScope_code ds s = Returns c \<Longrightarrow> code_printable N c"
    using assms(2) by (auto simp: ColumnFilterScope_code_def obind_Returns_iff code_printable_def dest!: getIUDeclaration_printable [where N = N])
  show "ColumnFilterLogic_code ds s = Returns c \<Longrightarrow> code_printable N c"
    unfolding ColumnFilterLogic_code_def using copy_printable [OF _ assms(2) provided_printable(1,2) [OF assms]] by blast
  assume "source_ius s \<noteq> []"
  then have "type_ok (iu_type (hd (source_ius s)))" using printable_facts(2) [OF assms(1,2)] by simp
  then show "Copy_code ds s = Returns c \<Longrightarrow> code_printable N c"
    unfolding Copy_code_def using copy_printable [OF _ assms(2) provided_printable(1) [OF assms]] by blast
qed

lemma map_outcome_printable:
  "map_outcome (getIUDeclaration ds) is = Returns es \<Longrightarrow> decls_ok N ds \<Longrightarrow> list_all (\<lambda>e. printable N e \<and> operand e) es \<and> length es = length is"
proof (induction "is" arbitrary: es)
  case (Cons i "is") then show ?case by (auto simp: obind_Returns_iff dest!: getIUDeclaration_printable [where N = N])
qed simp

lemma code_map_opcode: "code_map ty = Returns c \<Longrightarrow> c \<noteq> HashCombineOp"
  by (cases ty) (auto simp: code_map_def)

lemma expression_printable:
  assumes "op_printable N il tp s" "decls_ok N ds" "provided_ius s \<noteq> []" "ExpressionSubop_code ds s ty = Returns c"
  shows "code_printable N c"
proof -
  note out = provided_printable [OF assms(1-3)]
  obtain children where ch: "map_outcome (getIUDeclaration ds) (source_ius s) = Returns children" using assms(4) by (auto simp: ExpressionSubop_code_def Let_def obind_Returns_iff)
  have cp: "printable N (children ! k) \<and> operand (children ! k)" if "k < length children" for k
    using map_outcome_printable [OF ch assms(2)] that by (simp add: list_all_length)
  show ?thesis
  proof (cases "ty = Cast")
    case True
    then have "children \<noteq> []" using assms(4) ch by (auto simp: ExpressionSubop_code_def Let_def obind_Returns_iff)
    then have "printable N (children ! 0)" using cp [of 0] by simp
    then show ?thesis using True assms(4) ch out
      by (auto simp: ExpressionSubop_code_def Let_def obind_Returns_iff plain_code_printable names_words split: if_splits)
  next
    case False
    then obtain c0 where c0: "length children = 2" "code_map ty = Returns c0"
        "c = plain [(hd (provided_ius s), iu_type (hd (provided_ius s)))] (map InCurrent
          [decl_stmt (IUVar (hd (provided_ius s))) (iu_type (hd (provided_ius s))),
           assign_stmt (IUVar (hd (provided_ius s))) (iu_type (hd (provided_ius s))) (Arithmetic c0 (children ! 0) (children ! 1))])"
      using assms(4) ch by (auto simp: ExpressionSubop_code_def Let_def obind_Returns_iff split: if_splits)
    have "printable N (Arithmetic c0 (children ! 0) (children ! 1))"
      using code_map_opcode [OF c0(2)] cp [of 0] cp [of 1] c0(1) by simp
    then show ?thesis using out by (simp add: c0(3) plain_code_printable names_words del: printable.simps)
  qed
qed

lemma runtime_expression_printable:
  assumes "op_printable N il tp s" "decls_ok N ds" "provided_ius s \<noteq> []" "kind s = RuntimeExpressionSubop ty t data"
    and "RuntimeExpressionSubop_code p ds s ty t (if il then data else None) = Returns c"
  shows "code_printable N c"
proof -
  note out = provided_printable [OF assms(1-3)]
  have t: "type_ok t" "\<forall>d. (if il then data else None) = Some d \<longrightarrow> supportsInlining d \<longrightarrow> value_ok d"
    using assms(1,4) by (auto simp: op_printable_def split: if_splits)
  obtain rt where rt: "param_ResolveErased p s ''RuntimeExpressionState'' ''data'' t (if il then data else None) = Returns rt"
    using assms(5) unfolding RuntimeExpressionSubop_code_def Let_def by (auto simp: obind_Returns_iff)
  have pr: "printable N rt" using erased_printable [OF rt t] by blast
  show ?thesis
  proof (cases "ty = Constant")
    case True
    then show ?thesis using assms(5) rt pr out t(1)
      unfolding RuntimeExpressionSubop_code_def Let_def by (auto simp: plain_code_printable names_words)
  next
    case False
    then obtain child c0 where g: "getIUDeclaration ds (hd (source_ius s)) = Returns child" "code_map ty = Returns c0"
      using assms(5) unfolding RuntimeExpressionSubop_code_def Let_def by (auto simp: obind_Returns_iff)
    have "printable N (Arithmetic c0 (VarRef (OpVar (subop_addr s) ''_rt_constant'') t) child)"
      using code_map_opcode [OF g(2)] getIUDeclaration_printable [OF g(1) assms(2)] out(3) by (auto simp: names_words)
    then show ?thesis using assms(5) rt pr out t(1) False g
      unfolding RuntimeExpressionSubop_code_def Let_def by (auto simp: plain_code_printable names_words simp del: printable.simps)
  qed
qed

lemma offset_value_ok: "\<forall>c. offset_param il off = Some c \<longrightarrow> value_ok c"
  by (auto simp: offset_param_def)

lemma key_expression_printable:
  assumes "op_printable N il tp s" "decls_ok N ds" "provided_ius s \<noteq> []" "source_ius s \<noteq> []" "RuntimeKeyExpressionSubop_code p il ds s off = Returns c"
  shows "code_printable N c"
proof -
  note out = provided_printable [OF assms(1-3)]
  have "source_ius s ! 0 \<in> set (source_ius s)" using assms(4) by simp
  then have src: "type_ok (iu_type (source_ius s ! 0))" using printable_facts(2) [OF assms(1,2)] by blast
  show ?thesis using assms(5,2) out src
    by (auto simp: RuntimeKeyExpressionSubop_code_def Let_def obind_Returns_iff plain_code_printable names_words
        dest!: getIUDeclaration_printable [where N = N] param_printable [where N = N, OF _ offset_value_ok])
qed

lemma ir_type_of_var: "ir_type_of (VarRef v t) = Returns t" by simp

text \<open>What is loaded for an offset, and a pointer to a granule.\<close>

lemma load_offset_printable:
  assumes "load_offset p s st member v = Returns (e, loads)" "op_named N (subop_addr s)" "member \<in> {''offset'', ''offset_1'', ''offset_2''}"
    and "\<forall>c. v = Some c \<longrightarrow> value_ok c"
  shows "printable N e \<and> operand e \<and> list_all (plain_printable N) (map placed_stmt loads)"
proof -
  have w: "is_word (getVarIdentifier N (subop_addr s) @ ''_rt_'' @ member)"
    using assms(2,3) by (auto simp: names_words [simplified])
  show ?thesis using assms(1,4) w
    by (auto simp: load_offset_def Let_def obind_Returns_iff dest!: param_printable [where N = N])
qed

lemma granule_printable:
  assumes "granule_pointer v ptr off = Returns (e, ss)" "ptr = VarRef w t" "type_ok t" "printable N ptr" "printable N off" "operand off" "is_word (var_name N v)"
  shows "printable N e \<and> operand e \<and> list_all (plain_printable N) (map placed_stmt ss)"
  using assms by (auto simp: granule_pointer_def Let_def deriveType_def isComparison_def)

lemma pack_printable:
  assumes "printable N ptr" "operand ptr" "printable N off" "operand off" "printable N e" "\<And>t. ir_type_of e = Returns t \<Longrightarrow> type_ok t"
  shows "packInto ptr e off = Returns st \<Longrightarrow> plain_printable N st" "unpackFrom ptr e off = Returns st \<Longrightarrow> plain_printable N st"
  using assms by (auto simp: packInto_def unpackFrom_def obind_Returns_iff)

lemma packer_printable:
  assumes "op_printable N il tp s" "decls_ok N ds"
  shows "KeyPackerSubop_code p il ds s off = Returns c \<Longrightarrow> code_printable N c"
    "provided_ius s \<noteq> [] \<Longrightarrow> KeyUnpackerSubop_code p il ds s off = Returns c \<Longrightarrow> code_printable N c"
proof -
  note op = printable_facts(1) [OF assms]
  show "KeyPackerSubop_code p il ds s off = Returns c \<Longrightarrow> code_printable N c"
  proof -
    assume "KeyPackerSubop_code p il ds s off = Returns c"
    then obtain ptr pack o_e loads st where g: "getIUDeclaration ds (source_ius s ! 1) = Returns ptr" "getIUDeclaration ds (source_ius s ! 0) = Returns pack"
        "load_offset p s ''KeyPackingRuntimeState'' ''offset'' (offset_param il off) = Returns (o_e, loads)" "packInto ptr pack o_e = Returns st"
        "c = plain [] (loads @ [InCurrent st])"
      by (auto simp: KeyPackerSubop_code_def obind_Returns_iff)
    have "printable N o_e \<and> operand o_e \<and> list_all (plain_printable N) (map placed_stmt loads)"
      by (rule load_offset_printable [OF g(3) op _ offset_value_ok]) simp
    moreover from this have "plain_printable N st"
      using getIUDeclaration_printable [OF g(1) assms(2)] getIUDeclaration_printable [OF g(2) assms(2)] by (intro pack_printable(1) [OF _ _ _ _ _ _ g(4)]) auto
    ultimately show ?thesis by (simp add: g(5) plain_code_printable)
  qed
  assume ne: "provided_ius s \<noteq> []"
  note out = provided_printable [OF assms ne]
  assume "KeyUnpackerSubop_code p il ds s off = Returns c"
  then obtain ptr o_e loads st where g: "getIUDeclaration ds (hd (source_ius s)) = Returns ptr"
      "load_offset p s ''KeyPackingRuntimeState'' ''offset'' (offset_param il off) = Returns (o_e, loads)"
      "unpackFrom ptr (VarRef (IUVar (hd (provided_ius s))) (iu_type (hd (provided_ius s)))) o_e = Returns st"
      "c = plain [(hd (provided_ius s), iu_type (hd (provided_ius s)))]
         (InCurrent (decl_stmt (IUVar (hd (provided_ius s))) (iu_type (hd (provided_ius s)))) # loads @ [InCurrent st])"
    by (auto simp: KeyUnpackerSubop_code_def Let_def obind_Returns_iff)
  have "printable N o_e \<and> operand o_e \<and> list_all (plain_printable N) (map placed_stmt loads)"
    by (rule load_offset_printable [OF g(2) op _ offset_value_ok]) simp
  moreover from this have "plain_printable N st"
    using getIUDeclaration_printable [OF g(1) assms(2)] out by (intro pack_printable(2) [OF _ _ _ _ _ _ g(3)]) (auto simp: names_words)
  ultimately show "code_printable N c" using out by (simp add: g(4) plain_code_printable names_words)
qed

lemma update_printable:
  assumes "case st of AggStateCount \<Rightarrow> True | AggStateSum t \<Rightarrow> type_ok t" "printable N ptr" "printable N val" "operand val"
  shows "plain_printable N (updateState st ptr val)"
  using assms by (cases st) (simp_all add: updateState_def Let_def)

lemma aggregator_printable:
  assumes "op_printable N il tp s" "decls_ok N ds" "kind s = AggregatorSubop st off" "AggregatorSubop_code p il ds s st off = Returns c"
  shows "code_printable N c"
proof -
  note op = printable_facts(1) [OF assms(1,2)]
  obtain packed agg_e o_e loads ptr ss where g: "getIUDeclaration ds (source_ius s ! 0) = Returns packed" "getIUDeclaration ds (source_ius s ! 1) = Returns agg_e"
      "load_offset p s ''KeyPackingRuntimeState'' ''offset'' (offset_param il off) = Returns (o_e, loads)"
      "granule_pointer (OpVar (subop_addr s) ''_packed_state'') packed o_e = Returns (ptr, ss)"
      "c = plain [] (loads @ ss @ [InCurrent (updateState st ptr agg_e)])"
    using assms(4) by (auto simp: AggregatorSubop_code_def obind_Returns_iff)
  obtain t where t: "packed = VarRef (IUVar (source_ius s ! 0)) t" "type_ok t" "printable N packed" using getIUDeclaration_printable [OF g(1) assms(2)] by auto
  have o: "printable N o_e \<and> operand o_e \<and> list_all (plain_printable N) (map placed_stmt loads)"
    by (rule load_offset_printable [OF g(3) op _ offset_value_ok]) simp
  have p: "printable N ptr \<and> operand ptr \<and> list_all (plain_printable N) (map placed_stmt ss)"
    using o op by (intro granule_printable [OF g(4) t(1,2,3)]) (simp_all add: names_words)
  have "case st of AggStateCount \<Rightarrow> True | AggStateSum t \<Rightarrow> type_ok t" using assms(1,3) by (simp add: op_printable_def)
  then have "plain_printable N (updateState st ptr agg_e)" using p getIUDeclaration_printable [OF g(2) assms(2)] by (intro update_printable) auto
  then show ?thesis using o p by (simp add: g(5) plain_code_printable)
qed

lemma compute_printable:
  assumes "agg_compute_stmt cm ptrs out = Returns st" "case cm of AggComputeUnpack t \<Rightarrow> True | AggComputeAvg t \<Rightarrow> type_ok t"
    and "\<forall>ptr\<in>set ptrs. printable N ptr \<and> operand ptr" "printable N out" "\<And>t. ir_type_of out = Returns t \<Longrightarrow> type_ok t"
  shows "plain_printable N st"
proof (cases cm)
  case (AggComputeUnpack t)
  then have "length ptrs = 1" "unpackFrom (ptrs ! 0) out (ConstExpr (UI 2 0)) = Returns st" using assms(1) by (auto simp: agg_compute_stmt_def split: if_splits)
  moreover from this(1) have "printable N (ptrs ! 0) \<and> operand (ptrs ! 0)" using assms(3) nth_mem [of 0 ptrs] by simp
  ultimately show ?thesis using assms(4,5) by (intro pack_printable(2)) auto
next
  case (AggComputeAvg t)
  then have "length ptrs = 2" using assms(1) by (auto simp: agg_compute_stmt_def split: if_splits)
  moreover from this have "printable N (ptrs ! 0)" "printable N (ptrs ! 1)" using assms(3) nth_mem [of 0 ptrs] nth_mem [of 1 ptrs] by simp_all
  ultimately show ?thesis using assms(1,2,4) AggComputeAvg by (auto simp: agg_compute_stmt_def)
qed

lemma reader_printable:
  assumes "op_printable N il tp s" "decls_ok N ds" "provided_ius s \<noteq> []" "kind s = AggReaderSubop cm off1 off2" "AggReaderSubop_code p il ds s cm off1 off2 = Returns c"
  shows "code_printable N c"
proof -
  note out = provided_printable [OF assms(1-3)]
  let ?o = "hd (provided_ius s)"
  let ?v2 = "case off2 of None \<Rightarrow> None | Some o2 \<Rightarrow> offset_param il o2"
  obtain packed o1 loads1 o2 loads2 ptr1 ss1 ptrs ss2 st where g: "getIUDeclaration ds (hd (source_ius s)) = Returns packed"
      "load_offset p s ''KeyPackingRuntimeStateTwo'' ''offset_1'' (offset_param il off1) = Returns (o1, loads1)"
      "load_offset p s ''KeyPackingRuntimeStateTwo'' ''offset_2'' ?v2 = Returns (o2, loads2)"
      "granule_pointer (OpVar (subop_addr s) ''_packed_state_1'') packed o1 = Returns (ptr1, ss1)"
      "(if requiredGranules cm > 1 then obind (granule_pointer (OpVar (subop_addr s) ''_packed_state_2'') packed o2) (\<lambda>(ptr2, stmts2). Returns ([ptr1, ptr2], stmts2))
        else Returns ([ptr1], [])) = Returns (ptrs, ss2)"
      "agg_compute_stmt cm ptrs (VarRef (IUVar ?o) (iu_type ?o)) = Returns st"
      "c = plain [(?o, iu_type ?o)] (InCurrent (decl_stmt (IUVar ?o) (iu_type ?o)) # loads1 @ loads2 @ ss1 @ ss2 @ [InCurrent st])"
    using assms(5) unfolding AggReaderSubop_code_def Let_def by (auto simp: obind_Returns_iff)
  obtain t where t: "packed = VarRef (IUVar (hd (source_ius s))) t" "type_ok t" "printable N packed" using getIUDeclaration_printable [OF g(1) assms(2)] by auto
  have o1: "printable N o1 \<and> operand o1 \<and> list_all (plain_printable N) (map placed_stmt loads1)"
    by (rule load_offset_printable [OF g(2) out(3) _ offset_value_ok]) simp
  have "\<forall>c. ?v2 = Some c \<longrightarrow> value_ok c" using offset_value_ok by (auto split: option.splits)
  then have o2: "printable N o2 \<and> operand o2 \<and> list_all (plain_printable N) (map placed_stmt loads2)"
    by (rule load_offset_printable [OF g(3) out(3), rotated]) simp
  have p1: "printable N ptr1 \<and> operand ptr1 \<and> list_all (plain_printable N) (map placed_stmt ss1)"
    using o1 out(3) by (intro granule_printable [OF g(4) t(1,2,3)]) (simp_all add: names_words)
  have p2: "(\<forall>ptr\<in>set ptrs. printable N ptr \<and> operand ptr) \<and> list_all (plain_printable N) (map placed_stmt ss2)"
  proof (cases "requiredGranules cm > 1")
    case True
    then obtain ptr2 where "granule_pointer (OpVar (subop_addr s) ''_packed_state_2'') packed o2 = Returns (ptr2, ss2)" "ptrs = [ptr1, ptr2]"
      using g(5) by (auto simp: obind_Returns_iff)
    moreover from granule_printable [OF this(1) t(1,2,3)] have "printable N ptr2 \<and> operand ptr2 \<and> list_all (plain_printable N) (map placed_stmt ss2)"
      using o2 out(3) by (simp add: names_words)
    ultimately show ?thesis using p1 by simp
  qed (use g(5) p1 in auto)
  have "case cm of AggComputeUnpack t \<Rightarrow> True | AggComputeAvg t \<Rightarrow> type_ok t" using assms(1,4) by (simp add: op_printable_def)
  then have "plain_printable N st" using p2 out by (intro compute_printable [OF g(6)]) (auto simp: names_words)
  then show ?thesis using o1 o2 p1 p2 out by (simp add: g(7) plain_code_printable names_words)
qed

lemma decl_ok: "decls_ok N ds \<Longrightarrow> type_ok t \<Longrightarrow> iu_named N i \<Longrightarrow> decls_ok N (ds(i \<mapsto> t))"
  by (simp add: decls_ok_def)

lemma add_decls_ok: "decls_ok N ds \<Longrightarrow> list_all (\<lambda>(i, t). type_ok t \<and> iu_named N i) new \<Longrightarrow> decls_ok N (add_decls new ds)"
proof (induction new arbitrary: ds)
  case (Cons d new)
  obtain i t where d: "d = (i, t)" by (cases d)
  have "decls_ok N (add_decls new (ds(i \<mapsto> t)))"
    by (rule Cons.IH [OF decl_ok [OF Cons.prems(1)]]) (use Cons.prems(2) d in simp_all)
  then show ?case by (simp only: add_decls_def d foldl_Cons prod.case)
qed (simp add: add_decls_def)

lemma function_arg_printable: "function_arg ds outs arg = Returns e \<Longrightarrow> decls_ok N ds \<Longrightarrow> printable N e"
  by (cases arg) (auto simp: function_arg_def Let_def obind_Returns_iff dest!: getIUDeclaration_printable [where N = N])

lemma function_args_printable: "map_outcome (function_arg ds outs) args = Returns es \<Longrightarrow> decls_ok N ds \<Longrightarrow> list_all (printable N) es"
  by (induction args arbitrary: es) (auto simp: obind_Returns_iff function_arg_printable)

lemma runtime_function_printable:
  assumes "op_printable N il tp s" "decls_ok N ds" "RuntimeFunctionSubop_code p ds s f args ref out = Returns c"
  shows "code_printable N c"
proof -
  let ?outs = "map (\<lambda>i. (i, iu_type i)) (provided_ius s)"
  have outs: "list_all (\<lambda>(i, t). type_ok t \<and> iu_named N i) ?outs" using assms(1) by (auto simp: op_printable_def list_all_iff)
  obtain this_object es e st where g: "state_member p s ''RuntimeFunctionSubopState'' ''this_object'' = Returns this_object"
      "map_outcome (function_arg (add_decls ?outs ds) (provided_ius s)) (zip args ref) = Returns es" "invoke f (this_object # es) = Returns e"
      "(case out of None \<Rightarrow> Returns (InvokeFctStmt e) | Some i \<Rightarrow> if i \<in> set (provided_ius s) then Returns (assign_stmt (IUVar i) (iu_type i) e) else Throws ''assertion'') = Returns st"
      "c = plain ?outs (map InCurrent (map (\<lambda>(i, t). decl_stmt (IUVar i) t) ?outs @ [st]))"
    using assms(3) unfolding RuntimeFunctionSubop_code_def Let_def by (auto simp: obind_Returns_iff)
  have "printable N this_object" using state_member_printable [OF g(1)] by blast
  moreover have "list_all (printable N) es" by (rule function_args_printable [OF g(2) add_decls_ok [OF assms(2) outs]])
  ultimately have "printable N e" using invoke_printable [OF g(3), of N] by simp
  then have "plain_printable N st" using g(4) assms(1) by (auto simp: op_printable_def list_all_iff names_words split: option.splits if_splits)
  moreover have "list_all (plain_printable N) (map (\<lambda>(i, t). decl_stmt (IUVar i) t) ?outs)"
    using outs by (auto simp: list_all_iff names_words)
  ultimately show ?thesis using outs by (simp add: g(5) plain_code_printable comp_def)
qed

lemma sink_printable:
  assumes "op_printable N il tp s" "decls_ok N ds"
  shows "CountingSink_code p s = Returns c \<Longrightarrow> code_printable N c" "source_ius s \<noteq> [] \<Longrightarrow> FuseChunkSink_code p ds s = Returns c \<Longrightarrow> code_printable N c"
proof -
  show "CountingSink_code p s = Returns c \<Longrightarrow> code_printable N c"
    by (auto simp: CountingSink_code_def obind_Returns_iff plain_code_printable dest!: state_member_printable [where N = N])
  assume "source_ius s \<noteq> []" and code: "FuseChunkSink_code p ds s = Returns c"
  then have t: "type_ok (iu_type (hd (source_ius s)))" using printable_facts(2) [OF assms] by simp
  note op = printable_facts(1) [OF assms]
  obtain input n start_e size_m where g: "getIUDeclaration ds (hd (source_ius s)) = Returns input" "numBytes (iu_type (hd (source_ius s))) = Returns n"
      "state_member p s ''FuseChunkSinkState'' ''start'' = Returns start_e" "state_member p s ''FuseChunkSinkState'' ''size'' = Returns size_m"
    using code unfolding FuseChunkSink_code_def Let_def by (auto simp: obind_Returns_iff split: if_splits)
  have "printable N input" "printable N start_e" "printable N size_m"
    using getIUDeclaration_printable [OF g(1) assms(2)] state_member_printable [OF g(3)] state_member_printable [OF g(4)] by blast+
  then show "code_printable N c"
    using code t op unfolding FuseChunkSink_code_def Let_def
    by (auto simp: g plain_code_printable names_words split: if_splits)
qed

theorem op_code_printable:
  assumes "op_printable N il tp s" "decls_ok N ds" "code_ok s" "op_code p il tp ds s = Returns c"
  shows "code_printable N c"
proof (cases "kind s")
  case (TScanDriver n) then show ?thesis using assms source_printable [OF assms(1,2)] by (simp add: op_code_def code_ok_def)
next
  case FuseChunkSourceDriver then show ?thesis using assms source_printable [OF assms(1,2)] by (simp add: op_code_def code_ok_def)
next
  case ScratchPadIUProvider then show ?thesis using assms source_printable [OF assms(1,2)] by (simp add: op_code_def code_ok_def)
next
  case (HashTableSource ID st) then show ?thesis using assms table_source_printable [OF assms(1)] by (simp add: op_code_def code_ok_def)
next
  case (TScanIUProvider d) then show ?thesis using assms source_printable(3) [OF assms(1,2)] by (simp add: op_code_def code_ok_def)
next
  case FuseChunkSourceIUProvider then show ?thesis using assms source_printable(3) [OF assms(1,2)] by (simp add: op_code_def code_ok_def)
next
  case (ColumnFilterScope deps) then show ?thesis using assms filter_printable(1) [OF assms(1,2)] by (simp add: op_code_def code_ok_def)
next
  case (ColumnFilterLogic t self) then show ?thesis using assms filter_printable(2) [OF assms(1,2)] by (simp add: op_code_def code_ok_def)
next
  case Copy
  then have "source_ius s \<noteq> []" "provided_ius s \<noteq> []" "Copy_code ds s = Returns c" using assms by (auto simp: op_code_def code_ok_def)
  then show ?thesis using filter_printable(3) [OF assms(1,2)] by blast
next
  case (ExpressionSubop ty) then show ?thesis using assms expression_printable [OF assms(1,2)] by (simp add: op_code_def code_ok_def)
next
  case (RuntimeExpressionSubop ty t data) then show ?thesis using assms runtime_expression_printable [OF assms(1,2)] by (simp add: op_code_def code_ok_def)
next
  case (RuntimeKeyExpressionSubop off)
  then have "source_ius s \<noteq> []" "provided_ius s \<noteq> []" "RuntimeKeyExpressionSubop_code p il ds s off = Returns c"
    using assms by (auto simp: op_code_def code_ok_def)
  then show ?thesis using key_expression_printable [OF assms(1,2)] by blast
next
  case (KeyPackerSubop off) then show ?thesis using assms packer_printable(1) [OF assms(1,2)] by (simp add: op_code_def)
next
  case (KeyUnpackerSubop off) then show ?thesis using assms packer_printable(2) [OF assms(1,2)] by (simp add: op_code_def code_ok_def)
next
  case (AggregatorSubop st off) then show ?thesis using assms aggregator_printable [OF assms(1,2)] by (simp add: op_code_def)
next
  case (AggReaderSubop cm off1 off2) then show ?thesis using assms reader_printable [OF assms(1,2)] by (simp add: op_code_def code_ok_def)
next
  case (RuntimeFunctionSubop f args ref out st) then show ?thesis using assms runtime_function_printable [OF assms(1,2)] by (simp add: op_code_def)
next
  case CountingSink then show ?thesis using assms sink_printable(1) [OF assms(1,2)] by (simp add: op_code_def)
next
  case FuseChunkSink
  then have "source_ius s \<noteq> []" "FuseChunkSink_code p ds s = Returns c" using assms by (auto simp: op_code_def code_ok_def)
  then show ?thesis using sink_printable(2) [OF assms(1,2)] by blast
qed

end
