(* ===== verification/HashTables.thy ===== *)
theory HashTables
  imports Ink_Prelude
begin

text \<open>
  The single-threaded hash tables of the aggregation, \<open>src/runtime/HashTables.{h,cpp}\<close>:
  \<open>SharedHashTableState\<close>, \<open>HashTableSimpleKey\<close>, \<open>HashTableComplexKey\<close> and
  \<open>HashTableDirectLookup\<close>.

  The bodies of the simple and the complex table are the same up to how a key is hashed and
  compared; a \<open>key_cmp\<close> record carries the two, \<open>sk_cmp\<close> and \<open>ck_cmp\<close> are its two values, and the
  operations are written once over it. XXH3 is third-party code and is the parameter \<open>xxh\<close>. The heap that
  the string keys point into is the parameter \<open>strs\<close>: the bytes of the C string behind an 8 byte
  pointer. A pointer into the table is a byte offset into \<open>ht_data\<close> together with the identity of the
  block, which changes when the table is resized. The thread-local restart flag is passed along
  as \<open>bool option\<close>, \<open>None\<close> when no execution context is installed.
\<close>

section \<open>Masks and state\<close>

definition tag_fill_mask :: u8 where "tag_fill_mask = push_bit 7 1"
definition fingerprint_inversion_mask :: u8 where "fingerprint_inversion_mask = tag_fill_mask - 1"
definition tag_hash_mask :: u8 where "tag_hash_mask = tag_fill_mask - 1"

record shared_ht =
  ht_tags :: "u8 list"
  ht_data :: bytes
  mod_mask :: nat
  inserted :: nat
  max_fill :: nat
  total_slot_size :: nat
  data_block :: nat

text \<open>The constructor. \<open>block\<close> is the identity of the block that \<open>make_unique\<close> allocates.\<close>

definition SharedHashTableState :: "nat \<Rightarrow> u16 \<Rightarrow> nat \<Rightarrow> shared_ht outcome" where
  "SharedHashTableState block slot_size start_slots =
     (if start_slots < 2 \<or> start_slots AND (start_slots - 1) \<noteq> 0
      then Throws ''Hash table start size has to power of 2 of at least size 2.''
      else Returns \<lparr> ht_tags = replicate start_slots 0,
                     ht_data = replicate (start_slots * unat slot_size) 0,
                     mod_mask = start_slots - 1, inserted = 0, max_fill = start_slots div 2,
                     total_slot_size = unat slot_size, data_block = block \<rparr>)"

text \<open>The three pointers that the probing loops carry: index, element pointer, tag pointer.\<close>

record cursor =
  cur_idx :: nat
  cur_elem :: nat
  cur_tag :: nat

definition advance :: "shared_ht \<Rightarrow> cursor \<Rightarrow> cursor" where
  "advance st c =
     (if cur_idx c = mod_mask st then \<lparr> cur_idx = 0, cur_elem = 0, cur_tag = 0 \<rparr>
      else \<lparr> cur_idx = cur_idx c + 1, cur_elem = cur_elem c + total_slot_size st, cur_tag = cur_tag c + 1 \<rparr>)"

text \<open>An iterator: \<open>it_data\<close> becomes the null pointer \<open>None\<close> at the end of the table.\<close>

record iter =
  it_idx :: nat
  it_data :: "nat option"
  it_tag :: nat

definition advanceNoWrap :: "shared_ht \<Rightarrow> iter \<Rightarrow> iter" where
  "advanceNoWrap st it =
     (if it_idx it = mod_mask st then it\<lparr> it_data := None \<rparr>
      else \<lparr> it_idx = it_idx it + 1, it_data = map_option (\<lambda>d. d + total_slot_size st) (it_data it),
             it_tag = it_tag it + 1 \<rparr>)"

section \<open>Keys\<close>

text \<open>
  \<open>kc_len\<close> bytes of a slot or of a packed caller key hold the key; \<open>kc_hash\<close> is \<open>computeHash\<close> on
  them, \<open>kc_eq slot key\<close> the comparison of the probing loop.
\<close>

record key_cmp =
  kc_len :: nat
  kc_hash :: "bytes \<Rightarrow> u64"
  kc_eq :: "bytes \<Rightarrow> bytes \<Rightarrow> bool"

definition sk_cmp :: "(bytes \<Rightarrow> u64) \<Rightarrow> u16 \<Rightarrow> key_cmp" where
  "sk_cmp xxh key_size = \<lparr> kc_len = unat key_size, kc_hash = xxh, kc_eq = (\<lambda>slot key. slot = key) \<rparr>"

text \<open>The first 8 bytes are a pointer to the string; a null pointer in a slot compares unequal.\<close>

definition null_ptr :: bytes where "null_ptr = replicate 8 0"

definition ck_cmp :: "(bytes \<Rightarrow> u64) \<Rightarrow> (bytes \<Rightarrow> bytes) \<Rightarrow> key_cmp" where
  "ck_cmp xxh strs = \<lparr> kc_len = 8, kc_hash = (\<lambda>p. xxh (strs p)),
                       kc_eq = (\<lambda>slot key. slot \<noteq> null_ptr \<and> strs slot = strs key) \<rparr>"

text \<open>The salt of the hash that goes into a tag.\<close>

definition hash_tag :: "u64 \<Rightarrow> u8" where "hash_tag hash = ucast (drop_bit 56 hash)"

section \<open>Probing\<close>

definition start_cursor :: "shared_ht \<Rightarrow> u64 \<Rightarrow> cursor" where
  "start_cursor st hash =
     (let idx = unat hash AND mod_mask st
      in \<lparr> cur_idx = idx, cur_elem = idx * total_slot_size st, cur_tag = idx \<rparr>)"

definition findSlotOrEmpty :: "key_cmp \<Rightarrow> shared_ht \<Rightarrow> u64 \<Rightarrow> bytes \<Rightarrow> cursor option" where
  "findSlotOrEmpty kc st hash key =
     (let target_tag = tag_hash_mask AND hash_tag hash
      in probe_loop (advance st)
           (\<lambda>c. let tag_fill = ht_tags st ! cur_tag c AND tag_fill_mask;
                    tag_hash = ht_tags st ! cur_tag c AND tag_hash_mask
                in tag_fill = 0 \<or>
                   tag_hash = target_tag \<and> kc_eq kc (mem_read (cur_elem c) (kc_len kc) (ht_data st)) key)
           (start_cursor st hash))"

definition findFirstEmptySlot :: "shared_ht \<Rightarrow> u64 \<Rightarrow> cursor option" where
  "findFirstEmptySlot st hash =
     probe_loop (advance st) (\<lambda>c. ht_tags st ! cur_tag c = 0) (start_cursor st hash)"

section \<open>Growing\<close>

text \<open>The body of the copy loop for the old slot \<open>idx\<close>, and the loop over the old slots.\<close>

definition move_slot :: "key_cmp \<Rightarrow> shared_ht \<Rightarrow> nat \<Rightarrow> shared_ht \<Rightarrow> shared_ht option" where
  "move_slot kc old idx st =
     (let curr_tag = ht_tags old ! idx; curr_slot = idx * total_slot_size st
      in if curr_tag \<noteq> 0 then
           (case findFirstEmptySlot st (kc_hash kc (mem_read curr_slot (kc_len kc) (ht_data old))) of
              None \<Rightarrow> None
            | Some slot \<Rightarrow> Some (st\<lparr> ht_tags := (ht_tags st)[cur_tag slot := curr_tag],
                ht_data := mem_write (cur_elem slot) (mem_read curr_slot (total_slot_size st) (ht_data old)) (ht_data st) \<rparr>))
         else Some st)"

fun move_slots :: "key_cmp \<Rightarrow> shared_ht \<Rightarrow> nat list \<Rightarrow> shared_ht \<Rightarrow> shared_ht option" where
  "move_slots kc old [] st = Some st"
| "move_slots kc old (idx # rest) st =
     (case move_slot kc old idx st of None \<Rightarrow> None | Some st' \<Rightarrow> move_slots kc old rest st')"

definition reserveSlot :: "key_cmp \<Rightarrow> shared_ht \<times> bool option \<Rightarrow> (shared_ht \<times> bool option) outcome" where
  "reserveSlot kc s = (case s of (st, flag) \<Rightarrow>
     if inserted st < max_fill st then Returns (st, flag)
     else obind (SharedHashTableState (data_block st + 1) (of_nat (total_slot_size st)) (2 * (mod_mask st + 1)))
       (\<lambda>new. obind (from_loop (move_slots kc st [0..<Suc (mod_mask st)] new))
         (\<lambda>st'. Returns (st'\<lparr> inserted := inserted st \<rparr>, map_option (\<lambda>_. True) flag))))"

section \<open>Lookups and inserts\<close>

definition ht_lookup :: "key_cmp \<Rightarrow> shared_ht \<Rightarrow> bytes \<Rightarrow> ptr option outcome" where
  "ht_lookup kc st key =
     obind (from_loop (findSlotOrEmpty kc st (kc_hash kc key) key))
       (\<lambda>slot. Returns (if ht_tags st ! cur_tag slot AND tag_fill_mask \<noteq> 0
                        then Some (data_block st, cur_elem slot) else None))"

definition ht_lookupOrInsert ::
  "key_cmp \<Rightarrow> shared_ht \<times> bool option \<Rightarrow> bytes \<Rightarrow> ((ptr \<times> bool) \<times> (shared_ht \<times> bool option)) outcome" where
  "ht_lookupOrInsert kc s key =
     obind (reserveSlot kc s) (\<lambda>(st, flag).
       let hash = kc_hash kc key
       in obind (from_loop (findSlotOrEmpty kc st hash key)) (\<lambda>slot.
            if ht_tags st ! cur_tag slot = 0 then
              Returns (((data_block st, cur_elem slot), True),
                (st\<lparr> ht_tags := (ht_tags st)[cur_tag slot := tag_fill_mask OR hash_tag hash],
                     ht_data := mem_write (cur_elem slot) key (ht_data st),
                     inserted := inserted st + 1 \<rparr>, flag))
            else Returns (((data_block st, cur_elem slot), False), (st, flag))))"

text \<open>
  The flat \<open>lookupOrInsert(key)\<close> overload drops the flag, and a client that owns a pointer
  writes the payload through it.
\<close>

definition ht_lookupOrInsert1 ::
  "key_cmp \<Rightarrow> shared_ht \<times> bool option \<Rightarrow> bytes \<Rightarrow> (ptr \<times> (shared_ht \<times> bool option)) outcome" where
  "ht_lookupOrInsert1 kc s key =
     obind (ht_lookupOrInsert kc s key) (\<lambda>((result, is_new_key), s'). Returns (result, s'))"

definition ht_store :: "nat \<Rightarrow> bytes \<Rightarrow> shared_ht \<Rightarrow> shared_ht" where
  "ht_store addr bs st = st\<lparr> ht_data := mem_write addr bs (ht_data st) \<rparr>"

section \<open>Iterators, size and capacity\<close>

definition skip_empty :: "shared_ht \<Rightarrow> iter \<Rightarrow> iter option" where
  "skip_empty st it =
     probe_loop (advanceNoWrap st)
       (\<lambda>it. \<not> (ht_tags st ! it_tag it AND tag_fill_mask = 0 \<and> it_data it \<noteq> None)) it"

definition iteratorStart :: "shared_ht \<Rightarrow> iter option" where
  "iteratorStart st = skip_empty st \<lparr> it_idx = 0, it_data = Some 0, it_tag = 0 \<rparr>"

definition iteratorAdvance :: "shared_ht \<Rightarrow> iter \<Rightarrow> iter option" where
  "iteratorAdvance st it = skip_empty st (advanceNoWrap st (it\<lparr> it_tag := it_idx it \<rparr>))"

definition ht_size :: "shared_ht \<Rightarrow> nat" where "ht_size st = inserted st"
definition capacity :: "shared_ht \<Rightarrow> nat" where "capacity st = mod_mask st + 1"

text \<open>The scan \<open>for (iteratorStart; it != nullptr; iteratorAdvance)\<close> of every client.\<close>

partial_function (option) scan_from :: "shared_ht \<Rightarrow> iter \<Rightarrow> nat list option" where
  "scan_from st it = (case it_data it of
       None \<Rightarrow> Some []
     | Some d \<Rightarrow> Option.bind (iteratorAdvance st it) (\<lambda>it'.
                   Option.bind (scan_from st it') (\<lambda>ds. Some (d # ds))))"

definition scan_table :: "shared_ht \<Rightarrow> nat list option" where
  "scan_table st = Option.bind (iteratorStart st) (scan_from st)"

section \<open>\<open>HashTableSimpleKey\<close>\<close>

definition HashTableSimpleKey :: "nat \<Rightarrow> u16 \<Rightarrow> u16 \<Rightarrow> nat \<Rightarrow> shared_ht outcome" where
  "HashTableSimpleKey block key_size payload_size start_slots =
     obind (SharedHashTableState block (key_size + payload_size) start_slots) (\<lambda>st.
       if key_size = 0 then SharedHashTableState block (key_size + payload_size) 4 else Returns st)"

definition lookupDisable :: "key_cmp \<Rightarrow> shared_ht \<Rightarrow> bytes \<Rightarrow> (ptr option \<times> shared_ht) outcome" where
  "lookupDisable kc st key =
     obind (from_loop (findSlotOrEmpty kc st (kc_hash kc key) key)) (\<lambda>slot.
       let tag_before = ht_tags st ! cur_tag slot;
           st' = st\<lparr> ht_tags := (ht_tags st)[cur_tag slot := tag_before XOR fingerprint_inversion_mask] \<rparr>
       in Returns (if tag_before AND tag_fill_mask \<noteq> 0 then Some (data_block st, cur_elem slot) else None, st'))"

definition sk_insert ::
  "key_cmp \<Rightarrow> shared_ht \<times> bool option \<Rightarrow> bytes \<Rightarrow> (ptr \<times> (shared_ht \<times> bool option)) outcome" where
  "sk_insert kc s key =
     obind (reserveSlot kc s) (\<lambda>(st, flag).
       let hash = kc_hash kc key
       in obind (from_loop (probe_loop (advance st) (\<lambda>c. ht_tags st ! cur_tag c AND tag_fill_mask = 0)
                   (start_cursor st hash)))
            (\<lambda>c. Returns ((data_block st, cur_elem c),
               (st\<lparr> ht_tags := (ht_tags st)[cur_tag c := tag_fill_mask OR hash_tag hash],
                    ht_data := mem_write (cur_elem c) key (ht_data st),
                    inserted := inserted st + 1 \<rparr>, flag))))"

definition lookupOrInsertSingleKey :: "shared_ht \<Rightarrow> ptr \<times> shared_ht" where
  "lookupOrInsertSingleKey st =
     ((data_block st, 0),
      if ht_tags st ! 0 = 0
      then st\<lparr> ht_tags := (ht_tags st)[0 := tag_fill_mask], inserted := inserted st + 1 \<rparr> else st)"

text \<open>
  \<open>1.2 * 2 * x\<close> is computed in \<open>double\<close> and truncated; for the sizes at hand that is the integer
  part of \<open>12 x / 5\<close>. \<open>64 - clzl(n)\<close> is the number of bits of \<open>n\<close>.
\<close>

fun bit_length :: "nat \<Rightarrow> nat" where
  "bit_length n = (if n = 0 then 0 else Suc (bit_length (n div 2)))"

definition slots_per_merge_table :: "nat list \<Rightarrow> nat \<Rightarrow> nat" where
  "slots_per_merge_table sizes thread_count =
     (let total_keys = sum_list sizes;
          per_thread = 12 * max 8 (total_keys div thread_count) div 5
      in 2 ^ bit_length (per_thread - 1))"

fun repeat_new :: "nat \<Rightarrow> 'a outcome \<Rightarrow> 'a list outcome" where
  "repeat_new 0 mk = Returns []"
| "repeat_new (Suc k) mk = obind mk (\<lambda>t. obind (repeat_new k mk) (\<lambda>ts. Returns (t # ts)))"

definition sk_buildMergeTables :: "u16 \<Rightarrow> shared_ht list \<Rightarrow> nat \<Rightarrow> shared_ht list outcome" where
  "sk_buildMergeTables key_size preagg thread_count =
     (let payload_size = of_nat (total_slot_size (preagg ! 0)) - key_size
      in repeat_new thread_count
           (HashTableSimpleKey 0 key_size payload_size
             (slots_per_merge_table (map ht_size preagg) thread_count)))"

section \<open>\<open>HashTableComplexKey\<close>\<close>

definition HashTableComplexKey :: "nat \<Rightarrow> u16 \<Rightarrow> u16 \<Rightarrow> u16 \<Rightarrow> nat \<Rightarrow> shared_ht outcome" where
  "HashTableComplexKey block simple_key_size complex_key_slots payload_size start_slots =
     obind (SharedHashTableState block (simple_key_size + 8 * complex_key_slots + payload_size) start_slots)
       (\<lambda>st. if simple_key_size \<noteq> 0 \<or> complex_key_slots \<noteq> 1
             then Throws ''InkFuse currently only supports complex hash tables with a single string.''
             else Returns st)"

definition ck_computeHash :: "(bytes \<Rightarrow> u64) \<Rightarrow> (bytes \<Rightarrow> bytes) \<Rightarrow> bytes \<Rightarrow> u64" where
  "ck_computeHash xxh strs key = xxh (strs key)"

definition ck_findSlotOrEmpty :: "(bytes \<Rightarrow> bytes) \<Rightarrow> shared_ht \<Rightarrow> u64 \<Rightarrow> bytes \<Rightarrow> cursor option" where
  "ck_findSlotOrEmpty strs st hash str =
     (let target_tag = tag_hash_mask AND hash_tag hash
      in probe_loop (advance st)
           (\<lambda>c. let tag_fill = ht_tags st ! cur_tag c AND tag_fill_mask;
                    tag_hash = ht_tags st ! cur_tag c AND tag_hash_mask;
                    elem_string = mem_read (cur_elem c) 8 (ht_data st)
                in tag_fill = 0 \<or> tag_hash = target_tag \<and> elem_string \<noteq> null_ptr \<and> strs elem_string = str)
           (start_cursor st hash))"

definition ck_findFirstEmptySlot :: "shared_ht \<Rightarrow> u64 \<Rightarrow> cursor option" where
  "ck_findFirstEmptySlot st hash =
     probe_loop (advance st) (\<lambda>c. ht_tags st ! cur_tag c = 0) (start_cursor st hash)"

fun ck_move_slots ::
  "(bytes \<Rightarrow> u64) \<Rightarrow> (bytes \<Rightarrow> bytes) \<Rightarrow> shared_ht \<Rightarrow> nat list \<Rightarrow> shared_ht \<Rightarrow> shared_ht option" where
  "ck_move_slots xxh strs old [] st = Some st"
| "ck_move_slots xxh strs old (idx # rest) st =
     (let curr_tag = ht_tags old ! idx; curr_slot = idx * total_slot_size st
      in if curr_tag \<noteq> 0 then
           let hash = xxh (strs (mem_read curr_slot 8 (ht_data old)))
           in (case ck_findFirstEmptySlot st hash of
                 None \<Rightarrow> None
               | Some slot \<Rightarrow> ck_move_slots xxh strs old rest
                   (st\<lparr> ht_tags := (ht_tags st)[cur_tag slot := curr_tag],
                        ht_data := mem_write (cur_elem slot) (mem_read curr_slot (total_slot_size st) (ht_data old)) (ht_data st) \<rparr>))
         else ck_move_slots xxh strs old rest st)"

definition ck_reserveSlot ::
  "(bytes \<Rightarrow> u64) \<Rightarrow> (bytes \<Rightarrow> bytes) \<Rightarrow> shared_ht \<times> bool option \<Rightarrow> (shared_ht \<times> bool option) outcome" where
  "ck_reserveSlot xxh strs s = (case s of (st, flag) \<Rightarrow>
     if inserted st < max_fill st then Returns (st, flag)
     else obind (SharedHashTableState (data_block st + 1) (of_nat (total_slot_size st)) (2 * (mod_mask st + 1)))
       (\<lambda>new. obind (from_loop (ck_move_slots xxh strs st [0..<Suc (mod_mask st)] new))
         (\<lambda>st'. Returns (st'\<lparr> inserted := inserted st \<rparr>, map_option (\<lambda>_. True) flag))))"

definition ck_lookup :: "(bytes \<Rightarrow> u64) \<Rightarrow> (bytes \<Rightarrow> bytes) \<Rightarrow> shared_ht \<Rightarrow> bytes \<Rightarrow> ptr option outcome" where
  "ck_lookup xxh strs st key =
     (let str = strs key; hash = xxh str
      in obind (from_loop (ck_findSlotOrEmpty strs st hash str))
           (\<lambda>slot. Returns (if ht_tags st ! cur_tag slot AND tag_fill_mask \<noteq> 0
                            then Some (data_block st, cur_elem slot) else None)))"

definition ck_lookupOrInsert ::
  "(bytes \<Rightarrow> u64) \<Rightarrow> (bytes \<Rightarrow> bytes) \<Rightarrow> shared_ht \<times> bool option \<Rightarrow> bytes \<Rightarrow>
   ((ptr \<times> bool) \<times> (shared_ht \<times> bool option)) outcome" where
  "ck_lookupOrInsert xxh strs s key =
     obind (ck_reserveSlot xxh strs s) (\<lambda>(st, flag).
       let str = strs key; hash = xxh str
       in obind (from_loop (ck_findSlotOrEmpty strs st hash str)) (\<lambda>slot.
            if ht_tags st ! cur_tag slot = 0 then
              Returns (((data_block st, cur_elem slot), True),
                (st\<lparr> ht_tags := (ht_tags st)[cur_tag slot := tag_fill_mask OR hash_tag hash],
                     ht_data := mem_write (cur_elem slot) key (ht_data st),
                     inserted := inserted st + 1 \<rparr>, flag))
            else Returns (((data_block st, cur_elem slot), False), (st, flag))))"

definition ck_iteratorStart :: "shared_ht \<Rightarrow> iter option" where
  "ck_iteratorStart st =
     probe_loop (advanceNoWrap st) (\<lambda>it. \<not> (ht_tags st ! it_tag it AND tag_fill_mask = 0 \<and> it_data it \<noteq> None))
       \<lparr> it_idx = 0, it_data = Some 0, it_tag = 0 \<rparr>"

definition ck_iteratorAdvance :: "shared_ht \<Rightarrow> iter \<Rightarrow> iter option" where
  "ck_iteratorAdvance st it =
     probe_loop (advanceNoWrap st) (\<lambda>it. \<not> (ht_tags st ! it_tag it AND tag_fill_mask = 0 \<and> it_data it \<noteq> None))
       (advanceNoWrap st (it\<lparr> it_tag := it_idx it \<rparr>))"

text \<open>The operations on string keys are the shared ones at \<open>ck_cmp\<close>.\<close>

lemma ck_findSlotOrEmpty_eq:
  "ck_findSlotOrEmpty strs st hash (strs key) = findSlotOrEmpty (ck_cmp xxh strs) st hash key"
  by (simp only: ck_findSlotOrEmpty_def findSlotOrEmpty_def ck_cmp_def Let_def key_cmp.simps)

lemma ck_move_slots_eq: "ck_move_slots xxh strs old is st = move_slots (ck_cmp xxh strs) old is st"
  by (induction "is" arbitrary: st)
    (simp_all add: move_slot_def ck_findFirstEmptySlot_def findFirstEmptySlot_def ck_cmp_def Let_def split: option.split)

lemma ck_reserveSlot_eq: "ck_reserveSlot xxh strs s = reserveSlot (ck_cmp xxh strs) s"
  by (cases s) (simp only: ck_reserveSlot_def reserveSlot_def ck_move_slots_eq prod.case)

lemma ck_hash_eq: "kc_hash (ck_cmp xxh strs) key = xxh (strs key)"
  by (simp add: ck_cmp_def)

lemma ck_lookup_eq: "ck_lookup xxh strs st key = ht_lookup (ck_cmp xxh strs) st key"
  by (simp add: ck_lookup_def ht_lookup_def ck_hash_eq ck_findSlotOrEmpty_eq [of strs st _ key xxh] Let_def)

lemma ck_lookupOrInsert_eq: "ck_lookupOrInsert xxh strs s key = ht_lookupOrInsert (ck_cmp xxh strs) s key"
  by (simp add: ck_lookupOrInsert_def ht_lookupOrInsert_def ck_hash_eq ck_findSlotOrEmpty_eq [of strs _ _ key xxh]
      ck_reserveSlot_eq Let_def)

lemma ck_iterator_eq: "ck_iteratorStart = iteratorStart" "ck_iteratorAdvance = iteratorAdvance"
  by (simp_all only: fun_eq_iff ck_iteratorStart_def ck_iteratorAdvance_def iteratorStart_def iteratorAdvance_def skip_empty_def simp_thms)

definition ck_buildMergeTables :: "u16 \<Rightarrow> shared_ht list \<Rightarrow> nat \<Rightarrow> shared_ht list outcome" where
  "ck_buildMergeTables payload_size preagg thread_count =
     repeat_new thread_count (HashTableComplexKey 0 0 1 payload_size
       (slots_per_merge_table (map ht_size preagg) thread_count))"

section \<open>\<open>HashTableDirectLookup\<close>\<close>

record direct_ht =
  dl_data :: bytes
  dl_tags :: "bool list"
  num_inserted :: nat
  dl_slot_size :: nat

text \<open>The little-endian reading of the two key bytes, and back.\<close>

definition load_u16 :: "bytes \<Rightarrow> nat" where "load_u16 key = unat (key ! 0) + 256 * unat (key ! 1)"
definition store_u16 :: "nat \<Rightarrow> bytes" where "store_u16 idx = [of_nat (idx mod 256), of_nat (idx div 256)]"

definition HashTableDirectLookup :: "u16 \<Rightarrow> direct_ht" where
  "HashTableDirectLookup payload_size =
     (let slot_size = unat (2 + payload_size)
      in \<lparr> dl_data = replicate (65536 * slot_size) 0, dl_tags = replicate 65536 False,
           num_inserted = 0, dl_slot_size = slot_size \<rparr>)"

definition dl_buildMergeTables :: "direct_ht list \<Rightarrow> nat \<Rightarrow> direct_ht list" where
  "dl_buildMergeTables preagg thread_count =
     map (\<lambda>_. HashTableDirectLookup (of_nat (dl_slot_size (preagg ! 0)) - 2)) [0..<thread_count]"

definition dl_computeHash :: "bytes \<Rightarrow> u64" where "dl_computeHash key = of_nat (load_u16 key)"

definition dl_lookup :: "direct_ht \<Rightarrow> bytes \<Rightarrow> nat option" where
  "dl_lookup st key = (let idx = load_u16 key in if dl_tags st ! idx then Some (dl_slot_size st * idx) else None)"

definition dl_lookupOrInsert :: "direct_ht \<Rightarrow> bytes \<Rightarrow> nat \<times> direct_ht" where
  "dl_lookupOrInsert st key =
     (let idx = load_u16 key; ptr = dl_slot_size st * idx
      in (ptr, \<lparr> dl_data = mem_write ptr (store_u16 idx) (dl_data st), dl_tags = (dl_tags st)[idx := True],
                 num_inserted = (if \<not> dl_tags st ! idx then num_inserted st + 1 else num_inserted st),
                 dl_slot_size = dl_slot_size st \<rparr>))"

text \<open>The iterator: index and data pointer, the pointer null at the end.\<close>

function dl_skip :: "direct_ht \<Rightarrow> nat \<times> nat \<Rightarrow> nat \<times> nat option" where
  "dl_skip st (idx, data) =
     (if idx < 65536 then
        if dl_tags st ! idx then (idx, Some data) else dl_skip st (idx + 1, data + dl_slot_size st)
      else (idx, None))"
  by pat_completeness auto
termination by (relation "measure (\<lambda>(st, idx, data). 65536 - idx)") auto

definition dl_iteratorAdvance :: "direct_ht \<Rightarrow> nat \<times> nat \<Rightarrow> nat \<times> nat option" where
  "dl_iteratorAdvance st it = (case it of (idx, data) \<Rightarrow> dl_skip st (idx + 1, data + dl_slot_size st))"

definition dl_iteratorStart :: "direct_ht \<Rightarrow> nat \<times> nat option" where
  "dl_iteratorStart st = (if \<not> dl_tags st ! 0 then dl_iteratorAdvance st (0, 0) else (0, Some 0))"

definition dl_size :: "direct_ht \<Rightarrow> nat" where "dl_size st = num_inserted st"
definition dl_capacity :: "direct_ht \<Rightarrow> nat" where "dl_capacity st = 65536"

declare bit_length.simps [simp del] dl_skip.simps [simp del]

end
