(* ===== verification/HashTable_Inv.thy ===== *)
theory HashTable_Inv
  imports HashTables
begin

text \<open>
  The invariant of the open-addressing tables, the multiset of their entries, and what the probing loops find.
  \<open>key_laws\<close> states what the tables rely on about keys; it is interpreted on the simple and on
  the string keys.
\<close>

section \<open>Tags\<close>

lemma tag_masks: "tag_fill_mask = 128" "fingerprint_inversion_mask = 127" "tag_hash_mask = 127"
  by (simp_all add: tag_fill_mask_def fingerprint_inversion_mask_def tag_hash_mask_def)

definition filled :: "u8 \<Rightarrow> bool" where "filled t \<longleftrightarrow> t AND tag_fill_mask \<noteq> 0"
definition fingerprint :: "u64 \<Rightarrow> u8" where "fingerprint hash = tag_hash_mask AND hash_tag hash"
definition new_tag :: "u64 \<Rightarrow> u8" where "new_tag hash = tag_fill_mask OR hash_tag hash"

lemma bit_128 [simp]: "bit (128::int) n \<longleftrightarrow> n = 7"
proof -
  have "(128::int) = push_bit 7 1" by simp
  then show ?thesis by (simp only: bit_push_bit_iff bit_1_iff) auto
qed

lemma bit_127 [simp]: "bit (127::int) n \<longleftrightarrow> n < 7"
proof -
  have "(127::int) = mask 7" by (simp add: mask_eq_exp_minus_1)
  then show ?thesis by (simp only: bit_mask_iff) auto
qed

lemma filled_bit: "filled t \<longleftrightarrow> bit t 7"
  using and_exp_eq_0_iff_not_bit [of t 7] by (simp add: filled_def tag_masks)

lemma filled_nonzero: "filled t \<Longrightarrow> t \<noteq> 0"
  by (auto simp: filled_def)

lemma not_filled_0 [simp]: "\<not> filled 0"
  by (simp add: filled_def)

lemma filled_new_tag [simp]: "filled (new_tag h)"
  by (simp add: filled_bit new_tag_def tag_masks bit_or_iff)

lemma new_tag_nonzero [simp]: "new_tag h \<noteq> 0"
  using filled_new_tag filled_nonzero by blast

lemma new_tag_fingerprint [simp]: "new_tag h AND tag_hash_mask = fingerprint h"
  by (auto intro!: bit_word_eqI simp: new_tag_def fingerprint_def tag_masks bit_and_iff bit_or_iff)

text \<open>Inverting the fingerprint keeps the slot filled, and no key with that fingerprint matches any more.\<close>

lemma filled_invert [simp]: "filled (t XOR fingerprint_inversion_mask) = filled t"
  by (simp add: filled_bit tag_masks bit_xor_iff)

lemma invert_fingerprint:
  "(t XOR fingerprint_inversion_mask) AND tag_hash_mask \<noteq> t AND tag_hash_mask"
proof -
  have "bit ((t XOR fingerprint_inversion_mask) AND tag_hash_mask) 0 \<noteq> bit (t AND tag_hash_mask) 0"
    by (simp add: tag_masks bit_and_iff bit_xor_iff)
  then show ?thesis by metis
qed

section \<open>Slots and entries\<close>

definition slot_at :: "shared_ht \<Rightarrow> nat \<Rightarrow> bytes" where
  "slot_at st i = mem_read (i * total_slot_size st) (total_slot_size st) (ht_data st)"

definition entry_at :: "shared_ht \<Rightarrow> nat \<Rightarrow> u8 \<times> bytes" where
  "entry_at st i = (ht_tags st ! i, slot_at st i)"

definition used :: "shared_ht \<Rightarrow> nat set" where
  "used st = {i. i < length (ht_tags st) \<and> ht_tags st ! i \<noteq> 0}"

definition entries :: "shared_ht \<Rightarrow> (u8 \<times> bytes) multiset" where
  "entries st = image_mset (entry_at st) (mset_set (used st))"

lemma finite_used [simp, intro]: "finite (used st)" by (simp add: used_def)

lemma set_entries: "set_mset (entries st) = entry_at st ` used st" by (simp add: entries_def)
lemma size_entries: "size (entries st) = card (used st)" by (simp add: entries_def)

text \<open>The key of a slot, and whether an entry answers a lookup of \<open>key\<close>.\<close>

definition slot_key :: "key_cmp \<Rightarrow> bytes \<Rightarrow> bytes" where "slot_key kc s = take (kc_len kc) s"

definition matches :: "key_cmp \<Rightarrow> bytes \<Rightarrow> u8 \<times> bytes \<Rightarrow> bool" where
  "matches kc key e \<longleftrightarrow> filled (fst e) \<and> fst e AND tag_hash_mask = fingerprint (kc_hash kc key) \<and>
     kc_eq kc (slot_key kc (snd e)) key"

text \<open>The abstraction: the table is a map from keys to the bytes of the slot that holds the key.\<close>

definition ht_abs :: "key_cmp \<Rightarrow> shared_ht \<Rightarrow> bytes \<Rightarrow> bytes option" where
  "ht_abs kc st key =
     map_option snd (find (matches kc key) (map (entry_at st) [0..<length (ht_tags st)]))"

section \<open>The invariant\<close>

definition nslots :: "shared_ht \<Rightarrow> nat" where "nslots st = length (ht_tags st)"

text \<open>The shape of the arrays.\<close>

definition ht_shape :: "key_cmp \<Rightarrow> shared_ht \<Rightarrow> bool" where
  "ht_shape kc st \<longleftrightarrow> length (ht_tags st) = mod_mask st + 1 \<and> pot (mod_mask st + 1) \<and> 1 \<le> mod_mask st \<and>
     length (ht_data st) = (mod_mask st + 1) * total_slot_size st \<and> total_slot_size st < 65536 \<and>
     kc_len kc \<le> total_slot_size st \<and> max_fill st = (mod_mask st + 1) div 2"

text \<open>The home slot of a hash, and the chain property: no free slot between home and entry.\<close>

definition home :: "shared_ht \<Rightarrow> u64 \<Rightarrow> nat" where "home st hash = unat hash mod (mod_mask st + 1)"

definition reaches :: "shared_ht \<Rightarrow> nat \<Rightarrow> nat \<Rightarrow> bool" where
  "reaches st h i \<longleftrightarrow> (\<exists>d\<le>mod_mask st. i = (h + d) mod (mod_mask st + 1) \<and>
     (\<forall>e<d. ht_tags st ! ((h + e) mod (mod_mask st + 1)) \<noteq> 0))"

definition chained :: "key_cmp \<Rightarrow> shared_ht \<Rightarrow> bool" where
  "chained kc st \<longleftrightarrow> (\<forall>i\<in>used st. reaches st (home st (kc_hash kc (slot_key kc (slot_at st i)))) i)"

text \<open>Free slots hold zero bytes, as a group's payload starts from zero.\<close>

definition zeroed :: "shared_ht \<Rightarrow> bool" where
  "zeroed st \<longleftrightarrow> (\<forall>i<length (ht_tags st). ht_tags st ! i = 0 \<longrightarrow> slot_at st i = replicate (total_slot_size st) 0)"

text \<open>
  Entries: the fill bit is set, the key is valid, the fingerprint is that of its hash or the
  inverse of it (a disabled entry), and at most one entry answers a lookup.
\<close>

definition good_entry :: "(bytes \<Rightarrow> bool) \<Rightarrow> u8 \<times> bytes \<Rightarrow> bool" where
  "good_entry ok e \<longleftrightarrow> filled (fst e) \<and> ok (snd e)"

definition entries_ok :: "key_cmp \<Rightarrow> (bytes \<Rightarrow> bool) \<Rightarrow> (u8 \<times> bytes) multiset \<Rightarrow> bool" where
  "entries_ok kc ok es \<longleftrightarrow> (\<forall>e\<in>#es. good_entry (\<lambda>s. ok (slot_key kc s)) e) \<and>
     (\<forall>key. ok key \<longrightarrow> size (filter_mset (matches kc key) es) \<le> 1)"

definition ht_inv :: "key_cmp \<Rightarrow> (bytes \<Rightarrow> bool) \<Rightarrow> shared_ht \<Rightarrow> bool" where
  "ht_inv kc ok st \<longleftrightarrow> ht_shape kc st \<and> chained kc st \<and> zeroed st \<and> entries_ok kc ok (entries st) \<and>
     inserted st = size (entries st) \<and> inserted st \<le> max_fill st"

text \<open>The invariant of a table that is being filled by the copy loop: the counter is not kept.\<close>

definition ht_core :: "key_cmp \<Rightarrow> shared_ht \<Rightarrow> bool" where
  "ht_core kc st \<longleftrightarrow> ht_shape kc st \<and> chained kc st \<and> zeroed st"

section \<open>Probing in well-shaped tables\<close>

lemma and_mask_mod: "pot (m + 1) \<Longrightarrow> n AND m = n mod (m + 1)" for n m :: nat
proof -
  assume "pot (m + 1)"
  then obtain k where k: "m + 1 = 2 ^ k" by (auto simp: pot_def)
  then have "m = mask k" by (metis add_diff_cancel_right' mask_nat_def)
  then show ?thesis using k by (simp add: take_bit_eq_mask [symmetric] take_bit_nat_def)
qed

definition cursor_at :: "shared_ht \<Rightarrow> nat \<Rightarrow> cursor" where
  "cursor_at st i = \<lparr> cur_idx = i, cur_elem = i * total_slot_size st, cur_tag = i \<rparr>"

lemma cursor_at_simps [simp]:
  "cur_idx (cursor_at st i) = i" "cur_elem (cursor_at st i) = i * total_slot_size st" "cur_tag (cursor_at st i) = i"
  by (simp_all add: cursor_at_def)

lemma start_cursor_at: "ht_shape kc st \<Longrightarrow> start_cursor st hash = cursor_at st (home st hash)"
  by (simp add: start_cursor_def cursor_at_def home_def ht_shape_def Let_def and_mask_mod)

lemma advance_at: "i \<le> mod_mask st \<Longrightarrow> advance st (cursor_at st i) = cursor_at st (Suc i mod (mod_mask st + 1))"
  by (auto simp: advance_def cursor_at_def mod_Suc)

lemma advance_funpow:
  "i \<le> mod_mask st \<Longrightarrow> (advance st ^^ k) (cursor_at st i) = cursor_at st ((i + k) mod (mod_mask st + 1))"
proof (induction k)
  case 0 then show ?case by simp
next
  case (Suc k)
  have "(i + k) mod (mod_mask st + 1) \<le> mod_mask st" by (simp add: less_Suc_eq_le [symmetric])
  with Suc show ?case by (simp add: advance_at) (metis mod_Suc_eq)
qed

lemma home_le: "home st hash \<le> mod_mask st"
  by (simp add: home_def less_Suc_eq_le [symmetric])

text \<open>
  The probing loop with a stop test on slots: it ends at the first slot of the cyclic order that
  passes the test, and it ends whenever some slot passes it.
\<close>

lemma probe_slots:
  assumes shape: "ht_shape kc st" and ex: "i \<le> mod_mask st" "P i"
  obtains d where "probe_loop (advance st) (\<lambda>c. P (cur_tag c)) (start_cursor st hash) =
      Some (cursor_at st ((home st hash + d) mod (mod_mask st + 1)))"
    "d \<le> mod_mask st" "P ((home st hash + d) mod (mod_mask st + 1))"
    "\<And>e. e < d \<Longrightarrow> \<not> P ((home st hash + e) mod (mod_mask st + 1))"
proof -
  let ?n = "mod_mask st + 1" and ?h = "home st hash"
  obtain d where dle: "d \<le> mod_mask st" and Pd: "P ((?h + d) mod ?n)" and nP: "\<And>e. e < d \<Longrightarrow> \<not> P ((?h + e) mod ?n)"
    using first_slot [where P = P, OF home_le ex, of hash] by blast
  have "probe_loop (advance st) (\<lambda>c. P (cur_tag c)) (start_cursor st hash) =
      Some ((advance st ^^ d) (cursor_at st ?h))"
    unfolding start_cursor_at [OF shape]
    by (rule probe_loop_least) (use Pd nP in \<open>simp_all add: advance_funpow home_le\<close>)
  with that [of d] dle Pd nP show thesis by (simp add: advance_funpow home_le)
qed

lemma probe_loop_cong:
  assumes "\<And>k. stop ((adv ^^ k) c) = stop' ((adv ^^ k) c)"
  shows "probe_loop adv stop c = probe_loop adv stop' c"
proof (cases "probe_loop adv stop c")
  case None
  with assms show ?thesis by (simp add: probe_loop_None_iff) (metis probe_loop_None_iff)
next
  case (Some d)
  from probe_loop_SomeD [OF this] obtain k where "d = (adv ^^ k) c" "stop d" "\<forall>m<k. \<not> stop ((adv ^^ m) c)" by blast
  with assms have "probe_loop adv stop' c = Some d" by (metis probe_loop_least)
  with Some show ?thesis by simp
qed

text \<open>The stop test of \<open>findSlotOrEmpty\<close> on slot numbers.\<close>

lemma mem_read_key: "kc_len kc \<le> total_slot_size st \<Longrightarrow>
    mem_read (i * total_slot_size st) (kc_len kc) (ht_data st) = slot_key kc (slot_at st i)"
  by (simp add: slot_key_def slot_at_def mem_read_def min_def)

lemma findSlotOrEmpty_slots:
  assumes "ht_shape kc st"
  shows "findSlotOrEmpty kc st (kc_hash kc key) key =
     probe_loop (advance st)
       (\<lambda>c. \<not> filled (ht_tags st ! cur_tag c) \<or> matches kc key (entry_at st (cur_tag c)))
       (start_cursor st (kc_hash kc key))"
  unfolding findSlotOrEmpty_def Let_def start_cursor_at [OF assms]
proof (rule probe_loop_cong)
  fix k
  show "(ht_tags st ! cur_tag ((advance st ^^ k) (cursor_at st (home st (kc_hash kc key)))) AND tag_fill_mask = 0 \<or>
      ht_tags st ! cur_tag ((advance st ^^ k) (cursor_at st (home st (kc_hash kc key)))) AND tag_hash_mask =
        tag_hash_mask AND hash_tag (kc_hash kc key) \<and>
      kc_eq kc (mem_read (cur_elem ((advance st ^^ k) (cursor_at st (home st (kc_hash kc key))))) (kc_len kc) (ht_data st)) key) =
    (\<not> filled (ht_tags st ! cur_tag ((advance st ^^ k) (cursor_at st (home st (kc_hash kc key))))) \<or>
      matches kc key (entry_at st (cur_tag ((advance st ^^ k) (cursor_at st (home st (kc_hash kc key)))))))"
    using assms
    by (auto simp: advance_funpow home_le matches_def entry_at_def filled_def fingerprint_def mem_read_key ht_shape_def)
qed

end
