(* ===== verification/HashTable_Ops.thy ===== *)
theory HashTable_Ops
  imports HashTable_Inv
begin

text \<open>
  What each operation of the open-addressing tables does to the invariant and to the map that the
  table stands for.
\<close>

section \<open>What the tables rely on about keys\<close>

locale key_laws =
  fixes kc :: key_cmp and ok :: "bytes \<Rightarrow> bool"
  assumes key_length: "ok k \<Longrightarrow> length k = kc_len kc"
    and key_refl: "ok k \<Longrightarrow> kc_eq kc k k"
    and key_sym: "ok a \<Longrightarrow> ok b \<Longrightarrow> kc_eq kc a b \<Longrightarrow> kc_eq kc b a"
    and key_trans: "ok a \<Longrightarrow> ok b \<Longrightarrow> ok c \<Longrightarrow> kc_eq kc a b \<Longrightarrow> kc_eq kc b c \<Longrightarrow> kc_eq kc a c"
    and key_hash: "ok a \<Longrightarrow> ok b \<Longrightarrow> kc_eq kc a b \<Longrightarrow> kc_hash kc a = kc_hash kc b"

section \<open>The abstraction and the entries\<close>

lemma find_Some_ex: "find P xs = Some x \<Longrightarrow> x \<in> set xs \<and> P x"
  by (auto simp: find_Some_iff)

lemma matches_nonzero: "matches kc key e \<Longrightarrow> fst e \<noteq> 0"
  by (auto simp: matches_def filled_nonzero)

lemma entries_iff: "e \<in># entries st \<longleftrightarrow> e \<in> set (map (entry_at st) [0..<length (ht_tags st)]) \<and> fst e \<noteq> 0"
  by (auto simp: set_entries used_def entry_at_def)

lemma ht_abs_Some: "ht_abs kc st key = Some s \<Longrightarrow> \<exists>t. (t, s) \<in># entries st \<and> matches kc key (t, s)"
proof -
  assume "ht_abs kc st key = Some s"
  then obtain e where e: "find (matches kc key) (map (entry_at st) [0..<length (ht_tags st)]) = Some e" "snd e = s"
    by (auto simp only: ht_abs_def map_option_eq_Some)
  then have "e \<in># entries st" "matches kc key e"
    unfolding entries_iff using find_Some_ex [OF e(1)] matches_nonzero by blast+
  with e(2) show ?thesis by (metis prod.collapse)
qed

lemma ht_abs_None: "ht_abs kc st key = None \<longleftrightarrow> (\<forall>e\<in>#entries st. \<not> matches kc key e)"
proof -
  have "(\<nexists>x. x \<in> A \<and> matches kc key x) \<longleftrightarrow> (\<forall>x. x \<in> A \<and> fst x \<noteq> 0 \<longrightarrow> \<not> matches kc key x)" for A
    using matches_nonzero by metis
  then show ?thesis unfolding ht_abs_def Ball_def entries_iff find_None_iff option.map_disc_iff .
qed

lemma in_diff_one: "a \<noteq> b \<Longrightarrow> a \<in># M \<Longrightarrow> a \<in># M - {#b#}"
  by (simp add: in_diff_count)

lemma size_le_1_eq: "size M \<le> 1 \<Longrightarrow> x \<in># M \<Longrightarrow> M = {#x#}" for M :: "'a multiset"
  by (cases M) auto

lemma ht_abs_eqI:
  assumes "size (filter_mset (matches kc key) (entries st)) \<le> 1" "(t, s) \<in># entries st" "matches kc key (t, s)"
  shows "ht_abs kc st key = Some s"
proof (cases "ht_abs kc st key")
  case None with assms show ?thesis by (auto simp: ht_abs_None)
next
  case (Some s')
  then obtain t' where "(t', s') \<in># entries st" "matches kc key (t', s')" by (auto dest: ht_abs_Some)
  with assms have "(t', s') \<in># filter_mset (matches kc key) (entries st)"
    "filter_mset (matches kc key) (entries st) = {#(t, s)#}"
    by (auto intro: size_le_1_eq)
  with Some show ?thesis by simp
qed

text \<open>The map is determined by the multiset of entries.\<close>

lemma ht_abs_cong:
  assumes "entries st = entries st'" "size (filter_mset (matches kc key) (entries st)) \<le> 1"
  shows "ht_abs kc st key = ht_abs kc st' key"
proof (cases "ht_abs kc st key")
  case None with assms show ?thesis by (metis ht_abs_None)
next
  case (Some s) with assms show ?thesis by (metis ht_abs_Some ht_abs_eqI)
qed

section \<open>Changing one slot\<close>

definition set_slot :: "nat \<Rightarrow> u8 \<Rightarrow> bytes \<Rightarrow> shared_ht \<Rightarrow> shared_ht" where
  "set_slot i t bs st = st\<lparr> ht_tags := (ht_tags st)[i := t],
     ht_data := mem_write (i * total_slot_size st) bs (ht_data st) \<rparr>"

lemma set_slot_simps [simp]:
  "mod_mask (set_slot i t bs st) = mod_mask st" "inserted (set_slot i t bs st) = inserted st"
  "max_fill (set_slot i t bs st) = max_fill st" "total_slot_size (set_slot i t bs st) = total_slot_size st"
  "data_block (set_slot i t bs st) = data_block st" "ht_tags (set_slot i t bs st) = (ht_tags st)[i := t]"
  by (simp_all add: set_slot_def)

lemma home_set_slot [simp]: "home (set_slot i t bs st) h = home st h" by (simp add: home_def)

lemma slot_range:
  assumes "ht_shape kc st" "i \<le> mod_mask st"
  shows "i * total_slot_size st + total_slot_size st \<le> length (ht_data st)"
  using assms slot_in_range [of i "mod_mask st + 1" "total_slot_size st"] by (simp add: ht_shape_def less_Suc_eq_le)

lemma slot_set_slot:
  assumes "ht_shape kc st" "i \<le> mod_mask st" "j \<le> mod_mask st" "length bs \<le> total_slot_size st"
  shows "slot_at (set_slot i t bs st) j = (if j = i then mem_write 0 bs (slot_at st i) else slot_at st j)"
proof -
  note r = slot_range [OF assms(1,2)] slot_range [OF assms(1,3)]
  show ?thesis
  proof (cases "j = i")
    case True with r assms(4) show ?thesis
      by (simp add: slot_at_def set_slot_def mem_read_write_inside)
  next
    case False
    with slots_disjoint [of j i "total_slot_size st"] r assms(4) show ?thesis
      by (auto simp: slot_at_def set_slot_def intro!: mem_read_write_disjoint)
  qed
qed

lemma shape_set_slot:
  assumes "ht_shape kc st" "i \<le> mod_mask st" "length bs \<le> total_slot_size st"
  shows "ht_shape kc (set_slot i t bs st)"
proof -
  have "length (mem_write (i * total_slot_size st) bs (ht_data st)) = length (ht_data st)"
    using slot_range [OF assms(1,2)] assms(3) by (intro length_mem_write) simp
  with assms(1) show ?thesis by (simp add: ht_shape_def set_slot_def)
qed

lemma used_le: "ht_shape kc st \<Longrightarrow> i \<in> used st \<Longrightarrow> i \<le> mod_mask st"
  by (simp add: used_def ht_shape_def)

lemma used_set_slot: "ht_shape kc st \<Longrightarrow> i \<le> mod_mask st \<Longrightarrow> t \<noteq> 0 \<Longrightarrow> used (set_slot i t bs st) = insert i (used st)"
  by (auto simp: used_def ht_shape_def nth_list_update)

lemma reaches_set_slot:
  assumes "reaches st h i" "t \<noteq> 0" "length (ht_tags st) = mod_mask st + 1" shows "reaches (set_slot j t bs st) h i"
proof -
  have "ht_tags st ! k \<noteq> 0 \<Longrightarrow> (ht_tags st)[j := t] ! k \<noteq> 0" for k
    using assms(2) by (metis nth_list_update_eq nth_list_update_neq not_less list_update_beyond)
  with assms(1) show ?thesis by (auto simp: reaches_def)
qed

text \<open>
  A free slot that the probing sequence of the key reaches gets a new entry.
\<close>

lemma set_free_slot:
  assumes core: "ht_core kc st" and i: "i \<le> mod_mask st" "ht_tags st ! i = 0"
    and t: "t \<noteq> 0" and bs: "kc_len kc \<le> length bs" "length bs \<le> total_slot_size st"
    and r: "reaches st (home st (kc_hash kc (slot_key kc bs))) i"
  shows "ht_core kc (set_slot i t bs st)"
    and "entries (set_slot i t bs st) = add_mset (t, bs @ replicate (total_slot_size st - length bs) 0) (entries st)"
proof -
  let ?st = "set_slot i t bs st"
  have shape: "ht_shape kc st" and ch: "chained kc st" and z: "zeroed st" using core by (auto simp: ht_core_def)
  have len: "length (ht_tags st) = mod_mask st + 1" using shape by (simp add: ht_shape_def)
  have zi: "slot_at st i = replicate (total_slot_size st) 0" using z i len by (simp add: zeroed_def)
  have new: "slot_at ?st i = bs @ replicate (total_slot_size st - length bs) 0"
    using slot_set_slot [OF shape i(1) i(1) bs(2)] bs(2) zi by (simp add: mem_write_def)
  have old: "slot_at ?st j = slot_at st j" if "j \<le> mod_mask st" "j \<noteq> i" for j
    using slot_set_slot [OF shape i(1) that(1) bs(2)] that by simp
  have used: "used ?st = insert i (used st)" using shape i t by (simp add: used_set_slot)
  have ni: "i \<notin> used st" using i by (simp add: used_def)
  have key: "slot_key kc (slot_at ?st i) = slot_key kc bs" using bs new by (simp add: slot_key_def)
  have "chained kc ?st"
    unfolding chained_def used
  proof
    fix j assume j: "j \<in> insert i (used st)"
    show "reaches ?st (home ?st (kc_hash kc (slot_key kc (slot_at ?st j)))) j"
    proof (cases "j = i")
      case True with r key t len show ?thesis by (auto intro: reaches_set_slot)
    next
      case False with j have "j \<in> used st" by simp
      with ch False used_le [OF shape this] t len show ?thesis
        by (auto simp: chained_def old intro: reaches_set_slot)
    qed
  qed
  moreover have "zeroed ?st"
    using z t old i len unfolding zeroed_def by (auto simp: nth_list_update split: if_splits)
  ultimately show "ht_core kc ?st" using shape_set_slot [OF shape i(1) bs(2)] by (simp add: ht_core_def)
  have "image_mset (entry_at ?st) (mset_set (used st)) = entries st"
    unfolding entries_def
  proof (rule image_mset_cong)
    fix j assume "j \<in># mset_set (used st)"
    then have "j \<in> used st" by simp
    with ni have "j \<noteq> i" "j \<le> mod_mask st" using used_le [OF shape] by auto
    then show "entry_at ?st j = entry_at st j" by (simp add: entry_at_def old)
  qed
  then show "entries ?st = add_mset (t, bs @ replicate (total_slot_size st - length bs) 0) (entries st)"
    using used ni new i len by (simp add: entries_def [of ?st]) (simp add: entry_at_def)
qed

section \<open>What the probing loops find\<close>

lemma card_used_free:
  assumes "ht_shape kc st" "card (used st) \<le> max_fill st"
  obtains i where "i \<le> mod_mask st" "ht_tags st ! i = 0"
proof -
  have "card (used st) < card {..mod_mask st}" using assms by (simp add: ht_shape_def)
  then have "\<not> {..mod_mask st} \<subseteq> used st" using card_mono [OF finite_used] by (metis not_less)
  with that assms(1) show thesis by (auto simp: used_def ht_shape_def)
qed

lemma findFirstEmpty_spec:
  assumes "ht_shape kc st" "k \<le> mod_mask st" "ht_tags st ! k = 0"
  obtains i where "findFirstEmptySlot st hash = Some (cursor_at st i)" "i \<le> mod_mask st" "ht_tags st ! i = 0"
    "reaches st (home st hash) i"
proof -
  obtain d where d: "findFirstEmptySlot st hash = Some (cursor_at st ((home st hash + d) mod (mod_mask st + 1)))"
    "d \<le> mod_mask st" "ht_tags st ! ((home st hash + d) mod (mod_mask st + 1)) = 0"
    "\<And>e. e < d \<Longrightarrow> ht_tags st ! ((home st hash + e) mod (mod_mask st + 1)) \<noteq> 0"
    using probe_slots [of kc st k "\<lambda>i. ht_tags st ! i = 0", OF assms, of hash]
    unfolding findFirstEmptySlot_def by blast
  then show thesis
    by (intro that [of "(home st hash + d) mod (mod_mask st + 1)"]) (auto simp: reaches_def less_Suc_eq_le [symmetric])
qed

context key_laws begin

lemma find_spec:
  assumes core: "ht_core kc st" and es: "entries_ok kc ok (entries st)" and k: "ok key"
    and free: "f \<le> mod_mask st" "ht_tags st ! f = 0"
  obtains i where "findSlotOrEmpty kc st (kc_hash kc key) key = Some (cursor_at st i)" "i \<le> mod_mask st"
    "reaches st (home st (kc_hash kc key)) i"
    "(ht_tags st ! i = 0 \<and> ht_abs kc st key = None) \<or>
     (ht_tags st ! i \<noteq> 0 \<and> matches kc key (entry_at st i) \<and> ht_abs kc st key = Some (slot_at st i))"
proof -
  let ?n = "mod_mask st + 1" and ?h = "home st (kc_hash kc key)"
  let ?P = "\<lambda>i. \<not> filled (ht_tags st ! i) \<or> matches kc key (entry_at st i)"
  have shape: "ht_shape kc st" and ch: "chained kc st" using core by (auto simp: ht_core_def)
  have len: "length (ht_tags st) = ?n" using shape by (simp add: ht_shape_def)
  have Pf: "?P f" using free by (simp add: filled_def)
  obtain d where d: "findSlotOrEmpty kc st (kc_hash kc key) key = Some (cursor_at st ((?h + d) mod ?n))"
    "d \<le> mod_mask st" "?P ((?h + d) mod ?n)" "\<And>e. e < d \<Longrightarrow> \<not> ?P ((?h + e) mod ?n)"
    using probe_slots [of kc st f ?P, OF shape free(1) Pf, of "kc_hash kc key"]
    unfolding findSlotOrEmpty_slots [OF shape] by blast
  let ?i = "(?h + d) mod ?n"
  have ile: "?i \<le> mod_mask st" by (simp add: less_Suc_eq_le [symmetric])
  have fill: "filled (ht_tags st ! j)" if "j \<le> mod_mask st" "ht_tags st ! j \<noteq> 0" for j
  proof -
    from that len have "entry_at st j \<in># entries st" by (auto simp: set_entries used_def)
    with es show ?thesis by (auto simp: entries_ok_def good_entry_def entry_at_def)
  qed
  have reach: "reaches st ?h ?i"
    unfolding reaches_def using d(2,4) filled_nonzero by (intro exI [of _ d]) blast
  show thesis
  proof (rule that [OF d(1) ile reach])
    show "(ht_tags st ! ?i = 0 \<and> ht_abs kc st key = None) \<or>
      (ht_tags st ! ?i \<noteq> 0 \<and> matches kc key (entry_at st ?i) \<and> ht_abs kc st key = Some (slot_at st ?i))"
    proof (cases "ht_tags st ! ?i = 0")
      case True
      have "\<not> matches kc key e" if "e \<in># entries st" for e
      proof
        assume m: "matches kc key e"
        from that obtain j where j: "j \<in> used st" "e = entry_at st j" by (auto simp: set_entries)
        have okj: "ok (slot_key kc (slot_at st j))"
          using es that j by (auto simp: entries_ok_def good_entry_def entry_at_def)
        from m j have "kc_eq kc (slot_key kc (slot_at st j)) key" by (simp add: matches_def entry_at_def)
        then have "kc_hash kc (slot_key kc (slot_at st j)) = kc_hash kc key" using key_hash okj k by blast
        with ch j obtain d' where d': "j = (?h + d') mod ?n" "\<forall>e<d'. ht_tags st ! ((?h + e) mod ?n) \<noteq> 0"
          by (force simp: chained_def reaches_def)
        from j m d'(1) have Pj: "?P ((?h + d') mod ?n)" "ht_tags st ! ((?h + d') mod ?n) \<noteq> 0" by (auto simp: used_def)
        consider "d < d'" | "d' < d" | "d = d'" by linarith
        then show False
          by cases (use True d'(2) d(4) [of d'] Pj in auto)
      qed
      with True show ?thesis by (simp add: ht_abs_None)
    next
      case False
      with d(3) fill ile have m: "matches kc key (entry_at st ?i)" by blast
      have "entry_at st ?i \<in># entries st" using False len by (auto simp: set_entries used_def)
      moreover have "size (filter_mset (matches kc key) (entries st)) \<le> 1" using es k by (simp add: entries_ok_def)
      ultimately have "ht_abs kc st key = Some (slot_at st ?i)"
        using m ht_abs_eqI [of kc key st "ht_tags st ! ?i" "slot_at st ?i"] by (simp add: entry_at_def)
      with False m show ?thesis by simp
    qed
  qed
qed

lemma inv_free:
  assumes "ht_inv kc ok st" obtains f where "f \<le> mod_mask st" "ht_tags st ! f = 0"
  using assms card_used_free [of kc st] by (auto simp: ht_inv_def size_entries)

lemma inv_core: "ht_inv kc ok st \<Longrightarrow> ht_core kc st" "ht_inv kc ok st \<Longrightarrow> ht_shape kc st"
  "ht_inv kc ok st \<Longrightarrow> entries_ok kc ok (entries st)"
  by (auto simp: ht_inv_def ht_core_def)

end

section \<open>Construction\<close>

definition fresh_ht :: "nat \<Rightarrow> nat \<Rightarrow> nat \<Rightarrow> shared_ht" where
  "fresh_ht block sz n = \<lparr> ht_tags = replicate n 0, ht_data = replicate (n * sz) 0, mod_mask = n - 1,
     inserted = 0, max_fill = n div 2, total_slot_size = sz, data_block = block \<rparr>"

lemma SharedHashTableState_ok:
  "2 \<le> n \<Longrightarrow> pot n \<Longrightarrow> SharedHashTableState block sz n = Returns (fresh_ht block (unat sz) n)"
  using and_pred_zero_iff_pot [of n] by (simp add: SharedHashTableState_def fresh_ht_def)

lemma SharedHashTableState_Returns:
  "SharedHashTableState block sz n = Returns st \<longleftrightarrow> 2 \<le> n \<and> pot n \<and> st = fresh_ht block (unat sz) n"
  using and_pred_zero_iff_pot [of n] by (auto simp: SharedHashTableState_def fresh_ht_def)

lemma fresh_simps [simp]:
  "ht_tags (fresh_ht b sz n) = replicate n 0" "ht_data (fresh_ht b sz n) = replicate (n * sz) 0"
  "mod_mask (fresh_ht b sz n) = n - 1" "inserted (fresh_ht b sz n) = 0" "max_fill (fresh_ht b sz n) = n div 2"
  "total_slot_size (fresh_ht b sz n) = sz" "data_block (fresh_ht b sz n) = b"
  by (simp_all add: fresh_ht_def)

lemma used_fresh [simp]: "used (fresh_ht b sz n) = {}"
  by (auto simp: used_def)

lemma entries_fresh [simp]: "entries (fresh_ht b sz n) = {#}"
  by (simp add: entries_def)

lemma core_fresh:
  assumes "2 \<le> n" "pot n" "kc_len kc \<le> sz" "sz < 65536"
  shows "ht_core kc (fresh_ht b sz n)"
proof -
  have "slot_at (fresh_ht b sz n) i = replicate sz 0" if "i < n" for i
    using slot_in_range [OF that, of sz] by (simp add: slot_at_def mem_read_def min_def)
  with assms show ?thesis by (auto simp: ht_core_def ht_shape_def chained_def zeroed_def)
qed

lemma inv_fresh:
  "2 \<le> n \<Longrightarrow> pot n \<Longrightarrow> kc_len kc \<le> sz \<Longrightarrow> sz < 65536 \<Longrightarrow> ht_inv kc ok (fresh_ht b sz n)"
  using core_fresh [of n kc sz b] by (simp add: ht_core_def ht_inv_def entries_ok_def)

lemma abs_fresh [simp]: "ht_abs kc (fresh_ht b sz n) k = None"
  by (simp add: ht_abs_None)

section \<open>Growing\<close>

text \<open>Two tables with the same slot size, mask, fill limit, block and counter.\<close>

definition same_frame :: "shared_ht \<Rightarrow> shared_ht \<Rightarrow> bool" where
  "same_frame st st' \<longleftrightarrow> mod_mask st' = mod_mask st \<and> max_fill st' = max_fill st \<and>
     total_slot_size st' = total_slot_size st \<and> data_block st' = data_block st \<and> inserted st' = inserted st"

lemma length_slot_at: "ht_shape kc st \<Longrightarrow> i \<le> mod_mask st \<Longrightarrow> length (slot_at st i) = total_slot_size st"
  using slot_range [of kc st i] by (simp add: slot_at_def length_mem_read)

lemma move_slot_spec:
  assumes core: "ht_core kc st" and old: "ht_shape kc old" "idx \<le> mod_mask old"
    and sz: "total_slot_size st = total_slot_size old" and room: "card (used st) \<le> mod_mask st"
  obtains st' where "move_slot kc old idx st = Some st'" "ht_core kc st'" "same_frame st st'"
    "entries st' = entries st + (if ht_tags old ! idx \<noteq> 0 then {#entry_at old idx#} else {#})"
proof (cases "ht_tags old ! idx = 0")
  case True
  with core that [of st] show thesis by (simp add: move_slot_def same_frame_def)
next
  case False
  have shape: "ht_shape kc st" using core by (simp add: ht_core_def)
  let ?bs = "slot_at old idx"
  have len: "length ?bs = total_slot_size st" "kc_len kc \<le> length ?bs"
    using length_slot_at [OF old] sz old(1) by (simp_all add: ht_shape_def)
  have "\<not> {..mod_mask st} \<subseteq> used st"
    using room card_mono [of "used st" "{..mod_mask st}"] by (auto simp: not_le)
  then obtain f where f: "f \<le> mod_mask st" "ht_tags st ! f = 0"
    using shape by (auto simp: used_def ht_shape_def)
  obtain i where i: "findFirstEmptySlot st (kc_hash kc (slot_key kc ?bs)) = Some (cursor_at st i)"
    "i \<le> mod_mask st" "ht_tags st ! i = 0" "reaches st (home st (kc_hash kc (slot_key kc ?bs))) i"
    using findFirstEmpty_spec [OF shape f] by blast
  have key: "mem_read (idx * total_slot_size st) (kc_len kc) (ht_data old) = slot_key kc ?bs"
    using old(1) by (simp add: sz mem_read_key ht_shape_def)
  have eq: "move_slot kc old idx st = Some (set_slot i (ht_tags old ! idx) ?bs st)"
    using False i(1) key by (simp add: move_slot_def set_slot_def slot_at_def sz)
  show thesis
  proof (rule that [OF eq])
    show "ht_core kc (set_slot i (ht_tags old ! idx) ?bs st)"
      using set_free_slot(1) [OF core i(2,3) False len(2)] len(1) i(4) by simp
    show "entries (set_slot i (ht_tags old ! idx) ?bs st) =
      entries st + (if ht_tags old ! idx \<noteq> 0 then {#entry_at old idx#} else {#})"
      using set_free_slot(2) [OF core i(2,3) False len(2)] len(1) i(4) False by (simp add: entry_at_def)
    show "same_frame st (set_slot i (ht_tags old ! idx) ?bs st)" by (simp add: same_frame_def)
  qed
qed

lemma move_slots_spec:
  assumes "ht_core kc st" "ht_shape kc old" "total_slot_size st = total_slot_size old"
    "\<forall>i\<in>set is. i \<le> mod_mask old" "size (entries st) + length is \<le> Suc (mod_mask st)"
  shows "\<exists>st'. move_slots kc old is st = Some st' \<and> ht_core kc st' \<and> same_frame st st' \<and>
    entries st' = entries st + image_mset (entry_at old) (mset (filter (\<lambda>i. ht_tags old ! i \<noteq> 0) is))"
  using assms
proof (induction "is" arbitrary: st)
  case Nil then show ?case by (simp add: same_frame_def)
next
  case (Cons i rest)
  have room: "card (used st) \<le> mod_mask st" using Cons.prems(5) by (simp add: size_entries)
  obtain st1 where st1: "move_slot kc old i st = Some st1" "ht_core kc st1" "same_frame st st1"
    "entries st1 = entries st + (if ht_tags old ! i \<noteq> 0 then {#entry_at old i#} else {#})"
    using move_slot_spec [OF Cons.prems(1,2) _ Cons.prems(3) room, of i] Cons.prems(4) by auto
  have "\<exists>st'. move_slots kc old rest st1 = Some st' \<and> ht_core kc st' \<and> same_frame st1 st' \<and>
    entries st' = entries st1 + image_mset (entry_at old) (mset (filter (\<lambda>i. ht_tags old ! i \<noteq> 0) rest))"
    using Cons.prems st1 by (intro Cons.IH) (auto simp: same_frame_def)
  with st1 show ?case by (auto simp: same_frame_def)
qed

lemma entries_upt:
  assumes "ht_shape kc st"
  shows "image_mset (entry_at st) (mset (filter (\<lambda>i. ht_tags st ! i \<noteq> 0) [0..<Suc (mod_mask st)])) = entries st"
proof -
  have "mset (filter (\<lambda>i. ht_tags st ! i \<noteq> 0) [0..<Suc (mod_mask st)]) = mset_set (used st)"
    using assms by (subst mset_set_set [symmetric]) (auto simp: used_def ht_shape_def simp del: upt_Suc intro!: arg_cong [of _ _ mset_set])
  then show ?thesis by (simp add: entries_def)
qed

text \<open>
  \<open>reserveSlot\<close> always ends. Either there is room and nothing happens, or the table is rebuilt
  at twice the size with the same entries and the restart flag is raised.
\<close>

lemma reserve_room: "inserted st < max_fill st \<Longrightarrow> reserveSlot kc (st, flag) = Returns (st, flag)"
  by (simp add: reserveSlot_def)

lemma reserve_grow:
  assumes inv: "ht_inv kc ok st" and full: "\<not> inserted st < max_fill st"
  obtains st' where "reserveSlot kc (st, flag) = Returns (st', map_option (\<lambda>_. True) flag)" "ht_inv kc ok st'"
    "entries st' = entries st" "inserted st' = inserted st" "mod_mask st' + 1 = 2 * (mod_mask st + 1)"
    "inserted st' < max_fill st'" "data_block st' = Suc (data_block st)" "total_slot_size st' = total_slot_size st"
proof -
  let ?n = "mod_mask st + 1"
  let ?new = "fresh_ht (Suc (data_block st)) (total_slot_size st) (2 * ?n)"
  have shape: "ht_shape kc st" using inv by (simp add: ht_inv_def)
  then have facts: "pot ?n" "1 \<le> mod_mask st" "kc_len kc \<le> total_slot_size st" "total_slot_size st < 65536"
    by (auto simp: ht_shape_def)
  have "pot (2 * ?n)" using facts(1) pot_even by blast
  then have core: "ht_core kc ?new" using facts by (intro core_fresh) auto
  have new: "SharedHashTableState (data_block st + 1) (of_nat (total_slot_size st)) (2 * ?n) = Returns ?new"
    using SharedHashTableState_ok [of "2 * ?n"] facts \<open>pot (2 * ?n)\<close> by (simp add: unsigned_of_nat take_bit_nat_eq_self)
  have "\<exists>st'. move_slots kc st [0..<Suc (mod_mask st)] ?new = Some st' \<and> ht_core kc st' \<and> same_frame ?new st' \<and>
    entries st' = entries ?new + image_mset (entry_at st) (mset (filter (\<lambda>i. ht_tags st ! i \<noteq> 0) [0..<Suc (mod_mask st)]))"
    using core shape facts(2) by (intro move_slots_spec) auto
  then obtain st' where st': "move_slots kc st [0..<Suc (mod_mask st)] ?new = Some st'" "ht_core kc st'"
    "same_frame ?new st'" "entries st' = entries st"
    unfolding entries_upt [OF shape] by auto
  have e: "entries (st'\<lparr> inserted := k \<rparr>) = entries st'" for k
    by (simp add: entries_def used_def entry_at_def [abs_def] slot_at_def)
  have c: "ht_core kc (st'\<lparr> inserted := k \<rparr>) = ht_core kc st'" for k
    by (simp add: ht_core_def ht_shape_def chained_def zeroed_def used_def slot_at_def reaches_def home_def)
  have ins: "inserted st \<le> ?n div 2" "inserted st = size (entries st)"
    using inv by (auto simp: ht_inv_def ht_shape_def)
  have frame: "mod_mask st' + 1 = 2 * ?n" "max_fill st' = ?n" using st'(3) by (auto simp: same_frame_def)
  show thesis
  proof (rule that)
    show "reserveSlot kc (st, flag) = Returns (st'\<lparr> inserted := inserted st \<rparr>, map_option (\<lambda>_. True) flag)"
      using full st'(1) new by (simp add: reserveSlot_def del: upt_Suc)
    show "ht_inv kc ok (st'\<lparr> inserted := inserted st \<rparr>)"
      using inv c [of "inserted st"] e [of "inserted st"] st'(2,4) ins frame by (simp add: ht_inv_def ht_core_def)
    show "inserted (st'\<lparr> inserted := inserted st \<rparr>) < max_fill (st'\<lparr> inserted := inserted st \<rparr>)"
      using ins(1) frame(2) facts(2) by simp
  qed (use e st' frame in \<open>auto simp: same_frame_def\<close>)
qed

lemma reserve_spec:
  assumes inv: "ht_inv kc ok st"
  obtains st' flag' where "reserveSlot kc (st, flag) = Returns (st', flag')" "ht_inv kc ok st'"
    "entries st' = entries st" "inserted st' = inserted st" "inserted st' < max_fill st'"
    "total_slot_size st' = total_slot_size st"
    "if inserted st < max_fill st then st' = st \<and> flag' = flag
     else flag' = map_option (\<lambda>_. True) flag \<and> mod_mask st' + 1 = 2 * (mod_mask st + 1) \<and> data_block st' = Suc (data_block st)"
proof (cases "inserted st < max_fill st")
  case True
  with that [OF reserve_room] inv show thesis by simp
next
  case False
  obtain st' where "reserveSlot kc (st, flag) = Returns (st', map_option (\<lambda>_. True) flag)" "ht_inv kc ok st'"
    "entries st' = entries st" "inserted st' = inserted st" "mod_mask st' + 1 = 2 * (mod_mask st + 1)"
    "inserted st' < max_fill st'" "data_block st' = Suc (data_block st)" "total_slot_size st' = total_slot_size st"
    using reserve_grow [OF inv False, of flag] by blast
  with that [of st' "map_option (\<lambda>_. True) flag"] False show thesis by simp
qed

section \<open>Adding an entry\<close>

text \<open>The slot that a pointer leads to: only pointers into the current block can be followed.\<close>

definition deref :: "shared_ht \<Rightarrow> ptr \<Rightarrow> bytes option" where
  "deref st p = (if fst p = data_block st \<and> snd p + total_slot_size st \<le> length (ht_data st)
                 then Some (mem_read (snd p) (total_slot_size st) (ht_data st)) else None)"

lemma deref_slot: "ht_shape kc st \<Longrightarrow> i \<le> mod_mask st \<Longrightarrow>
    deref st (data_block st, i * total_slot_size st) = Some (slot_at st i)"
  using slot_range [of kc st i] by (simp add: deref_def slot_at_def)

lemma abs_add_entry:
  assumes "entries st' = add_mset e (entries st)" "size (filter_mset (matches kc key) (entries st')) \<le> 1"
  shows "ht_abs kc st' key = (if matches kc key e then Some (snd e) else ht_abs kc st key)"
proof (cases "matches kc key e")
  case True
  with assms show ?thesis using ht_abs_eqI [of kc key st' "fst e" "snd e"] by simp
next
  case False
  show ?thesis
  proof (cases "ht_abs kc st key")
    case None
    then have "ht_abs kc st' key = None" using False assms(1) by (simp add: ht_abs_None)
    with None False show ?thesis by simp
  next
    case (Some s)
    then obtain t where "(t, s) \<in># entries st'" "matches kc key (t, s)" using ht_abs_Some assms(1) by fastforce
    with assms(2) have "ht_abs kc st' key = Some s" by (rule ht_abs_eqI)
    with Some False show ?thesis by simp
  qed
qed

definition pad_slot :: "shared_ht \<Rightarrow> bytes \<Rightarrow> bytes" where
  "pad_slot st key = key @ replicate (total_slot_size st - length key) 0"

context key_laws begin

lemma slot_key_pad: "ok key \<Longrightarrow> slot_key kc (pad_slot st key) = key"
  by (simp add: slot_key_def pad_slot_def key_length)

lemma matches_new: "ok key \<Longrightarrow> ok k \<Longrightarrow> matches kc k (new_tag (kc_hash kc key), pad_slot st key) \<longleftrightarrow> kc_eq kc key k"
  using key_hash [of key k] by (auto simp: matches_def slot_key_pad)

lemma entries_ok_add:
  assumes es: "entries_ok kc ok es" and key: "ok key" and new: "\<forall>e\<in>#es. \<not> matches kc key e"
  shows "entries_ok kc ok (add_mset (new_tag (kc_hash kc key), pad_slot st key) es)"
  unfolding entries_ok_def
proof (intro conjI allI impI)
  show "\<forall>e\<in>#add_mset (new_tag (kc_hash kc key), pad_slot st key) es. good_entry (\<lambda>s. ok (slot_key kc s)) e"
    using es key by (auto simp: entries_ok_def good_entry_def slot_key_pad)
  fix k assume k: "ok k"
  have old: "size (filter_mset (matches kc k) es) \<le> 1" using es k by (simp add: entries_ok_def)
  show "size (filter_mset (matches kc k) (add_mset (new_tag (kc_hash kc key), pad_slot st key) es)) \<le> 1"
  proof (cases "kc_eq kc key k")
    case False with old matches_new [OF key k] show ?thesis by simp
  next
    case True
    have "\<not> matches kc k e" if "e \<in># es" for e
    proof
      assume m: "matches kc k e"
      have "ok (slot_key kc (snd e))" using es that by (auto simp: entries_ok_def good_entry_def)
      moreover have "kc_eq kc (slot_key kc (snd e)) k" using m by (simp add: matches_def)
      moreover have "kc_eq kc k key" using True key k by (rule key_sym [rotated 2])
      ultimately have "kc_eq kc (slot_key kc (snd e)) key" using key k key_trans by blast
      moreover have "kc_hash kc key = kc_hash kc k" using key k True by (rule key_hash)
      ultimately have "matches kc key e" using m by (simp add: matches_def)
      with new that show False by blast
    qed
    then have "set_mset (filter_mset (matches kc k) es) = {}" by auto
    then have "filter_mset (matches kc k) es = {#}" by (simp only: set_mset_eq_empty_iff)
    moreover have "size (filter_mset (matches kc k) (add_mset e es)) \<le> 1 + size (filter_mset (matches kc k) es)" for e
      by simp
    ultimately show ?thesis by (metis add.right_neutral size_empty)
  qed
qed

text \<open>Writing a new entry into the free slot that the probing found.\<close>

lemma add_entry:
  assumes inv: "ht_inv kc ok st" and room: "inserted st < max_fill st" and key: "ok key"
    and i: "i \<le> mod_mask st" "ht_tags st ! i = 0" "reaches st (home st (kc_hash kc key)) i"
    and new: "ht_abs kc st key = None"
  defines "st' \<equiv> (set_slot i (new_tag (kc_hash kc key)) key st)\<lparr> inserted := Suc (inserted st) \<rparr>"
  shows "ht_inv kc ok st'"
    and "deref st' (data_block st, i * total_slot_size st) = Some (pad_slot st key)"
    and "\<And>k. ok k \<Longrightarrow> ht_abs kc st' k = (if kc_eq kc key k then Some (pad_slot st key) else ht_abs kc st k)"
proof -
  let ?st = "set_slot i (new_tag (kc_hash kc key)) key st"
  have len: "kc_len kc \<le> length key" "length key \<le> total_slot_size st"
    using inv key by (auto simp: ht_inv_def ht_shape_def key_length)
  have sk: "slot_key kc key = key" using key by (simp add: slot_key_def key_length)
  note core = inv_core(1) [OF inv] and shape = inv_core(2) [OF inv]
  have core': "ht_core kc ?st" and es: "entries ?st = add_mset (new_tag (kc_hash kc key), pad_slot st key) (entries st)"
    using set_free_slot [OF core i(1,2) new_tag_nonzero len] i(3) by (simp_all add: sk pad_slot_def)
  have e: "entries st' = entries ?st"
    by (simp add: st'_def entries_def used_def entry_at_def [abs_def] slot_at_def)
  have c: "ht_core kc st'"
    using core' by (simp add: st'_def ht_core_def ht_shape_def chained_def zeroed_def used_def slot_at_def reaches_def home_def)
  have eok: "entries_ok kc ok (entries st')"
    unfolding e es using entries_ok_add [OF inv_core(3) [OF inv] key] new by (simp add: ht_abs_None)
  show "ht_inv kc ok st'"
    using c eok inv room unfolding ht_inv_def ht_core_def e es by (simp add: st'_def)
  show "ht_abs kc st' k = (if kc_eq kc key k then Some (pad_slot st key) else ht_abs kc st k)" if "ok k" for k
  proof -
    have "size (filter_mset (matches kc k) (entries st')) \<le> 1" using eok that by (simp add: entries_ok_def)
    from abs_add_entry [OF trans [OF e es] this] show ?thesis by (simp only: matches_new [OF key that] snd_conv)
  qed
  have "slot_at st i = replicate (total_slot_size st) 0"
    using core i(1,2) by (simp add: ht_core_def zeroed_def ht_shape_def)
  then have "slot_at ?st i = pad_slot st key"
    using slot_set_slot [OF shape i(1) i(1) len(2)] len by (simp add: mem_write_def pad_slot_def)
  moreover have "slot_at st' i = slot_at ?st i" by (simp add: st'_def slot_at_def)
  moreover have "ht_shape kc st'" "i \<le> mod_mask st'" using c i by (simp_all add: ht_core_def st'_def)
  ultimately show "deref st' (data_block st, i * total_slot_size st) = Some (pad_slot st key)"
    using deref_slot [of kc st' i] by (simp add: st'_def)
qed

end

section \<open>The operations\<close>

context key_laws begin

lemma lookup_spec:
  assumes inv: "ht_inv kc ok st" and key: "ok key"
  shows "\<exists>r. ht_lookup kc st key = Returns r \<and> map_option (deref st) r = map_option Some (ht_abs kc st key)"
proof -
  obtain f where f: "f \<le> mod_mask st" "ht_tags st ! f = 0" using inv_free [OF inv] .
  obtain i where i: "findSlotOrEmpty kc st (kc_hash kc key) key = Some (cursor_at st i)" "i \<le> mod_mask st"
    "(ht_tags st ! i = 0 \<and> ht_abs kc st key = None) \<or>
     (ht_tags st ! i \<noteq> 0 \<and> matches kc key (entry_at st i) \<and> ht_abs kc st key = Some (slot_at st i))"
    using find_spec [OF inv_core(1) [OF inv] inv_core(3) [OF inv] key f] by blast
  have d: "deref st (data_block st, i * total_slot_size st) = Some (slot_at st i)"
    using deref_slot [OF inv_core(2) [OF inv] i(2)] .
  from i(3) show ?thesis
  proof
    assume "ht_tags st ! i = 0 \<and> ht_abs kc st key = None"
    with i(1) show ?thesis by (simp add: ht_lookup_def)
  next
    assume "ht_tags st ! i \<noteq> 0 \<and> matches kc key (entry_at st i) \<and> ht_abs kc st key = Some (slot_at st i)"
    with i(1) d show ?thesis by (simp add: ht_lookup_def matches_def filled_def entry_at_def)
  qed
qed

lemma lookupOrInsert_spec:
  assumes inv: "ht_inv kc ok st" and key: "ok key"
  obtains p st' flag' where
    "ht_lookupOrInsert kc (st, flag) key = Returns ((p, ht_abs kc st key = None), (st', flag'))"
    "ht_inv kc ok st'"
    "deref st' p = Some (case ht_abs kc st key of None \<Rightarrow> pad_slot st key | Some s \<Rightarrow> s)"
    "\<And>k. ok k \<Longrightarrow> ht_abs kc st' k = (if kc_eq kc key k \<and> ht_abs kc st key = None then Some (pad_slot st key) else ht_abs kc st k)"
    "inserted st' = inserted st + (if ht_abs kc st key = None then 1 else 0)"
    "total_slot_size st' = total_slot_size st"
    "if inserted st < max_fill st then data_block st' = data_block st \<and> flag' = flag
     else data_block st' = Suc (data_block st) \<and> flag' = map_option (\<lambda>_. True) flag"
    "entries st' = (if ht_abs kc st key = None then add_mset (new_tag (kc_hash kc key), pad_slot st key) (entries st) else entries st)"
proof -
  obtain st1 flag1 where r: "reserveSlot kc (st, flag) = Returns (st1, flag1)" "ht_inv kc ok st1"
    "entries st1 = entries st" "inserted st1 = inserted st" "inserted st1 < max_fill st1"
    "total_slot_size st1 = total_slot_size st"
    "if inserted st < max_fill st then st1 = st \<and> flag1 = flag
     else flag1 = map_option (\<lambda>_. True) flag \<and> mod_mask st1 + 1 = 2 * (mod_mask st + 1) \<and> data_block st1 = Suc (data_block st)"
    using reserve_spec [OF inv, of flag] by blast
  have abs1: "ht_abs kc st1 k = ht_abs kc st k" if "ok k" for k
    using ht_abs_cong [OF r(3), of kc k] r(2) that by (simp add: ht_inv_def entries_ok_def)
  have pad1: "pad_slot st1 key = pad_slot st key" by (simp add: pad_slot_def r(6))
  have blk: "if inserted st < max_fill st then data_block st1 = data_block st \<and> flag1 = flag
     else data_block st1 = Suc (data_block st) \<and> flag1 = map_option (\<lambda>_. True) flag"
    using r(7) by (auto split: if_splits)
  obtain f where f: "f \<le> mod_mask st1" "ht_tags st1 ! f = 0" using inv_free [OF r(2)] .
  obtain i where i: "findSlotOrEmpty kc st1 (kc_hash kc key) key = Some (cursor_at st1 i)" "i \<le> mod_mask st1"
    "reaches st1 (home st1 (kc_hash kc key)) i"
    "(ht_tags st1 ! i = 0 \<and> ht_abs kc st1 key = None) \<or>
     (ht_tags st1 ! i \<noteq> 0 \<and> matches kc key (entry_at st1 i) \<and> ht_abs kc st1 key = Some (slot_at st1 i))"
    using find_spec [OF inv_core(1) [OF r(2)] inv_core(3) [OF r(2)] key f] by blast
  from i(4) show thesis
  proof
    assume new: "ht_tags st1 ! i = 0 \<and> ht_abs kc st1 key = None"
    let ?st = "(set_slot i (new_tag (kc_hash kc key)) key st1)\<lparr> inserted := Suc (inserted st1) \<rparr>"
    have n: "ht_abs kc st key = None" using new abs1 [OF key] by simp
    note a = add_entry [OF r(2,5) key i(2) conjunct1 [OF new] i(3) conjunct2 [OF new]]
    have es: "entries ?st = add_mset (new_tag (kc_hash kc key), pad_slot st key) (entries st)"
    proof -
      have "entries ?st = entries (set_slot i (new_tag (kc_hash kc key)) key st1)"
        by (simp add: entries_def used_def entry_at_def [abs_def] slot_at_def)
      also have "\<dots> = add_mset (new_tag (kc_hash kc key), pad_slot st key) (entries st)"
        using set_free_slot(2) [OF inv_core(1) [OF r(2)] i(2) conjunct1 [OF new] new_tag_nonzero, of key "kc_hash kc key"]
          inv_core(2) [OF r(2)] key i(3) r(3,6)
        by (simp add: key_length ht_shape_def slot_key_def pad_slot_def)
      finally show ?thesis .
    qed
    show thesis
    proof (rule that [of "(data_block st1, i * total_slot_size st1)" ?st flag1])
      show "ht_lookupOrInsert kc (st, flag) key =
          Returns (((data_block st1, i * total_slot_size st1), ht_abs kc st key = None), ?st, flag1)"
        using r(1) i(1) new n by (simp add: ht_lookupOrInsert_def Let_def set_slot_def new_tag_def)
    qed (use a n abs1 pad1 blk r es in \<open>simp_all\<close>)
  next
    assume old: "ht_tags st1 ! i \<noteq> 0 \<and> matches kc key (entry_at st1 i) \<and> ht_abs kc st1 key = Some (slot_at st1 i)"
    then have n: "ht_abs kc st key = Some (slot_at st1 i)" using abs1 [OF key] by simp
    show thesis
    proof (rule that [of "(data_block st1, i * total_slot_size st1)" st1 flag1])
      show "ht_lookupOrInsert kc (st, flag) key =
          Returns (((data_block st1, i * total_slot_size st1), ht_abs kc st key = None), st1, flag1)"
        using r(1) i(1) old n by (simp add: ht_lookupOrInsert_def Let_def)
      show "deref st1 (data_block st1, i * total_slot_size st1) =
          Some (case ht_abs kc st key of None \<Rightarrow> pad_slot st key | Some s \<Rightarrow> s)"
        using deref_slot [OF inv_core(2) [OF r(2)] i(2)] n by simp
    qed (use r n abs1 blk in \<open>simp_all\<close>)
  qed
qed

end

section \<open>Disabling an entry, and inserting without a check\<close>

definition set_tag :: "nat \<Rightarrow> u8 \<Rightarrow> shared_ht \<Rightarrow> shared_ht" where
  "set_tag i t st = st\<lparr> ht_tags := (ht_tags st)[i := t] \<rparr>"

lemma slot_set_tag [simp]: "slot_at (set_tag i t st) j = slot_at st j"
  by (simp add: slot_at_def set_tag_def)

lemma set_tag_used:
  assumes "ht_shape kc st" "i \<le> mod_mask st" "ht_tags st ! i \<noteq> 0" "t \<noteq> 0"
  shows "used (set_tag i t st) = used st" "i \<in> used st"
  using assms by (auto simp: used_def set_tag_def ht_shape_def nth_list_update split: if_splits)

lemma set_tag_entries:
  assumes "ht_shape kc st" "i \<le> mod_mask st" "ht_tags st ! i \<noteq> 0" "t \<noteq> 0"
  shows "entries (set_tag i t st) = add_mset (t, slot_at st i) (entries st - {#entry_at st i#})"
    "entry_at st i \<in># entries st"
proof -
  note u = set_tag_used [OF assms]
  let ?R = "used st - {i}"
  have split: "mset_set (used st) = add_mset i (mset_set ?R)"
    using u(2) by (metis finite_used mset_set.remove)
  have "image_mset (entry_at (set_tag i t st)) (mset_set ?R) = image_mset (entry_at st) (mset_set ?R)"
    by (rule image_mset_cong) (auto simp: entry_at_def set_tag_def slot_at_def)
  moreover have "entry_at (set_tag i t st) i = (t, slot_at st i)"
    using assms(1,2) by (simp add: entry_at_def) (simp add: set_tag_def ht_shape_def)
  ultimately show "entries (set_tag i t st) = add_mset (t, slot_at st i) (entries st - {#entry_at st i#})"
    unfolding entries_def u(1) split by simp
  show "entry_at st i \<in># entries st" using u(2) by (simp add: set_entries)
qed

lemma set_tag_core:
  assumes "ht_core kc st" "i \<le> mod_mask st" "ht_tags st ! i \<noteq> 0" "t \<noteq> 0"
  shows "ht_core kc (set_tag i t st)"
proof -
  have shape: "ht_shape kc st" using assms(1) by (simp add: ht_core_def)
  note u = set_tag_used [OF shape assms(2-4)]
  have nz: "ht_tags (set_tag i t st) ! k = 0 \<longleftrightarrow> ht_tags st ! k = 0" for k
    using assms(2-4) shape by (cases "k = i") (auto simp: set_tag_def ht_shape_def)
  have "reaches (set_tag i t st) h j = reaches st h j" for h j
    using nz by (simp add: reaches_def) (simp add: set_tag_def)
  then show ?thesis using assms(1) nz u(1)
    by (simp add: ht_core_def chained_def zeroed_def) (simp add: ht_shape_def set_tag_def home_def)
qed

context key_laws begin

lemma disable_spec:
  assumes inv: "ht_inv kc ok st" and key: "ok key" and pres: "ht_abs kc st key = Some s"
  obtains p st' where "lookupDisable kc st key = Returns (Some p, st')" "deref st p = Some s" "ht_inv kc ok st'"
    "\<And>k. ok k \<Longrightarrow> ht_abs kc st' k = (if kc_eq kc key k then None else ht_abs kc st k)"
proof -
  obtain f where f: "f \<le> mod_mask st" "ht_tags st ! f = 0" using inv_free [OF inv] .
  note core = inv_core(1) [OF inv] and shape = inv_core(2) [OF inv] and eok = inv_core(3) [OF inv]
  obtain i where i: "findSlotOrEmpty kc st (kc_hash kc key) key = Some (cursor_at st i)" "i \<le> mod_mask st"
    "ht_tags st ! i \<noteq> 0" "matches kc key (entry_at st i)" "s = slot_at st i"
    using find_spec [OF core eok key f] pres by (metis option.distinct(1) option.inject)
  define t where "t = ht_tags st ! i XOR fingerprint_inversion_mask"
  have fill: "filled t" using i(4) by (simp add: t_def matches_def entry_at_def)
  then have t0: "t \<noteq> 0" by (rule filled_nonzero)
  note es = set_tag_entries [OF shape i(2,3) t0]
  have oki: "ok (slot_key kc s)" using eok es(2) i(5) by (auto simp: entries_ok_def good_entry_def entry_at_def)
  have eqi: "kc_eq kc (slot_key kc s) key" using i(4,5) by (simp add: matches_def entry_at_def)
  have dead: "\<not> matches kc k (t, s)" if k: "ok k" for k
  proof
    assume m: "matches kc k (t, s)"
    then have "kc_hash kc (slot_key kc s) = kc_hash kc k" using key_hash oki k by (simp add: matches_def)
    moreover have "kc_hash kc (slot_key kc s) = kc_hash kc key" using key_hash oki key eqi by simp
    ultimately show False using m i(4) invert_fingerprint [of "ht_tags st ! i"]
      by (simp add: matches_def entry_at_def t_def)
  qed
  have live: "matches kc k (entry_at st i) \<longleftrightarrow> kc_eq kc key k" if k: "ok k" for k
  proof
    assume "matches kc k (entry_at st i)"
    then have "kc_eq kc (slot_key kc s) k" by (simp add: matches_def entry_at_def i(5))
    then show "kc_eq kc key k" using eqi key_sym key_trans oki key k by blast
  next
    assume e: "kc_eq kc key k"
    then have "kc_eq kc (slot_key kc s) k" using eqi key_trans oki key k by blast
    with i(4,5) key_hash [OF key k e] show "matches kc k (entry_at st i)" by (simp add: matches_def entry_at_def)
  qed
  have filt: "filter_mset (matches kc k) (entries (set_tag i t st)) =
      filter_mset (matches kc k) (entries st - {#entry_at st i#})" if "ok k" for k
    unfolding es(1) using dead [OF that] i(5) by simp
  have sz: "size (filter_mset (matches kc k) (entries (set_tag i t st))) \<le> 1" if "ok k" for k
  proof -
    have "size (filter_mset (matches kc k) (entries st)) \<le> 1" using eok that by (simp add: entries_ok_def)
    moreover have "filter_mset (matches kc k) (entries st - {#entry_at st i#}) \<subseteq># filter_mset (matches kc k) (entries st)"
      by (intro multiset_filter_mono) simp
    ultimately show ?thesis unfolding filt [OF that] using size_mset_mono le_trans by blast
  qed
  have "entries_ok kc ok (entries (set_tag i t st))"
    using sz eok oki i(5) fill unfolding es(1) entries_ok_def
    by (auto simp: good_entry_def dest: in_diffD)
  moreover have "size (entries (set_tag i t st)) = size (entries st)"
    unfolding es(1) using es(2) by (simp add: size_Diff_singleton) (metis Suc_pred nonempty_has_size ex_in_conv set_mset_eq_empty_iff)
  ultimately have "ht_inv kc ok (set_tag i t st)"
    using inv set_tag_core [OF core i(2,3) t0] by (simp add: ht_inv_def ht_core_def) (simp add: set_tag_def)
  moreover have "ht_abs kc (set_tag i t st) k = (if kc_eq kc key k then None else ht_abs kc st k)" if k: "ok k" for k
  proof (cases "kc_eq kc key k")
    case True
    have one: "size (filter_mset (matches kc k) (entries st)) \<le> 1" using eok k by (simp add: entries_ok_def)
    have "entry_at st i \<in># filter_mset (matches kc k) (entries st)" using live [OF k] True es(2) by simp
    then have "filter_mset (matches kc k) (entries st) = {#entry_at st i#}" by (rule size_le_1_eq [OF one])
    then have "set_mset (filter_mset (matches kc k) (entries (set_tag i t st))) = {}"
      unfolding filt [OF k] filter_diff_mset using live [OF k] True by (simp only: filter_single_mset) simp
    then have "\<forall>e\<in>#entries (set_tag i t st). \<not> matches kc k e" unfolding set_mset_filter by blast
    with True show ?thesis by (simp only: ht_abs_None if_True)
  next
    case False
    have nm: "\<not> matches kc k (entry_at st i)" using live [OF k] False by simp
    show ?thesis
    proof (cases "ht_abs kc st k")
      case None
      then have "ht_abs kc (set_tag i t st) k = None"
        using dead [OF k] i(5) unfolding ht_abs_None es(1) by (auto dest: in_diffD)
      with None False show ?thesis by simp
    next
      case (Some s')
      then obtain t' where m: "(t', s') \<in># entries st" "matches kc k (t', s')" by (auto dest: ht_abs_Some)
      then have "(t', s') \<noteq> entry_at st i" using nm by metis
      then have "(t', s') \<in># entries (set_tag i t st)" unfolding es(1) using m(1) by (simp add: in_diff_one)
      with m(2) sz [OF k] have "ht_abs kc (set_tag i t st) k = Some s'" by (intro ht_abs_eqI)
      with Some False show ?thesis by simp
    qed
  qed
  moreover have "lookupDisable kc st key = Returns (Some (data_block st, i * total_slot_size st), set_tag i t st)"
    using i(1,4) by (simp add: lookupDisable_def Let_def t_def set_tag_def matches_def entry_at_def filled_def)
  ultimately show thesis
    using that deref_slot [OF shape i(2)] i(5) by blast
qed

end

context key_laws begin

lemma insert_spec:
  assumes inv: "ht_inv kc ok st" and key: "ok key" and absent: "ht_abs kc st key = None"
  obtains p st' flag' where "sk_insert kc (st, flag) key = Returns (p, (st', flag'))" "ht_inv kc ok st'"
    "deref st' p = Some (pad_slot st key)"
    "\<And>k. ok k \<Longrightarrow> ht_abs kc st' k = (if kc_eq kc key k then Some (pad_slot st key) else ht_abs kc st k)"
proof -
  obtain st1 flag1 where r: "reserveSlot kc (st, flag) = Returns (st1, flag1)" "ht_inv kc ok st1"
    "entries st1 = entries st" "inserted st1 = inserted st" "inserted st1 < max_fill st1"
    "total_slot_size st1 = total_slot_size st"
    using reserve_spec [OF inv, of flag] by blast
  have abs1: "ht_abs kc st1 k = ht_abs kc st k" if "ok k" for k
    using ht_abs_cong [OF r(3), of kc k] r(2) that by (simp add: ht_inv_def entries_ok_def)
  have pad1: "pad_slot st1 key = pad_slot st key" by (simp add: pad_slot_def r(6))
  note shape = inv_core(2) [OF r(2)]
  let ?h = "home st1 (kc_hash kc key)" and ?n = "mod_mask st1 + 1"
  obtain f where f: "f \<le> mod_mask st1" "ht_tags st1 ! f = 0" using inv_free [OF r(2)] .
  have Pf: "\<not> filled (ht_tags st1 ! f)" using f by simp
  obtain d where d: "probe_loop (advance st1) (\<lambda>c. \<not> filled (ht_tags st1 ! cur_tag c)) (start_cursor st1 (kc_hash kc key)) =
      Some (cursor_at st1 ((?h + d) mod ?n))"
    "d \<le> mod_mask st1" "\<not> filled (ht_tags st1 ! ((?h + d) mod ?n))"
    "\<And>e. e < d \<Longrightarrow> \<not> \<not> filled (ht_tags st1 ! ((?h + e) mod ?n))"
    using probe_slots [where P = "\<lambda>i. \<not> filled (ht_tags st1 ! i)", OF shape f(1) Pf, of "kc_hash kc key"] by blast
  let ?i = "(?h + d) mod ?n"
  have ile: "?i \<le> mod_mask st1" by (simp add: less_Suc_eq_le [symmetric])
  have zero: "ht_tags st1 ! ?i = 0"
  proof (rule ccontr)
    assume "ht_tags st1 ! ?i \<noteq> 0"
    then have "entry_at st1 ?i \<in># entries st1" using shape by (auto simp: set_entries used_def ht_shape_def)
    with inv_core(3) [OF r(2)] d(3) show False by (auto simp: entries_ok_def good_entry_def entry_at_def)
  qed
  have reach: "reaches st1 ?h ?i" unfolding reaches_def using d(2,4) filled_nonzero by (intro exI [of _ d]) blast
  have new: "ht_abs kc st1 key = None" using absent abs1 [OF key] by simp
  note a = add_entry [OF r(2,5) key ile zero reach new]
  show thesis
  proof (rule that)
    show "sk_insert kc (st, flag) key = Returns ((data_block st1, ?i * total_slot_size st1),
      (set_slot ?i (new_tag (kc_hash kc key)) key st1)\<lparr> inserted := Suc (inserted st1) \<rparr>, flag1)"
      using r(1) d(1) by (simp add: sk_insert_def Let_def set_slot_def new_tag_def filled_def)
  qed (use a abs1 pad1 in \<open>simp_all\<close>)
qed

end

end
