(* ===== verification/HashTable_Iter.thy ===== *)
theory HashTable_Iter
  imports HashTable_Ops
begin

text \<open>
  The iterators of the open-addressing tables: a scan with \<open>iteratorStart\<close> and
  \<open>iteratorAdvance\<close> ends and visits exactly the filled slots, once each, in slot order.
\<close>

definition it_at :: "shared_ht \<Rightarrow> nat \<Rightarrow> iter" where
  "it_at st i = \<lparr> it_idx = i, it_data = Some (i * total_slot_size st), it_tag = i \<rparr>"

definition it_end :: "shared_ht \<Rightarrow> iter" where
  "it_end st = \<lparr> it_idx = mod_mask st, it_data = None, it_tag = mod_mask st \<rparr>"

text \<open>
  The iterators of the tables stop at the slots whose tag passes a test \<open>P\<close>: the fill bit, or, for
  the outer joins, the fill bit without the marking bit.
\<close>

definition skip_to :: "(u8 \<Rightarrow> bool) \<Rightarrow> shared_ht \<Rightarrow> iter \<Rightarrow> iter option" where
  "skip_to P st it = probe_loop (advanceNoWrap st)
     (\<lambda>it. \<not> (\<not> P (ht_tags st ! it_tag it) \<and> it_data it \<noteq> None)) it"

definition next_to :: "(u8 \<Rightarrow> bool) \<Rightarrow> shared_ht \<Rightarrow> iter \<Rightarrow> iter option" where
  "next_to P st it = skip_to P st (advanceNoWrap st (it\<lparr> it_tag := it_idx it \<rparr>))"

abbreviation stops :: "(u8 \<Rightarrow> bool) \<Rightarrow> shared_ht \<Rightarrow> nat \<Rightarrow> bool" where
  "stops P st i \<equiv> P (ht_tags st ! i)"

definition it_next :: "(u8 \<Rightarrow> bool) \<Rightarrow> shared_ht \<Rightarrow> nat \<Rightarrow> iter" where
  "it_next P st i = (case find (stops P st) [i..<Suc (mod_mask st)] of None \<Rightarrow> it_end st | Some j \<Rightarrow> it_at st j)"

lemma skip_stop: "it_data it = None \<Longrightarrow> skip_to P st it = Some it"
  unfolding skip_to_def by (subst probe_loop.simps) simp

lemma skip_step: "skip_to P st it =
    (if P (ht_tags st ! it_tag it) \<or> it_data it = None then Some it else skip_to P st (advanceNoWrap st it))"
  unfolding skip_to_def by (subst probe_loop.simps) simp

lemma it_at_simps [simp]:
  "it_idx (it_at st i) = i" "it_data (it_at st i) = Some (i * total_slot_size st)" "it_tag (it_at st i) = i"
  by (simp_all add: it_at_def)

lemma advanceNoWrap_at:
  "i < mod_mask st \<Longrightarrow> advanceNoWrap st (it_at st i) = it_at st (Suc i)"
  "advanceNoWrap st (it_at st (mod_mask st)) = it_end st"
  by (simp_all add: advanceNoWrap_def it_at_def it_end_def)

lemma skip_at: "i \<le> mod_mask st \<Longrightarrow> skip_to P st (it_at st i) = Some (it_next P st i)"
proof (induction "mod_mask st - i" arbitrary: i)
  case 0
  then have i: "i = mod_mask st" by simp
  show ?case
    by (subst skip_step) (simp add: i it_next_def advanceNoWrap_at skip_stop it_end_def)
next
  case (Suc k)
  then have lt: "i < mod_mask st" by simp
  with Suc have IH: "skip_to P st (it_at st (Suc i)) = Some (it_next P st (Suc i))" by simp
  have "[i..<Suc (mod_mask st)] = i # [Suc i..<Suc (mod_mask st)]" using lt by (simp add: upt_conv_Cons)
  then show ?case
    by (subst skip_step) (simp add: advanceNoWrap_at lt IH, simp add: it_next_def)
qed

definition it_after :: "(u8 \<Rightarrow> bool) \<Rightarrow> shared_ht \<Rightarrow> nat \<Rightarrow> iter" where
  "it_after P st i = (if i = mod_mask st then it_end st else it_next P st (Suc i))"

lemma advance_it_at: "i \<le> mod_mask st \<Longrightarrow> next_to P st (it_at st i) = Some (it_after P st i)"
proof -
  assume i: "i \<le> mod_mask st"
  have "(it_at st i)\<lparr> it_tag := it_idx (it_at st i) \<rparr> = it_at st i" by (simp add: it_at_def)
  then have e: "next_to P st (it_at st i) = skip_to P st (advanceNoWrap st (it_at st i))"
    by (simp add: next_to_def it_at_def)
  show ?thesis
  proof (cases "i = mod_mask st")
    case True
    with e show ?thesis by (simp add: it_after_def advanceNoWrap_at skip_stop it_end_def)
  next
    case False
    with i e show ?thesis by (simp add: it_after_def advanceNoWrap_at skip_at)
  qed
qed

abbreviation stops_from :: "(u8 \<Rightarrow> bool) \<Rightarrow> shared_ht \<Rightarrow> nat \<Rightarrow> nat list" where
  "stops_from P st i \<equiv> filter (stops P st) [i..<Suc (mod_mask st)]"

lemma it_next_cases:
  "(it_next P st i = it_end st \<and> stops_from P st i = []) \<or>
   (\<exists>j. i \<le> j \<and> j \<le> mod_mask st \<and> it_next P st i = it_at st j \<and> stops_from P st i = j # stops_from P st (Suc j))"
proof (cases "find (stops P st) [i..<Suc (mod_mask st)]")
  case None
  then have "it_next P st i = it_end st" by (simp add: it_next_def del: upt_Suc)
  moreover from None have "stops_from P st i = []" by (auto simp: find_None_iff filter_empty_conv simp del: upt_Suc)
  ultimately show ?thesis by simp
next
  case (Some j)
  then obtain k where k: "k < length [i..<Suc (mod_mask st)]" "stops P st ([i..<Suc (mod_mask st)] ! k)"
    "j = [i..<Suc (mod_mask st)] ! k" "\<And>m. m < k \<Longrightarrow> \<not> stops P st ([i..<Suc (mod_mask st)] ! m)"
    by (auto simp: find_Some_iff simp del: upt_Suc)
  then have j: "j = i + k" "j \<le> mod_mask st" by (simp_all del: upt_Suc)
  have "[i..<Suc (mod_mask st)] = [i..<j] @ [j..<Suc (mod_mask st)]"
    using j upt_add_eq_append [of i j "Suc (mod_mask st) - j"] by (simp del: upt_Suc)
  moreover have "filter (stops P st) [i..<j] = []"
  proof -
    have "\<not> stops P st x" if "i \<le> x" "x < j" for x
      using k(4) [of "x - i"] that j by (simp del: upt_Suc)
    then show ?thesis by (simp add: filter_empty_conv)
  qed
  moreover have "[j..<Suc (mod_mask st)] = j # [Suc j..<Suc (mod_mask st)]" using j by (simp add: upt_conv_Cons)
  moreover have "stops P st j" using k(2,3) by simp
  ultimately have "stops_from P st i = j # stops_from P st (Suc j)" by (simp del: upt_Suc)
  with Some j show ?thesis by (auto simp: it_next_def simp del: upt_Suc)
qed

text \<open>A client that loops from the iterator on, collecting the pointers.\<close>

lemma scan_next:
  assumes scan: "\<And>it. f it = (case it_data it of None \<Rightarrow> Some []
      | Some d \<Rightarrow> Option.bind (next_to P st it) (\<lambda>it'. Option.bind (f it') (\<lambda>ds. Some (d # ds))))"
    and "i \<le> Suc (mod_mask st)"
  shows "f (it_next P st i) = Some (map (\<lambda>j. j * total_slot_size st) (stops_from P st i))"
  using assms(2)
proof (induction "Suc (mod_mask st) - i" arbitrary: i rule: less_induct)
  case (less i)
  have fend: "f (it_end st) = Some []" by (subst scan) (simp add: it_end_def)
  from it_next_cases [of P st i] show ?case
  proof (elim disjE exE conjE)
    assume "it_next P st i = it_end st" "stops_from P st i = []"
    then show ?thesis by (simp add: fend del: upt_Suc)
  next
    fix j assume j: "i \<le> j" "j \<le> mod_mask st" "it_next P st i = it_at st j" "stops_from P st i = j # stops_from P st (Suc j)"
    have "f (it_after P st j) = Some (map (\<lambda>j. j * total_slot_size st) (stops_from P st (Suc j)))"
    proof (cases "j = mod_mask st")
      case True then show ?thesis by (simp add: it_after_def fend)
    next
      case False
      with j less(1) [of "Suc j"] show ?thesis by (simp add: it_after_def del: upt_Suc)
    qed
    then show ?thesis
      unfolding j(3,4) by (subst scan) (simp add: advance_it_at j(2) del: upt_Suc)
  qed
qed

lemma skip_empty_to: "skip_empty = skip_to filled"
  by (intro ext) (simp add: skip_empty_def skip_to_def filled_def)

lemma iteratorAdvance_to: "iteratorAdvance = next_to filled"
  by (intro ext) (simp add: iteratorAdvance_def next_to_def skip_empty_to)

lemma start_at: "iteratorStart st = Some (it_next filled st 0)"
proof -
  have "iteratorStart st = skip_empty st (it_at st 0)" by (simp add: iteratorStart_def it_at_def)
  then show ?thesis by (simp add: skip_at skip_empty_to)
qed

lemma scan_table_slots:
  "scan_table st = Some (map (\<lambda>j. j * total_slot_size st) (stops_from filled st 0))"
proof -
  have "scan_from st it = (case it_data it of None \<Rightarrow> Some []
      | Some d \<Rightarrow> Option.bind (next_to filled st it) (\<lambda>it'. Option.bind (scan_from st it') (\<lambda>ds. Some (d # ds))))" for it
    by (subst scan_from.simps) (simp only: iteratorAdvance_to)
  then have "scan_from st (it_next filled st 0) = Some (map (\<lambda>j. j * total_slot_size st) (stops_from filled st 0))"
    by (rule scan_next) simp
  then show ?thesis by (simp add: scan_table_def start_at del: upt_Suc)
qed

text \<open>In a table that keeps the invariant the scan yields the entries.\<close>

lemma scan_used:
  assumes "ht_inv kc ok st"
  shows "\<exists>js. scan_table st = Some (map (\<lambda>j. j * total_slot_size st) js) \<and> sorted_wrt (<) js \<and> set js = used st \<and>
    length js = inserted st \<and> mset (map (slot_at st) js) = image_mset snd (entries st)"
proof -
  let ?js = "filter (stops filled st) [0..<Suc (mod_mask st)]"
  have shape: "ht_shape kc st" and eok: "entries_ok kc ok (entries st)" and ins: "inserted st = size (entries st)"
    using assms by (simp_all add: ht_inv_def)
  have "stops filled st j" if "j \<in> used st" for j
  proof -
    have "entry_at st j \<in># entries st" using that by (simp add: set_entries)
    with eok show ?thesis by (auto simp: entries_ok_def good_entry_def entry_at_def)
  qed
  then have set: "set ?js = used st"
    using shape by (auto simp: used_def ht_shape_def filled_nonzero simp del: upt_Suc)
  have sorted: "sorted_wrt (<) ?js" by (intro sorted_wrt_filter) (simp del: upt_Suc)
  have dist: "distinct ?js" by simp
  have "mset ?js = mset_set (used st)" using mset_set_set [OF dist] set by simp
  then have m: "mset (map (slot_at st) ?js) = image_mset snd (entries st)"
    by (simp add: entries_def multiset.map_comp entry_at_def comp_def del: upt_Suc)
  then have "length ?js = inserted st" using ins by (metis length_map size_image_mset size_mset)
  with set sorted m scan_table_slots show ?thesis by blast
qed

end
