(* ===== verification/HashTable_Props.thy ===== *)
theory HashTable_Props
  imports HashTable_Iter
begin

text \<open>
  The contract of the aggregation hash tables: the key laws hold for \<open>HashTableSimpleKey\<close> and
  \<open>HashTableComplexKey\<close>, and with them the tables refine maps from keys to slots.
\<close>

section \<open>The two kinds of keys\<close>

definition sk_ok :: "u16 \<Rightarrow> bytes \<Rightarrow> bool" where "sk_ok key_size k \<longleftrightarrow> length k = unat key_size"
definition ck_ok :: "bytes \<Rightarrow> bool" where "ck_ok p \<longleftrightarrow> length p = 8 \<and> p \<noteq> null_ptr"

interpretation sk: key_laws "sk_cmp xxh key_size" "sk_ok key_size" for xxh key_size
  by unfold_locales (auto simp: sk_cmp_def sk_ok_def)

interpretation ck: key_laws "ck_cmp xxh strs" ck_ok for xxh strs
  by unfold_locales (auto simp: ck_cmp_def ck_ok_def)

definition sk_inv :: "(bytes \<Rightarrow> u64) \<Rightarrow> u16 \<Rightarrow> shared_ht \<Rightarrow> bool" where
  "sk_inv xxh key_size st \<longleftrightarrow> ht_inv (sk_cmp xxh key_size) (sk_ok key_size) st"

definition sk_abs :: "(bytes \<Rightarrow> u64) \<Rightarrow> u16 \<Rightarrow> shared_ht \<Rightarrow> bytes \<Rightarrow> bytes option" where
  "sk_abs xxh key_size = ht_abs (sk_cmp xxh key_size)"

definition ck_inv :: "(bytes \<Rightarrow> u64) \<Rightarrow> (bytes \<Rightarrow> bytes) \<Rightarrow> shared_ht \<Rightarrow> bool" where
  "ck_inv xxh strs st \<longleftrightarrow> ht_inv (ck_cmp xxh strs) ck_ok st"

definition ck_abs :: "(bytes \<Rightarrow> u64) \<Rightarrow> (bytes \<Rightarrow> bytes) \<Rightarrow> shared_ht \<Rightarrow> bytes \<Rightarrow> bytes option" where
  "ck_abs xxh strs = ht_abs (ck_cmp xxh strs)"

lemma sk_eq [simp]: "kc_eq (sk_cmp xxh ks) a b \<longleftrightarrow> a = b" by (simp add: sk_cmp_def)
lemma sk_len [simp]: "kc_len (sk_cmp xxh ks) = unat ks" by (simp add: sk_cmp_def)
lemma ck_len [simp]: "kc_len (ck_cmp xxh strs) = 8" by (simp add: ck_cmp_def)
lemma ck_eq: "ck_ok a \<Longrightarrow> kc_eq (ck_cmp xxh strs) a b \<longleftrightarrow> strs a = strs b" by (simp add: ck_cmp_def ck_ok_def)

section \<open>A concrete table for the witnesses\<close>

definition xxh_demo :: "bytes \<Rightarrow> u64" where
  "xxh_demo bs = of_nat (length bs) + (if bs = [] then 0 else ucast (hd bs) * 0x0300000000000001)"

definition demo_table :: shared_ht where
  "demo_table = fresh_ht 0 2 4"

lemma demo_inv: "sk_inv xxh_demo 1 demo_table"
  unfolding sk_inv_def demo_table_def by (rule inv_fresh) (auto simp: pot_def intro: exI [of _ 2])

text \<open>A table of four slots that is full with two groups, which have the same home slot.\<close>

definition demo_full :: shared_ht where
  "demo_full = \<lparr> ht_tags = [0, 0, 0x8F, 0x9B], ht_data = [0, 0, 0, 0, 5, 1, 9, 2], mod_mask = 3, inserted = 2, max_fill = 2,
     total_slot_size = 2, data_block = 0 \<rparr>"

lemma demo_full_simps [simp]:
  "ht_tags demo_full = [0, 0, 0x8F, 0x9B]" "ht_data demo_full = [0, 0, 0, 0, 5, 1, 9, 2]" "mod_mask demo_full = 3" "inserted demo_full = 2"
  "max_fill demo_full = 2" "total_slot_size demo_full = 2" "data_block demo_full = 0"
  by (simp_all add: demo_full_def)

lemma four_slots: "i < Suc (Suc (Suc (Suc 0))) \<longleftrightarrow> i \<in> {0, 1, 2, 3 :: nat}"
  by auto

lemma demo_full_used: "used demo_full = {2, 3}"
proof -
  have "used demo_full = {i \<in> {0, 1, 2, 3}. ht_tags demo_full ! i \<noteq> 0}" by (simp add: used_def four_slots)
  also have "\<dots> = {2, 3}" by auto
  finally show ?thesis .
qed

lemma demo_full_entries: "entries demo_full = {# (0x8F, [5, 1]), (0x9B, [9, 2]) #}"
  by (simp add: entries_def demo_full_used entry_at_def slot_at_def mem_read_def)

lemma demo_full_inv: "sk_inv xxh_demo 1 demo_full"
proof -
  let ?c = "sk_cmp xxh_demo 1"
  have p: "pot 4" by (auto simp: pot_def intro: exI [of _ 2])
  have h: "home demo_full (kc_hash ?c (slot_key ?c (slot_at demo_full i))) = 2" if "i \<in> {2, 3}" for i
    using that by (auto simp: home_def sk_cmp_def slot_key_def xxh_demo_def slot_at_def mem_read_def)
  have "reaches demo_full 2 2" by (simp add: reaches_def exI [of _ 0])
  moreover have "reaches demo_full 2 3" unfolding reaches_def by (intro exI [of _ 1]) simp
  ultimately have "chained ?c demo_full" using h by (auto simp: chained_def demo_full_used)
  moreover have "ht_shape ?c demo_full" using p by (simp add: ht_shape_def)
  moreover have two: "replicate 2 0 = [0, 0 :: u8]" by (simp add: numeral_2_eq_2)
  have "\<forall>i\<in>{0, 1, 2, 3}. ht_tags demo_full ! i = 0 \<longrightarrow> slot_at demo_full i = [0, 0]" by (simp add: slot_at_def mem_read_def)
  then have "zeroed demo_full" using two by (simp add: zeroed_def four_slots)
  moreover have "size (filter_mset (matches ?c key) (entries demo_full)) \<le> 1" for key
    by (cases "key = [5]") (auto simp: demo_full_entries matches_def slot_key_def)
  then have "entries_ok ?c (sk_ok 1) (entries demo_full)"
    by (simp add: entries_ok_def) (simp add: demo_full_entries good_entry_def filled_def tag_masks slot_key_def sk_ok_def)
  ultimately show ?thesis by (simp add: sk_inv_def ht_inv_def demo_full_entries)
qed

section \<open>\<open>HashTableSimpleKey\<close> refines a map\<close>

text \<open>
  C1. \<open>HashTableSimpleKey::lookupOrInsert\<close> returns, whatever the table holds. It reports
  a new key exactly when the key has no group, the pointer leads to the group of the key (a fresh
  group is the key followed by zero bytes), every other group keeps its bytes, the table grows only
  when it is full, and then, and only then, the block moves and the restart flag is raised.
\<close>
theorem sk_lookupOrInsert_refines:
  assumes "sk_inv xxh ks st" "sk_ok ks key"
  shows "\<exists>p st' flag'. ht_lookupOrInsert (sk_cmp xxh ks) (st, flag) key =
      Returns ((p, sk_abs xxh ks st key = None), (st', flag')) \<and> sk_inv xxh ks st' \<and>
    deref st' p = sk_abs xxh ks st' key \<and>
    (\<forall>k. sk_ok ks k \<longrightarrow> sk_abs xxh ks st' k =
       (if k = key \<and> sk_abs xxh ks st key = None then Some (pad_slot st key) else sk_abs xxh ks st k)) \<and>
    inserted st' = inserted st + (if sk_abs xxh ks st key = None then 1 else 0) \<and>
    (if inserted st < max_fill st then data_block st' = data_block st \<and> flag' = flag
     else data_block st' = Suc (data_block st) \<and> flag' = map_option (\<lambda>_. True) flag)"
proof -
  have inv: "ht_inv (sk_cmp xxh ks) (sk_ok ks) st" using assms(1) by (simp add: sk_inv_def)
  show ?thesis unfolding sk_inv_def sk_abs_def
    by (rule sk.lookupOrInsert_spec [OF inv assms(2), of flag])
      (intro exI conjI, assumption+, auto simp: assms(2) split: option.splits)
qed

theorem sk_lookupOrInsert_refines_witness:
  "\<exists>p st' flag'. ht_lookupOrInsert (sk_cmp xxh_demo 1) (demo_table, Some False) [7] = Returns ((p, True), (st', flag')) \<and>
     deref st' p = Some [7, 0] \<and> flag' = Some False"
  using sk_lookupOrInsert_refines [OF demo_inv, of "[7]" "Some False"]
  by (simp add: sk_ok_def) (auto simp: sk_abs_def demo_table_def pad_slot_def)

text \<open>
  C2. \<open>HashTableComplexKey::lookupOrInsert\<close> does the same up to string equality: two key
  pointers to equal strings share one group, and the slot keeps the pointer that came first. The number of groups, the growing when the
  table is full, the move of the block and the restart flag are as for simple keys.
\<close>
theorem ck_lookupOrInsert_refines:
  assumes "ck_inv xxh strs st" "ck_ok key"
  shows "\<exists>p st' flag'. ck_lookupOrInsert xxh strs (st, flag) key =
      Returns ((p, ck_abs xxh strs st key = None), (st', flag')) \<and> ck_inv xxh strs st' \<and>
    deref st' p = ck_abs xxh strs st' key \<and>
    (\<forall>k. ck_ok k \<longrightarrow> ck_abs xxh strs st' k =
       (if strs k = strs key \<and> ck_abs xxh strs st key = None then Some (pad_slot st key) else ck_abs xxh strs st k)) \<and>
    inserted st' = inserted st + (if ck_abs xxh strs st key = None then 1 else 0) \<and>
    (if inserted st < max_fill st then data_block st' = data_block st \<and> flag' = flag
     else data_block st' = Suc (data_block st) \<and> flag' = map_option (\<lambda>_. True) flag)"
proof -
  have inv: "ht_inv (ck_cmp xxh strs) ck_ok st" using assms(1) by (simp add: ck_inv_def)
  show ?thesis unfolding ck_inv_def ck_abs_def ck_lookupOrInsert_eq
    by (rule ck.lookupOrInsert_spec [OF inv assms(2), of flag])
      (intro exI conjI, assumption+, auto simp: assms(2) ck_eq split: option.splits)
qed

definition strs_demo :: "bytes \<Rightarrow> bytes" where "strs_demo p = take 1 p"

definition demo_strings :: shared_ht where "demo_strings = fresh_ht 0 16 4"

lemma demo_strings_inv: "ck_inv xxh_demo strs_demo demo_strings"
  unfolding ck_inv_def demo_strings_def by (rule inv_fresh) (auto simp: pot_def intro: exI [of _ 2])

theorem ck_lookupOrInsert_refines_witness:
  "\<exists>p st' flag'. ck_lookupOrInsert xxh_demo strs_demo (demo_strings, Some False) [65, 1, 0, 0, 0, 0, 0, 0] =
      Returns ((p, True), (st', flag')) \<and> flag' = Some False \<and> inserted st' = 1 \<and>
     ck_abs xxh_demo strs_demo st' [65, 2, 0, 0, 0, 0, 0, 0] = Some ([65, 1, 0, 0, 0, 0, 0, 0] @ replicate 8 0)"
proof -
  have ok: "ck_ok [65, 1, 0, 0, 0, 0, 0, 0]" "ck_ok [65, 2, 0, 0, 0, 0, 0, 0]"
    by (simp_all add: ck_ok_def null_ptr_def eval_nat_numeral)
  have "ck_abs xxh_demo strs_demo demo_strings k = None" for k by (simp add: ck_abs_def demo_strings_def)
  with ck_lookupOrInsert_refines [OF demo_strings_inv ok(1), of "Some False"] ok(2) show ?thesis
    by (auto simp: pad_slot_def demo_strings_def strs_demo_def fresh_ht_def)
qed

text \<open>
  C3. \<open>lookup\<close> of both tables ends and yields a pointer to the group of the key, or null exactly
  when the key has no group.
\<close>
theorem lookup_refines:
  "(sk_inv xxh ks st \<and> sk_ok ks key \<longrightarrow>
     (\<exists>r. ht_lookup (sk_cmp xxh ks) st key = Returns r \<and> map_option (deref st) r = map_option Some (sk_abs xxh ks st key))) \<and>
   (ck_inv xxh strs st \<and> ck_ok key \<longrightarrow>
     (\<exists>r. ck_lookup xxh strs st key = Returns r \<and> map_option (deref st) r = map_option Some (ck_abs xxh strs st key)))"
  unfolding sk_inv_def sk_abs_def ck_inv_def ck_abs_def ck_lookup_eq
  using sk.lookup_spec ck.lookup_spec by blast

theorem lookup_refines_witness:
  "\<exists>r. ht_lookup (sk_cmp xxh_demo 1) demo_table [7] = Returns r \<and> r = None"
  using lookup_refines [of xxh_demo 1 demo_table "[7]" undefined] demo_inv
  by (auto simp: sk_ok_def sk_abs_def demo_table_def)

section \<open>Growing, scanning and disabling\<close>

text \<open>
  C4. \<open>reserveSlot\<close> always returns a table that keeps the invariant, stands for the same map and
  has a free slot under its fill limit. It is the identity when there is room; otherwise the capacity doubles, the block is
  new, so that every pointer into the old block is stale, and an installed restart flag is raised.
\<close>
theorem reserveSlot_correct:
  assumes "sk_inv xxh ks st"
  shows "\<exists>st' flag'. reserveSlot (sk_cmp xxh ks) (st, flag) = Returns (st', flag') \<and> sk_inv xxh ks st' \<and>
    entries st' = entries st \<and> (\<forall>k. sk_ok ks k \<longrightarrow> sk_abs xxh ks st' k = sk_abs xxh ks st k) \<and> inserted st' < max_fill st' \<and>
    (if inserted st < max_fill st then st' = st \<and> flag' = flag
     else capacity st' = 2 * capacity st \<and> flag' = map_option (\<lambda>_. True) flag \<and>
       (\<forall>off. deref st (data_block st, off) \<noteq> None \<longrightarrow> deref st' (data_block st, off) = None))"
proof -
  have inv: "ht_inv (sk_cmp xxh ks) (sk_ok ks) st" using assms by (simp add: sk_inv_def)
  obtain st' flag' where r: "reserveSlot (sk_cmp xxh ks) (st, flag) = Returns (st', flag')"
    "ht_inv (sk_cmp xxh ks) (sk_ok ks) st'" "entries st' = entries st" "inserted st' < max_fill st'"
    "if inserted st < max_fill st then st' = st \<and> flag' = flag
     else flag' = map_option (\<lambda>_. True) flag \<and> mod_mask st' + 1 = 2 * (mod_mask st + 1) \<and> data_block st' = Suc (data_block st)"
    using reserve_spec [OF inv, of flag] by blast
  have "sk_abs xxh ks st' k = sk_abs xxh ks st k" if "sk_ok ks k" for k
    using ht_abs_cong [OF r(3), of "sk_cmp xxh ks" k] r(2) that by (simp add: ht_inv_def entries_ok_def sk_abs_def)
  moreover have "if inserted st < max_fill st then st' = st \<and> flag' = flag
     else capacity st' = 2 * capacity st \<and> flag' = map_option (\<lambda>_. True) flag \<and>
       (\<forall>off. deref st (data_block st, off) \<noteq> None \<longrightarrow> deref st' (data_block st, off) = None)"
    using r(5) by (simp add: capacity_def deref_def split: if_splits)
  ultimately show ?thesis using r(1-4) unfolding sk_inv_def by blast
qed

theorem reserveSlot_correct_witness:
  "\<exists>st'. reserveSlot (sk_cmp xxh_demo 1) (demo_full, Some False) = Returns (st', Some True) \<and> inserted st' < max_fill st' \<and>
     capacity st' = 8 \<and> entries st' = entries demo_full"
  using reserveSlot_correct [OF demo_full_inv, of "Some False"] by (auto simp: capacity_def)

text \<open>
  C5. A scan with \<open>iteratorStart\<close> and \<open>iteratorAdvance\<close> ends after visiting every group of the
  table exactly once, in slot order.
\<close>
theorem scan_visits_entries:
  assumes "sk_inv xxh ks st"
  shows "\<exists>js. scan_table st = Some (map (\<lambda>j. j * total_slot_size st) js) \<and> sorted_wrt (<) js \<and> set js = used st \<and>
    length js = ht_size st \<and> mset (map (slot_at st) js) = image_mset snd (entries st)"
  using assms scan_used unfolding sk_inv_def ht_size_def by blast

theorem scan_visits_entries_witness: "scan_table demo_full = Some [4, 6]"
proof -
  from scan_visits_entries [OF demo_full_inv] obtain js where js: "scan_table demo_full = Some (map (\<lambda>j. j * 2) js)"
    "sorted_wrt (<) js" "set js = {2, 3}" by (auto simp: demo_full_used)
  have "sorted_list_of_set (set js) = js"
    using js(2) by (simp add: strict_sorted_iff sorted_list_of_set.idem_if_sorted_distinct)
  then have "js = [2, 3]" unfolding js(3) by simp
  with js(1) show ?thesis by simp
qed

text \<open>
  C6. \<open>lookupDisable\<close> of a key that is present returns its group and removes exactly that key
  from the map; the invariant, so every other probing chain, stays intact.
\<close>
theorem lookupDisable_removes:
  assumes "sk_inv xxh ks st" "sk_ok ks key" "sk_abs xxh ks st key = Some s"
  shows "\<exists>p st'. lookupDisable (sk_cmp xxh ks) st key = Returns (Some p, st') \<and> deref st p = Some s \<and>
    sk_inv xxh ks st' \<and> (\<forall>k. sk_ok ks k \<longrightarrow> sk_abs xxh ks st' k = (if k = key then None else sk_abs xxh ks st k))"
proof -
  have inv: "ht_inv (sk_cmp xxh ks) (sk_ok ks) st" using assms(1) by (simp add: sk_inv_def)
  have pres: "ht_abs (sk_cmp xxh ks) st key = Some s" using assms(3) by (simp add: sk_abs_def)
  show ?thesis unfolding sk_inv_def sk_abs_def
    by (rule sk.disable_spec [OF inv assms(2) pres]) (intro exI conjI, assumption+, simp add: eq_commute)
qed

lemma demo_filled:
  obtains st where "sk_inv xxh_demo 1 st" "sk_abs xxh_demo 1 st [7] = Some [7, 0]" "sk_abs xxh_demo 1 st [8] = None"
    "inserted st < max_fill st"
proof -
  have inv: "ht_inv (sk_cmp xxh_demo 1) (sk_ok 1) demo_table" and ok: "sk_ok 1 [7]" "sk_ok 1 [8]"
    using demo_inv by (simp_all add: sk_inv_def sk_ok_def)
  have n: "ht_abs (sk_cmp xxh_demo 1) demo_table k = None" for k by (simp add: demo_table_def)
  obtain st' where i': "ht_inv (sk_cmp xxh_demo 1) (sk_ok 1) st'"
    and a': "\<And>k. sk_ok 1 k \<Longrightarrow> ht_abs (sk_cmp xxh_demo 1) st' k =
      (if kc_eq (sk_cmp xxh_demo 1) [7] k \<and> ht_abs (sk_cmp xxh_demo 1) demo_table [7] = None
       then Some (pad_slot demo_table [7]) else ht_abs (sk_cmp xxh_demo 1) demo_table k)"
    by (rule sk.lookupOrInsert_spec [OF inv ok(1), of None]) blast
  obtain st'' flag'' where r: "ht_inv (sk_cmp xxh_demo 1) (sk_ok 1) st''" "entries st'' = entries st'" "inserted st'' < max_fill st''"
    by (rule reserve_spec [OF i', of None]) blast
  have "ht_abs (sk_cmp xxh_demo 1) st'' k = ht_abs (sk_cmp xxh_demo 1) st' k" if "sk_ok 1 k" for k
    using ht_abs_cong [OF r(2), of "sk_cmp xxh_demo 1" k] r(1) that by (simp add: ht_inv_def entries_ok_def)
  with r(1,3) a' ok that [of st''] show thesis
    by (simp add: sk_inv_def sk_abs_def n) (simp add: pad_slot_def demo_table_def)
qed

theorem lookupDisable_removes_witness:
  "\<exists>st p st'. lookupDisable (sk_cmp xxh_demo 1) st [7] = Returns (Some p, st') \<and> deref st p = Some [7, 0] \<and>
     sk_abs xxh_demo 1 st' [7] = None"
proof -
  obtain st where st: "sk_inv xxh_demo 1 st" "sk_abs xxh_demo 1 st [7] = Some [7, 0]"
    using demo_filled by blast
  have ok: "sk_ok 1 [7]" by (simp add: sk_ok_def)
  from lookupDisable_removes [OF st(1) ok st(2)] ok show ?thesis by metis
qed

text \<open>Disabling a key that is absent flips the tag of the free slot that ends the search.\<close>

lemma find_set_tag:
  assumes shape: "ht_shape kc st" and found: "findSlotOrEmpty kc st (kc_hash kc key) key = Some (cursor_at st i)"
    and i: "i \<le> mod_mask st" "\<not> filled (ht_tags st ! i)" and t: "\<not> filled t"
  shows "findSlotOrEmpty kc (set_tag i t st) (kc_hash kc key) key = Some (cursor_at st i)"
proof -
  let ?st = "set_tag i t st" and ?c = "start_cursor st (kc_hash kc key)"
  have adv: "advance ?st = advance st" by (rule ext) (simp add: advance_def set_tag_def)
  have start: "start_cursor ?st (kc_hash kc key) = ?c" by (simp add: start_cursor_def set_tag_def)
  have shape': "ht_shape kc ?st" using shape by (simp add: ht_shape_def set_tag_def)
  let ?P = "\<lambda>j. \<not> filled (ht_tags st ! j) \<or> matches kc key (entry_at st j)"
  let ?Q = "\<lambda>j. \<not> filled (ht_tags ?st ! j) \<or> matches kc key (entry_at ?st j)"
  have len: "i < length (ht_tags st)" using shape i(1) by (simp add: ht_shape_def)
  have "?Q j = ?P j" for j
    using len i(2) t by (cases "j = i") (auto simp: entry_at_def set_tag_def slot_at_def matches_def)
  then show ?thesis
    using found unfolding findSlotOrEmpty_slots [OF shape] findSlotOrEmpty_slots [OF shape'] adv start by simp
qed

text \<open>
  C7. \<open>lookupDisable\<close> of a key that is absent, on a table that is not full, poisons it: it writes a non-zero tag
  without the fill bit into the free slot. The \<open>lookupOrInsert\<close> of that key that comes next takes the slot
  for an existing group, reports no new key and inserts nothing, and as it leaves the table as it is, so does any number of repetitions; the
  \<open>lookup\<close> answers null. Nothing is said of a table that is changed in between.
\<close>
theorem lookupDisable_missing_poisons:
  assumes "sk_inv xxh ks st" "sk_ok ks key" "sk_abs xxh ks st key = None" "inserted st < max_fill st"
  shows "\<exists>st' p. lookupDisable (sk_cmp xxh ks) st key = Returns (None, st') \<and>
    ht_lookupOrInsert (sk_cmp xxh ks) (st', flag) key = Returns ((p, False), (st', flag)) \<and>
    ht_lookup (sk_cmp xxh ks) st' key = Returns None \<and> inserted st' = inserted st"
proof -
  let ?kc = "sk_cmp xxh ks"
  have inv: "ht_inv ?kc (sk_ok ks) st" and none: "ht_abs ?kc st key = None"
    using assms(1,3) by (simp_all add: sk_inv_def sk_abs_def)
  obtain f where f: "f \<le> mod_mask st" "ht_tags st ! f = 0" using sk.inv_free [OF inv] .
  note shape = sk.inv_core(2) [OF inv]
  obtain i where i: "findSlotOrEmpty ?kc st (kc_hash ?kc key) key = Some (cursor_at st i)" "i \<le> mod_mask st" "ht_tags st ! i = 0"
    using sk.find_spec [OF sk.inv_core(1) [OF inv] sk.inv_core(3) [OF inv] assms(2) f] none by (metis option.distinct(1))
  let ?st = "set_tag i 127 st"
  have nf: "\<not> filled 127" by (simp add: filled_bit)
  have len: "i < length (ht_tags st)" using shape i(2) by (simp add: ht_shape_def)
  have find: "findSlotOrEmpty ?kc ?st (kc_hash ?kc key) key = Some (cursor_at st i)"
    using find_set_tag [OF shape i(1,2) _ nf] i(3) by simp
  have "lookupDisable ?kc st key = Returns (None, ?st)"
    using i(1,3) by (simp add: lookupDisable_def set_tag_def tag_masks)
  moreover have "ht_lookupOrInsert ?kc (?st, flag) key = Returns (((data_block st, i * total_slot_size st), False), (?st, flag))"
    using find assms(4) len by (simp add: ht_lookupOrInsert_def reserveSlot_def) (simp add: set_tag_def)
  moreover have "ht_lookup ?kc ?st key = Returns None"
    using find len nf by (simp add: ht_lookup_def) (simp add: set_tag_def filled_def)
  moreover have "inserted ?st = inserted st" by (simp add: set_tag_def)
  ultimately show ?thesis by blast
qed

theorem lookupDisable_missing_poisons_witness:
  "\<exists>st st' p. lookupDisable (sk_cmp xxh_demo 1) st [8] = Returns (None, st') \<and>
     ht_lookupOrInsert (sk_cmp xxh_demo 1) (st', None) [8] = Returns ((p, False), (st', None)) \<and>
     ht_lookup (sk_cmp xxh_demo 1) st' [8] = Returns None"
proof -
  obtain st where "sk_inv xxh_demo 1 st" "sk_abs xxh_demo 1 st [8] = None" "inserted st < max_fill st"
    using demo_filled by blast
  with lookupDisable_missing_poisons [of xxh_demo 1 st "[8]" None] show ?thesis by (auto simp: sk_ok_def)
qed

end
