(* ===== verification/AtomicHashTable.thy ===== *)
theory AtomicHashTable
  imports HashTable_Props
begin

text \<open>
  The hash table of the joins, \<open>src/runtime/NewHashTables.{h,cpp}\<close>: fixed size, linear probing, slot
  tags that threads claim with a compare-and-swap. This theory holds the key comparators and the
  operations as one thread runs them; \<open>Atomic_Parallel\<close> splits them into their atomic actions.
\<close>

section \<open>Comparators\<close>

text \<open>
  A comparator reads the first \<open>kc_len\<close> bytes behind a pointer: \<open>memcmp\<close> and XXH3 over them, or
  over the string that they point to.
\<close>

definition SimpleKeyComparator :: "(bytes \<Rightarrow> u64) \<Rightarrow> u16 \<Rightarrow> key_cmp" where
  "SimpleKeyComparator xxh key_size =
     \<lparr> kc_len = unat key_size, kc_hash = (\<lambda>k. xxh (take (unat key_size) k)),
       kc_eq = (\<lambda>k1 k2. take (unat key_size) k1 = take (unat key_size) k2) \<rparr>"

definition ComplexKeyComparator :: "(bytes \<Rightarrow> u64) \<Rightarrow> (bytes \<Rightarrow> bytes) \<Rightarrow> u16 \<Rightarrow> u16 \<Rightarrow> key_cmp outcome" where
  "ComplexKeyComparator xxh strs complex_key_slots simple_key_size =
     (if simple_key_size \<noteq> 0 \<or> complex_key_slots \<noteq> 1
      then Throws ''InkFuse currently only supports complex hash tables with a single string.''
      else Returns \<lparr> kc_len = 8, kc_hash = (\<lambda>k. xxh (strs (take 8 k))),
                     kc_eq = (\<lambda>k1 k2. strs (take 8 k1) = strs (take 8 k2)) \<rparr>)"

section \<open>State\<close>

definition outer_tag_fill_mask :: u8 where "outer_tag_fill_mask = push_bit 6 1"
definition outer_tag_hash_mask :: u8 where "outer_tag_hash_mask = outer_tag_fill_mask - 1"

record atomic_ht =
  at_tags :: "u8 list"
  at_data :: bytes
  num_slots :: nat
  at_mod_mask :: nat
  at_slot_size :: nat

definition AtomicHashTable :: "u16 \<Rightarrow> nat \<Rightarrow> atomic_ht outcome" where
  "AtomicHashTable slot_size slots =
     (if slots < 2 \<or> slots AND (slots - 1) \<noteq> 0
      then Throws (''Atomic hash table start size has to power of 2 of at least size 2. Provided '' @ to_string slots)
      else Returns \<lparr> at_tags = replicate slots 0, at_data = replicate (slots * unat slot_size) 0,
                     num_slots = slots, at_mod_mask = slots - 1, at_slot_size = unat slot_size \<rparr>)"

definition at_capacity :: "atomic_ht \<Rightarrow> nat" where "at_capacity st = num_slots st"

text \<open>\<open>compute_hash_and_prefetch\<close> (the prefetches have no effect), and its fixed-width variant.\<close>

definition compute_hash_and_prefetch :: "key_cmp \<Rightarrow> bytes \<Rightarrow> u64" where
  "compute_hash_and_prefetch cmp key = kc_hash cmp key"

definition compute_hash_and_prefetch_fixed :: "(bytes \<Rightarrow> u64) \<Rightarrow> nat \<Rightarrow> bytes \<Rightarrow> u64" where
  "compute_hash_and_prefetch_fixed xxh key_width key = xxh (take key_width key)"

section \<open>Probing\<close>

definition at_start :: "atomic_ht \<Rightarrow> u64 \<Rightarrow> cursor" where
  "at_start st hash =
     (let slot_id = unat hash AND at_mod_mask st
      in \<lparr> cur_idx = slot_id, cur_elem = slot_id * at_slot_size st, cur_tag = slot_id \<rparr>)"

definition itAdvance :: "atomic_ht \<Rightarrow> cursor \<Rightarrow> cursor" where
  "itAdvance st it =
     (if cur_idx it = at_mod_mask st then \<lparr> cur_idx = 0, cur_elem = 0, cur_tag = 0 \<rparr>
      else \<lparr> cur_idx = cur_idx it + 1, cur_elem = cur_elem it + at_slot_size st, cur_tag = cur_tag it + 1 \<rparr>)"

definition at_load :: "atomic_ht \<Rightarrow> nat \<Rightarrow> u8" where "at_load st t = at_tags st ! t"

definition at_store :: "atomic_ht \<Rightarrow> nat \<Rightarrow> u8 \<Rightarrow> atomic_ht" where
  "at_store st t v = st\<lparr> at_tags := (at_tags st)[t := v] \<rparr>"

text \<open>\<open>compare_exchange_strong\<close>: whether it succeeded, and the memory after it.\<close>

definition cas :: "atomic_ht \<Rightarrow> nat \<Rightarrow> u8 \<Rightarrow> u8 \<Rightarrow> bool \<times> atomic_ht" where
  "cas st t expected desired =
     (if at_load st t = expected then (True, at_store st t desired) else (False, st))"

definition at_memcpy :: "atomic_ht \<Rightarrow> nat \<Rightarrow> bytes \<Rightarrow> atomic_ht" where
  "at_memcpy st off bs = st\<lparr> at_data := mem_write off bs (at_data st) \<rparr>"

definition at_elem :: "atomic_ht \<Rightarrow> cursor \<Rightarrow> bytes" where
  "at_elem st it = mem_read (cur_elem it) (at_slot_size st) (at_data st)"

section \<open>Lookups\<close>

partial_function (option) at_lookup_loop ::
  "key_cmp \<Rightarrow> atomic_ht \<Rightarrow> bytes \<Rightarrow> u8 \<Rightarrow> cursor \<Rightarrow> nat option option" where
  "at_lookup_loop cmp st key target_tag it =
     (let curr_tag = at_load st (cur_tag it)
      in if curr_tag AND tag_fill_mask = 0 then Some None
         else if curr_tag = target_tag \<and> kc_eq cmp key (at_elem st it) then Some (Some (cur_elem it))
         else at_lookup_loop cmp st key target_tag (itAdvance st it))"

definition at_lookup :: "key_cmp \<Rightarrow> atomic_ht \<Rightarrow> bytes \<Rightarrow> u64 \<Rightarrow> nat option outcome" where
  "at_lookup cmp st key hash =
     from_loop (at_lookup_loop cmp st key (tag_fill_mask OR hash_tag hash) (at_start st hash))"

definition at_lookup_key :: "key_cmp \<Rightarrow> atomic_ht \<Rightarrow> bytes \<Rightarrow> nat option outcome" where
  "at_lookup_key cmp st key = at_lookup cmp st key (kc_hash cmp key)"

partial_function (option) lookupOuter_loop ::
  "key_cmp \<Rightarrow> atomic_ht \<Rightarrow> bytes \<Rightarrow> u8 \<Rightarrow> cursor \<Rightarrow> (nat option \<times> atomic_ht) option" where
  "lookupOuter_loop cmp st key target_tag it =
     (let curr_tag = at_load st (cur_tag it); curr_tag_fingerprint = outer_tag_hash_mask AND curr_tag
      in if curr_tag AND tag_fill_mask = 0 then Some (None, st)
         else if curr_tag_fingerprint = target_tag \<and> kc_eq cmp key (at_elem st it) then
           (let target_tag_marked = tag_fill_mask OR outer_tag_fill_mask OR target_tag
            in Some (Some (cur_elem it),
                 if curr_tag \<noteq> target_tag_marked then at_store st (cur_tag it) target_tag_marked else st))
         else lookupOuter_loop cmp st key target_tag (itAdvance st it))"

definition lookupOuter :: "key_cmp \<Rightarrow> atomic_ht \<Rightarrow> bytes \<Rightarrow> u64 \<Rightarrow> (nat option \<times> atomic_ht) outcome" where
  "lookupOuter cmp st key hash =
     from_loop (lookupOuter_loop cmp st key (outer_tag_hash_mask AND hash_tag hash) (at_start st hash))"

partial_function (option) at_disable_loop ::
  "key_cmp \<Rightarrow> atomic_ht \<Rightarrow> bytes \<Rightarrow> u8 \<Rightarrow> cursor \<Rightarrow> (nat option \<times> atomic_ht) option" where
  "at_disable_loop cmp st key target_tag it =
     (let curr_tag = at_load st (cur_tag it); inverted_tag = target_tag XOR fingerprint_inversion_mask
      in if curr_tag AND tag_fill_mask = 0 then Some (None, st)
         else if curr_tag = target_tag \<and> kc_eq cmp key (at_elem st it) then
           (case cas st (cur_tag it) target_tag inverted_tag of
              (won, st') \<Rightarrow> if won then Some (Some (cur_elem it), st') else at_disable_loop cmp st' key target_tag (itAdvance st' it))
         else at_disable_loop cmp st key target_tag (itAdvance st it))"

definition at_lookupDisable :: "key_cmp \<Rightarrow> atomic_ht \<Rightarrow> bytes \<Rightarrow> u64 \<Rightarrow> (nat option \<times> atomic_ht) outcome" where
  "at_lookupDisable cmp st key hash =
     from_loop (at_disable_loop cmp st key (tag_fill_mask OR hash_tag hash) (at_start st hash))"

definition at_lookupDisable_key :: "key_cmp \<Rightarrow> atomic_ht \<Rightarrow> bytes \<Rightarrow> (nat option \<times> atomic_ht) outcome" where
  "at_lookupDisable_key cmp st key = at_lookupDisable cmp st key (kc_hash cmp key)"

section \<open>Inserts\<close>

text \<open>The bytes that go into the claimed slot: the key, or the whole tuple.\<close>

definition copied :: "key_cmp \<Rightarrow> atomic_ht \<Rightarrow> bool \<Rightarrow> bytes \<Rightarrow> bytes" where
  "copied cmp st copy_only_key key = take (if copy_only_key then kc_len cmp else at_slot_size st) key"

partial_function (option) at_insert_loop ::
  "key_cmp \<Rightarrow> bool \<Rightarrow> atomic_ht \<Rightarrow> bytes \<Rightarrow> u8 \<Rightarrow> cursor \<Rightarrow> (nat \<times> atomic_ht) option" where
  "at_insert_loop cmp copy_only_key st key target_tag it =
     (let curr_tag = at_load st (cur_tag it); tag_fill = curr_tag AND tag_fill_mask
      in if tag_fill = 0 then
           (case cas st (cur_tag it) curr_tag target_tag of
              (won, st') \<Rightarrow>
                if won then Some (cur_elem it, at_memcpy st' (cur_elem it) (copied cmp st' copy_only_key key))
                else at_insert_loop cmp copy_only_key st' key target_tag (itAdvance st' it))
         else at_insert_loop cmp copy_only_key st key target_tag (itAdvance st it))"

definition at_insert :: "key_cmp \<Rightarrow> bool \<Rightarrow> atomic_ht \<Rightarrow> bytes \<Rightarrow> u64 \<Rightarrow> (nat \<times> atomic_ht) outcome" where
  "at_insert cmp copy_only_key st key hash =
     from_loop (at_insert_loop cmp copy_only_key st key (tag_fill_mask OR hash_tag hash) (at_start st hash))"

definition at_insert_key :: "key_cmp \<Rightarrow> bool \<Rightarrow> atomic_ht \<Rightarrow> bytes \<Rightarrow> (nat \<times> atomic_ht) outcome" where
  "at_insert_key cmp copy_only_key st key = at_insert cmp copy_only_key st key (kc_hash cmp key)"

text \<open>\<open>insertOuter\<close> clears the marking bit of the tag; its loop is the one of \<open>insert\<close>.\<close>

definition insertOuter :: "key_cmp \<Rightarrow> bool \<Rightarrow> atomic_ht \<Rightarrow> bytes \<Rightarrow> u64 \<Rightarrow> (nat \<times> atomic_ht) outcome" where
  "insertOuter cmp copy_only_key st key hash =
     from_loop (at_insert_loop cmp copy_only_key st key
       (tag_fill_mask OR (outer_tag_hash_mask AND hash_tag hash)) (at_start st hash))"

section \<open>Iterators\<close>

definition itAdvanceNoWrap :: "atomic_ht \<Rightarrow> iter \<Rightarrow> iter" where
  "itAdvanceNoWrap st it =
     (if it_idx it = at_mod_mask st then it\<lparr> it_data := None \<rparr>
      else \<lparr> it_idx = it_idx it + 1, it_data = map_option (\<lambda>d. d + at_slot_size st) (it_data it), it_tag = it_tag it + 1 \<rparr>)"

text \<open>The slots that the iterator of the outer join stops at: filled and not marked.\<close>

definition unmatched_tag :: "u8 \<Rightarrow> bool" where
  "unmatched_tag t \<longleftrightarrow> \<not> (t AND tag_fill_mask = 0 \<or> t AND outer_tag_fill_mask \<noteq> 0)"

definition outer_skip :: "atomic_ht \<Rightarrow> iter \<Rightarrow> iter option" where
  "outer_skip st it = probe_loop (itAdvanceNoWrap st)
     (\<lambda>it. \<not> (\<not> unmatched_tag (at_load st (it_tag it)) \<and> it_data it \<noteq> None)) it"

definition at_iteratorStart :: "atomic_ht \<Rightarrow> iter option" where
  "at_iteratorStart st = outer_skip st \<lparr> it_idx = 0, it_data = Some 0, it_tag = 0 \<rparr>"

definition at_iteratorAdvance :: "atomic_ht \<Rightarrow> iter \<Rightarrow> iter option" where
  "at_iteratorAdvance st it = outer_skip st (itAdvanceNoWrap st (it\<lparr> it_tag := it_idx it \<rparr>))"

text \<open>The private \<open>itStart\<close>: its loop tests a local tag pointer that stays at slot 0.\<close>

definition itStart :: "atomic_ht \<Rightarrow> iter option" where
  "itStart st = probe_loop (itAdvanceNoWrap st)
     (\<lambda>it. \<not> (at_load st 0 AND tag_fill_mask = 0 \<and> it_data it \<noteq> None)) \<lparr> it_idx = 0, it_data = Some 0, it_tag = 0 \<rparr>"

end
