(* ===== verification/Morsels.thy ===== *)
theory Morsels
  imports Ink_Prelude
begin

text \<open>
  Morsel-driven parallelism: threads that share one or more sources of work and take the next piece from a
  source with one atomic action until it is exhausted. The loop of \<open>PipelineExecutor::threadSwimlane\<close> over
  \<open>pickMorsel\<close> and the loops of the join build over \<open>pullChunk\<close> have this shape. The contract of a source is a locale;
  the table scan of this theory and the tuple buffers of the join provide it.
\<close>

section \<open>Threads that drain sources\<close>

text \<open>A thread is at a source, or past the last one, and remembers what it took: the source and the piece.\<close>

record 'm worker =
  at_source :: nat
  taken :: "(nat \<times> 'm) list"

text \<open>One action of thread \<open>i\<close>: it gets the next piece of its source or moves on to the next source.\<close>

definition drain_step ::
  "('a \<Rightarrow> 's \<Rightarrow> 'm option \<times> 's) \<Rightarrow> 'a list \<Rightarrow> nat \<Rightarrow> 's list \<times> 'm worker list \<Rightarrow> 's list \<times> 'm worker list" where
  "drain_step pick srcs i s = (case s of (sts, ws) \<Rightarrow>
     let w = ws ! i; h = at_source w in
     if h < length srcs then
       (case pick (srcs ! h) (sts ! h) of (m, st') \<Rightarrow>
          (sts[h := st'],
           ws[i := (case m of None \<Rightarrow> w\<lparr> at_source := Suc h \<rparr> | Some x \<Rightarrow> w\<lparr> taken := taken w @ [(h, x)] \<rparr>)]))
     else s)"

definition drain_start :: "'s list \<Rightarrow> nat \<Rightarrow> 's list \<times> 'm worker list" where
  "drain_start sts num_threads = (sts, replicate num_threads \<lparr> at_source = 0, taken = [] \<rparr>)"

text \<open>Any interleaving of the actions of the threads is the sequence of their numbers.\<close>

definition drain_run ::
  "('a \<Rightarrow> 's \<Rightarrow> 'm option \<times> 's) \<Rightarrow> 'a list \<Rightarrow> nat list \<Rightarrow> 's list \<times> 'm worker list \<Rightarrow> 's list \<times> 'm worker list" where
  "drain_run pick srcs sched s = foldl (\<lambda>s i. drain_step pick srcs i s) s sched"

definition all_taken :: "'m worker list \<Rightarrow> (nat \<times> 'm) list" where
  "all_taken ws = concat (map taken ws)"

definition drained :: "'a list \<Rightarrow> 'm worker list \<Rightarrow> bool" where
  "drained srcs ws \<longleftrightarrow> (\<forall>w\<in>set ws. length srcs \<le> at_source w)"

lemma mset_concat_map: "mset (concat (map f xs)) = \<Sum>\<^sub># (image_mset (mset \<circ> f) (mset xs))"
  by (simp add: mset_concat comp_def sum_mset_sum_list flip: mset_map)

section \<open>The contract of a source\<close>

locale morsel_source =
  fixes pick :: "'a \<Rightarrow> 's \<Rightarrow> 'm option \<times> 's" and remaining :: "'a \<Rightarrow> 's \<Rightarrow> 'm list"
  assumes pick_some: "pick a s = (Some m, s') \<Longrightarrow> remaining a s = m # remaining a s'"
    and pick_none: "pick a s = (None, s') \<Longrightarrow> remaining a s = [] \<and> remaining a s' = []"
begin

definition rest :: "'a list \<Rightarrow> 's list \<Rightarrow> (nat \<times> 'm) multiset" where
  "rest srcs sts = mset (concat (map (\<lambda>h. map (Pair h) (remaining (srcs ! h) (sts ! h))) [0..<length srcs]))"

lemma rest_split:
  assumes "h < length srcs" "length sts = length srcs"
  shows "rest srcs sts = mset (map (Pair h) (remaining (srcs ! h) (sts ! h))) +
    mset (concat (map (\<lambda>k. map (Pair k) (remaining (srcs ! k) (sts ! k))) (filter (\<lambda>k. k \<noteq> h) [0..<length srcs])))"
proof -
  have split: "mset (concat (map f ks)) = mset (f h) + mset (concat (map f (filter (\<lambda>k. k \<noteq> h) ks)))"
    if "distinct ks" "h \<in> set ks" for ks :: "nat list" and f :: "nat \<Rightarrow> 'c list"
    using that
  proof (induction ks)
    case (Cons k ks)
    then have "k = h \<Longrightarrow> filter (\<lambda>k. k \<noteq> h) ks = ks" by (intro filter_True) auto
    with Cons show ?case by (cases "k = h") (auto simp: union_ac)
  qed simp
  show ?thesis
    using split [of "[0..<length srcs]" "\<lambda>k. map (Pair k) (remaining (srcs ! k) (sts ! k))"] assms by (simp add: rest_def)
qed

lemma rest_update:
  assumes "h < length srcs" "length sts = length srcs" "remaining (srcs ! h) (sts ! h) = ms @ remaining (srcs ! h) st'"
  shows "rest srcs sts = mset (map (Pair h) ms) + rest srcs (sts[h := st'])"
proof -
  have e: "map (\<lambda>k. map (Pair k) (remaining (srcs ! k) (sts[h := st'] ! k))) (filter (\<lambda>k. k \<noteq> h) [0..<length srcs]) =
      map (\<lambda>k. map (Pair k) (remaining (srcs ! k) (sts ! k))) (filter (\<lambda>k. k \<noteq> h) [0..<length srcs])" by simp
  have l: "length (sts[h := st']) = length srcs" using assms by simp
  show ?thesis unfolding rest_split [OF assms(1,2)] rest_split [OF assms(1) l] e using assms by (simp add: union_ac)
qed

lemma all_taken_update:
  assumes "i < length ws"
  shows "mset (all_taken (ws[i := w'])) + mset (taken (ws ! i)) = mset (all_taken ws) + mset (taken w')"
  using assms
proof (induction ws arbitrary: i)
  case (Cons w ws)
  then show ?case by (cases i) (auto simp: all_taken_def union_ac)
qed simp

text \<open>Nothing is lost and nothing is handed out twice; a thread leaves a source only when it is exhausted.\<close>

definition drain_inv :: "'a list \<Rightarrow> 's list \<Rightarrow> nat \<Rightarrow> 's list \<times> 'm worker list \<Rightarrow> bool" where
  "drain_inv srcs sts0 n s \<longleftrightarrow> (case s of (sts, ws) \<Rightarrow> length sts = length srcs \<and> length ws = n \<and>
     mset (all_taken ws) + rest srcs sts = rest srcs sts0 \<and>
     (\<forall>w\<in>set ws. \<forall>h<at_source w. h < length srcs \<longrightarrow> remaining (srcs ! h) (sts ! h) = []))"

lemma drain_inv_start: "length sts = length srcs \<Longrightarrow> drain_inv srcs sts n (drain_start sts n)"
  by (simp add: drain_inv_def drain_start_def all_taken_def)

lemma drain_inv_step:
  assumes inv: "drain_inv srcs sts0 n s" and i: "i < n"
  shows "drain_inv srcs sts0 n (drain_step pick srcs i s)"
proof -
  obtain sts ws where s: "s = (sts, ws)" by fastforce
  let ?w = "ws ! i" and ?h = "at_source (ws ! i)"
  have l: "length sts = length srcs" "length ws = n" and sum: "mset (all_taken ws) + rest srcs sts = rest srcs sts0"
    and past: "\<And>w h. w \<in> set ws \<Longrightarrow> h < at_source w \<Longrightarrow> h < length srcs \<Longrightarrow> remaining (srcs ! h) (sts ! h) = []"
    using inv by (auto simp: drain_inv_def s)
  have iw: "i < length ws" "?w \<in> set ws" using i l by auto
  show ?thesis
  proof (cases "?h < length srcs")
    case False then show ?thesis using inv by (simp add: s drain_step_def Let_def)
  next
    case True
    obtain m st' where p: "pick (srcs ! ?h) (sts ! ?h) = (m, st')" by fastforce
    show ?thesis
    proof (cases m)
      case None
      note e = pick_none [OF p [unfolded None]]
      have upd: "remaining (srcs ! h) (sts[?h := st'] ! h) = remaining (srcs ! h) (sts ! h)" for h
        using e True l by (cases "h = ?h") auto
      have step: "drain_step pick srcs i s = (sts[?h := st'], ws[i := ?w\<lparr> at_source := Suc ?h \<rparr>])"
        using True p None by (simp add: s drain_step_def Let_def)
      have "mset (all_taken (ws[i := ?w\<lparr> at_source := Suc ?h \<rparr>])) = mset (all_taken ws)"
        using all_taken_update [OF iw(1), of "?w\<lparr> at_source := Suc ?h \<rparr>"] by simp
      moreover have "rest srcs (sts[?h := st']) = rest srcs sts" by (simp add: rest_def upd)
      moreover have "remaining (srcs ! h) (sts[?h := st'] ! h) = []"
        if "w \<in> set (ws[i := ?w\<lparr> at_source := Suc ?h \<rparr>])" "h < at_source w" "h < length srcs" for w h
      proof -
        from that(1) consider "w = ?w\<lparr> at_source := Suc ?h \<rparr>" | "w \<in> set ws"
          using set_update_subset_insert [of ws i] by blast
        then show ?thesis
        proof cases
          case 1
          then have "h < ?h \<or> h = ?h" using that(2) by auto
          then show ?thesis using past [OF iw(2) _ that(3)] e unfolding upd by auto
        next
          case 2 then show ?thesis using past that unfolding upd by blast
        qed
      qed
      ultimately show ?thesis using l sum by (auto simp: drain_inv_def step)
    next
      case (Some x)
      note e = pick_some [OF p [unfolded Some]]
      let ?w' = "?w\<lparr> taken := taken ?w @ [(?h, x)] \<rparr>"
      have step: "drain_step pick srcs i s = (sts[?h := st'], ws[i := ?w'])"
        using True p Some by (simp add: s drain_step_def Let_def)
      have "mset (all_taken (ws[i := ?w'])) = mset (all_taken ws) + {# (?h, x) #}"
        using all_taken_update [OF iw(1), of ?w'] by simp
      moreover have "rest srcs sts = {# (?h, x) #} + rest srcs (sts[?h := st'])"
        using rest_update [OF True l(1), of "[x]" st'] e by simp
      ultimately have "mset (all_taken (ws[i := ?w'])) + rest srcs (sts[?h := st']) = rest srcs sts0"
        using sum by (simp add: union_ac)
      moreover have "remaining (srcs ! h) (sts[?h := st'] ! h) = []"
        if w: "w \<in> set (ws[i := ?w'])" "h < at_source w" "h < length srcs" for w h
      proof -
        have "\<exists>v\<in>set ws. at_source v = at_source w"
          using w(1) set_update_subset_insert [of ws i ?w'] iw by fastforce
        then have r: "remaining (srcs ! h) (sts ! h) = []" using past w by auto
        then have "h \<noteq> ?h" using e by auto
        with r show ?thesis by simp
      qed
      ultimately show ?thesis using l by (auto simp: drain_inv_def step)
    qed
  qed
qed

lemma drain_inv_run:
  "drain_inv srcs sts0 n s \<Longrightarrow> \<forall>i\<in>set sched. i < n \<Longrightarrow> drain_inv srcs sts0 n (drain_run pick srcs sched s)"
  by (induction sched rule: rev_induct) (auto simp: drain_run_def drain_inv_step)

lemma run_partial:
  assumes "length sts = length srcs" "\<forall>i\<in>set sched. i < n" "drain_run pick srcs sched (drain_start sts n) = (sts', ws)"
  shows "mset (all_taken ws) \<subseteq># rest srcs sts"
  using drain_inv_run [OF drain_inv_start [OF assms(1), of n] assms(2)] assms(3)
  by (auto simp: drain_inv_def) (metis mset_subset_eq_add_left)

lemma run_complete:
  assumes "length sts = length srcs" "\<forall>i\<in>set sched. i < n" "drain_run pick srcs sched (drain_start sts n) = (sts', ws)"
    and "drained srcs ws" "0 < n"
  shows "mset (all_taken ws) = rest srcs sts"
proof -
  have inv: "drain_inv srcs sts n (sts', ws)"
    using drain_inv_run [OF drain_inv_start [OF assms(1), of n] assms(2)] assms(3) by simp
  then have "ws \<noteq> []" using assms(5) by (auto simp: drain_inv_def)
  then obtain w where "w \<in> set ws" by (cases ws) auto
  with inv assms(4) have "remaining (srcs ! h) (sts' ! h) = []" if "h < length srcs" for h
    using that by (fastforce simp: drain_inv_def drained_def)
  then have "rest srcs sts' = {#}" by (simp add: rest_def)
  with inv show ?thesis by (simp add: drain_inv_def)
qed

end

section \<open>The table scan\<close>

definition DEFAULT_CHUNK_SIZE :: nat where "DEFAULT_CHUNK_SIZE = 512"

text \<open>\<open>TScanDriver::pickMorsel\<close>: the morsel is the pair of \<open>state.start\<close> and \<open>state.end\<close>.\<close>

definition tscan_pickMorsel :: "nat \<Rightarrow> nat \<Rightarrow> (nat \<times> nat) option \<times> nat" where
  "tscan_pickMorsel rel_size start_idx =
     (let morsel_start = start_idx; start_idx' = start_idx + DEFAULT_CHUNK_SIZE in
      if morsel_start \<ge> rel_size then (None, start_idx')
      else (Some (morsel_start, min (morsel_start + DEFAULT_CHUNK_SIZE) rel_size), start_idx'))"

function tscan_morsels :: "nat \<Rightarrow> nat \<Rightarrow> (nat \<times> nat) list" where
  "tscan_morsels rel_size start_idx =
     (if start_idx < rel_size
      then (start_idx, min (start_idx + DEFAULT_CHUNK_SIZE) rel_size) # tscan_morsels rel_size (start_idx + DEFAULT_CHUNK_SIZE)
      else [])"
  by pat_completeness auto
termination
  by (relation "measure (\<lambda>(n, s). n - s)") (auto simp: DEFAULT_CHUNK_SIZE_def)

declare tscan_morsels.simps [simp del]

interpretation tscan: morsel_source tscan_pickMorsel tscan_morsels
proof
  show "tscan_morsels a s = m # tscan_morsels a s'" if "tscan_pickMorsel a s = (Some m, s')" for a s m s'
    using that by (subst tscan_morsels.simps) (auto simp: tscan_pickMorsel_def Let_def split: if_splits)
  show "tscan_morsels a s = [] \<and> tscan_morsels a s' = []" if "tscan_pickMorsel a s = (None, s')" for a s s'
    using that by (subst (1 2) tscan_morsels.simps) (auto simp: tscan_pickMorsel_def Let_def split: if_splits)
qed

definition rows_of :: "nat \<times> nat \<Rightarrow> nat list" where
  "rows_of m = [fst m..<snd m]"

lemma tscan_rows: "concat (map rows_of (tscan_morsels n s)) = [s..<n]"
proof (induction n s rule: tscan_morsels.induct)
  case (1 n s)
  show ?case
  proof (cases "s < n")
    case True
    have "[s..<min (s + DEFAULT_CHUNK_SIZE) n] @ [s + DEFAULT_CHUNK_SIZE..<n] = [s..<n]"
      using True upt_add_eq_append [of s "s + DEFAULT_CHUNK_SIZE" "n - (s + DEFAULT_CHUNK_SIZE)"] by (cases "s + DEFAULT_CHUNK_SIZE \<le> n") (simp_all add: min_def)
    moreover have "rows_of (a, b) = [a..<b]" for a b by (simp add: rows_of_def)
    ultimately show ?thesis using True 1 by (subst tscan_morsels.simps) simp
  qed (subst tscan_morsels.simps, simp)
qed

lemma tscan_morsel_size: "m \<in> set (tscan_morsels n s) \<Longrightarrow> fst m < snd m \<and> snd m \<le> fst m + DEFAULT_CHUNK_SIZE \<and> snd m \<le> n"
proof (induction n s rule: tscan_morsels.induct)
  case (1 n s)
  then show ?case
    by (subst (asm) tscan_morsels.simps [of n s]) (auto simp: DEFAULT_CHUNK_SIZE_def split: if_splits)
qed

lemma tscan_rest: "tscan.rest [n] [0] = mset (map (Pair 0) (tscan_morsels n 0))"
  by (simp add: tscan.rest_def)

definition scanned_rows :: "(nat \<times> nat) worker list \<Rightarrow> nat list" where
  "scanned_rows ws = concat (map (rows_of \<circ> snd) (all_taken ws))"

text \<open>What the pieces that threads took from a scan have in common, however they took them.\<close>

lemma morsels_partition:
  assumes sub: "mset ms \<subseteq># mset (tscan_morsels n 0)"
  shows "distinct (concat (map rows_of ms)) \<and> set (concat (map rows_of ms)) \<subseteq> {0..<n} \<and>
    (\<forall>m\<in>set ms. fst m < snd m \<and> snd m \<le> fst m + 512 \<and> snd m \<le> n) \<and>
    (mset ms = mset (tscan_morsels n 0) \<longrightarrow> mset (concat (map rows_of ms)) = mset [0..<n])"
proof -
  have total: "\<Sum>\<^sub># (image_mset (mset \<circ> rows_of) (mset (tscan_morsels n 0))) = mset [0..<n]"
    by (simp only: tscan_rows flip: mset_concat_map)
  obtain R where R: "mset (tscan_morsels n 0) = mset ms + R" using sub mset_subset_eq_exists_conv by blast
  have le: "mset (concat (map rows_of ms)) \<subseteq># mset [0..<n]"
    unfolding total [symmetric] R mset_concat_map by simp
  then obtain zs where "mset [0..<n] = mset (concat (map rows_of ms) @ zs)"
    by (metis ex_mset mset_append mset_subset_eq_exists_conv)
  then have "distinct (concat (map rows_of ms) @ zs)" by (metis distinct_upt mset_eq_imp_distinct_iff)
  moreover have "\<forall>m\<in>set ms. fst m < snd m \<and> snd m \<le> fst m + 512 \<and> snd m \<le> n"
    using set_mset_mono [OF sub] tscan_morsel_size [of _ n 0] by (fastforce simp: DEFAULT_CHUNK_SIZE_def)
  moreover have "mset (concat (map rows_of ms)) = mset [0..<n]" if "mset ms = mset (tscan_morsels n 0)"
    using total by (simp only: mset_concat_map that)
  ultimately show ?thesis using set_mset_mono [OF le] by auto
qed

text \<open>
  C28. Any number of threads scan a table at once, taking morsels in any interleaving. No row is
  scanned twice, every morsel has between 1 and 512 rows of the table, and when all threads were told
  that there are no more morsels, each row was scanned exactly once.
\<close>
theorem table_scan_partition:
  assumes "\<forall>i\<in>set sched. i < n" "drain_run tscan_pickMorsel [rel_size] sched (drain_start [0] n) = (sts, ws)"
  shows "distinct (scanned_rows ws) \<and> set (scanned_rows ws) \<subseteq> {0..<rel_size} \<and>
    (\<forall>(h, m)\<in>set (all_taken ws). fst m < snd m \<and> snd m \<le> fst m + 512 \<and> snd m \<le> rel_size) \<and>
    (drained [rel_size] ws \<and> 0 < n \<longrightarrow> mset (scanned_rows ws) = mset [0..<rel_size])"
proof -
  have rest: "image_mset snd (tscan.rest [rel_size] [0]) = mset (tscan_morsels rel_size 0)"
    by (simp add: tscan_rest image_mset.compositionality comp_def)
  have sub: "mset (all_taken ws) \<subseteq># tscan.rest [rel_size] [0]" by (rule tscan.run_partial [OF _ assms]) simp
  have "mset (map snd (all_taken ws)) \<subseteq># mset (tscan_morsels rel_size 0)"
    using image_mset_subseteq_mono [OF sub, of snd] by (simp add: rest)
  note part = morsels_partition [OF this]
  have "mset (map snd (all_taken ws)) = mset (tscan_morsels rel_size 0)" if "drained [rel_size] ws" "0 < n"
    using tscan.run_complete [OF _ assms that] rest by simp
  with part show ?thesis by (auto simp: scanned_rows_def comp_def split_beta)
qed

theorem table_scan_partition_witness:
  "\<exists>sts ws. drain_run tscan_pickMorsel [700] [0, 1, 0, 1] (drain_start [0] 2) = (sts, ws) \<and>
     map taken ws = [[(0, 0, 512)], [(0, 512, 700)]] \<and> mset (scanned_rows ws) = mset [0..<700]"
proof -
  let ?ws = "[\<lparr> at_source = 1, taken = [(0::nat, 0::nat, 512::nat)] \<rparr>, \<lparr> at_source = 1, taken = [(0, 512, 700)] \<rparr>]"
  have r: "drain_run tscan_pickMorsel [700] [0, 1, 0, 1] (drain_start [0] 2) = ([2048], ?ws)"
    by (simp add: drain_run_def drain_start_def drain_step_def tscan_pickMorsel_def DEFAULT_CHUNK_SIZE_def numeral_2_eq_2)
  have "drained [700] ?ws" by (simp add: drained_def)
  have sched: "\<forall>i\<in>set [0, 1, 0, 1]. i < (2::nat)" by simp
  note part = table_scan_partition [OF sched r, THEN conjunct2, THEN conjunct2, THEN conjunct2, THEN mp, OF conjI, OF \<open>drained [700] ?ws\<close>]
  have "mset (scanned_rows ?ws) = mset [0..<700]" by (rule part) simp
  with r show ?thesis by (intro exI [of _ "[2048]"] exI [of _ ?ws] conjI) simp_all
qed

end
