(* ===== verification/Runtime_Memory.thy ===== *)
theory Runtime_Memory
  imports Morsels
begin

text \<open>
  The memory of a running pipeline: the thread-local tuple buffers of the join build
  (\<open>runtime/TupleMaterializer.{h,cpp}\<close>), the arena of a thread (\<open>runtime/MemoryRuntime.{h,cpp}\<close>) and the barrier
  that the threads of a pipeline meet at (\<open>common/Barrier.{h,cpp}\<close>).
\<close>

section \<open>\<open>TupleMaterializer\<close>\<close>

definition REGION_SIZE :: nat where "REGION_SIZE = 32 * 512"

text \<open>A chunk: the offset of \<open>end_ptr\<close> in its data, and the data. A pointer is a chunk number and an offset.\<close>

record mat_chunk =
  end_ptr :: nat
  chunk_data :: bytes

record materializer =
  tuple_size :: nat
  chunks :: "mat_chunk list"

definition allocNewChunk :: "materializer \<Rightarrow> materializer" where
  "allocNewChunk m = m\<lparr> chunks := chunks m @ [\<lparr> end_ptr = 0, chunk_data = replicate REGION_SIZE 0 \<rparr>] \<rparr>"

definition TupleMaterializer :: "nat \<Rightarrow> materializer outcome" where
  "TupleMaterializer tuple_sz =
     (if REGION_SIZE < tuple_sz then Throws ''Tuple size in TupleMaterializer must be less than 4kb''
      else Returns (allocNewChunk \<lparr> tuple_size = tuple_sz, chunks = [] \<rparr>))"

definition materialize :: "materializer \<Rightarrow> (nat \<times> nat) \<times> materializer" where
  "materialize m =
     (let m1 = (if end_ptr (last (chunks m)) + tuple_size m \<ge> REGION_SIZE then allocNewChunk m else m);
          c = last (chunks m1)
      in ((length (chunks m1) - 1, end_ptr c),
          m1\<lparr> chunks := butlast (chunks m1) @ [c\<lparr> end_ptr := end_ptr c + tuple_size m1 \<rparr>] \<rparr>))"

definition getNumTuples :: "materializer \<Rightarrow> nat" where
  "getNumTuples m = sum_list (map (\<lambda>c. end_ptr c div tuple_size m) (chunks m))"

text \<open>The caller packs its tuple through the pointer.\<close>

definition mat_write :: "nat \<times> nat \<Rightarrow> bytes \<Rightarrow> materializer \<Rightarrow> materializer" where
  "mat_write p bs m = m\<lparr> chunks := (chunks m)[fst p := (chunks m ! fst p)\<lparr> chunk_data := mem_write (snd p) bs (chunk_data (chunks m ! fst p)) \<rparr>] \<rparr>"

text \<open>The read handle: a shared offset that every pull advances atomically.\<close>

definition pullChunk :: "materializer \<Rightarrow> nat \<Rightarrow> nat option \<times> nat" where
  "pullChunk m offset = (if offset \<ge> length (chunks m) then None else Some offset, offset + 1)"

text \<open>The rows of a chunk, as the build reads them back: every \<open>tuple_size\<close> bytes up to \<open>end_ptr\<close>.\<close>

definition chunk_rows :: "nat \<Rightarrow> mat_chunk \<Rightarrow> bytes list" where
  "chunk_rows sz c = map (\<lambda>i. mem_read (i * sz) sz (chunk_data c)) [0..<end_ptr c div sz]"

definition mat_rows :: "materializer \<Rightarrow> bytes list" where
  "mat_rows m = concat (map (chunk_rows (tuple_size m)) (chunks m))"

definition mat_inv :: "materializer \<Rightarrow> bool" where
  "mat_inv m \<longleftrightarrow> chunks m \<noteq> [] \<and> 0 < tuple_size m \<and> tuple_size m \<le> REGION_SIZE \<and>
     (\<forall>c\<in>set (chunks m). length (chunk_data c) = REGION_SIZE \<and> end_ptr c \<le> REGION_SIZE \<and> tuple_size m dvd end_ptr c)"

lemma mat_inv_new: "0 < sz \<Longrightarrow> sz \<le> REGION_SIZE \<Longrightarrow> \<exists>m. TupleMaterializer sz = Returns m \<and> mat_inv m \<and> mat_rows m = [] \<and> tuple_size m = sz"
  by (simp add: TupleMaterializer_def allocNewChunk_def mat_inv_def mat_rows_def chunk_rows_def)

lemma alloc_inv: "mat_inv m \<Longrightarrow> mat_inv (allocNewChunk m)" "mat_rows (allocNewChunk m) = mat_rows m"
  "tuple_size (allocNewChunk m) = tuple_size m" "end_ptr (last (chunks (allocNewChunk m))) = 0"
  by (auto simp: mat_inv_def allocNewChunk_def mat_rows_def chunk_rows_def)

text \<open>Writing a tuple where the last chunk ends adds one row.\<close>

lemma chunk_rows_append:
  assumes sz: "0 < sz" "length bs = sz" and c: "end_ptr c + sz \<le> length (chunk_data c)" "sz dvd end_ptr c"
  shows "chunk_rows sz (c\<lparr> end_ptr := end_ptr c + sz, chunk_data := mem_write (end_ptr c) bs (chunk_data c) \<rparr>) = chunk_rows sz c @ [bs]"
proof -
  from c(2) obtain q where q: "end_ptr c = sz * q" by blast
  have d: "end_ptr c div sz = q" "(end_ptr c + sz) div sz = Suc q" using sz(1) q by simp_all
  have old: "mem_read (i * sz) sz (mem_write (end_ptr c) bs (chunk_data c)) = mem_read (i * sz) sz (chunk_data c)" if i: "i < q" for i
  proof -
    have "i * sz + sz \<le> end_ptr c" using i q slot_in_range [OF i, of sz] by (simp add: mult.commute)
    with c(1) sz(2) show ?thesis by (intro mem_read_write_disjoint) auto
  qed
  have "mem_read (q * sz) sz (mem_write (end_ptr c) bs (chunk_data c)) = bs"
    using mem_read_write_same [of "end_ptr c" bs "chunk_data c"] c(1) sz(2) q by (simp add: mult.commute)
  with old d show ?thesis by (simp add: chunk_rows_def)
qed

lemma update_last: "xs \<noteq> [] \<Longrightarrow> (butlast xs @ [y])[length xs - 1 := z] = butlast xs @ [z]"
  by (simp add: list_update_append)

text \<open>The pointer that \<open>materialize\<close> returns is used for one tuple of \<open>tuple_size\<close> bytes.\<close>

definition add_tuple :: "materializer \<Rightarrow> bytes \<Rightarrow> materializer" where
  "add_tuple m bs = (case materialize m of (p, m') \<Rightarrow> mat_write p bs m')"

lemma materialize_room:
  assumes inv: "mat_inv m" and bs: "length bs = tuple_size m" and room: "end_ptr (last (chunks m)) + tuple_size m \<le> REGION_SIZE"
    and m': "m' = m\<lparr> chunks := butlast (chunks m) @ [(last (chunks m))\<lparr> end_ptr := end_ptr (last (chunks m)) + tuple_size m \<rparr>] \<rparr>"
  shows "mat_inv (mat_write (length (chunks m) - 1, end_ptr (last (chunks m))) bs m')"
    "mat_rows (mat_write (length (chunks m) - 1, end_ptr (last (chunks m))) bs m') = mat_rows m @ [bs]"
proof -
  let ?c = "last (chunks m)" and ?sz = "tuple_size m"
  let ?c' = "?c\<lparr> end_ptr := end_ptr ?c + ?sz, chunk_data := mem_write (end_ptr ?c) bs (chunk_data ?c) \<rparr>"
  have ne: "chunks m \<noteq> []" and sz: "0 < ?sz" using inv by (auto simp: mat_inv_def)
  have c: "?c \<in> set (chunks m)" using ne by simp
  then have ci: "length (chunk_data ?c) = REGION_SIZE" "?sz dvd end_ptr ?c" using inv by (auto simp: mat_inv_def)
  have lc: "chunks m' ! (length (chunks m) - 1) = ?c\<lparr> end_ptr := end_ptr ?c + ?sz \<rparr>"
    using ne by (simp add: m' nth_append)
  have e: "mat_write (length (chunks m) - 1, end_ptr ?c) bs m' = m\<lparr> chunks := butlast (chunks m) @ [?c'] \<rparr>"
    unfolding mat_write_def fst_conv snd_conv lc using update_last [OF ne] by (simp add: m')
  have bl: "set (butlast (chunks m)) \<subseteq> set (chunks m)" by (auto dest: in_set_butlastD)
  show "mat_inv (mat_write (length (chunks m) - 1, end_ptr ?c) bs m')"
    unfolding e using inv bl ci bs room by (auto simp: mat_inv_def length_mem_write)
  have "mat_rows m = concat (map (chunk_rows ?sz) (butlast (chunks m))) @ chunk_rows ?sz ?c"
    unfolding mat_rows_def by (subst append_butlast_last_id [OF ne, symmetric]) (simp del: append_butlast_last_id)
  then show "mat_rows (mat_write (length (chunks m) - 1, end_ptr ?c) bs m') = mat_rows m @ [bs]"
    unfolding e using chunk_rows_append [OF sz bs _ ci(2)] room ci(1) by (simp add: mat_rows_def)
qed

lemma add_tuple_spec:
  assumes inv: "mat_inv m" and bs: "length bs = tuple_size m"
  shows "mat_inv (add_tuple m bs) \<and> mat_rows (add_tuple m bs) = mat_rows m @ [bs] \<and> tuple_size (add_tuple m bs) = tuple_size m"
proof -
  define m1 where "m1 = (if end_ptr (last (chunks m)) + tuple_size m \<ge> REGION_SIZE then allocNewChunk m else m)"
  have m1: "mat_inv m1" "mat_rows m1 = mat_rows m" "tuple_size m1 = tuple_size m"
    using inv by (auto simp: m1_def alloc_inv)
  have room: "end_ptr (last (chunks m1)) + tuple_size m1 \<le> REGION_SIZE"
    using inv alloc_inv(3,4) [of m] by (auto simp: m1_def mat_inv_def)
  let ?m' = "m1\<lparr> chunks := butlast (chunks m1) @ [(last (chunks m1))\<lparr> end_ptr := end_ptr (last (chunks m1)) + tuple_size m1 \<rparr>] \<rparr>"
  have "add_tuple m bs = mat_write (length (chunks m1) - 1, end_ptr (last (chunks m1))) bs ?m'"
    by (simp add: add_tuple_def materialize_def m1_def Let_def)
  with materialize_room [OF m1(1) _ room refl, of bs] bs m1(2,3) show ?thesis by (simp add: mat_write_def)
qed

lemma getNumTuples_rows: "getNumTuples m = length (mat_rows m)"
  by (simp add: getNumTuples_def mat_rows_def length_concat comp_def chunk_rows_def)

lemma add_tuples:
  assumes "0 < sz" "sz \<le> REGION_SIZE" "\<forall>t\<in>set ts. length t = sz" "TupleMaterializer sz = Returns m"
  shows "mat_inv (foldl add_tuple m ts) \<and> mat_rows (foldl add_tuple m ts) = ts \<and> tuple_size (foldl add_tuple m ts) = sz"
  using assms(3)
proof (induction ts rule: rev_induct)
  case Nil with mat_inv_new [OF assms(1,2)] assms(4) show ?case by simp
next
  case (snoc t ts)
  then have "mat_inv (foldl add_tuple m ts)" "mat_rows (foldl add_tuple m ts) = ts" "tuple_size (foldl add_tuple m ts) = sz" by auto
  with add_tuple_spec [of "foldl add_tuple m ts" t] snoc.prems show ?case by simp
qed

text \<open>
  C19. However many tuples a thread materializes, none overwrites another: reading the chunks back yields the tuples in
  order, each chunk stays within its 16 kB, and \<open>getNumTuples\<close> is their number.
\<close>
theorem materializer_keeps_tuples:
  assumes "0 < sz" "sz \<le> REGION_SIZE" "\<forall>t\<in>set ts. length t = sz"
  shows "\<exists>m. TupleMaterializer sz = Returns m \<and> mat_inv (foldl add_tuple m ts) \<and>
    mat_rows (foldl add_tuple m ts) = ts \<and> getNumTuples (foldl add_tuple m ts) = length ts"
  using mat_inv_new [OF assms(1,2)] add_tuples [OF assms] by (auto simp: getNumTuples_rows)

theorem materializer_keeps_tuples_witness:
  "\<exists>m. TupleMaterializer 2 = Returns m \<and> mat_rows (foldl add_tuple m [[1, 2], [3, 4], [1, 2]]) = [[1, 2], [3, 4], [1, 2]]"
  using materializer_keeps_tuples [of 2 "[[1, 2], [3, 4], [1, 2]]"] by (auto simp: REGION_SIZE_def)

text \<open>Read handles are morsel sources: the chunks from the offset on are still to be handed out.\<close>

definition unread_chunks :: "materializer \<Rightarrow> nat \<Rightarrow> nat list" where
  "unread_chunks m offset = [offset..<length (chunks m)]"

interpretation read_handle: morsel_source pullChunk unread_chunks
  by unfold_locales (auto simp: pullChunk_def unread_chunks_def upt_conv_Cons split: if_splits)

section \<open>The arena of a thread\<close>

definition REGION_ARRAY_SIZE :: nat where "REGION_ARRAY_SIZE = 512"

text \<open>The number of regions so far and the next free 8 byte slot of the last one.\<close>

record memory_region =
  region_count :: nat
  region_offset :: nat

definition MemoryRegion :: memory_region where "MemoryRegion = \<lparr> region_count = 0, region_offset = 0 \<rparr>"

text \<open>\<open>alloc\<close> returns the region and the slot it starts at; a whole region or more is refused by its assertion.\<close>

definition alloc :: "nat \<Rightarrow> memory_region \<Rightarrow> ((nat \<times> nat) \<times> memory_region) outcome" where
  "alloc sz r =
     (if \<not> sz < 8 * REGION_ARRAY_SIZE then Throws ''assertion''
      else let slots = (sz + 8 - 1) div 8;
               r1 = (if region_count r = 0 \<or> region_offset r + slots > REGION_ARRAY_SIZE
                     then \<lparr> region_count = region_count r + 1, region_offset = 0 \<rparr> else r)
           in Returns ((region_count r1 - 1, region_offset r1), r1\<lparr> region_offset := region_offset r1 + slots \<rparr>))"

text \<open>Region, first slot and number of slots of one allocation after another.\<close>

fun allocs :: "nat list \<Rightarrow> memory_region \<Rightarrow> (nat \<times> nat \<times> nat) list outcome" where
  "allocs [] r = Returns []"
| "allocs (sz # szs) r = obind (alloc sz r) (\<lambda>((reg, off), r'). obind (allocs szs r') (\<lambda>as. Returns ((reg, off, (sz + 7) div 8) # as)))"

definition disjoint_allocs :: "nat \<times> nat \<times> nat \<Rightarrow> nat \<times> nat \<times> nat \<Rightarrow> bool" where
  "disjoint_allocs a b \<longleftrightarrow> (case (a, b) of ((r, o1, n1), (s, o2, n2)) \<Rightarrow> r \<noteq> s \<or> o1 + n1 \<le> o2)"

definition in_region :: "nat \<times> nat \<times> nat \<Rightarrow> bool" where
  "in_region a \<longleftrightarrow> (case a of (reg, off, n) \<Rightarrow> off + n \<le> REGION_ARRAY_SIZE)"

text \<open>Where the allocations that follow may lie.\<close>

definition after_region :: "memory_region \<Rightarrow> nat \<times> nat \<times> nat \<Rightarrow> bool" where
  "after_region r a \<longleftrightarrow> (case a of (reg, off, n) \<Rightarrow> region_count r \<le> reg \<or> reg + 1 = region_count r \<and> region_offset r \<le> off)"

lemma alloc_spec:
  assumes "sz < 4096" "region_offset r \<le> REGION_ARRAY_SIZE"
  obtains reg off r' where "alloc sz r = Returns ((reg, off), r')" "off + (sz + 7) div 8 = region_offset r'" "region_offset r' \<le> REGION_ARRAY_SIZE"
    "region_count r' = Suc reg" "after_region r (reg, off, (sz + 7) div 8)" "\<And>a. after_region r' a \<Longrightarrow> after_region r a"
proof -
  obtain reg off r' where a: "alloc sz r = Returns ((reg, off), r')"
    using assms(1) by (auto simp: alloc_def Let_def REGION_ARRAY_SIZE_def)
  show ?thesis
    by (rule that [OF a]) (use assms a in \<open>auto simp: alloc_def Let_def REGION_ARRAY_SIZE_def after_region_def split: if_splits\<close>)
qed

lemma allocs_spec:
  assumes "list_all (\<lambda>sz. sz < 4096) szs" "region_offset r \<le> REGION_ARRAY_SIZE"
  shows "\<exists>as. allocs szs r = Returns as \<and> map (\<lambda>(reg, off, n). n) as = map (\<lambda>sz. (sz + 7) div 8) szs \<and>
    sorted_wrt disjoint_allocs as \<and> list_all in_region as \<and> list_all (after_region r) as"
  using assms
proof (induction szs arbitrary: r)
  case Nil then show ?case by simp
next
  case (Cons sz szs)
  have "sz < 4096" using Cons.prems by simp
  then obtain reg off r' where a: "alloc sz r = Returns ((reg, off), r')" "off + (sz + 7) div 8 = region_offset r'"
    "region_offset r' \<le> REGION_ARRAY_SIZE" "region_count r' = Suc reg" "after_region r (reg, off, (sz + 7) div 8)"
    "\<And>a. after_region r' a \<Longrightarrow> after_region r a"
    using alloc_spec Cons.prems(2) by metis
  with Cons.IH [of r'] Cons.prems(1) obtain as where as: "allocs szs r' = Returns as"
    "map (\<lambda>(reg, off, n). n) as = map (\<lambda>sz. (sz + 7) div 8) szs"
    "sorted_wrt disjoint_allocs as" "list_all in_region as" "list_all (after_region r') as" by auto
  have "list_all (disjoint_allocs (reg, off, (sz + 7) div 8)) as"
    using as(5) by (rule list.pred_mono_strong) (use a(2,4) in \<open>auto simp: after_region_def disjoint_allocs_def\<close>)
  moreover have "list_all (after_region r) as" using as(5) a(6) by (rule list.pred_mono_strong)
  ultimately show ?case using a as by (auto simp: in_region_def list_all_iff)
qed

lemma allocs_refused: "\<not> list_all (\<lambda>sz. sz < 4096) szs \<Longrightarrow> allocs szs r = Throws ''assertion''"
proof (induction szs arbitrary: r)
  case (Cons sz szs)
  show ?case
  proof (cases "sz < 4096")
    case True
    then obtain reg off r' where "alloc sz r = Returns ((reg, off), r')" by (auto simp: alloc_def Let_def REGION_ARRAY_SIZE_def)
    then show ?thesis using Cons True by simp
  qed (simp add: alloc_def REGION_ARRAY_SIZE_def)
qed simp

text \<open>
  C20. Any sequence of allocations of less than 4096 bytes each from a thread's arena succeeds, and no two overlap: every one has the slots
  of 8 bytes that its size needs and lies inside its 4 kB region, and of two in the same region the later one starts after the earlier one
  ends. A sequence with a larger request stops at the assertion.
\<close>
theorem arena_disjoint:
  "(list_all (\<lambda>sz. sz < 4096) szs \<longrightarrow>
     (\<exists>as. allocs szs MemoryRegion = Returns as \<and> map (\<lambda>(reg, off, n). n) as = map (\<lambda>sz. (sz + 7) div 8) szs \<and>
        sorted_wrt disjoint_allocs as \<and> list_all (\<lambda>(reg, off, n). off + n \<le> 512) as)) \<and>
   (\<not> list_all (\<lambda>sz. sz < 4096) szs \<longrightarrow> allocs szs MemoryRegion = Throws ''assertion'')"
proof (intro conjI impI allocs_refused)
  assume "list_all (\<lambda>sz. sz < 4096) szs"
  from allocs_spec [OF this, of MemoryRegion] obtain as where as: "allocs szs MemoryRegion = Returns as"
    "map (\<lambda>(reg, off, n). n) as = map (\<lambda>sz. (sz + 7) div 8) szs" "sorted_wrt disjoint_allocs as" "list_all in_region as"
    by (auto simp: MemoryRegion_def)
  then have "list_all (\<lambda>(reg, off, n). off + n \<le> 512) as" by (simp add: in_region_def REGION_ARRAY_SIZE_def list_all_iff)
  with as show "\<exists>as. allocs szs MemoryRegion = Returns as \<and> map (\<lambda>(reg, off, n). n) as = map (\<lambda>sz. (sz + 7) div 8) szs \<and>
      sorted_wrt disjoint_allocs as \<and> list_all (\<lambda>(reg, off, n). off + n \<le> 512) as" by blast
qed

theorem arena_disjoint_witness:
  "allocs [8, 3, 4090, 16] MemoryRegion = Returns [(0, 0, 1), (0, 1, 1), (1, 0, 512), (2, 0, 2)] \<and>
   sorted_wrt disjoint_allocs [(0, 0, 1), (0, 1, 1), (1, 0, 512), (2, 0, 2)] \<and> allocs [8, 4096] MemoryRegion = Throws ''assertion''"
proof -
  have e: "allocs [8, 3, 4090, 16] MemoryRegion = Returns [(0, 0, 1), (0, 1, 1), (1, 0, 512), (2, 0, 2)]"
    by (simp add: alloc_def MemoryRegion_def REGION_ARRAY_SIZE_def Let_def)
  show ?thesis using arena_disjoint [of "[8, 3, 4090, 16]"] arena_disjoint [of "[8, 4096]"] e by simp
qed

section \<open>The barrier\<close>

text \<open>
  The function \<open>arriveAndWait\<close> in the steps that other threads can see between. Under the mutex a thread that is not the last one
  starts to wait, and the last one runs the function; it then unlocks (\<open>Notifying\<close>) and calls \<open>notify_all\<close>. A waiting thread
  moves only when it was notified, or by a spurious wake-up, which the condition variable allows; it then takes the mutex and looks at the
  predicate again. \<open>once_calls\<close> counts the calls of the function.
\<close>

datatype bar_pc = Outside | Waiting | Notified | Notifying | Passed

record barrier =
  pending_arrivals :: u64
  once_calls :: nat

definition OnceBarrier :: "u64 \<Rightarrow> barrier" where
  "OnceBarrier total_arrivals = \<lparr> pending_arrivals = total_arrivals, once_calls = 0 \<rparr>"

definition arriveAndWait :: "barrier \<Rightarrow> barrier \<times> bar_pc" where
  "arriveAndWait b =
     (let remaining_arrivals = pending_arrivals b - 1; b' = b\<lparr> pending_arrivals := remaining_arrivals \<rparr>
      in if remaining_arrivals = 0 then (b'\<lparr> once_calls := once_calls b' + 1 \<rparr>, Notifying) else (b', Waiting))"

definition notify_all :: "bar_pc list \<Rightarrow> bar_pc list" where
  "notify_all ts = map (\<lambda>p. if p = Waiting then Notified else p) ts"

definition wait_predicate :: "barrier \<Rightarrow> bar_pc" where
  "wait_predicate b = (if pending_arrivals b = 0 then Passed else Waiting)"

inductive bar_step :: "barrier \<times> bar_pc list \<Rightarrow> barrier \<times> bar_pc list \<Rightarrow> bool" where
  arrive: "i < length ts \<Longrightarrow> ts ! i = Outside \<Longrightarrow> arriveAndWait b = (b', p) \<Longrightarrow> bar_step (b, ts) (b', ts[i := p])"
| notify: "i < length ts \<Longrightarrow> ts ! i = Notifying \<Longrightarrow> bar_step (b, ts) (b, (notify_all ts)[i := Passed])"
| wake: "i < length ts \<Longrightarrow> ts ! i = Notified \<Longrightarrow> bar_step (b, ts) (b, ts[i := wait_predicate b])"

inductive bar_spurious :: "barrier \<times> bar_pc list \<Rightarrow> barrier \<times> bar_pc list \<Rightarrow> bool" where
  spurious: "i < length ts \<Longrightarrow> ts ! i = Waiting \<Longrightarrow> bar_spurious (b, ts) (b, ts[i := wait_predicate b])"

text \<open>Runs, with the number of steps that are not spurious wake-ups.\<close>

inductive bar_run :: "u64 \<Rightarrow> nat \<Rightarrow> barrier \<times> bar_pc list \<Rightarrow> bool" for n where
  start: "bar_run n 0 (OnceBarrier n, replicate (unat n) Outside)"
| more: "bar_run n k s \<Longrightarrow> bar_step s t \<Longrightarrow> bar_run n (Suc k) t"
| by_chance: "bar_run n k s \<Longrightarrow> bar_spurious s t \<Longrightarrow> bar_run n k t"

inductive_cases bar_stepE: "bar_step (b, ts) u"
inductive_cases bar_spuriousE: "bar_spurious (b, ts) u"

text \<open>While the counter is zero and a thread waits, some thread is about to notify.\<close>

definition bar_inv :: "u64 \<Rightarrow> barrier \<times> bar_pc list \<Rightarrow> bool" where
  "bar_inv n s \<longleftrightarrow> (case s of (b, ts) \<Rightarrow> length ts = unat n \<and> unat (pending_arrivals b) = count_list ts Outside \<and>
     once_calls b = (if pending_arrivals b = 0 \<and> 0 < n then 1 else 0) \<and>
     (set ts \<inter> {Passed, Notifying, Notified} \<noteq> {} \<longrightarrow> pending_arrivals b = 0) \<and>
     (pending_arrivals b = 0 \<and> Waiting \<in> set ts \<longrightarrow> Notifying \<in> set ts))"

lemma count_list_update: "i < length xs \<Longrightarrow> xs ! i = a \<Longrightarrow> y \<noteq> a \<Longrightarrow> count_list (xs[i := y]) a + 1 = count_list xs a"
proof (induction xs arbitrary: i)
  case (Cons x xs) then show ?case by (cases i) auto
qed simp

lemma count_list_update_other: "i < length xs \<Longrightarrow> xs ! i \<noteq> a \<Longrightarrow> y \<noteq> a \<Longrightarrow> count_list (xs[i := y]) a = count_list xs a"
proof (induction xs arbitrary: i)
  case (Cons x xs) then show ?case by (cases i) auto
qed simp

lemma in_set_update_other: "i < length xs \<Longrightarrow> xs ! i \<noteq> a \<Longrightarrow> a \<in> set xs \<Longrightarrow> a \<in> set (xs[i := y])"
  by (metis in_set_conv_nth length_list_update nth_list_update_neq)

lemma in_set_update_new: "a \<in> set (xs[i := y]) \<Longrightarrow> a \<noteq> y \<Longrightarrow> a \<in> set xs"
  using set_update_subset_insert [of xs i y] by blast

lemma notify_all_simps [simp]:
  "length (notify_all ts) = length ts" "count_list (notify_all ts) Outside = count_list ts Outside"
  "Waiting \<notin> set (notify_all ts)" "i < length ts \<Longrightarrow> notify_all ts ! i = (if ts ! i = Waiting then Notified else ts ! i)"
     apply (simp add: notify_all_def)
  subgoal unfolding notify_all_def by (induction ts) auto
  by (auto simp: notify_all_def)

lemma bar_inv_wait:
  assumes "bar_inv n (b, ts)" "i < length ts" "ts ! i = Waiting \<or> ts ! i = Notified"
  shows "bar_inv n (b, ts[i := wait_predicate b])"
proof -
  have "count_list (ts[i := wait_predicate b]) Outside = count_list ts Outside"
    using assms by (intro count_list_update_other) (auto simp: wait_predicate_def)
  moreover have "ts ! i \<in> set ts" using assms(2) by simp
  ultimately show ?thesis using assms in_set_update_other [OF assms(2), of Notifying]
    by (auto simp: bar_inv_def wait_predicate_def dest!: in_set_update_new)
qed

lemma bar_inv_step:
  assumes inv: "bar_inv n s" and step: "bar_step s t"
  shows "bar_inv n t"
  using step inv
proof (cases rule: bar_step.cases)
  case (arrive i ts b b' p)
  have q: "p \<noteq> Outside" using arrive(5) by (auto simp: arriveAndWait_def Let_def split: if_splits)
  have c: "count_list (ts[i := p]) Outside + 1 = count_list ts Outside"
    using arrive q by (intro count_list_update) auto
  have "0 < n" using arrive inv by (auto simp: bar_inv_def word_gt_0)
  have nz: "pending_arrivals b \<noteq> 0" using inv arrive(1) c by (auto simp: bar_inv_def)
  have pred: "unat (pending_arrivals b - 1) = count_list (ts[i := p]) Outside"
    using inv arrive(1) c unat_minus_one [OF nz] by (simp add: bar_inv_def)
  have z: "pending_arrivals b - 1 = 0 \<longleftrightarrow> count_list (ts[i := p]) Outside = 0" using pred by (metis unat_eq_0)
  have "once_calls b = 0" "set ts \<inter> {Passed, Notifying, Notified} = {}" using inv arrive(1) nz by (auto simp: bar_inv_def)
  moreover have "p \<in> set (ts[i := p])" using arrive(3) by (rule set_update_memI)
  ultimately show ?thesis using arrive inv pred z \<open>0 < n\<close>
    by (auto simp: bar_inv_def arriveAndWait_def Let_def split: if_splits dest!: in_set_update_new)
next
  case (notify i ts b)
  have "count_list ((notify_all ts)[i := Passed]) Outside = count_list ts Outside"
    using notify by (simp add: count_list_update_other)
  moreover have "Notifying \<in> set ts" using notify by (metis nth_mem)
  ultimately show ?thesis using notify inv by (auto simp: bar_inv_def dest!: in_set_update_new)
next
  case (wake i ts b)
  then show ?thesis using inv by (auto intro: bar_inv_wait)
qed

lemma bar_inv_spurious: "bar_inv n s \<Longrightarrow> bar_spurious s t \<Longrightarrow> bar_inv n t"
  by (cases s) (auto elim!: bar_spuriousE intro: bar_inv_wait)

lemma bar_inv_start: "bar_inv n (OnceBarrier n, replicate (unat n) Outside)"
proof -
  have "count_list (replicate k Outside) Outside = k" for k by (induction k) auto
  then show ?thesis by (auto simp: bar_inv_def OnceBarrier_def word_gt_0)
qed

text \<open>Steps that a thread still has before it: spurious wake-ups never add one.\<close>

fun bar_left :: "bar_pc \<Rightarrow> nat" where
  "bar_left Outside = 2"
| "bar_left Waiting = 1"
| "bar_left Notified = 1"
| "bar_left Notifying = 1"
| "bar_left Passed = 0"

lemma bar_left_update:
  "i < length ts \<Longrightarrow> sum_list (map bar_left (ts[i := p])) + bar_left (ts ! i) = sum_list (map bar_left ts) + bar_left p"
proof (induction ts arbitrary: i)
  case (Cons x xs) then show ?case by (cases i) (auto simp: add_ac)
qed simp

lemma bar_left_notify [simp]: "sum_list (map bar_left (notify_all ts)) = sum_list (map bar_left ts)"
  unfolding notify_all_def by (induction ts) auto

lemma bar_step_left:
  assumes "bar_inv n (b, ts)" "bar_step (b, ts) (b', ts')"
  shows "sum_list (map bar_left ts') < sum_list (map bar_left ts)"
  using assms(2)
proof (cases rule: bar_step.cases)
  case (arrive i p)
  then show ?thesis using bar_left_update [of i ts p] by (auto simp: arriveAndWait_def Let_def split: if_splits)
next
  case (notify i)
  then show ?thesis using bar_left_update [of i "notify_all ts" Passed] by simp
next
  case (wake i)
  then have "Notified \<in> set ts" by (metis nth_mem)
  then have "wait_predicate b = Passed" using assms(1) by (auto simp: bar_inv_def wait_predicate_def)
  then show ?thesis using wake bar_left_update [of i ts Passed] by simp
qed

lemma bar_spurious_left: "bar_spurious (b, ts) (b', ts') \<Longrightarrow> sum_list (map bar_left ts') \<le> sum_list (map bar_left ts)"
  using bar_left_update [of _ ts "wait_predicate b"]
  by (fastforce elim!: bar_spuriousE simp: wait_predicate_def split: if_splits)

lemma bar_run_inv: "bar_run n k s \<Longrightarrow> bar_inv n s \<and> k + sum_list (map bar_left (snd s)) \<le> 2 * unat n"
proof (induction rule: bar_run.induct)
  case start then show ?case using bar_inv_start by (simp add: sum_list_replicate)
next
  case (more k s t)
  then show ?case using bar_inv_step [of n s t] bar_step_left [of n "fst s" "snd s" "fst t" "snd t"] by auto
next
  case (by_chance k s t)
  then show ?case using bar_inv_spurious [of n s t] bar_spurious_left [of "fst s" "snd s" "fst t" "snd t"] by auto
qed

text \<open>
  C21. A \<open>OnceBarrier\<close> for \<open>n\<close> threads that each arrive once, with any interleaving and any spurious wake-ups. The function is called
  at most once, it has been called before any thread gets past the barrier, and no thread is stuck: while some thread has not
  passed, some thread has a step that is not a spurious wake-up, and after at most \<open>2 * n\<close> such steps all have passed.
\<close>
theorem barrier_once:
  assumes "bar_run n k (b, ts)"
  shows "once_calls b \<le> 1 \<and> (Passed \<in> set ts \<longrightarrow> once_calls b = 1) \<and>
    ((\<exists>t\<in>set ts. t \<noteq> Passed) \<longrightarrow> (\<exists>s. bar_step (b, ts) s)) \<and> k \<le> 2 * unat n"
proof (intro conjI impI)
  have inv: "bar_inv n (b, ts)" using bar_run_inv [OF assms] by simp
  show "once_calls b \<le> 1" using inv by (simp add: bar_inv_def)
  show "once_calls b = 1" if "Passed \<in> set ts" using inv that
    by (cases "n = 0") (auto simp: bar_inv_def word_gt_0)
  show "k \<le> 2 * unat n" using bar_run_inv [OF assms] by simp
  assume "\<exists>t\<in>set ts. t \<noteq> Passed"
  then obtain t where t: "t \<in> set ts" "t \<noteq> Passed" by blast
  have "\<exists>s. bar_step (b, ts) s" if "u \<in> set ts" "u \<noteq> Passed" "u \<noteq> Waiting" for u
  proof -
    have "\<exists>i<length ts. ts ! i = u" using \<open>u \<in> set ts\<close> by (simp add: in_set_conv_nth)
    then obtain i where i: "i < length ts" "ts ! i = u" by blast
    show ?thesis using \<open>u \<noteq> Passed\<close> \<open>u \<noteq> Waiting\<close> i by (cases u) (simp_all, metis bar_step.arrive surj_pair, (blast intro: bar_step.notify bar_step.wake)+)
  qed
  note move = this
  show "\<exists>s. bar_step (b, ts) s"
  proof (cases "Outside \<in> set ts")
    case False
    then have "pending_arrivals b = 0" using inv by (simp add: bar_inv_def count_list_0_iff unat_eq_0)
    then show ?thesis using inv t move [of t] move [of Notifying] by (cases t) (auto simp: bar_inv_def)
  qed (use move in simp)
qed

text \<open>Two threads: the first waits, the second runs the function and notifies it.\<close>

theorem barrier_once_witness:
  "\<exists>b ts. bar_run 2 4 (b, ts) \<and> ts = [Passed, Passed] \<and> once_calls b = 1"
proof -
  let ?b = "\<lambda>p c. \<lparr> pending_arrivals = p, once_calls = c \<rparr>"
  have two: "unat (2 :: u64) = 2" by simp
  have replicate_2: "replicate (unat (2 :: u64)) Outside = [Outside, Outside]"
    unfolding two by (simp add: eval_nat_numeral)
  have 0: "bar_run 2 0 (?b 2 0, [Outside, Outside])"
    using bar_run.start [of 2] unfolding replicate_2 OnceBarrier_def .
  have 1: "bar_step (?b 2 0, [Outside, Outside]) (?b 1 0, [Waiting, Outside])"
    using bar_step.arrive [of 0 "[Outside, Outside]" "?b 2 0"] by (simp add: arriveAndWait_def)
  have 2: "bar_step (?b 1 0, [Waiting, Outside]) (?b 0 1, [Waiting, Notifying])"
    using bar_step.arrive [of 1 "[Waiting, Outside]" "?b 1 0"] by (simp add: arriveAndWait_def)
  have 3: "bar_step (?b 0 1, [Waiting, Notifying]) (?b 0 1, [Notified, Passed])"
    using bar_step.notify [of 1 "[Waiting, Notifying]" "?b 0 1"] by (simp add: notify_all_def)
  have 4: "bar_step (?b 0 1, [Notified, Passed]) (?b 0 1, [Passed, Passed])"
    using bar_step.wake [of 0 "[Notified, Passed]" "?b 0 1"] by (simp add: wait_predicate_def)
  have r: "bar_run 2 4 (?b 0 1, [Passed, Passed])"
    using bar_run.more [OF bar_run.more [OF bar_run.more [OF bar_run.more [OF 0 1] 2] 3] 4] by (simp add: eval_nat_numeral)
  from barrier_once [OF r] r show ?thesis by auto
qed

end
