(* ===== verification/Joins.thy ===== *)
theory Joins
  imports Aggregations AtomicHashTable Runtime_Memory
begin

text \<open>
  Joins (\<open>algebra/Join.cpp\<close>): the planned row layouts of both sides, the suboperators of the build and the probe
  pipeline, and the runtime task between the two, which allocates a hash table of the right size and moves the
  materialised build rows into it.
\<close>

section \<open>Planning\<close>

datatype join_type = Inner | LeftSemi | LeftOuter

record join_plan =
  join_type :: join_type
  is_pk_join :: bool
  keys_left :: "iu list"
  payload_left :: "iu list"
  keys_right :: "iu list"
  payload_right :: "iu list"
  keys_left_out :: "iu list"
  payload_left_out :: "iu list"
  keys_right_out :: "iu list"
  payload_right_out :: "iu list"
  right_pseudo_ius :: "iu list"
  key_size_left :: nat
  payload_size_left :: nat
  key_size_right :: nat
  payload_size_right :: nat
  scratch_pad_right :: iu
  hash_right :: iu
  lookup_left :: iu
  lookup_right :: iu
  filter_pseudo_iu :: iu
  filtered_build :: iu
  filtered_probe :: iu

definition own_iu :: "nat \<Rightarrow> irtype \<Rightarrow> iu" where
  "own_iu a t = \<lparr> iu_addr = a, iu_type = t, iu_name = [] \<rparr>"

text \<open>
  The constructor and \<open>plan\<close>; \<open>a\<close> is the first address of the IUs that the join owns. The members that no
  suboperator uses (\<open>scratch_pad_left\<close>, \<open>prefetch_pseudo\<close>) are left out.
\<close>

definition Join_plan :: "nat \<Rightarrow> nat \<Rightarrow> iu list \<Rightarrow> iu list \<Rightarrow> iu list \<Rightarrow> iu list \<Rightarrow> join_type \<Rightarrow> bool \<Rightarrow> join_plan outcome" where
  "Join_plan a children kl pl kr pr ty pk =
     (if children \<noteq> 2 then Throws ''Join needs to have two children''
      else if ty = LeftSemi \<and> pr \<noteq> [] \<or> iu_widths kl \<noteq> iu_widths kr then Throws ''assertion''
      else
        let b = a + 7;
            c = b + length kl;
            d = c + length pl;
            e = d + length kr;
            f = e + length pr
        in Returns \<lparr>
          join_type = ty, is_pk_join = pk,
          keys_left = kl, payload_left = pl, keys_right = kr, payload_right = pr,
          keys_left_out = new_ius b (map iu_type kl),
          payload_left_out = new_ius c (map iu_type pl),
          keys_right_out = (if ty \<noteq> LeftSemi then new_ius d (map iu_type kr) else []),
          payload_right_out = new_ius e (map iu_type pr),
          right_pseudo_ius = new_ius f (replicate (length kr + length pr) Void),
          key_size_left = iu_widths kl, payload_size_left = iu_widths pl,
          key_size_right = iu_widths kr, payload_size_right = iu_widths pr,
          scratch_pad_right = own_iu a (ByteArray (iu_widths kr + iu_widths pr)),
          hash_right = own_iu (a + 1) (UnsignedInt 8),
          lookup_left = own_iu (a + 2) char_ptr,
          lookup_right = own_iu (a + 3) char_ptr,
          filter_pseudo_iu = own_iu (a + 4) Void,
          filtered_build = own_iu (a + 5) char_ptr,
          filtered_probe = own_iu (a + 6) char_ptr \<rparr>)"

definition join_output :: "join_plan \<Rightarrow> iu list" where
  "join_output p = keys_left_out p @ payload_left_out p @ keys_right_out p @ payload_right_out p"

definition full_row_left :: "join_plan \<Rightarrow> iu list" where
  "full_row_left p = keys_left p @ payload_left p"

section \<open>Factories of runtime function suboperators\<close>

definition materializeTuple :: "iu \<Rightarrow> iu list \<Rightarrow> nat \<Rightarrow> subop_spec" where
  "materializeTuple ptr_out inputs st = (RuntimeFunctionSubop ''materialize_tuple'' [] [] (Some ptr_out) st, [ptr_out], inputs)"

definition htHashAndPrefetch :: "string \<Rightarrow> iu \<Rightarrow> iu \<Rightarrow> iu list \<Rightarrow> nat option \<Rightarrow> nat \<Rightarrow> subop_spec" where
  "htHashAndPrefetch ID hash key pseudo key_width st =
     (let fct_name = ''ht_'' @ ID @ ''_compute_hash_and_prefetch'' @
            (if key_width = Some 4 then ''_fixed_4'' else if key_width = Some 8 then ''_fixed_8'' else [])
      in (RuntimeFunctionSubop fct_name [key] [\<not> is_byte_ptr (iu_type key)] (Some hash) st, [hash], key # pseudo))"

definition htLookupWithHash :: "string \<Rightarrow> bool \<Rightarrow> iu \<Rightarrow> iu \<Rightarrow> iu \<Rightarrow> iu option \<Rightarrow> nat \<Rightarrow> subop_spec" where
  "htLookupWithHash ID disable_slot pointers key hash prefetch_pseudo st =
     (RuntimeFunctionSubop (''ht_'' @ ID @ ''_lookup_with_hash'' @ (if disable_slot then ''_disable'' else []))
        [key, hash] [\<not> is_byte_ptr (iu_type key), False] (Some pointers) st,
      [pointers], [key, hash] @ (case prefetch_pseudo of None \<Rightarrow> [] | Some i \<Rightarrow> [i]))"

section \<open>Decaying\<close>

text \<open>The constructor of \<open>ColumnFilterLogic\<close>: a filtered byte array becomes a pointer.\<close>

definition ColumnFilterLogic_build :: "iu \<Rightarrow> iu \<Rightarrow> iu \<Rightarrow> irtype \<Rightarrow> bool \<Rightarrow> subop_spec outcome" where
  "ColumnFilterLogic_build pseudo incoming redefined filter_type filters_itself =
     (case iu_type incoming of
        ByteArray n \<Rightarrow> if type_id (iu_type redefined) \<noteq> ''Ptr_Char'' then Throws ''A filtered ByteArray must become a Char*''
          else Returns (ColumnFilterLogic filter_type filters_itself, [redefined], [pseudo, incoming])
      | _ \<Rightarrow> Returns (ColumnFilterLogic filter_type filters_itself, [redefined], [pseudo, incoming]))"

text \<open>
  A filter: the scope and the operators that redefine columns inside it. The scope, attached first at address
  \<open>next_addr\<close>, is told of every logic operator that follows it (\<open>attachFilterLogicDependency\<close>).
\<close>

definition filter_specs :: "nat \<Rightarrow> iu \<Rightarrow> iu \<Rightarrow> (iu \<times> subop_spec) list \<Rightarrow> subop_spec list" where
  "filter_specs addr filter_iu pseudo logics =
     (ColumnFilterScope (map (\<lambda>(k, (old_iu, l)). (addr + 1 + k, old_iu)) (enumerate 0 logics)), [pseudo], [filter_iu]) # map snd logics"

text \<open>The build pipeline (1.1, 1.2).\<close>

definition join_build_ops :: "join_plan \<Rightarrow> nat \<Rightarrow> subop_spec list" where
  "join_build_ops p mat_state =
     materializeTuple (lookup_left p) (full_row_left p) mat_state #
     pack_ops (lookup_left p) 0 (map (\<lambda>i. (i, [])) (full_row_left p))"

text \<open>The probe pipeline before the lookup (2.1).\<close>

definition join_pack_ops :: "join_plan \<Rightarrow> subop_spec list" where
  "join_pack_ops p =
     (ScratchPadIUProvider, [scratch_pad_right p], []) #
     pack_ops (scratch_pad_right p) 0 (zip (keys_right p @ payload_right p) (map (\<lambda>i. [i]) (right_pseudo_ius p)))"

text \<open>The lookup, run vectorized (2.2).\<close>

definition join_lookup_ops :: "join_plan \<Rightarrow> nat \<Rightarrow> subop_spec list" where
  "join_lookup_ops p ht_state =
     [htHashAndPrefetch ''at_sk'' (hash_right p) (scratch_pad_right p) (right_pseudo_ius p) (Some (key_size_left p)) ht_state,
      htLookupWithHash ''at_sk'' (join_type p = LeftSemi) (lookup_right p) (scratch_pad_right p) (hash_right p) None ht_state]"

text \<open>The filter on matches (2.3); the build side filters itself.\<close>

definition join_filter_ops :: "join_plan \<Rightarrow> nat \<Rightarrow> subop_spec list outcome" where
  "join_filter_ops p addr =
     obind (ColumnFilterLogic_build (filter_pseudo_iu p) (lookup_right p) (filtered_build p) (iu_type (lookup_right p)) True) (\<lambda>l1.
     if join_type p \<noteq> LeftSemi then
       obind (ColumnFilterLogic_build (filter_pseudo_iu p) (scratch_pad_right p) (filtered_probe p) (iu_type (lookup_right p)) False) (\<lambda>l2.
         Returns (filter_specs addr (lookup_right p) (filter_pseudo_iu p) [(lookup_right p, l1), (scratch_pad_right p, l2)]))
     else Returns (filter_specs addr (lookup_right p) (filter_pseudo_iu p) [(lookup_right p, l1)]))"

text \<open>Unpacking both sides (2.4).\<close>

definition join_unpack_ops :: "join_plan \<Rightarrow> subop_spec list" where
  "join_unpack_ops p =
     unpack_ops (filtered_build p) 0 (keys_left_out p @ payload_left_out p) @
     (if join_type p \<noteq> LeftSemi then unpack_ops (filtered_probe p) 0 (keys_right_out p @ payload_right_out p) else [])"

text \<open>The continuation of a left outer join starts with a scan of the hash table.\<close>

definition join_continuation :: "join_plan \<Rightarrow> nat \<Rightarrow> dag \<Rightarrow> dag" where
  "join_continuation p ht_state d =
     (if join_type p = LeftOuter then
        (on_continuation (\<lambda>q. attachSuboperator q
            (make_subop (next_addr d) (HashTableSource ''at_sk'' ht_state, [lookup_right p, scratch_pad_right p], [])))
          (attachContinuation d))\<lparr> next_addr := Suc (next_addr d) \<rparr>
      else d)"

definition with_rof_guard :: "(dag \<Rightarrow> dag) \<Rightarrow> dag \<Rightarrow> dag" where
  "with_rof_guard body d = (let size_at_start = length (suboperators (getCurrentPipeline d)) in on_current (ROFScopeGuard_end size_at_start) (body d))"

text \<open>\<open>decayPkJoin\<close>; \<open>left\<close> and \<open>right\<close> are the decays of the two children.\<close>

definition decayPkJoin :: "join_plan \<Rightarrow> (dag \<Rightarrow> dag outcome) \<Rightarrow> (dag \<Rightarrow> dag outcome) \<Rightarrow> dag \<Rightarrow> dag outcome" where
  "decayPkJoin p left right d0 =
     (let tuple_size = key_size_left p + payload_size_left p;
          (mat_state, d1) = attachTupleMaterializers 0 tuple_size d0;
          (ht_state, d2) = attachAtomicHashTable 0 mat_state d1
      in obind (left d2) (\<lambda>d3.
         let d4 = attach_all (join_build_ops p mat_state) d3;
             d5 = addRuntimeTask \<lparr> after_pipe = length (pipelines d4) - 1,
                    task_function = BuildJoinTable (key_size_left p) tuple_size mat_state ht_state \<rparr> d4
         in obind (right d5) (\<lambda>d6.
            let d7 = attach_all (join_pack_ops p) d6;
                d8 = with_rof_guard (attach_all (join_lookup_ops p ht_state)) d7;
                d9 = join_continuation p ht_state d8
            in obind (join_filter_ops p (next_addr d9)) (\<lambda>filters.
               Returns (attach_all (join_unpack_ops p) (attach_all filters d9))))))"

definition Join_decay :: "join_plan \<Rightarrow> (dag \<Rightarrow> dag outcome) \<Rightarrow> (dag \<Rightarrow> dag outcome) \<Rightarrow> dag \<Rightarrow> dag outcome" where
  "Join_decay p left right d =
     (if is_pk_join p then decayPkJoin p left right d else Throws ''Only supporting PK joins so far'')"

section \<open>The runtime task\<close>

fun bit_len :: "nat \<Rightarrow> nat" where
  "bit_len n = (if n = 0 then 0 else Suc (bit_len (n div 2)))"

declare bit_len.simps [simp del]

text \<open>\<open>__builtin_clzl\<close> on a 64 bit number that is not zero.\<close>

definition builtin_clzl :: "nat \<Rightarrow> nat" where
  "builtin_clzl n = 64 - bit_len n"

definition hash_table_slots :: "nat \<Rightarrow> nat" where
  "hash_table_slots total_rows =
     (let min_capacity = max 2 (2 * total_rows) in unat (push_bit (64 - builtin_clzl (min_capacity - 1)) (1 :: u64)))"

definition allocHashTable :: "nat \<Rightarrow> materializer list \<Rightarrow> atomic_ht outcome" where
  "allocHashTable slot_size mats =
     (let total_rows = sum_list (map getNumTuples mats)
      in AtomicHashTable (of_nat slot_size) (hash_table_slots total_rows))"

text \<open>
  The inserts that a worker makes for one chunk, as (tuple pointer, hash): batches of at most 256 tuples, in
  each of which all hashes are computed first. A batch of size zero would repeat for ever.
\<close>

function chunk_inserts :: "key_cmp \<Rightarrow> nat \<Rightarrow> bytes \<Rightarrow> nat \<Rightarrow> nat \<Rightarrow> (bytes \<times> u64) list outcome" where
  "chunk_inserts cmp slot_size data pos stop =
     (if pos < stop then
        let n = min 256 ((stop - pos) div slot_size) in
        if n * slot_size = 0 then Diverges
        else
          let hashes = map (\<lambda>b. compute_hash_and_prefetch cmp (drop (pos + b * slot_size) data)) [0..<n]
          in obind (chunk_inserts cmp slot_size data (pos + n * slot_size) stop) (\<lambda>rest.
               Returns (map (\<lambda>b. (drop (pos + b * slot_size) data, hashes ! b)) [0..<n] @ rest))
      else Returns [])"
  by pat_completeness auto
termination
  by (relation "measure (\<lambda>(cmp, sz, data, pos, stop). stop - pos)") (auto intro!: diff_less_mono2)

declare chunk_inserts.simps [simp del]

text \<open>
  The workers of \<open>materializedTupleToHashTable\<close> drain the read handles of all materializers; a worker inserts
  the tuples of each chunk it pulled.
\<close>

definition worker_inserts :: "key_cmp \<Rightarrow> nat \<Rightarrow> materializer list \<Rightarrow> nat worker \<Rightarrow> (bytes \<times> u64) list outcome" where
  "worker_inserts cmp slot_size mats w =
     obind (map_outcome (\<lambda>(h, c). chunk_inserts cmp slot_size (chunk_data (chunks (mats ! h) ! c)) 0 (end_ptr (chunks (mats ! h) ! c))) (taken w))
       (\<lambda>ls. Returns (concat ls))"

end
