(* ===== verification/Aggregation_Props.thy ===== *)
theory Aggregation_Props
  imports Aggregations
begin

text \<open>The layout of aggregate state: what is written by the aggregators is what the readers read.\<close>

section \<open>The ordered set of granules\<close>

lemma granule_less_irrefl: "\<not> granule_less a a"
  by (simp add: granule_less_def)
lemma granule_less_trans: "granule_less a b \<Longrightarrow> granule_less b c \<Longrightarrow> granule_less a c"
  by (auto simp: granule_less_def)
lemma granule_less_total: "granule_less a b \<or> a = b \<or> granule_less b a"
  by (cases a; cases b) (auto simp: granule_less_def)

abbreviation descending :: "granule_description list \<Rightarrow> bool" where
  "descending \<equiv> sorted_wrt (\<lambda>a b. granule_less b a)"

lemma set_insert_set: "set (set_insert d es) = insert d (set es)"
proof (induction es)
  case (Cons e es) then show ?case using granule_less_total [of d e] by auto
qed simp

lemma set_insert_descending: "descending es \<Longrightarrow> descending (set_insert d es)"
proof (induction es)
  case (Cons e es) then show ?case by (auto simp: set_insert_set dest: granule_less_trans)
qed simp

lemma to_compute_facts:
  "set (to_compute_of fs) = set (needed_granules fs)" "descending (to_compute_of fs)"
proof -
  have "set (foldl (\<lambda>s d. set_insert d s) acc ds) = set acc \<union> set ds" for acc ds
    by (induction ds arbitrary: acc) (auto simp: set_insert_set)
  then show "set (to_compute_of fs) = set (needed_granules fs)" by (simp add: to_compute_of_def)
  have "descending acc \<Longrightarrow> descending (foldl (\<lambda>s d. set_insert d s) acc ds)" for acc ds
    by (induction ds arbitrary: acc) (auto simp: set_insert_descending)
  then show "descending (to_compute_of fs)" by (simp add: to_compute_of_def)
qed

lemma descending_distinct: "descending ds \<Longrightarrow> distinct ds"
  by (induction ds) (auto simp: granule_less_irrefl)

lemma descending_sizes: "descending ds \<Longrightarrow> sorted_wrt (\<ge>) (map fst ds)"
  by (induction ds) (auto simp: granule_less_def less_imp_le)

section \<open>Positions\<close>

lemma index_of_nth: "d \<in> set ds \<Longrightarrow> index_of d ds < length ds \<and> ds ! index_of d ds = d"
  by (induction ds) (auto simp: index_of_def)

lemma index_of_distinct: "distinct ds \<Longrightarrow> k < length ds \<Longrightarrow> index_of (ds ! k) ds = k"
  by (metis index_of_nth nth_eq_iff_index_eq nth_mem)

definition writes_of :: "(iu \<times> registry_entry) list \<Rightarrow> (iu \<times> agg_state) list" where
  "writes_of fs = concat (map (\<lambda>(i, e). map (Pair i) (entry_granules e)) fs)"

lemma needed_writes: "needed_granules fs = map (\<lambda>(i, g). describe i g) (writes_of fs)"
  by (induction fs) (auto simp: needed_granules_def writes_of_def)

lemma assign_granules_spec:
  assumes "distinct ds" "\<forall>(i, g)\<in>set ws. describe i g \<in> set ds"
  defines "res \<equiv> foldl (\<lambda>gs (i, g). gs[index_of (describe i g) ds := Some (i, g)]) (replicate (length ds) None) ws"
  shows "length res = length ds \<and> (\<forall>k<length ds. ds ! k \<in> set (map (\<lambda>(i, g). describe i g) ws) \<longrightarrow>
    (\<exists>i g. res ! k = Some (i, g) \<and> describe i g = ds ! k \<and> (i, g) \<in> set ws))"
  unfolding res_def using assms(2)
proof (induction ws rule: rev_induct)
  case Nil then show ?case by simp
next
  case (snoc w ws)
  obtain i g where w: "w = (i, g)" by fastforce
  let ?res = "foldl (\<lambda>gs (i, g). gs[index_of (describe i g) ds := Some (i, g)]) (replicate (length ds) None) ws"
  let ?n = "index_of (describe i g) ds"
  have IH: "length ?res = length ds" "\<And>k. k < length ds \<Longrightarrow> ds ! k \<in> set (map (\<lambda>(i, g). describe i g) ws) \<Longrightarrow>
      \<exists>i g. ?res ! k = Some (i, g) \<and> describe i g = ds ! k \<and> (i, g) \<in> set ws" using snoc by auto
  have n: "?n < length ds" "ds ! ?n = describe i g" using snoc.prems w index_of_nth [of "describe i g" ds] by auto
  have "\<exists>i' g'. (?res[?n := Some (i, g)]) ! k = Some (i', g') \<and> describe i' g' = ds ! k \<and> (i', g') \<in> set (ws @ [w])"
    if k: "k < length ds" "ds ! k \<in> set (map (\<lambda>(i, g). describe i g) (ws @ [w]))" for k
  proof (cases "k = ?n")
    case True with n IH(1) w show ?thesis by auto
  next
    case False
    then have "ds ! k \<noteq> describe i g" using n k(1) assms(1) by (metis nth_eq_iff_index_eq)
    then have "ds ! k \<in> set (map (\<lambda>(i, g). describe i g) ws)" using k(2) w by auto
    from IH(2) [OF k(1) this] False show ?thesis by auto
  qed
  with IH(1) w show ?case by simp
qed

lemma granule_offset_nth: "distinct ds \<Longrightarrow> k < length ds \<Longrightarrow> granule_offset s ds (ds ! k) = s + sum_list (map fst (take k ds))"
  by (simp add: granule_offset_def index_of_distinct)

section \<open>What a successful plan contains\<close>

lemma map_outcome_Returns: "map_outcome f xs = Returns ys \<Longrightarrow> length ys = length xs \<and> (\<forall>k<length xs. f (xs ! k) = Returns (ys ! k))"
proof (induction xs arbitrary: ys)
  case (Cons x xs)
  then obtain y zs where "f x = Returns y" "map_outcome f xs = Returns zs" "ys = y # zs" by (auto simp: obind_Returns_iff)
  with Cons.IH [of zs] show ?case by (auto simp: nth_Cons split: nat.split)
qed simp

lemma plan_cases:
  assumes "Aggregation_plan a groups descs = Returns p"
  obtains entries ds aligned where
    "length entries = length descs" "\<And>k. k < length descs \<Longrightarrow> lookupSubops (descs ! k) = Returns (entries ! k)"
    "ds = to_compute_of (zip (map agg_iu descs) entries)" "ds \<noteq> []"
    "probe_loop (\<lambda>off. off + fst (last ds)) (\<lambda>off. \<not> off < iu_widths groups) 0 = Some aligned"
    "group_by p = groups" "key_size p = iu_widths groups" "payload_offset p = aligned - iu_widths groups"
    "payload_size p = foldl (\<lambda>sum d. sum + fst d) (payload_offset p) ds"
    "granules p = map the (assign_granules ds (zip (map agg_iu descs) entries))"
    "compute p = map (\<lambda>(i, e). (agg_reader e, map (\<lambda>g. granule_offset (payload_offset p) ds (describe i g)) (entry_granules e))) (zip (map agg_iu descs) entries)"
    "out_aggregate_ius p = new_ius (a + 3 + 2 * length groups) (map result_type entries)"
    "out_key_ius p = new_ius (a + 3) (map iu_type groups)"
  using assms unfolding Aggregation_plan_def obind_Returns_iff Let_def
  by (auto split: if_splits simp: obind_Returns_iff dest!: map_outcome_Returns)

lemma plan_granules:
  assumes "ds = to_compute_of fs" "gs = map the (assign_granules ds fs)"
  shows "length gs = length ds" "\<forall>k<length ds. describe (fst (gs ! k)) (snd (gs ! k)) = ds ! k"
    "map (getStateSize \<circ> snd) gs = map fst ds" "set gs \<subseteq> set (writes_of fs)"
proof -
  have "distinct ds" using assms(1) to_compute_facts(2) descending_distinct by blast
  moreover have "\<forall>(i, g)\<in>set (writes_of fs). describe i g \<in> set ds"
    unfolding assms(1) to_compute_facts(1) needed_writes by force
  ultimately have A: "length (assign_granules ds fs) = length ds"
    "\<And>k. k < length ds \<Longrightarrow> ds ! k \<in> set (needed_granules fs) \<Longrightarrow>
       \<exists>i g. assign_granules ds fs ! k = Some (i, g) \<and> describe i g = ds ! k \<and> (i, g) \<in> set (writes_of fs)"
    using assign_granules_spec [of ds "writes_of fs"] unfolding needed_writes assign_granules_def writes_of_def by blast+
  have k: "\<exists>i g. gs ! k = (i, g) \<and> describe i g = ds ! k \<and> (i, g) \<in> set (writes_of fs)" if "k < length ds" for k
    using A(2) [OF that] A(1) that nth_mem [OF that] assms to_compute_facts(1) [of fs] by auto
  show l: "length gs = length ds" using A(1) assms(2) by simp
  show n: "\<forall>k<length ds. describe (fst (gs ! k)) (snd (gs ! k)) = ds ! k" using k by fastforce
  show "map (getStateSize \<circ> snd) gs = map fst ds"
  proof (rule nth_equalityI)
    fix j assume "j < length (map (getStateSize \<circ> snd) gs)"
    with n l have "describe (fst (gs ! j)) (snd (gs ! j)) = ds ! j" "j < length ds" "j < length gs" by auto
    then have "fst (describe (fst (gs ! j)) (snd (gs ! j))) = fst (ds ! j)" "j < length ds" "j < length gs" by simp_all
    then show "map (getStateSize \<circ> snd) gs ! j = map fst ds ! j" unfolding describe_def by simp
  qed (simp add: l)
  show "set gs \<subseteq> set (writes_of fs)" using k l by (fastforce simp: in_set_conv_nth)
qed

lemma aggregate_ops_nth:
  "k < length gs \<Longrightarrow> aggregate_ops ptr off gs ! k =
     (AggregatorSubop (snd (gs ! k)) (off + sum_list (take k (map (getStateSize \<circ> snd) gs))), [], [ptr, fst (gs ! k)])"
  by (induction ptr off gs arbitrary: k rule: aggregate_ops.induct) (auto simp: nth_Cons split: nat.split)

lemma aggregate_ops_length [simp]: "length (aggregate_ops ptr off gs) = length gs"
  by (induction ptr off gs rule: aggregate_ops.induct) auto

lemma unpack_ops_length [simp]: "length (unpack_ops src off outs) = length outs"
  by (induction src off outs rule: unpack_ops.induct) auto

lemma new_ius_length [simp]: "length (new_ius a ts) = length ts"
  by (simp add: new_ius_def)

lemma sum_foldl: "foldl (\<lambda>sum d. sum + fst d) s ds = s + sum_list (map fst ds)" for s :: nat
  by (induction ds arbitrary: s) auto

text \<open>The aggregator of a granule in the plan: where in a row of the table it keeps its state.\<close>

definition keeps_state :: "agg_plan \<Rightarrow> nat \<Rightarrow> nat \<Rightarrow> iu \<Rightarrow> agg_state \<Rightarrow> bool" where
  "keeps_state p st off i g \<longleftrightarrow> (\<exists>i' g'. describe i' g' = describe i g \<and>
     (AggregatorSubop g' off, [], [agg_pointer_result p, i']) \<in> set (agg_build_ops p st))"

lemma planned_offset_kept:
  assumes ds: "ds = to_compute_of fs" "granules p = map the (assign_granules ds fs)" and d: "describe i g \<in> set ds"
  shows "keeps_state p st (key_size p + granule_offset (payload_offset p) ds (describe i g)) i g"
proof -
  note G = plan_granules [OF ds]
  from d obtain k where k: "k < length ds" "describe i g = ds ! k" by (metis in_set_conv_nth)
  have "distinct ds" using ds(1) to_compute_facts(2) descending_distinct by blast
  then have off: "granule_offset (payload_offset p) ds (describe i g) = payload_offset p + sum_list (take k (map (getStateSize \<circ> snd) (granules p)))"
    using k granule_offset_nth by (simp add: G(3) take_map)
  have kl: "k < length (granules p)" using k(1) G(1) by simp
  have "aggregate_ops (agg_pointer_result p) (key_size p + payload_offset p) (granules p) ! k =
      (AggregatorSubop (snd (granules p ! k)) (key_size p + granule_offset (payload_offset p) ds (describe i g)), [], [agg_pointer_result p, fst (granules p ! k)])"
    using aggregate_ops_nth [OF kl, of "agg_pointer_result p" "key_size p + payload_offset p"] off by simp
  then have "(AggregatorSubop (snd (granules p ! k)) (key_size p + granule_offset (payload_offset p) ds (describe i g)), [], [agg_pointer_result p, fst (granules p ! k)]) \<in>
      set (agg_build_ops p st)"
    using nth_mem [of k "aggregate_ops (agg_pointer_result p) (key_size p + payload_offset p) (granules p)"] kl
    by (cases "agg_pack_key p") (auto simp: agg_build_ops_def)
  moreover have "describe (fst (granules p ! k)) (snd (granules p ! k)) = describe i g" using G(2) k by simp
  ultimately show ?thesis unfolding keeps_state_def by blast
qed

lemma lookup_granules: "lookupSubops f = Returns e \<Longrightarrow> length (entry_granules e) = requiredGranules (agg_reader e) \<and> entry_granules e \<noteq> []"
  by (auto simp: lookupSubops_def resolveCount_def resolveSum_def resolveAvg_def computeAsUnpack_def split: if_splits agg_opcode.splits)

text \<open>
  C27. Every aggregate function reads its state where it is kept: the reader that \<open>decay\<close> attaches for the
  \<open>j\<close>-th function computes that function into the \<open>j\<close>-th output, and each offset it is given is the
  offset of an aggregator, attached to the building pipeline, of a granule with the same state over the same column.
\<close>
theorem agg_reads_what_is_kept:
  assumes "Aggregation_plan a groups descs = Returns p" "j < length descs"
  shows "\<exists>e o1 o2. lookupSubops (descs ! j) = Returns e \<and>
    agg_read_ops p st ! (1 + length groups + j) = (AggReaderSubop (agg_reader e) o1 o2, [out_aggregate_ius p ! j], [ht_scan_result p]) \<and>
    keeps_state p st o1 (agg_iu (descs ! j)) (entry_granules e ! 0) \<and>
    (case o2 of None \<Rightarrow> length (entry_granules e) = 1
     | Some off \<Rightarrow> length (entry_granules e) = 2 \<and> keeps_state p st off (agg_iu (descs ! j)) (entry_granules e ! 1))"
proof -
  obtain entries ds aligned where P: "length entries = length descs" "\<And>k. k < length descs \<Longrightarrow> lookupSubops (descs ! k) = Returns (entries ! k)"
    "ds = to_compute_of (zip (map agg_iu descs) entries)"
    "granules p = map the (assign_granules ds (zip (map agg_iu descs) entries))"
    "compute p = map (\<lambda>(i, e). (agg_reader e, map (\<lambda>g. granule_offset (payload_offset p) ds (describe i g)) (entry_granules e))) (zip (map agg_iu descs) entries)"
    "out_aggregate_ius p = new_ius (a + 3 + 2 * length groups) (map result_type entries)"
    "out_key_ius p = new_ius (a + 3) (map iu_type groups)" by (rule plan_cases [OF assms(1)]) blast
  let ?i = "agg_iu (descs ! j)" and ?e = "entries ! j"
  note e = P(2) [OF assms(2)]
  have lg: "length (entry_granules ?e) = requiredGranules (agg_reader ?e)" "entry_granules ?e \<noteq> []" using lookup_granules [OF e] by auto
  have len: "length (compute p) = length descs" "length (out_aggregate_ius p) = length descs" "length (out_key_ius p) = length groups"
    using P(1,5,6,7) by simp_all
  have c: "compute p ! j = (agg_reader ?e, map (\<lambda>g. granule_offset (payload_offset p) ds (describe ?i g)) (entry_granules ?e))"
    using P(1,5) assms(2) by simp
  have mem: "describe ?i g \<in> set ds" if "g \<in> set (entry_granules ?e)" for g
  proof -
    have "(?i, ?e) \<in> set (zip (map agg_iu descs) entries)"
      using P(1) assms(2) unfolding set_zip by (intro CollectI exI [of _ j]) simp
    with that show ?thesis unfolding P(3) to_compute_facts(1) needed_granules_def by force
  qed
  have kept: "keeps_state p st (key_size p + granule_offset (payload_offset p) ds (describe ?i g)) ?i g" if "g \<in> set (entry_granules ?e)" for g
    by (rule planned_offset_kept [OF P(3,4) mem [OF that]])
  have "agg_read_ops p st ! (1 + length groups + j) = reader_op (ht_scan_result p) (key_size p) (compute p ! j, out_aggregate_ius p ! j)"
    using len assms(2) by (simp add: agg_read_ops_def nth_append)
  moreover have at0: "map f (entry_granules ?e) ! 0 = f (entry_granules ?e ! 0)" for f :: "agg_state \<Rightarrow> nat"
    using lg(2) by (cases "entry_granules ?e") auto
  ultimately have r: "agg_read_ops p st ! (1 + length groups + j) =
      (AggReaderSubop (agg_reader ?e) (key_size p + granule_offset (payload_offset p) ds (describe ?i (entry_granules ?e ! 0)))
        (if requiredGranules (agg_reader ?e) = 2 then Some (key_size p + granule_offset (payload_offset p) ds (describe ?i (entry_granules ?e ! 1))) else None),
       [out_aggregate_ius p ! j], [ht_scan_result p])"
    using lg at0 by (auto simp: c reader_op_def)
  have "requiredGranules (agg_reader ?e) = 1 \<or> requiredGranules (agg_reader ?e) = 2" by (cases "agg_reader ?e") auto
  then show ?thesis using e r lg kept by (intro exI [of _ ?e]) auto
qed

lemma plan_payload:
  assumes "Aggregation_plan a groups descs = Returns p"
  shows "payload_size p = payload_offset p + sum_list (map (getStateSize \<circ> snd) (granules p))"
proof -
  obtain entries ds where P: "ds = to_compute_of (zip (map agg_iu descs) entries)" "payload_size p = foldl (\<lambda>sum d. sum + fst d) (payload_offset p) ds"
    "granules p = map the (assign_granules ds (zip (map agg_iu descs) entries))" by (rule plan_cases [OF assms]) blast
  show ?thesis by (simp add: P(2) sum_foldl plan_granules(3) [OF P(1,3)])
qed

text \<open>
  The layout of a row: the states of the granules lie one after the other from the payload offset to the end of
  the payload, so no two overlap and all lie inside the row behind the key; larger states come first; each
  needed granule occurs exactly once however many functions use it, and nothing else does.
\<close>
theorem agg_layout:
  assumes "Aggregation_plan a groups descs = Returns p"
  shows "payload_size p = payload_offset p + sum_list (map (getStateSize \<circ> snd) (granules p)) \<and>
    (\<forall>k<length (granules p). aggregate_ops ptr (key_size p + payload_offset p) (granules p) ! k =
       (AggregatorSubop (snd (granules p ! k)) (key_size p + payload_offset p + sum_list (take k (map (getStateSize \<circ> snd) (granules p)))),
        [], [ptr, fst (granules p ! k)])) \<and>
    sorted_wrt (\<ge>) (map (getStateSize \<circ> snd) (granules p)) \<and>
    distinct (map (\<lambda>(i, g). describe i g) (granules p)) \<and>
    (\<exists>entries. map_outcome lookupSubops descs = Returns entries \<and>
       set (map (\<lambda>(i, g). describe i g) (granules p)) = set (needed_granules (zip (map agg_iu descs) entries)))"
proof -
  obtain entries where E: "map_outcome lookupSubops descs = Returns entries"
    using assms by (auto simp: Aggregation_plan_def obind_Returns_iff)
  obtain entries' ds aligned where P: "length entries' = length descs" "\<And>k. k < length descs \<Longrightarrow> lookupSubops (descs ! k) = Returns (entries' ! k)"
    "ds = to_compute_of (zip (map agg_iu descs) entries')" "payload_size p = foldl (\<lambda>sum d. sum + fst d) (payload_offset p) ds"
    "granules p = map the (assign_granules ds (zip (map agg_iu descs) entries'))" by (rule plan_cases [OF assms]) blast
  have "entries' = entries" using map_outcome_Returns [OF E] P(1,2) by (intro nth_equalityI) fastforce+
  note P = P [unfolded this]
  note G = plan_granules [OF P(3,5)]
  have desc: "descending ds" using P(3) to_compute_facts(2) by blast
  have m: "map (\<lambda>(i, g). describe i g) (granules p) = ds"
    using G(1,2) by (intro nth_equalityI) (auto simp: split_def)
  show ?thesis
  proof (intro conjI exI [of _ entries] allI impI)
    show "payload_size p = payload_offset p + sum_list (map (getStateSize \<circ> snd) (granules p))" by (rule plan_payload [OF assms])
    show "aggregate_ops ptr (key_size p + payload_offset p) (granules p) ! k =
       (AggregatorSubop (snd (granules p ! k)) (key_size p + payload_offset p + sum_list (take k (map (getStateSize \<circ> snd) (granules p)))),
        [], [ptr, fst (granules p ! k)])" if "k < length (granules p)" for k using aggregate_ops_nth [OF that] .
    show "sorted_wrt (\<ge>) (map (getStateSize \<circ> snd) (granules p))" unfolding G(3) by (rule descending_sizes [OF desc])
    show "distinct (map (\<lambda>(i, g). describe i g) (granules p))" unfolding m by (rule descending_distinct [OF desc])
    show "map_outcome lookupSubops descs = Returns entries" by (rule E)
    show "set (map (\<lambda>(i, g). describe i g) (granules p)) = set (needed_granules (zip (map agg_iu descs) entries))"
      unfolding m P(3) by (rule to_compute_facts(1))
  qed
qed

section \<open>A concrete plan\<close>

text \<open>
  \<open>avg(x), sum(x)\<close> over a 4 byte integer grouped by a 4 byte key. The two functions share the sum. The payload
  offset is rounded to the size of the smallest granule, so the 8 byte count is kept 4 bytes into the row.
\<close>

definition ex_key :: iu where "ex_key = \<lparr> iu_addr = 50, iu_type = UnsignedInt 4, iu_name = ''k'' \<rparr>"
definition ex_x :: iu where "ex_x = \<lparr> iu_addr = 51, iu_type = SignedInt 4, iu_name = ''x'' \<rparr>"
definition ex_aggs :: "agg_description list" where
  "ex_aggs = [\<lparr> agg_iu = ex_x, code = AggAvg, is_distinct = False \<rparr>, \<lparr> agg_iu = ex_x, code = AggSum, is_distinct = False \<rparr>]"

lemma ex_plan:
  "\<exists>p. Aggregation_plan 100 [ex_key] ex_aggs = Returns p \<and> key_size p = 4 \<and> payload_offset p = 0 \<and>
     granules p = [(ex_x, AggStateCount), (ex_x, AggStateSum (SignedInt 4))]"
proof -
  have l: "probe_loop (\<lambda>off. off + (4::nat)) (\<lambda>off. \<not> off < 4) 0 = Some 4"
    by (subst probe_loop.simps, simp, subst probe_loop.simps, simp)
  show ?thesis
    by (simp add: Aggregation_plan_def ex_aggs_def lookupSubops_def resolveAvg_def resolveSum_def computeAsUnpack_def ex_key_def ex_x_def
        to_compute_of_def needed_granules_def describe_def granule_less_def to_string.simps digit_def l
        assign_granules_def index_of_def Let_def)
qed

theorem agg_reads_what_is_kept_witness:
  "\<exists>p o1 o2. Aggregation_plan 100 [ex_key] ex_aggs = Returns p \<and>
     agg_read_ops p 0 ! 2 = (AggReaderSubop (AggComputeAvg (SignedInt 4)) o1 (Some o2), [out_aggregate_ius p ! 0], [ht_scan_result p]) \<and>
     keeps_state p 0 o1 ex_x (AggStateSum (SignedInt 4)) \<and> keeps_state p 0 o2 ex_x AggStateCount"
proof -
  obtain p where p: "Aggregation_plan 100 [ex_key] ex_aggs = Returns p" using ex_plan by blast
  have "0 < length ex_aggs" by (simp add: ex_aggs_def)
  from agg_reads_what_is_kept [OF p this, of 0] p show ?thesis
    by (intro exI [of _ p]) (auto simp: ex_aggs_def lookupSubops_def resolveAvg_def ex_x_def eval_nat_numeral split: option.splits)
qed

theorem agg_layout_witness:
  "\<exists>p. Aggregation_plan 100 [ex_key] ex_aggs = Returns p \<and> payload_size p = 12 \<and>
     aggregate_ops ex_x (key_size p + payload_offset p) (granules p) ! 0 = (AggregatorSubop AggStateCount 4, [], [ex_x, ex_x])"
proof -
  obtain p where p: "Aggregation_plan 100 [ex_key] ex_aggs = Returns p" "key_size p = 4" "payload_offset p = 0"
     "granules p = [(ex_x, AggStateCount), (ex_x, AggStateSum (SignedInt 4))]" using ex_plan by blast
  from agg_layout [OF p(1), of ex_x] p show ?thesis by (intro exI [of _ p]) simp
qed

end
