(* ===== verification/Join_Props.thy ===== *)
theory Join_Props
  imports Joins Aggregation_Props
begin

text \<open>
  The row layouts of a join: what the packers of the two pipelines write at an offset is what the unpackers
  behind the probe read there, and the keys of both sides are compared as the same bytes.
\<close>

definition row_offset :: "iu list \<Rightarrow> nat \<Rightarrow> nat" where
  "row_offset is k = iu_widths (take k is)"

lemma pack_ops_nth:
  "k < length ks \<Longrightarrow> pack_ops t off ks ! k = (KeyPackerSubop (off + row_offset (map fst ks) k), snd (ks ! k), [fst (ks ! k), t])"
proof (induction ks arbitrary: off k)
  case (Cons x ks)
  obtain key pseudo where x: "x = (key, pseudo)" by fastforce
  with Cons show ?case by (cases k) (simp_all add: row_offset_def)
qed simp

lemma unpack_ops_nth:
  "k < length outs \<Longrightarrow> unpack_ops src off outs ! k = (KeyUnpackerSubop (off + row_offset outs k), [outs ! k], [src])"
proof (induction outs arbitrary: off k)
  case (Cons x outs)
  then show ?case by (cases k) (simp_all add: row_offset_def)
qed simp

lemma pack_ops_length [simp]: "length (pack_ops t off ks) = length ks"
  by (induction t off ks rule: pack_ops.induct) simp_all

lemma row_offset_next: "k < length is \<Longrightarrow> row_offset is (Suc k) = row_offset is k + width (iu_type (is ! k))"
  by (simp add: row_offset_def take_Suc_conv_app_nth)

lemma row_offset_mono: "j \<le> k \<Longrightarrow> row_offset is j \<le> row_offset is k"
proof -
  assume "j \<le> k"
  then have "take k is = take j is @ drop j (take k is)" by (metis append_take_drop_id min.absorb1 take_take)
  then show ?thesis by (metis iu_widths_simps(3) le_add1 row_offset_def)
qed

lemma row_offset_end: "row_offset is (length is) = iu_widths is"
  by (simp add: row_offset_def)

lemma row_offset_types: "map iu_type is = map iu_type js \<Longrightarrow> row_offset is k = row_offset js k"
  by (simp add: row_offset_def iu_widths_def flip: take_map map_map)

lemma row_offset_in: "k < length is \<Longrightarrow> row_offset is k + width (iu_type (is ! k)) \<le> iu_widths is"
  using row_offset_mono [of "Suc k" "length is" "is"] by (simp add: row_offset_next row_offset_end)

lemma row_offset_prefix: "k < length is \<Longrightarrow> row_offset (is @ js) k + width (iu_type ((is @ js) ! k)) \<le> iu_widths is"
  using row_offset_in [of k "is"] by (simp add: row_offset_def nth_append)

lemma new_ius_types [simp]: "map iu_type (new_ius a ts) = ts"
  by (rule nth_equalityI) (simp_all add: new_ius_def nth_enumerate_eq split_beta)

lemma Join_plan_facts:
  assumes "Join_plan a n kl pl kr pr ty pk = Returns p"
  shows "join_type p = ty" "is_pk_join p = pk" "full_row_left p = kl @ pl" "keys_left p = kl" "keys_right p @ payload_right p = kr @ pr"
    "key_size_left p = iu_widths kl" "payload_size_left p = iu_widths pl" "key_size_right p = iu_widths kl" "payload_size_right p = iu_widths pr"
    "iu_widths kl = iu_widths kr"
    "map iu_type (keys_left_out p @ payload_left_out p) = map iu_type (kl @ pl)"
    "ty \<noteq> LeftSemi \<Longrightarrow> map iu_type (keys_right_out p @ payload_right_out p) = map iu_type (kr @ pr)"
    "length (right_pseudo_ius p) = length (kr @ pr)" "iu_type (scratch_pad_right p) = ByteArray (iu_widths kr + iu_widths pr)"
  using assms by (auto simp: Join_plan_def Let_def full_row_left_def own_iu_def split: if_splits)

text \<open>
  C29. The rows of a join. Column \<open>k\<close> of the build side is packed into the materialised row at the offset
  and with the type at which it is unpacked behind the probe, inside the \<open>tuple_size\<close> bytes of the row, and the
  columns do not overlap; the same holds for the probe side's scratch pad unless the join is a semi join. On
  both sides the keys come first and take the same number of bytes, the ones that are hashed and compared.
\<close>
theorem join_row_layout:
  assumes "Join_plan a n kl pl kr pr ty pk = Returns p"
  shows "(\<forall>k<length (kl @ pl).
      join_build_ops p st ! Suc k = (KeyPackerSubop (row_offset (kl @ pl) k), [], [(kl @ pl) ! k, lookup_left p]) \<and>
      join_unpack_ops p ! k = (KeyUnpackerSubop (row_offset (kl @ pl) k), [(keys_left_out p @ payload_left_out p) ! k], [filtered_build p]) \<and>
      iu_type ((keys_left_out p @ payload_left_out p) ! k) = iu_type ((kl @ pl) ! k) \<and>
      row_offset (kl @ pl) k + width (iu_type ((kl @ pl) ! k)) \<le> row_offset (kl @ pl) (Suc k) \<and>
      row_offset (kl @ pl) (Suc k) \<le> (if k < length kl then key_size_left p else key_size_left p + payload_size_left p)) \<and>
    (\<forall>k<length (kr @ pr).
      join_pack_ops p ! Suc k = (KeyPackerSubop (row_offset (kr @ pr) k), [right_pseudo_ius p ! k], [(kr @ pr) ! k, scratch_pad_right p]) \<and>
      (ty \<noteq> LeftSemi \<longrightarrow>
        join_unpack_ops p ! (length (kl @ pl) + k) =
          (KeyUnpackerSubop (row_offset (kr @ pr) k), [(keys_right_out p @ payload_right_out p) ! k], [filtered_probe p]) \<and>
        iu_type ((keys_right_out p @ payload_right_out p) ! k) = iu_type ((kr @ pr) ! k)) \<and>
      row_offset (kr @ pr) k + width (iu_type ((kr @ pr) ! k)) \<le> row_offset (kr @ pr) (Suc k) \<and>
      row_offset (kr @ pr) (Suc k) \<le> (if k < length kr then key_size_left p else width (iu_type (scratch_pad_right p))))"
proof (intro conjI allI impI)
  note f = Join_plan_facts [OF assms]
  have lo: "length (keys_left_out p @ payload_left_out p) = length (kl @ pl)" using f(11) by (metis length_map)
  have off: "row_offset (xs @ ys) (Suc k) \<le> (if k < length xs then iu_widths xs else iu_widths (xs @ ys))"
    "row_offset (xs @ ys) k + width (iu_type ((xs @ ys) ! k)) \<le> row_offset (xs @ ys) (Suc k)" if "k < length (xs @ ys)" for k xs ys
    using that row_offset_prefix [of k xs ys] row_offset_in [of k "xs @ ys"] row_offset_next [of k "xs @ ys"] by auto
  {
    fix k assume k: "k < length (kl @ pl)"
    show "join_build_ops p st ! Suc k = (KeyPackerSubop (row_offset (kl @ pl) k), [], [(kl @ pl) ! k, lookup_left p])"
      using k f(3) by (simp add: join_build_ops_def pack_ops_nth comp_def nth_append)
    have u: "join_unpack_ops p ! k = unpack_ops (filtered_build p) 0 (keys_left_out p @ payload_left_out p) ! k"
      unfolding join_unpack_ops_def by (subst nth_append) (use k lo in simp)
    show "join_unpack_ops p ! k = (KeyUnpackerSubop (row_offset (kl @ pl) k), [(keys_left_out p @ payload_left_out p) ! k], [filtered_build p])"
      unfolding u row_offset_types [OF f(11), symmetric] by (subst unpack_ops_nth) (use k lo in simp_all)
    show "iu_type ((keys_left_out p @ payload_left_out p) ! k) = iu_type ((kl @ pl) ! k)"
      using k lo f(11) by (metis nth_map)
    show "row_offset (kl @ pl) k + width (iu_type ((kl @ pl) ! k)) \<le> row_offset (kl @ pl) (Suc k)" by (rule off(2) [OF k])
    show "row_offset (kl @ pl) (Suc k) \<le> (if k < length kl then key_size_left p else key_size_left p + payload_size_left p)"
      using off(1) [OF k] f(10) by (simp add: f split: if_splits)
  next
    fix k assume k: "k < length (kr @ pr)"
    show "join_pack_ops p ! Suc k = (KeyPackerSubop (row_offset (kr @ pr) k), [right_pseudo_ius p ! k], [(kr @ pr) ! k, scratch_pad_right p])"
      using k f(5,13) by (simp add: join_pack_ops_def pack_ops_nth)
    show "row_offset (kr @ pr) k + width (iu_type ((kr @ pr) ! k)) \<le> row_offset (kr @ pr) (Suc k)" by (rule off(2) [OF k])
    show "row_offset (kr @ pr) (Suc k) \<le> (if k < length kr then key_size_left p else width (iu_type (scratch_pad_right p)))"
      using off(1) [OF k] f(10) by (simp add: f split: if_splits)
    assume ty: "ty \<noteq> LeftSemi"
    have ro: "length (keys_right_out p @ payload_right_out p) = length (kr @ pr)" using f(12) [OF ty] by (metis length_map)
    have u: "join_unpack_ops p ! (length (kl @ pl) + k) = unpack_ops (filtered_probe p) 0 (keys_right_out p @ payload_right_out p) ! k"
      using ty f(1) lo unfolding join_unpack_ops_def by (subst nth_append) simp
    show "join_unpack_ops p ! (length (kl @ pl) + k) =
        (KeyUnpackerSubop (row_offset (kr @ pr) k), [(keys_right_out p @ payload_right_out p) ! k], [filtered_probe p])"
      unfolding u row_offset_types [OF f(12) [OF ty], symmetric] by (subst unpack_ops_nth) (use k ro in simp_all)
    show "iu_type ((keys_right_out p @ payload_right_out p) ! k) = iu_type ((kr @ pr) ! k)"
      using k ro f(12) [OF ty] by (metis nth_map)
  }
qed

definition ex_k :: iu where "ex_k = \<lparr> iu_addr = 1, iu_type = SignedInt 4, iu_name = ''k'' \<rparr>"
definition ex_p :: iu where "ex_p = \<lparr> iu_addr = 2, iu_type = Float 8, iu_name = ''p'' \<rparr>"

theorem join_row_layout_witness:
  "\<exists>p. Join_plan 10 2 [ex_k] [ex_p] [ex_k] [] Inner True = Returns p \<and>
     join_build_ops p 0 ! 2 = (KeyPackerSubop 4, [], [ex_p, lookup_left p]) \<and>
     join_unpack_ops p ! 1 = (KeyUnpackerSubop 4, [(keys_left_out p @ payload_left_out p) ! 1], [filtered_build p])"
proof -
  obtain p where p: "Join_plan 10 2 [ex_k] [ex_p] [ex_k] [] Inner True = Returns p"
    by (simp add: Join_plan_def Let_def)
  have "1 < length ([ex_k] @ [ex_p])" by simp
  from join_row_layout [OF p, of 0, THEN conjunct1, rule_format, OF this] p show ?thesis
    by (simp add: row_offset_def ex_k_def ex_p_def eval_nat_numeral)
qed

end
