(* ===== verification/RelAlg.thy ===== *)
theory RelAlg
  imports Join_Props
begin

text \<open>
  Relational algebra plans and how they decay into the pipeline DAG (\<open>algebra/RelAlgOp.h\<close>, \<open>TableScan.cpp\<close>,
  \<open>Filter.cpp\<close>, \<open>ExpressionOp.cpp\<close>, \<open>Print.cpp\<close>; \<open>Aggregation.cpp\<close> and \<open>Join.cpp\<close> through their own theories).
\<close>

section \<open>Expressions\<close>

text \<open>
  A node of an expression; sharing of a node is sharing of its IU, which no other node owns. The optional runtime
  parameter is a constant.
\<close>

datatype expr_node =
    IURefNode iu
  | ComputeNode expr_type iu "expr_node list" "ir_value option"

primrec output_type :: "expr_node \<Rightarrow> irtype" where
  "output_type (IURefNode child) = iu_type child"
| "output_type (ComputeNode ty out children param) = iu_type out"

definition bool_returning :: "expr_type list" where
  "bool_returning = [Eq, Neq, Less, LessEqual, Greater, GreaterEqual, StrEquals, And, Or, InList, NotLikeTokens]"

definition derive :: "expr_type \<Rightarrow> irtype list \<Rightarrow> irtype" where
  "derive ty types = (if ty \<in> set bool_returning then Bool else hd types)"

text \<open>The three constructors of \<open>ComputeNode\<close>; \<open>a\<close> is the address of the IU that the node owns.\<close>

definition compute_node :: "nat \<Rightarrow> expr_type \<Rightarrow> expr_node list \<Rightarrow> expr_node outcome" where
  "compute_node a ty children =
     (if ty = Constant \<or> ty = Cast then Throws ''assertion''
      else Returns (ComputeNode ty (own_iu a (derive ty (map output_type children))) children None))"

definition compute_cast :: "nat \<Rightarrow> irtype \<Rightarrow> expr_node \<Rightarrow> expr_node" where
  "compute_cast a casted child = ComputeNode Cast (own_iu a casted) [child] None"

definition compute_param :: "nat \<Rightarrow> expr_type \<Rightarrow> ir_value \<Rightarrow> expr_node \<Rightarrow> expr_node outcome" where
  "compute_param a ty arg1 arg2 =
     (if ty = Cast then Throws ''assertion'' else Returns (ComputeNode ty (own_iu a (derive ty [getType arg1])) [arg2] (Some arg1)))"

text \<open>The suboperator of a node, with the check of the constructor of \<open>RuntimeExpressionSubop\<close>.\<close>

definition node_spec :: "expr_type \<Rightarrow> iu \<Rightarrow> iu list \<Rightarrow> ir_value option \<Rightarrow> subop_spec outcome" where
  "node_spec ty out sources param = (case param of
     None \<Rightarrow> Returns (ExpressionSubop ty, [out], sources)
   | Some v \<Rightarrow> if ty = Cast then Throws ''RuntimeExpressionSubop only supports binary operands.''
                   else Returns (RuntimeExpressionSubop ty (getType v) (Some v), [out], sources))"

text \<open>
  \<open>decayNode\<close>: \<open>built\<close> maps the nodes that were processed to their IUs. The suboperator of a node is
  attached after those of its children.
\<close>

type_synonym node_state = "(expr_node \<Rightarrow> iu option) \<times> dag"

fun decay_node_list :: "(expr_node \<times> (node_state \<Rightarrow> node_state outcome)) list \<Rightarrow> node_state \<Rightarrow> (iu list \<times> node_state) outcome" where
  "decay_node_list [] s = Returns ([], s)"
| "decay_node_list ((n, f) # rest) s =
     obind (f s) (\<lambda>s1. let i = the (fst s1 n) in
       obind (decay_node_list rest s1) (\<lambda>(sources, s2). Returns (i # sources, s2)))"

primrec decayNode :: "expr_node \<Rightarrow> node_state \<Rightarrow> node_state outcome" where
  "decayNode (IURefNode child) = (\<lambda>(built, d).
     if built (IURefNode child) \<noteq> None then Returns (built, d) else Returns (built(IURefNode child \<mapsto> child), d))"
| "decayNode (ComputeNode ty out children param) = (\<lambda>(built, d).
     if built (ComputeNode ty out children param) \<noteq> None then Returns (built, d)
     else obind (decay_node_list (zip children (map decayNode children)) (built(ComputeNode ty out children param \<mapsto> out), d))
       (\<lambda>(sources, built', d'). obind (node_spec ty out sources param) (\<lambda>spec. Returns (built', attach_new spec d'))))"

section \<open>Operators\<close>

datatype relop =
    TableScan string nat "(string \<times> iu) list"
  | Filter "relop list" iu iu "iu list" "iu list"
  | ExpressionOp "relop list" "expr_node list"
  | Aggregation "relop list" agg_plan
  | Join "relop list" join_plan
  | Print "relop list" "iu list" "string list" "nat option"

primrec node_iu :: "expr_node \<Rightarrow> iu" where
  "node_iu (IURefNode child) = child"
| "node_iu (ComputeNode ty out children param) = out"

primrec getOutput :: "relop \<Rightarrow> iu list" where
  "getOutput (TableScan name n cols) = map snd cols"
| "getOutput (Filter cs filter_iu pseudo to_redefine redefined) = redefined"
| "getOutput (ExpressionOp cs out) = map node_iu out"
| "getOutput (Aggregation cs p) = agg_output p"
| "getOutput (Join cs p) = join_output p"
| "getOutput (Print cs ius colnames limit) = []"

text \<open>
  Constructors; they allocate the IUs of the operator from address \<open>a\<close> on. The constructor of \<open>TableScan\<close>
  reads its parameter \<open>name\<close> after moving it into the base class: \<open>moved\<close> is what the parameter then holds, which is the
  empty string in practice. The base class keeps the name itself; \<open>LoopDriver\<close> names its IU after it.
\<close>

definition getColumn :: "(string \<times> irtype) list \<Rightarrow> string \<Rightarrow> irtype outcome" where
  "getColumn columns name = (case map_of columns name of None \<Rightarrow> Throws ''Named column does not exist'' | Some t \<Rightarrow> Returns t)"


definition TableScan_build :: "nat \<Rightarrow> nat \<Rightarrow> (string \<times> irtype) list \<Rightarrow> string list \<Rightarrow> string \<Rightarrow> string \<Rightarrow> relop outcome" where
  "TableScan_build a rel_size columns cols name moved =
     obind (map_outcome (getColumn columns) cols) (\<lambda>types.
       Returns (TableScan name rel_size (map (\<lambda>(k, (col, t)).
         (col, \<lparr> iu_addr = a + k, iu_type = t, iu_name = (if moved \<noteq> [] then moved @ ''_'' @ col else col) \<rparr>)) (enumerate 0 (zip cols types)))))"

definition Filter_build :: "nat \<Rightarrow> relop list \<Rightarrow> iu list \<Rightarrow> iu \<Rightarrow> relop" where
  "Filter_build a children to_redefine filter_iu =
     Filter children filter_iu (own_iu a Void) to_redefine (new_ius (a + 1) (map iu_type to_redefine))"

definition Print_build :: "relop list \<Rightarrow> iu list \<Rightarrow> string list \<Rightarrow> nat option \<Rightarrow> relop outcome" where
  "Print_build children ius colnames limit =
     (if ius = [] then Throws ''PrettyPrinter must produce at least one column''
      else if length ius \<noteq> length colnames then Throws ''PrettyPrinter name/iu schema must have the same number of entries''
      else Returns (Print children ius colnames limit))"

section \<open>Decaying a plan\<close>

text \<open>The children are given by their \<open>decay\<close> methods.\<close>

type_synonym decay_method = "dag \<Rightarrow> dag outcome"

fun decay_children :: "decay_method list \<Rightarrow> decay_method" where
  "decay_children [] d = Returns d"
| "decay_children (c # cs) d = obind (c d) (decay_children cs)"

definition scan_ops :: "string \<Rightarrow> nat \<Rightarrow> nat \<Rightarrow> (string \<times> iu) list \<Rightarrow> subop_spec list" where
  "scan_ops name a rel_size cols =
     (let driver_iu = \<lparr> iu_addr = a, iu_type = UnsignedInt 8, iu_name = name @ ''_idx'' \<rparr>
      in (TScanDriver rel_size, [driver_iu], []) # map (\<lambda>(col, i). (TScanIUProvider a, [i], [driver_iu])) cols)"

definition TableScan_decay :: "string \<Rightarrow> nat \<Rightarrow> (string \<times> iu) list \<Rightarrow> decay_method" where
  "TableScan_decay name rel_size cols d =
     (let d1 = buildNewPipeline d in Returns (attach_all (scan_ops name (next_addr d1) rel_size cols) d1))"

definition filter_ops :: "nat \<Rightarrow> iu \<Rightarrow> iu \<Rightarrow> iu list \<Rightarrow> iu list \<Rightarrow> subop_spec list outcome" where
  "filter_ops addr filter_iu pseudo to_redefine redefined =
     obind (map_outcome (\<lambda>(old_iu, new_iu). ColumnFilterLogic_build pseudo old_iu new_iu Bool False) (zip to_redefine redefined)) (\<lambda>logics.
       Returns (filter_specs addr filter_iu pseudo (zip to_redefine logics)))"

definition Filter_decay :: "decay_method list \<Rightarrow> iu \<Rightarrow> iu \<Rightarrow> iu list \<Rightarrow> iu list \<Rightarrow> decay_method" where
  "Filter_decay children filter_iu pseudo to_redefine redefined d =
     (if length children \<noteq> 1 then Throws ''assertion''
      else obind ((children ! 0) d) (\<lambda>d1. obind (filter_ops (next_addr d1) filter_iu pseudo to_redefine redefined) (\<lambda>ops.
             Returns (attach_all ops d1))))"

definition ExpressionOp_decay :: "decay_method list \<Rightarrow> expr_node list \<Rightarrow> decay_method" where
  "ExpressionOp_decay children out d =
     obind (decay_children children d) (\<lambda>d1.
     obind (decay_node_list (zip out (map decayNode out)) (Map.empty, d1)) (\<lambda>(roots, built, d2). Returns d2))"

definition Print_decay :: "decay_method list \<Rightarrow> iu list \<Rightarrow> decay_method" where
  "Print_decay children ius d =
     obind (decay_children children d) (\<lambda>d1.
       let d2 = attach_all (map (\<lambda>i. (FuseChunkSink, [], [i])) ius) d1
       in obind (setPrettyPrinter (getCurrentPipeline d2) ius) (\<lambda>q. Returns (on_current (\<lambda>_. q) d2)))"

primrec decay :: "relop \<Rightarrow> decay_method" where
  "decay (TableScan name rel_size cols) = TableScan_decay name rel_size cols"
| "decay (Filter children filter_iu pseudo to_redefine redefined) =
     Filter_decay (map decay children) filter_iu pseudo to_redefine redefined"
| "decay (ExpressionOp children out) = ExpressionOp_decay (map decay children) out"
| "decay (Aggregation children p) = (\<lambda>d. obind (decay_children (map decay children) d) (\<lambda>d1. Returns (Aggregation_decay p d1)))"
| "decay (Join children p) = (\<lambda>d. if length children \<noteq> 2 then Throws ''Join needs to have two children''
     else Join_decay p (map decay children ! 0) (map decay children ! 1) d)"
| "decay (Print children ius colnames limit) = Print_decay (map decay children) ius"

text \<open>\<open>QueryControlBlock\<close>: the root decays into an empty DAG.\<close>

definition QueryControlBlock :: "nat \<Rightarrow> relop \<Rightarrow> dag outcome" where
  "QueryControlBlock a root = decay root (PipelineDAG a)"

end
