(* ===== verification/Plan_Invariant.thy ===== *)
theory Plan_Invariant
  imports RelAlg
begin

text \<open>
  What a pipeline must satisfy before it is executed, and the invariant of the DAG while a plan decays: the
  pipelines before the current one are finished, the current one is well-formed, and nothing is pending. The lemmas
  reduce the decay of an operator to facts about the list of suboperators that it attaches.
\<close>

section \<open>Batches of suboperators\<close>

definition spec_outs :: "subop_spec list \<Rightarrow> iu list" where
  "spec_outs specs = concat (map (\<lambda>(k, out, src). out) specs)"

lemma spec_outs_simps [simp]:
  "spec_outs [] = []" "spec_outs ((k, out, src) # specs) = out @ spec_outs specs" "spec_outs (xs @ ys) = spec_outs xs @ spec_outs ys"
  by (simp_all add: spec_outs_def)

fun spec_deps :: "iu set \<Rightarrow> subop_spec list \<Rightarrow> bool" where
  "spec_deps A [] = True"
| "spec_deps A ((k, out, src) # specs) = (set src \<subseteq> A \<and> spec_deps (A \<union> set out) specs)"

lemma spec_deps_append [simp]: "spec_deps A (xs @ ys) \<longleftrightarrow> spec_deps A xs \<and> spec_deps (A \<union> set (spec_outs xs)) ys"
  by (induction A xs rule: spec_deps.induct) (auto simp: Un_assoc)

lemma spec_deps_mono: "spec_deps A specs \<Longrightarrow> A \<subseteq> B \<Longrightarrow> spec_deps B specs"
proof (induction A specs arbitrary: B rule: spec_deps.induct)
  case (2 A k out src specs)
  then have "A \<union> set out \<subseteq> B \<union> set out" by blast
  with 2 show ?case by auto
qed simp

lemma spec_deps_all: "(\<And>k out src. (k, out, src) \<in> set specs \<Longrightarrow> set src \<subseteq> A) \<Longrightarrow> spec_deps A specs"
proof (induction specs arbitrary: A)
  case (Cons s specs)
  obtain k out src where s: "s = (k, out, src)" by (metis surj_pair)
  have "set src \<subseteq> A" using Cons.prems [of k out src] s by simp
  moreover have "spec_deps (A \<union> set out) specs"
  proof (rule Cons.IH)
    fix k' out' src' assume "(k', out', src') \<in> set specs"
    then show "set src' \<subseteq> A \<union> set out" using Cons.prems [of k' out' src'] by auto
  qed
  ultimately show ?case by (simp add: s)
qed simp

definition strong_kind :: "subop_kind \<Rightarrow> bool" where
  "strong_kind k = (case k of TScanIUProvider d \<Rightarrow> True | FuseChunkSourceIUProvider \<Rightarrow> True | ColumnFilterLogic t b \<Rightarrow> True | _ \<Rightarrow> False)"

definition spec_strong :: "subop_spec list \<Rightarrow> bool" where
  "spec_strong specs \<longleftrightarrow> (\<forall>(k, out, src)\<in>set specs. strong_kind k \<longrightarrow>
     (\<exists>i is k' src'. src = i # is \<and> (k', [i], src') \<in> set specs \<and> distinct src'))"

lemma spec_strong_none: "(\<And>k out src. (k, out, src) \<in> set specs \<Longrightarrow> \<not> strong_kind k) \<Longrightarrow> spec_strong specs"
  by (auto simp: spec_strong_def)

lemma spec_strong_append: "spec_strong xs \<Longrightarrow> spec_strong ys \<Longrightarrow> spec_strong (xs @ ys)"
  unfolding spec_strong_def by fastforce

text \<open>The objects of a batch.\<close>

lemma number_provs: "provs (number make_subop a specs) = set (spec_outs specs)"
  by (induction specs arbitrary: a) (auto simp: make_subop_def split: prod.splits)

lemma number_ssa: "ssa (number make_subop a specs) \<longleftrightarrow> distinct (spec_outs specs)"
proof -
  have "concat (map provided_ius (number make_subop a specs)) = spec_outs specs"
    by (induction specs arbitrary: a) (auto simp: make_subop_def split: prod.splits)
  then show ?thesis by (simp add: ssa_def)
qed

lemma number_deps: "deps_met (\<lambda>i. False) A (number make_subop a specs) \<longleftrightarrow> spec_deps A specs"
  by (induction A specs arbitrary: a rule: spec_deps.induct) auto

lemma number_addrs: "map subop_addr (number make_subop a specs) = [a..<a + length specs]"
  by (induction specs arbitrary: a) (auto simp: make_subop_def upt_rec split: prod.splits)

lemma number_mem: "s \<in> set (number make_subop a specs) \<Longrightarrow> \<exists>b spec. spec \<in> set specs \<and> s = make_subop b spec"
proof (induction specs arbitrary: a)
  case (Cons x specs)
  then consider "s = make_subop a x" | "s \<in> set (number make_subop (Suc a) specs)" by auto
  then show ?case
  proof cases
    case 1 then show ?thesis by (intro exI [of _ a] exI [of _ x]) simp
  next
    case 2 then show ?thesis using Cons.IH by fastforce
  qed
qed simp

lemma number_mem_spec: "spec \<in> set specs \<Longrightarrow> \<exists>b. make_subop b spec \<in> set (number make_subop a specs)"
  by (induction specs arbitrary: a) auto

lemma number_strong: "spec_strong specs \<Longrightarrow> strong_ok (number make_subop a specs)"
proof (unfold strong_ok_def, intro ballI impI)
  fix s assume s: "s \<in> set (number make_subop a specs)" "incomingStrongLinks s" and ok: "spec_strong specs"
  obtain b k out src where m: "(k, out, src) \<in> set specs" "s = make_subop b (k, out, src)" using number_mem [OF s(1)] by (metis surj_pair)
  then have "strong_kind k" using s(2) by (simp add: incomingStrongLinks_def strong_kind_def)
  with ok m(1) obtain i "is" k' src' where i: "src = i # is" "(k', [i], src') \<in> set specs" "distinct src'" unfolding spec_strong_def by blast
  obtain c where "make_subop c (k', [i], src') \<in> set (number make_subop a specs)" using number_mem_spec [OF i(2)] by blast
  with i(1,3) m(2) show "\<exists>i is t. source_ius s = i # is \<and> t \<in> set (number make_subop a specs) \<and> provided_ius t = [i] \<and> distinct (source_ius t)"
    by (intro exI [of _ i] exI [of _ "is"] exI [of _ "make_subop c (k', [i], src')"]) simp
qed

lemma strong_ok_append: "strong_ok xs \<Longrightarrow> strong_ok ys \<Longrightarrow> strong_ok (xs @ ys)"
  unfolding strong_ok_def by fastforce

section \<open>Well-formed pipelines\<close>

text \<open>The graph of a pipeline is the one that attaching its suboperators builds.\<close>

definition same_graph :: "pipeline \<Rightarrow> pipeline \<Rightarrow> bool" where
  "same_graph p q \<longleftrightarrow> incoming_edges p = incoming_edges q \<and> outgoing_edges p = outgoing_edges q \<and> iu_providers p = iu_providers q"

definition graph_ok :: "pipeline \<Rightarrow> bool" where
  "graph_ok p \<longleftrightarrow> same_graph p (pipe_of (suboperators p))"

lemma same_graph_attach:
  assumes "same_graph p q" "subop_addr s = subop_addr t" "provided_ius s = provided_ius t" "source_ius s = source_ius t"
  shows "same_graph (attachSuboperator p s) (attachSuboperator q t)"
proof -
  have edges: "same_graph (foldl (add_edge s) p is) (foldl (add_edge t) q is)" for "is"
    using assms(1,2)
  proof (induction "is" arbitrary: p q)
    case (Cons i "is")
    then have "same_graph (add_edge s p i) (add_edge t q i)"
      by (auto simp: same_graph_def add_edge_def tryGetProvider_def split: option.splits)
    with Cons show ?case by simp
  qed simp
  have ius: "same_graph (foldl (\<lambda>q i. q\<lparr> iu_providers := (iu_providers q)(i \<mapsto> a) \<rparr>) p is) (foldl (\<lambda>q i. q\<lparr> iu_providers := (iu_providers q)(i \<mapsto> a) \<rparr>) q is)"
    if "same_graph p q" for p q a "is"
    using that by (induction "is" arbitrary: p q) (auto simp: same_graph_def)
  show ?thesis using ius [OF edges, of "subop_addr t"] assms by (simp add: attachSuboperator_def Let_def same_graph_def)
qed

lemma graph_ok_attach: "graph_ok p \<Longrightarrow> graph_ok (attachSuboperator p s)"
  unfolding graph_ok_def attach_suboperators pipe_of_snoc by (rule same_graph_attach) auto

lemma graph_ok_attach_all: "graph_ok p \<Longrightarrow> graph_ok (foldl attachSuboperator p ops)"
  by (induction ops arbitrary: p) (auto simp: graph_ok_attach)

lemma graph_ok_new: "graph_ok Pipeline"
  by (simp add: graph_ok_def same_graph_def pipe_of_def Pipeline_def)

lemma same_graph_refl: "same_graph p p" by (simp add: same_graph_def)
lemma same_graph_trans: "same_graph p q \<Longrightarrow> same_graph q r \<Longrightarrow> same_graph p r" by (simp add: same_graph_def)

text \<open>The marks of relaxed operator fusion do not touch the graph.\<close>

definition same_subop :: "subop \<Rightarrow> subop \<Rightarrow> bool" where
  "same_subop s t \<longleftrightarrow> subop_addr s = subop_addr t \<and> kind s = kind t \<and> provided_ius s = provided_ius t \<and> source_ius s = source_ius t"

lemma same_subops_graph: "list_all2 same_subop xs ys \<Longrightarrow> same_graph (pipe_of xs) (pipe_of ys)"
proof (induction ys arbitrary: xs rule: rev_induct)
  case Nil then show ?case by (simp add: same_graph_refl)
next
  case (snoc y ys)
  then obtain xs' x where x: "xs = xs' @ [x]" "list_all2 same_subop xs' ys" "same_subop x y"
    by (auto simp: list_all2_append2 list_all2_Cons2)
  from same_graph_attach [OF snoc.IH [OF x(2)], of x y] x(3) show ?case
    unfolding x(1) pipe_of_snoc by (simp add: same_subop_def)
qed

definition pipe_ok :: "nat \<Rightarrow> nat \<Rightarrow> subop list \<Rightarrow> bool" where
  "pipe_ok lo hi ops \<longleftrightarrow> ops \<noteq> [] \<and> isSource (hd ops) \<and> built ops \<and> strong_ok ops \<and> (\<forall>s\<in>set ops. lo \<le> subop_addr s \<and> subop_addr s < hi)"

lemma pipe_ok_extend:
  assumes "pipe_ok lo a ops" "lo \<le> a" "spec_deps (provs ops) specs" "distinct (spec_outs specs)" "provs ops \<inter> set (spec_outs specs) = {}" "spec_strong specs"
  shows "pipe_ok lo (a + length specs) (ops @ number make_subop a specs)"
proof -
  have "subop_addr ` set (number make_subop a specs) = {a..<a + length specs}"
    by (simp flip: set_map add: number_addrs)
  then have ad: "a \<le> subop_addr s \<and> subop_addr s < a + length specs" if "s \<in> set (number make_subop a specs)" for s using that by auto
  have "distinct (map subop_addr (ops @ number make_subop a specs))"
    using assms(1) by (auto simp: pipe_ok_def built_def number_addrs)
  moreover have "ssa (ops @ number make_subop a specs)"
    using assms by (auto simp: ssa_append number_ssa number_provs pipe_ok_def built_def)
  ultimately show ?thesis
    using assms ad number_strong [OF assms(6)] strong_ok_append
    by (fastforce simp: pipe_ok_def built_def deps_met_append number_deps)
qed

lemma pipe_ok_new:
  assumes "specs = (k, out, []) # rest" "spec_deps {} specs" "distinct (spec_outs specs)" "spec_strong specs"
  shows "pipe_ok a (a + length specs) (number make_subop a specs)"
proof -
  have "subop_addr ` set (number make_subop a specs) = {a..<a + length specs}"
    by (simp flip: set_map add: number_addrs)
  then have "a \<le> subop_addr s \<and> subop_addr s < a + length specs" if "s \<in> set (number make_subop a specs)" for s using that by auto
  moreover have "isSource (hd (number make_subop a specs))" by (simp add: assms(1) isSource_def make_subop_def)
  moreover have "number make_subop a specs \<noteq> []" by (simp add: assms(1))
  ultimately show ?thesis using assms(2-4) number_strong [OF assms(4), of a]
    by (simp add: pipe_ok_def built_def number_addrs number_ssa number_deps)
qed

lemma pipe_ok_same:
  assumes "pipe_ok lo hi xs" "list_all2 same_subop xs ys"
  shows "pipe_ok lo hi ys"
proof -
  have m: "map subop_addr xs = map subop_addr ys" "map provided_ius xs = map provided_ius ys" "map source_ius xs = map source_ius ys" "map kind xs = map kind ys"
    using assms(2) by (induction rule: list_all2_induct) (auto simp: same_subop_def)
  have deps: "deps_met g A xs = deps_met g A ys" for g A
    using assms(2) by (induction arbitrary: A rule: list_all2_induct) (auto simp: same_subop_def)
  have ex: "\<exists>t\<in>set ys. same_subop s t" if "s \<in> set xs" for s
    using that assms(2) by (metis in_set_conv_nth list_all2_conv_all_nth)
  have ex': "\<exists>t\<in>set xs. same_subop t s" if "s \<in> set ys" for s
    using that assms(2) by (metis in_set_conv_nth list_all2_conv_all_nth)
  have "strong_ok ys" unfolding strong_ok_def
  proof (intro ballI impI)
    fix s assume s: "s \<in> set ys" "incomingStrongLinks s"
    obtain t where t: "t \<in> set xs" "same_subop t s" using ex' [OF s(1)] by blast
    then have "incomingStrongLinks t" using s(2) by (simp add: same_subop_def incomingStrongLinks_def)
    with assms(1) t(1) obtain i "is" u where u: "source_ius t = i # is" "u \<in> set xs" "provided_ius u = [i]" "distinct (source_ius u)"
      unfolding pipe_ok_def strong_ok_def by blast
    obtain v where "v \<in> set ys" "same_subop u v" using ex [OF u(2)] by blast
    with u t(2) show "\<exists>i is t. source_ius s = i # is \<and> t \<in> set ys \<and> provided_ius t = [i] \<and> distinct (source_ius t)"
      by (intro exI [of _ i] exI [of _ "is"] exI [of _ v]) (simp add: same_subop_def)
  qed
  moreover have "isSource (hd ys)" "ys \<noteq> []" using assms by (cases xs; cases ys; auto simp: pipe_ok_def isSource_def same_subop_def)+
  moreover have "\<forall>s\<in>set ys. lo \<le> subop_addr s \<and> subop_addr s < hi" using assms(1) ex' by (fastforce simp: pipe_ok_def same_subop_def)
  ultimately show ?thesis using assms(1) by (simp add: pipe_ok_def built_def ssa_def m deps)
qed

end
