(* ===== verification/Plan_Expr.thy ===== *)
theory Plan_Expr
  imports Plan_Invariant
begin

text \<open>
  How the expressions of an \<open>ExpressionOp\<close> decay: \<open>decayNode\<close> attaches one suboperator per compute node, however
  often the node is shared, and every suboperator reads IUs that were provided before it.
\<close>

section \<open>The compute nodes of an expression\<close>

primrec expr_nodes :: "expr_node \<Rightarrow> expr_node list" where
  "expr_nodes (IURefNode child) = []"
| "expr_nodes (ComputeNode ty out children param) = ComputeNode ty out children param # concat (map expr_nodes children)"

primrec expr_refs :: "expr_node \<Rightarrow> iu list" where
  "expr_refs (IURefNode child) = [child]"
| "expr_refs (ComputeNode ty out children param) = concat (map expr_refs children)"

primrec node_ok :: "expr_node \<Rightarrow> bool" where
  "node_ok (IURefNode child) = True"
| "node_ok (ComputeNode ty out children param) = (list_all node_ok children \<and> (param \<noteq> None \<longrightarrow> ty \<noteq> Cast))"

definition compute_nodes :: "expr_node list \<Rightarrow> expr_node list" where
  "compute_nodes out = remdups (concat (map expr_nodes out))"

definition expr_ius :: "expr_node list \<Rightarrow> iu list" where
  "expr_ius out = map node_iu (compute_nodes out)"

lemma child_size: "c \<in> set children \<Longrightarrow> size c < size (ComputeNode ty out children param)"
  by (induction children) auto

section \<open>The state of the traversal\<close>

text \<open>
  \<open>P\<close> are the nodes whose children are being processed: they are marked as built, yet their IU is not
  provided.
\<close>

definition node_inv :: "expr_node set \<Rightarrow> iu set \<Rightarrow> expr_node set \<Rightarrow> (expr_node \<Rightarrow> iu option) \<Rightarrow> bool" where
  "node_inv U A P bm \<longleftrightarrow>
     (\<forall>m. bm m = None \<or> bm m = Some (node_iu m)) \<and>
     (\<forall>m\<in>U. (\<forall>i. m \<noteq> IURefNode i) \<and> (node_iu m \<in> A \<longleftrightarrow> bm m \<noteq> None \<and> m \<notin> P))"

definition node_step :: "expr_node set \<Rightarrow> iu set \<Rightarrow> expr_node set \<Rightarrow> (expr_node \<Rightarrow> iu option) \<Rightarrow> subop_spec list \<Rightarrow> (expr_node \<Rightarrow> iu option) \<Rightarrow> bool" where
  "node_step U A P bm specs bm' \<longleftrightarrow>
     spec_deps A specs \<and> distinct (spec_outs specs) \<and> set (spec_outs specs) \<inter> A = {} \<and> set (spec_outs specs) \<subseteq> node_iu ` U \<and>
     (\<forall>(k, out, src)\<in>set specs. \<not> strong_kind k) \<and> node_inv U (A \<union> set (spec_outs specs)) P bm' \<and> bm \<subseteq>\<^sub>m bm'"

lemma node_step_refl: "node_inv U A P bm \<Longrightarrow> node_step U A P bm [] bm"
  by (simp add: node_step_def)

lemma node_step_trans:
  assumes "node_step U A P b1 xs b2" "node_step U (A \<union> set (spec_outs xs)) P b2 ys b3"
  shows "node_step U A P b1 (xs @ ys) b3"
  using assms unfolding node_step_def by (auto simp: Un_assoc intro: map_le_trans)

lemma attach_all_append: "attach_all (xs @ ys) d = attach_all ys (attach_all xs d)"
  by (simp add: attach_all_def)

lemma attach_all_one: "attach_new spec (attach_all xs d) = attach_all (xs @ [spec]) d"
  by (simp add: attach_all_def)

lemma built_value: "node_inv U A P bm \<Longrightarrow> bm m \<noteq> None \<Longrightarrow> bm m = Some (node_iu m)"
  unfolding node_inv_def by (metis (no_types))

lemma map_le_value: "b \<subseteq>\<^sub>m b' \<Longrightarrow> b m \<noteq> None \<Longrightarrow> b' m \<noteq> None"
  by (metis domIff map_le_implies_dom_le subsetD)

text \<open>A list of nodes, each of which decays as expected.\<close>

definition node_decays :: "expr_node set \<Rightarrow> expr_node \<Rightarrow> iu set \<Rightarrow> expr_node set \<Rightarrow> (expr_node \<Rightarrow> iu option) \<Rightarrow> bool" where
  "node_decays U n A P bm \<longleftrightarrow>
     (\<exists>specs bm'. (\<forall>d. decayNode n (bm, d) = Returns (bm', attach_all specs d)) \<and> node_step U A P bm specs bm' \<and>
        bm' n \<noteq> None)"

lemma decay_nodes:
  assumes "\<And>n A b. n \<in> set ns \<Longrightarrow> node_inv U A P b \<Longrightarrow> set (concat (map expr_refs ns)) \<subseteq> A \<Longrightarrow> node_decays U n A P b"
    and "node_inv U A P bm" "set (concat (map expr_refs ns)) \<subseteq> A"
  shows "\<exists>specs bm'. (\<forall>d. decay_node_list (zip ns (map decayNode ns)) (bm, d) = Returns (map node_iu ns, bm', attach_all specs d)) \<and>
    node_step U A P bm specs bm' \<and> (\<forall>n\<in>set ns. bm' n \<noteq> None)"
proof -
  have "\<exists>specs bm'. (\<forall>d. decay_node_list (zip ms (map decayNode ms)) (b, d) = Returns (map node_iu ms, bm', attach_all specs d)) \<and>
    node_step U B P b specs bm' \<and> (\<forall>n\<in>set ms. bm' n \<noteq> None)"
    if "set ms \<subseteq> set ns" "node_inv U B P b" "set (concat (map expr_refs ns)) \<subseteq> B" for ms B b
    using that
  proof (induction ms arbitrary: B b)
    case Nil
    then show ?case by (intro exI [of _ "[]"] exI [of _ b]) (simp add: node_step_refl attach_all_def)
  next
    case (Cons n ms)
    then have "node_decays U n B P b" using assms(1) [of n B b] by simp
    then obtain xs b1 where n: "\<And>d. decayNode n (b, d) = Returns (b1, attach_all xs d)" "node_step U B P b xs b1" "b1 n \<noteq> None"
      unfolding node_decays_def by blast
    let ?B = "B \<union> set (spec_outs xs)"
    have inv: "node_inv U ?B P b1" using n(2) by (simp add: node_step_def)
    moreover have "set (concat (map expr_refs ns)) \<subseteq> ?B" using Cons.prems(3) by blast
    ultimately obtain ys b2 where ms: "\<And>d. decay_node_list (zip ms (map decayNode ms)) (b1, d) = Returns (map node_iu ms, b2, attach_all ys d)"
        "node_step U ?B P b1 ys b2" "\<forall>n\<in>set ms. b2 n \<noteq> None"
      using Cons.IH [of ?B b1] Cons.prems(1) by auto
    have "b1 \<subseteq>\<^sub>m b2" using ms(2) by (simp add: node_step_def)
    then have "b2 n \<noteq> None" using n(3) by (rule map_le_value)
    moreover have "b1 n = Some (node_iu n)" by (rule built_value [OF inv n(3)])
    ultimately show ?case using n(1) ms(1,3) node_step_trans [OF n(2) ms(2)]
      by (intro exI [of _ "xs @ ys"] exI [of _ b2]) (simp add: attach_all_append)
  qed
  from this [OF order_refl assms(2,3)] show ?thesis .
qed

lemma mem_inv: "node_inv U A P b \<Longrightarrow> m \<in> U \<Longrightarrow> m \<notin> P \<Longrightarrow> b m \<noteq> None \<Longrightarrow> node_iu m \<in> A"
  unfolding node_inv_def by blast

lemma decays_node:
  "node_inv U A P bm \<Longrightarrow> set (expr_nodes n) \<subseteq> U \<Longrightarrow> set (expr_refs n) \<subseteq> A \<Longrightarrow> inj_on node_iu U \<Longrightarrow>
   (\<forall>m\<in>P. size n < size m) \<Longrightarrow> node_ok n \<Longrightarrow> node_decays U n A P bm"
proof (induction n arbitrary: A P bm)
  case (IURefNode i)
  let ?b = "if bm (IURefNode i) \<noteq> None then bm else bm(IURefNode i \<mapsto> i)"
  have dec: "decayNode (IURefNode i) (bm, d) = Returns (?b, attach_all [] d)" for d by (simp add: attach_all_def)
  show ?case
  proof (cases "bm (IURefNode i) = None")
    case True
    have "node_inv U A P ?b" using IURefNode.prems(1) unfolding node_inv_def by auto
    then have "node_step U A P bm [] ?b" using True by (auto simp: node_step_def map_le_def)
    then show ?thesis unfolding node_decays_def using dec True by (intro exI [of _ "[]"] exI [of _ ?b]) simp
  next
    case False
    then show ?thesis unfolding node_decays_def using dec node_step_refl [OF IURefNode.prems(1)]
      by (intro exI [of _ "[]"] exI [of _ bm]) simp
  qed
next
  case (ComputeNode ty out children param)
  let ?n = "ComputeNode ty out children param"
  have nU: "?n \<in> U" and nP: "?n \<notin> P" using ComputeNode.prems(2,5) by auto
  show ?case
  proof (cases "bm ?n = None")
    case False
    then show ?thesis unfolding node_decays_def using node_step_refl [OF ComputeNode.prems(1)]
      by (intro exI [of _ "[]"] exI [of _ bm]) (simp add: attach_all_def)
  next
    case True
    let ?b = "bm(?n \<mapsto> out)" let ?P = "insert ?n P"
    have start: "node_inv U A ?P ?b" using ComputeNode.prems(1) True nP nU unfolding node_inv_def by auto
    have each: "node_decays U c B ?P b" if c: "c \<in> set children" "node_inv U B ?P b" "set (concat (map expr_refs children)) \<subseteq> B" for c B b
    proof (rule ComputeNode.IH [OF c(1,2)])
      show "set (expr_nodes c) \<subseteq> U" using ComputeNode.prems(2) c(1) by auto
      show "set (expr_refs c) \<subseteq> B" using c(1,3) by auto
      show "\<forall>m\<in>?P. size c < size m" using ComputeNode.prems(5) child_size [OF c(1), of ty out param] by fastforce
      show "node_ok c" using ComputeNode.prems(6) c(1) by (auto simp: list_all_iff)
    qed (rule ComputeNode.prems)
    have refs: "set (concat (map expr_refs children)) \<subseteq> A" using ComputeNode.prems(3) by simp
    obtain xs b1 where xs: "\<And>d. decay_node_list (zip children (map decayNode children)) (?b, d) = Returns (map node_iu children, b1, attach_all xs d)"
        "node_step U A ?P ?b xs b1" "\<forall>c\<in>set children. b1 c \<noteq> None"
      using decay_nodes [OF each start refs] by blast
    let ?B = "A \<union> set (spec_outs xs)"
    have inv: "node_inv U ?B ?P b1" using xs(2) by (simp add: node_step_def)
    obtain k where spec: "node_spec ty out (map node_iu children) param = Returns (k, [out], map node_iu children)" "\<not> strong_kind k"
      using ComputeNode.prems(6) by (cases param) (auto simp: node_spec_def strong_kind_def)
    have src: "set (map node_iu children) \<subseteq> ?B"
    proof
      fix i assume "i \<in> set (map node_iu children)"
      then obtain c where c: "c \<in> set children" "i = node_iu c" by auto
      show "i \<in> ?B"
      proof (cases c)
        case (IURefNode j)
        then show ?thesis using c ComputeNode.prems(3) by force
      next
        case (ComputeNode t o' cs p)
        then have "c \<in> U" using c(1) \<open>set (expr_nodes ?n) \<subseteq> U\<close> by force
        moreover have "c \<notin> ?P" using child_size [OF c(1), of ty out param] \<open>\<forall>m\<in>P. size ?n < size m\<close> by fastforce
        ultimately show ?thesis using mem_inv [OF inv] xs(3) c by auto
      qed
    qed
    have new: "out \<notin> ?B" using inv nU unfolding node_inv_def by fastforce
    have "?b \<subseteq>\<^sub>m b1" using xs(2) by (simp add: node_step_def)
    then have bn: "b1 ?n \<noteq> None" by (rule map_le_value) simp
    have "node_inv U (?B \<union> {out}) P b1"
      unfolding node_inv_def
    proof (rule conjI; (rule ballI)?)
      show "\<forall>m. b1 m = None \<or> b1 m = Some (node_iu m)" using inv by (simp add: node_inv_def)
      fix m assume m: "m \<in> U"
      show "(\<forall>i. m \<noteq> IURefNode i) \<and> (node_iu m \<in> ?B \<union> {out} \<longleftrightarrow> b1 m \<noteq> None \<and> m \<notin> P)"
      proof (cases "m = ?n")
        case True then show ?thesis using bn nP by simp
      next
        case False
        then have "node_iu m \<noteq> out" using inj_onD [OF ComputeNode.prems(4) _ m nU] by auto
        then show ?thesis using inv m False unfolding node_inv_def by auto
      qed
    qed
    moreover have "bm \<subseteq>\<^sub>m ?b" using True by (auto simp: map_le_def)
    then have "bm \<subseteq>\<^sub>m b1" using \<open>?b \<subseteq>\<^sub>m b1\<close> by (rule map_le_trans)
    ultimately have "node_step U A P bm (xs @ [(k, [out], map node_iu children)]) b1"
      using xs(2) spec(2) src new nU unfolding node_step_def by (auto simp: image_iff intro!: bexI [of _ ?n])
    then show ?thesis unfolding node_decays_def using True xs(1) spec(1) bn
      by (intro exI [of _ "xs @ [(k, [out], map node_iu children)]"] exI [of _ b1]) (simp add: attach_all_one del: map_map)
  qed
qed

section \<open>All expressions of an operator\<close>

lemma compute_nodes_compute: "n \<in> set (expr_nodes m) \<Longrightarrow> n \<noteq> IURefNode i"
  by (induction m) auto

lemma expr_batch:
  assumes "list_all node_ok out" "set (concat (map expr_refs out)) \<subseteq> A" "distinct (expr_ius out)" "set (expr_ius out) \<inter> A = {}"
  obtains bm specs where
    "\<forall>d. decay_node_list (zip out (map decayNode out)) (Map.empty, d) = Returns (map node_iu out, bm, attach_all specs d)"
    "spec_deps A specs" "distinct (spec_outs specs)" "set (spec_outs specs) \<subseteq> set (expr_ius out)" "spec_strong specs"
    "set (map node_iu out) \<subseteq> A \<union> set (spec_outs specs)"
proof -
  let ?U = "set (compute_nodes out)"
  have inj: "inj_on node_iu ?U" using assms(3) by (simp add: expr_ius_def distinct_map)
  have start: "node_inv ?U A {} Map.empty"
    using assms(4) compute_nodes_compute by (fastforce simp: node_inv_def expr_ius_def compute_nodes_def)
  have each: "node_decays ?U n B {} b" if "n \<in> set out" "node_inv ?U B {} b" "set (concat (map expr_refs out)) \<subseteq> B" for n B b
    using that assms(1) by (intro decays_node [OF that(2) _ _ inj]) (auto simp: compute_nodes_def list_all_iff)
  obtain specs bm where s: "\<forall>d. decay_node_list (zip out (map decayNode out)) (Map.empty, d) = Returns (map node_iu out, bm, attach_all specs d)"
      "node_step ?U A {} Map.empty specs bm" "\<forall>n\<in>set out. bm n \<noteq> None"
    using decay_nodes [OF each start assms(2)] by blast
  have inv: "node_inv ?U (A \<union> set (spec_outs specs)) {} bm" using s(2) by (simp add: node_step_def)
  have roots: "node_iu n \<in> A \<union> set (spec_outs specs)" if n: "n \<in> set out" for n
  proof (cases n)
    case (IURefNode i) then show ?thesis using n assms(2) by force
  next
    case (ComputeNode ty o' cs p)
    then have "n \<in> ?U" using n by (force simp: compute_nodes_def)
    then show ?thesis using mem_inv [OF inv] s(3) n by blast
  qed
  have "spec_strong specs" using s(2) by (intro spec_strong_none) (auto simp: node_step_def)
  with s roots show thesis by (intro that [of bm specs]) (auto simp: node_step_def expr_ius_def)
qed

end
