(* ===== verification/Plan_Grown.thy ===== *)
theory Plan_Grown
  imports Plan_Expr
begin

text \<open>
  The relation between a DAG before and after an operator has decayed into it: finished pipelines were added, then
  one that is still open and provides the operator's columns; the new runtime tasks come in pipeline order.
\<close>

section \<open>Open and finished pipelines\<close>

definition finished :: "pipeline \<Rightarrow> bool" where
  "finished p \<longleftrightarrow> graph_ok p \<and> built (suboperators p) \<and> strong_ok (suboperators p) \<and> suboperators p \<noteq> [] \<and>
     isSource (hd (suboperators p)) \<and> isSink (last (suboperators p))"

definition open_pipe :: "nat \<Rightarrow> nat \<Rightarrow> pipeline \<Rightarrow> iu set \<Rightarrow> iu set \<Rightarrow> bool" where
  "open_pipe lo hi p V T \<longleftrightarrow> graph_ok p \<and> pipe_ok lo hi (suboperators p) \<and> pretty_printer p = None \<and>
     V \<subseteq> provs (suboperators p) \<and> provs (suboperators p) \<subseteq> T \<union> {i. lo \<le> iu_addr i}"

lemma attach_printer [simp]: "pretty_printer (foldl attachSuboperator p ops) = pretty_printer p"
proof -
  have edges: "pretty_printer (foldl (add_edge s) p is) = pretty_printer p" for s p "is"
    by (induction "is" arbitrary: p) (auto simp: add_edge_def split: option.splits)
  have ius: "pretty_printer (foldl (\<lambda>q i. q\<lparr> iu_providers := (iu_providers q)(i \<mapsto> a) \<rparr>) p is) = pretty_printer p" for a p "is"
    by (induction "is" arbitrary: p) auto
  show ?thesis by (induction ops arbitrary: p) (auto simp: attachSuboperator_def Let_def edges ius)
qed

lemma pipe_ok_finished: "graph_ok p \<Longrightarrow> pipe_ok lo hi (suboperators p) \<Longrightarrow> isSink (last (suboperators p)) \<Longrightarrow> finished p"
  by (simp add: finished_def pipe_ok_def)

lemma open_attach:
  assumes "open_pipe lo a p V T" "lo \<le> a" "spec_deps V specs" "distinct (spec_outs specs)" "set (spec_outs specs) \<inter> T = {}"
    and "\<forall>i\<in>set (spec_outs specs). iu_addr i < lo" "spec_strong specs"
  shows "open_pipe lo (a + length specs) (foldl attachSuboperator p (number make_subop a specs)) (V \<union> set (spec_outs specs)) (T \<union> set (spec_outs specs))"
proof -
  have "spec_deps (provs (suboperators p)) specs" using assms(1,3) by (auto simp: open_pipe_def intro: spec_deps_mono)
  moreover have "provs (suboperators p) \<inter> set (spec_outs specs) = {}"
    using assms(1,5,6) unfolding open_pipe_def by (fastforce simp: not_le)
  ultimately have "pipe_ok lo (a + length specs) (suboperators p @ number make_subop a specs)"
    using assms by (intro pipe_ok_extend) (auto simp: open_pipe_def)
  then show ?thesis using assms(1) by (auto simp: open_pipe_def graph_ok_attach_all number_provs)
qed

lemma open_weaken: "open_pipe lo hi p V T \<Longrightarrow> lo' \<le> lo \<Longrightarrow> V' \<subseteq> V \<Longrightarrow> T \<subseteq> T' \<Longrightarrow> open_pipe lo' hi p V' T'"
  unfolding open_pipe_def pipe_ok_def by fastforce

section \<open>Growing a DAG\<close>

definition tasks_in :: "nat \<Rightarrow> nat \<Rightarrow> runtime_task list \<Rightarrow> bool" where
  "tasks_in m n ts \<longleftrightarrow> sorted (map after_pipe ts) \<and> (\<forall>t\<in>set ts. m \<le> after_pipe t \<and> after_pipe t < n)"

lemma tasks_in_append: "tasks_in m k ts \<Longrightarrow> k \<le> n \<Longrightarrow> m \<le> k \<Longrightarrow> tasks_in k n us \<Longrightarrow> tasks_in m n (ts @ us)"
  unfolding tasks_in_def by (fastforce simp: sorted_append)

lemma tasks_in_one: "m \<le> after_pipe t \<Longrightarrow> after_pipe t < n \<Longrightarrow> tasks_in m n [t]"
  by (simp add: tasks_in_def)

definition grown :: "dag \<Rightarrow> dag \<Rightarrow> iu set \<Rightarrow> iu set \<Rightarrow> bool" where
  "grown d d' V T \<longleftrightarrow> (\<exists>ps p ts. pipelines d' = pipelines d @ ps @ [p] \<and> runtime_tasks d' = runtime_tasks d @ ts \<and>
     continuations d' = [] \<and> next_addr d \<le> next_addr d' \<and> list_all finished ps \<and>
     open_pipe (next_addr d) (next_addr d') p V T \<and> tasks_in (length (pipelines d)) (length (pipelines d) + length ps) ts)"

lemma grown_facts:
  assumes "grown d d' V T"
  shows "continuations d' = []" "next_addr d \<le> next_addr d'" "pipelines d' \<noteq> []"
  using assms by (auto simp: grown_def)

lemma grown_state: "grown (snd (attach_state k st d)) d' V T \<longleftrightarrow> grown d d' V T"
  by (simp add: grown_def attach_state_def)

lemma grown_state_after: "grown d (snd (attach_state k st d')) V T \<longleftrightarrow> grown d d' V T"
  by (simp add: grown_def attach_state_def)

lemma grown_weaken: "grown d d' V T \<Longrightarrow> V' \<subseteq> V \<Longrightarrow> T \<subseteq> T' \<Longrightarrow> grown d d' V' T'"
  unfolding grown_def by (blast intro: open_weaken)

lemma attach_all_pipelines:
  "pipelines d \<noteq> [] \<Longrightarrow> pipelines (attach_all specs d) =
     butlast (pipelines d) @ [foldl attachSuboperator (last (pipelines d)) (number make_subop (next_addr d) specs)]"
proof (induction specs rule: rev_induct)
  case (snoc s specs)
  have step: "attach_all (specs @ [s]) d = attach_new s (attach_all specs d)" by (simp add: attach_all_def)
  have "pipelines (attach_new s e) = butlast (pipelines e) @ [attachSuboperator (last (pipelines e)) (make_subop (next_addr e) s)]" for e
    by (simp add: attach_new_def)
  with snoc show ?case unfolding step by simp
qed (simp add: attach_all_def)

lemma grown_attach:
  assumes "grown d d' V T" "spec_deps V specs" "distinct (spec_outs specs)" "set (spec_outs specs) \<inter> T = {}"
    and "\<forall>i\<in>set (spec_outs specs). iu_addr i < next_addr d" "spec_strong specs"
  shows "grown d (attach_all specs d') (V \<union> set (spec_outs specs)) (T \<union> set (spec_outs specs))"
proof -
  from assms(1) obtain ps p ts where g: "pipelines d' = pipelines d @ ps @ [p]" "runtime_tasks d' = runtime_tasks d @ ts"
     "continuations d' = []" "next_addr d \<le> next_addr d'" "list_all finished ps"
     "open_pipe (next_addr d) (next_addr d') p V T" "tasks_in (length (pipelines d)) (length (pipelines d) + length ps) ts"
    unfolding grown_def by blast
  show ?thesis unfolding grown_def
    using g open_attach [OF g(6,4) assms(2-)]
    by (intro exI [of _ ps] exI [of _ "foldl attachSuboperator p (number make_subop (next_addr d') specs)"] exI [of _ ts])
       (simp add: attach_all_pipelines butlast_append)
qed

lemma last_attached:
  assumes "specs \<noteq> []"
  shows "provided_ius (last (suboperators (getCurrentPipeline (attach_all specs d)))) = fst (snd (last specs))"
  using assms by (cases specs rule: rev_cases; cases "last specs") (auto simp: make_subop_def)

lemma grown_new:
  assumes "continuations d = []" "specs = (k, out, []) # rest" "spec_deps {} specs" "distinct (spec_outs specs)" "spec_strong specs"
    and "V \<subseteq> set (spec_outs specs)" "set (spec_outs specs) \<subseteq> T \<union> {i. next_addr d \<le> iu_addr i}"
  shows "grown d (attach_all specs (buildNewPipeline d)) V T"
proof -
  let ?p = "foldl attachSuboperator Pipeline (number make_subop (next_addr d) specs)"
  have new: "pipelines (buildNewPipeline d) = pipelines d @ [Pipeline]" "next_addr (buildNewPipeline d) = next_addr d"
      "runtime_tasks (buildNewPipeline d) = runtime_tasks d" "continuations (buildNewPipeline d) = []"
    using assms(1) by (simp_all add: buildNewPipeline_def)
  have "open_pipe (next_addr d) (next_addr d + length specs) ?p V T"
    using pipe_ok_new [OF assms(2-5)] assms(6,7) graph_ok_attach_all [OF graph_ok_new]
    by (auto simp: open_pipe_def number_provs Pipeline_def)
  then show ?thesis unfolding grown_def
    by (intro exI [of _ "[]"] exI [of _ ?p] exI [of _ "[]"]) (simp add: attach_all_pipelines new tasks_in_def)
qed

text \<open>The current pipeline is finished, a task is registered for it, and what follows is in new pipelines.\<close>

lemma grown_task:
  assumes "grown d d1 V1 T1" "isSink (last (suboperators (getCurrentPipeline d1)))"
    and "grown (addRuntimeTask \<lparr> after_pipe = length (pipelines d1) - 1, task_function = f \<rparr> d1) d2 V T"
  shows "grown d d2 V T"
proof -
  from assms(1) obtain ps p ts where g: "pipelines d1 = pipelines d @ ps @ [p]" "runtime_tasks d1 = runtime_tasks d @ ts"
     "next_addr d \<le> next_addr d1" "list_all finished ps" "graph_ok p" "pipe_ok (next_addr d) (next_addr d1) (suboperators p)"
     "tasks_in (length (pipelines d)) (length (pipelines d) + length ps) ts"
    unfolding grown_def open_pipe_def by blast
  from assms(3) obtain qs q us where h: "pipelines d2 = pipelines d1 @ qs @ [q]"
     "runtime_tasks d2 = runtime_tasks d1 @ \<lparr> after_pipe = length (pipelines d1) - 1, task_function = f \<rparr> # us"
     "continuations d2 = []" "next_addr d1 \<le> next_addr d2" "list_all finished qs"
     "open_pipe (next_addr d1) (next_addr d2) q V T" "tasks_in (length (pipelines d1)) (length (pipelines d1) + length qs) us"
    unfolding grown_def by (auto simp: addRuntimeTask_def)
  have "isSink (last (suboperators p))" using assms(2) g(1) by (simp add: getCurrentPipeline_def)
  then have fin: "finished p" using g(5,6) pipe_ok_finished by blast
  let ?n = "length (pipelines d) + length ps"
  have "tasks_in ?n (Suc ?n + length qs) (\<lparr> after_pipe = ?n, task_function = f \<rparr> # us)"
    using tasks_in_append [OF tasks_in_one [of ?n "\<lparr> after_pipe = ?n, task_function = f \<rparr>" "Suc ?n"], of "Suc ?n + length qs" us] h(7) g(1) by simp
  then have "tasks_in (length (pipelines d)) (Suc ?n + length qs) (ts @ \<lparr> after_pipe = ?n, task_function = f \<rparr> # us)"
    by (intro tasks_in_append [OF g(7)]) auto
  then show ?thesis unfolding grown_def
    using g h fin open_weaken [OF h(6) g(3) order_refl order_refl]
    by (intro exI [of _ "ps @ [p] @ qs"] exI [of _ q] exI [of _ "ts @ \<lparr> after_pipe = ?n, task_function = f \<rparr> # us"]) (simp add: add.assoc)
qed

text \<open>The marks of relaxed operator fusion.\<close>

lemma rof_same: "list_all2 same_subop (suboperators p) (suboperators (ROFScopeGuard_end n p))"
  by (auto simp: ROFScopeGuard_end_def Let_def list_all2_conv_all_nth same_subop_def nth_list_update setROFStrategy_def)

lemma rof_rest:
  "same_graph (ROFScopeGuard_end n p) p" "pretty_printer (ROFScopeGuard_end n p) = pretty_printer p"
  by (auto simp: ROFScopeGuard_end_def Let_def same_graph_def)

lemma same_provs: "list_all2 same_subop xs ys \<Longrightarrow> provs xs = provs ys"
  by (induction rule: list_all2_induct) (auto simp: same_subop_def)

lemma grown_rof:
  assumes "grown d d' V T"
  shows "grown d (on_current (ROFScopeGuard_end n) d') V T"
proof -
  from assms obtain ps p ts where g: "pipelines d' = pipelines d @ ps @ [p]" "runtime_tasks d' = runtime_tasks d @ ts"
     "continuations d' = []" "next_addr d \<le> next_addr d'" "list_all finished ps"
     "open_pipe (next_addr d) (next_addr d') p V T" "tasks_in (length (pipelines d)) (length (pipelines d) + length ps) ts"
    unfolding grown_def by blast
  let ?q = "ROFScopeGuard_end n p"
  have "same_graph ?q (pipe_of (suboperators ?q))"
    using same_graph_trans [OF rof_rest(1)] same_graph_trans [OF _ same_subops_graph [OF rof_same]] g(6)
    unfolding open_pipe_def graph_ok_def by blast
  then have "open_pipe (next_addr d) (next_addr d') ?q V T"
    using g(6) pipe_ok_same [OF _ rof_same] same_provs [OF rof_same, of p n] by (simp add: open_pipe_def graph_ok_def rof_rest(2))
  with g show ?thesis unfolding grown_def
    by (intro exI [of _ ps] exI [of _ ?q] exI [of _ ts]) (simp add: butlast_append)
qed

end
