(* ===== verification/Compilation_Graph.thy ===== *)
theory Compilation_Graph
  imports Compilation Subop_Code_Props Plan_Grown
begin

text \<open>
  When a pipeline can be compiled (\<open>compilable\<close>), and what its graph then says about the requests of a compilation: who provides an IU,
  whom a suboperator asks, and on whose behalf.
\<close>

section \<open>Compilable pipelines\<close>

definition provider :: "pipeline \<Rightarrow> iu \<Rightarrow> subop" where
  "provider p i = the (find (\<lambda>t. i \<in> set (provided_ius t)) (suboperators p))"

definition is_logic :: "subop \<Rightarrow> bool" where
  "is_logic s = (case kind s of ColumnFilterLogic t self \<Rightarrow> True | _ \<Rightarrow> False)"

definition scope_deps :: "subop \<Rightarrow> (nat \<times> iu) list" where
  "scope_deps s = (case kind s of ColumnFilterScope deps \<Rightarrow> deps | _ \<Rightarrow> [])"

text \<open>
  Every filter logic is a dependency of one scope, the one that provides its first input; what it filters is provided before the scope.
\<close>

definition scope_ok :: "pipeline \<Rightarrow> subop \<Rightarrow> bool" where
  "scope_ok p s \<longleftrightarrow> \<not> lacks_dependencies s \<and> list_all (\<lambda>(a, i). position_of p (provider p i) < position_of p s \<and>
     list_ex (\<lambda>l. subop_addr l = a \<and> is_logic l \<and> source_ius l ! 0 \<in> set (provided_ius s)) (suboperators p)) (scope_deps s)"

definition filters_ok :: "pipeline \<Rightarrow> bool" where
  "filters_ok p \<longleftrightarrow> list_all (scope_ok p) (suboperators p) \<and>
     mset (concat (map scope_deps (suboperators p))) = mset (map (\<lambda>l. (subop_addr l, source_ius l ! 1)) (filter is_logic (suboperators p)))"

definition reads_ok :: "pipeline \<Rightarrow> bool" where
  "reads_ok p \<longleftrightarrow> list_all (\<lambda>s. list_all (\<lambda>i. i \<in> set (declares (provider p i))) (reads_ius s)) (suboperators p)"

definition compilable :: "pipeline \<Rightarrow> bool" where
  "compilable p \<longleftrightarrow> graph_ok p \<and> built (suboperators p) \<and> list_all code_ok (suboperators p) \<and> filters_ok p \<and> reads_ok p"

section \<open>Providers\<close>

lemma takeWhile_position:
  "distinct (map subop_addr (pre @ s # post)) \<Longrightarrow> length (takeWhile (\<lambda>t. subop_addr t \<noteq> subop_addr s) (pre @ s # post)) = length pre"
  by (induction pre) auto

lemma position_split: "compilable p \<Longrightarrow> suboperators p = pre @ s # post \<Longrightarrow> position_of p s = length pre"
  unfolding position_of_def using takeWhile_position [of pre s post] by (simp add: compilable_def built_def)

lemma position_inj:
  assumes "compilable p" "s \<in> set (suboperators p)" "t \<in> set (suboperators p)" "position_of p s = position_of p t"
  shows "s = t"
proof -
  obtain pre post where "suboperators p = pre @ s # post" using split_list [OF assms(2)] by blast
  moreover obtain pre' post' where "suboperators p = pre' @ t # post'" using split_list [OF assms(3)] by blast
  ultimately show ?thesis using position_split [OF assms(1)] assms(4) by (metis append_eq_append_conv list.inject)
qed

lemma addr_inj: "compilable p \<Longrightarrow> s \<in> set (suboperators p) \<Longrightarrow> t \<in> set (suboperators p) \<Longrightarrow> subop_addr s = subop_addr t \<Longrightarrow> s = t"
  by (auto simp: compilable_def built_def distinct_map inj_on_def)

lemma subop_at_addr: "compilable p \<Longrightarrow> s \<in> set (suboperators p) \<Longrightarrow> subop_at p (subop_addr s) = Returns s"
  by (simp add: subop_at_def find_by_addr compilable_def built_def)

lemma provider_eq: "compilable p \<Longrightarrow> t \<in> set (suboperators p) \<Longrightarrow> i \<in> set (provided_ius t) \<Longrightarrow> provider p i = t"
proof -
  assume a: "compilable p" "t \<in> set (suboperators p)" "i \<in> set (provided_ius t)"
  have "find (\<lambda>t. i \<in> set (provided_ius t)) (suboperators p) \<noteq> None" using a(2,3) by (auto simp: find_None_iff)
  then obtain u where u: "find (\<lambda>t. i \<in> set (provided_ius t)) (suboperators p) = Some u" by auto
  then have "u \<in> set (suboperators p)" "i \<in> set (provided_ius u)" by (auto simp: find_Some_iff)
  with ssa_provider_unique [of "suboperators p" u t i] a u show ?thesis by (simp add: provider_def compilable_def built_def)
qed

lemma source_provider:
  assumes "compilable p" "s \<in> set (suboperators p)" "i \<in> set (source_ius s)"
  shows "provider p i \<in> set (suboperators p)" "i \<in> set (provided_ius (provider p i))" "position_of p (provider p i) < position_of p s"
    "getProducers p s = Returns (map (\<lambda>i. subop_addr (provider p i)) (source_ius s))"
proof -
  obtain pre post where ops: "suboperators p = pre @ s # post" using split_list [OF assms(2)] by blast
  have b: "built (pre @ s # post)" using assms(1) ops by (simp add: compilable_def)
  have "getProducers p s = getProducers (pipe_of (suboperators p)) s" using assms(1)
    by (simp add: compilable_def graph_ok_def same_graph_def getProducers_def)
  also have "\<dots> = Returns (map (\<lambda>i. the (last_provider pre i)) (source_ius s))"
    using graph_is_dataflow [OF b] assms(3) ops by force
  finally have g: "getProducers p s = Returns (map (\<lambda>i. the (last_provider pre i)) (source_ius s))" .
  have q: "provider p j \<in> set pre \<and> j \<in> set (provided_ius (provider p j)) \<and> the (last_provider pre j) = subop_addr (provider p j)"
    if j: "j \<in> set (source_ius s)" for j
  proof -
    obtain t where t: "t \<in> set pre" "j \<in> set (provided_ius t)" "last_provider pre j = Some (subop_addr t)" using graph_is_dataflow [OF b] j by blast
    then have "provider p j = t" using ops by (intro provider_eq [OF assms(1)]) simp_all
    then show ?thesis using t by simp
  qed
  show "provider p i \<in> set (suboperators p)" "i \<in> set (provided_ius (provider p i))" using q [OF assms(3)] ops by simp_all
  obtain xs ys where pre: "pre = xs @ provider p i # ys" using q [OF assms(3)] by (meson split_list)
  show "position_of p (provider p i) < position_of p s"
    using position_split [OF assms(1), of pre s post] position_split [OF assms(1), of xs "provider p i" "ys @ s # post"] ops pre by simp
  show "getProducers p s = Returns (map (\<lambda>i. subop_addr (provider p i)) (source_ius s))" using g q by simp
qed

lemma incoming_providers:
  assumes "compilable p" "s \<in> set (suboperators p)" "i \<in> set (source_ius s)"
  shows "incoming_edges p (subop_addr s) = Some (map (\<lambda>i. subop_addr (provider p i)) (source_ius s))"
  using source_provider(4) [OF assms] by (simp add: getProducers_def at_map_def split: option.splits)

lemma producer_of_provider:
  assumes "compilable p" "s \<in> set (suboperators p)" "i \<in> set (source_ius s)"
  shows "producer_of p s i = Returns (provider p i)"
proof -
  have m: "map_outcome (subop_at p) (map (\<lambda>i. subop_addr (provider p i)) is) = Returns (map (provider p) is)" if "set is \<subseteq> set (source_ius s)" for "is"
    using that by (induction "is") (auto simp: subop_at_addr [OF assms(1)] source_provider(1) [OF assms(1,2)])
  have "find (\<lambda>t. i \<in> set (provided_ius t)) (map (provider p) is) = Some (provider p i)" if "set is \<subseteq> set (source_ius s)" "i \<in> set is" for "is"
    using that
  proof (induction "is")
    case (Cons j "is")
    show ?case
    proof (cases "i \<in> set (provided_ius (provider p j))")
      case True
      then have "provider p i = provider p j" using Cons.prems source_provider(1) [OF assms(1,2)] by (intro provider_eq [OF assms(1)]) auto
      then show ?thesis using True by simp
    next
      case False
      then have "i \<noteq> j" using Cons.prems source_provider(2) [OF assms(1,2)] by auto
      then show ?thesis using Cons False by simp
    qed
  qed simp
  then show ?thesis using assms(3) m [OF order_refl] by (simp add: producer_of_def source_provider(4) [OF assms])
qed

text \<open>A suboperator whose IUs are asked for has a consumer.\<close>

lemma provider_has_consumer:
  assumes "compilable p" "s \<in> set (suboperators p)" "i \<in> set (source_ius s)"
  shows "outgoing_edges p (subop_addr (provider p i)) \<noteq> None" "\<not> isSink (provider p i)"
proof -
  have "distinct (map subop_addr (suboperators p))" using assms(1) by (simp add: compilable_def built_def)
  note c = consumers_converse [OF this, of "subop_addr s" "subop_addr (provider p i)"]
  have "subop_addr (provider p i) \<in> set (edge_list (incoming_edges p) (subop_addr s))"
    using assms(3) by (simp add: edge_list_def incoming_providers [OF assms])
  then have "subop_addr s \<in> set (edge_list (outgoing_edges p) (subop_addr (provider p i)))"
    using c assms(1) by (simp add: compilable_def graph_ok_def same_graph_def)
  then show "outgoing_edges p (subop_addr (provider p i)) \<noteq> None" by (metis edge_list_def empty_iff list.set(1) option.simps(4))
  show "\<not> isSink (provider p i)" using source_provider(2) [OF assms] by (auto simp: isSink_def)
qed

lemma no_incoming: "b \<notin> subop_addr ` set ops \<Longrightarrow> edge_list (incoming_edges (pipe_of ops)) b = []"
  by (induction ops rule: rev_induct) (auto simp: pipe_of_empty_edges pipe_of_incoming_snoc)

lemma consumer_exists:
  assumes "compilable p" "t \<in> set (suboperators p)" "outgoing_edges p (subop_addr t) \<noteq> None"
  shows "\<exists>s\<in>set (suboperators p). \<exists>i\<in>set (source_ius s). provider p i = t"
proof -
  have g: "outgoing_edges p = outgoing_edges (pipe_of (suboperators p))" "incoming_edges p = incoming_edges (pipe_of (suboperators p))"
    "distinct (map subop_addr (suboperators p))" using assms(1) by (simp_all add: compilable_def graph_ok_def same_graph_def built_def)
  obtain xs where xs: "outgoing_edges p (subop_addr t) = Some xs" using assms(3) by blast
  moreover have "xs \<noteq> []" using pipe_of_never_empty xs by (auto simp: g never_empty_def)
  ultimately obtain b where b: "b \<in> set (edge_list (outgoing_edges p) (subop_addr t))" by (cases xs) (auto simp: edge_list_def)
  then have i: "subop_addr t \<in> set (edge_list (incoming_edges p) b)" using consumers_converse [OF g(3), of b "subop_addr t"] by (simp add: g)
  then have "b \<in> subop_addr ` set (suboperators p)" using no_incoming [of b "suboperators p"] by (force simp: g)
  then obtain s where s: "s \<in> set (suboperators p)" "b = subop_addr s" by auto
  have "source_ius s \<noteq> []"
  proof
    assume n: "source_ius s = []"
    obtain pre post where "suboperators p = pre @ s # post" using split_list [OF s(1)] by blast
    then have "edge_list (incoming_edges p) b = []" using built_incoming [of pre s post] assms(1) n s(2) by (simp add: g compilable_def)
    then show False using i by simp
  qed
  then obtain j where "j \<in> set (source_ius s)" by (cases "source_ius s") auto
  then have "subop_addr t \<in> (\<lambda>i. subop_addr (provider p i)) ` set (source_ius s)"
    using i incoming_providers [OF assms(1) s(1)] by (simp add: edge_list_def s(2))
  then obtain k where "k \<in> set (source_ius s)" "subop_addr (provider p k) = subop_addr t" by auto
  moreover from this have "provider p k = t" using source_provider(1) [OF assms(1) s(1)] assms(2) by (intro addr_inj [OF assms(1)]) auto
  ultimately show ?thesis using s(1) by blast
qed

section \<open>Requests\<close>

text \<open>The suboperators that opening \<open>s\<close> asks, and those on whose behalf it does.\<close>

definition asks :: "pipeline \<Rightarrow> subop \<Rightarrow> nat list" where
  "asks p s = map (\<lambda>(a, i). subop_addr (provider p i)) (open_requests s)"

definition serves :: "subop \<Rightarrow> nat list" where
  "serves s = map fst (open_requests s)"

lemma code_ok_at: "compilable p \<Longrightarrow> s \<in> set (suboperators p) \<Longrightarrow> code_ok s"
  by (simp add: compilable_def list_all_iff)

lemma scope_ok_at: "compilable p \<Longrightarrow> s \<in> set (suboperators p) \<Longrightarrow> scope_ok p s"
  by (simp add: compilable_def filters_ok_def list_all_iff)

lemma source_iff: "code_ok s \<Longrightarrow> generates_in_open s \<longleftrightarrow> source_ius s = []"
  by (cases "kind s") (auto simp: code_ok_def generates_in_open_def split: if_splits)

lemma source_provides: "code_ok s \<Longrightarrow> generates_in_open s \<Longrightarrow> \<not> isSink s"
  by (cases "kind s") (auto simp: code_ok_def generates_in_open_def isSink_def)

lemma consume_one: "code_ok s \<Longrightarrow> generates_in_consume s \<Longrightarrow> \<exists>i. source_ius s = [i] \<and> open_requests s = [(subop_addr s, i)]"
  by (cases "kind s") (auto simp: code_ok_def generates_in_consume_def open_requests_def length_Suc_conv)

lemma logic_kind: "is_logic s \<Longrightarrow> code_ok s \<Longrightarrow> \<exists>i j. source_ius s = [i, j] \<and> open_requests s = [(subop_addr s, i)] \<and>
    \<not> generates_in_open s \<and> \<not> generates_in_consume s \<and> scope_deps s = [] \<and> \<not> lacks_dependencies s"
  by (cases "kind s") (auto simp: is_logic_def code_ok_def open_requests_def generates_in_open_def generates_in_consume_def scope_deps_def
      lacks_dependencies_def length_Suc_conv numeral_2_eq_2)

lemma open_requests_eq: "\<not> is_logic s \<Longrightarrow> open_requests s = scope_deps s @ map (Pair (subop_addr s)) (source_ius s)"
  by (cases "kind s") (auto simp: is_logic_def open_requests_def scope_deps_def)

lemma scope_kind: "scope_deps s \<noteq> [] \<Longrightarrow> code_ok s \<Longrightarrow> \<exists>i. source_ius s = [i] \<and> \<not> is_logic s \<and> \<not> generates_in_open s \<and> \<not> generates_in_consume s"
  by (cases "kind s") (auto simp: is_logic_def code_ok_def generates_in_open_def generates_in_consume_def scope_deps_def length_Suc_conv)

text \<open>The scope that a filter logic belongs to.\<close>

lemma dep_logic:
  assumes "compilable p" "s \<in> set (suboperators p)" "(a, i) \<in> set (scope_deps s)"
  shows "\<exists>l\<in>set (suboperators p). a = subop_addr l \<and> is_logic l \<and> i = source_ius l ! 1 \<and> provider p (source_ius l ! 0) = s \<and>
    position_of p (provider p i) < position_of p s"
proof -
  have "(a, i) \<in># mset (concat (map scope_deps (suboperators p)))" using assms(2,3) by auto
  then have "(a, i) \<in># mset (map (\<lambda>l. (subop_addr l, source_ius l ! 1)) (filter is_logic (suboperators p)))"
    using assms(1) by (simp only: compilable_def filters_ok_def)
  then obtain l where l: "l \<in> set (suboperators p)" "is_logic l" "a = subop_addr l" "i = source_ius l ! 1" by auto
  obtain l' where l': "l' \<in> set (suboperators p)" "subop_addr l' = a" "source_ius l' ! 0 \<in> set (provided_ius s)"
      "position_of p (provider p i) < position_of p s"
    using scope_ok_at [OF assms(1,2)] assms(3) by (fastforce simp: scope_ok_def list_all_iff list_ex_iff)
  have "l' = l" using addr_inj [OF assms(1) l'(1) l(1)] l l' by simp
  then show ?thesis using l l' provider_eq [OF assms(1,2) l'(3)] by blast
qed

lemma logic_dep:
  assumes "compilable p" "l \<in> set (suboperators p)" "is_logic l"
  shows "(subop_addr l, source_ius l ! 1) \<in> set (scope_deps (provider p (source_ius l ! 0)))"
proof -
  have "(subop_addr l, source_ius l ! 1) \<in># mset (map (\<lambda>l. (subop_addr l, source_ius l ! 1)) (filter is_logic (suboperators p)))"
    using assms(2,3) by auto
  then have "(subop_addr l, source_ius l ! 1) \<in># mset (concat (map scope_deps (suboperators p)))"
    using assms(1) by (simp only: compilable_def filters_ok_def)
  then obtain s where s: "s \<in> set (suboperators p)" "(subop_addr l, source_ius l ! 1) \<in> set (scope_deps s)" by auto
  obtain l' where l': "l' \<in> set (suboperators p)" "subop_addr l = subop_addr l'" "provider p (source_ius l' ! 0) = s" using dep_logic [OF assms(1) s] by blast
  then have "l' = l" using addr_inj [OF assms(1) l'(1) assms(2)] by simp
  then show ?thesis using l' s by blast
qed

lemma distinct_deps: "compilable p \<Longrightarrow> distinct (map fst (concat (map scope_deps (suboperators p))))"
proof -
  assume a: "compilable p"
  have "mset (map fst (concat (map scope_deps (suboperators p)))) = image_mset fst (mset (concat (map scope_deps (suboperators p))))" by simp
  also have "\<dots> = image_mset fst (mset (map (\<lambda>l. (subop_addr l, source_ius l ! 1)) (filter is_logic (suboperators p))))"
    using a by (simp only: compilable_def filters_ok_def)
  also have "\<dots> = mset (map subop_addr (filter is_logic (suboperators p)))" by (simp add: multiset.map_comp comp_def)
  finally have "mset (map fst (concat (map scope_deps (suboperators p)))) = mset (map subop_addr (filter is_logic (suboperators p)))" .
  moreover have "distinct (map subop_addr (filter is_logic (suboperators p)))" using a by (simp add: compilable_def built_def distinct_map_filter)
  ultimately show ?thesis by (metis mset_eq_imp_distinct_iff)
qed

lemma request_facts:
  assumes "compilable p" "s \<in> set (suboperators p)" "(a, i) \<in> set (open_requests s)"
  shows "\<exists>q\<in>set (suboperators p). a = subop_addr q \<and> i \<in> set (source_ius q) \<and> position_of p (provider p i) < position_of p s \<and>
    (q = s \<or> is_logic q \<and> provider p (source_ius q ! 0) = s)"
proof (cases "is_logic s")
  case True
  then obtain j k where "source_ius s = [j, k]" "open_requests s = [(subop_addr s, j)]" using logic_kind code_ok_at [OF assms(1,2)] by blast
  then show ?thesis using assms source_provider(3) [OF assms(1,2)] by auto
next
  case False
  then consider "(a, i) \<in> set (scope_deps s)" | "a = subop_addr s" "i \<in> set (source_ius s)" using assms(3) by (auto simp: open_requests_eq)
  then show ?thesis
  proof cases
    case 1
    then obtain l where l: "l \<in> set (suboperators p)" "a = subop_addr l" "is_logic l" "i = source_ius l ! 1" "provider p (source_ius l ! 0) = s"
        "position_of p (provider p i) < position_of p s" using dep_logic [OF assms(1,2)] by blast
    obtain j k where "source_ius l = [j, k]" using logic_kind [OF l(3) code_ok_at [OF assms(1) l(1)]] by blast
    then show ?thesis using l by (intro bexI [of _ l]) auto
  next
    case 2
    then show ?thesis using assms(2) source_provider(3) [OF assms(1,2)] by auto
  qed
qed

section \<open>Counting requests\<close>

definition serves_of :: "subop list \<Rightarrow> nat multiset" where
  "serves_of os = mset (concat (map serves os))"

definition asks_of :: "pipeline \<Rightarrow> subop list \<Rightarrow> nat multiset" where
  "asks_of p os = mset (concat (map (asks p) os))"

lemma of_simps [simp]: "serves_of [] = {#}" "serves_of (s # os) = mset (serves s) + serves_of os" "serves_of (xs @ ys) = serves_of xs + serves_of ys"
  "asks_of p [] = {#}" "asks_of p (s # os) = mset (asks p s) + asks_of p os" "asks_of p (xs @ ys) = asks_of p xs + asks_of p ys"
  by (simp_all add: serves_of_def asks_of_def)

lemma serves_eq: "\<not> is_logic s \<Longrightarrow> mset (serves s) = mset (map fst (scope_deps s)) + mset (replicate (length (source_ius s)) (subop_addr s))"
  by (simp add: serves_def open_requests_eq comp_def map_replicate_const)

text \<open>Only a suboperator itself is served by its own requests, but for a filter logic, which its scope serves once.\<close>

lemma unserved:
  assumes "compilable p" "t \<in> set (suboperators p)" "\<not> is_logic t" "set os \<subseteq> set (suboperators p)" "t \<notin> set os"
  shows "count (serves_of os) (subop_addr t) = 0"
  using assms(4,5)
proof (induction os)
  case (Cons s os)
  have "subop_addr t \<notin> set (serves s)"
  proof
    assume "subop_addr t \<in> set (serves s)"
    then obtain i where "(subop_addr t, i) \<in> set (open_requests s)" by (auto simp: serves_def)
    then obtain q where "q \<in> set (suboperators p)" "subop_addr t = subop_addr q" "q = s \<or> is_logic q"
      using request_facts [OF assms(1)] Cons.prems by (metis list.set_intros(1) subset_code(1))
    then show False using addr_inj [OF assms(1,2)] Cons.prems assms(3) by auto
  qed
  then show ?case using Cons by (simp add: count_eq_zero_iff)
qed simp

lemma served_by_scope:
  assumes "compilable p" "t \<in> set (suboperators p)" "is_logic t" "set os \<subseteq> set (suboperators p)" "t \<notin> set os" "distinct os"
  shows "count (serves_of os) (subop_addr t) = (if provider p (source_ius t ! 0) \<in> set os then 1 else 0)"
  using assms(4,5,6)
proof (induction os)
  case (Cons s os)
  let ?S = "provider p (source_ius t ! 0)"
  have c: "compilable p" by fact
  have s: "s \<in> set (suboperators p)" "s \<noteq> t" "s \<notin> set os" using Cons.prems by auto
  have one: "count (mset (serves s)) (subop_addr t) = (if s = ?S then 1 else 0)"
  proof (cases "is_logic s")
    case True
    then obtain i j where "source_ius s = [i, j]" "open_requests s = [(subop_addr s, i)]" "scope_deps s = []" using logic_kind code_ok_at [OF c s(1)] by blast
    moreover have "s \<noteq> ?S" using logic_dep [OF c assms(2,3)] calculation(3) by auto
    ultimately show ?thesis using addr_inj [OF c s(1) assms(2)] s(2) by (auto simp: serves_def)
  next
    case False
    have own: "subop_addr t \<noteq> subop_addr s" using addr_inj [OF c s(1) assms(2)] s(2) by auto
    have d: "subop_addr t \<in> fst ` set (scope_deps s) \<longleftrightarrow> s = ?S"
    proof
      assume "subop_addr t \<in> fst ` set (scope_deps s)"
      then obtain i where "(subop_addr t, i) \<in> set (scope_deps s)" by auto
      then obtain l where "l \<in> set (suboperators p)" "subop_addr t = subop_addr l" "provider p (source_ius l ! 0) = s"
        using dep_logic [OF c s(1)] by blast
      then show "s = ?S" using addr_inj [OF c assms(2)] by auto
    next
      assume "s = ?S" then show "subop_addr t \<in> fst ` set (scope_deps s)" using logic_dep [OF c assms(2,3)] by force
    qed
    have "distinct (map fst (scope_deps s))"
      using distinct_deps [OF c] s(1) by (metis (no_types, lifting) distinct_append distinct_concat_iff in_set_conv_decomp list.simps(9) map_append map_concat concat.simps concat_append)
    then have "count (mset (map fst (scope_deps s))) (subop_addr t) = (if s = ?S then 1 else 0)"
      using d by (simp add: distinct_count_atmost_1)
    then show ?thesis using own serves_eq [OF False] by (simp add: count_eq_zero_iff)
  qed
  then show ?case using Cons s by auto
qed simp

text \<open>All requests together are the edges of the graph.\<close>

lemma mset_concat_perm: "mset xs = mset ys \<Longrightarrow> mset (concat (map f xs)) = mset (concat (map f ys))"
  by (simp add: mset_concat comp_def flip: sum_mset_sum_list)

definition producers :: "pipeline \<Rightarrow> subop \<Rightarrow> nat list" where
  "producers p s = map (\<lambda>i. subop_addr (provider p i)) (source_ius s)"

lemma asks_all:
  assumes "compilable p" "mset os = mset (suboperators p)"
  shows "asks_of p os = mset (concat (map (producers p) os))"
proof -
  let ?ops = "suboperators p"
  let ?f = "\<lambda>(a :: nat, i). subop_addr (provider p i)"
  have split: "mset (concat (map (asks p) xs)) + image_mset ?f (mset (map (\<lambda>l. (subop_addr l, source_ius l ! 1)) (filter is_logic xs))) =
      mset (concat (map (producers p) xs)) + image_mset ?f (mset (concat (map scope_deps xs)))" if "set xs \<subseteq> set ?ops" for xs
    using that
  proof (induction xs)
    case (Cons s xs)
    show ?case
    proof (cases "is_logic s")
      case True
      then obtain i j where "source_ius s = [i, j]" "open_requests s = [(subop_addr s, i)]" "scope_deps s = []"
        using logic_kind code_ok_at [OF assms(1)] Cons.prems by (metis list.set_intros(1) subset_code(1))
      then show ?thesis using Cons True by (simp add: asks_def producers_def)
    next
      case False
      then have "mset (asks p s) = image_mset ?f (mset (scope_deps s)) + mset (producers p s)"
        by (simp add: asks_def producers_def open_requests_eq comp_def)
      then show ?thesis using Cons False by simp
    qed
  qed simp
  have "mset (concat (map (asks p) ?ops)) = mset (concat (map (producers p) ?ops))"
    using split [of ?ops] assms(1) by (simp add: compilable_def filters_ok_def)
  then show ?thesis using mset_concat_perm [OF assms(2), of "asks p"] mset_concat_perm [OF assms(2), of "producers p"]
    unfolding asks_of_def by argo
qed

end
