(* ===== verification/Compilation_Open.thy ===== *)
theory Compilation_Open
  imports Compilation_Graph
begin

text \<open>
  The opening phase of a compilation: on a compilable pipeline the mutually recursive calls return, and they generate the code of every
  suboperator that is reached once, after the code of its inputs.
\<close>

section \<open>Calls with enough fuel\<close>

definition wp :: "pipeline \<Rightarrow> bool \<Rightarrow> (subop \<Rightarrow> ir_value option) \<Rightarrow> call \<Rightarrow> compilation \<Rightarrow> (compilation \<Rightarrow> bool) \<Rightarrow> bool" where
  "wp p il tp x c Q \<longleftrightarrow> (\<exists>N r. (\<forall>n\<ge>N. run_call n p il tp x c = Returns r) \<and> Q r)"

lemma wp_mono: "wp p il tp x c Q \<Longrightarrow> (\<And>r. Q r \<Longrightarrow> Q' r) \<Longrightarrow> wp p il tp x c Q'"
  by (auto simp: wp_def)

lemma wp_step:
  assumes "\<exists>N r. (\<forall>n\<ge>N. run_call (Suc n) p il tp x c = Returns r) \<and> Q r"
  shows "wp p il tp x c Q"
proof -
  obtain N r where N: "\<forall>n\<ge>N. run_call (Suc n) p il tp x c = Returns r" "Q r" using assms by blast
  have "run_call n p il tp x c = Returns r" if "Suc N \<le> n" for n using N(1) that by (cases n) (auto simp del: run_call.simps)
  then show ?thesis using N(2) unfolding wp_def by blast
qed

definition wp_each :: "pipeline \<Rightarrow> bool \<Rightarrow> (subop \<Rightarrow> ir_value option) \<Rightarrow> (nat \<times> iu) list \<Rightarrow> compilation \<Rightarrow> (compilation \<Rightarrow> bool) \<Rightarrow> bool" where
  "wp_each p il tp rs c Q \<longleftrightarrow> (\<exists>N r. (\<forall>n\<ge>N. each_outcome (request_for p (run_call n p il tp)) rs c = Returns r) \<and> Q r)"

lemma wp_each_Nil: "Q c \<Longrightarrow> wp_each p il tp [] c Q"
  by (auto simp: wp_each_def)

lemma wp_each_Cons:
  assumes "subop_at p a = Returns q" "wp p il tp (RequestIU q i) c (\<lambda>c'. wp_each p il tp rs c' Q)"
  shows "wp_each p il tp ((a, i) # rs) c Q"
proof -
  obtain N c' where N: "\<forall>n\<ge>N. run_call n p il tp (RequestIU q i) c = Returns c'" "wp_each p il tp rs c' Q" using assms(2) by (auto simp: wp_def)
  then obtain M r where M: "\<forall>n\<ge>M. each_outcome (request_for p (run_call n p il tp)) rs c' = Returns r" "Q r" by (auto simp: wp_each_def)
  have "\<forall>n\<ge>max N M. each_outcome (request_for p (run_call n p il tp)) ((a, i) # rs) c = Returns r"
    using N(1) M(1) assms(1) by (simp add: request_for_def)
  then show ?thesis using M(2) unfolding wp_each_def by blast
qed

lemma wp_open_source: "generates_in_open s \<Longrightarrow> wp p il tp (Produce s) c Q \<Longrightarrow> wp p il tp (Open s) c Q"
  by (rule wp_step) (auto simp: open_op_def wp_def)

lemma wp_open: "\<not> generates_in_open s \<Longrightarrow> \<not> lacks_dependencies s \<Longrightarrow> wp_each p il tp (open_requests s) c Q \<Longrightarrow> wp p il tp (Open s) c Q"
  by (rule wp_step) (auto simp: open_op_def wp_each_def)

lemma wp_request:
  "producer_of p s i = Returns t \<Longrightarrow>
   wp p il tp (if subop_addr t \<notin> set (computed c) then Open t else NotifyIUsReady t) (request_made (subop_addr t) (subop_addr s) i c) Q \<Longrightarrow>
   wp p il tp (RequestIU s i) c Q"
  by (rule wp_step) (auto simp: requestIU_def wp_def Let_def request_made_def)

text \<open>Serving a request: \<open>consume\<close>, and \<open>consumeAllChildren\<close> if it was the last one.\<close>

definition wp_serve :: "pipeline \<Rightarrow> bool \<Rightarrow> (subop \<Rightarrow> ir_value option) \<Rightarrow> subop \<Rightarrow> iu \<Rightarrow> compilation \<Rightarrow> (compilation \<Rightarrow> bool) \<Rightarrow> bool" where
  "wp_serve p il tp q i c Q \<longleftrightarrow> wp p il tp (Consume q i) c (\<lambda>c2. let c3 = count_serviced (subop_addr q) c2 in
     if serviced_requests c3 (subop_addr q) = length (source_ius q) then wp p il tp (ConsumeAllChildren q) c3 Q else Q c3)"

lemma wp_notify:
  assumes "subop_addr s \<notin> set (producing_no_request c)" "requests c (subop_addr s) = Some (subop_addr q, i)" "subop_at p (subop_addr q) = Returns q"
    and "wp_serve p il tp q i (erase_request (subop_addr s) (mark_computed (subop_addr s) c)) Q"
  shows "wp p il tp (NotifyIUsReady s) c Q"
proof (rule wp_step)
  let ?c1 = "erase_request (subop_addr s) (mark_computed (subop_addr s) c)" and ?q = "subop_addr q"
  obtain N c2 where N: "\<forall>n\<ge>N. run_call n p il tp (Consume q i) ?c1 = Returns c2"
      "let c3 = count_serviced ?q c2 in if serviced_requests c3 ?q = length (source_ius q) then wp p il tp (ConsumeAllChildren q) c3 Q else Q c3"
    using assms(4) by (auto simp: wp_serve_def wp_def [of _ _ _ "Consume q i"])
  have e: "run_call (Suc n) p il tp (NotifyIUsReady s) c =
      (let c3 = count_serviced ?q c2 in if serviced_requests c3 ?q = length (source_ius q) then run_call n p il tp (ConsumeAllChildren q) c3 else Returns c3)"
    if "n \<ge> N" for n
    using that N(1) assms(1-3) by (simp add: notifyIUsReady_def mark_computed_def Let_def)
  show "\<exists>N r. (\<forall>n\<ge>N. run_call (Suc n) p il tp (NotifyIUsReady s) c = Returns r) \<and> Q r"
  proof (cases "serviced_requests (count_serviced ?q c2) ?q = length (source_ius q)")
    case True
    then obtain M r where "\<forall>n\<ge>M. run_call n p il tp (ConsumeAllChildren q) (count_serviced ?q c2) = Returns r" "Q r"
      using N(2) by (auto simp: wp_def Let_def)
    then have "\<forall>n\<ge>max N M. run_call (Suc n) p il tp (NotifyIUsReady s) c = Returns r" using e True by (simp add: Let_def)
    then show ?thesis using \<open>Q r\<close> by blast
  next
    case False
    then have "\<forall>n\<ge>N. run_call (Suc n) p il tp (NotifyIUsReady s) c = Returns (count_serviced ?q c2)" using e by (simp add: Let_def)
    then show ?thesis using N(2) False by (auto simp: Let_def)
  qed
qed

lemma wp_notify_root: "subop_addr s \<in> set (producing_no_request c) \<Longrightarrow> Q (mark_computed (subop_addr s) c) \<Longrightarrow> wp p il tp (NotifyIUsReady s) c Q"
  by (rule wp_step) (auto simp: notifyIUsReady_def mark_computed_def)

lemma wp_consume: "\<not> generates_in_consume s \<Longrightarrow> Q c \<Longrightarrow> wp p il tp (Consume s i) c Q"
  by (rule wp_step) (auto simp: consume_def)

lemma wp_consume_generate: "generates_in_consume s \<Longrightarrow> i = hd (source_ius s) \<Longrightarrow> wp p il tp (Produce s) c Q \<Longrightarrow> wp p il tp (Consume s i) c Q"
  by (rule wp_step) (auto simp: consume_def wp_def)

lemma wp_children: "\<not> generates_in_open s \<Longrightarrow> \<not> generates_in_consume s \<Longrightarrow> wp p il tp (Produce s) c Q \<Longrightarrow> wp p il tp (ConsumeAllChildren s) c Q"
  by (rule wp_step) (auto simp: consumeAllChildren_def wp_def)

lemma wp_children_done: "generates_in_consume s \<Longrightarrow> Q c \<Longrightarrow> wp p il tp (ConsumeAllChildren s) c Q"
  by (rule wp_step) (auto simp: consumeAllChildren_def)

text \<open>What follows the code of a suboperator.\<close>

definition wp_fin :: "pipeline \<Rightarrow> bool \<Rightarrow> (subop \<Rightarrow> ir_value option) \<Rightarrow> subop \<Rightarrow> compilation \<Rightarrow> (compilation \<Rightarrow> bool) \<Rightarrow> bool" where
  "wp_fin p il tp s c Q \<longleftrightarrow> (if isSink s then Q c else wp p il tp (NotifyIUsReady s) c Q)"

lemma wp_produce: "generate p il tp s (program c) = Returns g \<Longrightarrow> wp_fin p il tp s (c\<lparr> program := g \<rparr>) Q \<Longrightarrow> wp p il tp (Produce s) c Q"
  by (rule wp_step, cases "isSink s") (auto simp: produce_def generate_in_def wp_fin_def wp_def)

section \<open>Code in the order of the inputs\<close>

fun after_inputs :: "pipeline \<Rightarrow> subop set \<Rightarrow> subop list \<Rightarrow> bool" where
  "after_inputs p V [] \<longleftrightarrow> True"
| "after_inputs p V (s # os) \<longleftrightarrow>
     s \<in> set (suboperators p) \<and> s \<notin> V \<and> (\<forall>i\<in>set (source_ius s). provider p i \<in> V) \<and> after_inputs p (insert s V) os"

lemma after_inputs_append [simp]: "after_inputs p V (xs @ ys) \<longleftrightarrow> after_inputs p V xs \<and> after_inputs p (V \<union> set xs) ys"
  by (induction xs arbitrary: V) auto

lemma after_inputs_set: "after_inputs p V os \<Longrightarrow> set os \<subseteq> set (suboperators p) \<and> distinct os \<and> V \<inter> set os = {}"
  by (induction os arbitrary: V) auto

lemma after_inputs_in: "after_inputs p V os \<Longrightarrow> s \<in> set os \<Longrightarrow> i \<in> set (source_ius s) \<Longrightarrow> provider p i \<in> V \<union> set os"
  by (induction os arbitrary: V) auto

lemma each_outcome_append: "each_outcome f (xs @ ys) c = obind (each_outcome f xs c) (each_outcome f ys)"
proof (induction xs arbitrary: c)
  case (Cons x xs)
  then have "each_outcome f (xs @ ys) = (\<lambda>c. obind (each_outcome f xs c) (each_outcome f ys))" by (intro ext)
  then show ?case by (simp add: obind_assoc)
qed simp

lemma declareIUs_returns:
  "distinct (map fst new) \<Longrightarrow> fst ` set new \<inter> dom ds = {} \<Longrightarrow> \<exists>ds'. declareIUs new ds = Returns ds' \<and> dom ds' = dom ds \<union> fst ` set new"
proof (induction new arbitrary: ds)
  case (Cons d new)
  obtain i t where d: "d = (i, t)" by (cases d)
  then have "ds i = None" using Cons.prems(2) by auto
  then have "declareIUs (d # new) ds = declareIUs new (ds(i \<mapsto> t))" by (simp add: declareIU_def d)
  moreover have "fst ` set new \<inter> dom (ds(i \<mapsto> t)) = {}" using Cons.prems d by auto
  ultimately show ?case using Cons.IH [of "ds(i \<mapsto> t)"] Cons.prems(1) d by (auto simp del: fun_upd_apply)
qed simp

abbreviation no_code :: generated where
  "no_code \<equiv> \<lparr> fct_builder = FunctionBuilder, iu_declarations = Map.empty, opt_control = Map.empty \<rparr>"

lemma generate_returns:
  assumes "code_ok s" "\<forall>i\<in>set (reads_ius s). i \<in> dom (iu_declarations g)" "distinct (provided_ius s)"
    and "set (declares s) \<inter> dom (iu_declarations g) = {}"
  shows "\<exists>g'. generate p il tp s g = Returns g' \<and> dom (iu_declarations g') = dom (iu_declarations g) \<union> set (declares s) \<and>
    dom (opt_control g') = dom (opt_control g) \<union> (if opens_control s then {subop_addr s} else {})"
proof -
  have "generates (op_code p il tp (iu_declarations g) s) UNIV UNIV s" using assms(1,2) by (intro op_code_generates) auto
  then obtain c where c: "op_code p il tp (iu_declarations g) s = Returns c" "map fst (declared_ius c) = declares s" "control_ok s UNIV (opens c)"
    by (auto simp: generates_def code_fits_def)
  have "fst ` set (declared_ius c) = set (declares s)" using c(2) by (metis set_map)
  then obtain ds where ds: "declareIUs (declared_ius c) (iu_declarations g) = Returns ds" "dom ds = dom (iu_declarations g) \<union> set (declares s)"
    using declareIUs_returns [of "declared_ius c" "iu_declarations g"] declares_distinct [OF assms(3)] assms(4) by (auto simp: c(2))
  show ?thesis using c(3) ds(2)
    by (auto simp: generate_def c(1) ds(1) Let_def control_ok_def split: option.splits prod.splits)
qed

lemma provided_distinct: "compilable p \<Longrightarrow> s \<in> set (suboperators p) \<Longrightarrow> distinct (provided_ius s)"
  by (auto simp: compilable_def built_def ssa_def distinct_concat_iff)

lemma read_declared:
  assumes "compilable p" "s \<in> set (suboperators p)" "i \<in> set (reads_ius s)"
  shows "i \<in> set (declares (provider p i)) \<and> i \<in> set (source_ius s)"
  using assms reads_sources [OF code_ok_at [OF assms(1,2)]] by (auto simp: compilable_def reads_ok_def list_all_iff)

lemma generate_all:
  assumes "compilable p" "after_inputs p {} os"
  shows "\<exists>g. each_outcome (generate p il tp) os no_code = Returns g \<and> dom (iu_declarations g) = (\<Union>s\<in>set os. set (declares s)) \<and>
    dom (opt_control g) = subop_addr ` {s \<in> set os. opens_control s}"
  using assms(2)
proof (induction os rule: rev_induct)
  case (snoc s os)
  then obtain g where g: "each_outcome (generate p il tp) os no_code = Returns g" "dom (iu_declarations g) = (\<Union>s\<in>set os. set (declares s))"
      "dom (opt_control g) = subop_addr ` {s \<in> set os. opens_control s}" by auto
  have s: "s \<in> set (suboperators p)" "s \<notin> set os" "\<forall>i\<in>set (source_ius s). provider p i \<in> set os" "set os \<subseteq> set (suboperators p)"
    using snoc.prems after_inputs_set [of p "{}" os] by auto
  have ok: "code_ok s" by (rule code_ok_at [OF assms(1) s(1)])
  have "i \<in> dom (iu_declarations g)" if "i \<in> set (reads_ius s)" for i
    unfolding g(2) using read_declared [OF assms(1) s(1) that] s(3) by blast
  moreover have "set (declares s) \<inter> dom (iu_declarations g) = {}"
  proof -
    have "i \<notin> set (declares t)" if "t \<in> set os" "i \<in> set (declares s)" for i t
    proof
      assume "i \<in> set (declares t)"
      then have "i \<in> set (provided_ius t)" "i \<in> set (provided_ius s)"
        using that s(1,4) declares_provided [OF code_ok_at [OF assms(1)]] by blast+
      then show False using that(1) s provider_eq [OF assms(1), of s i] provider_eq [OF assms(1), of t i] by auto
    qed
    then show ?thesis by (auto simp: g(2))
  qed
  ultimately obtain g' where "generate p il tp s g = Returns g'" "dom (iu_declarations g') = dom (iu_declarations g) \<union> set (declares s)"
      "dom (opt_control g') = dom (opt_control g) \<union> (if opens_control s then {subop_addr s} else {})"
    using generate_returns [OF ok _ provided_distinct [OF assms(1) s(1)]] by blast
  then show ?case by (auto simp: each_outcome_append g)
qed simp

section \<open>The state between calls\<close>

definition level :: "pipeline \<Rightarrow> subop \<Rightarrow> nat" where
  "level p t = (if is_logic t then position_of p (provider p (source_ius t ! 0)) else position_of p t)"

text \<open>\<open>new\<close> extends \<open>os\<close>: code after its inputs, with everything that opening it asks for.\<close>

definition grows_by :: "pipeline \<Rightarrow> subop list \<Rightarrow> subop list \<Rightarrow> bool" where
  "grows_by p os new \<longleftrightarrow> after_inputs p (set os) new \<and> (\<forall>s\<in>set new. \<forall>r\<in>set (open_requests s). provider p (snd r) \<in> set os \<union> set new)"

lemma grows_trans: "grows_by p os a \<Longrightarrow> grows_by p (os @ a) b \<Longrightarrow> grows_by p os (a @ b)"
  by (auto simp: grows_by_def)

lemma grows_Nil [simp]: "grows_by p os []"
  by (simp add: grows_by_def)

definition quiet :: "pipeline \<Rightarrow> bool \<Rightarrow> (subop \<Rightarrow> ir_value option) \<Rightarrow> subop list \<Rightarrow> compilation \<Rightarrow> bool" where
  "quiet p il tp os c \<longleftrightarrow> grows_by p [] os \<and> set (computed c) = subop_addr ` {s \<in> set os. \<not> isSink s} \<and>
     each_outcome (generate p il tp) os no_code = Returns (program c) \<and> producing_no_request c = map subop_addr (without_consumer p)"

definition fresh :: "pipeline \<Rightarrow> nat \<Rightarrow> subop list \<Rightarrow> compilation \<Rightarrow> bool" where
  "fresh p k os c \<longleftrightarrow> (\<forall>t\<in>set (suboperators p). t \<notin> set os \<longrightarrow> \<not> generates_in_consume t \<longrightarrow> level p t \<le> k \<longrightarrow>
     serviced_requests c (subop_addr t) = count (serves_of os) (subop_addr t))"

text \<open>
  What happens between two states: the code that is generated, who is computed, the requests made and served. The counters of suboperators
  that generate in \<open>consume\<close> are incremented late, and are never read again.
\<close>

definition ran :: "pipeline \<Rightarrow> bool \<Rightarrow> (subop \<Rightarrow> ir_value option) \<Rightarrow> nat \<Rightarrow> subop list \<Rightarrow> subop list \<Rightarrow> nat multiset \<Rightarrow> nat multiset \<Rightarrow>
    compilation \<Rightarrow> compilation \<Rightarrow> bool" where
  "ran p il tp k emitted ready U S c c1 \<longleftrightarrow> each_outcome (generate p il tp) emitted (program c) = Returns (program c1) \<and>
     set (computed c1) = set (computed c) \<union> subop_addr ` set ready \<and>
     (\<forall>a. upstream_requests c1 a = upstream_requests c a + count U a) \<and>
     (\<forall>t\<in>set (suboperators p). \<not> generates_in_consume t \<longrightarrow>
        serviced_requests c1 (subop_addr t) = serviced_requests c (subop_addr t) + count S (subop_addr t)) \<and>
     producing_no_request c1 = producing_no_request c \<and>
     (\<forall>t\<in>set (suboperators p). k \<le> position_of p t \<longrightarrow> requests c1 (subop_addr t) = requests c (subop_addr t))"

lemma ran_refl: "ran p il tp k [] [] {#} {#} c c"
  by (simp add: ran_def)

lemma ran_trans:
  "ran p il tp k a A U S c c1 \<Longrightarrow> ran p il tp k b B U' S' c1 c2 \<Longrightarrow> ran p il tp k (a @ b) (A @ B) (U + U') (S + S') c c2"
  by (auto simp: ran_def each_outcome_append)

lemma ran_weaken: "ran p il tp k a A U S c c1 \<Longrightarrow> k \<le> k' \<Longrightarrow> ran p il tp k' a A U S c c1"
  by (auto simp: ran_def)

lemma ran_count:
  assumes "compilable p" "q \<in> set (suboperators p)" "ran p il tp k a A U S c c1"
  shows "ran p il tp k a A U (S + {#subop_addr q#}) c (count_serviced (subop_addr q) c1)"
  using assms addr_inj [OF assms(1,2)] by (auto simp: ran_def count_serviced_def)

definition stable :: "pipeline \<Rightarrow> (compilation \<Rightarrow> bool) \<Rightarrow> bool" where
  "stable p Q \<longleftrightarrow> (\<forall>c. \<forall>s\<in>set (suboperators p). generates_in_consume s \<longrightarrow> Q c \<longrightarrow> Q (count_serviced (subop_addr s) c))"

lemma ran_stable: "compilable p \<Longrightarrow> stable p (ran p il tp k a A U S c)"
  unfolding stable_def
proof (intro allI ballI impI)
  fix c1 s assume a: "compilable p" "s \<in> set (suboperators p)" "generates_in_consume s" "ran p il tp k a A U S c c1"
  have "subop_addr t \<noteq> subop_addr s" if "t \<in> set (suboperators p)" "\<not> generates_in_consume t" for t
    using addr_inj [OF a(1) that(1) a(2)] that(2) a(3) by blast
  then show "ran p il tp k a A U S c (count_serviced (subop_addr s) c1)" using a(4) by (simp add: ran_def count_serviced_def)
qed

lemma ran_skip:
  assumes "compilable p" "q \<in> set (suboperators p)" "generates_in_consume q" "ran p il tp k a A U S c c1"
  shows "ran p il tp k a A U (S + {#subop_addr q#}) c c1"
  using assms(3,4) addr_inj [OF assms(1,2)] by (auto simp: ran_def)

lemma quiet_ran:
  assumes "quiet p il tp os c" "ran p il tp k new new U S c c1" "grows_by p os new" "\<forall>t\<in>set new. \<not> isSink t"
  shows "quiet p il tp (os @ new) c1"
  using assms grows_trans [of p "[]" os new] by (auto simp: quiet_def ran_def each_outcome_append)

lemma fresh_ran:
  assumes "fresh p k os c" "ran p il tp k' emitted ready U S c c1" "k0 \<le> k"
    and "\<And>t. t \<in> set (suboperators p) \<Longrightarrow> t \<notin> set (os @ new) \<Longrightarrow> level p t \<le> k0 \<Longrightarrow> count S (subop_addr t) = count (serves_of new) (subop_addr t)"
  shows "fresh p k0 (os @ new) c1"
  using assms by (auto simp: fresh_def ran_def)

end
