(* ===== verification/Compilation_Order.thy ===== *)
theory Compilation_Order
  imports Compilation_Open
begin

text \<open>
  The requests of a compilable pipeline, by induction on the position of a suboperator: opening one generates the missing code of the
  suboperators it depends on, then its own, and hands over to whoever asked.
\<close>

text \<open>What is opened on the way is not a root of the compilation.\<close>

definition is_asked :: "pipeline \<Rightarrow> subop \<Rightarrow> bool" where
  "is_asked p t \<longleftrightarrow> \<not> isSink t \<and> outgoing_edges p (subop_addr t) \<noteq> None"

definition opens_well :: "pipeline \<Rightarrow> bool \<Rightarrow> (subop \<Rightarrow> ir_value option) \<Rightarrow> subop \<Rightarrow> bool" where
  "opens_well p il tp s \<longleftrightarrow> (\<forall>os c Q. quiet p il tp os c \<longrightarrow> s \<notin> set os \<longrightarrow> fresh p (position_of p s) os c \<longrightarrow> stable p Q \<longrightarrow>
     (\<forall>new c1. grows_by p os (new @ [s]) \<longrightarrow> (\<forall>t\<in>set new. is_asked p t \<and> position_of p t < position_of p s) \<longrightarrow>
        ran p il tp (position_of p s) (new @ [s]) new (asks_of p (new @ [s])) (serves_of (new @ [s])) c c1 \<longrightarrow> wp_fin p il tp s c1 Q) \<longrightarrow>
     wp p il tp (Open s) c Q)"

lemma opens_wellD:
  assumes "opens_well p il tp s" "quiet p il tp os c" "s \<notin> set os" "fresh p (position_of p s) os c" "stable p Q"
    and "\<And>new c1. grows_by p os (new @ [s]) \<Longrightarrow> \<forall>t\<in>set new. is_asked p t \<and> position_of p t < position_of p s \<Longrightarrow>
      ran p il tp (position_of p s) (new @ [s]) new (asks_of p (new @ [s])) (serves_of (new @ [s])) c c1 \<Longrightarrow> wp_fin p il tp s c1 Q"
  shows "wp p il tp (Open s) c Q"
  using assms unfolding opens_well_def by blast

lemma has_consumer_not_root:
  assumes "compilable p" "q \<in> set (suboperators p)" "i \<in> set (source_ius q)"
  shows "subop_addr (provider p i) \<notin> set (map subop_addr (without_consumer p))"
proof
  assume "subop_addr (provider p i) \<in> set (map subop_addr (without_consumer p))"
  then obtain u where "u \<in> set (suboperators p)" "outgoing_edges p (subop_addr u) = None" "subop_addr (provider p i) = subop_addr u"
    by (auto simp: without_consumer_def)
  then show False using provider_has_consumer(1) [OF assms] by simp
qed

lemma wp_request_provider:
  assumes "compilable p" "q \<in> set (suboperators p)" "i \<in> set (source_ius q)" "t = provider p i" "opens_well p il tp t"
    and "quiet p il tp os c" "fresh p (position_of p t) os c" "stable p R"
    and serve: "\<And>new c1. grows_by p os new \<Longrightarrow> t \<in> set os \<union> set new \<Longrightarrow> \<forall>u\<in>set new. is_asked p u \<and> position_of p u \<le> position_of p t \<Longrightarrow>
      ran p il tp (Suc (position_of p t)) new new (asks_of p new + {#subop_addr t#}) (serves_of new) c c1 \<Longrightarrow> wp_serve p il tp q i c1 R"
  shows "wp p il tp (RequestIU q i) c R"
proof (rule wp_request)
  let ?a = "subop_addr t"
  let ?c = "request_made ?a (subop_addr q) i c"
  have t: "t \<in> set (suboperators p)" "\<not> isSink t" "?a \<notin> set (map subop_addr (without_consumer p))"
    using source_provider(1) [OF assms(1-3)] provider_has_consumer(2) [OF assms(1-3)] has_consumer_not_root [OF assms(1-3)] assms(4) by simp_all
  have sub: "set os \<subseteq> set (suboperators p)" using assms(6) after_inputs_set [of p "{}" os] by (auto simp: quiet_def grows_by_def)
  have q: "subop_at p (subop_addr q) = Returns q" by (rule subop_at_addr [OF assms(1,2)])
  have other: "subop_addr u \<noteq> ?a" if "u \<in> set (suboperators p)" "Suc (position_of p t) \<le> position_of p u" for u
    using addr_inj [OF assms(1) that(1) t(1)] that(2) by auto
  show "producer_of p q i = Returns t" using producer_of_provider [OF assms(1-3)] assms(4) by simp
  show "wp p il tp (if ?a \<notin> set (computed c) then Open t else NotifyIUsReady t) ?c R"
  proof (cases "t \<in> set os")
    case True
    then have m: "?a \<in> set (computed c)" using assms(6) t(2) by (auto simp: quiet_def)
    have "wp p il tp (NotifyIUsReady t) ?c R"
    proof (rule wp_notify [OF _ _ q])
      show "?a \<notin> set (producing_no_request ?c)" using assms(6) t(3) by (simp add: quiet_def request_made_def)
      show "requests ?c ?a = Some (subop_addr q, i)" by (simp add: request_made_def)
      show "wp_serve p il tp q i (erase_request ?a (mark_computed ?a ?c)) R"
        using m other by (intro serve [of "[]"]) (auto simp: True ran_def erase_request_def mark_computed_def request_made_def)
    qed
    then show ?thesis using m by simp
  next
    case False
    then have m: "?a \<notin> set (computed c)" using assms(6) addr_inj [OF assms(1) t(1)] sub by (auto simp: quiet_def)
    have "wp p il tp (Open t) ?c R"
    proof (rule opens_wellD [OF assms(5) _ False _ assms(8)])
      show "quiet p il tp os ?c" using assms(6) by (simp add: quiet_def request_made_def)
      show "fresh p (position_of p t) os ?c" using assms(7) by (simp add: fresh_def request_made_def)
    next
      fix new c1 assume new: "grows_by p os (new @ [t])" "\<forall>u\<in>set new. is_asked p u \<and> position_of p u < position_of p t"
        and r: "ran p il tp (position_of p t) (new @ [t]) new (asks_of p (new @ [t])) (serves_of (new @ [t])) ?c c1"
      have "wp p il tp (NotifyIUsReady t) c1 R"
      proof (rule wp_notify [OF _ _ q])
        show "?a \<notin> set (producing_no_request c1)" using assms(6) t(3) r by (simp add: quiet_def request_made_def ran_def)
        show "requests c1 ?a = Some (subop_addr q, i)" using r t(1) by (simp add: ran_def request_made_def)
        show "wp_serve p il tp q i (erase_request ?a (mark_computed ?a c1)) R"
        proof (rule serve [OF new(1)])
          show "ran p il tp (Suc (position_of p t)) (new @ [t]) (new @ [t]) (asks_of p (new @ [t]) + {#?a#}) (serves_of (new @ [t])) c
              (erase_request ?a (mark_computed ?a c1))"
            using r other by (auto simp: ran_def erase_request_def mark_computed_def request_made_def)
        qed (use new(2) t(2) provider_has_consumer(1) [OF assms(1-3)] assms(4) in \<open>auto simp: is_asked_def\<close>)
      qed
      then show "wp_fin p il tp t c1 R" using t(2) by (simp add: wp_fin_def)
    qed
    then show ?thesis using m by simp
  qed
qed

lemma source_requests: "code_ok s \<Longrightarrow> generates_in_open s \<Longrightarrow> open_requests s = []"
  by (cases "kind s") (simp_all add: open_requests_def generates_in_open_def code_ok_def)

text \<open>How often a suboperator has been served when it makes its requests.\<close>

lemma logic_opens:
  assumes "compilable p" "is_logic s" "s \<in> set (suboperators p)"
  shows "open_requests s = [(subop_addr s, source_ius s ! 0)]" "length (source_ius s) = 2" "source_ius s ! 0 \<in> set (source_ius s)"
  using logic_kind [OF assms(2) code_ok_at [OF assms(1,3)]] by auto

lemma own_requests:
  assumes "compilable p" "s \<in> set (suboperators p)" "\<not> is_logic s"
  shows "count (mset (map fst (open_requests s))) (subop_addr s) = length (source_ius s)"
proof -
  have "subop_addr s \<notin> fst ` set (scope_deps s)"
  proof
    assume "subop_addr s \<in> fst ` set (scope_deps s)"
    then obtain i where "(subop_addr s, i) \<in> set (scope_deps s)" by auto
    then obtain l where "l \<in> set (suboperators p)" "subop_addr s = subop_addr l" "is_logic l" using dep_logic [OF assms(1,2)] by blast
    then show False using addr_inj [OF assms(1,2)] assms(3) by auto
  qed
  then show ?thesis by (simp add: open_requests_eq [OF assms(3)] comp_def map_replicate_const count_eq_zero_iff)
qed

lemma served_before:
  assumes "compilable p" "s \<in> set (suboperators p)" "q \<in> set (suboperators p)" "grows_by p [] os" "q \<notin> set os"
    and "q = s \<and> \<not> is_logic s \<or> is_logic q \<and> provider p (source_ius q ! 0) \<notin> set os"
  shows "count (serves_of os) (subop_addr q) = 0"
proof -
  have os: "set os \<subseteq> set (suboperators p)" "distinct os" using assms(4) after_inputs_set [of p "{}" os] by (auto simp: grows_by_def)
  show ?thesis
  proof (cases "is_logic q")
    case True
    then show ?thesis using served_by_scope [OF assms(1,3) True os(1) assms(5) os(2)] assms(6) by auto
  next
    case False
    then show ?thesis using unserved [OF assms(1,3) False os(1) assms(5)] by simp
  qed
qed

lemma opens_last:
  assumes "compilable p" "s \<in> set (suboperators p)" "\<not> generates_in_open s" "open_requests s = dn @ [r]"
  shows "\<exists>i. r = (subop_addr s, i) \<and> i \<in> set (source_ius s) \<and> (generates_in_consume s \<longrightarrow> dn = [] \<and> i = hd (source_ius s))"
proof (cases "is_logic s")
  case True
  then show ?thesis using logic_opens [OF assms(1) _ assms(2)] logic_kind [OF True code_ok_at [OF assms(1,2)]] assms(4) by auto
next
  case False
  have "source_ius s \<noteq> []" using source_iff [OF code_ok_at [OF assms(1,2)]] assms(3) by simp
  then have "r = (subop_addr s, last (source_ius s))"
    using assms(4) open_requests_eq [OF False] by (metis last_appendR last_map last_snoc map_is_Nil_conv)
  moreover have "last (source_ius s) \<in> set (source_ius s)" using \<open>source_ius s \<noteq> []\<close> by simp
  moreover have "dn = [] \<and> last (source_ius s) = hd (source_ius s)" if "generates_in_consume s"
    using consume_one [OF code_ok_at [OF assms(1,2)] that] assms(4) by auto
  ultimately show ?thesis by auto
qed

text \<open>All inputs of a suboperator are there once its requests have been answered.\<close>

lemma inputs_ready:
  assumes "compilable p" "s \<in> set (suboperators p)" "\<forall>r\<in>set (open_requests s). provider p (snd r) \<in> V"
    and "\<forall>u\<in>V. \<forall>r\<in>set (open_requests u). provider p (snd r) \<in> V" "i \<in> set (source_ius s)"
  shows "provider p i \<in> V"
proof (cases "is_logic s")
  case True
  obtain j k where jk: "source_ius s = [j, k]" "open_requests s = [(subop_addr s, j)]" using logic_kind [OF True code_ok_at [OF assms(1,2)]] by blast
  then have j: "provider p j \<in> V" using assms(3) by simp
  have d: "(subop_addr s, k) \<in> set (scope_deps (provider p j))" using logic_dep [OF assms(1,2) True] jk by simp
  have "provider p j \<in> set (suboperators p)" using source_provider(1) [OF assms(1,2)] jk by simp
  then have "\<not> is_logic (provider p j)" using logic_kind [OF _ code_ok_at [OF assms(1)]] d by force
  then have "(subop_addr s, k) \<in> set (open_requests (provider p j))" using d by (simp add: open_requests_eq)
  then have "provider p k \<in> V" using assms(4) j by force
  then show ?thesis using assms(5) j jk by auto
next
  case False
  then show ?thesis using assms(3,5) by (force simp: open_requests_eq)
qed

lemma serve_more:
  assumes "compilable p" "s \<in> set (suboperators p)" "open_requests s = dn @ (subop_addr q, i) # rest" "rest \<noteq> []" "q \<in> set (suboperators p)"
    and "q = s \<or> is_logic q \<and> provider p (source_ius q ! 0) = s" "quiet p il tp os c" "fresh p (position_of p s) os c" "s \<notin> set os \<union> set new"
    and "grows_by p os new" "ran p il tp k new new U (serves_of new + mset (map fst dn)) c c1"
    and R: "R (count_serviced (subop_addr q) c1)"
  shows "wp_serve p il tp q i c1 R"
proof -
  note c = assms(1)
  have sn: "\<not> is_logic s"
  proof
    assume "is_logic s"
    then show False using logic_opens(1) [OF c _ assms(2)] assms(3,4) by (cases dn) auto
  qed
  have nc: "\<not> generates_in_consume q"
  proof (cases "is_logic q")
    case True then show ?thesis using logic_kind [OF True code_ok_at [OF c assms(5)]] by blast
  next
    case False
    then have "q = s" using assms(6) by blast
    then show ?thesis using consume_one [OF code_ok_at [OF c assms(2)]] assms(3,4) by (cases dn) auto
  qed
  have g: "grows_by p [] os" "grows_by p [] (os @ new)" using assms(7,10) grows_trans [of p "[]" os new] by (auto simp: quiet_def)
  have qn: "q \<notin> set (os @ new)"
  proof (cases "q = s")
    case True then show ?thesis using assms(9) by simp
  next
    case False
    then have l: "is_logic q" "provider p (source_ius q ! 0) = s" using assms(6) by auto
    show ?thesis
    proof
      assume "q \<in> set (os @ new)"
      then have "s \<in> set (os @ new)"
        using after_inputs_in [of p "{}" "os @ new" q "source_ius q ! 0"] g(2) logic_opens(3) [OF c l(1) assms(5)] l(2) by (auto simp: grows_by_def)
      then show False using assms(9) by simp
    qed
  qed
  have zero: "count (serves_of os) (subop_addr q) = 0" "count (serves_of (os @ new)) (subop_addr q) = 0"
    using served_before [OF c assms(2,5) g(1)] served_before [OF c assms(2,5) g(2)] assms(6,9) qn sn by auto
  have "level p q = position_of p s" using assms(6) sn by (auto simp: level_def)
  then have "serviced_requests c (subop_addr q) = 0" using assms(5,8) qn nc zero(1) by (simp add: fresh_def)
  then have sc: "serviced_requests c1 (subop_addr q) = count (mset (map fst dn)) (subop_addr q)"
    using assms(5,11) nc zero(2) by (simp add: ran_def)
  have "Suc (count (mset (map fst dn)) (subop_addr q)) \<noteq> length (source_ius q)"
  proof (cases "q = s")
    case True
    obtain rest' r where rest: "rest = rest' @ [r]" using assms(4) by (metis rev_exhaust)
    have "\<not> generates_in_open s" using source_requests [OF code_ok_at [OF c assms(2)]] assms(3) by auto
    have e: "open_requests s = (dn @ (subop_addr q, i) # rest') @ [r]" using assms(3) rest by simp
    then have "fst r = subop_addr s" using opens_last [OF c assms(2) \<open>\<not> generates_in_open s\<close> e] by auto
    then have "count (mset (map fst (open_requests s))) (subop_addr s) = Suc (Suc (count (mset (map fst dn)) (subop_addr s) + count (mset (map fst rest')) (subop_addr s)))"
      unfolding e using True by simp
    then show ?thesis using own_requests [OF c assms(2) sn] True by simp
  next
    case False
    then have l: "is_logic q" "provider p (source_ius q ! 0) = s" using assms(6) by auto
    have "set [s] \<subseteq> set (suboperators p)" "q \<notin> set [s]" using assms(2) False by auto
    then have "count (mset (map fst (open_requests s))) (subop_addr q) = 1"
      using served_by_scope [OF c assms(5) l(1), of "[s]"] l(2) by (simp add: serves_def)
    then show ?thesis using assms(3) logic_opens(2) [OF c l(1) assms(5)] by simp
  qed
  then show ?thesis unfolding wp_serve_def using R sc
    by (intro wp_consume [OF nc]) (simp add: Let_def count_serviced_def)
qed

lemma serve_last:
  assumes "compilable p" "s \<in> set (suboperators p)" "\<not> generates_in_open s" "open_requests s = dn @ [(subop_addr s, i)]"
    and "quiet p il tp os c" "s \<notin> set os \<union> set new" "fresh p (position_of p s) os c" "stable p Q" "grows_by p os new"
    and "\<forall>t\<in>set new. is_asked p t \<and> position_of p t < position_of p s" "\<forall>r\<in>set (open_requests s). provider p (snd r) \<in> set os \<union> set new"
    and "ran p il tp (position_of p s) new new (asks_of p new + mset (asks p s)) (serves_of new + mset (map fst dn)) c c1"
    and fin: "\<And>new c1. grows_by p os (new @ [s]) \<Longrightarrow> \<forall>t\<in>set new. is_asked p t \<and> position_of p t < position_of p s \<Longrightarrow>
      ran p il tp (position_of p s) (new @ [s]) new (asks_of p (new @ [s])) (serves_of (new @ [s])) c c1 \<Longrightarrow> wp_fin p il tp s c1 Q"
  shows "wp_serve p il tp s i c1 Q"
proof -
  note c = assms(1)
  have g: "grows_by p [] os" "grows_by p [] (os @ new)" using assms(5,9) grows_trans [of p "[]" os new] by (auto simp: quiet_def)
  have "provider p j \<in> set os \<union> set new" if "j \<in> set (source_ius s)" for j
    using inputs_ready [OF c assms(2) assms(11) _ that] g(2) by (auto simp: grows_by_def)
  then have gs: "grows_by p os (new @ [s])" using assms(2,6,9,11) by (auto simp: grows_by_def)
  have "grows_by p [] (os @ new @ [s])" using grows_trans [of p "[]" os] g(1) gs by simp
  then have "after_inputs p {} ((os @ new) @ [s])" by (simp add: grows_by_def)
  then obtain g' where "each_outcome (generate p il tp) ((os @ new) @ [s]) no_code = Returns g'" using generate_all [OF c] by blast
  moreover have "each_outcome (generate p il tp) (os @ new) no_code = Returns (program c1)"
    using assms(5,12) by (simp add: quiet_def ran_def each_outcome_append)
  ultimately have gen: "generate p il tp s (program c1) = Returns g'" unfolding each_outcome_append [of _ "os @ new" "[s]"] by (simp add: obind_Returns_iff)
  have serves: "serves_of (new @ [s]) = (serves_of new + mset (map fst dn)) + {#subop_addr s#}" by (simp add: serves_def assms(4))
  have final: "ran p il tp (position_of p s) (new @ [s]) new (asks_of p (new @ [s])) (serves_of (new @ [s])) c (c2\<lparr> program := g' \<rparr>)"
    if "ran p il tp (position_of p s) new new (asks_of p new + mset (asks p s)) (serves_of (new @ [s])) c c2" "program c2 = program c1" for c2
    using that gen by (simp add: ran_def each_outcome_append)
  show ?thesis
  proof (cases "generates_in_consume s")
    case True
    have "ran p il tp (position_of p s) new new (asks_of p new + mset (asks p s)) (serves_of (new @ [s])) c c1"
      unfolding serves by (rule ran_skip [OF c assms(2) True assms(12)])
    then have "wp_fin p il tp s (c1\<lparr> program := g' \<rparr>) Q" using final by (intro fin [OF gs assms(10)]) simp
    then have w: "wp p il tp (Produce s) c1 Q" by (rule wp_produce [OF gen])
    have "i = hd (source_ius s)" using consume_one [OF code_ok_at [OF c assms(2)] True] assms(4) by auto
    then have "wp p il tp (Consume s i) c1 Q" using w by (intro wp_consume_generate [OF True])
    then show ?thesis unfolding wp_serve_def
    proof (rule wp_mono)
      fix r assume "Q r"
      then have "Q (count_serviced (subop_addr s) r)" using assms(2,8) True by (auto simp: stable_def)
      then show "let c3 = count_serviced (subop_addr s) r in if serviced_requests c3 (subop_addr s) = length (source_ius s)
          then wp p il tp (ConsumeAllChildren s) c3 Q else Q c3" using wp_children_done [OF True] by (simp add: Let_def)
    qed
  next
    case False
    let ?c2 = "count_serviced (subop_addr s) c1"
    have r: "ran p il tp (position_of p s) new new (asks_of p new + mset (asks p s)) (serves_of (new @ [s])) c ?c2"
      unfolding serves by (rule ran_count [OF c assms(2,12)])
    have "wp_fin p il tp s (?c2\<lparr> program := g' \<rparr>) Q" by (rule fin [OF gs assms(10) final [OF r]]) (simp add: count_serviced_def)
    then have w: "wp p il tp (Produce s) ?c2 Q" using gen by (intro wp_produce) (simp_all add: count_serviced_def)
    have full: "serviced_requests ?c2 (subop_addr s) = length (source_ius s)"
    proof -
      have "level p s \<le> position_of p s"
        using source_provider(3) [OF c assms(2)] logic_opens(3) [OF c _ assms(2)] by (auto simp: level_def intro: less_imp_le)
      then have "serviced_requests c (subop_addr s) = count (serves_of os) (subop_addr s)" using assms(2,6,7) False by (auto simp: fresh_def)
      then have "serviced_requests ?c2 (subop_addr s) = count (serves_of (os @ new)) (subop_addr s) + count (mset (map fst (open_requests s))) (subop_addr s)"
        using r assms(2) False by (simp add: ran_def serves_def)
      moreover have "\<dots> = length (source_ius s)"
      proof (cases "is_logic s")
        case True
        then show ?thesis
          using served_by_scope [OF c assms(2) True, of "os @ new"] after_inputs_set [of p "{}" "os @ new"] g(2) assms(6,11) logic_opens [OF c True assms(2)]
          by (auto simp: grows_by_def)
      next
        case False
        then show ?thesis using own_requests [OF c assms(2)] served_before [OF c assms(2,2) g(2)] assms(6) by simp
      qed
      ultimately show ?thesis by simp
    qed
    show ?thesis unfolding wp_serve_def
      using wp_children [OF assms(3) False w] full by (intro wp_consume [OF False]) (simp add: Let_def)
  qed
qed

text \<open>The state while the requests \<open>dn\<close> of \<open>s\<close> have been answered.\<close>

definition answered :: "pipeline \<Rightarrow> bool \<Rightarrow> (subop \<Rightarrow> ir_value option) \<Rightarrow> subop \<Rightarrow> subop list \<Rightarrow> (nat \<times> iu) list \<Rightarrow> subop list \<Rightarrow>
    compilation \<Rightarrow> compilation \<Rightarrow> bool" where
  "answered p il tp s os dn new c c1 \<longleftrightarrow> grows_by p os new \<and> (\<forall>t\<in>set new. is_asked p t \<and> position_of p t < position_of p s) \<and>
     (\<forall>r\<in>set dn. provider p (snd r) \<in> set os \<union> set new) \<and>
     ran p il tp (position_of p s) new new (asks_of p new + mset (map (\<lambda>r. subop_addr (provider p (snd r))) dn)) (serves_of new + mset (map fst dn)) c c1"

lemma fresh_answered:
  assumes "compilable p" "s \<in> set (suboperators p)" "open_requests s = dn @ rest" "rest \<noteq> []" "k < position_of p s"
    and "fresh p (position_of p s) os c" "answered p il tp s os dn new c c1"
  shows "fresh p k (os @ new) c1"
proof (rule fresh_ran [OF assms(6)])
  show "ran p il tp (position_of p s) new new (asks_of p new + mset (map (\<lambda>r. subop_addr (provider p (snd r))) dn)) (serves_of new + mset (map fst dn)) c c1"
    using assms(7) by (simp add: answered_def)
next
  fix t assume t: "t \<in> set (suboperators p)" "level p t \<le> k"
  have "subop_addr t \<notin> fst ` set dn"
  proof
    assume "subop_addr t \<in> fst ` set dn"
    then obtain i where i: "(subop_addr t, i) \<in> set (open_requests s)" "dn \<noteq> []" using assms(3) by force
    then obtain q where q: "q \<in> set (suboperators p)" "subop_addr t = subop_addr q" "q = s \<or> is_logic q \<and> provider p (source_ius q ! 0) = s"
      using request_facts [OF assms(1,2)] by blast
    then have "q = t" using addr_inj [OF assms(1) q(1) t(1)] by simp
    moreover have "\<not> is_logic s" using logic_opens(1) [OF assms(1) _ assms(2)] assms(3,4) i(2) by (auto simp: append_eq_Cons_conv)
    ultimately have "level p t = position_of p s" using q(3) by (auto simp: level_def)
    then show False using t(2) assms(5) by simp
  qed
  then show "count (serves_of new + mset (map fst dn)) (subop_addr t) = count (serves_of new) (subop_addr t)" by (simp add: count_eq_zero_iff)
qed (use assms(5) in simp)

lemma answered_step:
  assumes "answered p il tp s os dn new c c1" "(a, i) \<in> set (open_requests s)" "position_of p (provider p i) < position_of p s"
    and "grows_by p (os @ new) new2" "provider p i \<in> set (os @ new) \<union> set new2" "\<forall>u\<in>set new2. is_asked p u \<and> position_of p u \<le> position_of p (provider p i)"
    and "ran p il tp (Suc (position_of p (provider p i))) new2 new2 (asks_of p new2 + {#subop_addr (provider p i)#}) (serves_of new2) c1 c2"
  shows "ran p il tp (position_of p s) (new @ new2) (new @ new2) (asks_of p (new @ new2) + mset (map (\<lambda>r. subop_addr (provider p (snd r))) (dn @ [(a, i)])))
      (serves_of (new @ new2) + mset (map fst dn)) c c2"
    and "grows_by p os (new @ new2)" "\<forall>t\<in>set (new @ new2). is_asked p t \<and> position_of p t < position_of p s"
    "\<forall>r\<in>set (dn @ [(a, i)]). provider p (snd r) \<in> set os \<union> set (new @ new2)"
proof -
  have "ran p il tp (position_of p s) new2 new2 (asks_of p new2 + {#subop_addr (provider p i)#}) (serves_of new2) c1 c2"
    by (rule ran_weaken [OF assms(7)]) (use assms(3) in simp)
  from ran_trans [OF _ this] show "ran p il tp (position_of p s) (new @ new2) (new @ new2)
      (asks_of p (new @ new2) + mset (map (\<lambda>r. subop_addr (provider p (snd r))) (dn @ [(a, i)]))) (serves_of (new @ new2) + mset (map fst dn)) c c2"
    using assms(1) unfolding answered_def by (fastforce simp: ac_simps)
  show "grows_by p os (new @ new2)" using assms(1,4) grows_trans by (auto simp: answered_def)
  show "\<forall>t\<in>set (new @ new2). is_asked p t \<and> position_of p t < position_of p s" using assms(1,3,6) by (auto simp: answered_def)
  show "\<forall>r\<in>set (dn @ [(a, i)]). provider p (snd r) \<in> set os \<union> set (new @ new2)" using assms(1,5) by (auto simp: answered_def)
qed

lemma answered_stable:
  assumes "compilable p"
  shows "stable p (\<lambda>c1. \<exists>new. answered p il tp s os dn new c c1)"
  using ran_stable [OF assms] unfolding stable_def answered_def by meson

lemma requests_answered:
  assumes "compilable p" "s \<in> set (suboperators p)" "\<not> generates_in_open s" "quiet p il tp os c" "s \<notin> set os" "fresh p (position_of p s) os c" "stable p Q"
    and IH: "\<And>t. t \<in> set (suboperators p) \<Longrightarrow> position_of p t < position_of p s \<Longrightarrow> opens_well p il tp t"
    and fin: "\<And>new c1. grows_by p os (new @ [s]) \<Longrightarrow> \<forall>t\<in>set new. is_asked p t \<and> position_of p t < position_of p s \<Longrightarrow>
      ran p il tp (position_of p s) (new @ [s]) new (asks_of p (new @ [s])) (serves_of (new @ [s])) c c1 \<Longrightarrow> wp_fin p il tp s c1 Q"
  shows "open_requests s = dn @ rest \<Longrightarrow> rest \<noteq> [] \<Longrightarrow> answered p il tp s os dn new c c1 \<Longrightarrow> wp_each p il tp rest c1 Q"
proof (induction rest arbitrary: dn new c1)
  case (Cons r rest)
  note c = assms(1)
  obtain a i where r: "r = (a, i)" by (cases r)
  have ai: "(a, i) \<in> set (open_requests s)" using Cons.prems(1) r by simp
  obtain q where q: "q \<in> set (suboperators p)" "a = subop_addr q" "i \<in> set (source_ius q)" "position_of p (provider p i) < position_of p s"
      "q = s \<or> is_logic q \<and> provider p (source_ius q ! 0) = s"
    using request_facts [OF c assms(2) ai] by blast
  let ?t = "provider p i"
  have t: "?t \<in> set (suboperators p)" by (rule source_provider(1) [OF c q(1,3)])
  have ans: "grows_by p os new" "\<forall>t\<in>set new. is_asked p t \<and> position_of p t < position_of p s" using Cons.prems(3) by (auto simp: answered_def)
  have sn: "s \<notin> set os \<union> set new" using assms(5) ans(2) by auto
  have quiet1: "quiet p il tp (os @ new) c1"
    by (rule quiet_ran [OF assms(4)]) (use Cons.prems(3) in \<open>auto simp: answered_def is_asked_def\<close>)
  have fresh1: "fresh p (position_of p ?t) (os @ new) c1" by (rule fresh_answered [OF c assms(2) Cons.prems(1,2) q(4) assms(6) Cons.prems(3)])
  note request = wp_request_provider [OF c q(1,3) refl IH [OF t q(4)] quiet1 fresh1]
  show ?case unfolding r
  proof (rule wp_each_Cons)
    show "subop_at p a = Returns q" unfolding q(2) by (rule subop_at_addr [OF c q(1)])
    show "wp p il tp (RequestIU q i) c1 (\<lambda>c'. wp_each p il tp rest c' Q)"
    proof (cases "rest = []")
      case True
      have e: "open_requests s = dn @ [(a, i)]" using Cons.prems(1) r True by simp
      have qs: "q = s" using opens_last [OF c assms(2,3) e] addr_inj [OF c q(1) assms(2)] q(2) by auto
      have "wp p il tp (RequestIU q i) c1 Q"
      proof (rule request [OF assms(7)])
        fix new2 c2 assume n: "grows_by p (os @ new) new2" "?t \<in> set (os @ new) \<union> set new2" "\<forall>u\<in>set new2. is_asked p u \<and> position_of p u \<le> position_of p ?t"
          "ran p il tp (Suc (position_of p ?t)) new2 new2 (asks_of p new2 + {#subop_addr ?t#}) (serves_of new2) c1 c2"
        note st = answered_step [OF Cons.prems(3) ai q(4) n]
        have asks: "mset (map (\<lambda>r. subop_addr (provider p (snd r))) (dn @ [(a, i)])) = mset (asks p s)" unfolding asks_def e case_prod_unfold ..
        show "wp_serve p il tp q i c2 Q" unfolding qs
        proof (rule serve_last [OF c assms(2,3) _ assms(4) _ assms(6,7) st(2,3) _ _ fin])
          show "open_requests s = dn @ [(subop_addr s, i)]" using e q(2) qs by simp
          show "s \<notin> set os \<union> set (new @ new2)" using assms(5) st(3) by auto
          show "\<forall>r\<in>set (open_requests s). provider p (snd r) \<in> set os \<union> set (new @ new2)" using st(4) e by simp
          show "ran p il tp (position_of p s) (new @ new2) (new @ new2) (asks_of p (new @ new2) + mset (asks p s)) (serves_of (new @ new2) + mset (map fst dn)) c c2"
            using st(1) unfolding asks .
        qed
      qed
      then show ?thesis by (rule wp_mono) (use True in \<open>simp add: wp_each_Nil\<close>)
    next
      case False
      let ?R = "\<lambda>c'. \<exists>new'. answered p il tp s os (dn @ [(a, i)]) new' c c'"
      have "wp p il tp (RequestIU q i) c1 ?R"
      proof (rule request [OF answered_stable [OF c]])
        fix new2 c2 assume n: "grows_by p (os @ new) new2" "?t \<in> set (os @ new) \<union> set new2" "\<forall>u\<in>set new2. is_asked p u \<and> position_of p u \<le> position_of p ?t"
          "ran p il tp (Suc (position_of p ?t)) new2 new2 (asks_of p new2 + {#subop_addr ?t#}) (serves_of new2) c1 c2"
        note st = answered_step [OF Cons.prems(3) ai q(4) n]
        show "wp_serve p il tp q i c2 ?R"
        proof (rule serve_more [OF c assms(2) _ False q(1,5) assms(4,6) _ st(2,1)])
          show "open_requests s = dn @ (subop_addr q, i) # rest" using Cons.prems(1) r q(2) by simp
          show "s \<notin> set os \<union> set (new @ new2)" using assms(5) st(3) by auto
          have "ran p il tp (position_of p s) (new @ new2) (new @ new2) (asks_of p (new @ new2) + mset (map (\<lambda>r. subop_addr (provider p (snd r))) (dn @ [(a, i)])))
              (serves_of (new @ new2) + mset (map fst (dn @ [(a, i)]))) c (count_serviced (subop_addr q) c2)"
            using ran_count [OF c q(1) st(1)] q(2) by (simp add: ac_simps)
          then show "\<exists>new'. answered p il tp s os (dn @ [(a, i)]) new' c (count_serviced (subop_addr q) c2)"
            using st(2,3,4) unfolding answered_def by blast
        qed
      qed
      then show ?thesis
      proof (rule wp_mono)
        fix c' assume "?R c'"
        then obtain new' where "answered p il tp s os (dn @ [(a, i)]) new' c c'" by blast
        then show "wp_each p il tp rest c' Q" using Cons.IH [of "dn @ [(a, i)]"] Cons.prems(1) r False by simp
      qed
    qed
  qed
qed simp

theorem all_open_well:
  assumes "compilable p" "s \<in> set (suboperators p)"
  shows "opens_well p il tp s"
  using assms(2)
proof (induction "position_of p s" arbitrary: s rule: less_induct)
  case less
  note c = assms(1) and s = less.prems
  show ?case unfolding opens_well_def
  proof (intro allI impI)
    fix os c Q assume q: "quiet p il tp os c" "s \<notin> set os" "fresh p (position_of p s) os c" "stable p Q"
      and fin: "\<forall>new c1. grows_by p os (new @ [s]) \<longrightarrow> (\<forall>t\<in>set new. is_asked p t \<and> position_of p t < position_of p s) \<longrightarrow>
        ran p il tp (position_of p s) (new @ [s]) new (asks_of p (new @ [s])) (serves_of (new @ [s])) c c1 \<longrightarrow> wp_fin p il tp s c1 Q"
    show "wp p il tp (Open s) c Q"
    proof (cases "generates_in_open s")
      case True
      note ok = code_ok_at [OF assms(1) s]
      have n: "open_requests s = []" "source_ius s = []" using source_requests [OF ok True] source_iff [OF ok] True by auto
      then have g: "grows_by p os ([] @ [s])" using s q(2) by (simp add: grows_by_def)
      then have "after_inputs p {} (os @ [s])" using q(1) by (simp add: quiet_def grows_by_def)
      then obtain g' where "each_outcome (generate p il tp) (os @ [s]) no_code = Returns g'" using generate_all [OF assms(1)] by blast
      then have g': "generate p il tp s (program c) = Returns g'" using q(1) by (simp add: quiet_def each_outcome_append obind_Returns_iff)
      have "ran p il tp (position_of p s) ([] @ [s]) [] (asks_of p ([] @ [s])) (serves_of ([] @ [s])) c (c\<lparr> program := g' \<rparr>)"
        using g' n by (simp add: ran_def asks_def serves_def)
      then have "wp_fin p il tp s (c\<lparr> program := g' \<rparr>) Q" using fin g by (metis empty_iff list.set(1))
      then show ?thesis using wp_open_source [OF True wp_produce [OF g']] by blast
    next
      case False
      note ok = code_ok_at [OF assms(1) s]
      have "source_ius s \<noteq> []" using source_iff [OF ok] False by simp
      then have ne: "open_requests s \<noteq> []" using logic_opens(1) [OF assms(1) _ s] by (cases "is_logic s") (auto simp: open_requests_eq)
      have "answered p il tp s os [] [] c c" using ran_refl by (simp add: answered_def)
      then have "wp_each p il tp (open_requests s) c Q"
        using requests_answered [OF assms(1) s False q, of "[]" "open_requests s"] ne less.hyps fin by fastforce
      then show ?thesis using wp_open [OF False] scope_ok_at [OF assms(1) s] by (simp add: scope_ok_def)
    qed
  qed
qed

section \<open>Opening all roots\<close>

definition between :: "pipeline \<Rightarrow> bool \<Rightarrow> (subop \<Rightarrow> ir_value option) \<Rightarrow> subop list \<Rightarrow> compilation \<Rightarrow> bool" where
  "between p il tp os c \<longleftrightarrow> quiet p il tp os c \<and> (\<forall>k. fresh p k os c) \<and> (\<forall>a. upstream_requests c a = count (asks_of p os) a)"

lemma ran_between:
  assumes "between p il tp os c" "ran p il tp k (new @ [s]) ready (asks_of p (new @ [s])) (serves_of (new @ [s])) c c1"
    and "grows_by p os (new @ [s])" "subop_addr ` set ready = subop_addr ` {t \<in> set (new @ [s]). \<not> isSink t}"
  shows "between p il tp (os @ new @ [s]) c1"
proof -
  have "grows_by p [] (os @ new @ [s])" using assms(1,3) grows_trans [of p "[]" os] by (auto simp: between_def quiet_def)
  moreover have "set (computed c1) = subop_addr ` {t \<in> set (os @ new @ [s]). \<not> isSink t}"
  proof -
    have "{t \<in> set (os @ new @ [s]). \<not> isSink t} = {t \<in> set os. \<not> isSink t} \<union> {t \<in> set (new @ [s]). \<not> isSink t}" by auto
    then show ?thesis using assms(1,2,4) by (simp add: between_def quiet_def ran_def image_Un)
  qed
  ultimately have "quiet p il tp (os @ new @ [s]) c1"
    using assms(1,2) by (simp add: between_def quiet_def ran_def each_outcome_append)
  moreover have "fresh p k' (os @ new @ [s]) c1" for k'
    using assms(1) fresh_ran [OF _ assms(2) order_refl, of k' os "new @ [s]"] by (simp add: between_def)
  ultimately show ?thesis using assms(1,2) by (simp add: between_def ran_def)
qed

lemma between_stable: "compilable p \<Longrightarrow> stable p (between p il tp os)"
  unfolding stable_def
proof (intro allI ballI impI)
  fix c s assume a: "compilable p" "s \<in> set (suboperators p)" "generates_in_consume s" "between p il tp os c"
  have "subop_addr t \<noteq> subop_addr s" if "t \<in> set (suboperators p)" "\<not> generates_in_consume t" for t
    using addr_inj [OF a(1) that(1) a(2)] that(2) a(3) by blast
  then show "between p il tp os (count_serviced (subop_addr s) c)" using a(4) by (simp add: between_def quiet_def fresh_def count_serviced_def)
qed

lemma open_root:
  assumes "compilable p" "s \<in> set (suboperators p)" "isSink s \<or> s \<in> set (without_consumer p)" "between p il tp os c" "s \<notin> set os"
  shows "wp p il tp (Open s) c (\<lambda>c1. \<exists>new. between p il tp (os @ new @ [s]) c1 \<and> (\<forall>t\<in>set new. is_asked p t))"
proof (rule opens_wellD [OF all_open_well [OF assms(1,2)]])
  show "stable p (\<lambda>c1. \<exists>new. between p il tp (os @ new @ [s]) c1 \<and> (\<forall>t\<in>set new. is_asked p t))"
    using between_stable [OF assms(1)] unfolding stable_def by meson
next
  fix new c1 assume new: "grows_by p os (new @ [s])" "\<forall>t\<in>set new. is_asked p t \<and> position_of p t < position_of p s"
    and r: "ran p il tp (position_of p s) (new @ [s]) new (asks_of p (new @ [s])) (serves_of (new @ [s])) c c1"
  have e: "{t. (t = s \<or> t \<in> set new) \<and> \<not> isSink t} = (if isSink s then set new else insert s (set new))"
    using new(2) by (auto simp: is_asked_def)
  show "wp_fin p il tp s c1 (\<lambda>c1. \<exists>new. between p il tp (os @ new @ [s]) c1 \<and> (\<forall>t\<in>set new. is_asked p t))"
  proof (cases "isSink s")
    case True
    then have "between p il tp (os @ new @ [s]) c1" using ran_between [OF assms(4) r new(1)] e by simp
    then show ?thesis using new(2) True by (auto simp: wp_fin_def)
  next
    case False
    have "ran p il tp (position_of p s) (new @ [s]) (new @ [s]) (asks_of p (new @ [s])) (serves_of (new @ [s])) c (mark_computed (subop_addr s) c1)"
      using r by (auto simp: ran_def mark_computed_def)
    then have b: "between p il tp (os @ new @ [s]) (mark_computed (subop_addr s) c1)" using ran_between [OF assms(4) _ new(1)] e False by fastforce
    have "subop_addr s \<in> set (producing_no_request c1)" using assms(3,4) r False by (auto simp: between_def quiet_def ran_def)
    then have "wp p il tp (NotifyIUsReady s) c1 (\<lambda>c1. \<exists>new. between p il tp (os @ new @ [s]) c1 \<and> (\<forall>t\<in>set new. is_asked p t))"
      using b new(2) by (intro wp_notify_root) auto
    then show ?thesis using False by (simp add: wp_fin_def)
  qed
qed (use assms(4,5) in \<open>simp_all add: between_def\<close>)

lemma open_roots:
  assumes "compilable p" "distinct rs" "\<forall>s\<in>set rs. s \<in> set (suboperators p) \<and> \<not> is_asked p s \<and> (isSink s \<or> s \<in> set (without_consumer p))"
    and "between p il tp os c" "set rs \<inter> set os = {}"
  shows "\<exists>N c1 os1. (\<forall>n\<ge>N. each_outcome (\<lambda>s. run_call n p il tp (Open s)) rs c = Returns c1) \<and> between p il tp (os @ os1) c1 \<and> set rs \<subseteq> set os1"
  using assms(2-5)
proof (induction rs arbitrary: c os)
  case Nil
  then show ?case by (intro exI [of _ 0] exI [of _ c] exI [of _ "[]"]) simp
next
  case (Cons s rs)
  then obtain N c' new where N: "\<forall>n\<ge>N. run_call n p il tp (Open s) c = Returns c'" "between p il tp (os @ new @ [s]) c'" "\<forall>t\<in>set new. is_asked p t"
    using open_root [OF assms(1), of s il tp os c] by (auto simp: wp_def)
  have "set rs \<inter> set (os @ new @ [s]) = {}" using Cons.prems N(3) by auto
  then obtain M c1 os1 where M: "\<forall>n\<ge>M. each_outcome (\<lambda>s. run_call n p il tp (Open s)) rs c' = Returns c1"
      "between p il tp ((os @ new @ [s]) @ os1) c1" "set rs \<subseteq> set os1"
    using Cons.IH [OF _ _ N(2)] Cons.prems by auto
  have "\<forall>n\<ge>max N M. each_outcome (\<lambda>s. run_call n p il tp (Open s)) (s # rs) c = Returns c1" using N(1) M(1) by simp
  then show ?case using M(2,3) by (intro exI [of _ "max N M"] exI [of _ c1] exI [of _ "new @ [s] @ os1"]) auto
qed

text \<open>Every suboperator is reached from a root.\<close>

lemma all_reached:
  assumes "compilable p" "grows_by p [] os" "set (compilation_sinks p) \<subseteq> set os"
  shows "set os = set (suboperators p)"
proof
  show "set os \<subseteq> set (suboperators p)" using assms(2) after_inputs_set [of p "{}" os] by (auto simp: grows_by_def)
  have "t \<in> set os" if "t \<in> set (suboperators p)" for t
    using that
  proof (induction "length (suboperators p) - position_of p t" arbitrary: t rule: less_induct)
    case less
    show ?case
    proof (cases "isSink t \<or> outgoing_edges p (subop_addr t) = None")
      case True
      then show ?thesis using assms(3) less.prems by (auto simp: compilation_sinks_def without_consumer_def)
    next
      case False
      then obtain s i where s: "s \<in> set (suboperators p)" "i \<in> set (source_ius s)" "provider p i = t"
        using consumer_exists [OF assms(1) less.prems] by blast
      have "position_of p t < position_of p s" using source_provider(3) [OF assms(1) s(1,2)] s(3) by simp
      moreover obtain pre post where "suboperators p = pre @ s # post" using split_list [OF s(1)] by blast
      then have "position_of p s < length (suboperators p)" using position_split [OF assms(1)] by simp
      ultimately have "s \<in> set os" using less.hyps [OF _ s(1)] by simp
      then show ?thesis using after_inputs_in [of p "{}" os s i] assms(2) s by (auto simp: grows_by_def)
    qed
  qed
  then show "set (suboperators p) \<subseteq> set os" by blast
qed

lemma roots_opened:
  assumes "compilable p"
  shows "\<exists>N c1 os. (\<forall>n\<ge>N. each_outcome (\<lambda>s. run_call n p il tp (Open s)) (compilation_sinks p) (CompilationContext p) = Returns c1) \<and>
    after_inputs p {} os \<and> mset os = mset (suboperators p) \<and> each_outcome (generate p il tp) os no_code = Returns (program c1) \<and>
    (\<forall>a. upstream_requests c1 a = count (mset (concat (map (producers p) os))) a)"
proof -
  have d: "distinct (suboperators p)" using assms by (simp add: compilable_def built_def distinct_map)
  have "between p il tp [] (CompilationContext p)" by (simp add: between_def quiet_def fresh_def CompilationContext_def)
  moreover have "distinct (compilation_sinks p)" using d by (auto simp: compilation_sinks_def without_consumer_def)
  moreover have "\<forall>s\<in>set (compilation_sinks p). s \<in> set (suboperators p) \<and> \<not> is_asked p s \<and> (isSink s \<or> s \<in> set (without_consumer p))"
    by (auto simp: compilation_sinks_def without_consumer_def is_asked_def)
  moreover have "set (compilation_sinks p) \<inter> set [] = {}" by simp
  ultimately have "\<exists>N c1 os. (\<forall>n\<ge>N. each_outcome (\<lambda>s. run_call n p il tp (Open s)) (compilation_sinks p) (CompilationContext p) = Returns c1) \<and>
      between p il tp ([] @ os) c1 \<and> set (compilation_sinks p) \<subseteq> set os" using open_roots [OF assms] by blast
  then obtain N c1 os where o: "\<forall>n\<ge>N. each_outcome (\<lambda>s. run_call n p il tp (Open s)) (compilation_sinks p) (CompilationContext p) = Returns c1"
      "between p il tp os c1" "set (compilation_sinks p) \<subseteq> set os"
    unfolding append_Nil by blast
  have g: "grows_by p [] os" "after_inputs p {} os" using o(2) by (auto simp: between_def quiet_def grows_by_def)
  have "set os = set (suboperators p)" by (rule all_reached [OF assms g(1) o(3)])
  then have m: "mset os = mset (suboperators p)" using after_inputs_set [OF g(2)] d by (simp add: set_eq_iff_mset_eq_distinct)
  show ?thesis using o(1,2) g(2) m asks_all [OF assms m]
    by (intro exI [of _ N] exI [of _ c1] exI [of _ os]) (auto simp: between_def quiet_def)
qed

end
