(* ===== verification/Compilation_Close.thy ===== *)
theory Compilation_Close
  imports Compilation_Order
begin

text \<open>
  The closing phase of a compilation: a suboperator is closed when its last consumer has been, so every one is closed once, before its
  inputs, and the loops and scopes are ended.
\<close>

section \<open>The end of the code of a suboperator\<close>

lemma generate_close_returns:
  assumes "code_ok s" "set (declares s) \<subseteq> dom (iu_declarations g)" "opens_control s \<Longrightarrow> subop_addr s \<in> dom (opt_control g)"
  shows "\<exists>g'. generate_close s g = Returns g' \<and> iu_declarations g' = iu_declarations g \<and>
    dom (opt_control g') = dom (opt_control g) - (if opens_control s then {subop_addr s} else {})"
proof -
  have e: "opens_control s \<Longrightarrow> \<exists>g'. end_control s (g\<lparr> fct_builder := b \<rparr>) = Returns g' \<and> iu_declarations g' = iu_declarations g \<and>
      dom (opt_control g') = dom (opt_control g) - {subop_addr s}" for b
    using assms(3) by (auto simp: end_control_def)
  have st: "\<exists>st. loop_step (iu_declarations g) s = Returns st" if "generates_in_open s" "kind s \<noteq> ScratchPadIUProvider"
  proof -
    have "hd (provided_ius s) \<in> dom (iu_declarations g)"
      using assms(2) that by (auto simp: generates_in_open_def declares_def split: subop_kind.splits)
    then obtain t where "iu_declarations g (hd (provided_ius s)) = Some t" by auto
    then show ?thesis using assms(1) that
      by (auto simp: loop_step_def Let_def getIUDeclaration_def at_map_def code_ok_def invoke_returns split: subop_kind.splits)
  qed
  show ?thesis
  proof (cases "opens_control s")
    case True
    show ?thesis
    proof (cases "generates_in_open s")
      case True
      moreover have "kind s \<noteq> ScratchPadIUProvider" using \<open>opens_control s\<close> by (auto simp: opens_control_def)
      ultimately obtain st where "loop_step (iu_declarations g) s = Returns st" using st by blast
      then show ?thesis using True \<open>opens_control s\<close> e [of "appendStmt st (fct_builder g)"]
        by (auto simp: generate_close_def generates_in_open_def opens_control_def split: subop_kind.splits)
    next
      case False
      then show ?thesis using True e [of "fct_builder g"]
        by (auto simp: generate_close_def generates_in_open_def opens_control_def split: subop_kind.splits)
    qed
  next
    case False
    then show ?thesis by (auto simp: generate_close_def generates_in_open_def opens_control_def split: subop_kind.splits)
  qed
qed

section \<open>Counting down\<close>

definition still_open :: "pipeline \<Rightarrow> subop list \<Rightarrow> subop list" where
  "still_open p cs = filter (\<lambda>s. s \<notin> set cs) (suboperators p)"

definition edges_of :: "pipeline \<Rightarrow> subop list \<Rightarrow> nat multiset" where
  "edges_of p os = mset (concat (map (producers p) os))"

definition after_consumers :: "pipeline \<Rightarrow> subop list \<Rightarrow> bool" where
  "after_consumers p cs \<longleftrightarrow> (\<forall>xs t ys. cs = xs @ t # ys \<longrightarrow> (\<forall>r\<in>set (suboperators p). \<forall>i\<in>set (source_ius r). provider p i = t \<longrightarrow> r \<in> set xs))"

lemma after_consumers_snoc:
  "after_consumers p cs \<Longrightarrow> \<forall>r\<in>set (suboperators p). \<forall>i\<in>set (source_ius r). provider p i = s \<longrightarrow> r \<in> set cs \<Longrightarrow> after_consumers p (cs @ [s])"
  unfolding after_consumers_def
  by (metis butlast.simps(2) butlast_append butlast_snoc last_appendR last_snoc neq_Nil_conv)

text \<open>\<open>pend\<close> are the edges whose consumer is being closed, \<open>X\<close> who is about to be closed.\<close>

definition closing :: "pipeline \<Rightarrow> generated \<Rightarrow> subop list \<Rightarrow> nat multiset \<Rightarrow> subop set \<Rightarrow> compilation \<Rightarrow> bool" where
  "closing p g cs pend X c \<longleftrightarrow> set cs \<subseteq> set (suboperators p) \<and> distinct cs \<and> after_consumers p cs \<and>
     (\<forall>a. upstream_requests c a = count (edges_of p (still_open p cs) + pend) a) \<and>
     (\<forall>t\<in>set cs. upstream_requests c (subop_addr t) = 0) \<and>
     (\<forall>t\<in>set (suboperators p). t \<notin> set cs \<longrightarrow> t \<notin> X \<longrightarrow> is_asked p t \<longrightarrow> 0 < upstream_requests c (subop_addr t)) \<and>
     each_outcome generate_close cs g = Returns (program c) \<and>
     (\<forall>s\<in>set (suboperators p). set (declares s) \<subseteq> dom (iu_declarations (program c)) \<and>
        (s \<notin> set cs \<longrightarrow> opens_control s \<longrightarrow> subop_addr s \<in> dom (opt_control (program c))))"

lemma edges_close:
  assumes "compilable p" "s \<in> set (suboperators p)" "s \<notin> set cs"
  shows "edges_of p (still_open p cs) = edges_of p (still_open p (cs @ [s])) + mset (producers p s)"
proof -
  have d: "distinct (suboperators p)" using assms(1) by (simp add: compilable_def built_def distinct_map)
  have "mset (filter (\<lambda>t. t \<notin> set cs) ops) = add_mset s (mset (filter (\<lambda>t. t \<notin> set (cs @ [s])) ops))" if "distinct ops" "s \<in> set ops" for ops
    using that
  proof (induction ops)
    case (Cons t ops)
    show ?case
    proof (cases "t = s")
      case True
      then have "filter (\<lambda>t. t \<notin> set (cs @ [s])) ops = filter (\<lambda>t. t \<notin> set cs) ops" using Cons.prems by (auto intro: filter_cong)
      then show ?thesis using True assms(3) by simp
    next
      case False then show ?thesis using Cons by simp
    qed
  qed simp
  from this [OF d assms(2)] have "mset (still_open p cs) = add_mset s (mset (still_open p (cs @ [s])))" by (simp add: still_open_def)
  then have "mset (still_open p cs) = mset (s # still_open p (cs @ [s]))" by simp
  from mset_concat_perm [OF this, of "producers p"] show ?thesis by (simp add: edges_of_def)
qed

text \<open>A suboperator without open consumers is closed: its code ends, and its own edges become pending.\<close>

lemma closing_close:
  assumes "compilable p" "closing p g cs pend X c" "s \<in> set (suboperators p)" "s \<notin> set cs" "upstream_requests c (subop_addr s) = 0" "X \<subseteq> {s}"
  shows "\<exists>g'. generate_close s (program c) = Returns g' \<and> closing p g (cs @ [s]) (pend + mset (producers p s)) {} (c\<lparr> program := g' \<rparr>)"
proof -
  have "set (declares s) \<subseteq> dom (iu_declarations (program c))" "opens_control s \<Longrightarrow> subop_addr s \<in> dom (opt_control (program c))"
    using assms(2,3,4) by (auto simp: closing_def)
  then obtain g' where g': "generate_close s (program c) = Returns g'" "iu_declarations g' = iu_declarations (program c)"
      "dom (opt_control g') = dom (opt_control (program c)) - (if opens_control s then {subop_addr s} else {})"
    using generate_close_returns [OF code_ok_at [OF assms(1,3)]] by blast
  have "count (edges_of p (still_open p cs)) (subop_addr s) = 0" using assms(2,5) by (simp add: closing_def)
  then have "subop_addr s \<notin># edges_of p (still_open p cs)" by (simp add: count_eq_zero_iff)
  then have "r \<in> set cs" if "r \<in> set (suboperators p)" "i \<in> set (source_ius r)" "provider p i = s" for r i
    using that by (auto simp: edges_of_def still_open_def producers_def)
  then have ac: "after_consumers p (cs @ [s])" using assms(2) by (intro after_consumers_snoc) (auto simp: closing_def)
  have ne: "subop_addr t \<noteq> subop_addr s" if "t \<in> set (suboperators p)" "t \<noteq> s" for t using addr_inj [OF assms(1) that(1) assms(3)] that(2) by blast
  have "closing p g (cs @ [s]) (pend + mset (producers p s)) {} (c\<lparr> program := g' \<rparr>)"
    unfolding closing_def
  proof (intro conjI)
    show "\<forall>a. upstream_requests (c\<lparr> program := g' \<rparr>) a = count (edges_of p (still_open p (cs @ [s])) + (pend + mset (producers p s))) a"
      using assms(2) by (simp add: closing_def edges_close [OF assms(1,3,4)])
    show "\<forall>t\<in>set (suboperators p). set (declares t) \<subseteq> dom (iu_declarations (program (c\<lparr> program := g' \<rparr>))) \<and>
        (t \<notin> set (cs @ [s]) \<longrightarrow> opens_control t \<longrightarrow> subop_addr t \<in> dom (opt_control (program (c\<lparr> program := g' \<rparr>))))"
      using assms(2) ne by (simp add: closing_def g'(2,3))
  qed (use assms ac g'(1) in \<open>auto simp: closing_def each_outcome_append\<close>)
  then show ?thesis using g'(1) by blast
qed

text \<open>One edge less.\<close>

lemma closing_dec:
  assumes "compilable p" "closing p g cs (add_mset (subop_addr t) pend) {} c" "t \<in> set (suboperators p)"
  shows "t \<notin> set cs" "closing p g cs pend {t} (dec_requests (subop_addr t) c)"
    "upstream_requests (dec_requests (subop_addr t) c) (subop_addr t) \<noteq> 0 \<Longrightarrow> closing p g cs pend {} (dec_requests (subop_addr t) c)"
proof -
  have u: "upstream_requests c (subop_addr t) = Suc (count (edges_of p (still_open p cs) + pend) (subop_addr t))"
    using assms(2) by (simp add: closing_def)
  then show t: "t \<notin> set cs" using assms(2) by (auto simp: closing_def)
  have ne: "subop_addr v \<noteq> subop_addr t" if "v \<in> set (suboperators p)" "v \<noteq> t" for v using addr_inj [OF assms(1) that(1) assms(3)] that(2) by blast
  have up: "upstream_requests (dec_requests (subop_addr t) c) a = count (edges_of p (still_open p cs) + pend) a" for a
    using assms(2) u by (simp add: closing_def dec_requests_def)
  have cs: "\<forall>v\<in>set cs. upstream_requests (dec_requests (subop_addr t) c) (subop_addr v) = 0"
    using assms(2) t ne by (auto simp: closing_def dec_requests_def)
  have live: "\<forall>v\<in>set (suboperators p). v \<notin> set cs \<longrightarrow> v \<noteq> t \<longrightarrow> is_asked p v \<longrightarrow> 0 < upstream_requests (dec_requests (subop_addr t) c) (subop_addr v)"
    using assms(2) ne by (auto simp: closing_def dec_requests_def)
  have pr: "program (dec_requests (subop_addr t) c) = program c" by (simp add: dec_requests_def)
  show "closing p g cs pend {t} (dec_requests (subop_addr t) c)"
    using assms(2) up cs live unfolding closing_def pr by blast
  show "closing p g cs pend {} (dec_requests (subop_addr t) c)" if "upstream_requests (dec_requests (subop_addr t) c) (subop_addr t) \<noteq> 0"
    using assms(2) up cs live that unfolding closing_def pr by blast
qed

section \<open>Closing a suboperator and what it releases\<close>

definition closes_well :: "pipeline \<Rightarrow> subop \<Rightarrow> bool" where
  "closes_well p s \<longleftrightarrow> (\<forall>g cs pend X c. closing p g cs pend X c \<longrightarrow> s \<notin> set cs \<longrightarrow> X \<subseteq> {s} \<longrightarrow> upstream_requests c (subop_addr s) = 0 \<longrightarrow>
     (\<exists>N c1 new. (\<forall>n\<ge>N. close_op n p s c = Returns c1) \<and> closing p g (cs @ s # new) pend {} c1 \<and> (\<forall>t\<in>set new. is_asked p t)))"

lemma producers_closed:
  assumes "compilable p" "\<And>i. i \<in> set is \<Longrightarrow> closes_well p (provider p i) \<and> provider p i \<in> set (suboperators p) \<and> is_asked p (provider p i)"
  shows "closing p g cs (pend + mset (map (\<lambda>i. subop_addr (provider p i)) is)) {} c \<Longrightarrow>
    \<exists>N c1 new. (\<forall>n\<ge>N. each_outcome (close_producer p (close_op n p)) (map (\<lambda>i. subop_addr (provider p i)) is) c = Returns c1) \<and>
      closing p g (cs @ new) pend {} c1 \<and> (\<forall>t\<in>set new. is_asked p t)"
  using assms(2)
proof (induction "is" arbitrary: cs c)
  case Nil
  then show ?case by (intro exI [of _ 0] exI [of _ c] exI [of _ "[]"]) simp
next
  case (Cons i "is")
  let ?t = "provider p i" and ?rest = "map (\<lambda>i. subop_addr (provider p i)) is"
  let ?a = "subop_addr ?t" and ?pend = "pend + mset ?rest"
  let ?c = "dec_requests ?a c"
  have t: "closes_well p ?t" "?t \<in> set (suboperators p)" "is_asked p ?t" using Cons.prems(2) by simp_all
  have cl: "closing p g cs (add_mset ?a ?pend) {} c" using Cons.prems(1) by simp
  note dec = closing_dec [OF assms(1) cl t(2)]
  have "\<exists>N c1 new. (\<forall>n\<ge>N. close_producer p (close_op n p) ?a c = Returns c1) \<and> closing p g (cs @ new) ?pend {} c1 \<and> (\<forall>t\<in>set new. is_asked p t)"
  proof (cases "upstream_requests ?c ?a = 0")
    case True
    then obtain N c1 new where "\<forall>n\<ge>N. close_op n p ?t ?c = Returns c1" "closing p g (cs @ ?t # new) ?pend {} c1" "\<forall>t\<in>set new. is_asked p t"
      using t(1) dec(1,2) unfolding closes_well_def by (metis order_refl)
    then show ?thesis using True subop_at_addr [OF assms(1) t(2)] t(3)
      by (intro exI [of _ N] exI [of _ c1] exI [of _ "?t # new"]) (simp add: close_producer_def Let_def)
  next
    case False
    then show ?thesis using dec(3) by (intro exI [of _ 0] exI [of _ ?c] exI [of _ "[]"]) (simp add: close_producer_def Let_def)
  qed
  then obtain N c1 new where N: "\<forall>n\<ge>N. close_producer p (close_op n p) ?a c = Returns c1" "closing p g (cs @ new) ?pend {} c1" "\<forall>t\<in>set new. is_asked p t"
    by blast
  obtain M c2 new2 where M: "\<forall>n\<ge>M. each_outcome (close_producer p (close_op n p)) ?rest c1 = Returns c2"
      "closing p g ((cs @ new) @ new2) pend {} c2" "\<forall>t\<in>set new2. is_asked p t"
    using Cons.IH [OF N(2)] Cons.prems(2) by auto
  have "\<forall>n\<ge>max N M. each_outcome (close_producer p (close_op n p)) (map (\<lambda>i. subop_addr (provider p i)) (i # is)) c = Returns c2"
    using N(1) M(1) by simp
  then show ?case using N(3) M(2,3) by (intro exI [of _ "max N M"] exI [of _ c2] exI [of _ "new @ new2"]) auto
qed

lemma all_close_well:
  assumes "compilable p" "s \<in> set (suboperators p)"
  shows "closes_well p s"
  using assms(2)
proof (induction "position_of p s" arbitrary: s rule: less_induct)
  case less
  note s = less.prems
  show ?case unfolding closes_well_def
  proof (intro allI impI)
    fix g cs pend X c assume a: "closing p g cs pend X c" "s \<notin> set cs" "X \<subseteq> {s}" "upstream_requests c (subop_addr s) = 0"
    obtain g' where g': "generate_close s (program c) = Returns g'" "closing p g (cs @ [s]) (pend + mset (producers p s)) {} (c\<lparr> program := g' \<rparr>)"
      using closing_close [OF assms(1) a(1) s a(2,4,3)] by blast
    let ?c = "c\<lparr> program := g' \<rparr>"
    have step: "close_op (Suc n) p s c = (if generates_in_open s then Returns ?c else notifyOpClosed p (close_op n p) s ?c)" for n
      by (simp add: g'(1))
    have "\<exists>N c1 new. (\<forall>n\<ge>N. close_op (Suc n) p s c = Returns c1) \<and> closing p g (cs @ s # new) pend {} c1 \<and> (\<forall>t\<in>set new. is_asked p t)"
    proof (cases "generates_in_open s")
      case True
      then have "producers p s = []" using source_iff [OF code_ok_at [OF assms(1) s]] by (simp add: producers_def)
      then show ?thesis using g'(2) True step by (intro exI [of _ 0] exI [of _ ?c] exI [of _ "[]"]) simp
    next
      case False
      then obtain j where j: "j \<in> set (source_ius s)" using source_iff [OF code_ok_at [OF assms(1) s]] by (cases "source_ius s") auto
      have ok: "closes_well p (provider p i) \<and> provider p i \<in> set (suboperators p) \<and> is_asked p (provider p i)" if "i \<in> set (source_ius s)" for i
        using less.hyps source_provider(1,3) [OF assms(1) s that] provider_has_consumer [OF assms(1) s that] by (simp add: is_asked_def)
      obtain N c1 new where "\<forall>n\<ge>N. each_outcome (close_producer p (close_op n p)) (producers p s) ?c = Returns c1"
          "closing p g ((cs @ [s]) @ new) pend {} c1" "\<forall>t\<in>set new. is_asked p t"
        using producers_closed [OF assms(1) ok g'(2) [unfolded producers_def]] unfolding producers_def by blast
      then show ?thesis using False step source_provider(4) [OF assms(1) s j]
        by (intro exI [of _ N] exI [of _ c1] exI [of _ new]) (simp add: notifyOpClosed_def producers_def)
    qed
    then obtain N c1 new where N: "\<forall>n\<ge>N. close_op (Suc n) p s c = Returns c1" "closing p g (cs @ s # new) pend {} c1" "\<forall>t\<in>set new. is_asked p t" by blast
    have "close_op n p s c = Returns c1" if "n \<ge> Suc N" for n using N(1) that by (cases n) (auto simp del: close_op.simps)
    then show "\<exists>N c1 new. (\<forall>n\<ge>N. close_op n p s c = Returns c1) \<and> closing p g (cs @ s # new) pend {} c1 \<and> (\<forall>t\<in>set new. is_asked p t)"
      using N(2,3) by blast
  qed
qed

section \<open>Closing all roots\<close>

lemma root_unrequested:
  assumes "compilable p" "s \<in> set (suboperators p)" "\<not> is_asked p s" "closing p g cs {#} {} c"
  shows "upstream_requests c (subop_addr s) = 0"
proof -
  have "subop_addr s \<notin># edges_of p (still_open p cs)"
  proof
    assume "subop_addr s \<in># edges_of p (still_open p cs)"
    then obtain r i where r: "r \<in> set (suboperators p)" "i \<in> set (source_ius r)" "subop_addr s = subop_addr (provider p i)"
      by (auto simp: edges_of_def still_open_def producers_def)
    then have "provider p i = s" using addr_inj [OF assms(1,2)] source_provider(1) [OF assms(1) r(1,2)] by blast
    then show False using provider_has_consumer [OF assms(1) r(1,2)] assms(3) by (simp add: is_asked_def)
  qed
  then show ?thesis using assms(4) by (simp add: closing_def count_eq_zero_iff)
qed

lemma roots_closed:
  assumes "compilable p" "distinct rs" "\<forall>s\<in>set rs. s \<in> set (suboperators p) \<and> \<not> is_asked p s" "closing p g cs {#} {} c" "set rs \<inter> set cs = {}"
  shows "\<exists>N c1 cs1. (\<forall>n\<ge>N. each_outcome (close_op n p) rs c = Returns c1) \<and> closing p g (cs @ cs1) {#} {} c1 \<and> set rs \<subseteq> set cs1"
  using assms(2-5)
proof (induction rs arbitrary: c cs)
  case Nil
  then show ?case by (intro exI [of _ 0] exI [of _ c] exI [of _ "[]"]) simp
next
  case (Cons s rs)
  have "s \<in> set (suboperators p)" "upstream_requests c (subop_addr s) = 0" "s \<notin> set cs"
    using root_unrequested [OF assms(1)] Cons.prems by auto
  then obtain N c' new where N: "\<forall>n\<ge>N. close_op n p s c = Returns c'" "closing p g (cs @ s # new) {#} {} c'" "\<forall>t\<in>set new. is_asked p t"
    using all_close_well [OF assms(1)] Cons.prems(3) unfolding closes_well_def by (metis empty_subsetI)
  have "set rs \<inter> set (cs @ s # new) = {}" using Cons.prems N(3) by auto
  then obtain M c1 cs1 where M: "\<forall>n\<ge>M. each_outcome (close_op n p) rs c' = Returns c1" "closing p g ((cs @ s # new) @ cs1) {#} {} c1" "set rs \<subseteq> set cs1"
    using Cons.IH [OF _ _ N(2)] Cons.prems by auto
  have "\<forall>n\<ge>max N M. each_outcome (close_op n p) (s # rs) c = Returns c1" using N(1) M(1) by simp
  then show ?case using M(2,3) by (intro exI [of _ "max N M"] exI [of _ c1] exI [of _ "s # new @ cs1"]) auto
qed

lemma all_closed:
  assumes "compilable p" "closing p g cs {#} {} c" "set (compilation_sinks p) \<subseteq> set cs"
  shows "mset cs = mset (suboperators p)"
proof -
  have "t \<in> set cs" if "t \<in> set (suboperators p)" for t
    using that
  proof (induction "length (suboperators p) - position_of p t" arbitrary: t rule: less_induct)
    case less
    show ?case
    proof (rule ccontr)
      assume t: "t \<notin> set cs"
      then have "is_asked p t" using assms(3) less.prems by (auto simp: compilation_sinks_def without_consumer_def is_asked_def)
      then have "0 < upstream_requests c (subop_addr t)" using assms(2) less.prems t by (auto simp: closing_def)
      then have "subop_addr t \<in># edges_of p (still_open p cs)" using assms(2) by (simp add: closing_def)
      then obtain r i where r: "r \<in> set (suboperators p)" "r \<notin> set cs" "i \<in> set (source_ius r)" "subop_addr t = subop_addr (provider p i)"
        by (auto simp: edges_of_def still_open_def producers_def)
      then have "provider p i = t" using addr_inj [OF assms(1) less.prems] source_provider(1) [OF assms(1) r(1,3)] by blast
      then have "position_of p t < position_of p r" using source_provider(3) [OF assms(1) r(1,3)] by simp
      moreover obtain pre post where "suboperators p = pre @ r # post" using split_list [OF r(1)] by blast
      then have "position_of p r < length (suboperators p)" using position_split [OF assms(1)] by simp
      ultimately have "r \<in> set cs" using less.hyps [OF _ r(1)] by simp
      then show False using r(2) by simp
    qed
  qed
  then have "set cs = set (suboperators p)" using assms(2) by (auto simp: closing_def)
  moreover have "distinct cs" "distinct (suboperators p)" using assms(1,2) by (auto simp: closing_def compilable_def built_def distinct_map)
  ultimately show ?thesis by (simp add: set_eq_iff_mset_eq_distinct)
qed

end
