(* ===== verification/Compilation_Scopes.thy ===== *)
theory Compilation_Scopes
  imports Compilation_Close
begin

text \<open>
  The block structure of the generated program: a variable is read where a declaration is visible, and blocks are entered and left like
  brackets. The check follows the definite assignment analyses of imperative languages.
\<close>

section \<open>Scoped programs\<close>

text \<open>\<open>C\<close> are the blocks that may be entered.\<close>

inductive scoped :: "ir_stmt list list \<Rightarrow> nat set \<Rightarrow> var set \<Rightarrow> ir_stmt list \<Rightarrow> bool" for bs C where
  end_of_block: "scoped bs C V []"
| statement: "set (stmt_reads st) \<subseteq> V \<Longrightarrow> stmt_block st = None \<Longrightarrow> scoped bs C (V \<union> stmt_declares st) ss \<Longrightarrow> scoped bs C V (st # ss)"
| inner_block: "set (stmt_reads st) \<subseteq> V \<Longrightarrow> stmt_block st = Some k \<Longrightarrow> k \<in> C \<Longrightarrow> scoped bs C V (bs ! k) \<Longrightarrow> scoped bs C V ss \<Longrightarrow> scoped bs C V (st # ss)"

definition well_scoped :: "builder \<Rightarrow> bool" where
  "well_scoped b \<longleftrightarrow> scoped (blocks b) {..<length (blocks b)} {GlobalState} (blocks b ! 0)"

definition vars_of :: "ir_stmt list \<Rightarrow> var set" where
  "vars_of ss = (\<Union>st\<in>set ss. stmt_declares st)"

lemma vars_of_simps [simp]: "vars_of [] = {}" "vars_of (st # ss) = stmt_declares st \<union> vars_of ss" "vars_of (xs @ ys) = vars_of xs \<union> vars_of ys"
  by (auto simp: vars_of_def)

lemma block_declares_nothing: "stmt_block st = Some k \<Longrightarrow> stmt_declares st = {}"
  by (cases st) auto

lemma scoped_mono: "scoped bs C V ss \<Longrightarrow> C \<subseteq> C' \<Longrightarrow> \<forall>k\<in>C. bs' ! k = bs ! k \<Longrightarrow> V \<subseteq> V' \<Longrightarrow> scoped bs' C' V' ss"
proof (induction arbitrary: V' rule: scoped.induct)
  case (end_of_block V) show ?case by (rule scoped.end_of_block)
next
  case (statement st V ss)
  have "scoped bs' C' (V' \<union> stmt_declares st) ss" using statement.prems by (intro statement.IH) auto
  then show ?case using statement.hyps statement.prems by (intro scoped.statement) auto
next
  case (inner_block st V k ss)
  then show ?case by (intro scoped.inner_block [of st V' k]) auto
qed

lemma scoped_append: "scoped bs C V xs \<Longrightarrow> scoped bs C (V \<union> vars_of xs) ys \<Longrightarrow> scoped bs C V (xs @ ys)"
proof (induction arbitrary: ys rule: scoped.induct)
  case (statement st V ss)
  then show ?case by (auto simp: Un_assoc intro: scoped.statement)
next
  case (inner_block st V k ss)
  then show ?case by (auto simp: block_declares_nothing intro: scoped.inner_block)
qed simp

lemma scoped_one: "set (stmt_reads st) \<subseteq> V \<Longrightarrow> (case stmt_block st of None \<Rightarrow> True | Some k \<Rightarrow> k \<in> C \<and> scoped bs C V (bs ! k)) \<Longrightarrow> scoped bs C V [st]"
  by (cases "stmt_block st") (auto intro: scoped.intros)

section \<open>Open blocks\<close>

text \<open>The statement lists of the open blocks, from the root to the current one, with the controls that will end them.\<close>

fun nested :: "ir_stmt list list \<Rightarrow> nat set \<Rightarrow> var set \<Rightarrow> nat \<Rightarrow> control list \<Rightarrow> bool" where
  "nested bs C V b [] \<longleftrightarrow> scoped bs C V (bs ! b)"
| "nested bs C V b (c # cs) \<longleftrightarrow> scoped bs C V (bs ! b) \<and> original_block c = b \<and> set (reads (condition c)) \<subseteq> V \<union> vars_of (bs ! b) \<and>
     nested bs C (V \<union> vars_of (bs ! b)) (own_block c) cs"

definition open_blocks :: "control list \<Rightarrow> nat list" where
  "open_blocks cs = 0 # map own_block cs"

definition visible :: "builder \<Rightarrow> control list \<Rightarrow> var set" where
  "visible b cs = {GlobalState} \<union> (\<Union>k\<in>set (open_blocks cs). vars_of (blocks b ! k))"

definition placed :: "builder \<Rightarrow> nat set \<Rightarrow> control list \<Rightarrow> bool" where
  "placed b C cs \<longleftrightarrow> nested (blocks b) C {GlobalState} 0 cs \<and> distinct (open_blocks cs) \<and> set (open_blocks cs) \<union> C \<subseteq> {..<length (blocks b)} \<and>
     set (open_blocks cs) \<inter> C = {} \<and> curr_block b = last (open_blocks cs)"

lemma nested_mono:
  "nested bs C V b cs \<Longrightarrow> V \<subseteq> V' \<Longrightarrow> \<forall>k\<in>C. bs' ! k = bs ! k \<Longrightarrow> \<forall>k\<in>insert b (set (map own_block cs)). bs' ! k = bs ! k \<Longrightarrow> nested bs' C V' b cs"
proof (induction cs arbitrary: V V' b)
  case Nil
  have "scoped bs' C V' (bs ! b)" by (rule scoped_mono [of bs C V]) (use Nil.prems in auto)
  then show ?case using Nil.prems(4) by simp
next
  case (Cons c cs)
  have e: "bs' ! b = bs ! b" using Cons.prems(4) by simp
  have "nested bs' C (V' \<union> vars_of (bs ! b)) (own_block c) cs"
  proof (rule Cons.IH)
    show "nested bs C (V \<union> vars_of (bs ! b)) (own_block c) cs" using Cons.prems(1) by simp
    show "V \<union> vars_of (bs ! b) \<subseteq> V' \<union> vars_of (bs ! b)" using Cons.prems(2) by blast
    show "\<forall>k\<in>C. bs' ! k = bs ! k" by (rule Cons.prems(3))
    show "\<forall>k\<in>insert (own_block c) (set (map own_block cs)). bs' ! k = bs ! k" using Cons.prems(4) by simp
  qed
  moreover have "scoped bs' C V' (bs ! b)" by (rule scoped_mono [of bs C V]) (use Cons.prems in auto)
  moreover have "original_block c = b" "set (reads (condition c)) \<subseteq> V' \<union> vars_of (bs ! b)" using Cons.prems(1,2) by auto
  ultimately show ?case unfolding nested.simps e by blast
qed

lemma nested_more: "nested bs C V b cs \<Longrightarrow> C \<subseteq> C' \<Longrightarrow> nested bs C' V b cs"
proof (induction cs arbitrary: V b)
  case Nil then show ?case using scoped_mono [of bs C V "bs ! b" C' bs V] by simp
next
  case (Cons c cs) then show ?case using scoped_mono [of bs C V "bs ! b" C' bs V] by simp
qed

text \<open>Appending a statement to one of the open blocks.\<close>

lemma nested_append_to:
  assumes "nested bs C V b cs" "k \<in> insert b (set (map own_block cs))" "distinct (b # map own_block cs)" "insert b (set (map own_block cs)) \<inter> C = {}"
    and "insert b (set (map own_block cs)) \<subseteq> {..<length bs}"
    and "scoped bs C (V \<union> (if k = b then vars_of (bs ! b) else (\<Union>j\<in>insert b (set (map own_block cs)). vars_of (bs ! j)))) [st]"
    and last: "k = b \<or> k = last (b # map own_block cs)"
  shows "nested (bs[k := bs ! k @ [st]]) C V b cs"
  using assms
proof (induction cs arbitrary: V b)
  case Nil
  let ?bs = "bs[k := bs ! k @ [st]]"
  have kb: "k = b" "b < length bs" "b \<notin> C" using Nil.prems by auto
  have "scoped ?bs C V (bs ! b)" by (rule scoped_mono [of bs C V]) (use Nil.prems(1) kb in \<open>auto simp: nth_list_update\<close>)
  moreover have "scoped ?bs C (V \<union> vars_of (bs ! b)) [st]"
    by (rule scoped_mono [of bs C "V \<union> vars_of (bs ! b)"]) (use Nil.prems(6) kb in \<open>auto simp: nth_list_update\<close>)
  ultimately show ?case using kb by (simp add: scoped_append)
next
  case (Cons c cs)
  let ?bs = "bs[k := bs ! k @ [st]]"
  have "k \<notin> C" using Cons.prems(2,4) by auto
  then have C: "\<forall>j\<in>C. ?bs ! j = bs ! j" by (metis nth_list_update_neq)
  show ?case
  proof (cases "k = b")
    case True
    have "scoped ?bs C V (bs ! b)" by (rule scoped_mono [of bs C V]) (use Cons.prems(1) C in simp_all)
    moreover have "scoped ?bs C (V \<union> vars_of (bs ! b)) [st]"
      by (rule scoped_mono [of bs C "V \<union> vars_of (bs ! b)"]) (use Cons.prems(6) True C in simp_all)
    moreover have "nested ?bs C (V \<union> vars_of (?bs ! b)) (own_block c) cs"
    proof (rule nested_mono [of bs C "V \<union> vars_of (bs ! b)"])
      show "V \<union> vars_of (bs ! b) \<subseteq> V \<union> vars_of (?bs ! b)" using Cons.prems(5) True by auto
      have "k \<notin> insert (own_block c) (set (map own_block cs))" using Cons.prems(3) True by auto
      then show "\<forall>j\<in>insert (own_block c) (set (map own_block cs)). ?bs ! j = bs ! j" by (metis nth_list_update_neq)
    qed (use Cons.prems(1) C in auto)
    moreover have "?bs ! b = bs ! b @ [st]" using Cons.prems(5) True by simp
    ultimately show ?thesis using Cons.prems(1) by (auto simp: scoped_append)
  next
    case False
    then have b: "?bs ! b = bs ! b" by (simp add: nth_list_update_neq)
    have "scoped ?bs C V (?bs ! b)" unfolding b by (rule scoped_mono [of bs C V]) (use Cons.prems(1) C in simp_all)
    moreover have "nested ?bs C (V \<union> vars_of (?bs ! b)) (own_block c) cs"
      unfolding b
    proof (rule Cons.IH)
      have "k = own_block c \<Longrightarrow> cs = []" using Cons.prems(3,7) False by (cases cs rule: rev_cases) auto
      then show "scoped bs C (V \<union> vars_of (bs ! b) \<union>
          (if k = own_block c then vars_of (bs ! own_block c) else (\<Union>j\<in>insert (own_block c) (set (map own_block cs)). vars_of (bs ! j)))) [st]"
        by (intro scoped_mono [OF Cons.prems(6)]) (use False in auto)
    qed (use Cons.prems False in auto)
    ultimately show ?thesis using Cons.prems(1) b by auto
  qed
qed

lemma nested_snoc: "nested bs C V b (cs @ [c]) \<longleftrightarrow> nested bs C V b cs \<and> original_block c = last (b # map own_block cs) \<and>
    set (reads (condition c)) \<subseteq> V \<union> (\<Union>j\<in>insert b (set (map own_block cs)). vars_of (bs ! j)) \<and>
    scoped bs C (V \<union> (\<Union>j\<in>insert b (set (map own_block cs)). vars_of (bs ! j))) (bs ! own_block c)"
  by (induction cs arbitrary: V b) (auto simp: Un_assoc)

section \<open>Placing statements\<close>

lemma open_blocks_ne [simp]: "open_blocks cs \<noteq> []"
  by (simp add: open_blocks_def)

lemma set_open_blocks: "set (open_blocks cs) = insert 0 (set (map own_block cs))"
  by (simp add: open_blocks_def)

lemma placed_append:
  assumes "placed b C cs" "k = 0 \<or> k = curr_block b" "stmt_block st = None"
    and "set (stmt_reads st) \<subseteq> (if k = 0 then {GlobalState} \<union> vars_of (blocks b ! 0) else visible b cs)"
  shows "placed (append_to k st b) C cs" "visible (append_to k st b) cs = visible b cs \<union> stmt_declares st"
    "vars_of (blocks (append_to k st b) ! 0) = vars_of (blocks b ! 0) \<union> (if k = 0 then stmt_declares st else {})"
proof -
  have k: "k \<in> set (open_blocks cs)" "k < length (blocks b)" "0 < length (blocks b)"
    using assms(1,2) last_in_set [OF open_blocks_ne, of cs] by (auto simp: placed_def set_open_blocks)
  have "nested ((blocks b)[k := blocks b ! k @ [st]]) C {GlobalState} 0 cs"
  proof (rule nested_append_to)
    show "k = 0 \<or> k = last (0 # map own_block cs)" using assms(1,2) by (simp add: placed_def open_blocks_def)
    have "set (stmt_reads st) \<subseteq> {GlobalState} \<union> (if k = 0 then vars_of (blocks b ! 0) else \<Union>j\<in>insert 0 (set (map own_block cs)). vars_of (blocks b ! j))"
      using assms(4) by (auto simp: visible_def set_open_blocks split: if_splits)
    then show "scoped (blocks b) C ({GlobalState} \<union> (if k = 0 then vars_of (blocks b ! 0) else \<Union>j\<in>insert 0 (set (map own_block cs)). vars_of (blocks b ! j))) [st]"
      using assms(3) by (intro scoped_one) simp_all
  qed (use assms(1) k in \<open>auto simp: placed_def open_blocks_def\<close>)
  then show "placed (append_to k st b) C cs" using assms(1) by (simp add: placed_def append_to_def)
  have "vars_of ((blocks b)[k := blocks b ! k @ [st]] ! j) = vars_of (blocks b ! j) \<union> (if j = k then stmt_declares st else {})" for j
    using k(2) by (cases "j = k") simp_all
  then show "visible (append_to k st b) cs = visible b cs \<union> stmt_declares st"
    "vars_of (blocks (append_to k st b) ! 0) = vars_of (blocks b ! 0) \<union> (if k = 0 then stmt_declares st else {})"
    using k(1) by (auto simp: visible_def append_to_def split: if_splits)
qed

lemma visible_root: "{GlobalState} \<union> vars_of (blocks b ! 0) \<subseteq> visible b cs"
  by (auto simp: visible_def open_blocks_def)

lemma visible_current: "placed b C cs \<Longrightarrow> curr_block b = 0 \<Longrightarrow> visible b cs = {GlobalState} \<union> vars_of (blocks b ! 0)"
proof -
  assume a: "placed b C cs" "curr_block b = 0"
  then have "cs = []" by (cases cs rule: rev_cases) (auto simp: placed_def open_blocks_def)
  then show ?thesis by (simp add: visible_def open_blocks_def)
qed

lemma placed_places:
  "in_scope R V pls \<Longrightarrow> placed b C cs \<Longrightarrow> R \<subseteq> {GlobalState} \<union> vars_of (blocks b ! 0) \<Longrightarrow> V \<subseteq> visible b cs \<Longrightarrow>
   placed (fold place_stmt pls b) C cs \<and> visible b cs \<union> \<Union>(place_vars ` set pls) \<subseteq> visible (fold place_stmt pls b) cs \<and>
   vars_of (blocks b ! 0) \<union> \<Union>(root_vars ` set pls) \<subseteq> vars_of (blocks (fold place_stmt pls b) ! 0)"
proof (induction R V pls arbitrary: b rule: in_scope.induct)
  case (1 R V) then show ?case by simp
next
  case (2 R V st pls)
  have p: "placed (append_to 0 st b) C cs" "visible (append_to 0 st b) cs = visible b cs \<union> stmt_declares st"
    "vars_of (blocks (append_to 0 st b) ! 0) = vars_of (blocks b ! 0) \<union> stmt_declares st"
    using placed_append [OF 2(3), of 0 st] 2(2,4) by auto
  have "placed (fold place_stmt pls (append_to 0 st b)) C cs \<and>
      visible (append_to 0 st b) cs \<union> \<Union>(place_vars ` set pls) \<subseteq> visible (fold place_stmt pls (append_to 0 st b)) cs \<and>
      vars_of (blocks (append_to 0 st b) ! 0) \<union> \<Union>(root_vars ` set pls) \<subseteq> vars_of (blocks (fold place_stmt pls (append_to 0 st b)) ! 0)"
  proof (rule 2(1) [OF _ p(1)])
    show "R \<union> stmt_declares st \<subseteq> {GlobalState} \<union> vars_of (blocks (append_to 0 st b) ! 0)" unfolding p(3) using 2(4) by blast
    show "V \<union> stmt_declares st \<subseteq> visible (append_to 0 st b) cs" unfolding p(2) using 2(5) by blast
  qed (use 2(2) in simp_all)
  then have "placed (fold place_stmt (InRoot st # pls) b) C cs \<and>
      visible b cs \<union> stmt_declares st \<union> \<Union>(place_vars ` set pls) \<subseteq> visible (fold place_stmt (InRoot st # pls) b) cs \<and>
      vars_of (blocks b ! 0) \<union> stmt_declares st \<union> \<Union>(root_vars ` set pls) \<subseteq> vars_of (blocks (fold place_stmt (InRoot st # pls) b) ! 0)"
    unfolding p(2,3) by (simp add: place_stmt_def append_root_def)
  then show ?case by auto
next
  case (3 R V st pls)
  let ?b = "append_to (curr_block b) st b"
  have "set (stmt_reads st) \<subseteq> (if curr_block b = 0 then {GlobalState} \<union> vars_of (blocks b ! 0) else visible b cs)"
    using 3(2,5) visible_current [OF 3(3)] by auto
  note p = placed_append [OF 3(3), of "curr_block b" st, OF _ _ this]
  have q: "placed ?b C cs" "visible ?b cs = visible b cs \<union> stmt_declares st" "vars_of (blocks b ! 0) \<subseteq> vars_of (blocks ?b ! 0)"
    using p 3(2) by auto
  have "placed (fold place_stmt pls ?b) C cs \<and> visible ?b cs \<union> \<Union>(place_vars ` set pls) \<subseteq> visible (fold place_stmt pls ?b) cs \<and>
      vars_of (blocks ?b ! 0) \<union> \<Union>(root_vars ` set pls) \<subseteq> vars_of (blocks (fold place_stmt pls ?b) ! 0)"
  proof (rule 3(1) [OF _ q(1)])
    show "R \<subseteq> {GlobalState} \<union> vars_of (blocks ?b ! 0)" using 3(4) q(3) by blast
    show "V \<union> stmt_declares st \<subseteq> visible ?b cs" unfolding q(2) using 3(5) by blast
  qed (use 3(2) in simp_all)
  then have "placed (fold place_stmt (InCurrent st # pls) b) C cs \<and>
      visible b cs \<union> stmt_declares st \<union> \<Union>(place_vars ` set pls) \<subseteq> visible (fold place_stmt (InCurrent st # pls) b) cs \<and>
      vars_of (blocks b ! 0) \<union> \<Union>(root_vars ` set pls) \<subseteq> vars_of (blocks (fold place_stmt (InCurrent st # pls) b) ! 0)"
    unfolding q(2) using q(3) by (auto simp add: place_stmt_def appendStmt_def)
  then show ?case by auto
qed

text \<open>Entering a block.\<close>

lemma placed_open:
  assumes "placed b C cs" "set (reads e) \<subseteq> visible b cs" "open_control (w, e) b = (c, b')"
  shows "placed b' C (cs @ [c])" "visible b cs \<subseteq> visible b' (cs @ [c])" "blocks b' ! 0 = blocks b ! 0"
proof -
  obtain ext where ext: "blocks b' = blocks b @ [] # ext" "curr_block b' = length (blocks b)"
      "c = \<lparr> is_loop = w, original_block = curr_block b, condition = e, own_block = length (blocks b) \<rparr>"
    using assms(3) by (auto simp: open_control_def buildWhile_def buildIf_def split: if_splits)
  have lt: "set (open_blocks cs) \<union> C \<subseteq> {..<length (blocks b)}" using assms(1) by (simp add: placed_def)
  have old: "\<forall>k\<in>set (open_blocks cs) \<union> C. blocks b' ! k = blocks b ! k" using lt by (auto simp: ext(1) nth_append)
  have "nested (blocks b') C {GlobalState} 0 cs"
    by (rule nested_mono [of "blocks b"]) (use assms(1) old in \<open>auto simp: placed_def set_open_blocks\<close>)
  moreover have "original_block c = last (0 # map own_block cs)" using assms(1) by (simp add: ext(3) placed_def open_blocks_def)
  moreover have "(\<Union>j\<in>insert 0 (set (map own_block cs)). vars_of (blocks b' ! j)) = (\<Union>j\<in>set (open_blocks cs). vars_of (blocks b ! j))"
    using old by (auto simp: set_open_blocks)
  moreover have "scoped (blocks b') C V (blocks b' ! own_block c)" for V
    by (simp add: ext(1,3) scoped.end_of_block)
  ultimately have "nested (blocks b') C {GlobalState} 0 (cs @ [c])" using assms(2) by (simp add: nested_snoc ext(3) visible_def)
  moreover have o: "open_blocks (cs @ [c]) = open_blocks cs @ [length (blocks b)]" by (simp add: open_blocks_def ext(3))
  ultimately show "placed b' C (cs @ [c])" using assms(1) lt by (auto simp: placed_def ext(1,2))
  show "visible b cs \<subseteq> visible b' (cs @ [c])" using old by (auto simp: visible_def o)
  show "blocks b' ! 0 = blocks b ! 0" using old by (simp add: set_open_blocks)
qed

text \<open>Leaving the innermost block.\<close>

lemma placed_End:
  assumes "placed b C (cs @ [c])"
  shows "placed (End c b) (insert (own_block c) C) cs" "vars_of (blocks (End c b) ! 0) = vars_of (blocks b ! 0)"
proof -
  let ?k = "original_block c" and ?o = "own_block c" and ?st = "if is_loop c then WhileStmt (condition c) (own_block c) else IfStmt (condition c) (own_block c) (own_block c + 1)"
  let ?bs = "(blocks b)[?k := blocks b ! ?k @ [?st]]"
  have st: "stmt_block ?st = Some ?o" "stmt_reads ?st = reads (condition c)" "stmt_declares ?st = {}" by simp_all
  have o: "open_blocks (cs @ [c]) = open_blocks cs @ [?o]" by (simp add: open_blocks_def)
  have n: "nested (blocks b) C {GlobalState} 0 cs" "?k = last (open_blocks cs)" "set (reads (condition c)) \<subseteq> visible b cs"
      "scoped (blocks b) C (visible b cs) (blocks b ! ?o)"
    using assms by (auto simp: placed_def nested_snoc visible_def set_open_blocks open_blocks_def)
  have k: "?k \<in> set (open_blocks cs)" unfolding n(2) by simp
  have d: "distinct (open_blocks cs)" "?o \<notin> set (open_blocks cs)" "?k \<notin> C" "?o \<notin> C" "?k < length (blocks b)"
    using assms k by (auto simp: placed_def o)
  show "vars_of (blocks (End c b) ! 0) = vars_of (blocks b ! 0)"
    using d(5) st(3) by (cases "?k = 0") (simp_all add: End_def appendStmt_def append_to_def)
  have "nested ?bs (insert ?o C) {GlobalState} 0 cs"
  proof (rule nested_append_to)
    show "nested (blocks b) (insert ?o C) {GlobalState} 0 cs" by (rule nested_more [OF n(1)]) blast
    show "?k = 0 \<or> ?k = last (0 # map own_block cs)" using n(2) by (simp add: open_blocks_def)
    have v: "scoped (blocks b) (insert ?o C) (visible b cs) [?st]"
      using scoped_mono [OF n(4), of "insert ?o C" "blocks b" "visible b cs"] n(3) st by (intro scoped_one) (auto split: option.splits)
    have "visible b cs = {GlobalState} \<union> (if ?k = 0 then vars_of (blocks b ! 0) else \<Union>j\<in>insert 0 (set (map own_block cs)). vars_of (blocks b ! j))"
    proof (cases "?k = 0")
      case True
      then have "cs = []" using d(1) n(2) by (cases cs rule: rev_cases) (auto simp: open_blocks_def)
      then show ?thesis using True by (simp add: visible_def open_blocks_def)
    next
      case False then show ?thesis by (simp add: visible_def set_open_blocks)
    qed
    then show "scoped (blocks b) (insert ?o C) ({GlobalState} \<union> (if ?k = 0 then vars_of (blocks b ! 0)
        else \<Union>j\<in>insert 0 (set (map own_block cs)). vars_of (blocks b ! j))) [?st]" using v by simp
  qed (use assms d k in \<open>auto simp: placed_def o open_blocks_def\<close>)
  moreover have "blocks (End c b) = ?bs" "curr_block (End c b) = ?k" by (simp_all add: End_def appendStmt_def append_to_def)
  ultimately show "placed (End c b) (insert (own_block c) C) cs" using assms d k n(2) by (auto simp: placed_def o)
qed

end
