(* ===== verification/Compilation_Props.thy ===== *)
theory Compilation_Props
  imports Compilation_Scopes
begin

text \<open>The correctness of the code generation of a pipeline, on the phases, the orders and the block structure of the theories before.\<close>

section \<open>The blocks while suboperators generate their code\<close>

definition emitted :: "subop list \<Rightarrow> generated \<Rightarrow> control list \<Rightarrow> bool" where
  "emitted os g ctls \<longleftrightarrow> placed (fct_builder g) {} ctls \<and> map (\<lambda>s. opt_control g (subop_addr s)) (filter opens_control os) = map Some ctls \<and>
     IUVar ` dom (iu_declarations g) \<subseteq> visible (fct_builder g) ctls \<and> (\<forall>s\<in>set os. step_vars s \<subseteq> vars_of (blocks (fct_builder g) ! 0))"

lemma declareIUs_dom: "declareIUs new ds = Returns ds' \<Longrightarrow> dom ds' = dom ds \<union> fst ` set new"
proof (induction new arbitrary: ds)
  case (Cons d new)
  obtain i t where d: "d = (i, t)" by (cases d)
  then have "declareIUs new (ds(i \<mapsto> t)) = Returns ds'" using Cons.prems by (auto simp: declareIU_def split: if_splits)
  from Cons.IH [OF this] show ?case by (auto simp: d)
qed simp

lemma emitted_step:
  assumes "compilable p" "s \<in> set (suboperators p)" "s \<notin> set os" "set os \<subseteq> set (suboperators p)" "emitted os g ctls"
    and "\<forall>i\<in>set (reads_ius s). i \<in> dom (iu_declarations g)" "generate p il tp s g = Returns g'"
  shows "\<exists>ctls'. emitted (os @ [s]) g' ctls'"
proof -
  let ?b = "fct_builder g"
  let ?R = "{GlobalState} \<union> vars_of (blocks ?b ! 0)" and ?V = "visible ?b ctls"
  have "generates (op_code p il tp (iu_declarations g) s) ?R ?V s"
    using assms(5,6) visible_root by (intro op_code_generates [OF code_ok_at [OF assms(1,2)]]) (auto simp: emitted_def)
  then obtain c where c: "op_code p il tp (iu_declarations g) s = Returns c" "code_fits ?R ?V s c" by (auto simp: generates_def)
  let ?b1 = "fold place_stmt (statements c) ?b"
  obtain ds where ds: "declareIUs (declared_ius c) (iu_declarations g) = Returns ds"
    using assms(7) by (auto simp: generate_def c(1) obind_Returns_iff)
  have dom: "dom ds = dom (iu_declarations g) \<union> set (declares s)"
    using declareIUs_dom [OF ds] c(2) by (metis code_fits_def set_map)
  have sc: "in_scope ?R ?V (statements c)" and old: "placed ?b {} ctls" using c(2) assms(5) by (simp_all add: code_fits_def emitted_def)
  have pl: "placed ?b1 {} ctls" "?V \<union> \<Union>(place_vars ` set (statements c)) \<subseteq> visible ?b1 ctls"
      "vars_of (blocks ?b ! 0) \<union> \<Union>(root_vars ` set (statements c)) \<subseteq> vars_of (blocks ?b1 ! 0)"
    using placed_places [OF sc old order_refl order_refl] by simp_all
  have vis: "IUVar ` dom ds \<subseteq> visible ?b1 ctls"
  proof -
    have "IUVar ` dom (iu_declarations g) \<subseteq> ?V" "IUVar ` set (declares s) \<subseteq> \<Union>(place_vars ` set (statements c))"
      using assms(5) c(2) by (simp_all add: emitted_def code_fits_def)
    then show ?thesis using pl(2) unfolding dom image_Un by (meson Un_least le_sup_iff order_trans)
  qed
  have steps: "\<forall>t\<in>set (os @ [s]). step_vars t \<subseteq> vars_of (blocks ?b1 ! 0)"
  proof -
    have "step_vars s \<subseteq> \<Union>(root_vars ` set (statements c))" "\<forall>t\<in>set os. step_vars t \<subseteq> vars_of (blocks ?b ! 0)"
      using assms(5) c(2) by (simp_all add: emitted_def code_fits_def)
    then have "step_vars s \<subseteq> vars_of (blocks ?b1 ! 0)" "\<forall>t\<in>set os. step_vars t \<subseteq> vars_of (blocks ?b1 ! 0)"
      using pl(3) by (meson le_sup_iff order_trans)+
    then show ?thesis by simp
  qed
  have addr: "subop_addr t \<noteq> subop_addr s" if "t \<in> set os" for t using addr_inj [OF assms(1) _ assms(2)] that assms(3,4) by blast
  show ?thesis
  proof (cases "opens c")
    case None
    then have "\<not> opens_control s" using c(2) by (simp add: code_fits_def control_ok_def)
    moreover have "g' = g\<lparr> fct_builder := ?b1, iu_declarations := ds \<rparr>" using assms(7) None by (simp add: generate_def c(1) ds Let_def)
    ultimately have "emitted (os @ [s]) g' ctls" using assms(5) pl(1) vis steps by (simp add: emitted_def)
    then show ?thesis ..
  next
    case (Some wc)
    obtain w e where we: "wc = (w, e)" by (cases wc)
    obtain ctl b2 where o: "open_control (w, e) ?b1 = (ctl, b2)" by (cases "open_control (w, e) ?b1")
    have "opens_control s" "set (reads e) \<subseteq> ?V \<union> \<Union>(place_vars ` set (statements c))"
      using c(2) Some we by (simp_all add: code_fits_def control_ok_def)
    then have "opens_control s" "set (reads e) \<subseteq> visible ?b1 ctls" using pl(2) by (blast, meson order_trans)
    note op = placed_open [OF pl(1) this(2) o]
    have g': "g' = g\<lparr> fct_builder := b2, iu_declarations := ds, opt_control := (opt_control g)(subop_addr s \<mapsto> ctl) \<rparr>"
      using assms(7) Some we o by (simp add: generate_def c(1) ds Let_def)
    have "map (\<lambda>t. opt_control g' (subop_addr t)) (filter opens_control os) = map (\<lambda>t. opt_control g (subop_addr t)) (filter opens_control os)"
      using addr by (simp add: g')
    also have "\<dots> = map Some ctls" using assms(5) by (simp add: emitted_def)
    finally have "map (\<lambda>t. opt_control g' (subop_addr t)) (filter opens_control os) = map Some ctls" .
    moreover have "opt_control g' (subop_addr s) = Some ctl" by (simp add: g')
    ultimately have "map (\<lambda>t. opt_control g' (subop_addr t)) (filter opens_control (os @ [s])) = map Some (ctls @ [ctl])"
      using \<open>opens_control s\<close> by simp
    then have "emitted (os @ [s]) g' (ctls @ [ctl])" using op vis steps by (auto simp: emitted_def g')
    then show ?thesis ..
  qed
qed

lemma all_emitted:
  assumes "compilable p"
  shows "after_inputs p {} os \<Longrightarrow> each_outcome (generate p il tp) os no_code = Returns g \<Longrightarrow> \<exists>ctls. emitted os g ctls"
proof (induction os arbitrary: g rule: rev_induct)
  case Nil
  have "emitted [] no_code []"
    by (simp add: emitted_def placed_def open_blocks_def FunctionBuilder_def scoped.end_of_block)
  then show ?case using Nil.prems(2) by auto
next
  case (snoc s os)
  obtain g0 where g0: "each_outcome (generate p il tp) os no_code = Returns g0" "generate p il tp s g0 = Returns g"
    using snoc.prems(2) by (auto simp: each_outcome_append obind_Returns_iff)
  have ai: "after_inputs p {} os" "s \<in> set (suboperators p)" "s \<notin> set os" "\<forall>i\<in>set (source_ius s). provider p i \<in> set os"
    using snoc.prems(1) by auto
  then obtain ctls where ctls: "emitted os g0 ctls" using snoc.IH g0(1) by blast
  have d: "dom (iu_declarations g0) = (\<Union>t\<in>set os. set (declares t))" using generate_all [OF assms ai(1), of il tp] g0(1) by auto
  have "i \<in> dom (iu_declarations g0)" if "i \<in> set (reads_ius s)" for i
    unfolding d using read_declared [OF assms ai(2) that] ai(4) by blast
  then show ?case using emitted_step [OF assms ai(2,3) _ ctls _ g0(2)] after_inputs_set [OF ai(1)] by blast
qed

section \<open>The blocks while suboperators are closed\<close>

lemma loop_step_reads:
  assumes "loop_step ds s = Returns st" "generates_in_open s" "opens_control s"
  shows "set (stmt_reads st) \<subseteq> step_vars s" "stmt_block st = None"
  using assms
  by (auto simp: loop_step_def Let_def step_vars_def generates_in_open_def opens_control_def getIUDeclaration_def obind_Returns_iff invoke_def
      split: subop_kind.splits)

lemma close_nothing: "\<not> opens_control s \<Longrightarrow> generate_close s g = Returns g"
  by (auto simp: generate_close_def opens_control_def generates_in_open_def split: subop_kind.splits)

lemma close_control:
  assumes "opens_control s" "opt_control g (subop_addr s) = Some c" "generate_close s g = Returns g'" "placed (fct_builder g) C (ctls @ [c])"
    and "step_vars s \<subseteq> vars_of (blocks (fct_builder g) ! 0)"
  shows "placed (fct_builder g') (insert (own_block c) C) ctls" "vars_of (blocks (fct_builder g) ! 0) \<subseteq> vars_of (blocks (fct_builder g') ! 0)"
    "opt_control g' = (opt_control g)(subop_addr s := None)"
proof -
  have "\<exists>b. placed b C (ctls @ [c]) \<and> vars_of (blocks (fct_builder g) ! 0) \<subseteq> vars_of (blocks b ! 0) \<and>
      g' = g\<lparr> fct_builder := End c b, opt_control := (opt_control g)(subop_addr s := None) \<rparr>"
  proof (cases "generates_in_open s")
    case True
    have "\<exists>st. loop_step (iu_declarations g) s = Returns st \<and> end_control s (g\<lparr> fct_builder := appendStmt st (fct_builder g) \<rparr>) = Returns g'"
      using assms(1,3) True by (auto simp: generate_close_def generates_in_open_def opens_control_def obind_Returns_iff split: subop_kind.splits)
    then obtain st where st: "loop_step (iu_declarations g) s = Returns st" "end_control s (g\<lparr> fct_builder := appendStmt st (fct_builder g) \<rparr>) = Returns g'" by blast
    let ?b = "append_to (curr_block (fct_builder g)) st (fct_builder g)"
    note rd = loop_step_reads [OF st(1) True assms(1)]
    have "set (stmt_reads st) \<subseteq> (if curr_block (fct_builder g) = 0 then {GlobalState} \<union> vars_of (blocks (fct_builder g) ! 0) else visible (fct_builder g) (ctls @ [c]))"
      using rd(1) assms(5) visible_root by fastforce
    note p = placed_append [OF assms(4) _ rd(2) this]
    have "placed ?b C (ctls @ [c])" "vars_of (blocks (fct_builder g) ! 0) \<subseteq> vars_of (blocks ?b ! 0)" using p by auto
    moreover have "g' = g\<lparr> fct_builder := End c ?b, opt_control := (opt_control g)(subop_addr s := None) \<rparr>"
      using st(2) assms(2) by (simp add: end_control_def appendStmt_def)
    ultimately show ?thesis by blast
  next
    case False
    then have "end_control s g = Returns g'"
      using assms(1,3) by (auto simp: generate_close_def generates_in_open_def opens_control_def split: subop_kind.splits)
    then show ?thesis using assms(2,4) by (intro exI [of _ "fct_builder g"]) (auto simp: end_control_def)
  qed
  then obtain b where b: "placed b C (ctls @ [c])" "vars_of (blocks (fct_builder g) ! 0) \<subseteq> vars_of (blocks b ! 0)"
      "g' = g\<lparr> fct_builder := End c b, opt_control := (opt_control g)(subop_addr s := None) \<rparr>" by blast
  show "placed (fct_builder g') (insert (own_block c) C) ctls" "opt_control g' = (opt_control g)(subop_addr s := None)"
    "vars_of (blocks (fct_builder g) ! 0) \<subseteq> vars_of (blocks (fct_builder g') ! 0)"
    using placed_End [OF b(1)] b(2,3) by simp_all
qed

lemma all_ended:
  assumes "each_outcome generate_close cs g = Returns h" "placed (fct_builder g) C ctls"
    and "map (\<lambda>s. opt_control g (subop_addr s)) xs = map Some ctls" "filter opens_control cs = rev xs" "distinct (map subop_addr xs)"
    and "\<forall>s\<in>set cs. step_vars s \<subseteq> vars_of (blocks (fct_builder g) ! 0)"
  shows "\<exists>C'. placed (fct_builder h) C' []"
  using assms
proof (induction cs arbitrary: g C ctls xs)
  case Nil then show ?case by auto
next
  case (Cons s cs)
  obtain g1 where g1: "generate_close s g = Returns g1" "each_outcome generate_close cs g1 = Returns h"
    using Cons.prems(1) by (auto simp: obind_Returns_iff)
  show ?case
  proof (cases "opens_control s")
    case True
    obtain xs' where xs: "xs = xs' @ [s]" "filter opens_control cs = rev xs'" using Cons.prems(4) True by (cases xs rule: rev_cases) auto
    obtain ctls' c where ctls: "ctls = ctls' @ [c]" "opt_control g (subop_addr s) = Some c" "map (\<lambda>s. opt_control g (subop_addr s)) xs' = map Some ctls'"
      using Cons.prems(3) xs(1) by (cases ctls rule: rev_cases) auto
    note cl = close_control [OF True ctls(2) g1(1) Cons.prems(2) [unfolded ctls(1)]]
    have sv: "step_vars s \<subseteq> vars_of (blocks (fct_builder g) ! 0)" using Cons.prems(6) by simp
    have "subop_addr t \<noteq> subop_addr s" if "t \<in> set xs'" for t using Cons.prems(5) xs(1) that by (auto simp: rev_image_eqI)
    then have "map (\<lambda>s. opt_control g1 (subop_addr s)) xs' = map (\<lambda>s. opt_control g (subop_addr s)) xs'" using cl(3) [OF sv] by simp
    then show ?thesis
      using Cons.IH [OF g1(2) cl(1) [OF sv] _ xs(2)] ctls(3) Cons.prems(5,6) cl(2) [OF sv] xs(1) by fastforce
  next
    case False
    then have "g1 = g" using g1(1) close_nothing by simp
    then show ?thesis using Cons.IH [of g C ctls xs] g1(2) Cons.prems False by simp
  qed
qed

section \<open>The order of the controls\<close>

text \<open>
  The suboperators that open a loop or a scope must depend on each other in a line: then whatever order the requests arrive in, they are
  entered from the first to the last and left in reverse.
\<close>

fun ancestors :: "nat \<Rightarrow> pipeline \<Rightarrow> subop \<Rightarrow> subop list" where
  "ancestors 0 p s = []"
| "ancestors (Suc n) p s = concat (map (\<lambda>i. provider p i # ancestors n p (provider p i)) (source_ius s))"

definition controls_in_line :: "pipeline \<Rightarrow> bool" where
  "controls_in_line p \<longleftrightarrow> successively (\<lambda>s t. s \<in> set (ancestors (length (suboperators p)) p t)) (filter opens_control (suboperators p))"

definition place_in :: "subop list \<Rightarrow> subop \<Rightarrow> nat" where
  "place_in os s = length (takeWhile (\<lambda>t. t \<noteq> s) os)"

lemma place_in_split: "distinct (xs @ s # ys) \<Longrightarrow> place_in (xs @ s # ys) s = length xs"
  by (induction xs) (auto simp: place_in_def)

lemma place_in_inj: "s \<in> set os \<Longrightarrow> t \<in> set os \<Longrightarrow> place_in os s = place_in os t \<Longrightarrow> s = t"
  by (induction os) (auto simp: place_in_def split: if_splits)

lemma source_earlier:
  assumes "after_inputs p {} os" "s \<in> set os" "i \<in> set (source_ius s)"
  shows "place_in os (provider p i) < place_in os s" "provider p i \<in> set os"
proof -
  obtain xs ys where os: "os = xs @ s # ys" using split_list [OF assms(2)] by blast
  have d: "distinct os" using after_inputs_set [OF assms(1)] by simp
  have i: "provider p i \<in> set xs" using assms(1,3) os by simp
  then show "provider p i \<in> set os" using os by simp
  obtain us vs where "xs = us @ provider p i # vs" using split_list [OF i] by blast
  then show "place_in os (provider p i) < place_in os s"
    using place_in_split [of xs s ys] place_in_split [of us "provider p i" "vs @ s # ys"] d os by simp
qed

lemma ancestor_earlier: "after_inputs p {} os \<Longrightarrow> s \<in> set os \<Longrightarrow> a \<in> set (ancestors n p s) \<Longrightarrow> place_in os a < place_in os s"
proof (induction n arbitrary: s)
  case (Suc n)
  then obtain i where i: "i \<in> set (source_ius s)" "a = provider p i \<or> a \<in> set (ancestors n p (provider p i))" by auto
  note e = source_earlier [OF Suc.prems(1,2) i(1)]
  show ?case using i(2) e Suc.IH [OF Suc.prems(1) e(2)] by auto
qed simp

lemma filter_in_place: "distinct os \<Longrightarrow> sorted_wrt (\<lambda>s t. place_in os s < place_in os t) (filter P os)"
proof -
  assume d: "distinct os"
  have "sorted_wrt (\<lambda>s t. place_in os s < place_in os t) os"
    unfolding sorted_wrt_iff_nth_less
  proof (intro allI impI)
    fix i j assume ij: "i < j" "j < length os"
    have "place_in os (os ! k) = k" if "k < length os" for k
      using place_in_split [of "take k os" "os ! k" "drop (Suc k) os"] d that by (simp flip: id_take_nth_drop)
    then show "place_in os (os ! i) < place_in os (os ! j)" using ij by simp
  qed
  then show ?thesis by (rule sorted_wrt_filter)
qed

lemma controls_ordered:
  assumes "controls_in_line p" "after_inputs p {} os" "set os = set (suboperators p)"
  shows "filter opens_control os = filter opens_control (suboperators p)"
proof -
  let ?xs = "filter opens_control (suboperators p)" and ?r = "\<lambda>s t. place_in os s < place_in os t"
  have d: "distinct os" using after_inputs_set [OF assms(2)] by simp
  have "successively ?r ?xs"
    using assms(1) unfolding controls_in_line_def
  proof (rule successively_mono)
    fix s t assume "t \<in> set ?xs" "s \<in> set (ancestors (length (suboperators p)) p t)"
    then show "?r s t" using ancestor_earlier [OF assms(2), of t s] assms(3) by auto
  qed
  moreover have "successively ?r ?xs \<longleftrightarrow> sorted_wrt ?r ?xs" by (rule successively_iff_sorted_wrt_strong) (rule less_trans)
  ultimately have xs: "sorted_wrt ?r ?xs" by blast
  have "map (place_in os) (filter opens_control os) = map (place_in os) ?xs"
  proof (rule sorted_distinct_set_unique)
    have "sorted_wrt (<) (map (place_in os) (filter opens_control os))" "sorted_wrt (<) (map (place_in os) ?xs)"
      using filter_in_place [OF d, of opens_control] xs by (simp_all add: sorted_wrt_map)
    then show "sorted (map (place_in os) (filter opens_control os))" "distinct (map (place_in os) (filter opens_control os))"
      "sorted (map (place_in os) ?xs)" "distinct (map (place_in os) ?xs)" by (simp_all only: strict_sorted_iff)
  qed (use assms(3) in auto)
  then show ?thesis
    by (rule map_inj_on) (use place_in_inj assms(3) in \<open>auto simp: inj_on_def\<close>)
qed

text \<open>Consumers before inputs is inputs before consumers in reverse.\<close>

lemma after_inputsI:
  assumes "distinct os" "set os \<subseteq> set (suboperators p)" "V \<inter> set os = {}"
    and "\<And>xs s ys i. os = xs @ s # ys \<Longrightarrow> i \<in> set (source_ius s) \<Longrightarrow> provider p i \<in> V \<union> set xs"
  shows "after_inputs p V os"
  using assms
proof (induction os arbitrary: V)
  case (Cons s os)
  have "after_inputs p (insert s V) os"
  proof (rule Cons.IH)
    fix xs t ys i assume "os = xs @ t # ys" "i \<in> set (source_ius t)"
    then show "provider p i \<in> insert s V \<union> set xs" using Cons.prems(4) [of "s # xs" t ys i] by auto
  qed (use Cons.prems in auto)
  then show ?case using Cons.prems(4) [of "[]" s os] Cons.prems(2,3) by auto
qed simp

lemma reversed_closing:
  assumes "compilable p" "after_consumers p cs" "mset cs = mset (suboperators p)"
  shows "after_inputs p {} (rev cs)"
proof (rule after_inputsI)
  have set: "set cs = set (suboperators p)" using assms(3) by (metis set_mset_mset)
  have "distinct (suboperators p)" using assms(1) by (simp add: compilable_def built_def distinct_map)
  then have d: "distinct cs" using assms(3) by (metis mset_eq_imp_distinct_iff)
  then show "distinct (rev cs)" "set (rev cs) \<subseteq> set (suboperators p)" using set by simp_all
  fix xs s ys i assume cs: "rev cs = xs @ s # ys" and i: "i \<in> set (source_ius s)"
  then have r: "cs = rev ys @ s # rev xs" by (metis rev.simps(2) rev_append rev_rev_ident append.assoc append_Cons append_Nil)
  have s: "s \<in> set (suboperators p)" using set r by auto
  have "provider p i \<in> set cs" using source_provider(1) [OF assms(1) s i] set by simp
  moreover have "provider p i \<noteq> s" using source_provider(3) [OF assms(1) s i] by auto
  moreover have "provider p i \<notin> set (rev ys)"
  proof
    assume "provider p i \<in> set (rev ys)"
    then obtain us vs where "rev ys = us @ provider p i # vs" by (meson split_list)
    then have "s \<in> set us" using assms(2) r s i unfolding after_consumers_def by (metis append.assoc append_Cons)
    then show False using d r \<open>rev ys = us @ provider p i # vs\<close> by auto
  qed
  ultimately show "provider p i \<in> {} \<union> set xs" unfolding r by auto
qed simp

section \<open>Compilation\<close>

abbreviation return_zero :: ir_stmt where
  "return_zero \<equiv> ReturnStmt (ConstExpr (UI 1 0))"

lemma compile_phases:
  assumes "compilable p"
  shows "\<exists>fuel os cs g h. (\<forall>n\<ge>fuel. compile n p il tp = Returns (appendStmt return_zero (fct_builder h))) \<and>
     after_inputs p {} os \<and> mset os = mset (suboperators p) \<and> each_outcome (generate p il tp) os no_code = Returns g \<and>
     after_inputs p {} (rev cs) \<and> mset cs = mset (suboperators p) \<and> each_outcome generate_close cs g = Returns h"
proof -
  obtain N c1 os where o: "\<forall>n\<ge>N. each_outcome (\<lambda>s. run_call n p il tp (Open s)) (compilation_sinks p) (CompilationContext p) = Returns c1"
      "after_inputs p {} os" "mset os = mset (suboperators p)" "each_outcome (generate p il tp) os no_code = Returns (program c1)"
      "\<forall>a. upstream_requests c1 a = count (mset (concat (map (producers p) os))) a"
    using roots_opened [OF assms] by blast
  have set: "set os = set (suboperators p)" using o(3) by (metis set_mset_mset)
  have d: "dom (iu_declarations (program c1)) = (\<Union>s\<in>set os. set (declares s))" "dom (opt_control (program c1)) = subop_addr ` {s \<in> set os. opens_control s}"
    using generate_all [OF assms o(2), of il tp] o(4) by auto
  have up: "upstream_requests c1 a = count (edges_of p (still_open p [])) a" for a
    using o(5) mset_concat_perm [OF o(3), of "producers p"] by (simp add: edges_of_def still_open_def)
  have live: "0 < upstream_requests c1 (subop_addr t)" if t: "t \<in> set (suboperators p)" "is_asked p t" for t
  proof -
    obtain r i where "r \<in> set (suboperators p)" "i \<in> set (source_ius r)" "provider p i = t"
      using consumer_exists [OF assms t(1)] t(2) by (auto simp: is_asked_def)
    then have "subop_addr t \<in># edges_of p (still_open p [])" by (auto simp: edges_of_def still_open_def producers_def)
    then show ?thesis by (simp add: up)
  qed
  have start: "closing p (program c1) [] {#} {} c1"
    using up live by (auto simp: closing_def after_consumers_def d set)
  have "distinct (compilation_sinks p)" "\<forall>s\<in>set (compilation_sinks p). s \<in> set (suboperators p) \<and> \<not> is_asked p s"
    using assms by (auto simp: compilable_def built_def distinct_map compilation_sinks_def without_consumer_def is_asked_def)
  from roots_closed [OF assms this start] obtain M c2 cs where cl: "\<forall>n\<ge>M. each_outcome (close_op n p) (compilation_sinks p) c1 = Returns c2" "closing p (program c1) cs {#} {} c2"
      "set (compilation_sinks p) \<subseteq> set cs"
    by auto
  have m: "mset cs = mset (suboperators p)" by (rule all_closed [OF assms cl(2,3)])
  have rv: "after_inputs p {} (rev cs)" using cl(2) by (intro reversed_closing [OF assms _ m]) (simp add: closing_def)
  have "\<forall>n\<ge>max N M. compile n p il tp = Returns (appendStmt return_zero (fct_builder (program c2)))"
    using o(1) cl(1) by (simp add: compile_def)
  moreover have "each_outcome generate_close cs (program c1) = Returns (program c2)" using cl(2) by (simp add: closing_def)
  ultimately show ?thesis using o(2,3,4) rv m by blast
qed

text \<open>What holds after the two phases.\<close>

lemma phases_well_scoped:
  assumes "compilable p" "controls_in_line p"
    and c: "after_inputs p {} os" "mset os = mset (suboperators p)" "each_outcome (generate p il tp) os no_code = Returns g"
      "after_inputs p {} (rev cs)" "mset cs = mset (suboperators p)" "each_outcome generate_close cs g = Returns h"
  shows "filter opens_control cs = rev (filter opens_control os)" "well_scoped (appendStmt return_zero (fct_builder h))"
proof -
  have set: "set os = set (suboperators p)" "set (rev cs) = set (suboperators p)" using c(2,5) by (metis set_mset_mset set_rev)+
  show ord: "filter opens_control cs = rev (filter opens_control os)"
    using controls_ordered [OF assms(2) c(1) set(1)] controls_ordered [OF assms(2) c(4) set(2)] by (metis rev_filter rev_rev_ident)
  obtain ctls where e: "emitted os g ctls" using all_emitted [OF assms(1) c(1,3)] by blast
  have "distinct (map subop_addr (filter opens_control os))"
    using after_inputs_set [OF c(1)] addr_inj [OF assms(1)] by (auto simp: distinct_map inj_on_def)
  moreover have "placed (fct_builder g) {} ctls" "map (\<lambda>s. opt_control g (subop_addr s)) (filter opens_control os) = map Some ctls"
    "\<forall>s\<in>set cs. step_vars s \<subseteq> vars_of (blocks (fct_builder g) ! 0)" using e set by (simp_all add: emitted_def)
  ultimately obtain C where "placed (fct_builder h) C []"
    using all_ended [OF c(6) _ _ ord] by blast
  from placed_append [OF this, of 0 return_zero] have fin: "placed (append_to 0 return_zero (fct_builder h)) C []" by simp
  have "curr_block (fct_builder h) = 0" using \<open>placed (fct_builder h) C []\<close> by (simp add: placed_def open_blocks_def)
  then have "placed (appendStmt return_zero (fct_builder h)) C []" using fin by (simp only: appendStmt_def)
  then have sc: "scoped (blocks (appendStmt return_zero (fct_builder h))) C {GlobalState} (blocks (appendStmt return_zero (fct_builder h)) ! 0)"
    and C: "C \<subseteq> {..<length (blocks (appendStmt return_zero (fct_builder h)))}" by (simp_all add: placed_def)
  show "well_scoped (appendStmt return_zero (fct_builder h))"
    unfolding well_scoped_def by (rule scoped_mono [OF sc C]) simp_all
qed

text \<open>
  C38. The code generation of a pipeline. On a pipeline whose graph is a data flow, whose suboperators are well-formed and whose loops and
  filter scopes depend on each other in a line, the mutually recursive calls of the compilation return with enough fuel. Every suboperator
  has generated its code exactly once, after the code of the suboperators that provide its inputs; every suboperator is closed exactly once,
  before them; loops and scopes are left in the reverse of the order in which they were entered; and in the function every variable is read
  where a declaration of it is visible.
\<close>
theorem compile_correct:
  assumes "compilable p" "controls_in_line p"
  shows "\<exists>fuel os cs g h. (\<forall>n\<ge>fuel. compile n p il tp = Returns (appendStmt return_zero (fct_builder h))) \<and>
     after_inputs p {} os \<and> mset os = mset (suboperators p) \<and> each_outcome (generate p il tp) os no_code = Returns g \<and>
     after_inputs p {} (rev cs) \<and> mset cs = mset (suboperators p) \<and> each_outcome generate_close cs g = Returns h \<and>
     filter opens_control cs = rev (filter opens_control os) \<and> well_scoped (appendStmt return_zero (fct_builder h))"
  using compile_phases [OF assms(1)] phases_well_scoped [OF assms] by meson

section \<open>A concrete pipeline\<close>

text \<open>A scan of two columns, a comparison with a constant, a filter of both columns, and two sinks.\<close>

definition ex_of :: "nat \<Rightarrow> irtype \<Rightarrow> iu" where
  "ex_of a t = \<lparr> iu_addr = a, iu_type = t, iu_name = [] \<rparr>"

definition ex_op :: "nat \<Rightarrow> subop_kind \<Rightarrow> iu list \<Rightarrow> iu list \<Rightarrow> subop" where
  "ex_op a k out src = \<lparr> subop_addr = a, kind = k, provided_ius = out, source_ius = src, rof = Default \<rparr>"

definition ex_filter_ops :: "subop list" where
  "ex_filter_ops =
     [ex_op 0 (TScanDriver 0) [ex_of 0 (UnsignedInt 8)] [],
      ex_op 1 (TScanIUProvider 0) [ex_of 1 (SignedInt 4)] [ex_of 0 (UnsignedInt 8)],
      ex_op 2 (TScanIUProvider 1) [ex_of 2 (SignedInt 8)] [ex_of 0 (UnsignedInt 8)],
      ex_op 3 (RuntimeExpressionSubop Less (SignedInt 4) (Some (SI 4 7))) [ex_of 3 Bool] [ex_of 1 (SignedInt 4)],
      ex_op 4 (ColumnFilterScope [(5, ex_of 1 (SignedInt 4)), (6, ex_of 2 (SignedInt 8))]) [ex_of 4 Void] [ex_of 3 Bool],
      ex_op 5 (ColumnFilterLogic Bool False) [ex_of 5 (SignedInt 4)] [ex_of 4 Void, ex_of 1 (SignedInt 4)],
      ex_op 6 (ColumnFilterLogic Bool False) [ex_of 6 (SignedInt 8)] [ex_of 4 Void, ex_of 2 (SignedInt 8)],
      ex_op 7 FuseChunkSink [] [ex_of 5 (SignedInt 4)],
      ex_op 8 FuseChunkSink [] [ex_of 6 (SignedInt 8)]]"

lemma pipe_of_graph: "graph_ok (pipe_of ops)"
  using graph_ok_attach_all [OF graph_ok_new] by (simp add: pipe_of_def)

lemmas ex_filter_defs = ex_filter_ops_def ex_op_def ex_of_def

lemma ex_filter_compilable: "compilable (pipe_of ex_filter_ops)"
proof -
  have "built ex_filter_ops" by (simp add: built_def ssa_def ex_filter_defs)
  moreover have "list_all code_ok ex_filter_ops" by (simp add: code_ok_def sized_def ex_filter_defs)
  moreover have "filters_ok (pipe_of ex_filter_ops)"
    by (simp add: filters_ok_def scope_ok_def lacks_dependencies_def scope_deps_def position_of_def provider_def is_logic_def ex_filter_defs)
  moreover have "reads_ok (pipe_of ex_filter_ops)"
    by (simp add: reads_ok_def pipe_of_suboperators reads_ius_def declares_def provider_def ex_filter_defs)
  ultimately show ?thesis using pipe_of_graph by (simp add: compilable_def pipe_of_suboperators)
qed

lemma ex_filter_in_line: "controls_in_line (pipe_of ex_filter_ops)"
proof -
  let ?p = "pipe_of ex_filter_ops"
  have f: "filter opens_control ex_filter_ops = [ex_filter_ops ! 0, ex_filter_ops ! 4]" by (simp add: opens_control_def ex_filter_defs)
  have src: "source_ius (ex_filter_ops ! 4) = [ex_of 3 Bool]" "source_ius (ex_filter_ops ! 3) = [ex_of 1 (SignedInt 4)]"
    "source_ius (ex_filter_ops ! 1) = [ex_of 0 (UnsignedInt 8)]" by (simp_all add: ex_filter_ops_def ex_op_def)
  have prov: "provider ?p (ex_of 3 Bool) = ex_filter_ops ! 3" "provider ?p (ex_of 1 (SignedInt 4)) = ex_filter_ops ! 1"
    "provider ?p (ex_of 0 (UnsignedInt 8)) = ex_filter_ops ! 0" by (simp_all add: provider_def pipe_of_suboperators ex_filter_defs)
  have n: "length ex_filter_ops = Suc (Suc (Suc 6))" by (simp add: ex_filter_ops_def)
  have "ex_filter_ops ! 0 \<in> set (ancestors (Suc (Suc (Suc 6))) ?p (ex_filter_ops ! 4))" by (simp only: ancestors.simps src prov list.map concat.simps append_Nil2) simp
  then show ?thesis by (simp add: controls_in_line_def pipe_of_suboperators f n del: ancestors.simps)
qed

theorem compile_correct_witness:
  "\<exists>fuel b. (\<forall>n\<ge>fuel. compile n (pipe_of ex_filter_ops) True (\<lambda>_. None) = Returns b) \<and> well_scoped b"
  using compile_correct [OF ex_filter_compilable ex_filter_in_line, of True "\<lambda>_. None"] by blast

end
