(* ===== verification/C_Roundtrip.thy ===== *)
theory C_Roundtrip
  imports C_Code Compilation_Props
begin

text \<open>
  The C text of a compiled pipeline: the blocks that the code generation builds form a tree, everything in them can be printed, and parsing
  the text of the function gives back the tree of the blocks.
\<close>

section \<open>Builders with printable statements\<close>

text \<open>\<open>E\<close> are the else blocks, to which nothing is appended.\<close>

definition good_stmt :: "c_names \<Rightarrow> nat set \<Rightarrow> nat \<Rightarrow> ir_stmt \<Rightarrow> bool" where
  "good_stmt N E n st \<longleftrightarrow> printable_stmt N st \<and> (case st of IfStmt e k else_k \<Rightarrow> k < n \<and> else_k \<in> E | WhileStmt e k \<Rightarrow> k < n | _ \<Rightarrow> True)"

definition good_builder :: "c_names \<Rightarrow> nat set \<Rightarrow> builder \<Rightarrow> bool" where
  "good_builder N E b \<longleftrightarrow> 0 < length (blocks b) \<and> curr_block b < length (blocks b) \<and> curr_block b \<notin> E \<and> 0 \<notin> E \<and> E \<subseteq> {..<length (blocks b)} \<and>
     (\<forall>k\<in>E. blocks b ! k = []) \<and> (\<forall>k<length (blocks b). list_all (good_stmt N E (length (blocks b))) (blocks b ! k))"

definition good_control :: "c_names \<Rightarrow> nat set \<Rightarrow> nat \<Rightarrow> control \<Rightarrow> bool" where
  "good_control N E n c \<longleftrightarrow> original_block c < n \<and> original_block c \<notin> E \<and> own_block c < n \<and> printable N (condition c) \<and>
     (is_loop c \<or> own_block c + 1 \<in> E)"

definition good_generated :: "c_names \<Rightarrow> nat set \<Rightarrow> generated \<Rightarrow> bool" where
  "good_generated N E g \<longleftrightarrow> good_builder N E (fct_builder g) \<and> decls_ok N (iu_declarations g) \<and>
     (\<forall>a c. opt_control g a = Some c \<longrightarrow> good_control N E (length (blocks (fct_builder g))) c)"

lemma good_stmt_mono: "good_stmt N E n st \<Longrightarrow> E \<subseteq> E' \<Longrightarrow> n \<le> n' \<Longrightarrow> good_stmt N E' n' st"
  by (cases st) (auto simp: good_stmt_def)

lemma good_stmts_mono: "list_all (good_stmt N E n) ss \<Longrightarrow> E \<subseteq> E' \<Longrightarrow> n \<le> n' \<Longrightarrow> list_all (good_stmt N E' n') ss"
  using good_stmt_mono by (auto simp: list_all_iff)

lemma good_control_grown: "good_control N E n c \<Longrightarrow> E \<subseteq> E' \<Longrightarrow> E' \<subseteq> E \<union> {n..} \<Longrightarrow> n \<le> n' \<Longrightarrow> good_control N E' n' c"
  by (auto simp: good_control_def)

lemma plain_good: "plain_printable N st \<Longrightarrow> good_stmt N E n st"
  by (cases st) (auto simp: plain_printable_def good_stmt_def)

lemma good_append:
  assumes "good_builder N E b" "k < length (blocks b)" "k \<notin> E" "good_stmt N E (length (blocks b)) st"
  shows "good_builder N E (append_to k st b) \<and> length (blocks (append_to k st b)) = length (blocks b)"
  using assms by (auto simp: good_builder_def append_to_def nth_list_update)

lemma good_place:
  assumes "good_builder N E b" "plain_printable N (placed_stmt pl)"
  shows "good_builder N E (place_stmt pl b) \<and> length (blocks (place_stmt pl b)) = length (blocks b)"
proof (cases pl)
  case (InRoot st)
  then show ?thesis using good_append [OF assms(1), of 0 st] plain_good assms
    by (simp add: place_stmt_def append_root_def good_builder_def [of N E b])
next
  case (InCurrent st)
  then show ?thesis using good_append [OF assms(1), of "curr_block b" st] plain_good assms
    by (simp add: place_stmt_def appendStmt_def good_builder_def [of N E b])
qed

lemma good_places:
  assumes "good_builder N E b" "list_all (plain_printable N) (map placed_stmt pls)"
  shows "good_builder N E (fold place_stmt pls b) \<and> length (blocks (fold place_stmt pls b)) = length (blocks b)"
  using assms
proof (induction pls arbitrary: b)
  case (Cons pl pls)
  then have "good_builder N E (place_stmt pl b) \<and> length (blocks (place_stmt pl b)) = length (blocks b)" by (intro good_place) auto
  then show ?case using Cons.IH [of "place_stmt pl b"] Cons.prems(2) by simp
qed simp

lemma good_open:
  assumes "good_builder N E b" "printable N e" "open_control (is_while, e) b = (c, b')"
  shows "\<exists>E'. good_builder N E' b' \<and> good_control N E' (length (blocks b')) c \<and> E \<subseteq> E' \<and> E' \<subseteq> E \<union> {length (blocks b)..} \<and>
     length (blocks b) \<le> length (blocks b')"
proof (cases is_while)
  case True
  then have b': "b' = b\<lparr> blocks := blocks b @ [[]], curr_block := length (blocks b) \<rparr>"
      "c = \<lparr> is_loop = True, original_block = curr_block b, condition = e, own_block = length (blocks b) \<rparr>"
    using assms(3) by (simp_all add: open_control_def buildWhile_def)
  have "good_builder N E b'" using assms(1) good_stmts_mono [of N E "length (blocks b)" _ E "Suc (length (blocks b))"]
    by (auto simp: good_builder_def b'(1) nth_append less_Suc_eq)
  moreover have "good_control N E (length (blocks b')) c" using assms(1,2) by (simp add: good_control_def good_builder_def b')
  ultimately show ?thesis by (intro exI [of _ E]) (simp add: b'(1))
next
  case False
  let ?E = "insert (Suc (length (blocks b))) E"
  have b': "b' = b\<lparr> blocks := blocks b @ [[], []], curr_block := length (blocks b) \<rparr>"
      "c = \<lparr> is_loop = False, original_block = curr_block b, condition = e, own_block = length (blocks b) \<rparr>"
    using assms(3) False by (simp_all add: open_control_def buildIf_def)
  have "blocks b' ! k = []" if "k \<in> ?E" for k using that assms(1) by (auto simp: good_builder_def b'(1) nth_append)
  moreover have "list_all (good_stmt N ?E (length (blocks b'))) (blocks b' ! k)" if "k < length (blocks b')" for k
  proof (cases "k < length (blocks b)")
    case True
    then have "list_all (good_stmt N E (length (blocks b))) (blocks b ! k)" using assms(1) by (simp add: good_builder_def)
    from good_stmts_mono [OF this, of ?E "length (blocks b')"] show ?thesis using True by (auto simp: b'(1) nth_append)
  qed (use that in \<open>auto simp: b'(1) nth_append less_Suc_eq\<close>)
  ultimately have "good_builder N ?E b'" using assms(1) by (auto simp: good_builder_def b'(1))
  moreover have "good_control N ?E (length (blocks b')) c" using assms(1,2) by (simp add: good_control_def good_builder_def b')
  ultimately show ?thesis by (intro exI [of _ ?E]) (auto simp: b'(1))
qed

lemma good_End:
  assumes "good_builder N E b" "good_control N E (length (blocks b)) c"
  shows "good_builder N E (End c b) \<and> length (blocks (End c b)) = length (blocks b)"
proof -
  let ?st = "if is_loop c then WhileStmt (condition c) (own_block c) else IfStmt (condition c) (own_block c) (own_block c + 1)"
  let ?b = "b\<lparr> curr_block := original_block c \<rparr>"
  have "good_builder N E ?b" using assms by (auto simp: good_builder_def good_control_def)
  moreover have "good_stmt N E (length (blocks ?b)) ?st" using assms(2) by (auto simp: good_stmt_def good_control_def)
  ultimately have "good_builder N E (append_to (original_block c) ?st ?b) \<and> length (blocks (append_to (original_block c) ?st ?b)) = length (blocks ?b)"
    using assms(2) by (intro good_append) (auto simp: good_control_def)
  then show ?thesis by (simp add: End_def appendStmt_def)
qed

section \<open>Generating and closing keep the builder printable\<close>

lemma declareIUs_ok: "declareIUs new ds = Returns ds' \<Longrightarrow> decls_ok N ds \<Longrightarrow> list_all (\<lambda>(i, t). type_ok t \<and> iu_named N i) new \<Longrightarrow> decls_ok N ds'"
proof (induction new arbitrary: ds)
  case (Cons d new)
  obtain i t where d: "d = (i, t)" by (cases d)
  then have "declareIUs new (ds(i \<mapsto> t)) = Returns ds'" using Cons.prems(1) by (auto simp: declareIU_def split: if_splits)
  then show ?case by (rule Cons.IH [OF _ decl_ok [OF Cons.prems(2)]]) (use Cons.prems(3) d in simp_all)
qed simp

lemma good_generate:
  assumes "op_printable N il tp s" "code_ok s" "generate p il tp s g = Returns g'" "good_generated N E g"
  shows "\<exists>E'. good_generated N E' g'"
proof -
  have ds: "decls_ok N (iu_declarations g)" and b: "good_builder N E (fct_builder g)" using assms(4) by (simp_all add: good_generated_def)
  obtain c ds' where c: "op_code p il tp (iu_declarations g) s = Returns c" "declareIUs (declared_ius c) (iu_declarations g) = Returns ds'"
    using assms(3) by (auto simp: generate_def obind_Returns_iff)
  have cp: "code_printable N c" by (rule op_code_printable [OF assms(1) ds assms(2) c(1)])
  let ?b = "fold place_stmt (statements c) (fct_builder g)"
  have b1: "good_builder N E ?b" "length (blocks ?b) = length (blocks (fct_builder g))"
    using good_places [OF b, of "statements c"] cp by (simp_all add: code_printable_def)
  have ds': "decls_ok N ds'" using declareIUs_ok [OF c(2) ds] cp by (simp add: code_printable_def)
  have ctl: "opt_control g a = Some ct \<Longrightarrow> good_control N E (length (blocks ?b)) ct" for a ct
    using assms(4) b1(2) by (simp add: good_generated_def)
  show ?thesis
  proof (cases "opens c")
    case None
    then have "g' = g\<lparr> fct_builder := ?b, iu_declarations := ds' \<rparr>" using assms(3) c by (simp add: generate_def Let_def)
    then have "good_generated N E g'" using b1 ds' ctl by (auto simp: good_generated_def)
    then show ?thesis by blast
  next
    case (Some wc)
    obtain w e where we: "wc = (w, e)" by (cases wc)
    obtain ct b2 where o: "open_control (w, e) ?b = (ct, b2)" by (cases "open_control (w, e) ?b")
    have "printable N e" using cp Some we by (simp add: code_printable_def)
    from good_open [OF b1(1) this o] obtain E' where E': "good_builder N E' b2" "good_control N E' (length (blocks b2)) ct" "E \<subseteq> E'"
        "E' \<subseteq> E \<union> {length (blocks ?b)..}" "length (blocks ?b) \<le> length (blocks b2)" by blast
    have g': "g' = g\<lparr> fct_builder := b2, iu_declarations := ds', opt_control := (opt_control g)(subop_addr s \<mapsto> ct) \<rparr>"
      using assms(3) Some we o c by (simp add: generate_def Let_def)
    have "good_control N E' (length (blocks b2)) x" if "opt_control g a = Some x" for a x
      by (rule good_control_grown [OF ctl [OF that] E'(3-5)])
    then have "good_generated N E' g'" using E'(1,2) ds' by (auto simp: good_generated_def g')
    then show ?thesis by blast
  qed
qed

lemma loop_step_printable:
  assumes "op_named N (subop_addr s)" "decls_ok N ds" "loop_step ds s = Returns st"
  shows "plain_printable N st"
proof -
  let ?table = "VarRef (OpVar (subop_addr s) ''_ht'') (Pointer Void)" and ?idx = "Ref (VarRef (OpVar (subop_addr s) ''_it_idx'') (UnsignedInt 8))"
  obtain e where e: "getIUDeclaration ds (hd (provided_ius s)) = Returns e" using assms(3) by (auto simp: loop_step_def Let_def obind_Returns_iff)
  then have ep: "printable N e" "operand e" using getIUDeclaration_printable [OF _ assms(2)] by blast+
  have "list_all (printable N) [?table, Ref e, ?idx]" using ep(1) by (simp add: names_words assms(1))
  then have "invoke f [?table, Ref e, ?idx] = Returns call \<Longrightarrow> printable N call" for f call using invoke_printable by blast
  then show ?thesis using assms(3) e ep by (auto simp: loop_step_def Let_def obind_Returns_iff split: subop_kind.splits)
qed

lemma good_ended:
  assumes "end_control s g = Returns g'" "good_generated N E g"
  shows "good_generated N E g'"
proof -
  obtain c where c: "opt_control g (subop_addr s) = Some c" "g' = g\<lparr> fct_builder := End c (fct_builder g), opt_control := (opt_control g)(subop_addr s := None) \<rparr>"
    using assms(1) by (auto simp: end_control_def split: option.splits)
  then show ?thesis using assms(2) good_End [of N E "fct_builder g" c] by (auto simp: good_generated_def split: if_splits)
qed

lemma good_close:
  assumes "op_named N (subop_addr s)" "generate_close s g = Returns g'" "good_generated N E g"
  shows "good_generated N E g'"
proof -
  have step: "good_generated N E g'" if st: "loop_step (iu_declarations g) s = Returns st"
    and e: "end_control s (g\<lparr> fct_builder := appendStmt st (fct_builder g) \<rparr>) = Returns g'" for st
  proof (rule good_ended [OF e])
    have "plain_printable N st" using loop_step_printable [OF assms(1) _ st] assms(3) by (simp add: good_generated_def)
    then have "good_builder N E (appendStmt st (fct_builder g)) \<and> length (blocks (appendStmt st (fct_builder g))) = length (blocks (fct_builder g))"
      using assms(3) unfolding appendStmt_def by (intro good_append plain_good) (auto simp: good_generated_def good_builder_def)
    then show "good_generated N E (g\<lparr> fct_builder := appendStmt st (fct_builder g) \<rparr>)" using assms(3) by (simp add: good_generated_def)
  qed
  have looped: "good_generated N E g'" if o: "obind (loop_step (iu_declarations g) s) (\<lambda>st. end_control s (g\<lparr> fct_builder := appendStmt st (fct_builder g) \<rparr>)) = Returns g'"
  proof -
    obtain st where st: "loop_step (iu_declarations g) s = Returns st" "end_control s (g\<lparr> fct_builder := appendStmt st (fct_builder g) \<rparr>) = Returns g'"
      using o unfolding obind_Returns_iff by blast
    show ?thesis by (rule step [OF st])
  qed
  have "generate_close s g = end_control s g \<or> generate_close s g = Returns g \<or>
      generate_close s g = obind (loop_step (iu_declarations g) s) (\<lambda>st. end_control s (g\<lparr> fct_builder := appendStmt st (fct_builder g) \<rparr>))"
    by (simp add: generate_close_def split: subop_kind.split)
  then show ?thesis using assms(2,3) good_ended looped by fastforce
qed

lemma good_generated_all:
  "each_outcome (generate p il tp) os g = Returns g' \<Longrightarrow> list_all (\<lambda>s. op_printable N il tp s \<and> code_ok s) os \<Longrightarrow> good_generated N E g \<Longrightarrow>
   \<exists>E'. good_generated N E' g'"
proof (induction os arbitrary: g E)
  case (Cons s os)
  then obtain g1 where g1: "generate p il tp s g = Returns g1" "each_outcome (generate p il tp) os g1 = Returns g'" by (auto simp: obind_Returns_iff)
  then obtain E' where "good_generated N E' g1" using good_generate Cons.prems(2,3) by fastforce
  then show ?case using Cons.IH [OF g1(2)] Cons.prems(2) by auto
qed auto

lemma good_closed_all:
  "each_outcome generate_close cs g = Returns g' \<Longrightarrow> list_all (\<lambda>s. op_named N (subop_addr s)) cs \<Longrightarrow> good_generated N E g \<Longrightarrow> good_generated N E g'"
proof (induction cs arbitrary: g)
  case (Cons s cs)
  then obtain g1 where g1: "generate_close s g = Returns g1" "each_outcome generate_close cs g1 = Returns g'" by (auto simp: obind_Returns_iff)
  then have "good_generated N E g1" using good_close Cons.prems(2,3) by fastforce
  then show ?case using Cons.IH [OF g1(2)] Cons.prems(2) by simp
qed simp

lemma no_code_good: "good_generated N {} no_code"
  by (simp add: good_generated_def good_builder_def decls_ok_def FunctionBuilder_def)

section \<open>The tree of the blocks\<close>

lemma good_blocks_ok: "good_builder N E b \<Longrightarrow> blocks_ok N (blocks b)"
proof -
  assume b: "good_builder N E b"
  have "stmt_ok N (blocks b) st" if "good_stmt N E (length (blocks b)) st" for st
    using that b by (cases st) (auto simp: stmt_ok_def good_stmt_def good_builder_def)
  then show ?thesis using b by (auto simp: blocks_ok_def list_all_length good_builder_def)
qed

lemma scoped_tree:
  assumes "scoped bs C V ss" "C \<subseteq> {..<length bs}" "\<forall>k<length bs. list_all (good_stmt N E (length bs)) (bs ! k)" "\<forall>k\<in>E. bs ! k = []"
    and "list_all (good_stmt N E (length bs)) ss"
  shows "\<exists>ts. block_tree N bs ss ts"
  using assms(1,5)
proof (induction rule: scoped.induct)
  case (end_of_block V) show ?case by (blast intro: no_statement)
next
  case (statement st V ss)
  then obtain ts where "block_tree N bs ss ts" by auto
  then show ?case using plain_statement [OF statement.hyps(2)] by blast
next
  case (inner_block st V k ss)
  then have "k < length bs" using assms(2) by auto
  then have "list_all (good_stmt N E (length bs)) (bs ! k)" using assms(3) by blast
  then obtain ts us where ts: "block_tree N bs ss ts" "block_tree N bs (bs ! k) us" using inner_block.IH inner_block.prems by auto
  have "(\<exists>e. st = WhileStmt e k) \<or> (\<exists>e else_k. st = IfStmt e k else_k \<and> else_k \<in> E)"
    using inner_block.hyps(2) inner_block.prems by (cases st) (auto simp: good_stmt_def)
  then show ?case
  proof (elim disjE exE conjE)
    fix e assume "st = WhileStmt e k" then show ?case using while_statement [OF ts(2,1)] by blast
  next
    fix e else_k assume "st = IfStmt e k else_k" "else_k \<in> E"
    moreover have "block_tree N bs (bs ! else_k) []" using assms(4) \<open>else_k \<in> E\<close> by (simp add: no_statement)
    ultimately show ?case using if_statement [OF ts(2) _ ts(1)] by blast
  qed
qed

section \<open>The text of the function\<close>

definition head_tokens :: "token list" where
  "head_tokens = [Word ''uint8_t'', Word ''execute'', Sym ''('', Word ''void'', Sym ''*'', Sym ''*'', Word ''global_state'', Sym '')'']"

definition execute_function :: "c_stmt list \<Rightarrow> c_function" where
  "execute_function ts = \<lparr> c_return = CBase ''uint8_t'', c_name = ''execute'', c_parameter = (CPtr (CPtr (CBase ''void'')), ''global_state''), c_body = ts \<rparr>"

lemma head_lexes: "lexes (typeDescription (UnsignedInt 1) @ '' '' @ ''execute('' @ typeDescription (Pointer (Pointer Void)) @ '' '' @ ''global_state)'') head_tokens"
proof -
  have t: "lexes (typeDescription (UnsignedInt 1)) [Word ''uint8_t'']" "lexes (typeDescription (Pointer (Pointer Void))) [Word ''void'', Sym ''*'', Sym ''*'']"
    using type_lexes [of "UnsignedInt 1"] type_lexes [of "Pointer (Pointer Void)"] by (simp_all add: to_string_sizes)
  have g: "lexes ''global_state'' [Word ''global_state'']" by (rule lexes_is_word) simp
  have "lex (typeDescription (UnsignedInt 1) @ '' '' @ cs) = Word ''uint8_t'' # lex cs" for cs using lexesD [OF t(1), of "'' '' @ cs"] by simp
  moreover have "lex (''execute('' @ cs) = Word ''execute'' # Sym ''('' # lex cs" for cs
    using lex_call [of "''execute''" cs] by (simp add: char_class_defs of_char_def)
  moreover have "lex (typeDescription (Pointer (Pointer Void)) @ '' '' @ cs) = Word ''void'' # Sym ''*'' # Sym ''*'' # lex cs" for cs
    using lexesD [OF t(2), of "'' '' @ cs"] by simp
  moreover have "lex (''global_state)'' @ cs) = Word ''global_state'' # Sym '')'' # lex cs" for cs using lexesD [OF g, of "'')'' @ cs"] by simp
  ultimately show ?thesis by (simp add: lexes_def head_tokens_def del: append_Cons typeDescription.simps)
qed

lemma function_writes:
  assumes "writes (compileBlock n N (blocks b) (blocks b ! 0)) toks"
  shows "writes (compileFunction n N (createFctBuilder ''execute'' b)) (head_tokens @ braces toks)"
proof -
  have "lexes [] []" by (simp add: lexes_def)
  from seq_writes [OF stmt_writes [OF head_lexes, of False] seq_writes [OF block_writes [OF assms] stmt_writes [OF this, of False]]]
  show ?thesis by (simp add: writes_def compileFunction_def createFctBuilder_def argument_text_def braces_def)
qed

lemma head_parses: "parse_braces (parse_stmts n) ts = Some (ss, rest) \<Longrightarrow> parse_function n (head_tokens @ ts) = Some (execute_function ss, rest)"
  by (simp add: parse_function_def head_tokens_def execute_function_def base_type type_words_def)

lemma function_text_reads:
  assumes "block_tree N (blocks b) (blocks b ! 0) ts" "blocks_ok N (blocks b)" "0 < length (blocks b)"
  shows "\<exists>fuel. \<forall>n\<ge>fuel. \<exists>w. compileFunction n N (createFctBuilder ''execute'' b) ScopedWriter = Returns w \<and>
     parse_function n (lex (stream w)) = Some (execute_function ts, [])"
proof -
  obtain toks where r: "renders N (blocks b) (blocks b ! 0) ts toks"
    using block_renders [OF assms(1,2) blocks_ok_at [OF assms(2,3)]] by blast
  then obtain k where k: "\<forall>n\<ge>k. writes (compileBlock n N (blocks b) (blocks b ! 0)) toks" unfolding renders_def by blast
  obtain l where l: "\<forall>n\<ge>l. parse_braces (parse_stmts n) (braces toks @ []) = Some (ts, [])" using r braces_read unfolding renders_def by blast
  have "\<exists>w. compileFunction n N (createFctBuilder ''execute'' b) ScopedWriter = Returns w \<and> parse_function n (lex (stream w)) = Some (execute_function ts, [])"
    if n: "n \<ge> max k l" for n
  proof -
    obtain t where t: "compileFunction n N (createFctBuilder ''execute'' b) ScopedWriter = Returns (ScopedWriter\<lparr> stream := stream ScopedWriter @ t \<rparr>)"
        "lexes_line t (head_tokens @ braces toks)"
      using function_writes k n unfolding writes_def by fastforce
    have "lex t = head_tokens @ braces toks" using t(2) [unfolded lexes_line_def, rule_format, of "[]"] by simp
    then show ?thesis using t(1) head_parses l n by (simp add: ScopedWriter_def)
  qed
  then show ?thesis by blast
qed

section \<open>From the pipeline to the text\<close>

lemma compiled_blocks:
  assumes "list_all (op_printable N il tp) (suboperators p)" "compilable p" "after_inputs p {} os" "mset os = mset (suboperators p)"
    and "each_outcome (generate p il tp) os no_code = Returns g" "mset cs = mset (suboperators p)" "each_outcome generate_close cs g = Returns h"
  shows "\<exists>E. good_builder N E (appendStmt return_zero (fct_builder h))"
proof -
  have set: "set os = set (suboperators p)" "set cs = set (suboperators p)" using assms(4,6) by (metis set_mset_mset)+
  have "list_all (\<lambda>s. op_printable N il tp s \<and> code_ok s) os" using assms(1,2) set(1) code_ok_at by (auto simp: list_all_iff)
  then obtain E where "good_generated N E g" using good_generated_all [OF assms(5) _ no_code_good] by blast
  moreover have "list_all (\<lambda>s. op_named N (subop_addr s)) cs" using assms(1) set(2) by (auto simp: list_all_iff op_printable_def)
  ultimately have h: "good_builder N E (fct_builder h)" using good_closed_all [OF assms(7)] by (simp add: good_generated_def)
  have "good_stmt N E n return_zero" for n by (simp add: good_stmt_def)
  then show ?thesis using h good_append [OF h] unfolding appendStmt_def by (auto simp: good_builder_def [of N E "fct_builder h"])
qed

text \<open>
  C39. A compiled pipeline reads back from its C text. When the pipeline is a data flow whose loops and filters depend on each other in a
  line, and its names, types and constants have a C notation, the code generation returns a function whose blocks form a tree; the backend
  writes that function, and lexing and parsing the text by the C grammar, with C's precedences, gives exactly the function \<open>execute\<close> with
  the statements of that tree as its body.
\<close>

theorem compiled_text_reads:
  assumes "compilable p" "controls_in_line p" "list_all (op_printable N il tp) (suboperators p)"
  shows "\<exists>fuel b ts. block_tree N (blocks b) (blocks b ! 0) ts \<and> (\<forall>n\<ge>fuel. compile n p il tp = Returns b \<and>
     (\<exists>w. compileFunction n N (createFctBuilder ''execute'' b) ScopedWriter = Returns w \<and>
        parse_function n (lex (stream w)) = Some (execute_function ts, [])))"
proof -
  obtain fuel os cs g h where ph: "\<forall>n\<ge>fuel. compile n p il tp = Returns (appendStmt return_zero (fct_builder h))" "after_inputs p {} os"
      "mset os = mset (suboperators p)" "each_outcome (generate p il tp) os no_code = Returns g" "after_inputs p {} (rev cs)"
      "mset cs = mset (suboperators p)" "each_outcome generate_close cs g = Returns h"
    using compile_phases [OF assms(1)] by blast
  let ?b = "appendStmt return_zero (fct_builder h)"
  obtain E where E: "good_builder N E ?b" using compiled_blocks [OF assms(3,1) ph(2-4,6,7)] by blast
  have "well_scoped ?b" using phases_well_scoped [OF assms(1,2) ph(2-7)] by blast
  then have "scoped (blocks ?b) {..<length (blocks ?b)} {GlobalState} (blocks ?b ! 0)" by (simp only: well_scoped_def)
  then obtain ts where ts: "block_tree N (blocks ?b) (blocks ?b ! 0) ts"
    using E scoped_tree [where N = N and E = E] unfolding good_builder_def by blast
  obtain k where "\<forall>n\<ge>k. \<exists>w. compileFunction n N (createFctBuilder ''execute'' ?b) ScopedWriter = Returns w \<and>
      parse_function n (lex (stream w)) = Some (execute_function ts, [])"
    using function_text_reads [OF ts good_blocks_ok [OF E]] E unfolding good_builder_def by blast
  with ph(1) ts show ?thesis by (intro exI [of _ "max fuel k"] exI [of _ ?b] exI [of _ ts]) auto
qed

definition decimal_names :: c_names where
  "decimal_names = \<lparr> iu_addr_str = to_string, op_addr_str = to_string, op_source = Map.empty \<rparr>"

lemma decimal_named: "iu_name i = [] \<Longrightarrow> iu_named decimal_names i" "op_named decimal_names a"
  using to_string_digit_chars by (auto simp: iu_named_def op_named_def decimal_names_def list_all_iff word_char_def)

theorem compiled_text_reads_witness:
  "\<exists>fuel b ts. block_tree decimal_names (blocks b) (blocks b ! 0) ts \<and> (\<forall>n\<ge>fuel. compile n (pipe_of ex_filter_ops) True (\<lambda>_. None) = Returns b \<and>
     (\<exists>w. compileFunction n decimal_names (createFctBuilder ''execute'' b) ScopedWriter = Returns w \<and>
        parse_function n (lex (stream w)) = Some (execute_function ts, [])))"
proof (rule compiled_text_reads [OF ex_filter_compilable ex_filter_in_line])
  show "list_all (op_printable decimal_names True (\<lambda>_. None)) (suboperators (pipe_of ex_filter_ops))"
    by (simp add: pipe_of_suboperators op_printable_def decimal_named ex_filter_defs)
qed

end
