(* ===== verification/C_Functions.thy ===== *)
theory C_Functions
  imports C_Backend
begin

text \<open>
  The functions that the backend writes in front of every program: membership in a list of strings, and the \<open>NOT LIKE\<close> with a pattern of
  tokens between percent signs. Taking the first occurrence of every token is enough to decide whether there is a match at all.
\<close>

lemma in_strlist_member: "in_strlist start arg \<longleftrightarrow> arg \<in> set start"
proof -
  have "fold (\<lambda>s res. res \<or> s = arg) start found \<longleftrightarrow> found \<or> arg \<in> set start" for found
    by (induction start arbitrary: found) auto
  then show ?thesis by (simp add: in_strlist_def)
qed

text \<open>\<open>spread tokens gaps rest\<close> is a string with these tokens in this order: each behind a gap, and a rest behind the last.\<close>

fun spread :: "string list \<Rightarrow> string list \<Rightarrow> string \<Rightarrow> string" where
  "spread (token # tokens) (gap # gaps) rest = gap @ token @ spread tokens gaps rest"
| "spread tokens gaps rest = rest"

definition like_tokens :: "string list \<Rightarrow> string \<Rightarrow> bool" where
  "like_tokens tokens arg \<longleftrightarrow> (\<exists>gaps rest. length gaps = length tokens \<and> arg = spread tokens gaps rest)"

lemma like_nothing: "like_tokens [] arg"
  by (simp add: like_tokens_def)

lemma like_token: "like_tokens (token # tokens) arg \<longleftrightarrow> (\<exists>gap rest. arg = gap @ token @ rest \<and> like_tokens tokens rest)"
proof
  assume "like_tokens (token # tokens) arg"
  then obtain gaps rest where g: "length gaps = Suc (length tokens)" "arg = spread (token # tokens) gaps rest" by (auto simp: like_tokens_def)
  then obtain gap gaps' where "gaps = gap # gaps'" by (cases gaps) auto
  then show "\<exists>gap rest. arg = gap @ token @ rest \<and> like_tokens tokens rest" using g by (auto simp: like_tokens_def)
next
  assume "\<exists>gap rest. arg = gap @ token @ rest \<and> like_tokens tokens rest"
  then obtain gap gaps rest where "length gaps = length tokens" "arg = gap @ token @ spread tokens gaps rest" by (auto simp: like_tokens_def)
  then have "length (gap # gaps) = length (token # tokens) \<and> arg = spread (token # tokens) (gap # gaps) rest" by simp
  then show "like_tokens (token # tokens) arg" unfolding like_tokens_def by blast
qed

lemma like_longer: "like_tokens tokens arg \<Longrightarrow> like_tokens tokens (before @ arg)"
proof (cases tokens)
  case (Cons token tokens')
  assume "like_tokens tokens arg"
  then obtain gap rest where "arg = gap @ token @ rest" "like_tokens tokens' rest" by (auto simp: Cons like_token)
  then have "before @ arg = (before @ gap) @ token @ rest \<and> like_tokens tokens' rest" by simp
  then show ?thesis unfolding Cons like_token by blast
qed (simp add: like_nothing)

text \<open>\<open>strstr\<close> finds an occurrence, and none that ends further to the left is missed.\<close>

lemma strstr_found: "strstr arg token = Some found \<Longrightarrow> \<exists>gap. arg = gap @ found \<and> take (length token) found = token"
proof (induction arg token rule: strstr.induct)
  case (2 c arg token)
  show ?case
  proof (cases "take (length token) (c # arg) = token")
    case False
    then obtain gap where "arg = gap @ found" "take (length token) found = token" using 2 by auto
    then show ?thesis by (metis append_Cons)
  qed (use 2 in auto)
qed (auto split: if_splits)

lemma strstr_first: "arg = gap @ token @ rest \<Longrightarrow> \<exists>more. strstr arg token = Some (token @ more @ rest)"
proof (induction arg token arbitrary: gap rule: strstr.induct)
  case (1 token) then show ?case by simp
next
  case (2 c arg token)
  show ?case
  proof (cases "take (length token) (c # arg) = token")
    case True
    then obtain u where u: "c # arg = token @ u" by (metis append_take_drop_id)
    then have "token @ u = gap @ token @ rest" using 2 by simp
    then have "drop (length gap) u = rest" by (metis append.assoc append_eq_conv_conj length_append add.commute drop_drop)
    then have "u = take (length gap) u @ rest" by (metis append_take_drop_id)
    then show ?thesis using True u by (metis append.assoc strstr.simps(2))
  next
    case False
    then have "gap \<noteq> []" using "2.prems" by (metis append_Nil append_eq_conv_conj)
    then obtain gap' where "arg = gap' @ token @ rest" using "2.prems" by (cases gap) auto
    from "2.IH" [OF False this] show ?thesis using False by simp
  qed
qed

text \<open>
  C40. \<open>NOT LIKE\<close> decides the absence of a match. The generated function returns true exactly when the string does not contain the tokens of
  the pattern in their order without overlap, although it only ever tries the first occurrence of each.
\<close>

theorem not_like_tokens_correct: "not_like_tokens tokens arg = (\<not> like_tokens tokens arg)"
proof (induction tokens arbitrary: arg)
  case Nil show ?case by (simp add: like_nothing)
next
  case (Cons token tokens)
  show ?case
  proof (cases "strstr arg token")
    case None
    then have "\<not> like_tokens (token # tokens) arg" unfolding like_token using strstr_first by fastforce
    then show ?thesis using None by simp
  next
    case (Some found)
    let ?after = "drop (length token) found"
    obtain gap where gap: "arg = gap @ found" "take (length token) found = token" using strstr_found [OF Some] by blast
    have "like_tokens (token # tokens) arg \<longleftrightarrow> like_tokens tokens ?after"
    proof
      assume "like_tokens (token # tokens) arg"
      then obtain g rest where g: "arg = g @ token @ rest" "like_tokens tokens rest" by (auto simp: like_token)
      obtain more where "found = token @ more @ rest" using strstr_first [OF g(1)] Some by auto
      then show "like_tokens tokens ?after" using like_longer [OF g(2)] by simp
    next
      assume a: "like_tokens tokens ?after"
      have "arg = gap @ token @ ?after" using gap by (metis append_take_drop_id)
      then show "like_tokens (token # tokens) arg" using a unfolding like_token by blast
    qed
    then show ?thesis using Cons.IH Some by simp
  qed
qed

end
