(* ===== verification/HashTable_Direct.thy ===== *)
theory HashTable_Direct
  imports HashTable_Props
begin

text \<open>
  \<open>HashTableDirectLookup\<close>, the table for two byte keys, and the sizing of the merge tables.
\<close>

section \<open>Two byte keys\<close>

lemma load_u16_less: "load_u16 k < 65536"
  using unat_u8 [of "k ! 0"] unat_u8 [of "k ! 1"] by (simp add: load_u16_def)

lemma store_load: "length k = 2 \<Longrightarrow> store_u16 (load_u16 k) = k"
proof -
  assume "length k = 2"
  then obtain a b where k: "k = [a, b]" by (metis (no_types) One_nat_def length_0_conv length_Suc_conv numeral_2_eq_2)
  have a: "unat a < 256" by (rule unat_u8)
  then have "(unat a + 256 * unat b) mod 256 = unat a" "(unat a + 256 * unat b) div 256 = unat b" by simp_all
  then show ?thesis by (simp add: k store_u16_def load_u16_def)
qed

lemma load_store: "i < 65536 \<Longrightarrow> load_u16 (store_u16 i) = i"
  by (simp add: load_u16_def store_u16_def unsigned_of_nat take_bit_nat_def)

lemma length_store_u16 [simp]: "length (store_u16 i) = 2" by (simp add: store_u16_def)

section \<open>Invariant and abstraction\<close>

definition dl_slot :: "direct_ht \<Rightarrow> nat \<Rightarrow> bytes" where
  "dl_slot st i = mem_read (i * dl_slot_size st) (dl_slot_size st) (dl_data st)"

definition dl_inv :: "direct_ht \<Rightarrow> bool" where
  "dl_inv st \<longleftrightarrow> length (dl_tags st) = 65536 \<and> length (dl_data st) = 65536 * dl_slot_size st \<and> 2 \<le> dl_slot_size st \<and>
     num_inserted st = card {i. i < 65536 \<and> dl_tags st ! i} \<and>
     (\<forall>i<65536. dl_slot st i = (if dl_tags st ! i then store_u16 i @ drop 2 (dl_slot st i) else replicate (dl_slot_size st) 0))"

definition dl_abs :: "direct_ht \<Rightarrow> bytes \<Rightarrow> bytes option" where
  "dl_abs st k = (if dl_tags st ! load_u16 k then Some (dl_slot st (load_u16 k)) else None)"

definition dl_deref :: "direct_ht \<Rightarrow> nat \<Rightarrow> bytes" where
  "dl_deref st p = mem_read p (dl_slot_size st) (dl_data st)"

lemma dl_range: "dl_inv st \<Longrightarrow> i < 65536 \<Longrightarrow> i * dl_slot_size st + dl_slot_size st \<le> length (dl_data st)"
  using slot_in_range [of i 65536 "dl_slot_size st"] by (simp add: dl_inv_def)

lemma dl_inv_fresh:
  assumes "unat payload_size + 2 < 65536"
  shows "dl_inv (HashTableDirectLookup payload_size)" "dl_abs (HashTableDirectLookup payload_size) k = None"
    "dl_slot_size (HashTableDirectLookup payload_size) = unat payload_size + 2"
proof -
  have u: "unat (2 + payload_size) = unat payload_size + 2"
  proof -
    have "unat (2::u16) + unat payload_size < 2 ^ LENGTH(16)" using assms by simp
    then show ?thesis using unat_add_lem [of "2::u16" payload_size] by simp
  qed
  let ?st = "HashTableDirectLookup payload_size"
  have sz: "dl_slot_size ?st = unat payload_size + 2" by (simp add: HashTableDirectLookup_def u Let_def)
  have tags: "dl_tags ?st = replicate 65536 False" and data: "dl_data ?st = replicate (65536 * (unat payload_size + 2)) 0"
    and n: "num_inserted ?st = 0" by (simp_all only: HashTableDirectLookup_def u Let_def direct_ht.simps)
  have slot: "dl_slot ?st i = replicate (dl_slot_size ?st) 0" if "i < 65536" for i
    using slot_in_range [OF that, of "unat payload_size + 2"] unfolding dl_slot_def data sz by (simp add: mem_read_def min_def)
  show "dl_inv ?st" unfolding dl_inv_def tags data n using slot by (simp add: sz)
  show "dl_abs ?st k = None" using load_u16_less [of k] by (simp add: dl_abs_def tags)
  show "dl_slot_size ?st = unat payload_size + 2" by (rule sz)
qed

lemma dl_insert_slot:
  assumes "dl_inv st" "length key = 2" "j < 65536"
  shows "dl_slot (snd (dl_lookupOrInsert st key)) j = (if j = load_u16 key then key @ drop 2 (dl_slot st j) else dl_slot st j)"
proof -
  let ?i = "load_u16 key" and ?sz = "dl_slot_size st"
  have r: "?i * ?sz + ?sz \<le> length (dl_data st)" "j * ?sz + ?sz \<le> length (dl_data st)" "2 \<le> ?sz"
    using dl_range [OF assms(1) load_u16_less] dl_range [OF assms(1,3)] assms(1) by (simp_all only: dl_inv_def)
  have s: "dl_slot (snd (dl_lookupOrInsert st key)) j = mem_read (j * ?sz) ?sz (mem_write (?i * ?sz) key (dl_data st))"
    by (simp add: dl_lookupOrInsert_def dl_slot_def Let_def mult.commute store_load assms(2))
  show ?thesis
  proof (cases "j = ?i")
    case True
    then show ?thesis using r assms(2) unfolding s
      by (subst mem_read_write_inside) (simp_all add: dl_slot_def mem_write_def numeral_2_eq_2)
  next
    case False
    then show ?thesis using r assms(2) slots_disjoint [of j ?i ?sz] unfolding s
      by (subst mem_read_write_disjoint) (auto simp: dl_slot_def)
  qed
qed

lemma drop_slot_zero: "drop 2 (replicate n (0::u8)) = replicate (n - 2) 0" by simp

lemma card_insert_tag:
  assumes "length ts = n" "i < n"
  shows "card {j. j < n \<and> (ts[i := True]) ! j} = (if ts ! i then card {j. j < n \<and> ts ! j} else Suc (card {j. j < n \<and> ts ! j}))"
proof -
  have e: "{j. j < n \<and> (ts[i := True]) ! j} = insert i {j. j < n \<and> ts ! j}"
    using assms by (auto simp: nth_list_update)
  show ?thesis unfolding e using assms(2) by (simp add: card_insert_if insert_absorb)
qed

text \<open>
  C8. \<open>HashTableDirectLookup::lookupOrInsert\<close> on a two byte key: the pointer leads to the
  group of the key, a new group starts as the key followed by zero bytes, other groups keep their
  bytes, and the row counter grows exactly for new keys; \<open>lookup\<close> afterwards finds what the map holds.
\<close>
theorem direct_lookupOrInsert_refines:
  assumes inv: "dl_inv st" and key: "length key = 2" and k: "length k = 2"
  shows "case dl_lookupOrInsert st key of (p, st') \<Rightarrow>
    dl_inv st' \<and> Some (dl_deref st' p) = dl_abs st' key \<and>
    dl_abs st' k = (if k = key \<and> dl_abs st key = None then Some (key @ replicate (dl_slot_size st - 2) 0) else dl_abs st k) \<and>
    dl_size st' = dl_size st + (if dl_abs st key = None then 1 else 0) \<and>
    map_option (dl_deref st') (dl_lookup st' k) = dl_abs st' k"
proof -
  obtain p st' where e: "dl_lookupOrInsert st key = (p, st')" by fastforce
  let ?i = "load_u16 key"
  have st': "dl_tags st' = (dl_tags st)[?i := True]" "dl_slot_size st' = dl_slot_size st" "p = ?i * dl_slot_size st"
    "num_inserted st' = (if \<not> dl_tags st ! ?i then num_inserted st + 1 else num_inserted st)"
    "dl_data st' = mem_write (?i * dl_slot_size st) (store_u16 ?i) (dl_data st)"
    using e by (auto simp: dl_lookupOrInsert_def Let_def mult.commute)
  have slot: "dl_slot st' j = (if j = ?i then key @ drop 2 (dl_slot st j) else dl_slot st j)" if "j < 65536" for j
    using dl_insert_slot [OF inv key that] e by simp
  have lens: "length (dl_tags st) = 65536" "2 \<le> dl_slot_size st" "length (dl_data st) = 65536 * dl_slot_size st"
    using inv by (auto simp: dl_inv_def)
  have old: "dl_slot st j = (if dl_tags st ! j then store_u16 j @ drop 2 (dl_slot st j) else replicate (dl_slot_size st) 0)"
    if "j < 65536" for j
    using inv that unfolding dl_inv_def by blast
  have slot_i: "dl_slot st' ?i = (if dl_tags st ! ?i then dl_slot st ?i else key @ replicate (dl_slot_size st - 2) 0)"
  proof (cases "dl_tags st ! ?i")
    case True
    with old [OF load_u16_less [of key]] slot [OF load_u16_less [of key]] store_load [OF key] show ?thesis by metis
  next
    case False with old [OF load_u16_less [of key]] slot [OF load_u16_less [of key]] show ?thesis by simp
  qed
  have inv': "dl_inv st'"
    unfolding dl_inv_def
  proof (intro conjI allI impI)
    show "length (dl_data st') = 65536 * dl_slot_size st'"
    proof -
      have "?i * dl_slot_size st + length (store_u16 ?i) \<le> length (dl_data st)"
        using dl_range [OF inv load_u16_less [of key]] lens(2) by (simp only: length_store_u16)
      then show ?thesis unfolding st'(2,5) by (simp only: length_mem_write lens(3))
    qed
    show "num_inserted st' = card {i. i < 65536 \<and> dl_tags st' ! i}"
      unfolding st'(1,4) card_insert_tag [OF lens(1) load_u16_less] using inv by (simp add: dl_inv_def)
    fix j :: nat assume j: "j < 65536"
    show "dl_slot st' j = (if dl_tags st' ! j then store_u16 j @ drop 2 (dl_slot st' j) else replicate (dl_slot_size st') 0)"
    proof (cases "j = ?i")
      case True
      then show ?thesis using slot [OF j] lens(1) j key store_load [OF key] by (simp add: st'(1))
    next
      case False
      then have "dl_slot st' j = dl_slot st j" "dl_tags st' ! j = dl_tags st ! j" using slot [OF j] by (simp_all add: st'(1))
      then show ?thesis using old [OF j] st'(2) by metis
    qed
  qed (use lens st' in simp_all)
  have kk: "load_u16 k = ?i \<longleftrightarrow> k = key" using store_load [OF k] store_load [OF key] by metis
  have absk: "dl_abs st' k = (if k = key \<and> dl_abs st key = None then Some (key @ replicate (dl_slot_size st - 2) 0) else dl_abs st k)"
    using slot [OF load_u16_less [of k]] slot_i kk lens(1) load_u16_less [of key] load_u16_less [of k]
    by (cases "k = key") (auto simp: dl_abs_def st'(1))
  have der: "dl_deref st' (dl_slot_size st' * j) = dl_slot st' j" for j
    by (simp add: dl_deref_def dl_slot_def mult.commute)
  have "Some (dl_deref st' p) = dl_abs st' key"
    using der [of ?i] lens(1) load_u16_less [of key] by (simp add: st'(1,2,3) dl_abs_def mult.commute)
  moreover have "dl_size st' = dl_size st + (if dl_abs st key = None then 1 else 0)"
    by (simp add: dl_size_def st'(4) dl_abs_def)
  moreover have "map_option (dl_deref st') (dl_lookup st' k) = dl_abs st' k"
    by (simp add: dl_lookup_def dl_abs_def der Let_def)
  ultimately show ?thesis using inv' absk e by simp
qed

theorem direct_lookupOrInsert_refines_witness:
  "dl_abs (snd (dl_lookupOrInsert (HashTableDirectLookup 2) [3, 1])) [3, 1] = Some [3, 1, 0, 0] \<and>
   dl_abs (snd (dl_lookupOrInsert (HashTableDirectLookup 2) [3, 1])) [1, 3] = None"
proof -
  have "unat (2::u16) + 2 < 65536" by simp
  note f = dl_inv_fresh [OF this]
  have "replicate 2 (0::u8) = [0, 0]" by (simp add: numeral_2_eq_2)
  then show ?thesis
    using direct_lookupOrInsert_refines [of "HashTableDirectLookup 2" "[3, 1]" "[3, 1]"]
      direct_lookupOrInsert_refines [of "HashTableDirectLookup 2" "[3, 1]" "[1, 3]"] f
    by (simp add: case_prod_unfold)
qed

section \<open>Constructors and merge tables\<close>

lemma bit_length_bound: "n < 2 ^ bit_length n"
proof (induction n rule: bit_length.induct)
  case (1 n)
  then show ?case by (subst bit_length.simps) auto
qed

lemma bit_length_pred_bound: "n \<le> 2 ^ bit_length (n - 1)"
  using bit_length_bound [of "n - 1"] by linarith

lemma unat_add_small: "unat a + unat b < 65536 \<Longrightarrow> unat (a + b) = unat a + unat b" for a b :: u16
  using unat_add_lem [of a b] by simp

text \<open>
  C9. The constructor of the simple table throws exactly for start sizes that are not a power
  of two of at least two, and otherwise gives an empty table with that many slots (four when
  the key is empty) that keeps the invariant.
\<close>
theorem simple_constructor:
  assumes "unat ks + unat ps < 65536"
  shows "if 2 \<le> n \<and> pot n
    then \<exists>st. HashTableSimpleKey block ks ps n = Returns st \<and> sk_inv xxh ks st \<and> (\<forall>k. sk_abs xxh ks st k = None) \<and>
      ht_size st = 0 \<and> capacity st = (if ks = 0 then 4 else n) \<and> total_slot_size st = unat ks + unat ps
    else HashTableSimpleKey block ks ps n = Throws ''Hash table start size has to power of 2 of at least size 2.''"
proof (cases "2 \<le> n \<and> pot n")
  case True
  have p4: "pot 4" by (auto simp: pot_def intro: exI [of _ 2])
  let ?m = "if ks = 0 then 4 else n"
  have eq: "HashTableSimpleKey block ks ps n = Returns (fresh_ht block (unat ks + unat ps) ?m)"
    using True p4 unat_add_small [OF assms] by (auto simp: HashTableSimpleKey_def SharedHashTableState_ok)
  have "sk_inv xxh ks (fresh_ht block (unat ks + unat ps) ?m)"
    unfolding sk_inv_def using True p4 assms by (intro inv_fresh) auto
  with True eq show ?thesis by (auto simp: sk_abs_def ht_size_def capacity_def)
next
  case False
  then have "n < 2 \<or> n AND (n - 1) \<noteq> 0" using and_pred_zero_iff_pot [of n] by (cases "n = 0") auto
  with False show ?thesis by (auto simp: HashTableSimpleKey_def SharedHashTableState_def)
qed

theorem simple_constructor_witness:
  "\<exists>st. HashTableSimpleKey 0 2 6 8 = Returns st \<and> capacity st = 8 \<and> total_slot_size st = 8"
proof -
  have "pot 8" by (auto simp: pot_def intro: exI [of _ 3])
  with simple_constructor [of 2 6 8 0 undefined] show ?thesis by auto
qed

lemma repeat_new_Returns: "repeat_new c (Returns t) = Returns (replicate c t)"
  by (induction c) simp_all

lemma merge_slots_pot: "pot (slots_per_merge_table sizes n)" "2 \<le> slots_per_merge_table sizes n"
proof -
  show "pot (slots_per_merge_table sizes n)" by (auto simp: slots_per_merge_table_def Let_def pot_def)
  have "12 * max 8 (sum_list sizes div n) div 5 \<le> slots_per_merge_table sizes n"
    unfolding slots_per_merge_table_def Let_def by (rule bit_length_pred_bound)
  then show "2 \<le> slots_per_merge_table sizes n" by linarith
qed

text \<open>What \<open>buildMergeTables\<close> builds.\<close>

lemma sk_merge_tables:
  assumes "unat ks \<le> total_slot_size (preagg ! 0)" "total_slot_size (preagg ! 0) < 65536"
  shows "sk_buildMergeTables ks preagg n = Returns (replicate n (fresh_ht 0 (total_slot_size (preagg ! 0))
    (if ks = 0 then 4 else slots_per_merge_table (map ht_size preagg) n)))"
proof -
  let ?sz = "total_slot_size (preagg ! 0)"
  have p4: "pot 4" by (auto simp: pot_def intro: exI [of _ 2])
  have u: "unat (of_nat ?sz - ks) = ?sz - unat ks"
    using assms by (simp add: unat_sub word_le_nat_alt unsigned_of_nat take_bit_nat_eq_self)
  then have "HashTableSimpleKey 0 ks (of_nat ?sz - ks) (slots_per_merge_table (map ht_size preagg) n) =
      Returns (fresh_ht 0 ?sz (if ks = 0 then 4 else slots_per_merge_table (map ht_size preagg) n))"
    using assms p4 merge_slots_pot by (auto simp: HashTableSimpleKey_def SharedHashTableState_ok unsigned_of_nat take_bit_nat_eq_self)
  then show ?thesis by (simp add: sk_buildMergeTables_def Let_def repeat_new_Returns)
qed

text \<open>
  C10. \<open>buildMergeTables\<close> gives every thread a table with an empty map whose fill limit is at
  least the average number of keys per thread, and at least eight: that many keys go in before the table
  has to grow.
\<close>
theorem merge_tables_roomy:
  assumes "ks \<noteq> 0" "preagg \<noteq> []" "unat ks \<le> total_slot_size (preagg ! 0)" "total_slot_size (preagg ! 0) < 65536"
    "0 < thread_count"
  shows "\<exists>ts. sk_buildMergeTables ks preagg thread_count = Returns ts \<and> length ts = thread_count \<and>
    (\<forall>t\<in>set ts. sk_inv xxh ks t \<and> (\<forall>k. sk_abs xxh ks t k = None) \<and> total_slot_size t = total_slot_size (preagg ! 0) \<and>
      max 8 (sum_list (map ht_size preagg) div thread_count) \<le> max_fill t)"
proof -
  let ?x = "max 8 (sum_list (map ht_size preagg) div thread_count)"
  let ?n = "slots_per_merge_table (map ht_size preagg) thread_count"
  let ?sz = "total_slot_size (preagg ! 0)"
  have "12 * ?x div 5 \<le> ?n"
    unfolding slots_per_merge_table_def Let_def by (rule bit_length_pred_bound)
  then have fill: "?x \<le> ?n div 2" by linarith
  have inv: "sk_inv xxh ks (fresh_ht 0 ?sz ?n)"
    unfolding sk_inv_def using merge_slots_pot assms(3,4) by (intro inv_fresh) auto
  show ?thesis
    by (rule exI [of _ "replicate thread_count (fresh_ht 0 ?sz ?n)"])
      (use inv fill assms(1) in \<open>auto simp: sk_merge_tables [OF assms(3,4)] sk_abs_def\<close>)
qed

theorem merge_tables_roomy_witness:
  "\<exists>ts. sk_buildMergeTables 1 [demo_table] 2 = Returns ts \<and> length ts = 2 \<and> (\<forall>t\<in>set ts. 8 \<le> max_fill t)"
  using merge_tables_roomy [of 1 "[demo_table]" 2 undefined] by (auto simp: demo_table_def)

end
