(* ===== verification/Atomic_Props.thy ===== *)
theory Atomic_Props
  imports AtomicHashTable
begin

text \<open>
  The join table as one thread uses it. The table is seen as the multiset of its rows; the
  invariant and the facts about entries are those of the open-addressing tables, reached through \<open>sh\<close>.
\<close>

section \<open>What the table relies on about its comparator\<close>

locale comparator =
  fixes cmp :: key_cmp
  assumes cmp_refl: "kc_eq cmp k k"
    and cmp_sym: "kc_eq cmp a b \<Longrightarrow> kc_eq cmp b a"
    and cmp_trans: "kc_eq cmp a b \<Longrightarrow> kc_eq cmp b c \<Longrightarrow> kc_eq cmp a c"
    and cmp_hash: "kc_eq cmp a b \<Longrightarrow> kc_hash cmp a = kc_hash cmp b"
    and cmp_prefix: "kc_eq cmp (take (kc_len cmp) a) a"

interpretation simple_cmp: comparator "SimpleKeyComparator xxh key_size" for xxh key_size
  by unfold_locales (auto simp: SimpleKeyComparator_def)

definition string_cmp :: "(bytes \<Rightarrow> u64) \<Rightarrow> (bytes \<Rightarrow> bytes) \<Rightarrow> key_cmp" where
  "string_cmp xxh strs = \<lparr> kc_len = 8, kc_hash = (\<lambda>k. xxh (strs (take 8 k))),
     kc_eq = (\<lambda>k1 k2. strs (take 8 k1) = strs (take 8 k2)) \<rparr>"

lemma ComplexKeyComparator_Returns:
  "ComplexKeyComparator xxh strs c s = Returns cmp \<longleftrightarrow> c = 1 \<and> s = 0 \<and> cmp = string_cmp xxh strs"
  by (auto simp: ComplexKeyComparator_def string_cmp_def)

interpretation string_cmp: comparator "string_cmp xxh strs" for xxh strs
  by unfold_locales (auto simp: string_cmp_def)

section \<open>The table as a table of entries\<close>

definition sh :: "atomic_ht \<Rightarrow> shared_ht" where
  "sh st = \<lparr> ht_tags = at_tags st, ht_data = at_data st, mod_mask = at_mod_mask st, inserted = 0,
     max_fill = (at_mod_mask st + 1) div 2, total_slot_size = at_slot_size st, data_block = 0 \<rparr>"

lemma sh_simps [simp]:
  "ht_tags (sh st) = at_tags st" "ht_data (sh st) = at_data st" "mod_mask (sh st) = at_mod_mask st"
  "total_slot_size (sh st) = at_slot_size st" "max_fill (sh st) = (at_mod_mask st + 1) div 2"
  by (simp_all add: sh_def)

definition at_entries :: "atomic_ht \<Rightarrow> (u8 \<times> bytes) multiset" where "at_entries st = entries (sh st)"

definition at_inv :: "key_cmp \<Rightarrow> atomic_ht \<Rightarrow> bool" where
  "at_inv cmp st \<longleftrightarrow> ht_core cmp (sh st) \<and> num_slots st = at_mod_mask st + 1 \<and>
     (\<forall>e\<in>#at_entries st. filled (fst e))"

text \<open>A row answers a lookup when its tag is the tag of the hash and the keys are equal.\<close>

definition live :: "key_cmp \<Rightarrow> bytes \<Rightarrow> u8 \<times> bytes \<Rightarrow> bool" where
  "live cmp key e \<longleftrightarrow> fst e = new_tag (kc_hash cmp key) \<and> kc_eq cmp key (snd e)"

definition at_slot :: "atomic_ht \<Rightarrow> nat \<Rightarrow> bytes" where
  "at_slot st off = mem_read off (at_slot_size st) (at_data st)"

lemma at_slot_eq: "at_slot st (i * at_slot_size st) = slot_at (sh st) i"
  by (simp add: at_slot_def slot_at_def)

lemma at_start_at: "ht_shape cmp (sh st) \<Longrightarrow> at_start st hash = cursor_at (sh st) (home (sh st) hash)"
  using start_cursor_at [of cmp "sh st" hash] by (simp add: at_start_def start_cursor_def)

lemma itAdvance_eq: "itAdvance st = advance (sh st)"
  by (rule ext) (simp add: itAdvance_def advance_def)

lemma at_elem_at: "at_elem st (cursor_at (sh st) i) = slot_at (sh st) i"
  by (simp add: at_elem_def slot_at_def)

text \<open>Every loop of the table from the home slot, with the stop test on slots.\<close>

lemma at_loop:
  assumes shape: "ht_shape cmp (sh st)" and ex: "i \<le> at_mod_mask st" "P i"
    and loop: "\<And>c. g c = (if S c then r c else g (itAdvance st c))"
    and S: "\<And>i. S (cursor_at (sh st) i) \<longleftrightarrow> P i"
  obtains d where "g (at_start st hash) = r (cursor_at (sh st) ((home (sh st) hash + d) mod (at_mod_mask st + 1)))"
    "d \<le> at_mod_mask st" "P ((home (sh st) hash + d) mod (at_mod_mask st + 1))"
    "\<And>e. e < d \<Longrightarrow> \<not> P ((home (sh st) hash + e) mod (at_mod_mask st + 1))"
proof -
  let ?h = "home (sh st) hash"
  have h: "?h \<le> at_mod_mask st" using home_le [of "sh st" hash] by simp
  obtain d where d: "d \<le> at_mod_mask st" "P ((?h + d) mod (at_mod_mask st + 1))"
    "\<And>e. e < d \<Longrightarrow> \<not> P ((?h + e) mod (at_mod_mask st + 1))"
    using first_slot [where P = P, OF h ex] by blast
  have fp: "(itAdvance st ^^ k) (cursor_at (sh st) ?h) = cursor_at (sh st) ((?h + k) mod (at_mod_mask st + 1))" for k
    using advance_funpow [of ?h "sh st" k] h by (simp add: itAdvance_eq)
  have "g (cursor_at (sh st) ?h) = r ((itAdvance st ^^ d) (cursor_at (sh st) ?h))"
    by (rule loop_least [where stop = S, OF loop]) (use d(2,3) in \<open>simp_all add: fp S\<close>)
  with that [of d] d show thesis by (simp add: at_start_at [OF shape] fp)
qed

section \<open>Lookups\<close>

lemma at_shape: "at_inv cmp st \<Longrightarrow> ht_shape cmp (sh st)"
  by (simp add: at_inv_def ht_core_def)

lemma at_len: "at_inv cmp st \<Longrightarrow> length (at_tags st) = at_mod_mask st + 1"
  by (simp add: at_inv_def ht_core_def ht_shape_def)

lemma at_used: "at_inv cmp st \<Longrightarrow> i \<le> at_mod_mask st \<Longrightarrow> i \<in> used (sh st) \<longleftrightarrow> filled (at_tags st ! i)"
proof -
  assume inv: "at_inv cmp st" and i: "i \<le> at_mod_mask st"
  show ?thesis
  proof
    assume "i \<in> used (sh st)"
    then have "entry_at (sh st) i \<in># at_entries st" by (simp add: at_entries_def set_entries)
    with inv show "filled (at_tags st ! i)" by (auto simp: at_inv_def entry_at_def)
  next
    assume "filled (at_tags st ! i)"
    then show "i \<in> used (sh st)" using at_len [OF inv] i by (auto simp: used_def)
  qed
qed

text \<open>A slot is free when fewer rows than slots are in the table.\<close>

lemma at_free:
  assumes inv: "at_inv cmp st" and room: "size (at_entries st) < num_slots st"
  obtains i where "i \<le> at_mod_mask st" "\<not> filled (at_tags st ! i)"
proof -
  have "card (used (sh st)) < card {..at_mod_mask st}"
    using room inv by (simp add: at_entries_def size_entries at_inv_def)
  then have "\<not> {..at_mod_mask st} \<subseteq> used (sh st)" using card_mono [OF finite_used] by (metis not_less)
  then obtain i where "i \<le> at_mod_mask st" "i \<notin> used (sh st)" by auto
  with at_used [OF inv] that show thesis by blast
qed

context comparator begin

lemma chain_hit:
  assumes inv: "at_inv cmp st" and j: "j \<le> at_mod_mask st" "filled (at_tags st ! j)" "kc_eq cmp key (slot_at (sh st) j)"
  obtains d where "j = (home (sh st) (kc_hash cmp key) + d) mod (at_mod_mask st + 1)"
    "\<And>e. e < d \<Longrightarrow> filled (at_tags st ! ((home (sh st) (kc_hash cmp key) + e) mod (at_mod_mask st + 1)))"
proof -
  have "kc_hash cmp (slot_key cmp (slot_at (sh st) j)) = kc_hash cmp (slot_at (sh st) j)"
    unfolding slot_key_def by (rule cmp_hash [OF cmp_prefix])
  also have "\<dots> = kc_hash cmp key" using cmp_hash [OF j(3)] by simp
  finally have h: "kc_hash cmp (slot_key cmp (slot_at (sh st) j)) = kc_hash cmp key" .
  have "j \<in> used (sh st)" using at_used [OF inv j(1)] j(2) by simp
  then have "reaches (sh st) (home (sh st) (kc_hash cmp key)) j"
    using inv h by (auto simp: at_inv_def ht_core_def chained_def)
  then obtain d where d: "j = (home (sh st) (kc_hash cmp key) + d) mod (at_mod_mask st + 1)"
    "\<forall>e<d. at_tags st ! ((home (sh st) (kc_hash cmp key) + e) mod (at_mod_mask st + 1)) \<noteq> 0"
    by (auto simp: reaches_def)
  have "filled (at_tags st ! ((home (sh st) (kc_hash cmp key) + e) mod (at_mod_mask st + 1)))" if "e < d" for e
  proof -
    let ?k = "(home (sh st) (kc_hash cmp key) + e) mod (at_mod_mask st + 1)"
    have k: "?k \<le> at_mod_mask st" by (simp add: less_Suc_eq_le [symmetric])
    then have "?k \<in> used (sh st)" using d(2) that at_len [OF inv] by (simp add: used_def)
    then show ?thesis using at_used [OF inv k] by simp
  qed
  with d(1) that show thesis by blast
qed

text \<open>
  A loop that stops at free slots and at slots that pass \<open>Q\<close>, where \<open>Q\<close> implies key equality, either
  finds a slot that passes, or no filled slot passes.
\<close>

lemma at_search:
  assumes inv: "at_inv cmp st" and room: "size (at_entries st) < num_slots st"
    and Q: "\<And>i. Q i \<Longrightarrow> kc_eq cmp key (slot_at (sh st) i)"
    and loop: "\<And>c. g c = (if S c then r c else g (itAdvance st c))"
    and S: "\<And>i. S (cursor_at (sh st) i) \<longleftrightarrow> \<not> filled (at_tags st ! i) \<or> Q i"
  obtains i where "g (at_start st (kc_hash cmp key)) = r (cursor_at (sh st) i)" "i \<le> at_mod_mask st"
    "filled (at_tags st ! i) \<and> Q i \<or> \<not> filled (at_tags st ! i) \<and> (\<forall>j\<le>at_mod_mask st. filled (at_tags st ! j) \<longrightarrow> \<not> Q j)"
proof -
  let ?n = "at_mod_mask st + 1" and ?h = "home (sh st) (kc_hash cmp key)"
  let ?P = "\<lambda>i. \<not> filled (at_tags st ! i) \<or> Q i"
  obtain f where f: "f \<le> at_mod_mask st" "\<not> filled (at_tags st ! f)" using at_free [OF inv room] .
  then have Pf: "?P f" by simp
  obtain d where d: "g (at_start st (kc_hash cmp key)) = r (cursor_at (sh st) ((?h + d) mod ?n))"
    "d \<le> at_mod_mask st" "?P ((?h + d) mod ?n)" "\<And>e. e < d \<Longrightarrow> \<not> ?P ((?h + e) mod ?n)"
    using at_loop [where P = ?P and g = g and r = r and S = S, OF at_shape [OF inv] f(1) Pf loop S, of "kc_hash cmp key"] by blast
  let ?i = "(?h + d) mod ?n"
  have ile: "?i \<le> at_mod_mask st" by (simp add: less_Suc_eq_le [symmetric])
  have "\<not> Q j" if nf: "\<not> filled (at_tags st ! ?i)" and j: "j \<le> at_mod_mask st" "filled (at_tags st ! j)" for j
  proof
    assume q: "Q j"
    obtain d' where d': "j = (?h + d') mod ?n" "\<And>e. e < d' \<Longrightarrow> filled (at_tags st ! ((?h + e) mod ?n))"
      using chain_hit [OF inv j Q [OF q]] by blast
    consider "d < d'" | "d' < d" | "d = d'" by linarith
    then show False by cases (use nf j q d' d(4) in auto)
  qed
  with that [OF d(1) ile] d(3) show thesis by blast
qed

lemma live_at:
  "i \<le> at_mod_mask st \<Longrightarrow> live cmp key (entry_at (sh st) i) \<longleftrightarrow>
     at_tags st ! i = new_tag (kc_hash cmp key) \<and> kc_eq cmp key (slot_at (sh st) i)"
  by (simp add: live_def entry_at_def)

lemma rows_empty:
  assumes inv: "at_inv cmp st" and none: "\<forall>j\<le>at_mod_mask st. filled (at_tags st ! j) \<longrightarrow> \<not> live cmp key (entry_at (sh st) j)"
  shows "\<forall>e\<in>#at_entries st. \<not> live cmp key e"
  using none used_le [OF at_shape [OF inv]] at_used [OF inv] by (auto simp: at_entries_def set_entries)

lemma entry_mem: "at_inv cmp st \<Longrightarrow> i \<le> at_mod_mask st \<Longrightarrow> filled (at_tags st ! i) \<Longrightarrow> entry_at (sh st) i \<in># at_entries st"
  using at_used by (simp add: at_entries_def set_entries)

end

section \<open>The operations\<close>

lemma filled_target: "filled (tag_fill_mask OR hash_tag h)" "filled t \<longleftrightarrow> \<not> t AND tag_fill_mask = 0"
  using filled_new_tag [of h] by (simp_all add: new_tag_def filled_def)

lemma at_set_slot: "sh (at_memcpy (at_store st i t) (i * at_slot_size st) bs) = set_slot i t bs (sh st)"
  by (simp add: sh_def at_memcpy_def at_store_def set_slot_def)

lemma at_set_tag: "sh (at_store st i t) = set_tag i t (sh st)"
  by (simp add: sh_def at_store_def set_tag_def)

lemma cas_load: "cas st t (at_load st t) v = (True, at_store st t v)"
  by (simp add: cas_def)

context comparator begin

lemma at_lookup_spec:
  assumes inv: "at_inv cmp st" and room: "size (at_entries st) < num_slots st"
  shows "\<exists>r. at_lookup cmp st key (kc_hash cmp key) = Returns r \<and>
    (case r of None \<Rightarrow> \<forall>e\<in>#at_entries st. \<not> live cmp key e
     | Some off \<Rightarrow> (new_tag (kc_hash cmp key), at_slot st off) \<in># at_entries st \<and> kc_eq cmp key (at_slot st off))"
proof -
  let ?t = "new_tag (kc_hash cmp key)"
  let ?S = "\<lambda>c. \<not> filled (at_load st (cur_tag c)) \<or> at_load st (cur_tag c) = ?t \<and> kc_eq cmp key (at_elem st c)"
  let ?r = "\<lambda>c. Some (if filled (at_load st (cur_tag c)) then Some (cur_elem c) else None)"
  let ?Q = "\<lambda>i. at_tags st ! i = ?t \<and> kc_eq cmp key (slot_at (sh st) i)"
  have loop: "at_lookup_loop cmp st key ?t c = (if ?S c then ?r c else at_lookup_loop cmp st key ?t (itAdvance st c))" for c
    by (subst at_lookup_loop.simps) (auto simp: filled_target Let_def)
  obtain i where i: "at_lookup_loop cmp st key ?t (at_start st (kc_hash cmp key)) = ?r (cursor_at (sh st) i)"
    "i \<le> at_mod_mask st"
    "filled (at_tags st ! i) \<and> ?Q i \<or> \<not> filled (at_tags st ! i) \<and> (\<forall>j\<le>at_mod_mask st. filled (at_tags st ! j) \<longrightarrow> \<not> ?Q j)"
    by (rule at_search [where S = ?S and Q = ?Q and g = "at_lookup_loop cmp st key ?t" and r = ?r, OF inv room _ loop])
      (auto simp: at_load_def at_elem_at)
  have eq: "at_lookup cmp st key (kc_hash cmp key) =
      Returns (if filled (at_tags st ! i) then Some (i * at_slot_size st) else None)"
    using i(1) by (simp add: at_lookup_def new_tag_def at_load_def)
  show ?thesis
  proof (cases "filled (at_tags st ! i)")
    case True
    with i(3) entry_mem [OF inv i(2)] show ?thesis
      by (intro exI [of _ "Some (i * at_slot_size st)"]) (simp add: eq at_slot_eq entry_at_def)
  next
    case False
    with i(3) have "\<forall>j\<le>at_mod_mask st. filled (at_tags st ! j) \<longrightarrow> \<not> live cmp key (entry_at (sh st) j)"
      by (auto simp: live_at)
    with rows_empty [OF inv] False eq show ?thesis by (intro exI [of _ None]) simp
  qed
qed

lemma at_disable_spec:
  assumes inv: "at_inv cmp st" and room: "size (at_entries st) < num_slots st"
  shows "\<exists>r st'. at_lookupDisable cmp st key (kc_hash cmp key) = Returns (r, st') \<and> at_inv cmp st' \<and>
    at_data st' = at_data st \<and> at_slot_size st' = at_slot_size st \<and>
    (case r of None \<Rightarrow> st' = st \<and> (\<forall>e\<in>#at_entries st. \<not> live cmp key e)
     | Some off \<Rightarrow> live cmp key (new_tag (kc_hash cmp key), at_slot st off) \<and>
         (new_tag (kc_hash cmp key), at_slot st off) \<in># at_entries st \<and>
         at_entries st' = add_mset (new_tag (kc_hash cmp key) XOR fingerprint_inversion_mask, at_slot st off)
           (at_entries st - {#(new_tag (kc_hash cmp key), at_slot st off)#}))"
proof -
  let ?t = "new_tag (kc_hash cmp key)"
  let ?S = "\<lambda>c. \<not> filled (at_load st (cur_tag c)) \<or> at_load st (cur_tag c) = ?t \<and> kc_eq cmp key (at_elem st c)"
  let ?r = "\<lambda>c. Some (if filled (at_load st (cur_tag c))
     then (Some (cur_elem c), at_store st (cur_tag c) (?t XOR fingerprint_inversion_mask)) else (None, st))"
  let ?Q = "\<lambda>i. at_tags st ! i = ?t \<and> kc_eq cmp key (slot_at (sh st) i)"
  have loop: "at_disable_loop cmp st key ?t c = (if ?S c then ?r c else at_disable_loop cmp st key ?t (itAdvance st c))" for c
    using cas_load [of st "cur_tag c"] by (subst at_disable_loop.simps) (auto simp: filled_target Let_def split: prod.split)
  obtain i where i: "at_disable_loop cmp st key ?t (at_start st (kc_hash cmp key)) = ?r (cursor_at (sh st) i)"
    "i \<le> at_mod_mask st"
    "filled (at_tags st ! i) \<and> ?Q i \<or> \<not> filled (at_tags st ! i) \<and> (\<forall>j\<le>at_mod_mask st. filled (at_tags st ! j) \<longrightarrow> \<not> ?Q j)"
    by (rule at_search [where S = ?S and Q = ?Q and g = "at_disable_loop cmp st key ?t" and r = ?r, OF inv room _ loop])
      (auto simp: at_load_def at_elem_at)
  show ?thesis
  proof (cases "filled (at_tags st ! i)")
    case True
    let ?st = "at_store st i (?t XOR fingerprint_inversion_mask)"
    from True i(3) have q: "?Q i" by blast
    have t0: "?t XOR fingerprint_inversion_mask \<noteq> 0" by (rule filled_nonzero) simp
    have ti: "ht_tags (sh st) ! i \<noteq> 0" using True filled_nonzero by simp
    have im: "i \<le> mod_mask (sh st)" using i(2) by simp
    note se = set_tag_entries [OF at_shape [OF inv] im ti t0]
    have core: "ht_core cmp (sh st)" using inv by (simp add: at_inv_def)
    have es: "at_entries ?st = add_mset (?t XOR fingerprint_inversion_mask, at_slot st (i * at_slot_size st))
       (at_entries st - {#(?t, at_slot st (i * at_slot_size st))#})"
      using se(1) q by (simp add: at_entries_def at_set_tag at_slot_eq entry_at_def)
    have "at_inv cmp ?st"
      unfolding at_inv_def es using inv set_tag_core [OF core im ti t0]
      by (auto simp: at_set_tag at_inv_def dest: in_diffD) (simp_all add: at_store_def)
    moreover have "(?t, at_slot st (i * at_slot_size st)) \<in># at_entries st"
      using entry_mem [OF inv i(2) True] q by (simp add: at_slot_eq entry_at_def)
    moreover have "live cmp key (?t, at_slot st (i * at_slot_size st))" using q by (simp add: live_def at_slot_eq)
    moreover have "at_lookupDisable cmp st key (kc_hash cmp key) = Returns (Some (i * at_slot_size st), ?st)"
      using i(1) True by (simp add: at_lookupDisable_def new_tag_def at_load_def)
    moreover have "at_data ?st = at_data st" "at_slot_size ?st = at_slot_size st" by (simp_all add: at_store_def)
    ultimately show ?thesis using es by (intro exI [of _ "Some (i * at_slot_size st)"] exI [of _ ?st]) simp
  next
    case False
    with i(3) have "\<forall>j\<le>at_mod_mask st. filled (at_tags st ! j) \<longrightarrow> \<not> live cmp key (entry_at (sh st) j)"
      by (auto simp: live_at)
    with rows_empty [OF inv] False i(1) inv show ?thesis
      by (intro exI [of _ None] exI [of _ st]) (simp add: at_lookupDisable_def new_tag_def at_load_def)
  qed
qed

text \<open>Both insert variants put one row with the given tag into a free slot of the chain.\<close>

lemma at_insert_loop_spec:
  assumes inv: "at_inv cmp st" and room: "size (at_entries st) < num_slots st"
    and tag: "filled tag" and len: "(if only_key then kc_len cmp else at_slot_size st) \<le> length key"
  defines "bs \<equiv> copied cmp st only_key key"
  obtains off st' where "at_insert_loop cmp only_key st key tag (at_start st (kc_hash cmp key)) = Some (off, st')"
    "at_inv cmp st'" "at_entries st' = add_mset (tag, bs @ replicate (at_slot_size st - length bs) 0) (at_entries st)"
    "at_slot st' off = bs @ replicate (at_slot_size st - length bs) 0" "num_slots st' = num_slots st"
proof -
  let ?S = "\<lambda>c. \<not> filled (at_load st (cur_tag c))"
  let ?r = "\<lambda>c. Some (cur_elem c, at_memcpy (at_store st (cur_tag c) tag) (cur_elem c) bs)"
  let ?P = "\<lambda>i. \<not> filled (at_tags st ! i)"
  have cp: "copied cmp (at_store st t v) only_key key = bs" for t v
    by (simp add: bs_def copied_def at_store_def)
  have loop: "at_insert_loop cmp only_key st key tag c = (if ?S c then ?r c else at_insert_loop cmp only_key st key tag (itAdvance st c))" for c
    by (subst at_insert_loop.simps) (simp add: filled_target Let_def cas_load cp)
  obtain f where f: "f \<le> at_mod_mask st" "?P f" using at_free [OF inv room] .
  obtain d where d: "at_insert_loop cmp only_key st key tag (at_start st (kc_hash cmp key)) =
      ?r (cursor_at (sh st) ((home (sh st) (kc_hash cmp key) + d) mod (at_mod_mask st + 1)))"
    "d \<le> at_mod_mask st" "?P ((home (sh st) (kc_hash cmp key) + d) mod (at_mod_mask st + 1))"
    "\<And>e. e < d \<Longrightarrow> \<not> ?P ((home (sh st) (kc_hash cmp key) + e) mod (at_mod_mask st + 1))"
    by (rule at_loop [where P = ?P and S = ?S and g = "at_insert_loop cmp only_key st key tag" and r = ?r,
          OF at_shape [OF inv] f loop, of "kc_hash cmp key"]) (auto simp: at_load_def)
  let ?i = "(home (sh st) (kc_hash cmp key) + d) mod (at_mod_mask st + 1)"
  let ?st = "at_memcpy (at_store st ?i tag) (?i * at_slot_size st) bs"
  have ile: "?i \<le> mod_mask (sh st)" by (simp add: less_Suc_eq_le [symmetric])
  have core: "ht_core cmp (sh st)" using inv by (simp add: at_inv_def)
  have shape: "ht_shape cmp (sh st)" using at_shape [OF inv] .
  have klen: "kc_len cmp \<le> at_slot_size st" using shape by (simp add: ht_shape_def)
  have lb: "kc_len cmp \<le> length bs" "length bs \<le> total_slot_size (sh st)"
    using len klen by (auto simp: bs_def copied_def min_def)
  have zero: "ht_tags (sh st) ! ?i = 0"
    using d(3) at_used [OF inv, of ?i] ile at_len [OF inv] by (auto simp: used_def)
  have hk: "kc_hash cmp (slot_key cmp bs) = kc_hash cmp key"
  proof -
    have "slot_key cmp bs = take (kc_len cmp) key" using klen by (simp add: slot_key_def bs_def copied_def min_def)
    then show ?thesis using cmp_hash [OF cmp_prefix] by simp
  qed
  have reach: "reaches (sh st) (home (sh st) (kc_hash cmp (slot_key cmp bs))) ?i"
    unfolding reaches_def hk using d(2,4) filled_nonzero by (intro exI [of _ d]) auto
  note sf = set_free_slot [OF core ile zero filled_nonzero [OF tag] lb reach]
  have sheq: "sh ?st = set_slot ?i tag bs (sh st)" by (rule at_set_slot)
  have es: "at_entries ?st = add_mset (tag, bs @ replicate (at_slot_size st - length bs) 0) (at_entries st)"
    unfolding at_entries_def sheq using sf(2) by simp
  have "at_inv cmp ?st"
    unfolding at_inv_def es sheq using sf(1) inv tag by (auto simp: at_inv_def at_memcpy_def at_store_def)
  moreover have "at_slot ?st (?i * at_slot_size st) = bs @ replicate (at_slot_size st - length bs) 0"
  proof -
    have "slot_at (sh st) ?i = replicate (at_slot_size st) 0"
      using core zero ile at_len [OF inv] by (simp add: ht_core_def zeroed_def)
    then have "slot_at (sh ?st) ?i = bs @ replicate (at_slot_size st - length bs) 0"
      unfolding sheq using slot_set_slot [OF shape ile ile lb(2)] lb by (simp add: mem_write_def)
    moreover have "at_slot_size ?st = at_slot_size st" by (simp add: at_memcpy_def at_store_def)
    ultimately show ?thesis using at_slot_eq [of ?st ?i] by simp
  qed
  moreover have "num_slots ?st = num_slots st" by (simp add: at_memcpy_def at_store_def)
  ultimately show thesis using that [of "?i * at_slot_size st" ?st] d(1) es by simp
qed

end

section \<open>Outer joins\<close>

text \<open>A row answers an outer lookup whatever its marking bit is.\<close>

definition outer_fingerprint :: "u64 \<Rightarrow> u8" where
  "outer_fingerprint hash = outer_tag_hash_mask AND hash_tag hash"

definition outer_live :: "key_cmp \<Rightarrow> bytes \<Rightarrow> u8 \<times> bytes \<Rightarrow> bool" where
  "outer_live cmp key e \<longleftrightarrow> filled (fst e) \<and> outer_tag_hash_mask AND fst e = outer_fingerprint (kc_hash cmp key) \<and>
     kc_eq cmp key (snd e)"

definition marked :: "u8 \<Rightarrow> u8" where "marked fp = tag_fill_mask OR outer_tag_fill_mask OR fp"

lemma filled_marked [simp]: "filled (marked fp)"
  by (simp add: filled_bit marked_def tag_masks bit_or_iff)

lemma marked_not_unmatched [simp]: "\<not> unmatched_tag (marked fp)"
proof -
  have "bit (marked fp AND outer_tag_fill_mask) 6"
    by (simp add: marked_def outer_tag_fill_mask_def bit_or_iff bit_and_iff)
  then have "marked fp AND outer_tag_fill_mask \<noteq> 0" by (metis bit_0_eq bot_apply bot_bool_def)
  then show ?thesis by (simp add: unmatched_tag_def)
qed

context comparator begin

lemma lookupOuter_spec:
  assumes inv: "at_inv cmp st" and room: "size (at_entries st) < num_slots st"
  shows "\<exists>r st'. lookupOuter cmp st key (kc_hash cmp key) = Returns (r, st') \<and> at_inv cmp st' \<and>
    at_data st' = at_data st \<and> at_slot_size st' = at_slot_size st \<and>
    (case r of None \<Rightarrow> st' = st \<and> (\<forall>e\<in>#at_entries st. \<not> outer_live cmp key e)
     | Some off \<Rightarrow> \<exists>t. (t, at_slot st off) \<in># at_entries st \<and> outer_live cmp key (t, at_slot st off) \<and>
         at_entries st' = add_mset (marked (outer_fingerprint (kc_hash cmp key)), at_slot st off)
           (at_entries st - {#(t, at_slot st off)#}))"
proof -
  let ?fp = "outer_fingerprint (kc_hash cmp key)"
  let ?S = "\<lambda>c. \<not> filled (at_load st (cur_tag c)) \<or> outer_tag_hash_mask AND at_load st (cur_tag c) = ?fp \<and> kc_eq cmp key (at_elem st c)"
  let ?r = "\<lambda>c. Some (if filled (at_load st (cur_tag c)) then (Some (cur_elem c), at_store st (cur_tag c) (marked ?fp)) else (None, st))"
  let ?Q = "\<lambda>i. outer_tag_hash_mask AND at_tags st ! i = ?fp \<and> kc_eq cmp key (slot_at (sh st) i)"
  have same: "at_load st t = v \<Longrightarrow> at_store st t v = st" for t v
    by (auto simp: at_load_def at_store_def list_update_same_conv)
  have loop: "lookupOuter_loop cmp st key ?fp c = (if ?S c then ?r c else lookupOuter_loop cmp st key ?fp (itAdvance st c))" for c
    using same [of "cur_tag c" "marked ?fp"]
    by (subst lookupOuter_loop.simps) (auto simp: filled_target Let_def marked_def)
  obtain i where i: "lookupOuter_loop cmp st key ?fp (at_start st (kc_hash cmp key)) = ?r (cursor_at (sh st) i)"
    "i \<le> at_mod_mask st"
    "filled (at_tags st ! i) \<and> ?Q i \<or> \<not> filled (at_tags st ! i) \<and> (\<forall>j\<le>at_mod_mask st. filled (at_tags st ! j) \<longrightarrow> \<not> ?Q j)"
    by (rule at_search [where S = ?S and Q = ?Q and g = "lookupOuter_loop cmp st key ?fp" and r = ?r, OF inv room _ loop])
      (auto simp: at_load_def at_elem_at)
  show ?thesis
  proof (cases "filled (at_tags st ! i)")
    case True
    let ?st = "at_store st i (marked ?fp)" and ?t = "at_tags st ! i"
    from True i(3) have q: "?Q i" by blast
    have t0: "marked ?fp \<noteq> 0" by (rule filled_nonzero) simp
    have ti: "ht_tags (sh st) ! i \<noteq> 0" using True filled_nonzero by simp
    have im: "i \<le> mod_mask (sh st)" using i(2) by simp
    note se = set_tag_entries [OF at_shape [OF inv] im ti t0]
    have core: "ht_core cmp (sh st)" using inv by (simp add: at_inv_def)
    have es: "at_entries ?st = add_mset (marked ?fp, at_slot st (i * at_slot_size st))
       (at_entries st - {#(?t, at_slot st (i * at_slot_size st))#})"
      using se(1) by (simp add: at_entries_def at_set_tag at_slot_eq entry_at_def)
    have "at_inv cmp ?st"
      unfolding at_inv_def es using inv set_tag_core [OF core im ti t0]
      by (auto simp: at_set_tag at_inv_def dest: in_diffD) (simp_all add: at_store_def)
    moreover have "(?t, at_slot st (i * at_slot_size st)) \<in># at_entries st"
      using entry_mem [OF inv i(2) True] by (simp add: at_slot_eq entry_at_def)
    moreover have "outer_live cmp key (?t, at_slot st (i * at_slot_size st))" using q True by (simp add: outer_live_def at_slot_eq)
    moreover have "lookupOuter cmp st key (kc_hash cmp key) = Returns (Some (i * at_slot_size st), ?st)"
      using i(1) True by (simp add: lookupOuter_def outer_fingerprint_def at_load_def)
    moreover have "at_data ?st = at_data st" "at_slot_size ?st = at_slot_size st" by (simp_all add: at_store_def)
    ultimately show ?thesis using es by (intro exI [of _ "Some (i * at_slot_size st)"] exI [of _ ?st]) auto
  next
    case False
    have "\<not> outer_live cmp key (entry_at (sh st) j)" if "j \<le> at_mod_mask st" "filled (at_tags st ! j)" for j
      using i(3) False that by (simp add: outer_live_def entry_at_def)
    then have "\<forall>e\<in>#at_entries st. \<not> outer_live cmp key e"
      using used_le [OF at_shape [OF inv]] at_used [OF inv] by (auto simp: at_entries_def set_entries)
    with False i(1) inv show ?thesis
      by (intro exI [of _ None] exI [of _ st]) (simp add: lookupOuter_def outer_fingerprint_def at_load_def)
  qed
qed

end

text \<open>The scan of the hash table source: \<open>iteratorStart\<close>, then \<open>iteratorAdvance\<close> until null.\<close>

partial_function (option) outer_scan_from :: "atomic_ht \<Rightarrow> iter \<Rightarrow> nat list option" where
  "outer_scan_from st it = (case it_data it of
       None \<Rightarrow> Some []
     | Some d \<Rightarrow> Option.bind (at_iteratorAdvance st it) (\<lambda>it'.
                   Option.bind (outer_scan_from st it') (\<lambda>ds. Some (d # ds))))"

definition outer_scan :: "atomic_ht \<Rightarrow> nat list option" where
  "outer_scan st = Option.bind (at_iteratorStart st) (outer_scan_from st)"

lemma itAdvanceNoWrap_eq: "itAdvanceNoWrap st = advanceNoWrap (sh st)"
  by (rule ext) (simp add: itAdvanceNoWrap_def advanceNoWrap_def)

lemma outer_skip_to: "outer_skip st = skip_to unmatched_tag (sh st)"
  by (rule ext) (simp add: outer_skip_def skip_to_def itAdvanceNoWrap_eq at_load_def)

lemma at_iteratorAdvance_to: "at_iteratorAdvance st = next_to unmatched_tag (sh st)"
  by (rule ext) (simp add: at_iteratorAdvance_def next_to_def outer_skip_to itAdvanceNoWrap_eq)

lemma outer_scan_slots:
  "outer_scan st = Some (map (\<lambda>j. j * at_slot_size st) (filter (\<lambda>j. unmatched_tag (at_tags st ! j)) [0..<Suc (at_mod_mask st)]))"
proof -
  have "outer_scan_from st it = (case it_data it of None \<Rightarrow> Some []
      | Some d \<Rightarrow> Option.bind (next_to unmatched_tag (sh st) it) (\<lambda>it'. Option.bind (outer_scan_from st it') (\<lambda>ds. Some (d # ds))))" for it
    by (subst outer_scan_from.simps) (simp only: at_iteratorAdvance_to)
  then have "outer_scan_from st (it_next unmatched_tag (sh st) 0) =
      Some (map (\<lambda>j. j * total_slot_size (sh st)) (stops_from unmatched_tag (sh st) 0))"
    by (rule scan_next) simp
  moreover have "at_iteratorStart st = Some (it_next unmatched_tag (sh st) 0)"
    using skip_at [of 0 "sh st" unmatched_tag] by (simp add: at_iteratorStart_def outer_skip_to it_at_def)
  ultimately show ?thesis by (simp add: outer_scan_def del: upt_Suc)
qed

lemma unmatched_bits: "unmatched_tag t \<longleftrightarrow> bit t 7 \<and> \<not> bit t 6"
proof -
  have "t AND push_bit n 1 = 0 \<longleftrightarrow> \<not> bit t n" for n by (simp add: and_exp_eq_0_iff_not_bit push_bit_eq_mult)
  from this [of 7] this [of 6] show ?thesis by (simp add: unmatched_tag_def tag_masks outer_tag_fill_mask_def)
qed

lemma outer_scan_entries:
  assumes "at_inv cmp st"
  shows "\<exists>js. outer_scan st = Some (map (\<lambda>j. j * at_slot_size st) js) \<and> sorted_wrt (<) js \<and>
    mset (map (\<lambda>j. at_slot st (j * at_slot_size st)) js) =
      image_mset snd (filter_mset (\<lambda>e. unmatched_tag (fst e)) (at_entries st))"
proof -
  let ?js = "filter (\<lambda>j. unmatched_tag (at_tags st ! j)) [0..<Suc (at_mod_mask st)]"
  have nz: "\<not> unmatched_tag 0" by (simp add: unmatched_tag_def)
  have dist: "distinct ?js" by simp
  have "set ?js = {j \<in> used (sh st). unmatched_tag (at_tags st ! j)}"
    using at_len [OF assms] nz by (auto simp: used_def simp del: upt_Suc)
  then have "mset ?js = mset_set {j \<in> used (sh st). unmatched_tag (at_tags st ! j)}"
    using mset_set_set [OF dist] by simp
  then have "mset ?js = filter_mset (\<lambda>j. unmatched_tag (at_tags st ! j)) (mset_set (used (sh st)))"
    by simp
  then have "mset (map (\<lambda>j. slot_at (sh st) j) ?js) =
      image_mset snd (filter_mset (\<lambda>e. unmatched_tag (fst e)) (at_entries st))"
    by (simp add: at_entries_def entries_def image_mset_filter_mset_swap [symmetric] multiset.map_comp comp_def entry_at_def filter_mset_image_mset
        del: upt_Suc)
  moreover have "sorted_wrt (<) ?js" by (intro sorted_wrt_filter) (simp del: upt_Suc)
  ultimately show ?thesis using outer_scan_slots [of st] by (intro exI [of _ ?js]) (simp add: at_slot_eq del: upt_Suc)
qed

section \<open>The join table\<close>

text \<open>The two comparators that the templates are instantiated with.\<close>

definition join_cmp :: "(bytes \<Rightarrow> u64) \<Rightarrow> (bytes \<Rightarrow> bytes) \<Rightarrow> u16 \<Rightarrow> key_cmp \<Rightarrow> bool" where
  "join_cmp xxh strs ks cmp \<longleftrightarrow> cmp = SimpleKeyComparator xxh ks \<or> ComplexKeyComparator xxh strs 1 0 = Returns cmp"

lemma join_cmp_comparator: "join_cmp xxh strs ks cmp \<Longrightarrow> comparator cmp"
  using simple_cmp.comparator_axioms string_cmp.comparator_axioms by (auto simp: join_cmp_def ComplexKeyComparator_Returns)

definition demo_join :: atomic_ht where
  "demo_join = \<lparr> at_tags = replicate 4 0, at_data = replicate 8 0, num_slots = 4, at_mod_mask = 3, at_slot_size = 2 \<rparr>"

lemma at_constructor_inv:
  assumes "AtomicHashTable sz n = Returns st" "kc_len cmp \<le> unat sz"
  shows "at_inv cmp st \<and> at_entries st = {#} \<and> at_capacity st = n"
proof -
  have n: "2 \<le> n" "n AND (n - 1) = 0" using assms(1) by (auto simp: AtomicHashTable_def not_less split: if_splits)
  then have pn: "pot n" using and_pred_zero_iff_pot [of n] by auto
  have st: "st = \<lparr> at_tags = replicate n 0, at_data = replicate (n * unat sz) 0, num_slots = n, at_mod_mask = n - 1, at_slot_size = unat sz \<rparr>"
    using assms(1) by (simp add: AtomicHashTable_def split: if_splits)
  have e: "sh st = fresh_ht 0 (unat sz) n" using n by (simp add: st sh_def fresh_ht_def)
  have sz: "unat sz < 65536" using unsigned_less [of sz, where 'a = nat] by simp
  then show ?thesis
    using core_fresh [OF n(1) pn assms(2) sz, of 0] n(1) by (simp add: at_inv_def at_entries_def e at_capacity_def) (simp add: st)
qed

lemma demo_join_inv: "at_inv (SimpleKeyComparator xxh_demo 1) demo_join" "at_entries demo_join = {#}"
proof -
  have "AtomicHashTable 2 4 = Returns demo_join"
    using and_pred_zero_iff_pot [of 4] by (simp add: AtomicHashTable_def demo_join_def pot_def exI [of _ 2])
  from at_constructor_inv [OF this, of "SimpleKeyComparator xxh_demo 1"]
  show "at_inv (SimpleKeyComparator xxh_demo 1) demo_join" "at_entries demo_join = {#}"
    by (simp_all add: SimpleKeyComparator_def)
qed

text \<open>Two rows, of which the second has been marked by an outer lookup of its key.\<close>

definition demo_marked :: atomic_ht where
  "demo_marked = \<lparr> at_tags = [0, 0, 0x8F, 0xDB], at_data = [0, 0, 0, 0, 5, 1, 9, 2], num_slots = 4, at_mod_mask = 3, at_slot_size = 2 \<rparr>"

lemma demo_marked_simps [simp]:
  "at_tags demo_marked = [0, 0, 0x8F, 0xDB]" "at_data demo_marked = [0, 0, 0, 0, 5, 1, 9, 2]" "num_slots demo_marked = 4"
  "at_mod_mask demo_marked = 3" "at_slot_size demo_marked = 2"
  by (simp_all add: demo_marked_def)

lemma demo_marked_used: "used (sh demo_marked) = {2, 3}"
proof -
  have "used (sh demo_marked) = {i \<in> {0, 1, 2, 3}. at_tags demo_marked ! i \<noteq> 0}" by (simp add: used_def four_slots)
  also have "\<dots> = {2, 3}" by auto
  finally show ?thesis .
qed

lemma demo_marked_entries: "at_entries demo_marked = {# (0x8F, [5, 1]), (0xDB, [9, 2]) #}"
  by (simp add: at_entries_def entries_def demo_marked_used entry_at_def slot_at_def mem_read_def)

lemma demo_marked_inv: "at_inv (SimpleKeyComparator xxh_demo 1) demo_marked"
proof -
  have p: "pot 4" by (auto simp: pot_def intro: exI [of _ 2])
  have two: "replicate 2 0 = [0, 0 :: u8]" by (simp add: numeral_2_eq_2)
  have free: "\<forall>i\<in>{0, 1, 2, 3}. at_tags demo_marked ! i = 0 \<longrightarrow> slot_at (sh demo_marked) i = [0, 0]" by (simp add: slot_at_def mem_read_def)
  have h: "home (sh demo_marked) (kc_hash (SimpleKeyComparator xxh_demo 1) (slot_key (SimpleKeyComparator xxh_demo 1) (slot_at (sh demo_marked) i))) = 2"
    if "i \<in> {2, 3}" for i
    using that by (auto simp: home_def SimpleKeyComparator_def slot_key_def xxh_demo_def slot_at_def mem_read_def)
  have "reaches (sh demo_marked) 2 2" by (simp add: reaches_def exI [of _ 0])
  moreover have "reaches (sh demo_marked) 2 3" unfolding reaches_def by (intro exI [of _ 1]) simp
  ultimately have "chained (SimpleKeyComparator xxh_demo 1) (sh demo_marked)" using h by (auto simp: chained_def demo_marked_used)
  moreover have "ht_shape (SimpleKeyComparator xxh_demo 1) (sh demo_marked)" using p by (simp add: ht_shape_def SimpleKeyComparator_def)
  moreover have "zeroed (sh demo_marked)" using free two by (simp add: zeroed_def four_slots)
  ultimately show ?thesis by (simp add: at_inv_def ht_core_def demo_marked_entries filled_def tag_masks)
qed

lemma demo_cmp_simps:
  "kc_len (SimpleKeyComparator xxh_demo 1) = 1" "kc_eq (SimpleKeyComparator xxh_demo 1) k1 k2 \<longleftrightarrow> take 1 k1 = take 1 k2"
  by (simp_all add: SimpleKeyComparator_def)

lemma demo_tags: "new_tag (kc_hash (SimpleKeyComparator xxh_demo 1) [5]) = 0x8F"
  "outer_fingerprint (kc_hash (SimpleKeyComparator xxh_demo 1) [5]) = 0xF" "marked 0xF = 0xCF" "outer_fingerprint (kc_hash (SimpleKeyComparator xxh_demo 1) [9]) = 0x1B"
  by (simp_all add: SimpleKeyComparator_def xxh_demo_def new_tag_def hash_tag_def tag_masks outer_fingerprint_def outer_tag_hash_mask_def
    outer_tag_fill_mask_def marked_def)

lemma demo_marked_room: "size (at_entries demo_marked) < num_slots demo_marked"
  by (simp add: demo_marked_entries)

lemma demo_join_cmp: "join_cmp xxh_demo undefined 1 (SimpleKeyComparator xxh_demo 1)" by (simp add: join_cmp_def)

text \<open>
  C11. While the join table has a free slot, \<open>insert\<close> ends and adds exactly one row: the
  key, or the whole tuple when the payload is copied along, padded with the zero bytes of a fresh slot. The
  pointer leads to that row, and all other rows keep their bytes.
\<close>
theorem at_insert_adds_row:
  assumes "join_cmp xxh strs ks cmp" "at_inv cmp st" "size (at_entries st) < num_slots st"
    and "(if only_key then kc_len cmp else at_slot_size st) \<le> length key"
  shows "\<exists>off st'. at_insert_key cmp only_key st key = Returns (off, st') \<and> at_inv cmp st' \<and>
    at_slot st' off = copied cmp st only_key key @ replicate (at_slot_size st - length (copied cmp st only_key key)) 0 \<and>
    at_entries st' = add_mset (new_tag (kc_hash cmp key), at_slot st' off) (at_entries st) \<and>
    live cmp key (new_tag (kc_hash cmp key), key)"
proof -
  note cmp = join_cmp_comparator [OF assms(1)]
  have "live cmp key (new_tag (kc_hash cmp key), key)" using comparator.cmp_refl [OF cmp] by (simp add: live_def)
  then show ?thesis
    by (rule_tac comparator.at_insert_loop_spec [OF cmp assms(2,3) filled_new_tag [of "kc_hash cmp key"] assms(4)])
      (auto simp: at_insert_key_def at_insert_def new_tag_def)
qed

theorem at_insert_adds_row_witness:
  "\<exists>off st'. at_insert_key (SimpleKeyComparator xxh_demo 1) False demo_join [5, 9] = Returns (off, st') \<and> at_slot st' off = [5, 9]"
proof -
  have j: "join_cmp xxh_demo undefined 1 (SimpleKeyComparator xxh_demo 1)" by (simp add: join_cmp_def)
  show ?thesis
    using at_insert_adds_row [OF j demo_join_inv(1), of False "[5, 9]"] demo_join_inv(2)
    by (auto simp: demo_join_def copied_def)
qed

text \<open>
  C12. While the join table has a free slot, \<open>lookup\<close> ends; it returns null exactly when no
  row with the key's tag and an equal key is in the table, and otherwise a pointer to such a row.
\<close>
theorem at_lookup_finds_row:
  assumes "join_cmp xxh strs ks cmp" "at_inv cmp st" "size (at_entries st) < num_slots st"
  shows "\<exists>r. at_lookup_key cmp st key = Returns r \<and>
    (case r of None \<Rightarrow> \<forall>e\<in>#at_entries st. \<not> live cmp key e
     | Some off \<Rightarrow> (new_tag (kc_hash cmp key), at_slot st off) \<in># at_entries st \<and> kc_eq cmp key (at_slot st off))"
  using comparator.at_lookup_spec [OF join_cmp_comparator [OF assms(1)] assms(2,3)] by (simp add: at_lookup_key_def)

theorem at_lookup_finds_row_witness:
  "\<exists>off. at_lookup_key (SimpleKeyComparator xxh_demo 1) demo_marked [5] = Returns (Some off) \<and> at_slot demo_marked off = [5, 1]"
proof -
  obtain r where r: "at_lookup_key (SimpleKeyComparator xxh_demo 1) demo_marked [5] = Returns r"
    "case r of None \<Rightarrow> \<forall>e\<in>#at_entries demo_marked. \<not> live (SimpleKeyComparator xxh_demo 1) [5] e
     | Some off \<Rightarrow> (0x8F, at_slot demo_marked off) \<in># at_entries demo_marked"
    using at_lookup_finds_row [OF demo_join_cmp demo_marked_inv demo_marked_room, of "[5]"]
    by (auto simp: demo_tags split: option.splits)
  have "live (SimpleKeyComparator xxh_demo 1) [5] (0x8F, [5, 1])" by (simp add: live_def demo_tags demo_cmp_simps)
  then show ?thesis using r by (cases r) (simp_all add: demo_marked_entries)
qed

text \<open>
  C13. \<open>lookupDisable\<close> of the join table either finds no row of the key and changes nothing, or
  returns one live row and takes exactly that row out of the live ones: its fill bit and bytes stay, so the
  probing chains stay intact, and its fingerprint is inverted.
\<close>
theorem at_lookupDisable_takes_row:
  assumes "join_cmp xxh strs ks cmp" "at_inv cmp st" "size (at_entries st) < num_slots st"
  shows "\<exists>r st'. at_lookupDisable_key cmp st key = Returns (r, st') \<and> at_inv cmp st' \<and>
    (case r of None \<Rightarrow> st' = st \<and> filter_mset (live cmp key) (at_entries st) = {#}
     | Some off \<Rightarrow> at_slot st' off = at_slot st off \<and>
         filter_mset (live cmp key) (at_entries st) =
           add_mset (new_tag (kc_hash cmp key), at_slot st off) (filter_mset (live cmp key) (at_entries st')) \<and>
         image_mset snd (at_entries st') = image_mset snd (at_entries st))"
proof -
  note cmp = join_cmp_comparator [OF assms(1)]
  let ?t = "new_tag (kc_hash cmp key)"
  obtain r st' where sp: "at_lookupDisable cmp st key (kc_hash cmp key) = Returns (r, st')" "at_inv cmp st'"
    "at_data st' = at_data st" "at_slot_size st' = at_slot_size st"
    "case r of None \<Rightarrow> st' = st \<and> (\<forall>e\<in>#at_entries st. \<not> live cmp key e)
     | Some off \<Rightarrow> live cmp key (?t, at_slot st off) \<and> (?t, at_slot st off) \<in># at_entries st \<and>
         at_entries st' = add_mset (?t XOR fingerprint_inversion_mask, at_slot st off) (at_entries st - {#(?t, at_slot st off)#})"
    using comparator.at_disable_spec [OF cmp assms(2,3), of key] by blast
  show ?thesis
  proof (cases r)
    case None
    with sp show ?thesis
      by (intro exI [of _ r] exI [of _ st']) (simp add: at_lookupDisable_key_def)
  next
    case (Some off)
    let ?x = "(?t, at_slot st off)" and ?y = "(?t XOR fingerprint_inversion_mask, at_slot st off)"
    from sp(5) Some have x: "live cmp key ?x" "?x \<in># at_entries st"
      and es: "at_entries st' = add_mset ?y (at_entries st - {#?x#})" by auto
    have "\<not> live cmp key ?y" using invert_fingerprint [of ?t] by (auto simp: live_def)
    then have "filter_mset (live cmp key) (at_entries st') = filter_mset (live cmp key) (at_entries st) - {#?x#}"
      unfolding es using x(1) by simp
    moreover have "?x \<in># filter_mset (live cmp key) (at_entries st)" using x by simp
    ultimately have f: "filter_mset (live cmp key) (at_entries st) = add_mset ?x (filter_mset (live cmp key) (at_entries st'))"
      by (metis insert_DiffM)
    have "at_entries st = add_mset ?x (at_entries st - {#?x#})" using x(2) by simp
    then have "image_mset snd (at_entries st) = add_mset (snd ?x) (image_mset snd (at_entries st - {#?x#}))"
      by (metis image_mset_add_mset)
    then have "image_mset snd (at_entries st') = image_mset snd (at_entries st)" unfolding es by simp
    with f sp(1-4) Some show ?thesis
      by (intro exI [of _ r] exI [of _ st']) (simp add: at_lookupDisable_key_def at_slot_def)
  qed
qed

theorem at_lookupDisable_takes_row_witness:
  "\<exists>off st'. at_lookupDisable_key (SimpleKeyComparator xxh_demo 1) demo_marked [5] = Returns (Some off, st') \<and> at_slot demo_marked off = [5, 1] \<and>
     filter_mset (live (SimpleKeyComparator xxh_demo 1) [5]) (at_entries st') = {#}"
  using at_lookupDisable_takes_row [OF demo_join_cmp demo_marked_inv demo_marked_room, of "[5]"]
  by (auto simp: demo_marked_entries demo_tags demo_cmp_simps live_def split: option.splits)

text \<open>
  C14. \<open>lookupOuter\<close> either finds no row of the key and changes nothing, or returns a
  row whose six bit fingerprint and key match and sets the marking bit of that row only.
\<close>
theorem lookupOuter_marks_row:
  assumes "join_cmp xxh strs ks cmp" "at_inv cmp st" "size (at_entries st) < num_slots st"
  shows "\<exists>r st'. lookupOuter cmp st key (kc_hash cmp key) = Returns (r, st') \<and> at_inv cmp st' \<and>
    (case r of None \<Rightarrow> st' = st \<and> (\<forall>e\<in>#at_entries st. \<not> outer_live cmp key e)
     | Some off \<Rightarrow> \<exists>t. (t, at_slot st off) \<in># at_entries st \<and> outer_live cmp key (t, at_slot st off) \<and>
         at_entries st' = add_mset (marked (outer_fingerprint (kc_hash cmp key)), at_slot st off)
           (at_entries st - {#(t, at_slot st off)#}) \<and>
         filter_mset (\<lambda>e. unmatched_tag (fst e)) (at_entries st') =
           filter_mset (\<lambda>e. unmatched_tag (fst e)) (at_entries st - {#(t, at_slot st off)#}))"
proof -
  obtain r st' where sp: "lookupOuter cmp st key (kc_hash cmp key) = Returns (r, st')" "at_inv cmp st'"
    "case r of None \<Rightarrow> st' = st \<and> (\<forall>e\<in>#at_entries st. \<not> outer_live cmp key e)
     | Some off \<Rightarrow> \<exists>t. (t, at_slot st off) \<in># at_entries st \<and> outer_live cmp key (t, at_slot st off) \<and>
         at_entries st' = add_mset (marked (outer_fingerprint (kc_hash cmp key)), at_slot st off)
           (at_entries st - {#(t, at_slot st off)#})"
    using comparator.lookupOuter_spec [OF join_cmp_comparator [OF assms(1)] assms(2,3), of key] by blast
  have "case r of None \<Rightarrow> st' = st \<and> (\<forall>e\<in>#at_entries st. \<not> outer_live cmp key e)
     | Some off \<Rightarrow> \<exists>t. (t, at_slot st off) \<in># at_entries st \<and> outer_live cmp key (t, at_slot st off) \<and>
         at_entries st' = add_mset (marked (outer_fingerprint (kc_hash cmp key)), at_slot st off)
           (at_entries st - {#(t, at_slot st off)#}) \<and>
         filter_mset (\<lambda>e. unmatched_tag (fst e)) (at_entries st') =
           filter_mset (\<lambda>e. unmatched_tag (fst e)) (at_entries st - {#(t, at_slot st off)#})"
    using sp(3) by (cases r) auto
  with sp(1,2) show ?thesis by blast
qed

theorem lookupOuter_marks_row_witness:
  "\<exists>off st'. lookupOuter (SimpleKeyComparator xxh_demo 1) demo_marked [5] (kc_hash (SimpleKeyComparator xxh_demo 1) [5]) = Returns (Some off, st') \<and>
     at_slot demo_marked off = [5, 1] \<and> at_entries st' = {# (0xCF, [5, 1]), (0xDB, [9, 2]) #}"
proof -
  let ?c = "SimpleKeyComparator xxh_demo 1"
  have fp: "outer_tag_hash_mask AND (0x8F :: u8) = 0xF" "outer_tag_hash_mask AND (0xDB :: u8) = 0x1B"
    by (simp_all add: outer_tag_hash_mask_def outer_tag_fill_mask_def)
  have live: "outer_live ?c [5] (0x8F, [5, 1])" "\<not> outer_live ?c [5] (0xDB, [9, 2])"
    by (simp_all add: outer_live_def demo_tags demo_cmp_simps fp filled_def tag_masks)
  obtain r st' where r: "lookupOuter ?c demo_marked [5] (kc_hash ?c [5]) = Returns (r, st')"
    "case r of None \<Rightarrow> st' = demo_marked \<and> (\<forall>e\<in>#at_entries demo_marked. \<not> outer_live ?c [5] e)
     | Some off \<Rightarrow> \<exists>t. (t, at_slot demo_marked off) \<in># at_entries demo_marked \<and> outer_live ?c [5] (t, at_slot demo_marked off) \<and>
         at_entries st' = add_mset (marked (outer_fingerprint (kc_hash ?c [5])), at_slot demo_marked off)
           (at_entries demo_marked - {#(t, at_slot demo_marked off)#}) \<and>
         filter_mset (\<lambda>e. unmatched_tag (fst e)) (at_entries st') =
           filter_mset (\<lambda>e. unmatched_tag (fst e)) (at_entries demo_marked - {#(t, at_slot demo_marked off)#})"
    using lookupOuter_marks_row [OF demo_join_cmp demo_marked_inv demo_marked_room, of "[5]"] by blast
  show ?thesis
  proof (cases r)
    case None then show ?thesis using r(2) live by (simp add: demo_marked_entries)
  next
    case (Some off)
    then obtain t where t: "(t, at_slot demo_marked off) \<in># at_entries demo_marked" "outer_live ?c [5] (t, at_slot demo_marked off)"
      "at_entries st' = add_mset (0xCF, at_slot demo_marked off) (at_entries demo_marked - {#(t, at_slot demo_marked off)#})"
      using r(2) by (auto simp only: option.case demo_tags)
    from t(1,2) live have "(t, at_slot demo_marked off) = (0x8F, [5, 1])" by (auto simp only: demo_marked_entries set_mset_add_mset_insert set_mset_empty)
    then show ?thesis using t(3) r(1) Some by (simp add: demo_marked_entries)
  qed
qed

text \<open>
  C15. The scan of the hash table source over the join table ends and yields, once each and
  in slot order, exactly the rows in whose tag bit 6, the marking bit, is clear (bit 7, the fill bit, is set in every row's tag): the
  build rows without a join partner.
\<close>
theorem outer_scan_unmatched:
  assumes "at_inv cmp st"
  shows "\<exists>js. outer_scan st = Some (map (\<lambda>j. j * at_slot_size st) js) \<and> sorted_wrt (<) js \<and>
    mset (map (\<lambda>j. at_slot st (j * at_slot_size st)) js) =
      image_mset snd (filter_mset (\<lambda>e. bit (fst e) 7 \<and> \<not> bit (fst e) 6) (at_entries st))"
  using outer_scan_entries [OF assms] by (simp add: unmatched_bits)

theorem outer_scan_unmatched_witness: "\<exists>off. outer_scan demo_marked = Some [off] \<and> at_slot demo_marked off = [5, 1]"
proof -
  have bits: "bit (0x8F :: u8) 7" "\<not> bit (0x8F :: u8) 6" "bit (0xDB :: u8) 6" by simp_all
  have "image_mset snd (filter_mset (\<lambda>e. bit (fst e) 7 \<and> \<not> bit (fst e) 6) (at_entries demo_marked)) = {# [5, 1] #}"
    using bits by (simp add: demo_marked_entries)
  with outer_scan_unmatched [OF demo_marked_inv] obtain js where js: "outer_scan demo_marked = Some (map (\<lambda>j. j * 2) js)"
    "mset (map (\<lambda>j. at_slot demo_marked (j * 2)) js) = {# [5, 1] #}"
    unfolding demo_marked_simps by metis
  have "map (\<lambda>j. at_slot demo_marked (j * 2)) js = [[5, 1]]" using js(2) by (simp only: mset_single_iff)
  then show ?thesis by (auto simp: js(1) map_eq_Cons_conv)
qed

text \<open>
  The private \<open>itStart\<close> never finds a row when slot 0 is free: its loop test looks at slot 0 only, so
  it runs to the end of the table.
\<close>

lemma itStart_misses:
  assumes "\<not> filled (at_tags st ! 0)"
  shows "\<exists>it. itStart st = Some it \<and> it_data it = None"
proof -
  let ?S = "\<lambda>it. \<not> (at_load st 0 AND tag_fill_mask = 0 \<and> it_data it \<noteq> None)"
  have z: "at_load st 0 AND tag_fill_mask = 0" using assms by (simp add: at_load_def filled_def)
  have e: "advanceNoWrap (sh st) (it_at (sh st) (at_mod_mask st)) = it_end (sh st)"
    using advanceNoWrap_at(2) [of "sh st"] by simp
  have run: "\<exists>it. probe_loop (itAdvanceNoWrap st) ?S (it_at (sh st) i) = Some it \<and> it_data it = None"
    if "i \<le> at_mod_mask st" for i
    using that
  proof (induction "at_mod_mask st - i" arbitrary: i)
    case 0
    then have i: "i = at_mod_mask st" by simp
    show ?case
      by (subst probe_loop.simps, subst probe_loop.simps) (simp add: z itAdvanceNoWrap_eq i e, simp add: it_end_def)
  next
    case (Suc k)
    then have lt: "i < mod_mask (sh st)" by simp
    with Suc have "\<exists>it. probe_loop (itAdvanceNoWrap st) ?S (it_at (sh st) (Suc i)) = Some it \<and> it_data it = None" by simp
    then show ?case
      by (subst probe_loop.simps) (simp add: z itAdvanceNoWrap_eq advanceNoWrap_at(1) [OF lt])
  qed
  from run [of 0] show ?thesis by (simp add: itStart_def it_at_def)
qed

end
