(* ===== verification/Atomic_Parallel.thy ===== *)
theory Atomic_Parallel
  imports Atomic_Props
begin

text \<open>
  The join table under concurrency: \<open>insert\<close> and \<open>lookupDisable\<close> of \<open>NewHashTables.cpp\<close> split into
  their atomic actions (load of a tag, key comparison, compare-and-swap, copy of the row), any
  number of threads, and every interleaving of their actions.
\<close>

section \<open>Threads\<close>

datatype job = InsertJob bool bytes u64 | DisableJob bytes u64

text \<open>Where a thread is in its operation; \<open>Done\<close> carries the returned pointer.\<close>

datatype pc = Loading cursor | Comparing cursor | Swapping cursor u8 | Copying cursor | Done "cursor option"

fun job_step :: "key_cmp \<Rightarrow> job \<Rightarrow> atomic_ht \<Rightarrow> pc \<Rightarrow> (atomic_ht \<times> pc) option" where
  "job_step cmp (InsertJob only_key key hash) st (Loading it) =
     (let curr_tag = at_load st (cur_tag it)
      in Some (st, if curr_tag AND tag_fill_mask = 0 then Swapping it curr_tag else Loading (itAdvance st it)))"
| "job_step cmp (InsertJob only_key key hash) st (Swapping it curr_tag) =
     (case cas st (cur_tag it) curr_tag (tag_fill_mask OR hash_tag hash) of (won, st') \<Rightarrow>
        Some (st', if won then Copying it else Loading (itAdvance st' it)))"
| "job_step cmp (InsertJob only_key key hash) st (Copying it) =
     Some (at_memcpy st (cur_elem it) (copied cmp st only_key key), Done (Some it))"
| "job_step cmp (DisableJob key hash) st (Loading it) =
     (let curr_tag = at_load st (cur_tag it)
      in Some (st, if curr_tag AND tag_fill_mask = 0 then Done None
                   else if curr_tag = tag_fill_mask OR hash_tag hash then Comparing it
                   else Loading (itAdvance st it)))"
| "job_step cmp (DisableJob key hash) st (Comparing it) =
     Some (st, if kc_eq cmp key (at_elem st it) then Swapping it (tag_fill_mask OR hash_tag hash)
               else Loading (itAdvance st it))"
| "job_step cmp (DisableJob key hash) st (Swapping it expected) =
     (case cas st (cur_tag it) expected ((tag_fill_mask OR hash_tag hash) XOR fingerprint_inversion_mask) of (won, st') \<Rightarrow>
        Some (st', if won then Done (Some it) else Loading (itAdvance st' it)))"
| "job_step cmp j st p = None"

fun job_hash :: "job \<Rightarrow> u64" where
  "job_hash (InsertJob b key hash) = hash"
| "job_hash (DisableJob key hash) = hash"

type_synonym par_state = "atomic_ht \<times> pc list"

definition par_start :: "atomic_ht \<Rightarrow> job list \<Rightarrow> par_state" where
  "par_start st js = (st, map (\<lambda>j. Loading (at_start st (job_hash j))) js)"

text \<open>One atomic action of some thread.\<close>

inductive par_step :: "key_cmp \<Rightarrow> job list \<Rightarrow> par_state \<Rightarrow> par_state \<Rightarrow> bool" for cmp js where
  act: "i < length js \<Longrightarrow> job_step cmp (js ! i) st (pcs ! i) = Some (st', p) \<Longrightarrow>
    par_step cmp js (st, pcs) (st', pcs[i := p])"

inductive par_run :: "key_cmp \<Rightarrow> job list \<Rightarrow> par_state \<Rightarrow> nat \<Rightarrow> par_state \<Rightarrow> bool" for cmp js where
  stop: "par_run cmp js s 0 s"
| go: "par_run cmp js s n t \<Longrightarrow> par_step cmp js t u \<Longrightarrow> par_run cmp js s (Suc n) u"

inductive_cases par_stepE: "par_step cmp js (st, pcs) u"

text \<open>A single thread without interference does what the sequential operation does.\<close>

fun run_alone :: "key_cmp \<Rightarrow> job \<Rightarrow> nat \<Rightarrow> atomic_ht \<times> pc \<Rightarrow> atomic_ht \<times> pc" where
  "run_alone cmp j 0 s = s"
| "run_alone cmp j (Suc n) (st, p) = (case job_step cmp j st p of None \<Rightarrow> (st, p) | Some s \<Rightarrow> run_alone cmp j n s)"

section \<open>The parallel build\<close>

text \<open>The slot that an inserting thread owns, and the row that it puts there.\<close>

fun slot_of :: "pc \<Rightarrow> nat option" where
  "slot_of (Copying it) = Some (cur_idx it)"
| "slot_of (Done (Some it)) = Some (cur_idx it)"
| "slot_of p = None"

fun job_row :: "key_cmp \<Rightarrow> atomic_ht \<Rightarrow> job \<Rightarrow> u8 \<times> bytes" where
  "job_row cmp st (InsertJob only_key key hash) =
     (new_tag hash, copied cmp st only_key key @ replicate (at_slot_size st - length (copied cmp st only_key key)) 0)"
| "job_row cmp st (DisableJob key hash) = (0, [])"

fun good_insert :: "key_cmp \<Rightarrow> atomic_ht \<Rightarrow> job \<Rightarrow> bool" where
  "good_insert cmp st (InsertJob only_key key hash) \<longleftrightarrow> hash = kc_hash cmp key \<and>
     (if only_key then kc_len cmp else at_slot_size st) \<le> length key"
| "good_insert cmp st (DisableJob key hash) \<longleftrightarrow> False"

definition same_shape :: "atomic_ht \<Rightarrow> atomic_ht \<Rightarrow> bool" where
  "same_shape st0 st \<longleftrightarrow> at_mod_mask st = at_mod_mask st0 \<and> at_slot_size st = at_slot_size st0 \<and> num_slots st = num_slots st0 \<and>
     length (at_tags st) = length (at_tags st0) \<and> length (at_data st) = length (at_data st0)"

text \<open>
  The cursor is \<open>d\<close> slots past the home slot, and those \<open>d\<close> slots are filled.
\<close>

definition passed :: "atomic_ht \<Rightarrow> u64 \<Rightarrow> nat \<Rightarrow> bool" where
  "passed st hash d \<longleftrightarrow> (\<forall>e<d. filled (at_tags st ! ((home (sh st) hash + e) mod (at_mod_mask st + 1))))"

definition at_dist :: "atomic_ht \<Rightarrow> u64 \<Rightarrow> nat \<Rightarrow> cursor" where
  "at_dist st hash d = cursor_at (sh st) ((home (sh st) hash + d) mod (at_mod_mask st + 1))"

fun pc_cursor :: "pc \<Rightarrow> cursor option" where
  "pc_cursor (Loading it) = Some it"
| "pc_cursor (Comparing it) = Some it"
| "pc_cursor (Swapping it t) = Some it"
| "pc_cursor (Copying it) = Some it"
| "pc_cursor (Done r) = r"

definition pc_ok :: "atomic_ht \<Rightarrow> u64 \<Rightarrow> pc \<Rightarrow> bool" where
  "pc_ok st hash p \<longleftrightarrow> (\<exists>d\<le>at_mod_mask st. pc_cursor p = Some (at_dist st hash d) \<and> passed st hash d) \<and>
     (case p of Comparing it \<Rightarrow> False | Swapping it t \<Rightarrow> t = 0 | _ \<Rightarrow> True)"

definition build_inv :: "key_cmp \<Rightarrow> atomic_ht \<Rightarrow> job list \<Rightarrow> par_state \<Rightarrow> bool" where
  "build_inv cmp st0 js s \<longleftrightarrow> (case s of (st, pcs) \<Rightarrow>
     same_shape st0 st \<and> length pcs = length js \<and>
     (\<forall>i<length js. pc_ok st (job_hash (js ! i)) (pcs ! i)) \<and>
     (\<forall>i<length js. \<forall>j<length js. slot_of (pcs ! i) \<noteq> None \<longrightarrow> slot_of (pcs ! i) = slot_of (pcs ! j) \<longrightarrow> i = j) \<and>
     (\<forall>k\<le>at_mod_mask st0. (\<forall>i<length js. slot_of (pcs ! i) \<noteq> Some k) \<longrightarrow> at_tags st ! k = at_tags st0 ! k) \<and>
     (\<forall>i<length js. \<forall>k. slot_of (pcs ! i) = Some k \<longrightarrow> at_tags st0 ! k = 0 \<and> at_tags st ! k = fst (job_row cmp st0 (js ! i))) \<and>
     (\<forall>k\<le>at_mod_mask st0. (\<forall>i<length js. pcs ! i \<noteq> Done (Some (cursor_at (sh st0) k))) \<longrightarrow> slot_at (sh st) k = slot_at (sh st0) k) \<and>
     (\<forall>i<length js. \<forall>k. pcs ! i = Done (Some (cursor_at (sh st0) k)) \<longrightarrow> slot_at (sh st) k = snd (job_row cmp st0 (js ! i))))"

lemma build_invI:
  assumes "same_shape st0 st" "length pcs = length js"
    "\<And>i. i < length js \<Longrightarrow> pc_ok st (job_hash (js ! i)) (pcs ! i)"
    "\<And>i j. i < length js \<Longrightarrow> j < length js \<Longrightarrow> slot_of (pcs ! i) \<noteq> None \<Longrightarrow> slot_of (pcs ! i) = slot_of (pcs ! j) \<Longrightarrow> i = j"
    "\<And>k. k \<le> at_mod_mask st0 \<Longrightarrow> \<forall>i<length js. slot_of (pcs ! i) \<noteq> Some k \<Longrightarrow> at_tags st ! k = at_tags st0 ! k"
    "\<And>i k. i < length js \<Longrightarrow> slot_of (pcs ! i) = Some k \<Longrightarrow> at_tags st0 ! k = 0 \<and> at_tags st ! k = fst (job_row cmp st0 (js ! i))"
    "\<And>k. k \<le> at_mod_mask st0 \<Longrightarrow> \<forall>i<length js. pcs ! i \<noteq> Done (Some (cursor_at (sh st0) k)) \<Longrightarrow> slot_at (sh st) k = slot_at (sh st0) k"
    "\<And>i k. i < length js \<Longrightarrow> pcs ! i = Done (Some (cursor_at (sh st0) k)) \<Longrightarrow> slot_at (sh st) k = snd (job_row cmp st0 (js ! i))"
  shows "build_inv cmp st0 js (st, pcs)"
  unfolding build_inv_def prod.case using assms by (intro conjI allI impI) blast+

lemma build_invD:
  assumes "build_inv cmp st0 js (st, pcs)"
  shows "same_shape st0 st" "length pcs = length js"
    "i < length js \<Longrightarrow> pc_ok st (job_hash (js ! i)) (pcs ! i)"
    "i < length js \<Longrightarrow> j < length js \<Longrightarrow> slot_of (pcs ! i) \<noteq> None \<Longrightarrow> slot_of (pcs ! i) = slot_of (pcs ! j) \<Longrightarrow> i = j"
    "k \<le> at_mod_mask st0 \<Longrightarrow> \<forall>i<length js. slot_of (pcs ! i) \<noteq> Some k \<Longrightarrow> at_tags st ! k = at_tags st0 ! k"
    "i < length js \<Longrightarrow> slot_of (pcs ! i) = Some k \<Longrightarrow> at_tags st0 ! k = 0 \<and> at_tags st ! k = fst (job_row cmp st0 (js ! i))"
    "k \<le> at_mod_mask st0 \<Longrightarrow> \<forall>i<length js. pcs ! i \<noteq> Done (Some (cursor_at (sh st0) k)) \<Longrightarrow> slot_at (sh st) k = slot_at (sh st0) k"
    "i < length js \<Longrightarrow> pcs ! i = Done (Some (cursor_at (sh st0) k)) \<Longrightarrow> slot_at (sh st) k = snd (job_row cmp st0 (js ! i))"
  using assms by (simp_all add: build_inv_def)

lemma same_shape_sh: "same_shape st0 st \<Longrightarrow> cursor_at (sh st) k = cursor_at (sh st0) k"
  "same_shape st0 st \<Longrightarrow> home (sh st) h = home (sh st0) h" "same_shape st0 st \<Longrightarrow> at_dist st h d = at_dist st0 h d"
  by (simp_all add: same_shape_def cursor_at_def home_def at_dist_def)

lemma same_shape_ht: "same_shape st0 st \<Longrightarrow> ht_shape cmp (sh st0) \<Longrightarrow> ht_shape cmp (sh st)"
  by (simp add: same_shape_def ht_shape_def)

lemma good_insert_cases:
  assumes "good_insert cmp st0 j"
  obtains only_key key where "j = InsertJob only_key key (kc_hash cmp key)"
    "(if only_key then kc_len cmp else at_slot_size st0) \<le> length key"
  using assms by (cases j) auto

lemma row_tag: "good_insert cmp st0 j \<Longrightarrow> filled (fst (job_row cmp st0 j)) \<and> fst (job_row cmp st0 j) \<noteq> 0"
  by (auto elim!: good_insert_cases)

text \<open>The build starts from a table that keeps its invariant and has room for all rows.\<close>

definition build_pre :: "key_cmp \<Rightarrow> atomic_ht \<Rightarrow> job list \<Rightarrow> bool" where
  "build_pre cmp st0 js \<longleftrightarrow> at_inv cmp st0 \<and> (\<forall>j\<in>set js. good_insert cmp st0 j) \<and>
     size (at_entries st0) + length js \<le> num_slots st0"

lemma build_start:
  assumes pre: "build_pre cmp st0 js"
  shows "build_inv cmp st0 js (par_start st0 js)"
  unfolding par_start_def
proof (rule build_invI)
  fix i assume i: "i < length js"
  have "at_start st0 h = at_dist st0 h 0" for h
    using at_start_at [of cmp st0 h] at_shape [of cmp st0] pre home_le [of "sh st0" h]
    by (simp add: at_dist_def build_pre_def)
  then show "pc_ok st0 (job_hash (js ! i)) (map (\<lambda>j. Loading (at_start st0 (job_hash j))) js ! i)"
    using i by (auto simp: pc_ok_def passed_def intro!: exI [of _ 0])
qed (auto simp: same_shape_def)

lemma build_filled:
  assumes pre: "build_pre cmp st0 js" and inv: "build_inv cmp st0 js (st, pcs)" and k: "k \<le> at_mod_mask st0" "at_tags st ! k \<noteq> 0"
  shows "filled (at_tags st ! k)"
proof (cases "\<exists>i<length js. slot_of (pcs ! i) = Some k")
  case True
  with build_invD(6) [OF inv] pre row_tag show ?thesis by (metis build_pre_def nth_mem)
next
  case False
  then have e: "at_tags st ! k = at_tags st0 ! k" using build_invD(5) [OF inv k(1)] by blast
  have "at_inv cmp st0" using pre by (simp add: build_pre_def)
  then show ?thesis using at_used [of cmp st0 k] k e at_len [of cmp st0] by (auto simp: used_def)
qed

text \<open>As long as one thread has no slot, the table is not full.\<close>

lemma build_room:
  assumes pre: "build_pre cmp st0 js" and inv: "build_inv cmp st0 js (st, pcs)"
    and i: "i < length js" "slot_of (pcs ! i) = None"
  obtains k where "k \<le> at_mod_mask st0" "at_tags st ! k = 0"
proof -
  let ?C = "{j. j < length js \<and> slot_of (pcs ! j) \<noteq> None}"
  let ?K = "(\<lambda>j. the (slot_of (pcs ! j))) ` ?C"
  have inv0: "at_inv cmp st0" using pre by (simp add: build_pre_def)
  have sub: "{k. k \<le> at_mod_mask st0 \<and> at_tags st ! k \<noteq> 0} \<subseteq> used (sh st0) \<union> ?K"
  proof
    fix k assume "k \<in> {k. k \<le> at_mod_mask st0 \<and> at_tags st ! k \<noteq> 0}"
    then have k: "k \<le> at_mod_mask st0" "at_tags st ! k \<noteq> 0" by auto
    show "k \<in> used (sh st0) \<union> ?K"
    proof (cases "\<exists>j<length js. slot_of (pcs ! j) = Some k")
      case True
      then obtain j where "j < length js" "slot_of (pcs ! j) = Some k" by blast
      then have "j \<in> ?C" "k = the (slot_of (pcs ! j))" by simp_all
      then show ?thesis by blast
    next
      case False
      then have "at_tags st0 ! k \<noteq> 0" using build_invD(5) [OF inv k(1)] k(2) by simp
      then show ?thesis using k(1) at_len [OF inv0] by (simp add: used_def)
    qed
  qed
  have "card ?C < length js"
  proof -
    have "?C \<subseteq> {..<length js}" "i \<in> {..<length js}" "i \<notin> ?C" using i by simp_all (simp add: subset_eq)
    then have "?C \<subset> {..<length js}" by blast
    then show ?thesis using psubset_card_mono [of "{..<length js}" ?C] by simp
  qed
  then have "card ?K < length js" using card_image_le [of ?C "\<lambda>j. the (slot_of (pcs ! j))"] by simp
  then have "card (used (sh st0) \<union> ?K) < num_slots st0"
    using card_Un_le [of "used (sh st0)" ?K] pre by (simp add: build_pre_def at_entries_def size_entries)
  then have "card {k. k \<le> at_mod_mask st0 \<and> at_tags st ! k \<noteq> 0} < card {..at_mod_mask st0}"
    using card_mono [OF _ sub] inv0 by (simp add: at_inv_def)
  then have "{k. k \<le> at_mod_mask st0 \<and> at_tags st ! k \<noteq> 0} \<noteq> {..at_mod_mask st0}" by auto
  then have "\<exists>k. k \<le> at_mod_mask st0 \<and> at_tags st ! k = 0" by auto
  with that show thesis by blast
qed

text \<open>Moving past a filled slot stays within one round of the table.\<close>

lemma pass_on:
  assumes pre: "build_pre cmp st0 js" and inv: "build_inv cmp st0 js (st, pcs)"
    and i: "i < length js" "slot_of (pcs ! i) = None"
    and d: "d \<le> at_mod_mask st" "passed st h d" "filled (at_tags st ! ((home (sh st) h + d) mod (at_mod_mask st + 1)))"
  shows "Suc d \<le> at_mod_mask st" "passed st h (Suc d)" "itAdvance st (at_dist st h d) = at_dist st h (Suc d)"
proof -
  have sm: "at_mod_mask st = at_mod_mask st0" using build_invD(1) [OF inv] by (simp add: same_shape_def)
  show p: "passed st h (Suc d)" using d(2,3) by (auto simp: passed_def less_Suc_eq)
  show "Suc d \<le> at_mod_mask st"
  proof (rule ccontr)
    assume "\<not> Suc d \<le> at_mod_mask st"
    with d(1) have dm: "d = at_mod_mask st" by simp
    obtain k where k: "k \<le> at_mod_mask st" "at_tags st ! k = 0" using build_room [OF pre inv i] sm by auto
    have "home (sh st) h \<le> at_mod_mask st" using home_le [of "sh st" h] by simp
    from wrap_covers [OF this k(1)] obtain e where "e \<le> at_mod_mask st" "k = (home (sh st) h + e) mod (at_mod_mask st + 1)" by blast
    moreover have "filled (at_tags st ! ((home (sh st) h + e) mod (at_mod_mask st + 1)))"
      using p dm \<open>e \<le> at_mod_mask st\<close> by (simp add: passed_def less_Suc_eq_le)
    ultimately show False using k(2) by simp
  qed
  have le: "(home (sh st) h + d) mod (at_mod_mask st + 1) \<le> mod_mask (sh st)" by (simp add: less_Suc_eq_le [symmetric])
  show "itAdvance st (at_dist st h d) = at_dist st h (Suc d)"
    unfolding at_dist_def itAdvance_eq advance_at [OF le] by (simp add: mod_Suc_eq)
qed

text \<open>A thread moves on without touching the memory.\<close>

lemma keep_memory:
  assumes inv: "build_inv cmp st0 js (st, pcs)" and i: "i < length js" "slot_of (pcs ! i) = None" "slot_of p = None"
    and p: "pc_ok st (job_hash (js ! i)) p"
  shows "build_inv cmp st0 js (st, pcs[i := p])"
proof -
  have len: "i < length pcs" using i(1) build_invD(2) [OF inv] by simp
  have nd: "p \<noteq> Done (Some c)" "pcs ! i \<noteq> Done (Some c)" for c using i by auto
  have sl: "slot_of (pcs[i := p] ! j) = slot_of (pcs ! j)" for j
    using i len by (cases "j = i") auto
  have dn: "pcs[i := p] ! j = Done (Some c) \<longleftrightarrow> pcs ! j = Done (Some c)" for j c
    using nd len by (cases "j = i") auto
  show ?thesis
  proof (rule build_invI, goal_cases)
    case (3 j) then show ?case using build_invD(3) [OF inv, of j] p len by (cases "j = i") simp_all
  qed (use build_invD [OF inv] in \<open>simp_all only: sl dn length_list_update\<close>)
qed

text \<open>A thread claims a free slot.\<close>

lemma claim_slot:
  assumes pre: "build_pre cmp st0 js" and inv: "build_inv cmp st0 js (st, pcs)"
    and i: "i < length js" "pcs ! i = Swapping it 0" and free: "at_load st (cur_tag it) = 0"
  shows "build_inv cmp st0 js (at_store st (cur_tag it) (new_tag (job_hash (js ! i))), pcs[i := Copying it])"
proof -
  note shp = build_invD(1) [OF inv]
  have len: "i < length pcs" using i(1) build_invD(2) [OF inv] by simp
  obtain d where d: "d \<le> at_mod_mask st" "it = at_dist st (job_hash (js ! i)) d" "passed st (job_hash (js ! i)) d"
    using build_invD(3) [OF inv i(1)] i(2) by (auto simp: pc_ok_def)
  let ?k = "(home (sh st) (job_hash (js ! i)) + d) mod (at_mod_mask st + 1)"
  let ?t = "new_tag (job_hash (js ! i))" and ?pcs = "pcs[i := Copying it]"
  let ?st = "at_store st ?k ?t"
  have it: "it = cursor_at (sh st) ?k" using d(2) by (simp add: at_dist_def)
  have kt: "cur_tag it = ?k" "cur_idx it = ?k" unfolding it by simp_all
  have kle: "?k \<le> at_mod_mask st0" using shp by (simp add: same_shape_def less_Suc_eq_le [symmetric])
  have z: "at_tags st ! ?k = 0" using free kt by (simp add: at_load_def)
  have lent: "?k < length (at_tags st)"
    using kle shp pre at_len [of cmp st0] by (simp add: same_shape_def build_pre_def)
  have tag: "fst (job_row cmp st0 (js ! i)) = ?t" "filled ?t"
  proof -
    have "good_insert cmp st0 (js ! i)" using pre i(1) by (auto simp: build_pre_def)
    then show "fst (job_row cmp st0 (js ! i)) = ?t" "filled ?t" by (auto elim!: good_insert_cases)
  qed
  have unowned: "slot_of (pcs ! j) \<noteq> Some ?k" if "j < length js" for j
    using build_invD(6) [OF inv that, of ?k] z row_tag pre that by (metis build_pre_def nth_mem)
  have z0: "at_tags st0 ! ?k = 0" using build_invD(5) [OF inv kle] unowned z by simp
  have sl: "slot_of (?pcs ! j) = (if j = i then Some ?k else slot_of (pcs ! j))" for j
    using len kt by (cases "j = i") auto
  have dn: "?pcs ! j = Done (Some c) \<longleftrightarrow> pcs ! j = Done (Some c)" for j c
    using i(2) len by (cases "j = i") auto
  have tags: "at_tags ?st ! k = (if k = ?k then ?t else at_tags st ! k)" for k
    using lent by (simp add: at_store_def)
  have slots: "slot_at (sh ?st) k = slot_at (sh st) k" for k by (simp add: at_store_def slot_at_def)
  have shp': "same_shape st0 ?st" using shp by (simp add: same_shape_def at_store_def)
  have hm: "home (sh ?st) h = home (sh st) h" "at_mod_mask ?st = at_mod_mask st" "at_dist ?st h d = at_dist st h d" for h d
    by (simp_all add: home_def at_store_def at_dist_def cursor_at_def)
  have ps: "passed ?st h d" if "passed st h d" for h d
    using that tag(2) unfolding passed_def hm tags by simp
  have "build_inv cmp st0 js (?st, ?pcs)"
  proof (rule build_invI, goal_cases)
    case (3 j)
    then obtain e where "e \<le> at_mod_mask st" "pc_cursor (pcs ! j) = Some (at_dist st (job_hash (js ! j)) e)"
      "passed st (job_hash (js ! j)) e" "case pcs ! j of Comparing it \<Rightarrow> False | Swapping it t \<Rightarrow> t = 0 | _ \<Rightarrow> True"
      using build_invD(3) [OF inv, of j] by (auto simp: pc_ok_def)
    with d i(2) len show ?case using ps unfolding pc_ok_def hm by (cases "j = i") auto
  next
    case (4 j l) then show ?case using build_invD(4) [OF inv, of j l] unowned unfolding sl by (auto split: if_splits)
  next
    case (5 k)
    have "slot_of (pcs ! j) \<noteq> Some k" if "j < length js" for j
      using 5(2) [rule_format, OF that, unfolded sl] i(2) by (cases "j = i") simp_all
    moreover have "k \<noteq> ?k" using 5(2) [rule_format, OF i(1), unfolded sl] by simp
    ultimately have "k \<noteq> ?k" "\<forall>j<length js. slot_of (pcs ! j) \<noteq> Some k" by blast+
    with 5(1) show ?case using build_invD(5) [OF inv, of k] unfolding tags by simp
  next
    case (6 j k) then show ?case using build_invD(6) [OF inv, of j k] unowned z0 tag unfolding sl tags by (auto split: if_splits)
  qed (use build_invD [OF inv] shp' len in \<open>simp_all only: dn slots length_list_update\<close>)
  then show ?thesis using kt by simp
qed

text \<open>A thread copies its row into the slot that it owns.\<close>

lemma copy_row:
  assumes pre: "build_pre cmp st0 js" and inv: "build_inv cmp st0 js (st, pcs)"
    and i: "i < length js" "pcs ! i = Copying it" "js ! i = InsertJob only_key key hash"
  shows "build_inv cmp st0 js (at_memcpy st (cur_elem it) (copied cmp st only_key key), pcs[i := Done (Some it)])"
proof -
  note shp = build_invD(1) [OF inv]
  have len: "i < length pcs" using i(1) build_invD(2) [OF inv] by simp
  have inv0: "at_inv cmp st0" and good: "good_insert cmp st0 (js ! i)" using pre i(1) by (auto simp: build_pre_def)
  obtain d where d: "d \<le> at_mod_mask st" "it = at_dist st (job_hash (js ! i)) d"
    using build_invD(3) [OF inv i(1)] i(2) by (auto simp: pc_ok_def)
  define k where "k = (home (sh st) (job_hash (js ! i)) + d) mod (at_mod_mask st + 1)"
  let ?bs = "copied cmp st only_key key" and ?pcs = "pcs[i := Done (Some it)]"
  let ?st = "at_memcpy st (k * at_slot_size st) ?bs"
  have it: "it = cursor_at (sh st) k" using d(2) by (simp add: at_dist_def k_def)
  have kt: "cur_elem it = k * at_slot_size st" "cur_idx it = k" unfolding it by simp_all
  have kle: "k \<le> at_mod_mask st" by (simp add: less_Suc_eq_le [symmetric] k_def)
  have k0: "k \<le> at_mod_mask st0" using kle shp by (simp add: same_shape_def)
  have own: "slot_of (pcs ! i) = Some k" using i(2) kt by simp
  have z0: "at_tags st0 ! k = 0" using build_invD(6) [OF inv i(1) own] by simp
  have notdone: "pcs ! j \<noteq> Done (Some (cursor_at (sh st0) k))" if "j < length js" for j
    using build_invD(4) [OF inv that i(1)] own i(2) by auto
  have "slot_at (sh st) k = slot_at (sh st0) k" using build_invD(7) [OF inv k0] notdone by blast
  also have "\<dots> = replicate (at_slot_size st0) 0"
    using inv0 z0 k0 at_len [OF inv0] by (simp add: at_inv_def ht_core_def zeroed_def)
  finally have zero: "slot_at (sh st) k = replicate (at_slot_size st) 0" using shp by (simp add: same_shape_def)
  have shape: "ht_shape cmp (sh st)" using same_shape_ht [OF shp at_shape [OF inv0]] .
  have klen: "kc_len cmp \<le> at_slot_size st" using shape by (simp add: ht_shape_def)
  have lb: "length ?bs \<le> total_slot_size (sh st)" using klen by (simp add: copied_def min_def)
  have "at_store st k (at_tags st ! k) = st" by (simp add: at_store_def)
  then have she: "sh ?st = set_slot k (at_tags st ! k) ?bs (sh st)"
    using at_set_slot [of st k "at_tags st ! k" ?bs] by simp
  have slots: "slot_at (sh ?st) j = (if j = k then ?bs @ replicate (at_slot_size st - length ?bs) 0 else slot_at (sh st) j)"
    if "j \<le> at_mod_mask st" for j
    using slot_set_slot [OF shape, of k j ?bs "at_tags st ! k"] kle that lb zero by (simp add: she mem_write_def)
  have row: "snd (job_row cmp st0 (js ! i)) = ?bs @ replicate (at_slot_size st - length ?bs) 0"
    using i(3) shp by (simp add: copied_def same_shape_def)
  have sl: "slot_of (?pcs ! j) = slot_of (pcs ! j)" for j
    using len i(2) by (cases "j = i") auto
  have dn: "?pcs ! j = Done (Some (cursor_at (sh st0) l)) \<longleftrightarrow> (if j = i then l = k else pcs ! j = Done (Some (cursor_at (sh st0) l)))" for j l
    using len it same_shape_sh(1) [OF shp] by (cases "j = i") (auto simp: cursor_at_def)
  have tags: "at_tags ?st = at_tags st" by (simp add: at_memcpy_def)
  have shp': "same_shape st0 ?st"
    using shp slot_range [OF shape, of k] kle lb by (auto simp: same_shape_def at_memcpy_def length_mem_write)
  have hm: "home (sh ?st) h = home (sh st) h" "at_mod_mask ?st = at_mod_mask st" "at_dist ?st h d = at_dist st h d" for h d
    by (simp_all add: home_def at_memcpy_def at_dist_def cursor_at_def)
  have ps: "passed ?st h d = passed st h d" for h d unfolding passed_def hm tags ..
  have "build_inv cmp st0 js (?st, ?pcs)"
  proof (rule build_invI, goal_cases)
    case (3 j)
    with build_invD(3) [OF inv, of j] i(2) len show ?case unfolding pc_ok_def hm ps by (cases "j = i") auto
  next
    case (7 l)
    have "pcs ! j \<noteq> Done (Some (cursor_at (sh st0) l))" if "j < length js" for j
      using 7(2) [rule_format, OF that, unfolded dn] i(2) by (cases "j = i") simp_all
    moreover have "l \<noteq> k" using 7(2) [rule_format, OF i(1), unfolded dn] by simp
    ultimately have "l \<noteq> k" "\<forall>j<length js. pcs ! j \<noteq> Done (Some (cursor_at (sh st0) l))" by blast+
    with 7(1) show ?case using build_invD(7) [OF inv, of l] slots [of l] shp by (simp add: same_shape_def)
  next
    case (8 j l)
    show ?case
    proof (cases "j = i")
      case True
      with 8 have "l = k" unfolding dn by simp
      with True show ?thesis using slots [OF kle] row by simp
    next
      case False
      with 8 have dl: "pcs ! j = Done (Some (cursor_at (sh st0) l))" unfolding dn by simp
      then have "slot_of (pcs ! j) = Some l" by simp
      then have "l \<noteq> k" using build_invD(4) [OF inv i(1) 8(1)] own False by auto
      have "l \<le> at_mod_mask st"
      proof -
        obtain e where "Some (cursor_at (sh st0) l) = Some (at_dist st (job_hash (js ! j)) e)"
          using build_invD(3) [OF inv 8(1)] dl by (auto simp: pc_ok_def)
        then have "l = (home (sh st) (job_hash (js ! j)) + e) mod (at_mod_mask st + 1)"
          by (simp add: at_dist_def cursor_at_def)
        then show ?thesis by (simp add: less_Suc_eq_le [symmetric])
      qed
      then have "slot_at (sh ?st) l = slot_at (sh st) l" using slots [of l] \<open>l \<noteq> k\<close> by (simp only: if_False)
      also have "\<dots> = snd (job_row cmp st0 (js ! j))" by (rule build_invD(8) [OF inv 8(1) dl])
      finally show ?thesis .
    qed
  qed (use build_invD [OF inv] shp' len in \<open>simp_all only: sl tags length_list_update\<close>)
  then show ?thesis using kt by simp
qed

section \<open>Every action keeps the invariant and makes progress\<close>

definition dist_of :: "atomic_ht \<Rightarrow> u64 \<Rightarrow> cursor \<Rightarrow> nat" where
  "dist_of st hash it = (cur_idx it + (at_mod_mask st + 1) - home (sh st) hash) mod (at_mod_mask st + 1)"

fun pc_weight :: "atomic_ht \<Rightarrow> u64 \<Rightarrow> pc \<Rightarrow> nat" where
  "pc_weight st hash (Loading it) = 2 * (num_slots st - dist_of st hash it) + 2"
| "pc_weight st hash (Swapping it t) = 2 * (num_slots st - dist_of st hash it) + 1"
| "pc_weight st hash (Comparing it) = 0"
| "pc_weight st hash (Copying it) = 1"
| "pc_weight st hash (Done r) = 0"

definition par_weight :: "atomic_ht \<Rightarrow> job list \<Rightarrow> pc list \<Rightarrow> nat" where
  "par_weight st0 js pcs = (\<Sum>i<length js. pc_weight st0 (job_hash (js ! i)) (pcs ! i))"

lemma dist_of_at: "d \<le> at_mod_mask st \<Longrightarrow> dist_of st h (at_dist st h d) = d"
proof -
  let ?n = "at_mod_mask st + 1" and ?h = "home (sh st) h"
  assume d: "d \<le> at_mod_mask st"
  have h: "?h < ?n" using home_le [of "sh st" h] by simp
  have "(?h + d) mod ?n + ?n - ?h = (?h + d) mod ?n + (?n - ?h)" using h by simp
  moreover have "((?h + d) mod ?n + (?n - ?h)) mod ?n = (?h + d + (?n - ?h)) mod ?n" by (rule mod_add_left_eq)
  moreover have "?h + d + (?n - ?h) = d + ?n" using h by simp
  moreover have "(d + ?n) mod ?n = d" using d by (subst mod_add_self2) simp
  ultimately show ?thesis by (simp only: dist_of_def at_dist_def cursor_at_simps)
qed

lemma weight_decreases:
  assumes "i < length js" "length pcs = length js"
    "pc_weight st0 (job_hash (js ! i)) p < pc_weight st0 (job_hash (js ! i)) (pcs ! i)"
  shows "par_weight st0 js (pcs[i := p]) < par_weight st0 js pcs"
  unfolding par_weight_def
  by (rule sum_strict_mono_ex1) (use assms in \<open>auto simp: nth_list_update intro!: bexI [of _ i]\<close>)

lemma build_step:
  assumes pre: "build_pre cmp st0 js" and inv: "build_inv cmp st0 js (st, pcs)" and step: "par_step cmp js (st, pcs) u"
  shows "build_inv cmp st0 js u \<and> par_weight st0 js (snd u) < par_weight st0 js pcs"
proof -
  from step obtain i st' p where i: "i < length js" and js: "job_step cmp (js ! i) st (pcs ! i) = Some (st', p)"
    and u: "u = (st', pcs[i := p])" by (auto elim: par_stepE)
  note shp = build_invD(1) [OF inv] and len = build_invD(2) [OF inv]
  have ns: "num_slots st0 = at_mod_mask st0 + 1" "at_mod_mask st = at_mod_mask st0"
    using pre shp by (simp_all add: build_pre_def at_inv_def same_shape_def)
  have good: "good_insert cmp st0 (js ! i)" using pre i by (auto simp: build_pre_def)
  then obtain only_key key where j: "js ! i = InsertJob only_key key (kc_hash cmp key)" by (auto elim!: good_insert_cases)
  let ?h = "kc_hash cmp key"
  have jh: "job_hash (js ! i) = ?h" using j by simp
  obtain d where d: "d \<le> at_mod_mask st" "pc_cursor (pcs ! i) = Some (at_dist st ?h d)" "passed st ?h d"
    "case pcs ! i of Comparing it \<Rightarrow> False | Swapping it t \<Rightarrow> t = 0 | _ \<Rightarrow> True"
    using build_invD(3) [OF inv i] jh by (auto simp: pc_ok_def)
  let ?k = "(home (sh st) ?h + d) mod (at_mod_mask st + 1)"
  have kle: "?k \<le> at_mod_mask st0" using ns(2) by (simp add: less_Suc_eq_le [symmetric])
  have load: "at_load st (cur_tag (at_dist st ?h d)) = at_tags st ! ?k" by (simp add: at_load_def at_dist_def)
  have w: "dist_of st0 ?h (at_dist st ?h e) = e" if "e \<le> at_mod_mask st" for e
    using dist_of_at [of e st0 ?h] that ns(2) same_shape_sh(3) [OF shp] by simp
  have move: "build_inv cmp st0 js (st, pcs[i := Loading (itAdvance st (at_dist st ?h d))]) \<and>
      par_weight st0 js (pcs[i := Loading (itAdvance st (at_dist st ?h d))]) < par_weight st0 js pcs"
    if none: "slot_of (pcs ! i) = None" and fill: "filled (at_tags st ! ?k)"
      and wt: "pc_weight st0 ?h (pcs ! i) \<ge> 2 * (num_slots st0 - d) + 1"
  proof -
    note on = pass_on [OF pre inv i none d(1,3) fill]
    have "pc_ok st (job_hash (js ! i)) (Loading (itAdvance st (at_dist st ?h d)))"
      unfolding jh pc_ok_def on(3) using on(1,2) by auto
    from keep_memory [OF inv i none _ this] have b: "build_inv cmp st0 js (st, pcs[i := Loading (itAdvance st (at_dist st ?h d))])"
      by simp
    have "pc_weight st0 ?h (Loading (itAdvance st (at_dist st ?h d))) < pc_weight st0 ?h (pcs ! i)"
      using wt w [OF on(1)] on(1) ns by (simp add: on(3))
    with weight_decreases [OF i len] jh b show ?thesis by simp
  qed
  show ?thesis
  proof (cases "pcs ! i")
    case (Loading it)
    with d(2) have it: "it = at_dist st ?h d" by simp
    show ?thesis
    proof (cases "filled (at_tags st ! ?k)")
      case True
      then have "u = (st, pcs[i := Loading (itAdvance st it)])"
        using js u Loading j load it by (auto simp: Let_def filled_target(2))
      with move True Loading it w [OF d(1)] show ?thesis by simp
    next
      case False
      then have z: "at_tags st ! ?k = 0" using build_filled [OF pre inv kle] by blast
      then have uu: "u = (st, pcs[i := Swapping it 0])"
        using js u Loading j load it by (auto simp: Let_def)
      have "pc_ok st (job_hash (js ! i)) (Swapping it 0)" unfolding jh pc_ok_def using d it by auto
      from keep_memory [OF inv i _ _ this] have "build_inv cmp st0 js u" using Loading uu by simp
      moreover have "pc_weight st0 ?h (Swapping it 0) < pc_weight st0 ?h (pcs ! i)" using Loading by simp
      ultimately show ?thesis using weight_decreases [OF i len] jh uu by simp
    qed
  next
    case (Comparing it) with d(4) show ?thesis by simp
  next
    case (Swapping it t)
    with d(2,4) have it: "it = at_dist st ?h d" "t = 0" by auto
    show ?thesis
    proof (cases "at_tags st ! ?k = 0")
      case True
      then have uu: "u = (at_store st (cur_tag it) (new_tag ?h), pcs[i := Copying it])"
        using js u Swapping j load it by (simp add: cas_def new_tag_def)
      have "build_inv cmp st0 js u"
        using claim_slot [OF pre inv i _ ] Swapping it True load jh uu by simp
      moreover have "pc_weight st0 ?h (Copying it) < pc_weight st0 ?h (pcs ! i)"
        using Swapping it w [OF d(1)] d(1) ns by simp
      ultimately show ?thesis using weight_decreases [OF i len] jh uu by simp
    next
      case False
      then have fill: "filled (at_tags st ! ?k)" using build_filled [OF pre inv kle] by blast
      from False have "u = (st, pcs[i := Loading (itAdvance st it)])"
        using js u Swapping j load it by (auto simp: cas_def)
      with move fill Swapping it w [OF d(1)] show ?thesis by simp
    qed
  next
    case (Copying it)
    then have uu: "u = (at_memcpy st (cur_elem it) (copied cmp st only_key key), pcs[i := Done (Some it)])"
      using js u j by simp
    have "pc_weight st0 ?h (Done (Some it)) < pc_weight st0 ?h (pcs ! i)" using Copying by simp
    with copy_row [OF pre inv i Copying j] weight_decreases [OF i len] jh uu show ?thesis by simp
  next
    case (Done r) with js j show ?thesis by simp
  qed
qed

lemma build_run_aux:
  assumes pre: "build_pre cmp st0 js" and run: "par_run cmp js s n u"
  shows "build_inv cmp st0 js s \<Longrightarrow> build_inv cmp st0 js u \<and> n + par_weight st0 js (snd u) \<le> par_weight st0 js (snd s)"
  using run
proof induction
  case (stop s) then show ?case by simp
next
  case (go s n t u)
  then have t: "build_inv cmp st0 js (fst t, snd t)" "n + par_weight st0 js (snd t) \<le> par_weight st0 js (snd s)" by simp_all
  from build_step [OF pre t(1)] go.hyps(2) have "build_inv cmp st0 js u" "par_weight st0 js (snd u) < par_weight st0 js (snd t)"
    by simp_all
  with t(2) show ?case by simp
qed

lemma build_run:
  assumes pre: "build_pre cmp st0 js" and run: "par_run cmp js (par_start st0 js) n (st, pcs)"
  shows "build_inv cmp st0 js (st, pcs)" "n \<le> length js * (2 * num_slots st0 + 2)"
proof -
  note r = build_run_aux [OF pre run build_start [OF pre]]
  show "build_inv cmp st0 js (st, pcs)" using r by simp
  have "par_weight st0 js (snd (par_start st0 js)) \<le> (\<Sum>i<length js. 2 * num_slots st0 + 2)"
    unfolding par_weight_def by (rule sum_mono) (simp add: par_start_def)
  with r show "n \<le> length js * (2 * num_slots st0 + 2)" by simp
qed

text \<open>A thread that is not done can act.\<close>

lemma build_progress:
  assumes pre: "build_pre cmp st0 js" and inv: "build_inv cmp st0 js (st, pcs)"
    and i: "i < length js" and nd: "\<And>c. pcs ! i \<noteq> Done (Some c)"
  shows "\<exists>u. par_step cmp js (st, pcs) u"
proof -
  have "good_insert cmp st0 (js ! i)" using pre i by (auto simp: build_pre_def)
  then obtain only_key key where j: "js ! i = InsertJob only_key key (kc_hash cmp key)" by (auto elim!: good_insert_cases)
  have "pc_ok st (job_hash (js ! i)) (pcs ! i)" using build_invD(3) [OF inv i] .
  then have "job_step cmp (js ! i) st (pcs ! i) \<noteq> None"
    using nd j by (cases "pcs ! i") (auto simp: pc_ok_def Let_def split: prod.split)
  then obtain st' p where "job_step cmp (js ! i) st (pcs ! i) = Some (st', p)" by auto
  with i show ?thesis by (blast intro: par_step.act)
qed

section \<open>The finished build\<close>

lemma build_done:
  assumes cmp: "comparator cmp" and pre: "build_pre cmp st0 js" and inv: "build_inv cmp st0 js (st, pcs)"
    and fin: "\<And>i. i < length js \<Longrightarrow> pcs ! i = Done (Some (cursor_at (sh st0) (K i)))"
  shows "at_inv cmp st" "at_entries st = at_entries st0 + mset (map (job_row cmp st0) js)"
    "\<And>i. i < length js \<Longrightarrow> at_slot st (K i * at_slot_size st) = snd (job_row cmp st0 (js ! i))"
proof -
  have inv0: "at_inv cmp st0" using pre by (simp add: build_pre_def)
  note shp = build_invD(1) [OF inv]
  have sz: "at_slot_size st = at_slot_size st0" "at_mod_mask st = at_mod_mask st0" using shp by (simp_all add: same_shape_def)
  have own: "slot_of (pcs ! i) = Some (K i)" if "i < length js" for i using fin [OF that] by simp
  have kle: "K i \<le> at_mod_mask st0" and ps: "reaches (sh st) (home (sh st) (job_hash (js ! i))) (K i)" if i: "i < length js" for i
  proof -
    obtain d where d: "d \<le> at_mod_mask st" "cursor_at (sh st0) (K i) = at_dist st (job_hash (js ! i)) d" "passed st (job_hash (js ! i)) d"
      using build_invD(3) [OF inv i] fin [OF i] by (auto simp: pc_ok_def)
    then have e: "K i = (home (sh st) (job_hash (js ! i)) + d) mod (at_mod_mask st + 1)" by (simp add: at_dist_def cursor_at_def)
    then show "K i \<le> at_mod_mask st0" using sz by (simp add: less_Suc_eq_le [symmetric])
    show "reaches (sh st) (home (sh st) (job_hash (js ! i))) (K i)"
      unfolding reaches_def using d(1,3) e filled_nonzero by (intro exI [of _ d]) (auto simp: passed_def)
  qed
  have inj: "inj_on K {..<length js}"
    using build_invD(4) [OF inv] own by (intro inj_onI) auto
  have zero0: "at_tags st0 ! K i = 0" and tag: "at_tags st ! K i = fst (job_row cmp st0 (js ! i))"
    and row: "slot_at (sh st) (K i) = snd (job_row cmp st0 (js ! i))" if i: "i < length js" for i
    using build_invD(6) [OF inv i own [OF i]] build_invD(8) [OF inv i fin [OF i]] by auto
  have rest_tag: "at_tags st ! k = at_tags st0 ! k" and rest_slot: "slot_at (sh st) k = slot_at (sh st0) k"
    if k: "k \<le> at_mod_mask st0" "k \<notin> K ` {..<length js}" for k
  proof -
    have "slot_of (pcs ! i) \<noteq> Some k" if "i < length js" for i using own [OF that] k(2) that by auto
    then show "at_tags st ! k = at_tags st0 ! k" using build_invD(5) [OF inv k(1)] by blast
    have "pcs ! i \<noteq> Done (Some (cursor_at (sh st0) k))" if "i < length js" for i
      using fin [OF that] k(2) that by (auto simp: cursor_at_def)
    then show "slot_at (sh st) k = slot_at (sh st0) k" using build_invD(7) [OF inv k(1)] by blast
  qed
  have lens: "length (at_tags st) = at_mod_mask st0 + 1" "length (at_tags st0) = at_mod_mask st0 + 1"
    using shp at_len [OF inv0] by (simp_all add: same_shape_def)
  have good: "good_insert cmp st0 (js ! i)" if "i < length js" for i using pre that by (auto simp: build_pre_def)
  have disj: "used (sh st0) \<inter> K ` {..<length js} = {}" using zero0 by (auto simp: used_def)
  have used: "used (sh st) = used (sh st0) \<union> K ` {..<length js}"
  proof (intro set_eqI iffI)
    fix k assume k: "k \<in> used (sh st)"
    then have "k \<le> at_mod_mask st0" "at_tags st ! k \<noteq> 0" using lens by (auto simp: used_def)
    then show "k \<in> used (sh st0) \<union> K ` {..<length js}"
      using rest_tag [of k] lens by (cases "k \<in> K ` {..<length js}") (auto simp: used_def)
  next
    fix k assume "k \<in> used (sh st0) \<union> K ` {..<length js}"
    then show "k \<in> used (sh st)"
    proof
      assume k: "k \<in> used (sh st0)"
      then have "k \<le> at_mod_mask st0" "k \<notin> K ` {..<length js}" using disj lens by (auto simp: used_def)
      with k rest_tag [of k] lens show ?thesis by (simp add: used_def)
    next
      assume "k \<in> K ` {..<length js}"
      then obtain i where i: "i < length js" "k = K i" by auto
      then show ?thesis using kle [OF i(1)] tag [OF i(1)] row_tag [OF good [OF i(1)]] lens by (simp add: used_def)
    qed
  qed
  have e1: "image_mset (entry_at (sh st)) (mset_set (used (sh st0))) = at_entries st0"
    unfolding at_entries_def entries_def
  proof (rule image_mset_cong)
    fix k assume "k \<in># mset_set (used (sh st0))"
    then have "k \<in> used (sh st0)" by simp
    then have "k \<le> at_mod_mask st0" "k \<notin> K ` {..<length js}" using disj lens by (auto simp: used_def)
    then show "entry_at (sh st) k = entry_at (sh st0) k" using rest_tag rest_slot by (simp add: entry_at_def)
  qed
  have e2: "image_mset (entry_at (sh st)) (mset_set (K ` {..<length js})) = mset (map (job_row cmp st0) js)"
  proof -
    have "image_mset (entry_at (sh st)) (mset_set (K ` {..<length js})) =
        image_mset (\<lambda>i. entry_at (sh st) (K i)) (mset_set {..<length js})"
      using inj by (simp add: image_mset_mset_set [symmetric] multiset.map_comp comp_def)
    also have "\<dots> = image_mset (\<lambda>i. job_row cmp st0 (js ! i)) (mset_set {..<length js})"
      by (rule image_mset_cong) (simp add: entry_at_def tag row)
    also have "\<dots> = mset (map (\<lambda>i. job_row cmp st0 (js ! i)) [0..<length js])"
      by (simp add: lessThan_atLeast0 mset_set_upto_eq_mset_upto)
    also have "map (\<lambda>i. job_row cmp st0 (js ! i)) [0..<length js] = map (job_row cmp st0) js"
      by (rule nth_equalityI) auto
    finally show ?thesis .
  qed
  show es: "at_entries st = at_entries st0 + mset (map (job_row cmp st0) js)"
  proof -
    have "mset_set (used (sh st)) = mset_set (used (sh st0)) + mset_set (K ` {..<length js})"
      unfolding used using disj by (intro mset_set_Union) auto
    then show ?thesis using e1 e2 by (simp add: at_entries_def [of st] entries_def [of "sh st"])
  qed
  show "at_slot st (K i * at_slot_size st) = snd (job_row cmp st0 (js ! i))" if "i < length js" for i
    using row [OF that] by (simp add: at_slot_eq)
  have shape: "ht_shape cmp (sh st)" using same_shape_ht [OF shp at_shape [OF inv0]] .
  have chained: "chained cmp (sh st)"
    unfolding chained_def
  proof
    fix k assume k: "k \<in> used (sh st)"
    show "reaches (sh st) (home (sh st) (kc_hash cmp (slot_key cmp (slot_at (sh st) k)))) k"
    proof (cases "k \<in> K ` {..<length js}")
      case True
      then obtain i where i: "i < length js" "k = K i" by auto
      obtain only_key key where j: "js ! i = InsertJob only_key key (kc_hash cmp key)"
        "(if only_key then kc_len cmp else at_slot_size st0) \<le> length key"
        using good [OF i(1)] by (auto elim!: good_insert_cases)
      have kl: "kc_len cmp \<le> at_slot_size st0" using shape sz by (simp add: ht_shape_def)
      have "slot_key cmp (slot_at (sh st) k) = take (kc_len cmp) key"
        using row [OF i(1)] i(2) j kl by (auto simp: slot_key_def copied_def min_def)
      then have "kc_hash cmp (slot_key cmp (slot_at (sh st) k)) = kc_hash cmp key"
        using comparator.cmp_hash [OF cmp comparator.cmp_prefix [OF cmp]] by simp
      then show ?thesis using ps [OF i(1)] i(2) j(1) by simp
    next
      case False
      with k used have k0: "k \<in> used (sh st0)" by simp
      then have kl: "k \<le> at_mod_mask st0" using lens by (simp add: used_def)
      have "reaches (sh st0) (home (sh st0) (kc_hash cmp (slot_key cmp (slot_at (sh st0) k)))) k"
        using inv0 k0 by (simp add: at_inv_def ht_core_def chained_def)
      moreover have "at_tags st ! j \<noteq> 0" if "at_tags st0 ! j \<noteq> 0" "j \<le> at_mod_mask st0" for j
      proof -
        have "j \<in> used (sh st)" using that lens used by (auto simp: used_def)
        then show ?thesis by (simp add: used_def)
      qed
      ultimately show ?thesis
        using rest_slot [OF kl False] sz same_shape_sh(2) [OF shp] unfolding reaches_def by (auto simp: less_Suc_eq_le [symmetric])
    qed
  qed
  have zeroed: "zeroed (sh st)"
    unfolding zeroed_def
  proof (intro allI impI)
    fix k assume k: "k < length (ht_tags (sh st))" "ht_tags (sh st) ! k = 0"
    then have kl: "k \<le> at_mod_mask st0" using lens by simp
    have "k \<notin> K ` {..<length js}" using k(2) tag row_tag [OF good] by auto
    then have "slot_at (sh st) k = slot_at (sh st0) k" "at_tags st0 ! k = 0" using rest_slot [OF kl] rest_tag [OF kl] k(2) by auto
    then show "slot_at (sh st) k = replicate (total_slot_size (sh st)) 0"
      using inv0 kl lens sz by (simp add: at_inv_def ht_core_def zeroed_def)
  qed
  show "at_inv cmp st"
    unfolding at_inv_def ht_core_def es
    using shape chained zeroed inv0 shp row_tag pre by (auto simp: at_inv_def same_shape_def build_pre_def)
qed

section \<open>The parallel probe of a semi join\<close>

fun good_disable :: "key_cmp \<Rightarrow> job \<Rightarrow> bool" where
  "good_disable cmp (DisableJob key hash) \<longleftrightarrow> hash = kc_hash cmp key"
| "good_disable cmp (InsertJob b key hash) \<longleftrightarrow> False"

fun job_key :: "job \<Rightarrow> bytes" where
  "job_key (InsertJob b key hash) = key"
| "job_key (DisableJob key hash) = key"

text \<open>Whether slot \<open>k\<close> holds a row that answers the key of the job.\<close>

definition hits :: "key_cmp \<Rightarrow> atomic_ht \<Rightarrow> job \<Rightarrow> nat \<Rightarrow> bool" where
  "hits cmp st j k \<longleftrightarrow> live cmp (job_key j) (entry_at (sh st) k)"

fun probe_ok :: "key_cmp \<Rightarrow> atomic_ht \<Rightarrow> atomic_ht \<Rightarrow> job \<Rightarrow> pc \<Rightarrow> bool" where
  "probe_ok cmp st0 st j (Done None) \<longleftrightarrow> (\<forall>k\<le>at_mod_mask st0. \<not> hits cmp st j k)"
| "probe_ok cmp st0 st j (Done (Some it)) \<longleftrightarrow> (\<exists>k\<le>at_mod_mask st0. it = cursor_at (sh st0) k \<and> hits cmp st0 j k \<and>
     at_tags st ! k = new_tag (job_hash j) XOR fingerprint_inversion_mask)"
| "probe_ok cmp st0 st j p \<longleftrightarrow> (\<exists>d. pc_cursor p = Some (at_dist st0 (job_hash j) d) \<and>
     (\<forall>e<d. \<not> hits cmp st j ((home (sh st0) (job_hash j) + e) mod (at_mod_mask st0 + 1))) \<and> passed st0 (job_hash j) d \<and>
     (case p of Copying it \<Rightarrow> False
      | Comparing it \<Rightarrow> passed st0 (job_hash j) (Suc d)
      | Swapping it t \<Rightarrow> passed st0 (job_hash j) (Suc d) \<and> t = new_tag (job_hash j) \<and>
          kc_eq cmp (job_key j) (slot_at (sh st0) ((home (sh st0) (job_hash j) + d) mod (at_mod_mask st0 + 1)))
      | _ \<Rightarrow> True))"

definition disable_inv :: "key_cmp \<Rightarrow> atomic_ht \<Rightarrow> job list \<Rightarrow> par_state \<Rightarrow> bool" where
  "disable_inv cmp st0 js s \<longleftrightarrow> (case s of (st, pcs) \<Rightarrow>
     same_shape st0 st \<and> at_data st = at_data st0 \<and> length pcs = length js \<and>
     (\<forall>i<length js. probe_ok cmp st0 st (js ! i) (pcs ! i)) \<and>
     (\<forall>i<length js. \<forall>j<length js. \<forall>c. pcs ! i = Done (Some c) \<and> pcs ! j = Done (Some c) \<longrightarrow> i = j) \<and>
     (\<forall>k\<le>at_mod_mask st0. at_tags st ! k \<noteq> at_tags st0 ! k \<longrightarrow> (\<exists>i<length js. pcs ! i = Done (Some (cursor_at (sh st0) k)))))"

text \<open>The only change of memory: a slot that answers the job gets the inverted tag.\<close>

definition disable_slot :: "atomic_ht \<Rightarrow> nat \<Rightarrow> u64 \<Rightarrow> atomic_ht" where
  "disable_slot st k hash = at_store st k (new_tag hash XOR fingerprint_inversion_mask)"

context comparator begin

lemma hits_disable:
  assumes "good_disable cmp j" "good_disable cmp l" "hits cmp st j k" "k < length (at_tags st)"
  shows "hits cmp (disable_slot st k (job_hash j)) l m \<longleftrightarrow> hits cmp st l m \<and> m \<noteq> k"
proof (cases "m = k")
  case True
  have "\<not> hits cmp (disable_slot st k (job_hash j)) l k"
  proof
    assume h: "hits cmp (disable_slot st k (job_hash j)) l k"
    have sl: "slot_at (sh (disable_slot st k (job_hash j))) k = slot_at (sh st) k"
      by (simp add: disable_slot_def at_store_def slot_at_def)
    have "kc_eq cmp (job_key l) (slot_at (sh st) k)" using h sl by (simp add: hits_def live_def entry_at_def)
    moreover have "kc_eq cmp (job_key j) (slot_at (sh st) k)" using assms(3) by (simp add: hits_def live_def entry_at_def)
    ultimately have e: "kc_hash cmp (job_key l) = kc_hash cmp (job_key j)" using cmp_hash by metis
    have "at_tags (disable_slot st k (job_hash j)) ! k = new_tag (job_hash j) XOR fingerprint_inversion_mask"
      using assms(4) by (simp add: disable_slot_def at_store_def)
    then have "new_tag (job_hash j) XOR fingerprint_inversion_mask = new_tag (kc_hash cmp (job_key l))"
      using h by (simp add: hits_def live_def entry_at_def)
    moreover have "job_hash j = kc_hash cmp (job_key j)" using assms(1) by (cases j) auto
    ultimately show False using e invert_fingerprint [of "new_tag (job_hash j)"] by simp
  qed
  with True show ?thesis by simp
next
  case False
  then show ?thesis by (simp add: hits_def entry_at_def disable_slot_def at_store_def slot_at_def)
qed

lemma disable_invI:
  assumes "same_shape st0 st" "at_data st = at_data st0" "length pcs = length js"
    "\<And>i. i < length js \<Longrightarrow> probe_ok cmp st0 st (js ! i) (pcs ! i)"
    "\<And>i j c. i < length js \<Longrightarrow> j < length js \<Longrightarrow> pcs ! i = Done (Some c) \<Longrightarrow> pcs ! j = Done (Some c) \<Longrightarrow> i = j"
    "\<And>k. k \<le> at_mod_mask st0 \<Longrightarrow> at_tags st ! k \<noteq> at_tags st0 ! k \<Longrightarrow> \<exists>i<length js. pcs ! i = Done (Some (cursor_at (sh st0) k))"
  shows "disable_inv cmp st0 js (st, pcs)"
  unfolding disable_inv_def prod.case using assms by (intro conjI allI impI) blast+

lemma disable_invD:
  assumes "disable_inv cmp st0 js (st, pcs)"
  shows "same_shape st0 st" "at_data st = at_data st0" "length pcs = length js"
    "i < length js \<Longrightarrow> probe_ok cmp st0 st (js ! i) (pcs ! i)"
    "i < length js \<Longrightarrow> j < length js \<Longrightarrow> pcs ! i = Done (Some c) \<Longrightarrow> pcs ! j = Done (Some c) \<Longrightarrow> i = j"
    "k \<le> at_mod_mask st0 \<Longrightarrow> at_tags st ! k \<noteq> at_tags st0 ! k \<Longrightarrow> \<exists>i<length js. pcs ! i = Done (Some (cursor_at (sh st0) k))"
  using assms unfolding disable_inv_def prod.case by blast+

lemma good_disable_key: "good_disable cmp j \<Longrightarrow> job_hash j = kc_hash cmp (job_key j)"
  by (cases j) auto

text \<open>A slot handed out has a tag that no job can hit; all other slots have their first tag.\<close>

lemma disable_tags:
  assumes inv: "disable_inv cmp st0 js (st, pcs)" and good: "\<forall>j\<in>set js. good_disable cmp j"
    and k: "k \<le> at_mod_mask st0" and j: "good_disable cmp j"
  shows "filled (at_tags st ! k) \<longleftrightarrow> filled (at_tags st0 ! k)"
    and "hits cmp st j k \<Longrightarrow> at_tags st ! k = at_tags st0 ! k \<and> hits cmp st0 j k \<and>
      (\<forall>i<length js. pcs ! i \<noteq> Done (Some (cursor_at (sh st0) k)))"
proof -
  have slot: "slot_at (sh st) k = slot_at (sh st0) k"
    using disable_invD(1,2) [OF inv] by (simp add: slot_at_def same_shape_def)
  have handed: "at_tags st0 ! k = new_tag (job_hash (js ! i))"
    "at_tags st ! k = new_tag (job_hash (js ! i)) XOR fingerprint_inversion_mask" "hits cmp st0 (js ! i) k"
    if i: "i < length js" "pcs ! i = Done (Some (cursor_at (sh st0) k))" for i
  proof -
    have "probe_ok cmp st0 st (js ! i) (Done (Some (cursor_at (sh st0) k)))" using disable_invD(4) [OF inv i(1)] i(2) by simp
    then show h: "hits cmp st0 (js ! i) k" "at_tags st ! k = new_tag (job_hash (js ! i)) XOR fingerprint_inversion_mask"
      by (auto simp: cursor_at_def)
    have "good_disable cmp (js ! i)" using good i(1) by auto
    with h(1) show "at_tags st0 ! k = new_tag (job_hash (js ! i))" by (simp add: hits_def live_def entry_at_def good_disable_key)
  qed
  show "filled (at_tags st ! k) \<longleftrightarrow> filled (at_tags st0 ! k)"
    using handed disable_invD(6) [OF inv k] by (metis filled_invert)
  assume h: "hits cmp st j k"
  have no: "pcs ! i \<noteq> Done (Some (cursor_at (sh st0) k))" if i: "i < length js" for i
  proof
    assume d: "pcs ! i = Done (Some (cursor_at (sh st0) k))"
    have "kc_eq cmp (job_key (js ! i)) (slot_at (sh st0) k)" using handed(3) [OF i d] by (simp add: hits_def live_def entry_at_def)
    moreover have "kc_eq cmp (job_key j) (slot_at (sh st0) k)" using h slot by (simp add: hits_def live_def entry_at_def)
    ultimately have e: "kc_hash cmp (job_key (js ! i)) = kc_hash cmp (job_key j)" using cmp_hash by metis
    have "good_disable cmp (js ! i)" using good i by auto
    then have "new_tag (kc_hash cmp (job_key j)) = new_tag (kc_hash cmp (job_key j)) XOR fingerprint_inversion_mask"
      using handed(2) [OF i d] h e by (simp add: hits_def live_def entry_at_def good_disable_key)
    then show False using invert_fingerprint by metis
  qed
  then have "at_tags st ! k = at_tags st0 ! k" using disable_invD(6) [OF inv k] by blast
  with h slot no show "at_tags st ! k = at_tags st0 ! k \<and> hits cmp st0 j k \<and>
      (\<forall>i<length js. pcs ! i \<noteq> Done (Some (cursor_at (sh st0) k)))"
    by (simp add: hits_def entry_at_def)
qed

lemma move_probe:
  assumes inv: "disable_inv cmp st0 js (st, pcs)" and i: "i < length js" "\<And>c. pcs ! i \<noteq> Done (Some c)" "\<And>c. p \<noteq> Done (Some c)"
    and p: "probe_ok cmp st0 st (js ! i) p"
  shows "disable_inv cmp st0 js (st, pcs[i := p])"
proof -
  have len: "i < length pcs" using i(1) disable_invD(3) [OF inv] by simp
  have dn: "pcs[i := p] ! j = Done (Some c) \<longleftrightarrow> pcs ! j = Done (Some c)" for j c
    using i len by (cases "j = i") auto
  show ?thesis
  proof (rule disable_invI, goal_cases)
    case (4 j) then show ?case using disable_invD(4) [OF inv, of j] p len by (cases "j = i") simp_all
  qed (use disable_invD [OF inv] in \<open>simp_all only: dn length_list_update\<close>)
qed

lemma take_probe:
  assumes inv: "disable_inv cmp st0 js (st, pcs)" and good: "\<forall>j\<in>set js. good_disable cmp j" and inv0: "at_inv cmp st0"
    and i: "i < length js" "\<And>c. pcs ! i \<noteq> Done (Some c)" and k: "k \<le> at_mod_mask st0" "hits cmp st (js ! i) k"
  shows "disable_inv cmp st0 js (disable_slot st k (job_hash (js ! i)), pcs[i := Done (Some (cursor_at (sh st0) k))])"
proof -
  let ?st = "disable_slot st k (job_hash (js ! i))" and ?pcs = "pcs[i := Done (Some (cursor_at (sh st0) k))]"
  have len: "i < length pcs" using i(1) disable_invD(3) [OF inv] by simp
  have gi: "good_disable cmp (js ! i)" using good i(1) by auto
  have lt: "k < length (at_tags st)" using k(1) disable_invD(1) [OF inv] at_len [OF inv0] by (simp add: same_shape_def)
  note t = disable_tags(2) [OF inv good k(1) gi k(2)]
  have dn: "?pcs ! j = Done (Some c) \<longleftrightarrow> (if j = i then c = cursor_at (sh st0) k else pcs ! j = Done (Some c))" for j c
    using len by (cases "j = i") auto
  have tags: "at_tags ?st ! m = (if m = k then new_tag (job_hash (js ! i)) XOR fingerprint_inversion_mask else at_tags st ! m)" for m
    using lt by (simp add: disable_slot_def at_store_def)
  show ?thesis
  proof (rule disable_invI, goal_cases)
    case 1 then show ?case using disable_invD(1) [OF inv] by (simp add: same_shape_def disable_slot_def at_store_def)
  next
    case 2 then show ?case using disable_invD(2) [OF inv] by (simp add: disable_slot_def at_store_def)
  next
    case 3 then show ?case using disable_invD(3) [OF inv] by simp
  next
    case (4 j)
    show ?case
    proof (cases "j = i")
      case True
      then show ?thesis using k(1) t len by (auto simp: tags)
    next
      case False
      have gj: "good_disable cmp (js ! j)" using good 4 by auto
      note h = hits_disable [OF gi gj k(2) lt]
      have p: "probe_ok cmp st0 st (js ! j) (pcs ! j)" using disable_invD(4) [OF inv 4] .
      have "probe_ok cmp st0 ?st (js ! j) (pcs ! j)"
      proof (cases "pcs ! j")
        case (Done r)
        show ?thesis
        proof (cases r)
          case None then show ?thesis using p Done h by auto
        next
          case (Some it)
          with p Done obtain m where m: "m \<le> at_mod_mask st0" "it = cursor_at (sh st0) m" "hits cmp st0 (js ! j) m"
            "at_tags st ! m = new_tag (job_hash (js ! j)) XOR fingerprint_inversion_mask" by auto
          have "m \<noteq> k" using t Done Some m(2) 4 by auto
          with m Done Some show ?thesis by (auto simp: tags)
        qed
      qed (use p h in \<open>fastforce+\<close>)
      then show ?thesis using False by simp
    qed
  next
    case (5 j l c)
    then show ?case using disable_invD(5) [OF inv, of j l c] t unfolding dn by (metis (full_types))
  next
    case (6 m)
    show ?case
    proof (cases "m = k")
      case True then show ?thesis using i(1) dn by auto
    next
      case False
      then obtain j where "j < length js" "pcs ! j = Done (Some (cursor_at (sh st0) m))"
        using disable_invD(6) [OF inv 6(1)] 6(2) tags by auto
      then show ?thesis using dn i(2) by (intro exI [of _ j]) auto
    qed
  qed
qed

lemma disable_step:
  assumes inv0: "at_inv cmp st0" and good: "\<forall>j\<in>set js. good_disable cmp j" and inv: "disable_inv cmp st0 js (st, pcs)"
    and step: "par_step cmp js (st, pcs) u"
  shows "disable_inv cmp st0 js u"
proof -
  from step obtain i st' p where i: "i < length js" and js: "job_step cmp (js ! i) st (pcs ! i) = Some (st', p)"
    and u: "u = (st', pcs[i := p])" by (auto elim: par_stepE)
  have gi: "good_disable cmp (js ! i)" using good i by auto
  then obtain key where j: "js ! i = DisableJob key (kc_hash cmp key)" by (cases "js ! i") auto
  let ?h = "kc_hash cmp key" and ?n = "at_mod_mask st0 + 1"
  note shp = disable_invD(1) [OF inv]
  have pok: "probe_ok cmp st0 st (js ! i) (pcs ! i)" using disable_invD(4) [OF inv i] .
  have nd: "pcs ! i \<noteq> Done (Some c)" for c using js j by auto
  have "pcs ! i \<noteq> Done r" for r using js j by auto
  then obtain d where d: "pc_cursor (pcs ! i) = Some (at_dist st0 ?h d)" "passed st0 ?h d"
    "\<And>e. e < d \<Longrightarrow> \<not> hits cmp st (js ! i) ((home (sh st0) ?h + e) mod ?n)"
    "case pcs ! i of Copying it \<Rightarrow> False | Comparing it \<Rightarrow> passed st0 ?h (Suc d)
      | Swapping it t \<Rightarrow> passed st0 ?h (Suc d) \<and> t = new_tag ?h \<and> kc_eq cmp key (slot_at (sh st0) ((home (sh st0) ?h + d) mod ?n))
      | _ \<Rightarrow> True"
    using pok j by (cases "pcs ! i") auto
  let ?k = "(home (sh st0) ?h + d) mod ?n"
  have kle: "?k \<le> at_mod_mask st0" by (simp add: less_Suc_eq_le [symmetric])
  have load: "at_load st (cur_tag (at_dist st0 ?h d)) = at_tags st ! ?k" by (simp add: at_load_def at_dist_def)
  have slot: "slot_at (sh st) m = slot_at (sh st0) m" for m
    using disable_invD(1,2) [OF inv] by (simp add: slot_at_def same_shape_def)
  have elem: "at_elem st (at_dist st0 ?h d) = slot_at (sh st0) ?k"
    using slot at_elem_at [of st ?k] same_shape_sh(1) [OF shp] by (simp add: at_dist_def)
  have hit: "hits cmp st (js ! i) ?k \<longleftrightarrow> at_tags st ! ?k = new_tag ?h \<and> kc_eq cmp key (slot_at (sh st0) ?k)"
    using j slot by (simp add: hits_def live_def entry_at_def)
  have adv: "itAdvance st (at_dist st0 ?h d) = at_dist st0 ?h (Suc d)"
  proof -
    have le: "?k \<le> mod_mask (sh st)" using kle shp by (simp add: same_shape_def)
    show ?thesis using advance_at [OF le] same_shape_sh(1) [OF shp] shp
      by (simp add: at_dist_def itAdvance_eq same_shape_def) (metis mod_Suc_eq)
  qed
  have move: "disable_inv cmp st0 js (st, pcs[i := Loading (itAdvance st (at_dist st0 ?h d))])"
    if "\<not> hits cmp st (js ! i) ?k" "passed st0 ?h (Suc d)"
  proof (rule move_probe [OF inv i nd])
    have "\<not> hits cmp st (js ! i) ((home (sh st0) ?h + e) mod ?n)" if "e < Suc d" for e
      using d(3) [of e] that \<open>\<not> hits cmp st (js ! i) ?k\<close> by (cases "e = d") auto
    then show "probe_ok cmp st0 st (js ! i) (Loading (itAdvance st (at_dist st0 ?h d)))"
      unfolding adv using that(2) j by (auto intro!: exI [of _ "Suc d"])
  qed simp
  note fill = disable_tags(1) [OF inv good kle gi]
  show ?thesis
  proof (cases "pcs ! i")
    case (Loading it)
    with d(1) have it: "it = at_dist st0 ?h d" by simp
    consider "\<not> filled (at_tags st ! ?k)" | "filled (at_tags st ! ?k)" "at_tags st ! ?k = new_tag ?h"
      | "filled (at_tags st ! ?k)" "at_tags st ! ?k \<noteq> new_tag ?h" by blast
    then show ?thesis
    proof cases
      case 1
      have "\<not> hits cmp st (js ! i) m" if m: "m \<le> at_mod_mask st0" for m
      proof
        assume hm: "hits cmp st (js ! i) m"
        have "hits cmp st0 (js ! i) m" using disable_tags(2) [OF inv good m gi hm] by blast
        then have "filled (at_tags st0 ! m)" "kc_eq cmp key (slot_at (sh st0) m)"
          using j by (auto simp: hits_def live_def entry_at_def)
        from chain_hit [OF inv0 m this] obtain d' where d': "m = (home (sh st0) ?h + d') mod ?n"
          "\<And>e. e < d' \<Longrightarrow> filled (at_tags st0 ! ((home (sh st0) ?h + e) mod ?n))" by blast
        have "filled (at_tags st ! m)" using hm j by (simp add: hits_def live_def entry_at_def)
        with 1 d' d(3) hm fill show False by (metis linorder_neqE_nat)
      qed
      moreover have "u = (st, pcs[i := Done None])"
        using 1 js u Loading j load it by (auto simp: Let_def filled_target(2))
      ultimately show ?thesis using move_probe [OF inv i nd, of "Done None"] by simp
    next
      case 2
      then have "u = (st, pcs[i := Comparing it])"
        using js u Loading j load it by (auto simp: Let_def filled_target(2) new_tag_def)
      moreover have "passed st0 ?h (Suc d)" using d(2) 2(1) fill by (auto simp: passed_def less_Suc_eq)
      then have "probe_ok cmp st0 st (js ! i) (Comparing it)"
        using d(2,3) it j by (auto intro!: exI [of _ d])
      ultimately show ?thesis using move_probe [OF inv i nd, of "Comparing it"] by simp
    next
      case 3
      then have "u = (st, pcs[i := Loading (itAdvance st it)])"
        using js u Loading j load it by (auto simp: Let_def filled_target(2) new_tag_def)
      moreover have "passed st0 ?h (Suc d)" using d(2) 3(1) fill by (auto simp: passed_def less_Suc_eq)
      ultimately show ?thesis using move 3(2) hit it by simp
    qed
  next
    case (Comparing it)
    with d(1,4) have it: "it = at_dist st0 ?h d" and ps: "passed st0 ?h (Suc d)" by auto
    show ?thesis
    proof (cases "kc_eq cmp key (slot_at (sh st0) ?k)")
      case True
      then have "u = (st, pcs[i := Swapping it (new_tag ?h)])"
        using js u Comparing j elem it by (auto simp: new_tag_def)
      moreover have "probe_ok cmp st0 st (js ! i) (Swapping it (new_tag ?h))"
        using d(2,3) it j ps True by (auto intro!: exI [of _ d])
      ultimately show ?thesis using move_probe [OF inv i nd, of "Swapping it (new_tag ?h)"] by simp
    next
      case False
      then have "u = (st, pcs[i := Loading (itAdvance st it)])" using js u Comparing j elem it by auto
      then show ?thesis using move False hit it ps by simp
    qed
  next
    case (Swapping it t)
    with d(1,4) have it: "it = at_dist st0 ?h d" "t = new_tag ?h" and ps: "passed st0 ?h (Suc d)"
      and eq: "kc_eq cmp key (slot_at (sh st0) ?k)" by auto
    show ?thesis
    proof (cases "at_tags st ! ?k = new_tag ?h")
      case True
      then have h: "hits cmp st (js ! i) ?k" using hit eq by simp
      have "u = (disable_slot st ?k ?h, pcs[i := Done (Some (cursor_at (sh st0) ?k))])"
        using js u Swapping j load it True by (auto simp: cas_def new_tag_def disable_slot_def at_dist_def)
      then show ?thesis using take_probe [OF inv good inv0 i nd kle h] j by simp
    next
      case False
      then have "u = (st, pcs[i := Loading (itAdvance st it)])"
        using js u Swapping j load it by (auto simp: cas_def)
      then show ?thesis using move False hit it ps by simp
    qed
  next
    case (Copying it) with d(4) show ?thesis by simp
  next
    case (Done r) with js j show ?thesis by simp
  qed
qed

lemma disable_run:
  assumes inv0: "at_inv cmp st0" and good: "\<forall>j\<in>set js. good_disable cmp j" and run: "par_run cmp js s n u"
  shows "disable_inv cmp st0 js s \<Longrightarrow> disable_inv cmp st0 js u"
  using run
proof induction
  case (stop s) then show ?case by simp
next
  case (go s n t u)
  then have "disable_inv cmp st0 js (fst t, snd t)" by simp
  from disable_step [OF inv0 good this] go.hyps(2) show ?case by simp
qed

lemma disable_start:
  assumes inv0: "at_inv cmp st0"
  shows "disable_inv cmp st0 js (par_start st0 js)"
  unfolding par_start_def
proof (rule disable_invI)
  fix i assume i: "i < length js"
  have "at_start st0 h = at_dist st0 h 0" for h
    using at_start_at [OF at_shape [OF inv0], of h] home_le [of "sh st0" h] by (simp add: at_dist_def)
  then show "probe_ok cmp st0 st0 (js ! i) (map (\<lambda>j. Loading (at_start st0 (job_hash j))) js ! i)"
    using i by (auto simp: passed_def intro!: exI [of _ 0])
qed (auto simp: same_shape_def)

end

section \<open>What the threads can rely on\<close>

lemma par_run_trans: "par_run cmp js t m u \<Longrightarrow> par_run cmp js s n t \<Longrightarrow> par_run cmp js s (n + m) u"
  by (induction rule: par_run.induct) (auto intro: par_run.intros)

lemma build_extends:
  assumes pre: "build_pre cmp st0 js" and run: "par_run cmp js (par_start st0 js) n (st, pcs)"
  shows "\<exists>m u. par_run cmp js (par_start st0 js) m u \<and> (\<nexists>v. par_step cmp js u v)"
  using run
proof (induction "length js * (2 * num_slots st0 + 2) - n" arbitrary: n st pcs rule: less_induct)
  case less
  show ?case
  proof (cases "\<exists>v. par_step cmp js (st, pcs) v")
    case True
    then obtain st' pcs' where v: "par_step cmp js (st, pcs) (st', pcs')" by fastforce
    have r: "par_run cmp js (par_start st0 js) (Suc n) (st', pcs')" using less.prems v by (rule par_run.go)
    with build_run(2) [OF pre r] show ?thesis by (intro less.hyps [OF _ r]) simp
  next
    case False with less.prems show ?thesis by blast
  qed
qed

lemma build_stuck:
  assumes pre: "build_pre cmp st0 js" and run: "par_run cmp js (par_start st0 js) n (st, pcs)"
    and stuck: "\<nexists>u. par_step cmp js (st, pcs) u" and i: "i < length js"
  shows "\<exists>k. pcs ! i = Done (Some (cursor_at (sh st0) k))"
proof -
  note inv = build_run(1) [OF pre run]
  obtain c where c: "pcs ! i = Done (Some c)" using build_progress [OF pre inv i] stuck by blast
  obtain d where "c = at_dist st (job_hash (js ! i)) d" using build_invD(3) [OF inv i] c by (auto simp: pc_ok_def)
  then show ?thesis using c same_shape_sh(1) [OF build_invD(1) [OF inv]] by (auto simp: at_dist_def)
qed

lemma build_result:
  assumes "comparator cmp" "build_pre cmp st0 js" "par_run cmp js (par_start st0 js) n (st, pcs)" "\<nexists>u. par_step cmp js (st, pcs) u"
  shows "at_inv cmp st" "at_entries st = at_entries st0 + mset (map (job_row cmp st0) js)"
    "\<forall>i<length js. \<exists>it. pcs ! i = Done (Some it) \<and> at_elem st it = snd (job_row cmp st0 (js ! i))"
    "same_shape st0 st"
proof -
  note inv = build_run(1) [OF assms(2,3)]
  obtain K where K: "\<And>i. i < length js \<Longrightarrow> pcs ! i = Done (Some (cursor_at (sh st0) (K i)))"
    using build_stuck [OF assms(2,3,4)] by metis
  note d = build_done [OF assms(1,2) inv K]
  show "at_inv cmp st" "at_entries st = at_entries st0 + mset (map (job_row cmp st0) js)" using d(1,2) by simp_all
  show shape: "same_shape st0 st" by (rule build_invD(1) [OF inv])
  then have "at_slot_size st = at_slot_size st0" by (simp add: same_shape_def)
  then show "\<forall>i<length js. \<exists>it. pcs ! i = Done (Some it) \<and> at_elem st it = snd (job_row cmp st0 (js ! i))"
    using K d(3) by (auto simp: at_elem_def at_slot_def)
qed

text \<open>
  C16. Any number of threads insert into the join table at once, in any interleaving of their atomic
  actions, and the table has room for all rows. Then no two threads ever own the same slot, a run has at most
  \<open>2 * num_slots + 2\<close> actions per thread, and where no action is left every thread has returned a pointer
  to its complete row, the table keeps its invariant and holds the old rows and each new row exactly once.
\<close>
theorem parallel_build:
  assumes "join_cmp xxh strs ks cmp" "build_pre cmp st0 js" "par_run cmp js (par_start st0 js) n (st, pcs)"
  shows "n \<le> length js * (2 * num_slots st0 + 2) \<and>
    (\<forall>i<length js. \<forall>j<length js. slot_of (pcs ! i) \<noteq> None \<and> slot_of (pcs ! i) = slot_of (pcs ! j) \<longrightarrow> i = j) \<and>
    ((\<nexists>u. par_step cmp js (st, pcs) u) \<longrightarrow>
      at_inv cmp st \<and> at_entries st = at_entries st0 + mset (map (job_row cmp st0) js) \<and>
      (\<forall>i<length js. \<exists>it. pcs ! i = Done (Some it) \<and> at_elem st it = snd (job_row cmp st0 (js ! i))))"
proof (intro conjI impI)
  note inv = build_run(1) [OF assms(2,3)]
  show "n \<le> length js * (2 * num_slots st0 + 2)" by (rule build_run(2) [OF assms(2,3)])
  show "\<forall>i<length js. \<forall>j<length js. slot_of (pcs ! i) \<noteq> None \<and> slot_of (pcs ! i) = slot_of (pcs ! j) \<longrightarrow> i = j"
    using build_invD(4) [OF inv] by blast
  assume stuck: "\<nexists>u. par_step cmp js (st, pcs) u"
  note r = build_result [OF join_cmp_comparator [OF assms(1)] assms(2,3) stuck]
  show "at_inv cmp st" by (rule r(1))
  show "at_entries st = at_entries st0 + mset (map (job_row cmp st0) js)" by (rule r(2))
  show "\<forall>i<length js. \<exists>it. pcs ! i = Done (Some it) \<and> at_elem st it = snd (job_row cmp st0 (js ! i))" by (rule r(3))
qed

definition demo_jobs :: "job list" where
  "demo_jobs = map (\<lambda>k. InsertJob False k (kc_hash (SimpleKeyComparator xxh_demo 1) k)) [[5, 9], [5, 8]]"

lemma demo_build: "build_pre (SimpleKeyComparator xxh_demo 1) demo_join demo_jobs" "join_cmp xxh_demo undefined 1 (SimpleKeyComparator xxh_demo 1)"
  using demo_join_inv by (auto simp: build_pre_def demo_jobs_def demo_join_def join_cmp_def)

theorem parallel_build_witness:
  "\<exists>n st pcs. par_run (SimpleKeyComparator xxh_demo 1) demo_jobs (par_start demo_join demo_jobs) n (st, pcs) \<and>
     image_mset snd (at_entries st) = {#[5, 9], [5, 8]#}"
proof -
  have "par_run (SimpleKeyComparator xxh_demo 1) demo_jobs (par_start demo_join demo_jobs) 0
      (fst (par_start demo_join demo_jobs), snd (par_start demo_join demo_jobs))" by (simp add: par_run.stop)
  from build_extends [OF demo_build(1) this] obtain m st pcs where
    r: "par_run (SimpleKeyComparator xxh_demo 1) demo_jobs (par_start demo_join demo_jobs) m (st, pcs)"
      "\<nexists>v. par_step (SimpleKeyComparator xxh_demo 1) demo_jobs (st, pcs) v" by fastforce
  from parallel_build [OF demo_build(2,1) r(1)] r(2)
  have "at_entries st = at_entries demo_join + mset (map (job_row (SimpleKeyComparator xxh_demo 1) demo_join) demo_jobs)" by blast
  then have "image_mset snd (at_entries st) = {#[5, 9], [5, 8]#}"
    using demo_join_inv(2) by (simp add: demo_jobs_def demo_join_def copied_def)
  with r(1) show ?thesis by blast
qed

text \<open>
  C18. Any number of threads run \<open>lookupDisable\<close> on the join table at once, in any
  interleaving. A row is handed to at most one of them, it is a live row of the key that the thread asked for,
  and a thread comes back empty only when every row of its key has been handed out.
\<close>
theorem parallel_disable:
  assumes "join_cmp xxh strs ks cmp" "at_inv cmp st0" "\<forall>j\<in>set js. good_disable cmp j"
    and "par_run cmp js (par_start st0 js) n (st, pcs)"
  shows "(\<forall>i<length js. \<forall>j<length js. \<forall>it. pcs ! i = Done (Some it) \<and> pcs ! j = Done (Some it) \<longrightarrow> i = j) \<and>
    (\<forall>i<length js. \<forall>it. pcs ! i = Done (Some it) \<longrightarrow>
       (\<exists>k\<le>at_mod_mask st0. it = cursor_at (sh st0) k \<and> live cmp (job_key (js ! i)) (entry_at (sh st0) k))) \<and>
    (\<forall>i<length js. pcs ! i = Done None \<longrightarrow>
       (\<forall>k\<le>at_mod_mask st0. live cmp (job_key (js ! i)) (entry_at (sh st0) k) \<longrightarrow>
          (\<exists>j<length js. pcs ! j = Done (Some (cursor_at (sh st0) k)))))"
proof -
  note c = join_cmp_comparator [OF assms(1)]
  have inv: "disable_inv cmp st0 js (st, pcs)"
    using comparator.disable_run [OF c assms(2,3,4)] comparator.disable_start [OF c assms(2)] by simp
  note D = comparator.disable_invD [OF c inv]
  have res: "\<exists>k\<le>at_mod_mask st0. it = cursor_at (sh st0) k \<and> live cmp (job_key (js ! i)) (entry_at (sh st0) k)"
    if "i < length js" "pcs ! i = Done (Some it)" for i it
    using D(4) [OF that(1)] that(2) by (auto simp: hits_def)
  have none: "\<exists>j<length js. pcs ! j = Done (Some (cursor_at (sh st0) k))"
    if i: "i < length js" "pcs ! i = Done None" "k \<le> at_mod_mask st0" "live cmp (job_key (js ! i)) (entry_at (sh st0) k)" for i k
  proof (rule ccontr)
    assume "\<not> ?thesis"
    then have "at_tags st ! k = at_tags st0 ! k" using D(6) [OF i(3)] by blast
    moreover have "slot_at (sh st) k = slot_at (sh st0) k" using D(1,2) by (simp add: slot_at_def same_shape_def)
    ultimately have "hits cmp st (js ! i) k" using i(4) by (simp add: hits_def entry_at_def)
    then show False using D(4) [OF i(1)] i(2,3) by simp
  qed
  show ?thesis using D(5) res none by blast
qed

text \<open>
  Two threads ask for the key 5 of a table with one row of it. Both find the row and compare it; the first wins the exchange of the tag, and
  the second walks on to the free slot.
\<close>

theorem parallel_disable_witness:
  "\<exists>js st. js = replicate 2 (DisableJob [5] (kc_hash (SimpleKeyComparator xxh_demo 1) [5])) \<and>
     par_run (SimpleKeyComparator xxh_demo 1) js (par_start demo_marked js) 8 (st, [Done (Some (cursor_at (sh demo_marked) 2)), Done None]) \<and>
     live (SimpleKeyComparator xxh_demo 1) [5] (entry_at (sh demo_marked) 2)"
proof -
  let ?cmp = "SimpleKeyComparator xxh_demo 1"
  let ?j = "DisableJob [5] (kc_hash ?cmp [5])"
  let ?js = "[?j, ?j]"
  let ?c = "\<lambda>i. \<lparr> cur_idx = i, cur_elem = i * 2, cur_tag = i \<rparr>"
  let ?t = "demo_marked\<lparr> at_tags := [0, 0, 0xF0, 0xDB] \<rparr>"
  have h: "tag_fill_mask OR hash_tag (kc_hash ?cmp [5]) = 0x8F" using demo_tags(1) by (simp add: new_tag_def)
  have start: "at_start demo_marked (kc_hash ?cmp [5]) = ?c 2"
    by (simp add: at_start_def SimpleKeyComparator_def xxh_demo_def)
  have load: "job_step ?cmp ?j demo_marked (Loading (?c 2)) = Some (demo_marked, Comparing (?c 2))"
    using h by (simp add: at_load_def tag_masks)
  have compare: "job_step ?cmp ?j demo_marked (Comparing (?c 2)) = Some (demo_marked, Swapping (?c 2) 0x8F)"
    by (simp add: h demo_cmp_simps at_elem_def mem_read_def)
  have win: "job_step ?cmp ?j demo_marked (Swapping (?c 2) 0x8F) = Some (?t, Done (Some (?c 2)))"
    using h by (simp add: cas_def at_load_def at_store_def tag_masks)
  have lose: "job_step ?cmp ?j ?t (Swapping (?c 2) 0x8F) = Some (?t, Loading (?c 3))"
    by (simp add: h cas_def at_load_def itAdvance_def)
  have walk: "job_step ?cmp ?j ?t (Loading (?c 3)) = Some (?t, Loading (?c 0))"
    using h by (simp add: at_load_def itAdvance_def tag_masks)
  have miss: "job_step ?cmp ?j ?t (Loading (?c 0)) = Some (?t, Done None)"
    by (simp add: at_load_def)
  note act0 = par_step.act [of 0 ?js ?cmp] and act1 = par_step.act [of 1 ?js ?cmp]
  have 1: "par_step ?cmp ?js (demo_marked, [Loading (?c 2), Loading (?c 2)]) (demo_marked, [Comparing (?c 2), Loading (?c 2)])"
    using act0 [of demo_marked "[Loading (?c 2), Loading (?c 2)]"] load by simp
  have 2: "par_step ?cmp ?js (demo_marked, [Comparing (?c 2), Loading (?c 2)]) (demo_marked, [Comparing (?c 2), Comparing (?c 2)])"
    using act1 [of demo_marked "[Comparing (?c 2), Loading (?c 2)]"] load by simp
  have 3: "par_step ?cmp ?js (demo_marked, [Comparing (?c 2), Comparing (?c 2)]) (demo_marked, [Swapping (?c 2) 0x8F, Comparing (?c 2)])"
    using act0 [of demo_marked "[Comparing (?c 2), Comparing (?c 2)]"] compare by simp
  have 4: "par_step ?cmp ?js (demo_marked, [Swapping (?c 2) 0x8F, Comparing (?c 2)]) (demo_marked, [Swapping (?c 2) 0x8F, Swapping (?c 2) 0x8F])"
    using act1 [of demo_marked "[Swapping (?c 2) 0x8F, Comparing (?c 2)]"] compare by simp
  have 5: "par_step ?cmp ?js (demo_marked, [Swapping (?c 2) 0x8F, Swapping (?c 2) 0x8F]) (?t, [Done (Some (?c 2)), Swapping (?c 2) 0x8F])"
    using act0 [of demo_marked "[Swapping (?c 2) 0x8F, Swapping (?c 2) 0x8F]"] win by simp
  have 6: "par_step ?cmp ?js (?t, [Done (Some (?c 2)), Swapping (?c 2) 0x8F]) (?t, [Done (Some (?c 2)), Loading (?c 3)])"
    using act1 [of ?t "[Done (Some (?c 2)), Swapping (?c 2) 0x8F]"] lose by simp
  have 7: "par_step ?cmp ?js (?t, [Done (Some (?c 2)), Loading (?c 3)]) (?t, [Done (Some (?c 2)), Loading (?c 0)])"
    using act1 [of ?t "[Done (Some (?c 2)), Loading (?c 3)]"] walk by simp
  have 8: "par_step ?cmp ?js (?t, [Done (Some (?c 2)), Loading (?c 0)]) (?t, [Done (Some (?c 2)), Done None])"
    using act1 [of ?t "[Done (Some (?c 2)), Loading (?c 0)]"] miss by simp
  have eight: "(8::nat) = Suc (Suc (Suc (Suc (Suc (Suc (Suc (Suc 0)))))))" by simp
  have "par_run ?cmp ?js (demo_marked, [Loading (?c 2), Loading (?c 2)]) 8 (?t, [Done (Some (?c 2)), Done None])"
    unfolding eight
    by (rule par_run.go [OF par_run.go [OF par_run.go [OF par_run.go [OF par_run.go [OF par_run.go [OF par_run.go [OF par_run.go
      [OF par_run.stop 1] 2] 3] 4] 5] 6] 7] 8])
  then have r: "par_run ?cmp ?js (par_start demo_marked ?js) 8 (?t, [Done (Some (?c 2)), Done None])" by (simp add: par_start_def start)
  have g: "\<forall>j\<in>set ?js. good_disable ?cmp j" by simp
  from parallel_disable [OF demo_join_cmp demo_marked_inv g r] have "live ?cmp [5] (entry_at (sh demo_marked) 2)"
    by (auto simp: cursor_at_def dest: spec [of _ "0::nat"])
  moreover have "?c 2 = cursor_at (sh demo_marked) 2" by (simp add: cursor_at_def)
  moreover have "?js = replicate 2 ?j" by (simp add: numeral_2_eq_2)
  ultimately show ?thesis using r by metis
qed

end
