(* ===== verification/Join_Build.thy ===== *)
theory Join_Build
  imports Joins Atomic_Parallel
begin

text \<open>
  The join build from end to end: the size of the table, the batches of inserts, the workers that drain the
  tuple buffers and insert concurrently, and the probe that follows.
\<close>

section \<open>The size of the table\<close>

lemma bit_len_bounds: "0 < n \<Longrightarrow> 2 ^ (bit_len n - 1) \<le> n \<and> n < 2 ^ bit_len n \<and> 0 < bit_len n"
proof (induction n rule: bit_len.induct)
  case (1 n)
  show ?case
  proof (cases "n div 2 = 0")
    case True
    with \<open>0 < n\<close> have "n = 1" by auto
    moreover have "bit_len 0 = 0" by (subst bit_len.simps) simp
    ultimately show ?thesis by (subst (1 2 3) bit_len.simps) simp
  next
    case False
    with 1 have IH: "2 ^ (bit_len (n div 2) - 1) \<le> n div 2" "n div 2 < 2 ^ bit_len (n div 2)" "0 < bit_len (n div 2)" by auto
    then obtain b where b: "bit_len (n div 2) = Suc b" by (cases "bit_len (n div 2)") auto
    have "bit_len n = Suc (Suc b)" using \<open>0 < n\<close> b by (subst bit_len.simps) simp
    with IH b show ?thesis by auto
  qed
qed

lemma bit_len_le:
  assumes "n < 2 ^ k" shows "bit_len n \<le> k"
proof (cases "n = 0")
  case True then show ?thesis by (subst bit_len.simps) simp
next
  case False
  then have "(2::nat) ^ (bit_len n - 1) \<le> n" "0 < bit_len n" using bit_len_bounds [of n] by auto
  then have "(2::nat) ^ (bit_len n - 1) < 2 ^ k" using assms by linarith
  then have "bit_len n - 1 < k" by (rule power_less_imp_less_exp [rotated]) simp
  with \<open>0 < bit_len n\<close> show ?thesis by simp
qed

text \<open>
  The join table is allocated with the smallest power of two that is at least twice the number of
  materialised rows (and at least two): the shift by the leading zeros of \<open>min_capacity - 1\<close> computes exactly that.
\<close>
theorem hash_table_slots_power:
  assumes "total_rows \<le> 2 ^ 61"
  shows "\<exists>k. hash_table_slots total_rows = 2 ^ k \<and> max 2 (2 * total_rows) \<le> 2 ^ k \<and> 2 ^ k < 2 * max 2 (2 * total_rows)"
proof -
  define m where "m = max 2 (2 * total_rows) - 1"
  have m: "0 < m" "m < 2 ^ 62" "max 2 (2 * total_rows) = Suc m" using assms by (auto simp: m_def)
  have b: "bit_len m \<le> 62" by (rule bit_len_le [OF m(2)])
  have "push_bit (bit_len m) (1 :: u64) = of_nat (2 ^ bit_len m)" by (simp add: push_bit_eq_mult)
  moreover have "(2::nat) ^ bit_len m < 2 ^ 64" using b by (intro power_strict_increasing) auto
  ultimately have "unat (push_bit (bit_len m) (1 :: u64)) = 2 ^ bit_len m"
    using b by (simp add: unsigned_of_nat take_bit_nat_eq_self_iff del: of_nat_power)
  moreover have "64 - builtin_clzl m = bit_len m" using b by (simp add: builtin_clzl_def)
  ultimately have s: "hash_table_slots total_rows = 2 ^ bit_len m" unfolding hash_table_slots_def Let_def m_def [symmetric] by simp
  obtain c where c: "bit_len m = Suc c" using bit_len_bounds [OF m(1)] by (cases "bit_len m") auto
  show ?thesis using s c m bit_len_bounds [OF m(1)] by (intro exI [of _ "bit_len m"]) auto
qed

theorem hash_table_slots_power_witness: "\<exists>k. hash_table_slots 1000 = 2 ^ k \<and> 2000 \<le> (2::nat) ^ k \<and> (2::nat) ^ k < 4000"
  using hash_table_slots_power [of 1000] by simp

lemma pot_slots: "total_rows \<le> 2 ^ 61 \<Longrightarrow> pot (hash_table_slots total_rows) \<and> 2 \<le> hash_table_slots total_rows \<and> total_rows < hash_table_slots total_rows"
  using hash_table_slots_power [of total_rows] by (auto simp: pot_def)

section \<open>The inserts of a chunk\<close>

definition tuple_insert :: "key_cmp \<Rightarrow> bytes \<Rightarrow> nat \<Rightarrow> bytes \<times> u64" where
  "tuple_insert cmp data off = (drop off data, kc_hash cmp (drop off data))"

lemma chunk_inserts_all:
  "0 < sz \<Longrightarrow> pos \<le> stop \<Longrightarrow> sz dvd stop - pos \<Longrightarrow>
   chunk_inserts cmp sz data pos stop = Returns (map (\<lambda>i. tuple_insert cmp data (pos + i * sz)) [0..<(stop - pos) div sz])"
proof (induction cmp sz data pos stop rule: chunk_inserts.induct)
  case (1 cmp sz data pos stop)
  obtain k where k: "stop - pos = k * sz" using 1(4) by (metis dvd_def mult.commute)
  show ?case
  proof (cases "pos < stop")
    case False then show ?thesis using k \<open>0 < sz\<close> by (subst chunk_inserts.simps) simp
  next
    case True
    define n where "n = min 256 k"
    have kn: "(stop - pos) div sz = k" "0 < k" using k \<open>0 < sz\<close> True by (auto intro: gr0I)
    have n: "0 < n" "n \<le> k" "0 < n * sz" using kn \<open>0 < sz\<close> by (auto simp: n_def)
    have rest: "stop - (pos + n * sz) = (k - n) * sz" using k by (simp add: diff_mult_distrib flip: diff_diff_left)
    have "n * sz \<le> k * sz" using n by simp
    then have le: "pos + n * sz \<le> stop" using k True by linarith
    have "chunk_inserts cmp sz data (pos + n * sz) stop = Returns (map (\<lambda>i. tuple_insert cmp data (pos + n * sz + i * sz)) [0..<k - n])"
      using 1(1) [OF True, of n] kn n rest le k \<open>0 < sz\<close> True by (simp add: n_def)
    moreover have "[0..<k] = [0..<n] @ map (\<lambda>i. n + i) [0..<k - n]"
      using n upt_add_eq_append [of 0 n "k - n"] map_add_upt [of n "k - n"] by (simp add: add.commute)
    ultimately show ?thesis
      using kn n True by (subst chunk_inserts.simps)
        (simp add: Let_def flip: n_def, simp add: tuple_insert_def compute_hash_and_prefetch_def add.assoc distrib_right)
  qed
qed

section \<open>The inserts of all workers\<close>

context comparator begin

lemma hash_take: "kc_len cmp \<le> n \<Longrightarrow> kc_hash cmp (take n a) = kc_hash cmp a"
proof -
  assume n: "kc_len cmp \<le> n"
  have "kc_eq cmp (take (kc_len cmp) (take n a)) (take n a)" by (rule cmp_prefix)
  then have "kc_eq cmp (take (kc_len cmp) a) (take n a)" using n by (simp add: min_absorb1)
  then have "kc_eq cmp (take n a) a" using cmp_prefix cmp_sym cmp_trans by blast
  then show ?thesis by (rule cmp_hash)
qed

end

definition pulled_inserts :: "key_cmp \<Rightarrow> nat \<Rightarrow> materializer list \<Rightarrow> nat \<times> nat \<Rightarrow> (bytes \<times> u64) list" where
  "pulled_inserts cmp sz mats hc = (case hc of (h, c) \<Rightarrow>
     let ch = chunks (mats ! h) ! c in map (\<lambda>i. tuple_insert cmp (chunk_data ch) (i * sz)) [0..<end_ptr ch div sz])"

definition good_mats :: "nat \<Rightarrow> materializer list \<Rightarrow> bool" where
  "good_mats sz mats \<longleftrightarrow> (\<forall>m\<in>set mats. mat_inv m \<and> tuple_size m = sz)"

definition all_chunks :: "materializer list \<Rightarrow> (nat \<times> nat) list" where
  "all_chunks mats = concat (map (\<lambda>h. map (Pair h) [0..<length (chunks (mats ! h))]) [0..<length mats])"

lemma all_chunks_rest: "mset (all_chunks mats) = read_handle.rest mats (replicate (length mats) 0)"
proof -
  have e: "map (\<lambda>h. map (Pair h) (unread_chunks (mats ! h) (replicate (length mats) 0 ! h))) [0..<length mats] =
      map (\<lambda>h. map (Pair h) [0..<length (chunks (mats ! h))]) [0..<length mats]"
    by (intro map_cong refl) (simp add: unread_chunks_def)
  show ?thesis unfolding all_chunks_def read_handle.rest_def e ..
qed

lemma chunk_good:
  assumes "good_mats sz mats" "(h, c) \<in> set (all_chunks mats)"
  shows "0 < sz" "sz dvd end_ptr (chunks (mats ! h) ! c)"
proof -
  have h: "h < length mats" "c < length (chunks (mats ! h))" using assms(2) by (auto simp: all_chunks_def)
  then have "mat_inv (mats ! h)" "tuple_size (mats ! h) = sz" using assms(1) by (auto simp: good_mats_def)
  then show "0 < sz" "sz dvd end_ptr (chunks (mats ! h) ! c)" using h by (auto simp: mat_inv_def)
qed

lemma worker_inserts_Returns:
  assumes "good_mats sz mats" "set (taken w) \<subseteq> set (all_chunks mats)"
  shows "worker_inserts cmp sz mats w = Returns (concat (map (pulled_inserts cmp sz mats) (taken w)))"
proof -
  have "map_outcome (\<lambda>(h, c). chunk_inserts cmp sz (chunk_data (chunks (mats ! h) ! c)) 0 (end_ptr (chunks (mats ! h) ! c))) (taken w) =
      Returns (map (pulled_inserts cmp sz mats) (taken w))"
  proof (rule map_outcome_all)
    fix x assume "x \<in> set (taken w)"
    moreover obtain h c where "x = (h, c)" by fastforce
    ultimately show "(case x of (h, c) \<Rightarrow> chunk_inserts cmp sz (chunk_data (chunks (mats ! h) ! c)) 0 (end_ptr (chunks (mats ! h) ! c))) =
        Returns (pulled_inserts cmp sz mats x)"
      using chunk_good [OF assms(1)] assms(2) chunk_inserts_all [of sz 0 "end_ptr (chunks (mats ! h) ! c)" cmp "chunk_data (chunks (mats ! h) ! c)"]
      by (auto simp: pulled_inserts_def Let_def)
  qed
  then show ?thesis by (simp add: worker_inserts_def)
qed

text \<open>The tuples of the inserts of a chunk are its rows.\<close>

definition row_of :: "nat \<Rightarrow> bytes \<times> u64 \<Rightarrow> bytes" where "row_of sz i = take sz (fst i)"

lemma pulled_rows: "map (row_of sz) (pulled_inserts cmp sz mats (h, c)) = chunk_rows sz (chunks (mats ! h) ! c)"
  by (simp add: pulled_inserts_def Let_def chunk_rows_def row_of_def tuple_insert_def mem_read_def comp_def)

lemma concat_map_concat: "concat (map g (concat (map f hs))) = concat (map (\<lambda>h. concat (map g (f h))) hs)"
  by (induction hs) auto

lemma all_chunk_rows:
  assumes "good_mats sz mats"
  shows "concat (map (\<lambda>(h, c). chunk_rows sz (chunks (mats ! h) ! c)) (all_chunks mats)) = concat (map mat_rows mats)"
proof -
  have "concat (map (\<lambda>(h, c). chunk_rows sz (chunks (mats ! h) ! c)) (map (Pair h) [0..<length (chunks (mats ! h))])) = mat_rows (mats ! h)"
    if "h < length mats" for h
  proof -
    have "tuple_size (mats ! h) = sz" using assms that by (auto simp: good_mats_def)
    moreover have "map (\<lambda>c. chunk_rows sz (chunks (mats ! h) ! c)) [0..<length (chunks (mats ! h))] = map (chunk_rows sz) (chunks (mats ! h))"
      by (rule nth_equalityI) auto
    ultimately show ?thesis by (simp add: mat_rows_def comp_def)
  qed
  then have "map (\<lambda>h. concat (map (\<lambda>(h, c). chunk_rows sz (chunks (mats ! h) ! c)) (map (Pair h) [0..<length (chunks (mats ! h))]))) [0..<length mats] =
      map (\<lambda>h. mat_rows (mats ! h)) [0..<length mats]" by (intro map_cong refl) auto
  also have "\<dots> = map mat_rows mats" by (rule nth_equalityI) auto
  finally show ?thesis by (simp only: all_chunks_def concat_map_concat)
qed

section \<open>Building and probing\<close>

definition insert_jobs :: "(bytes \<times> u64) list \<Rightarrow> job list" where
  "insert_jobs ls = map (\<lambda>(tuple, hash). InsertJob False tuple hash) ls"

lemma pulled_good:
  assumes "good_mats sz mats" "(h, c) \<in> set (all_chunks mats)" "x \<in> set (pulled_inserts cmp sz mats (h, c))"
  shows "snd x = kc_hash cmp (fst x)" "sz \<le> length (fst x)"
proof -
  let ?ch = "chunks (mats ! h) ! c"
  have h: "h < length mats" "c < length (chunks (mats ! h))" using assms(2) by (auto simp: all_chunks_def)
  then have "mat_inv (mats ! h)" using assms(1) by (auto simp: good_mats_def)
  then have len: "end_ptr ?ch \<le> length (chunk_data ?ch)" using h by (auto simp: mat_inv_def)
  from assms(3) obtain i where i: "i < end_ptr ?ch div sz" "x = tuple_insert cmp (chunk_data ?ch) (i * sz)"
    by (auto simp: pulled_inserts_def Let_def)
  have "i * sz + sz \<le> end_ptr ?ch" using slot_in_range [OF i(1), of sz] by (metis div_times_less_eq_dividend le_trans)
  with len i(2) show "snd x = kc_hash cmp (fst x)" "sz \<le> length (fst x)" by (simp_all add: tuple_insert_def)
qed

lemma job_row_of:
  assumes "comparator cmp" "kc_len cmp \<le> sz" "at_slot_size st0 = sz" "snd x = kc_hash cmp (fst x)" "sz \<le> length (fst x)"
  shows "job_row cmp st0 (InsertJob False (fst x) (snd x)) = (new_tag (kc_hash cmp (row_of sz x)), row_of sz x)"
  using comparator.hash_take [OF assms(1,2), of "fst x"] assms(3-) by (simp add: copied_def row_of_def)

lemma unat_u16: "n < 65536 \<Longrightarrow> unat (of_nat n :: u16) = n"
  by (simp add: unsigned_of_nat take_bit_nat_eq_self_iff)

lemma AtomicHashTable_Returns:
  assumes "pot slots" "2 \<le> slots" "sz < 65536"
  shows "\<exists>st. AtomicHashTable (of_nat sz) slots = Returns st \<and> at_slot_size st = sz \<and> num_slots st = slots"
proof -
  have "slots AND (slots - 1) = 0" using and_pred_zero_iff_pot [of slots] assms by simp
  moreover have "unat (of_nat sz :: u16) = sz" by (rule unat_u16 [OF assms(3)])
  ultimately show ?thesis using assms(2) by (simp add: AtomicHashTable_def)
qed

text \<open>The thread filled its materializer with the tuples, in this order.\<close>

definition materialized :: "nat \<Rightarrow> bytes list \<Rightarrow> materializer \<Rightarrow> bool" where
  "materialized sz ts m \<longleftrightarrow> (\<exists>m0. TupleMaterializer sz = Returns m0 \<and> m = foldl add_tuple m0 ts) \<and> (\<forall>t\<in>set ts. length t = sz)"

lemma materialized_mats:
  assumes "0 < sz" "sz \<le> REGION_SIZE" "list_all2 (materialized sz) tss mats"
  shows "good_mats sz mats" "map mat_rows mats = tss"
proof -
  have "mat_inv m \<and> tuple_size m = sz \<and> mat_rows m = ts" if "materialized sz ts m" for ts m
    using that add_tuples [OF assms(1,2)] by (auto simp: materialized_def)
  with assms(3) have "list_all2 (\<lambda>ts m. mat_inv m \<and> tuple_size m = sz \<and> mat_rows m = ts) tss mats"
    by (auto elim: list_all2_mono)
  then show "good_mats sz mats" "map mat_rows mats = tss"
    by (auto simp: good_mats_def list_all2_conv_all_nth in_set_conv_nth intro: nth_equalityI)
qed

text \<open>The workers of a finished drain make one insert per materialised row.\<close>

lemma drained_inserts:
  assumes good: "good_mats sz mats" and sched: "\<forall>i\<in>set sched. i < n" "0 < n"
    and run: "drain_run pullChunk mats sched (drain_start (replicate (length mats) 0) n) = (offs, ws)" "drained mats ws"
  shows "\<exists>ins. map_outcome (worker_inserts cmp sz mats) ws = Returns ins \<and>
    mset (map (row_of sz) (concat ins)) = mset (concat (map mat_rows mats)) \<and>
    (\<forall>x\<in>set (concat ins). snd x = kc_hash cmp (fst x) \<and> sz \<le> length (fst x))"
proof (intro exI conjI)
  let ?f = "\<lambda>w. concat (map (pulled_inserts cmp sz mats) (taken w))"
  have all: "mset (all_taken ws) = mset (all_chunks mats)"
    using read_handle.run_complete [OF _ sched(1) run sched(2)] by (simp add: all_chunks_rest)
  then have sub: "set (taken w) \<subseteq> set (all_chunks mats)" if "w \<in> set ws" for w
    using that mset_eq_setD [OF all] by (auto simp: all_taken_def)
  show "map_outcome (worker_inserts cmp sz mats) ws = Returns (map ?f ws)"
    by (intro map_outcome_all worker_inserts_Returns [OF good] sub)
  have flat: "concat (map ?f ws) = concat (map (pulled_inserts cmp sz mats) (all_taken ws))"
    by (simp only: all_taken_def concat_map_concat)
  have rows: "map (row_of sz) (concat (map (pulled_inserts cmp sz mats) xs)) = concat (map (\<lambda>(h, c). chunk_rows sz (chunks (mats ! h) ! c)) xs)" for xs
    by (induction xs) (auto simp: pulled_rows)
  show "mset (map (row_of sz) (concat (map ?f ws))) = mset (concat (map mat_rows mats))"
    unfolding flat rows all_chunk_rows [OF good, symmetric] mset_concat_map all ..
  show "\<forall>x\<in>set (concat (map ?f ws)). snd x = kc_hash cmp (fst x) \<and> sz \<le> length (fst x)"
  proof
    fix x assume "x \<in> set (concat (map ?f ws))"
    then obtain hc where hc: "hc \<in> set (all_taken ws)" "x \<in> set (pulled_inserts cmp sz mats hc)" unfolding flat by auto
    obtain h c where "hc = (h, c)" by fastforce
    with hc mset_eq_setD [OF all] pulled_good [OF good] show "snd x = kc_hash cmp (fst x) \<and> sz \<le> length (fst x)" by auto
  qed
qed

lemma mset_map_eq: "mset xs = mset ys \<Longrightarrow> mset (map f xs) = mset (map f ys)"
  by simp

lemma build_from_mats:
  assumes sz: "0 < sz" "sz \<le> REGION_SIZE" and ks: "ks \<le> sz" and mats: "list_all2 (materialized sz) tss mats"
    and few: "length (concat tss) \<le> 2 ^ 61" and cmp: "cmp = SimpleKeyComparator xxh (of_nat ks)"
    and ins: "mset (map (row_of sz) (concat ins)) = mset (concat tss)"
    "\<forall>x\<in>set (concat ins). snd x = kc_hash cmp (fst x) \<and> sz \<le> length (fst x)"
  shows "\<exists>st0. allocHashTable sz mats = Returns st0 \<and> build_pre cmp st0 (insert_jobs (concat ins)) \<and>
    size (concat tss) < num_slots st0 \<and> at_entries st0 = {#} \<and>
    mset (map (job_row cmp st0) (insert_jobs (concat ins))) = mset (map (\<lambda>t. (new_tag (kc_hash cmp t), t)) (concat tss))"
proof -
  have total: "sum_list (map getNumTuples mats) = length (concat tss)"
    by (simp add: length_concat comp_def getNumTuples_rows [abs_def] flip: materialized_mats(2) [OF sz mats])
  have small: "sz < 65536" "ks < 65536" using sz ks by (auto simp: REGION_SIZE_def)
  obtain st0 where st0: "AtomicHashTable (of_nat sz) (hash_table_slots (length (concat tss))) = Returns st0"
      "at_slot_size st0 = sz" "num_slots st0 = hash_table_slots (length (concat tss))"
    using AtomicHashTable_Returns pot_slots [OF few] small(1) by blast
  have kc: "kc_len cmp = ks" using small(2) by (simp add: cmp SimpleKeyComparator_def unat_u16)
  have c: "comparator cmp" unfolding cmp by (rule simple_cmp.comparator_axioms)
  have "kc_len cmp \<le> unat (of_nat sz :: u16)" using kc ks small(1) by (simp add: unat_u16)
  then have inv: "at_inv cmp st0" "at_entries st0 = {#}" using at_constructor_inv [OF st0(1)] by auto
  have rows: "map (job_row cmp st0) (insert_jobs (concat ins)) = map (\<lambda>t. (new_tag (kc_hash cmp t), t)) (map (row_of sz) (concat ins))"
    unfolding insert_jobs_def map_map
  proof (rule map_cong [OF refl])
    fix x assume "x \<in> set (concat ins)"
    then have x: "snd x = kc_hash cmp (fst x)" "sz \<le> length (fst x)" using ins(2) by blast+
    have "kc_len cmp \<le> sz" using kc ks by simp
    from job_row_of [OF c this st0(2) x]
    show "(job_row cmp st0 \<circ> (\<lambda>(tuple, hash). InsertJob False tuple hash)) x = ((\<lambda>t. (new_tag (kc_hash cmp t), t)) \<circ> row_of sz) x"
      by (simp add: split_beta del: job_row.simps)
  qed
  have len: "length (concat ins) = length (concat tss)" using ins(1) by (metis mset_eq_length length_map)
  have "build_pre cmp st0 (insert_jobs (concat ins))"
  proof -
    have "good_insert cmp st0 j" if j: "j \<in> set (insert_jobs (concat ins))" for j
    proof -
      obtain x where x: "x \<in> set (concat ins)" "j = InsertJob False (fst x) (snd x)"
        using j unfolding insert_jobs_def split_beta by (auto simp del: set_concat)
      with ins(2) have "snd x = kc_hash cmp (fst x)" "sz \<le> length (fst x)" by blast+
      with x(2) st0(2) show ?thesis by simp
    qed
    with inv pot_slots [OF few] st0(3) len show ?thesis by (simp add: build_pre_def insert_jobs_def)
  qed
  moreover have "allocHashTable sz mats = Returns st0" using st0(1) by (simp add: allocHashTable_def total)
  moreover have "length (concat tss) < num_slots st0" using pot_slots [OF few] st0(3) by simp
  moreover have "mset (map (job_row cmp st0) (insert_jobs (concat ins))) = mset (map (\<lambda>t. (new_tag (kc_hash cmp t), t)) (concat tss))"
    unfolding rows by (rule mset_map_eq [OF ins(1)])
  ultimately show ?thesis using inv(2) by blast
qed

lemma probe_result:
  assumes c: "comparator cmp" and inv: "at_inv cmp st" and e: "at_entries st = mset (map (\<lambda>t. (new_tag (kc_hash cmp t), t)) ts)"
    and room: "size (at_entries st) < num_slots st"
  shows "\<exists>r. at_lookup_key cmp st key = Returns r \<and>
    (case r of None \<Rightarrow> \<forall>t\<in>set ts. \<not> kc_eq cmp key t | Some off \<Rightarrow> at_slot st off \<in> set ts \<and> kc_eq cmp key (at_slot st off))"
proof -
  have mem: "(g, t) \<in># at_entries st \<longleftrightarrow> t \<in> set ts \<and> g = new_tag (kc_hash cmp t)" for g t by (auto simp: e)
  from comparator.at_lookup_spec [OF c inv room, of key] obtain v where v: "at_lookup_key cmp st key = Returns v"
    "case v of None \<Rightarrow> \<forall>e\<in>#at_entries st. \<not> live cmp key e
       | Some off \<Rightarrow> (new_tag (kc_hash cmp key), at_slot st off) \<in># at_entries st \<and> kc_eq cmp key (at_slot st off)"
    by (auto simp: at_lookup_key_def)
  have "\<not> kc_eq cmp key t" if "v = None" "t \<in> set ts" for t
  proof -
    have "(new_tag (kc_hash cmp t), t) \<in># at_entries st" using that(2) by (simp add: mem)
    with v(2) that(1) have "\<not> live cmp key (new_tag (kc_hash cmp t), t)" by auto
    then show ?thesis using comparator.cmp_hash [OF c, of key t] by (auto simp: live_def)
  qed
  with v show ?thesis by (intro exI [of _ v]) (auto simp: mem split: option.splits)
qed

text \<open>
  C30. The join build from end to end. The threads of the build pipeline materialised their tuples; the task
  allocates the table and any number of workers drain the tuple buffers and insert, in any interleaving of their
  pulls and of the atomic actions of their inserts. Once no worker can move, the table holds each tuple exactly once,
  and probing any key finds a tuple with that key if and only if one was materialised.
\<close>
theorem join_build_and_probe:
  assumes "0 < sz" "sz \<le> REGION_SIZE" "ks \<le> sz" "list_all2 (materialized sz) tss mats" "length (concat tss) \<le> 2 ^ 61"
    and "cmp = SimpleKeyComparator xxh (of_nat ks)" "0 < n" "\<forall>i\<in>set sched. i < n"
    and "drain_run pullChunk mats sched (drain_start (replicate (length mats) 0) n) = (offs, ws)" "drained mats ws"
  shows "\<exists>st0 ins. allocHashTable sz mats = Returns st0 \<and> map_outcome (worker_inserts cmp sz mats) ws = Returns ins \<and>
    (\<forall>k st pcs. par_run cmp (insert_jobs (concat ins)) (par_start st0 (insert_jobs (concat ins))) k (st, pcs) \<and>
        (\<nexists>u. par_step cmp (insert_jobs (concat ins)) (st, pcs) u) \<longrightarrow>
      at_entries st = mset (map (\<lambda>t. (new_tag (kc_hash cmp t), t)) (concat tss)) \<and>
      (\<forall>key. \<exists>r. at_lookup_key cmp st key = Returns r \<and>
        (case r of None \<Rightarrow> \<forall>t\<in>set (concat tss). take ks key \<noteq> take ks t
         | Some off \<Rightarrow> at_slot st off \<in> set (concat tss) \<and> take ks key = take ks (at_slot st off))))"
proof -
  note good = materialized_mats [OF assms(1,2,4)]
  obtain ins where ins: "map_outcome (worker_inserts cmp sz mats) ws = Returns ins"
      "mset (map (row_of sz) (concat ins)) = mset (concat tss)"
      "\<forall>x\<in>set (concat ins). snd x = kc_hash cmp (fst x) \<and> sz \<le> length (fst x)"
    using drained_inserts [OF good(1) assms(8,7,9,10), of cmp] unfolding good(2) by blast
  obtain st0 where st0: "allocHashTable sz mats = Returns st0" "build_pre cmp st0 (insert_jobs (concat ins))"
      "length (concat tss) < num_slots st0" "at_entries st0 = {#}"
      "mset (map (job_row cmp st0) (insert_jobs (concat ins))) = mset (map (\<lambda>t. (new_tag (kc_hash cmp t), t)) (concat tss))"
    using build_from_mats [OF assms(1,2,3,4,5,6) ins(2,3)] by auto
  have c: "comparator cmp" unfolding assms(6) by (rule simple_cmp.comparator_axioms)
  have "ks < 65536" using assms(2,3) by (simp add: REGION_SIZE_def)
  then have eq: "kc_eq cmp a b \<longleftrightarrow> take ks a = take ks b" for a b by (simp add: assms(6) SimpleKeyComparator_def unat_u16)
  have "at_entries st = mset (map (\<lambda>t. (new_tag (kc_hash cmp t), t)) (concat tss)) \<and>
      (\<forall>key. \<exists>r. at_lookup_key cmp st key = Returns r \<and>
        (case r of None \<Rightarrow> \<forall>t\<in>set (concat tss). take ks key \<noteq> take ks t
         | Some off \<Rightarrow> at_slot st off \<in> set (concat tss) \<and> take ks key = take ks (at_slot st off)))"
    if run: "par_run cmp (insert_jobs (concat ins)) (par_start st0 (insert_jobs (concat ins))) k (st, pcs)"
      "\<nexists>u. par_step cmp (insert_jobs (concat ins)) (st, pcs) u" for k st pcs
  proof -
    note r = build_result [OF c st0(2) run]
    have e: "at_entries st = mset (map (\<lambda>t. (new_tag (kc_hash cmp t), t)) (concat tss))" using r(2) st0(4,5) by simp
    then have "size (at_entries st) < num_slots st" using st0(3) r(4) by (simp add: same_shape_def)
    with probe_result [OF c r(1) e] e show ?thesis unfolding eq by blast
  qed
  with st0(1) ins(1) show ?thesis by blast
qed

definition demo_mat :: materializer where
  "demo_mat = add_tuple (allocNewChunk \<lparr> tuple_size = 2, chunks = [] \<rparr>) [5, 9]"

lemma demo_mat: "materialized 2 [[5, 9]] demo_mat" "length (chunks demo_mat) = 1"
proof -
  have r: "\<not> REGION_SIZE < 2" "\<not> REGION_SIZE \<le> 2" by (simp_all add: REGION_SIZE_def)
  show "materialized 2 [[5, 9]] demo_mat" using r by (simp add: materialized_def TupleMaterializer_def demo_mat_def)
  show "length (chunks demo_mat) = 1" using r
    by (simp add: demo_mat_def add_tuple_def materialize_def mat_write_def allocNewChunk_def Let_def)
qed

theorem join_build_and_probe_witness:
  "\<exists>st. at_entries st = {# (new_tag (kc_hash (SimpleKeyComparator xxh_demo 1) [5, 9]), [5, 9]) #} \<and>
     (\<exists>off. at_lookup_key (SimpleKeyComparator xxh_demo 1) st [5] = Returns (Some off) \<and> at_slot st off = [5, 9])"
proof -
  let ?cmp = "SimpleKeyComparator xxh_demo 1"
  let ?ws = "[\<lparr> at_source = 1, taken = [(0::nat, 0::nat)] \<rparr>]"
  have run: "drain_run pullChunk [demo_mat] [0, 0] (drain_start (replicate (length [demo_mat]) 0) 1) = ([2], ?ws)"
    by (simp add: drain_run_def drain_start_def drain_step_def pullChunk_def demo_mat(2))
  have p: "0 < (2::nat)" "2 \<le> REGION_SIZE" "(1::nat) \<le> 2" "list_all2 (materialized 2) [[[5, 9]]] [demo_mat]"
    "length (concat [[[5::u8, 9]]]) \<le> 2 ^ 61" "?cmp = SimpleKeyComparator xxh_demo (of_nat 1)" "0 < (1::nat)" "\<forall>i\<in>set [0, 0]. i < (1::nat)"
    "drained [demo_mat] ?ws" using demo_mat(1) by (simp_all add: REGION_SIZE_def drained_def)
  from join_build_and_probe [OF p(1-8) run p(9)] obtain st0 ins where
    all: "\<And>k st pcs. par_run ?cmp (insert_jobs (concat ins)) (par_start st0 (insert_jobs (concat ins))) k (st, pcs) \<Longrightarrow>
        \<nexists>u. par_step ?cmp (insert_jobs (concat ins)) (st, pcs) u \<Longrightarrow>
      at_entries st = mset (map (\<lambda>t. (new_tag (kc_hash ?cmp t), t)) (concat [[[5, 9]]])) \<and>
      (\<forall>key. \<exists>r. at_lookup_key ?cmp st key = Returns r \<and>
        (case r of None \<Rightarrow> \<forall>t\<in>set (concat [[[5, 9]]]). take 1 key \<noteq> take 1 t
         | Some off \<Rightarrow> at_slot st off \<in> set (concat [[[5, 9]]]) \<and> take 1 key = take 1 (at_slot st off)))"
    and st0: "allocHashTable 2 [demo_mat] = Returns st0" "map_outcome (worker_inserts ?cmp 2 [demo_mat]) ?ws = Returns ins" by blast
  obtain ins' where ins': "map_outcome (worker_inserts ?cmp 2 [demo_mat]) ?ws = Returns ins'"
      "mset (map (row_of 2) (concat ins')) = mset (concat (map mat_rows [demo_mat]))"
      "\<forall>x\<in>set (concat ins'). snd x = kc_hash ?cmp (fst x) \<and> 2 \<le> length (fst x)"
    using drained_inserts [OF materialized_mats(1) [OF p(1,2,4)] p(8,7) run p(9), of ?cmp] by blast
  then have "mset (map (row_of 2) (concat ins)) = mset (concat [[[5, 9]]])" "\<forall>x\<in>set (concat ins). snd x = kc_hash ?cmp (fst x) \<and> 2 \<le> length (fst x)"
    using st0(2) materialized_mats(2) [OF p(1,2,4)] by simp_all
  from build_from_mats [OF p(1-6) this] st0(1) have pre: "build_pre ?cmp st0 (insert_jobs (concat ins))" by auto
  from build_extends [OF pre, of 0] obtain m st pcs where r: "par_run ?cmp (insert_jobs (concat ins)) (par_start st0 (insert_jobs (concat ins))) m (st, pcs)"
      "\<nexists>u. par_step ?cmp (insert_jobs (concat ins)) (st, pcs) u"
    by (metis par_run.stop surj_pair)
  from all [OF r] show ?thesis by (intro exI [of _ st]) (force split: option.splits)
qed

end
