(* ===== verification/Merging.thy ===== *)
theory Merging
  imports HashTable_Direct Aggregation_Props
begin

text \<open>
  Merging the tables of a parallel aggregation (\<open>algebra/AggregationMerger.{h,cpp}\<close>). Every thread has aggregated into a
  table of its own. The runtime task behind the pipeline gives every thread a new table; a thread walks over
  all old tables, takes the groups whose hash falls to it, and adds their granules to those of its own groups.

  The template parameter \<open>HashTableType\<close> is a pair of a \<open>key_cmp\<close> and a \<open>buildMergeTables\<close>. A granule is a run of little-endian bytes;
  integers are added modulo their width, and the addition of two \<open>n\<close> byte floating point numbers is the parameter \<open>fadd n\<close>.
  The threads write to tables of their own and only read the old ones, so the result is given per thread.
\<close>

section \<open>The merge primitives\<close>

fun le_value :: "bytes \<Rightarrow> nat" where
  "le_value [] = 0"
| "le_value (b # bs) = unat b + 256 * le_value bs"

fun le_bytes :: "nat \<Rightarrow> nat \<Rightarrow> bytes" where
  "le_bytes 0 v = []"
| "le_bytes (Suc n) v = of_nat v # le_bytes n (v div 256)"

definition add_int :: "nat \<Rightarrow> bytes \<Rightarrow> bytes \<Rightarrow> bytes" where
  "add_int n dest src = le_bytes n (le_value dest + le_value src)"

text \<open>The dispatch in \<open>mergeSingleTable\<close>: how many bytes are added, and how.\<close>

definition merge_prim :: "(nat \<Rightarrow> bytes \<Rightarrow> bytes \<Rightarrow> bytes) \<Rightarrow> iu \<times> agg_state \<Rightarrow> (nat \<times> (bytes \<Rightarrow> bytes \<Rightarrow> bytes)) outcome" where
  "merge_prim fadd = (\<lambda>(agg_iu, agg_state).
     let agg_type = type_id (iu_type agg_iu) in
     if agg_type = ''UI4'' then Returns (4, add_int 4)
     else if agg_type = ''UI8'' then Returns (8, add_int 8)
     else if agg_type = ''I4'' then Returns (4, add_int 4)
     else if agg_type = ''I8'' then Returns (8, add_int 8)
     else if agg_type = ''F4'' then Returns (4, fadd 4)
     else if agg_type = ''F8'' then Returns (8, fadd 8)
     else if agg_state_id agg_state = ''agg_state_count'' then Returns (8, add_int 8)
     else Throws ''Unsupported merge type for aggregate hash table'')"

text \<open>
  \<open>mergeSum\<close> over the pairs of a pointer into the old table and one into the new table. A write through a
  pointer into a block that has been freed is undefined behaviour, here an error.
\<close>

fun mergeSum :: "nat \<Rightarrow> (bytes \<Rightarrow> bytes \<Rightarrow> bytes) \<Rightarrow> shared_ht \<Rightarrow> (nat \<times> ptr) list \<Rightarrow> nat \<Rightarrow> shared_ht \<Rightarrow> shared_ht outcome" where
  "mergeSum w op src [] offset target = Returns target"
| "mergeSum w op src ((first, second) # pairs) offset target =
     (if fst second \<noteq> data_block target then Throws ''undefined behaviour: write to a freed block''
      else mergeSum w op src pairs offset
        (ht_store (snd second + offset)
          (op (mem_read (snd second + offset) w (ht_data target)) (mem_read (first + offset) w (ht_data src))) target))"

fun merge_granules ::
  "(nat \<Rightarrow> bytes \<Rightarrow> bytes \<Rightarrow> bytes) \<Rightarrow> shared_ht \<Rightarrow> (nat \<times> ptr) list \<Rightarrow> nat \<Rightarrow> (iu \<times> agg_state) list \<Rightarrow> shared_ht \<Rightarrow> shared_ht outcome" where
  "merge_granules fadd src pairs curr_offset [] target = Returns target"
| "merge_granules fadd src pairs curr_offset (g # gs) target =
     obind (merge_prim fadd g) (\<lambda>(w, op). obind (mergeSum w op src pairs curr_offset target)
       (merge_granules fadd src pairs (curr_offset + getStateSize (snd g)) gs))"

section \<open>Merging one table\<close>

text \<open>The inner loop over what is left of the scan of the old table.\<close>

fun collect_pairs ::
  "key_cmp \<Rightarrow> nat \<Rightarrow> nat \<Rightarrow> shared_ht \<Rightarrow> nat list \<Rightarrow> (nat \<times> ptr) list \<Rightarrow> shared_ht \<times> bool option \<Rightarrow>
   ((nat \<times> ptr) list \<times> (shared_ht \<times> bool option)) outcome" where
  "collect_pairs kc n thread_id src [] pairs s = Returns (pairs, s)"
| "collect_pairs kc n thread_id src (d # ds) pairs s =
     (let key = mem_read d (kc_len kc) (ht_data src) in
      if unat (kc_hash kc key) mod n = thread_id
      then obind (ht_lookupOrInsert1 kc s key) (\<lambda>(p, s'). collect_pairs kc n thread_id src ds (pairs @ [(d, p)]) s')
      else collect_pairs kc n thread_id src ds pairs s)"

text \<open>
  The loop around it: when the restart flag was raised it runs once more with the iterator at its end, so with nothing left,
  and the flag stays down.
\<close>

definition collect_rounds :: "key_cmp \<Rightarrow> nat \<Rightarrow> nat \<Rightarrow> shared_ht \<Rightarrow> nat list \<Rightarrow> shared_ht \<Rightarrow> ((nat \<times> ptr) list \<times> shared_ht) outcome" where
  "collect_rounds kc n thread_id src ds target =
     obind (collect_pairs kc n thread_id src ds [] (target, Some False)) (\<lambda>(pairs, (t, flag)).
       if flag = Some True
       then obind (collect_pairs kc n thread_id src [] pairs (t, Some False)) (\<lambda>(pairs', (t', flag')). Returns (pairs', t'))
       else Returns (pairs, t))"

definition mergeSingleTable ::
  "key_cmp \<Rightarrow> (nat \<Rightarrow> bytes \<Rightarrow> bytes \<Rightarrow> bytes) \<Rightarrow> agg_plan \<Rightarrow> nat \<Rightarrow> nat \<Rightarrow> shared_ht \<Rightarrow> shared_ht \<Rightarrow> shared_ht outcome" where
  "mergeSingleTable kc fadd agg n thread_id src target =
     obind (from_loop (scan_table src)) (\<lambda>ds. obind (collect_rounds kc n thread_id src ds target)
       (\<lambda>(pairs, t). merge_granules fadd src pairs (key_size agg + payload_offset agg) (granules agg) t))"

section \<open>The merger\<close>

datatype merge_strategy = NoMergeRequired | MultiThreaded

record merger =
  pre_merge :: "shared_ht list"
  rt_tables :: "shared_ht list"
  total_threads :: nat
  strategy :: merge_strategy

definition prepareState :: "(shared_ht list \<Rightarrow> nat \<Rightarrow> shared_ht list outcome) \<Rightarrow> nat \<Rightarrow> merger \<Rightarrow> merger outcome" where
  "prepareState buildMergeTables num_threads m =
     (if num_threads = 1 then Returns (m\<lparr> strategy := NoMergeRequired \<rparr>)
      else obind (buildMergeTables (rt_tables m) num_threads) (\<lambda>merged.
        Returns \<lparr> pre_merge = rt_tables m, rt_tables = merged, total_threads = num_threads, strategy = MultiThreaded \<rparr>))"

fun merge_all :: "('a \<Rightarrow> 'b \<Rightarrow> 'b outcome) \<Rightarrow> 'a list \<Rightarrow> 'b \<Rightarrow> 'b outcome" where
  "merge_all f [] t = Returns t"
| "merge_all f (src # srcs) t = obind (f src t) (merge_all f srcs)"

text \<open>The table of a thread after \<open>mergeTables\<close>.\<close>

definition mergeTables ::
  "key_cmp \<Rightarrow> (nat \<Rightarrow> bytes \<Rightarrow> bytes \<Rightarrow> bytes) \<Rightarrow> agg_plan \<Rightarrow> merger \<Rightarrow> nat \<Rightarrow> shared_ht outcome" where
  "mergeTables kc fadd agg m thread_id =
     (case strategy m of
        NoMergeRequired \<Rightarrow> Returns (rt_tables m ! thread_id)
      | MultiThreaded \<Rightarrow> merge_all (mergeSingleTable kc fadd agg (total_threads m) thread_id) (pre_merge m) (rt_tables m ! thread_id))"

text \<open>The runtime task: prepare, then every thread.\<close>

definition run_merge ::
  "key_cmp \<Rightarrow> (shared_ht list \<Rightarrow> nat \<Rightarrow> shared_ht list outcome) \<Rightarrow> (nat \<Rightarrow> bytes \<Rightarrow> bytes \<Rightarrow> bytes) \<Rightarrow> agg_plan \<Rightarrow>
   nat \<Rightarrow> shared_ht list \<Rightarrow> shared_ht list outcome" where
  "run_merge kc build fadd agg num_threads tables =
     obind (prepareState build num_threads \<lparr> pre_merge = [], rt_tables = tables, total_threads = 0, strategy = NoMergeRequired \<rparr>)
       (\<lambda>m. map_outcome (mergeTables kc fadd agg m) [0..<length (rt_tables m)])"

end
