(* ===== verification/Merging_Props.thy ===== *)
theory Merging_Props
  imports Merging
begin

text \<open>
  The merge of a parallel aggregation is correct as long as no merge table grows: every key ends up in the table of exactly one thread, and
  its granules are the sums of the granules of all its partial groups.
\<close>

section \<open>Operations in place\<close>

context key_laws begin

text \<open>Without growth a lookup or insert leaves all entries where they are.\<close>

lemma lookupOrInsert_in_place:
  assumes inv: "ht_inv kc ok st" and key: "ok key" and room: "inserted st < max_fill st"
  obtains i st' where
    "ht_lookupOrInsert kc (st, flag) key = Returns (((data_block st, i * total_slot_size st), ht_abs kc st key = None), (st', flag))"
    "ht_inv kc ok st'" "i \<in> used st'" "matches kc key (entry_at st' i)"
    "\<forall>j\<in>used st. j \<in> used st' \<and> entry_at st' j = entry_at st j"
    "\<forall>k. ok k \<longrightarrow> ht_abs kc st' k = (if kc_eq kc key k \<and> ht_abs kc st key = None then Some (pad_slot st key) else ht_abs kc st k)"
    "inserted st' = inserted st + (if ht_abs kc st key = None then 1 else 0)"
    "total_slot_size st' = total_slot_size st" "data_block st' = data_block st" "max_fill st' = max_fill st"
proof -
  obtain p st' flag' where L: "ht_lookupOrInsert kc (st, flag) key = Returns ((p, ht_abs kc st key = None), (st', flag'))"
    "ht_inv kc ok st'"
    "\<And>k. ok k \<Longrightarrow> ht_abs kc st' k = (if kc_eq kc key k \<and> ht_abs kc st key = None then Some (pad_slot st key) else ht_abs kc st k)"
    "inserted st' = inserted st + (if ht_abs kc st key = None then 1 else 0)"
    "total_slot_size st' = total_slot_size st" "data_block st' = data_block st" "flag' = flag"
    by (rule lookupOrInsert_spec [OF inv key, of flag]) (use room in auto)
  note shape = inv_core(2) [OF inv]
  obtain f where f: "f \<le> mod_mask st" "ht_tags st ! f = 0" using inv_free [OF inv] .
  obtain i where i: "findSlotOrEmpty kc st (kc_hash kc key) key = Some (cursor_at st i)" "i \<le> mod_mask st"
    "(ht_tags st ! i = 0 \<and> ht_abs kc st key = None) \<or>
     (ht_tags st ! i \<noteq> 0 \<and> matches kc key (entry_at st i) \<and> ht_abs kc st key = Some (slot_at st i))"
    using find_spec [OF inv_core(1) [OF inv] inv_core(3) [OF inv] key f] by blast
  have mf: "max_fill st' = max_fill st" if "mod_mask st' = mod_mask st"
    using inv_core(2) [OF L(2)] shape that by (simp add: ht_shape_def)
  from i(3) show thesis
  proof (elim disjE conjE)
    assume new: "ht_tags st ! i = 0" "ht_abs kc st key = None"
    let ?st = "(set_slot i (new_tag (kc_hash kc key)) key st)\<lparr> inserted := Suc (inserted st) \<rparr>"
    have "ht_lookupOrInsert kc (st, flag) key = Returns (((data_block st, i * total_slot_size st), True), (?st, flag))"
      using i(1) new by (simp add: ht_lookupOrInsert_def reserve_room [OF room] Let_def set_slot_def new_tag_def)
    with L(1) have st': "st' = ?st" and p: "p = (data_block st, i * total_slot_size st)" by simp_all
    have len: "length key \<le> total_slot_size st" "kc_len kc = length key"
      using shape key by (simp_all add: ht_shape_def key_length)
    have slots: "slot_at st' j = (if j = i then mem_write 0 key (slot_at st i) else slot_at st j)" if "j \<le> mod_mask st" for j
      using slot_set_slot [OF shape i(2) that len(1)] by (simp add: st' slot_at_def)
    have tags: "ht_tags st' = (ht_tags st)[i := new_tag (kc_hash kc key)]" by (simp add: st')
    have il: "i < length (ht_tags st)" using i(2) shape by (simp add: ht_shape_def)
    have "slot_key kc (slot_at st' i) = key" using slots [OF i(2)] by (simp add: slot_key_def mem_write_def len(2))
    then have m: "matches kc key (entry_at st' i)"
      using il key_refl [OF key] by (simp add: matches_def entry_at_def tags)
    have "j \<in> used st' \<and> entry_at st' j = entry_at st j" if "j \<in> used st" for j
    proof -
      have "j \<noteq> i" "j \<le> mod_mask st" using that new(1) used_le [OF shape] by (auto simp: used_def)
      with that show ?thesis by (auto simp: used_def tags entry_at_def slots)
    qed
    moreover have "i \<in> used st'" using il by (simp add: used_def tags)
    ultimately show thesis
      using L m mf by (intro that [of i st']) (simp_all add: p st')
  next
    assume old: "ht_tags st ! i \<noteq> 0" "matches kc key (entry_at st i)" "ht_abs kc st key = Some (slot_at st i)"
    have "ht_lookupOrInsert kc (st, flag) key = Returns (((data_block st, i * total_slot_size st), False), (st, flag))"
      using i(1) old by (simp add: ht_lookupOrInsert_def reserve_room [OF room] Let_def)
    with L(1) have st': "st' = st" and p: "p = (data_block st, i * total_slot_size st)" by auto
    have "i \<in> used st" using old(1) i(2) shape by (simp add: used_def ht_shape_def)
    then show thesis using L old by (intro that [of i st']) (simp_all add: p st')
  qed
qed

text \<open>A write into the payload of an entry changes that entry and nothing else.\<close>

lemma store_payload:
  assumes inv: "ht_inv kc ok st" and i: "i \<in> used st" and o: "kc_len kc \<le> off" "off + length bs \<le> total_slot_size st"
  defines "st' \<equiv> ht_store (i * total_slot_size st + off) bs st"
  shows "slot_at st' i = mem_write off bs (slot_at st i)" "\<And>j. j \<in> used st \<Longrightarrow> j \<noteq> i \<Longrightarrow> slot_at st' j = slot_at st j"
    "ht_tags st' = ht_tags st" "used st' = used st" "ht_inv kc ok st'"
    "\<And>k j. j \<in> used st \<Longrightarrow> matches kc k (entry_at st' j) = matches kc k (entry_at st j)"
    "\<And>k. ok k \<Longrightarrow> ht_abs kc st' k = (if matches kc k (entry_at st i) then Some (slot_at st' i) else ht_abs kc st k)"
proof -
  note shape = inv_core(2) [OF inv]
  have simps: "total_slot_size st' = total_slot_size st" "mod_mask st' = mod_mask st" "inserted st' = inserted st"
    "max_fill st' = max_fill st" by (simp_all add: st'_def ht_store_def)
  have il: "i \<le> mod_mask st" using used_le [OF shape i] .
  show tags: "ht_tags st' = ht_tags st" by (simp add: st'_def ht_store_def)
  show used: "used st' = used st" by (simp add: used_def tags)
  have other: "slot_at st' j = slot_at st j" if "j \<le> mod_mask st" "j \<noteq> i" for j
    using slots_disjoint [OF that(2), of "total_slot_size st"] slot_range [OF shape that(1)] slot_range [OF shape il] o(2)
    by (auto simp: slot_at_def st'_def ht_store_def intro!: mem_read_write_disjoint)
  show self: "slot_at st' i = mem_write off bs (slot_at st i)"
    using slot_range [OF shape il] o(2) by (simp add: slot_at_def st'_def ht_store_def mem_read_write_inside)
  show "slot_at st' j = slot_at st j" if "j \<in> used st" "j \<noteq> i" for j
    using other [OF used_le [OF shape that(1)] that(2)] .
  have key: "slot_key kc (slot_at st' j) = slot_key kc (slot_at st j)" if "j \<le> mod_mask st" for j
    using other [OF that] self o length_slot_at [OF shape that] by (cases "j = i") (simp_all add: slot_key_def mem_write_def)
  show m: "matches kc k (entry_at st' j) = matches kc k (entry_at st j)" if "j \<in> used st" for k j
    using key [OF used_le [OF shape that]] by (simp add: matches_def entry_at_def tags)
  have shape': "ht_shape kc st'"
  proof -
    have "length (ht_data st') = length (ht_data st)"
      using slot_range [OF shape il] o(2) by (simp add: st'_def ht_store_def length_mem_write)
    with shape show ?thesis by (simp add: ht_shape_def simps tags)
  qed
  have eok: "entries_ok kc ok (entries st')"
  proof -
    have "good_entry (\<lambda>s. ok (slot_key kc s)) (entry_at st' j)" if "j \<in> used st" for j
    proof -
      have "good_entry (\<lambda>s. ok (slot_key kc s)) (entry_at st j)"
        using inv_core(3) [OF inv] that by (auto simp: entries_ok_def set_entries)
      then show ?thesis using key [OF used_le [OF shape that]] by (simp add: good_entry_def entry_at_def tags)
    qed
    moreover have "size (filter_mset (matches kc k) (entries st')) = size (filter_mset (matches kc k) (entries st))" for k
    proof -
      have "filter_mset (\<lambda>j. matches kc k (entry_at st' j)) (mset_set (used st)) = filter_mset (\<lambda>j. matches kc k (entry_at st j)) (mset_set (used st))"
        by (rule filter_mset_cong) (simp_all add: m)
      then show ?thesis by (simp add: entries_def used filter_mset_image_mset)
    qed
    ultimately show ?thesis using inv_core(3) [OF inv] unfolding entries_ok_def by (auto simp: set_entries used)
  qed
  have "chained kc st'"
    using inv key used_le [OF shape] by (auto simp: ht_inv_def chained_def used reaches_def home_def simps tags)
  moreover have "zeroed st'"
    using inv other i by (auto simp: ht_inv_def zeroed_def used_def simps tags ht_shape_def) (metis less_Suc_eq_le)
  moreover have "size (entries st') = size (entries st)" by (simp add: size_entries used)
  ultimately show inv': "ht_inv kc ok st'"
    using inv shape' eok unfolding ht_inv_def simps by simp
  show "ht_abs kc st' k = (if matches kc k (entry_at st i) then Some (slot_at st' i) else ht_abs kc st k)" if k: "ok k" for k
  proof -
    have one: "size (filter_mset (matches kc k) (entries st')) \<le> 1" using eok k by (simp add: entries_ok_def)
    have found: "ht_abs kc st' k = Some (slot_at st' j)" if "j \<in> used st" "matches kc k (entry_at st j)" for j
    proof (rule ht_abs_eqI [OF one])
      show "(ht_tags st' ! j, slot_at st' j) \<in># entries st'" using that(1) by (auto simp: set_entries used entry_at_def)
      show "matches kc k (ht_tags st' ! j, slot_at st' j)" using m [OF that(1), of k] that(2) by (simp add: entry_at_def)
    qed
    show ?thesis
    proof (cases "matches kc k (entry_at st i)")
      case True then show ?thesis using found [OF i] by simp
    next
      case False
      show ?thesis
      proof (cases "ht_abs kc st k")
        case None
        then have "\<forall>j\<in>used st. \<not> matches kc k (entry_at st j)" by (auto simp: ht_abs_None set_entries)
        then have "ht_abs kc st' k = None" by (auto simp: ht_abs_None set_entries used m)
        with None False show ?thesis by simp
      next
        case (Some s)
        then obtain t where "(t, s) \<in># entries st" "matches kc k (t, s)" using ht_abs_Some by blast
        then obtain j where j: "j \<in> used st" "matches kc k (entry_at st j)" "s = slot_at st j"
          by (auto simp: set_entries entry_at_def)
        with False have "j \<noteq> i" by auto
        with found [OF j(1,2)] other [OF used_le [OF shape j(1)]] Some j(3) False show ?thesis by simp
      qed
    qed
  qed
qed

end

section \<open>Granule fields\<close>

type_synonym field = "nat \<times> nat \<times> (bytes \<Rightarrow> bytes \<Rightarrow> bytes)"

text \<open>Where the merge primitives of a list of granules read and write.\<close>

fun merge_fields :: "(nat \<Rightarrow> bytes \<Rightarrow> bytes \<Rightarrow> bytes) \<Rightarrow> nat \<Rightarrow> (iu \<times> agg_state) list \<Rightarrow> field list" where
  "merge_fields fadd off [] = []"
| "merge_fields fadd off (g # gs) =
     (case merge_prim fadd g of Returns (w, op) \<Rightarrow> (off, w, op) | _ \<Rightarrow> (off, 0, \<lambda>d s. d)) # merge_fields fadd (off + getStateSize (snd g)) gs"

definition field_of :: "field \<Rightarrow> bytes \<Rightarrow> bytes" where
  "field_of f s = mem_read (fst f) (fst (snd f)) s"

text \<open>The sum of a field over a list of groups, starting from zero bytes.\<close>

definition field_sum :: "field \<Rightarrow> bytes list \<Rightarrow> bytes" where
  "field_sum f ss = foldl (snd (snd f)) (replicate (fst (snd f)) 0) (map (field_of f) ss)"

fun placed :: "nat \<Rightarrow> nat \<Rightarrow> field list \<Rightarrow> bool" where
  "placed lo hi [] \<longleftrightarrow> True"
| "placed lo hi ((off, w, op) # fs) \<longleftrightarrow> lo \<le> off \<and> off + w \<le> hi \<and>
     (\<forall>d s. length d = w \<longrightarrow> length s = w \<longrightarrow> length (op d s) = w) \<and> placed (off + w) hi fs"

lemma placed_mono: "placed lo hi fs \<Longrightarrow> lo' \<le> lo \<Longrightarrow> placed lo' hi fs"
  by (cases fs) auto

lemma placed_nth:
  assumes "placed lo hi fs" "j < length fs" "fs ! j = (off, w, op)"
  shows "lo \<le> off" "off + w \<le> hi" "length d = w \<Longrightarrow> length s = w \<Longrightarrow> length (op d s) = w"
proof -
  have "lo \<le> off \<and> off + w \<le> hi \<and> (\<forall>d s. length d = w \<longrightarrow> length s = w \<longrightarrow> length (op d s) = w)"
    using assms
  proof (induction fs arbitrary: lo j)
    case (Cons f fs)
    obtain off' w' op' where f: "f = (off', w', op')" by (cases f)
    show ?case
    proof (cases j)
      case 0 with Cons.prems f show ?thesis by simp
    next
      case (Suc i)
      have "placed lo hi fs" using Cons.prems(1) f by (auto elim: placed_mono)
      then show ?thesis using Cons.IH [of lo i] Cons.prems Suc by simp
    qed
  qed simp
  then show "lo \<le> off" "off + w \<le> hi" "length d = w \<Longrightarrow> length s = w \<Longrightarrow> length (op d s) = w" by blast+
qed

lemma placed_disjoint:
  assumes "placed lo hi fs" "i < j" "j < length fs"
  shows "fst (fs ! i) + fst (snd (fs ! i)) \<le> fst (fs ! j)"
  using assms
proof (induction lo hi fs arbitrary: i j rule: placed.induct)
  case (2 lo hi off w op fs)
  obtain j' where j: "j = Suc j'" using 2(3) by (cases j) auto
  show ?case
  proof (cases i)
    case 0
    with 2(2,4) j placed_nth(1) [of "off + w" hi fs j'] show ?thesis by (cases "fs ! j'") auto
  next
    case (Suc i') with 2 j show ?thesis by auto
  qed
qed simp

section \<open>The state of a merge\<close>

definition with_key :: "key_cmp \<Rightarrow> bytes \<Rightarrow> bytes list \<Rightarrow> bytes list" where
  "with_key kc k ss = filter (\<lambda>s. kc_eq kc (slot_key kc s) k) ss"

text \<open>
  The merge table \<open>t\<close> holds the keys of the groups \<open>K\<close>, and the \<open>j\<close>th field of a key is the sum over its groups in \<open>D j\<close>.
\<close>

definition merged_state ::
  "key_cmp \<Rightarrow> (bytes \<Rightarrow> bool) \<Rightarrow> nat \<Rightarrow> field list \<Rightarrow> shared_ht \<Rightarrow> bytes list \<Rightarrow> (nat \<Rightarrow> bytes list) \<Rightarrow> bool" where
  "merged_state kc ok sz fs t K D \<longleftrightarrow> ht_inv kc ok t \<and> total_slot_size t = sz \<and>
     (\<forall>k. ok k \<longrightarrow> (ht_abs kc t k = None \<longleftrightarrow> with_key kc k K = [])) \<and>
     (\<forall>k g j. ok k \<longrightarrow> ht_abs kc t k = Some g \<longrightarrow> j < length fs \<longrightarrow> field_of (fs ! j) g = field_sum (fs ! j) (with_key kc k (D j))) \<and>
     (\<forall>j. set (D j) \<subseteq> set K)"

text \<open>A pointer leads to the group of the key of \<open>s\<close>.\<close>

definition leads_to :: "key_cmp \<Rightarrow> shared_ht \<Rightarrow> bytes \<Rightarrow> ptr \<Rightarrow> bool" where
  "leads_to kc t s p \<longleftrightarrow> fst p = data_block t \<and>
     (\<exists>i\<in>used t. snd p = i * total_slot_size t \<and> matches kc (slot_key kc s) (entry_at t i))"

lemma with_key_append: "with_key kc k (xs @ ys) = with_key kc k xs @ with_key kc k ys" by (simp add: with_key_def)
lemma with_key_subset: "set xs \<subseteq> set ys \<Longrightarrow> with_key kc k ys = [] \<Longrightarrow> with_key kc k xs = []"
  by (auto simp: with_key_def filter_empty_conv)

context key_laws begin

lemma field_pad:
  assumes "placed (kc_len kc) sz fs" "j < length fs" "total_slot_size t = sz" "ok key"
  shows "field_of (fs ! j) (pad_slot t key) = field_sum (fs ! j) []"
proof -
  obtain off w op where f: "fs ! j = (off, w, op)" by (cases "fs ! j")
  have "off + w \<le> sz" "length key \<le> off" using placed_nth [OF assms(1,2) f] assms(4) by (auto simp: key_length)
  then show ?thesis
    using assms(3) by (simp add: field_of_def field_sum_def f pad_slot_def mem_read_def)
qed

lemma step_insert:
  assumes m: "merged_state kc ok sz fs t K D" and s: "ok (slot_key kc s)" and room: "inserted t < max_fill t"
    and pl: "placed (kc_len kc) sz fs"
  obtains p t' where "ht_lookupOrInsert1 kc (t, flag) (slot_key kc s) = Returns (p, (t', flag))"
    "merged_state kc ok sz fs t' (K @ [s]) D" "leads_to kc t' s p"
    "\<And>s' p'. leads_to kc t s' p' \<Longrightarrow> leads_to kc t' s' p'"
    "inserted t' = inserted t + (if with_key kc (slot_key kc s) K = [] then 1 else 0)" "max_fill t' = max_fill t"
proof -
  let ?k = "slot_key kc s"
  have inv: "ht_inv kc ok t" and sz: "total_slot_size t = sz"
    and keys: "\<And>k. ok k \<Longrightarrow> ht_abs kc t k = None \<longleftrightarrow> with_key kc k K = []"
    and fields: "\<And>k g j. ok k \<Longrightarrow> ht_abs kc t k = Some g \<Longrightarrow> j < length fs \<Longrightarrow> field_of (fs ! j) g = field_sum (fs ! j) (with_key kc k (D j))"
    and sub: "\<And>j. set (D j) \<subseteq> set K"
    using m by (auto simp: merged_state_def)
  obtain i t' where L: "ht_lookupOrInsert kc (t, flag) ?k = Returns (((data_block t, i * total_slot_size t), ht_abs kc t ?k = None), (t', flag))"
    "ht_inv kc ok t'" "i \<in> used t'" "matches kc ?k (entry_at t' i)" "\<forall>j\<in>used t. j \<in> used t' \<and> entry_at t' j = entry_at t j"
    "\<forall>k. ok k \<longrightarrow> ht_abs kc t' k = (if kc_eq kc ?k k \<and> ht_abs kc t ?k = None then Some (pad_slot t ?k) else ht_abs kc t k)"
    "inserted t' = inserted t + (if ht_abs kc t ?k = None then 1 else 0)"
    "total_slot_size t' = total_slot_size t" "data_block t' = data_block t" "max_fill t' = max_fill t"
    by (rule lookupOrInsert_in_place [OF inv s room, where flag = flag])
  have same: "ht_abs kc t k = None \<longleftrightarrow> ht_abs kc t ?k = None" if "ok k" "kc_eq kc ?k k" for k
  proof -
    have "kc_eq kc x k \<longleftrightarrow> kc_eq kc x ?k" if "ok x" for x
      using that \<open>ok k\<close> s \<open>kc_eq kc ?k k\<close> key_trans key_sym by metis
    then have "matches kc k e \<longleftrightarrow> matches kc ?k e" if "e \<in># entries t" for e
      using that inv_core(3) [OF inv] key_hash [OF s \<open>ok k\<close> \<open>kc_eq kc ?k k\<close>]
      by (auto simp: matches_def entries_ok_def good_entry_def)
    then show ?thesis by (simp add: ht_abs_None)
  qed
  have "merged_state kc ok sz fs t' (K @ [s]) D"
    unfolding merged_state_def
  proof (intro conjI allI impI)
    show "ht_inv kc ok t'" "total_slot_size t' = sz" using L sz by simp_all
    show "ht_abs kc t' k = None \<longleftrightarrow> with_key kc k (K @ [s]) = []" if "ok k" for k
      using L(6) that keys [OF that] same [OF that] by (auto simp: with_key_append) (auto simp: with_key_def)
    show "field_of (fs ! j) g = field_sum (fs ! j) (with_key kc k (D j))" if "ok k" "ht_abs kc t' k = Some g" "j < length fs" for k g j
    proof (cases "kc_eq kc ?k k \<and> ht_abs kc t ?k = None")
      case True
      then have "with_key kc k K = []" using same [OF that(1)] keys [OF that(1)] by simp
      then have "with_key kc k (D j) = []" by (rule with_key_subset [OF sub])
      with True that L(6) that(1) field_pad [OF pl that(3) sz s] show ?thesis by auto
    next
      case False
      with L(6) that(1) that(2) have "ht_abs kc t k = Some g" by auto
      then show ?thesis using fields that by blast
    qed
    show "set (D j) \<subseteq> set (K @ [s])" for j using sub [of j] by auto
  qed
  moreover have "leads_to kc t' s (data_block t, i * total_slot_size t)" using L by (auto simp: leads_to_def)
  moreover have "leads_to kc t' s' p'" if "leads_to kc t s' p'" for s' p' using that L by (auto simp: leads_to_def)
  ultimately show thesis
    using L(1,7,10) keys [OF s] by (intro that [of "(data_block t, i * total_slot_size t)" t']) (auto simp: ht_lookupOrInsert1_def)
qed

lemma step_merge:
  assumes m: "merged_state kc ok sz fs t K D" and pl: "placed (kc_len kc) sz fs" and j: "j < length fs" "fs ! j = (off, w, op)"
    and p: "leads_to kc t s p" and s: "s \<in> set K" "length s = sz" "ok (slot_key kc s)"
  defines "t' \<equiv> ht_store (snd p + off) (op (mem_read (snd p + off) w (ht_data t)) (mem_read off w s)) t"
  shows "merged_state kc ok sz fs t' K (D(j := D j @ [s]))" "\<And>s' p'. leads_to kc t s' p' \<Longrightarrow> leads_to kc t' s' p'"
proof -
  have inv: "ht_inv kc ok t" and sz: "total_slot_size t = sz"
    and keys: "\<And>k. ok k \<Longrightarrow> ht_abs kc t k = None \<longleftrightarrow> with_key kc k K = []"
    and fields: "\<And>k g j. ok k \<Longrightarrow> ht_abs kc t k = Some g \<Longrightarrow> j < length fs \<Longrightarrow> field_of (fs ! j) g = field_sum (fs ! j) (with_key kc k (D j))"
    and sub: "\<And>j. set (D j) \<subseteq> set K"
    using m by (auto simp: merged_state_def)
  obtain i where i: "i \<in> used t" "snd p = i * sz" "matches kc (slot_key kc s) (entry_at t i)" using p sz by (auto simp: leads_to_def)
  note shape = inv_core(2) [OF inv]
  note il = used_le [OF shape i(1)]
  let ?old = "mem_read off w (slot_at t i)" and ?src = "mem_read off w s"
  have range: "kc_len kc \<le> off" "off + w \<le> sz" using placed_nth [OF pl j] by simp_all
  have len: "length ?old = w" "length ?src = w"
    using range length_slot_at [OF shape il] s(2) sz by (simp_all add: length_mem_read)
  have bs: "length (op ?old ?src) = w" using placed_nth(3) [OF pl j len] .
  have t': "t' = ht_store (i * total_slot_size t + off) (op ?old ?src) t"
    using range sz by (simp add: t'_def i(2) slot_at_def mem_read_read)
  have r2: "off + length (op ?old ?src) \<le> total_slot_size t" using range bs sz by simp
  note S = store_payload [OF inv i(1) range(1) r2, folded t']
  have okk: "ok (slot_key kc (slot_at t i))"
    using inv_core(3) [OF inv] i(1) by (auto simp: entries_ok_def good_entry_def set_entries entry_at_def)
  have eq_i: "kc_eq kc (slot_key kc (slot_at t i)) (slot_key kc s)" using i(3) by (simp add: matches_def entry_at_def)
  have hit: "matches kc k (entry_at t i) \<longleftrightarrow> kc_eq kc (slot_key kc s) k" if "ok k" for k
  proof
    assume "matches kc k (entry_at t i)"
    then have "kc_eq kc (slot_key kc (slot_at t i)) k" by (simp add: matches_def entry_at_def)
    then show "kc_eq kc (slot_key kc s) k" using key_trans key_sym eq_i okk s(3) that by metis
  next
    assume e: "kc_eq kc (slot_key kc s) k"
    then have "kc_eq kc (slot_key kc (slot_at t i)) k" using key_trans eq_i okk s(3) that by metis
    with i(3) key_hash [OF s(3) that e] show "matches kc k (entry_at t i)" by (simp add: matches_def entry_at_def)
  qed
  have abs_i: "ht_abs kc t k = Some (slot_at t i)" if "ok k" "matches kc k (entry_at t i)" for k
  proof (rule ht_abs_eqI)
    show "size (filter_mset (matches kc k) (entries t)) \<le> 1" using inv_core(3) [OF inv] that(1) by (simp add: entries_ok_def)
    show "(ht_tags t ! i, slot_at t i) \<in># entries t" using i(1) by (auto simp: set_entries entry_at_def)
    show "matches kc k (ht_tags t ! i, slot_at t i)" using that(2) by (simp add: entry_at_def)
  qed
  have fs': "field_of (fs ! l) (slot_at t' i) = (if l = j then op ?old ?src else field_of (fs ! l) (slot_at t i))" if "l < length fs" for l
  proof -
    obtain off' w' op' where l: "fs ! l = (off', w', op')" by (cases "fs ! l")
    have range': "off' + w' \<le> sz" using placed_nth [OF pl that l] by simp
    have ls: "length (slot_at t i) = sz" using length_slot_at [OF shape il] sz by simp
    show ?thesis
    proof (cases "l = j")
      case True
      have "mem_read off w (mem_write off (op ?old ?src) (slot_at t i)) = op ?old ?src"
        using mem_read_write_same [of off "op ?old ?src" "slot_at t i"] bs range ls by simp
      with True j(2) l show ?thesis by (auto simp: field_of_def S(1))
    next
      case False
      then have "off' + w' \<le> off \<or> off + w \<le> off'"
        using placed_disjoint [OF pl, of l j] placed_disjoint [OF pl, of j l] j l that by (cases "l < j") auto
      with False range range' ls bs show ?thesis
        by (auto simp: field_of_def l S(1) intro!: mem_read_write_disjoint)
    qed
  qed
  show "merged_state kc ok sz fs t' K (D(j := D j @ [s]))"
    unfolding merged_state_def
  proof (intro conjI allI impI)
    show "ht_inv kc ok t'" by (rule S(5))
    show "total_slot_size t' = sz" using sz by (simp add: t' ht_store_def)
    show "ht_abs kc t' k = None \<longleftrightarrow> with_key kc k K = []" if "ok k" for k
      using S(7) [OF that] keys [OF that] abs_i [OF that] by auto
    show "field_of (fs ! l) g = field_sum (fs ! l) (with_key kc k ((D(j := D j @ [s])) l))"
      if k: "ok k" "ht_abs kc t' k = Some g" "l < length fs" for k g l
    proof (cases "matches kc k (entry_at t i)")
      case True
      then have g: "g = slot_at t' i" using S(7) [OF k(1)] k(2) by simp
      have old: "field_of (fs ! l) (slot_at t i) = field_sum (fs ! l) (with_key kc k (D l))"
        using fields [OF k(1) abs_i [OF k(1) True] k(3)] .
      have "with_key kc k [s] = [s]" using hit [OF k(1)] True by (simp add: with_key_def)
      with old show ?thesis
        using fs' [OF k(3)] j(2) by (auto simp: g with_key_append field_sum_def field_of_def)
    next
      case False
      then have "ht_abs kc t k = Some g" using S(7) [OF k(1)] k(2) by simp
      moreover have "with_key kc k [s] = []" using hit [OF k(1)] False by (simp add: with_key_def)
      ultimately show ?thesis using fields [OF k(1) _ k(3)] by (auto simp: with_key_append)
    qed
    show "set ((D(j := D j @ [s])) l) \<subseteq> set K" for l using sub s(1) by auto
  qed
  show "leads_to kc t' s' p'" if "leads_to kc t s' p'" for s' p'
    using that S(4,6) by (auto simp: leads_to_def t' ht_store_def)
qed

end

section \<open>The loops\<close>

definition row_at :: "shared_ht \<Rightarrow> nat \<Rightarrow> bytes" where
  "row_at src d = mem_read d (total_slot_size src) (ht_data src)"

text \<open>The groups that fall to a thread.\<close>

definition falls_to :: "key_cmp \<Rightarrow> nat \<Rightarrow> nat \<Rightarrow> bytes \<Rightarrow> bool" where
  "falls_to kc n thread_id s \<longleftrightarrow> unat (kc_hash kc (slot_key kc s)) mod n = thread_id"

text \<open>What the merge needs of an old table: its used slots are filled and hold valid keys.\<close>

definition source_ok :: "key_cmp \<Rightarrow> (bytes \<Rightarrow> bool) \<Rightarrow> shared_ht \<Rightarrow> bool" where
  "source_ok kc ok src \<longleftrightarrow> ht_shape kc src \<and> (\<forall>i\<in>used src. filled (ht_tags src ! i) \<and> ok (slot_key kc (slot_at src i)))"

text \<open>The groups of a table in the order of its slots.\<close>

definition table_groups :: "shared_ht \<Rightarrow> bytes list" where
  "table_groups st = map (slot_at st) (filter (\<lambda>i. ht_tags st ! i \<noteq> 0) [0..<length (ht_tags st)])"

lemma inv_source_ok: "ht_inv kc ok st \<Longrightarrow> source_ok kc ok st"
  by (auto simp: source_ok_def ht_inv_def entries_ok_def good_entry_def set_entries entry_at_def)

lemma scan_groups:
  assumes "source_ok kc ok src"
  obtains ds where "scan_table src = Some ds" "map (row_at src) ds = table_groups src"
    "\<And>d. d \<in> set ds \<Longrightarrow> d + total_slot_size src \<le> length (ht_data src) \<and> ok (slot_key kc (row_at src d))"
proof -
  let ?js = "filter (\<lambda>i. ht_tags src ! i \<noteq> 0) [0..<length (ht_tags src)]"
  have shape: "ht_shape kc src" using assms by (simp add: source_ok_def)
  have "filter (stops filled src) [0..<Suc (mod_mask src)] = ?js"
    using assms filled_nonzero by (intro filter_cong) (auto simp: source_ok_def used_def ht_shape_def)
  then have "scan_table src = Some (map (\<lambda>j. j * total_slot_size src) ?js)" using scan_table_slots [of src] by simp
  moreover have "map (row_at src) (map (\<lambda>j. j * total_slot_size src) ?js) = table_groups src"
    by (simp add: table_groups_def row_at_def slot_at_def)
  moreover have "d + total_slot_size src \<le> length (ht_data src) \<and> ok (slot_key kc (row_at src d))"
    if d: "d \<in> set (map (\<lambda>j. j * total_slot_size src) ?js)" for d
  proof -
    obtain j where "j \<in> used src" "d = j * total_slot_size src" using d by (auto simp: used_def)
    with assms used_le [OF shape] slot_range [OF shape] show ?thesis by (auto simp: source_ok_def row_at_def slot_at_def)
  qed
  ultimately show thesis by (rule that)
qed

text \<open>Keys with classes: comparing keys is comparing their classes.\<close>

locale key_classes = key_laws +
  fixes cls :: "bytes \<Rightarrow> bytes"
  assumes eq_cls: "ok a \<Longrightarrow> ok b \<Longrightarrow> kc_eq kc a b \<longleftrightarrow> cls a = cls b"
begin

lemma with_key_cls:
  assumes "\<forall>s\<in>set K. ok (slot_key kc s)" "ok k"
  shows "with_key kc k K = [] \<longleftrightarrow> cls k \<notin> (\<lambda>s. cls (slot_key kc s)) ` set K"
proof -
  have "kc_eq kc (slot_key kc s) k \<longleftrightarrow> cls k = cls (slot_key kc s)" if "s \<in> set K" for s
    using eq_cls assms that by (metis)
  then show ?thesis by (auto simp: with_key_def filter_empty_conv)
qed

lemma collect_pairs_ok:
  assumes "merged_state kc ok sz fs t K D" "placed (kc_len kc) sz fs" "total_slot_size src = sz" "kc_len kc \<le> sz"
    "\<forall>s\<in>set K. ok (slot_key kc s)" "\<forall>d\<in>set ds. ok (slot_key kc (row_at src d))"
    "inserted t = card ((\<lambda>s. cls (slot_key kc s)) ` set K)"
    "set K \<union> set (filter (falls_to kc n tid) (map (row_at src) ds)) \<subseteq> S" "finite S"
    "card ((\<lambda>s. cls (slot_key kc s)) ` S) < max_fill t"
  shows "\<exists>new t'. collect_pairs kc n tid src ds pairs (t, flag) = Returns (pairs @ new, (t', flag)) \<and>
    map fst new = filter (\<lambda>d. falls_to kc n tid (row_at src d)) ds \<and>
    merged_state kc ok sz fs t' (K @ map (\<lambda>x. row_at src (fst x)) new) D \<and>
    (\<forall>x\<in>set new. leads_to kc t' (row_at src (fst x)) (snd x)) \<and> (\<forall>s p. leads_to kc t s p \<longrightarrow> leads_to kc t' s p) \<and>
    inserted t' = card ((\<lambda>s. cls (slot_key kc s)) ` set (K @ map (\<lambda>x. row_at src (fst x)) new)) \<and> max_fill t' = max_fill t"
  using assms
proof (induction ds arbitrary: t K pairs)
  case Nil then show ?case by simp
next
  case (Cons d ds)
  let ?s = "row_at src d" and ?cls = "\<lambda>s. cls (slot_key kc s)"
  have key: "mem_read d (kc_len kc) (ht_data src) = slot_key kc ?s"
    using Cons.prems(3,4) by (simp add: slot_key_def row_at_def mem_read_def min_def)
  have oks: "ok (slot_key kc ?s)" using Cons.prems(6) by simp
  show ?case
  proof (cases "falls_to kc n tid ?s")
    case False
    then have "collect_pairs kc n tid src (d # ds) pairs (t, flag) = collect_pairs kc n tid src ds pairs (t, flag)"
      by (simp add: key falls_to_def)
    with Cons.IH [OF Cons.prems(1-5), of pairs] Cons.prems False show ?thesis by simp
  next
    case True
    have "set K \<subseteq> S" using Cons.prems(8) by simp
    then have "card (?cls ` set K) \<le> card (?cls ` S)" using Cons.prems(9) by (intro card_mono) auto
    then have room: "inserted t < max_fill t" using Cons.prems(7,10) by simp
    obtain p t1 where I: "ht_lookupOrInsert1 kc (t, flag) (slot_key kc ?s) = Returns (p, (t1, flag))"
      "merged_state kc ok sz fs t1 (K @ [?s]) D" "leads_to kc t1 ?s p" "\<And>s' p'. leads_to kc t s' p' \<Longrightarrow> leads_to kc t1 s' p'"
      "inserted t1 = inserted t + (if with_key kc (slot_key kc ?s) K = [] then 1 else 0)" "max_fill t1 = max_fill t"
      using step_insert [OF Cons.prems(1) oks room Cons.prems(2)] by metis
    have run: "collect_pairs kc n tid src (d # ds) pairs (t, flag) = collect_pairs kc n tid src ds (pairs @ [(d, p)]) (t1, flag)"
      using True by (simp add: key falls_to_def I(1))
    have cnt: "inserted t1 = card (?cls ` set (K @ [?s]))"
      using I(5) Cons.prems(7) with_key_cls [OF Cons.prems(5) oks] by (simp add: card_insert_if insert_absorb)
    have "\<exists>new t'. collect_pairs kc n tid src ds (pairs @ [(d, p)]) (t1, flag) = Returns ((pairs @ [(d, p)]) @ new, (t', flag)) \<and>
      map fst new = filter (\<lambda>d. falls_to kc n tid (row_at src d)) ds \<and>
      merged_state kc ok sz fs t' ((K @ [?s]) @ map (\<lambda>x. row_at src (fst x)) new) D \<and>
      (\<forall>x\<in>set new. leads_to kc t' (row_at src (fst x)) (snd x)) \<and> (\<forall>s p. leads_to kc t1 s p \<longrightarrow> leads_to kc t' s p) \<and>
      inserted t' = card (?cls ` set ((K @ [?s]) @ map (\<lambda>x. row_at src (fst x)) new)) \<and> max_fill t' = max_fill t1"
    proof (rule Cons.IH [OF I(2) Cons.prems(2-4)])
      show "set (K @ [?s]) \<union> set (filter (falls_to kc n tid) (map (row_at src) ds)) \<subseteq> S" using Cons.prems(8) True by auto
    qed (use Cons.prems oks cnt I(6) in auto)
    then obtain new t' where N: "collect_pairs kc n tid src ds (pairs @ [(d, p)]) (t1, flag) = Returns ((pairs @ [(d, p)]) @ new, (t', flag))"
      "map fst new = filter (\<lambda>d. falls_to kc n tid (row_at src d)) ds"
      "merged_state kc ok sz fs t' ((K @ [?s]) @ map (\<lambda>x. row_at src (fst x)) new) D"
      "\<forall>x\<in>set new. leads_to kc t' (row_at src (fst x)) (snd x)" "\<forall>s p. leads_to kc t1 s p \<longrightarrow> leads_to kc t' s p"
      "inserted t' = card (?cls ` set ((K @ [?s]) @ map (\<lambda>x. row_at src (fst x)) new))" "max_fill t' = max_fill t1" by blast
    have "leads_to kc t' ?s p" "\<forall>s p. leads_to kc t s p \<longrightarrow> leads_to kc t' s p" using N(5) I(3,4) by blast+
    then show ?thesis
      using N(1-4,6,7) I(6) True unfolding run by (intro exI [of _ "(d, p) # new"] exI [of _ t']) simp
  qed
qed

lemma mergeSum_ok:
  assumes "merged_state kc ok sz fs t K D" "placed (kc_len kc) sz fs" "j < length fs" "fs ! j = (off, w, op)"
    "total_slot_size src = sz"
    "\<forall>x\<in>set pairs. leads_to kc t (row_at src (fst x)) (snd x) \<and> row_at src (fst x) \<in> set K \<and>
       fst x + sz \<le> length (ht_data src) \<and> ok (slot_key kc (row_at src (fst x)))"
  shows "\<exists>t'. mergeSum w op src pairs off t = Returns t' \<and> merged_state kc ok sz fs t' K (D(j := D j @ map (\<lambda>x. row_at src (fst x)) pairs)) \<and>
    (\<forall>s p. leads_to kc t s p \<longrightarrow> leads_to kc t' s p) \<and> inserted t' = inserted t \<and> max_fill t' = max_fill t"
  using assms
proof (induction pairs arbitrary: t D)
  case Nil then show ?case by simp
next
  case (Cons x pairs)
  obtain d p where x: "x = (d, p)" by (cases x)
  let ?s = "row_at src d"
  define t1 where "t1 = ht_store (snd p + off) (op (mem_read (snd p + off) w (ht_data t)) (mem_read off w ?s)) t"
  have L: "leads_to kc t ?s p" "?s \<in> set K" "length ?s = sz" "ok (slot_key kc ?s)"
    using Cons.prems(5,6) x by (auto simp: row_at_def length_mem_read)
  note M = step_merge [OF Cons.prems(1-4) L, folded t1_def]
  have range: "off + w \<le> sz" using placed_nth [OF Cons.prems(2-4)] by simp
  have "mem_read (d + off) w (ht_data src) = mem_read off w ?s" using range Cons.prems(5) by (simp add: row_at_def mem_read_read)
  then have run: "mergeSum w op src (x # pairs) off t = mergeSum w op src pairs off t1"
    using L(1) by (simp add: x leads_to_def t1_def)
  have e: "(D(j := D j @ [?s]))(j := (D(j := D j @ [?s])) j @ map (\<lambda>x. row_at src (fst x)) pairs) =
    D(j := D j @ map (\<lambda>x. row_at src (fst x)) (x # pairs))" by (simp add: x)
  have "\<exists>t'. mergeSum w op src pairs off t1 = Returns t' \<and>
    merged_state kc ok sz fs t' K ((D(j := D j @ [?s]))(j := (D(j := D j @ [?s])) j @ map (\<lambda>x. row_at src (fst x)) pairs)) \<and>
    (\<forall>s p. leads_to kc t1 s p \<longrightarrow> leads_to kc t' s p) \<and> inserted t' = inserted t1 \<and> max_fill t' = max_fill t1"
    by (rule Cons.IH [OF M(1) Cons.prems(2-5)]) (use Cons.prems(6) M(2) in auto)
  moreover have "inserted t1 = inserted t" "max_fill t1 = max_fill t" by (simp_all add: t1_def ht_store_def)
  ultimately show ?case using M(2) unfolding run e by metis
qed

text \<open>All granules of the pairs.\<close>

lemma merge_granules_ok:
  assumes "fs = pre @ merge_fields fadd off gs" "merged_state kc ok sz fs t K D" "placed (kc_len kc) sz fs"
    "\<forall>g\<in>set gs. \<exists>r. merge_prim fadd g = Returns r" "total_slot_size src = sz"
    "\<forall>x\<in>set pairs. leads_to kc t (row_at src (fst x)) (snd x) \<and> row_at src (fst x) \<in> set K \<and>
       fst x + sz \<le> length (ht_data src) \<and> ok (slot_key kc (row_at src (fst x)))"
  shows "\<exists>t'. merge_granules fadd src pairs off gs t = Returns t' \<and>
    merged_state kc ok sz fs t' K (\<lambda>j. if j < length pre then D j else D j @ map (\<lambda>x. row_at src (fst x)) pairs) \<and>
    inserted t' = inserted t \<and> max_fill t' = max_fill t"
  using assms
proof (induction gs arbitrary: pre off t D)
  case Nil
  have sub: "set (map (\<lambda>x. row_at src (fst x)) pairs) \<subseteq> set K" using Nil.prems(6) by auto
  have "merged_state kc ok sz fs t K (\<lambda>j. if j < length pre then D j else D j @ map (\<lambda>x. row_at src (fst x)) pairs)"
    using Nil.prems(1,2) sub unfolding merged_state_def by (auto simp: subset_iff)
  then show ?case by simp
next
  case (Cons g gs)
  obtain w op where g: "merge_prim fadd g = Returns (w, op)" using Cons.prems(4) by fastforce
  let ?rows = "map (\<lambda>x. row_at src (fst x)) pairs" and ?j = "length pre"
  have j: "?j < length fs" "fs ! ?j = (off, w, op)" by (simp_all add: Cons.prems(1) g)
  obtain t1 where M: "mergeSum w op src pairs off t = Returns t1" "merged_state kc ok sz fs t1 K (D(?j := D ?j @ ?rows))"
    "\<forall>s p. leads_to kc t s p \<longrightarrow> leads_to kc t1 s p" "inserted t1 = inserted t" "max_fill t1 = max_fill t"
    using mergeSum_ok [OF Cons.prems(2,3) j Cons.prems(5,6)] by blast
  have fs: "fs = (pre @ [(off, w, op)]) @ merge_fields fadd (off + getStateSize (snd g)) gs" using Cons.prems(1) g by simp
  have "\<exists>t'. merge_granules fadd src pairs (off + getStateSize (snd g)) gs t1 = Returns t' \<and>
    merged_state kc ok sz fs t' K (\<lambda>l. if l < length (pre @ [(off, w, op)]) then (D(?j := D ?j @ ?rows)) l else (D(?j := D ?j @ ?rows)) l @ ?rows) \<and>
    inserted t' = inserted t1 \<and> max_fill t' = max_fill t1"
    by (rule Cons.IH [OF fs M(2) Cons.prems(3) _ Cons.prems(5)]) (use Cons.prems(4,6) M(3) in auto)
  moreover have "(\<lambda>l. if l < length (pre @ [(off, w, op)]) then (D(?j := D ?j @ ?rows)) l else (D(?j := D ?j @ ?rows)) l @ ?rows) =
    (\<lambda>l. if l < length pre then D l else D l @ ?rows)" by (rule ext) (auto simp: less_Suc_eq)
  ultimately show ?case using M(1,4,5) g by simp
qed

definition sum_state :: "nat \<Rightarrow> field list \<Rightarrow> shared_ht \<Rightarrow> bytes list \<Rightarrow> bool" where
  "sum_state sz fs t K \<longleftrightarrow> merged_state kc ok sz fs t K (\<lambda>_. K) \<and> (\<forall>s\<in>set K. ok (slot_key kc s)) \<and>
     inserted t = card ((\<lambda>s. cls (slot_key kc s)) ` set K)"

lemma mergeSingleTable_ok:
  assumes st: "sum_state sz fs t K" and src: "source_ok kc ok src" "total_slot_size src = sz"
    and fs: "fs = merge_fields fadd (key_size agg + payload_offset agg) (granules agg)"
    and pl: "placed (kc_len kc) sz fs" and prims: "\<forall>g\<in>set (granules agg). \<exists>r. merge_prim fadd g = Returns r"
    and room: "set K \<union> set (filter (falls_to kc n tid) (table_groups src)) \<subseteq> S" "finite S"
      "card ((\<lambda>s. cls (slot_key kc s)) ` S) < max_fill t"
  shows "\<exists>t'. mergeSingleTable kc fadd agg n tid src t = Returns t' \<and>
    sum_state sz fs t' (K @ filter (falls_to kc n tid) (table_groups src)) \<and> max_fill t' = max_fill t"
proof -
  obtain ds where D: "scan_table src = Some ds" "map (row_at src) ds = table_groups src"
    "\<And>d. d \<in> set ds \<Longrightarrow> d + total_slot_size src \<le> length (ht_data src) \<and> ok (slot_key kc (row_at src d))"
    using scan_groups [OF src(1)] by blast
  let ?mine = "filter (falls_to kc n tid) (table_groups src)"
  have kl: "kc_len kc \<le> sz" using src by (simp add: source_ok_def ht_shape_def)
  have m: "merged_state kc ok sz fs t K (\<lambda>_. K)" and okK: "\<forall>s\<in>set K. ok (slot_key kc s)"
    and ins: "inserted t = card ((\<lambda>s. cls (slot_key kc s)) ` set K)" using st by (simp_all add: sum_state_def)
  have okd: "\<forall>d\<in>set ds. ok (slot_key kc (row_at src d))" using D(3) by blast
  obtain new t1 where C: "collect_pairs kc n tid src ds [] (t, Some False) = Returns ([] @ new, (t1, Some False))"
    "map fst new = filter (\<lambda>d. falls_to kc n tid (row_at src d)) ds"
    "merged_state kc ok sz fs t1 (K @ map (\<lambda>x. row_at src (fst x)) new) (\<lambda>_. K)"
    "\<forall>x\<in>set new. leads_to kc t1 (row_at src (fst x)) (snd x)"
    "inserted t1 = card ((\<lambda>s. cls (slot_key kc s)) ` set (K @ map (\<lambda>x. row_at src (fst x)) new))" "max_fill t1 = max_fill t"
    using collect_pairs_ok [OF m pl src(2) kl okK okd ins _ room(2,3), of n tid "[]" "Some False"] room(1) unfolding D(2) by blast
  have mine: "map (\<lambda>x. row_at src (fst x)) new = ?mine"
    using arg_cong [OF C(2), of "map (row_at src)"] by (simp add: D(2) [symmetric] filter_map comp_def)
  have ok_new: "x \<in> set new \<Longrightarrow> fst x \<in> set ds" for x
    using arg_cong [OF C(2), of set] by auto
  have "\<exists>t'. merge_granules fadd src new (key_size agg + payload_offset agg) (granules agg) t1 = Returns t' \<and>
    merged_state kc ok sz fs t' (K @ ?mine) (\<lambda>j. if j < length ([] :: field list) then K else K @ map (\<lambda>x. row_at src (fst x)) new) \<and>
    inserted t' = inserted t1 \<and> max_fill t' = max_fill t1"
  proof (rule merge_granules_ok [where pre = "[]" and D = "\<lambda>_. K", OF _ _ pl prims src(2)])
    show "fs = [] @ merge_fields fadd (key_size agg + payload_offset agg) (granules agg)" using fs by simp
    show "merged_state kc ok sz fs t1 (K @ ?mine) (\<lambda>_. K)" using C(3) mine by simp
    show "\<forall>x\<in>set new. leads_to kc t1 (row_at src (fst x)) (snd x) \<and> row_at src (fst x) \<in> set (K @ ?mine) \<and>
      fst x + sz \<le> length (ht_data src) \<and> ok (slot_key kc (row_at src (fst x)))"
      using C(4) D(3) [OF ok_new] src(2) by (auto simp: mine [symmetric])
  qed
  then have "\<exists>t'. merge_granules fadd src new (key_size agg + payload_offset agg) (granules agg) t1 = Returns t' \<and>
    merged_state kc ok sz fs t' (K @ ?mine) (\<lambda>_. K @ ?mine) \<and> inserted t' = inserted t1 \<and> max_fill t' = max_fill t1"
    by (simp only: mine list.size not_less_zero if_False)
  then obtain t' where G: "merge_granules fadd src new (key_size agg + payload_offset agg) (granules agg) t1 = Returns t'"
    "merged_state kc ok sz fs t' (K @ ?mine) (\<lambda>_. K @ ?mine)" "inserted t' = inserted t1" "max_fill t' = max_fill t1"
    by blast
  have "\<forall>s\<in>set (table_groups src). ok (slot_key kc s)" using okd unfolding D(2) [symmetric] by simp
  then have "\<forall>s\<in>set (K @ ?mine). ok (slot_key kc s)" using okK by auto
  moreover have "inserted t' = card ((\<lambda>s. cls (slot_key kc s)) ` set (K @ ?mine))" using G(3) C(5) unfolding mine by simp
  ultimately have "sum_state sz fs t' (K @ ?mine)" using G(2) unfolding sum_state_def by blast
  moreover have "mergeSingleTable kc fadd agg n tid src t = Returns t'"
    using D(1) C(1) G(1) by (simp add: mergeSingleTable_def collect_rounds_def)
  ultimately show ?thesis using G(4) C(6) by simp
qed

lemma merge_all_ok:
  assumes "sum_state sz fs t K" "\<forall>src\<in>set srcs. source_ok kc ok src \<and> total_slot_size src = sz"
    and fs: "fs = merge_fields fadd (key_size agg + payload_offset agg) (granules agg)"
    and pl: "placed (kc_len kc) sz fs" and prims: "\<forall>g\<in>set (granules agg). \<exists>r. merge_prim fadd g = Returns r"
    and "set K \<union> set (filter (falls_to kc n tid) (concat (map table_groups srcs))) \<subseteq> S" "finite S"
      "card ((\<lambda>s. cls (slot_key kc s)) ` S) < max_fill t"
  shows "\<exists>t'. merge_all (mergeSingleTable kc fadd agg n tid) srcs t = Returns t' \<and>
    sum_state sz fs t' (K @ filter (falls_to kc n tid) (concat (map table_groups srcs)))"
  using assms(1,2,6-8)
proof (induction srcs arbitrary: t K)
  case (Cons src srcs)
  let ?mine = "filter (falls_to kc n tid) (table_groups src)"
  obtain t1 where S: "mergeSingleTable kc fadd agg n tid src t = Returns t1" "sum_state sz fs t1 (K @ ?mine)" "max_fill t1 = max_fill t"
    using mergeSingleTable_ok [OF Cons.prems(1) _ _ fs pl prims _ Cons.prems(4,5), of src n tid] Cons.prems(2,3) by auto
  show ?case using Cons.IH [OF S(2)] Cons.prems S(1,3) by simp
qed simp

text \<open>The table of a thread once it has merged all old tables into its new one.\<close>

lemma thread_merge:
  assumes src: "\<forall>src\<in>set srcs. source_ok kc ok src \<and> total_slot_size src = sz"
    and fs: "fs = merge_fields fadd (key_size agg + payload_offset agg) (granules agg)"
    and pl: "placed (kc_len kc) sz fs" and prims: "\<forall>g\<in>set (granules agg). \<exists>r. merge_prim fadd g = Returns r"
    and new: "2 \<le> m" "pot m" "kc_len kc \<le> sz" "sz < 65536"
    and room: "card ((\<lambda>s. cls (slot_key kc s)) ` set (filter (falls_to kc n tid) (concat (map table_groups srcs)))) < m div 2"
  shows "\<exists>t. merge_all (mergeSingleTable kc fadd agg n tid) srcs (fresh_ht b sz m) = Returns t \<and> ht_inv kc ok t \<and>
    (\<forall>k. ok k \<longrightarrow> (let gs = with_key kc k (concat (map table_groups srcs)) in
       if gs \<noteq> [] \<and> unat (kc_hash kc k) mod n = tid
       then \<exists>g. ht_abs kc t k = Some g \<and> (\<forall>f\<in>set fs. field_of f g = field_sum f gs) else ht_abs kc t k = None))"
proof -
  let ?all = "concat (map table_groups srcs)" and ?fresh = "fresh_ht b sz m"
  have "ht_inv kc ok ?fresh" using new by (intro inv_fresh) auto
  then have "sum_state sz fs ?fresh []" by (simp add: sum_state_def merged_state_def with_key_def)
  from merge_all_ok [OF this src fs pl prims, of n tid "set (filter (falls_to kc n tid) ?all)"] room
  obtain t where t: "merge_all (mergeSingleTable kc fadd agg n tid) srcs ?fresh = Returns t"
    "sum_state sz fs t (filter (falls_to kc n tid) ?all)" by auto
  let ?mine = "filter (falls_to kc n tid) ?all"
  have m: "merged_state kc ok sz fs t ?mine (\<lambda>_. ?mine)" using t(2) by (simp add: sum_state_def)
  have oks: "ok (slot_key kc s)" if "s \<in> set ?all" for s
    using that src by (auto simp: table_groups_def source_ok_def used_def)
  have wk: "with_key kc k ?mine = (if unat (kc_hash kc k) mod n = tid then with_key kc k ?all else [])" if "ok k" for k
  proof -
    have "falls_to kc n tid s \<longleftrightarrow> unat (kc_hash kc k) mod n = tid" if "s \<in> set ?all" "kc_eq kc (slot_key kc s) k" for s
      using key_hash [OF oks [OF that(1)] \<open>ok k\<close> that(2)] by (simp add: falls_to_def)
    then have "filter (\<lambda>s. kc_eq kc (slot_key kc s) k \<and> falls_to kc n tid s) ?all =
        filter (\<lambda>s. kc_eq kc (slot_key kc s) k \<and> unat (kc_hash kc k) mod n = tid) ?all"
      by (intro filter_cong) auto
    then show ?thesis by (simp add: with_key_def conj_commute)
  qed
  have "let gs = with_key kc k ?all in
       if gs \<noteq> [] \<and> unat (kc_hash kc k) mod n = tid
       then \<exists>g. ht_abs kc t k = Some g \<and> (\<forall>f\<in>set fs. field_of f g = field_sum f gs) else ht_abs kc t k = None" if k: "ok k" for k
  proof -
    have none: "ht_abs kc t k = None \<longleftrightarrow> with_key kc k ?mine = []" using m k by (simp add: merged_state_def)
    have some: "field_of f g = field_sum f (with_key kc k ?mine)" if "ht_abs kc t k = Some g" "f \<in> set fs" for g f
      using m k that by (auto simp: merged_state_def in_set_conv_nth)
    show ?thesis
    proof (cases "unat (kc_hash kc k) mod n = tid")
      case True with none some wk [OF k] show ?thesis by (cases "ht_abs kc t k") (auto simp: Let_def)
    next
      case False with none wk [OF k] show ?thesis by (simp add: Let_def)
    qed
  qed
  with t(1) m show ?thesis by (auto simp: merged_state_def)
qed

end

section \<open>The merge of an aggregation\<close>

text \<open>A granule is merged in its full width, and the addition of floating point numbers keeps the width.\<close>

definition whole_prim :: "(nat \<Rightarrow> bytes \<Rightarrow> bytes \<Rightarrow> bytes) \<Rightarrow> iu \<times> agg_state \<Rightarrow> bool" where
  "whole_prim fadd g = (case merge_prim fadd g of Returns (w, op) \<Rightarrow> w = getStateSize (snd g) | _ \<Rightarrow> False)"

definition keeps_width :: "(nat \<Rightarrow> bytes \<Rightarrow> bytes \<Rightarrow> bytes) \<Rightarrow> bool" where
  "keeps_width fadd \<longleftrightarrow> (\<forall>n d s. length d = n \<longrightarrow> length s = n \<longrightarrow> length (fadd n d s) = n)"

lemma length_le_bytes [simp]: "length (le_bytes n v) = n"
  by (induction n arbitrary: v) simp_all

lemma le_bytes_numeral: "le_bytes (numeral k) v = of_nat v # le_bytes (pred_numeral k) (v div 256)"
  unfolding numeral_eq_Suc [of k] by (rule le_bytes.simps)

lemma merge_prim_width:
  assumes "keeps_width fadd" "merge_prim fadd g = Returns (w, op)" "length d = w" "length s = w"
  shows "length (op d s) = w"
proof -
  have "length (fadd w d s) = w" using assms(1,3,4) unfolding keeps_width_def by blast
  then show ?thesis using assms(2) by (cases g) (auto simp: merge_prim_def add_int_def Let_def split: if_splits)
qed

lemma placed_merge_fields:
  assumes "keeps_width fadd" "list_all (whole_prim fadd) gs" "off + sum_list (map (getStateSize \<circ> snd) gs) \<le> hi"
  shows "placed off hi (merge_fields fadd off gs)"
  using assms
proof (induction gs arbitrary: off)
  case (Cons g gs)
  obtain w op where g: "merge_prim fadd g = Returns (w, op)" "w = getStateSize (snd g)"
    using Cons.prems(2) by (auto simp: whole_prim_def split: outcome.splits)
  show ?case using Cons.IH [of "off + w"] Cons.prems g merge_prim_width [OF Cons.prems(1) g(1)] by simp
qed simp

interpretation skm: key_classes "sk_cmp xxh key_size" "sk_ok key_size" "\<lambda>k. k" for xxh key_size
  by unfold_locales simp

interpretation ckm: key_classes "ck_cmp xxh strs" ck_ok strs for xxh strs
  by unfold_locales (auto simp: ck_eq)

lemma prims_return: "list_all (whole_prim fadd) gs \<Longrightarrow> \<forall>g\<in>set gs. \<exists>r. merge_prim fadd g = Returns r"
proof
  fix g assume "list_all (whole_prim fadd) gs" "g \<in> set gs"
  then have "whole_prim fadd g" by (simp add: list_all_iff)
  then show "\<exists>r. merge_prim fadd g = Returns r" by (cases "merge_prim fadd g") (auto simp: whole_prim_def)
qed

lemma plan_fields_placed:
  assumes "Aggregation_plan a groups descs = Returns p" "keeps_width fadd" "list_all (whole_prim fadd) (granules p)"
  shows "placed (key_size p) (key_size p + payload_size p) (merge_fields fadd (key_size p + payload_offset p) (granules p))"
proof -
  have "payload_size p = payload_offset p + sum_list (map (getStateSize \<circ> snd) (granules p))"
    using plan_payload [OF assms(1)] .
  then have "placed (key_size p + payload_offset p) (key_size p + payload_size p) (merge_fields fadd (key_size p + payload_offset p) (granules p))"
    using assms(2,3) by (intro placed_merge_fields) simp_all
  then show ?thesis by (rule placed_mono) simp
qed

lemma run_merge_tables:
  assumes "1 < n" "build tables n = Returns ts" "length ts = n"
    "\<And>tid. tid < n \<Longrightarrow> \<exists>t. merge_all (mergeSingleTable kc fadd p n tid) tables (ts ! tid) = Returns t \<and> P tid t"
  shows "\<exists>rs. run_merge kc build fadd p n tables = Returns rs \<and> length rs = n \<and> (\<forall>tid<n. P tid (rs ! tid))"
proof -
  obtain r where r: "merge_all (mergeSingleTable kc fadd p n tid) tables (ts ! tid) = Returns (r tid) \<and> P tid (r tid)" if "tid < n" for tid
    using assms(4) by metis
  have map: "map_outcome f xs = Returns (map r xs)" if "\<forall>x\<in>set xs. f x = Returns (r x)" for f xs
    using that by (induction xs) simp_all
  have "run_merge kc build fadd p n tables = Returns (map r [0..<n])"
    using assms(1-3) r by (simp add: run_merge_def prepareState_def, intro map) (simp add: mergeTables_def)
  then show ?thesis using r by (intro exI [of _ "map r [0..<n]"]) simp
qed


text \<open>The same for string keys: the groups of equal strings are merged, whichever pointer each thread has kept.\<close>

lemma merge_string_groups:
  assumes "Aggregation_plan a groups descs = Returns p" "key_size p = 8" "unat ps = payload_size p" "keeps_width fadd"
    "list_all (whole_prim fadd) (granules p)" "1 < n" "8 + payload_size p < 65536"
    "list_all (\<lambda>t. source_ok (ck_cmp xxh strs) ck_ok t \<and> total_slot_size t = 8 + payload_size p) tables"
    "list_all (\<lambda>tid. card ((\<lambda>s. strs (slot_key (ck_cmp xxh strs) s)) ` set (filter (falls_to (ck_cmp xxh strs) n tid) (concat (map table_groups tables))))
       < slots_per_merge_table (map ht_size tables) n div 2) [0..<n]"
  shows "\<exists>ts. run_merge (ck_cmp xxh strs) (ck_buildMergeTables ps) fadd p n tables = Returns ts \<and> length ts = n \<and>
    (\<forall>tid<n. ck_inv xxh strs (ts ! tid) \<and>
      (\<forall>k. ck_ok k \<longrightarrow> (let gs = filter (\<lambda>s. kc_eq (ck_cmp xxh strs) (take 8 s) k) (concat (map table_groups tables)) in
         if gs \<noteq> [] \<and> unat (xxh (strs k)) mod n = tid
         then \<exists>g. ck_abs xxh strs (ts ! tid) k = Some g \<and>
           (\<forall>f\<in>set (merge_fields fadd (key_size p + payload_offset p) (granules p)). field_of f g = field_sum f gs)
         else ck_abs xxh strs (ts ! tid) k = None)))"
proof -
  let ?sz = "8 + payload_size p" and ?m = "slots_per_merge_table (map ht_size tables) n"
  have src: "\<forall>src\<in>set tables. source_ok (ck_cmp xxh strs) ck_ok src \<and> total_slot_size src = ?sz"
    using assms(8) by (simp add: list_all_iff)
  have "HashTableComplexKey 0 0 1 ps ?m = Returns (fresh_ht 0 ?sz ?m)"
    using assms(3,7) merge_slots_pot unat_add_small [of 8 ps] by (simp add: HashTableComplexKey_def SharedHashTableState_ok)
  then have build: "ck_buildMergeTables ps tables n = Returns (replicate n (fresh_ht 0 ?sz ?m))"
    by (simp add: ck_buildMergeTables_def repeat_new_Returns)
  have pl: "placed (kc_len (ck_cmp xxh strs)) ?sz (merge_fields fadd (key_size p + payload_offset p) (granules p))"
    using plan_fields_placed [OF assms(1,4,5)] assms(2) by simp
  show ?thesis
    unfolding ck_inv_def ck_abs_def
  proof (rule run_merge_tables [where build = "ck_buildMergeTables ps" and ts = "replicate n (fresh_ht 0 ?sz ?m)", OF assms(6) build])
    fix tid assume tid: "tid < n"
    have room: "card ((\<lambda>s. strs (slot_key (ck_cmp xxh strs) s)) ` set (filter (falls_to (ck_cmp xxh strs) n tid) (concat (map table_groups tables)))) < ?m div 2"
      using assms(9) tid by (simp add: list_all_iff)
    show "\<exists>t. merge_all (mergeSingleTable (ck_cmp xxh strs) fadd p n tid) tables (replicate n (fresh_ht 0 ?sz ?m) ! tid) = Returns t \<and>
      ht_inv (ck_cmp xxh strs) ck_ok t \<and>
      (\<forall>k. ck_ok k \<longrightarrow> (let gs = filter (\<lambda>s. kc_eq (ck_cmp xxh strs) (take 8 s) k) (concat (map table_groups tables)) in
         if gs \<noteq> [] \<and> unat (xxh (strs k)) mod n = tid
         then \<exists>g. ht_abs (ck_cmp xxh strs) t k = Some g \<and>
           (\<forall>f\<in>set (merge_fields fadd (key_size p + payload_offset p) (granules p)). field_of f g = field_sum f gs)
         else ht_abs (ck_cmp xxh strs) t k = None))"
      using ckm.thread_merge [OF src refl pl prims_return [OF assms(5)] merge_slots_pot(2,1) _ assms(7) room, of 0] tid
      by (simp add: ck_hash_eq with_key_def slot_key_def)
  qed simp
qed

section \<open>A concrete merge\<close>

text \<open>\<open>sum(x)\<close> of an 8 byte integer grouped by a 4 byte key, on two threads that both have seen the key 7.\<close>

definition merge_x :: iu where "merge_x = \<lparr> iu_addr = 60, iu_type = SignedInt 8, iu_name = ''x'' \<rparr>"
definition merge_key :: iu where "merge_key = \<lparr> iu_addr = 61, iu_type = UnsignedInt 4, iu_name = ''k'' \<rparr>"
definition merge_aggs :: "agg_description list" where "merge_aggs = [\<lparr> agg_iu = merge_x, code = AggSum, is_distinct = False \<rparr>]"

definition partial_table :: "u8 \<Rightarrow> shared_ht" where
  "partial_table v = \<lparr> ht_tags = [0, 128, 0, 0],
     ht_data = replicate 16 0 @ [7, 0, 0, 0, 0, 0, 0, 0, v, 0, 0, 0, 0, 0, 0, 0] @ replicate 32 0,
     mod_mask = 3, inserted = 1, max_fill = 2, total_slot_size = 16, data_block = 0 \<rparr>"

lemma merge_plan:
  obtains p where "Aggregation_plan 100 [merge_key] merge_aggs = Returns p" "key_size p = 4" "payload_offset p = 4" "payload_size p = 12"
    "granules p = [(merge_x, AggStateSum (SignedInt 8))]"
proof -
  have "(case Aggregation_plan 100 [merge_key] merge_aggs of Returns p \<Rightarrow> key_size p = 4 \<and> payload_offset p = 4 \<and> payload_size p = 12 \<and>
    granules p = [(merge_x, AggStateSum (SignedInt 8))] | _ \<Rightarrow> False)" by code_simp
  then show thesis using that by (auto split: outcome.splits)
qed

lemma partial_source: "source_ok (sk_cmp xxh 4) (sk_ok 4) (partial_table v)"
proof -
  have "used (partial_table v) = set (filter (\<lambda>i. ht_tags (partial_table v) ! i \<noteq> 0) [0..<4])" by (auto simp: used_def partial_table_def)
  then have used: "used (partial_table v) = {1}" by (simp add: partial_table_def upt_rec)
  have "pot 4" by (auto simp: pot_def intro: exI [of _ 2])
  then show ?thesis
    unfolding source_ok_def used by (simp add: ht_shape_def sk_ok_def slot_key_def slot_at_def mem_read_def filled_bit partial_table_def)
qed

lemma partial_groups: "table_groups (partial_table v) = [[7, 0, 0, 0, 0, 0, 0, 0, v, 0, 0, 0, 0, 0, 0, 0]]"
  by (simp add: table_groups_def partial_table_def slot_at_def mem_read_def upt_rec)


text \<open>
  The two restrictions are needed. A count over a column of four bytes is merged in its low four bytes only; and when the new table
  grows in the middle of the key loop, the pointers found before are followed into the block that was freed.
\<close>

lemma count_over_int_truncated:
  "merge_prim fadd (\<lparr> iu_addr = 0, iu_type = UnsignedInt 4, iu_name = [] \<rparr>, AggStateCount) = Returns (4, add_int 4) \<and> getStateSize AggStateCount = 8"
proof -
  have "type_id (UnsignedInt 4) = ''UI4''" by code_simp
  then show ?thesis by (simp add: merge_prim_def)
qed

definition wide_table :: shared_ht where
  "wide_table = \<lparr> ht_tags = [128, 128, 128, 0, 0, 0, 0, 0],
     ht_data = [1, 0, 0, 0, 5, 0, 0, 0, 2, 0, 0, 0, 6, 0, 0, 0, 3, 0, 0, 0, 7, 0, 0, 0] @ replicate 40 0,
     mod_mask = 7, inserted = 3, max_fill = 4, total_slot_size = 8, data_block = 0 \<rparr>"

definition merge_plan_i4 :: agg_plan where
  "merge_plan_i4 = \<lparr> group_by = [], granules = [(\<lparr> iu_addr = 0, iu_type = SignedInt 4, iu_name = [] \<rparr>, AggStateSum (SignedInt 4))],
     compute = [], out_key_ius = [], out_aggregate_ius = [], pseudo_ius = [], packed_ht_key = merge_key, agg_pointer_result = merge_key,
     ht_scan_result = merge_key, key_size = 4, payload_offset = 0, payload_size = 4, requires_complex_ht = False \<rparr>"

lemma growing_merge_writes_to_freed_block:
  "mergeSingleTable (sk_cmp (\<lambda>k. 0) 4) (\<lambda>n. add_int n) merge_plan_i4 1 0 wide_table (fresh_ht 0 8 4) =
     Throws ''undefined behaviour: write to a freed block''"
proof -
  have "map (\<lambda>j. j * total_slot_size wide_table) (stops_from filled wide_table 0) = [0, 8, 16]" by code_simp
  then have "scan_table wide_table = Some [0, 8, 16]" unfolding scan_table_slots by (rule arg_cong)
  then show ?thesis unfolding mergeSingleTable_def by (simp only: from_loop_def option.case obind.simps) code_simp
qed

end
