(* ===== verification/Fragments.thy ===== *)
theory Fragments
  imports RelAlg
begin

text \<open>
  The pre-compiled fragments of the interpreter (\<open>interpreter/*.cpp\<close>): every fragmentizer builds small pipelines, names each
  after the \<open>id()\<close> of the suboperator it stands for, and \<open>FragmentGenerator::build\<close> cuts them out with
  \<open>repipeAll\<close>. An interpreted suboperator is run by the fragment that carries its id (\<open>exec/runners/InterpretedRunner.cpp\<close>).
  The IUs and suboperators of a fragment are numbered per fragment. What is attached to a suboperator at run time (offsets, states,
  sizes) is absent from a fragment and written as 0.
\<close>

section \<open>Type lists\<close>

definition attachUnsignedIntegers :: "irtype list \<Rightarrow> irtype list" where
  "attachUnsignedIntegers types = types @ [SignedInt 8, SignedInt 4, SignedInt 2, SignedInt 1]"
definition attachSignedIntegers :: "irtype list \<Rightarrow> irtype list" where
  "attachSignedIntegers types = types @ [UnsignedInt 8, UnsignedInt 4, UnsignedInt 2, UnsignedInt 1]"
definition attachIntegers :: "irtype list \<Rightarrow> irtype list" where
  "attachIntegers types = attachSignedIntegers (attachUnsignedIntegers types)"
definition attachFloatingPoints :: "irtype list \<Rightarrow> irtype list" where
  "attachFloatingPoints types = types @ [Float 4, Float 8]"
definition attachNumeric :: "irtype list \<Rightarrow> irtype list" where
  "attachNumeric types = attachFloatingPoints (attachIntegers types) @ [Date]"
definition attachTypes :: "irtype list \<Rightarrow> irtype list" where
  "attachTypes types = attachNumeric types @ [CharT, Bool]"
definition attachStringType :: "irtype list \<Rightarrow> irtype list" where
  "attachStringType types = types @ [StringT]"
definition attachCharPtr :: "irtype list \<Rightarrow> irtype list" where
  "attachCharPtr types = types @ [Pointer CharT]"
definition attachPackedKeyTypes :: "irtype list \<Rightarrow> irtype list" where
  "attachPackedKeyTypes types = types @ [ByteArray 0, Pointer CharT]"

lemmas type_list_defs = attachTypes_def attachNumeric_def attachFloatingPoints_def attachIntegers_def attachSignedIntegers_def
  attachUnsignedIntegers_def attachStringType_def attachCharPtr_def attachPackedKeyTypes_def

section \<open>Identifiers\<close>

fun expr_name :: "expr_type \<Rightarrow> string" where
  "expr_name Add = ''add''" | "expr_name Cast = ''cast''" | "expr_name Constant = ''const''" | "expr_name Subtract = ''sub''"
| "expr_name Multiply = ''mul''" | "expr_name Divide = ''div''" | "expr_name Greater = ''gt''" | "expr_name GreaterEqual = ''ge''"
| "expr_name Less = ''lt''" | "expr_name LessEqual = ''le''" | "expr_name And = ''and''" | "expr_name Or = ''or''"
| "expr_name Eq = ''eq''" | "expr_name Neq = ''neq''" | "expr_name StrEquals = ''streq''" | "expr_name InList = ''string_in''"
| "expr_name NotLikeTokens = ''string_like''"

definition iu_id :: "iu \<Rightarrow> string" where
  "iu_id i = type_id (iu_type i)"

definition under_ids :: "iu list \<Rightarrow> string" where
  "under_ids ius = concat (map (\<lambda>i. ''_'' @ iu_id i) ius)"

text \<open>\<open>id()\<close> of every class, from what the constructor stored and the provided and source IUs.\<close>

fun spec_id :: "subop_spec \<Rightarrow> string" where
  "spec_id (TScanDriver n, out, src) = ''TScanDriver''"
| "spec_id (TScanIUProvider d, out, src) = ''TScanIUProvider'' @ iu_id (hd out)"
| "spec_id (FuseChunkSourceDriver, out, src) = ''FuseChunkSourceDriver''"
| "spec_id (FuseChunkSourceIUProvider, out, src) = ''FuseChunkSourceIUProvider'' @ iu_id (hd out)"
| "spec_id (FuseChunkSink, out, src) = ''FuseChunkSink'' @ iu_id (hd src)"
| "spec_id (CountingSink, out, src) = ''CountingSink''"
| "spec_id (Copy, out, src) = ''Copy_'' @ iu_id (hd out)"
| "spec_id (ColumnFilterScope ds, out, src) = ''ColumnFilterScope''"
| "spec_id (ColumnFilterLogic t self, out, src) =
     (if self then ''ColumnSelfFilterLogic_'' else ''ColumnFilterLogic_'') @ type_id t @ ''_'' @ iu_id (src ! 1)"
| "spec_id (ExpressionSubop ty, out, src) = ''expr_'' @ expr_name ty @ under_ids src @ ''_'' @ under_ids out"
| "spec_id (RuntimeExpressionSubop ty t v, out, src) =
     ''runtime_expr_'' @ expr_name ty @ under_ids src @ ''_'' @ type_id t @ ''_'' @ under_ids out"
| "spec_id (RuntimeKeyExpressionSubop off, out, src) = ''runtime_key_expr_eq_'' @ under_ids src"
| "spec_id (KeyPackerSubop off, out, src) = ''key_packer'' @ under_ids src"
| "spec_id (KeyUnpackerSubop off, out, src) = ''key_unpacker_'' @ iu_id (src ! 0) @ ''_'' @ iu_id (out ! 0)"
| "spec_id (AggregatorSubop g off, out, src) = agg_state_id g"
| "spec_id (AggReaderSubop c off1 off2, out, src) = agg_compute_id c"
| "spec_id (RuntimeFunctionSubop f args ref res st, out, src) =
     ''rt_fct_'' @ f @ under_ids args @ under_ids (case res of None \<Rightarrow> [] | Some i \<Rightarrow> [i])"
| "spec_id (HashTableSource ID st, out, src) = ''hash_table_source_'' @ ID"
| "spec_id (ScratchPadIUProvider, out, src) = ''ScratchPadIUProvider''"

definition subop_id :: "subop \<Rightarrow> string" where
  "subop_id s = spec_id (kind s, provided_ius s, source_ius s)"

section \<open>Fragmentizers\<close>

type_synonym fragment = "string \<times> subop_spec list"

definition frag_iu :: "nat \<Rightarrow> irtype \<Rightarrow> string \<Rightarrow> iu" where
  "frag_iu k t name = \<lparr> iu_addr = k, iu_type = t, iu_name = name \<rparr>"

text \<open>A fragment of one suboperator, named by it.\<close>

definition single :: "subop_spec \<Rightarrow> fragment" where
  "single s = (spec_id s, [s])"

definition AggregationFragmentizer :: "fragment list" where
  "AggregationFragmentizer =
     single (AggregatorSubop AggStateCount 0, [], [frag_iu 0 char_ptr [], frag_iu 1 (SignedInt 8) []]) #
     map (\<lambda>t. single (AggregatorSubop (AggStateSum t) 0, [], [frag_iu 0 char_ptr [], frag_iu 1 t []])) (attachNumeric []) @
     map (\<lambda>t. single (AggReaderSubop (AggComputeUnpack t) 0 None, [frag_iu 1 t []], [frag_iu 0 char_ptr []])) (attachTypes []) @
     map (\<lambda>t. single (AggReaderSubop (AggComputeAvg t) 0 None, [frag_iu 1 (Float 8) []], [frag_iu 0 char_ptr []])) (attachNumeric [])"

definition TScanFragmetizer :: "fragment list" where
  "TScanFragmetizer = map (\<lambda>t.
     let driver_iu = frag_iu 0 (UnsignedInt 8) ''driver_idx'';
         iu_op = (TScanIUProvider 0, [frag_iu 1 t []], [driver_iu])
     in (spec_id iu_op, [(TScanDriver 0, [driver_iu], []), iu_op])) (attachStringType (attachTypes []))"

definition CopyFragmentizer :: "fragment list" where
  "CopyFragmentizer = map (\<lambda>t. single (Copy, [frag_iu 1 t []], [frag_iu 0 t []])) (attachTypes [])"

definition expression_op_types :: "expr_type list" where
  "expression_op_types = [Add, Subtract, Multiply, Divide, Eq, Neq, Less, LessEqual, Greater, GreaterEqual, And, Or]"

definition fragmentizeBinary :: "fragment list" where
  "fragmentizeBinary = concat (map (\<lambda>t. map (\<lambda>operation.
     single (ExpressionSubop operation, [frag_iu 2 (derive operation [t, t]) []], [frag_iu 0 t [], frag_iu 1 t []])) expression_op_types) (attachTypes []))"
definition fragmentizeCasts :: "fragment list" where
  "fragmentizeCasts = concat (map (\<lambda>t. map (\<lambda>u.
     single (ExpressionSubop Cast, [frag_iu 1 u []], [frag_iu 0 t []])) (attachTypes [])) (attachTypes []))"
definition fragmentizeFunctions :: "fragment list" where
  "fragmentizeFunctions =
     [single (ExpressionSubop StrEquals, [frag_iu 2 (derive StrEquals [StringT, StringT]) []], [frag_iu 0 StringT [], frag_iu 1 StringT []])]"
definition ExpressionFragmentizer :: "fragment list" where
  "ExpressionFragmentizer = fragmentizeBinary @ fragmentizeCasts @ fragmentizeFunctions"

definition HashTableSourceFragmentizer :: "fragment list" where
  "HashTableSourceFragmentizer =
     map (\<lambda>ID. single (HashTableSource ID 0, [frag_iu 0 char_ptr []], [])) [''sk'', ''ck'', ''dl''] @
     [single (HashTableSource ''at_sk'' 0, [frag_iu 0 char_ptr [], frag_iu 1 (ByteArray 5) []], [])]"

definition runtime_op_types :: "expr_type list" where
  "runtime_op_types = [Add, Subtract, Multiply, Divide, Eq, Neq, Less, LessEqual, Greater, GreaterEqual]"

definition RuntimeExpressionFragmentizer :: "fragment list" where
  "RuntimeExpressionFragmentizer =
     concat (map (\<lambda>t. map (\<lambda>operation.
         single (RuntimeExpressionSubop operation t None, [frag_iu 1 (derive operation [t, t]) []], [frag_iu 0 t []])) runtime_op_types @
       [single (RuntimeExpressionSubop Constant (UnsignedInt 1) None, [frag_iu 1 (UnsignedInt 1) []], [frag_iu 0 t []])]) (attachNumeric [])) @
     [single (RuntimeExpressionSubop StrEquals StringT None, [frag_iu 1 (derive StrEquals [StringT, StringT]) []], [frag_iu 0 StringT []]),
      single (RuntimeExpressionSubop InList (Pointer CharT) None, [frag_iu 1 (derive InList [StringT]) []], [frag_iu 0 StringT []]),
      single (RuntimeExpressionSubop NotLikeTokens (Pointer CharT) None, [frag_iu 1 (derive NotLikeTokens [StringT]) []], [frag_iu 0 StringT []])]"

definition RuntimeKeyExpressionFragmentizer :: "fragment list" where
  "RuntimeKeyExpressionFragmentizer = map (\<lambda>t. single (RuntimeKeyExpressionSubop 0, [frag_iu 0 Bool ''out_iu''],
     [frag_iu 1 t ''compare'', frag_iu 2 char_ptr ''data_ptrs''])) (attachTypes [])"

definition key_source_types :: "irtype list" where
  "key_source_types = [Pointer CharT, ByteArray 1]"

definition KeyPackingFragmentizer :: "fragment list" where
  "KeyPackingFragmentizer =
     concat (map (\<lambda>t. map (\<lambda>src. single (KeyPackerSubop 0, [], [frag_iu 1 t ''iu_in'', frag_iu 0 src ''compound_key''])) key_source_types)
       (attachStringType (attachTypes []))) @
     concat (map (\<lambda>t. map (\<lambda>src. single (KeyUnpackerSubop 0, [frag_iu 0 t ''iu_out''], [frag_iu 1 src ''compound_key''])) key_source_types)
       (attachStringType (attachTypes [])))"

definition CountingSinkFragmentizer :: "fragment list" where
  "CountingSinkFragmentizer = [single (CountingSink, [], [frag_iu 0 CharT []])]"

text \<open>A filter fragment holds the scope and one logic operator and is named by the latter.\<close>

definition condition_types :: "irtype list" where
  "condition_types = [Bool, Pointer CharT]"

definition filter_fragment :: "irtype \<Rightarrow> irtype \<Rightarrow> irtype \<Rightarrow> bool \<Rightarrow> fragment" where
  "filter_fragment condition_type target_type out_type self =
     (let filter_iu = frag_iu 0 condition_type ''filter'';
          pseudo_iu = frag_iu 1 Void [];
          target_iu = (if self then filter_iu else frag_iu 2 target_type ''target_iu'');
          logic = (ColumnFilterLogic condition_type self, [frag_iu 3 out_type ''target_iu_filtered''], [pseudo_iu, target_iu])
      in (spec_id logic, [(ColumnFilterScope [(11, target_iu)], [pseudo_iu], [filter_iu]), logic]))"

definition ColumnFilterFragmentizer :: "fragment list" where
  "ColumnFilterFragmentizer =
     concat (map (\<lambda>t. map (\<lambda>c. filter_fragment c t t False) condition_types) (attachCharPtr (attachStringType (attachTypes [])))) @
     map (\<lambda>c. filter_fragment c c c True) condition_types @
     map (\<lambda>c. filter_fragment c (ByteArray 0) (Pointer CharT) False) condition_types"

text \<open>The factories of \<open>RuntimeFunctionSubop\<close> that only fragments use.\<close>

definition htInsert :: "iu option \<Rightarrow> iu \<Rightarrow> iu list \<Rightarrow> nat \<Rightarrow> subop_spec" where
  "htInsert pointers key pseudo st =
     (RuntimeFunctionSubop ''ht_sk_insert'' [key] [\<not> is_byte_ptr (iu_type key)] pointers st,
      (case pointers of None \<Rightarrow> [] | Some p \<Rightarrow> [p]), key # pseudo)"

definition htLookup :: "string \<Rightarrow> iu \<Rightarrow> iu \<Rightarrow> iu list \<Rightarrow> nat \<Rightarrow> subop_spec" where
  "htLookup ID pointers key pseudo st =
     (RuntimeFunctionSubop (''ht_'' @ ID @ ''_lookup'') [key] [\<not> is_byte_ptr (iu_type key)] (Some pointers) st, [pointers], key # pseudo)"

definition table_fragments :: "irtype \<Rightarrow> subop_spec list" where
  "table_fragments in_type =
     (let key = frag_iu 0 in_type []; result_ptr = frag_iu 1 char_ptr []; hash = frag_iu 2 (UnsignedInt 8) [] in
      [htLookup ''sk'' result_ptr key [] 0, htLookup ''dl'' result_ptr key [] 0, htLookup ''at_sk'' result_ptr key [] 0,
       htHashAndPrefetch ''at_sk'' hash key [] None 0, htHashAndPrefetch ''at_sk'' hash key [] (Some 4) 0,
       htHashAndPrefetch ''at_sk'' hash key [] (Some 8) 0,
       htLookupWithHash ''at_sk'' False result_ptr key hash None 0, htLookupWithHash ''at_sk'' True result_ptr key hash None 0] @
      concat (map (\<lambda>out_iu. [htInsert out_iu key [] 0, htLookupOrInsert ''sk'' out_iu key [] 0, htLookupOrInsert ''dl'' out_iu key [] 0])
        [Some result_ptr, None]))"

definition RuntimeFunctionSubopFragmentizer :: "fragment list" where
  "RuntimeFunctionSubopFragmentizer =
     concat (map (\<lambda>t. map single (table_fragments t)) (attachPackedKeyTypes (attachTypes []))) @
     [single (materializeTuple (frag_iu 1 char_ptr []) [frag_iu 0 CharT []] 0),
      single (htNoKeyLookup (frag_iu 1 char_ptr []) (frag_iu 0 CharT []) 0),
      single (htLookup ''ck'' (frag_iu 1 char_ptr []) (frag_iu 0 StringT []) [] 0),
      single (htLookupOrInsert ''ck'' (Some (frag_iu 1 char_ptr [])) (frag_iu 0 StringT []) [] 0)]"

text \<open>The order of \<open>FragmentGenerator::build\<close>.\<close>

definition fragments :: "fragment list" where
  "fragments = AggregationFragmentizer @ TScanFragmetizer @ CopyFragmentizer @ ExpressionFragmentizer @ HashTableSourceFragmentizer @
     RuntimeExpressionFragmentizer @ RuntimeKeyExpressionFragmentizer @ KeyPackingFragmentizer @ CountingSinkFragmentizer @
     ColumnFilterFragmentizer @ RuntimeFunctionSubopFragmentizer"

text \<open>The pipeline of a fragment and the pipeline that is compiled for it.\<close>

definition fragment_pipe :: "subop_spec list \<Rightarrow> pipeline" where
  "fragment_pipe specs = pipe_of (number make_subop 10 specs)"

definition FragmentGenerator_build :: "(iu list \<Rightarrow> iu list) \<Rightarrow> (string \<times> pipeline outcome) list" where
  "FragmentGenerator_build set_order =
     map (\<lambda>(name, specs). (name, repipeAll set_order (10 + length specs) (fragment_pipe specs) 0 (length specs))) fragments"

text \<open>\<open>FragmentCache::getFragment\<close>: the compiled function of a name, known by the pipeline it was generated from.\<close>

definition getFragment :: "(iu list \<Rightarrow> iu list) \<Rightarrow> string \<Rightarrow> pipeline option" where
  "getFragment set_order name = (case map_of (FragmentGenerator_build set_order) name of Some (Returns q) \<Rightarrow> Some q | _ \<Rightarrow> None)"

section \<open>The interpreters of a pipeline\<close>

text \<open>\<open>PipelineExecutor::setUpInterpreted\<close>: which suboperators are interpreted; their numbers are \<open>interpreter_offsets\<close>.\<close>

definition isFuseChunkOp :: "subop \<Rightarrow> bool" where
  "isFuseChunkOp s \<longleftrightarrow> kind s = FuseChunkSink \<or> kind s = FuseChunkSourceIUProvider"

definition interpreted :: "subop \<Rightarrow> bool" where
  "interpreted s \<longleftrightarrow> \<not> outgoingStrongLinks s \<and> \<not> isFuseChunkOp s"

fun interpreter_offsets :: "nat \<Rightarrow> subop list \<Rightarrow> nat option list" where
  "interpreter_offsets n [] = []"
| "interpreter_offsets n (s # ss) = (if interpreted s then Some n # interpreter_offsets (Suc n) ss else None # interpreter_offsets n ss)"

text \<open>
  The constructors of \<open>InterpretedRunner\<close> and of its base class: the runner's own pipeline, which the fragment's states
  are taken from, and the fragment.
\<close>

record runner =
  run_pipe :: pipeline
  fragment_of :: pipeline
  zero_copy :: bool
  key_packer_ius :: "iu list"

definition PipelineRunner_ok :: "pipeline \<Rightarrow> bool" where
  "PipelineRunner_ok q \<longleftrightarrow> isSource (hd (suboperators q)) \<and>
     (isSink (last (suboperators q)) \<or> is_void (hd (provided_ius (last (suboperators q)))))"

definition InterpretedRunner :: "(iu list \<Rightarrow> iu list) \<Rightarrow> nat \<Rightarrow> pipeline \<Rightarrow> nat \<Rightarrow> runner outcome" where
  "InterpretedRunner set_order fresh p idx =
     (let op = suboperators p ! idx in
      obind (repipeAll set_order fresh p idx (idx + 1)) (\<lambda>q.
        if \<not> PipelineRunner_ok q then Throws ''assertion''
        else case getFragment set_order (subop_id op) of
          None \<Rightarrow> Throws (''No fragment '' @ subop_id op @ '' found for interpreted runner.'')
        | Some f \<Rightarrow> Returns \<lparr> run_pipe = q, fragment_of = f,
            zero_copy = (case kind op of TScanIUProvider d \<Rightarrow> True | _ \<Rightarrow> False),
            key_packer_ius = concat (map (\<lambda>s. case kind s of KeyPackerSubop off \<Rightarrow> [source_ius s ! 1] | _ \<Rightarrow> []) (suboperators q)) \<rparr>))"

text \<open>\<open>setUpInterpreted\<close>; every runner repipes at its own fresh addresses.\<close>

definition setUpInterpreted :: "(iu list \<Rightarrow> iu list) \<Rightarrow> nat \<Rightarrow> pipeline \<Rightarrow> runner list outcome" where
  "setUpInterpreted set_order fresh p =
     map_outcome (InterpretedRunner set_order fresh p) (filter (\<lambda>k. interpreted (suboperators p ! k)) [0..<length (suboperators p)])"

end
