(* ===== verification/Executor.thy ===== *)
theory Executor
  imports Complex_Main Fragments Morsels Runtime_Memory
begin

text \<open>
  Running one pipeline (\<open>exec/PipelineExecutor.{h,cpp}\<close>): the adaptive switching between the compiled and the interpreted
  backend, the swimlanes of the worker threads with the compilation in the background, and the morsels of relaxed operator fusion.
  Measured throughputs, in rows per nanosecond, are rational numbers that the environment supplies.
\<close>

section \<open>Preparing\<close>

datatype execution_mode = Fused | Interpreted | ROF | Hybrid

record prepared =
  compiler_setup_started :: bool
  interpreter_setup_started :: bool
  compilation_for :: "execution_mode list"
  interpreter_setups :: nat

text \<open>\<open>compilation_for\<close> and \<open>interpreter_setups\<close> count the calls of \<open>setUpFusedAsync\<close> and \<open>setUpInterpreted\<close>.\<close>

definition preparePipeline :: "execution_mode \<Rightarrow> prepared \<Rightarrow> prepared outcome" where
  "preparePipeline prep_mode s =
     (if prep_mode = Hybrid then Throws ''Prepare can only be called with compiled/interpreted mode''
      else let s1 = (if (prep_mode = Fused \<or> prep_mode = ROF) \<and> \<not> compiler_setup_started s
                     then s\<lparr> compilation_for := compilation_for s @ [prep_mode], compiler_setup_started := True \<rparr> else s)
           in Returns (if prep_mode = Interpreted \<and> \<not> interpreter_setup_started s1
                then s1\<lparr> interpreter_setups := interpreter_setups s1 + 1, interpreter_setup_started := True \<rparr> else s1))"

section \<open>Adaptive switching\<close>

definition computeTrials :: "rat \<Rightarrow> rat \<Rightarrow> nat \<times> nat" where
  "computeTrials interpreted_throughput compiled_throughput =
     (if compiled_throughput > 166 / 100 * interpreted_throughput then (4, 1)
      else if compiled_throughput > 133 / 100 * interpreted_throughput then (4, 2)
      else if interpreted_throughput > 166 / 100 * compiled_throughput then (1, 4)
      else if interpreted_throughput > 133 / 100 * compiled_throughput then (2, 4)
      else (4, 4))"

definition decay_throughput :: "rat \<Rightarrow> rat \<Rightarrow> rat" where
  "decay_throughput old_val new_val = (if old_val = 0 then new_val else 8 / 10 * old_val + 2 / 10 * new_val)"

text \<open>The local variables of the loop that switches.\<close>

record trials =
  it_counter :: nat
  compile_trials :: nat
  interpret_trials :: nat
  compiled_throughput :: rat
  interpreted_throughput :: rat

definition start_trials :: trials where
  "start_trials = \<lparr> it_counter = 0, compile_trials = 4, interpret_trials = 4, compiled_throughput = 0, interpreted_throughput = 0 \<rparr>"

definition iteration_size :: nat where "iteration_size = 40"

datatype backend = Compiled | Vectorized

definition choose_backend :: "trials \<Rightarrow> backend" where
  "choose_backend t =
     (if it_counter t mod iteration_size < compile_trials t then Compiled
      else if it_counter t mod iteration_size \<ge> compile_trials t \<and> it_counter t mod iteration_size < compile_trials t + interpret_trials t then Vectorized
      else if compiled_throughput t > interpreted_throughput t then Compiled
      else Vectorized)"

text \<open>\<open>timeAndRunInterpreted\<close> and \<open>timeAndRunCompiled\<close>: a picked morsel updates the average of its backend.\<close>

definition time_morsel :: "backend \<Rightarrow> rat option \<Rightarrow> trials \<Rightarrow> trials" where
  "time_morsel b measured t =
     (case measured of None \<Rightarrow> t
      | Some tp \<Rightarrow> (case b of
          Compiled \<Rightarrow> t\<lparr> compiled_throughput := decay_throughput (compiled_throughput t) tp \<rparr>
        | Vectorized \<Rightarrow> t\<lparr> interpreted_throughput := decay_throughput (interpreted_throughput t) tp \<rparr>))"

definition next_trials :: "trials \<Rightarrow> trials" where
  "next_trials t = (case computeTrials (interpreted_throughput t) (compiled_throughput t) of (c, i) \<Rightarrow>
     t\<lparr> compile_trials := c, interpret_trials := i, it_counter := it_counter t + 1 \<rparr>)"

section \<open>Hybrid swimlanes\<close>

text \<open>
  A thread interprets morsels and looks after each of them whether the compiled code is there; it then meets the others at the
  barrier and from there on switches. At the barrier it sleeps (\<open>Behind\<close>) until it is notified (\<open>Woken\<close>), unless it is the
  last one, which notifies the others (\<open>Releasing\<close>). The flag is \<open>terminate\<close>.
\<close>

datatype lane_pc = Interpreting | Looking bool | Arriving bool | Behind bool | Woken bool | Releasing bool | Switching bool | Finished

record lane =
  pc :: lane_pc
  trial_state :: trials
  executed :: "(backend \<times> (nat \<times> nat)) list"

text \<open>
  Shared by the threads: the index of the scan, what the background thread provides (\<open>compiled\<close> and \<open>fused_set_up\<close> are set
  together under the lock), whether the states of the compiled runner are set up, the barrier, and whether the printer has closed its
  output. \<open>crashed\<close> is set when compiled code is run that is not there or whose states are not set up.
\<close>

record hybrid =
  scan_idx :: nat
  fused_set_up :: bool
  states_set_up :: bool
  lane_barrier :: barrier
  output_closed :: bool
  crashed :: bool
  lanes :: "lane list"

definition hybrid_start :: "u64 \<Rightarrow> hybrid" where
  "hybrid_start n = \<lparr> scan_idx = 0, fused_set_up = False, states_set_up = False, lane_barrier = OnceBarrier n,
     output_closed = False, crashed = False, lanes = replicate (unat n) \<lparr> pc = Interpreting, trial_state = start_trials, executed = [] \<rparr> \<rparr>"

text \<open>
  \<open>runInterpretedMorsel\<close> and \<open>runFusedMorsel\<close> on a morsel that was picked or not; \<open>is_closed\<close> is what the printer answers, and
  \<open>tp\<close> the measured throughput. The lane before its program counter moves, and whether there are no more morsels.
\<close>

definition run_lane :: "backend \<Rightarrow> (nat \<times> nat) option \<Rightarrow> bool \<Rightarrow> rat \<Rightarrow> lane \<Rightarrow> lane \<times> bool" where
  "run_lane b picked is_closed tp l =
     (case picked of None \<Rightarrow> (l, True)
      | Some m \<Rightarrow> (let l' = l\<lparr> executed := executed l @ [(b, m)] \<rparr> in
          if is_closed then (l', True) else (l'\<lparr> trial_state := time_morsel b (Some tp) (trial_state l') \<rparr>, False)))"

text \<open>The barrier's \<open>notify_all\<close> and the test of a thread that wakes up, on lanes.\<close>

definition wake_lane :: "lane \<Rightarrow> lane" where
  "wake_lane l = (case pc l of Behind terminate \<Rightarrow> l\<lparr> pc := Woken terminate \<rparr> | _ \<Rightarrow> l)"

definition after_wait :: "barrier \<Rightarrow> bool \<Rightarrow> lane_pc" where
  "after_wait b terminate = (if wait_predicate b = Passed then Switching terminate else Behind terminate)"

text \<open>The source of the pipeline is a table scan, whose morsels all threads pick from one index.\<close>

inductive hybrid_step :: "nat \<Rightarrow> hybrid \<Rightarrow> hybrid \<Rightarrow> bool" for rel_size where
  vectorized: "i < length (lanes s) \<Longrightarrow> pc (lanes s ! i) = Interpreting \<Longrightarrow>
    tscan_pickMorsel rel_size (scan_idx s) = (picked, idx') \<Longrightarrow> run_lane Vectorized picked is_closed tp (lanes s ! i) = (l', terminate) \<Longrightarrow>
    hybrid_step rel_size s (s\<lparr> scan_idx := idx', output_closed := output_closed s \<or> picked \<noteq> None \<and> is_closed,
      lanes := (lanes s)[i := l'\<lparr> pc := Looking terminate \<rparr>] \<rparr>)"
| look: "i < length (lanes s) \<Longrightarrow> pc (lanes s ! i) = Looking terminate \<Longrightarrow>
    hybrid_step rel_size s (s\<lparr> lanes := (lanes s)[i := (lanes s ! i)\<lparr> pc := (if \<not> fused_set_up s \<and> \<not> terminate then Interpreting else Arriving terminate) \<rparr>] \<rparr>)"
| compiled: "\<not> fused_set_up s \<Longrightarrow> hybrid_step rel_size s (s\<lparr> fused_set_up := True \<rparr>)"
| arrive: "i < length (lanes s) \<Longrightarrow> pc (lanes s ! i) = Arriving terminate \<Longrightarrow> arriveAndWait (lane_barrier s) = (b', p) \<Longrightarrow>
    hybrid_step rel_size s (s\<lparr> lane_barrier := b', states_set_up := states_set_up s \<or> p = Notifying \<and> fused_set_up s,
      lanes := (lanes s)[i := (lanes s ! i)\<lparr> pc := (if p = Notifying then Releasing terminate else Behind terminate) \<rparr>] \<rparr>)"
| notify: "i < length (lanes s) \<Longrightarrow> pc (lanes s ! i) = Releasing terminate \<Longrightarrow>
    hybrid_step rel_size s (s\<lparr> lanes := (map wake_lane (lanes s))[i := (lanes s ! i)\<lparr> pc := Switching terminate \<rparr>] \<rparr>)"
| wake: "i < length (lanes s) \<Longrightarrow> pc (lanes s ! i) = Woken terminate \<Longrightarrow>
    hybrid_step rel_size s (s\<lparr> lanes := (lanes s)[i := (lanes s ! i)\<lparr> pc := after_wait (lane_barrier s) terminate \<rparr>] \<rparr>)"
| adaptive: "i < length (lanes s) \<Longrightarrow> pc (lanes s ! i) = Switching False \<Longrightarrow> choose_backend (trial_state (lanes s ! i)) = b \<Longrightarrow>
    tscan_pickMorsel rel_size (scan_idx s) = (picked, idx') \<Longrightarrow> run_lane b picked is_closed tp (lanes s ! i) = (l', terminate) \<Longrightarrow>
    hybrid_step rel_size s (s\<lparr> scan_idx := idx', output_closed := output_closed s \<or> picked \<noteq> None \<and> is_closed,
      crashed := crashed s \<or> b = Compiled \<and> \<not> (fused_set_up s \<and> states_set_up s),
      lanes := (lanes s)[i := l'\<lparr> pc := Switching terminate, trial_state := next_trials (trial_state l') \<rparr>] \<rparr>)"
| finish: "i < length (lanes s) \<Longrightarrow> pc (lanes s ! i) = Switching True \<Longrightarrow>
    hybrid_step rel_size s (s\<lparr> lanes := (lanes s)[i := (lanes s ! i)\<lparr> pc := Finished \<rparr>] \<rparr>)"

inductive_cases hybrid_stepE [consumes 1, case_names vectorized look compiled arrive notify wake adaptive finish]: "hybrid_step rel_size s t"

inductive hybrid_spurious :: "hybrid \<Rightarrow> hybrid \<Rightarrow> bool" where
  spurious: "i < length (lanes s) \<Longrightarrow> pc (lanes s ! i) = Behind terminate \<Longrightarrow>
    hybrid_spurious s (s\<lparr> lanes := (lanes s)[i := (lanes s ! i)\<lparr> pc := after_wait (lane_barrier s) terminate \<rparr>] \<rparr>)"

inductive_cases hybrid_spuriousE [consumes 1, case_names spurious]: "hybrid_spurious s t"

text \<open>Runs, with the number of steps that are not spurious wake-ups.\<close>

inductive hybrid_run :: "nat \<Rightarrow> u64 \<Rightarrow> nat \<Rightarrow> hybrid \<Rightarrow> bool" for rel_size n where
  start: "hybrid_run rel_size n 0 (hybrid_start n)"
| more: "hybrid_run rel_size n k s \<Longrightarrow> hybrid_step rel_size s t \<Longrightarrow> hybrid_run rel_size n (Suc k) t"
| by_chance: "hybrid_run rel_size n k s \<Longrightarrow> hybrid_spurious s t \<Longrightarrow> hybrid_run rel_size n k t"

section \<open>Relaxed operator fusion\<close>

text \<open>The intervals that \<open>setUpFusedAsync\<close> compiles for the suboperators from number \<open>k\<close> on.\<close>

fun rof_intervals :: "nat \<Rightarrow> subop list \<Rightarrow> bool \<Rightarrow> nat \<Rightarrow> (nat \<times> nat) list outcome" where
  "rof_intervals k [] in_vectorized_interval curr_interval_start =
     Returns (if \<not> in_vectorized_interval then [(curr_interval_start, k)] else [])"
| "rof_intervals k (curr_subop # subops) in_vectorized_interval curr_interval_start =
     (let begins = rof curr_subop = BeginVectorized; in_vectorized = in_vectorized_interval \<or> begins;
          compiled = (if begins then [(curr_interval_start, k)] else [])
      in obind (if rof curr_subop = EndVectorized
                then (if in_vectorized then rof_intervals (k + 1) subops False (k + 1) else Throws ''assertion'')
                else rof_intervals (k + 1) subops in_vectorized curr_interval_start)
           (\<lambda>rest. Returns (compiled @ rest)))"

definition setUpFusedAsync :: "execution_mode \<Rightarrow> pipeline \<Rightarrow> (nat \<times> nat) list outcome" where
  "setUpFusedAsync m p =
     (if m = Fused then Returns [(0, length (suboperators p))]
      else if m = ROF then rof_intervals 0 (suboperators p) False 0
      else Throws ''setUpFusedAsync only supports setting up for Fused and ROF'')"

text \<open>What a morsel runs: the compiled code of an interval, or the interpreter of a suboperator, with its number.\<close>

datatype morsel_run = RunCompiled "nat \<times> nat" | RunInterpreted nat nat

function rof_loop :: "(nat \<times> nat) list \<Rightarrow> nat option list \<Rightarrow> nat \<Rightarrow> nat \<Rightarrow> morsel_run list" where
  "rof_loop compile_states interpreter_offs num_subops current_subop_idx =
     (if current_subop_idx < num_subops then
        (case compile_states of
           (first, second) # rest \<Rightarrow>
             if first = current_subop_idx then RunCompiled (first, second) # rof_loop rest interpreter_offs num_subops second
             else (case interpreter_offs ! current_subop_idx of
                 Some n \<Rightarrow> RunInterpreted n current_subop_idx # rof_loop compile_states interpreter_offs num_subops (current_subop_idx + 1)
               | None \<Rightarrow> rof_loop compile_states interpreter_offs num_subops (current_subop_idx + 1))
         | [] \<Rightarrow> (case interpreter_offs ! current_subop_idx of
                 Some n \<Rightarrow> RunInterpreted n current_subop_idx # rof_loop compile_states interpreter_offs num_subops (current_subop_idx + 1)
               | None \<Rightarrow> rof_loop compile_states interpreter_offs num_subops (current_subop_idx + 1)))
      else [])"
  by pat_completeness auto
termination
  by (relation "measures [\<lambda>(cs, os, n, i). length cs, \<lambda>(cs, os, n, i). n - i]") auto

declare rof_loop.simps [simp del]

text \<open>\<open>runROFMorsel\<close> once a morsel was picked; the asserts are in its first lines.\<close>

definition runROFMorsel :: "pipeline \<Rightarrow> morsel_run list outcome" where
  "runROFMorsel p =
     obind (setUpFusedAsync ROF p) (\<lambda>cs.
       case cs of [] \<Rightarrow> Throws ''assertion''
       | (first, second) # rest \<Rightarrow>
           if first \<noteq> 0 then Throws ''assertion''
           else Returns (RunCompiled (first, second) #
             rof_loop rest (interpreter_offsets 0 (suboperators p)) (length (suboperators p)) second))"

text \<open>\<open>runFusedMorsel\<close> and \<open>runInterpretedMorsel\<close> in the same terms.\<close>

definition runFusedMorsel :: "pipeline \<Rightarrow> morsel_run list" where
  "runFusedMorsel p = [RunCompiled (0, length (suboperators p))]"

definition runInterpretedMorsel :: "pipeline \<Rightarrow> morsel_run list" where
  "runInterpretedMorsel p =
     map (\<lambda>(n, k). RunInterpreted n k) (enumerate 0 (filter (\<lambda>k. interpreted (suboperators p ! k)) [0..<length (suboperators p)]))"

end
