(* ===== verification/Executor_Props.thy ===== *)
theory Executor_Props
  imports Executor
begin

text \<open>
  The swimlanes of a hybrid pipeline: the compiled code is run only when it is there and set up, no morsel is lost or run twice,
  both backends are tried again and again, and every interleaving of the threads ends.
\<close>

section \<open>What holds of a lane\<close>

fun bar_of :: "lane_pc \<Rightarrow> bar_pc" where
  "bar_of Interpreting = Outside"
| "bar_of (Looking b) = Outside"
| "bar_of (Arriving b) = Outside"
| "bar_of (Behind b) = Waiting"
| "bar_of (Woken b) = Notified"
| "bar_of (Releasing b) = Notifying"
| "bar_of (Switching b) = Passed"
| "bar_of Finished = Passed"

text \<open>The lane was told to stop, or it left the first loop without that.\<close>

definition told_to_stop :: "lane_pc \<Rightarrow> bool" where
  "told_to_stop p \<longleftrightarrow> p \<in> {Looking True, Arriving True, Behind True, Woken True, Releasing True, Switching True, Finished}"

definition saw_code :: "lane_pc \<Rightarrow> bool" where
  "saw_code p \<longleftrightarrow> p \<in> {Arriving False, Behind False, Woken False, Releasing False, Switching False}"

definition good_trials :: "trials \<Rightarrow> bool" where
  "good_trials t \<longleftrightarrow> (compile_trials t, interpret_trials t) \<in> {(4, 1), (4, 2), (1, 4), (2, 4), (4, 4)}"

definition all_executed :: "hybrid \<Rightarrow> (nat \<times> nat) list" where
  "all_executed s = concat (map (map snd \<circ> executed) (lanes s))"

text \<open>The compiled code is there, its states are set up, the barrier is open, and nothing is left to do.\<close>

definition lane_ok :: "bool \<Rightarrow> bool \<Rightarrow> bool \<Rightarrow> bool \<Rightarrow> lane \<Rightarrow> bool" where
  "lane_ok c u r e l \<longleftrightarrow> (saw_code (pc l) \<longrightarrow> c) \<and>
     (r \<and> pc l \<in> {Behind False, Woken False, Releasing False, Switching False} \<longrightarrow> u) \<and> (told_to_stop (pc l) \<longrightarrow> e) \<and> good_trials (trial_state l)"

definition hybrid_inv :: "u64 \<Rightarrow> nat \<Rightarrow> hybrid \<Rightarrow> bool" where
  "hybrid_inv n rel_size s \<longleftrightarrow> bar_inv n (lane_barrier s, map (bar_of \<circ> pc) (lanes s)) \<and> \<not> crashed s \<and>
     mset (all_executed s) + mset (tscan_morsels rel_size (scan_idx s)) = mset (tscan_morsels rel_size 0) \<and>
     (\<forall>l\<in>set (lanes s). lane_ok (fused_set_up s) (states_set_up s) (pending_arrivals (lane_barrier s) = 0)
        (output_closed s \<or> tscan_morsels rel_size (scan_idx s) = []) l)"

lemmas lane_defs = lane_ok_def saw_code_def told_to_stop_def

lemma lane_ok_mono: "lane_ok c u r e l \<Longrightarrow> (c \<longrightarrow> c') \<Longrightarrow> (u \<longrightarrow> u') \<Longrightarrow> (r' \<longrightarrow> r) \<Longrightarrow> (e \<longrightarrow> e') \<Longrightarrow> lane_ok c' u' r' e' l"
  by (auto simp: lane_ok_def)

lemma good_trials_next: "good_trials (next_trials t)"
  by (auto simp: good_trials_def next_trials_def computeTrials_def)

lemma good_trials_time: "good_trials (time_morsel b m t) = good_trials t"
  by (simp add: good_trials_def time_morsel_def split: option.splits backend.splits)

lemma good_trials_start: "good_trials start_trials"
  by (simp add: good_trials_def start_trials_def)

lemma good_trials_choose:
  assumes "good_trials t"
  shows "(it_counter t mod 40 = 0 \<longrightarrow> choose_backend t = Compiled) \<and> (it_counter t mod 40 = 4 \<longrightarrow> choose_backend t = Vectorized)"
  using assms by (auto simp: good_trials_def choose_backend_def iteration_size_def)

lemma ball_update: "\<forall>x\<in>set xs. P x \<Longrightarrow> P y \<Longrightarrow> \<forall>x\<in>set (xs[i := y]). P x"
  using set_update_subset_insert [of xs i y] by blast

lemma all_executed_update:
  assumes "i < length (lanes s)" "lanes t = (lanes s)[i := l]" "executed l = executed (lanes s ! i) @ ms"
  shows "mset (all_executed t) = mset (all_executed s) + mset (map snd ms)"
proof -
  have "mset (concat (map f (xs[i := l]))) = mset (concat (map f xs)) + mset (map snd ms)"
    if "i < length xs" "f l = f (xs ! i) @ map snd ms" for f :: "lane \<Rightarrow> (nat \<times> nat) list" and xs
    using that
  proof (induction xs arbitrary: i)
    case (Cons x xs) then show ?case by (cases i) (auto simp: union_ac)
  qed simp
  from this [of "lanes s" "map snd \<circ> executed"] assms show ?thesis by (simp add: all_executed_def)
qed

text \<open>What running a morsel, or finding none, does to the scan, the lane and the conditions.\<close>

lemma run_lane_pick:
  assumes "tscan_pickMorsel rel_size idx = (picked, idx')" "run_lane b picked is_closed tp l = (l', terminate)"
  obtains ms where "executed l' = executed l @ ms" "tscan_morsels rel_size idx = map snd ms @ tscan_morsels rel_size idx'"
    "pc l' = pc l" "good_trials (trial_state l') = good_trials (trial_state l)" "terminate \<or> length ms = 1" "length ms \<le> 1"
    "terminate \<longrightarrow> is_closed \<and> picked \<noteq> None \<or> tscan_morsels rel_size idx' = []"
proof (cases picked)
  case None
  then show ?thesis using that [of "[]"] assms tscan.pick_none [of rel_size idx idx'] by (simp add: run_lane_def)
next
  case (Some m)
  then show ?thesis using that [of "[(b, m)]"] assms tscan.pick_some [of rel_size idx m idx']
    by (auto simp: run_lane_def Let_def good_trials_time split: if_splits)
qed

section \<open>Every step keeps it\<close>

lemma hybrid_inv_start: "hybrid_inv n rel_size (hybrid_start n)"
proof -
  have "bar_inv n (OnceBarrier n, replicate (unat n) Outside)" by (rule bar_inv_start)
  moreover have "concat (replicate k []) = ([] :: (nat \<times> nat) list)" for k by (induction k) auto
  ultimately show ?thesis by (auto simp: hybrid_inv_def hybrid_start_def all_executed_def lane_defs good_trials_start)
qed

lemma bar_same:
  assumes "bar_inv n (b, map (bar_of \<circ> pc) ls)" "i < length ls" "bar_of (pc l) = bar_of (pc (ls ! i))"
  shows "bar_inv n (b, map (bar_of \<circ> pc) (ls[i := l]))"
proof -
  have "map (bar_of \<circ> pc) (ls[i := l]) = map (bar_of \<circ> pc) ls"
    using assms(2,3) by (intro nth_equalityI) (auto simp: nth_list_update)
  then show ?thesis using assms(1) by simp
qed

lemma bar_of_after_wait [simp]: "bar_of (after_wait b terminate) = wait_predicate b"
  by (simp add: after_wait_def wait_predicate_def)

lemma bar_of_wake_lane: "map (bar_of \<circ> pc) (map wake_lane ls) = notify_all (map (bar_of \<circ> pc) ls)"
proof -
  have "bar_of (pc (wake_lane l)) = (if bar_of (pc l) = Waiting then Notified else bar_of (pc l))" for l
    by (cases "pc l") (simp_all add: wake_lane_def)
  then show ?thesis by (simp add: notify_all_def)
qed

lemma wake_lane_simps [simp]: "executed (wake_lane l) = executed l" "lane_ok c u r e (wake_lane l) = lane_ok c u r e l"
  by (cases "pc l"; simp add: wake_lane_def lane_defs)+

text \<open>A lane that runs a morsel.\<close>

lemma hybrid_inv_run:
  assumes inv: "hybrid_inv n rel_size s" and i: "i < length (lanes s)"
    and pick: "tscan_pickMorsel rel_size (scan_idx s) = (picked, idx')" and run: "run_lane b picked is_closed tp (lanes s ! i) = (l', terminate)"
    and bar: "bar_of (pc l'') = bar_of (pc (lanes s ! i))" and ex: "executed l'' = executed l'"
    and ok: "\<And>e. (terminate \<longrightarrow> e) \<Longrightarrow> lane_ok (fused_set_up s) (states_set_up s) (pending_arrivals (lane_barrier s) = 0) e l''"
    and t: "lanes t = (lanes s)[i := l'']" "scan_idx t = idx'" "output_closed t \<longleftrightarrow> output_closed s \<or> picked \<noteq> None \<and> is_closed"
    "fused_set_up t = fused_set_up s" "states_set_up t = states_set_up s" "lane_barrier t = lane_barrier s" "\<not> crashed t"
  shows "hybrid_inv n rel_size t"
proof -
  obtain ms where ms: "executed l' = executed (lanes s ! i) @ ms"
      "tscan_morsels rel_size (scan_idx s) = map snd ms @ tscan_morsels rel_size idx'"
      "terminate \<longrightarrow> is_closed \<and> picked \<noteq> None \<or> tscan_morsels rel_size idx' = []"
    by (rule run_lane_pick [OF pick run])
  have "bar_inv n (lane_barrier t, map (bar_of \<circ> pc) (lanes t))"
    unfolding t by (rule bar_same) (use inv i bar in \<open>auto simp: hybrid_inv_def\<close>)
  moreover have "mset (all_executed t) + mset (tscan_morsels rel_size (scan_idx t)) = mset (tscan_morsels rel_size 0)"
    using inv all_executed_update [OF i t(1), of ms] ms ex by (simp add: hybrid_inv_def t add.assoc)
  moreover have "\<forall>l\<in>set (lanes t). lane_ok (fused_set_up t) (states_set_up t) (pending_arrivals (lane_barrier t) = 0)
      (output_closed t \<or> tscan_morsels rel_size (scan_idx t) = []) l"
    unfolding t(1)
  proof (rule ball_update)
    show "\<forall>l\<in>set (lanes s). lane_ok (fused_set_up t) (states_set_up t) (pending_arrivals (lane_barrier t) = 0)
        (output_closed t \<or> tscan_morsels rel_size (scan_idx t) = []) l"
      using inv ms(2) by (auto simp: hybrid_inv_def t elim!: lane_ok_mono)
    show "lane_ok (fused_set_up t) (states_set_up t) (pending_arrivals (lane_barrier t) = 0)
        (output_closed t \<or> tscan_morsels rel_size (scan_idx t) = []) l''"
      unfolding t by (rule ok) (use ms(3) in blast)
  qed
  ultimately show ?thesis using t by (simp add: hybrid_inv_def)
qed

text \<open>A lane that only moves on.\<close>

lemma hybrid_inv_move:
  assumes inv: "hybrid_inv n rel_size s" and i: "i < length (lanes s)" and ls: "ls = lanes s \<or> ls = map wake_lane (lanes s)"
    and bar: "bar_inv n (lane_barrier t, map (bar_of \<circ> pc) (lanes t))"
    and t: "t = s\<lparr> lane_barrier := lane_barrier t, states_set_up := states_set_up t, lanes := ls[i := (lanes s ! i)\<lparr> pc := p \<rparr>] \<rparr>"
    and ok: "\<forall>l\<in>set (lanes s). lane_ok (fused_set_up s) (states_set_up t) (pending_arrivals (lane_barrier t) = 0)
      (output_closed s \<or> tscan_morsels rel_size (scan_idx s) = []) l"
    "lane_ok (fused_set_up s) (states_set_up t) (pending_arrivals (lane_barrier t) = 0)
      (output_closed s \<or> tscan_morsels rel_size (scan_idx s) = []) ((lanes s ! i)\<lparr> pc := p \<rparr>)"
  shows "hybrid_inv n rel_size t"
proof -
  have l: "lanes t = ls[i := (lanes s ! i)\<lparr> pc := p \<rparr>]" and
    same: "fused_set_up t = fused_set_up s" "scan_idx t = scan_idx s" "output_closed t = output_closed s" "crashed t = crashed s"
    by (subst t, simp)+
  have "map executed (lanes t) = map executed (lanes s)"
    unfolding l using ls i by (intro nth_equalityI) (auto simp: nth_list_update)
  then have "all_executed t = all_executed s" by (simp add: all_executed_def flip: map_map)
  moreover have "\<forall>k\<in>set (lanes t). lane_ok (fused_set_up t) (states_set_up t) (pending_arrivals (lane_barrier t) = 0)
      (output_closed t \<or> tscan_morsels rel_size (scan_idx t) = []) k"
    unfolding l same using ls ok(1) by (intro ball_update ok(2)) auto
  ultimately show ?thesis using inv bar by (simp add: hybrid_inv_def same)
qed

text \<open>A lane that wakes up, by the notification or by chance.\<close>

lemma hybrid_inv_wait:
  assumes inv: "hybrid_inv n rel_size s" and i: "i < length (lanes s)" and p: "pc (lanes s ! i) = Woken terminate \<or> pc (lanes s ! i) = Behind terminate"
    and t: "t = s\<lparr> lanes := (lanes s)[i := (lanes s ! i)\<lparr> pc := after_wait (lane_barrier s) terminate \<rparr>] \<rparr>"
  shows "hybrid_inv n rel_size t"
proof -
  let ?E = "output_closed s \<or> tscan_morsels rel_size (scan_idx s) = []"
  let ?ok = "lane_ok (fused_set_up s) (states_set_up s) (pending_arrivals (lane_barrier s) = 0) ?E"
  let ?l = "(lanes s ! i)\<lparr> pc := after_wait (lane_barrier s) terminate \<rparr>"
  have ok: "\<forall>l\<in>set (lanes s). ?ok l" using inv by (simp add: hybrid_inv_def)
  then have "?ok (lanes s ! i)" using i by simp
  then have "?ok ?l" using p by (elim disjE; cases terminate; simp add: lane_defs after_wait_def)
  moreover have "bar_inv n (lane_barrier s, map (bar_of \<circ> pc) (lanes s))" using inv by (simp add: hybrid_inv_def)
  then have "bar_inv n (lane_barrier s, (map (bar_of \<circ> pc) (lanes s))[i := wait_predicate (lane_barrier s)])"
    using i p by (intro bar_inv_wait) auto
  then have "bar_inv n (lane_barrier s, map (bar_of \<circ> pc) ((lanes s)[i := ?l]))" by (simp add: map_update)
  ultimately show ?thesis using t ok
    by (intro hybrid_inv_move [OF inv i, where p = "after_wait (lane_barrier s) terminate" and ls = "lanes s"]) simp_all
qed

lemma hybrid_inv_step:
  assumes inv: "hybrid_inv n rel_size s" and step: "hybrid_step rel_size s t"
  shows "hybrid_inv n rel_size t"
proof -
  let ?E = "output_closed s \<or> tscan_morsels rel_size (scan_idx s) = []"
  let ?ok = "lane_ok (fused_set_up s) (states_set_up s) (pending_arrivals (lane_barrier s) = 0) ?E"
  have not_crashed: "\<not> crashed s" and ok: "\<forall>l\<in>set (lanes s). ?ok l" using inv by (simp_all add: hybrid_inv_def)
  have at: "?ok (lanes s ! i)" if "i < length (lanes s)" for i using ok that by simp
  have bar: "bar_inv n (lane_barrier s, map (bar_of \<circ> pc) (lanes s))" using inv by (simp add: hybrid_inv_def)
  show ?thesis using step
  proof (cases rule: hybrid_stepE)
    case (vectorized i picked idx' is_closed tp l' terminate)
    have "good_trials (trial_state l') = good_trials (trial_state (lanes s ! i))"
      by (rule run_lane_pick [OF vectorized(4,5)])
    then have "lane_ok (fused_set_up s) (states_set_up s) (pending_arrivals (lane_barrier s) = 0) e (l'\<lparr> pc := Looking terminate \<rparr>)"
      if "terminate \<longrightarrow> e" for e using that at [OF vectorized(2)] by (auto simp: lane_defs)
    then show ?thesis using not_crashed vectorized(1,3)
      by (intro hybrid_inv_run [OF inv vectorized(2,4,5), where l'' = "l'\<lparr> pc := Looking terminate \<rparr>"]) simp_all
  next
    case (look i terminate)
    let ?p = "if \<not> fused_set_up s \<and> \<not> terminate then Interpreting else Arriving terminate"
    have "bar_inv n (lane_barrier s, map (bar_of \<circ> pc) ((lanes s)[i := (lanes s ! i)\<lparr> pc := ?p \<rparr>]))"
      using look by (intro bar_same bar) simp_all
    moreover have "?ok ((lanes s ! i)\<lparr> pc := ?p \<rparr>)" using at [OF look(2)] look(3) by (auto simp: lane_defs)
    ultimately show ?thesis using look(1) ok by (intro hybrid_inv_move [OF inv look(2), where p = ?p and ls = "lanes s"]) simp_all
  next
    case compiled
    then show ?thesis using inv by (auto simp: hybrid_inv_def all_executed_def elim!: lane_ok_mono)
  next
    case (arrive i terminate b' p)
    have p: "p = Notifying \<longleftrightarrow> pending_arrivals b' = 0" "p \<in> {Notifying, Waiting}"
      using arrive(4) by (auto simp: arriveAndWait_def Let_def split: if_splits)
    let ?q = "if p = Notifying then Releasing terminate else Behind terminate"
    let ?u = "states_set_up s \<or> p = Notifying \<and> fused_set_up s"
    have "bar_step (lane_barrier s, map (bar_of \<circ> pc) (lanes s)) (b', (map (bar_of \<circ> pc) (lanes s))[i := p])"
      using arrive(2-4) by (intro bar_step.arrive) simp_all
    moreover have "bar_of ?q = p" using p(2) by auto
    ultimately have "bar_inv n (b', map (bar_of \<circ> pc) ((lanes s)[i := (lanes s ! i)\<lparr> pc := ?q \<rparr>]))"
      using bar_inv_step [OF bar] by (simp add: map_update)
    moreover have "\<forall>l\<in>set (lanes s). lane_ok (fused_set_up s) ?u (pending_arrivals b' = 0) ?E l"
      using ok p(1) by (auto simp: lane_defs)
    moreover have "lane_ok (fused_set_up s) ?u (pending_arrivals b' = 0) ?E ((lanes s ! i)\<lparr> pc := ?q \<rparr>)"
      using at [OF arrive(2)] arrive(3) p by (auto simp: lane_defs)
    ultimately show ?thesis using arrive(1) by (intro hybrid_inv_move [OF inv arrive(2), where p = ?q and ls = "lanes s"]) simp_all
  next
    case (notify i terminate)
    let ?l = "(lanes s ! i)\<lparr> pc := Switching terminate \<rparr>"
    have "bar_step (lane_barrier s, map (bar_of \<circ> pc) (lanes s)) (lane_barrier s, (notify_all (map (bar_of \<circ> pc) (lanes s)))[i := Passed])"
      using notify(2,3) by (intro bar_step.notify) simp_all
    then have "bar_inv n (lane_barrier s, map (bar_of \<circ> pc) ((map wake_lane (lanes s))[i := ?l]))"
      using bar_inv_step [OF bar] by (simp add: map_update bar_of_wake_lane [symmetric])
    moreover have "?ok ?l" using at [OF notify(2)] notify(3) by (auto simp: lane_defs)
    ultimately show ?thesis using notify(1) ok
      by (intro hybrid_inv_move [OF inv notify(2), where p = "Switching terminate" and ls = "map wake_lane (lanes s)"]) simp_all
  next
    case (wake i terminate)
    then show ?thesis by (intro hybrid_inv_wait [OF inv wake(2)]) simp_all
  next
    case (adaptive i picked idx' is_closed tp l' terminate)
    have "bar_of (pc (lanes s ! i)) \<in> set (map (bar_of \<circ> pc) (lanes s))" using adaptive(2) by auto
    then have "pending_arrivals (lane_barrier s) = 0" using inv adaptive(3) by (simp add: hybrid_inv_def bar_inv_def)
    then have ready: "fused_set_up s" "states_set_up s" using at [OF adaptive(2)] adaptive(3) by (simp_all add: lane_defs)
    have "lane_ok (fused_set_up s) (states_set_up s) (pending_arrivals (lane_barrier s) = 0) e
        (l'\<lparr> pc := Switching terminate, trial_state := next_trials (trial_state l') \<rparr>)"
      if "terminate \<longrightarrow> e" for e using that ready by (auto simp: lane_defs good_trials_next)
    then show ?thesis using not_crashed adaptive(1,3) ready
      by (intro hybrid_inv_run [OF inv adaptive(2,4,5), where l'' = "l'\<lparr> pc := Switching terminate, trial_state := next_trials (trial_state l') \<rparr>"])
        simp_all
  next
    case (finish i)
    have "?ok ((lanes s ! i)\<lparr> pc := Finished \<rparr>)" using at [OF finish(2)] finish(3) by (auto simp: lane_defs)
    moreover have "bar_inv n (lane_barrier s, map (bar_of \<circ> pc) ((lanes s)[i := (lanes s ! i)\<lparr> pc := Finished \<rparr>]))"
      using finish by (intro bar_same bar) simp_all
    ultimately show ?thesis using finish(1) ok by (intro hybrid_inv_move [OF inv finish(2), where p = Finished and ls = "lanes s"]) simp_all
  qed
qed

section \<open>Every interleaving ends\<close>

fun rank :: "lane_pc \<Rightarrow> nat" where
  "rank Finished = 0"
| "rank (Switching terminate) = (if terminate then 1 else 2)"
| "rank (Behind terminate) = 3"
| "rank (Woken terminate) = 3"
| "rank (Releasing terminate) = 3"
| "rank (Arriving terminate) = 4"
| "rank (Looking terminate) = (if terminate then 5 else 7)"
| "rank Interpreting = 6"

definition work :: "nat \<Rightarrow> hybrid \<Rightarrow> nat" where
  "work rel_size s = 2 * length (tscan_morsels rel_size (scan_idx s)) + sum_list (map (rank \<circ> pc) (lanes s)) + (if fused_set_up s then 0 else 1)"

lemma sum_list_map_update:
  fixes f :: "'a \<Rightarrow> nat"
  shows "i < length xs \<Longrightarrow> sum_list (map f (xs[i := y])) + f (xs ! i) = sum_list (map f xs) + f y"
proof (induction xs arbitrary: i)
  case (Cons x xs) then show ?case by (cases i) (auto simp: add_ac)
qed simp

lemma run_lane_work:
  assumes "tscan_pickMorsel rel_size idx = (picked, idx')" "run_lane b picked is_closed tp l = (l', terminate)"
  shows "length (tscan_morsels rel_size idx') + (if terminate then 0 else 1) \<le> length (tscan_morsels rel_size idx)"
  by (rule run_lane_pick [OF assms]) auto

lemma rank_wake_lane [simp]: "rank (pc (wake_lane l)) = rank (pc l)"
  by (cases "pc l") (simp_all add: wake_lane_def)

lemma rank_after_wait: "rank (after_wait b terminate) \<le> 3" "wait_predicate b = Passed \<Longrightarrow> rank (after_wait b terminate) < 3"
  by (simp_all add: after_wait_def)

lemma woken_passes:
  assumes "hybrid_inv n rel_size s" "i < length (lanes s)" "pc (lanes s ! i) = Woken terminate"
  shows "wait_predicate (lane_barrier s) = Passed"
proof -
  have "bar_of (pc (lanes s ! i)) \<in> set (map (bar_of \<circ> pc) (lanes s))" using assms(2) by auto
  then show ?thesis using assms by (auto simp: hybrid_inv_def bar_inv_def wait_predicate_def)
qed

lemma work_less:
  assumes "hybrid_inv n rel_size s" "hybrid_step rel_size s t"
  shows "work rel_size t < work rel_size s"
  using assms(2)
proof (cases rule: hybrid_stepE)
  case (vectorized i picked idx' is_closed tp l' terminate)
  then show ?thesis using run_lane_work [OF vectorized(4,5)] sum_list_map_update [OF vectorized(2), of "rank \<circ> pc" "l'\<lparr> pc := Looking terminate \<rparr>"]
    by (simp add: work_def split: if_splits)
next
  case (look i terminate)
  then show ?thesis
    using sum_list_map_update [OF look(2), of "rank \<circ> pc" "(lanes s ! i)\<lparr> pc := (if \<not> fused_set_up s \<and> \<not> terminate then Interpreting else Arriving terminate) \<rparr>"]
    by (simp add: work_def split: if_splits)
next
  case compiled
  then show ?thesis by (simp add: work_def)
next
  case (arrive i terminate b' p)
  then show ?thesis
    using sum_list_map_update [OF arrive(2), of "rank \<circ> pc" "(lanes s ! i)\<lparr> pc := (if p = Notifying then Releasing terminate else Behind terminate) \<rparr>"]
    by (simp add: work_def split: if_splits)
next
  case (notify i terminate)
  have "sum_list (map (rank \<circ> pc) (map wake_lane (lanes s))) = sum_list (map (rank \<circ> pc) (lanes s))" by (simp add: comp_def)
  then show ?thesis
    using notify sum_list_map_update [of i "map wake_lane (lanes s)" "rank \<circ> pc" "(lanes s ! i)\<lparr> pc := Switching terminate \<rparr>"]
    by (simp add: work_def del: map_map split: if_splits)
next
  case (wake i terminate)
  then show ?thesis
    using rank_after_wait(2) [OF woken_passes [OF assms(1) wake(2,3)], of terminate]
      sum_list_map_update [OF wake(2), of "rank \<circ> pc" "(lanes s ! i)\<lparr> pc := after_wait (lane_barrier s) terminate \<rparr>"]
    by (simp add: work_def)
next
  case (adaptive i picked idx' is_closed tp l' terminate)
  then show ?thesis using run_lane_work [OF adaptive(4,5)]
      sum_list_map_update [OF adaptive(2), of "rank \<circ> pc" "l'\<lparr> pc := Switching terminate, trial_state := next_trials (trial_state l') \<rparr>"]
    by (simp add: work_def split: if_splits)
next
  case (finish i)
  then show ?thesis using sum_list_map_update [OF finish(2), of "rank \<circ> pc" "(lanes s ! i)\<lparr> pc := Finished \<rparr>"]
    by (simp add: work_def)
qed

lemma hybrid_run_inv: "hybrid_run rel_size n k s \<Longrightarrow> hybrid_inv n rel_size s \<and> work rel_size s + k \<le> work rel_size (hybrid_start n)"
proof (induction rule: hybrid_run.induct)
  case start then show ?case by (simp add: hybrid_inv_start)
next
  case (more k s t)
  then show ?case using hybrid_inv_step [of n rel_size s t] work_less [of n rel_size s t] by auto
next
  case (by_chance k s t)
  from by_chance(2) show ?case
  proof (cases rule: hybrid_spuriousE)
    case (spurious i terminate)
    then have "work rel_size t \<le> work rel_size s"
      using rank_after_wait(1) [of "lane_barrier s" terminate]
        sum_list_map_update [OF spurious(2), of "rank \<circ> pc" "(lanes s ! i)\<lparr> pc := after_wait (lane_barrier s) terminate \<rparr>"]
      by (simp add: work_def)
    then show ?thesis using by_chance(3) hybrid_inv_wait [OF _ spurious(2) _ spurious(1), of n rel_size] spurious(3) by auto
  qed
qed

lemma length_tscan_morsels: "length (tscan_morsels n s) = (n - s + 511) div 512"
proof (induction n s rule: tscan_morsels.induct)
  case (1 n s)
  show ?case
  proof (cases "s < n")
    case True
    then have "length (tscan_morsels n s) = (n - (s + 512) + 511) div 512 + 1"
      using 1 by (subst tscan_morsels.simps) (simp add: DEFAULT_CHUNK_SIZE_def)
    also have "\<dots> = (n - s + 511) div 512" using True by (cases "s + 512 \<le> n") (simp_all add: div_add_self1 [symmetric] algebra_simps)
    finally show ?thesis .
  qed (subst tscan_morsels.simps, simp)
qed

lemma work_start: "work rel_size (hybrid_start n) = 2 * ((rel_size + 511) div 512) + 6 * unat n + 1"
  by (simp add: work_def hybrid_start_def length_tscan_morsels sum_list_replicate)

text \<open>As long as a lane is not done, some thread can move.\<close>

lemma lane_moves:
  assumes i: "i < length (lanes s)" and p: "pc (lanes s ! i) \<noteq> Finished" "bar_of (pc (lanes s ! i)) \<noteq> Waiting"
  shows "\<exists>t. hybrid_step rel_size s t"
proof (cases "pc (lanes s ! i)")
  case Interpreting
  then show ?thesis using hybrid_step.vectorized [OF i] by (metis surj_pair)
next
  case (Looking t) then show ?thesis using hybrid_step.look [OF i] by blast
next
  case (Arriving t) then show ?thesis using hybrid_step.arrive [OF i] by (metis surj_pair)
next
  case (Woken t) then show ?thesis using hybrid_step.wake [OF i] by blast
next
  case (Releasing t) then show ?thesis using hybrid_step.notify [OF i] by blast
next
  case (Switching t)
  show ?thesis
  proof (cases t)
    case True
    then have "pc (lanes s ! i) = Switching True" using Switching by simp
    then show ?thesis using hybrid_step.finish [OF i] by blast
  next
    case False
    then have "pc (lanes s ! i) = Switching False" using Switching by simp
    then show ?thesis using hybrid_step.adaptive [OF i] by (metis surj_pair)
  qed
qed (use p in simp_all)

lemma hybrid_progress:
  assumes inv: "hybrid_inv n rel_size s" and l: "l \<in> set (lanes s)" "pc l \<noteq> Finished"
  shows "\<exists>t. hybrid_step rel_size s t"
proof -
  let ?bs = "map (bar_of \<circ> pc) (lanes s)"
  have move: "\<exists>t. hybrid_step rel_size s t" if "b \<in> set ?bs" "b = Outside \<or> b = Notifying" for b
  proof -
    from that(1) obtain i where i: "i < length (lanes s)" "bar_of (pc (lanes s ! i)) = b" by (auto simp: in_set_conv_nth)
    then have "pc (lanes s ! i) \<noteq> Finished" "bar_of (pc (lanes s ! i)) \<noteq> Waiting" using that(2) by auto
    then show ?thesis using lane_moves i(1) by blast
  qed
  show ?thesis
  proof (cases "bar_of (pc l) = Waiting \<and> Outside \<notin> set ?bs")
    case True
    then have "count_list ?bs Outside = 0" by (simp add: count_list_0_iff)
    then have "pending_arrivals (lane_barrier s) = 0" using inv by (simp add: hybrid_inv_def bar_inv_def unat_eq_0)
    moreover have "Waiting \<in> set ?bs" using l(1) True by force
    ultimately have "Notifying \<in> set ?bs" using inv by (simp add: hybrid_inv_def bar_inv_def)
    then show ?thesis using move by blast
  next
    case False
    then show ?thesis using move [of Outside] l lane_moves by (metis in_set_conv_nth)
  qed
qed

text \<open>
  C36. A pipeline over a table scan in hybrid mode with any number of threads, in any interleaving, with any measured throughputs, with
  the compilation done at any moment or never, and with any spurious wake-ups. Compiled code is run only when it is there and its states
  are set up, which happens at most once. Every row is processed at most once; when all threads are done, each row was processed exactly
  once if the printer did not close its output, as it does for a query with a limit. In every round of 40
  morsels a thread tries both backends. Until all threads are done, some thread has a step that is not a spurious wake-up, and after at most
  6 times the number of threads plus twice the number of morsels plus one such steps nothing is left to do.
\<close>
theorem hybrid_swimlanes:
  assumes "hybrid_run rel_size n k s"
  shows "\<not> crashed s \<and> once_calls (lane_barrier s) \<le> 1 \<and>
    distinct (concat (map rows_of (all_executed s))) \<and> set (concat (map rows_of (all_executed s))) \<subseteq> {0..<rel_size} \<and>
    (list_all (\<lambda>l. pc l = Finished) (lanes s) \<and> \<not> output_closed s \<and> 0 < n \<longrightarrow> mset (concat (map rows_of (all_executed s))) = mset [0..<rel_size]) \<and>
    list_all (\<lambda>l. (it_counter (trial_state l) mod 40 = 0 \<longrightarrow> choose_backend (trial_state l) = Compiled) \<and>
      (it_counter (trial_state l) mod 40 = 4 \<longrightarrow> choose_backend (trial_state l) = Vectorized)) (lanes s) \<and>
    (\<not> list_all (\<lambda>l. pc l = Finished) (lanes s) \<longrightarrow> (\<exists>t. hybrid_step rel_size s t)) \<and>
    k \<le> 6 * unat n + 2 * ((rel_size + 511) div 512) + 1"
proof -
  have inv: "hybrid_inv n rel_size s" and k: "k \<le> 6 * unat n + 2 * ((rel_size + 511) div 512) + 1"
    using hybrid_run_inv [OF assms] by (simp_all add: work_start)
  have once: "once_calls (lane_barrier s) \<le> 1" using inv by (simp add: hybrid_inv_def bar_inv_def)
  have morsels: "mset (all_executed s) + mset (tscan_morsels rel_size (scan_idx s)) = mset (tscan_morsels rel_size 0)"
    using inv by (simp add: hybrid_inv_def)
  then have "mset (all_executed s) \<subseteq># mset (tscan_morsels rel_size 0)" by (metis mset_subset_eq_add_left)
  note part = morsels_partition [OF this]
  have "tscan_morsels rel_size (scan_idx s) = []"
    if fin: "list_all (\<lambda>l. pc l = Finished) (lanes s)" "\<not> output_closed s" "0 < n"
  proof -
    have "0 < length (lanes s)" using inv fin(3) by (simp add: hybrid_inv_def bar_inv_def word_gt_0 unat_gt_0)
    then obtain l where "l \<in> set (lanes s)" by (cases "lanes s") auto
    with inv fin show ?thesis by (auto simp: hybrid_inv_def lane_defs list_all_iff)
  qed
  then have all: "list_all (\<lambda>l. pc l = Finished) (lanes s) \<and> \<not> output_closed s \<and> 0 < n \<longrightarrow>
      mset (concat (map rows_of (all_executed s))) = mset [0..<rel_size]"
    using part morsels by auto
  have tries: "list_all (\<lambda>l. (it_counter (trial_state l) mod 40 = 0 \<longrightarrow> choose_backend (trial_state l) = Compiled) \<and>
      (it_counter (trial_state l) mod 40 = 4 \<longrightarrow> choose_backend (trial_state l) = Vectorized)) (lanes s)"
    using inv good_trials_choose by (auto simp: hybrid_inv_def lane_ok_def list_all_iff)
  have "\<exists>t. hybrid_step rel_size s t" if "\<not> list_all (\<lambda>l. pc l = Finished) (lanes s)"
    using that hybrid_progress [OF inv] by (auto simp: list_all_iff)
  moreover have "\<not> crashed s" using inv by (simp add: hybrid_inv_def)
  ultimately show ?thesis using once part all tries k by blast
qed

text \<open>One thread and 600 rows: a vectorized morsel, then a compiled one.\<close>

theorem hybrid_swimlanes_witness:
  "\<exists>s. hybrid_run 600 1 8 s \<and> map executed (lanes s) = [[(Vectorized, 0, 512), (Compiled, 512, 600)]] \<and>
     list_all (\<lambda>l. pc l = Finished) (lanes s) \<and> \<not> crashed s \<and> mset (concat (map rows_of (all_executed s))) = mset [0..<600]"
proof -
  let ?l = "\<lambda>p t e. \<lparr> pc = p, trial_state = t, executed = e \<rparr>"
  let ?s = "\<lambda>i f u b l. \<lparr> scan_idx = i, fused_set_up = f, states_set_up = u, lane_barrier = b, output_closed = False, crashed = False, lanes = [l] \<rparr>"
  let ?b0 = "OnceBarrier 1" and ?b1 = "\<lparr> pending_arrivals = 0, once_calls = 1 \<rparr>"
  let ?m1 = "[(Vectorized, 0::nat, 512::nat)]" and ?m2 = "[(Vectorized, 0::nat, 512::nat), (Compiled, 512, 600)]"
  define t1 where "t1 = time_morsel Vectorized (Some 1) start_trials"
  define t2 where "t2 = next_trials (time_morsel Compiled (Some 1) t1)"
  define t3 where "t3 = next_trials t2"
  have c: "choose_backend t1 = Compiled" by (simp add: t1_def time_morsel_def start_trials_def choose_backend_def)
  have s0: "hybrid_start 1 = ?s 0 False False ?b0 (?l Interpreting start_trials [])" by (simp add: hybrid_start_def)
  have 1: "hybrid_step 600 (hybrid_start 1) (?s 512 False False ?b0 (?l (Looking False) t1 ?m1))"
    using hybrid_step.vectorized [of 0 "hybrid_start 1" 600 "Some (0, 512)" 512 False 1 "?l Interpreting t1 ?m1" False]
    by (simp add: s0 tscan_pickMorsel_def DEFAULT_CHUNK_SIZE_def run_lane_def t1_def)
  have 2: "hybrid_step 600 (?s 512 False False ?b0 (?l (Looking False) t1 ?m1)) (?s 512 True False ?b0 (?l (Looking False) t1 ?m1))"
    using hybrid_step.compiled [of "?s 512 False False ?b0 (?l (Looking False) t1 ?m1)" 600] by simp
  have 3: "hybrid_step 600 (?s 512 True False ?b0 (?l (Looking False) t1 ?m1)) (?s 512 True False ?b0 (?l (Arriving False) t1 ?m1))"
    using hybrid_step.look [of 0 "?s 512 True False ?b0 (?l (Looking False) t1 ?m1)" False 600] by simp
  have 4: "hybrid_step 600 (?s 512 True False ?b0 (?l (Arriving False) t1 ?m1)) (?s 512 True True ?b1 (?l (Releasing False) t1 ?m1))"
    using hybrid_step.arrive [of 0 "?s 512 True False ?b0 (?l (Arriving False) t1 ?m1)" False ?b1 Notifying 600]
    by (simp add: arriveAndWait_def OnceBarrier_def)
  have 8: "hybrid_step 600 (?s 512 True True ?b1 (?l (Releasing False) t1 ?m1)) (?s 512 True True ?b1 (?l (Switching False) t1 ?m1))"
    using hybrid_step.notify [of 0 "?s 512 True True ?b1 (?l (Releasing False) t1 ?m1)" False 600] by simp
  have 5: "hybrid_step 600 (?s 512 True True ?b1 (?l (Switching False) t1 ?m1)) (?s 1024 True True ?b1 (?l (Switching False) t2 ?m2))"
    using hybrid_step.adaptive [of 0 "?s 512 True True ?b1 (?l (Switching False) t1 ?m1)" Compiled 600 "Some (512, 600)" 1024 False 1
        "?l (Switching False) (time_morsel Compiled (Some 1) t1) ?m2" False]
    by (simp add: c tscan_pickMorsel_def DEFAULT_CHUNK_SIZE_def run_lane_def t2_def)
  have 6: "hybrid_step 600 (?s 1024 True True ?b1 (?l (Switching False) t2 ?m2)) (?s 1536 True True ?b1 (?l (Switching True) t3 ?m2))"
    using hybrid_step.adaptive [of 0 "?s 1024 True True ?b1 (?l (Switching False) t2 ?m2)" "choose_backend t2" 600 None 1536 False 1
        "?l (Switching False) t2 ?m2" True]
    by (simp add: tscan_pickMorsel_def DEFAULT_CHUNK_SIZE_def run_lane_def t3_def)
  have 7: "hybrid_step 600 (?s 1536 True True ?b1 (?l (Switching True) t3 ?m2)) (?s 1536 True True ?b1 (?l Finished t3 ?m2))"
    using hybrid_step.finish [of 0 "?s 1536 True True ?b1 (?l (Switching True) t3 ?m2)" 600] by simp
  let ?e = "?s 1536 True True ?b1 (?l Finished t3 ?m2)"
  have eight: "(8::nat) = Suc (Suc (Suc (Suc (Suc (Suc (Suc (Suc 0)))))))" by simp
  have run: "hybrid_run 600 1 8 ?e"
    unfolding eight
    by (rule hybrid_run.more [OF hybrid_run.more [OF hybrid_run.more [OF hybrid_run.more [OF hybrid_run.more [OF hybrid_run.more
      [OF hybrid_run.more [OF hybrid_run.more [OF hybrid_run.start 1] 2] 3] 4] 8] 5] 6] 7])
  have "list_all (\<lambda>l. pc l = Finished) (lanes ?e)" "\<not> output_closed ?e" by simp_all
  with hybrid_swimlanes [OF run] have "\<not> crashed ?e \<and> mset (concat (map rows_of (all_executed ?e))) = mset [0..<600]" by simp
  with run show ?thesis by (intro exI [of _ ?e]) simp
qed

end
