(* ===== verification/Plan_Props.thy ===== *)
theory Plan_Props
  imports Plan_Grown
begin

text \<open>
  Every well-formed plan decays into pipelines that can be executed: what an operator attaches reads only
  columns that the pipeline provides, under the conditions that \<open>wf_op\<close> collects from the constructors.
\<close>

section \<open>Well-formed plans\<close>

text \<open>The columns that the operators above may use, and all IUs that the operators of a plan own.\<close>

primrec visible :: "relop \<Rightarrow> iu list" where
  "visible (TableScan nm n cols) = map snd cols"
| "visible (Filter cs filter_iu pseudo to_redefine redefined) = redefined"
| "visible (ExpressionOp cs out) = concat (map visible cs) @ map node_iu out"
| "visible (Aggregation cs p) = agg_output p"
| "visible (Join cs p) = join_output p"
| "visible (Print cs ius colnames limit) = []"

definition agg_own :: "agg_plan \<Rightarrow> iu list" where
  "agg_own p = [packed_ht_key p, agg_pointer_result p, ht_scan_result p] @ out_key_ius p @ pseudo_ius p @ out_aggregate_ius p"

definition join_own :: "join_plan \<Rightarrow> iu list" where
  "join_own p = [scratch_pad_right p, hash_right p, lookup_left p, lookup_right p, filter_pseudo_iu p, filtered_build p, filtered_probe p] @
     join_output p @ right_pseudo_ius p"

primrec owned :: "relop \<Rightarrow> iu list" where
  "owned (TableScan nm n cols) = map snd cols"
| "owned (Filter cs filter_iu pseudo to_redefine redefined) = pseudo # redefined @ concat (map owned cs)"
| "owned (ExpressionOp cs out) = expr_ius out @ concat (map owned cs)"
| "owned (Aggregation cs p) = agg_own p @ concat (map owned cs)"
| "owned (Join cs p) = join_own p @ concat (map owned cs)"
| "owned (Print cs ius colnames limit) = concat (map owned cs)"

definition no_bytes :: "iu \<Rightarrow> bool" where
  "no_bytes i = (case iu_type i of ByteArray n \<Rightarrow> False | _ \<Rightarrow> True)"

definition agg_ok :: "iu list \<Rightarrow> agg_plan \<Rightarrow> bool" where
  "agg_ok V p \<longleftrightarrow> set (group_by p) \<subseteq> set V \<and> fst ` set (granules p) \<subseteq> set V \<and> granules p \<noteq> [] \<and>
     length (pseudo_ius p) = (if length (group_by p) = 1 then 0 else length (group_by p)) \<and> length (compute p) = length (out_aggregate_ius p)"

definition join_ok :: "iu list \<Rightarrow> iu list \<Rightarrow> join_plan \<Rightarrow> bool" where
  "join_ok V W p \<longleftrightarrow> is_pk_join p \<and> join_type p \<noteq> LeftOuter \<and> full_row_left p \<noteq> [] \<and> set (full_row_left p) \<subseteq> set V \<and>
     set (keys_right p @ payload_right p) \<subseteq> set W \<and> length (right_pseudo_ius p) = length (keys_right p @ payload_right p) \<and>
     iu_type (lookup_right p) = char_ptr \<and> iu_type (filtered_probe p) = char_ptr \<and>
     (join_type p = LeftSemi \<longrightarrow> keys_right_out p @ payload_right_out p = [])"

primrec wf_op :: "relop \<Rightarrow> bool" where
  "wf_op (TableScan nm n cols) = True"
| "wf_op (Filter cs filter_iu pseudo to_redefine redefined) = (list_all wf_op cs \<and> length cs = 1 \<and>
     set (filter_iu # to_redefine) \<subseteq> set (concat (map visible cs)) \<and> list_all no_bytes to_redefine \<and> length redefined = length to_redefine)"
| "wf_op (ExpressionOp cs out) = (list_all wf_op cs \<and> length cs = 1 \<and> list_all node_ok out \<and>
     set (concat (map expr_refs out)) \<subseteq> set (concat (map visible cs)))"
| "wf_op (Aggregation cs p) = (list_all wf_op cs \<and> length cs = 1 \<and> agg_ok (concat (map visible cs)) p)"
| "wf_op (Join cs p) = (list_all wf_op cs \<and> length cs = 2 \<and> join_ok (visible (cs ! 0)) (visible (cs ! 1)) p)"
| "wf_op (Print cs ius colnames limit) = False"

definition wf_plan :: "nat \<Rightarrow> relop \<Rightarrow> bool" where
  "wf_plan a root \<longleftrightarrow> (case root of
     Print [c] ius colnames limit \<Rightarrow> wf_op c \<and> distinct (map iu_addr (owned c)) \<and> list_all (\<lambda>i. iu_addr i < a) (owned c) \<and>
       ius \<noteq> [] \<and> set ius \<subseteq> set (visible c)
   | _ \<Rightarrow> False)"

section \<open>What the operators attach\<close>

lemma spec_outs_pack: "length ps = length ks \<Longrightarrow> spec_outs (pack_ops t off (zip ks ps)) = concat ps"
  by (induction ps ks arbitrary: off rule: list_induct2) (auto simp: spec_outs_def)

lemma spec_deps_pack:
  "t \<in> A \<Longrightarrow> set (map fst kps) \<subseteq> A \<Longrightarrow> spec_deps A (pack_ops t off kps)"
  by (induction t off kps arbitrary: A rule: pack_ops.induct) auto

lemma spec_outs_unpack: "spec_outs (unpack_ops src off outs) = outs"
  by (induction src off outs rule: unpack_ops.induct) auto

lemma spec_deps_unpack: "src \<in> A \<Longrightarrow> spec_deps A (unpack_ops src off outs)"
  by (induction src off outs arbitrary: A rule: unpack_ops.induct) auto

lemma spec_outs_aggregate: "spec_outs (aggregate_ops ptr off gs) = []"
  by (induction ptr off gs rule: aggregate_ops.induct) auto

lemma spec_deps_aggregate: "ptr \<in> A \<Longrightarrow> fst ` set gs \<subseteq> A \<Longrightarrow> spec_deps A (aggregate_ops ptr off gs)"
  by (induction ptr off gs arbitrary: A rule: aggregate_ops.induct) auto

definition weak_specs :: "subop_spec list \<Rightarrow> bool" where
  "weak_specs specs \<longleftrightarrow> (\<forall>(k, out, src)\<in>set specs. \<not> strong_kind k)"

lemma weak_specs_simps [simp]:
  "weak_specs []" "weak_specs ((k, out, src) # specs) \<longleftrightarrow> \<not> strong_kind k \<and> weak_specs specs"
  "weak_specs (xs @ ys) \<longleftrightarrow> weak_specs xs \<and> weak_specs ys"
  by (auto simp: weak_specs_def)

lemma weak_strong: "weak_specs specs \<Longrightarrow> spec_strong specs"
  by (intro spec_strong_none) (auto simp: weak_specs_def)

lemma weak_pack [simp]: "weak_specs (pack_ops t off kps)"
  by (induction t off kps rule: pack_ops.induct) (auto simp: strong_kind_def)
lemma weak_unpack [simp]: "weak_specs (unpack_ops t off outs)"
  by (induction t off outs rule: unpack_ops.induct) (auto simp: strong_kind_def)
lemma weak_aggregate [simp]: "weak_specs (aggregate_ops t off gs)"
  by (induction t off gs rule: aggregate_ops.induct) (auto simp: strong_kind_def)

lemma single_pseudos: "concat (map (\<lambda>i. [i]) is) = is" by (induction "is") auto

lemmas batch_simps = spec_outs_pack spec_outs_unpack spec_outs_aggregate single_pseudos

text \<open>A batch as \<open>grown_attach\<close> wants it.\<close>

definition batch_ok :: "iu set \<Rightarrow> subop_spec list \<Rightarrow> iu list \<Rightarrow> bool" where
  "batch_ok A specs own \<longleftrightarrow> spec_deps A specs \<and> spec_strong specs \<and> spec_outs specs = own"

lemma grown_batch:
  assumes "grown d d' V T" "batch_ok V specs own" "distinct own" "set own \<inter> T = {}" "\<forall>i\<in>set own. iu_addr i < next_addr d"
  shows "grown d (attach_all specs d') (V \<union> set own) (T \<union> set own)"
  using grown_attach [OF assms(1), of specs] assms(2-) by (simp add: batch_ok_def)

lemma agg_lookup_spec:
  assumes "granules p = (i, g) # gs"
  obtains k src where "agg_lookup p st key = (k, [agg_pointer_result p], src)" "\<not> strong_kind k" "set src \<subseteq> insert key (insert i (set (pseudo_ius p)))"
proof (rule that [of "fst (agg_lookup p st key)" "snd (snd (agg_lookup p st key))"])
qed (auto simp: agg_lookup_def htLookupOrInsert_def htNoKeyLookup_def strong_kind_def assms)

lemma agg_build_batch:
  assumes "agg_ok V p"
  shows "batch_ok (set V) (agg_build_ops p st)
    ((if length (group_by p) = 1 then [] else packed_ht_key p # pseudo_ius p) @ [agg_pointer_result p])"
proof -
  obtain i g gs where gr: "granules p = (i, g) # gs" using assms by (cases "granules p") (auto simp: agg_ok_def)
  obtain k src where look: "agg_lookup p st (fst (agg_pack_key p)) = (k, [agg_pointer_result p], src)" "\<not> strong_kind k"
      "set src \<subseteq> insert (fst (agg_pack_key p)) (insert i (set (pseudo_ius p)))"
    using agg_lookup_spec [OF gr] by metis
  have agg: "spec_deps A (aggregate_ops (agg_pointer_result p) off (granules p))" if "insert (agg_pointer_result p) (set V) \<subseteq> A" for A off
    using assms that by (intro spec_deps_aggregate) (auto simp: agg_ok_def)
  have ops: "agg_build_ops p st = snd (agg_pack_key p) @ [(k, [agg_pointer_result p], src)] @
      aggregate_ops (agg_pointer_result p) (key_size p + payload_offset p) (granules p)"
    using look(1) by (cases "agg_pack_key p") (simp add: agg_build_ops_def)
  have i: "i \<in> set V" using assms gr by (simp add: agg_ok_def)
  show ?thesis
  proof (cases "length (group_by p) = 1")
    case True
    then obtain key where key: "group_by p = [key]" by (cases "group_by p") auto
    then have "pseudo_ius p = []" "key \<in> set V" using assms by (simp_all add: agg_ok_def)
    moreover have "agg_pack_key p = (key, [])" using key by (simp add: agg_pack_key_def)
    ultimately show ?thesis using True look(2,3) i
      by (auto simp: batch_ok_def ops batch_simps intro!: weak_strong agg)
  next
    case False
    let ?packed = "packed_ht_key p"
    have len: "length (pseudo_ius p) = length (group_by p)" using assms False by (simp add: agg_ok_def)
    have pk: "agg_pack_key p = (?packed, (ScratchPadIUProvider, [?packed], []) # pack_ops ?packed 0 (zip (group_by p) (map (\<lambda>i. [i]) (pseudo_ius p))))"
      using False by (simp add: agg_pack_key_def)
    have "spec_deps (insert ?packed (set V)) (pack_ops ?packed 0 (zip (group_by p) (map (\<lambda>i. [i]) (pseudo_ius p))))"
      using assms len by (intro spec_deps_pack) (auto simp: agg_ok_def)
    then show ?thesis using False len look(2,3) i pk
      by (auto simp: batch_ok_def ops batch_simps strong_kind_def intro!: weak_strong agg)
  qed
qed

lemma spec_outs_readers:
  "length cs = length outs \<Longrightarrow> spec_outs (map (reader_op ptr off) (zip cs outs)) = outs"
  by (induction cs outs rule: list_induct2) (auto simp: reader_op_def spec_outs_def split: prod.splits)

lemma agg_read_batch:
  assumes "length (compute p) = length (out_aggregate_ius p)"
  shows "batch_ok {} (agg_read_ops p st) (ht_scan_result p # out_key_ius p @ out_aggregate_ius p)"
proof -
  let ?readers = "map (reader_op (ht_scan_result p) (key_size p)) (zip (compute p) (out_aggregate_ius p))"
  have "spec_outs ?readers = out_aggregate_ius p" using assms by (rule spec_outs_readers)
  moreover have "spec_deps A ?readers" if "ht_scan_result p \<in> A" for A
    using that by (intro spec_deps_all) (auto simp: reader_op_def split: prod.splits)
  moreover have "weak_specs ?readers" by (auto simp: weak_specs_def reader_op_def strong_kind_def split: prod.splits)
  ultimately show ?thesis
    by (auto simp: batch_ok_def agg_read_ops_def batch_simps strong_kind_def intro!: weak_strong spec_deps_unpack)
qed

text \<open>Filters.\<close>

lemma filter_logic_build:
  assumes "no_bytes incoming \<or> iu_type redefined = char_ptr"
  shows "ColumnFilterLogic_build pseudo incoming redefined t b = Returns (ColumnFilterLogic t b, [redefined], [pseudo, incoming])"
  using assms by (auto simp: ColumnFilterLogic_build_def no_bytes_def char_ptr_def split: irtype.splits)

lemma filter_batch:
  assumes "filter_iu \<in> A" "\<forall>l\<in>set logics. \<exists>t b i r. l = (i, (ColumnFilterLogic t b, [r], [pseudo, i])) \<and> i \<in> A"
  shows "batch_ok A (filter_specs addr filter_iu pseudo logics) (pseudo # spec_outs (map snd logics))"
proof -
  have logic: "\<exists>j. s = [pseudo, j] \<and> j \<in> A" if m: "(k, out, s) \<in> set (map snd logics)" for k out s
  proof -
    obtain l where "l \<in> set logics" "snd l = (k, out, s)" using m by force
    then show ?thesis using assms(2) by (metis prod.inject snd_conv)
  qed
  then have src: "set s \<subseteq> insert pseudo A" if "(k, out, s) \<in> set (map snd logics)" for k out s
    using that by fastforce
  have scope: "\<exists>i is k' src'. s = i # is \<and> (k', [i], src') \<in> set (filter_specs addr filter_iu pseudo logics) \<and> distinct src'"
    if m: "(k, out, s) \<in> set (map snd logics)" for k out s
  proof -
    obtain j where "s = [pseudo, j]" using logic [OF m] by blast
    then show ?thesis
      by (intro exI [of _ pseudo] exI [of _ "[j]"] exI [of _ "fst (hd (filter_specs addr filter_iu pseudo logics))"] exI [of _ "[filter_iu]"])
         (simp add: filter_specs_def)
  qed
  have "spec_strong (filter_specs addr filter_iu pseudo logics)"
    unfolding spec_strong_def
  proof (clarify)
    fix k out s assume m: "(k, out, s) \<in> set (filter_specs addr filter_iu pseudo logics)" "strong_kind k"
    then have "(k, out, s) \<in> set (map snd logics)" by (auto simp: filter_specs_def strong_kind_def)
    then show "\<exists>i is k' src'. s = i # is \<and> (k', [i], src') \<in> set (filter_specs addr filter_iu pseudo logics) \<and> distinct src'" by (rule scope)
  qed
  moreover have "spec_deps (insert pseudo A) (map snd logics)" using src by (rule spec_deps_all)
  ultimately show ?thesis using assms(1) by (simp add: batch_ok_def filter_specs_def)
qed

lemma map_outcome_pairs:
  "(\<And>x. x \<in> set xs \<Longrightarrow> f x = Returns (g x)) \<Longrightarrow> map_outcome f xs = Returns (map g xs)"
  by (induction xs) auto

lemma filter_ops_batch:
  assumes "filter_iu \<in> A" "set to_redefine \<subseteq> A" "list_all no_bytes to_redefine" "length redefined = length to_redefine"
  obtains specs where "filter_ops addr filter_iu pseudo to_redefine redefined = Returns specs" "batch_ok A specs (pseudo # redefined)"
proof -
  let ?l = "\<lambda>(i, r). (ColumnFilterLogic Bool False, [r], [pseudo, i])"
  let ?ls = "zip to_redefine (map ?l (zip to_redefine redefined))"
  have "map_outcome (\<lambda>(i, r). ColumnFilterLogic_build pseudo i r Bool False) (zip to_redefine redefined) = Returns (map ?l (zip to_redefine redefined))"
    using assms(3) by (intro map_outcome_pairs) (auto simp: list_all_iff dest!: set_zip_leftD intro!: filter_logic_build)
  then have ops: "filter_ops addr filter_iu pseudo to_redefine redefined = Returns (filter_specs addr filter_iu pseudo ?ls)"
    by (simp add: filter_ops_def)
  have "\<forall>l\<in>set ?ls. \<exists>t b i r. l = (i, (ColumnFilterLogic t b, [r], [pseudo, i])) \<and> i \<in> A"
  proof
    fix l assume "l \<in> set ?ls"
    then obtain n where "n < length to_redefine" "l = (to_redefine ! n, ColumnFilterLogic Bool False, [redefined ! n], [pseudo, to_redefine ! n])"
      using assms(4) by (auto simp: in_set_conv_nth)
    then show "\<exists>t b i r. l = (i, (ColumnFilterLogic t b, [r], [pseudo, i])) \<and> i \<in> A" using assms(2) nth_mem by blast
  qed
  moreover have "spec_outs (map snd ?ls) = redefined"
    using assms(4) by (induction to_redefine redefined rule: list_induct2') (auto simp: spec_outs_def)
  ultimately show thesis using that [OF ops] filter_batch [OF assms(1), of ?ls pseudo addr] by simp
qed

end
