(* ===== verification/Plan_Correct.thy ===== *)
theory Plan_Correct
  imports Plan_Props
begin

text \<open>
  The decay of each operator grows the DAG as expected, given that its children's decays do; by induction over the
  plan, every query with a well-formed plan gets a DAG of executable pipelines.
\<close>

section \<open>Operators over the decays of their children\<close>

definition decays :: "decay_method \<Rightarrow> iu list \<Rightarrow> iu list \<Rightarrow> bool" where
  "decays f V T \<longleftrightarrow> (\<forall>d. continuations d = [] \<and> (\<forall>i\<in>set T. iu_addr i < next_addr d) \<longrightarrow> (\<exists>d'. f d = Returns d' \<and> grown d d' (set V) (set T)))"

lemma decaysD:
  assumes "decays f V T" "continuations d = []" "\<forall>i\<in>set T. iu_addr i < next_addr d"
  obtains d' where "f d = Returns d'" "grown d d' (set V) (set T)"
  using assms unfolding decays_def by blast

lemma decay_one [simp]: "decay_children [c] d = c d"
  by (cases "c d") auto

lemma decays_scan:
  assumes "distinct (map snd cols)"
  shows "decays (TableScan_decay nm n cols) (map snd cols) (map snd cols)"
  unfolding decays_def
proof (intro allI impI, elim conjE)
  fix d :: dag assume d: "continuations d = []" "\<forall>i\<in>set (map snd cols). iu_addr i < next_addr d"
  let ?driver = "\<lparr> iu_addr = next_addr d, iu_type = UnsignedInt 8, iu_name = nm @ ''_idx'' \<rparr>"
  let ?rest = "map (\<lambda>(col, i). (TScanIUProvider (next_addr d), [i], [?driver])) cols"
  have ops: "scan_ops nm (next_addr d) n cols = (TScanDriver n, [?driver], []) # ?rest" by (simp add: scan_ops_def Let_def)
  have outs: "spec_outs ?rest = map snd cols" by (induction cols) auto
  have deps: "spec_deps {?driver} ?rest" by (rule spec_deps_all) auto
  have new: "?driver \<notin> set (map snd cols)" using d(2) by force
  have "spec_strong (scan_ops nm (next_addr d) n cols)" unfolding spec_strong_def ops
    by (auto simp: strong_kind_def intro!: exI [of _ "TScanDriver n"] exI [of _ "[]"])
  then have "grown d (attach_all (scan_ops nm (next_addr d) n cols) (buildNewPipeline d)) (set (map snd cols)) (set (map snd cols))"
    using outs deps new assms by (intro grown_new [OF d(1) ops]) (auto simp: ops)
  moreover have "next_addr (buildNewPipeline d) = next_addr d" by (simp add: buildNewPipeline_def)
  ultimately show "\<exists>d'. TableScan_decay nm n cols d = Returns d' \<and> grown d d' (set (map snd cols)) (set (map snd cols))"
    by (simp add: TableScan_decay_def Let_def)
qed

lemma decays_filter:
  assumes "decays c V T" "set (filter_iu # to_redefine) \<subseteq> set V" "list_all no_bytes to_redefine" "length redefined = length to_redefine"
    and "distinct (pseudo # redefined @ T)"
  shows "decays (Filter_decay [c] filter_iu pseudo to_redefine redefined) redefined (pseudo # redefined @ T)"
  unfolding decays_def
proof (intro allI impI, elim conjE)
  fix d :: dag assume d: "continuations d = []" "\<forall>i\<in>set (pseudo # redefined @ T). iu_addr i < next_addr d"
  obtain d1 where d1: "c d = Returns d1" "grown d d1 (set V) (set T)" using decaysD [OF assms(1) d(1)] d(2) by auto
  obtain specs where s: "filter_ops (next_addr d1) filter_iu pseudo to_redefine redefined = Returns specs" "batch_ok (set V) specs (pseudo # redefined)"
    using filter_ops_batch [OF _ _ assms(3,4)] assms(2) by (metis list.set_intros(1) set_subset_Cons subset_trans subsetD)
  have "grown d (attach_all specs d1) (set V \<union> set (pseudo # redefined)) (set T \<union> set (pseudo # redefined))"
    using assms(5) d(2) by (intro grown_batch [OF d1(2) s(2)]) auto
  then have "grown d (attach_all specs d1) (set redefined) (set (pseudo # redefined @ T))" by (rule grown_weaken) auto
  with d1(1) s(1) show "\<exists>d'. Filter_decay [c] filter_iu pseudo to_redefine redefined d = Returns d' \<and> grown d d' (set redefined) (set (pseudo # redefined @ T))"
    by (simp add: Filter_decay_def)
qed

lemma decays_expr:
  assumes "decays c V T" "list_all node_ok out" "set (concat (map expr_refs out)) \<subseteq> set V" "distinct (expr_ius out @ T)" "set V \<subseteq> set T"
  shows "decays (ExpressionOp_decay [c] out) (V @ map node_iu out) (expr_ius out @ T)"
  unfolding decays_def
proof (intro allI impI, elim conjE)
  fix d :: dag assume d: "continuations d = []" "\<forall>i\<in>set (expr_ius out @ T). iu_addr i < next_addr d"
  obtain d1 where d1: "c d = Returns d1" "grown d d1 (set V) (set T)" using decaysD [OF assms(1) d(1)] d(2) by auto
  have own: "distinct (expr_ius out)" "set (expr_ius out) \<inter> set V = {}" using assms(4,5) by auto
  obtain bm specs where s:
      "\<forall>d. decay_node_list (zip out (map decayNode out)) (Map.empty, d) = Returns (map node_iu out, bm, attach_all specs d)"
      "spec_deps (set V) specs" "distinct (spec_outs specs)" "set (spec_outs specs) \<subseteq> set (expr_ius out)" "spec_strong specs"
      "set (map node_iu out) \<subseteq> set V \<union> set (spec_outs specs)"
    using expr_batch [OF assms(2,3) own] by metis
  have new: "set (spec_outs specs) \<inter> set T = {}" "\<forall>i\<in>set (spec_outs specs). iu_addr i < next_addr d"
    using s(4) assms(4) d(2) by auto
  from grown_attach [OF d1(2) s(2,3) this s(5)]
  have "grown d (attach_all specs d1) (set V \<union> set (spec_outs specs)) (set T \<union> set (spec_outs specs))" .
  then have "grown d (attach_all specs d1) (set (V @ map node_iu out)) (set (expr_ius out @ T))"
    by (rule grown_weaken) (use s(4,6) in auto)
  moreover have "ExpressionOp_decay [c] out d = Returns (attach_all specs d1)" by (simp add: ExpressionOp_decay_def d1(1) s(1))
  ultimately show "\<exists>d'. ExpressionOp_decay [c] out d = Returns d' \<and> grown d d' (set (V @ map node_iu out)) (set (expr_ius out @ T))"
    by blast
qed

lemma grown_pair:
  assumes "grown d d' V T" "attach_state k st d' = (n, d'')"
  shows "grown d d'' V T"
  using assms grown_state_after [of d k st d' V T] by simp

lemma agg_last:
  assumes "granules p \<noteq> []"
  shows "fst (snd (last (agg_build_ops p st))) = []"
proof -
  have "\<forall>s\<in>set (aggregate_ops ptr off gs). fst (snd s) = []" for ptr off gs
    by (induction ptr off gs rule: aggregate_ops.induct) auto
  moreover have ne: "aggregate_ops ptr off (granules p) \<noteq> []" for ptr off using assms by (cases "granules p") auto
  ultimately have "fst (snd (last (aggregate_ops ptr off (granules p)))) = []" for ptr off using last_in_set by blast
  then show ?thesis using ne by (auto simp: agg_build_ops_def split: prod.splits)
qed

lemma decays_aggregation:
  assumes "decays c V T" "agg_ok V p" "distinct (agg_own p @ T)"
  shows "decays (\<lambda>d. obind (decay_children [c] d) (\<lambda>d1. Returns (Aggregation_decay p d1))) (agg_output p) (agg_own p @ T)"
  unfolding decays_def
proof (intro allI impI, elim conjE)
  fix d :: dag assume d: "continuations d = []" "\<forall>i\<in>set (agg_own p @ T). iu_addr i < next_addr d"
  obtain d0 where d0: "c d = Returns d0" "grown d d0 (set V) (set T)" using decaysD [OF assms(1) d(1)] d(2) by auto
  obtain st d1 where d1: "agg_hash_table p d0 = (st, d1)" by fastforce
  have g1: "grown d d1 (set V) (set T)"
    using d0(2) d1 by (auto simp: agg_hash_table_def attachHashTableComplexKey_def attachHashTableSimpleKey_def split: if_splits elim: grown_pair)
  let ?own = "(if length (group_by p) = 1 then [] else packed_ht_key p # pseudo_ius p) @ [agg_pointer_result p]"
  have own: "set ?own \<subseteq> set (agg_own p)" "distinct ?own" using assms(3) by (auto simp: agg_own_def)
  let ?d2 = "attach_all (agg_build_ops p st) d1"
  have g2: "grown d ?d2 (set V \<union> set ?own) (set T \<union> set ?own)"
    using own assms(3) d(2) by (intro grown_batch [OF g1 agg_build_batch [OF assms(2)]]) auto
  have sink: "isSink (last (suboperators (getCurrentPipeline ?d2)))"
    using last_attached [of "agg_build_ops p st" d1] agg_last [of p st] assms(2)
    by (auto simp: isSink_def agg_ok_def agg_build_ops_def split: prod.splits)
  let ?d3 = "addRuntimeTask \<lparr> after_pipe = length (pipelines ?d2) - 1, task_function = MergeAggregation st \<rparr> ?d2"
  have read: "batch_ok {} (agg_read_ops p st) (ht_scan_result p # out_key_ius p @ out_aggregate_ius p)"
    using assms(2) by (intro agg_read_batch) (simp add: agg_ok_def)
  obtain k rest where src: "agg_read_ops p st = (k, [ht_scan_result p], []) # rest" by (simp add: agg_read_ops_def)
  have "grown ?d3 (attach_all (agg_read_ops p st) (buildNewPipeline ?d3)) (set (agg_output p)) (set (agg_own p @ T))"
    using read grown_facts(1) [OF g2] assms(3)
    by (intro grown_new [OF _ src]) (auto simp: addRuntimeTask_def batch_ok_def agg_output_def agg_own_def)
  from grown_task [OF g2 sink this]
  have "grown d (Aggregation_decay p d0) (set (agg_output p)) (set (agg_own p @ T))"
    by (simp add: Aggregation_decay_def d1 Let_def)
  with d0(1) show "\<exists>d'. obind (decay_children [c] d) (\<lambda>d1. Returns (Aggregation_decay p d1)) = Returns d' \<and>
      grown d d' (set (agg_output p)) (set (agg_own p @ T))" by simp
qed

section \<open>Joins\<close>

lemma spec_outs_snds: "spec_outs (pack_ops t off kps) = concat (map snd kps)"
  by (induction t off kps rule: pack_ops.induct) auto

lemma join_build_batch:
  assumes "set (full_row_left p) \<subseteq> set V"
  shows "batch_ok (set V) (join_build_ops p st) [lookup_left p]"
proof -
  have "spec_deps (insert (lookup_left p) (set V)) (pack_ops (lookup_left p) 0 (map (\<lambda>i. (i, [])) (full_row_left p)))"
    using assms by (intro spec_deps_pack) (auto simp: comp_def)
  moreover have "concat (map snd (map (\<lambda>i. (i, [])) xs)) = []" for xs :: "iu list" by (induction xs) auto
  ultimately show ?thesis using assms
    by (auto simp: batch_ok_def join_build_ops_def materializeTuple_def spec_outs_snds strong_kind_def intro!: weak_strong)
qed

lemma join_build_last: "full_row_left p \<noteq> [] \<Longrightarrow> fst (snd (last (join_build_ops p st))) = []"
proof -
  assume ne: "full_row_left p \<noteq> []"
  have "\<forall>s\<in>set (pack_ops t off (map (\<lambda>i. (i, [])) xs)). fst (snd s) = []" for t off and xs :: "iu list"
    by (induction xs arbitrary: off) auto
  moreover have "pack_ops (lookup_left p) 0 (map (\<lambda>i. (i, [])) (full_row_left p)) \<noteq> []" using ne by (cases "full_row_left p") auto
  ultimately have "fst (snd (last (pack_ops (lookup_left p) 0 (map (\<lambda>i. (i, [])) (full_row_left p))))) = []"
    using last_in_set by blast
  with ne show ?thesis by (cases "full_row_left p") (auto simp: join_build_ops_def)
qed

lemma join_pack_batch:
  assumes "set (keys_right p @ payload_right p) \<subseteq> set W" "length (right_pseudo_ius p) = length (keys_right p @ payload_right p)"
  shows "batch_ok (set W) (join_pack_ops p) (scratch_pad_right p # right_pseudo_ius p)"
proof -
  have len: "length (map (\<lambda>i. [i]) (right_pseudo_ius p)) = length (keys_right p @ payload_right p)" using assms(2) by simp
  have "spec_deps (insert (scratch_pad_right p) (set W))
      (pack_ops (scratch_pad_right p) 0 (zip (keys_right p @ payload_right p) (map (\<lambda>i. [i]) (right_pseudo_ius p))))"
    using assms(1) len by (intro spec_deps_pack) (auto simp flip: set_map)
  then show ?thesis using spec_outs_pack [OF len]
    by (auto simp: batch_ok_def join_pack_ops_def strong_kind_def single_pseudos intro!: weak_strong)
qed

lemma join_lookup_batch:
  assumes "set (scratch_pad_right p # right_pseudo_ius p) \<subseteq> A"
  shows "batch_ok A (join_lookup_ops p st) [hash_right p, lookup_right p]"
  using assms by (auto simp: batch_ok_def join_lookup_ops_def htHashAndPrefetch_def htLookupWithHash_def strong_kind_def Let_def intro!: weak_strong)

definition filtered_ius :: "join_plan \<Rightarrow> iu list" where
  "filtered_ius p = filtered_build p # (if join_type p = LeftSemi then [] else [filtered_probe p])"

lemma join_filter_batch:
  assumes "iu_type (lookup_right p) = char_ptr" "iu_type (filtered_probe p) = char_ptr" "{lookup_right p, scratch_pad_right p} \<subseteq> A"
  obtains specs where "join_filter_ops p addr = Returns specs" "batch_ok A specs (filter_pseudo_iu p # filtered_ius p)"
proof -
  let ?l1 = "(ColumnFilterLogic char_ptr True, [filtered_build p], [filter_pseudo_iu p, lookup_right p])"
  let ?l2 = "(ColumnFilterLogic char_ptr False, [filtered_probe p], [filter_pseudo_iu p, scratch_pad_right p])"
  let ?ls = "(lookup_right p, ?l1) # (if join_type p = LeftSemi then [] else [(scratch_pad_right p, ?l2)])"
  have "no_bytes (lookup_right p)" using assms(1) by (simp add: no_bytes_def char_ptr_def)
  then have ops: "join_filter_ops p addr = Returns (filter_specs addr (lookup_right p) (filter_pseudo_iu p) ?ls)"
    using assms by (simp add: join_filter_ops_def filter_logic_build)
  have "batch_ok A (filter_specs addr (lookup_right p) (filter_pseudo_iu p) ?ls) (filter_pseudo_iu p # spec_outs (map snd ?ls))"
    using assms(3) by (intro filter_batch) auto
  moreover have "spec_outs (map snd ?ls) = filtered_ius p" by (simp add: filtered_ius_def)
  ultimately show thesis using that [OF ops] by simp
qed

lemma join_unpack_batch:
  assumes "set (filtered_ius p) \<subseteq> A" "join_type p = LeftSemi \<longrightarrow> keys_right_out p @ payload_right_out p = []"
  shows "batch_ok A (join_unpack_ops p) (join_output p)"
  using assms by (auto simp: batch_ok_def join_unpack_ops_def join_output_def filtered_ius_def batch_simps intro!: weak_strong spec_deps_unpack)

lemma decays_probe:
  assumes g: "grown d d6 (set W) T" and ok: "join_ok V W p" and new: "distinct (join_own p)" "set (join_own p) \<inter> T = {}"
    and fresh: "\<forall>i\<in>set (join_own p). iu_addr i < next_addr d"
  shows "\<exists>d'. (let d7 = attach_all (join_pack_ops p) d6;
                d8 = with_rof_guard (attach_all (join_lookup_ops p st)) d7;
                d9 = join_continuation p st d8
            in obind (join_filter_ops p (next_addr d9)) (\<lambda>filters.
               Returns (attach_all (join_unpack_ops p) (attach_all filters d9)))) = Returns d' \<and>
     grown d d' (set (join_output p)) (set (join_own p) \<union> T)"
proof -
  let ?A1 = "scratch_pad_right p # right_pseudo_ius p" and ?A2 = "[hash_right p, lookup_right p]"
    and ?A3 = "filter_pseudo_iu p # filtered_ius p" and ?A4 = "join_output p"
  have d: "distinct (?A1 @ ?A2 @ ?A3 @ ?A4)" "set (?A1 @ ?A2 @ ?A3 @ ?A4) \<subseteq> set (join_own p)"
    using new(1) by (auto simp: join_own_def filtered_ius_def)
  then have f: "set (?A1 @ ?A2 @ ?A3 @ ?A4) \<inter> T = {}" "\<forall>i\<in>set (?A1 @ ?A2 @ ?A3 @ ?A4). iu_addr i < next_addr d"
    using new(2) fresh by auto
  let ?d7 = "attach_all (join_pack_ops p) d6"
  let ?d8 = "with_rof_guard (attach_all (join_lookup_ops p st)) ?d7"
  have batch1: "batch_ok (set W) (join_pack_ops p) ?A1"
    using ok by (intro join_pack_batch) (auto simp: join_ok_def)
  have g7: "grown d ?d7 (set W \<union> set ?A1) (T \<union> set ?A1)"
    using d(1) f by (intro grown_batch [OF g batch1]) auto
  have "grown d (attach_all (join_lookup_ops p st) ?d7) (set W \<union> set ?A1 \<union> set ?A2) (T \<union> set ?A1 \<union> set ?A2)"
    using d(1) f by (intro grown_batch [OF g7 join_lookup_batch]) auto
  then have g8: "grown d ?d8 (set W \<union> set ?A1 \<union> set ?A2) (T \<union> set ?A1 \<union> set ?A2)"
    unfolding with_rof_guard_def Let_def by (rule grown_rof)
  have d9: "join_continuation p st ?d8 = ?d8" using ok by (simp add: join_continuation_def join_ok_def)
  obtain filters where fl: "join_filter_ops p (next_addr ?d8) = Returns filters" "batch_ok (set W \<union> set ?A1 \<union> set ?A2) filters ?A3"
    using join_filter_batch [of p "set W \<union> set ?A1 \<union> set ?A2" "next_addr ?d8"] ok by (auto simp: join_ok_def)
  have g9: "grown d (attach_all filters ?d8) (set W \<union> set ?A1 \<union> set ?A2 \<union> set ?A3) (T \<union> set ?A1 \<union> set ?A2 \<union> set ?A3)"
    using d(1) f by (intro grown_batch [OF g8 fl(2)]) auto
  have batch4: "batch_ok (set W \<union> set ?A1 \<union> set ?A2 \<union> set ?A3) (join_unpack_ops p) ?A4"
    using ok by (intro join_unpack_batch) (auto simp: join_ok_def)
  have g10: "grown d (attach_all (join_unpack_ops p) (attach_all filters ?d8)) (set W \<union> set ?A1 \<union> set ?A2 \<union> set ?A3 \<union> set ?A4)
      (T \<union> set ?A1 \<union> set ?A2 \<union> set ?A3 \<union> set ?A4)"
    using d(1) f by (intro grown_batch [OF g9 batch4]) auto
  then have "grown d (attach_all (join_unpack_ops p) (attach_all filters ?d8)) (set ?A4) (set (join_own p) \<union> T)"
    by (rule grown_weaken) (use d(2) in auto)
  then show ?thesis by (simp add: Let_def d9 fl(1))
qed

lemma decays_join:
  assumes "decays left V T1" "decays right W T2" "join_ok V W p" "distinct (join_own p @ T1 @ T2)"
  shows "decays (Join_decay p left right) (join_output p) (join_own p @ T1 @ T2)"
  unfolding decays_def
proof (intro allI impI, elim conjE)
  fix d0 :: dag assume d: "continuations d0 = []" "\<forall>i\<in>set (join_own p @ T1 @ T2). iu_addr i < next_addr d0"
  let ?sz = "key_size_left p + payload_size_left p" and ?ms = "length (runtime_state d0)"
  let ?d1 = "snd (attach_state 0 (TupleMaterializerState ?sz) d0)"
  let ?hs = "length (runtime_state ?d1)"
  let ?d2 = "snd (attach_state 0 (AtomicHashTableState ?ms) ?d1)"
  have d2: "continuations ?d2 = []" "next_addr ?d2 = next_addr d0" using d(1) by (simp_all add: attach_state_def)
  obtain d3 where d3: "left ?d2 = Returns d3" "grown ?d2 d3 (set V) (set T1)" using decaysD [OF assms(1) d2(1)] d(2) d2(2) by auto
  have g3: "grown d0 d3 (set V) (set T1)" using d3(2) by (simp add: grown_state)
  let ?d4 = "attach_all (join_build_ops p ?ms) d3"
  have full: "set (full_row_left p) \<subseteq> set V" "full_row_left p \<noteq> []" using assms(3) by (auto simp: join_ok_def)
  have "lookup_left p \<in> set (join_own p)" by (simp add: join_own_def)
  then have g4: "grown d0 ?d4 (set V \<union> set [lookup_left p]) (set T1 \<union> set [lookup_left p])"
    using assms(4) d(2) by (intro grown_batch [OF g3 join_build_batch [OF full(1)]]) auto
  have sink: "isSink (last (suboperators (getCurrentPipeline ?d4)))"
    using last_attached [of "join_build_ops p ?ms" d3] join_build_last [OF full(2), of ?ms] by (simp add: isSink_def join_build_ops_def)
  define f where "f = BuildJoinTable (key_size_left p) ?sz ?ms ?hs"
  let ?d5 = "addRuntimeTask \<lparr> after_pipe = length (pipelines ?d4) - 1, task_function = f \<rparr> ?d4"
  have d5: "continuations ?d5 = []" "next_addr d0 \<le> next_addr ?d5"
    using grown_facts(1,2) [OF g4] by (simp_all add: addRuntimeTask_def)
  have later: "\<forall>i\<in>set (join_own p @ T1 @ T2). iu_addr i < next_addr ?d5" using d(2) d5(2) by fastforce
  obtain d6 where d6: "right ?d5 = Returns d6" "grown ?d5 d6 (set W) (set T2)" using decaysD [OF assms(2) d5(1)] later by auto
  obtain d' where d': "(let d7 = attach_all (join_pack_ops p) d6;
                d8 = with_rof_guard (attach_all (join_lookup_ops p ?hs)) d7;
                d9 = join_continuation p ?hs d8
            in obind (join_filter_ops p (next_addr d9)) (\<lambda>filters.
               Returns (attach_all (join_unpack_ops p) (attach_all filters d9)))) = Returns d'"
      "grown ?d5 d' (set (join_output p)) (set (join_own p) \<union> set T2)"
    using decays_probe [OF d6(2) assms(3), of ?hs] assms(4) later by auto
  have "Join_decay p left right d0 = Returns d'"
    using assms(3) d3(1) d6(1) d'(1)
    by (simp add: Join_decay_def decayPkJoin_def attachTupleMaterializers_def attachAtomicHashTable_def join_ok_def attach_state_def f_def
        del: obind.simps(1)) (simp add: Let_def)
  moreover have "grown d0 d' (set (join_output p)) (set (join_own p @ T1 @ T2))"
    by (rule grown_weaken [OF grown_task [OF g4 sink d'(2)]]) auto
  ultimately show "\<exists>d'. Join_decay p left right d0 = Returns d' \<and> grown d0 d' (set (join_output p)) (set (join_own p @ T1 @ T2))"
    by blast
qed

section \<open>Whole plans\<close>

lemma visible_owned: "wf_op r \<Longrightarrow> set (visible r) \<subseteq> set (owned r)"
proof (induction r)
  case (ExpressionOp cs out)
  then obtain c where c: "cs = [c]" by (auto simp: length_Suc_conv)
  with ExpressionOp have child: "set (visible c) \<subseteq> set (owned c)" and refs: "set (concat (map expr_refs out)) \<subseteq> set (visible c)" by auto
  have "node_iu n \<in> set (expr_ius out) \<union> set (visible c)" if n: "n \<in> set out" for n
  proof (cases n)
    case (IURefNode i)
    then have "i \<in> set (concat (map expr_refs out))" using n by force
    then show ?thesis using refs IURefNode by auto
  next
    case (ComputeNode ty o' ch pa)
    then have "n \<in> set (expr_nodes n)" by simp
    then have "n \<in> set (compute_nodes out)" using n unfolding compute_nodes_def by auto
    then show ?thesis by (simp add: expr_ius_def)
  qed
  then show ?case using child c by auto
qed (auto simp: agg_own_def agg_output_def join_own_def)

lemma wf_op_decays:
  "wf_op r \<Longrightarrow> distinct (owned r) \<Longrightarrow> decays (decay r) (visible r) (owned r)"
proof (induction r)
  case (TableScan nm n cols)
  have "decay (TableScan nm n cols) = TableScan_decay nm n cols" by auto
  with TableScan decays_scan show ?case by simp
next
  case (Filter cs filter_iu pseudo to_redefine redefined)
  then obtain c where c: "cs = [c]" by (auto simp: length_Suc_conv)
  with Filter have "decays (decay c) (visible c) (owned c)" by auto
  from decays_filter [OF this] Filter.prems show ?case by (simp add: c)
next
  case (ExpressionOp cs out)
  then obtain c where c: "cs = [c]" by (auto simp: length_Suc_conv)
  with ExpressionOp have "decays (decay c) (visible c) (owned c)" by auto
  from decays_expr [OF this] ExpressionOp.prems visible_owned [of c] show ?case by (simp add: c)
next
  case (Aggregation cs p)
  then obtain c where c: "cs = [c]" by (auto simp: length_Suc_conv)
  with Aggregation have "decays (decay c) (visible c) (owned c)" by auto
  from decays_aggregation [OF this] Aggregation.prems show ?case by (simp add: c)
next
  case (Join cs p)
  then obtain l r where c: "cs = [l, r]" by (auto simp: length_Suc_conv numeral_2_eq_2)
  with Join have "decays (decay l) (visible l) (owned l)" "decays (decay r) (visible r) (owned r)" by auto
  from decays_join [OF this] Join.prems show ?case by (simp add: c)
next
  case (Print cs ius colnames limit)
  then show ?case by simp
qed

lemma printer_keeps:
  "suboperators (p\<lparr> pretty_printer := x \<rparr>) = suboperators p" "same_graph (p\<lparr> pretty_printer := x \<rparr>) p"
  by (simp_all add: same_graph_def)

lemma wf_plan_decays:
  assumes "wf_plan a (Print cs ius colnames limit)"
  shows "\<exists>d. QueryControlBlock a (Print cs ius colnames limit) = Returns d \<and> tasks_ok d \<and> continuations d = [] \<and> pipelines d \<noteq> [] \<and>
    list_all finished (pipelines d) \<and> pretty_printer (last (pipelines d)) = Some ius"
proof -
  obtain c where c: "cs = [c]" "wf_op c" "distinct (map iu_addr (owned c))" "\<forall>i\<in>set (owned c). iu_addr i < a" "ius \<noteq> []"
      "set ius \<subseteq> set (visible c)"
    using assms by (auto simp: wf_plan_def list_all_iff split: list.splits)
  have "distinct (owned c)" using c(3) by (simp add: distinct_map)
  from decaysD [OF wf_op_decays [OF c(2) this], of "PipelineDAG a"] c(4)
  obtain d1 where d1: "decay c (PipelineDAG a) = Returns d1" "grown (PipelineDAG a) d1 (set (visible c)) (set (owned c))"
    by (auto simp: PipelineDAG_def)
  let ?sinks = "map (\<lambda>i. (FuseChunkSink, [], [i])) ius"
  have "spec_outs ?sinks = []" by (induction ius) auto
  moreover have "spec_deps (set (visible c)) ?sinks" using c(6) by (intro spec_deps_all) auto
  moreover have "spec_strong ?sinks" by (intro weak_strong) (auto simp: weak_specs_def strong_kind_def)
  ultimately have batch: "batch_ok (set (visible c)) ?sinks []" by (simp add: batch_ok_def)
  let ?d2 = "attach_all ?sinks d1"
  have g2: "grown (PipelineDAG a) ?d2 (set (visible c)) (set (owned c))"
    using grown_batch [OF d1(2) batch] by simp
  have sink: "isSink (last (suboperators (getCurrentPipeline ?d2)))"
    using last_attached [of ?sinks d1] c(5) by (simp add: isSink_def last_map)
  from g2 obtain ps p ts where g: "pipelines ?d2 = ps @ [p]" "runtime_tasks ?d2 = ts" "continuations ?d2 = []" "list_all finished ps"
     "graph_ok p" "pipe_ok a (next_addr ?d2) (suboperators p)" "pretty_printer p = None" "tasks_in 0 (length ps) ts"
    unfolding grown_def open_pipe_def by (auto simp: PipelineDAG_def)
  let ?q = "p\<lparr> pretty_printer := Some ius \<rparr>"
  have cur: "getCurrentPipeline ?d2 = p" using g(1) by (simp add: getCurrentPipeline_def)
  have fin: "finished ?q"
    using pipe_ok_finished [OF _ g(6)] g(5) sink cur same_graph_trans [OF printer_keeps(2)]
    by (auto simp: finished_def graph_ok_def pipe_ok_def)
  have "QueryControlBlock a (Print cs ius colnames limit) = Returns (on_current (\<lambda>_. ?q) ?d2)"
    using d1(1) cur g(7) by (simp add: QueryControlBlock_def c(1) Print_decay_def Let_def setPrettyPrinter_def)
  moreover have "tasks_ok (on_current (\<lambda>_. ?q) ?d2)"
    using g(1,2,8) by (auto simp: tasks_ok_def tasks_in_def)
  ultimately show ?thesis using g fin by (intro exI [of _ "on_current (\<lambda>_. ?q) ?d2"]) simp
qed

text \<open>
  C31. Every well-formed plan without left outer joins decays without an error into a DAG that can be executed. Well-formed: an operator
  reads only columns that its children offer, no two operators own the same IU, filters pass on no packed keys, an aggregation computes
  something, and joins are primary key joins whose build side has a column. In the DAG
  each pipeline starts with a source
  and ends with a sink, has every IU provided once and before it is read, has the dependency graph of
  its suboperators and loops that strong links can find again; the runtime tasks lie in the order of the
  pipelines, and the result goes to the printer of the last one.
\<close>
theorem plan_decays:
  assumes "wf_plan a (Print cs ius colnames limit)"
  shows "\<exists>d. QueryControlBlock a (Print cs ius colnames limit) = Returns d \<and> tasks_ok d \<and> continuations d = [] \<and> pipelines d \<noteq> [] \<and>
    list_all finished (pipelines d) \<and> pretty_printer (last (pipelines d)) = Some ius"
  by (rule wf_plan_decays [OF assms])

text \<open>
  An aggregation above a left outer join: the merge of its tables is registered after the pipeline of the probe side, and the
  pipeline that the join's continuation becomes, which aggregates the unmatched rows, comes after that one.
\<close>

lemma merge_before_continuation:
  assumes "continuations d = [(idx, q)]" "pipelines d \<noteq> []"
  shows "\<exists>st cont. last (runtime_tasks (Aggregation_decay p d)) = \<lparr> after_pipe = length (pipelines d) - 1, task_function = MergeAggregation st \<rparr> \<and>
    pipelines (Aggregation_decay p d) ! length (pipelines d) = cont \<and>
    suboperators cont = suboperators q @ drop idx (suboperators (last (pipelines (attach_all (agg_build_ops p st) d)))) \<and>
    length (pipelines d) + 2 = length (pipelines (Aggregation_decay p d))"
proof -
  obtain st d1 where d1: "agg_hash_table p d = (st, d1)" by fastforce
  then have same: "pipelines d1 = pipelines d" "continuations d1 = continuations d" "next_addr d1 = next_addr d"
    by (auto simp: agg_hash_table_def attachHashTableComplexKey_def attachHashTableSimpleKey_def attach_state_def split: if_splits)
  let ?d2 = "attach_all (agg_build_ops p st) d1"
  have ne: "pipelines d1 \<noteq> []" using same(1) assms(2) by simp
  let ?cont = "foldl attachSuboperator q (drop idx (suboperators (last (pipelines ?d2))))"
  define t where "t = \<lparr> after_pipe = length (pipelines ?d2) - 1, task_function = MergeAggregation st \<rparr>"
  let ?d3 = "addRuntimeTask t ?d2"
  have d4: "pipelines (buildNewPipeline ?d3) = pipelines ?d2 @ [?cont, Pipeline]"
    using assms(1) same(2) by (simp add: buildNewPipeline_def addRuntimeTask_def attach_continuation_pipe_def)
  have d5: "pipelines (Aggregation_decay p d) = butlast (pipelines (buildNewPipeline ?d3)) @
      [foldl attachSuboperator (last (pipelines (buildNewPipeline ?d3))) (number make_subop (next_addr (buildNewPipeline ?d3)) (agg_read_ops p st))]"
    unfolding Aggregation_decay_def d1 Let_def prod.case t_def [symmetric] by (rule attach_all_pipelines) (simp add: d4)
  have pipes: "pipelines (Aggregation_decay p d) = pipelines ?d2 @ [?cont,
      foldl attachSuboperator Pipeline (number make_subop (next_addr (buildNewPipeline ?d3)) (agg_read_ops p st))]"
    unfolding d5 d4 by (simp add: butlast_append)
  have len: "length (pipelines ?d2) = length (pipelines d)" using attach_all_simps(1) [OF ne] same(1) by simp
  have "last (pipelines ?d2) = last (pipelines (attach_all (agg_build_ops p st) d))"
    using attach_all_pipelines [OF ne, of "agg_build_ops p st"] attach_all_pipelines [OF assms(2), of "agg_build_ops p st"] same by simp
  moreover have "runtime_tasks (Aggregation_decay p d) = runtime_tasks d1 @ [t]"
    unfolding Aggregation_decay_def d1 Let_def prod.case t_def [symmetric] by (simp add: buildNewPipeline_def addRuntimeTask_def)
  ultimately show ?thesis using len
    by (intro exI [of _ st] exI [of _ ?cont]) (simp add: pipes nth_append t_def)
qed

definition ex_scan_op :: relop where
  "ex_scan_op = TableScan ''scan'' 10 [(''k'', own_iu 0 (SignedInt 4)), (''v'', own_iu 1 (Float 8))]"

definition ex_plan_root :: "relop outcome" where
  "ex_plan_root =
     obind (Aggregation_plan 2 [own_iu 0 (SignedInt 4)] [\<lparr> agg_iu = own_iu 1 (Float 8), code = AggSum, is_distinct = False \<rparr>]) (\<lambda>p.
       Print_build [Aggregation [ex_scan_op] p] (agg_output p) [''k'', ''sum''] None)"

definition ex_plan_wf :: bool where
  "ex_plan_wf = (case ex_plan_root of Returns r \<Rightarrow> wf_plan 100 r | _ \<Rightarrow> False)"

lemma ex_plan_wf: "ex_plan_wf" by code_simp

theorem plan_decays_witness:
  "\<exists>cs ius colnames limit d. ex_plan_root = Returns (Print cs ius colnames limit) \<and>
     QueryControlBlock 100 (Print cs ius colnames limit) = Returns d \<and> tasks_ok d \<and> list_all finished (pipelines d) \<and>
     pretty_printer (last (pipelines d)) = Some ius"
proof -
  obtain r where r: "ex_plan_root = Returns r" "wf_plan 100 r" using ex_plan_wf by (auto simp: ex_plan_wf_def split: outcome.splits)
  then obtain cs ius colnames limit where p: "r = Print cs ius colnames limit" by (cases r) (auto simp: wf_plan_def)
  from plan_decays [OF r(2) [unfolded p]] r(1) p show ?thesis by metis
qed

end
