(* ===== verification/Relations.thy ===== *)
theory Relations
  imports IR_Types
begin

text \<open>
  Stored relations (\<open>storage/Relation.{h,cpp}\<close>): columns of fixed-width values in one byte array or of strings, and
  loading rows from \<open>|\<close>-separated text. Parsing dates (the library \<open>date\<close>) and floating point numbers is a parameter.
\<close>

section \<open>Numbers in memory and in text\<close>

text \<open>The \<open>n\<close> bytes that a write through an integer pointer leaves, and what a read gives back.\<close>

fun le_bytes :: "nat \<Rightarrow> int \<Rightarrow> bytes" where
  "le_bytes 0 v = []"
| "le_bytes (Suc n) v = word_of_int v # le_bytes n (v div 256)"

fun le_uint :: "bytes \<Rightarrow> int" where
  "le_uint [] = 0"
| "le_uint (b # bs) = uint b + 256 * le_uint bs"

definition le_sint :: "bytes \<Rightarrow> int" where
  "le_sint bs = (let u = le_uint bs in if 2 * u < 256 ^ length bs then u else u - 256 ^ length bs)"

definition is_space :: "char \<Rightarrow> bool" where
  "is_space c \<longleftrightarrow> c = CHR 0x20 \<or> c = CHR 0x09 \<or> c = CHR 0x0A \<or> c = CHR 0x0B \<or> c = CHR 0x0C \<or> c = CHR 0x0D"

definition is_digit :: "char \<Rightarrow> bool" where
  "is_digit c \<longleftrightarrow> 48 \<le> (of_char c :: nat) \<and> (of_char c :: nat) \<le> 57"

definition take_sign :: "string \<Rightarrow> bool \<times> string" where
  "take_sign s = (case s of [] \<Rightarrow> (False, []) | c # cs \<Rightarrow> if c = CHR ''-'' then (True, cs) else if c = CHR ''+'' then (False, cs) else (False, s))"

text \<open>\<open>std::stoll\<close> and \<open>std::stoull\<close>.\<close>

definition stoll :: "string \<Rightarrow> int outcome" where
  "stoll s = (case take_sign (dropWhile is_space s) of (neg, rest) \<Rightarrow>
     let digits = takeWhile is_digit rest; v = (if neg then - int (decimal digits) else int (decimal digits))
     in if digits = [] then Throws ''std::invalid_argument'' else if v < - (2 ^ 63) \<or> 2 ^ 63 \<le> v then Throws ''std::out_of_range'' else Returns v)"

definition stoull :: "string \<Rightarrow> int outcome" where
  "stoull s = (case take_sign (dropWhile is_space s) of (neg, rest) \<Rightarrow>
     let digits = takeWhile is_digit rest; v = int (decimal digits)
     in if digits = [] then Throws ''std::invalid_argument'' else if 2 ^ 64 \<le> v then Throws ''std::out_of_range''
        else Returns (if neg then (- v) mod 2 ^ 64 else v))"

section \<open>Columns\<close>

record text_library =
  dateStrToInt :: "string \<Rightarrow> int"
  stof :: "string \<Rightarrow> bytes outcome"
  stod :: "string \<Rightarrow> bytes outcome"

datatype column =
    PODColumn irtype bool bytes nat
  | StringColumn bool "string list"

text \<open>The loading functions; each gets the text from its position on, up to the terminating zero byte.\<close>

definition loadDate :: "text_library \<Rightarrow> string \<Rightarrow> bytes outcome" where
  "loadDate lib s = Returns (le_bytes 4 (dateStrToInt lib s))"
definition loadInt :: "nat \<Rightarrow> string \<Rightarrow> bytes outcome" where
  "loadInt n s = obind (stoll s) (\<lambda>v. Returns (le_bytes n v))"
definition loadUint :: "nat \<Rightarrow> string \<Rightarrow> bytes outcome" where
  "loadUint n s = obind (stoull s) (\<lambda>v. Returns (le_bytes n v))"
definition loadFloat :: "text_library \<Rightarrow> string \<Rightarrow> bytes outcome" where
  "loadFloat lib s = stof lib s"
definition loadDouble :: "text_library \<Rightarrow> string \<Rightarrow> bytes outcome" where
  "loadDouble lib s = stod lib s"
definition loadChar :: "string \<Rightarrow> bytes outcome" where
  "loadChar s = Returns [case s of [] \<Rightarrow> 0 | c # cs \<Rightarrow> word_of_nat (of_char c)]"

text \<open>The loading function that the constructor of \<open>PODColumn\<close> resolves.\<close>

definition load_val :: "text_library \<Rightarrow> irtype \<Rightarrow> (string \<Rightarrow> bytes outcome) outcome" where
  "load_val lib t = (case t of
     Date \<Rightarrow> Returns (loadDate lib)
   | SignedInt n \<Rightarrow> if n \<in> {1, 2, 4, 8} then Returns (loadInt n) else Throws ''Unsupported width for loading signed integers''
   | UnsignedInt n \<Rightarrow> if n \<in> {1, 2, 4, 8} then Returns (loadUint n) else Throws ''Unsupported width for loading unsigned integers''
   | Float n \<Rightarrow> if n = 4 then Returns (loadFloat lib) else if n = 8 then Returns (loadDouble lib)
       else Throws ''Unsupported width for loading floating points''
   | CharT \<Rightarrow> Returns loadChar
   | _ \<Rightarrow> Throws (type_id t @ '' cannot be loaded into a PODColumn''))"

definition PODColumn_new :: "text_library \<Rightarrow> irtype \<Rightarrow> bool \<Rightarrow> column outcome" where
  "PODColumn_new lib t nullable = obind (load_val lib t) (\<lambda>f. Returns (PODColumn t nullable [] 0))"

fun col_length :: "column \<Rightarrow> nat" where
  "col_length (PODColumn t nullable storage off) = length storage div width t"
| "col_length (StringColumn nullable offsets) = length offsets"

fun col_type :: "column \<Rightarrow> irtype" where
  "col_type (PODColumn t nullable storage off) = t"
| "col_type (StringColumn nullable offsets) = StringT"

fun isNullable :: "column \<Rightarrow> bool" where
  "isNullable (PODColumn t nullable storage off) = nullable"
| "isNullable (StringColumn nullable offsets) = nullable"

text \<open>
  \<open>std::vector::resize\<close>, the write at the offset, the new offset. The text is the rest of the line; strings
  take their length from the caller, everything else parses up to the zero byte.
\<close>

definition resize :: "nat \<Rightarrow> bytes \<Rightarrow> bytes" where
  "resize n bs = take n bs @ replicate (n - length bs) 0"

fun loadValue :: "text_library \<Rightarrow> column \<Rightarrow> string \<Rightarrow> nat \<Rightarrow> column outcome" where
  "loadValue lib (PODColumn t nullable storage off) rest strLen =
     obind (load_val lib t) (\<lambda>f. obind (f (takeWhile (\<lambda>c. c \<noteq> CHR 0x00) rest)) (\<lambda>bs.
       Returns (PODColumn t nullable (mem_write off bs (resize (off + width t) storage)) (off + width t))))"
| "loadValue lib (StringColumn nullable offsets) rest strLen = Returns (StringColumn nullable (offsets @ [take strLen rest]))"

section \<open>Relations\<close>

type_synonym relation = "(string \<times> column) list"

definition getColumn_named :: "relation \<Rightarrow> string \<Rightarrow> column outcome" where
  "getColumn_named rel name = (case map_of rel name of None \<Rightarrow> Throws ''Named column does not exist'' | Some c \<Rightarrow> Returns c)"

fun getColumnId :: "relation \<Rightarrow> string \<Rightarrow> nat outcome" where
  "getColumnId [] name = Throws ''Named column does not exist. Cannot get id.''"
| "getColumnId ((n, c) # rel) name = (if n = name then Returns 0 else obind (getColumnId rel name) (\<lambda>k. Returns (Suc k)))"

definition getColumn_at :: "relation \<Rightarrow> nat \<Rightarrow> (string \<times> column) outcome" where
  "getColumn_at rel index = (if index \<ge> length rel then Throws ''Indexed column does not exist'' else Returns (rel ! index))"

definition columnCount :: "relation \<Rightarrow> nat" where
  "columnCount rel = length rel"

definition attach_column :: "string \<Rightarrow> column \<Rightarrow> relation \<Rightarrow> relation outcome" where
  "attach_column name c rel =
     (if name \<in> set (map fst rel) then Throws ''Column name in StoredRelation must be unique'' else Returns (rel @ [(name, c)]))"

definition attachPODColumn :: "text_library \<Rightarrow> string \<Rightarrow> irtype \<Rightarrow> bool \<Rightarrow> relation \<Rightarrow> relation outcome" where
  "attachPODColumn lib name t nullable rel =
     (if name \<in> set (map fst rel) then Throws ''Column name in StoredRelation must be unique''
      else obind (PODColumn_new lib t nullable) (\<lambda>c. attach_column name c rel))"

definition attachStringColumn :: "string \<Rightarrow> bool \<Rightarrow> relation \<Rightarrow> relation outcome" where
  "attachStringColumn name nullable rel = attach_column name (StringColumn nullable []) rel"

text \<open>\<open>std::string::find\<close>\<close>

definition find_from :: "char \<Rightarrow> nat \<Rightarrow> string \<Rightarrow> nat option" where
  "find_from c pos s = (let k = pos + length (takeWhile (\<lambda>x. x \<noteq> c) (drop pos s)) in if k < length s then Some k else None)"

text \<open>A position behind the end makes the column read past the line.\<close>

fun load_columns :: "text_library \<Rightarrow> string \<Rightarrow> nat \<Rightarrow> relation \<Rightarrow> relation outcome" where
  "load_columns lib s currPos [] = Returns []"
| "load_columns lib s currPos ((c_name, c) # rel) =
     (if currPos = length s then Throws ''Not enough columns in TSV''
      else if currPos > length s then Throws ''undefined: read past the end of the line''
      else let end_pos = (case find_from (CHR ''|'') currPos s of None \<Rightarrow> length s | Some e \<Rightarrow> e)
        in obind (loadValue lib c (drop currPos s) (end_pos - currPos)) (\<lambda>c'.
           obind (load_columns lib s (end_pos + 1) rel) (\<lambda>rel'. Returns ((c_name, c') # rel'))))"

definition loadRow :: "text_library \<Rightarrow> string \<Rightarrow> relation \<Rightarrow> relation outcome" where
  "loadRow lib s rel = load_columns lib s 0 rel"

text \<open>The lines that \<open>std::getline\<close> yields until the stream is at its end.\<close>

function get_lines :: "string \<Rightarrow> string list" where
  "get_lines s = (if s = [] then [] else takeWhile (\<lambda>c. c \<noteq> CHR 0x0A) s # get_lines (drop 1 (dropWhile (\<lambda>c. c \<noteq> CHR 0x0A) s)))"
  by pat_completeness auto
termination
proof (relation "measure length")
  fix s :: string assume "s \<noteq> []"
  then have "0 < length s" by simp
  moreover have "length (dropWhile (\<lambda>c. c \<noteq> CHR 0x0A) s) \<le> length s" by (rule length_dropWhile_le)
  ultimately show "(drop 1 (dropWhile (\<lambda>c. c \<noteq> CHR 0x0A) s), s) \<in> measure length"
    unfolding in_measure length_drop by linarith
qed simp

declare get_lines.simps [simp del]

fun load_lines :: "text_library \<Rightarrow> string list \<Rightarrow> relation \<Rightarrow> relation outcome" where
  "load_lines lib [] rel = Returns rel"
| "load_lines lib (s # ls) rel = obind (loadRow lib s rel) (load_lines lib ls)"

definition loadRows :: "text_library \<Rightarrow> string \<Rightarrow> relation \<Rightarrow> relation outcome" where
  "loadRows lib stream rel = load_lines lib (get_lines stream) rel"

end
