(* ===== verification/TPCH.thy ===== *)
theory TPCH
  imports Plan_Correct Relations
begin

text \<open>
  The TPC-H schema and the query plans (\<open>common/TPCH.cpp\<close>). A plan is built in continuation-passing style: each step
  gets the next free address, allocates the IUs of what it builds and hands both on.
\<close>

section \<open>The schema\<close>

definition t_i4 :: irtype where "t_i4 = SignedInt 4"
definition t_f8 :: irtype where "t_f8 = Float 8"
definition t_char :: irtype where "t_char = CharT"
definition t_date :: irtype where "t_date = Date"

text \<open>A relation by its columns in the order they are attached; \<open>None\<close> is a string column.\<close>

definition build_table :: "text_library \<Rightarrow> (string \<times> irtype option) list \<Rightarrow> relation outcome" where
  "build_table lib cols = foldl (\<lambda>rel (name, t). obind rel (\<lambda>r. case t of
     None \<Rightarrow> attachStringColumn name False r | Some ty \<Rightarrow> attachPODColumn lib name ty False r)) (Returns []) cols"

definition lineitem_columns :: "(string \<times> irtype option) list" where
  "lineitem_columns = [(''l_orderkey'', Some t_i4), (''l_partkey'', Some t_i4), (''l_suppkey'', Some t_i4), (''l_linenumber'', Some t_i4),
     (''l_quantity'', Some t_f8), (''l_extendedprice'', Some t_f8), (''l_discount'', Some t_f8), (''l_tax'', Some t_f8),
     (''l_returnflag'', Some t_char), (''l_linestatus'', Some t_char), (''l_shipdate'', Some t_date), (''l_commitdate'', Some t_date),
     (''l_receiptdate'', Some t_date), (''l_shipinstruct'', None), (''l_shipmode'', None)]"
definition orders_columns :: "(string \<times> irtype option) list" where
  "orders_columns = [(''o_orderkey'', Some t_i4), (''o_custkey'', Some t_i4), (''o_orderstatus'', Some t_char), (''o_totalprice'', Some t_f8),
     (''o_orderdate'', Some t_date), (''o_orderpriority'', None), (''o_clerk'', None), (''o_shippriority'', Some t_i4), (''o_comment'', None)]"
definition customer_columns :: "(string \<times> irtype option) list" where
  "customer_columns = [(''c_custkey'', Some t_i4), (''c_name'', None), (''c_address'', None), (''c_nationkey'', Some t_i4), (''c_phone'', None),
     (''c_acctbal'', Some t_f8), (''c_mktsegment'', None), (''c_comment'', None)]"
definition part_columns :: "(string \<times> irtype option) list" where
  "part_columns = [(''p_partkey'', Some t_i4), (''p_name'', None), (''p_mfgr'', None), (''p_brand'', None), (''p_type'', None),
     (''p_size'', Some t_i4), (''p_container'', None), (''p_retailprice'', Some t_f8), (''p_comment'', None)]"
definition supplier_columns :: "(string \<times> irtype option) list" where
  "supplier_columns = [(''s_suppkey'', Some t_i4), (''s_name'', None), (''s_address'', None), (''s_nationkey'', Some t_i4), (''s_phone'', None),
     (''s_acctbal'', Some t_f8), (''s_comment'', None)]"
definition nation_columns :: "(string \<times> irtype option) list" where
  "nation_columns = [(''n_nationkey'', Some t_i4), (''n_name'', None), (''n_regionkey'', Some t_i4), (''n_comment'', None)]"
definition region_columns :: "(string \<times> irtype option) list" where
  "region_columns = [(''r_regionkey'', Some t_i4), (''r_name'', None), (''r_comment'', None)]"

definition tpch_tables :: "(string \<times> (string \<times> irtype option) list) list" where
  "tpch_tables = [(''lineitem'', lineitem_columns), (''orders'', orders_columns), (''customer'', customer_columns), (''part'', part_columns),
     (''supplier'', supplier_columns), (''nation'', nation_columns), (''region'', region_columns)]"

definition getTPCHSchema :: "text_library \<Rightarrow> (string \<times> relation) list outcome" where
  "getTPCHSchema lib = map_outcome (\<lambda>(name, cols). obind (build_table lib cols) (\<lambda>rel. Returns (name, rel))) tpch_tables"

text \<open>What planning reads of a schema: the types of the columns and the numbers of rows.\<close>

record catalog =
  cat_columns :: "(string \<times> (string \<times> irtype) list) list"
  cat_rows :: "string \<Rightarrow> nat"

definition catalog_of :: "(string \<times> relation) list \<Rightarrow> catalog" where
  "catalog_of schema = \<lparr>
     cat_columns = map (\<lambda>(name, rel). (name, map (\<lambda>(col, c). (col, col_type c)) rel)) schema,
     cat_rows = (\<lambda>name. case map_of schema name of Some ((col, c) # rel) \<Rightarrow> col_length c | _ \<Rightarrow> 0) \<rparr>"

section \<open>Building plans\<close>

type_synonym built_plan = "relop \<times> nat"
type_synonym building = "nat \<Rightarrow> built_plan outcome"

definition scan :: "catalog \<Rightarrow> string \<Rightarrow> string \<Rightarrow> string list \<Rightarrow> (relop \<Rightarrow> building) \<Rightarrow> building" where
  "scan s name table cols k a = obind (at_map (map_of (cat_columns s)) table) (\<lambda>columns.
     obind (TableScan_build a (cat_rows s table) columns cols name []) (\<lambda>op. k op (a + length cols)))"

definition getScanIndex :: "string \<Rightarrow> string list \<Rightarrow> nat outcome" where
  "getScanIndex name cols = (let distance = index_of name cols in
     if distance = length cols then Throws (''Column '' @ name @ '' does not exist in scan.'') else Returns distance)"

definition col :: "iu list \<Rightarrow> string \<Rightarrow> string list \<Rightarrow> (iu \<Rightarrow> building) \<Rightarrow> building" where
  "col out name cols k a = obind (getScanIndex name cols) (\<lambda>j. k (out ! j) a)"

definition check :: "bool \<Rightarrow> building \<Rightarrow> building" where
  "check b k a = (if b then k a else Throws ''assertion'')"

definition comp :: "expr_type \<Rightarrow> expr_node list \<Rightarrow> (expr_node \<Rightarrow> building) \<Rightarrow> building" where
  "comp ty children k a = obind (compute_node a ty children) (\<lambda>n. k n (Suc a))"

definition const :: "expr_type \<Rightarrow> ir_value \<Rightarrow> expr_node \<Rightarrow> (expr_node \<Rightarrow> building) \<Rightarrow> building" where
  "const ty v child k a = obind (compute_param a ty v child) (\<lambda>n. k n (Suc a))"

fun chain :: "expr_type \<Rightarrow> expr_node \<Rightarrow> expr_node list \<Rightarrow> (expr_node \<Rightarrow> building) \<Rightarrow> building" where
  "chain ty curr_top [] k = k curr_top"
| "chain ty curr_top (node # nodes) k = comp ty [curr_top, node] (\<lambda>top. chain ty top nodes k)"

definition Concatenate :: "expr_type \<Rightarrow> expr_node list \<Rightarrow> (expr_node \<Rightarrow> building) \<Rightarrow> building" where
  "Concatenate ty or_nodes k = (case or_nodes of
     n0 # n1 # nodes \<Rightarrow> comp ty [n0, n1] (\<lambda>top. chain ty top nodes k)
   | _ \<Rightarrow> (\<lambda>a. Throws ''assertion''))"

definition Andify :: "expr_node list \<Rightarrow> (expr_node \<Rightarrow> building) \<Rightarrow> building" where "Andify = Concatenate And"
definition Orify :: "expr_node list \<Rightarrow> (expr_node \<Rightarrow> building) \<Rightarrow> building" where "Orify = Concatenate Or"

definition expr_op :: "relop \<Rightarrow> expr_node list \<Rightarrow> (relop \<Rightarrow> building) \<Rightarrow> building" where
  "expr_op child out k = k (ExpressionOp [child] out)"

definition filter_op :: "relop \<Rightarrow> iu list \<Rightarrow> iu \<Rightarrow> (relop \<Rightarrow> building) \<Rightarrow> building" where
  "filter_op child to_redefine filter_iu k a = k (Filter_build a [child] to_redefine filter_iu) (a + 1 + length to_redefine)"

definition agg_op :: "relop \<Rightarrow> iu list \<Rightarrow> (iu \<times> agg_opcode) list \<Rightarrow> (relop \<Rightarrow> building) \<Rightarrow> building" where
  "agg_op child groups aggregates k a =
     obind (Aggregation_plan a groups (map (\<lambda>(i, c). \<lparr> agg_iu = i, code = c, is_distinct = False \<rparr>) aggregates)) (\<lambda>p.
       k (Aggregation [child] p) (a + 3 + 2 * length groups + length aggregates))"

definition join_op :: "relop \<Rightarrow> relop \<Rightarrow> iu list \<Rightarrow> iu list \<Rightarrow> iu list \<Rightarrow> iu list \<Rightarrow> join_type \<Rightarrow> bool \<Rightarrow> (relop \<Rightarrow> building) \<Rightarrow> building" where
  "join_op left right kl pl kr pr ty pk k a =
     obind (Join_plan a 2 kl pl kr pr ty pk) (\<lambda>p.
       k (Join [left, right] p) (a + 7 + length kl + length pl + 2 * length kr + 2 * length pr))"

definition print_op :: "relop \<Rightarrow> iu list \<Rightarrow> string list \<Rightarrow> nat option \<Rightarrow> building" where
  "print_op child ius colnames limit a = obind (Print_build [child] ius colnames limit) (\<lambda>root. Returns (root, a))"

text \<open>\<open>Col k op\<close> is \<open>op.getOutput()[k]\<close>.\<close>

definition Col :: "nat \<Rightarrow> relop \<Rightarrow> iu" where "Col k op = getOutput op ! k"
definition Cols :: "nat list \<Rightarrow> relop \<Rightarrow> iu list" where "Cols ks op = map (\<lambda>k. Col k op) ks"
definition Ref :: "nat \<Rightarrow> relop \<Rightarrow> expr_node" where "Ref k op = IURefNode (Col k op)"
definition outs :: "nat \<Rightarrow> relop \<Rightarrow> bool" where "outs n op \<longleftrightarrow> length (getOutput op) = n"

text \<open>Doubles of the queries.\<close>

definition f8 :: "int \<Rightarrow> ir_value" where "f8 n = F8 (n * 1000000)"

section \<open>The queries\<close>

definition q1 :: "text_library \<Rightarrow> catalog \<Rightarrow> building" where
  "q1 lib s =
     (let cols = [''l_returnflag'', ''l_linestatus'', ''l_quantity'', ''l_extendedprice'', ''l_discount'', ''l_tax'', ''l_shipdate''] in
      scan s ''l_scan'' ''lineitem'' cols (\<lambda>scan.
      col (getOutput scan) ''l_shipdate'' cols (\<lambda>l_shipdate.
      const GreaterEqual (DateVal (dateStrToInt lib ''1998-12-01'' - 90)) (IURefNode l_shipdate) (\<lambda>pred.
      expr_op scan [pred] (\<lambda>filter_expr.
      check (outs 1 filter_expr) (
      filter_op filter_expr (butlast (getOutput scan)) (Col 0 filter_expr) (\<lambda>flt.
      col (getOutput flt) ''l_tax'' cols (\<lambda>l_tax.
      const Add (f8 1) (IURefNode l_tax) (\<lambda>one_plus_l_tax.
      col (getOutput flt) ''l_discount'' cols (\<lambda>l_discount.
      const Subtract (f8 1) (IURefNode l_discount) (\<lambda>one_minus_l_discount.
      col (getOutput flt) ''l_extendedprice'' cols (\<lambda>l_extendedprice.
      comp Multiply [one_minus_l_discount, IURefNode l_extendedprice] (\<lambda>mult_simple.
      comp Multiply [mult_simple, one_plus_l_tax] (\<lambda>mult_complex.
      expr_op flt [mult_simple, mult_complex] (\<lambda>agg_expr.
      col (getOutput flt) ''l_returnflag'' cols (\<lambda>l_returnflag.
      col (getOutput flt) ''l_linestatus'' cols (\<lambda>l_linestatus.
      col (getOutput flt) ''l_quantity'' cols (\<lambda>l_quantity.
      agg_op agg_expr [l_returnflag, l_linestatus]
        [(l_quantity, AggSum), (l_extendedprice, AggSum), (Col 0 agg_expr, AggSum), (Col 1 agg_expr, AggSum),
         (l_quantity, AggAvg), (l_extendedprice, AggAvg), (l_discount, AggAvg), (l_quantity, AggCount)] (\<lambda>agg.
      print_op agg (getOutput agg)
        [''l_returnflag'', ''l_linestatus'', ''sum_qty'', ''sum_base_price'', ''sum_disc_price'', ''sum_charge'', ''avg_qty'',
         ''avg_price'', ''avg_disc'', ''count_order''] None)))))))))))))))))))"

definition q6 :: "text_library \<Rightarrow> catalog \<Rightarrow> building" where
  "q6 lib s =
     (let cols = [''l_extendedprice'', ''l_discount'', ''l_shipdate'', ''l_quantity''] in
      scan s ''scan'' ''lineitem'' cols (\<lambda>scan.
      col (getOutput scan) ''l_shipdate'' cols (\<lambda>l_shipdate.
      col (getOutput scan) ''l_discount'' cols (\<lambda>l_discount.
      col (getOutput scan) ''l_quantity'' cols (\<lambda>l_quantity.
      const LessEqual (DateVal (dateStrToInt lib ''1994-01-01'')) (IURefNode l_shipdate) (\<lambda>pred_1.
      const Greater (DateVal (dateStrToInt lib ''1995-01-01'')) (IURefNode l_shipdate) (\<lambda>pred_2.
      const LessEqual (F8 49990) (IURefNode l_discount) (\<lambda>pred_3.
      const GreaterEqual (F8 70010) (IURefNode l_discount) (\<lambda>pred_4.
      const Greater (f8 24) (IURefNode l_quantity) (\<lambda>pred_5.
      comp And [pred_1, pred_2] (\<lambda>and_1.
      comp And [pred_3, pred_4] (\<lambda>and_2.
      comp And [and_1, and_2] (\<lambda>and_3.
      comp And [and_3, pred_5] (\<lambda>and_4.
      expr_op scan [and_4] (\<lambda>expr_node.
      check (outs 1 expr_node) (
      col (getOutput scan) ''l_extendedprice'' cols (\<lambda>l_extendedprice.
      filter_op expr_node [l_extendedprice, l_discount] (Col 0 expr_node) (\<lambda>flt.
      check (outs 2 flt) (
      comp Multiply [Ref 0 flt, Ref 1 flt] (\<lambda>mult_node.
      expr_op flt [mult_node] (\<lambda>mult_expr.
      check (outs 1 mult_expr) (
      agg_op mult_expr [] [(Col 0 mult_expr, AggSum)] (\<lambda>agg.
      print_op agg [Col 0 agg] [''revenue''] None)))))))))))))))))))))))"

definition q3 :: "text_library \<Rightarrow> catalog \<Rightarrow> building" where
  "q3 lib s =
     (let c_cols = [''c_custkey'', ''c_mktsegment'']; o_cols = [''o_orderkey'', ''o_custkey'', ''o_orderdate'', ''o_shippriority'']; l_cols = [''l_orderkey'', ''l_discount'', ''l_shipdate'', ''l_extendedprice''] in
      scan s ''scan'' ''customer'' c_cols (\<lambda>c_scan.
      const StrEquals (StringVal ''BUILDING'') (Ref 1 c_scan) (\<lambda>c_root.
      expr_op c_scan [c_root] (\<lambda>c_expr.
      filter_op c_expr (Cols [0] c_scan) (Col 0 c_expr) (\<lambda>c_filter.
      scan s ''scan'' ''orders'' o_cols (\<lambda>o_scan.
      const Greater (DateVal (dateStrToInt lib ''1995-03-15'')) (Ref 2 o_scan) (\<lambda>o_root.
      expr_op o_scan [o_root] (\<lambda>o_expr.
      filter_op o_expr (Cols [0, 1, 2, 3] o_scan) (Col 0 o_expr) (\<lambda>o_filter.
      join_op c_filter o_filter (Cols [0] c_filter) [] (Cols [1] o_filter) (Cols [0, 2, 3] o_filter) Inner True (\<lambda>c_o_join.
      scan s ''l_scan'' ''lineitem'' l_cols (\<lambda>l_scan.
      const Less (DateVal (dateStrToInt lib ''1995-03-15'')) (Ref 2 l_scan) (\<lambda>l_root.
      expr_op l_scan [l_root] (\<lambda>l_expr.
      filter_op l_expr (Cols [0, 1, 3] l_scan) (Col 0 l_expr) (\<lambda>l_filter.
      join_op c_o_join l_filter (Cols [2] c_o_join) (Cols [3, 4] c_o_join) (Cols [0] l_filter) (Cols [1, 2] l_filter) Inner True (\<lambda>c_o_l_join.
      const Subtract (f8 1) (Ref 4 c_o_l_join) (\<lambda>minus.
      comp Multiply [Ref 5 c_o_l_join, minus] (\<lambda>agg_root.
      expr_op c_o_l_join [agg_root] (\<lambda>agg_e.
      agg_op agg_e (Cols [0, 1, 2] c_o_l_join) [(Col 0 agg_e, AggSum)] (\<lambda>agg.
      print_op agg (Cols [0, 3, 1, 2] agg) [''l_orderkey'', ''revenue'', ''o_orderdate'', ''o_shippriority''] (Some 10))))))))))))))))))))"

definition q4 :: "text_library \<Rightarrow> catalog \<Rightarrow> building" where
  "q4 lib s =
     (let o_cols = [''o_orderkey'', ''o_orderdate'', ''o_orderpriority'']; l_cols = [''l_orderkey'', ''l_commitdate'', ''l_receiptdate''] in
      scan s ''scan'' ''orders'' o_cols (\<lambda>o_scan.
      const LessEqual (DateVal (dateStrToInt lib ''1993-07-01'')) (Ref 1 o_scan) (\<lambda>o_ge.
      const Greater (DateVal (dateStrToInt lib ''1993-10-01'')) (Ref 1 o_scan) (\<lambda>o_lt.
      comp And [o_ge, o_lt] (\<lambda>o_root.
      expr_op o_scan [o_root] (\<lambda>o_expr.
      filter_op o_expr (Cols [0, 2] o_scan) (Col 0 o_expr) (\<lambda>o_filter.
      scan s ''l_scan'' ''lineitem'' l_cols (\<lambda>l_scan.
      comp Less [Ref 1 l_scan, Ref 2 l_scan] (\<lambda>l_root.
      expr_op l_scan [l_root] (\<lambda>l_expr.
      filter_op l_expr (Cols [0] l_scan) (Col 0 l_expr) (\<lambda>l_filter.
      join_op o_filter l_filter (Cols [0] o_filter) (Cols [1] o_filter) (Cols [0] l_filter) [] LeftSemi True (\<lambda>o_l_join.
      check (outs 2 o_l_join) (
      agg_op o_l_join (Cols [1] o_l_join) [(Col 1 o_l_join, AggCount)] (\<lambda>agg.
      print_op agg (Cols [0, 1] agg) [''o_orderpriority'', ''order_count''] None))))))))))))))"

definition q5 :: "text_library \<Rightarrow> catalog \<Rightarrow> building" where
  "q5 lib s =
     (let region_cols = [''r_regionkey'', ''r_name'']; nation_cols = [''n_nationkey'', ''n_regionkey'', ''n_name'']; customer_cols = [''c_custkey'', ''c_nationkey''];
       orders_cols = [''o_orderkey'', ''o_custkey'', ''o_orderdate'']; lineitem_cols = [''l_orderkey'', ''l_suppkey'', ''l_extendedprice'', ''l_discount'']; supplier_cols = [''s_suppkey'', ''s_nationkey''] in
      scan s ''scan_region'' ''region'' region_cols (\<lambda>region_scan.
      const StrEquals (StringVal ''ASIA'') (Ref 1 region_scan) (\<lambda>r_eq.
      expr_op region_scan [r_eq] (\<lambda>r_expr.
      check (outs 1 r_expr) (
      col (getOutput region_scan) ''r_regionkey'' region_cols (\<lambda>r_regionkey.
      filter_op r_expr [r_regionkey] (Col 0 r_expr) (\<lambda>r_filter.
      check (outs 1 r_filter) (
      scan s ''scan_region'' ''nation'' nation_cols (\<lambda>nation_scan.
      join_op r_filter nation_scan (Cols [0] r_filter) [] (Cols [1] nation_scan) (Cols [0, 2] nation_scan) Inner True (\<lambda>r_n_join.
      check (outs 4 r_n_join) (
      scan s ''scan_customer'' ''customer'' customer_cols (\<lambda>customer_scan.
      join_op r_n_join customer_scan (Cols [2] r_n_join) (Cols [3] r_n_join) (Cols [1] customer_scan) (Cols [0] customer_scan) Inner True (\<lambda>n_c_join.
      check (outs 4 n_c_join) (
      scan s ''scan_orders'' ''orders'' orders_cols (\<lambda>orders_scan.
      const LessEqual (DateVal (dateStrToInt lib ''1994-01-01'')) (Ref 2 orders_scan) (\<lambda>o_ge.
      const Greater (DateVal (dateStrToInt lib ''1995-01-01'')) (Ref 2 orders_scan) (\<lambda>o_lt.
      comp And [o_ge, o_lt] (\<lambda>o_root.
      expr_op orders_scan [o_root] (\<lambda>o_expr.
      check (outs 1 o_expr) (
      col (getOutput orders_scan) ''o_orderkey'' orders_cols (\<lambda>o_orderkey.
      col (getOutput orders_scan) ''o_custkey'' orders_cols (\<lambda>o_custkey.
      filter_op o_expr [o_orderkey, o_custkey] (Col 0 o_expr) (\<lambda>o_filter.
      check (outs 2 o_filter) (
      join_op n_c_join o_filter (Cols [3] n_c_join) (Cols [1, 2] n_c_join) (Cols [1] o_filter) (Cols [0] o_filter) Inner True (\<lambda>c_o_join.
      check (outs 5 c_o_join) (
      scan s ''scan_lineitem'' ''lineitem'' lineitem_cols (\<lambda>lineitem_scan.
      join_op c_o_join lineitem_scan (Cols [4] c_o_join) (Cols [1, 2] c_o_join) (Cols [0] lineitem_scan) (Cols [1, 2, 3] lineitem_scan) Inner True (\<lambda>o_l_join.
      check (outs 7 o_l_join) (
      scan s ''scan_supplier'' ''supplier'' supplier_cols (\<lambda>supplier_scan.
      join_op supplier_scan o_l_join (Cols [0, 1] supplier_scan) [] (Cols [4, 2] o_l_join) (Cols [1, 5, 6] o_l_join) Inner True (\<lambda>s_l_join.
      check (outs 7 s_l_join) (
      const Subtract (f8 1) (Ref 6 s_l_join) (\<lambda>minus.
      comp Multiply [Ref 5 s_l_join, minus] (\<lambda>agg_expr_root.
      expr_op s_l_join [agg_expr_root] (\<lambda>agg_expr.
      agg_op agg_expr (Cols [4] s_l_join) [(Col 0 agg_expr, AggSum)] (\<lambda>agg.
      print_op agg (Cols [0, 1] agg) [''n_name'', ''revenue''] None))))))))))))))))))))))))))))))))))))"

definition q13 :: "text_library \<Rightarrow> catalog \<Rightarrow> building" where
  "q13 lib s =
     (let c_cols = [''c_custkey'']; orders_cols = [''o_custkey'', ''o_comment''] in
      scan s ''scan_customer'' ''customer'' c_cols (\<lambda>c_scan.
      scan s ''scan_orders'' ''orders'' orders_cols (\<lambda>orders_scan.
      const Constant (UI 1 0) (Ref 0 orders_scan) (\<lambda>p_null_byte.
      const NotLikeTokens (StringList [''special'', ''request'']) (Ref 1 orders_scan) (\<lambda>p_container_pred.
      expr_op orders_scan [p_container_pred, p_null_byte] (\<lambda>expr_node.
      check (outs 2 expr_node) (
      filter_op expr_node [Col 0 orders_scan, Col 1 expr_node] (Col 0 expr_node) (\<lambda>flt.
      join_op c_scan flt (Cols [0] c_scan) [] (Cols [0] flt) (Cols [1] flt) LeftOuter True (\<lambda>join.
      check (outs 3 join) (
      agg_op join (Cols [0] join) [(Col 1 join, AggCount)] (\<lambda>agg_1.
      agg_op agg_1 (Cols [1] agg_1) [(Col 0 agg_1, AggCount)] (\<lambda>agg_2.
      print_op agg_2 (Cols [0, 1] agg_2) [''c_count'', ''custdist''] None))))))))))))"

definition q14 :: "text_library \<Rightarrow> catalog \<Rightarrow> building" where
  "q14 lib s =
     (let p_cols = [''p_partkey'']; l_cols = [''l_partkey'', ''l_shipdate'', ''l_extendedprice'', ''l_discount''] in
      scan s ''p_scan'' ''part'' p_cols (\<lambda>p_scan.
      scan s ''l_scan'' ''lineitem'' l_cols (\<lambda>l_scan.
      const LessEqual (DateVal (dateStrToInt lib ''1995-09-01'')) (Ref 1 l_scan) (\<lambda>l_ge.
      const Greater (DateVal (dateStrToInt lib ''1995-10-01'')) (Ref 1 l_scan) (\<lambda>l_lt.
      comp And [l_ge, l_lt] (\<lambda>l_root.
      expr_op l_scan [l_root] (\<lambda>l_expr.
      filter_op l_expr (Cols [0, 2, 3] l_scan) (Col 0 l_expr) (\<lambda>l_filter.
      join_op p_scan l_filter (Cols [0] p_scan) [] (Cols [0] l_filter) (Cols [1, 2] l_filter) Inner True (\<lambda>p_l_join.
      check (outs 4 p_l_join) (
      const Subtract (f8 1) (Ref 3 p_l_join) (\<lambda>minus.
      comp And [Ref 3 p_l_join, minus] (\<lambda>unused.
      comp Multiply [Ref 2 p_l_join, minus] (\<lambda>pr_root.
      expr_op p_l_join [pr_root] (\<lambda>pr_expr.
      agg_op pr_expr [] [(Col 0 pr_expr, AggSum)] (\<lambda>agg.
      print_op agg (Cols [0] agg) [''pomo_revenue''] None)))))))))))))))"

definition q18 :: "text_library \<Rightarrow> catalog \<Rightarrow> building" where
  "q18 lib s =
     (let l_1_cols = [''l_orderkey'', ''l_quantity'']; o_cols = [''o_orderkey'', ''o_custkey'']; c_cols = [''c_custkey'']; l_2_cols = [''l_orderkey'', ''l_quantity''] in
      scan s ''scan_lineitem_1'' ''lineitem'' l_1_cols (\<lambda>l_1_scan.
      agg_op l_1_scan (Cols [0] l_1_scan) [(Col 1 l_1_scan, AggSum)] (\<lambda>agg.
      const Less (f8 300) (Ref 1 agg) (\<lambda>filter_col.
      expr_op agg [filter_col] (\<lambda>expr_node.
      check (outs 1 expr_node) (
      filter_op expr_node (Cols [0] agg) (Col 0 expr_node) (\<lambda>flt.
      check (outs 1 flt) (
      scan s ''scan_orders'' ''orders'' o_cols (\<lambda>o_scan.
      join_op flt o_scan (Cols [0] flt) [] (Cols [0] o_scan) (Cols [1] o_scan) Inner True (\<lambda>l_o_join.
      check (outs 3 l_o_join) (
      scan s ''scan_customer'' ''customer'' c_cols (\<lambda>c_scan.
      join_op c_scan l_o_join (Cols [0] c_scan) [] (Cols [2] l_o_join) (Cols [1] l_o_join) Inner True (\<lambda>l_o_c_join.
      check (outs 3 l_o_c_join) (
      scan s ''scan_lineitem_2'' ''lineitem'' l_2_cols (\<lambda>l_2_scan.
      join_op l_o_c_join l_2_scan (Cols [2] l_o_c_join) [] (Cols [0] l_2_scan) (Cols [1] l_2_scan) Inner True (\<lambda>l_o_c_l_join.
      check (outs 3 l_o_c_l_join) (
      agg_op l_o_c_l_join (Cols [1] l_o_c_l_join) [(Col 2 l_o_c_l_join, AggSum)] (\<lambda>final_agg.
      print_op final_agg (Cols [0, 1] final_agg) [''o_orderkey'', ''sum(l_quantity)''] None))))))))))))))))))"

text \<open>The two lambdas of \<open>q19\<close>.\<close>

definition build_part_branch :: "expr_node \<Rightarrow> expr_node \<Rightarrow> expr_node \<Rightarrow> string \<Rightarrow> int \<times> int \<Rightarrow> string list \<Rightarrow> (expr_node \<Rightarrow> building) \<Rightarrow> building" where
  "build_part_branch p_brand_ref p_size_ref p_container_ref brand size_between container_list k =
     const StrEquals (StringVal brand) p_brand_ref (\<lambda>p_brand_pred.
     const GreaterEqual (SI 4 (snd size_between)) p_size_ref (\<lambda>p_size_pred_1.
     const LessEqual (SI 4 (fst size_between)) p_size_ref (\<lambda>p_size_pred_2.
     const InList (StringList container_list) p_container_ref (\<lambda>p_container_pred.
     Andify [p_size_pred_1, p_size_pred_2, p_brand_pred, p_container_pred] k))))"

definition build_lineitem_branch :: "expr_node \<Rightarrow> int \<times> int \<Rightarrow> (expr_node \<Rightarrow> building) \<Rightarrow> building" where
  "build_lineitem_branch l_quantity_ref l_quantity_between k =
     const GreaterEqual (F8 (snd l_quantity_between * 1000000 + 1000)) l_quantity_ref (\<lambda>l_quantity_pred_1.
     const LessEqual (F8 (fst l_quantity_between * 1000000 - 1000)) l_quantity_ref (\<lambda>l_quantity_pred_2.
     Andify [l_quantity_pred_1, l_quantity_pred_2] k))"

definition sm_containers :: "string list" where "sm_containers = [''SM CASE'', ''SM BOX'', ''SM PACK'', ''SM PKG'']"
definition med_containers :: "string list" where "med_containers = [''MED BAG'', ''MED BOX'', ''MED PKG'', ''MED PACK'']"
definition lg_containers :: "string list" where "lg_containers = [''LG CASE'', ''LG BOX'', ''LG PACK'', ''LG PKG'']"

definition q19 :: "text_library \<Rightarrow> catalog \<Rightarrow> building" where
  "q19 lib s =
     (let cols_p = [''p_partkey'', ''p_brand'', ''p_container'', ''p_size''];
       cols_l = [''l_partkey'', ''l_shipmode'', ''l_quantity'', ''l_shipinstruct'', ''l_discount'', ''l_extendedprice''] in
      scan s ''scan_part'' ''part'' cols_p (\<lambda>scan_p.
      col (getOutput scan_p) ''p_brand'' cols_p (\<lambda>p_brand.
      col (getOutput scan_p) ''p_container'' cols_p (\<lambda>p_container.
      col (getOutput scan_p) ''p_size'' cols_p (\<lambda>p_size.
      build_part_branch (IURefNode p_brand) (IURefNode p_size) (IURefNode p_container) ''Brand#12'' (1, 5) sm_containers (\<lambda>scan_p_branch_1.
      build_part_branch (IURefNode p_brand) (IURefNode p_size) (IURefNode p_container) ''Brand#23'' (1, 10) med_containers (\<lambda>scan_p_branch_2.
      build_part_branch (IURefNode p_brand) (IURefNode p_size) (IURefNode p_container) ''Brand#34'' (1, 15) lg_containers (\<lambda>scan_p_branch_3.
      Orify [scan_p_branch_1, scan_p_branch_2, scan_p_branch_3] (\<lambda>scan_p_filter.
      expr_op scan_p [scan_p_filter] (\<lambda>expr_p.
      check (outs 1 expr_p) (
      filter_op expr_p (Cols [0, 1, 2, 3] scan_p) (Col 0 expr_p) (\<lambda>filter_p.
      check (outs 4 filter_p) (
      scan s ''scan_lineitem'' ''lineitem'' cols_l (\<lambda>scan_l.
      col (getOutput scan_l) ''l_shipmode'' cols_l (\<lambda>l_shipmode.
      col (getOutput scan_l) ''l_quantity'' cols_l (\<lambda>l_quantity.
      col (getOutput scan_l) ''l_shipinstruct'' cols_l (\<lambda>l_shipinstruct.
      const StrEquals (StringVal ''DELIVER IN PERSON'') (IURefNode l_shipinstruct) (\<lambda>l_shipinstruct_pred.
      const InList (StringList [''AIR'', ''AIR REG'']) (IURefNode l_shipmode) (\<lambda>l_shipmode_pred.
      build_lineitem_branch (IURefNode l_quantity) (1, 11) (\<lambda>scan_l_branch_1.
      build_lineitem_branch (IURefNode l_quantity) (10, 20) (\<lambda>scan_l_branch_2.
      build_lineitem_branch (IURefNode l_quantity) (20, 30) (\<lambda>scan_l_branch_3.
      Orify [scan_l_branch_1, scan_l_branch_2, scan_l_branch_3] (\<lambda>l_common_or.
      Andify [l_shipinstruct_pred, l_shipmode_pred, l_common_or] (\<lambda>l_common_and.
      expr_op scan_l [l_common_and] (\<lambda>expr_l.
      check (outs 1 expr_l) (
      filter_op expr_l (Cols [0, 2, 4, 5] scan_l) (Col 0 expr_l) (\<lambda>filter_l.
      check (outs 4 filter_l) (
      join_op filter_p filter_l (Cols [0] filter_p) (Cols [1, 2, 3] filter_p) (Cols [0] filter_l) (Cols [1, 2, 3] filter_l) Inner True (\<lambda>p_l_join.
      build_lineitem_branch (Ref 5 p_l_join) (1, 11) (\<lambda>p_l_branch_1_l.
      build_part_branch (Ref 1 p_l_join) (Ref 3 p_l_join) (Ref 2 p_l_join) ''Brand#12'' (1, 5) sm_containers (\<lambda>p_l_branch_1_p.
      Andify [p_l_branch_1_l, p_l_branch_1_p] (\<lambda>p_l_branch_1.
      build_lineitem_branch (Ref 5 p_l_join) (10, 20) (\<lambda>p_l_branch_2_l.
      build_part_branch (Ref 1 p_l_join) (Ref 3 p_l_join) (Ref 2 p_l_join) ''Brand#23'' (1, 10) med_containers (\<lambda>p_l_branch_2_p.
      Andify [p_l_branch_2_l, p_l_branch_2_p] (\<lambda>p_l_branch_2.
      build_lineitem_branch (Ref 5 p_l_join) (20, 30) (\<lambda>p_l_branch_3_l.
      build_part_branch (Ref 1 p_l_join) (Ref 3 p_l_join) (Ref 2 p_l_join) ''Brand#34'' (1, 15) lg_containers (\<lambda>p_l_branch_3_p.
      Andify [p_l_branch_3_l, p_l_branch_3_p] (\<lambda>p_l_branch_3.
      Orify [p_l_branch_1, p_l_branch_2, p_l_branch_3] (\<lambda>p_l_common_or.
      expr_op p_l_join [p_l_common_or] (\<lambda>expr_p_l.
      check (outs 1 expr_p_l) (
      filter_op expr_p_l (Cols [6, 7] p_l_join) (Col 0 expr_p_l) (\<lambda>filter_p_l.
      check (outs 2 filter_p_l) (
      const Subtract (f8 1) (Ref 0 filter_p_l) (\<lambda>minus.
      comp Multiply [Ref 1 filter_p_l, minus] (\<lambda>agg_root.
      expr_op filter_p_l [agg_root] (\<lambda>agg_e.
      agg_op agg_e [] [(Col 0 agg_e, AggSum)] (\<lambda>agg.
      print_op agg (Cols [0] agg) [''revenue''] None)))))))))))))))))))))))))))))))))))))))))))))))"

definition q_bigjoin :: "text_library \<Rightarrow> catalog \<Rightarrow> building" where
  "q_bigjoin lib s =
      scan s ''scan_o'' ''orders'' [''o_orderkey''] (\<lambda>scan_o.
      scan s ''scan_l'' ''lineitem'' [''l_orderkey''] (\<lambda>scan_l.
      join_op scan_o scan_l (Cols [0] scan_o) [] (Cols [0] scan_l) [] Inner True (\<lambda>o_l_join.
      agg_op o_l_join [] [(Col 0 o_l_join, AggCount)] (\<lambda>agg.
      print_op agg (Cols [0] agg) [''num_rows''] None))))"

definition l_count :: "text_library \<Rightarrow> catalog \<Rightarrow> building" where
  "l_count lib s =
      scan s ''scan'' ''lineitem'' [''l_linestatus''] (\<lambda>scan.
      agg_op scan [] [(Col 0 scan, AggCount)] (\<lambda>agg.
      print_op agg (Cols [0] agg) [''num_rows''] None))"

definition l_point :: "text_library \<Rightarrow> catalog \<Rightarrow> building" where
  "l_point lib s =
     (let cols = [''l_orderkey'', ''l_tax''] in
      scan s ''scan'' ''lineitem'' cols (\<lambda>scan.
      col (getOutput scan) ''l_orderkey'' cols (\<lambda>l_orderkey.
      const Eq (SI 4 39) (IURefNode l_orderkey) (\<lambda>pred_1.
      expr_op scan [pred_1] (\<lambda>expr_node.
      check (outs 1 expr_node) (
      col (getOutput scan) ''l_tax'' cols (\<lambda>l_tax.
      filter_op expr_node [l_tax] (Col 0 expr_node) (\<lambda>flt.
      check (outs 1 flt) (
      print_op flt (Cols [0] flt) [''l_tax''] None)))))))))"

end
