(* ===== verification/TPCH_Props.thy ===== *)
theory TPCH_Props
  imports TPCH
begin

text \<open>
  The TPC-H plans are well-formed, so they decay into pipelines that can be executed. The plan of \<open>q13\<close> is not covered:
  its left outer join leaves a continuation.
\<close>

section \<open>The schema that the plans see\<close>

definition tpch_catalog :: "(string \<Rightarrow> nat) \<Rightarrow> catalog" where
  "tpch_catalog rows = \<lparr> cat_columns = map (\<lambda>(name, cols). (name, map (\<lambda>(c, t). (c, case t of None \<Rightarrow> StringT | Some ty \<Rightarrow> ty)) cols)) tpch_tables,
     cat_rows = rows \<rparr>"

definition schema_matches :: "text_library \<Rightarrow> bool" where
  "schema_matches lib = (case getTPCHSchema lib of
     Returns schema \<Rightarrow> cat_columns (catalog_of schema) = cat_columns (tpch_catalog (\<lambda>t. 0)) | _ \<Rightarrow> False)"

lemma schema_matches: "schema_matches lib" by code_simp

section \<open>The plans\<close>

definition built_wf :: "built_plan outcome \<Rightarrow> bool" where
  "built_wf r = (case r of Returns (root, a) \<Rightarrow> wf_plan a root | _ \<Rightarrow> False)"

lemma q1_wf: "built_wf (q1 lib (tpch_catalog rows) 0)" by code_simp
lemma q3_wf: "built_wf (q3 lib (tpch_catalog rows) 0)" by code_simp
lemma q4_wf: "built_wf (q4 lib (tpch_catalog rows) 0)" by code_simp
lemma q5_wf: "built_wf (q5 lib (tpch_catalog rows) 0)" by code_simp
lemma q6_wf: "built_wf (q6 lib (tpch_catalog rows) 0)" by code_simp
lemma q14_wf: "built_wf (q14 lib (tpch_catalog rows) 0)" by code_simp
lemma q18_wf: "built_wf (q18 lib (tpch_catalog rows) 0)" by code_simp
lemma q19_wf: "built_wf (q19 lib (tpch_catalog rows) 0)" by code_simp
lemma q_bigjoin_wf: "built_wf (q_bigjoin lib (tpch_catalog rows) 0)" by code_simp
lemma l_count_wf: "built_wf (l_count lib (tpch_catalog rows) 0)" by code_simp
lemma l_point_wf: "built_wf (l_point lib (tpch_catalog rows) 0)" by code_simp

lemmas tpch_wf = q1_wf q3_wf q4_wf q5_wf q6_wf q14_wf q18_wf q19_wf q_bigjoin_wf l_count_wf l_point_wf

definition tpch_plans :: "(text_library \<Rightarrow> catalog \<Rightarrow> building) list" where
  "tpch_plans = [q1, q3, q4, q5, q6, q14, q18, q19, q_bigjoin, l_count, l_point]"

definition executable :: "built_plan outcome \<Rightarrow> bool" where
  "executable r \<longleftrightarrow> (\<exists>root a d. r = Returns (root, a) \<and> QueryControlBlock a root = Returns d \<and> tasks_ok d \<and> continuations d = [] \<and>
     pipelines d \<noteq> [] \<and> list_all finished (pipelines d) \<and> pretty_printer (last (pipelines d)) \<noteq> None)"

lemma wf_executable: "built_wf r \<Longrightarrow> executable r"
proof -
  assume wf: "built_wf r"
  then obtain root a where r: "r = Returns (root, a)" "wf_plan a root" by (auto simp: built_wf_def split: outcome.splits)
  then obtain cs ius colnames limit where p: "root = Print cs ius colnames limit" by (cases root) (auto simp: wf_plan_def)
  from wf_plan_decays [OF r(2) [unfolded p]] obtain d where
    "QueryControlBlock a (Print cs ius colnames limit) = Returns d \<and> tasks_ok d \<and> continuations d = [] \<and> pipelines d \<noteq> [] \<and>
     list_all finished (pipelines d) \<and> pretty_printer (last (pipelines d)) = Some ius" by blast
  then show ?thesis unfolding executable_def r(1) p by (intro exI [of _ "Print cs ius colnames limit"] exI [of _ a] exI [of _ d]) simp
qed

end
