(* ===== verification/Fragment_Names.thy ===== *)
theory Fragment_Names
  imports Fragments
begin

text \<open>
  No two fragments have the same name, so \<open>getFragment\<close> finds the fragment that was generated under a name. Inside a
  group of fragmentizers the names are compared by splitting them on their first characters, which takes far fewer steps than
  comparing all pairs; between the groups the first four characters differ.
\<close>

section \<open>Deciding that strings are distinct\<close>

fun place :: "bool \<Rightarrow> char \<Rightarrow> string \<Rightarrow> string list \<times> string list \<Rightarrow> string list \<times> string list" where
  "place True d ds (same, diff) = (ds # same, diff)"
| "place False d ds (same, diff) = (same, (d # ds) # diff)"

fun split_on :: "char \<Rightarrow> string list \<Rightarrow> string list \<times> string list" where
  "split_on c [] = ([], [])"
| "split_on c ([] # ss) = (case split_on c ss of (same, diff) \<Rightarrow> (same, [] # diff))"
| "split_on c ((d # ds) # ss) = place (c = d) d ds (split_on c ss)"

fun distinct_by :: "nat \<Rightarrow> string list \<Rightarrow> bool" and distinct_parts :: "nat \<Rightarrow> string \<Rightarrow> string list \<times> string list \<Rightarrow> bool" where
  "distinct_by n [] = True"
| "distinct_by n [x] = True"
| "distinct_by 0 (x # y # zs) = False"
| "distinct_by (Suc n) ([] # y # zs) = (list_all (\<lambda>s. s \<noteq> []) (y # zs) \<and> distinct_by n (y # zs))"
| "distinct_by (Suc n) ((c # cs) # y # zs) = distinct_parts n cs (split_on c (y # zs))"
| "distinct_parts n cs (same, diff) = (distinct_by n (cs # same) \<and> distinct_by n diff)"

lemma split_on_parts:
  "split_on c ss = (same, diff) \<Longrightarrow> set ss = (#) c ` set same \<union> set diff \<and> (distinct same \<and> distinct diff \<longrightarrow> distinct ss) \<and> (\<forall>s\<in>set diff. \<forall>t. s \<noteq> c # t)"
proof (induction ss arbitrary: same diff)
  case (Cons s ss)
  obtain same' diff' where p: "split_on c ss = (same', diff')" by (cases "split_on c ss")
  note IH = Cons.IH [OF p]
  show ?case
  proof (cases s)
    case Nil
    with Cons.prems p IH show ?thesis by auto
  next
    case (Cons d ds)
    show ?thesis
    proof (cases "c = d")
      case True
      then have "same = ds # same'" "diff = diff'" using Cons.prems p Cons by auto
      then show ?thesis using IH True Cons by auto
    next
      case False
      then have "same = same'" "diff = (d # ds) # diff'" using Cons.prems p Cons by auto
      then show ?thesis using IH False Cons by auto
    qed
  qed
qed simp

lemma distinct_by: "distinct_by n xs \<Longrightarrow> distinct xs"
  and distinct_parts: "distinct_parts n cs (same, diff) \<Longrightarrow> distinct (cs # same) \<and> distinct diff"
proof (induction n xs and n cs "(same, diff)" arbitrary: and same diff rule: distinct_by_distinct_parts.induct)
  case (4 n y zs)
  then show ?case by (auto simp: list_all_iff)
next
  case (5 n c cs y zs)
  obtain same diff where p: "split_on c (y # zs) = (same, diff)" by (cases "split_on c (y # zs)")
  with 5 have "distinct (cs # same)" "distinct diff" by auto
  with split_on_parts [OF p] show ?case by auto
qed auto

section \<open>The names of the fragments\<close>

lemma names_1: "distinct_by 80 (map fst (AggregationFragmentizer @ TScanFragmetizer @ CopyFragmentizer))" by code_simp
lemma names_2: "distinct_by 80 (map fst ExpressionFragmentizer)" by code_simp
lemma names_3: "distinct_by 80 (map fst (HashTableSourceFragmentizer @ RuntimeExpressionFragmentizer @ RuntimeKeyExpressionFragmentizer))"
  by code_simp
lemma names_4: "distinct_by 80 (map fst (KeyPackingFragmentizer @ CountingSinkFragmentizer @ ColumnFilterFragmentizer))" by code_simp
lemma names_5: "distinct_by 80 (map fst RuntimeFunctionSubopFragmentizer)" by code_simp

definition heads :: "fragment list \<Rightarrow> string set" where
  "heads fs = (\<lambda>f. take 4 (fst f)) ` set fs"

lemma heads_simps [simp]: "heads (xs @ ys) = heads xs \<union> heads ys" "heads (x # xs) = insert (take 4 (fst x)) (heads xs)" "heads [] = {}"
  by (auto simp: heads_def)

lemma heads_map: "(\<And>x. take 4 (fst (f x)) = h) \<Longrightarrow> heads (map f xs) \<subseteq> {h}"
  by (auto simp: heads_def)

lemma heads_concat: "(\<And>x. heads (f x) \<subseteq> H) \<Longrightarrow> heads (concat (map f xs)) \<subseteq> H"
  by (auto simp: heads_def)

lemma distinct_heads:
  assumes "distinct (map fst xs)" "distinct (map fst ys)" "heads xs \<subseteq> H" "heads ys \<inter> H = {}"
  shows "distinct (map fst (xs @ ys))"
proof -
  have "fst a \<noteq> fst b" if "a \<in> set xs" "b \<in> set ys" for a b
  proof -
    have "take 4 (fst a) \<in> H" "take 4 (fst b) \<notin> H" using assms(3,4) that unfolding heads_def by blast+
    then show ?thesis by auto
  qed
  with assms(1,2) show ?thesis by auto
qed

lemma heads_1: "heads (AggregationFragmentizer @ TScanFragmetizer @ CopyFragmentizer) \<subseteq> {''agg_'', ''TSca'', ''Copy''}"
  by (auto simp: heads_def AggregationFragmentizer_def TScanFragmetizer_def CopyFragmentizer_def single_def Let_def)

lemma heads_2: "heads ExpressionFragmentizer \<subseteq> {''expr''}"
  by (auto simp: heads_def ExpressionFragmentizer_def fragmentizeBinary_def fragmentizeCasts_def fragmentizeFunctions_def single_def)

lemma heads_3: "heads (HashTableSourceFragmentizer @ RuntimeExpressionFragmentizer @ RuntimeKeyExpressionFragmentizer) \<subseteq> {''hash'', ''runt''}"
  by (auto simp: heads_def HashTableSourceFragmentizer_def RuntimeExpressionFragmentizer_def RuntimeKeyExpressionFragmentizer_def single_def)

lemma heads_4: "heads (KeyPackingFragmentizer @ CountingSinkFragmentizer @ ColumnFilterFragmentizer) \<subseteq> {''key_'', ''Coun'', ''Colu''}"
  by (auto simp: heads_def KeyPackingFragmentizer_def CountingSinkFragmentizer_def ColumnFilterFragmentizer_def filter_fragment_def
      single_def Let_def)

lemma heads_5: "heads RuntimeFunctionSubopFragmentizer \<subseteq> {''rt_f''}"
  by (auto simp: heads_def RuntimeFunctionSubopFragmentizer_def table_fragments_def single_def Let_def htLookup_def htHashAndPrefetch_def
      htLookupWithHash_def htInsert_def htLookupOrInsert_def materializeTuple_def htNoKeyLookup_def)

lemma fragment_names: "distinct (map fst fragments)"
proof -
  let ?n1 = "AggregationFragmentizer @ TScanFragmetizer @ CopyFragmentizer"
  let ?n3 = "HashTableSourceFragmentizer @ RuntimeExpressionFragmentizer @ RuntimeKeyExpressionFragmentizer"
  let ?n4 = "KeyPackingFragmentizer @ CountingSinkFragmentizer @ ColumnFilterFragmentizer"
  have "distinct (map fst (?n4 @ RuntimeFunctionSubopFragmentizer))"
    using heads_5 by (intro distinct_heads [OF distinct_by [OF names_4] distinct_by [OF names_5] heads_4]) auto
  then have "distinct (map fst (?n3 @ ?n4 @ RuntimeFunctionSubopFragmentizer))"
    using heads_4 heads_5 by (intro distinct_heads [OF distinct_by [OF names_3] _ heads_3]) auto
  then have "distinct (map fst (ExpressionFragmentizer @ ?n3 @ ?n4 @ RuntimeFunctionSubopFragmentizer))"
    using heads_3 heads_4 heads_5 by (intro distinct_heads [OF distinct_by [OF names_2] _ heads_2]) auto
  then have "distinct (map fst (?n1 @ ExpressionFragmentizer @ ?n3 @ ?n4 @ RuntimeFunctionSubopFragmentizer))"
    using heads_2 heads_3 heads_4 heads_5 by (intro distinct_heads [OF distinct_by [OF names_1] _ heads_1]) auto
  then show ?thesis by (simp add: fragments_def)
qed

text \<open>What \<open>getFragment\<close> returns.\<close>

lemma getFragment_of:
  assumes "(name, specs) \<in> set fragments" "repipeAll so (10 + length specs) (fragment_pipe specs) 0 (length specs) = Returns q"
  shows "getFragment so name = Some q"
proof -
  have "map fst (FragmentGenerator_build so) = map fst fragments" by (auto simp: FragmentGenerator_build_def)
  then have "distinct (map fst (FragmentGenerator_build so))" by (simp add: fragment_names)
  moreover have "(name, Returns q) \<in> set (FragmentGenerator_build so)"
    using assms by (force simp: FragmentGenerator_build_def)
  ultimately show ?thesis by (simp add: getFragment_def)
qed

end
