(* ===== verification/Fragment_Props.thy ===== *)
theory Fragment_Props
  imports Fragment_Names Plan_Correct
begin

text \<open>
  An interpreted suboperator is run by calling the compiled code of a fragment with the states of the runner's own pipeline, by
  position. So the fragment must exist and its pipeline must have the suboperators of the runner's pipeline in the same order. This
  theory gives the typing rules under which that holds.
\<close>

section \<open>The suboperators a fragment stands for\<close>

text \<open>Inputs whose value the operator does not read; a fragment may give them another type.\<close>

definition ignored :: "subop \<Rightarrow> iu set" where
  "ignored s = (case kind s of
     RuntimeFunctionSubop f args ref res st \<Rightarrow> (if args = [] then set (source_ius s) else {})
   | AggregatorSubop g off \<Rightarrow> (if g = AggStateCount then set (tl (source_ius s)) else {})
   | _ \<Rightarrow> {})"

definition aligned_slot :: "subop \<Rightarrow> subop \<Rightarrow> subop \<Rightarrow> bool" where
  "aligned_slot s a b \<longleftrightarrow> subop_id a = subop_id b \<or>
     (kind a = FuseChunkSourceIUProvider \<and> kind b = FuseChunkSourceIUProvider \<and> hd (provided_ius a) \<in> ignored s)"

definition aligned :: "subop \<Rightarrow> pipeline \<Rightarrow> pipeline \<Rightarrow> bool" where
  "aligned s q f \<longleftrightarrow> list_all2 (aligned_slot s) (suboperators q) (suboperators f)"

definition nonvoid :: "iu list \<Rightarrow> iu list" where
  "nonvoid is = filter (\<lambda>i. \<not> is_void i) is"

definition opt_list :: "'a option \<Rightarrow> 'a list" where
  "opt_list x = (case x of None \<Rightarrow> [] | Some y \<Rightarrow> [y])"

lemma opt_list_simps [simp]: "opt_list None = []" "opt_list (Some x) = [x]"
  by (simp_all add: opt_list_def)

text \<open>The operator \<open>s\<close>, with the operator it is strongly linked to, has the shape of the fragment \<open>specs\<close>.\<close>

definition matches :: "subop option \<Rightarrow> subop \<Rightarrow> subop_spec list \<Rightarrow> bool" where
  "matches strong s specs \<longleftrightarrow>
     (let ops = number make_subop 10 specs;
          req = required_ius strong [s];
          req' = required_ius None ops
      in ops \<noteq> [] \<and> \<not> incomingStrongLinks (hd ops) \<and> \<not> outgoingStrongLinks (last ops) \<and>
         list_all outgoingStrongLinks (butlast ops) \<and>
         (req = [] \<longleftrightarrow> req' = []) \<and>
         list_all2 (\<lambda>i j. iu_id i = iu_id j \<or> i \<in> ignored s) (nonvoid req) (nonvoid req') \<and>
         map subop_id (opt_list strong @ [s]) = map subop_id ops \<and>
         length (nonvoid (provided_ius s)) \<le> 1 \<and>
         map iu_id (nonvoid (provided_ius s)) = map iu_id (nonvoid (provided_ius (last ops))))"

section \<open>Repiping a fragment and a single operator\<close>

definition set_order_perm :: "(iu list \<Rightarrow> iu list) \<Rightarrow> bool" where
  "set_order_perm so \<longleftrightarrow> (\<forall>xs. mset (so xs) = mset xs)"

lemma short_order: "set_order_perm so \<Longrightarrow> length xs \<le> 1 \<Longrightarrow> so xs = xs"
  by (cases xs) (auto simp: set_order_perm_def elim: allE [of _ xs])

lemma slice_one: "k < length xs \<Longrightarrow> slice k (Suc k) xs = [xs ! k]"
  by (simp add: slice_def take_Suc_conv_app_nth)

lemma short_insert_new: "length xs \<le> 1 \<Longrightarrow> foldl insert_new [] xs = xs"
  by (cases xs) (auto simp: insert_new_def)

lemma source_slots:
  assumes "req = [] \<longleftrightarrow> req' = []" "list_all2 (\<lambda>i j. iu_id i = iu_id j \<or> i \<in> ignored s) (nonvoid req) (nonvoid req')"
  shows "list_all2 (aligned_slot s) (fuse_chunk_sources a req) (fuse_chunk_sources b req')"
proof -
  have "list_all2 (aligned_slot s) (number (\<lambda>a i. build_provider a u i) k is) (number (\<lambda>a i. build_provider a v i) l js)"
    if "list_all2 (\<lambda>i j. iu_id i = iu_id j \<or> i \<in> ignored s) is js" for u v k l "is" js
    using that by (induction arbitrary: k l rule: list_all2_induct) (auto simp: aligned_slot_def build_provider_def subop_id_def)
  then show ?thesis using assms by (simp add: fuse_chunk_sources_def nonvoid_def aligned_slot_def build_driver_def subop_id_def)
qed

lemma sink_slots:
  "map iu_id is = map iu_id js \<Longrightarrow> list_all2 (aligned_slot s) (number build_sink k is) (number build_sink l js)"
proof (induction "is" arbitrary: js k l)
  case (Cons i "is")
  then obtain j js' where "js = j # js'" by (cases js) auto
  with Cons show ?case by (auto simp: aligned_slot_def build_sink_def subop_id_def)
qed simp

lemma id_slots: "map subop_id xs = map subop_id ys \<Longrightarrow> list_all2 (aligned_slot s) xs ys"
proof (induction xs arbitrary: ys)
  case (Cons x xs)
  then obtain y ys' where "ys = y # ys'" by (cases ys) auto
  with Cons show ?case by (auto simp: aligned_slot_def)
qed simp

lemma concat_map_last: "xs \<noteq> [] \<Longrightarrow> concat (map f xs) = concat (map f (butlast xs)) @ f (last xs)"
  by (induction xs rule: rev_induct) auto

lemma repipe_fragment:
  assumes m: "matches strong s specs" and so: "set_order_perm so"
  defines "ops \<equiv> number make_subop 10 specs"
  shows "repipeAll so fresh (fragment_pipe specs) 0 (length specs) = Returns (foldl attachSuboperator Pipeline
    (fuse_chunk_sources fresh (required_ius None ops) @ ops @
     number build_sink (fresh + length (fuse_chunk_sources fresh (required_ius None ops))) (nonvoid (provided_ius (last ops)))))"
proof -
  have M: "ops \<noteq> []" "\<not> incomingStrongLinks (hd ops)" "\<not> outgoingStrongLinks (last ops)" "list_all outgoingStrongLinks (butlast ops)"
    "length (nonvoid (provided_ius (last ops))) \<le> 1"
    using m by (auto simp: matches_def Let_def ops_def dest: map_eq_imp_length_eq)
  have len: "length specs = length ops" "specs \<noteq> []" using M(1) by (auto simp: ops_def)
  have sub: "suboperators (fragment_pipe specs) = ops" by (simp add: fragment_pipe_def ops_def)
  have par: "parallel_codegen (fragment_pipe specs)" by (simp add: fragment_pipe_def pipe_of_def Pipeline_def)
  have all: "slice 0 (length specs) ops = ops" by (simp add: slice_def len)
  have "concat (map (\<lambda>s. if outgoingStrongLinks s then [] else nonvoid (provided_ius s)) (butlast ops)) = []"
    using M(4) by (auto simp: list_all_iff)
  then have "concat (map (\<lambda>s. if outgoingStrongLinks s then [] else nonvoid (provided_ius s)) ops) = nonvoid (provided_ius (last ops))"
    using M(1,3) by (simp add: concat_map_last)
  then have outs: "so (foldl insert_new [] (concat (map (\<lambda>s. if outgoingStrongLinks s then [] else filter (\<lambda>i. \<not> is_void i) (provided_ius s)) ops))) =
      nonvoid (provided_ius (last ops))"
    using M(5) short_order [OF so M(5)] unfolding nonvoid_def [symmetric] by (simp add: short_insert_new)
  have "strong_in (fragment_pipe specs) (ops ! 0) = Returns None" using M(1,2) by (simp add: strong_in_def hd_conv_nth)
  moreover have "strong_out (fragment_pipe specs) (ops ! (length specs - 1)) = Returns None"
    using M(1,3) by (simp add: strong_out_def last_conv_nth len)
  ultimately show ?thesis using len(2)
    by (simp add: repipeAll_def Let_def sub all outs repipe_def par repiped_ops_def)
qed

text \<open>The operator that \<open>s\<close> is strongly linked to.\<close>

definition partner :: "subop list \<Rightarrow> subop \<Rightarrow> subop option" where
  "partner ops s = (if incomingStrongLinks s then find (\<lambda>t. hd (source_ius s) \<in> set (provided_ius t)) ops else None)"

lemma finished_strong_in:
  assumes "finished p" "s \<in> set (suboperators p)"
  shows "strong_in p s = Returns (partner (suboperators p) s)"
proof (cases "incomingStrongLinks s")
  case False
  then show ?thesis by (simp add: strong_in_def partner_def)
next
  case True
  have f: "graph_ok p" "built (suboperators p)" "strong_ok (suboperators p)" using assms(1) by (simp_all add: finished_def)
  obtain pre post where d: "suboperators p = pre @ s # post" using assms(2) by (metis in_set_conv_decomp)
  from strong_in_built [OF f(2,3) [unfolded d] True]
  obtain i "is" t where t: "source_ius s = i # is" "t \<in> set pre" "provided_ius t = [i]"
      "strong_in (pipe_of (suboperators p)) s = Returns (Some t)" unfolding d by metis
  have "strong_in p s = strong_in (pipe_of (suboperators p)) s"
  proof -
    have "find_subop p = find_subop (pipe_of (suboperators p))"
      by (rule ext) (simp add: find_subop_def split: list.split)
    then show ?thesis using f(1) by (simp add: strong_in_def getProducers_def graph_ok_def same_graph_def)
  qed
  moreover have "find (\<lambda>t. i \<in> set (provided_ius t)) (suboperators p) = Some t"
  proof -
    have "t \<in> set (suboperators p)" using t(2) d by simp
    then obtain u where u: "find (\<lambda>t. i \<in> set (provided_ius t)) (suboperators p) = Some u"
      using t(3) by (cases "find (\<lambda>t. i \<in> set (provided_ius t)) (suboperators p)") (auto simp: find_None_iff)
    then have "u \<in> set (suboperators p)" "i \<in> set (provided_ius u)" by (auto simp: find_Some_iff)
    then have "u = t" using f(2) \<open>t \<in> set (suboperators p)\<close> t(3) ssa_provider_unique [of "suboperators p" u t i] by (simp add: built_def)
    with u show ?thesis by simp
  qed
  ultimately show ?thesis using t(1,4) True by (simp add: partner_def)
qed

section \<open>Running an operator by its fragment\<close>

lemma interpreter_of_match:
  assumes p: "finished p" and k: "k < length (suboperators p)" and so: "set_order_perm so"
    and i: "interpreted (suboperators p ! k)" and m: "matches (partner (suboperators p) (suboperators p ! k)) (suboperators p ! k) specs"
    and frag: "(subop_id (suboperators p ! k), specs) \<in> set fragments"
    and src: "required_ius (partner (suboperators p) (suboperators p ! k)) [suboperators p ! k] = [] \<Longrightarrow>
      isSource (hd (opt_list (partner (suboperators p) (suboperators p ! k)) @ [suboperators p ! k]))"
  shows "\<exists>r. InterpretedRunner so fresh p k = Returns r \<and> aligned (suboperators p ! k) (run_pipe r) (fragment_of r)"
proof -
  define s where "s = suboperators p ! k"
  define strong where "strong = partner (suboperators p) s"
  define ops where "ops = number make_subop 10 specs"
  define req where "req = required_ius strong [s]"
  note defs = s_def [symmetric] strong_def [symmetric]
  have s: "s \<in> set (suboperators p)" using k by (simp add: s_def)
  have out: "\<not> outgoingStrongLinks s" using i by (simp add: interpreted_def defs)
  have M: "req = [] \<longleftrightarrow> required_ius None ops = []"
      "list_all2 (\<lambda>i j. iu_id i = iu_id j \<or> i \<in> ignored s) (nonvoid req) (nonvoid (required_ius None ops))"
      "map subop_id (opt_list strong @ [s]) = map subop_id ops" "length (nonvoid (provided_ius s)) \<le> 1"
      "map iu_id (nonvoid (provided_ius s)) = map iu_id (nonvoid (provided_ius (last ops)))"
    using m unfolding matches_def Let_def defs ops_def [symmetric] req_def [symmetric] by blast+
  let ?start = "if parallel_codegen p then Pipeline else disallowParallelCodegen Pipeline"
  let ?src = "fuse_chunk_sources fresh req"
  let ?ops = "?src @ opt_list strong @ [s] @ number build_sink (fresh + length ?src) (nonvoid (provided_ius s))"
  define q where "q = foldl attachSuboperator ?start ?ops"
  have q_ops: "suboperators q = ?ops" by (simp add: q_def disallowParallelCodegen_def Pipeline_def)
  have "so (foldl insert_new [] (nonvoid (provided_ius s))) = nonvoid (provided_ius s)"
    using M(4) short_order [OF so M(4)] by (simp add: short_insert_new)
  moreover have "strong_in p s = Returns strong" using finished_strong_in [OF p s] by (simp add: strong_def)
  moreover have "strong_out p s = Returns None" using out by (simp add: strong_out_def)
  ultimately have run: "repipeAll so fresh p k (Suc k) = Returns q"
    using k out by (simp add: repipeAll_def Let_def slice_one defs repipe_def repiped_ops_def q_def req_def nonvoid_def [symmetric] opt_list_def)
  let ?fsrc = "fuse_chunk_sources (10 + length specs) (required_ius None ops)"
  let ?fops = "?fsrc @ ops @ number build_sink (10 + length specs + length ?fsrc) (nonvoid (provided_ius (last ops)))"
  have "getFragment so (subop_id s) = Some (foldl attachSuboperator Pipeline ?fops)"
    by (rule getFragment_of [OF frag [unfolded defs] repipe_fragment [OF m so, folded ops_def]])
  moreover have "PipelineRunner_ok q"
  proof -
    have "isSource (hd (suboperators q))"
    proof (cases "req = []")
      case True
      with src show ?thesis by (cases strong) (simp_all add: q_ops defs req_def fuse_chunk_sources_def)
    next
      case False
      then show ?thesis by (simp add: q_ops fuse_chunk_sources_def build_driver_def isSource_def)
    qed
    moreover have "isSink (last (suboperators q)) \<or> is_void (hd (provided_ius (last (suboperators q))))"
    proof (cases "nonvoid (provided_ius s)")
      case Nil
      then have "isSink s \<or> is_void (hd (provided_ius s))"
        by (cases "provided_ius s") (auto simp: isSink_def nonvoid_def split: if_splits)
      with Nil show ?thesis by (simp add: q_ops)
    next
      case (Cons i "is")
      then show ?thesis using M(4) by (auto simp: q_ops isSink_def build_sink_def)
    qed
    ultimately show ?thesis by (simp add: PipelineRunner_ok_def)
  qed
  ultimately have "\<exists>r. InterpretedRunner so fresh p k = Returns r \<and> run_pipe r = q \<and> fragment_of r = foldl attachSuboperator Pipeline ?fops"
    by (simp add: InterpretedRunner_def Let_def defs run)
  moreover have "aligned s q (foldl attachSuboperator Pipeline ?fops)"
    unfolding aligned_def q_ops attach_all_suboperators
    using source_slots [OF M(1,2)] id_slots [OF M(3)] sink_slots [OF M(5)]
    by (simp add: Pipeline_def list_all2_appendI [of _ "opt_list strong @ [s]", simplified] list_all2_appendI)
  ultimately show ?thesis unfolding defs by auto
qed

end
