(* ===== verification/Typed_Subops.thy ===== *)
theory Typed_Subops
  imports Fragment_Props
begin

text \<open>
  Typing rules for suboperators: the types of the columns for which the fragmentizers generate code. A typed suboperator has a
  fragment of its shape.
\<close>

section \<open>Typing rules\<close>

definition plain_type :: "irtype \<Rightarrow> bool" where
  "plain_type t \<longleftrightarrow> t \<in> set (attachTypes [])"
definition numeric_type :: "irtype \<Rightarrow> bool" where
  "numeric_type t \<longleftrightarrow> t \<in> set (attachNumeric [])"
definition value_type :: "irtype \<Rightarrow> bool" where
  "value_type t \<longleftrightarrow> plain_type t \<or> t = StringT"

fun row_type :: "irtype \<Rightarrow> bool" where
  "row_type (ByteArray n) = True"
| "row_type t = (t = char_ptr)"

definition key_type :: "irtype \<Rightarrow> bool" where
  "key_type t \<longleftrightarrow> plain_type t \<or> row_type t"

fun expr_typed :: "expr_type \<Rightarrow> iu list \<Rightarrow> iu list \<Rightarrow> bool" where
  "expr_typed ty [o1] [a] = (ty = Cast \<and> plain_type (iu_type a) \<and> plain_type (iu_type o1))"
| "expr_typed ty [o1] [a, b] = (a \<noteq> b \<and> iu_type a = iu_type b \<and> iu_type o1 = derive ty [iu_type a, iu_type b] \<and>
     (ty \<in> set expression_op_types \<and> plain_type (iu_type a) \<or> ty = StrEquals \<and> iu_type a = StringT))"
| "expr_typed ty out src = False"

fun runtime_typed :: "expr_type \<Rightarrow> irtype \<Rightarrow> iu list \<Rightarrow> iu list \<Rightarrow> bool" where
  "runtime_typed ty t [o1] [a] =
     (ty \<in> set runtime_op_types \<and> numeric_type t \<and> iu_type a = t \<and> iu_type o1 = derive ty [t, t] \<or>
      ty = Constant \<and> t = UnsignedInt 1 \<and> numeric_type (iu_type a) \<and> iu_type o1 = UnsignedInt 1 \<or>
      ty = StrEquals \<and> t = StringT \<and> iu_type a = StringT \<and> iu_type o1 = Bool \<or>
      (ty = InList \<or> ty = NotLikeTokens) \<and> t = char_ptr \<and> iu_type a = StringT \<and> iu_type o1 = Bool)"
| "runtime_typed ty t out src = False"

fun agg_typed :: "agg_state \<Rightarrow> irtype \<Rightarrow> bool" where
  "agg_typed AggStateCount t = value_type t"
| "agg_typed (AggStateSum u) t = (u = t \<and> numeric_type t)"

fun reader_typed :: "agg_compute \<Rightarrow> irtype \<Rightarrow> bool" where
  "reader_typed (AggComputeUnpack u) t = (u = t \<and> plain_type t)"
| "reader_typed (AggComputeAvg u) t = (numeric_type u \<and> t = Float 8)"

definition hash_function :: "string \<Rightarrow> bool" where
  "hash_function f \<longleftrightarrow> (\<exists>w\<in>{None, Some 4, Some 8}. f = ''ht_at_sk_compute_hash_and_prefetch'' @
     (if w = Some 4 then ''_fixed_4'' else if w = Some (8 :: nat) then ''_fixed_8'' else []))"
definition lookup_function :: "string \<Rightarrow> bool" where
  "lookup_function f \<longleftrightarrow> (\<exists>disable\<in>{True, False}. f = ''ht_at_sk_lookup_with_hash'' @ (if disable then ''_disable'' else []))"

fun function_typed :: "string \<Rightarrow> iu list \<Rightarrow> iu option \<Rightarrow> iu list \<Rightarrow> iu list \<Rightarrow> bool" where
  "function_typed f [] (Some res) [o1] (i # is) = (res = o1 \<and> iu_type o1 = char_ptr \<and> \<not> is_void i \<and>
     (f = ''materialize_tuple'' \<or> f = ''ht_nk_lookup'' \<and> is = []))"
| "function_typed f [key] (Some res) [o1] (i # is) = (res = o1 \<and> i = key \<and> list_all is_void is \<and> distinct is \<and>
     (f = ''ht_sk_lookup_or_insert'' \<and> iu_type o1 = char_ptr \<and> key_type (iu_type key) \<or>
      f = ''ht_ck_lookup_or_insert'' \<and> iu_type o1 = char_ptr \<and> iu_type key = StringT \<or>
      hash_function f \<and> iu_type o1 = UnsignedInt 8 \<and> key_type (iu_type key)))"
| "function_typed f [key, hash] (Some res) [o1] [i, j] = (res = o1 \<and> i = key \<and> j = hash \<and> iu_type o1 = char_ptr \<and>
     iu_type hash = UnsignedInt 8 \<and> row_type (iu_type key) \<and> lookup_function f)"
| "function_typed f args res out src = False"

text \<open>The rule of a suboperator, given the one it is strongly linked to.\<close>

definition scan_typed :: "subop option \<Rightarrow> iu list \<Rightarrow> iu list \<Rightarrow> bool" where
  "scan_typed strong out src \<longleftrightarrow> (\<exists>t n i d. strong = Some t \<and> kind t = TScanDriver n \<and> source_ius t = [] \<and> provided_ius t = [d] \<and>
     src = [d] \<and> out = [i] \<and> value_type (iu_type i))"

definition filter_typed :: "subop option \<Rightarrow> irtype \<Rightarrow> bool \<Rightarrow> iu list \<Rightarrow> iu list \<Rightarrow> bool" where
  "filter_typed strong t self out src \<longleftrightarrow> (\<exists>scope ds pseudo filter_iu target o1. strong = Some scope \<and> kind scope = ColumnFilterScope ds \<and>
     source_ius scope = [filter_iu] \<and> provided_ius scope = [pseudo] \<and> is_void pseudo \<and> src = [pseudo, target] \<and> out = [o1] \<and>
     iu_type filter_iu = t \<and> t \<in> set condition_types \<and>
     (if self then target = filter_iu \<and> iu_type o1 = t
      else target \<noteq> filter_iu \<and> \<not> is_void target \<and> (value_type (iu_type target) \<and> iu_type o1 = iu_type target \<or>
        row_type (iu_type target) \<and> iu_type o1 = char_ptr)))"

definition typed :: "subop option \<Rightarrow> subop \<Rightarrow> bool" where
  "typed strong s \<longleftrightarrow> (let out = provided_ius s; src = source_ius s in case kind s of
     TScanIUProvider d \<Rightarrow> scan_typed strong out src
   | ColumnFilterLogic t self \<Rightarrow> filter_typed strong t self out src
   | ExpressionSubop ty \<Rightarrow> expr_typed ty out src
   | RuntimeExpressionSubop ty t v \<Rightarrow> runtime_typed ty t out src
   | KeyPackerSubop off \<Rightarrow> (\<exists>key target. src = [key, target] \<and> value_type (iu_type key) \<and> row_type (iu_type target) \<and> list_all is_void out)
   | KeyUnpackerSubop off \<Rightarrow> (\<exists>row o1. src = [row] \<and> out = [o1] \<and> row_type (iu_type row) \<and> value_type (iu_type o1))
   | AggregatorSubop g off \<Rightarrow> (\<exists>ptr i. src = [ptr, i] \<and> out = [] \<and> iu_type ptr = char_ptr \<and> agg_typed g (iu_type i))
   | AggReaderSubop c off off2 \<Rightarrow> (\<exists>ptr o1. src = [ptr] \<and> out = [o1] \<and> iu_type ptr = char_ptr \<and> reader_typed c (iu_type o1))
   | RuntimeFunctionSubop f args ref res st \<Rightarrow> function_typed f args res out src
   | HashTableSource ID st \<Rightarrow> (\<exists>o1. src = [] \<and> out = [o1] \<and> iu_type o1 = char_ptr \<and> ID \<in> {''sk'', ''ck'', ''dl''})
   | TScanDriver n \<Rightarrow> True | FuseChunkSink \<Rightarrow> True | ColumnFilterScope ds \<Rightarrow> True | ScratchPadIUProvider \<Rightarrow> True
   | _ \<Rightarrow> False)"

section \<open>Typed suboperators have fragments\<close>

definition runs :: "subop option \<Rightarrow> subop \<Rightarrow> bool" where
  "runs strong s \<longleftrightarrow> (\<exists>specs. (subop_id s, specs) \<in> set fragments \<and> matches strong s specs \<and>
     (required_ius strong [s] = [] \<longrightarrow> isSource (hd (opt_list strong @ [s]))))"

lemma required_plain:
  assumes "distinct (source_ius s)" "set (source_ius s) \<inter> set (provided_ius s) = {}" "\<not> is_materialize_tuple s"
  shows "required_ius None [s] = source_ius s"
proof -
  have "foldl (\<lambda>req i. if i \<notin> set (provided_ius s) \<and> i \<notin> set req then req @ [i] else req) acc is = acc @ is"
    if "distinct (acc @ is)" "set is \<inter> set (provided_ius s) = {}" for acc "is"
    using that by (induction "is" arbitrary: acc) auto
  from this [of "[]" "source_ius s"] assms show ?thesis by (simp add: required_ius_def scan_subop_def Let_def)
qed

lemma runs_plain:
  assumes frag: "single (k', out', src') \<in> set fragments" and id: "subop_id s = spec_id (k', out', src')"
    and s: "\<not> incomingStrongLinks s" "distinct (source_ius s)" "set (source_ius s) \<inter> set (provided_ius s) = {}" "\<not> is_materialize_tuple s"
    and f: "distinct src'" "set src' \<inter> set out' = {}"
    and src: "list_all2 (\<lambda>i j. iu_id i = iu_id j \<or> i \<in> ignored s) (nonvoid (source_ius s)) (nonvoid src')" "source_ius s = [] \<longleftrightarrow> src' = []"
    and out: "length (nonvoid (provided_ius s)) \<le> 1" "map iu_id (nonvoid (provided_ius s)) = map iu_id (nonvoid out')"
    and k: "\<not> strong_kind k'" "\<not> outgoingStrongLinks (make_subop 10 (k', out', src'))" "\<not> is_materialize_tuple (make_subop 10 (k', out', src'))"
  shows "runs None s"
proof -
  have "required_ius None [make_subop 10 (k', out', src')] = src'"
    using required_plain [of "make_subop 10 (k', out', src')"] f k(3) by simp
  moreover have "\<not> incomingStrongLinks (make_subop 10 (k', out', src'))"
    using k(1) by (simp add: incomingStrongLinks_def strong_kind_def make_subop_def split: subop_kind.splits)
  moreover have "subop_id (make_subop 10 (k', out', src')) = subop_id s" unfolding id by (simp add: subop_id_def make_subop_def)
  ultimately have "matches None s [(k', out', src')]"
    using required_plain [OF s(2-4)] src out k(2) by (simp add: matches_def Let_def)
  moreover have "source_ius s = [] \<longrightarrow> isSource s" by (simp add: isSource_def)
  ultimately show ?thesis using frag required_plain [OF s(2-4)] unfolding runs_def single_def id [symmetric] by auto
qed

lemma frag_iu_simps [simp]:
  "iu_id (frag_iu k t n) = type_id t" "is_void (frag_iu k t n) \<longleftrightarrow> t = Void" "iu_type (frag_iu k t n) = t"
  "frag_iu k t n = frag_iu l u m \<longleftrightarrow> k = l \<and> t = u \<and> n = m"
  by (auto simp: frag_iu_def iu_id_def is_void_def)

lemma in_fragments:
  "f \<in> set AggregationFragmentizer \<Longrightarrow> f \<in> set fragments" "f \<in> set TScanFragmetizer \<Longrightarrow> f \<in> set fragments"
  "f \<in> set ExpressionFragmentizer \<Longrightarrow> f \<in> set fragments" "f \<in> set HashTableSourceFragmentizer \<Longrightarrow> f \<in> set fragments"
  "f \<in> set RuntimeExpressionFragmentizer \<Longrightarrow> f \<in> set fragments" "f \<in> set KeyPackingFragmentizer \<Longrightarrow> f \<in> set fragments"
  "f \<in> set ColumnFilterFragmentizer \<Longrightarrow> f \<in> set fragments" "f \<in> set RuntimeFunctionSubopFragmentizer \<Longrightarrow> f \<in> set fragments"
  by (auto simp: fragments_def)

lemma type_facts:
  "plain_type t \<Longrightarrow> t \<noteq> Void" "plain_type t \<Longrightarrow> t \<noteq> char_ptr" "numeric_type t \<Longrightarrow> plain_type t" "value_type t \<Longrightarrow> t \<noteq> Void"
  "value_type t \<Longrightarrow> t \<noteq> char_ptr" "row_type t \<Longrightarrow> t \<noteq> Void" "key_type t \<Longrightarrow> t \<noteq> Void" "value_type t \<Longrightarrow> \<not> row_type t" "char_ptr \<noteq> Void"
  "row_type char_ptr"
  by (auto simp: plain_type_def numeric_type_def value_type_def key_type_def type_list_defs char_ptr_def elim: row_type.elims)

text \<open>The rule for suboperators of class \<open>k\<close>: what a proof has to supply is the fragment.\<close>

lemmas runs_simps = subop_id_def nonvoid_def ignored_def incomingStrongLinks_def outgoingStrongLinks_def is_materialize_tuple_def
  strong_kind_def make_subop_def under_ids_def is_void_def

lemma runs_aggregator:
  assumes "kind s = AggregatorSubop g off" "source_ius s = [ptr, i]" "provided_ius s = []" "iu_type ptr = char_ptr" "agg_typed g (iu_type i)"
  shows "runs None s"
proof (cases g)
  case AggStateCount
  then have "value_type (iu_type i)" using assms(5) by simp
  then have "ptr \<noteq> i" "iu_type i \<noteq> Void" using assms(4) type_facts by metis+
  then show ?thesis using assms AggStateCount
    by (intro runs_plain [of "AggregatorSubop AggStateCount 0" "[]" "[frag_iu 0 char_ptr [], frag_iu 1 (SignedInt 8) []]"])
       (auto simp: runs_simps in_fragments AggregationFragmentizer_def type_facts iu_id_def [of ptr])
next
  case (AggStateSum t)
  then have t: "iu_type i = t" "numeric_type t" using assms(5) by auto
  then have "ptr \<noteq> i" "iu_type i \<noteq> Void" using assms(4) type_facts by metis+
  then show ?thesis using assms AggStateSum t
    by (intro runs_plain [of "AggregatorSubop (AggStateSum t) 0" "[]" "[frag_iu 0 char_ptr [], frag_iu 1 t []]"])
       (auto simp: runs_simps in_fragments AggregationFragmentizer_def type_facts iu_id_def numeric_type_def)
qed

lemma runs_reader:
  assumes "kind s = AggReaderSubop c off off2" "source_ius s = [ptr]" "provided_ius s = [o1]" "iu_type ptr = char_ptr" "reader_typed c (iu_type o1)"
    "ptr \<noteq> o1"
  shows "runs None s"
proof (cases c)
  case (AggComputeUnpack t)
  then have "iu_type o1 = t" "plain_type t" using assms(5) by auto
  then show ?thesis using assms AggComputeUnpack
    by (intro runs_plain [of "AggReaderSubop (AggComputeUnpack t) 0 None" "[frag_iu 1 t []]" "[frag_iu 0 char_ptr []]"])
       (auto simp: runs_simps in_fragments AggregationFragmentizer_def type_facts iu_id_def plain_type_def)
next
  case (AggComputeAvg t)
  then have "iu_type o1 = Float 8" "numeric_type t" using assms(5) by auto
  then show ?thesis using assms AggComputeAvg
    by (intro runs_plain [of "AggReaderSubop (AggComputeAvg t) 0 None" "[frag_iu 1 (Float 8) []]" "[frag_iu 0 char_ptr []]"])
       (auto simp: runs_simps in_fragments AggregationFragmentizer_def type_facts iu_id_def numeric_type_def)
qed

text \<open>Rows are byte arrays or pointers; the fragments are generated for byte arrays of one width.\<close>

definition frag_row :: "nat \<Rightarrow> irtype \<Rightarrow> irtype" where
  "frag_row n t = (case t of ByteArray m \<Rightarrow> ByteArray n | _ \<Rightarrow> t)"

lemma frag_row: "type_id (frag_row n t) = type_id t" "row_type t \<Longrightarrow> frag_row n t \<in> {ByteArray n, char_ptr}" "frag_row n t = Void \<longleftrightarrow> t = Void"
  by (auto simp: frag_row_def split: irtype.splits)

lemma void_filter: "list_all is_void is \<Longrightarrow> filter (\<lambda>i. iu_type i \<noteq> Void) is = []"
  by (induction "is") (auto simp: is_void_def)

lemma packing_fragments:
  assumes "value_type t" "src \<in> {ByteArray 1, char_ptr}"
  shows "single (KeyPackerSubop 0, [], [frag_iu 1 t ''iu_in'', frag_iu 0 src ''compound_key'']) \<in> set fragments"
    "single (KeyUnpackerSubop 0, [frag_iu 0 t ''iu_out''], [frag_iu 1 src ''compound_key'']) \<in> set fragments"
proof -
  have "t \<in> set (attachStringType (attachTypes []))" "src \<in> set key_source_types"
    using assms by (auto simp: value_type_def plain_type_def attachStringType_def key_source_types_def char_ptr_def)
  then show "single (KeyPackerSubop 0, [], [frag_iu 1 t ''iu_in'', frag_iu 0 src ''compound_key'']) \<in> set fragments"
    "single (KeyUnpackerSubop 0, [frag_iu 0 t ''iu_out''], [frag_iu 1 src ''compound_key'']) \<in> set fragments"
    by (intro in_fragments(6), fastforce simp: KeyPackingFragmentizer_def)+
qed

lemma runs_packer:
  assumes "kind s = KeyPackerSubop off" "source_ius s = [key, target]" "value_type (iu_type key)" "row_type (iu_type target)"
    "list_all is_void (provided_ius s)"
  shows "runs None s"
proof -
  have t: "iu_type key \<noteq> Void" "iu_type target \<noteq> Void" "key \<noteq> target" using assms(3,4) type_facts by metis+
  moreover have "key \<notin> set (provided_ius s)" "target \<notin> set (provided_ius s)"
    using t assms(5) by (auto simp: list_all_iff is_void_def)
  moreover note packing_fragments(1) [OF assms(3) frag_row(2) [OF assms(4)]]
  ultimately show ?thesis using assms(1,2,5) void_filter [OF assms(5)] frag_row(1,3) [of 1 "iu_type target"]
    by (intro runs_plain [of "KeyPackerSubop 0" "[]" "[frag_iu 1 (iu_type key) ''iu_in'', frag_iu 0 (frag_row 1 (iu_type target)) ''compound_key'']"])
       (auto simp: runs_simps iu_id_def)
qed

lemma runs_unpacker:
  assumes "kind s = KeyUnpackerSubop off" "source_ius s = [row]" "provided_ius s = [o1]" "row_type (iu_type row)" "value_type (iu_type o1)"
  shows "runs None s"
proof -
  have "iu_type row \<noteq> Void" "row \<noteq> o1" using assms(4,5) type_facts by metis+
  then show ?thesis using assms(1-3) packing_fragments(2) [OF assms(5) frag_row(2) [OF assms(4)]] frag_row(1,3) [of 1 "iu_type row"]
      type_facts(4) [OF assms(5)]
    by (intro runs_plain [of "KeyUnpackerSubop 0" "[frag_iu 0 (iu_type o1) ''iu_out'']" "[frag_iu 1 (frag_row 1 (iu_type row)) ''compound_key'']"])
       (auto simp: runs_simps iu_id_def)
qed

lemma runs_source:
  assumes "kind s = HashTableSource ID st" "source_ius s = []" "provided_ius s = [o1]" "iu_type o1 = char_ptr" "ID \<in> {''sk'', ''ck'', ''dl''}"
  shows "runs None s"
  using assms
  by (intro runs_plain [of "HashTableSource ID 0" "[frag_iu 0 char_ptr []]" "[]"])
     (auto simp: runs_simps in_fragments HashTableSourceFragmentizer_def type_facts iu_id_def)

lemma derive_void: "derive ty [t, t] = Void \<Longrightarrow> t = Void"
  by (auto simp: derive_def split: if_splits)

lemma runs_expression:
  assumes "kind s = ExpressionSubop ty" "expr_typed ty (provided_ius s) (source_ius s)" "set (source_ius s) \<inter> set (provided_ius s) = {}"
  shows "runs None s"
  using assms(2)
proof (cases rule: expr_typed.cases [of "(ty, provided_ius s, source_ius s)"])
  case (1 ty' o1 a)
  let ?f = "(ExpressionSubop Cast, [frag_iu 1 (iu_type o1) []], [frag_iu 0 (iu_type a) []])"
  have t: "ty = Cast" "plain_type (iu_type a)" "plain_type (iu_type o1)" using assms(2) 1 by auto
  then have "single ?f \<in> set fragments"
    by (intro in_fragments) (auto simp: ExpressionFragmentizer_def fragmentizeCasts_def plain_type_def)
  moreover have "iu_type a \<noteq> Void" using t(2) type_facts by auto
  ultimately show ?thesis using assms t(1) 1
    by (intro runs_plain [of "ExpressionSubop Cast" _ _]) (auto simp: runs_simps iu_id_def)
next
  case (2 ty' o1 a b)
  let ?f = "(ExpressionSubop ty, [frag_iu 2 (derive ty [iu_type a, iu_type a]) []], [frag_iu 0 (iu_type a) [], frag_iu 1 (iu_type a) []])"
  have t: "a \<noteq> b" "iu_type b = iu_type a" "iu_type o1 = derive ty [iu_type a, iu_type a]"
      "ty \<in> set expression_op_types \<and> plain_type (iu_type a) \<or> ty = StrEquals \<and> iu_type a = StringT"
    using assms(2) 2 by auto
  then have "single ?f \<in> set fragments"
    by (intro in_fragments(3)) (fastforce simp: ExpressionFragmentizer_def fragmentizeBinary_def fragmentizeFunctions_def plain_type_def)
  moreover have "iu_type a \<noteq> Void" using t(4) type_facts by auto
  ultimately show ?thesis using assms t 2
    by (intro runs_plain [of "ExpressionSubop ty" _ _]) (auto simp: runs_simps iu_id_def)
qed auto

lemma runtime_fragment:
  assumes "runtime_typed ty t [o1] [a]"
  shows "single (RuntimeExpressionSubop ty t None, [frag_iu 1 (iu_type o1) []], [frag_iu 0 (iu_type a) []]) \<in> set fragments"
proof -
  consider (op) "ty \<in> set runtime_op_types" "numeric_type t" "iu_type a = t" "iu_type o1 = derive ty [t, t]"
    | (null) "ty = Constant" "t = UnsignedInt 1" "numeric_type (iu_type a)" "iu_type o1 = UnsignedInt 1"
    | (eq) "ty = StrEquals" "t = StringT" "iu_type a = StringT" "iu_type o1 = Bool"
    | (list) "ty = InList \<or> ty = NotLikeTokens" "t = char_ptr" "iu_type a = StringT" "iu_type o1 = Bool"
    using assms by auto
  then show ?thesis
  proof cases
    case op
    then have "single (RuntimeExpressionSubop ty t None, [frag_iu 1 (derive ty [t, t]) []], [frag_iu 0 t []]) \<in> set RuntimeExpressionFragmentizer"
      unfolding RuntimeExpressionFragmentizer_def numeric_type_def by fastforce
    with op show ?thesis by (simp add: in_fragments)
  next
    case null
    then have "single (RuntimeExpressionSubop Constant (UnsignedInt 1) None, [frag_iu 1 (UnsignedInt 1) []], [frag_iu 0 (iu_type a) []])
        \<in> set RuntimeExpressionFragmentizer"
      unfolding RuntimeExpressionFragmentizer_def numeric_type_def by fastforce
    with null show ?thesis by (simp add: in_fragments)
  next
    case eq
    have "derive StrEquals [StringT, StringT] = Bool" by (simp add: derive_def bool_returning_def)
    with eq show ?thesis by (intro in_fragments(5)) (simp add: RuntimeExpressionFragmentizer_def)
  next
    case list
    have "derive InList [StringT] = Bool" "derive NotLikeTokens [StringT] = Bool" by (simp_all add: derive_def bool_returning_def)
    with list show ?thesis by (intro in_fragments(5)) (auto simp: RuntimeExpressionFragmentizer_def char_ptr_def)
  qed
qed

lemma runs_runtime:
  assumes "kind s = RuntimeExpressionSubop ty t v" "runtime_typed ty t (provided_ius s) (source_ius s)"
    "set (source_ius s) \<inter> set (provided_ius s) = {}"
  shows "runs None s"
  using assms(2)
proof (cases rule: runtime_typed.cases [of "(ty, t, provided_ius s, source_ius s)"])
  case (1 ty' t' o1 a)
  then have "runtime_typed ty t [o1] [a]" using assms(2) by simp
  note f = runtime_fragment [OF this]
  have "iu_type a \<noteq> Void" using \<open>runtime_typed ty t [o1] [a]\<close> type_facts by auto
  with f show ?thesis using assms(1,3) 1
    by (intro runs_plain [OF f]) (auto simp: runs_simps iu_id_def)
qed auto

lemma table_fragment:
  assumes "key_type t" "spec \<in> set (table_fragments (frag_row 0 t))"
  shows "single spec \<in> set fragments"
proof -
  have "frag_row 0 t \<in> set (attachPackedKeyTypes (attachTypes []))"
    using assms(1) frag_row(2) [of t 0]
    by (auto simp: key_type_def plain_type_def attachPackedKeyTypes_def char_ptr_def frag_row_def type_list_defs split: irtype.splits)
  then show ?thesis using assms(2) by (intro in_fragments(8)) (auto simp: RuntimeFunctionSubopFragmentizer_def)
qed

lemma table_fragments:
  "htLookupOrInsert ''sk'' (Some (frag_iu 1 char_ptr [])) (frag_iu 0 t []) [] 0 \<in> set (table_fragments t)"
  "w \<in> {None, Some 4, Some 8} \<Longrightarrow> htHashAndPrefetch ''at_sk'' (frag_iu 2 (UnsignedInt 8) []) (frag_iu 0 t []) [] w 0 \<in> set (table_fragments t)"
  "htLookupWithHash ''at_sk'' b (frag_iu 1 char_ptr []) (frag_iu 0 t []) (frag_iu 2 (UnsignedInt 8) []) None 0 \<in> set (table_fragments t)"
  by (auto simp: table_fragments_def Let_def) (cases b; simp)+

lemma runs_key_function:
  assumes "kind s = RuntimeFunctionSubop f [key] ref (Some o1) st" "provided_ius s = [o1]" "source_ius s = key # is"
    and "list_all is_void is" "distinct is" "iu_type key \<noteq> Void" "\<not> is_void o1" "set (source_ius s) \<inter> set (provided_ius s) = {}" "f \<noteq> ''materialize_tuple''"
    and "single (RuntimeFunctionSubop f [frag_iu 0 t []] ref' (Some (frag_iu k (iu_type o1) [])) st', [frag_iu k (iu_type o1) []], [frag_iu 0 t []]) \<in> set fragments"
    and "type_id t = type_id (iu_type key)" "k \<noteq> 0" "t \<noteq> Void"
  shows "runs None s"
proof -
  have "key \<notin> set is" using assms(4,6) by (auto simp: list_all_iff is_void_def)
  then show ?thesis using assms(1-9,11-13) void_filter [OF assms(4)]
    by (intro runs_plain [OF assms(10)]) (auto simp: runs_simps iu_id_def)
qed

lemma runs_function:
  assumes "kind s = RuntimeFunctionSubop f args ref res st" "function_typed f args res (provided_ius s) (source_ius s)"
    "set (source_ius s) \<inter> set (provided_ius s) = {}"
  shows "runs None s"
  using assms(2)
proof (cases rule: function_typed.cases [of "(f, args, res, provided_ius s, source_ius s)"])
  case (1 f' res' o1 i "is")
  note f = 1 assms(1,2)
  show ?thesis
  proof (cases "f = ''materialize_tuple''")
    case True
    let ?spec = "materializeTuple (frag_iu 1 char_ptr []) [frag_iu 0 CharT []] 0"
    have mem: "(subop_id s, [?spec]) \<in> set fragments"
      using f True by (intro in_fragments(8)) (auto simp: RuntimeFunctionSubopFragmentizer_def single_def subop_id_def materializeTuple_def under_ids_def iu_id_def)
    have req: "required_ius None [s] = [i]" "required_ius None [make_subop 10 ?spec] = [frag_iu 0 CharT []]"
      using f True by (simp_all add: required_ius_def is_materialize_tuple_def materializeTuple_def make_subop_def)
    have "subop_id (make_subop 10 ?spec) = subop_id s"
      using f True by (simp add: subop_id_def make_subop_def materializeTuple_def under_ids_def iu_id_def)
    moreover have "i \<in> ignored s" using f by (simp add: ignored_def)
    moreover have "iu_type o1 = char_ptr" "\<not> is_void i" using f by auto
    ultimately have "matches None s [?spec]" using f unfolding matches_def Let_def number.simps req
      by (simp add: runs_simps materializeTuple_def iu_id_def type_facts)
    with mem req show ?thesis unfolding runs_def by auto
  next
    case False
    then have nk: "f = ''ht_nk_lookup''" "is = []" "iu_type o1 = char_ptr" "\<not> is_void i" using f by auto
    have "single (htNoKeyLookup (frag_iu 1 char_ptr []) (frag_iu 0 CharT []) 0) \<in> set fragments"
      by (intro in_fragments(8)) (simp add: RuntimeFunctionSubopFragmentizer_def)
    from runs_plain [OF this [unfolded htNoKeyLookup_def]] f nk assms(3) show ?thesis
      by (auto simp: runs_simps iu_id_def type_facts)
  qed
next
  case (2 f' key res' o1 i "is")
  note f = 2 assms(1,2)
  have d: "function_typed f [key] (Some res') [o1] (i # is)" using f by simp
  then have o: "res' = o1" "i = key" "list_all is_void is" "distinct is" unfolding function_typed.simps by blast+
  have k: "kind s = RuntimeFunctionSubop f [key] ref (Some o1) st" "provided_ius s = [o1]" "source_ius s = key # is"
    using 2 o assms(1) by simp_all
  have runs: "runs None s" if "spec \<in> {htLookupOrInsert ID (Some (frag_iu j (iu_type o1) [])) (frag_iu 0 t []) [] 0,
      htHashAndPrefetch ID (frag_iu j (iu_type o1) []) (frag_iu 0 t []) [] w 0}" "single spec \<in> set fragments" "fst spec = RuntimeFunctionSubop f ags refs res2 st2"
      "type_id t = type_id (iu_type key)" "t \<noteq> Void" "j \<noteq> 0" "iu_type key \<noteq> Void" "iu_type o1 \<noteq> Void" "f \<noteq> ''materialize_tuple''"
    for spec ID j t w ags refs res2 st2
  proof -
    have "spec = (RuntimeFunctionSubop f [frag_iu 0 t []] refs (Some (frag_iu j (iu_type o1) [])) st2, [frag_iu j (iu_type o1) []], [frag_iu 0 t []])"
      using that(1,3) by (auto simp: htLookupOrInsert_def htHashAndPrefetch_def Let_def)
    with that show ?thesis
      by (intro runs_key_function [OF k o(3,4) _ _ assms(3), where k = j and t = t and ref' = refs and st' = st2]) (simp_all add: is_void_def)
  qed
  consider (sk) "f = ''ht_sk_lookup_or_insert''" "iu_type o1 = char_ptr" "key_type (iu_type key)"
    | (ck) "f = ''ht_ck_lookup_or_insert''" "iu_type o1 = char_ptr" "iu_type key = StringT"
    | (hash) "hash_function f" "iu_type o1 = UnsignedInt 8" "key_type (iu_type key)"
    using d unfolding function_typed.simps by blast
  then show ?thesis
  proof cases
    case sk
    let ?spec = "htLookupOrInsert ''sk'' (Some (frag_iu 1 (iu_type o1) [])) (frag_iu 0 (frag_row 0 (iu_type key)) []) [] 0"
    have "single ?spec \<in> set fragments" using table_fragment [OF sk(3) table_fragments(1)] sk(2) by simp
    moreover have "fst ?spec = RuntimeFunctionSubop f [frag_iu 0 (frag_row 0 (iu_type key)) []] [\<not> is_byte_ptr (frag_row 0 (iu_type key))]
        (Some (frag_iu 1 (iu_type o1) [])) 0" by (simp add: htLookupOrInsert_def sk(1))
    moreover have "iu_type key \<noteq> Void" "iu_type o1 \<noteq> Void" "f \<noteq> ''materialize_tuple''"
      using type_facts(7) [OF sk(3)] sk(2) type_facts(9) by (auto simp: sk(1))
    ultimately show ?thesis using frag_row(1,3) [of 0 "iu_type key"] by (intro runs [of ?spec "''sk''" 1 "frag_row 0 (iu_type key)"]) auto
  next
    case ck
    let ?spec = "htLookupOrInsert ''ck'' (Some (frag_iu 1 (iu_type o1) [])) (frag_iu 0 StringT []) [] 0"
    have "single ?spec \<in> set fragments" by (intro in_fragments(8)) (simp add: RuntimeFunctionSubopFragmentizer_def ck(2))
    moreover have "fst ?spec = RuntimeFunctionSubop f [frag_iu 0 StringT []] [\<not> is_byte_ptr StringT]
        (Some (frag_iu 1 (iu_type o1) [])) 0" by (simp add: htLookupOrInsert_def ck(1))
    moreover have "iu_type o1 \<noteq> Void" "f \<noteq> ''materialize_tuple''" using ck(2) type_facts(9) by (auto simp: ck(1))
    ultimately show ?thesis using ck(3) by (intro runs [of ?spec "''ck''" 1 StringT]) auto
  next
    case hash
    obtain w where w: "w \<in> {None, Some 4, Some 8}" "f = ''ht_at_sk_compute_hash_and_prefetch'' @
        (if w = Some 4 then ''_fixed_4'' else if w = Some (8 :: nat) then ''_fixed_8'' else [])"
      using hash(1) unfolding hash_function_def by blast
    let ?spec = "htHashAndPrefetch ''at_sk'' (frag_iu 2 (iu_type o1) []) (frag_iu 0 (frag_row 0 (iu_type key)) []) [] w 0"
    have "single ?spec \<in> set fragments" using table_fragment [OF hash(3) table_fragments(2) [OF w(1)]] hash(2) by simp
    moreover have "fst ?spec = RuntimeFunctionSubop f [frag_iu 0 (frag_row 0 (iu_type key)) []] [\<not> is_byte_ptr (frag_row 0 (iu_type key))]
        (Some (frag_iu 2 (iu_type o1) [])) 0" by (simp add: htHashAndPrefetch_def Let_def w(2))
    moreover have "iu_type key \<noteq> Void" "iu_type o1 \<noteq> Void" "f \<noteq> ''materialize_tuple''"
      using type_facts(7) [OF hash(3)] hash(2) by (auto simp: w(2))
    ultimately show ?thesis using frag_row(1,3) [of 0 "iu_type key"] by (intro runs [of ?spec "''at_sk''" 2 "frag_row 0 (iu_type key)" w]) auto
  qed
next
  case (3 f' key hash res' o1 i j)
  note f = 3 assms(1,2)
  have d: "function_typed f [key, hash] (Some res') [o1] [i, j]" using f by simp
  then have o: "res' = o1" "i = key" "j = hash" "iu_type o1 = char_ptr" "iu_type hash = UnsignedInt 8" "row_type (iu_type key)"
    "lookup_function f" unfolding function_typed.simps by blast+
  obtain b where b: "f = ''ht_at_sk_lookup_with_hash'' @ (if b then ''_disable'' else [])"
    using o(7) unfolding lookup_function_def by blast
  have "key_type (iu_type key)" using o(6) by (simp add: key_type_def)
  note m = table_fragment [OF this table_fragments(3) [of b]]
  have "key \<noteq> hash" using o(5,6) by (auto simp: char_ptr_def)
  then show ?thesis using f o b assms(3) frag_row(1,3) [of 0 "iu_type key"] type_facts
    by (intro runs_plain [OF m [unfolded htLookupWithHash_def]]) (auto simp: runs_simps iu_id_def)
qed auto

lemma runs_scan:
  assumes "kind s = TScanIUProvider d" "scan_typed strong (provided_ius s) (source_ius s)"
  shows "runs strong s"
proof -
  obtain t n i x where t: "strong = Some t" "kind t = TScanDriver n" "source_ius t = []" "provided_ius t = [x]" "source_ius s = [x]"
      "provided_ius s = [i]" "value_type (iu_type i)"
    using assms(2) unfolding scan_typed_def by blast
  let ?driver = "frag_iu 0 (UnsignedInt 8) ''driver_idx''"
  let ?specs = "[(TScanDriver 0, [?driver], []), (TScanIUProvider 0, [frag_iu 1 (iu_type i) []], [?driver])]"
  have "iu_type i \<in> set (attachStringType (attachTypes []))"
    using t(7) by (auto simp: value_type_def plain_type_def attachStringType_def)
  then have "(spec_id (TScanIUProvider 0, [frag_iu 1 (iu_type i) []], [?driver]), ?specs) \<in> set TScanFragmetizer"
    by (auto simp: TScanFragmetizer_def Let_def)
  then have mem: "(subop_id s, ?specs) \<in> set fragments"
    using assms(1) t by (intro in_fragments(2)) (simp add: subop_id_def iu_id_def)
  have req: "required_ius strong [s] = []" "required_ius None (number make_subop 10 ?specs) = []"
    using assms(1) t by (simp_all add: required_ius_def scan_subop_def make_subop_def is_materialize_tuple_def)
  have "iu_type i \<noteq> Void" using t(7) type_facts by auto
  then have "matches strong s ?specs" unfolding matches_def Let_def req using assms(1) t
    by (simp add: runs_simps iu_id_def)
  then show ?thesis using mem t by (auto simp: runs_def isSource_def)
qed

lemma filter_fragment_mem:
  assumes "c \<in> set condition_types" "value_type t \<or> row_type t"
  shows "filter_fragment c (frag_row 0 t) (if row_type t then char_ptr else t) False \<in> set fragments"
proof -
  consider (bytes) n where "t = ByteArray n" | (other) "t \<in> set (attachCharPtr (attachStringType (attachTypes [])))" "frag_row 0 t = t"
      "(if row_type t then char_ptr else t) = t"
    using assms(2) by (cases t) (auto simp: value_type_def plain_type_def type_list_defs frag_row_def char_ptr_def)
  then show ?thesis
  proof cases
    case bytes
    then show ?thesis using assms(1)
      by (intro in_fragments(7)) (auto simp: ColumnFilterFragmentizer_def frag_row_def char_ptr_def)
  next
    case other
    then show ?thesis using assms(1) by (intro in_fragments(7)) (auto simp: ColumnFilterFragmentizer_def)
  qed
qed

lemma self_filter_mem: "c \<in> set condition_types \<Longrightarrow> filter_fragment c c c True \<in> set fragments"
  by (intro in_fragments(7)) (auto simp: ColumnFilterFragmentizer_def)

lemma runs_filter:
  assumes "kind s = ColumnFilterLogic t self" "filter_typed strong t self (provided_ius s) (source_ius s)"
    "set (source_ius s) \<inter> set (provided_ius s) = {}"
  shows "runs strong s"
proof -
  obtain scope ds pseudo filter_iu target o1 where f: "strong = Some scope" "kind scope = ColumnFilterScope ds" "source_ius scope = [filter_iu]"
      "provided_ius scope = [pseudo]" "is_void pseudo" "source_ius s = [pseudo, target]" "provided_ius s = [o1]" "iu_type filter_iu = t"
      "t \<in> set condition_types" "if self then target = filter_iu \<and> iu_type o1 = t
      else target \<noteq> filter_iu \<and> \<not> is_void target \<and> (value_type (iu_type target) \<and> iu_type o1 = iu_type target \<or>
        row_type (iu_type target) \<and> iu_type o1 = char_ptr)"
    using assms(2) unfolding filter_typed_def by blast
  have t: "t \<noteq> Void" using f(9) by (auto simp: condition_types_def)
  have "\<exists>specs. (subop_id s, specs) \<in> set fragments \<and> matches strong s specs"
  proof (cases self)
    case True
    have "filter_fragment t t t True \<in> set fragments" by (rule self_filter_mem [OF f(9)])
    moreover have "subop_id s = fst (filter_fragment t t t True)" "matches strong s (snd (filter_fragment t t t True))"
      using assms(1,3) f True t
      by (auto simp: filter_fragment_def Let_def matches_def required_ius_def scan_subop_def runs_simps iu_id_def)
    ultimately show ?thesis by (metis prod.collapse)
  next
    case False
    let ?f = "filter_fragment t (frag_row 0 (iu_type target)) (if row_type (iu_type target) then char_ptr else iu_type target) False"
    have v: "value_type (iu_type target) \<or> row_type (iu_type target)" using f(10) False by auto
    then have "?f \<in> set fragments" by (rule filter_fragment_mem [OF f(9)])
    moreover have o: "iu_type o1 = (if row_type (iu_type target) then char_ptr else iu_type target)" using f(10) False type_facts(8) by auto
    moreover have "iu_type o1 \<noteq> Void" "iu_type target \<noteq> Void" using f(10) False type_facts by auto
    ultimately show ?thesis using assms(1,3) f False t frag_row(1,3) [of 0 "iu_type target"]
      by (intro exI [of _ "snd ?f"])
         (auto simp: filter_fragment_def Let_def matches_def required_ius_def scan_subop_def runs_simps iu_id_def)
  qed
  moreover have "required_ius strong [s] \<noteq> []"
  proof -
    have "foldl (\<lambda>req i. if i \<notin> P \<and> i \<notin> set req then req @ [i] else req) R is \<noteq> []" if "R \<noteq> []" for P R "is"
      using that by (induction "is" arbitrary: R) auto
    then show ?thesis using f assms(1) by (simp add: required_ius_def scan_subop_def Let_def is_materialize_tuple_def)
  qed
  ultimately show ?thesis by (auto simp: runs_def)
qed

theorem typed_runs:
  assumes "typed strong s" "interpreted s" "set (source_ius s) \<inter> set (provided_ius s) = {}" "incomingStrongLinks s \<longleftrightarrow> strong \<noteq> None"
  shows "runs strong s"
proof -
  note t = assms(1) [unfolded typed_def Let_def]
  have n: "strong = None" if "\<not> incomingStrongLinks s" using that assms(4) by simp
  show ?thesis
  proof (cases "kind s")
    case (TScanIUProvider d)
    then show ?thesis using t runs_scan by simp
  next
    case (ColumnFilterLogic u self)
    then show ?thesis using t runs_filter assms(3) by simp
  next
    case (ExpressionSubop ty)
    then show ?thesis using t n runs_expression assms(3) by (simp add: incomingStrongLinks_def)
  next
    case (RuntimeExpressionSubop ty u v)
    then show ?thesis using t n runs_runtime assms(3) by (simp add: incomingStrongLinks_def)
  next
    case (KeyPackerSubop off)
    then show ?thesis using t n runs_packer by (simp add: incomingStrongLinks_def) blast
  next
    case (KeyUnpackerSubop off)
    then show ?thesis using t n runs_unpacker by (simp add: incomingStrongLinks_def) blast
  next
    case (AggregatorSubop g off)
    then show ?thesis using t n runs_aggregator by (simp add: incomingStrongLinks_def) blast
  next
    case (AggReaderSubop c off off2)
    then have "strong = None" "\<exists>ptr o1. source_ius s = [ptr] \<and> provided_ius s = [o1] \<and> iu_type ptr = char_ptr \<and> reader_typed c (iu_type o1)"
      using t n by (simp_all add: incomingStrongLinks_def)
    then show ?thesis using runs_reader [OF AggReaderSubop] assms(3) by auto
  next
    case (RuntimeFunctionSubop f args ref res st)
    then show ?thesis using t n runs_function assms(3) by (simp add: incomingStrongLinks_def)
  next
    case (HashTableSource ID st)
    then have "strong = None" "\<exists>o1. source_ius s = [] \<and> provided_ius s = [o1] \<and> iu_type o1 = char_ptr \<and> ID \<in> {''sk'', ''ck'', ''dl''}"
      using t n by (simp_all add: incomingStrongLinks_def)
    then show ?thesis using runs_source [OF HashTableSource] by blast
  qed (use t assms(2) in \<open>simp_all add: interpreted_def outgoingStrongLinks_def isFuseChunkOp_def\<close>)
qed

end
