(* ===== verification/Plan_Induct.thy ===== *)
theory Plan_Induct
  imports Plan_Correct
begin

text \<open>
  What holds of every pipeline of a decayed plan. A property of pipelines that the empty pipeline has, and that the batches of
  suboperators of the relational operators keep, is a property of all pipelines of every plan without outer joins; the contract is a locale.
\<close>

locale pipeline_property =
  fixes ops_ok :: "subop list \<Rightarrow> bool" and batch :: "subop_spec list \<Rightarrow> bool"
    and node_ok :: "expr_node \<Rightarrow> bool" and op_ok :: "relop \<Rightarrow> bool"
  assumes none: "ops_ok []"
    and extend: "ops_ok ops \<Longrightarrow> batch specs \<Longrightarrow> ops_ok (ops @ number make_subop a specs)"
    and guarded: "ops_ok ops \<Longrightarrow> ops \<noteq> [] \<Longrightarrow> batch (join_lookup_ops p ht) \<Longrightarrow> batch filters \<Longrightarrow> filters \<noteq> [] \<Longrightarrow>
      suboperators q = ops @ number make_subop a (join_lookup_ops p ht) \<Longrightarrow>
      ops_ok (suboperators (ROFScopeGuard_end (length ops) q) @ number make_subop b filters)"
    and sinks: "batch (map (\<lambda>i. (FuseChunkSink, [], [i])) ius)"
    and node: "node_ok (ComputeNode ty out children param) \<Longrightarrow> list_all node_ok children \<and>
      (\<forall>spec. node_spec ty out (map node_iu children) param = Returns spec \<longrightarrow> batch [spec])"
    and scan: "op_ok (TableScan nm n cols) \<Longrightarrow> batch (scan_ops nm addr n cols)"
    and filters: "op_ok (Filter cs filter_iu pseudo to_redefine redefined) \<Longrightarrow> list_all op_ok cs \<and>
      (\<forall>addr specs. filter_ops addr filter_iu pseudo to_redefine redefined = Returns specs \<longrightarrow> batch specs)"
    and expression: "op_ok (ExpressionOp cs out_nodes) \<Longrightarrow> list_all op_ok cs \<and> list_all node_ok out_nodes"
    and aggregation: "op_ok (Aggregation cs ap) \<Longrightarrow> agg_ok V ap \<Longrightarrow> list_all op_ok cs \<and> batch (agg_build_ops ap st) \<and> batch (agg_read_ops ap st)"
    and join: "op_ok (Join cs p) \<Longrightarrow> full_row_left p \<noteq> [] \<Longrightarrow> list_all op_ok cs \<and> batch (join_build_ops p st) \<and> batch (join_pack_ops p) \<and>
      batch (join_lookup_ops p st) \<and> (\<forall>addr specs. join_filter_ops p addr = Returns specs \<longrightarrow> batch specs) \<and> batch (join_unpack_ops p)"
begin

definition dag_ok :: "dag \<Rightarrow> bool" where
  "dag_ok d \<longleftrightarrow> continuations d = [] \<and> (\<forall>p\<in>set (pipelines d). ops_ok (suboperators p))"

definition live :: "dag \<Rightarrow> bool" where
  "live d \<longleftrightarrow> dag_ok d \<and> pipelines d \<noteq> []"

lemma continuations_attach: "continuations (attach_all specs d) = continuations d"
  by (induction specs rule: rev_induct) (simp_all add: attach_all_def attach_new_def on_current_def)

lemma dag_ok_attach: "dag_ok d \<Longrightarrow> pipelines d \<noteq> [] \<Longrightarrow> batch specs \<Longrightarrow> live (attach_all specs d)"
  using extend [of "suboperators (last (pipelines d))" specs "next_addr d"]
  by (auto simp: live_def dag_ok_def attach_all_pipelines continuations_attach dest: in_set_butlastD)

lemma live_attach: "live d \<Longrightarrow> batch specs \<Longrightarrow> live (attach_all specs d)"
  using dag_ok_attach by (simp add: live_def)

lemma dag_ok_new: "dag_ok d \<Longrightarrow> batch specs \<Longrightarrow> live (attach_all specs (buildNewPipeline d))"
  using none by (intro dag_ok_attach) (auto simp: dag_ok_def buildNewPipeline_def Pipeline_def)

lemma live_state: "attach_state k st d = (n, d1) \<Longrightarrow> live d1 \<longleftrightarrow> live d" "attach_state k st d = (n, d1) \<Longrightarrow> dag_ok d1 \<longleftrightarrow> dag_ok d"
  by (auto simp: attach_state_def live_def dag_ok_def)

lemma live_task: "live (addRuntimeTask t d) \<longleftrightarrow> live d" "dag_ok (addRuntimeTask t d) \<longleftrightarrow> dag_ok d"
  by (simp_all add: live_def dag_ok_def addRuntimeTask_def)

text \<open>The lookup of a join under its guard, with the filter that follows it.\<close>

lemma live_guarded:
  assumes "live d" "batch pack" "pack \<noteq> []" "batch (join_lookup_ops p ht)" "batch fs" "fs \<noteq> []"
  shows "live (attach_all fs (with_rof_guard (attach_all (join_lookup_ops p ht)) (attach_all pack d)))"
proof -
  let ?d1 = "attach_all pack d"
  let ?q = "last (pipelines ?d1)" and ?r = "last (pipelines (attach_all (join_lookup_ops p ht) ?d1))"
  have l: "live ?d1" by (rule live_attach [OF assms(1,2)])
  then have ne: "pipelines ?d1 \<noteq> []" and ok: "ops_ok (suboperators ?q)" by (auto simp: live_def dag_ok_def)
  have "suboperators ?q \<noteq> []"
    using assms(1,3) by (cases pack; cases "hd pack") (auto simp: attach_all_pipelines live_def)
  moreover have "suboperators ?r = suboperators ?q @ number make_subop (next_addr ?d1) (join_lookup_ops p ht)"
    by (simp add: attach_all_pipelines [OF ne])
  ultimately have "ops_ok (suboperators (ROFScopeGuard_end (length (suboperators ?q)) ?r) @ number make_subop b fs)" for b
    by (intro guarded [OF ok _ assms(4,5,6)])
  moreover have "butlast (pipelines (attach_all (join_lookup_ops p ht) ?d1)) = butlast (pipelines ?d1)"
    by (simp add: attach_all_pipelines [OF ne])
  moreover have "\<forall>p\<in>set (butlast (pipelines d)). ops_ok (suboperators p)"
    using assms(1) by (auto simp: live_def dag_ok_def dest: in_set_butlastD)
  ultimately show ?thesis using l
    by (auto simp: with_rof_guard_def Let_def live_def dag_ok_def attach_all_pipelines on_current_def continuations_attach getCurrentPipeline_def)
qed

text \<open>Expressions.\<close>

definition built_ok :: "(expr_node \<Rightarrow> iu option) \<Rightarrow> bool" where
  "built_ok bm \<longleftrightarrow> (\<forall>m. bm m = None \<or> bm m = Some (node_iu m))"

definition node_keeps :: "expr_node \<Rightarrow> bool" where
  "node_keeps n \<longleftrightarrow> (\<forall>bm d bm' d'. decayNode n (bm, d) = Returns (bm', d') \<longrightarrow> built_ok bm \<longrightarrow> live d \<longrightarrow>
     built_ok bm' \<and> live d' \<and> dom bm \<subseteq> dom bm' \<and> n \<in> dom bm')"

lemma node_list_keeps:
  assumes "\<forall>n\<in>set ns. node_keeps n" "decay_node_list (zip ns (map decayNode ns)) (bm, d) = Returns (srcs, bm', d')" "built_ok bm" "live d"
  shows "srcs = map node_iu ns \<and> built_ok bm' \<and> live d' \<and> dom bm \<subseteq> dom bm'"
  using assms
proof (induction ns arbitrary: bm d srcs)
  case (Cons n ns)
  then obtain b1 d1 rest where n: "decayNode n (bm, d) = Returns (b1, d1)"
      "decay_node_list (zip ns (map decayNode ns)) (b1, d1) = Returns (rest, bm', d')" "srcs = the (b1 n) # rest"
    by (auto simp: obind_Returns_iff Let_def)
  then have k: "built_ok b1" "live d1" "n \<in> dom b1" "dom bm \<subseteq> dom b1" using Cons.prems by (auto simp: node_keeps_def)
  then have "the (b1 n) = node_iu n" unfolding built_ok_def by (metis domIff option.sel)
  then show ?case using Cons.IH [OF _ n(2) k(1,2)] Cons.prems(1) n(3) subset_trans [OF k(4)] by simp
qed simp

lemma node_ok_keeps: "node_ok n \<Longrightarrow> node_keeps n"
proof (induction n)
  case (IURefNode i)
  show ?case unfolding node_keeps_def by (auto simp: built_ok_def split: if_splits)
next
  case (ComputeNode ty out children param)
  show ?case unfolding node_keeps_def
  proof (intro allI impI)
    fix bm d bm' d' assume d: "decayNode (ComputeNode ty out children param) (bm, d) = Returns (bm', d')" "built_ok bm" "live d"
    let ?n = "ComputeNode ty out children param"
    show "built_ok bm' \<and> live d' \<and> dom bm \<subseteq> dom bm' \<and> ?n \<in> dom bm'"
    proof (cases "bm ?n = None")
      case False
      then show ?thesis using d by auto
    next
      case True
      then obtain srcs b1 d1 spec where c: "decay_node_list (zip children (map decayNode children)) (bm(?n \<mapsto> out), d) = Returns (srcs, b1, d1)"
          "node_spec ty out srcs param = Returns spec" "bm' = b1" "d' = attach_new spec d1"
        using d(1) by (auto simp: obind_Returns_iff)
      have "\<forall>n\<in>set children. node_keeps n" using ComputeNode node by (auto simp: list_all_iff)
      moreover have "built_ok (bm(?n \<mapsto> out))" using d(2) by (auto simp: built_ok_def)
      ultimately have k: "srcs = map node_iu children" "built_ok b1" "live d1" "dom (bm(?n \<mapsto> out)) \<subseteq> dom b1"
        using node_list_keeps [OF _ c(1)] d(3) by blast+
      have "batch [spec]" using node [OF ComputeNode.prems] c(2) unfolding k(1) by blast
      then have "live (attach_all [spec] d1)" by (rule live_attach [OF k(3)])
      then have "live d'" by (simp add: c(4) attach_all_def)
      then show ?thesis using k(2,4) c(3) by auto
    qed
  qed
qed

text \<open>The operators.\<close>

lemma aggregation_live:
  assumes "batch (agg_build_ops p (fst (agg_hash_table p d)))" "batch (agg_read_ops p (fst (agg_hash_table p d)))" "live d"
  shows "live (Aggregation_decay p d)"
proof -
  obtain st d1 where h: "agg_hash_table p d = (st, d1)" by (cases "agg_hash_table p d")
  then have "live d1" using assms(3) live_state(1)
    by (simp add: agg_hash_table_def attachHashTableComplexKey_def attachHashTableSimpleKey_def split: if_splits)
  then have "live (attach_all (agg_build_ops p st) d1)" using assms(1) h by (intro live_attach) simp_all
  then have "live (attach_all (agg_read_ops p st) (buildNewPipeline (addRuntimeTask t (attach_all (agg_build_ops p st) d1))))" for t
    using dag_ok_new assms(2) h by (simp add: live_def live_task)
  then show ?thesis by (simp add: Aggregation_decay_def h Let_def)
qed

lemma join_live:
  assumes "op_ok (Join cs p)" "join_ok V W p" "decayPkJoin p left right d = Returns d'" "dag_ok d"
    and left: "\<And>d d'. left d = Returns d' \<Longrightarrow> dag_ok d \<Longrightarrow> live d'" and right: "\<And>d d'. right d = Returns d' \<Longrightarrow> dag_ok d \<Longrightarrow> live d'"
  shows "live d'"
proof -
  obtain mat d1 where 1: "attachTupleMaterializers 0 (key_size_left p + payload_size_left p) d = (mat, d1)"
    by (cases "attachTupleMaterializers 0 (key_size_left p + payload_size_left p) d")
  obtain ht d2 where 2: "attachAtomicHashTable 0 mat d1 = (ht, d2)" by (cases "attachAtomicHashTable 0 mat d1")
  have inner: "join_type p \<noteq> LeftOuter" "full_row_left p \<noteq> []" using assms(2) by (simp_all add: join_ok_def)
  note t = join [OF assms(1) inner(2)]
  have "dag_ok d2"
    using 1 2 live_state(2) assms(4) by (simp add: attachTupleMaterializers_def attachAtomicHashTable_def)
  obtain d3 where d3: "left d2 = Returns d3" using assms(3) by (auto simp: decayPkJoin_def Let_def 1 2 obind_Returns_iff)
  let ?d4 = "attach_all (join_build_ops p mat) d3"
  define t0 where "t0 = \<lparr> after_pipe = length (pipelines ?d4) - 1,
    task_function = BuildJoinTable (key_size_left p) (key_size_left p + payload_size_left p) mat ht \<rparr>"
  let ?d5 = "addRuntimeTask t0 ?d4"
  let ?d8 = "\<lambda>d6. with_rof_guard (attach_all (join_lookup_ops p ht)) (attach_all (join_pack_ops p) d6)"
  have "obind (right ?d5) (\<lambda>d6. let d8 = ?d8 d6 in
      obind (join_filter_ops p (next_addr d8)) (\<lambda>filters. Returns (attach_all (join_unpack_ops p) (attach_all filters d8)))) = Returns d'"
    using assms(3) inner(1) unfolding decayPkJoin_def Let_def 1 2 prod.case d3 obind.simps t0_def by (simp add: join_continuation_def)
  then obtain d6 fs where d6: "right ?d5 = Returns d6"
      and f: "join_filter_ops p (next_addr (?d8 d6)) = Returns fs" "d' = attach_all (join_unpack_ops p) (attach_all fs (?d8 d6))"
    by (auto simp: obind_Returns_iff Let_def)
  have "live d3" by (rule left [OF d3 \<open>dag_ok d2\<close>])
  then have "live ?d5" using t by (simp add: live_task live_attach)
  then have "live d6" by (intro right [OF d6]) (simp add: live_def)
  moreover have "fs \<noteq> []" using f(1) by (auto simp: join_filter_ops_def filter_specs_def obind_Returns_iff split: if_splits)
  moreover have "join_pack_ops p \<noteq> []" by (simp add: join_pack_ops_def)
  ultimately have "live (attach_all fs (?d8 d6))" using t f(1) by (intro live_guarded) blast+
  then show ?thesis unfolding f(2) by (rule live_attach) (use t in blast)
qed

lemma op_decays_live:
  "op_ok r \<Longrightarrow> wf_op r \<Longrightarrow> decay r d = Returns d' \<Longrightarrow> dag_ok d \<Longrightarrow> live d'"
proof (induction r arbitrary: d d')
  case (TableScan nm n cols)
  have "d' = attach_all (scan_ops nm (next_addr (buildNewPipeline d)) n cols) (buildNewPipeline d)"
    using TableScan.prems(3) by (simp add: TableScan_decay_def Let_def)
  then show ?case using dag_ok_new [OF TableScan.prems(4) scan [OF TableScan.prems(1)]] by simp
next
  case (Filter cs filter_iu pseudo to_redefine redefined)
  then obtain c where c: "cs = [c]" by (auto simp: length_Suc_conv)
  obtain d1 ops where d1: "decay c d = Returns d1" "filter_ops (next_addr d1) filter_iu pseudo to_redefine redefined = Returns ops" "d' = attach_all ops d1"
    using Filter.prems(3) by (auto simp: Filter_decay_def c obind_Returns_iff)
  have "live d1" using Filter.IH [OF _ _ _ d1(1)] Filter.prems c filters [OF Filter.prems(1)] by simp
  then show ?case unfolding d1(3) using filters [OF Filter.prems(1)] d1(2) by (intro live_attach) blast+
next
  case (ExpressionOp cs out)
  then obtain c where c: "cs = [c]" by (auto simp: length_Suc_conv)
  obtain d1 roots b where d1: "decay c d = Returns d1" "decay_node_list (zip out (map decayNode out)) (Map.empty, d1) = Returns (roots, b, d')"
    using ExpressionOp.prems(3) by (auto simp: ExpressionOp_decay_def c obind_Returns_iff)
  have "live d1" using ExpressionOp.IH [OF _ _ _ d1(1)] ExpressionOp.prems c expression [OF ExpressionOp.prems(1)] by simp
  moreover have "\<forall>n\<in>set out. node_keeps n" using expression [OF ExpressionOp.prems(1)] node_ok_keeps by (simp add: list_all_iff)
  ultimately show ?case using node_list_keeps [OF _ d1(2)] by (simp add: built_ok_def)
next
  case (Aggregation cs p)
  then obtain c where c: "cs = [c]" by (auto simp: length_Suc_conv)
  obtain d1 where d1: "decay c d = Returns d1" "d' = Aggregation_decay p d1"
    using Aggregation.prems(3) by (auto simp: c obind_Returns_iff)
  have "agg_ok (visible c) p" using Aggregation.prems(2) c by simp
  note agg = aggregation [OF Aggregation.prems(1) this]
  have "live d1" using Aggregation.IH [OF _ _ _ d1(1)] Aggregation.prems c agg by simp
  then show ?case unfolding d1(2) using agg by (intro aggregation_live) blast+
next
  case (Join cs p)
  then obtain l r where c: "cs = [l, r]" by (auto simp: length_Suc_conv numeral_2_eq_2)
  have "decayPkJoin p (decay l) (decay r) d = Returns d'"
    using Join.prems(3) by (simp add: c Join_decay_def split: if_splits)
  moreover have jok: "join_ok (visible l) (visible r) p" using Join.prems c by simp
  moreover have "list_all op_ok cs" using join [OF Join.prems(1)] jok by (simp add: join_ok_def)
  moreover from this have "live e'" if "decay l e = Returns e'" "dag_ok e" for e e'
    using Join.IH [OF _ _ _ that] Join.prems(1,2) c by simp
  moreover from calculation(3) have "live e'" if "decay r e = Returns e'" "dag_ok e" for e e'
    using Join.IH [OF _ _ _ that] Join.prems(1,2) c by simp
  ultimately show ?case using join_live [OF Join.prems(1)] Join.prems(4) by blast
qed simp

lemma plan_pipes:
  assumes "wf_plan a (Print cs ius colnames limit)" "list_all op_ok cs" "QueryControlBlock a (Print cs ius colnames limit) = Returns d"
  shows "list_all (\<lambda>p. ops_ok (suboperators p)) (pipelines d)"
proof -
  obtain c where c: "cs = [c]" "wf_op c" using assms(1) by (auto simp: wf_plan_def split: list.splits)
  let ?sinks = "map (\<lambda>i. (FuseChunkSink, [], [i])) ius"
  obtain d1 q where d1: "decay c (PipelineDAG a) = Returns d1"
      "setPrettyPrinter (getCurrentPipeline (attach_all ?sinks d1)) ius = Returns q" "d = on_current (\<lambda>_. q) (attach_all ?sinks d1)"
    using assms(3) by (auto simp: QueryControlBlock_def Print_decay_def c(1) obind_Returns_iff Let_def)
  have "dag_ok (PipelineDAG a)" by (simp add: PipelineDAG_def dag_ok_def)
  then have l1: "live d1" using op_decays_live [OF _ c(2) d1(1)] assms(2) c(1) by simp
  then have l: "live (attach_all ?sinks d1)" using sinks by (rule live_attach)
  have rest: "\<forall>p\<in>set (butlast (pipelines d1)). ops_ok (suboperators p)"
    using l1 by (auto simp: live_def dag_ok_def dest: in_set_butlastD)
  have q: "suboperators q = suboperators (last (pipelines (attach_all ?sinks d1)))"
    using d1(2) by (auto simp: setPrettyPrinter_def getCurrentPipeline_def split: if_splits)
  have "ops_ok (suboperators p)" if "p \<in> set (pipelines d)" for p
    using that l q rest unfolding d1(3) live_def dag_ok_def on_current_def by auto
  then show ?thesis by (simp add: list_all_iff)
qed

end

end
