(* ===== verification/Typed_Plans.thy ===== *)
theory Typed_Plans
  imports Typed_Subops Plan_Induct
begin

text \<open>
  Plans over columns of the types that the fragmentizers know: every suboperator that such a plan decays into is typed, so the
  interpreter finds a fragment of the right shape for each of them.
\<close>

section \<open>Typed plans\<close>

definition value_iu :: "iu \<Rightarrow> bool" where
  "value_iu i \<longleftrightarrow> value_type (iu_type i)"

primrec node_typed :: "expr_node \<Rightarrow> bool" where
  "node_typed (IURefNode child) = True"
| "node_typed (ComputeNode ty out children param) = (list_all node_typed children \<and>
     (case param of None \<Rightarrow> expr_typed ty [out] (map node_iu children) | Some v \<Rightarrow> runtime_typed ty (getType v) [out] (map node_iu children)))"

definition agg_plan_typed :: "agg_plan \<Rightarrow> bool" where
  "agg_plan_typed p \<longleftrightarrow> list_all value_iu (group_by p @ out_key_ius p) \<and> list_all is_void (pseudo_ius p) \<and> distinct (pseudo_ius p) \<and>
     row_type (iu_type (packed_ht_key p)) \<and> iu_type (agg_pointer_result p) = char_ptr \<and> iu_type (ht_scan_result p) = char_ptr \<and>
     (if length (group_by p) = 1 then iu_type (hd (group_by p)) = StringT \<longleftrightarrow> requires_complex_ht p else \<not> requires_complex_ht p) \<and>
     list_all (\<lambda>(i, g). agg_typed g (iu_type i)) (granules p) \<and>
     list_all (\<lambda>((c, offs), o1). reader_typed c (iu_type o1)) (zip (compute p) (out_aggregate_ius p))"

definition join_plan_typed :: "join_plan \<Rightarrow> bool" where
  "join_plan_typed p \<longleftrightarrow> list_all value_iu (full_row_left p @ keys_right p @ payload_right p @ join_output p) \<and>
     list_all is_void (filter_pseudo_iu p # right_pseudo_ius p) \<and> distinct (right_pseudo_ius p) \<and>
     row_type (iu_type (scratch_pad_right p)) \<and> scratch_pad_right p \<noteq> lookup_right p \<and> iu_type (hash_right p) = UnsignedInt 8 \<and>
     list_all (\<lambda>i. iu_type i = char_ptr) [lookup_left p, lookup_right p, filtered_build p, filtered_probe p]"

primrec typed_op :: "relop \<Rightarrow> bool" where
  "typed_op (TableScan nm n cols) = list_all (\<lambda>(col, i). value_iu i) cols"
| "typed_op (Filter cs filter_iu pseudo to_redefine redefined) = (list_all typed_op cs \<and> iu_type filter_iu = Bool \<and> is_void pseudo \<and>
     list_all (\<lambda>i. i \<noteq> filter_iu \<and> value_iu i) to_redefine \<and> map iu_type redefined = map iu_type to_redefine)"
| "typed_op (ExpressionOp cs out) = (list_all typed_op cs \<and> list_all node_typed out)"
| "typed_op (Aggregation cs p) = (list_all typed_op cs \<and> agg_plan_typed p)"
| "typed_op (Join cs p) = (list_all typed_op cs \<and> join_plan_typed p)"
| "typed_op (Print cs ius colnames limit) = False"

section \<open>Typed pipelines\<close>

definition typed_in :: "subop set \<Rightarrow> subop \<Rightarrow> bool" where
  "typed_in ops s \<longleftrightarrow> (if incomingStrongLinks s then \<exists>t\<in>ops. hd (source_ius s) \<in> set (provided_ius t) \<and> typed (Some t) s else typed None s)"

definition typed_ops :: "subop list \<Rightarrow> bool" where
  "typed_ops ops \<longleftrightarrow> (\<forall>s\<in>set ops. typed_in (set ops) s)"

lemma typed_ops_append: "typed_ops xs \<Longrightarrow> typed_ops ys \<Longrightarrow> typed_ops (xs @ ys)"
  unfolding typed_ops_def typed_in_def by fastforce

definition typed_specs :: "subop_spec list \<Rightarrow> bool" where
  "typed_specs specs \<longleftrightarrow> typed_ops (map (make_subop 0) specs)"

definition same_class :: "subop \<Rightarrow> subop \<Rightarrow> bool" where
  "same_class s t \<longleftrightarrow> kind s = kind t \<and> provided_ius s = provided_ius t \<and> source_ius s = source_ius t"

lemma typed_class:
  assumes "same_class s s'"
  shows "typed None s \<longleftrightarrow> typed None s'" "same_class t t' \<Longrightarrow> typed (Some t) s \<longleftrightarrow> typed (Some t') s'"
proof -
  have "scan_typed (Some t) = scan_typed (Some t')" if "same_class t t'"
    using that by (intro ext) (simp add: scan_typed_def same_class_def)
  moreover have "filter_typed (Some t) = filter_typed (Some t')" if "same_class t t'"
    using that by (intro ext) (simp add: filter_typed_def same_class_def split del: if_split)
  ultimately show "typed None s \<longleftrightarrow> typed None s'" "same_class t t' \<Longrightarrow> typed (Some t) s \<longleftrightarrow> typed (Some t') s'"
    using assms by (simp_all add: typed_def same_class_def split: subop_kind.split)
qed

lemma typed_ops_same: "typed_ops xs \<Longrightarrow> list_all2 same_class xs ys \<Longrightarrow> typed_ops ys"
  unfolding typed_ops_def
proof
  fix s assume ok: "\<forall>s\<in>set xs. typed_in (set xs) s" and l: "list_all2 same_class xs ys" and s: "s \<in> set ys"
  obtain n where n: "n < length ys" "s = ys ! n" using s by (metis in_set_conv_nth)
  let ?x = "xs ! n"
  have x: "?x \<in> set xs" "same_class ?x s" using n l by (auto simp: list_all2_conv_all_nth)
  then have t: "typed_in (set xs) ?x" using ok by blast
  have strong: "incomingStrongLinks ?x \<longleftrightarrow> incomingStrongLinks s" using x(2) by (simp add: same_class_def incomingStrongLinks_def)
  show "typed_in (set ys) s"
  proof (cases "incomingStrongLinks s")
    case False
    then show ?thesis using t strong typed_class(1) [OF x(2)] by (simp add: typed_in_def)
  next
    case True
    then obtain u where u: "u \<in> set xs" "hd (source_ius ?x) \<in> set (provided_ius u)" "typed (Some u) ?x" using t strong by (auto simp: typed_in_def)
    then obtain v where v: "v \<in> set ys" "same_class u v" using l by (metis in_set_conv_nth list_all2_conv_all_nth)
    then have "typed (Some v) s" using u(3) typed_class(2) [OF x(2)] by blast
    then show ?thesis using u(2) v x(2) True by (auto simp: typed_in_def same_class_def)
  qed
qed

lemma typed_number: "typed_specs specs \<Longrightarrow> typed_ops (number make_subop a specs)"
proof -
  have "list_all2 same_class (map (make_subop 0) specs) (number make_subop a specs)"
    by (induction specs arbitrary: a) (auto simp: same_class_def make_subop_def split: prod.splits)
  then show "typed_specs specs \<Longrightarrow> ?thesis" unfolding typed_specs_def using typed_ops_same by blast
qed

section \<open>Typed batches\<close>

definition typed_weak :: "subop_spec \<Rightarrow> bool" where
  "typed_weak spec \<longleftrightarrow> \<not> strong_kind (fst spec) \<and> typed None (make_subop 0 spec)"

lemma typed_specs_append: "typed_specs xs \<Longrightarrow> typed_specs ys \<Longrightarrow> typed_specs (xs @ ys)"
  by (simp add: typed_specs_def typed_ops_append)

lemma typed_specs_weak: "list_all typed_weak specs \<Longrightarrow> typed_specs specs"
  by (auto simp: typed_specs_def typed_ops_def typed_in_def list_all_iff typed_weak_def incomingStrongLinks_def strong_kind_def make_subop_def
      split: prod.splits subop_kind.splits)

lemmas typed_weak_simps = typed_weak_def strong_kind_def typed_def make_subop_def

lemma typed_pack:
  "list_all (\<lambda>(key, pseudo). value_iu key \<and> list_all is_void pseudo) kps \<Longrightarrow> row_type (iu_type t) \<Longrightarrow> list_all typed_weak (pack_ops t off kps)"
  by (induction t off kps rule: pack_ops.induct) (auto simp: typed_weak_simps value_iu_def)

lemma typed_unpack: "list_all value_iu outs \<Longrightarrow> row_type (iu_type t) \<Longrightarrow> list_all typed_weak (unpack_ops t off outs)"
  by (induction t off outs rule: unpack_ops.induct) (auto simp: typed_weak_simps value_iu_def)

lemma typed_aggregate:
  "list_all (\<lambda>(i, g). agg_typed g (iu_type i)) gs \<Longrightarrow> iu_type t = char_ptr \<Longrightarrow> list_all typed_weak (aggregate_ops t off gs)"
  by (induction t off gs rule: aggregate_ops.induct) (auto simp: typed_weak_simps)

lemma typed_scan: "list_all (\<lambda>(col, i). value_iu i) cols \<Longrightarrow> typed_specs (scan_ops nm a n cols)"
  by (auto simp: typed_specs_def typed_ops_def typed_in_def scan_ops_def Let_def make_subop_def incomingStrongLinks_def typed_def scan_typed_def
      list_all_iff value_iu_def)

lemma singleton_voids: "list_all is_void ps \<Longrightarrow> list_all value_iu ks \<Longrightarrow>
  list_all (\<lambda>(key, pseudo). value_iu key \<and> list_all is_void pseudo) (zip ks (map (\<lambda>i. [i]) ps))"
  by (auto simp: list_all_iff in_set_zip)

lemma typed_lookup_or_insert:
  assumes "ID = ''sk'' \<and> key_type (iu_type key) \<or> ID = ''ck'' \<and> iu_type key = StringT" "iu_type ptr = char_ptr" "list_all is_void ps" "distinct ps"
  shows "typed_weak (htLookupOrInsert ID (Some ptr) key ps st)"
  using assms by (auto simp: htLookupOrInsert_def typed_weak_simps)

lemma typed_agg_build:
  assumes "agg_plan_typed p" "agg_ok V p"
  shows "typed_specs (agg_build_ops p st)"
proof -
  note p = assms(1) [unfolded agg_plan_typed_def]
  obtain packed packers where k: "agg_pack_key p = (packed, packers)" by (cases "agg_pack_key p")
  have groups: "list_all value_iu (group_by p)" using p by simp
  have pack: "list_all typed_weak packers"
    using k p typed_pack [OF singleton_voids [OF _ groups], of "pseudo_ius p" "packed_ht_key p" 0]
    by (auto simp: agg_pack_key_def split: if_splits) (simp add: typed_weak_simps)
  have key: "if requires_complex_ht p then iu_type packed = StringT else key_type (iu_type packed)"
  proof (cases "length (group_by p) = 1")
    case True
    then obtain g where g: "group_by p = [g]" by (auto simp: length_Suc_conv)
    then have "packed = g" "value_type (iu_type g)" using k groups by (simp_all add: agg_pack_key_def value_iu_def)
    then show ?thesis using p g by (auto simp: value_type_def key_type_def)
  next
    case False
    then show ?thesis using k p by (auto simp: agg_pack_key_def key_type_def)
  qed
  have "typed_weak (agg_lookup p st packed)"
  proof (cases "key_size p = 0")
    case False
    then show ?thesis using key p by (auto simp: agg_lookup_def intro!: typed_lookup_or_insert)
  next
    case True
    obtain i g gs where g: "granules p = (i, g) # gs" using assms(2) by (cases "granules p") (auto simp: agg_ok_def)
    then have "agg_typed g (iu_type i)" using p by simp
    then have "\<not> is_void i" using type_facts by (cases g) (auto simp: is_void_def)
    then show ?thesis using True g p by (simp add: agg_lookup_def htNoKeyLookup_def typed_weak_simps)
  qed
  moreover have "list_all typed_weak (aggregate_ops (agg_pointer_result p) off (granules p))" for off
    using p by (intro typed_aggregate) auto
  ultimately show ?thesis using pack k by (intro typed_specs_weak) (simp add: agg_build_ops_def)
qed

lemma typed_agg_read:
  assumes "agg_plan_typed p"
  shows "typed_specs (agg_read_ops p st)"
proof -
  note p = assms [unfolded agg_plan_typed_def]
  have "list_all typed_weak (map (reader_op (ht_scan_result p) (key_size p)) (zip (compute p) (out_aggregate_ius p)))"
    using p by (auto simp: list_all_iff reader_op_def typed_weak_simps)
  moreover have "list_all typed_weak (unpack_ops (ht_scan_result p) 0 (out_key_ius p))"
    using p type_facts(10) by (intro typed_unpack) auto
  moreover have "typed_weak (HashTableSource (if requires_complex_ht p then ''ck'' else ''sk'') st, [ht_scan_result p], [])"
    using p by (auto simp: typed_weak_simps)
  ultimately show ?thesis by (intro typed_specs_weak) (simp add: agg_read_ops_def)
qed

lemma typed_filter_specs:
  assumes "is_void pseudo" "iu_type filter_iu \<in> set condition_types"
    and "\<forall>l\<in>set logics. \<exists>self i r. l = (i, (ColumnFilterLogic (iu_type filter_iu) self, [r], [pseudo, i])) \<and>
      (if self then i = filter_iu \<and> iu_type r = iu_type filter_iu
       else i \<noteq> filter_iu \<and> \<not> is_void i \<and> (value_type (iu_type i) \<and> iu_type r = iu_type i \<or> row_type (iu_type i) \<and> iu_type r = char_ptr))"
  shows "typed_specs (filter_specs addr filter_iu pseudo logics)"
proof -
  let ?scope = "make_subop 0 (hd (filter_specs addr filter_iu pseudo logics))"
  let ?ops = "map (make_subop 0) (filter_specs addr filter_iu pseudo logics)"
  have scope: "?ops = ?scope # map (make_subop 0 \<circ> snd) logics" by (simp add: filter_specs_def)
  have s: "kind ?scope = ColumnFilterScope (map (\<lambda>(k, old_iu, l). (addr + 1 + k, old_iu)) (enumerate 0 logics))"
    "source_ius ?scope = [filter_iu]" "provided_ius ?scope = [pseudo]" by (simp_all add: filter_specs_def make_subop_def)
  have "typed_in (set ?ops) t" if t: "t \<in> set ?ops" for t
  proof (cases "t = ?scope")
    case True
    then show ?thesis using s(1) by (simp add: typed_in_def incomingStrongLinks_def typed_def Let_def)
  next
    case False
    then obtain l where l: "l \<in> set logics" "t = make_subop 0 (snd l)" using t unfolding scope by auto
    then obtain self i r where e: "l = (i, (ColumnFilterLogic (iu_type filter_iu) self, [r], [pseudo, i]))"
      "if self then i = filter_iu \<and> iu_type r = iu_type filter_iu
       else i \<noteq> filter_iu \<and> \<not> is_void i \<and> (value_type (iu_type i) \<and> iu_type r = iu_type i \<or> row_type (iu_type i) \<and> iu_type r = char_ptr)"
      using assms(3) by blast
    have t': "kind t = ColumnFilterLogic (iu_type filter_iu) self" "source_ius t = [pseudo, i]" "provided_ius t = [r]"
      using l(2) e(1) by (simp_all add: make_subop_def)
    have "filter_typed (Some ?scope) (iu_type filter_iu) self [r] [pseudo, i]"
      unfolding filter_typed_def using s assms(1,2) e(2) by (intro exI [of _ ?scope]) auto
    then have "typed (Some ?scope) t" using t' by (simp add: typed_def)
    moreover have "?scope \<in> set ?ops" unfolding scope by simp
    ultimately have "\<exists>u\<in>set ?ops. hd (source_ius t) \<in> set (provided_ius u) \<and> typed (Some u) t"
      using t'(2) s(3) by (intro bexI [of _ ?scope]) simp_all
    moreover have "incomingStrongLinks t" using t'(1) by (simp add: incomingStrongLinks_def)
    ultimately show ?thesis unfolding typed_in_def by simp
  qed
  then show ?thesis by (simp add: typed_specs_def typed_ops_def)
qed

lemma value_no_bytes: "value_iu i \<Longrightarrow> no_bytes i"
  by (auto simp: value_iu_def value_type_def plain_type_def type_list_defs no_bytes_def split: irtype.splits)

lemma typed_filter_ops:
  assumes "filter_ops addr filter_iu pseudo to_redefine redefined = Returns specs" "is_void pseudo" "iu_type filter_iu = Bool"
    and "list_all (\<lambda>i. i \<noteq> filter_iu \<and> value_iu i) to_redefine" "map iu_type redefined = map iu_type to_redefine"
  shows "typed_specs specs"
proof -
  let ?l = "\<lambda>(i, r). (ColumnFilterLogic Bool False, [r], [pseudo, i])"
  let ?ls = "zip to_redefine (map ?l (zip to_redefine redefined))"
  have len: "length redefined = length to_redefine" using assms(5) by (rule map_eq_imp_length_eq)
  have "map_outcome (\<lambda>(i, r). ColumnFilterLogic_build pseudo i r Bool False) (zip to_redefine redefined) = Returns (map ?l (zip to_redefine redefined))"
    using assms(4) value_no_bytes by (intro map_outcome_pairs) (auto simp: list_all_iff dest!: set_zip_leftD intro!: filter_logic_build)
  then have specs: "specs = filter_specs addr filter_iu pseudo ?ls" using assms(1) by (simp add: filter_ops_def)
  show ?thesis unfolding specs
  proof (rule typed_filter_specs [OF assms(2)])
    show "iu_type filter_iu \<in> set condition_types" by (simp add: assms(3) condition_types_def)
    show "\<forall>l\<in>set ?ls. \<exists>self i r. l = (i, (ColumnFilterLogic (iu_type filter_iu) self, [r], [pseudo, i])) \<and>
      (if self then i = filter_iu \<and> iu_type r = iu_type filter_iu
       else i \<noteq> filter_iu \<and> \<not> is_void i \<and> (value_type (iu_type i) \<and> iu_type r = iu_type i \<or> row_type (iu_type i) \<and> iu_type r = char_ptr))"
    proof
      fix l assume "l \<in> set ?ls"
      then obtain n where n: "n < length to_redefine" "l = (to_redefine ! n, ColumnFilterLogic Bool False, [redefined ! n], [pseudo, to_redefine ! n])"
        using len by (auto simp: in_set_conv_nth)
      then have "to_redefine ! n \<noteq> filter_iu" "value_type (iu_type (to_redefine ! n))"
        using assms(4) by (auto simp: list_all_length value_iu_def)
      moreover have "iu_type (redefined ! n) = iu_type (to_redefine ! n)" using assms(5) n(1) len by (metis nth_map)
      ultimately show "\<exists>self i r. l = (i, (ColumnFilterLogic (iu_type filter_iu) self, [r], [pseudo, i])) \<and>
        (if self then i = filter_iu \<and> iu_type r = iu_type filter_iu
         else i \<noteq> filter_iu \<and> \<not> is_void i \<and> (value_type (iu_type i) \<and> iu_type r = iu_type i \<or> row_type (iu_type i) \<and> iu_type r = char_ptr))"
        using n(2) assms(3) type_facts(4) by (intro exI [of _ False] exI) (auto simp: is_void_def)
    qed
  qed
qed

lemma typed_join:
  assumes "join_plan_typed p" "full_row_left p \<noteq> []"
  shows "typed_specs (join_build_ops p mat)" "typed_specs (join_pack_ops p)" "typed_specs (join_lookup_ops p ht)"
    "join_filter_ops p addr = Returns specs \<Longrightarrow> typed_specs specs" "typed_specs (join_unpack_ops p)"
proof -
  note p = assms(1) [unfolded join_plan_typed_def]
  have v: "list_all value_iu (full_row_left p)" "list_all value_iu (keys_right p @ payload_right p)"
    "list_all value_iu (keys_left_out p @ payload_left_out p)" "list_all value_iu (keys_right_out p @ payload_right_out p)"
    using p by (simp_all add: join_output_def)
  have ptr: "row_type (iu_type (lookup_left p))" "row_type (iu_type (filtered_build p))" "row_type (iu_type (filtered_probe p))"
    using p type_facts(10) by simp_all
  show "typed_specs (join_build_ops p mat)"
  proof -
    obtain i "is" where i: "full_row_left p = i # is" "\<not> is_void i"
      using assms(2) v(1) type_facts(4) by (cases "full_row_left p") (auto simp: value_iu_def is_void_def)
    have "typed_weak (materializeTuple (lookup_left p) (full_row_left p) mat)"
      using i p by (simp add: materializeTuple_def typed_weak_simps)
    moreover have "list_all typed_weak (pack_ops (lookup_left p) 0 (map (\<lambda>i. (i, [])) (full_row_left p)))"
      using v(1) ptr(1) by (intro typed_pack) (auto simp: list_all_iff)
    ultimately show ?thesis by (intro typed_specs_weak) (simp add: join_build_ops_def)
  qed
  have "list_all typed_weak (pack_ops (scratch_pad_right p) 0 (zip (keys_right p @ payload_right p) (map (\<lambda>i. [i]) (right_pseudo_ius p))))"
    using p v(2) by (intro typed_pack singleton_voids) simp_all
  moreover have "typed_weak (ScratchPadIUProvider, [scratch_pad_right p], [])" by (simp add: typed_weak_simps)
  ultimately show "typed_specs (join_pack_ops p)" by (intro typed_specs_weak) (simp add: join_pack_ops_def)
  have k: "key_type (iu_type (scratch_pad_right p))" using p by (simp add: key_type_def)
  let ?f = "''ht_at_sk_compute_hash_and_prefetch'' @ (if Some (key_size_left p) = Some 4 then ''_fixed_4'' else if Some (key_size_left p) = Some 8 then ''_fixed_8'' else [])"
  have "hash_function ?f"
  proof (cases "key_size_left p = 4 \<or> key_size_left p = 8")
    case True
    then show ?thesis unfolding hash_function_def by (intro bexI [of _ "Some (key_size_left p)"]) auto
  next
    case False
    then show ?thesis unfolding hash_function_def by (intro bexI [of _ None]) auto
  qed
  then have "typed_weak (htHashAndPrefetch ''at_sk'' (hash_right p) (scratch_pad_right p) (right_pseudo_ius p) (Some (key_size_left p)) ht)"
    using p k by (simp add: htHashAndPrefetch_def typed_weak_def strong_kind_def typed_def make_subop_def)
  moreover have "lookup_function (''ht_at_sk_lookup_with_hash'' @ (if join_type p = LeftSemi then ''_disable'' else []))"
    unfolding lookup_function_def by (intro bexI [of _ "join_type p = LeftSemi"]) auto
  then have "typed_weak (htLookupWithHash ''at_sk'' (join_type p = LeftSemi) (lookup_right p) (scratch_pad_right p) (hash_right p) None ht)"
    using p by (simp add: htLookupWithHash_def typed_weak_def strong_kind_def typed_def make_subop_def)
  ultimately show "typed_specs (join_lookup_ops p ht)" by (intro typed_specs_weak) (simp add: join_lookup_ops_def)
  show "typed_specs specs" if "join_filter_ops p addr = Returns specs"
  proof -
    have void: "is_void (filter_pseudo_iu p)" and c: "iu_type (lookup_right p) \<in> set condition_types"
      using p by (simp_all add: condition_types_def char_ptr_def)
    have nb: "no_bytes (lookup_right p)" using p by (simp add: no_bytes_def char_ptr_def)
    have nv: "\<not> is_void (scratch_pad_right p)" using p type_facts(6) by (auto simp: is_void_def)
    show ?thesis
    proof (cases "join_type p = LeftSemi")
      case True
      then have "specs = filter_specs addr (lookup_right p) (filter_pseudo_iu p)
          [(lookup_right p, (ColumnFilterLogic (iu_type (lookup_right p)) True, [filtered_build p], [filter_pseudo_iu p, lookup_right p]))]"
        using that nb by (simp add: join_filter_ops_def filter_logic_build)
      then show ?thesis using p void c by (auto intro!: typed_filter_specs)
    next
      case False
      then have "specs = filter_specs addr (lookup_right p) (filter_pseudo_iu p)
          [(lookup_right p, (ColumnFilterLogic (iu_type (lookup_right p)) True, [filtered_build p], [filter_pseudo_iu p, lookup_right p])),
           (scratch_pad_right p, (ColumnFilterLogic (iu_type (lookup_right p)) False, [filtered_probe p], [filter_pseudo_iu p, scratch_pad_right p]))]"
        using that nb p by (simp add: join_filter_ops_def filter_logic_build)
      then show ?thesis using p void c nv
        by (auto intro!: typed_filter_specs) blast+
    qed
  qed
  show "typed_specs (join_unpack_ops p)"
    using typed_unpack [OF v(3) ptr(2)] typed_unpack [OF v(4) ptr(3)] by (intro typed_specs_weak) (simp add: join_unpack_ops_def)
qed

section \<open>Decaying typed plans\<close>

lemma typed_guarded:
  assumes "typed_ops ops" "typed_specs (join_lookup_ops p ht)" "typed_specs fs" "suboperators q = ops @ number make_subop a (join_lookup_ops p ht)"
  shows "typed_ops (suboperators (ROFScopeGuard_end n q) @ number make_subop b fs)"
proof (rule typed_ops_append)
  have "typed_ops (suboperators q)" unfolding assms(4) by (intro typed_ops_append typed_number assms)
  then show "typed_ops (suboperators (ROFScopeGuard_end n q))"
    by (rule typed_ops_same) (use rof_same [of q n] in \<open>auto simp: list_all2_conv_all_nth same_class_def same_subop_def\<close>)
qed (rule typed_number [OF assms(3)])

interpretation typed_pipes: pipeline_property typed_ops typed_specs node_typed typed_op
proof
  show "typed_ops []" by (simp add: typed_ops_def)
  show "typed_ops (ops @ number make_subop a specs)" if "typed_ops ops" "typed_specs specs" for ops specs a
    by (intro typed_ops_append typed_number that)
  show "typed_ops (suboperators (ROFScopeGuard_end (length ops) q) @ number make_subop b fs)"
    if "typed_ops ops" "typed_specs (join_lookup_ops p ht)" "typed_specs fs" "suboperators q = ops @ number make_subop a (join_lookup_ops p ht)"
    for ops p ht fs q a b
    by (rule typed_guarded [OF that])
  show "typed_specs (map (\<lambda>i. (FuseChunkSink, [], [i])) ius)" for ius
    by (rule typed_specs_weak) (simp add: list_all_iff typed_weak_simps)
  show "list_all node_typed children \<and> (\<forall>spec. node_spec ty out (map node_iu children) param = Returns spec \<longrightarrow> typed_specs [spec])"
    if "node_typed (ComputeNode ty out children param)" for ty out children param
    using that by (cases param) (auto simp: node_spec_def typed_weak_simps list_all_iff split: if_splits intro!: typed_specs_weak)
  show "typed_specs (scan_ops nm addr n cols)" if "typed_op (TableScan nm n cols)" for nm n cols addr
    using that by (intro typed_scan) simp
  show "list_all typed_op cs \<and> (\<forall>addr specs. filter_ops addr filter_iu pseudo to_redefine redefined = Returns specs \<longrightarrow> typed_specs specs)"
    if "typed_op (Filter cs filter_iu pseudo to_redefine redefined)" for cs filter_iu pseudo to_redefine redefined
    using that typed_filter_ops by auto
  show "list_all typed_op cs \<and> list_all node_typed out" if "typed_op (ExpressionOp cs out)" for cs out
    using that by simp
  show "list_all typed_op cs \<and> typed_specs (agg_build_ops p st) \<and> typed_specs (agg_read_ops p st)"
    if "typed_op (Aggregation cs p)" "agg_ok V p" for cs p V st
    using that typed_agg_build typed_agg_read by auto
  show "list_all typed_op cs \<and> typed_specs (join_build_ops p st) \<and> typed_specs (join_pack_ops p) \<and> typed_specs (join_lookup_ops p st) \<and>
      (\<forall>addr specs. join_filter_ops p addr = Returns specs \<longrightarrow> typed_specs specs) \<and> typed_specs (join_unpack_ops p)"
    if "typed_op (Join cs p)" "full_row_left p \<noteq> []" for cs p st
    using that typed_join [of p] by auto
qed

section \<open>Interpreting a plan\<close>

lemma typed_pipe_runs:
  assumes "finished p" "typed_ops (suboperators p)" "s \<in> set (suboperators p)" "interpreted s"
  shows "runs (partner (suboperators p) s) s"
proof -
  have b: "built (suboperators p)" using assms(1) by (simp add: finished_def)
  obtain pre post where d: "suboperators p = pre @ s # post" using assms(3) by (metis in_set_conv_decomp)
  have "set (source_ius s) \<subseteq> provs pre" "provs pre \<inter> set (provided_ius s) = {}"
    using b unfolding d by (auto simp: built_def deps_met_append ssa_append)
  then have disj: "set (source_ius s) \<inter> set (provided_ius s) = {}" by blast
  have t: "typed_in (set (suboperators p)) s" using assms(2,3) by (simp add: typed_ops_def)
  show ?thesis
  proof (cases "incomingStrongLinks s")
    case False
    then have "partner (suboperators p) s = None" "typed None s" using t by (simp_all add: partner_def typed_in_def)
    then show ?thesis using typed_runs [OF _ assms(4) disj] False by simp
  next
    case True
    then obtain u where u: "u \<in> set (suboperators p)" "hd (source_ius s) \<in> set (provided_ius u)" "typed (Some u) s"
      using t by (auto simp: typed_in_def)
    then obtain v where v: "find (\<lambda>t. hd (source_ius s) \<in> set (provided_ius t)) (suboperators p) = Some v"
      by (cases "find (\<lambda>t. hd (source_ius s) \<in> set (provided_ius t)) (suboperators p)") (auto simp: find_None_iff)
    then have "v \<in> set (suboperators p)" "hd (source_ius s) \<in> set (provided_ius v)" by (auto simp: find_Some_iff)
    then have "v = u" using u b ssa_provider_unique [of "suboperators p" v u "hd (source_ius s)"] by (simp add: built_def)
    then show ?thesis using typed_runs [OF _ assms(4) disj] u(3) v True by (simp add: partner_def)
  qed
qed

definition interpreted_ops :: "pipeline \<Rightarrow> nat list" where
  "interpreted_ops p = filter (\<lambda>k. interpreted (suboperators p ! k)) [0..<length (suboperators p)]"

lemma map_outcome_all2:
  "(\<And>x. x \<in> set xs \<Longrightarrow> \<exists>y. f x = Returns y \<and> P x y) \<Longrightarrow> \<exists>ys. map_outcome f xs = Returns ys \<and> list_all2 P xs ys"
proof (induction xs)
  case (Cons x xs)
  then obtain y ys where "f x = Returns y" "P x y" "map_outcome f xs = Returns ys" "list_all2 P xs ys" by (meson list.set_intros)
  then show ?case by (intro exI [of _ "y # ys"]) simp
qed simp

lemma typed_pipe_interpreted:
  assumes "finished p" "typed_ops (suboperators p)" "set_order_perm so"
  shows "\<exists>rs. setUpInterpreted so fresh p = Returns rs \<and>
    list_all2 (\<lambda>k r. aligned (suboperators p ! k) (run_pipe r) (fragment_of r)) (interpreted_ops p) rs"
  unfolding setUpInterpreted_def interpreted_ops_def [symmetric]
proof (rule map_outcome_all2)
  fix k assume "k \<in> set (interpreted_ops p)"
  then have k: "k < length (suboperators p)" "interpreted (suboperators p ! k)" by (simp_all add: interpreted_ops_def)
  have "runs (partner (suboperators p) (suboperators p ! k)) (suboperators p ! k)"
    using k by (intro typed_pipe_runs [OF assms(1,2)]) simp_all
  then obtain specs where r: "(subop_id (suboperators p ! k), specs) \<in> set fragments"
      "matches (partner (suboperators p) (suboperators p ! k)) (suboperators p ! k) specs"
      "required_ius (partner (suboperators p) (suboperators p ! k)) [suboperators p ! k] = [] \<longrightarrow>
        isSource (hd (opt_list (partner (suboperators p) (suboperators p ! k)) @ [suboperators p ! k]))"
    unfolding runs_def by blast
  show "\<exists>r. InterpretedRunner so fresh p k = Returns r \<and> aligned (suboperators p ! k) (run_pipe r) (fragment_of r)"
    by (rule interpreter_of_match [OF assms(1) k(1) assms(3) k(2) r(2,1)]) (use r(3) in blast)
qed

lemma typed_plan_interpreted:
  assumes "wf_plan a (Print cs ius colnames limit)" "list_all typed_op cs" "set_order_perm so"
  shows "\<exists>d. QueryControlBlock a (Print cs ius colnames limit) = Returns d \<and>
    list_all (\<lambda>p. \<exists>rs. setUpInterpreted so fresh p = Returns rs \<and>
      list_all2 (\<lambda>k r. aligned (suboperators p ! k) (run_pipe r) (fragment_of r)) (interpreted_ops p) rs) (pipelines d)"
proof -
  obtain d where d: "QueryControlBlock a (Print cs ius colnames limit) = Returns d" "list_all finished (pipelines d)"
    using wf_plan_decays [OF assms(1)] by blast
  have "typed_ops (suboperators p)" if "p \<in> set (pipelines d)" for p
    using typed_pipes.plan_pipes [OF assms(1,2) d(1)] that by (simp add: list_all_iff)
  then show ?thesis using d typed_pipe_interpreted [OF _ _ assms(3)] by (intro exI [of _ d]) (simp add: list_all_iff)
qed

text \<open>
  C34. The interpreter can run every well-formed plan without outer joins over columns of the supported types in which no operator reads the
  same IU twice (see \<open>repeated_input_misaligned\<close> for those) and no filter redefines its own condition: it decays into a DAG for
  each of whose pipelines all interpreters are set up without an error, that is, a fragment with the id of the suboperator exists and
  the pipeline of its code has, position by position, the suboperators of the runner's pipeline, whose states it is called with (up
  to the type of inputs that the suboperator does not read).
\<close>
theorem plan_interpreted:
  assumes "wf_plan a (Print cs ius colnames limit)" "list_all typed_op cs" "set_order_perm so"
  shows "\<exists>d. QueryControlBlock a (Print cs ius colnames limit) = Returns d \<and>
    list_all (\<lambda>p. \<exists>rs. setUpInterpreted so fresh p = Returns rs \<and>
      list_all2 (\<lambda>k r. aligned (suboperators p ! k) (run_pipe r) (fragment_of r)) (interpreted_ops p) rs) (pipelines d)"
  by (rule typed_plan_interpreted [OF assms])

definition ex_plan_typed :: bool where
  "ex_plan_typed = (case ex_plan_root of Returns (Print cs ius colnames limit) \<Rightarrow> list_all typed_op cs | _ \<Rightarrow> False)"

lemma ex_plan_typed: "ex_plan_typed" by code_simp

theorem plan_interpreted_witness:
  "\<exists>cs ius colnames limit d. ex_plan_root = Returns (Print cs ius colnames limit) \<and>
     QueryControlBlock 100 (Print cs ius colnames limit) = Returns d \<and>
     list_all (\<lambda>p. \<exists>rs. setUpInterpreted id 1000 p = Returns rs \<and>
       list_all2 (\<lambda>k r. aligned (suboperators p ! k) (run_pipe r) (fragment_of r)) (interpreted_ops p) rs) (pipelines d)"
proof -
  obtain cs ius colnames limit where r: "ex_plan_root = Returns (Print cs ius colnames limit)" "list_all typed_op cs"
    using ex_plan_typed by (auto simp: ex_plan_typed_def split: outcome.splits relop.splits)
  moreover have "wf_plan 100 (Print cs ius colnames limit)" using ex_plan_wf unfolding ex_plan_wf_def r(1) by simp
  moreover have "set_order_perm id" by (simp add: set_order_perm_def)
  ultimately show ?thesis using plan_interpreted [of 100 cs ius colnames limit id 1000] by blast
qed

text \<open>
  The restrictions are needed: an operator that reads the same IU twice is run by a fragment with two column readers, whereas the
  runner's pipeline has one, so the fragment takes the operator's state for that of the second reader.
\<close>

lemma repeated_input_misaligned:
  "\<exists>r. InterpretedRunner id 10 (pipe_of [ex_driver, ex_scan, ex_expr, ex_sink]) 2 = Returns r \<and>
     length (suboperators (run_pipe r)) = 4 \<and> length (suboperators (fragment_of r)) = 5"
proof -
  let ?f = "(ExpressionSubop Add, [frag_iu 2 (UnsignedInt 8) []], [frag_iu 0 (UnsignedInt 8) [], frag_iu 1 (UnsignedInt 8) []])"
  have "single (ExpressionSubop Add, [frag_iu 2 (derive Add [UnsignedInt 8, UnsignedInt 8]) []], [frag_iu 0 (UnsignedInt 8) [], frag_iu 1 (UnsignedInt 8) []])
      \<in> set fragmentizeBinary"
    unfolding fragmentizeBinary_def by (simp add: type_list_defs expression_op_types_def)
  then have "single ?f \<in> set fragments"
    by (intro in_fragments(3)) (simp add: ExpressionFragmentizer_def derive_def bool_returning_def)
  then have "(subop_id ex_expr, [?f]) \<in> set fragments"
    by (simp add: single_def ex_defs subop_id_def under_ids_def iu_id_def)
  moreover have "\<exists>q. repipeAll id (10 + length [?f]) (fragment_pipe [?f]) 0 (length [?f]) = Returns q \<and> length (suboperators q) = 5"
    by (simp add: repipeAll_def fragment_pipe_def slice_def repipe_def strong_in_def strong_out_def repiped_ops_def fuse_chunk_sources_def
        required_ius_def scan_subop_def make_subop_def is_materialize_tuple_def incomingStrongLinks_def outgoingStrongLinks_def Let_def
        insert_new_def pipe_of_def Pipeline_def disallowParallelCodegen_def)
  ultimately obtain q where "getFragment id (subop_id ex_expr) = Some q" "length (suboperators q) = 5" using getFragment_of by metis
  then show ?thesis
    by (simp add: InterpretedRunner_def Let_def repipeAll_def slice_def repipe_def strong_in_def strong_out_def repiped_ops_def fuse_chunk_sources_def
        required_ius_def scan_subop_def is_materialize_tuple_def incomingStrongLinks_def outgoingStrongLinks_def insert_new_def is_void_def
        PipelineRunner_ok_def isSource_def isSink_def build_driver_def build_sink_def disallowParallelCodegen_def Pipeline_def ex_driver_def ex_scan_def ex_sink_def)
       (simp add: ex_defs is_void_def build_sink_def insert_new_def)
qed

end
