(* ===== verification/TPCH_Interpreted.thy ===== *)
theory TPCH_Interpreted
  imports TPCH_Props Typed_Plans
begin

text \<open>The TPC-H plans only use types that have fragments, so the interpreter runs them.\<close>

definition built_typed :: "built_plan outcome \<Rightarrow> bool" where
  "built_typed r = (case r of Returns (Print cs ius colnames limit, a) \<Rightarrow> list_all typed_op cs | _ \<Rightarrow> False)"

lemma q1_typed: "built_typed (q1 lib (tpch_catalog rows) 0)" by code_simp
lemma q3_typed: "built_typed (q3 lib (tpch_catalog rows) 0)" by code_simp
lemma q4_typed: "built_typed (q4 lib (tpch_catalog rows) 0)" by code_simp
lemma q5_typed: "built_typed (q5 lib (tpch_catalog rows) 0)" by code_simp
lemma q6_typed: "built_typed (q6 lib (tpch_catalog rows) 0)" by code_simp
lemma q14_typed: "built_typed (q14 lib (tpch_catalog rows) 0)" by code_simp
lemma q18_typed: "built_typed (q18 lib (tpch_catalog rows) 0)" by code_simp
lemma q19_typed: "built_typed (q19 lib (tpch_catalog rows) 0)" by code_simp
lemma q_bigjoin_typed: "built_typed (q_bigjoin lib (tpch_catalog rows) 0)" by code_simp
lemma l_count_typed: "built_typed (l_count lib (tpch_catalog rows) 0)" by code_simp
lemma l_point_typed: "built_typed (l_point lib (tpch_catalog rows) 0)" by code_simp

lemmas tpch_typed = q1_typed q3_typed q4_typed q5_typed q6_typed q14_typed q18_typed q19_typed q_bigjoin_typed l_count_typed l_point_typed

text \<open>Whatever the order in which the sets of IUs are iterated over and the addresses of new suboperators.\<close>

definition interpretable :: "built_plan outcome \<Rightarrow> bool" where
  "interpretable r \<longleftrightarrow> (\<exists>root a d. r = Returns (root, a) \<and> QueryControlBlock a root = Returns d \<and>
     (\<forall>so fresh. set_order_perm so \<longrightarrow> list_all (\<lambda>p. \<exists>rs. setUpInterpreted so fresh p = Returns rs \<and>
        list_all2 (\<lambda>k r. aligned (suboperators p ! k) (run_pipe r) (fragment_of r)) (interpreted_ops p) rs) (pipelines d)))"

lemma typed_interpretable: "built_wf r \<Longrightarrow> built_typed r \<Longrightarrow> interpretable r"
proof -
  assume wf: "built_wf r" and t: "built_typed r"
  then obtain cs ius colnames limit a where r: "r = Returns (Print cs ius colnames limit, a)" "list_all typed_op cs" "wf_plan a (Print cs ius colnames limit)"
    by (auto simp: built_typed_def built_wf_def split: outcome.splits relop.splits)
  obtain d where d: "QueryControlBlock a (Print cs ius colnames limit) = Returns d" using wf_plan_decays [OF r(3)] by blast
  show "interpretable r" unfolding interpretable_def r(1)
    using d typed_plan_interpreted [OF r(3,2)]
    by (intro exI [of _ "Print cs ius colnames limit"] exI [of _ a] exI [of _ d]) auto
qed

text \<open>
  C33. Over the TPC-H schema with any amount of data, every TPC-H plan of the benchmark except \<open>q13\<close> is built without an error,
  decays into a DAG that can be executed, and has a fragment of the right shape for each suboperator that is interpreted.
\<close>
theorem tpch_plans_execute:
  "\<exists>schema. getTPCHSchema lib = Returns schema \<and>
     list_all (\<lambda>q. executable (q lib ((catalog_of schema)\<lparr> cat_rows := rows \<rparr>) 0) \<and>
       interpretable (q lib ((catalog_of schema)\<lparr> cat_rows := rows \<rparr>) 0)) tpch_plans"
proof -
  obtain schema where s: "getTPCHSchema lib = Returns schema" "cat_columns (catalog_of schema) = cat_columns (tpch_catalog (\<lambda>t. 0))"
    using schema_matches [of lib] by (auto simp: schema_matches_def split: outcome.splits)
  have "(catalog_of schema)\<lparr> cat_rows := rows \<rparr> = tpch_catalog rows" using s(2) by (simp add: catalog_of_def tpch_catalog_def)
  with s(1) show ?thesis by (simp add: tpch_plans_def wf_executable typed_interpretable tpch_wf tpch_typed)
qed

end
