(* ===== verification/Relation_Props.thy ===== *)
theory Relation_Props
  imports Relations
begin

text \<open>
  Loading the text of a table gives back its rows: cells of every type that a column can have, appended behind the rows that the table held before.
\<close>

section \<open>Integers\<close>

lemma le_bytes_length [simp]: "length (le_bytes n v) = n"
  by (induction n arbitrary: v) auto

lemma le_uint_bytes: "le_uint (le_bytes n v) = v mod 256 ^ n"
proof (induction n arbitrary: v)
  case (Suc n)
  have "uint (word_of_int v :: u8) = v mod 256" by (simp add: unsigned_of_int take_bit_eq_mod)
  with Suc show ?case by (simp add: zmod_zmult2_eq)
qed simp

lemma le_sint_bytes:
  assumes "- (256 ^ n) \<le> 2 * v" "2 * v < 256 ^ n"
  shows "le_sint (le_bytes n v) = v"
proof (cases "0 \<le> v")
  case True
  then have "v mod 256 ^ n = v" using assms by (intro mod_pos_pos_trivial) auto
  then show ?thesis using assms by (simp add: le_sint_def le_uint_bytes)
next
  case False
  then have "v mod 256 ^ n = (v + 256 ^ n) mod 256 ^ n" by simp
  also have "\<dots> = v + 256 ^ n" using assms False by (intro mod_pos_pos_trivial) linarith+
  finally show ?thesis using assms False by (simp add: le_sint_def le_uint_bytes Let_def)
qed

lemma digit_is_digit: "d < 10 \<Longrightarrow> is_digit (digit d)"
  by (simp add: is_digit_def digit_def of_char_of)

lemma to_string_digits: "\<forall>c\<in>set (to_string n). is_digit c"
  by (induction n rule: to_string.induct) (subst to_string.simps, auto simp: digit_is_digit)

lemma to_string_nonempty [simp]: "to_string n \<noteq> []"
  by (subst to_string.simps) simp

lemma digit_not: "is_digit c \<Longrightarrow> \<not> is_space c \<and> c \<noteq> CHR ''-'' \<and> c \<noteq> CHR ''+'' \<and> c \<noteq> CHR ''|'' \<and> c \<noteq> CHR 0x0A \<and> c \<noteq> CHR 0x00"
  by (auto simp: is_digit_def is_space_def)

lemma take_digits: "\<not> is_digit c \<Longrightarrow> takeWhile is_digit (to_string n @ c # s) = to_string n"
  using to_string_digits [of n] by (simp add: takeWhile_append2 takeWhile_append)

lemma stoll_string:
  assumes "- (2 ^ 63) \<le> v" "v < 2 ^ 63" "\<not> is_digit c"
  shows "stoll (int_string v @ c # s) = Returns v"
proof -
  obtain d ds where to: "to_string (nat \<bar>v\<bar>) = d # ds" by (cases "to_string (nat \<bar>v\<bar>)") auto
  then have d: "is_digit d" using to_string_digits [of "nat \<bar>v\<bar>"] by simp
  have digits: "takeWhile is_digit (d # ds @ c # s) = d # ds" using take_digits [OF assms(3), of "nat \<bar>v\<bar>" s] to by simp
  have val: "decimal (d # ds) = nat \<bar>v\<bar>" using decimal_to_string [of "nat \<bar>v\<bar>"] to by simp
  show ?thesis
  proof (cases "v < 0")
    case True
    then have "int_string v = CHR ''-'' # d # ds" using to by (simp add: int_string_def)
    moreover have "\<not> is_space (CHR ''-'')" by (simp add: is_space_def)
    ultimately show ?thesis using True assms(1,2) digits val by (simp add: stoll_def take_sign_def Let_def)
  next
    case False
    then have "int_string v = d # ds" using to by (simp add: int_string_def)
    then show ?thesis using False assms(1,2) digits val digit_not [OF d] by (simp add: stoll_def take_sign_def Let_def)
  qed
qed

lemma stoull_string:
  assumes "v < 2 ^ 64" "\<not> is_digit c"
  shows "stoull (to_string v @ c # s) = Returns (int v)"
proof -
  obtain d ds where to: "to_string v = d # ds" by (cases "to_string v") auto
  then have d: "is_digit d" using to_string_digits [of v] by simp
  have digits: "takeWhile is_digit (d # ds @ c # s) = d # ds" using take_digits [OF assms(2), of v s] to by simp
  have "decimal (d # ds) = v" using decimal_to_string [of v] to by simp
  then show ?thesis using assms(1) to digits digit_not [OF d] by (simp add: stoull_def take_sign_def Let_def)
qed

section \<open>Cells\<close>

text \<open>
  A cell of each type that a column can have. How dates and floating point numbers look in the text is a parameter, as the
  functions that parse them are: a cell is fitting when they read its text back, whatever follows the bar behind it.
\<close>

datatype cell = Int_cell int | Uint_cell nat | Date_cell int | Float_cell bytes | Char_cell char | Str_cell string

record cell_text =
  date_str :: "int \<Rightarrow> string"
  float_str :: "bytes \<Rightarrow> string"

fun show_cell :: "cell_text \<Rightarrow> cell \<Rightarrow> string" where
  "show_cell tx (Int_cell v) = int_string v"
| "show_cell tx (Uint_cell v) = to_string v"
| "show_cell tx (Date_cell v) = date_str tx v"
| "show_cell tx (Float_cell bs) = float_str tx bs"
| "show_cell tx (Char_cell c) = [c]"
| "show_cell tx (Str_cell s) = s"

definition clean :: "string \<Rightarrow> bool" where
  "clean s \<longleftrightarrow> CHR ''|'' \<notin> set s \<and> CHR 0x0A \<notin> set s"

fun fits_type :: "text_library \<Rightarrow> cell_text \<Rightarrow> irtype \<Rightarrow> cell \<Rightarrow> bool" where
  "fits_type lib tx (SignedInt n) (Int_cell v) = (n \<in> {1, 2, 4, 8} \<and> - (256 ^ n) \<le> 2 * v \<and> 2 * v < 256 ^ n)"
| "fits_type lib tx (UnsignedInt n) (Uint_cell v) = (n \<in> {1, 2, 4, 8} \<and> v < 256 ^ n)"
| "fits_type lib tx Date (Date_cell v) = (clean (date_str tx v) \<and> CHR 0x00 \<notin> set (date_str tx v) \<and> - (2 ^ 31) \<le> v \<and> v < 2 ^ 31 \<and>
     (\<forall>s. dateStrToInt lib (date_str tx v @ CHR ''|'' # s) = v))"
| "fits_type lib tx (Float n) (Float_cell bs) = (n \<in> {4, 8} \<and> length bs = n \<and> clean (float_str tx bs) \<and> CHR 0x00 \<notin> set (float_str tx bs) \<and>
     (\<forall>s. (if n = 4 then stof lib else stod lib) (float_str tx bs @ CHR ''|'' # s) = Returns bs))"
| "fits_type lib tx CharT (Char_cell c) = clean [c]"
| "fits_type lib tx t v = False"

fun fits :: "text_library \<Rightarrow> cell_text \<Rightarrow> column \<Rightarrow> cell \<Rightarrow> bool" where
  "fits lib tx (PODColumn t nl st off) v = fits_type lib tx t v"
| "fits lib tx (StringColumn nl offsets) v = (case v of Str_cell s \<Rightarrow> clean s | _ \<Rightarrow> False)"

definition decode :: "irtype \<Rightarrow> bytes \<Rightarrow> cell" where
  "decode t bs = (case t of CharT \<Rightarrow> Char_cell (char_of (unat (hd bs))) | UnsignedInt n \<Rightarrow> Uint_cell (nat (le_uint bs))
     | Date \<Rightarrow> Date_cell (le_sint bs) | Float n \<Rightarrow> Float_cell bs | _ \<Rightarrow> Int_cell (le_sint bs))"

fun cells :: "column \<Rightarrow> cell list" where
  "cells (PODColumn t nl st off) = map (\<lambda>r. decode t (mem_read (r * width t) (width t) st)) [0..<length st div width t]"
| "cells (StringColumn nl offsets) = map Str_cell offsets"

fun column_ok :: "column \<Rightarrow> bool" where
  "column_ok (PODColumn t nl st off) = (off = length st \<and> width t dvd length st)"
| "column_ok (StringColumn nl offsets) = True"

lemma cells_append:
  assumes "n = width t" "0 < n" "n dvd length st" "length bs = n"
  shows "cells (PODColumn t nl (st @ bs) off) = cells (PODColumn t nl st off') @ [decode t bs]"
proof -
  obtain k where k: "length st = k * n" using assms(3) by (metis dvdE mult.commute)
  have "mem_read (r * n) n (st @ bs) = mem_read (r * n) n st" if "r < k" for r
    using slot_in_range [OF that, of n] k assms(4) by (simp add: mem_read_def)
  moreover have "mem_read (k * n) n (st @ bs) = bs" using k assms(4) by (simp add: mem_read_def)
  moreover have "length (st @ bs) div n = Suc k" using k assms(2,4) by simp
  ultimately show ?thesis using k assms(1,2) by simp
qed

lemma store_append: "off = length st \<Longrightarrow> length bs = n \<Longrightarrow> mem_write off bs (resize (off + n) st) = st @ bs"
  by (simp add: mem_write_def resize_def)

lemma int_string_chars: "c \<in> set (int_string v) \<Longrightarrow> is_digit c \<or> c = CHR ''-''"
  using to_string_digits by (auto simp: int_string_def split: if_splits)

lemma not_digits: "\<not> is_digit (CHR ''|'')" "\<not> is_digit (CHR 0x0A)" "\<not> is_digit (CHR 0x00)"
  by (simp_all add: is_digit_def)

lemma number_clean: "clean (int_string v)" "clean (to_string n)" "CHR 0x00 \<notin> set (int_string v)" "CHR 0x00 \<notin> set (to_string n)"
  using int_string_chars [of _ v] to_string_digits [of n] not_digits by (auto simp: clean_def)

lemma fits_clean: "fits lib tx c v \<Longrightarrow> clean (show_cell tx v)"
proof (cases c)
  case (PODColumn t nl st off)
  assume "fits lib tx c v"
  then show ?thesis using PODColumn by (cases "(lib, tx, t, v)" rule: fits_type.cases) (auto simp: number_clean)
next
  case (StringColumn nl offsets)
  assume "fits lib tx c v"
  then show ?thesis using StringColumn by (cases v) auto
qed

text \<open>What the loading function of a type does with the text of a fitting cell.\<close>

lemma load_fitting:
  assumes "fits_type lib tx t v"
  shows "\<exists>f bs. load_val lib t = Returns f \<and> f (takeWhile (\<lambda>c. c \<noteq> CHR 0x00) (show_cell tx v @ CHR ''|'' # s)) = Returns bs \<and>
    length bs = width t \<and> 0 < width t \<and> decode t bs = v"
proof -
  have cut: "takeWhile (\<lambda>c. c \<noteq> CHR 0x00) (t @ CHR ''|'' # s) = t @ CHR ''|'' # takeWhile (\<lambda>c. c \<noteq> CHR 0x00) s" if "CHR 0x00 \<notin> set t" for t
    using that by (subst takeWhile_append2) auto
  show ?thesis using assms
  proof (cases "(lib, tx, t, v)" rule: fits_type.cases)
    case (1 lib tx n v)
    then have n: "n \<in> {1, 2, 4, 8}" "- (256 ^ n) \<le> 2 * v" "2 * v < 256 ^ n" using assms by simp_all
    then have "n \<le> 8" by auto
    then have "(256::int) ^ n \<le> 256 ^ 8" by (intro power_increasing) auto
    then have "- (2 ^ 63) \<le> v" "v < 2 ^ 63" using n by auto
    then have "stoll (takeWhile (\<lambda>c. c \<noteq> CHR 0x00) (int_string v @ CHR ''|'' # s)) = Returns v"
      unfolding cut [OF number_clean(3)] by (rule stoll_string) (rule not_digits)
    then show ?thesis using 1 n le_sint_bytes [OF n(2,3)] by (auto simp: load_val_def loadInt_def decode_def)
  next
    case (2 lib tx n v)
    then have n: "n \<in> {1, 2, 4, 8}" "v < 256 ^ n" using assms by simp_all
    then have "n \<le> 8" by auto
    then have "(256::nat) ^ n \<le> 256 ^ 8" by (intro power_increasing) auto
    then have "v < 2 ^ 64" using n(2) by simp
    then have "stoull (takeWhile (\<lambda>c. c \<noteq> CHR 0x00) (to_string v @ CHR ''|'' # s)) = Returns (int v)"
      unfolding cut [OF number_clean(4)] by (rule stoull_string) (rule not_digits)
    moreover have "int v mod 256 ^ n = int v" using n(2) by (simp add: zmod_trivial_iff)
    ultimately show ?thesis using 2 n(1) le_uint_bytes [of n "int v"] by (auto simp: load_val_def loadUint_def decode_def)
  next
    case (3 lib tx v)
    then have "le_sint (le_bytes 4 v) = v" using assms by (intro le_sint_bytes) simp_all
    then show ?thesis using 3 assms cut [of "date_str tx v"] by (simp add: load_val_def loadDate_def decode_def)
  next
    case (4 lib tx n bs)
    then show ?thesis using assms cut [of "float_str tx bs"] by (auto simp: load_val_def loadFloat_def loadDouble_def decode_def)
  next
    case (5 lib tx ch)
    have "(of_char ch :: nat) < 256" using range_nat_of_char by (metis atLeastLessThan_iff rangeI)
    then have "take_bit 8 (of_char ch :: nat) = of_char ch" by (intro take_bit_nat_eq_self) simp
    then have "char_of (unat (word_of_nat (of_char ch) :: u8)) = ch" by (simp add: unsigned_of_nat)
    then show ?thesis using 5 by (cases "ch = CHR 0x00") (simp_all add: load_val_def loadChar_def decode_def)
  qed (use assms in simp_all)
qed

lemma loadValue_cell:
  assumes "column_ok c" "fits lib tx c v"
  shows "\<exists>c'. loadValue lib c (show_cell tx v @ CHR ''|'' # s) (length (show_cell tx v)) = Returns c' \<and> column_ok c' \<and> cells c' = cells c @ [v] \<and>
     (\<forall>w. fits lib tx c' w = fits lib tx c w)"
proof (cases c)
  case (PODColumn t nl st off)
  then have len: "off = length st" "width t dvd length st" using assms(1) by auto
  obtain f bs where f: "load_val lib t = Returns f" "f (takeWhile (\<lambda>c. c \<noteq> CHR 0x00) (show_cell tx v @ CHR ''|'' # s)) = Returns bs"
    "length bs = width t" "0 < width t" "decode t bs = v"
    using load_fitting [of lib tx t v s] assms(2) PODColumn by auto
  let ?c = "PODColumn t nl (st @ bs) (off + width t)"
  have "loadValue lib c (show_cell tx v @ CHR ''|'' # s) (length (show_cell tx v)) = Returns ?c"
    using f(1,2) store_append [OF len(1) f(3)] by (simp add: PODColumn)
  moreover have "cells ?c = cells c @ [v]"
    using cells_append [OF refl f(4) len(2) f(3), of nl "off + width t" off] f(5) PODColumn by simp
  ultimately show ?thesis using len f(3) PODColumn by (intro exI [of _ ?c]) simp
next
  case (StringColumn nl offsets)
  then obtain t where "v = Str_cell t" using assms(2) by (cases v) auto
  then show ?thesis using StringColumn by (intro exI [of _ "StringColumn nl (offsets @ [t])"]) simp
qed

section \<open>Rows and tables\<close>

definition print_row :: "cell_text \<Rightarrow> cell list \<Rightarrow> string" where
  "print_row tx row = concat (map (\<lambda>v. show_cell tx v @ ''|'') row)"

definition print_table :: "cell_text \<Rightarrow> cell list list \<Rightarrow> string" where
  "print_table tx rows = concat (map (\<lambda>row. print_row tx row @ [CHR 0x0A]) rows)"

definition row_fits :: "text_library \<Rightarrow> cell_text \<Rightarrow> relation \<Rightarrow> cell list \<Rightarrow> bool" where
  "row_fits lib tx rel row \<longleftrightarrow> list_all2 (\<lambda>c v. fits lib tx (snd c) v) rel row"

definition rel_ok :: "relation \<Rightarrow> bool" where
  "rel_ok rel \<longleftrightarrow> list_all (\<lambda>c. column_ok (snd c)) rel"

text \<open>\<open>rel'\<close> is \<open>rel\<close> with a row behind its last one.\<close>

definition appended :: "text_library \<Rightarrow> cell_text \<Rightarrow> relation \<Rightarrow> cell list \<Rightarrow> relation \<Rightarrow> bool" where
  "appended lib tx rel row rel' \<longleftrightarrow> map fst rel' = map fst rel \<and> map (\<lambda>c. cells (snd c)) rel' = map2 (\<lambda>c v. cells (snd c) @ [v]) rel row \<and>
     rel_ok rel' \<and> map (\<lambda>c. fits lib tx (snd c)) rel' = map (\<lambda>c. fits lib tx (snd c)) rel"

lemma find_bar: "CHR ''|'' \<notin> set t \<Longrightarrow> find_from (CHR ''|'') (length pre) (pre @ t @ CHR ''|'' # s) = Some (length pre + length t)"
proof -
  assume a: "CHR ''|'' \<notin> set t"
  then have "takeWhile (\<lambda>x. x \<noteq> CHR ''|'') (t @ CHR ''|'' # s) = t" by (subst takeWhile_append2) auto
  then show ?thesis by (simp add: find_from_def)
qed

lemma load_columns_row:
  "rel_ok rel \<Longrightarrow> row_fits lib tx rel row \<Longrightarrow>
   \<exists>rel'. load_columns lib (pre @ print_row tx row) (length pre) rel = Returns rel' \<and> appended lib tx rel row rel'"
proof (induction rel arbitrary: row pre)
  case Nil
  then show ?case by (simp add: appended_def rel_ok_def row_fits_def)
next
  case (Cons nc rel)
  obtain name c where nc: "nc = (name, c)" by fastforce
  from Cons.prems(2) obtain v vs where row: "row = v # vs" "fits lib tx c v" "row_fits lib tx rel vs"
    by (auto simp: row_fits_def nc list_all2_Cons1)
  let ?t = "show_cell tx v"
  have line_eq: "pre @ print_row tx row = pre @ ?t @ CHR ''|'' # print_row tx vs" by (simp add: row(1) print_row_def)
  have "CHR ''|'' \<notin> set ?t" using fits_clean [OF row(2)] by (simp add: clean_def)
  from find_bar [OF this] have find: "find_from (CHR ''|'') (length pre) (pre @ print_row tx row) = Some (length pre + length ?t)"
    unfolding line_eq .
  have ok: "column_ok c" "rel_ok rel" using Cons.prems(1) by (simp_all add: nc rel_ok_def)
  obtain c' where c': "loadValue lib c (?t @ CHR ''|'' # print_row tx vs) (length ?t) = Returns c'" "column_ok c'" "cells c' = cells c @ [v]"
      "\<forall>w. fits lib tx c' w = fits lib tx c w" using loadValue_cell [OF ok(1) row(2)] by blast
  have rest: "pre @ print_row tx row = (pre @ ?t @ ''|'') @ print_row tx vs" unfolding line_eq by simp
  obtain rel' where rel': "load_columns lib (pre @ print_row tx row) (length pre + length ?t + 1) rel = Returns rel'" "appended lib tx rel vs rel'"
    using Cons.IH [OF ok(2) row(3), of "pre @ ?t @ ''|''"] unfolding rest by auto
  have "fits lib tx c' = fits lib tx c" using c'(4) by blast
  then have "appended lib tx (nc # rel) row ((name, c') # rel')" using rel'(2) c'(2,3) by (simp add: appended_def rel_ok_def nc row(1))
  moreover have "load_columns lib (pre @ print_row tx row) (length pre) (nc # rel) = Returns ((name, c') # rel')"
    using find c'(1) rel'(1) by (simp add: nc line_eq Let_def)
  ultimately show ?case by blast
qed

lemma row_lines:
  "\<forall>row\<in>set rows. CHR 0x0A \<notin> set (print_row tx row) \<Longrightarrow> get_lines (print_table tx rows) = map (print_row tx) rows"
proof (induction rows)
  case Nil then show ?case by (simp add: print_table_def get_lines.simps)
next
  case (Cons row rows)
  then have "takeWhile (\<lambda>c. c \<noteq> CHR 0x0A) (print_row tx row @ CHR 0x0A # print_table tx rows) = print_row tx row"
     "dropWhile (\<lambda>c. c \<noteq> CHR 0x0A) (print_row tx row @ CHR 0x0A # print_table tx rows) = CHR 0x0A # print_table tx rows"
    by (subst takeWhile_append2 dropWhile_append2, auto)+
  with Cons show ?case by (subst get_lines.simps) (simp add: print_table_def)
qed

lemma appended_fits:
  assumes "map (\<lambda>c. fits lib tx (snd c)) rel' = map (\<lambda>c. fits lib tx (snd c)) rel"
  shows "row_fits lib tx rel' row \<longleftrightarrow> row_fits lib tx rel row"
proof -
  have "list_all2 (\<lambda>c v. fits lib tx (snd c) v) r row \<longleftrightarrow> list_all2 (\<lambda>f v. f v) (map (\<lambda>c. fits lib tx (snd c)) r) row" for r :: relation
    by (simp add: list_all2_map1)
  then show ?thesis unfolding row_fits_def using assms by metis
qed

lemma load_lines_rows:
  "rel_ok rel \<Longrightarrow> \<forall>row\<in>set rows. row_fits lib tx rel row \<Longrightarrow>
   \<exists>rel'. load_lines lib (map (print_row tx) rows) rel = Returns rel' \<and> rel_ok rel' \<and> map fst rel' = map fst rel \<and>
     (\<forall>k<length rel. cells (snd (rel' ! k)) = cells (snd (rel ! k)) @ map (\<lambda>row. row ! k) rows)"
proof (induction rows arbitrary: rel)
  case Nil then show ?case by simp
next
  case (Cons row rows)
  obtain r1 where r1: "loadRow lib (print_row tx row) rel = Returns r1" "appended lib tx rel row r1"
    using load_columns_row [OF Cons.prems(1), of lib tx row "[]"] Cons.prems(2) by (auto simp: loadRow_def)
  have len: "length row = length rel" using Cons.prems(2) by (auto simp: row_fits_def dest: list_all2_lengthD)
  have f: "rel_ok r1" "map fst r1 = map fst rel" using r1(2) by (simp_all add: appended_def)
  then have f3: "length r1 = length rel" using map_eq_imp_length_eq by blast
  have same: "map (\<lambda>c. fits lib tx (snd c)) r1 = map (\<lambda>c. fits lib tx (snd c)) rel" using r1(2) by (simp add: appended_def)
  have "\<forall>row\<in>set rows. row_fits lib tx r1 row" using Cons.prems(2) by (simp add: appended_fits [OF same])
  from Cons.IH [OF f(1) this] obtain r2 where r2: "load_lines lib (map (print_row tx) rows) r1 = Returns r2" "rel_ok r2" "map fst r2 = map fst r1"
     "\<forall>k<length r1. cells (snd (r2 ! k)) = cells (snd (r1 ! k)) @ map (\<lambda>row. row ! k) rows" by blast
  have "cells (snd (r1 ! k)) = cells (snd (rel ! k)) @ [row ! k]" if "k < length rel" for k
  proof -
    have "map (\<lambda>c. cells (snd c)) r1 ! k = map2 (\<lambda>c v. cells (snd c) @ [v]) rel row ! k" using r1(2) by (simp add: appended_def)
    then show ?thesis using that len f3 by simp
  qed
  then show ?case using r1(1) r2 f f3 by (intro exI [of _ r2]) simp
qed


text \<open>A library and texts for one date and one floating point number.\<close>

definition ex_double :: bytes where "ex_double = [0x9A, 0x99, 0x99, 0x99, 0x99, 0x99, 0xA9, 0x3F]"

definition ex_lib :: text_library where
  "ex_lib = \<lparr> dateStrToInt = (\<lambda>s. if take 10 s = ''1994-01-01'' then 8766 else 0), stof = (\<lambda>s. Throws ''std::invalid_argument''),
     stod = (\<lambda>s. if take 4 s = ''0.05'' then Returns ex_double else Throws ''std::invalid_argument'') \<rparr>"

definition ex_text :: cell_text where
  "ex_text = \<lparr> date_str = (\<lambda>v. ''1994-01-01''), float_str = (\<lambda>bs. ''0.05'') \<rparr>"

definition ex_table :: relation where
  "ex_table = [(''k'', PODColumn (SignedInt 4) False [] 0), (''c'', PODColumn CharT False [] 0), (''s'', StringColumn False []),
     (''d'', PODColumn Date False [] 0), (''f'', PODColumn (Float 8) False [] 0), (''u'', PODColumn (UnsignedInt 1) False [] 0)]"

definition ex_rows :: "cell list list" where
  "ex_rows = [[Int_cell (- 12), Char_cell (CHR ''a''), Str_cell ''x y'', Date_cell 8766, Float_cell ex_double, Uint_cell 200],
     [Int_cell 7, Char_cell (CHR ''b''), Str_cell [], Date_cell 8766, Float_cell ex_double, Uint_cell 0]]"

lemma ex_lines: "print_table ex_text ex_rows =
    ''-12|a|x y|1994-01-01|0.05|200|'' @ [CHR 0x0A] @ ''7|b||1994-01-01|0.05|0|'' @ [CHR 0x0A]"
  by code_simp

lemma ex_rows_fit: "rel_ok ex_table" "\<forall>row\<in>set ex_rows. row_fits ex_lib ex_text ex_table row"
  by (simp_all add: rel_ok_def ex_table_def ex_rows_def row_fits_def clean_def ex_text_def ex_lib_def ex_double_def)


end
