(* ===== verification/ROF_Props.thy ===== *)
theory ROF_Props
  imports Executor TPCH_Interpreted Relation_Props
begin

text \<open>
  Relaxed operator fusion: the intervals that are compiled and the suboperators that are interpreted between them make up the
  whole pipeline, in its order.
\<close>

text \<open>The marks of a pipeline, read from inside a vectorized block or from outside, \<open>len\<close> suboperators after the last block.\<close>

fun bracketed :: "bool \<Rightarrow> nat \<Rightarrow> rof_strategy list \<Rightarrow> bool" where
  "bracketed inside len [] = (inside \<or> 0 < len)"
| "bracketed inside len (Default # ms) = bracketed inside (len + 1) ms"
| "bracketed inside len (BeginVectorized # ms) = (\<not> inside \<and> 0 < len \<and> bracketed True 0 ms)"
| "bracketed inside len (EndVectorized # ms) = (inside \<and> bracketed False 0 ms)"

definition marks :: "pipeline \<Rightarrow> rof_strategy list" where
  "marks p = map rof (suboperators p)"

text \<open>A suboperator is in a block when one began up to it and did not end before it.\<close>

definition vectorized_at :: "rof_strategy list \<Rightarrow> nat \<Rightarrow> bool" where
  "vectorized_at ms k \<longleftrightarrow> count_list (take (Suc k) ms) BeginVectorized > count_list (take k ms) EndVectorized"

fun covers :: "morsel_run \<Rightarrow> nat list" where
  "covers (RunCompiled i) = [fst i..<snd i]"
| "covers (RunInterpreted n k) = [k]"

text \<open>A compiled fragment has suboperators, and the interpreter that is run is the one of its suboperator.\<close>

fun run_ok :: "pipeline \<Rightarrow> morsel_run \<Rightarrow> bool" where
  "run_ok p (RunCompiled i) = (fst i < snd i)"
| "run_ok p (RunInterpreted n k) = (n < length (interpreted_ops p) \<and> interpreted_ops p ! n = k)"

lemma interpreter_offsets_nth:
  "k < length ops \<Longrightarrow> interpreter_offsets n ops ! k =
     (if interpreted (ops ! k) then Some (n + length (filter interpreted (take k ops))) else None)"
proof (induction ops arbitrary: n k)
  case (Cons s ops) then show ?case by (cases k) auto
qed simp

lemma interpreted_ops_nth:
  assumes "k < length (suboperators p)" "interpreted (suboperators p ! k)"
  shows "length (filter interpreted (take k (suboperators p))) < length (interpreted_ops p) \<and>
    interpreted_ops p ! length (filter interpreted (take k (suboperators p))) = k"
proof -
  let ?ops = "suboperators p"
  let ?P = "\<lambda>j. interpreted (?ops ! j)"
  have "[0..<length ?ops] = [0..<k] @ k # [Suc k..<length ?ops]" using assms(1) by (metis le_add1 less_imp_add_positive upt_add_eq_append upt_conv_Cons add_0 less_add_same_cancel1)
  then have split: "interpreted_ops p = filter ?P [0..<k] @ k # filter ?P [Suc k..<length ?ops]" using assms(2) by (simp add: interpreted_ops_def)
  have "take k ?ops = map ((!) ?ops) [0..<k]" using assms(1) by (intro nth_equalityI) simp_all
  then have "length (filter interpreted (take k ?ops)) = length (filter ?P [0..<k])" by (simp add: filter_map o_def)
  with split show ?thesis by (simp add: nth_append)
qed

definition runs_of :: "pipeline \<Rightarrow> (nat \<times> nat) list \<Rightarrow> nat \<Rightarrow> morsel_run list" where
  "runs_of p cs k = rof_loop cs (interpreter_offsets 0 (suboperators p)) (length (suboperators p)) k"

definition to_run :: "pipeline \<Rightarrow> nat \<Rightarrow> bool" where
  "to_run p k \<longleftrightarrow> \<not> vectorized_at (marks p) k \<or> interpreted (suboperators p ! k)"

text \<open>The runs from a suboperator on are right when they cover what has to run.\<close>

definition covered_from :: "pipeline \<Rightarrow> (nat \<times> nat) list \<Rightarrow> nat \<Rightarrow> bool" where
  "covered_from p cs k \<longleftrightarrow> list_all (run_ok p) (runs_of p cs k) \<and>
     concat (map covers (runs_of p cs k)) = filter (to_run p) [k..<length (suboperators p)]"

lemma runs_of_end: "covered_from p cs (length (suboperators p))"
  by (simp add: covered_from_def runs_of_def rof_loop.simps)

lemma runs_of_interpreted:
  assumes "k < length (suboperators p)" "vectorized_at (marks p) k" "cs = [] \<or> k < fst (hd cs)" "covered_from p cs (Suc k)"
  shows "covered_from p cs k"
proof -
  let ?n = "length (filter interpreted (take k (suboperators p)))"
  have step: "runs_of p cs k = (if interpreted (suboperators p ! k) then RunInterpreted ?n k # runs_of p cs (Suc k) else runs_of p cs (Suc k))"
    using assms(1,3) interpreter_offsets_nth [of k "suboperators p" 0]
    by (subst (1) runs_of_def, subst rof_loop.simps) (auto simp: runs_of_def split: list.splits)
  have upt: "[k..<length (suboperators p)] = k # [Suc k..<length (suboperators p)]" using assms(1) by (simp add: upt_conv_Cons)
  have "to_run p k \<longleftrightarrow> interpreted (suboperators p ! k)" using assms(2) by (simp add: to_run_def)
  then show ?thesis using assms(4) interpreted_ops_nth [OF assms(1)] by (auto simp: covered_from_def step upt)
qed

lemma runs_of_compiled:
  assumes "st < e" "e \<le> length (suboperators p)" "\<forall>i\<in>{st..<e}. \<not> vectorized_at (marks p) i" "covered_from p cs e"
  shows "covered_from p ((st, e) # cs) st"
proof -
  have step: "runs_of p ((st, e) # cs) st = RunCompiled (st, e) # runs_of p cs e"
    using assms(1,2) by (subst (1) runs_of_def, subst rof_loop.simps) (simp add: runs_of_def)
  have "[st..<length (suboperators p)] = [st..<e] @ [e..<length (suboperators p)]"
    using assms(1,2) by (metis le_add_diff_inverse less_imp_le upt_add_eq_append)
  moreover have "filter (to_run p) [st..<e] = [st..<e]" using assms(3) by (intro filter_True) (simp add: to_run_def)
  ultimately show ?thesis using assms(1,4) by (simp add: covered_from_def step)
qed

text \<open>The intervals from a suboperator on, inside a block and outside one whose compiled part started at \<open>st\<close>.\<close>

lemma rof_intervals_cover:
  assumes "suboperators p = pre @ ss" "bracketed inside len (map rof ss)" "k = length pre"
    "count_list (map rof pre) BeginVectorized = count_list (map rof pre) EndVectorized + (if inside then 1 else 0)"
    "\<not> inside \<longrightarrow> st + len = k"
  shows "(inside \<longrightarrow> (\<exists>cs. rof_intervals k ss True st = Returns cs \<and> (cs = [] \<or> k < fst (hd cs)) \<and> covered_from p cs k)) \<and>
    (\<not> inside \<longrightarrow> (\<exists>e cs. rof_intervals k ss False st = Returns ((st, e) # cs) \<and> st < e \<and> k \<le> e \<and> e \<le> length (suboperators p) \<and>
       (\<forall>i\<in>{k..<e}. \<not> vectorized_at (marks p) i) \<and> covered_from p cs e))"
  using assms
proof (induction ss arbitrary: pre inside len k st)
  case Nil
  then show ?case using runs_of_end [of p] by auto
next
  case (Cons s ss)
  have p: "suboperators p = (pre @ [s]) @ ss" and k: "k < length (suboperators p)" "Suc k = length (pre @ [s])"
    using Cons.prems by simp_all
  have v: "vectorized_at (marks p) k \<longleftrightarrow> inside \<or> rof s = BeginVectorized"
    using Cons.prems by (simp add: vectorized_at_def marks_def)
  note IH = Cons.IH [OF p _ k(2)]
  show ?case
  proof (cases "rof s")
    case Default
    note IH = IH [of inside "len + 1" st]
    have b: "bracketed inside (len + 1) (map rof ss)" using Cons.prems Default by simp
    show ?thesis
    proof (cases inside)
      case True
      then obtain cs where "rof_intervals (Suc k) ss True st = Returns cs" "cs = [] \<or> Suc k < fst (hd cs)" "covered_from p cs (Suc k)"
        using IH [OF b] Cons.prems Default by auto
      then show ?thesis using runs_of_interpreted [OF k(1), of cs] v True Default by auto
    next
      case False
      then obtain e cs where e: "rof_intervals (Suc k) ss False st = Returns ((st, e) # cs)" "st < e" "Suc k \<le> e" "e \<le> length (suboperators p)"
          "\<forall>i\<in>{Suc k..<e}. \<not> vectorized_at (marks p) i" "covered_from p cs e"
        using IH [OF b] Cons.prems Default by auto
      have "\<not> vectorized_at (marks p) k" using v False Default by simp
      then have "\<forall>i\<in>{k..<e}. \<not> vectorized_at (marks p) i" using e(5) by (auto simp: Suc_le_eq order_le_less)
      with e show ?thesis using False Default by auto
    qed
  next
    case BeginVectorized
    then have b: "\<not> inside" "0 < len" "bracketed True 0 (map rof ss)" using Cons.prems by auto
    then obtain cs where cs: "rof_intervals (Suc k) ss True st = Returns cs" "cs = [] \<or> Suc k < fst (hd cs)" "covered_from p cs (Suc k)"
      using IH [OF b(3), of st] Cons.prems BeginVectorized by auto
    then have "covered_from p cs k" using runs_of_interpreted [OF k(1), of cs] v BeginVectorized by auto
    with cs show ?thesis using b BeginVectorized Cons.prems k(1) by (auto simp: Let_def)
  next
    case EndVectorized
    then have b: "inside" "bracketed False 0 (map rof ss)" using Cons.prems by auto
    then obtain e cs where e: "rof_intervals (Suc k) ss False (Suc k) = Returns ((Suc k, e) # cs)" "Suc k < e" "e \<le> length (suboperators p)"
        "\<forall>i\<in>{Suc k..<e}. \<not> vectorized_at (marks p) i" "covered_from p cs e"
      using IH [OF b(2), of "Suc k"] Cons.prems EndVectorized by auto
    have "covered_from p ((Suc k, e) # cs) k"
      using runs_of_interpreted [OF k(1)] runs_of_compiled [OF e(2,3,4,5)] v b(1) by simp
    with e show ?thesis using b EndVectorized by (auto simp: Let_def)
  qed
qed

lemma rof_pipeline_covers:
  assumes "bracketed False 0 (marks p)"
  shows "\<exists>runs. runROFMorsel p = Returns runs \<and> list_all (run_ok p) runs \<and>
    concat (map covers runs) = filter (\<lambda>k. \<not> vectorized_at (marks p) k \<or> interpreted (suboperators p ! k)) [0..<length (suboperators p)] \<and>
    (list_all (\<lambda>m. m = Default) (marks p) \<longrightarrow> runs = runFusedMorsel p)"
proof -
  obtain e cs where e: "rof_intervals 0 (suboperators p) False 0 = Returns ((0, e) # cs)" "0 < e" "e \<le> length (suboperators p)"
      "\<forall>i\<in>{0..<e}. \<not> vectorized_at (marks p) i" "covered_from p cs e"
    using rof_intervals_cover [of p "[]" "suboperators p" False 0 0 0] assms by (auto simp: marks_def)
  have r: "runROFMorsel p = Returns (runs_of p ((0, e) # cs) 0)"
    using e(1) order_less_le_trans [OF e(2,3)] by (simp add: runROFMorsel_def setUpFusedAsync_def runs_of_def rof_loop.simps [of "(0, e) # cs"])
  have c: "covered_from p ((0, e) # cs) 0" by (rule runs_of_compiled [OF e(2-5)])
  have fused: "runs_of p ((0, e) # cs) 0 = runFusedMorsel p" if "list_all (\<lambda>m. m = Default) (marks p)"
  proof -
    have "rof_intervals k ss False st = Returns [(st, k + length ss)]" if "\<forall>s\<in>set ss. rof s = Default" for k ss st
      using that by (induction ss arbitrary: k) auto
    from this [of "suboperators p" 0 0] that have "e = length (suboperators p) \<and> cs = []" using e(1) by (auto simp: marks_def list_all_iff)
    then show ?thesis using e(2) by (simp add: runs_of_def runFusedMorsel_def rof_loop.simps)
  qed
  show ?thesis using r c fused by (auto simp: covered_from_def to_run_def [abs_def])
qed

lemma enumerate_interpreted: "(n, k) \<in> set (enumerate 0 (interpreted_ops p)) \<Longrightarrow> n < length (interpreted_ops p) \<and> interpreted_ops p ! n = k"
  by (auto simp: enumerate_eq_zip set_zip)

lemma interpreted_morsel_covers:
  "list_all (run_ok p) (runInterpretedMorsel p) \<and> concat (map covers (runInterpretedMorsel p)) = interpreted_ops p"
proof -
  have "concat (map (covers \<circ> (\<lambda>(x, y). RunInterpreted x y)) (enumerate n ks)) = ks" for n and ks :: "nat list"
    by (induction ks arbitrary: n) auto
  then show ?thesis using enumerate_interpreted
    by (auto simp: runInterpretedMorsel_def list_all_iff interpreted_ops_def [symmetric])
qed

section \<open>The pipelines of plans\<close>

text \<open>A pipeline to which anything may be attached next: it is empty, or a new block could begin.\<close>

definition attachable :: "subop list \<Rightarrow> bool" where
  "attachable ops \<longleftrightarrow> ops = [] \<or> bracketed False 0 (map rof ops @ [BeginVectorized])"

lemma bracketed_begin: "bracketed inside len (ms @ [BeginVectorized]) \<Longrightarrow> bracketed inside len ms"
  by (induction inside len ms rule: bracketed.induct) auto

lemma bracketed_defaults:
  "bracketed inside len (ms @ [BeginVectorized]) \<Longrightarrow> bracketed inside len (ms @ replicate n Default @ [BeginVectorized])"
proof (induction inside len ms rule: bracketed.induct)
  case (1 inside len)
  then show ?case by (induction n arbitrary: len) auto
qed auto

lemma bracketed_block:
  "bracketed inside len (ms @ [BeginVectorized]) \<Longrightarrow> 0 < n \<Longrightarrow>
     bracketed inside len (ms @ BeginVectorized # EndVectorized # replicate n Default @ [BeginVectorized])"
proof (induction inside len ms rule: bracketed.induct)
  case (1 inside len)
  have "bracketed False k (replicate n Default @ [BeginVectorized])" if "0 < k + n" for k
    using that by (induction n arbitrary: k) auto
  then show ?case using 1 by simp
qed auto

lemma marks_number: "map rof (number make_subop a specs) = replicate (length specs) Default"
  by (induction specs arbitrary: a) (auto simp: make_subop_def split: prod.splits)

lemma marks_guard:
  assumes "suboperators q = ops @ number make_subop a (join_lookup_ops p ht)"
  shows "map rof (suboperators (ROFScopeGuard_end (length ops) q)) = map rof ops @ [BeginVectorized, EndVectorized]"
  by (simp add: ROFScopeGuard_end_def assms join_lookup_ops_def setROFStrategy_def Let_def list_update_append nth_append)

interpretation rof_pipes: pipeline_property attachable "\<lambda>specs. True" "\<lambda>n. True" "\<lambda>r. True"
proof
  show "attachable []" by (simp add: attachable_def)
  show "attachable (ops @ number make_subop a specs)" if "attachable ops" for ops a specs
  proof -
    have "bracketed False k (replicate n Default @ [BeginVectorized])" if "0 < k + n" for k n
      using that by (induction n arbitrary: k) auto
    then show ?thesis
      using that bracketed_defaults [of False 0 "map rof ops" "length specs"] by (cases "specs = []") (auto simp: attachable_def marks_number)
  qed
  show "attachable (suboperators (ROFScopeGuard_end (length ops) q) @ number make_subop b fs)"
    if "attachable ops" "ops \<noteq> []" "fs \<noteq> []" "suboperators q = ops @ number make_subop a (join_lookup_ops p ht)" for ops fs q a b p ht
    using that(1,2,3) bracketed_block [of False 0 "map rof ops" "length fs"] marks_guard [OF that(4)]
    by (simp add: attachable_def marks_number)
qed (simp_all add: list_all_iff)

text \<open>
  C37. Relaxed operator fusion on any plan without outer joins. The fragments of every pipeline are set up without an error, and a
  morsel runs, in the order of the pipeline, every suboperator outside the vectorized blocks as part of a compiled fragment, which is not
  empty, and in the blocks exactly those that have an interpreter, each once and with its own interpreter. Without blocks the
  morsel is the one of the fused mode. \<open>runInterpretedMorsel\<close> runs every suboperator that has an interpreter once.
\<close>
theorem rof_plan_covers:
  assumes "wf_plan a (Print cs ius colnames limit)"
  shows "\<exists>d. QueryControlBlock a (Print cs ius colnames limit) = Returns d \<and> list_all (\<lambda>p.
    (\<exists>runs. runROFMorsel p = Returns runs \<and> list_all (run_ok p) runs \<and>
      concat (map covers runs) = filter (\<lambda>k. \<not> vectorized_at (marks p) k \<or> interpreted (suboperators p ! k)) [0..<length (suboperators p)] \<and>
      (list_all (\<lambda>m. m = Default) (marks p) \<longrightarrow> runs = runFusedMorsel p)) \<and>
    list_all (run_ok p) (runInterpretedMorsel p) \<and> concat (map covers (runInterpretedMorsel p)) = interpreted_ops p) (pipelines d)"
proof -
  obtain d where d: "QueryControlBlock a (Print cs ius colnames limit) = Returns d" "list_all finished (pipelines d)"
    using wf_plan_decays [OF assms] by blast
  have "bracketed False 0 (marks p)" if "p \<in> set (pipelines d)" for p
  proof -
    have "attachable (suboperators p)" using rof_pipes.plan_pipes [OF assms _ d(1)] that by (simp add: list_all_iff)
    moreover have "suboperators p \<noteq> []" using d(2) that by (auto simp: list_all_iff finished_def)
    ultimately show ?thesis by (auto simp: attachable_def marks_def intro: bracketed_begin)
  qed
  then show ?thesis using d(1) rof_pipeline_covers interpreted_morsel_covers by (intro exI [of _ d]) (simp add: list_all_iff)
qed

theorem rof_plan_covers_witness:
  "\<exists>cs ius colnames limit a d. q3 ex_lib (tpch_catalog (\<lambda>t. 1000)) 0 = Returns (Print cs ius colnames limit, a) \<and>
     QueryControlBlock a (Print cs ius colnames limit) = Returns d \<and> list_all (\<lambda>p. \<exists>runs. runROFMorsel p = Returns runs \<and> list_all (run_ok p) runs) (pipelines d)"
proof -
  obtain a r where r: "q3 ex_lib (tpch_catalog (\<lambda>t. 1000)) 0 = Returns (r, a)" "wf_plan a r"
    using q3_wf [of ex_lib "\<lambda>t. 1000"] by (auto simp: built_wf_def split: outcome.splits)
  then obtain cs ius colnames limit where p: "r = Print cs ius colnames limit" by (cases r) (auto simp: wf_plan_def)
  from rof_plan_covers [OF r(2) [unfolded p]] r(1) p show ?thesis by (auto simp: list_all_iff) blast
qed

end
