(* ===== verification/Table_Source.thy ===== *)
theory Table_Source
  imports Atomic_Props HashTable_Direct Morsels
begin

text \<open>
  The source that reads a hash table (\<open>algebra/suboperators/sources/HashTableSource.{h,cpp}\<close>): a morsel is a range of an iterator, and the
  generated loop walks from its start to its end. The iterators of the tables are the instances of one locale.
\<close>

section \<open>Picking morsels\<close>

record 'it source_state =
  src_start :: 'it
  src_end :: 'it

text \<open>\<open>setUpState\<close>; \<open>start k\<close> is \<open>iteratorStart\<close> of the table of thread \<open>k\<close>. The join table is read by the first thread alone.\<close>

definition source_setUpState :: "bool \<Rightarrow> (nat \<Rightarrow> 'it option) \<Rightarrow> 'it \<Rightarrow> nat \<Rightarrow> 'it source_state list option" where
  "source_setUpState only_first start null_it num_threads =
     those (map (\<lambda>k. if only_first \<and> k \<noteq> 0 then Some \<lparr> src_start = null_it, src_end = null_it \<rparr>
                     else map_option (\<lambda>it. \<lparr> src_start = it, src_end = it \<rparr>) (start k)) [0..<num_threads])"

text \<open>The loop of \<open>pickMorsel\<close>, with the number of entries that may still be taken; the result has the number that was.\<close>

primrec advance_morsel :: "('it \<Rightarrow> 'it option) \<Rightarrow> ('it \<Rightarrow> nat option) \<Rightarrow> nat \<Rightarrow> 'it \<Rightarrow> (nat \<times> 'it) option" where
  "advance_morsel adv pointer 0 it = Some (0, it)"
| "advance_morsel adv pointer (Suc n) it =
     (if pointer it = None then Some (0, it)
      else Option.bind (adv it) (\<lambda>it1. Option.bind (advance_morsel adv pointer n it1) (\<lambda>(k, it2). Some (Suc k, it2))))"

definition source_pickMorsel ::
  "('it \<Rightarrow> 'it option) \<Rightarrow> ('it \<Rightarrow> nat option) \<Rightarrow> 'it source_state \<Rightarrow> (nat option \<times> 'it source_state) option" where
  "source_pickMorsel adv pointer st =
     (if pointer (src_end st) = None then Some (None, st)
      else Option.bind (advance_morsel adv pointer DEFAULT_CHUNK_SIZE (src_end st)) (\<lambda>(entries_found, it).
        Some (Some entries_found, \<lparr> src_start = src_end st, src_end = it \<rparr>)))"

text \<open>The generated loop \<open>while (it != it_ptr_end)\<close> over a morsel, with the pointers that it hands on.\<close>

partial_function (option) morsel_rows ::
  "('it \<Rightarrow> 'it option) \<Rightarrow> ('it \<Rightarrow> nat option) \<Rightarrow> nat option \<Rightarrow> 'it \<Rightarrow> nat option list option" where
  "morsel_rows adv pointer it_ptr_end it =
     (if pointer it = it_ptr_end then Some []
      else Option.bind (adv it) (\<lambda>it1. Option.bind (morsel_rows adv pointer it_ptr_end it1) (\<lambda>ps. Some (pointer it # ps))))"

text \<open>A thread that picks morsels and runs them until there are no more.\<close>

partial_function (option) source_run ::
  "('it \<Rightarrow> 'it option) \<Rightarrow> ('it \<Rightarrow> nat option) \<Rightarrow> 'it source_state \<Rightarrow> (nat \<times> nat option list) list option" where
  "source_run adv pointer st =
     Option.bind (source_pickMorsel adv pointer st) (\<lambda>(m, st1). case m of None \<Rightarrow> Some []
     | Some n \<Rightarrow> Option.bind (morsel_rows adv pointer (pointer (src_end st1)) (src_start st1)) (\<lambda>rows.
         Option.bind (source_run adv pointer st1) (\<lambda>ms. Some ((n, rows) # ms))))"

definition good_morsel :: "nat \<times> nat option list \<Rightarrow> bool" where
  "good_morsel m \<longleftrightarrow> (case m of (n, rows) \<Rightarrow> n = length rows \<and> 0 < n \<and> n \<le> DEFAULT_CHUNK_SIZE)"

section \<open>The contract of an iterator\<close>

locale table_iterator =
  fixes adv :: "'it \<Rightarrow> 'it option" and pointer :: "'it \<Rightarrow> nat option" and valid :: "'it \<Rightarrow> bool" and remaining :: "'it \<Rightarrow> nat list"
  assumes at_null: "valid it \<Longrightarrow> pointer it = None \<Longrightarrow> remaining it = []"
    and at_entry: "valid it \<Longrightarrow> pointer it = Some d \<Longrightarrow> \<exists>it'. adv it = Some it' \<and> valid it' \<and> remaining it = d # remaining it'"
    and entries_distinct: "valid it \<Longrightarrow> distinct (remaining it)"
begin

lemma morsel_ends:
  "valid it \<Longrightarrow> \<exists>it'. advance_morsel adv pointer n it = Some (min n (length (remaining it)), it') \<and> valid it' \<and> remaining it' = drop n (remaining it)"
proof (induction n arbitrary: it)
  case (Suc n)
  show ?case
  proof (cases "pointer it")
    case None then show ?thesis using Suc.prems at_null by simp
  next
    case (Some d)
    then obtain it1 where it1: "adv it = Some it1" "valid it1" "remaining it = d # remaining it1" using at_entry Suc.prems by blast
    then show ?thesis using Suc.IH [OF it1(2)] Some by auto
  qed
qed simp

lemma pointer_remaining: "valid it \<Longrightarrow> pointer it = Some d \<Longrightarrow> d \<in> set (remaining it)"
  using at_entry by fastforce

lemma morsel_walked:
  "valid it \<Longrightarrow> advance_morsel adv pointer n it = Some (k, it') \<Longrightarrow>
   morsel_rows adv pointer (pointer it') it = Some (map Some (take n (remaining it)))"
proof (induction n arbitrary: it k)
  case 0 then show ?case by (simp add: morsel_rows.simps)
next
  case (Suc n)
  show ?case
  proof (cases "pointer it")
    case None
    then have "it' = it" "remaining it = []" using Suc.prems at_null by auto
    then show ?thesis by (simp add: morsel_rows.simps)
  next
    case (Some d)
    then obtain it1 where it1: "adv it = Some it1" "valid it1" "remaining it = d # remaining it1" using at_entry Suc.prems(1) by blast
    then obtain j where j: "advance_morsel adv pointer n it1 = Some (j, it')" using Suc.prems(2) Some by (auto simp: bind_eq_Some_conv)
    note rows = Suc.IH [OF it1(2) j]
    have v: "valid it'" "remaining it' = drop n (remaining it1)" using morsel_ends [OF it1(2), of n] j by auto
    have "pointer it' \<noteq> Some d"
    proof
      assume "pointer it' = Some d"
      then have "d \<in> set (remaining it1)" using pointer_remaining [OF v(1)] v(2) in_set_dropD by metis
      then show False using entries_distinct [OF Suc.prems(1)] it1(3) by simp
    qed
    then show ?thesis using Some it1 rows by (subst morsel_rows.simps) simp
  qed
qed

lemma all_morsels:
  "valid (src_end st) \<Longrightarrow> \<exists>ms. source_run adv pointer st = Some ms \<and> concat (map snd ms) = map Some (remaining (src_end st)) \<and> list_all good_morsel ms"
proof (induction "length (remaining (src_end st))" arbitrary: st rule: less_induct)
  case less
  show ?case
  proof (cases "pointer (src_end st)")
    case None
    then show ?thesis using at_null [OF less.prems] by (subst source_run.simps) (simp add: source_pickMorsel_def)
  next
    case (Some d)
    let ?R = "remaining (src_end st)"
    obtain it' where it': "advance_morsel adv pointer DEFAULT_CHUNK_SIZE (src_end st) = Some (min DEFAULT_CHUNK_SIZE (length ?R), it')"
        "valid it'" "remaining it' = drop DEFAULT_CHUNK_SIZE ?R"
      using morsel_ends [OF less.prems] by blast
    let ?st = "\<lparr> src_start = src_end st, src_end = it' \<rparr>"
    have ne: "?R \<noteq> []" using pointer_remaining [OF less.prems Some] by auto
    then have "length (remaining (src_end ?st)) < length ?R" using it'(3) by (simp add: DEFAULT_CHUNK_SIZE_def)
    then obtain ms where ms: "source_run adv pointer ?st = Some ms" "concat (map snd ms) = map Some (drop DEFAULT_CHUNK_SIZE ?R)"
        "list_all good_morsel ms"
      using less.hyps [of ?st] it'(2,3) by auto
    let ?m = "(min DEFAULT_CHUNK_SIZE (length ?R), map Some (take DEFAULT_CHUNK_SIZE ?R))"
    have "source_run adv pointer st = Some (?m # ms)"
      using Some it'(1) morsel_walked [OF less.prems it'(1)] ms(1) by (subst source_run.simps) (simp add: source_pickMorsel_def)
    moreover have "good_morsel ?m" using ne by (auto simp: good_morsel_def DEFAULT_CHUNK_SIZE_def)
    moreover have "concat (map snd (?m # ms)) = map Some ?R" using ms(2) by (simp flip: map_append)
    ultimately show ?thesis using ms(3) by (intro exI [of _ "?m # ms"]) simp
  qed
qed

end

section \<open>The iterators of the tables\<close>

definition on_slot :: "(u8 \<Rightarrow> bool) \<Rightarrow> shared_ht \<Rightarrow> iter \<Rightarrow> bool" where
  "on_slot P st it \<longleftrightarrow> 0 < total_slot_size st \<and> (it_data it = None \<or> (\<exists>j\<le>mod_mask st. stops P st j \<and> it = it_at st j))"

definition slots_left :: "(u8 \<Rightarrow> bool) \<Rightarrow> shared_ht \<Rightarrow> iter \<Rightarrow> nat list" where
  "slots_left P st it = (if it_data it = None then [] else map (\<lambda>j. j * total_slot_size st) (stops_from P st (it_idx it)))"

lemma it_next_on_slot:
  assumes "0 < total_slot_size st"
  shows "on_slot P st (it_next P st i) \<and> slots_left P st (it_next P st i) = map (\<lambda>j. j * total_slot_size st) (stops_from P st i)"
  using it_next_cases [of P st i]
proof (elim disjE exE conjE)
  fix j assume j: "i \<le> j" "j \<le> mod_mask st" "it_next P st i = it_at st j" "stops_from P st i = j # stops_from P st (Suc j)"
  have e: "[j..<Suc (mod_mask st)] = j # [Suc j..<Suc (mod_mask st)]" using j(2) by (simp add: upt_conv_Cons)
  have "j \<in> set (stops_from P st i)" unfolding j(4) by simp
  then have "stops P st j" by simp
  then show ?thesis using assms j e by (auto simp: on_slot_def slots_left_def simp del: upt_Suc)
qed (use assms in \<open>simp add: on_slot_def slots_left_def it_end_def del: upt_Suc\<close>)

lemma next_on_slot:
  assumes "on_slot P st it" "it_data it = Some d"
  shows "\<exists>it'. next_to P st it = Some it' \<and> on_slot P st it' \<and> slots_left P st it = d # slots_left P st it'"
proof -
  obtain j where j: "j \<le> mod_mask st" "stops P st j" "it = it_at st j" and pos: "0 < total_slot_size st" using assms by (auto simp: on_slot_def)
  have e: "[j..<Suc (mod_mask st)] = j # [Suc j..<Suc (mod_mask st)]" using j(1) by (simp add: upt_conv_Cons)
  have "on_slot P st (it_after P st j) \<and> slots_left P st (it_after P st j) = map (\<lambda>j. j * total_slot_size st) (stops_from P st (Suc j))"
  proof (cases "j = mod_mask st")
    case True then show ?thesis using pos by (simp add: it_after_def on_slot_def slots_left_def it_end_def)
  next
    case False then show ?thesis using it_next_on_slot [OF pos] by (simp add: it_after_def)
  qed
  then show ?thesis using advance_it_at [OF j(1)] assms(2) j e by (auto simp: slots_left_def simp del: upt_Suc)
qed

lemma slots_left_distinct: "on_slot P st it \<Longrightarrow> distinct (slots_left P st it)"
  by (auto simp: slots_left_def on_slot_def distinct_map inj_on_def simp del: upt_Suc)

interpretation slot_iterator: table_iterator "next_to P st" it_data "on_slot P st" "slots_left P st" for P st
proof
  show "slots_left P st it = []" if "it_data it = None" for it using that by (simp add: slots_left_def)
qed (rule next_on_slot, assumption+, rule slots_left_distinct)

text \<open>The table for two byte keys has an iterator of its own.\<close>

definition dl_pointer :: "nat \<times> nat option \<Rightarrow> nat option" where "dl_pointer it = snd it"

definition dl_advance :: "direct_ht \<Rightarrow> nat \<times> nat option \<Rightarrow> (nat \<times> nat option) option" where
  "dl_advance st it = (case it of (idx, None) \<Rightarrow> None | (idx, Some d) \<Rightarrow> Some (dl_iteratorAdvance st (idx, d)))"

definition dl_on_slot :: "direct_ht \<Rightarrow> nat \<times> nat option \<Rightarrow> bool" where
  "dl_on_slot st it \<longleftrightarrow> 0 < dl_slot_size st \<and> (case it of (idx, None) \<Rightarrow> True | (idx, Some d) \<Rightarrow> idx < 65536 \<and> dl_tags st ! idx \<and> d = idx * dl_slot_size st)"

definition dl_slots_left :: "direct_ht \<Rightarrow> nat \<times> nat option \<Rightarrow> nat list" where
  "dl_slots_left st it = (case it of (idx, None) \<Rightarrow> []
     | (idx, Some d) \<Rightarrow> map (\<lambda>j. j * dl_slot_size st) (filter (\<lambda>j. dl_tags st ! j) [idx..<65536]))"

lemma dl_skip_on_slot:
  assumes "0 < dl_slot_size st" "idx \<le> 65536"
  shows "dl_on_slot st (dl_skip st (idx, idx * dl_slot_size st)) \<and>
    dl_slots_left st (dl_skip st (idx, idx * dl_slot_size st)) = map (\<lambda>j. j * dl_slot_size st) (filter (\<lambda>j. dl_tags st ! j) [idx..<65536])"
  using assms(2)
proof (induction "65536 - idx" arbitrary: idx)
  case 0
  then have "idx = 65536" by simp
  then show ?case using assms(1) by (subst (1 2) dl_skip.simps) (simp add: dl_on_slot_def dl_slots_left_def)
next
  case (Suc n)
  then have lt: "idx < 65536" by simp
  then have up: "[idx..<65536] = idx # [Suc idx..<65536]" by (rule upt_conv_Cons)
  show ?case
  proof (cases "dl_tags st ! idx")
    case True
    then show ?thesis using assms(1) lt up by (subst (1 2) dl_skip.simps) (simp add: dl_on_slot_def dl_slots_left_def)
  next
    case False
    have "dl_skip st (idx, idx * dl_slot_size st) = dl_skip st (Suc idx, Suc idx * dl_slot_size st)"
      using False lt by (subst dl_skip.simps) (simp add: add.commute)
    then show ?thesis using Suc.hyps(1) [of "Suc idx"] Suc.hyps(2) Suc.prems False up by simp
  qed
qed

interpretation direct_iterator: table_iterator "dl_advance st" dl_pointer "dl_on_slot st" "dl_slots_left st" for st
proof
  show "dl_slots_left st it = []" if "dl_pointer it = None" for it
    using that by (cases it) (auto simp: dl_pointer_def dl_slots_left_def)
  show "distinct (dl_slots_left st it)" if "dl_on_slot st it" for it
    using that by (auto simp: dl_slots_left_def dl_on_slot_def distinct_map inj_on_def split: option.splits prod.splits)
  show "\<exists>it'. dl_advance st it = Some it' \<and> dl_on_slot st it' \<and> dl_slots_left st it = d # dl_slots_left st it'"
    if v: "dl_on_slot st it" and p: "dl_pointer it = Some d" for it d
  proof -
    obtain idx where idx: "it = (idx, Some d)" "idx < 65536" "dl_tags st ! idx" "d = idx * dl_slot_size st" "0 < dl_slot_size st"
      using v p by (cases it) (auto simp: dl_pointer_def dl_on_slot_def)
    have "[idx..<65536] = idx # [Suc idx..<65536]" using idx(2) by (rule upt_conv_Cons)
    moreover have "dl_advance st it = Some (dl_skip st (Suc idx, Suc idx * dl_slot_size st))"
      by (simp add: dl_advance_def dl_iteratorAdvance_def idx(1,4) add.commute)
    ultimately show ?thesis using dl_skip_on_slot [of st "Suc idx"] idx by (simp add: dl_slots_left_def)
  qed
qed

section \<open>Reading whole tables\<close>

abbreviation fresh_source :: "'it \<Rightarrow> 'it source_state" where
  "fresh_source it \<equiv> \<lparr> src_start = it, src_end = it \<rparr>"

lemma outer_source_run:
  assumes "0 < at_slot_size st"
  shows "\<exists>it ms. at_iteratorStart st = Some it \<and> source_run (at_iteratorAdvance st) it_data (fresh_source it) = Some ms \<and>
    concat (map snd ms) = map (\<lambda>j. Some (j * at_slot_size st)) (filter (\<lambda>j. unmatched_tag (at_tags st ! j)) [0..<Suc (at_mod_mask st)]) \<and>
    list_all good_morsel ms"
proof -
  let ?it = "it_next unmatched_tag (sh st) 0"
  have "at_iteratorStart st = Some ?it"
    using skip_at [of 0 "sh st" unmatched_tag] by (simp add: at_iteratorStart_def outer_skip_to it_at_def)
  moreover have "on_slot unmatched_tag (sh st) ?it" "slots_left unmatched_tag (sh st) ?it = map (\<lambda>j. j * total_slot_size (sh st)) (stops_from unmatched_tag (sh st) 0)"
    using it_next_on_slot [of "sh st" unmatched_tag 0] assms by simp_all
  ultimately show ?thesis
    using slot_iterator.all_morsels [of unmatched_tag "sh st" "fresh_source ?it"]
    by (auto simp: at_iteratorAdvance_to comp_def simp del: upt_Suc)
qed

lemma direct_source_run:
  assumes "0 < dl_slot_size st"
  shows "\<exists>ms. source_run (dl_advance st) dl_pointer (fresh_source (dl_iteratorStart st)) = Some ms \<and>
    concat (map snd ms) = map (\<lambda>j. Some (j * dl_slot_size st)) (filter (\<lambda>j. dl_tags st ! j) [0..<65536]) \<and> list_all good_morsel ms"
proof -
  have "dl_iteratorStart st = dl_skip st (0, 0 * dl_slot_size st)"
    by (subst dl_skip.simps) (simp add: dl_iteratorStart_def dl_iteratorAdvance_def)
  then have "dl_on_slot st (dl_iteratorStart st)" "dl_slots_left st (dl_iteratorStart st) = map (\<lambda>j. j * dl_slot_size st) (filter (\<lambda>j. dl_tags st ! j) [0..<65536])"
    using dl_skip_on_slot [OF assms, of 0] by simp_all
  then show ?thesis using direct_iterator.all_morsels [of st "fresh_source (dl_iteratorStart st)"] by (auto simp: comp_def)
qed

text \<open>
  C17. The morsels of a hash table source cover the table. From the state that \<open>setUpState\<close> makes, picking morsels and walking each with the
  generated loop ends after finitely many morsels of between 1 and 512 entries; together the loops hand on the pointer of every group of the
  table exactly once, in slot order.
\<close>

theorem source_morsels_cover:
  assumes "sk_inv xxh ks st" "0 < total_slot_size st"
  shows "\<exists>it ms js. iteratorStart st = Some it \<and> source_run (iteratorAdvance st) it_data (fresh_source it) = Some ms \<and>
    concat (map snd ms) = map (\<lambda>j. Some (j * total_slot_size st)) js \<and> sorted_wrt (<) js \<and> set js = used st \<and> length js = ht_size st \<and>
    list_all good_morsel ms"
proof -
  let ?it = "it_next filled st 0"
  have "on_slot filled st ?it" "slots_left filled st ?it = map (\<lambda>j. j * total_slot_size st) (stops_from filled st 0)"
    using it_next_on_slot [OF assms(2)] by simp_all
  then obtain ms where ms: "source_run (iteratorAdvance st) it_data (fresh_source ?it) = Some ms"
      "concat (map snd ms) = map Some (map (\<lambda>j. j * total_slot_size st) (stops_from filled st 0))" "list_all good_morsel ms"
    using slot_iterator.all_morsels [of filled st "fresh_source ?it"] by (auto simp: iteratorAdvance_to simp del: upt_Suc)
  obtain js where js: "scan_table st = Some (map (\<lambda>j. j * total_slot_size st) js)" "sorted_wrt (<) js" "set js = used st" "length js = ht_size st"
    using assms(1) scan_used unfolding sk_inv_def ht_size_def by blast
  have "map (\<lambda>j. j * total_slot_size st) (stops_from filled st 0) = map (\<lambda>j. j * total_slot_size st) js"
    using js(1) unfolding scan_table_slots by (rule option.inject [THEN iffD1])
  then have "concat (map snd ms) = map (\<lambda>j. Some (j * total_slot_size st)) js" unfolding ms(2) by (simp add: comp_def)
  then show ?thesis using start_at ms(1,3) js(2-4) by blast
qed

theorem source_morsels_cover_witness:
  "\<exists>it ms. iteratorStart demo_full = Some it \<and> source_run (iteratorAdvance demo_full) it_data (fresh_source it) = Some ms \<and>
     concat (map snd ms) = [Some 4, Some 6]"
proof -
  obtain it ms js where r: "iteratorStart demo_full = Some it" "source_run (iteratorAdvance demo_full) it_data (fresh_source it) = Some ms"
    "concat (map snd ms) = map (\<lambda>j. Some (j * 2)) js" "sorted_wrt (<) js" "set js = {2, 3}"
    using source_morsels_cover [OF demo_full_inv] by (auto simp: demo_full_used)
  have "sorted_list_of_set (set js) = js"
    using r(4) by (simp add: strict_sorted_iff sorted_list_of_set.idem_if_sorted_distinct)
  then have "js = [2, 3]" unfolding r(5) by simp
  with r(1-3) show ?thesis by simp
qed

end
