(* ===== verification/Fuse_Chunks.thy ===== *)
theory Fuse_Chunks
  imports Aggregations
begin

text \<open>
  Fuse chunks (\<open>exec/FuseChunk.{h,cpp}\<close>) and the context that holds one for every thread (\<open>exec/ExecutionContext.cpp\<close>): the columns through which
  the fragments of a pipeline hand on their results. \<open>aligned_alloc\<close> is a parameter, since fresh memory has no defined content.
\<close>

record fuse_column =
  col_size :: nat
  raw_data :: bytes

record fuse_chunk =
  chunk_columns :: "iu \<Rightarrow> fuse_column option"
  chunk_capacity :: nat

definition Column :: "(nat \<Rightarrow> bytes) \<Rightarrow> irtype \<Rightarrow> nat \<Rightarrow> fuse_column outcome" where
  "Column aligned_alloc t capacity = obind (numBytes t) (\<lambda>n. Returns \<lparr> col_size = 0, raw_data = aligned_alloc (capacity * n) \<rparr>)"

definition FuseChunk :: fuse_chunk where
  "FuseChunk = \<lparr> chunk_columns = Map.empty, chunk_capacity = 512 \<rparr>"

definition attachColumn :: "(nat \<Rightarrow> bytes) \<Rightarrow> iu \<Rightarrow> fuse_chunk \<Rightarrow> fuse_chunk outcome" where
  "attachColumn aligned_alloc i chunk =
     (if iu_type i = Void then Throws ''Cannot attach void column to FuseChunk.''
      else if chunk_columns chunk i \<noteq> None then Returns chunk
      else obind (Column aligned_alloc (iu_type i) (chunk_capacity chunk)) (\<lambda>col.
        Returns (chunk\<lparr> chunk_columns := (chunk_columns chunk)(i \<mapsto> col) \<rparr>)))"

definition clearColumns :: "fuse_chunk \<Rightarrow> fuse_chunk" where
  "clearColumns chunk = chunk\<lparr> chunk_columns := (\<lambda>i. map_option (\<lambda>col. col\<lparr> col_size := 0 \<rparr>) (chunk_columns chunk i)) \<rparr>"

definition chunk_getColumn :: "fuse_chunk \<Rightarrow> iu \<Rightarrow> fuse_column outcome" where
  "chunk_getColumn chunk i = (case chunk_columns chunk i of None \<Rightarrow> Throws ''iu does not exist in FuseChunk'' | Some col \<Rightarrow> Returns col)"

section \<open>The execution context\<close>

text \<open>\<open>keys\<close> are the IUs of the hash map \<open>iu_providers\<close> of the pipeline in the order of its buckets.\<close>

fun attach_columns :: "(nat \<Rightarrow> bytes) \<Rightarrow> iu list \<Rightarrow> fuse_chunk \<Rightarrow> fuse_chunk outcome" where
  "attach_columns aligned_alloc [] chunk = Returns chunk"
| "attach_columns aligned_alloc (i # keys) chunk =
     (if iu_type i = Void then attach_columns aligned_alloc keys chunk
      else obind (attachColumn aligned_alloc i chunk) (attach_columns aligned_alloc keys))"

definition ExecutionContext :: "(nat \<Rightarrow> bytes) \<Rightarrow> iu list \<Rightarrow> nat \<Rightarrow> fuse_chunk list outcome" where
  "ExecutionContext aligned_alloc keys num_threads = map_outcome (\<lambda>k. attach_columns aligned_alloc keys FuseChunk) [0..<num_threads]"

definition context_getColumn :: "fuse_chunk list \<Rightarrow> iu \<Rightarrow> nat \<Rightarrow> fuse_column outcome" where
  "context_getColumn chunks i thread_id = chunk_getColumn (chunks ! thread_id) i"

definition context_clear :: "nat \<Rightarrow> fuse_chunk list \<Rightarrow> fuse_chunk list outcome" where
  "context_clear thread_id chunks = (if thread_id \<ge> length chunks then Throws ''assertion'' else Returns (chunks[thread_id := clearColumns (chunks ! thread_id)]))"

text \<open>The columns that attaching \<open>keys\<close> leads to: those that were there, and a new one for each other IU that has values.\<close>

definition with_columns :: "(nat \<Rightarrow> bytes) \<Rightarrow> nat \<Rightarrow> iu list \<Rightarrow> (iu \<Rightarrow> fuse_column option) \<Rightarrow> iu \<Rightarrow> fuse_column option" where
  "with_columns alloc capacity keys cols i = (case cols i of Some col \<Rightarrow> Some col
     | None \<Rightarrow> if i \<in> set keys \<and> iu_type i \<noteq> Void
               then Some \<lparr> col_size = 0, raw_data = alloc (capacity * (case numBytes (iu_type i) of Returns n \<Rightarrow> n | _ \<Rightarrow> 0)) \<rparr> else None)"

lemma attached_columns:
  assumes "\<forall>i\<in>set keys. \<exists>n. numBytes (iu_type i) = Returns n"
  shows "\<exists>chunk'. attach_columns alloc keys chunk = Returns chunk' \<and> chunk_capacity chunk' = chunk_capacity chunk \<and>
    chunk_columns chunk' = with_columns alloc (chunk_capacity chunk) keys (chunk_columns chunk)"
  using assms
proof (induction keys arbitrary: chunk)
  case Nil then show ?case by (auto simp: with_columns_def fun_eq_iff split: option.split)
next
  case (Cons i keys)
  obtain n where n: "numBytes (iu_type i) = Returns n" using Cons.prems by auto
  have keys: "\<forall>i\<in>set keys. \<exists>n. numBytes (iu_type i) = Returns n" using Cons.prems by simp
  show ?case
  proof (cases "iu_type i = Void \<or> chunk_columns chunk i \<noteq> None")
    case True
    then have "attach_columns alloc (i # keys) chunk = attach_columns alloc keys chunk"
      by (cases "iu_type i = Void") (simp_all add: attachColumn_def)
    moreover have "with_columns alloc (chunk_capacity chunk) (i # keys) (chunk_columns chunk) =
        with_columns alloc (chunk_capacity chunk) keys (chunk_columns chunk)"
      using True by (auto simp: with_columns_def fun_eq_iff split: option.split)
    ultimately show ?thesis using Cons.IH [of chunk] Cons.prems by simp
  next
    case False
    let ?col = "\<lparr> col_size = 0, raw_data = alloc (chunk_capacity chunk * n) \<rparr>"
    let ?chunk = "chunk\<lparr> chunk_columns := (chunk_columns chunk)(i \<mapsto> ?col) \<rparr>"
    have "attach_columns alloc (i # keys) chunk = attach_columns alloc keys ?chunk" using False n by (simp add: attachColumn_def Column_def)
    moreover have "with_columns alloc (chunk_capacity chunk) (i # keys) (chunk_columns chunk) =
        with_columns alloc (chunk_capacity ?chunk) keys (chunk_columns ?chunk)"
      using False n by (auto simp: with_columns_def fun_eq_iff split: option.split)
    moreover obtain c where "attach_columns alloc keys ?chunk = Returns c" "chunk_capacity c = chunk_capacity ?chunk"
      "chunk_columns c = with_columns alloc (chunk_capacity ?chunk) keys (chunk_columns ?chunk)"
      using Cons.IH [OF keys, of ?chunk] by blast
    ultimately show ?thesis by (intro exI [of _ c] conjI) (simp_all only:, simp)
  qed
qed

text \<open>Every thread has an empty column of 512 values for each IU of the pipeline that has values.\<close>

lemma context_columns:
  assumes "\<forall>i\<in>set keys. \<exists>n. numBytes (iu_type i) = Returns n"
  shows "\<exists>chunks. ExecutionContext alloc keys num_threads = Returns chunks \<and> length chunks = num_threads \<and>
    (\<forall>k<num_threads. \<forall>i\<in>set keys. iu_type i \<noteq> Void \<longrightarrow> (\<exists>col. context_getColumn chunks i k = Returns col \<and> col_size col = 0))"
proof -
  obtain c where c: "attach_columns alloc keys FuseChunk = Returns c" "chunk_columns c = with_columns alloc 512 keys Map.empty"
    using attached_columns [OF assms, of alloc FuseChunk] by (auto simp: FuseChunk_def)
  have "map_outcome (\<lambda>k. Returns c) ks = Returns (map (\<lambda>_. c) ks)" for ks :: "nat list" by (induction ks) simp_all
  then have "ExecutionContext alloc keys num_threads = Returns (map (\<lambda>_. c) [0..<num_threads])" by (simp add: ExecutionContext_def c(1))
  then show ?thesis using c(2) by (auto simp: context_getColumn_def chunk_getColumn_def with_columns_def)
qed

end
