(* ===== verification/Result_Printer.thy ===== *)
theory Result_Printer
  imports RelAlg Relations Fuse_Chunks
begin

text \<open>
  Printing of results (\<open>algebra/Print.cpp\<close>, \<open>codegen/Type.cpp\<close>): every finished morsel of the last pipeline is written as lines of text, up to the
  row limit, under a lock, so the calls of the threads are one sequence.
\<close>

section \<open>Printing one value\<close>

text \<open>The stream's format of floating point numbers, the date library, and the strings in memory are parameters.\<close>

record print_library =
  float_text :: "nat \<Rightarrow> bytes \<Rightarrow> string"
  dateIntToStr :: "int \<Rightarrow> string"
  string_at :: "nat \<Rightarrow> string"

definition byte_char :: "u8 \<Rightarrow> char" where "byte_char b = char_of (unat b)"

text \<open>
  \<open>print\<close> of the types, on the bytes from the address of the value on. An unsigned byte is widened before it goes to the stream; a signed byte
  is not, and comes out as a character.
\<close>

definition int_width :: "nat \<Rightarrow> nat" where "int_width sz = (if sz \<in> {1, 2, 4} then sz else 8)"

fun print_value :: "print_library \<Rightarrow> irtype \<Rightarrow> bytes \<Rightarrow> string outcome" where
  "print_value lib (UnsignedInt sz) data = Returns (to_string (nat (le_uint (take (int_width sz) data))))"
| "print_value lib (SignedInt sz) data =
     Returns (if sz = 1 then [byte_char (data ! 0)] else int_string (le_sint (take (int_width sz) data)))"
| "print_value lib (Float sz) data = Returns (float_text lib sz (take (if sz = 4 then 4 else 8) data))"
| "print_value lib Bool data = Returns (if data ! 0 \<noteq> 0 then ''true'' else ''false'')"
| "print_value lib CharT data = Returns [byte_char (data ! 0)]"
| "print_value lib StringT data = Returns (string_at lib (nat (le_uint (take 8 data))))"
| "print_value lib Date data = Returns (dateIntToStr lib (le_sint (take 4 data)))"
| "print_value lib _ data = Throws ''Type cannot be printed''"

lemma signed_byte_printed:
  "print_value lib (SignedInt 1) [65] = Returns ''A''" "print_value lib (UnsignedInt 1) [65] = Returns ''65''"
  by (simp_all add: byte_char_def char_of_def int_width_def to_string.simps digit_def bit_Suc_0_iff)

section \<open>The pretty printer\<close>

record pretty_printer =
  printer_ius :: "iu list"
  col_names :: "string list"
  row_limit :: "nat option"
  morsel_count :: nat
  num_rows :: nat
  out_stream :: "string option"

definition PrettyPrinter :: "iu list \<Rightarrow> string list \<Rightarrow> nat option \<Rightarrow> pretty_printer outcome" where
  "PrettyPrinter ius colnames limit =
     (if ius = [] then Throws ''PrettyPrinter must produce at least one column''
      else if length ius \<noteq> length colnames then Throws ''PrettyPrinter name/iu schema must have the same number of entries''
      else Returns \<lparr> printer_ius = ius, col_names = colnames, row_limit = limit, morsel_count = 0, num_rows = 0, out_stream = None \<rparr>)"

definition setOstream :: "string \<Rightarrow> pretty_printer \<Rightarrow> pretty_printer" where
  "setOstream out pr = pr\<lparr> out_stream := Some out \<rparr>"

definition end_line :: string where "end_line = [CHR 0x0A]"

fun joined :: "string \<Rightarrow> string list \<Rightarrow> string" where
  "joined sep [] = []"
| "joined sep [t] = t"
| "joined sep (t # ts) = t @ sep @ joined sep ts"

definition header_line :: "string list \<Rightarrow> string" where
  "header_line colnames = joined '', '' colnames @ end_line"

text \<open>The value of a column in a row, and the line of a row.\<close>

definition print_cell :: "print_library \<Rightarrow> nat \<Rightarrow> iu \<times> fuse_column \<Rightarrow> string outcome" where
  "print_cell lib row ic = (case ic of (i, col) \<Rightarrow>
     obind (numBytes (iu_type i)) (\<lambda>n. print_value lib (iu_type i) (drop (row * n) (raw_data col))))"

definition row_line :: "print_library \<Rightarrow> (iu \<times> fuse_column) list \<Rightarrow> nat \<Rightarrow> string outcome" where
  "row_line lib cols row = obind (map_outcome (print_cell lib row) cols) (\<lambda>cells. Returns (joined '','' cells @ end_line))"

definition markMorselDone :: "print_library \<Rightarrow> fuse_chunk \<Rightarrow> pretty_printer \<Rightarrow> (bool \<times> pretty_printer) outcome" where
  "markMorselDone lib chunk pr =
     (let ius = printer_ius pr in
      obind (chunk_getColumn chunk (ius ! 0)) (\<lambda>col0.
        let chunk_size = col_size col0;
            write = (case row_limit pr of None \<Rightarrow> chunk_size | Some limit \<Rightarrow> min chunk_size limit);
            limit = map_option (\<lambda>l. l - write) (row_limit pr);
            pr1 = pr\<lparr> row_limit := limit, num_rows := num_rows pr + write \<rparr> in
        case out_stream pr of
          None \<Rightarrow> Returns (limit = Some 0, pr1)
        | Some out \<Rightarrow>
            let out1 = (if morsel_count pr = 0 then out @ header_line (col_names pr) else out) in
            obind (map_outcome (chunk_getColumn chunk) ius) (\<lambda>cols.
              if \<not> list_all (\<lambda>col. col_size col = chunk_size) cols then Throws ''assertion''
              else obind (map_outcome (row_line lib (zip ius cols)) [0..<write]) (\<lambda>ls.
                Returns (limit = Some 0, pr1\<lparr> out_stream := Some (out1 @ concat ls), morsel_count := morsel_count pr + 1 \<rparr>)))))"

text \<open>The morsels in the order in which the threads get the lock, with the answer to the last of them.\<close>

fun mark_all :: "print_library \<Rightarrow> fuse_chunk list \<Rightarrow> bool \<times> pretty_printer \<Rightarrow> (bool \<times> pretty_printer) outcome" where
  "mark_all lib [] s = Returns s"
| "mark_all lib (m # ms) (closed, pr) = obind (markMorselDone lib m pr) (mark_all lib ms)"

section \<open>What is printed\<close>

text \<open>The lines of a morsel that fits the schema: columns of one size, and a line for every row.\<close>

definition morsel_lines :: "print_library \<Rightarrow> iu list \<Rightarrow> fuse_chunk \<Rightarrow> string list \<Rightarrow> bool" where
  "morsel_lines lib ius m ls \<longleftrightarrow> (\<exists>cols. map_outcome (chunk_getColumn m) ius = Returns cols \<and> list_all (\<lambda>col. col_size col = length ls) cols \<and>
     map_outcome (row_line lib (zip ius cols)) [0..<length ls] = Returns ls)"

definition up_to :: "nat option \<Rightarrow> 'a list \<Rightarrow> 'a list" where
  "up_to limit xs = (case limit of None \<Rightarrow> xs | Some n \<Rightarrow> take n xs)"

lemma map_outcome_take: "map_outcome f xs = Returns ys \<Longrightarrow> map_outcome f (take n xs) = Returns (take n ys)"
proof (induction xs arbitrary: ys n)
  case (Cons x xs)
  then show ?case by (cases n) (auto simp: obind_Returns_iff)
qed simp

lemma up_to_length: "length (up_to limit xs) = (case limit of None \<Rightarrow> length xs | Some n \<Rightarrow> min (length xs) n)"
  by (auto simp: up_to_def split: option.splits)

lemma up_to_append: "up_to limit (xs @ ys) = up_to limit xs @ up_to (map_option (\<lambda>n. n - length (up_to limit xs)) limit) ys"
  by (cases limit) (simp_all add: up_to_def min_def)

text \<open>One morsel of a printer that has a stream.\<close>

lemma marked:
  assumes "morsel_lines lib (printer_ius pr) m ls" "printer_ius pr \<noteq> []" "out_stream pr = Some out"
  shows "markMorselDone lib m pr = Returns (map_option (\<lambda>n. n - length (up_to (row_limit pr) ls)) (row_limit pr) = Some 0,
    pr\<lparr> row_limit := map_option (\<lambda>n. n - length (up_to (row_limit pr) ls)) (row_limit pr), num_rows := num_rows pr + length (up_to (row_limit pr) ls),
        out_stream := Some ((if morsel_count pr = 0 then out @ header_line (col_names pr) else out) @ concat (up_to (row_limit pr) ls)),
        morsel_count := morsel_count pr + 1 \<rparr>)"
proof -
  obtain cols where cols: "map_outcome (chunk_getColumn m) (printer_ius pr) = Returns cols" "list_all (\<lambda>col. col_size col = length ls) cols"
      "map_outcome (row_line lib (zip (printer_ius pr) cols)) [0..<length ls] = Returns ls"
    using assms(1) by (auto simp: morsel_lines_def)
  let ?rows = "row_line lib (zip (printer_ius pr) cols)" and ?n = "length (up_to (row_limit pr) ls)"
  obtain i ius where ius: "printer_ius pr = i # ius" using assms(2) by (cases "printer_ius pr") auto
  then obtain col0 cols' where col0: "chunk_getColumn m (printer_ius pr ! 0) = Returns col0" "cols = col0 # cols'"
    using cols(1) by (auto simp: obind_Returns_iff)
  then have size: "col_size col0 = length ls" using cols(2) by simp
  have w: "(case row_limit pr of None \<Rightarrow> col_size col0 | Some limit \<Rightarrow> min (col_size col0) limit) = ?n"
    unfolding size by (simp add: up_to_length)
  have "up_to (row_limit pr) ls = take ?n ls" "?n \<le> length ls" by (cases "row_limit pr"; simp add: up_to_def min_def)+
  moreover have "map_outcome ?rows (take ?n [0..<length ls]) = Returns (take ?n ls)" by (rule map_outcome_take [OF cols(3)])
  ultimately have "map_outcome ?rows [0..<?n] = Returns (up_to (row_limit pr) ls)" by (simp add: take_upt)
  then show ?thesis using col0(1) cols(1,2) size assms(3) by (simp add: markMorselDone_def Let_def w del: upt_Suc)
qed

lemma all_marked:
  assumes "printer_ius pr \<noteq> []" "out_stream pr = Some out" "0 < morsel_count pr" "list_all2 (morsel_lines lib (printer_ius pr)) ms lss"
    and "closed = (row_limit pr = Some 0)"
  shows "\<exists>pr'. mark_all lib ms (closed, pr) = Returns (row_limit pr' = Some 0, pr') \<and>
    out_stream pr' = Some (out @ concat (up_to (row_limit pr) (concat lss))) \<and> num_rows pr' = num_rows pr + length (up_to (row_limit pr) (concat lss)) \<and>
    row_limit pr' = map_option (\<lambda>n. n - length (up_to (row_limit pr) (concat lss))) (row_limit pr)"
  using assms
proof (induction ms arbitrary: pr out lss closed)
  case Nil
  then have e: "lss = []" by simp
  then have "map_option (\<lambda>n. n - length (up_to (row_limit pr) (concat lss))) (row_limit pr) = row_limit pr"
    by (simp add: up_to_def option.map_ident split: option.split)
  then show ?case using Nil by (simp add: up_to_def e split: option.split)
next
  case (Cons m ms)
  then obtain ls lss' where ls: "lss = ls # lss'" "morsel_lines lib (printer_ius pr) m ls" "list_all2 (morsel_lines lib (printer_ius pr)) ms lss'"
    by (auto simp: list_all2_Cons1)
  let ?n = "length (up_to (row_limit pr) ls)"
  let ?pr = "pr\<lparr> row_limit := map_option (\<lambda>n. n - ?n) (row_limit pr), num_rows := num_rows pr + ?n,
        out_stream := Some (out @ concat (up_to (row_limit pr) ls)), morsel_count := morsel_count pr + 1 \<rparr>"
  have "markMorselDone lib m pr = Returns (row_limit ?pr = Some 0, ?pr)"
    using marked [OF ls(2) Cons.prems(1,2)] Cons.prems(3) by simp
  moreover obtain pr' where pr': "mark_all lib ms (row_limit ?pr = Some 0, ?pr) = Returns (row_limit pr' = Some 0, pr')"
      "out_stream pr' = Some ((out @ concat (up_to (row_limit pr) ls)) @ concat (up_to (row_limit ?pr) (concat lss')))"
      "num_rows pr' = num_rows ?pr + length (up_to (row_limit ?pr) (concat lss'))"
      "row_limit pr' = map_option (\<lambda>n. n - length (up_to (row_limit ?pr) (concat lss'))) (row_limit ?pr)"
    using Cons.IH [of ?pr "out @ concat (up_to (row_limit pr) ls)" lss' "row_limit ?pr = Some 0"] Cons.prems(1) ls(3) by auto
  ultimately have "mark_all lib (m # ms) (closed, pr) = Returns (row_limit pr' = Some 0, pr')" by simp
  moreover have "up_to (row_limit pr) (concat lss) = up_to (row_limit pr) ls @ up_to (row_limit ?pr) (concat lss')"
    unfolding ls(1) by (simp add: up_to_append)
  moreover have "map_option (\<lambda>n. n - k) (map_option (\<lambda>n. n - j) x) = map_option (\<lambda>n. n - (j + k)) x" for j k :: nat and x
    by (simp add: option.map_comp comp_def)
  ultimately show ?case using pr'(2-4) by (intro exI [of _ pr']) simp
qed

text \<open>
  The printed result. For any sequence of morsels whose columns fit the schema, the printer writes the header once, in front of the first
  morsel, and then the lines of the first rows of all morsels together, up to the row limit, each once and in order; it counts the rows that it
  wrote, and answers that the output is closed exactly when the limit has been reached.
\<close>

theorem printed_result:
  assumes "PrettyPrinter ius colnames limit = Returns pr" "list_all2 (morsel_lines lib ius) (m # ms) lss"
  shows "\<exists>closed pr'. mark_all lib (m # ms) (False, setOstream [] pr) = Returns (closed, pr') \<and>
    out_stream pr' = Some (header_line colnames @ concat (up_to limit (concat lss))) \<and>
    num_rows pr' = length (up_to limit (concat lss)) \<and> (closed \<longleftrightarrow> (\<exists>n. limit = Some n \<and> n \<le> length (concat lss)))"
proof -
  have pr: "pr = \<lparr> printer_ius = ius, col_names = colnames, row_limit = limit, morsel_count = 0, num_rows = 0, out_stream = None \<rparr>" "ius \<noteq> []"
    using assms(1) by (auto simp: PrettyPrinter_def split: if_splits)
  obtain ls lss' where ls: "lss = ls # lss'" "morsel_lines lib ius m ls" "list_all2 (morsel_lines lib ius) ms lss'"
    using assms(2) by (auto simp: list_all2_Cons1)
  let ?start = "setOstream [] pr" and ?n = "length (up_to limit ls)"
  let ?pr = "?start\<lparr> row_limit := map_option (\<lambda>n. n - ?n) limit, num_rows := ?n, out_stream := Some (header_line colnames @ concat (up_to limit ls)), morsel_count := 1 \<rparr>"
  have "markMorselDone lib m ?start = Returns (row_limit ?pr = Some 0, ?pr)"
    using marked [of lib ?start m ls "[]"] ls(2) pr by (simp add: setOstream_def)
  moreover obtain pr' where pr': "mark_all lib ms (row_limit ?pr = Some 0, ?pr) = Returns (row_limit pr' = Some 0, pr')"
      "out_stream pr' = Some ((header_line colnames @ concat (up_to limit ls)) @ concat (up_to (row_limit ?pr) (concat lss')))"
      "num_rows pr' = num_rows ?pr + length (up_to (row_limit ?pr) (concat lss'))"
      "row_limit pr' = map_option (\<lambda>n. n - length (up_to (row_limit ?pr) (concat lss'))) (row_limit ?pr)"
    using all_marked [of ?pr "header_line colnames @ concat (up_to limit ls)" lib ms lss' "row_limit ?pr = Some 0"] pr ls(3)
    by (auto simp: setOstream_def)
  ultimately have "mark_all lib (m # ms) (False, ?start) = Returns (row_limit pr' = Some 0, pr')" by simp
  moreover have all: "up_to limit (concat lss) = up_to limit ls @ up_to (row_limit ?pr) (concat lss')"
    unfolding ls(1) by (simp add: up_to_append)
  moreover have "row_limit pr' = Some 0 \<longleftrightarrow> (\<exists>n. limit = Some n \<and> n \<le> length (concat lss))"
  proof -
    have "row_limit pr' = map_option (\<lambda>n. n - length (up_to limit (concat lss))) limit"
      unfolding pr'(4) all by (simp add: option.map_comp comp_def)
    then show ?thesis by (cases limit) (auto simp: up_to_def)
  qed
  ultimately show ?thesis using pr'(2,3) by (intro exI [of _ "row_limit pr' = Some 0"] exI [of _ pr']) simp
qed

definition ex_library :: print_library where
  "ex_library = \<lparr> float_text = (\<lambda>_ _. []), dateIntToStr = (\<lambda>_. []), string_at = (\<lambda>_. []) \<rparr>"

definition ex_chunk :: fuse_chunk where
  "ex_chunk = \<lparr> chunk_columns = (\<lambda>_. Some \<lparr> col_size = 2, raw_data = [7, 0, 9, 0] \<rparr>), chunk_capacity = 512 \<rparr>"

theorem printed_result_witness:
  "\<exists>pr closed pr'. PrettyPrinter [own_iu 0 (UnsignedInt 2)] [''n''] (Some 3) = Returns pr \<and>
    mark_all ex_library [ex_chunk, ex_chunk] (False, setOstream [] pr) = Returns (closed, pr') \<and>
    out_stream pr' = Some (''n'' @ end_line @ ''7'' @ end_line @ ''9'' @ end_line @ ''7'' @ end_line) \<and> num_rows pr' = 3 \<and> closed"
proof -
  let ?ius = "[own_iu 0 (UnsignedInt 2)]"
  obtain pr where pr: "PrettyPrinter ?ius [''n''] (Some 3) = Returns pr" by (simp add: PrettyPrinter_def)
  have digits: "to_string 7 = ''7''" "to_string 9 = ''9''" by code_simp+
  have "[0..<Suc (Suc 0)] = [0, 1]" by simp
  then have "morsel_lines ex_library ?ius ex_chunk [''7'' @ end_line, ''9'' @ end_line]"
    by (simp add: morsel_lines_def ex_chunk_def chunk_getColumn_def row_line_def print_cell_def own_iu_def int_width_def digits)
  from printed_result [OF pr, of ex_library ex_chunk "[ex_chunk]" "[[''7'' @ end_line, ''9'' @ end_line], [''7'' @ end_line, ''9'' @ end_line]]"] this pr
  show ?thesis by (auto simp: up_to_def header_line_def eval_nat_numeral)
qed

end
