(* ===== verification/C_Runner.thy ===== *)
theory C_Runner
  imports C_Backend
begin

text \<open>
  The runner of compiled code (\<open>exec/runners/CompiledRunner.cpp\<close>): it has the code of a pipeline generated, compiled in a process that can be
  interrupted, and looked up.
\<close>

record compiled_runner =
  runner_name :: string
  runner_program :: "backend_program option"
  fct :: "nat option"
  prepared :: bool

text \<open>A runner without a name gets the next number.\<close>

definition CompiledRunner :: "string \<Rightarrow> nat \<Rightarrow> compiled_runner \<times> nat" where
  "CompiledRunner name runner_id =
     (if name = [] then (\<lparr> runner_name = ''pipeline_'' @ to_string runner_id, runner_program = None, fct = None, prepared = False \<rparr>, runner_id + 1)
      else (\<lparr> runner_name = name, runner_program = None, fct = None, prepared = False \<rparr>, runner_id))"

definition generateC ::
  "nat \<Rightarrow> string \<Rightarrow> c_names \<Rightarrow> pipeline \<Rightarrow> bool \<Rightarrow> (subop \<Rightarrow> ir_value option) \<Rightarrow> compiled_runner \<Rightarrow> backend_c \<Rightarrow> (compiled_runner \<times> backend_c) outcome" where
  "generateC fuel prelude N p inline type_param r bk =
     obind (compile fuel p inline type_param) (\<lambda>b.
     obind (generate_c fuel prelude N (pipeline_program (runner_name r) b) bk) (\<lambda>(text, bk1).
       Returns (r\<lparr> runner_program := Some (BackendProgramC text (runner_name r)) \<rparr>, bk1)))"

definition generateMachineCode ::
  "toolchain \<Rightarrow> compiled_runner \<Rightarrow> backend_c \<Rightarrow> interruptable_job \<Rightarrow> (bool \<times> compiled_runner \<times> backend_c \<times> interruptable_job) outcome" where
  "generateMachineCode tools r bk job = (case runner_program r of None \<Rightarrow> Throws ''null pointer'' | Some bp \<Rightarrow>
     obind (compileToMachinecode tools False bp bk job) (\<lambda>(bp1, bk1, job1).
     obind (getResult job1) (\<lambda>change.
       if change = JobDone
       then obind (get_function_handle tools ''execute'' bp1) (\<lambda>(f, bp2).
              if f = None then Throws ''assertion''
              else Returns (True, r\<lparr> runner_program := Some bp2, fct := f, prepared := True \<rparr>, bk1, job1))
       else Returns (prepared r, r\<lparr> runner_program := Some bp1 \<rparr>, bk1, job1))))"

text \<open>
  The outcome of compiling in the background. When the toolchain works, a runner whose program has not been compiled yet ends up in exactly
  one of these ways: interrupted before it is asked, it returns without a function and without having registered the program, whatever the exit
  code of the killed compiler; with the process finished, it has the function \<open>execute\<close> of the linked object if the compiler succeeded, and
  throws if it did not or the object cannot be loaded; otherwise it waits.
\<close>

theorem machine_code_outcome:
  assumes "runner_program r = Some bp" "\<not> was_compiled bp" "so_handle bp = None" "jit_compiler tools = Some cc" "fd_process job = -1"
    and "healthy (shell tools) (jit_command cc (prog_name bp))"
  shows "generateMachineCode tools r bk job =
    (let command = jit_command cc (prog_name bp);
         bk1 = dump (prog_name bp) (program_text bp) bk;
         job1 = (\<lambda>change. job\<lparr> fd_process := pidfd_open (shell tools) command, job_result := Some change \<rparr>) in
     if fd_event job \<noteq> 0 then Returns (prepared r, r\<lparr> runner_program := Some (bp\<lparr> was_compiled := True \<rparr>) \<rparr>, bk1, job1 Interrupted)
     else if \<not> process_ends (shell tools) command then Diverges
     else if exit_code (shell tools) command \<noteq> Some 0 then Throws (''Compilation failed. Command: '' @ command)
     else case dlopen tools (so_path (prog_name bp)) of None \<Rightarrow> Throws ''Could not link BackendProgramC.''
     | Some h \<Rightarrow> (case dlsym tools h ''execute'' of None \<Rightarrow> Throws ''assertion''
       | Some f \<Rightarrow> Returns (True, r\<lparr> runner_program := Some (bp\<lparr> was_compiled := True, so_handle := Some h \<rparr>), fct := Some f, prepared := True \<rparr>,
                          bk1\<lparr> compiled_programs := List.insert (prog_name bp) (compiled_programs bk1) \<rparr>, job1 JobDone)))"
proof -
  obtain e where e: "exit_code (shell tools) (jit_command cc (prog_name bp)) = Some e" using assms(6) by (auto simp: healthy_def)
  show ?thesis
    using assms(1-4) runShell_fresh [OF assms(6,5)] e
    by (auto simp: generateMachineCode_def compileToMachinecode_def run_compiler_def getResult_def get_function_handle_def link_def Let_def
        split: option.split)
qed

definition ex_tools :: toolchain where
  "ex_tools = \<lparr> jit_compiler = Some ''clang-14'', object_dependencies = [], dlopen = (\<lambda>_. Some 1), dlsym = (\<lambda>_ _. Some 2),
     shell = \<lparr> starts_command = (\<lambda>_. True), pidfd_open = (\<lambda>_. 5), poll_works = True, process_ends = (\<lambda>_. True), terminates = (\<lambda>_. True), exit_code = (\<lambda>_. Some 0) \<rparr> \<rparr>"

definition ex_runner :: compiled_runner where
  "ex_runner = (fst (CompiledRunner [] 0))\<lparr> runner_program := Some (BackendProgramC ''text'' ''pipeline_0'') \<rparr>"

theorem machine_code_outcome_witness:
  "\<exists>r bk job. generateMachineCode ex_tools ex_runner \<lparr> dumped = [], compiled_programs = [], files = Map.empty \<rparr> InterruptableJob = Returns (True, r, bk, job) \<and>
     fct r = Some 2 \<and> compiled_programs bk = [''pipeline_0''] \<and> getResult job = Returns JobDone"
proof -
  have r: "runner_program ex_runner = Some (BackendProgramC ''text'' ''pipeline_0'')" by (simp add: ex_runner_def)
  show ?thesis
    using machine_code_outcome [OF r, of ex_tools "''clang-14''" InterruptableJob]
    by (simp add: BackendProgramC_def ex_tools_def InterruptableJob_def healthy_def Let_def dump_def getResult_def)
qed

end
