(* ===== verification/Spec2Isabelle.thy ===== *)
theory Spec2Isabelle
  imports C_Roundtrip C_Functions HashTable_Direct Join_Build Join_Props Merging_Props Executor_Props ROF_Props Relation_Props TPCH_Interpreted
    Table_Source Result_Printer C_Runner
begin

text \<open>
  A verification of InkFuse (\<open>src/src\<close>), an analytical query engine. A relational plan decays into pipelines of suboperators; a pipeline is
  run by code generated for all of it, by pre-compiled fragments of one suboperator each, or by a mixture of both; tables, joins and
  aggregations share a small runtime of hash tables, tuple buffers and arenas.

  \<^bold>\<open>How to read it.\<close> Definitions carry the names of the C++ functions they translate. Objects are records, an object's address is a
  number, and what the code compares by pointer is compared by that number. Words of a fixed width are used where wrap-around matters (hashes,
  tags, granules), natural numbers where the code's sizes cannot overflow. A function that may throw, fail an assertion or loop forever has a
  value of \<open>'a outcome\<close>: \<open>Returns\<close>, \<open>Throws\<close> with the text of the exception, or \<open>Diverges\<close>. Memory is a list of bytes.

  \<^bold>\<open>Shared.\<close>
  \<^item> \<open>Ink_Prelude\<close>: machine types, outcomes, reads and writes of bytes, the unbounded probing loop, lemmas on lists.
  \<^item> \<open>IR_Types\<close> (\<open>codegen/Type.h\<close>, \<open>codegen/Value.h\<close>, \<open>algebra/IU.h\<close>): types with widths and identifiers, constants, information units (IUs).

  \<^bold>\<open>Runtime.\<close>
  \<^item> \<open>HashTables\<close> (\<open>runtime/HashTables.{h,cpp}\<close>): the aggregation tables, written once over how keys are hashed and compared.
    \<open>HashTable_Inv\<close> has the invariant and the locale \<open>key_laws\<close> of the key comparison; \<open>HashTable_Ops\<close> and \<open>HashTable_Iter\<close> show inside it what each
    operation and the iterator do; \<open>HashTable_Props\<close> interprets it on the simple and on the string keys and states the refinement of
    finite maps; \<open>HashTable_Direct\<close> has the table for two byte keys and the sizes of the merge tables.
  \<^item> \<open>AtomicHashTable\<close> (\<open>runtime/NewHashTables.{h,cpp}\<close>): the join table as one thread runs it. \<open>Atomic_Props\<close> relates it to the multiset of rows.
    \<open>Atomic_Parallel\<close> splits insert and lookupDisable into their atomic actions and shows that every interleaving of any number of threads
    ends in a correct table, hands out each row at most once and never gets stuck.
  \<^item> \<open>Morsels\<close>: threads that drain a shared source, with the locale of such sources and the table scan as an instance.
  \<^item> \<open>Runtime_Memory\<close> (\<open>runtime/TupleMaterializer\<close>, \<open>runtime/MemoryRuntime\<close>, \<open>common/Barrier\<close>): tuple buffers, the arena of a thread, the barrier
    with its condition variable.
  \<^item> \<open>Table_Source\<close> (\<open>algebra/suboperators/sources/HashTableSource\<close>): the morsels of a hash table and the loop over them, with the locale of
    the tables' iterators.
  \<^item> \<open>Relations\<close>, \<open>Relation_Props\<close> (\<open>storage/Relation.{h,cpp}\<close>): stored columns and the loading of rows of text.
  \<^item> \<open>Fuse_Chunks\<close> (\<open>exec/FuseChunk\<close>, \<open>exec/ExecutionContext\<close>), \<open>Result_Printer\<close> (\<open>algebra/Print.cpp\<close>, \<open>codegen/Type.cpp\<close>): the columns that
    fragments exchange, and how the result is printed: the header, then the lines of the first rows up to the limit.

  \<^bold>\<open>Pipelines and plans.\<close>
  \<^item> \<open>Pipelines\<close> (\<open>algebra/Pipeline.{h,cpp}\<close>, \<open>algebra/suboperators/Suboperator.h\<close>): suboperators, the dependency graph, the cutting of pipelines.
    \<open>Pipeline_Props\<close>: the graph is the data flow; fragments are closed and exchange columns through fuse chunks.
  \<^item> \<open>Pipeline_DAG\<close>: the DAG with continuations, runtime tasks and deferred state, and the order of execution.
  \<^item> \<open>Aggregations\<close>, \<open>Aggregation_Props\<close> (\<open>algebra/Aggregation.cpp\<close>, \<open>AggFunctionRegistry.cpp\<close>): planning, layout and decay of aggregations.
    \<open>Merging\<close>, \<open>Merging_Props\<close> (\<open>algebra/AggregationMerger\<close>): merging the tables of the threads.
  \<^item> \<open>Joins\<close>, \<open>Join_Props\<close>, \<open>Join_Build\<close> (\<open>algebra/Join.cpp\<close>): row layouts, suboperators, the parallel build and the probe behind it.
  \<^item> \<open>RelAlg\<close> (\<open>algebra/TableScan\<close>, \<open>Filter\<close>, \<open>ExpressionOp\<close>, \<open>Print\<close>): the other operators and the decay of a plan.
    \<open>Plan_Invariant\<close>, \<open>Plan_Expr\<close>, \<open>Plan_Grown\<close>, \<open>Plan_Props\<close>, \<open>Plan_Correct\<close> show by induction over the plan that it decays into
    executable pipelines; \<open>Plan_Induct\<close> has the locale by which a property of pipelines is shown for all pipelines of a plan.
  \<^item> \<open>TPCH\<close>, \<open>TPCH_Props\<close>, \<open>TPCH_Interpreted\<close> (\<open>common/TPCH.cpp\<close>): the schema and the query plans, and that they satisfy the hypotheses above.

  \<^bold>\<open>Execution.\<close>
  \<^item> \<open>Fragments\<close>, \<open>Fragment_Names\<close> (\<open>interpreter/*\<close>, \<open>exec/runners/InterpretedRunner\<close>): the fragments, their names, how they are found.
    \<open>Fragment_Props\<close>, \<open>Typed_Subops\<close>, \<open>Typed_Plans\<close>: every suboperator of a plan over the supported types has a fragment of its shape.
  \<^item> \<open>Executor\<close>, \<open>Executor_Props\<close> (\<open>exec/PipelineExecutor\<close>): the hybrid mode with its threads and the background
    compilation, over table scans.
    \<open>ROF_Props\<close>: the intervals of relaxed operator fusion cover the pipeline.

  \<^bold>\<open>Code generation.\<close>
  \<^item> \<open>IR_Code\<close> (\<open>codegen/Expression\<close>, \<open>Statement\<close>, \<open>IR\<close>, \<open>IRBuilder\<close>): the imperative representation and the function builder.
  \<^item> \<open>Subop_Code\<close>, \<open>Subop_Code_Props\<close> (\<open>algebra/suboperators/**\<close>): what every suboperator generates, and that it stays in scope.
  \<^item> \<open>Compilation\<close> (\<open>algebra/CompilationContext\<close>): the requests, notifications and closings that drive the generation.
    \<open>Compilation_Graph\<close>, \<open>Compilation_Open\<close>, \<open>Compilation_Order\<close>, \<open>Compilation_Close\<close> follow the two phases; \<open>Compilation_Scopes\<close> checks
    declarations and blocks; \<open>Compilation_Props\<close> puts them together.
  \<^item> \<open>C_Backend\<close>, \<open>C_Functions\<close> (\<open>codegen/backend_c/*\<close>): the C text of programs, their compiling and linking, the generated runtime functions.
    \<open>Interruptible_Jobs\<close>, \<open>C_Runner\<close> (\<open>exec/InterruptableJob.cpp\<close>, \<open>exec/runners/CompiledRunner.cpp\<close>): compiling in a process that can be
    interrupted, and what the runner has afterwards.
    \<open>C_Reading\<close> is a lexer and a parser of the C that is written, with C's precedences; \<open>C_Printing\<close>, \<open>C_Parsing\<close> and \<open>C_Statements\<close> show for
    expressions, statements and blocks that parsing the text gives back their tree; \<open>C_Code\<close> shows that what the suboperators generate can be
    printed, and \<open>C_Roundtrip\<close> has the round trip of whole pipelines.

  \<^bold>\<open>Fuel and loops.\<close> The probing loops are unbounded and \<open>Diverges\<close> is one of their values; the theorems show that they return whenever the
  table has a free slot, which the load factor guarantees. \<open>run_call\<close> and \<open>close_op\<close> take fuel for the mutual recursion of the compilation,
  \<open>compileBlock\<close> for the blocks inside blocks, and the parser for its calls; the theorems give an amount with which, and with every larger
  one, they return. Everything else is total. Runs of threads are step
  relations; termination is a bound on the number of steps of every run. Threads that wait for a condition variable move when they are
  notified or by a spurious wake-up; the latter are possible at any time, but progress never depends on them and they are not counted.

  \<^bold>\<open>Parameters.\<close> XXH3, the addition of floating point numbers, the date library, \<open>std::stof\<close> and \<open>std::stod\<close>, how a stream prints
  floating point numbers, the rendering of addresses, the answers of the operating system, the measured throughputs and the loaded data are
  arguments of the definitions that use them.

  \<^bold>\<open>Where the theorems stop.\<close> The merging of tables is for simple keys and for tables that do not grow, since a growing merge table writes to a
  freed block; plans are without left outer joins, whose merge task is registered too early; interpreted plans have no operator that reads one IU
  twice; pipelines are not cut at a tuple materialisation or inside a strong link. The manifest lists the first three as findings.

  \<^bold>\<open>Not modelled.\<close> The compiler and the dynamic linker that the C backend calls, performance statistics and CPU pinning, the thread local region
  of the runtime guard, the benchmarks, the tools and the tests. They are input and output, or measure, and hold none of the logic above. The
  property \<open>ct_only_vectorized\<close> is set by no suboperator and left out of the code generation. Outer joins are modelled up to the building of
  their pipelines; the theorems on plans are about plans without them. Concurrency is sequentially consistent.
\<close>

end
